(* ===== verification/Prelude.thy ===== *)
theory Prelude
  imports Main "HOL-Library.Word" "HOL-Library.Multiset"
begin

text \<open>
  Shared vocabulary of the development: the machine types of the C sources, the collections
  of simplification facts that the component theories fill, and the lemmas on lists, bounded
  search loops and unsigned words that several components use.
\<close>

unbundle bit_operations_syntax

section \<open>Machine types\<close>

type_synonym u8 = "8 word"
type_synonym u16 = "16 word"
type_synonym u32 = "32 word"
type_synonym u64 = "64 word"

text \<open>\<open>UINT32_MAX\<close> and \<open>UINT64_MAX\<close> of \<open>stdint.h\<close>.\<close>

abbreviation (input) UINT32_MAX :: u32 where "UINT32_MAX \<equiv> 0xFFFFFFFF"
abbreviation (input) UINT64_MAX :: u64 where "UINT64_MAX \<equiv> 0xFFFFFFFFFFFFFFFF"

section \<open>Collections filled by the component theories\<close>

named_theorems frame_simps \<open>what an operation leaves unchanged\<close>

section \<open>Lists\<close>

lemma nth_update_same [simp]: "i < length xs \<Longrightarrow> xs[i := v] ! i = v"
  by simp

lemma map_list_update_id:
  assumes "f v = f (xs ! i)" shows "map f (xs[i := v]) = map f xs"
proof (cases "i < length xs")
  case True
  then show ?thesis using assms by (metis list_update_id map_update)
qed (simp add: list_update_beyond)

lemma foldl_invariant:
  assumes "P s" and "\<And>s x. x \<in> set xs \<Longrightarrow> P s \<Longrightarrow> P (f s x)"
  shows "P (foldl f s xs)"
  using assms by (induction xs arbitrary: s) auto

text \<open>Deleting position \<open>i\<close> of an array by moving the last element into it.\<close>

definition swap_remove :: "nat \<Rightarrow> 'a list \<Rightarrow> 'a list" where
  "swap_remove i xs = (butlast xs)[i := last xs]"

lemma mset_butlast_last: "xs \<noteq> [] \<Longrightarrow> mset xs = add_mset (last xs) (mset (butlast xs))"
  by (induction xs rule: rev_induct) auto

lemma mset_swap_remove:
  assumes "i < length xs"
  shows "mset (swap_remove i xs) = mset xs - {# xs ! i #}"
proof (cases "i < length (butlast xs)")
  case True
  have nth: "xs ! i = butlast xs ! i" using True by (simp add: nth_butlast)
  have "mset xs = add_mset (last xs) (mset (butlast xs))"
    using assms by (intro mset_butlast_last) auto
  then show ?thesis
    using True nth by (simp add: swap_remove_def mset_update)
next
  case False
  with assms have i: "i = length xs - 1" by simp
  have "xs ! i = last xs" using assms i by (cases xs) (auto simp: last_conv_nth)
  moreover have "mset xs = add_mset (last xs) (mset (butlast xs))"
    using assms by (intro mset_butlast_last) auto
  ultimately show ?thesis using False by (simp add: swap_remove_def list_update_beyond)
qed

lemma length_swap_remove [simp]: "length (swap_remove i xs) = length xs - 1"
  by (simp add: swap_remove_def)

lemma swap_remove_distinct:
  assumes "i < length xs" "distinct xs"
  shows "distinct (swap_remove i xs) \<and> set (swap_remove i xs) = set xs - {xs ! i}"
proof -
  have xs: "mset xs = add_mset (xs ! i) (mset (swap_remove i xs))"
    using assms(1) by (simp add: mset_swap_remove)
  then have "distinct (xs ! i # swap_remove i xs)"
    using assms(2) by (metis mset.simps(2) mset_eq_imp_distinct_iff)
  moreover have "set xs = insert (xs ! i) (set (swap_remove i xs))"
    using xs by (metis set_mset_add_mset_insert set_mset_mset)
  ultimately show ?thesis by auto
qed

section \<open>Reordering commuting steps\<close>

text \<open>\<open>x\<close> occurs somewhere before \<open>y\<close>.\<close>

definition before :: "'a list \<Rightarrow> 'a \<Rightarrow> 'a \<Rightarrow> bool" where
  "before xs x y \<longleftrightarrow> (\<exists>us vs ws. xs = us @ x # vs @ y # ws)"

lemma before_not_both:
  assumes "distinct xs" "before xs x y" shows "\<not> before xs y x"
proof
  assume "before xs y x"
  then obtain us vs ws where b: "xs = us @ y # vs @ x # ws" by (auto simp: before_def)
  from assms(2) obtain us' vs' ws' where a: "xs = us' @ x # vs' @ y # ws'" by (auto simp: before_def)
  have "takeWhile (\<lambda>z. z \<noteq> y) xs = us"
    using assms(1) unfolding b by (subst takeWhile_append2) auto
  then have "x \<notin> set (takeWhile (\<lambda>z. z \<noteq> y) xs)" using assms(1) unfolding b by auto
  moreover have "takeWhile (\<lambda>z. z \<noteq> y) ((us' @ x # vs') @ y # ws') = (us' @ x # vs') @ takeWhile (\<lambda>z. z \<noteq> y) (y # ws')"
    by (rule takeWhile_append2) (use assms(1) a in auto)
  then have "takeWhile (\<lambda>z. z \<noteq> y) xs = us' @ x # vs'" by (simp add: a)
  ultimately show False by simp
qed

lemma foldl_move_front:
  assumes "\<And>y s. y \<in> set us \<Longrightarrow> f (f s y) x = f (f s x) y"
  shows "foldl f s (us @ [x]) = foldl f (f s x) us"
  using assms by (induction us arbitrary: s) auto

lemma foldl_reorder:
  assumes "sorted xs" "distinct xs" "mset ys = mset xs"
    and "\<And>a b s. before ys a b \<Longrightarrow> b < a \<Longrightarrow> f (f s a) b = f (f s b) a"
  shows "foldl f s ys = foldl f s (xs :: 'a :: linorder list)"
  using assms
proof (induction xs arbitrary: ys s)
  case (Cons x xs)
  have "x \<in> set ys" using Cons.prems(3) by (metis list.set_intros(1) set_mset_mset)
  then obtain us vs where ys: "ys = us @ x # vs" by (auto simp: in_set_conv_decomp)
  have ms: "mset (us @ vs) = mset xs" using Cons.prems(3) by (simp add: ys)
  have lt: "x < y" if "y \<in> set us" for y
  proof -
    have "y \<in> set xs" using that ms by (metis UnCI set_append set_mset_mset)
    then show ?thesis using Cons.prems(1,2) by (auto simp: order_less_le)
  qed
  have "foldl f s (us @ [x]) = foldl f (f s x) us"
  proof (rule foldl_move_front)
    fix y s' assume y: "y \<in> set us"
    then obtain us1 us2 where "us = us1 @ y # us2" by (auto simp: in_set_conv_decomp)
    then have "before ys y x" by (auto simp: before_def ys)
    then show "f (f s' y) x = f (f s' x) y" using lt [OF y] Cons.prems(4) by blast
  qed
  then have "foldl f s ys = foldl f (f s x) (us @ vs)" by (simp add: ys)
  also have "\<dots> = foldl f (f s x) xs"
  proof (rule Cons.IH [OF _ _ ms])
    fix a b s' assume ab: "before (us @ vs) a b" "b < a"
    have "before ys a b"
    proof -
      obtain p q r where pqr: "us @ vs = p @ a # q @ b # r" using ab(1) by (auto simp: before_def)
      show ?thesis
      proof (cases "length us \<le> length p")
        case True
        then obtain p' where "p = us @ p'" "vs = p' @ a # q @ b # r"
          using pqr by (auto simp: append_eq_append_conv2)
        then have "ys = (us @ x # p') @ a # q @ b # r" by (simp add: ys)
        then show ?thesis unfolding before_def by blast
      next
        case False
        then obtain u where u: "us = p @ a # u" "u @ vs = q @ b # r"
          using pqr by (auto simp: append_eq_append_conv2 append_eq_Cons_conv)
        show ?thesis
        proof (cases "length u \<le> length q")
          case True
          then obtain q' where "q = u @ q'" "vs = q' @ b # r"
            using u(2) by (auto simp: append_eq_append_conv2)
          then have "ys = p @ a # (u @ x # q') @ b # r" by (simp add: ys u)
          then show ?thesis unfolding before_def by blast
        next
          case False
          then obtain u' where "u = q @ b # u'"
            using u(2) by (auto simp: append_eq_append_conv2 append_eq_Cons_conv)
          then have "ys = p @ a # q @ b # (u' @ x # vs)" by (simp add: ys u)
          then show ?thesis unfolding before_def by blast
        qed
      qed
    qed
    then show "f (f s' a) b = f (f s' b) a" using Cons.prems(4) ab(2) by blast
  qed (use Cons.prems in auto)
  finally show ?case by simp
qed simp

section \<open>Unsigned words read as natural numbers\<close>

lemma unat_add_small: "unat x + unat y < 2 ^ LENGTH('a) \<Longrightarrow> unat (x + y) = unat x + unat y"
  for x y :: "'a::len word"
  by (simp add: unat_word_ariths take_bit_nat_eq_self)

lemma unat_mult_small: "unat x * unat y < 2 ^ LENGTH('a) \<Longrightarrow> unat (x * y) = unat x * unat y"
  for x y :: "'a::len word"
  by (simp add: unat_word_ariths take_bit_nat_eq_self)

lemma unat_mult_le: "unat (x * y) \<le> unat x * unat y" for x y :: "'a::len word"
  by (simp add: unat_word_ariths)

lemma unat_sub_le: "y \<le> x \<Longrightarrow> unat (x - y) = unat x - unat y"
  for x y :: "'a::len word"
  by (simp add: unat_sub word_le_nat_alt)

lemma unat_min: "unat (min x y) = min (unat x) (unat y)"
  for x y :: "'a::len word"
  by (simp add: min_def word_le_nat_alt)

lemma unat_zero_iff: "x = 0 \<longleftrightarrow> unat x = 0"
  for x :: "'a::len word"
  by (simp add: unat_eq_0)

lemma unat_u32_less [simp]: "unat (x :: u32) < 4294967296"
  using unsigned_less [of x] by simp

lemma unat_u32_le [simp]: "unat (x :: u32) \<le> 4294967295"
  using unat_u32_less [of x] by linarith

lemma unat_of_nat_u32: "n < 4294967296 \<Longrightarrow> unat (word_of_nat n :: u32) = n"
  by (simp add: unsigned_of_nat take_bit_nat_eq_self)

lemma unat_u16_less [simp]: "unat (h :: u16) < 65536"
  using unsigned_less [of h] by simp

lemma unat_u8_less [simp]: "unat (h :: u8) < 256"
  using unsigned_less [of h] by simp

lemma unat_ucast_16_32 [simp]: "unat (ucast (w :: u16) :: u32) = unat w"
proof -
  have "unat w < 2 ^ 32" by (rule less_trans [OF unat_u16_less]) simp
  then show ?thesis by (simp add: unsigned_ucast_eq take_bit_nat_eq_self)
qed

lemma unat_ucast_32_16: "unat x < 65536 \<Longrightarrow> unat (ucast (x :: u32) :: u16) = unat x"
  by (simp add: unsigned_ucast_eq take_bit_nat_eq_self)

lemma unat_ucast_8_64: "unat (ucast (w :: u8) :: u64) = unat w"
proof -
  have "unat w < 2 ^ 64" by (rule less_trans [OF unat_u8_less]) simp
  then show ?thesis by (simp add: unsigned_ucast_eq take_bit_nat_eq_self)
qed

lemma unat_ucast_8_32: "unat (ucast (w :: u8) :: u32) = unat w"
proof -
  have "unat w < 2 ^ 32" by (rule less_trans [OF unat_u8_less]) simp
  then show ?thesis by (simp add: unsigned_ucast_eq take_bit_nat_eq_self)
qed

lemma unat_u64_less [simp]: "unat (x :: u64) < 18446744073709551616"
  using unsigned_less [of x] by simp

lemma unat_ucast_32_64 [simp]: "unat (ucast (x :: u32) :: u64) = unat x"
proof -
  have "unat x < 2 ^ 64" by (rule less_trans [OF unat_u32_less]) simp
  then show ?thesis by (simp add: unsigned_ucast_eq take_bit_nat_eq_self)
qed

lemma unat_ucast_64_32: "unat x < 4294967296 \<Longrightarrow> unat (ucast (x :: u64) :: u32) = unat x"
  by (simp add: unsigned_ucast_eq take_bit_nat_eq_self)

lemma u32_mult_exact: "unat (x :: u32) * unat y < 4294967296 \<Longrightarrow> unat (x * y) = unat x * unat y"
  by (simp add: unat_mult_small)

lemma u32_add_exact: "unat (x :: u32) + unat y < 4294967296 \<Longrightarrow> unat (x + y) = unat x + unat y"
  by (simp add: unat_add_small)

lemma u64_mult_exact:
  "unat (x :: u64) * unat y < 18446744073709551616 \<Longrightarrow> unat (x * y) = unat x * unat y"
  by (simp add: unat_mult_small)

lemma u64_add_exact:
  "unat (x :: u64) + unat y < 18446744073709551616 \<Longrightarrow> unat (x + y) = unat x + unat y"
  by (simp add: unat_add_small)

text \<open>The product of two 32-bit values, taken in 64 bits, is exact.\<close>

lemma u32_prod_less: "unat (x :: u32) * unat (y :: u32) \<le> 18446744065119617025"
proof -
  have "unat x * unat y \<le> 4294967295 * 4294967295"
    by (rule mult_le_mono) simp_all
  then show ?thesis by simp
qed

lemma u64_of_u32_mult: "unat (ucast (x :: u32) * ucast (y :: u32) :: u64) = unat x * unat y"
  using u32_prod_less [of x y] by (simp add: u64_mult_exact)

section \<open>Bit fields read as natural numbers\<close>

lemma unat_drop_bit: "unat (drop_bit n w) = unat w div 2 ^ n" for w :: "'a::len word"
  by (simp only: unsigned_drop_bit_eq) (simp add: drop_bit_eq_div take_bit_nat_eq_self)

lemma unat_and_mask:
  "m = mask n \<Longrightarrow> unat (w AND m) = unat w mod 2 ^ n" for w :: "'a::len word"
  by (simp only: take_bit_eq_mask [symmetric] unsigned_take_bit_eq) (simp add: take_bit_eq_mod)

lemma unat_and_ones:
  "unat (w AND (push_bit n 1 - 1)) = unat w mod 2 ^ n" for w :: "'a::len word"
  by (rule unat_and_mask) (simp add: mask_eq_decr_exp push_bit_eq_mult)

lemma unat_push_bit:
  "unat w * 2 ^ n < 2 ^ LENGTH('a) \<Longrightarrow> unat (push_bit n w) = unat w * 2 ^ n" for w :: "'a::len word"
  by (simp only: unsigned_push_bit_eq) (simp add: push_bit_eq_mult take_bit_nat_eq_self)

lemma unat_or_disjoint:
  fixes a b :: "'a::len word"
  assumes "unat a mod 2 ^ n = 0" "unat b < 2 ^ n"
  shows "unat (a OR b) = unat a + unat b"
proof -
  have a: "take_bit n (unat a) = 0" using assms(1) by (simp add: take_bit_eq_mod)
  have b: "take_bit n (unat b) = unat b" using assms(2) by (simp add: take_bit_nat_eq_self)
  have "unat a AND unat b = unat a AND take_bit n (unat b)" by (simp only: b)
  also have "\<dots> = take_bit n (unat a) AND unat b"
    by (simp only: take_bit_eq_mask) (simp only: ac_simps)
  finally have "unat a AND unat b = 0" by (simp add: a)
  then have "unat a OR unat b = unat a + unat b" by (simp add: disjunctive_add_eq_or)
  then show ?thesis by (simp add: unsigned_or_eq)
qed

end
