(* ===== verification/Isa.thy ===== *)
theory Isa
  imports Prelude
begin

text \<open>
  The instruction set of \<open>tu_cmodel/isa/tu_isa.h\<close> and \<open>tu_isa.c\<close>: the opcode catalogue, the 96-bit
  instruction word, the opcode name table, the category and operation queries, and the flag byte.
  An enumerator is a constructor of \<open>tu_isa_opcode\<close> and \<open>opcode_code\<close> is its value in C. An
  instruction carries a raw opcode byte, which need not be the value of an enumerator, so the
  queries take the raw value as a natural number, as the C functions take the integer.
\<close>

section \<open>Opcodes\<close>

datatype (plugins only: code size) tu_isa_opcode =
    TU_ISA_NOP
  | TU_ISA_HALT
  | TU_ISA_SYNC
  | TU_ISA_BARRIER
  | TU_ISA_FENCE
  | TU_ISA_WAIT
  | TU_ISA_SIGNAL
  | TU_ISA_MMA
  | TU_ISA_MMA_BIAS
  | TU_ISA_MMA_FUSED
  | TU_ISA_CONV2D
  | TU_ISA_CONV3D
  | TU_ISA_DEPTHWISE_CONV
  | TU_ISA_TRANSPOSED_CONV
  | TU_ISA_ATTENTION
  | TU_ISA_ATTN_QK
  | TU_ISA_ATTN_PV
  | TU_ISA_ELEMENTWISE
  | TU_ISA_ADD
  | TU_ISA_MUL
  | TU_ISA_RELU
  | TU_ISA_GELU
  | TU_ISA_SILU
  | TU_ISA_TANH
  | TU_ISA_SIGMOID
  | TU_ISA_EXP
  | TU_ISA_SCALE
  | TU_ISA_REDUCE_SUM
  | TU_ISA_REDUCE_MAX
  | TU_ISA_REDUCE_MEAN
  | TU_ISA_SOFTMAX
  | TU_ISA_LOG_SOFTMAX
  | TU_ISA_LAYER_NORM
  | TU_ISA_RMS_NORM
  | TU_ISA_BATCH_NORM
  | TU_ISA_GROUP_NORM
  | TU_ISA_POOL_MAX
  | TU_ISA_POOL_AVG
  | TU_ISA_POOL_GLOBAL_AVG
  | TU_ISA_DMA_LOAD
  | TU_ISA_DMA_STORE
  | TU_ISA_DMA_CHAIN
  | TU_ISA_DMA_LOAD_STRIDED
  | TU_ISA_DMA_STORE_STRIDED
  | TU_ISA_DMA_SCATTER
  | TU_ISA_DMA_GATHER
  | TU_ISA_DMA_BROADCAST
  | TU_ISA_TRANSPOSE
  | TU_ISA_PERMUTE
  | TU_ISA_RESHAPE
  | TU_ISA_SLICE
  | TU_ISA_CONCAT
  | TU_ISA_PAD
  | TU_ISA_TILE
  | TU_ISA_SPARSE_MMA
  | TU_ISA_DECOMPRESS
  | TU_ISA_COMPRESS
  | TU_ISA_SET_CONFIG
  | TU_ISA_GET_CONFIG

text \<open>The value of each enumerator.\<close>

primrec opcode_code :: "tu_isa_opcode \<Rightarrow> nat" where
  "opcode_code TU_ISA_NOP = 0x00"
| "opcode_code TU_ISA_HALT = 0x01"
| "opcode_code TU_ISA_SYNC = 0x02"
| "opcode_code TU_ISA_BARRIER = 0x03"
| "opcode_code TU_ISA_FENCE = 0x04"
| "opcode_code TU_ISA_WAIT = 0x05"
| "opcode_code TU_ISA_SIGNAL = 0x06"
| "opcode_code TU_ISA_MMA = 0x10"
| "opcode_code TU_ISA_MMA_BIAS = 0x11"
| "opcode_code TU_ISA_MMA_FUSED = 0x12"
| "opcode_code TU_ISA_CONV2D = 0x13"
| "opcode_code TU_ISA_CONV3D = 0x14"
| "opcode_code TU_ISA_DEPTHWISE_CONV = 0x15"
| "opcode_code TU_ISA_TRANSPOSED_CONV = 0x16"
| "opcode_code TU_ISA_ATTENTION = 0x17"
| "opcode_code TU_ISA_ATTN_QK = 0x18"
| "opcode_code TU_ISA_ATTN_PV = 0x19"
| "opcode_code TU_ISA_ELEMENTWISE = 0x20"
| "opcode_code TU_ISA_ADD = 0x21"
| "opcode_code TU_ISA_MUL = 0x22"
| "opcode_code TU_ISA_RELU = 0x23"
| "opcode_code TU_ISA_GELU = 0x24"
| "opcode_code TU_ISA_SILU = 0x25"
| "opcode_code TU_ISA_TANH = 0x26"
| "opcode_code TU_ISA_SIGMOID = 0x27"
| "opcode_code TU_ISA_EXP = 0x28"
| "opcode_code TU_ISA_SCALE = 0x29"
| "opcode_code TU_ISA_REDUCE_SUM = 0x30"
| "opcode_code TU_ISA_REDUCE_MAX = 0x31"
| "opcode_code TU_ISA_REDUCE_MEAN = 0x32"
| "opcode_code TU_ISA_SOFTMAX = 0x33"
| "opcode_code TU_ISA_LOG_SOFTMAX = 0x34"
| "opcode_code TU_ISA_LAYER_NORM = 0x35"
| "opcode_code TU_ISA_RMS_NORM = 0x36"
| "opcode_code TU_ISA_BATCH_NORM = 0x37"
| "opcode_code TU_ISA_GROUP_NORM = 0x38"
| "opcode_code TU_ISA_POOL_MAX = 0x40"
| "opcode_code TU_ISA_POOL_AVG = 0x41"
| "opcode_code TU_ISA_POOL_GLOBAL_AVG = 0x42"
| "opcode_code TU_ISA_DMA_LOAD = 0x50"
| "opcode_code TU_ISA_DMA_STORE = 0x51"
| "opcode_code TU_ISA_DMA_CHAIN = 0x52"
| "opcode_code TU_ISA_DMA_LOAD_STRIDED = 0x53"
| "opcode_code TU_ISA_DMA_STORE_STRIDED = 0x54"
| "opcode_code TU_ISA_DMA_SCATTER = 0x55"
| "opcode_code TU_ISA_DMA_GATHER = 0x56"
| "opcode_code TU_ISA_DMA_BROADCAST = 0x57"
| "opcode_code TU_ISA_TRANSPOSE = 0x60"
| "opcode_code TU_ISA_PERMUTE = 0x61"
| "opcode_code TU_ISA_RESHAPE = 0x62"
| "opcode_code TU_ISA_SLICE = 0x63"
| "opcode_code TU_ISA_CONCAT = 0x64"
| "opcode_code TU_ISA_PAD = 0x65"
| "opcode_code TU_ISA_TILE = 0x66"
| "opcode_code TU_ISA_SPARSE_MMA = 0x70"
| "opcode_code TU_ISA_DECOMPRESS = 0x71"
| "opcode_code TU_ISA_COMPRESS = 0x72"
| "opcode_code TU_ISA_SET_CONFIG = 0x7E"
| "opcode_code TU_ISA_GET_CONFIG = 0x7F"

text \<open>\<open>TU_ISA_OPCODE_COUNT\<close>: one more than the last enumerator.\<close>

definition TU_ISA_OPCODE_COUNT :: nat where
  "TU_ISA_OPCODE_COUNT = opcode_code TU_ISA_GET_CONFIG + 1"

text \<open>The order of the enumeration is the order of the values.\<close>

definition all_opcodes :: "tu_isa_opcode list" where
  "all_opcodes =
    [TU_ISA_NOP, TU_ISA_HALT, TU_ISA_SYNC, TU_ISA_BARRIER, TU_ISA_FENCE, TU_ISA_WAIT,
     TU_ISA_SIGNAL, TU_ISA_MMA, TU_ISA_MMA_BIAS, TU_ISA_MMA_FUSED, TU_ISA_CONV2D,
     TU_ISA_CONV3D, TU_ISA_DEPTHWISE_CONV, TU_ISA_TRANSPOSED_CONV, TU_ISA_ATTENTION,
     TU_ISA_ATTN_QK, TU_ISA_ATTN_PV, TU_ISA_ELEMENTWISE, TU_ISA_ADD, TU_ISA_MUL, TU_ISA_RELU,
     TU_ISA_GELU, TU_ISA_SILU, TU_ISA_TANH, TU_ISA_SIGMOID, TU_ISA_EXP, TU_ISA_SCALE,
     TU_ISA_REDUCE_SUM, TU_ISA_REDUCE_MAX, TU_ISA_REDUCE_MEAN, TU_ISA_SOFTMAX,
     TU_ISA_LOG_SOFTMAX, TU_ISA_LAYER_NORM, TU_ISA_RMS_NORM, TU_ISA_BATCH_NORM,
     TU_ISA_GROUP_NORM, TU_ISA_POOL_MAX, TU_ISA_POOL_AVG, TU_ISA_POOL_GLOBAL_AVG,
     TU_ISA_DMA_LOAD, TU_ISA_DMA_STORE, TU_ISA_DMA_CHAIN, TU_ISA_DMA_LOAD_STRIDED,
     TU_ISA_DMA_STORE_STRIDED, TU_ISA_DMA_SCATTER, TU_ISA_DMA_GATHER, TU_ISA_DMA_BROADCAST,
     TU_ISA_TRANSPOSE, TU_ISA_PERMUTE, TU_ISA_RESHAPE, TU_ISA_SLICE, TU_ISA_CONCAT,
     TU_ISA_PAD, TU_ISA_TILE, TU_ISA_SPARSE_MMA, TU_ISA_DECOMPRESS, TU_ISA_COMPRESS,
     TU_ISA_SET_CONFIG, TU_ISA_GET_CONFIG]"

definition opcode_of :: "nat \<Rightarrow> tu_isa_opcode option" where
  "opcode_of n = map_of (map (\<lambda>c. (opcode_code c, c)) all_opcodes) n"

lemma opcode_of_code [simp]: "opcode_of (opcode_code c) = Some c"
  by (cases c) (simp_all add: opcode_of_def all_opcodes_def)

lemma opcode_code_inject [simp]: "opcode_code a = opcode_code b \<longleftrightarrow> a = b"
  by (metis opcode_of_code option.inject)

lemma opcode_code_bound: "opcode_code c < 128"
  by (cases c) simp_all

instantiation tu_isa_opcode :: linorder
begin

definition less_eq_tu_isa_opcode :: "tu_isa_opcode \<Rightarrow> tu_isa_opcode \<Rightarrow> bool" where
  "less_eq_tu_isa_opcode a b \<longleftrightarrow> opcode_code a \<le> opcode_code b"

definition less_tu_isa_opcode :: "tu_isa_opcode \<Rightarrow> tu_isa_opcode \<Rightarrow> bool" where
  "less_tu_isa_opcode a b \<longleftrightarrow> opcode_code a < opcode_code b"

instance
  by standard (auto simp: less_eq_tu_isa_opcode_def less_tu_isa_opcode_def)

end

section \<open>The instruction word\<close>

record tu_instruction =
  ins_opcode :: u8
  ins_flags :: u8
  ins_dim0 :: u16
  ins_dim1 :: u16
  ins_dim2 :: u16
  ins_immediates :: u32

text \<open>The opcode byte as the C integer it is compared with.\<close>

abbreviation op_of :: "tu_instruction \<Rightarrow> nat" where
  "op_of i \<equiv> unat (ins_opcode i)"

section \<open>Names\<close>

text \<open>
  The table \<open>opcode_names[]\<close>; a designator that the initialiser leaves out is \<open>NULL\<close>, here absent.
\<close>

definition opcode_names :: "(nat \<times> string) list" where
  "opcode_names =
    [(opcode_code TU_ISA_NOP, ''NOP''),
     (opcode_code TU_ISA_HALT, ''HALT''),
     (opcode_code TU_ISA_SYNC, ''SYNC''),
     (opcode_code TU_ISA_BARRIER, ''BARRIER''),
     (opcode_code TU_ISA_FENCE, ''FENCE''),
     (opcode_code TU_ISA_WAIT, ''WAIT''),
     (opcode_code TU_ISA_SIGNAL, ''SIGNAL''),
     (7, ''RESERVED_7''),
     (8, ''RESERVED_8''),
     (9, ''RESERVED_9''),
     (10, ''RESERVED_10''),
     (11, ''RESERVED_11''),
     (12, ''RESERVED_12''),
     (13, ''RESERVED_13''),
     (14, ''RESERVED_14''),
     (15, ''RESERVED_15''),
     (opcode_code TU_ISA_MMA, ''MMA''),
     (opcode_code TU_ISA_MMA_BIAS, ''MMA.BIAS''),
     (opcode_code TU_ISA_MMA_FUSED, ''MMA.FUSED''),
     (opcode_code TU_ISA_CONV2D, ''CONV2D''),
     (opcode_code TU_ISA_CONV3D, ''CONV3D''),
     (opcode_code TU_ISA_DEPTHWISE_CONV, ''CONV.DEPTHWISE''),
     (opcode_code TU_ISA_TRANSPOSED_CONV, ''CONV.TRANSPOSED''),
     (opcode_code TU_ISA_ATTENTION, ''ATTENTION''),
     (opcode_code TU_ISA_ATTN_QK, ''ATTN.QK''),
     (opcode_code TU_ISA_ATTN_PV, ''ATTN.PV''),
     (opcode_code TU_ISA_ELEMENTWISE, ''ELEMENTWISE''),
     (opcode_code TU_ISA_ADD, ''ADD''),
     (opcode_code TU_ISA_MUL, ''MUL''),
     (opcode_code TU_ISA_RELU, ''RELU''),
     (opcode_code TU_ISA_GELU, ''GELU''),
     (opcode_code TU_ISA_SILU, ''SILU''),
     (opcode_code TU_ISA_TANH, ''TANH''),
     (opcode_code TU_ISA_SIGMOID, ''SIGMOID''),
     (opcode_code TU_ISA_EXP, ''EXP''),
     (opcode_code TU_ISA_SCALE, ''SCALE''),
     (opcode_code TU_ISA_REDUCE_SUM, ''REDUCE.SUM''),
     (opcode_code TU_ISA_REDUCE_MAX, ''REDUCE.MAX''),
     (opcode_code TU_ISA_REDUCE_MEAN, ''REDUCE.MEAN''),
     (opcode_code TU_ISA_SOFTMAX, ''SOFTMAX''),
     (opcode_code TU_ISA_LOG_SOFTMAX, ''LOG_SOFTMAX''),
     (opcode_code TU_ISA_LAYER_NORM, ''LAYER_NORM''),
     (opcode_code TU_ISA_RMS_NORM, ''RMS_NORM''),
     (opcode_code TU_ISA_BATCH_NORM, ''BATCH_NORM''),
     (opcode_code TU_ISA_GROUP_NORM, ''GROUP_NORM''),
     (opcode_code TU_ISA_POOL_MAX, ''POOL.MAX''),
     (opcode_code TU_ISA_POOL_AVG, ''POOL.AVG''),
     (opcode_code TU_ISA_POOL_GLOBAL_AVG, ''POOL.GLOBAL_AVG''),
     (opcode_code TU_ISA_DMA_LOAD, ''DMA.LOAD''),
     (opcode_code TU_ISA_DMA_STORE, ''DMA.STORE''),
     (opcode_code TU_ISA_DMA_CHAIN, ''DMA.CHAIN''),
     (opcode_code TU_ISA_DMA_LOAD_STRIDED, ''DMA.LOAD.STRIDED''),
     (opcode_code TU_ISA_DMA_STORE_STRIDED, ''DMA.STORE.STRIDED''),
     (opcode_code TU_ISA_DMA_SCATTER, ''DMA.SCATTER''),
     (opcode_code TU_ISA_DMA_GATHER, ''DMA.GATHER''),
     (opcode_code TU_ISA_DMA_BROADCAST, ''DMA.BROADCAST''),
     (opcode_code TU_ISA_TRANSPOSE, ''TRANSPOSE''),
     (opcode_code TU_ISA_PERMUTE, ''PERMUTE''),
     (opcode_code TU_ISA_RESHAPE, ''RESHAPE''),
     (opcode_code TU_ISA_SLICE, ''SLICE''),
     (opcode_code TU_ISA_CONCAT, ''CONCAT''),
     (opcode_code TU_ISA_PAD, ''PAD''),
     (opcode_code TU_ISA_TILE, ''TILE''),
     (opcode_code TU_ISA_SPARSE_MMA, ''SPARSE_MMA''),
     (opcode_code TU_ISA_DECOMPRESS, ''DECOMPRESS''),
     (opcode_code TU_ISA_COMPRESS, ''COMPRESS''),
     (opcode_code TU_ISA_SET_CONFIG, ''SET_CONFIG''),
     (opcode_code TU_ISA_GET_CONFIG, ''GET_CONFIG'')]"

definition tu_isa_opcode_name :: "nat \<Rightarrow> string" where
  "tu_isa_opcode_name opcode =
     (if opcode \<ge> TU_ISA_OPCODE_COUNT then ''UNKNOWN''
      else case map_of opcode_names opcode of None \<Rightarrow> ''UNKNOWN'' | Some s \<Rightarrow> s)"

section \<open>Categories and queries\<close>

datatype tu_isa_category =
    TU_ISA_CAT_CONTROL | TU_ISA_CAT_MATRIX | TU_ISA_CAT_ELEMENTWISE | TU_ISA_CAT_NORM_REDUCE
  | TU_ISA_CAT_POOLING | TU_ISA_CAT_DATA_MOVEMENT | TU_ISA_CAT_DATA_LAYOUT | TU_ISA_CAT_SPARSITY
  | TU_ISA_CAT_CONFIG | TU_ISA_CAT_UNKNOWN

text \<open>The C range test \<open>opcode >= lo && opcode <= hi\<close>.\<close>

abbreviation op_between :: "tu_isa_opcode \<Rightarrow> nat \<Rightarrow> tu_isa_opcode \<Rightarrow> bool" where
  "op_between lo n hi \<equiv> opcode_code lo \<le> n \<and> n \<le> opcode_code hi"

definition tu_isa_opcode_category :: "nat \<Rightarrow> tu_isa_category" where
  "tu_isa_opcode_category opcode =
     (if opcode \<le> opcode_code TU_ISA_SIGNAL then TU_ISA_CAT_CONTROL
      else if op_between TU_ISA_MMA opcode TU_ISA_ATTN_PV then TU_ISA_CAT_MATRIX
      else if op_between TU_ISA_ELEMENTWISE opcode TU_ISA_SCALE then TU_ISA_CAT_ELEMENTWISE
      else if op_between TU_ISA_REDUCE_SUM opcode TU_ISA_GROUP_NORM then TU_ISA_CAT_NORM_REDUCE
      else if op_between TU_ISA_POOL_MAX opcode TU_ISA_POOL_GLOBAL_AVG then TU_ISA_CAT_POOLING
      else if op_between TU_ISA_DMA_LOAD opcode TU_ISA_DMA_BROADCAST then TU_ISA_CAT_DATA_MOVEMENT
      else if op_between TU_ISA_TRANSPOSE opcode TU_ISA_TILE then TU_ISA_CAT_DATA_LAYOUT
      else if op_between TU_ISA_SPARSE_MMA opcode TU_ISA_COMPRESS then TU_ISA_CAT_SPARSITY
      else if op_between TU_ISA_SET_CONFIG opcode TU_ISA_GET_CONFIG then TU_ISA_CAT_CONFIG
      else TU_ISA_CAT_UNKNOWN)"

definition tu_isa_has_sram_operands :: "nat \<Rightarrow> bool" where
  "tu_isa_has_sram_operands opcode \<longleftrightarrow>
     opcode \<notin> set (map opcode_code [TU_ISA_NOP, TU_ISA_HALT, TU_ISA_SYNC, TU_ISA_BARRIER,
       TU_ISA_FENCE, TU_ISA_WAIT, TU_ISA_SIGNAL, TU_ISA_SET_CONFIG, TU_ISA_GET_CONFIG])"

definition tu_isa_is_compute_op :: "nat \<Rightarrow> bool" where
  "tu_isa_is_compute_op opcode =
     (let cat = tu_isa_opcode_category opcode
      in cat = TU_ISA_CAT_MATRIX \<or> cat = TU_ISA_CAT_ELEMENTWISE \<or> cat = TU_ISA_CAT_NORM_REDUCE
         \<or> cat = TU_ISA_CAT_POOLING \<or> cat = TU_ISA_CAT_SPARSITY)"

definition tu_isa_is_dma_op :: "nat \<Rightarrow> bool" where
  "tu_isa_is_dma_op opcode \<longleftrightarrow> tu_isa_opcode_category opcode = TU_ISA_CAT_DATA_MOVEMENT"

section \<open>The flag byte\<close>

definition TU_FLAG_PREC_MASK :: u8 where "TU_FLAG_PREC_MASK = 0x7"
definition TU_FLAG_TRANSPOSE_MASK :: u8 where "TU_FLAG_TRANSPOSE_MASK = push_bit 3 0x3"
definition TU_FLAG_ACT_MASK :: u8 where "TU_FLAG_ACT_MASK = push_bit 5 0x3"
definition TU_FLAG_BIAS :: u8 where "TU_FLAG_BIAS = push_bit 7 1"

text \<open>The four results that \<open>tu_isa_decode_flags\<close> writes through its (non-null) pointers.\<close>

record tu_isa_flags =
  fl_precision :: u8
  fl_transpose :: u8
  fl_activation :: u8
  fl_has_bias :: bool

definition tu_isa_decode_flags :: "u8 \<Rightarrow> tu_isa_flags" where
  "tu_isa_decode_flags flags =
     \<lparr>fl_precision = flags AND TU_FLAG_PREC_MASK,
      fl_transpose = drop_bit 3 (flags AND TU_FLAG_TRANSPOSE_MASK),
      fl_activation = drop_bit 5 (flags AND TU_FLAG_ACT_MASK),
      fl_has_bias = (flags AND TU_FLAG_BIAS \<noteq> 0)\<rparr>"

text \<open>The flag macros of \<open>tu_isa.h\<close> combined, as a producer of an instruction combines them.\<close>

definition flag_byte :: "tu_isa_flags \<Rightarrow> u8" where
  "flag_byte f = fl_precision f OR push_bit 3 (fl_transpose f) OR push_bit 5 (fl_activation f)
     OR (if fl_has_bias f then TU_FLAG_BIAS else 0)"

section \<open>Lemmas\<close>

lemma all_opcodes_complete: "c \<in> set all_opcodes"
  by (cases c) (simp_all add: all_opcodes_def)

lemma opcode_cases_all: "list_all P all_opcodes \<Longrightarrow> P c"
  using all_opcodes_complete by (auto simp: list_all_iff)

lemma category_never_unknown: "tu_isa_opcode_category (opcode_code c) \<noteq> TU_ISA_CAT_UNKNOWN"
  by (rule opcode_cases_all [of _ c]) code_simp

lemma sram_operands_category:
  "tu_isa_has_sram_operands (opcode_code c) \<longleftrightarrow>
     tu_isa_opcode_category (opcode_code c) \<notin> {TU_ISA_CAT_CONTROL, TU_ISA_CAT_CONFIG}"
  by (rule opcode_cases_all [of _ c]) code_simp

lemma opcode_name_known: "tu_isa_opcode_name (opcode_code c) \<noteq> ''UNKNOWN''"
  by (rule opcode_cases_all [of _ c]) code_simp

lemma opcode_names_distinct: "distinct (map fst opcode_names) \<and> distinct (map snd opcode_names)"
  by code_simp

text \<open>Checking a statement on all 256 bytes.\<close>

lemma word_nat_cast_id: "word_of_nat (unat x) = x" for x :: "'a::len word"
  by simp

lemma all_u8:
  assumes "list_all (\<lambda>n. P (word_of_nat n)) [0..<256]"
  shows "P (x :: u8)"
proof -
  have "unat x \<in> set [0..<256]" using unsigned_less [of x] by simp
  then have "P (word_of_nat (unat x))" using assms unfolding list_all_iff by blast
  then show ?thesis by (simp only: word_nat_cast_id)
qed

section \<open>Properties\<close>

text \<open>
  The instruction set's tables agree. Every enumerator has a name other than \<open>UNKNOWN\<close>, two
  enumerators never share one, every enumerator belongs to a category other than
  \<open>TU_ISA_CAT_UNKNOWN\<close>, and exactly the control and configuration operations have no SRAM operands.
\<close>

theorem isa_tables_agree:
  "tu_isa_opcode_name (opcode_code c) \<noteq> ''UNKNOWN''
   \<and> (tu_isa_opcode_name (opcode_code c) = tu_isa_opcode_name (opcode_code d) \<longleftrightarrow> c = d)
   \<and> tu_isa_opcode_category (opcode_code c) \<noteq> TU_ISA_CAT_UNKNOWN
   \<and> (tu_isa_has_sram_operands (opcode_code c) \<longleftrightarrow>
        tu_isa_opcode_category (opcode_code c) \<notin> {TU_ISA_CAT_CONTROL, TU_ISA_CAT_CONFIG})"
proof -
  have known: "\<exists>s. map_of opcode_names (opcode_code c) = Some s
      \<and> tu_isa_opcode_name (opcode_code c) = s" for c
  proof -
    have "map_of opcode_names (opcode_code c) \<noteq> None" by (rule opcode_cases_all [of _ c]) code_simp
    moreover have "opcode_code c < TU_ISA_OPCODE_COUNT" using opcode_code_bound [of c] by (simp add: TU_ISA_OPCODE_COUNT_def)
    ultimately show ?thesis by (auto simp: tu_isa_opcode_name_def)
  qed
  have "c = d" if "tu_isa_opcode_name (opcode_code c) = tu_isa_opcode_name (opcode_code d)"
  proof -
    define s where "s = tu_isa_opcode_name (opcode_code c)"
    have "map_of opcode_names (opcode_code c) = Some s" "map_of opcode_names (opcode_code d) = Some s"
      using known [of c] known [of d] that by (simp_all add: s_def)
    then have in_names: "(opcode_code c, s) \<in> set opcode_names" "(opcode_code d, s) \<in> set opcode_names"
      by (simp_all add: map_of_SomeD)
    have "inj_on snd (set opcode_names)" using opcode_names_distinct distinct_map by blast
    then have "(opcode_code c, s) = (opcode_code d, s)" by (rule inj_onD) (simp_all add: in_names)
    then have "opcode_code c = opcode_code d" by simp
    then show ?thesis by (rule opcode_code_inject [THEN iffD1])
  qed
  then show ?thesis
    using opcode_name_known category_never_unknown sram_operands_category by blast
qed

text \<open>
  Decoding the flag byte loses nothing: the four fields that \<open>tu_isa_decode_flags\<close> extracts,
  put back together with the flag macros, are the byte, for every byte.
\<close>

lemma decode_flags_roundtrip: "flag_byte (tu_isa_decode_flags flags) = flags"
  by (rule all_u8 [of "\<lambda>f. flag_byte (tu_isa_decode_flags f) = f"]) code_simp

end
