(* ===== verification/Scheduler.thy ===== *)
theory Scheduler
  imports Isa
begin

text \<open>
  The scheduling pass of \<open>tu_cmodel/isa/tu_scheduler.c\<close>: SRAM access analysis of an instruction,
  construction of the dependency graph, ASAP/ALAP mobility, the hoisting and barrier counters,
  list scheduling with its three policies, the entry point \<open>tu_sched_run\<close> and the validator.
  The node array of the graph is a list; a node's \<open>preds[]\<close>/\<open>num_preds\<close> and
  \<open>succs[]\<close>/\<open>num_succs\<close> pairs are the lists of the entries in use, never longer than
  \<open>TU_SCHED_MAX_DEPS\<close>. Byte offsets are 32-bit words and wrap as in C; where C multiplies two
  promoted \<open>uint16_t\<close> as \<open>int\<close>, the model takes the product modulo \<open>2^32\<close>.
\<close>

section \<open>Data\<close>

definition TU_SCHED_MAX_INSTRS :: nat where "TU_SCHED_MAX_INSTRS = 256"
definition TU_SCHED_MAX_DEPS :: nat where "TU_SCHED_MAX_DEPS = 16"
definition TU_SCHED_MAX_READY_QUEUE :: nat where "TU_SCHED_MAX_READY_QUEUE = 256"

datatype tu_sched_policy =
  TU_SCHED_POLICY_ASAP | TU_SCHED_POLICY_ALAP | TU_SCHED_POLICY_BALANCED

record tu_sched_config =
  sc_policy :: tu_sched_policy
  sc_hoist_dma :: bool
  sc_insert_barriers :: bool
  sc_pipeline_tiles :: bool
  sc_max_hoist_distance :: nat
  sc_max_window :: nat
  sc_verbose :: bool

definition tu_sched_config_default :: tu_sched_config where
  "tu_sched_config_default =
     \<lparr>sc_policy = TU_SCHED_POLICY_BALANCED, sc_hoist_dma = True, sc_insert_barriers = True,
      sc_pipeline_tiles = True, sc_max_hoist_distance = 32, sc_max_window = TU_SCHED_MAX_INSTRS,
      sc_verbose = False\<rparr>"

text \<open>The region indices \<open>TU_SRAM_W\<close>, \<open>TU_SRAM_A\<close>, \<open>TU_SRAM_O\<close> and their number.\<close>

abbreviation (input) TU_SRAM_W :: nat where "TU_SRAM_W \<equiv> 0"
abbreviation (input) TU_SRAM_A :: nat where "TU_SRAM_A \<equiv> 1"
abbreviation (input) TU_SRAM_O :: nat where "TU_SRAM_O \<equiv> 2"
definition TU_SRAM_REGION_COUNT :: nat where "TU_SRAM_REGION_COUNT = 3"

record tu_sram_access =
  acc_reads :: "bool list"
  acc_writes :: "bool list"
  acc_read_offsets :: "(u32 \<times> u32) list"
  acc_write_offsets :: "(u32 \<times> u32) list"

text \<open>The zeroed access record, and the two assignments that note a read or a write.\<close>

definition no_access :: tu_sram_access where
  "no_access = \<lparr>acc_reads = [False, False, False], acc_writes = [False, False, False],
     acc_read_offsets = [(0, 0), (0, 0), (0, 0)], acc_write_offsets = [(0, 0), (0, 0), (0, 0)]\<rparr>"

definition note_read :: "nat \<Rightarrow> u32 \<Rightarrow> u32 \<Rightarrow> tu_sram_access \<Rightarrow> tu_sram_access" where
  "note_read r lo hi a = a\<lparr>acc_reads := (acc_reads a)[r := True],
     acc_read_offsets := (acc_read_offsets a)[r := (lo, hi)]\<rparr>"

definition note_write :: "nat \<Rightarrow> u32 \<Rightarrow> u32 \<Rightarrow> tu_sram_access \<Rightarrow> tu_sram_access" where
  "note_write r lo hi a = a\<lparr>acc_writes := (acc_writes a)[r := True],
     acc_write_offsets := (acc_write_offsets a)[r := (lo, hi)]\<rparr>"

record tu_sched_node =
  nd_id :: nat
  nd_instr :: tu_instruction
  nd_access :: tu_sram_access
  nd_is_dma :: bool
  nd_is_compute :: bool
  nd_is_barrier :: bool
  nd_preds :: "nat list"
  nd_succs :: "nat list"
  nd_scheduled :: bool
  nd_asap :: int
  nd_alap :: int
  nd_slack :: int

record tu_sched_graph =
  gr_nodes :: "tu_sched_node list"
  gr_built :: bool
  gr_config :: tu_sched_config

record tu_sched_result =
  rs_instructions :: "tu_instruction list"
  rs_num_barriers_inserted :: nat
  rs_num_dma_hoisted :: nat
  rs_estimated_cycles :: nat
  rs_valid :: bool

section \<open>Operation classes\<close>

text \<open>Membership of a raw opcode in the case labels of a C \<open>switch\<close>.\<close>

abbreviation op_in :: "nat \<Rightarrow> tu_isa_opcode list \<Rightarrow> bool" where
  "op_in n cs \<equiv> n \<in> set (map opcode_code cs)"

definition is_dma_op :: "nat \<Rightarrow> bool" where
  "is_dma_op op \<longleftrightarrow> op_between TU_ISA_DMA_LOAD op TU_ISA_DMA_BROADCAST"

definition is_compute_op :: "nat \<Rightarrow> bool" where
  "is_compute_op op \<longleftrightarrow> op_between TU_ISA_MMA op TU_ISA_REDUCE_MEAN
     \<or> op_between TU_ISA_SOFTMAX op TU_ISA_BATCH_NORM
     \<or> op_between TU_ISA_POOL_MAX op TU_ISA_POOL_GLOBAL_AVG
     \<or> op_between TU_ISA_RELU op TU_ISA_EXP
     \<or> op_between TU_ISA_ADD op TU_ISA_MUL
     \<or> op_between TU_ISA_SPARSE_MMA op TU_ISA_COMPRESS"

definition is_barrier_op :: "nat \<Rightarrow> bool" where
  "is_barrier_op op \<longleftrightarrow> op_in op [TU_ISA_BARRIER, TU_ISA_SYNC, TU_ISA_FENCE, TU_ISA_HALT]"

section \<open>Access analysis\<close>

text \<open>The DMA operand fields: region, start and end offset.\<close>

definition extract_dma_range :: "tu_instruction \<Rightarrow> nat \<times> u32 \<times> u32" where
  "extract_dma_range instr =
     (let op = op_of instr;
          channel =
            (if op_in op [TU_ISA_DMA_LOAD, TU_ISA_DMA_STORE] then ins_flags instr AND 0x3
             else if op_in op [TU_ISA_DMA_LOAD_STRIDED, TU_ISA_DMA_STORE_STRIDED]
               then drop_bit 2 (ins_flags instr) AND 0x3
             else if op_between TU_ISA_DMA_SCATTER op TU_ISA_DMA_BROADCAST
               then ins_flags instr AND 0x3
             else 0);
          region = (if channel < 3 then unat channel else 0);
          offset = ucast (ins_dim0 instr);
          size = (if ins_dim1 instr \<noteq> 0 then ucast (ins_dim1 instr) else 1)
      in (region, offset, offset + size))"

definition extract_compute_range :: "tu_instruction \<Rightarrow> tu_sram_access" where
  "extract_compute_range instr =
     (let op = op_of instr;
          d0 = ucast (ins_dim0 instr) :: u32;
          d1 = ucast (ins_dim1 instr) :: u32;
          d2 = ucast (ins_dim2 instr) :: u32;
          lo16 = ins_immediates instr AND 0xFFFF;
          hi16 = drop_bit 16 (ins_immediates instr) AND 0xFFFF
      in if op_in op [TU_ISA_MMA, TU_ISA_MMA_BIAS, TU_ISA_MMA_FUSED, TU_ISA_SPARSE_MMA] then
           note_write TU_SRAM_O hi16 (hi16 + d0 * d1 * 4)
             (note_read TU_SRAM_A lo16 (lo16 + d2 * d1 * 2)
               (note_read TU_SRAM_W d0 (d0 + d2 * d1 * 2) no_access))
         else if op_in op [TU_ISA_ATTENTION, TU_ISA_ATTN_QK, TU_ISA_ATTN_PV] then
           note_write TU_SRAM_O hi16 (hi16 + 65536)
             (note_read TU_SRAM_A d0 (d0 + 65536) no_access)
         else if op_in op [TU_ISA_CONV2D, TU_ISA_CONV3D, TU_ISA_DEPTHWISE_CONV,
                           TU_ISA_TRANSPOSED_CONV] then
           note_write TU_SRAM_O 0 UINT32_MAX
             (note_read TU_SRAM_A 0 UINT32_MAX (note_read TU_SRAM_W 0 UINT32_MAX no_access))
         else if op_in op [TU_ISA_ELEMENTWISE, TU_ISA_ADD, TU_ISA_MUL, TU_ISA_RELU, TU_ISA_GELU,
                           TU_ISA_SILU, TU_ISA_TANH, TU_ISA_SIGMOID, TU_ISA_EXP, TU_ISA_SCALE] then
           note_write TU_SRAM_O d0 (d0 + d1 * 4)
             (note_read TU_SRAM_O d0 (d0 + d1 * 4) no_access)
         else if op_in op [TU_ISA_SOFTMAX, TU_ISA_LOG_SOFTMAX, TU_ISA_LAYER_NORM, TU_ISA_RMS_NORM,
                           TU_ISA_BATCH_NORM, TU_ISA_GROUP_NORM] then
           note_write TU_SRAM_O hi16 (hi16 + d1 * 4)
             (note_read TU_SRAM_A d0 (d0 + d1 * 4) no_access)
         else if op_in op [TU_ISA_POOL_MAX, TU_ISA_POOL_AVG, TU_ISA_POOL_GLOBAL_AVG] then
           note_write TU_SRAM_O hi16 (hi16 + 65536)
             (note_read TU_SRAM_A d0 (d0 + 65536) no_access)
         else if op_in op [TU_ISA_REDUCE_SUM, TU_ISA_REDUCE_MAX, TU_ISA_REDUCE_MEAN] then
           note_write TU_SRAM_O hi16 (hi16 + d2 * 4)
             (note_read TU_SRAM_A d0 (d0 + d1 * 4) no_access)
         else no_access)"

definition tu_sched_analyze_access :: "tu_instruction \<Rightarrow> tu_sram_access" where
  "tu_sched_analyze_access instr =
     (if is_dma_op (op_of instr) then
        (let is_load = op_in (op_of instr) [TU_ISA_DMA_LOAD, TU_ISA_DMA_LOAD_STRIDED,
                                            TU_ISA_DMA_SCATTER, TU_ISA_DMA_BROADCAST];
             (region, start, end') = extract_dma_range instr
         in if is_load then note_write region start end' no_access
            else note_read region start end' no_access)
      else if is_compute_op (op_of instr) then extract_compute_range instr
      else no_access)"

section \<open>Hazards\<close>

definition ranges_overlap :: "u32 \<Rightarrow> u32 \<Rightarrow> u32 \<Rightarrow> u32 \<Rightarrow> bool" where
  "ranges_overlap a0 a1 b0 b1 =
     (if a0 = 0 \<and> a1 = UINT32_MAX then True
      else if b0 = 0 \<and> b1 = UINT32_MAX then True
      else a0 < b1 \<and> b0 < a1)"

abbreviation spans_overlap :: "u32 \<times> u32 \<Rightarrow> u32 \<times> u32 \<Rightarrow> bool" where
  "spans_overlap a b \<equiv> ranges_overlap (fst a) (snd a) (fst b) (snd b)"

definition region_hazard :: "tu_sram_access \<Rightarrow> tu_sram_access \<Rightarrow> nat \<Rightarrow> bool" where
  "region_hazard producer consumer r \<longleftrightarrow>
     (acc_writes producer ! r \<and> acc_reads consumer ! r
        \<and> spans_overlap (acc_write_offsets producer ! r) (acc_read_offsets consumer ! r))
   \<or> (acc_reads producer ! r \<and> acc_writes consumer ! r
        \<and> spans_overlap (acc_read_offsets producer ! r) (acc_write_offsets consumer ! r))
   \<or> (acc_writes producer ! r \<and> acc_writes consumer ! r
        \<and> spans_overlap (acc_write_offsets producer ! r) (acc_write_offsets consumer ! r))"

definition has_dependency :: "tu_sram_access \<Rightarrow> tu_sram_access \<Rightarrow> bool" where
  "has_dependency producer consumer \<longleftrightarrow>
     list_ex (region_hazard producer consumer) [0..<TU_SRAM_REGION_COUNT]"

section \<open>Graph construction\<close>

definition mk_node :: "nat \<Rightarrow> tu_instruction \<Rightarrow> tu_sched_node" where
  "mk_node i instr =
     \<lparr>nd_id = i, nd_instr = instr, nd_access = tu_sched_analyze_access instr,
      nd_is_dma = is_dma_op (op_of instr), nd_is_compute = is_compute_op (op_of instr),
      nd_is_barrier = is_barrier_op (op_of instr), nd_preds = [], nd_succs = [],
      nd_scheduled = False, nd_asap = 0, nd_alap = 0, nd_slack = 0\<rparr>"

text \<open>Record the edge \<open>j \<longrightarrow> i\<close> unless one of the two arrays is full.\<close>

definition add_edge :: "tu_sched_node list \<Rightarrow> nat \<Rightarrow> nat \<Rightarrow> tu_sched_node list" where
  "add_edge ns j i =
     (if length (nd_succs (ns ! j)) \<ge> TU_SCHED_MAX_DEPS
         \<or> length (nd_preds (ns ! i)) \<ge> TU_SCHED_MAX_DEPS then ns
      else let ns1 = ns[j := (ns ! j)\<lparr>nd_succs := nd_succs (ns ! j) @ [i]\<rparr>]
           in ns1[i := (ns1 ! i)\<lparr>nd_preds := nd_preds (ns1 ! i) @ [j]\<rparr>])"

text \<open>One iteration of the inner loop: producer \<open>j\<close> against consumer \<open>i\<close>.\<close>

definition link_pair :: "nat \<Rightarrow> tu_sched_node list \<Rightarrow> nat \<Rightarrow> tu_sched_node list" where
  "link_pair i ns j =
     (let producer = ns ! j; consumer = ns ! i
      in if nd_is_barrier producer then ns
         else if nd_is_barrier consumer then add_edge ns j i
         else if has_dependency (nd_access producer) (nd_access consumer) then add_edge ns j i
         else ns)"

definition link_consumer :: "tu_sched_node list \<Rightarrow> nat \<Rightarrow> tu_sched_node list" where
  "link_consumer ns i = foldl (link_pair i) ns [0..<i]"

definition link_nodes :: "tu_sched_node list \<Rightarrow> tu_sched_node list" where
  "link_nodes ns = foldl link_consumer ns [0..<length ns]"

definition mk_nodes :: "tu_instruction list \<Rightarrow> tu_sched_node list" where
  "mk_nodes instrs = map (\<lambda>i. mk_node i (instrs ! i)) [0..<length instrs]"

definition tu_sched_build_dag ::
  "tu_instruction list \<Rightarrow> tu_sched_config option \<Rightarrow> tu_sched_graph option" where
  "tu_sched_build_dag instrs config =
     (if length instrs > TU_SCHED_MAX_INSTRS then None
      else Some \<lparr>gr_nodes = link_nodes (mk_nodes instrs), gr_built = True,
                 gr_config = (case config of Some c \<Rightarrow> c | None \<Rightarrow> tu_sched_config_default)\<rparr>)"

section \<open>Mobility\<close>

definition node_latency :: "tu_sched_node \<Rightarrow> int" where
  "node_latency nd = (if nd_is_dma nd then 1 else 4)"

definition asap_step :: "tu_sched_node list \<Rightarrow> nat \<Rightarrow> tu_sched_node list" where
  "asap_step ns i =
     (let node = ns ! i
      in if nd_preds node = [] then ns[i := node\<lparr>nd_asap := 0\<rparr>]
         else ns[i := node\<lparr>nd_asap :=
                foldl (\<lambda>m p. max m (nd_asap (ns ! p) + node_latency (ns ! p))) (- 1)
                  (nd_preds node)\<rparr>])"

definition max_asap :: "tu_sched_node list \<Rightarrow> int" where
  "max_asap ns = foldl (\<lambda>m nd. if nd_asap nd > m then nd_asap nd else m) 0 ns"

definition INT32_MAX :: int where "INT32_MAX = 2147483647"
definition INT32_MIN :: int where "INT32_MIN = - 2147483648"

definition alap_step :: "int \<Rightarrow> tu_sched_node list \<Rightarrow> nat \<Rightarrow> tu_sched_node list" where
  "alap_step mx ns i =
     (let node = ns ! i;
          alap0 = (if nd_succs node = [] then mx
                   else foldl (\<lambda>m s. min m (nd_alap (ns ! s) - node_latency node)) INT32_MAX
                          (nd_succs node));
          alap = (if nd_succs node \<noteq> [] \<and> alap0 < nd_asap node then nd_asap node else alap0)
      in ns[i := node\<lparr>nd_alap := alap, nd_slack := alap - nd_asap node\<rparr>])"

definition tu_sched_compute_mobility :: "tu_sched_graph \<Rightarrow> tu_sched_graph" where
  "tu_sched_compute_mobility graph =
     (if \<not> gr_built graph \<or> gr_nodes graph = [] then graph
      else let n = length (gr_nodes graph);
               ns1 = foldl asap_step (gr_nodes graph) [0..<n]
           in graph\<lparr>gr_nodes := foldl (alap_step (max_asap ns1)) ns1 (rev [0..<n])\<rparr>)"

section \<open>Hoisting and barrier counters\<close>

definition hoistable :: "nat \<Rightarrow> tu_sched_node list \<Rightarrow> nat \<Rightarrow> bool" where
  "hoistable max_distance ns i =
     (let node = ns ! i;
          is_load = list_ex (\<lambda>r. acc_writes (nd_access node) ! r) [0..<TU_SRAM_REGION_COUNT];
          earliest = foldl min i (nd_preds node)
      in nd_is_dma node \<and> is_load \<and> earliest < i
         \<and> (let distance = i - (earliest + 1) in distance > 0 \<and> distance \<le> max_distance))"

definition tu_sched_hoist_dma :: "tu_sched_graph \<Rightarrow> nat" where
  "tu_sched_hoist_dma graph =
     (if \<not> gr_built graph then 0
      else length (filter (hoistable (sc_max_hoist_distance (gr_config graph)) (gr_nodes graph))
             [0..<length (gr_nodes graph)]))"

definition needs_barrier :: "tu_sched_node list \<Rightarrow> nat \<Rightarrow> bool" where
  "needs_barrier ns i =
     (let node = ns ! i
      in nd_is_dma node
         \<and> list_ex (\<lambda>r. acc_reads (nd_access node) ! r) [0..<TU_SRAM_REGION_COUNT]
         \<and> list_ex (\<lambda>s. nd_is_compute (ns ! s)) (nd_succs node))"

definition tu_sched_insert_barriers :: "tu_sched_graph \<Rightarrow> nat" where
  "tu_sched_insert_barriers graph =
     (if \<not> gr_built graph then 0
      else length (filter (needs_barrier (gr_nodes graph)) [0..<length (gr_nodes graph)]))"

section \<open>List scheduling\<close>

definition balanced_priority :: "tu_sched_node \<Rightarrow> int" where
  "balanced_priority node =
     (if nd_is_barrier node then 0
      else if list_ex (\<lambda>r. acc_writes (nd_access node) ! r) [0..<TU_SRAM_REGION_COUNT] then 3
      else if nd_is_compute node then 2
      else if nd_is_dma node then 1
      else 0)"

definition asap_priority :: "tu_sched_node \<Rightarrow> int" where "asap_priority node = - nd_asap node"
definition alap_priority :: "tu_sched_node \<Rightarrow> int" where "alap_priority node = nd_alap node"

fun node_priority :: "tu_sched_policy \<Rightarrow> tu_sched_node \<Rightarrow> int" where
  "node_priority TU_SCHED_POLICY_ASAP node = asap_priority node"
| "node_priority TU_SCHED_POLICY_ALAP node = alap_priority node"
| "node_priority TU_SCHED_POLICY_BALANCED node = balanced_priority node"

text \<open>
  The local variables of \<open>list_schedule\<close>: the graph (whose nodes are marked as they are
  emitted), the ready queue, the remaining predecessor counts and the result. \<open>ls_order\<close> is a
  ghost: the identifiers in the order in which their instructions were emitted.
\<close>

record list_state =
  ls_graph :: tu_sched_graph
  ls_ready :: "nat list"
  ls_remaining :: "nat list"
  ls_result :: tu_sched_result
  ls_order :: "nat list"

abbreviation ls_nodes :: "list_state \<Rightarrow> tu_sched_node list" where
  "ls_nodes st \<equiv> gr_nodes (ls_graph st)"

text \<open>Unsigned decrement of a \<open>uint32_t\<close>.\<close>

definition u32_dec :: "nat \<Rightarrow> nat" where
  "u32_dec x = (if x = 0 then 2 ^ 32 - 1 else x - 1)"

text \<open>The selection loop over the ready queue; the accumulator is \<open>(best_idx, best_prio)\<close>.\<close>

definition select_step ::
  "tu_sched_policy \<Rightarrow> tu_sched_node list \<Rightarrow> nat list \<Rightarrow> nat \<times> int \<Rightarrow> nat \<Rightarrow> nat \<times> int" where
  "select_step policy ns ready best q =
     (let prio = node_priority policy (ns ! (ready ! q))
      in if prio > snd best \<or> (prio = snd best \<and> ready ! q < ready ! fst best)
         then (q, prio) else best)"

definition select_ready :: "tu_sched_policy \<Rightarrow> tu_sched_node list \<Rightarrow> nat list \<Rightarrow> nat" where
  "select_ready policy ns ready =
     fst (foldl (select_step policy ns ready) (0, INT32_MIN) [0..<length ready])"

definition release_succ :: "list_state \<Rightarrow> nat \<Rightarrow> list_state" where
  "release_succ st s =
     (let rem = (ls_remaining st)[s := u32_dec (ls_remaining st ! s)]
      in if rem ! s = 0 \<and> length (ls_ready st) < TU_SCHED_MAX_READY_QUEUE
            \<and> \<not> nd_scheduled (ls_nodes st ! s)
         then st\<lparr>ls_remaining := rem, ls_ready := ls_ready st @ [s]\<rparr>
         else st\<lparr>ls_remaining := rem\<rparr>)"

text \<open>Emit the node at position \<open>best\<close> of the ready queue.\<close>

definition emit_node :: "list_state \<Rightarrow> nat \<Rightarrow> list_state" where
  "emit_node st best =
     (let sel = ls_ready st ! best;
          node = ls_nodes st ! sel;
          res = ls_result st;
          st1 = st\<lparr>ls_result := res\<lparr>rs_instructions := rs_instructions res @ [nd_instr node],
                      rs_estimated_cycles := rs_estimated_cycles res
                        + (if nd_is_dma node then 1 else 4)\<rparr>,
                  ls_graph := (ls_graph st)\<lparr>gr_nodes :=
                      (ls_nodes st)[sel := node\<lparr>nd_scheduled := True\<rparr>]\<rparr>,
                  ls_ready := swap_remove best (ls_ready st),
                  ls_order := ls_order st @ [sel]\<rparr>
      in foldl release_succ st1 (nd_succs node))"

text \<open>The body of the \<open>while\<close> loop; \<open>None\<close> is its \<open>break\<close>.\<close>

definition refill_ready :: "list_state \<Rightarrow> list_state" where
  "refill_ready st =
     (if ls_ready st = [] then
        (case find (\<lambda>i. \<not> nd_scheduled (ls_nodes st ! i) \<and> ls_remaining st ! i = 0)
                [0..<length (ls_nodes st)] of
           Some i \<Rightarrow> st\<lparr>ls_ready := [i]\<rparr>
         | None \<Rightarrow> st)
      else st)"

definition list_schedule_body :: "list_state \<Rightarrow> list_state option" where
  "list_schedule_body st =
     (let st1 = refill_ready st
      in if ls_ready st1 = [] then None
         else Some (emit_node st1
                (select_ready (sc_policy (gr_config (ls_graph st1))) (ls_nodes st1)
                  (ls_ready st1))))"

text \<open>Every iteration emits one instruction and keeps the number of nodes.\<close>

lemma release_succ_frame [simp]:
  "ls_graph (release_succ st s) = ls_graph st"
  "ls_result (release_succ st s) = ls_result st"
  "ls_order (release_succ st s) = ls_order st"
  by (simp_all add: release_succ_def Let_def)

lemma release_succs_frame [simp]:
  "ls_graph (foldl release_succ st ss) = ls_graph st"
  "ls_result (foldl release_succ st ss) = ls_result st"
  "ls_order (foldl release_succ st ss) = ls_order st"
  by (induction ss arbitrary: st) simp_all

lemma refill_ready_frame [simp]:
  "ls_graph (refill_ready st) = ls_graph st"
  "ls_result (refill_ready st) = ls_result st"
  "ls_order (refill_ready st) = ls_order st"
  "ls_remaining (refill_ready st) = ls_remaining st"
  by (auto simp: refill_ready_def split: option.splits)

lemma list_schedule_body_progress:
  assumes "list_schedule_body st = Some st'"
  shows "length (rs_instructions (ls_result st')) = Suc (length (rs_instructions (ls_result st)))
         \<and> length (ls_nodes st') = length (ls_nodes st)"
  using assms by (auto simp: list_schedule_body_def emit_node_def Let_def split: if_splits)

function list_schedule_loop :: "list_state \<Rightarrow> list_state" where
  "list_schedule_loop st =
     (if length (rs_instructions (ls_result st)) < length (ls_nodes st)
      then (case list_schedule_body st of None \<Rightarrow> st | Some st' \<Rightarrow> list_schedule_loop st')
      else st)"
  by pat_completeness auto
termination
  by (relation "measure (\<lambda>st. length (ls_nodes st) - length (rs_instructions (ls_result st)))")
    (auto dest: list_schedule_body_progress)

declare list_schedule_loop.simps [simp del]

definition list_schedule_init :: "tu_sched_graph \<Rightarrow> tu_sched_result \<Rightarrow> list_state" where
  "list_schedule_init graph result =
     \<lparr>ls_graph = graph,
      ls_ready = filter (\<lambda>i. nd_preds (gr_nodes graph ! i) = [] \<and> \<not> nd_is_barrier (gr_nodes graph ! i))
                   [0..<length (gr_nodes graph)],
      ls_remaining = map (\<lambda>nd. length (nd_preds nd)) (gr_nodes graph),
      ls_result = result\<lparr>rs_instructions := [], rs_num_barriers_inserted := 0,
                         rs_num_dma_hoisted := 0, rs_estimated_cycles := 0\<rparr>,
      ls_order = []\<rparr>"

text \<open>The return code, with the final local state.\<close>

definition list_schedule :: "tu_sched_graph \<Rightarrow> tu_sched_result \<Rightarrow> int \<times> list_state" where
  "list_schedule graph result =
     (let st = list_schedule_loop (list_schedule_init graph result);
          valid = (length (rs_instructions (ls_result st)) = length (gr_nodes graph))
      in (if valid then 0 else - 1, st\<lparr>ls_result := (ls_result st)\<lparr>rs_valid := valid\<rparr>\<rparr>))"

section \<open>Entry point\<close>

text \<open>
  The return code, the result structure, and (for the proofs and the validator) the order of the
  emitted identifiers and the graph that the call leaves behind.
\<close>

definition tu_sched_run ::
  "tu_instruction list \<Rightarrow> tu_sched_config option \<Rightarrow> tu_sched_result
    \<Rightarrow> int \<times> tu_sched_result \<times> nat list \<times> tu_sched_graph option" where
  "tu_sched_run instrs config result =
     (if instrs = [] then (- 1, result, [], None)
      else if length instrs > TU_SCHED_MAX_INSTRS then (- 1, result, [], None)
      else case tu_sched_build_dag instrs config of
             None \<Rightarrow> (- 1, result, [], None)
           | Some graph0 \<Rightarrow>
               (let graph = tu_sched_compute_mobility graph0;
                    result1 = (case config of
                        Some c \<Rightarrow> (if sc_hoist_dma c
                          then result\<lparr>rs_num_dma_hoisted := tu_sched_hoist_dma graph\<rparr> else result)
                      | None \<Rightarrow> result);
                    result2 = (case config of
                        Some c \<Rightarrow> (if sc_insert_barriers c
                          then result1\<lparr>rs_num_barriers_inserted := tu_sched_insert_barriers graph\<rparr>
                          else result1)
                      | None \<Rightarrow> result1);
                    (rc, st) = list_schedule graph result2
                in (rc, (ls_result st)\<lparr>rs_valid := (rc = 0)\<rparr>, ls_order st, Some (ls_graph st))))"

section \<open>Validation\<close>

text \<open>
  The position map: each scheduled instruction is matched with the first node of the same
  opcode, \<open>dim0\<close>, \<open>dim1\<close> and flags that has no position yet.
\<close>

definition same_key :: "tu_instruction \<Rightarrow> tu_instruction \<Rightarrow> bool" where
  "same_key si oi \<longleftrightarrow> ins_opcode si = ins_opcode oi \<and> ins_dim0 si = ins_dim0 oi
     \<and> ins_dim1 si = ins_dim1 oi \<and> ins_flags si = ins_flags oi"

definition match_step ::
  "tu_sched_node list \<Rightarrow> tu_instruction list \<Rightarrow> int list \<Rightarrow> nat \<Rightarrow> int list" where
  "match_step ns out positions i =
     (case find (\<lambda>j. nd_scheduled (ns ! j) \<and> same_key (out ! i) (nd_instr (ns ! j))
                     \<and> positions ! j = - 1) [0..<length ns] of
        None \<Rightarrow> positions
      | Some j \<Rightarrow> positions[j := int i])"

definition tu_sched_validate :: "tu_sched_result \<Rightarrow> tu_sched_graph \<Rightarrow> bool" where
  "tu_sched_validate result graph =
     (if \<not> rs_valid result then False
      else let ns = gr_nodes graph;
               positions = foldl (match_step ns (rs_instructions result))
                             (replicate TU_SCHED_MAX_INSTRS (- 1))
                             [0..<length (rs_instructions result)]
           in list_all (\<lambda>i. positions ! i < 0
                 \<or> list_all (\<lambda>s. positions ! s < 0 \<or> positions ! i < positions ! s)
                     (nd_succs (ns ! i))) [0..<length ns])"

section \<open>The dependency graph\<close>

text \<open>The fields of a node that linking does not touch.\<close>

definition node_core :: "tu_sched_node \<Rightarrow> tu_sched_node" where
  "node_core nd = nd\<lparr>nd_preds := [], nd_succs := []\<rparr>"

definition edge_room :: "tu_sched_node list \<Rightarrow> nat \<Rightarrow> nat \<Rightarrow> bool" where
  "edge_room ns j i \<longleftrightarrow> length (nd_succs (ns ! j)) < TU_SCHED_MAX_DEPS
     \<and> length (nd_preds (ns ! i)) < TU_SCHED_MAX_DEPS"

lemma length_add_edge [simp]: "length (add_edge ns j i) = length ns"
  by (simp add: add_edge_def Let_def)

lemma add_edge_nth:
  assumes "i < length ns" "j < length ns" "j \<noteq> i"
  shows "nd_preds (add_edge ns j i ! k) =
           (if edge_room ns j i \<and> k = i then nd_preds (ns ! k) @ [j] else nd_preds (ns ! k))"
    and "nd_succs (add_edge ns j i ! k) =
           (if edge_room ns j i \<and> k = j then nd_succs (ns ! k) @ [i] else nd_succs (ns ! k))"
    and "node_core (add_edge ns j i ! k) = node_core (ns ! k)"
  using assms by (auto simp: add_edge_def edge_room_def Let_def nth_list_update node_core_def)

definition linkable :: "tu_sched_node list \<Rightarrow> nat \<Rightarrow> nat \<Rightarrow> bool" where
  "linkable ns j i \<longleftrightarrow> \<not> nd_is_barrier (ns ! j)
     \<and> (nd_is_barrier (ns ! i) \<or> has_dependency (nd_access (ns ! j)) (nd_access (ns ! i)))"

lemma link_pair_eq: "link_pair i ns j = (if linkable ns j i then add_edge ns j i else ns)"
  by (simp add: link_pair_def linkable_def Let_def)

lemma node_core_sel:
  "nd_instr (node_core a) = nd_instr a" "nd_access (node_core a) = nd_access a"
  "nd_is_dma (node_core a) = nd_is_dma a" "nd_is_compute (node_core a) = nd_is_compute a"
  "nd_is_barrier (node_core a) = nd_is_barrier a" "nd_scheduled (node_core a) = nd_scheduled a"
  by (simp_all add: node_core_def)

lemma node_core_eqD:
  assumes "node_core a = node_core b"
  shows "nd_instr a = nd_instr b" "nd_access a = nd_access b" "nd_is_dma a = nd_is_dma b"
    "nd_is_compute a = nd_is_compute b" "nd_is_barrier a = nd_is_barrier b"
    "nd_scheduled a = nd_scheduled b"
  using assms by (metis node_core_sel)+

text \<open>
  What holds while consumer \<open>i\<close> is compared with producers below \<open>j\<close>: edges go forward and
  join linkable nodes already compared; the two arrays of an edge agree; they are duplicate-free
  and within capacity; and every linkable pair compared so far has its edge, or one of its two
  arrays is full.
\<close>

definition compared :: "nat \<Rightarrow> nat \<Rightarrow> nat \<Rightarrow> nat \<Rightarrow> bool" where
  "compared i j p k \<longleftrightarrow> p < k \<and> (k < i \<or> (k = i \<and> p < j))"

definition edges_sound :: "tu_sched_node list \<Rightarrow> nat \<Rightarrow> nat \<Rightarrow> tu_sched_node list \<Rightarrow> bool" where
  "edges_sound ns0 i j ns \<longleftrightarrow> (\<forall>k<length ns. \<forall>p \<in> set (nd_preds (ns ! k)).
     compared i j p k \<and> linkable ns0 p k)"

definition edges_dual :: "tu_sched_node list \<Rightarrow> bool" where
  "edges_dual ns \<longleftrightarrow> (\<forall>k<length ns. \<forall>p<length ns.
     p \<in> set (nd_preds (ns ! k)) \<longleftrightarrow> k \<in> set (nd_succs (ns ! p)))
   \<and> (\<forall>k<length ns. set (nd_preds (ns ! k)) \<union> set (nd_succs (ns ! k)) \<subseteq> {..<length ns})"

definition edges_bounded :: "tu_sched_node list \<Rightarrow> bool" where
  "edges_bounded ns \<longleftrightarrow> (\<forall>k<length ns. distinct (nd_preds (ns ! k)) \<and> distinct (nd_succs (ns ! k))
     \<and> length (nd_preds (ns ! k)) \<le> TU_SCHED_MAX_DEPS
     \<and> length (nd_succs (ns ! k)) \<le> TU_SCHED_MAX_DEPS)"

definition edges_complete :: "tu_sched_node list \<Rightarrow> nat \<Rightarrow> nat \<Rightarrow> tu_sched_node list \<Rightarrow> bool" where
  "edges_complete ns0 i j ns \<longleftrightarrow> (\<forall>k<length ns. \<forall>p. compared i j p k \<longrightarrow> linkable ns0 p k
     \<longrightarrow> p \<in> set (nd_preds (ns ! k)) \<or> \<not> edge_room ns p k)"

definition same_core :: "tu_sched_node list \<Rightarrow> tu_sched_node list \<Rightarrow> bool" where
  "same_core ns0 ns \<longleftrightarrow> length ns = length ns0
     \<and> (\<forall>k<length ns0. node_core (ns ! k) = node_core (ns0 ! k))"

lemma linkable_core:
  assumes "same_core ns0 ns" "j < length ns0" "i < length ns0"
  shows "linkable ns j i = linkable ns0 j i"
proof -
  have "node_core (ns ! j) = node_core (ns0 ! j)" "node_core (ns ! i) = node_core (ns0 ! i)"
    using assms by (auto simp: same_core_def)
  then show ?thesis
    using node_core_eqD(2,5) [of "ns ! j" "ns0 ! j"] node_core_eqD(2,5) [of "ns ! i" "ns0 ! i"]
    by (simp add: linkable_def)
qed

lemma compared_Suc: "compared i (Suc j) p k \<longleftrightarrow> compared i j p k \<or> (j < i \<and> p = j \<and> k = i)"
  by (auto simp: compared_def less_Suc_eq)

lemma not_compared_self: "\<not> compared i j j i"
  by (simp add: compared_def)

text \<open>One comparison that adds its edge.\<close>

lemma edges_after_add:
  assumes ij: "j < i" "i < length ns" and room: "edge_room ns j i"
    and sound: "edges_sound ns0 i j ns" and dual: "edges_dual ns" and bnd: "edges_bounded ns"
    and compl: "edges_complete ns0 i j ns" and link: "linkable ns0 j i"
    and len: "length ns = length ns0"
  defines "ns' \<equiv> add_edge ns j i"
  shows "edges_sound ns0 i (Suc j) ns'" "edges_dual ns'" "edges_bounded ns'"
    "edges_complete ns0 i (Suc j) ns'"
proof -
  have jl: "j < length ns" and ne: "j \<noteq> i" using ij by auto
  have P: "nd_preds (ns' ! k) = (if k = i then nd_preds (ns ! k) @ [j] else nd_preds (ns ! k))"
    and S: "nd_succs (ns' ! k) = (if k = j then nd_succs (ns ! k) @ [i] else nd_succs (ns ! k))"
    for k using add_edge_nth(1,2) [OF ij(2) jl ne, of k] room by (auto simp: ns'_def)
  have L: "length ns' = length ns" by (simp add: ns'_def)
  have fresh1: "j \<notin> set (nd_preds (ns ! i))"
    using sound ij not_compared_self by (auto simp: edges_sound_def)
  then have fresh2: "i \<notin> set (nd_succs (ns ! j))"
    using dual ij jl by (auto simp: edges_dual_def)
  have mono: "edge_room ns' p k \<Longrightarrow> edge_room ns p k" for p k
    by (auto simp: edge_room_def P S split: if_splits)
  show "edges_sound ns0 i (Suc j) ns'"
    using sound link ij by (auto simp: edges_sound_def L P compared_Suc)
  show "edges_dual ns'"
    using dual ij jl by (auto simp: edges_dual_def L P S)
  show "edges_bounded ns'"
    using bnd room fresh1 fresh2 by (auto simp: edges_bounded_def L P S edge_room_def)
  show "edges_complete ns0 i (Suc j) ns'"
    unfolding edges_complete_def L
  proof (intro allI impI)
    fix k p assume k: "k < length ns" and c: "compared i (Suc j) p k" and l: "linkable ns0 p k"
    show "p \<in> set (nd_preds (ns' ! k)) \<or> \<not> edge_room ns' p k"
      using compl k c l mono [of p k] by (auto simp: edges_complete_def compared_Suc P)
  qed
qed

definition linked_upto :: "tu_sched_node list \<Rightarrow> nat \<Rightarrow> nat \<Rightarrow> tu_sched_node list \<Rightarrow> bool" where
  "linked_upto ns0 i j ns \<longleftrightarrow> same_core ns0 ns \<and> edges_sound ns0 i j ns \<and> edges_dual ns
     \<and> edges_bounded ns \<and> edges_complete ns0 i j ns"

lemma linked_upto_pair:
  assumes inv: "linked_upto ns0 i j ns" and ij: "j < i" "i < length ns0"
  shows "linked_upto ns0 i (Suc j) (link_pair i ns j)"
proof (cases "linkable ns0 j i \<and> edge_room ns j i")
  case False
  have core: "same_core ns0 ns" using inv by (simp add: linked_upto_def)
  have "link_pair i ns j = ns"
    using False linkable_core [OF core] ij by (auto simp: link_pair_eq add_edge_def edge_room_def)
  moreover have "edges_sound ns0 i (Suc j) ns"
    using inv by (auto simp: linked_upto_def edges_sound_def compared_Suc)
  moreover have "edges_complete ns0 i (Suc j) ns"
    using inv False by (auto simp: linked_upto_def edges_complete_def compared_Suc)
  ultimately show ?thesis using inv by (simp add: linked_upto_def)
next
  case True
  have core: "same_core ns0 ns" using inv by (simp add: linked_upto_def)
  then have len: "length ns = length ns0" by (simp add: same_core_def)
  have eq: "link_pair i ns j = add_edge ns j i"
    using True linkable_core [OF core] ij by (simp add: link_pair_eq)
  have il: "i < length ns" "j < length ns" "j \<noteq> i" using ij len by auto
  have "same_core ns0 (add_edge ns j i)"
    using core add_edge_nth(3) [OF il] by (auto simp: same_core_def)
  moreover have "edges_sound ns0 i (Suc j) (add_edge ns j i)" "edges_dual (add_edge ns j i)"
    "edges_bounded (add_edge ns j i)" "edges_complete ns0 i (Suc j) (add_edge ns j i)"
    using inv True ij(1) il(1) len by (auto simp: linked_upto_def intro!: edges_after_add)
  ultimately show ?thesis by (simp add: eq linked_upto_def)
qed

lemma compared_next: "compared (Suc i) 0 p k \<longleftrightarrow> compared i i p k"
  by (auto simp: compared_def less_Suc_eq)

lemma linked_upto_next: "linked_upto ns0 i i ns \<Longrightarrow> linked_upto ns0 (Suc i) 0 ns"
  by (simp add: linked_upto_def edges_sound_def edges_complete_def compared_next)

lemma linked_upto_consumer:
  assumes inv: "linked_upto ns0 i 0 ns" and "i < length ns0"
  shows "linked_upto ns0 (Suc i) 0 (link_consumer ns i)"
proof -
  have "linked_upto ns0 i j (foldl (link_pair i) ns [0..<j])" if "j \<le> i" for j
    using that by (induction j) (simp_all add: inv linked_upto_pair assms(2))
  then show ?thesis by (simp add: link_consumer_def linked_upto_next)
qed

lemma linked_upto_start:
  assumes "\<forall>k<length ns0. nd_preds (ns0 ! k) = [] \<and> nd_succs (ns0 ! k) = []"
  shows "linked_upto ns0 0 0 ns0"
  using assms by (simp add: linked_upto_def same_core_def edges_sound_def edges_dual_def
      edges_bounded_def edges_complete_def compared_def)

lemma linked_upto_all:
  assumes "\<forall>k<length ns0. nd_preds (ns0 ! k) = [] \<and> nd_succs (ns0 ! k) = []"
  shows "linked_upto ns0 (length ns0) 0 (link_nodes ns0)"
proof -
  have "linked_upto ns0 i 0 (foldl link_consumer ns0 [0..<i])" if "i \<le> length ns0" for i
    using that by (induction i) (simp_all add: linked_upto_consumer linked_upto_start assms)
  then show ?thesis by (simp add: link_nodes_def)
qed

section \<open>Mobility keeps the graph\<close>

definition node_topo :: "tu_sched_node \<Rightarrow> tu_sched_node" where
  "node_topo nd = nd\<lparr>nd_asap := 0, nd_alap := 0, nd_slack := 0\<rparr>"

lemma node_topo_sel:
  "nd_preds (node_topo a) = nd_preds a" "nd_succs (node_topo a) = nd_succs a"
  "nd_instr (node_topo a) = nd_instr a" "nd_access (node_topo a) = nd_access a"
  "nd_is_dma (node_topo a) = nd_is_dma a" "nd_is_compute (node_topo a) = nd_is_compute a"
  "nd_is_barrier (node_topo a) = nd_is_barrier a" "nd_scheduled (node_topo a) = nd_scheduled a"
  by (simp_all add: node_topo_def)

lemma mobility_step_topo:
  "map node_topo (asap_step ns i) = map node_topo ns"
  "map node_topo (alap_step mx ns i) = map node_topo ns"
  by (auto simp: asap_step_def alap_step_def Let_def node_topo_def intro!: map_list_update_id)

lemma mobility_foldl_topo:
  "map node_topo (foldl asap_step ns is) = map node_topo ns"
  "map node_topo (foldl (alap_step mx) ns is) = map node_topo ns"
  by (induction "is" arbitrary: ns) (simp_all add: mobility_step_topo)

lemma compute_mobility_topo:
  "map node_topo (gr_nodes (tu_sched_compute_mobility g)) = map node_topo (gr_nodes g)"
  "gr_config (tu_sched_compute_mobility g) = gr_config g"
  "gr_built (tu_sched_compute_mobility g) = gr_built g"
  by (simp_all add: tu_sched_compute_mobility_def Let_def mobility_foldl_topo)

section \<open>Selection\<close>

lemma select_step_range:
  "fst best < length ready \<Longrightarrow> q < length ready
    \<Longrightarrow> fst (select_step p ns ready best q) < length ready"
  by (simp add: select_step_def Let_def)

lemma select_ready_range:
  assumes "ready \<noteq> []"
  shows "select_ready p ns ready < length ready"
proof -
  have "fst (foldl (select_step p ns ready) (0, INT32_MIN) [0..<length ready]) < length ready"
    by (rule foldl_invariant) (use assms in \<open>auto intro: select_step_range\<close>)
  then show ?thesis by (simp add: select_ready_def)
qed

section \<open>List scheduling of a well-formed graph\<close>

definition counts_ok :: "tu_sched_node list \<Rightarrow> nat list \<Rightarrow> nat set \<Rightarrow> list_state \<Rightarrow> bool" where
  "counts_ok ns0 ord pend st \<longleftrightarrow> length (ls_remaining st) = length ns0
     \<and> (\<forall>k<length ns0. ls_remaining st ! k =
          card (set (nd_preds (ns0 ! k)) - set ord) + (if k \<in> pend then 1 else 0))"

definition ready_ok :: "tu_sched_node list \<Rightarrow> nat list \<Rightarrow> list_state \<Rightarrow> bool" where
  "ready_ok ns0 ord st \<longleftrightarrow> distinct (ls_ready st)
     \<and> (\<forall>r \<in> set (ls_ready st). r < length ns0 \<and> r \<notin> set ord \<and> ls_remaining st ! r = 0)"

definition marks_ok :: "tu_sched_node list \<Rightarrow> nat list \<Rightarrow> list_state \<Rightarrow> bool" where
  "marks_ok ns0 ord st \<longleftrightarrow> length (ls_nodes st) = length ns0
     \<and> (\<forall>k<length ns0. ls_nodes st ! k = (ns0 ! k)\<lparr>nd_scheduled := k \<in> set ord\<rparr>)"

lemma release_succ_ok:
  assumes c: "counts_ok ns0 ord pend st" and r: "ready_ok ns0 ord st" and m: "marks_ok ns0 ord st"
    and s: "s \<in> pend" "s < length ns0"
  shows "counts_ok ns0 ord (pend - {s}) (release_succ st s) \<and> ready_ok ns0 ord (release_succ st s)
    \<and> marks_ok ns0 ord (release_succ st s)"
proof -
  define rem where "rem = (ls_remaining st)[s := u32_dec (ls_remaining st ! s)]"
  have rem_s: "rem ! s = card (set (nd_preds (ns0 ! s)) - set ord)"
    using c s by (simp add: rem_def counts_ok_def u32_dec_def)
  have c': "counts_ok ns0 ord (pend - {s}) (st\<lparr>ls_remaining := rem\<rparr>)"
    using c s rem_s by (auto simp: counts_ok_def rem_def nth_list_update)
  have notin: "s \<notin> set (ls_ready st)"
    using r c s by (auto simp: ready_ok_def counts_ok_def)
  have r': "ready_ok ns0 ord (st\<lparr>ls_remaining := rem\<rparr>)"
  proof -
    have "rem ! q = ls_remaining st ! q" if "q \<in> set (ls_ready st)" for q
      using notin that by (metis nth_list_update_neq rem_def)
    then show ?thesis using r by (simp add: ready_ok_def)
  qed
  have m': "marks_ok ns0 ord (st\<lparr>ls_remaining := rem\<rparr>)" using m by (simp add: marks_ok_def)
  show ?thesis
  proof (cases "rem ! s = 0 \<and> length (ls_ready st) < TU_SCHED_MAX_READY_QUEUE
            \<and> \<not> nd_scheduled (ls_nodes st ! s)")
    case False
    then have "release_succ st s = st\<lparr>ls_remaining := rem\<rparr>"
      by (simp add: release_succ_def Let_def rem_def)
    then show ?thesis using c' r' m' by simp
  next
    case True
    then have eq: "release_succ st s = st\<lparr>ls_remaining := rem, ls_ready := ls_ready st @ [s]\<rparr>"
      by (simp add: release_succ_def Let_def rem_def)
    have ord: "s \<notin> set ord" using True m s by (auto simp: marks_ok_def)
    have "counts_ok ns0 ord (pend - {s}) (release_succ st s)"
      using c' by (simp add: eq counts_ok_def)
    moreover have "ready_ok ns0 ord (release_succ st s)"
      using r' True notin s ord by (auto simp: eq ready_ok_def)
    moreover have "marks_ok ns0 ord (release_succ st s)" using m' by (simp add: eq marks_ok_def)
    ultimately show ?thesis by blast
  qed
qed

lemma release_succs_ok:
  assumes "counts_ok ns0 ord (set ss) st" "ready_ok ns0 ord st" "marks_ok ns0 ord st"
    and "distinct ss" "set ss \<subseteq> {..<length ns0}"
  shows "counts_ok ns0 ord {} (foldl release_succ st ss)
    \<and> ready_ok ns0 ord (foldl release_succ st ss) \<and> marks_ok ns0 ord (foldl release_succ st ss)"
  using assms
proof (induction ss arbitrary: st)
  case (Cons s ss)
  have "set (s # ss) - {s} = set ss" using Cons.prems(4) by auto
  then show ?case
    using Cons.IH [of "release_succ st s"] release_succ_ok [OF Cons.prems(1-3), of s] Cons.prems(4,5)
    by auto
qed simp

text \<open>Every element of an emission order comes after all its predecessors.\<close>

definition topological :: "tu_sched_node list \<Rightarrow> nat list \<Rightarrow> bool" where
  "topological ns ord \<longleftrightarrow> (\<forall>us a vs. ord = us @ a # vs \<longrightarrow> set (nd_preds (ns ! a)) \<subseteq> set us)"

lemma topological_snoc:
  "topological ns (ord @ [a]) \<longleftrightarrow> topological ns ord \<and> set (nd_preds (ns ! a)) \<subseteq> set ord"
proof
  assume t: "topological ns (ord @ [a])"
  have "topological ns ord"
    unfolding topological_def
  proof (intro allI impI)
    fix us b vs assume "ord = us @ b # vs"
    then have "ord @ [a] = us @ b # (vs @ [a])" by simp
    then show "set (nd_preds (ns ! b)) \<subseteq> set us" using t unfolding topological_def by blast
  qed
  then show "topological ns ord \<and> set (nd_preds (ns ! a)) \<subseteq> set ord"
    using t unfolding topological_def by blast
next
  assume t: "topological ns ord \<and> set (nd_preds (ns ! a)) \<subseteq> set ord"
  show "topological ns (ord @ [a])"
    unfolding topological_def
  proof (intro allI impI)
    fix us b vs assume eq: "ord @ [a] = us @ b # vs"
    show "set (nd_preds (ns ! b)) \<subseteq> set us"
    proof (cases vs rule: rev_cases)
      case Nil
      then show ?thesis using eq t by simp
    next
      case (snoc ws c)
      then have "ord = us @ b # ws" using eq by simp
      then show ?thesis using t unfolding topological_def by blast
    qed
  qed
qed

definition ls_inv :: "tu_sched_graph \<Rightarrow> list_state \<Rightarrow> bool" where
  "ls_inv g st \<longleftrightarrow> gr_config (ls_graph st) = gr_config g
     \<and> marks_ok (gr_nodes g) (ls_order st) st
     \<and> counts_ok (gr_nodes g) (ls_order st) {} st \<and> ready_ok (gr_nodes g) (ls_order st) st
     \<and> distinct (ls_order st) \<and> set (ls_order st) \<subseteq> {..<length (gr_nodes g)}
     \<and> topological (gr_nodes g) (ls_order st)
     \<and> rs_instructions (ls_result st) = map (\<lambda>i. nd_instr (gr_nodes g ! i)) (ls_order st)
     \<and> rs_estimated_cycles (ls_result st) =
         sum_list (map (\<lambda>i. if nd_is_dma (gr_nodes g ! i) then 1 else 4) (ls_order st))
     \<and> rs_num_dma_hoisted (ls_result st) = 0 \<and> rs_num_barriers_inserted (ls_result st) = 0"

definition dag_ok :: "tu_sched_graph \<Rightarrow> bool" where
  "dag_ok g \<longleftrightarrow> (\<forall>k<length (gr_nodes g). \<forall>p \<in> set (nd_preds (gr_nodes g ! k)). p < k)
     \<and> edges_dual (gr_nodes g) \<and> edges_bounded (gr_nodes g)
     \<and> (\<forall>k<length (gr_nodes g). \<not> nd_scheduled (gr_nodes g ! k))"

lemma emit_node_inv:
  assumes dag: "dag_ok g" and inv: "ls_inv g st" and best: "best < length (ls_ready st)"
  shows "ls_inv g (emit_node st best)"
proof -
  define ns0 where "ns0 = gr_nodes g"
  define sel where "sel = ls_ready st ! best"
  define ord where "ord = ls_order st @ [sel]"
  have c: "counts_ok ns0 (ls_order st) {} st" and r: "ready_ok ns0 (ls_order st) st"
    and m: "marks_ok ns0 (ls_order st) st" and t: "topological ns0 (ls_order st)"
    using inv by (auto simp: ls_inv_def ns0_def)
  have sel: "sel < length ns0" "sel \<notin> set (ls_order st)" "ls_remaining st ! sel = 0"
    using r best by (auto simp: ready_ok_def sel_def)
  have preds: "set (nd_preds (ns0 ! sel)) \<subseteq> set (ls_order st)"
    using c sel by (auto simp: counts_ok_def)
  have node: "ls_nodes st ! sel = (ns0 ! sel)\<lparr>nd_scheduled := False\<rparr>"
    using m sel by (simp add: marks_ok_def)
  define st1 where "st1 = st\<lparr>ls_result := (ls_result st)\<lparr>
        rs_instructions := rs_instructions (ls_result st) @ [nd_instr (ns0 ! sel)],
        rs_estimated_cycles := rs_estimated_cycles (ls_result st)
          + (if nd_is_dma (ns0 ! sel) then 1 else 4)\<rparr>,
      ls_graph := (ls_graph st)\<lparr>gr_nodes := (ls_nodes st)[sel := (ns0 ! sel)\<lparr>nd_scheduled := True\<rparr>]\<rparr>,
      ls_ready := swap_remove best (ls_ready st), ls_order := ord\<rparr>"
  have eq: "emit_node st best = foldl release_succ st1 (nd_succs (ns0 ! sel))"
    using node by (simp add: emit_node_def Let_def st1_def sel_def [symmetric] ord_def)
  have dual: "sel \<in> set (nd_preds (ns0 ! k)) \<longleftrightarrow> k \<in> set (nd_succs (ns0 ! sel))"
    if "k < length ns0" for k
    using dag sel that by (auto simp: dag_ok_def edges_dual_def ns0_def)
  have c1: "counts_ok ns0 ord (set (nd_succs (ns0 ! sel))) st1"
    unfolding counts_ok_def
  proof (intro conjI allI impI)
    show "length (ls_remaining st1) = length ns0" using c by (simp add: st1_def counts_ok_def)
    fix k assume k: "k < length ns0"
    have rk: "ls_remaining st1 ! k = card (set (nd_preds (ns0 ! k)) - set (ls_order st))"
      using c k by (simp add: st1_def counts_ok_def)
    have split: "set (nd_preds (ns0 ! k)) - set ord
        = (set (nd_preds (ns0 ! k)) - set (ls_order st)) - {sel}" by (auto simp: ord_def)
    show "ls_remaining st1 ! k = card (set (nd_preds (ns0 ! k)) - set ord)
        + (if k \<in> set (nd_succs (ns0 ! sel)) then 1 else 0)"
    proof (cases "k \<in> set (nd_succs (ns0 ! sel))")
      case True
      then have "sel \<in> set (nd_preds (ns0 ! k)) - set (ls_order st)" using dual k sel by auto
      then have "card (set (nd_preds (ns0 ! k)) - set (ls_order st))
          = Suc (card (set (nd_preds (ns0 ! k)) - set (ls_order st) - {sel}))"
        by (metis List.finite_set card_Suc_Diff1 finite_Diff)
      then show ?thesis using True by (simp add: rk split)
    next
      case False
      then have "sel \<notin> set (nd_preds (ns0 ! k))" using dual k by auto
      then show ?thesis using False by (simp add: rk split)
    qed
  qed
  have r1: "ready_ok ns0 ord st1"
    using r swap_remove_distinct [OF best] by (auto simp: ready_ok_def st1_def ord_def sel_def)
  have m1: "marks_ok ns0 ord st1"
    using m sel by (auto simp: marks_ok_def st1_def ord_def nth_list_update)
  have ds: "distinct (nd_succs (ns0 ! sel))" "set (nd_succs (ns0 ! sel)) \<subseteq> {..<length ns0}"
    using dag sel by (auto simp: dag_ok_def edges_bounded_def edges_dual_def ns0_def)
  note rel = release_succs_ok [OF c1 r1 m1 ds]
  have frame: "ls_order st1 = ord" "gr_config (ls_graph st1) = gr_config (ls_graph st)"
    "rs_instructions (ls_result st1) = rs_instructions (ls_result st) @ [nd_instr (ns0 ! sel)]"
    "rs_estimated_cycles (ls_result st1) = rs_estimated_cycles (ls_result st)
        + (if nd_is_dma (ns0 ! sel) then 1 else 4)"
    "rs_num_dma_hoisted (ls_result st1) = rs_num_dma_hoisted (ls_result st)"
    "rs_num_barriers_inserted (ls_result st1) = rs_num_barriers_inserted (ls_result st)"
    by (simp_all add: st1_def)
  have "topological ns0 ord" using t preds by (simp add: ord_def topological_snoc)
  moreover have "distinct ord" "set ord \<subseteq> {..<length ns0}"
    using inv sel by (auto simp: ord_def ls_inv_def ns0_def)
  ultimately show ?thesis
    using inv rel by (simp add: eq ls_inv_def frame ord_def ns0_def [symmetric])
qed

lemma ready_progress:
  assumes dag: "dag_ok g" and inv: "ls_inv g st" and more: "length (ls_order st) < length (gr_nodes g)"
  shows "ls_ready (refill_ready st) \<noteq> [] \<and> ls_inv g (refill_ready st)"
proof (cases "ls_ready st = []")
  case False
  then show ?thesis using inv by (simp add: refill_ready_def)
next
  case True
  define n where "n = length (gr_nodes g)"
  let ?P = "\<lambda>i. \<not> nd_scheduled (ls_nodes st ! i) \<and> ls_remaining st ! i = 0"
  have len: "length (ls_nodes st) = n" using inv by (simp add: ls_inv_def marks_ok_def n_def)
  have "card (set (ls_order st)) < card {..<n}"
    using inv more by (simp add: ls_inv_def distinct_card n_def)
  then have "\<not> {..<n} \<subseteq> set (ls_order st)" by (metis List.finite_set card_mono leD)
  then have ex: "\<exists>k. k < n \<and> k \<notin> set (ls_order st)" by auto
  define k where "k = (LEAST k. k < n \<and> k \<notin> set (ls_order st))"
  have k: "k < n" "k \<notin> set (ls_order st)" using LeastI_ex [OF ex] by (auto simp: k_def)
  have below: "p \<in> set (ls_order st)" if "p < k" for p
    using not_less_Least [OF that [unfolded k_def]] that k by auto
  have "set (nd_preds (gr_nodes g ! k)) \<subseteq> set (ls_order st)"
    using dag k below by (auto simp: dag_ok_def n_def)
  then have "ls_remaining st ! k = 0"
    using inv k by (auto simp: ls_inv_def counts_ok_def n_def)
  moreover have "\<not> nd_scheduled (ls_nodes st ! k)"
    using inv k by (auto simp: ls_inv_def marks_ok_def n_def)
  ultimately have "find ?P [0..<n] \<noteq> None" using k by (auto simp: find_None_iff)
  then obtain i where i: "find ?P [0..<n] = Some i" by auto
  then have "i < n" "?P i" by (auto simp: find_Some_iff)
  moreover have "i \<notin> set (ls_order st)"
    using inv calculation by (auto simp: ls_inv_def marks_ok_def n_def)
  moreover have eq: "refill_ready st = st\<lparr>ls_ready := [i]\<rparr>"
    using True i len by (simp add: refill_ready_def)
  ultimately show ?thesis
    using inv by (auto simp: ls_inv_def counts_ok_def ready_ok_def marks_ok_def n_def)
qed

lemma list_schedule_loop_complete:
  assumes "dag_ok g" "ls_inv g st"
  shows "ls_inv g (list_schedule_loop st)
    \<and> length (ls_order (list_schedule_loop st)) = length (gr_nodes g)"
  using assms
proof (induction st rule: list_schedule_loop.induct)
  case (1 st)
  have len: "length (rs_instructions (ls_result st)) = length (ls_order st)"
    "length (ls_nodes st) = length (gr_nodes g)"
    using "1.prems"(2) by (auto simp: ls_inv_def marks_ok_def)
  show ?case
  proof (cases "length (ls_order st) < length (gr_nodes g)")
    case True
    have rp: "ls_ready (refill_ready st) \<noteq> []" "ls_inv g (refill_ready st)"
      using ready_progress [OF "1.prems" True] by auto
    define st' where "st' = emit_node (refill_ready st)
        (select_ready (sc_policy (gr_config (ls_graph (refill_ready st))))
          (ls_nodes (refill_ready st)) (ls_ready (refill_ready st)))"
    have body: "list_schedule_body st = Some st'"
      using rp(1) by (simp add: list_schedule_body_def Let_def st'_def)
    have "ls_inv g st'"
      unfolding st'_def by (rule emit_node_inv [OF "1.prems"(1) rp(2) select_ready_range [OF rp(1)]])
    then have "ls_inv g (list_schedule_loop st')
        \<and> length (ls_order (list_schedule_loop st')) = length (gr_nodes g)"
      using "1.IH" [of st'] True len body "1.prems"(1) by simp
    moreover have "list_schedule_loop st = list_schedule_loop st'"
      using True len body by (subst list_schedule_loop.simps) simp
    ultimately show ?thesis by simp
  next
    case False
    have "card (set (ls_order st)) \<le> card {..<length (gr_nodes g)}"
      using "1.prems"(2) by (intro card_mono) (auto simp: ls_inv_def)
    then have "length (ls_order st) = length (gr_nodes g)"
      using False "1.prems"(2) by (simp add: ls_inv_def distinct_card)
    moreover have "list_schedule_loop st = st"
      using False len by (subst list_schedule_loop.simps) simp
    ultimately show ?thesis using "1.prems"(2) by simp
  qed
qed

lemma list_schedule_init_inv:
  assumes "dag_ok g" shows "ls_inv g (list_schedule_init g r)"
proof -
  have "marks_ok (gr_nodes g) [] (list_schedule_init g r)"
    using assms by (auto simp: marks_ok_def list_schedule_init_def dag_ok_def)
  moreover have "counts_ok (gr_nodes g) [] {} (list_schedule_init g r)"
    using assms by (auto simp: counts_ok_def list_schedule_init_def dag_ok_def edges_bounded_def
        distinct_card)
  moreover have "ready_ok (gr_nodes g) [] (list_schedule_init g r)"
    by (auto simp: ready_ok_def list_schedule_init_def)
  ultimately show ?thesis
    by (simp add: ls_inv_def) (simp add: list_schedule_init_def topological_def)
qed

text \<open>
  The contract between the graph builder and the list scheduler: what \<open>list_schedule\<close> relies
  on in a graph that it is handed.
\<close>

locale dag_producer =
  fixes build :: "tu_instruction list \<Rightarrow> tu_sched_config option \<Rightarrow> tu_sched_graph option"
  assumes build_size: "build instrs c = Some g \<Longrightarrow> length (gr_nodes g) = length instrs"
    and build_instr: "build instrs c = Some g \<Longrightarrow> k < length instrs
      \<Longrightarrow> nd_instr (gr_nodes g ! k) = instrs ! k"
    and build_dag: "build instrs c = Some g \<Longrightarrow> dag_ok g"
begin

lemma schedule_complete:
  assumes "build instrs c = Some g" "list_schedule g r = (rc, st)"
  shows "rc = 0 \<and> mset (ls_order st) = mset [0..<length instrs]
    \<and> rs_instructions (ls_result st) = map ((!) instrs) (ls_order st)
    \<and> topological (gr_nodes g) (ls_order st)"
proof -
  define st' where "st' = list_schedule_loop (list_schedule_init g r)"
  have ok: "dag_ok g" using build_dag assms(1) by blast
  have len: "length (gr_nodes g) = length instrs" using build_size assms(1) by blast
  have inv: "ls_inv g st'" and full: "length (ls_order st') = length (gr_nodes g)"
    using list_schedule_loop_complete [OF ok list_schedule_init_inv [OF ok]] by (auto simp: st'_def)
  have ri: "rs_instructions (ls_result st') = map (\<lambda>i. nd_instr (gr_nodes g ! i)) (ls_order st')"
    and d: "distinct (ls_order st')" and sub: "set (ls_order st') \<subseteq> {..<length instrs}"
    and topo: "topological (gr_nodes g) (ls_order st')"
    using inv len by (auto simp: ls_inv_def)
  have "set (ls_order st') = {..<length instrs}"
    by (rule card_subset_eq) (use d sub full len in \<open>auto simp: distinct_card\<close>)
  then have "mset (ls_order st') = mset [0..<length instrs]"
    using d set_eq_iff_mset_eq_distinct [of "ls_order st'" "[0..<length instrs]"]
    by (simp add: lessThan_atLeast0)
  moreover have "rs_instructions (ls_result st') = map ((!) instrs) (ls_order st')"
    unfolding ri using sub build_instr [OF assms(1)] by (intro map_cong refl) auto
  moreover have "rc = 0" "ls_order st = ls_order st'"
    "rs_instructions (ls_result st) = rs_instructions (ls_result st')"
    using assms(2) full unfolding list_schedule_def Let_def st'_def [symmetric]
    by (auto simp: ri)
  ultimately show ?thesis using topo by simp
qed

lemma schedule_counters:
  assumes "build instrs c = Some g" "list_schedule g r = (rc, st)"
  shows "rs_num_dma_hoisted (ls_result st) = 0 \<and> rs_num_barriers_inserted (ls_result st) = 0
    \<and> rs_estimated_cycles (ls_result st) =
        sum_list (map (\<lambda>i. if nd_is_dma (gr_nodes g ! i) then 1 else 4) (ls_order st))"
proof -
  have ok: "dag_ok g" using build_dag assms(1) by blast
  have "ls_inv g (list_schedule_loop (list_schedule_init g r))"
    using list_schedule_loop_complete [OF ok list_schedule_init_inv [OF ok]] by blast
  then show ?thesis using assms(2) by (auto simp: list_schedule_def Let_def ls_inv_def)
qed

end

text \<open>The builder of the pass: graph construction followed by the mobility passes.\<close>

definition built_graph ::
  "tu_instruction list \<Rightarrow> tu_sched_config option \<Rightarrow> tu_sched_graph option" where
  "built_graph instrs c = map_option tu_sched_compute_mobility (tu_sched_build_dag instrs c)"

lemma mk_nodes_nth: "k < length instrs \<Longrightarrow> mk_nodes instrs ! k = mk_node k (instrs ! k)"
  by (simp add: mk_nodes_def)

lemma length_mk_nodes [simp]: "length (mk_nodes instrs) = length instrs"
  by (simp add: mk_nodes_def)

lemma link_mk_nodes: "linked_upto (mk_nodes instrs) (length instrs) 0 (link_nodes (mk_nodes instrs))"
  using linked_upto_all [of "mk_nodes instrs"] by (simp add: mk_nodes_nth mk_node_def)

lemma built_graph_nodes:
  assumes "built_graph instrs c = Some g"
  shows "map node_topo (gr_nodes g) = map node_topo (link_nodes (mk_nodes instrs))"
    and "gr_config g = (case c of Some c \<Rightarrow> c | None \<Rightarrow> tu_sched_config_default)"
  using assms by (auto simp: built_graph_def tu_sched_build_dag_def compute_mobility_topo split: if_splits)

lemma built_graph_length:
  assumes "built_graph instrs c = Some g" shows "length (gr_nodes g) = length instrs"
proof -
  have "length (link_nodes (mk_nodes instrs)) = length instrs"
    using link_mk_nodes [of instrs] by (simp add: linked_upto_def same_core_def)
  then show ?thesis using built_graph_nodes(1) [OF assms] by (metis length_map)
qed

lemma built_graph_node:
  assumes "built_graph instrs c = Some g" "k < length instrs"
  shows "node_topo (gr_nodes g ! k) = node_topo (link_nodes (mk_nodes instrs) ! k)"
  using arg_cong [OF built_graph_nodes(1) [OF assms(1)], of "\<lambda>xs. xs ! k"] assms(2)
    built_graph_length [OF assms(1)] link_mk_nodes [of instrs]
  by (simp add: linked_upto_def same_core_def)

lemma built_graph_fields:
  assumes "built_graph instrs c = Some g" "k < length instrs"
  shows "nd_preds (gr_nodes g ! k) = nd_preds (link_nodes (mk_nodes instrs) ! k)"
    "nd_succs (gr_nodes g ! k) = nd_succs (link_nodes (mk_nodes instrs) ! k)"
    "nd_instr (gr_nodes g ! k) = instrs ! k"
    "nd_access (gr_nodes g ! k) = tu_sched_analyze_access (instrs ! k)"
    "nd_is_barrier (gr_nodes g ! k) = is_barrier_op (op_of (instrs ! k))"
    "nd_is_dma (gr_nodes g ! k) = is_dma_op (op_of (instrs ! k))"
    "nd_scheduled (gr_nodes g ! k) = False"
proof -
  have core: "node_core (link_nodes (mk_nodes instrs) ! k) = node_core (mk_node k (instrs ! k))"
    using link_mk_nodes [of instrs] assms(2) by (auto simp: linked_upto_def same_core_def mk_nodes_nth)
  note c = node_core_eqD [OF core]
  note t = arg_cong [OF built_graph_node [OF assms]]
  show "nd_preds (gr_nodes g ! k) = nd_preds (link_nodes (mk_nodes instrs) ! k)"
    using t [of nd_preds] by (simp add: node_topo_sel)
  show "nd_succs (gr_nodes g ! k) = nd_succs (link_nodes (mk_nodes instrs) ! k)"
    using t [of nd_succs] by (simp add: node_topo_sel)
  show "nd_instr (gr_nodes g ! k) = instrs ! k"
    using t [of nd_instr] c(1) by (simp add: node_topo_sel mk_node_def)
  show "nd_access (gr_nodes g ! k) = tu_sched_analyze_access (instrs ! k)"
    using t [of nd_access] c(2) by (simp add: node_topo_sel mk_node_def)
  show "nd_is_barrier (gr_nodes g ! k) = is_barrier_op (op_of (instrs ! k))"
    using t [of nd_is_barrier] c(5) by (simp add: node_topo_sel mk_node_def)
  show "nd_is_dma (gr_nodes g ! k) = is_dma_op (op_of (instrs ! k))"
    using t [of nd_is_dma] c(3) by (simp add: node_topo_sel mk_node_def)
  show "nd_scheduled (gr_nodes g ! k) = False"
    using t [of nd_scheduled] c(6) by (simp add: node_topo_sel mk_node_def)
qed

lemma built_graph_dag_ok:
  assumes "built_graph instrs c = Some g" shows "dag_ok g"
proof -
  have len: "length (link_nodes (mk_nodes instrs)) = length instrs"
    using link_mk_nodes [of instrs] by (simp add: linked_upto_def same_core_def)
  have "edges_dual (link_nodes (mk_nodes instrs)) \<and> edges_bounded (link_nodes (mk_nodes instrs))
      \<and> edges_sound (mk_nodes instrs) (length instrs) 0 (link_nodes (mk_nodes instrs))"
    using link_mk_nodes [of instrs] by (simp add: linked_upto_def)
  then show ?thesis
    using built_graph_fields [OF assms] built_graph_length [OF assms]
    by (auto simp: dag_ok_def edges_dual_def edges_bounded_def edges_sound_def compared_def len)
qed

interpretation dag: dag_producer built_graph
  by unfold_locales (auto simp: built_graph_length built_graph_fields intro: built_graph_dag_ok)

section \<open>What a run guarantees\<close>

lemma tu_sched_run_cases:
  assumes "instrs \<noteq> []" "length instrs \<le> TU_SCHED_MAX_INSTRS"
    "tu_sched_run instrs config r = (rc, res, order, gopt)"
  obtains g r' st where "built_graph instrs config = Some g" "list_schedule g r' = (rc, st)"
    "res = (ls_result st)\<lparr>rs_valid := (rc = 0)\<rparr>" "order = ls_order st" "gopt = Some (ls_graph st)"
proof -
  obtain g where g: "built_graph instrs config = Some g"
    using assms(2) by (simp add: built_graph_def tu_sched_build_dag_def)
  then obtain g0 where g0: "tu_sched_build_dag instrs config = Some g0" "g = tu_sched_compute_mobility g0"
    by (auto simp: built_graph_def)
  have "\<exists>r'. tu_sched_run instrs config r = (let (rc, st) = list_schedule g r'
      in (rc, (ls_result st)\<lparr>rs_valid := (rc = 0)\<rparr>, ls_order st, Some (ls_graph st)))"
    unfolding tu_sched_run_def Let_def using assms(1,2) by (simp add: g0) blast
  then obtain r' where "(let (rc, st) = list_schedule g r'
      in (rc, (ls_result st)\<lparr>rs_valid := (rc = 0)\<rparr>, ls_order st, Some (ls_graph st)))
      = (rc, res, order, gopt)" using assms(3) by auto
  then show ?thesis using that [OF g, of r'] by (auto split: prod.splits)
qed

text \<open>The order in which a run must keep two instructions, read off the instructions alone.\<close>

definition must_precede :: "tu_instruction \<Rightarrow> tu_instruction \<Rightarrow> bool" where
  "must_precede a b \<longleftrightarrow> \<not> is_barrier_op (op_of a)
     \<and> (is_barrier_op (op_of b)
        \<or> has_dependency (tu_sched_analyze_access a) (tu_sched_analyze_access b))"

text \<open>Neither the successors of \<open>j\<close> nor the predecessors of \<open>i\<close> outnumber the edge arrays.\<close>

definition edges_fit :: "tu_instruction list \<Rightarrow> nat \<Rightarrow> nat \<Rightarrow> bool" where
  "edges_fit instrs j i \<longleftrightarrow>
     length (filter (\<lambda>k. must_precede (instrs ! j) (instrs ! k)) [Suc j..<length instrs])
        \<le> TU_SCHED_MAX_DEPS
   \<and> length (filter (\<lambda>p. must_precede (instrs ! p) (instrs ! i)) [0..<i]) \<le> TU_SCHED_MAX_DEPS"

lemma linkable_mk_nodes:
  assumes "j < length instrs" "i < length instrs"
  shows "linkable (mk_nodes instrs) j i = must_precede (instrs ! j) (instrs ! i)"
  using assms by (simp add: linkable_def must_precede_def mk_nodes_nth mk_node_def)

lemma built_graph_edge_sound:
  assumes "built_graph instrs c = Some g" "k < length instrs" "p \<in> set (nd_preds (gr_nodes g ! k))"
  shows "p < k \<and> must_precede (instrs ! p) (instrs ! k)"
proof -
  have "compared (length instrs) 0 p k \<and> linkable (mk_nodes instrs) p k"
    using link_mk_nodes [of instrs] built_graph_fields(1) [OF assms(1,2)] assms(2,3)
    by (auto simp: linked_upto_def edges_sound_def same_core_def)
  then show ?thesis using assms(2) linkable_mk_nodes [of p instrs k] by (simp add: compared_def)
qed

lemma length_le_filter:
  assumes "distinct xs" "set xs \<subseteq> set (filter P ys)"
  shows "length xs \<le> length (filter P ys)"
  using card_mono [of "set (filter P ys)" "set xs"] assms card_length [of "filter P ys"]
  by (simp add: distinct_card del: set_filter)

lemma built_graph_edge_complete:
  assumes g: "built_graph instrs c = Some g" and ji: "j < i" "i < length instrs"
    and mp: "must_precede (instrs ! j) (instrs ! i)" and fit: "edges_fit instrs j i"
  shows "j \<in> set (nd_preds (gr_nodes g ! i))"
proof (rule ccontr)
  assume no: "j \<notin> set (nd_preds (gr_nodes g ! i))"
  define ns where "ns = gr_nodes g"
  have len: "length ns = length instrs" using built_graph_length [OF g] by (simp add: ns_def)
  have ok: "edges_dual ns" "edges_bounded ns"
    using built_graph_dag_ok [OF g] by (auto simp: dag_ok_def ns_def)
  have jl: "j < length instrs" using ji by simp
  have noP: "j \<notin> set (nd_preds (ns ! i))" and noS: "i \<notin> set (nd_succs (ns ! j))"
    using no ok(1) ji jl len by (auto simp: edges_dual_def ns_def)
  have "\<not> edge_room (link_nodes (mk_nodes instrs)) j i"
    using link_mk_nodes [of instrs] no mp ji linkable_mk_nodes [OF jl ji(2)]
      built_graph_fields(1) [OF g ji(2)]
    by (auto simp: linked_upto_def edges_complete_def same_core_def compared_def)
  then have room: "\<not> edge_room ns j i"
    using built_graph_fields(1) [OF g ji(2)] built_graph_fields(2) [OF g jl]
    by (simp add: edge_room_def ns_def)
  have "length (nd_preds (ns ! i)) < TU_SCHED_MAX_DEPS"
  proof -
    have "length (j # nd_preds (ns ! i))
        \<le> length (filter (\<lambda>p. must_precede (instrs ! p) (instrs ! i)) [0..<i])"
      using noP ok(2) ji len mp built_graph_edge_sound [OF g ji(2)]
      by (intro length_le_filter) (auto simp: edges_bounded_def ns_def)
    then show ?thesis using fit by (simp add: edges_fit_def)
  qed
  moreover have "length (nd_succs (ns ! j)) < TU_SCHED_MAX_DEPS"
  proof -
    have sub: "k < length instrs \<and> j \<in> set (nd_preds (ns ! k))" if "k \<in> set (nd_succs (ns ! j))" for k
    proof -
      have "k < length ns" using ok(1) jl len that by (auto simp: edges_dual_def)
      then show ?thesis using ok(1) jl len that by (auto simp: edges_dual_def)
    qed
    have "length (i # nd_succs (ns ! j))
        \<le> length (filter (\<lambda>k. must_precede (instrs ! j) (instrs ! k)) [Suc j..<length instrs])"
    proof (rule length_le_filter)
      show "distinct (i # nd_succs (ns ! j))" using noS ok(2) jl len by (auto simp: edges_bounded_def)
      show "set (i # nd_succs (ns ! j))
          \<subseteq> set (filter (\<lambda>k. must_precede (instrs ! j) (instrs ! k)) [Suc j..<length instrs])"
        using sub built_graph_edge_sound [OF g] ji mp by (fastforce simp: ns_def)
    qed
    then show ?thesis using fit by (simp add: edges_fit_def)
  qed
  ultimately show False using room by (simp add: edge_room_def)
qed

lemma topological_before:
  assumes "topological ns ord" "k \<in> set ord" "p \<in> set (nd_preds (ns ! k))"
  shows "before ord p k"
proof -
  obtain us vs where ord: "ord = us @ k # vs" using assms(2) by (auto simp: in_set_conv_decomp)
  then have "p \<in> set us" using assms(1,3) unfolding topological_def by blast
  then obtain us1 us2 where "us = us1 @ p # us2" by (auto simp: in_set_conv_decomp)
  then have "ord = us1 @ p # us2 @ k # vs" using ord by simp
  then show ?thesis unfolding before_def by blast
qed

lemma tu_sched_run_keeps_order:
  assumes "length instrs \<le> TU_SCHED_MAX_INSTRS"
    "tu_sched_run instrs config r = (rc, res, order, gopt)"
    "j < i" "i < length instrs" "must_precede (instrs ! j) (instrs ! i)" "edges_fit instrs j i"
  shows "before order j i"
proof -
  have ne: "instrs \<noteq> []" using assms(4) by auto
  obtain g r' st where st: "built_graph instrs config = Some g" "list_schedule g r' = (rc, st)"
      "order = ls_order st"
    using tu_sched_run_cases [OF ne assms(1,2)] by metis
  note c = dag.schedule_complete [OF st(1,2)]
  have "i \<in> set order" using c assms(4) unfolding st(3)
    by (metis set_mset_mset set_upt atLeastLessThan_iff zero_le)
  then show ?thesis
    using c topological_before [OF _ _ built_graph_edge_complete [OF st(1) assms(3-6)]]
    by (simp add: st(3))
qed

subsection \<open>The meaning of an instruction stream\<close>

text \<open>
  An SRAM is a memory over a region and a 32-bit address. A span is empty, a half-open interval,
  or everything when it is \<open>(0, UINT32_MAX)\<close>, as \<open>ranges_overlap\<close> reads it. An instruction
  may change the spans that its access record writes, to values that depend on the spans that it
  reads; \<open>h\<close> is what it computes.
\<close>

type_synonym 'v sram_mem = "nat \<times> u32 \<Rightarrow> 'v"

definition in_span :: "u32 \<times> u32 \<Rightarrow> u32 \<Rightarrow> bool" where
  "in_span s x \<longleftrightarrow> (fst s = 0 \<and> snd s = UINT32_MAX) \<or> (fst s \<le> x \<and> x < snd s)"

definition reads_at :: "tu_instruction \<Rightarrow> nat \<times> u32 \<Rightarrow> bool" where
  "reads_at instr l \<longleftrightarrow> (let a = tu_sched_analyze_access instr
     in fst l < TU_SRAM_REGION_COUNT \<and> acc_reads a ! fst l
        \<and> in_span (acc_read_offsets a ! fst l) (snd l))"

definition writes_at :: "tu_instruction \<Rightarrow> nat \<times> u32 \<Rightarrow> bool" where
  "writes_at instr l \<longleftrightarrow> (let a = tu_sched_analyze_access instr
     in fst l < TU_SRAM_REGION_COUNT \<and> acc_writes a ! fst l
        \<and> in_span (acc_write_offsets a ! fst l) (snd l))"

definition footprint_step ::
  "(tu_instruction \<Rightarrow> (nat \<times> u32 \<Rightarrow> 'v option) \<Rightarrow> nat \<times> u32 \<Rightarrow> 'v)
    \<Rightarrow> tu_instruction \<Rightarrow> 'v sram_mem \<Rightarrow> 'v sram_mem" where
  "footprint_step h instr m =
     (let seen = (\<lambda>l. if reads_at instr l then Some (m l) else None)
      in (\<lambda>l. if writes_at instr l then h instr seen l else m l))"

lemma overlap_if_common: "in_span s x \<Longrightarrow> in_span t x \<Longrightarrow> spans_overlap s t"
  by (auto simp: in_span_def ranges_overlap_def)

lemma no_dependency_disjoint:
  assumes "\<not> has_dependency (tu_sched_analyze_access a) (tu_sched_analyze_access b)"
  shows "\<not> (writes_at a l \<and> reads_at b l)" "\<not> (reads_at a l \<and> writes_at b l)"
    "\<not> (writes_at a l \<and> writes_at b l)"
proof -
  have no: "\<not> region_hazard (tu_sched_analyze_access a) (tu_sched_analyze_access b) (fst l)"
    if "fst l < TU_SRAM_REGION_COUNT" for l :: "nat \<times> u32"
    using assms that by (auto simp: has_dependency_def list_ex_iff)
  show "\<not> (writes_at a l \<and> reads_at b l)"
    using no [of l] overlap_if_common
    by (auto simp: writes_at_def reads_at_def Let_def region_hazard_def)
  show "\<not> (reads_at a l \<and> writes_at b l)"
    using no [of l] overlap_if_common
    by (auto simp: writes_at_def reads_at_def Let_def region_hazard_def)
  show "\<not> (writes_at a l \<and> writes_at b l)"
    using no [of l] overlap_if_common
    by (auto simp: writes_at_def Let_def region_hazard_def)
qed

text \<open>Any step semantics in which independent instructions commute.\<close>

locale commuting_steps =
  fixes exec :: "tu_instruction \<Rightarrow> 's \<Rightarrow> 's"
    and dep :: "tu_instruction \<Rightarrow> tu_instruction \<Rightarrow> bool"
  assumes commute: "\<not> dep a b \<Longrightarrow> exec b (exec a s) = exec a (exec b s)"
begin

lemma reorder_sound:
  assumes "mset ord = mset [0..<length instrs]"
    and "\<And>j i. j < i \<Longrightarrow> i < length instrs \<Longrightarrow> dep (instrs ! j) (instrs ! i) \<Longrightarrow> before ord j i"
  shows "fold exec (map ((!) instrs) ord) s = fold exec instrs s"
proof -
  define f where "f = (\<lambda>s k. exec (instrs ! k) s)"
  have d: "distinct ord" using assms(1) by (metis distinct_upt mset_eq_imp_distinct_iff)
  have "foldl f s ord = foldl f s [0..<length instrs]"
  proof (rule foldl_reorder)
    fix a b s assume ab: "before ord a b" "b < a"
    have "a \<in> set ord" using ab(1) by (auto simp: before_def)
    then have "a < length instrs" using assms(1) by (metis set_mset_mset set_upt atLeastLessThan_iff)
    then have "\<not> dep (instrs ! b) (instrs ! a)"
      using assms(2) [OF ab(2)] before_not_both [OF d ab(1)] by blast
    then show "f (f s a) b = f (f s b) a" using commute [of "instrs ! b" "instrs ! a" s]
      by (simp add: f_def)
  qed (use assms(1) in auto)
  moreover have "fold exec (map ((!) instrs) ks) s = foldl f s ks" for ks s
    by (induction ks arbitrary: s) (simp_all add: f_def)
  ultimately show ?thesis using map_nth [of instrs] by metis
qed

end

lemma footprint_commute:
  assumes "\<not> has_dependency (tu_sched_analyze_access a) (tu_sched_analyze_access b)"
  shows "footprint_step h b (footprint_step h a m) = footprint_step h a (footprint_step h b m)"
proof -
  note d = no_dependency_disjoint [OF assms]
  have seen: "(\<lambda>l. if reads_at b l then Some (footprint_step h a m l) else None)
      = (\<lambda>l. if reads_at b l then Some (m l) else None)"
    "(\<lambda>l. if reads_at a l then Some (footprint_step h b m l) else None)
      = (\<lambda>l. if reads_at a l then Some (m l) else None)"
    using d by (auto simp: footprint_step_def fun_eq_iff)
  have ba: "footprint_step h b (footprint_step h a m) l =
      (if writes_at b l then h b (\<lambda>l. if reads_at b l then Some (m l) else None) l
       else footprint_step h a m l)"
    and ab: "footprint_step h a (footprint_step h b m) l =
      (if writes_at a l then h a (\<lambda>l. if reads_at a l then Some (m l) else None) l
       else footprint_step h b m l)" for l
    by (simp_all add: footprint_step_def [of h b "footprint_step h a m"]
        footprint_step_def [of h a "footprint_step h b m"] seen)
  show ?thesis
  proof
    fix l show "footprint_step h b (footprint_step h a m) l = footprint_step h a (footprint_step h b m) l"
      unfolding ba ab using d(3) [of l] by (auto simp: footprint_step_def)
  qed
qed

interpretation sram: commuting_steps "footprint_step h"
  "\<lambda>a b. has_dependency (tu_sched_analyze_access a) (tu_sched_analyze_access b)" for h
  by unfold_locales (rule footprint_commute)

lemma barrier_no_access:
  assumes "is_barrier_op (op_of i)" shows "tu_sched_analyze_access i = no_access"
proof -
  have "\<not> is_dma_op (op_of i)" "\<not> is_compute_op (op_of i)"
    using assms
    by (auto simp: is_barrier_op_def is_dma_op_def is_compute_op_def)
  then show ?thesis by (simp add: tu_sched_analyze_access_def)
qed

lemma no_access_no_dependency: "\<not> has_dependency no_access a"
  by (simp add: has_dependency_def region_hazard_def no_access_def TU_SRAM_REGION_COUNT_def
      upt_rec)

section \<open>Mobility bounds\<close>

lemma foldl_max_ge:
  "a \<le> foldl (\<lambda>m p. max m (f p)) a xs \<and> (\<forall>p \<in> set xs. f p \<le> foldl (\<lambda>m p. max m (f p)) a xs)"
  for a :: int
  by (induction xs arbitrary: a) (force, smt (verit, best) foldl_Cons set_ConsD)

lemma foldl_min_le:
  "foldl (\<lambda>m p. min m (f p)) a xs \<le> a \<and> (\<forall>p \<in> set xs. foldl (\<lambda>m p. min m (f p)) a xs \<le> f p)"
  for a :: int
  by (induction xs arbitrary: a) (force, smt (verit, best) foldl_Cons set_ConsD)

lemma foldl_max_nodes:
  "m \<le> foldl (\<lambda>m nd. if nd_asap nd > m then nd_asap nd else m) m ns
   \<and> (\<forall>nd \<in> set ns. nd_asap nd \<le> foldl (\<lambda>m nd. if nd_asap nd > m then nd_asap nd else m) m ns)"
  by (induction ns arbitrary: m) (force, smt (verit, best) foldl_Cons set_ConsD)

lemma max_asap_ge: "k < length ns \<Longrightarrow> nd_asap (ns ! k) \<le> max_asap ns"
  using foldl_max_nodes [of 0 ns] by (auto simp: max_asap_def)

lemma node_latency_pos: "0 < node_latency nd"
  by (simp add: node_latency_def)

lemma node_latency_topo: "node_latency (node_topo nd) = node_latency nd"
  by (simp add: node_latency_def node_topo_sel)

lemma length_mobility_step [simp]:
  "length (asap_step ns i) = length ns" "length (alap_step mx ns i) = length ns"
  by (simp_all add: asap_step_def alap_step_def Let_def)

lemma same_topo_fields:
  assumes "map node_topo ns' = map node_topo ns" "k < length ns"
  shows "nd_preds (ns' ! k) = nd_preds (ns ! k)" "nd_succs (ns' ! k) = nd_succs (ns ! k)"
    "node_latency (ns' ! k) = node_latency (ns ! k)"
proof -
  have t: "node_topo (ns' ! k) = node_topo (ns ! k)"
    using assms by (metis length_map nth_map)
  show "nd_preds (ns' ! k) = nd_preds (ns ! k)" using arg_cong [OF t, of nd_preds] by (simp add: node_topo_sel)
  show "nd_succs (ns' ! k) = nd_succs (ns ! k)" using arg_cong [OF t, of nd_succs] by (simp add: node_topo_sel)
  show "node_latency (ns' ! k) = node_latency (ns ! k)"
    using arg_cong [OF t, of node_latency] by (simp add: node_latency_topo)
qed

text \<open>Early start times leave room for every predecessor.\<close>

definition asap_respected :: "nat \<Rightarrow> tu_sched_node list \<Rightarrow> bool" where
  "asap_respected i ns \<longleftrightarrow> (\<forall>k<i. \<forall>p \<in> set (nd_preds (ns ! k)).
     nd_asap (ns ! p) + node_latency (ns ! p) \<le> nd_asap (ns ! k))"

lemma asap_step_respected:
  assumes "asap_respected i ns" "i < length ns" "\<forall>k<length ns. \<forall>p \<in> set (nd_preds (ns ! k)). p < k"
  shows "asap_respected (Suc i) (asap_step ns i)"
proof -
  have nth: "asap_step ns i ! k = (if k = i then (ns ! i)\<lparr>nd_asap := nd_asap (asap_step ns i ! i)\<rparr> else ns ! k)"
    for k using assms(2) by (simp add: asap_step_def Let_def)
  have lat: "node_latency (asap_step ns i ! k) = node_latency (ns ! k)" for k
    by (subst nth) (simp add: node_latency_def)
  have top: "nd_asap (ns ! p) + node_latency (ns ! p) \<le> nd_asap (asap_step ns i ! i)"
    if "p \<in> set (nd_preds (ns ! i))" for p
    using that assms(2) foldl_max_ge [of "- 1" "\<lambda>p. nd_asap (ns ! p) + node_latency (ns ! p)"]
    by (auto simp: asap_step_def Let_def)
  have "nd_asap (asap_step ns i ! p) + node_latency (asap_step ns i ! p) \<le> nd_asap (asap_step ns i ! k)"
    if k: "k < Suc i" and p: "p \<in> set (nd_preds (asap_step ns i ! k))" for k p
  proof -
    have p': "p \<in> set (nd_preds (ns ! k))"
      using p by (subst (asm) nth) (simp split: if_splits)
    then have "p < k" using assms(2,3) k by auto
    then have ap: "nd_asap (asap_step ns i ! p) = nd_asap (ns ! p)" using nth [of p] k by simp
    show ?thesis
    proof (cases "k = i")
      case True
      then show ?thesis using top p' ap lat by simp
    next
      case False
      then have "nd_asap (asap_step ns i ! k) = nd_asap (ns ! k)" using nth [of k] by simp
      then show ?thesis using assms(1) p' ap lat k False by (auto simp: asap_respected_def)
    qed
  qed
  then show ?thesis by (auto simp: asap_respected_def)
qed

lemma asap_pass_respected:
  assumes "\<forall>k<length ns. \<forall>p \<in> set (nd_preds (ns ! k)). p < k" "i \<le> length ns"
  shows "asap_respected i (foldl asap_step ns [0..<i])"
  using assms(2)
proof (induction i)
  case (Suc i)
  have "\<forall>k<length ns. nd_preds (foldl asap_step ns [0..<i] ! k) = nd_preds (ns ! k)"
    using same_topo_fields(1) [OF mobility_foldl_topo(1)] by blast
  moreover have "length (foldl asap_step ns [0..<i]) = length ns"
    using mobility_foldl_topo(1) by (metis length_map)
  ultimately show ?case using Suc assms(1) asap_step_respected by simp
qed (simp add: asap_respected_def)

text \<open>
  Late start times: \<open>i\<close> is the least node that the backward pass has visited.
\<close>

definition alap_respected :: "nat \<Rightarrow> tu_sched_node list \<Rightarrow> bool" where
  "alap_respected i ns \<longleftrightarrow> (\<forall>k. i \<le> k \<longrightarrow> k < length ns \<longrightarrow>
     nd_asap (ns ! k) \<le> nd_alap (ns ! k) \<and> nd_slack (ns ! k) = nd_alap (ns ! k) - nd_asap (ns ! k)
     \<and> (\<forall>s \<in> set (nd_succs (ns ! k)). nd_alap (ns ! k) + node_latency (ns ! k) \<le> nd_alap (ns ! s)))"

lemma alap_step_frame:
  "nd_asap (alap_step mx ns i ! k) = nd_asap (ns ! k)"
  "nd_succs (alap_step mx ns i ! k) = nd_succs (ns ! k)"
  "node_latency (alap_step mx ns i ! k) = node_latency (ns ! k)"
proof -
  have "\<exists>v w. alap_step mx ns i = ns[i := (ns ! i)\<lparr>nd_alap := v, nd_slack := w\<rparr>]"
    unfolding alap_step_def Let_def by blast
  then obtain v w where eq: "alap_step mx ns i = ns[i := (ns ! i)\<lparr>nd_alap := v, nd_slack := w\<rparr>]"
    by blast
  have nth: "alap_step mx ns i ! k = ns ! k
      \<or> alap_step mx ns i ! k = (ns ! k)\<lparr>nd_alap := v, nd_slack := w\<rparr>"
    unfolding eq by (cases "i < length ns"; cases "k = i") (simp_all add: list_update_beyond)
  show "nd_asap (alap_step mx ns i ! k) = nd_asap (ns ! k)" using nth by auto
  show "nd_succs (alap_step mx ns i ! k) = nd_succs (ns ! k)" using nth by auto
  show "node_latency (alap_step mx ns i ! k) = node_latency (ns ! k)"
    using nth by (auto simp: node_latency_def)
qed

lemma alap_step_value:
  assumes i: "i < length ns" and mx: "nd_asap (ns ! i) \<le> mx"
    and succs: "\<And>s. s \<in> set (nd_succs (ns ! i)) \<Longrightarrow>
      nd_asap (ns ! i) + node_latency (ns ! i) \<le> nd_alap (ns ! s)"
  defines "v \<equiv> nd_alap (alap_step mx ns i ! i)"
  shows "nd_asap (ns ! i) \<le> v"
    and "\<forall>s \<in> set (nd_succs (ns ! i)). v + node_latency (ns ! i) \<le> nd_alap (ns ! s)"
proof -
  define low where "low = foldl (\<lambda>m s. min m (nd_alap (ns ! s) - node_latency (ns ! i))) INT32_MAX
    (nd_succs (ns ! i))"
  have v: "v = (if nd_succs (ns ! i) = [] then mx
      else if low < nd_asap (ns ! i) then nd_asap (ns ! i) else low)"
    using i by (simp add: v_def alap_step_def Let_def low_def)
  have low: "low \<le> nd_alap (ns ! s) - node_latency (ns ! i)" if "s \<in> set (nd_succs (ns ! i))" for s
    using foldl_min_le [of "\<lambda>s. nd_alap (ns ! s) - node_latency (ns ! i)" INT32_MAX "nd_succs (ns ! i)"]
      that by (simp add: low_def)
  show "nd_asap (ns ! i) \<le> v" using mx by (simp add: v)
  show "\<forall>s \<in> set (nd_succs (ns ! i)). v + node_latency (ns ! i) \<le> nd_alap (ns ! s)"
    using low succs by (fastforce simp: v)
qed

lemma alap_respectedD:
  assumes "alap_respected i ns" "i \<le> k" "k < length ns"
  shows "nd_asap (ns ! k) \<le> nd_alap (ns ! k)" "nd_slack (ns ! k) = nd_alap (ns ! k) - nd_asap (ns ! k)"
    "\<forall>s \<in> set (nd_succs (ns ! k)). nd_alap (ns ! k) + node_latency (ns ! k) \<le> nd_alap (ns ! s)"
  using assms unfolding alap_respected_def by blast+

lemma alap_step_respected:
  assumes "alap_respected (Suc i) ns" "i < length ns" "nd_asap (ns ! i) \<le> mx"
    and fwd: "\<forall>k<length ns. \<forall>s \<in> set (nd_succs (ns ! k)). k < s \<and> s < length ns"
    and asap: "\<forall>k<length ns. \<forall>s \<in> set (nd_succs (ns ! k)).
      nd_asap (ns ! k) + node_latency (ns ! k) \<le> nd_asap (ns ! s)"
  shows "alap_respected i (alap_step mx ns i)"
proof -
  have late: "nd_asap (ns ! i) + node_latency (ns ! i) \<le> nd_alap (ns ! s)"
    if "s \<in> set (nd_succs (ns ! i))" for s
  proof -
    have "i < s" "s < length ns" using fwd assms(2) that by blast+
    then have "nd_asap (ns ! s) \<le> nd_alap (ns ! s)"
      using alap_respectedD(1) [OF assms(1), of s] by simp
    moreover have "nd_asap (ns ! i) + node_latency (ns ! i) \<le> nd_asap (ns ! s)"
      using asap assms(2) that by blast
    ultimately show ?thesis by linarith
  qed
  note v = alap_step_value [OF assms(2,3) late]
  have same: "nd_alap (alap_step mx ns i ! s) = nd_alap (ns ! s)" if "s \<noteq> i" for s
    using that by (simp add: alap_step_def Let_def)
  have "nd_asap (ns ! k) \<le> nd_alap (alap_step mx ns i ! k)
      \<and> nd_slack (alap_step mx ns i ! k) = nd_alap (alap_step mx ns i ! k) - nd_asap (ns ! k)
      \<and> (\<forall>s \<in> set (nd_succs (ns ! k)).
           nd_alap (alap_step mx ns i ! k) + node_latency (ns ! k) \<le> nd_alap (alap_step mx ns i ! s))"
    if k: "i \<le> k" "k < length ns" for k
  proof (cases "k = i")
    case True
    have "\<forall>s \<in> set (nd_succs (ns ! i)). nd_alap (alap_step mx ns i ! s) = nd_alap (ns ! s)"
    proof
      fix s assume "s \<in> set (nd_succs (ns ! i))"
      then have "i < s" using fwd assms(2) by blast
      then show "nd_alap (alap_step mx ns i ! s) = nd_alap (ns ! s)" using same [of s] by simp
    qed
    moreover have "nd_slack (alap_step mx ns i ! i) = nd_alap (alap_step mx ns i ! i) - nd_asap (ns ! i)"
      using assms(2) by (simp add: alap_step_def Let_def)
    ultimately show ?thesis using v unfolding True by simp
  next
    case False
    then have eq: "alap_step mx ns i ! k = ns ! k" by (simp add: alap_step_def Let_def)
    have "\<forall>s \<in> set (nd_succs (ns ! k)). nd_alap (alap_step mx ns i ! s) = nd_alap (ns ! s)"
    proof
      fix s assume "s \<in> set (nd_succs (ns ! k))"
      then have "k < s" using fwd k by blast
      then show "nd_alap (alap_step mx ns i ! s) = nd_alap (ns ! s)" using same [of s] k by simp
    qed
    moreover have "nd_asap (ns ! k) \<le> nd_alap (ns ! k)
        \<and> nd_slack (ns ! k) = nd_alap (ns ! k) - nd_asap (ns ! k)
        \<and> (\<forall>s \<in> set (nd_succs (ns ! k)). nd_alap (ns ! k) + node_latency (ns ! k) \<le> nd_alap (ns ! s))"
      using alap_respectedD [OF assms(1), of k] k False by simp
    ultimately show ?thesis unfolding eq by simp
  qed
  then show ?thesis unfolding alap_respected_def alap_step_frame length_mobility_step by blast
qed

lemma length_alap_pass: "length (foldl (alap_step mx) ns is) = length ns"
  by (induction "is" arbitrary: ns) simp_all

lemma asap_alap_pass: "nd_asap (foldl (alap_step mx) ns is ! k) = nd_asap (ns ! k)"
  by (induction "is" arbitrary: ns) (simp_all add: alap_step_frame)

lemmas alap_pass_frame = length_alap_pass asap_alap_pass

lemma alap_pass_respected:
  assumes "\<forall>k<length ns. nd_asap (ns ! k) \<le> mx"
    and "\<forall>k<length ns. \<forall>s \<in> set (nd_succs (ns ! k)). k < s \<and> s < length ns"
    and "\<forall>k<length ns. \<forall>s \<in> set (nd_succs (ns ! k)).
      nd_asap (ns ! k) + node_latency (ns ! k) \<le> nd_asap (ns ! s)"
    and "i \<le> length ns"
  shows "alap_respected i (foldl (alap_step mx) ns (rev [i..<length ns]))"
  using assms(4)
proof (induction "length ns - i" arbitrary: i)
  case 0
  then show ?case by (simp add: alap_respected_def)
next
  case (Suc d)
  define ns1 where "ns1 = foldl (alap_step mx) ns (rev [Suc i..<length ns])"
  have i: "i < length ns" using Suc(2) by simp
  have resp: "alap_respected (Suc i) ns1" using Suc(1) [of "Suc i"] Suc(2) i by (simp add: ns1_def)
  have len: "length ns1 = length ns" and as: "nd_asap (ns1 ! k) = nd_asap (ns ! k)" for k
    by (simp_all add: ns1_def alap_pass_frame)
  have su: "nd_succs (ns1 ! k) = nd_succs (ns ! k)" and lat: "node_latency (ns1 ! k) = node_latency (ns ! k)"
    if "k < length ns" for k
    using same_topo_fields(2,3) [OF mobility_foldl_topo(2) that] by (simp_all add: ns1_def)
  have "alap_respected i (alap_step mx ns1 i)"
  proof (rule alap_step_respected [OF resp])
    show "i < length ns1" "nd_asap (ns1 ! i) \<le> mx" using i assms(1) by (auto simp: len as)
    show "\<forall>k<length ns1. \<forall>s \<in> set (nd_succs (ns1 ! k)). k < s \<and> s < length ns1"
      unfolding len using assms(2) su by metis
    show "\<forall>k<length ns1. \<forall>s \<in> set (nd_succs (ns1 ! k)).
        nd_asap (ns1 ! k) + node_latency (ns1 ! k) \<le> nd_asap (ns1 ! s)"
      unfolding len as using assms(3) su lat by metis
  qed
  moreover have "rev [i..<length ns] = rev [Suc i..<length ns] @ [i]"
    using i by (simp add: upt_conv_Cons)
  ultimately show ?case by (simp add: ns1_def)
qed

text \<open>The longest path lengths that a built graph carries.\<close>

lemma built_graph_mobility:
  assumes "built_graph instrs c = Some g" "k < length instrs"
  shows "nd_slack (gr_nodes g ! k) = nd_alap (gr_nodes g ! k) - nd_asap (gr_nodes g ! k)
    \<and> 0 \<le> nd_slack (gr_nodes g ! k)
    \<and> (\<forall>p \<in> set (nd_preds (gr_nodes g ! k)).
         nd_asap (gr_nodes g ! p) + node_latency (gr_nodes g ! p) \<le> nd_asap (gr_nodes g ! k)
       \<and> nd_alap (gr_nodes g ! p) + node_latency (gr_nodes g ! p) \<le> nd_alap (gr_nodes g ! k))"
proof -
  define ns0 where "ns0 = link_nodes (mk_nodes instrs)"
  define ns1 where "ns1 = foldl asap_step ns0 [0..<length ns0]"
  define ns where "ns = foldl (alap_step (max_asap ns1)) ns1 (rev [0..<length ns1])"
  have len0: "length ns0 = length instrs"
    using link_mk_nodes [of instrs] by (simp add: linked_upto_def same_core_def ns0_def)
  have len1: "length ns1 = length ns0"
    using mobility_foldl_topo(1) unfolding ns1_def by (metis length_map)
  have len: "length ns = length ns0" by (simp add: ns_def alap_pass_frame len1)
  have g: "gr_nodes g = ns"
    using assms len0 len1 by (auto simp: built_graph_def tu_sched_build_dag_def
        tu_sched_compute_mobility_def Let_def ns_def ns1_def ns0_def split: if_splits)
  have dual: "edges_dual ns" and before: "\<forall>k<length ns. \<forall>p \<in> set (nd_preds (ns ! k)). p < k"
    using built_graph_dag_ok [OF assms(1)] by (auto simp: dag_ok_def g)
  have as: "nd_asap (ns ! k) = nd_asap (ns1 ! k)" for k by (simp add: ns_def alap_pass_frame)
  have topo1: "map node_topo ns1 = map node_topo ns0" and topo: "map node_topo ns = map node_topo ns1"
    by (simp_all only: ns1_def ns_def mobility_foldl_topo)
  have pre: "nd_preds (ns1 ! k) = nd_preds (ns ! k)" "nd_preds (ns0 ! k) = nd_preds (ns ! k)"
    and suc: "nd_succs (ns1 ! k) = nd_succs (ns ! k)"
    and lat: "node_latency (ns1 ! k) = node_latency (ns ! k)" if "k < length ns" for k
    using same_topo_fields [OF topo, of k] same_topo_fields [OF topo1, of k] that len len1 by simp_all
  have "asap_respected (length ns0) ns1"
    unfolding ns1_def by (rule asap_pass_respected) (use before pre len in \<open>simp_all\<close>)
  then have asap: "nd_asap (ns ! p) + node_latency (ns ! p) \<le> nd_asap (ns ! k)"
    if "k < length ns" "p \<in> set (nd_preds (ns ! k))" for k p
    using that pre(1) [OF that(1)] lat [of p] before len unfolding asap_respected_def as
    by (metis order.strict_trans)
  have succ: "k < s \<and> s < length ns \<and> nd_asap (ns ! k) + node_latency (ns ! k) \<le> nd_asap (ns ! s)"
    if "k < length ns" "s \<in> set (nd_succs (ns ! k))" for k s
  proof -
    have "s < length ns" using dual that unfolding edges_dual_def by blast
    then have "k \<in> set (nd_preds (ns ! s))" using dual that unfolding edges_dual_def by blast
    then show ?thesis using asap [OF \<open>s < length ns\<close>] before \<open>s < length ns\<close> by blast
  qed
  have "alap_respected 0 (foldl (alap_step (max_asap ns1)) ns1 (rev [0..<length ns1]))"
  proof (rule alap_pass_respected)
    show "\<forall>k<length ns1. nd_asap (ns1 ! k) \<le> max_asap ns1" using max_asap_ge by blast
    show "\<forall>k<length ns1. \<forall>s \<in> set (nd_succs (ns1 ! k)). k < s \<and> s < length ns1"
      using succ suc len len1 by (metis (no_types))
    show "\<forall>k<length ns1. \<forall>s \<in> set (nd_succs (ns1 ! k)).
        nd_asap (ns1 ! k) + node_latency (ns1 ! k) \<le> nd_asap (ns1 ! s)"
      using succ suc lat len len1 as by (metis (no_types))
  qed simp
  then have alap: "alap_respected 0 ns" by (simp only: ns_def)
  have k: "k < length ns" using assms(2) len len0 by simp
  have "nd_alap (ns ! p) + node_latency (ns ! p) \<le> nd_alap (ns ! k)"
    if "p \<in> set (nd_preds (ns ! k))" for p
  proof -
    have "p < k" using before k that by blast
    then have p: "p < length ns" using k by simp
    then have "k \<in> set (nd_succs (ns ! p))" using dual k that unfolding edges_dual_def by blast
    then show ?thesis using alap_respectedD(3) [OF alap _ p] by simp
  qed
  then show ?thesis
    unfolding g using alap_respectedD(1,2) [OF alap _ k] asap [OF k] by simp
qed

section \<open>Properties\<close>

text \<open>Instructions for the examples.\<close>

definition mk_instr :: "tu_isa_opcode \<Rightarrow> u8 \<Rightarrow> u16 \<Rightarrow> u16 \<Rightarrow> u16 \<Rightarrow> u32 \<Rightarrow> tu_instruction" where
  "mk_instr op fl a b c im = \<lparr>ins_opcode = word_of_nat (opcode_code op), ins_flags = fl,
     ins_dim0 = a, ins_dim1 = b, ins_dim2 = c, ins_immediates = im\<rparr>"

definition blank_result :: tu_sched_result where
  "blank_result = \<lparr>rs_instructions = [], rs_num_barriers_inserted = 7, rs_num_dma_hoisted = 7,
     rs_estimated_cycles = 7, rs_valid = False\<rparr>"

text \<open>Two loads, a multiplication that reads what they fill, and the store of its result.\<close>

definition gemm_tile :: "tu_instruction list" where
  "gemm_tile = [mk_instr TU_ISA_DMA_LOAD 0 16 64 0 0, mk_instr TU_ISA_DMA_LOAD 1 0 64 0 0,
     mk_instr TU_ISA_MMA 0 16 4 4 0, mk_instr TU_ISA_DMA_STORE 2 0 64 0 0]"



text \<open>
  C2. A run never swaps two instructions that conflict. When instruction \<open>j\<close> comes before
  instruction \<open>i\<close>, is no barrier, and either \<open>i\<close> is a barrier or their SRAM spans have a
  read-after-write, write-after-read or write-after-write hazard, and when the 16-entry edge
  arrays of the two can hold all such conflicts, \<open>j\<close> is emitted before \<open>i\<close>.
\<close>

theorem tu_sched_run_respects_hazards:
  assumes "length instrs \<le> TU_SCHED_MAX_INSTRS" "j < i" "i < length instrs"
    "must_precede (instrs ! j) (instrs ! i)" "edges_fit instrs j i"
  shows "case tu_sched_run instrs config r of (_, _, order, _) \<Rightarrow> before order j i"
  using tu_sched_run_keeps_order [OF assms(1) _ assms(2-5)] by (simp split: prod.split)

theorem tu_sched_run_respects_hazards_witness:
  "(case tu_sched_run gemm_tile None blank_result of (_, _, order, _) \<Rightarrow> before order 0 2)
   \<and> must_precede (gemm_tile ! 0) (gemm_tile ! 2)"
proof -
  have "must_precede (gemm_tile ! 0) (gemm_tile ! 2)" by code_simp
  moreover have "edges_fit gemm_tile 0 2" by code_simp
  moreover have "length gemm_tile \<le> TU_SCHED_MAX_INSTRS" "2 < length gemm_tile" by code_simp+
  ultimately show ?thesis using tu_sched_run_respects_hazards [of gemm_tile 0 2] by simp
qed

text \<open>
  C3. The scheduled stream computes what the program order computes. Give instructions any
  meaning that changes only the SRAM spans the analysis says they write, as a function of the
  spans it says they read. If no edge array overflows, running the scheduled instructions from
  any SRAM contents ends in the same contents as running the program.
\<close>

theorem tu_sched_run_equivalent:
  assumes "instrs \<noteq> []" "length instrs \<le> TU_SCHED_MAX_INSTRS"
    "\<And>j i. j < i \<Longrightarrow> i < length instrs \<Longrightarrow> edges_fit instrs j i"
  shows "fold (footprint_step h) (rs_instructions (fst (snd (tu_sched_run instrs config r)))) m
       = fold (footprint_step h) instrs m"
proof (cases "tu_sched_run instrs config r")
  case (fields rc res order gopt)
  obtain g r' st where st: "built_graph instrs config = Some g" "list_schedule g r' = (rc, st)"
      "res = (ls_result st)\<lparr>rs_valid := (rc = 0)\<rparr>" "order = ls_order st"
    using tu_sched_run_cases [OF assms(1,2) fields] by metis
  note c = dag.schedule_complete [OF st(1,2)]
  have "fold (footprint_step h) (map ((!) instrs) order) m = fold (footprint_step h) instrs m"
  proof (rule sram.reorder_sound)
    show "mset order = mset [0..<length instrs]" using c by (simp add: st(4))
    fix j i assume ji: "j < i" "i < length instrs"
      and dep: "has_dependency (tu_sched_analyze_access (instrs ! j)) (tu_sched_analyze_access (instrs ! i))"
    have "must_precede (instrs ! j) (instrs ! i)"
      using dep barrier_no_access no_access_no_dependency by (metis must_precede_def)
    then show "before order j i"
      using tu_sched_run_keeps_order [OF assms(2) fields ji _ assms(3) [OF ji]] by blast
  qed
  then show ?thesis using c by (simp add: fields st(3,4))
qed

theorem tu_sched_run_equivalent_witness:
  "fold (footprint_step (\<lambda>_ s l. case s l of None \<Rightarrow> 1 | Some v \<Rightarrow> Suc v))
     (rs_instructions (fst (snd (tu_sched_run gemm_tile None blank_result)))) (\<lambda>_. 0)
   = fold (footprint_step (\<lambda>_ s l. case s l of None \<Rightarrow> 1 | Some v \<Rightarrow> Suc v)) gemm_tile (\<lambda>_. 0)"
proof (rule tu_sched_run_equivalent)
  fix j i assume "j < i" "i < length gemm_tile"
  then have ji: "j < i" "i < 4" by (simp_all add: gemm_tile_def)
  have "list_all (\<lambda>i. list_all (\<lambda>j. edges_fit gemm_tile j i) [0..<i]) [0..<4]" by code_simp
  then show "edges_fit gemm_tile j i" using ji by (auto simp: list_all_iff)
qed (simp_all add: gemm_tile_def TU_SCHED_MAX_INSTRS_def)

text \<open>
  The mobility passes are consistent with the graph. In the graph built for a program, a
  node's slack is the difference of its ALAP and ASAP times and is never negative, and along
  every edge both the ASAP and the ALAP times leave room for the latency of the predecessor (1
  for a DMA operation, 4 otherwise).
\<close>

theorem compute_mobility_bounds:
  assumes "tu_sched_build_dag instrs config = Some g0" "k < length instrs"
  defines "ns \<equiv> gr_nodes (tu_sched_compute_mobility g0)"
  shows "nd_slack (ns ! k) = nd_alap (ns ! k) - nd_asap (ns ! k) \<and> 0 \<le> nd_slack (ns ! k)
    \<and> (\<forall>p \<in> set (nd_preds (ns ! k)).
         nd_asap (ns ! p) + node_latency (ns ! p) \<le> nd_asap (ns ! k)
       \<and> nd_alap (ns ! p) + node_latency (ns ! p) \<le> nd_alap (ns ! k))"
  using built_graph_mobility [of instrs config "tu_sched_compute_mobility g0" k] assms(1,2)
  unfolding ns_def by (simp add: built_graph_def)

theorem compute_mobility_bounds_witness:
  "\<exists>g0. tu_sched_build_dag gemm_tile None = Some g0
    \<and> 0 \<le> nd_slack (gr_nodes (tu_sched_compute_mobility g0) ! 2)"
proof -
  have "length gemm_tile = 4" by (simp add: gemm_tile_def)
  moreover obtain g0 where "tu_sched_build_dag gemm_tile None = Some g0"
    by (simp add: tu_sched_build_dag_def gemm_tile_def TU_SCHED_MAX_INSTRS_def)
  ultimately show ?thesis using compute_mobility_bounds [of gemm_tile None g0 2] by auto
qed

text \<open>
  What a run reports. The cycle estimate is the sum of one cycle per DMA instruction and
  four per other instruction; the two counters that \<open>tu_sched_run\<close> has filled from the hoisting
  and barrier passes are always 0 in the result, because \<open>list_schedule\<close> clears them.
\<close>

theorem tu_sched_run_reports:
  assumes "instrs \<noteq> []" "length instrs \<le> TU_SCHED_MAX_INSTRS"
  shows "case tu_sched_run instrs config r of (_, res, _, _) \<Rightarrow>
    rs_num_dma_hoisted res = 0 \<and> rs_num_barriers_inserted res = 0
    \<and> rs_estimated_cycles res = (\<Sum>i \<leftarrow> instrs. if is_dma_op (op_of i) then 1 else 4)"
proof (cases "tu_sched_run instrs config r")
  case (fields rc res order gopt)
  obtain g r' st where st: "built_graph instrs config = Some g" "list_schedule g r' = (rc, st)"
      "res = (ls_result st)\<lparr>rs_valid := (rc = 0)\<rparr>" "order = ls_order st"
    using tu_sched_run_cases [OF assms fields] by metis
  define cost :: "nat \<Rightarrow> nat" where "cost = (\<lambda>i. if nd_is_dma (gr_nodes g ! i) then 1 else 4)"
  note c = dag.schedule_complete [OF st(1,2)] dag.schedule_counters [OF st(1,2)]
  have "rs_estimated_cycles res = sum_list (map cost order)"
    using c(2) by (simp add: st(3,4) cost_def)
  also have "\<dots> = sum_list (map cost [0..<length instrs])"
    using c(1) by (metis (no_types, lifting) mset_map st(4) sum_mset_sum_list)
  also have "map cost [0..<length instrs]
      = map (\<lambda>i. if is_dma_op (op_of i) then 1 else 4) instrs"
    by (rule nth_equalityI) (simp_all add: cost_def built_graph_fields(6) [OF st(1)])
  finally show ?thesis using c(2) by (simp add: fields st(3))
qed

theorem tu_sched_run_reports_witness:
  "case tu_sched_run gemm_tile (Some tu_sched_config_default) blank_result of (_, res, _, _) \<Rightarrow>
    rs_num_dma_hoisted res = 0 \<and> rs_num_barriers_inserted res = 0 \<and> rs_estimated_cycles res = 7"
proof -
  have "(\<Sum>i \<leftarrow> gemm_tile. if is_dma_op (op_of i) then 1 else 4) = (7::nat)" by code_simp
  then show ?thesis
    using tu_sched_run_reports [of gemm_tile "Some tu_sched_config_default" blank_result]
    by (simp add: gemm_tile_def TU_SCHED_MAX_INSTRS_def split: prod.splits)
qed

text \<open>
  A barrier orders what comes before it and not what comes after it: a load that follows a
  \<open>SYNC\<close> in the program is emitted ahead of it, because \<open>tu_sched_build_dag\<close> draws no edge out
  of a barrier.
\<close>

lemma sync_does_not_hold_back:
  "fst (snd (snd (tu_sched_run
      [mk_instr TU_ISA_SYNC 0 0 0 0 0, mk_instr TU_ISA_DMA_LOAD 0 16 64 0 0] None blank_result))) = [1, 0]"
  by code_simp

text \<open>
  The scheduler's own test for compute operations differs from the instruction set's at
  exactly one enumerator: \<open>TU_ISA_GROUP_NORM\<close> is a compute operation of the instruction set, the
  scheduler does not recognize it, so it analyzes it as touching no SRAM and gives it no
  dependency on anything.
\<close>

lemma group_norm_is_not_analyzed:
  "(is_compute_op (opcode_code c) \<noteq> tu_isa_is_compute_op (opcode_code c) \<longleftrightarrow> c = TU_ISA_GROUP_NORM)
   \<and> (is_dma_op (opcode_code c) \<longleftrightarrow> tu_isa_is_dma_op (opcode_code c))
   \<and> tu_sched_analyze_access (mk_instr TU_ISA_GROUP_NORM fl d0 d1 d2 im) = no_access"
proof -
  have "is_compute_op (opcode_code c) \<noteq> tu_isa_is_compute_op (opcode_code c) \<longleftrightarrow> c = TU_ISA_GROUP_NORM"
    by (rule opcode_cases_all [of _ c]) code_simp
  moreover have "is_dma_op (opcode_code c) \<longleftrightarrow> tu_isa_is_dma_op (opcode_code c)"
    by (rule opcode_cases_all [of _ c]) code_simp
  moreover have "\<not> is_dma_op (opcode_code TU_ISA_GROUP_NORM)" "\<not> is_compute_op (opcode_code TU_ISA_GROUP_NORM)"
    by code_simp+
  moreover have "op_of (mk_instr TU_ISA_GROUP_NORM fl d0 d1 d2 im) = opcode_code TU_ISA_GROUP_NORM"
    by (simp add: mk_instr_def)
  ultimately show ?thesis by (simp add: tu_sched_analyze_access_def)
qed

text \<open>
  The scheduler picks a best ready node. From a non-empty ready queue whose nodes have
  priorities above \<open>INT32_MIN\<close>, \<open>select_ready\<close> returns a position inside the queue; no node in the
  queue has a higher priority under the policy, and none of equal priority has a smaller
  identifier.
\<close>

theorem select_ready_is_best:
  assumes "ready \<noteq> []" "\<And>i. i \<in> set ready \<Longrightarrow> node_priority policy (ns ! i) > INT32_MIN"
  defines "best \<equiv> ready ! select_ready policy ns ready"
  shows "select_ready policy ns ready < length ready
    \<and> (\<forall>i \<in> set ready. node_priority policy (ns ! i) \<le> node_priority policy (ns ! best)
        \<and> (node_priority policy (ns ! i) = node_priority policy (ns ! best) \<longrightarrow> best \<le> i))"
proof -
  define p where "p i = node_priority policy (ns ! i)" for i
  have inv: "fst r < length ready
      \<and> (0 < k \<longrightarrow> snd r = p (ready ! fst r))
      \<and> (\<forall>q<k. p (ready ! q) \<le> snd r \<and> (p (ready ! q) = snd r \<longrightarrow> ready ! fst r \<le> ready ! q))"
    if "k \<le> length ready" "r = foldl (select_step policy ns ready) (0, INT32_MIN) [0..<k]" for k r
    using that
  proof (induction k arbitrary: r)
    case 0
    then show ?case using assms(1) by simp
  next
    case (Suc k)
    define s where "s = foldl (select_step policy ns ready) (0, INT32_MIN) [0..<k]"
    have r: "r = select_step policy ns ready s k" using Suc.prems(2) by (simp add: s_def)
    have ih: "fst s < length ready" "0 < k \<longrightarrow> snd s = p (ready ! fst s)"
      "\<forall>q<k. p (ready ! q) \<le> snd s \<and> (p (ready ! q) = snd s \<longrightarrow> ready ! fst s \<le> ready ! q)"
      using Suc.IH [of s] Suc.prems(1) s_def by auto
    show ?case
    proof (cases "p (ready ! k) > snd s \<or> (p (ready ! k) = snd s \<and> ready ! k < ready ! fst s)")
      case True
      then have "r = (k, p (ready ! k))" by (simp add: r select_step_def p_def)
      then show ?thesis using ih True Suc.prems(1) by (fastforce simp: less_Suc_eq)
    next
      case False
      then have rs: "r = s" unfolding r select_step_def Let_def p_def by (rule if_not_P)
      have "0 < k"
      proof (rule ccontr)
        assume "\<not> 0 < k"
        then have "snd s = INT32_MIN" "k = 0" by (simp_all add: s_def)
        then show False using False assms(2) [OF nth_mem [of 0 ready]] assms(1) by (auto simp: p_def)
      qed
      then show ?thesis using ih False by (auto simp: rs less_Suc_eq)
    qed
  qed
  define r where "r = foldl (select_step policy ns ready) (0, INT32_MIN) [0..<length ready]"
  have sel: "select_ready policy ns ready = fst r" by (simp add: select_ready_def r_def)
  have "fst r < length ready" "snd r = p (ready ! fst r)"
    and all: "\<forall>q<length ready. p (ready ! q) \<le> snd r
      \<and> (p (ready ! q) = snd r \<longrightarrow> ready ! fst r \<le> ready ! q)"
    using inv [OF order_refl r_def] assms(1) by auto
  then show ?thesis
    unfolding best_def sel by (fastforce simp: in_set_conv_nth p_def)
qed

theorem select_ready_is_best_witness:
  "select_ready TU_SCHED_POLICY_BALANCED (mk_nodes gemm_tile) [3, 1, 0] < 3"
proof -
  have "list_all (\<lambda>i. node_priority TU_SCHED_POLICY_BALANCED (mk_nodes gemm_tile ! i) > INT32_MIN) [3, 1, 0]"
    by code_simp
  then have "select_ready TU_SCHED_POLICY_BALANCED (mk_nodes gemm_tile) [3, 1, 0] < length [3, 1, 0 :: nat]"
    by (intro select_ready_is_best [THEN conjunct1]) (auto simp: list_all_iff)
  then show ?thesis by simp
qed

end
