(* ===== verification/Liveness.thy ===== *)
theory Liveness
  imports Scheduler "HOL-Library.Monad_Syntax"
begin

text \<open>
  The scratchpad allocator of \<open>tu_cmodel/isa/tu_liveness.c\<close>: virtual registers and their live ranges,
  the interference graph of each region, greedy placement with its spill decisions, and the rewriting
  of the instructions. Instruction indices are integers, as programs are shorter than \<open>2^31\<close>. A graph
  holds pointers into the register array in C and positions of it here. The offset loops of the
  placement need not end when a capacity is close to \<open>2^32\<close>; not ending is \<open>None\<close>.
\<close>

section \<open>Data\<close>

definition TU_LIVE_MAX_VREGS :: nat where "TU_LIVE_MAX_VREGS = 128"

datatype tu_alloc_strategy =
  TU_ALLOC_FIRST_FIT | TU_ALLOC_BEST_FIT | TU_ALLOC_WORST_FIT | TU_ALLOC_COUNT

datatype tu_spill_strategy =
  TU_SPILL_FIFO | TU_SPILL_LRU | TU_SPILL_LARGEST | TU_SPILL_LEAST_ACCESSED | TU_SPILL_COUNT

record tu_live_config =
  lc_w_capacity :: u32
  lc_a_capacity :: u32
  lc_o_capacity :: u32
  lc_alloc_strategy :: tu_alloc_strategy
  lc_spill_strategy :: tu_spill_strategy
  lc_safety_margin :: u32
  lc_enable_spilling :: bool
  lc_verbose :: bool

definition tu_live_config_default :: tu_live_config where
  "tu_live_config_default = \<lparr>lc_w_capacity = 131072, lc_a_capacity = 65536, lc_o_capacity = 65536,
     lc_alloc_strategy = TU_ALLOC_FIRST_FIT, lc_spill_strategy = TU_SPILL_LRU,
     lc_safety_margin = 4096, lc_enable_spilling = True, lc_verbose = False\<rparr>"

datatype tu_vreg_region = TU_VREG_W | TU_VREG_A | TU_VREG_O

record tu_vreg =
  vr_id :: u32
  vr_region :: tu_vreg_region
  vr_size_bytes :: u32
  vr_first_def :: int
  vr_last_use :: int
  vr_spilled :: bool
  vr_spill_slot :: u32
  vr_access_count :: u32
  vr_physical_offset :: u32

record tu_interference_graph =
  ig_vregs :: "nat list"
  ig_interference :: "bool list"
  ig_num_physical_slots :: u32
  ig_colored :: bool

text \<open>The three graphs of the result are selected by region.\<close>

record tu_liveness_result =
  lr_vregs :: "tu_vreg list"
  lr_graph :: "tu_vreg_region \<Rightarrow> tu_interference_graph"
  lr_num_spills :: u32
  lr_spill_bytes :: u32

record tu_allocated_sequence =
  as_instructions :: "tu_instruction list"
  as_peak_w_usage :: u32
  as_peak_a_usage :: u32
  as_peak_o_usage :: u32
  as_valid :: bool

definition graph_zero :: tu_interference_graph where
  "graph_zero = \<lparr>ig_vregs = [], ig_interference = [], ig_num_physical_slots = 0, ig_colored = False\<rparr>"

definition liveness_zero :: tu_liveness_result where
  "liveness_zero = \<lparr>lr_vregs = [], lr_graph = (\<lambda>r. graph_zero), lr_num_spills = 0, lr_spill_bytes = 0\<rparr>"

section \<open>Definitions and uses of an instruction\<close>

definition region_capacity :: "tu_live_config \<Rightarrow> tu_vreg_region \<Rightarrow> u32" where
  "region_capacity cfg region =
    (case region of TU_VREG_W \<Rightarrow> lc_w_capacity cfg | TU_VREG_A \<Rightarrow> lc_a_capacity cfg | TU_VREG_O \<Rightarrow> lc_o_capacity cfg)"

text \<open>The region of a channel number, with the channel 3 read as 0.\<close>

definition vreg_region_from_sram :: "u8 \<Rightarrow> tu_vreg_region" where
  "vreg_region_from_sram ch = (if ch = 1 then TU_VREG_A else if ch = 2 then TU_VREG_O else TU_VREG_W)"

definition is_load_op :: "nat \<Rightarrow> bool" where
  "is_load_op op \<longleftrightarrow> op_in op [TU_ISA_DMA_LOAD, TU_ISA_DMA_LOAD_STRIDED, TU_ISA_DMA_SCATTER, TU_ISA_DMA_BROADCAST]"

definition is_store_op :: "nat \<Rightarrow> bool" where
  "is_store_op op \<longleftrightarrow> op_in op [TU_ISA_DMA_STORE, TU_ISA_DMA_STORE_STRIDED, TU_ISA_DMA_GATHER]"

abbreviation is_mma_op :: "nat \<Rightarrow> bool" where
  "is_mma_op op \<equiv> op_in op [TU_ISA_MMA, TU_ISA_MMA_BIAS, TU_ISA_MMA_FUSED, TU_ISA_SPARSE_MMA]"

abbreviation is_norm_op :: "nat \<Rightarrow> bool" where
  "is_norm_op op \<equiv> op_in op [TU_ISA_SOFTMAX, TU_ISA_LOG_SOFTMAX] \<or> opcode_code TU_ISA_LAYER_NORM \<le> op"

text \<open>The operand fields widened to 32 bits, and the byte range of a DMA.\<close>

abbreviation d0 :: "tu_instruction \<Rightarrow> u32" where "d0 i \<equiv> ucast (ins_dim0 i)"
abbreviation d1 :: "tu_instruction \<Rightarrow> u32" where "d1 i \<equiv> ucast (ins_dim1 i)"
abbreviation d2 :: "tu_instruction \<Rightarrow> u32" where "d2 i \<equiv> ucast (ins_dim2 i)"
abbreviation imm_lo :: "tu_instruction \<Rightarrow> u32" where "imm_lo i \<equiv> ins_immediates i AND 0xFFFF"
abbreviation imm_hi :: "tu_instruction \<Rightarrow> u32" where "imm_hi i \<equiv> drop_bit 16 (ins_immediates i) AND 0xFFFF"

definition dma_range :: "tu_instruction \<Rightarrow> tu_vreg_region \<times> u32 \<times> u32" where
  "dma_range i =
    (let ch = ins_flags i AND 0x3
     in (vreg_region_from_sram (if ch < 3 then ch else 0), d0 i, d0 i + (if d1 i \<noteq> 0 then d1 i else 1)))"

definition extract_vreg_def :: "tu_instruction \<Rightarrow> (tu_vreg_region \<times> u32 \<times> u32) option" where
  "extract_vreg_def i =
    (let op = op_of i in
     if is_load_op op then Some (dma_range i)
     else if is_mma_op op then Some (TU_VREG_O, imm_hi i, imm_hi i + d0 i * d1 i * 4)
     else if op_between TU_ISA_ADD op TU_ISA_EXP then Some (TU_VREG_O, d0 i, d0 i + d1 i * 4)
     else if is_norm_op op then Some (TU_VREG_O, imm_hi i, imm_hi i + d1 i * 4)
     else if op_in op [TU_ISA_CONV2D, TU_ISA_CONV3D, TU_ISA_DEPTHWISE_CONV] then Some (TU_VREG_O, 0, UINT32_MAX)
     else if op_in op [TU_ISA_ATTENTION, TU_ISA_ATTN_QK, TU_ISA_ATTN_PV] then Some (TU_VREG_O, imm_hi i, imm_hi i + 65536)
     else if op_in op [TU_ISA_POOL_MAX, TU_ISA_POOL_AVG, TU_ISA_POOL_GLOBAL_AVG]
       then Some (TU_VREG_O, imm_hi i, imm_hi i + 65536)
     else None)"

definition extract_vreg_uses :: "tu_instruction \<Rightarrow> nat \<Rightarrow> (tu_vreg_region \<times> u32 \<times> u32) list" where
  "extract_vreg_uses i max_uses =
    (let op = op_of i in
     take max_uses
      (if is_store_op op then [dma_range i]
       else if is_mma_op op then
         [(TU_VREG_W, d0 i, d0 i + d2 i * d1 i * 2), (TU_VREG_A, imm_lo i, imm_lo i + d2 i * d1 i * 2)]
       else if op_between TU_ISA_RELU op TU_ISA_EXP then [(TU_VREG_O, d0 i, d0 i + d1 i * 4)]
       else if is_norm_op op then [(TU_VREG_A, d0 i, d0 i + d1 i * 4)]
       else []))"

section \<open>Live ranges\<close>

text \<open>The position of the last register of a region that an instruction before defined.\<close>

fun last_defined :: "nat \<Rightarrow> tu_vreg_region \<Rightarrow> tu_vreg list \<Rightarrow> nat option" where
  "last_defined 0 region vs = None"
| "last_defined (Suc i) region vs =
    (if vr_region (vs ! i) = region \<and> vr_first_def (vs ! i) \<ge> 0 then Some i else last_defined i region vs)"

definition new_vreg :: "tu_vreg list \<Rightarrow> tu_vreg_region \<Rightarrow> u32 \<Rightarrow> u32 \<Rightarrow> int \<Rightarrow> int \<Rightarrow> tu_vreg" where
  "new_vreg vs region lo hi first_def last_use =
    \<lparr>vr_id = of_nat (length vs + 1), vr_region = region, vr_size_bytes = hi - lo,
     vr_first_def = first_def, vr_last_use = last_use, vr_spilled = False, vr_spill_slot = 0,
     vr_access_count = 1, vr_physical_offset = UINT32_MAX\<rparr>"

text \<open>When the array is full the access is dropped.\<close>

definition find_or_create_vreg ::
  "tu_vreg list \<Rightarrow> tu_vreg_region \<Rightarrow> u32 \<Rightarrow> u32 \<Rightarrow> int \<Rightarrow> bool \<Rightarrow> tu_vreg list" where
  "find_or_create_vreg vs region lo hi idx is_def =
    (if is_def then
       if length vs \<ge> TU_LIVE_MAX_VREGS then vs else vs @ [new_vreg vs region lo hi idx idx]
     else case last_defined (length vs) region vs of
       Some k \<Rightarrow>
         vs[k := (vs ! k)\<lparr>vr_last_use := (if idx > vr_last_use (vs ! k) then idx else vr_last_use (vs ! k)),
                          vr_access_count := vr_access_count (vs ! k) + 1\<rparr>]
     | None \<Rightarrow>
         if length vs \<ge> TU_LIVE_MAX_VREGS then vs else vs @ [new_vreg vs region lo hi (- 1) idx])"

definition analyze_step :: "int \<Rightarrow> tu_instruction \<Rightarrow> tu_vreg list \<Rightarrow> tu_vreg list" where
  "analyze_step idx i vs =
    (let vs = (case extract_vreg_def i of
                 Some (region, lo, hi) \<Rightarrow> find_or_create_vreg vs region lo hi idx True
               | None \<Rightarrow> vs)
     in foldl (\<lambda>vs (region, lo, hi). find_or_create_vreg vs region lo hi idx False) vs (extract_vreg_uses i 8))"

fun analyze_loop :: "int \<Rightarrow> tu_instruction list \<Rightarrow> tu_vreg list \<Rightarrow> tu_vreg list" where
  "analyze_loop idx [] vs = vs"
| "analyze_loop idx (i # is) vs = analyze_loop (idx + 1) is (analyze_step idx i vs)"

text \<open>The return code and the result, which is left as it was for an empty program.\<close>

definition tu_live_analyze :: "tu_instruction list \<Rightarrow> tu_liveness_result \<Rightarrow> int \<times> tu_liveness_result" where
  "tu_live_analyze instrs result =
    (if instrs = [] then (- 1, result)
     else (0, liveness_zero\<lparr>lr_vregs := analyze_loop 0 instrs []\<rparr>))"

section \<open>Interference\<close>

definition live_overlap :: "tu_vreg \<Rightarrow> tu_vreg \<Rightarrow> bool" where
  "live_overlap vi vj \<longleftrightarrow> vr_first_def vi \<ge> 0 \<and> vr_first_def vj \<ge> 0 \<and>
     vr_first_def vi \<le> vr_last_use vj \<and> vr_first_def vj \<le> vr_last_use vi"

text \<open>The matrix of the registers at positions \<open>ids\<close>, filled from its upper triangle.\<close>

definition set_pair :: "nat \<Rightarrow> nat \<Rightarrow> nat \<Rightarrow> bool list \<Rightarrow> bool list" where
  "set_pair n i j m = m[i * n + j := True, j * n + i := True]"

definition interference_matrix :: "tu_vreg list \<Rightarrow> nat list \<Rightarrow> bool list" where
  "interference_matrix vs ids =
    (let n = length ids in
     foldl (\<lambda>m i. foldl (\<lambda>m j. if live_overlap (vs ! (ids ! i)) (vs ! (ids ! j)) then set_pair n i j m else m)
                        m [i + 1..<n])
           (replicate (n * n) False) [0..<n])"

definition add_to_region :: "tu_liveness_result \<Rightarrow> nat \<Rightarrow> tu_liveness_result" where
  "add_to_region result k =
    (let r = vr_region (lr_vregs result ! k); g = lr_graph result r
     in if length (ig_vregs g) < TU_LIVE_MAX_VREGS
        then result\<lparr>lr_graph := (lr_graph result)(r := g\<lparr>ig_vregs := ig_vregs g @ [k]\<rparr>)\<rparr>
        else result)"

definition build_region :: "tu_liveness_result \<Rightarrow> tu_vreg_region \<Rightarrow> tu_liveness_result" where
  "build_region result r =
    (let g = lr_graph result r
     in if ig_vregs g = [] then result
        else result\<lparr>lr_graph := (lr_graph result)(r :=
          g\<lparr>ig_interference := interference_matrix (lr_vregs result) (ig_vregs g),
            ig_colored := False, ig_num_physical_slots := 0\<rparr>)\<rparr>)"

definition tu_live_build_interference :: "tu_liveness_result \<Rightarrow> tu_liveness_result" where
  "tu_live_build_interference result =
    foldl build_region (foldl add_to_region result [0..<length (lr_vregs result)])
      [TU_VREG_W, TU_VREG_A, TU_VREG_O]"

section \<open>Placement\<close>

text \<open>The insertion sort by first definition: the shifting loop for one key, and the outer loop.\<close>

fun sort_shift :: "(nat \<Rightarrow> int) \<Rightarrow> nat \<Rightarrow> nat \<Rightarrow> nat list \<Rightarrow> nat list" where
  "sort_shift def_of key 0 ids = ids[0 := key]"
| "sort_shift def_of key (Suc j) ids =
    (if def_of (ids ! j) > def_of key then sort_shift def_of key j (ids[Suc j := ids ! j])
     else ids[Suc j := key])"

definition sort_by_def :: "(nat \<Rightarrow> int) \<Rightarrow> nat list \<Rightarrow> nat list" where
  "sort_by_def def_of ids = foldl (\<lambda>ids i. sort_shift def_of (ids ! i) i ids) ids [1..<length ids]"

definition conflicts_with :: "tu_vreg list \<Rightarrow> tu_interference_graph \<Rightarrow> nat \<Rightarrow> u32 \<Rightarrow> nat \<Rightarrow> bool" where
  "conflicts_with vs g v_idx phys_offset j \<longleftrightarrow>
    (let n = length (ig_vregs g); v = vs ! (ig_vregs g ! v_idx); other_v = vs ! (ig_vregs g ! j)
     in j \<noteq> v_idx \<and> ig_interference g ! (v_idx * n + j) \<and> vr_physical_offset other_v \<noteq> UINT32_MAX \<and>
        phys_offset < vr_physical_offset other_v + vr_size_bytes other_v \<and>
        vr_physical_offset other_v < phys_offset + vr_size_bytes v)"

definition physical_conflict :: "tu_vreg list \<Rightarrow> tu_interference_graph \<Rightarrow> nat \<Rightarrow> u32 \<Rightarrow> bool" where
  "physical_conflict vs g v_idx phys_offset \<longleftrightarrow>
    list_ex (conflicts_with vs g v_idx phys_offset) [0..<length (ig_vregs g)]"

definition spill_score :: "tu_spill_strategy \<Rightarrow> tu_vreg \<Rightarrow> u32" where
  "spill_score strategy v =
    (case strategy of
       TU_SPILL_FIFO \<Rightarrow> UINT32_MAX - vr_id v
     | TU_SPILL_LRU \<Rightarrow> UINT32_MAX - of_int (vr_last_use v)
     | TU_SPILL_LARGEST \<Rightarrow> vr_size_bytes v
     | TU_SPILL_LEAST_ACCESSED \<Rightarrow> UINT32_MAX - vr_access_count v
     | TU_SPILL_COUNT \<Rightarrow> 0)"

definition victim_step :: "tu_vreg list \<Rightarrow> tu_interference_graph \<Rightarrow> tu_spill_strategy \<Rightarrow> nat \<times> u32 \<Rightarrow> nat \<Rightarrow> nat \<times> u32" where
  "victim_step vs g strategy = (\<lambda>(victim, best_score) i.
    let v = vs ! (ig_vregs g ! i)
    in if vr_spilled v \<or> vr_physical_offset v \<noteq> UINT32_MAX then (victim, best_score)
       else let score = spill_score strategy v
            in if score > best_score then (i, score) else (victim, best_score))"

definition select_spill_victim :: "tu_vreg list \<Rightarrow> tu_interference_graph \<Rightarrow> tu_spill_strategy \<Rightarrow> nat" where
  "select_spill_victim vs g strategy = fst (foldl (victim_step vs g strategy) (0, 0) [0..<length (ig_vregs g)])"

text \<open>The loops over candidate offsets: the offset found, if any.\<close>

partial_function (option) first_fit ::
  "(u32 \<Rightarrow> bool) \<Rightarrow> u32 \<Rightarrow> u32 \<Rightarrow> u32 \<Rightarrow> u32 \<Rightarrow> u32 option option" where
  "first_fit conflict sz capacity step off =
    (if off + sz \<le> capacity
     then if conflict off then first_fit conflict sz capacity step (off + step) else Some (Some off)
     else Some None)"

text \<open>The state of the greedy loop: the registers, the two totals of the result and the local count.\<close>

type_synonym color_state = "tu_vreg list \<times> u32 \<times> u32 \<times> u32"

definition spill_vreg :: "nat \<Rightarrow> tu_vreg list \<times> u32 \<times> u32 \<Rightarrow> tu_vreg list \<times> u32 \<times> u32" where
  "spill_vreg k = (\<lambda>(vs, num_spills, spill_bytes).
    (vs[k := (vs ! k)\<lparr>vr_spilled := True\<rparr>], num_spills + 1, spill_bytes + vr_size_bytes (vs ! k)))"

definition place_vreg :: "nat \<Rightarrow> u32 \<Rightarrow> tu_vreg list \<Rightarrow> tu_vreg list" where
  "place_vreg k off vs = vs[k := (vs ! k)\<lparr>vr_physical_offset := off\<rparr>]"

definition color_vreg :: "tu_live_config \<Rightarrow> tu_interference_graph \<Rightarrow> u32 \<Rightarrow> nat \<Rightarrow> color_state \<Rightarrow> color_state option" where
  "color_vreg cfg g capacity i = (\<lambda>(vs, num_spills, spill_bytes, spilled).
    let k = ig_vregs g ! i; v = vs ! k in
    if vr_first_def v < 0 then Some (place_vreg k 0 vs, num_spills, spill_bytes, spilled)
    else do {
      let best = (lc_alloc_strategy cfg = TU_ALLOC_BEST_FIT);
      let step = (if best then 4 else 16);
      found \<leftarrow> first_fit (physical_conflict vs g i) (vr_size_bytes v) capacity step 0;
      case found of
        Some off \<Rightarrow> Some (place_vreg k off vs, num_spills, spill_bytes, spilled)
      | None \<Rightarrow>
          if \<not> lc_enable_spilling cfg then Some (place_vreg k 0 vs, num_spills, spill_bytes, spilled)
          else do {
            fine \<leftarrow> (if best then first_fit (physical_conflict vs g i) (vr_size_bytes v) capacity 1 0 else Some None);
            case fine of
              Some off \<Rightarrow> Some (place_vreg k off vs, num_spills, spill_bytes, spilled)
            | None \<Rightarrow> do {
                let victim = select_spill_victim vs g (lc_spill_strategy cfg);
                let evict = (victim < length (ig_vregs g) \<and> \<not> vr_spilled (vs ! (ig_vregs g ! victim)));
                let (vs, num_spills, spill_bytes) =
                  (if evict then spill_vreg (ig_vregs g ! victim) (vs, num_spills, spill_bytes)
                   else (vs, num_spills, spill_bytes));
                again \<leftarrow> (if evict then first_fit (physical_conflict vs g i) (vr_size_bytes v) capacity step 0
                          else Some None);
                case again of
                  Some off \<Rightarrow> Some (place_vreg k off vs, num_spills, spill_bytes, spilled)
                | None \<Rightarrow>
                    let (vs, num_spills, spill_bytes) = spill_vreg k (vs, num_spills, spill_bytes)
                    in Some (vs, num_spills, spill_bytes, spilled + 1) } } })"

fun color_loop :: "tu_live_config \<Rightarrow> tu_interference_graph \<Rightarrow> u32 \<Rightarrow> nat list \<Rightarrow> color_state \<Rightarrow> color_state option" where
  "color_loop cfg g capacity [] s = Some s"
| "color_loop cfg g capacity (i # is) s = Option.bind (color_vreg cfg g capacity i s) (color_loop cfg g capacity is)"

definition color_region :: "tu_live_config \<Rightarrow> tu_liveness_result \<Rightarrow> tu_vreg_region \<Rightarrow> tu_liveness_result option" where
  "color_region cfg result r =
    (let g = lr_graph result r in
     if ig_vregs g = [] then Some result
     else do {
       let capacity = region_capacity cfg r - lc_safety_margin cfg;
       let g = g\<lparr>ig_vregs := sort_by_def (\<lambda>k. vr_first_def (lr_vregs result ! k)) (ig_vregs g)\<rparr>;
       let n = length (ig_vregs g);
       (vs, num_spills, spill_bytes, spilled) \<leftarrow>
         color_loop cfg g capacity [0..<n] (lr_vregs result, lr_num_spills result, lr_spill_bytes result, 0);
       Some (result\<lparr>lr_vregs := vs, lr_num_spills := num_spills, lr_spill_bytes := spill_bytes,
         lr_graph := (lr_graph result)(r :=
           g\<lparr>ig_colored := (spilled = 0), ig_num_physical_slots := of_nat n - spilled\<rparr>)\<rparr>) })"

definition tu_live_color :: "tu_liveness_result \<Rightarrow> tu_live_config option \<Rightarrow> tu_liveness_result option" where
  "tu_live_color result config =
    (let cfg = (case config of Some c \<Rightarrow> c | None \<Rightarrow> tu_live_config_default)
     in do { result \<leftarrow> color_region cfg result TU_VREG_W;
             result \<leftarrow> color_region cfg result TU_VREG_A;
             color_region cfg result TU_VREG_O })"

section \<open>Rewriting the instructions\<close>

definition find_def_vreg :: "tu_vreg list \<Rightarrow> int \<Rightarrow> tu_vreg option" where
  "find_def_vreg vs idx = find (\<lambda>v. vr_first_def v = idx) vs"

definition set_dim0 :: "u32 \<Rightarrow> tu_instruction \<Rightarrow> tu_instruction" where
  "set_dim0 off i = i\<lparr>ins_dim0 := ucast off\<rparr>"

abbreviation is_plain_mma :: "nat \<Rightarrow> bool" where
  "is_plain_mma op \<equiv> op_in op [TU_ISA_MMA, TU_ISA_MMA_BIAS, TU_ISA_MMA_FUSED]"

text \<open>The operand reads of a matrix instruction, patched with every register live at it.\<close>

definition patch_read :: "int \<Rightarrow> tu_instruction \<Rightarrow> tu_vreg \<Rightarrow> tu_instruction" where
  "patch_read idx i v =
    (if vr_first_def v < 0 then i
     else if vr_first_def v \<le> idx \<and> idx \<le> vr_last_use v then
       let i = (if vr_region v = TU_VREG_W then set_dim0 (vr_physical_offset v) i else i)
       in if vr_region v = TU_VREG_A
          then i\<lparr>ins_immediates := (ins_immediates i AND 0xFFFF0000) OR (vr_physical_offset v AND 0xFFFF)\<rparr>
          else i
     else i)"

definition patch_write :: "tu_vreg \<Rightarrow> tu_instruction \<Rightarrow> tu_instruction" where
  "patch_write def i =
    (let op = op_of i in
     if vr_region def = TU_VREG_O then
       if is_plain_mma op
       then i\<lparr>ins_immediates := (ins_immediates i AND 0xFFFF) OR push_bit 16 (vr_physical_offset def AND 0xFFFF)\<rparr>
       else if op_between TU_ISA_RELU op TU_ISA_EXP then set_dim0 (vr_physical_offset def) i else i
     else if is_load_op op then set_dim0 (vr_physical_offset def) i else i)"

definition patch_instruction :: "tu_vreg list \<Rightarrow> int \<Rightarrow> tu_instruction \<Rightarrow> tu_instruction" where
  "patch_instruction vs idx i =
    (case find_def_vreg vs idx of
       None \<Rightarrow> i
     | Some def \<Rightarrow>
         if vr_physical_offset def = UINT32_MAX then i
         else let i = patch_write def i
              in if is_plain_mma (op_of i) then foldl (patch_read idx) i vs else i)"

definition region_code :: "tu_vreg_region \<Rightarrow> u8" where
  "region_code r = (case r of TU_VREG_W \<Rightarrow> 0 | TU_VREG_A \<Rightarrow> 1 | TU_VREG_O \<Rightarrow> 2)"

definition dma_instr :: "tu_isa_opcode \<Rightarrow> u32 \<Rightarrow> u32 \<Rightarrow> tu_vreg_region \<Rightarrow> tu_instruction" where
  "dma_instr op sram_offset sz region =
    \<lparr>ins_opcode = of_nat (opcode_code op), ins_flags = region_code region,
     ins_dim0 = ucast (sram_offset AND 0xFFFF), ins_dim1 = ucast (sz AND 0xFFFF), ins_dim2 = 0, ins_immediates = 0\<rparr>"

definition make_spill_instr :: "u32 \<Rightarrow> u32 \<Rightarrow> tu_vreg_region \<Rightarrow> tu_instruction" where
  "make_spill_instr = dma_instr TU_ISA_DMA_STORE"

definition make_fill_instr :: "u32 \<Rightarrow> u32 \<Rightarrow> tu_vreg_region \<Rightarrow> tu_instruction" where
  "make_fill_instr = dma_instr TU_ISA_DMA_LOAD"

text \<open>
  The output array grows at its end. Fills and spills need two free entries; \<open>i <= (uint32_t)last_use\<close>
  in the test of a fill is the comparison of the integers, as a last use is never negative.
\<close>

abbreviation max_out :: nat where "max_out \<equiv> TU_SCHED_MAX_INSTRS * 2"

definition fill_step :: "int \<Rightarrow> tu_instruction list \<Rightarrow> tu_vreg \<Rightarrow> tu_instruction list" where
  "fill_step idx out v =
    (if vr_spilled v \<and> vr_first_def v < idx \<and> idx \<le> vr_last_use v \<and> length out < max_out - 1
     then out @ [make_fill_instr (vr_physical_offset v) (vr_size_bytes v) (vr_region v)] else out)"

definition spill_step :: "int \<Rightarrow> tu_instruction list \<Rightarrow> tu_vreg \<Rightarrow> tu_instruction list" where
  "spill_step idx out v =
    (if vr_spilled v \<and> vr_last_use v = idx \<and> length out < max_out - 1
     then out @ [make_spill_instr (vr_physical_offset v) (vr_size_bytes v) (vr_region v)] else out)"

text \<open>The usage of the three regions, raised by a definition and dropped by a last use.\<close>

definition note_usage :: "tu_vreg option \<Rightarrow> u32 \<times> u32 \<times> u32 \<Rightarrow> u32 \<times> u32 \<times> u32" where
  "note_usage def = (\<lambda>(w, a, b).
    case def of
      None \<Rightarrow> (w, a, b)
    | Some v \<Rightarrow>
        if vr_physical_offset v = UINT32_MAX then (w, a, b)
        else let top = vr_physical_offset v + vr_size_bytes v
             in case vr_region v of
                  TU_VREG_W \<Rightarrow> (if top > w then top else w, a, b)
                | TU_VREG_A \<Rightarrow> (w, if top > a then top else a, b)
                | TU_VREG_O \<Rightarrow> (w, a, if top > b then top else b))"

definition drop_usage :: "int \<Rightarrow> u32 \<times> u32 \<times> u32 \<Rightarrow> tu_vreg \<Rightarrow> u32 \<times> u32 \<times> u32" where
  "drop_usage idx = (\<lambda>(w, a, b) v.
    if \<not> vr_spilled v \<and> vr_last_use v = idx
    then case vr_region v of TU_VREG_W \<Rightarrow> (w, a, b) | TU_VREG_A \<Rightarrow> (w, 0, b) | TU_VREG_O \<Rightarrow> (w, a, 0)
    else (w, a, b))"

definition raise_peaks :: "u32 \<times> u32 \<times> u32 \<Rightarrow> u32 \<times> u32 \<times> u32 \<Rightarrow> u32 \<times> u32 \<times> u32" where
  "raise_peaks = (\<lambda>(w, a, b) (pw, pa, pb).
    (if w > pw then w else pw, if a > pa then a else pa, if b > pb then b else pb))"

fun apply_loop ::
  "tu_vreg list \<Rightarrow> int \<Rightarrow> tu_instruction list \<Rightarrow> tu_instruction list \<Rightarrow> u32 \<times> u32 \<times> u32 \<Rightarrow> u32 \<times> u32 \<times> u32 \<Rightarrow>
   tu_instruction list \<times> u32 \<times> u32 \<times> u32" where
  "apply_loop vs idx [] out usage peaks = (out, peaks)"
| "apply_loop vs idx (i # is) out usage peaks =
    (if \<not> length out < max_out then (out, peaks)
     else
       let out = foldl (fill_step idx) out vs;
           out = out @ [patch_instruction vs idx i];
           usage = note_usage (find_def_vreg vs idx) usage;
           peaks = raise_peaks usage peaks;
           usage = foldl (drop_usage idx) usage vs;
           out = foldl (spill_step idx) out vs
       in apply_loop vs (idx + 1) is out usage peaks)"

definition tu_live_apply :: "tu_liveness_result \<Rightarrow> tu_instruction list \<Rightarrow> int \<times> tu_allocated_sequence" where
  "tu_live_apply result input_instrs =
    (let (out, pw, pa, pb) = apply_loop (lr_vregs result) 0 input_instrs [] (0, 0, 0) (0, 0, 0)
     in (0, \<lparr>as_instructions = out, as_peak_w_usage = pw, as_peak_a_usage = pa, as_peak_o_usage = pb,
             as_valid = True\<rparr>))"

definition tu_live_allocate ::
  "tu_instruction list \<Rightarrow> tu_live_config option \<Rightarrow> tu_allocated_sequence \<Rightarrow> (int \<times> tu_allocated_sequence) option" where
  "tu_live_allocate instrs config old =
    (let (rc, result) = tu_live_analyze instrs liveness_zero
     in if rc \<noteq> 0 then Some (- 1, old)
        else do { result \<leftarrow> tu_live_color (tu_live_build_interference result) config;
                  Some (tu_live_apply result instrs) })"

section \<open>What the analysis produces\<close>

text \<open>
  Registers of one region are ordered by their definition, implicit ones first; no register is placed
  or spilled.
\<close>

definition analyzed :: "int \<Rightarrow> tu_vreg list \<Rightarrow> bool" where
  "analyzed idx vs \<longleftrightarrow> length vs \<le> TU_LIVE_MAX_VREGS \<and>
     (\<forall>v \<in> set vs. - 1 \<le> vr_first_def v \<and> vr_first_def v \<le> idx \<and>
        vr_physical_offset v = UINT32_MAX \<and> \<not> vr_spilled v) \<and>
     (\<forall>a b. a < b \<and> b < length vs \<and> vr_region (vs ! a) = vr_region (vs ! b) \<longrightarrow>
        vr_first_def (vs ! a) \<le> vr_first_def (vs ! b))"

lemma last_defined_some:
  "last_defined n region vs = Some k \<Longrightarrow> k < n \<and> vr_region (vs ! k) = region \<and> 0 \<le> vr_first_def (vs ! k)"
  by (induction n) (auto split: if_splits)

lemma last_defined_none:
  "last_defined n region vs = None \<Longrightarrow> k < n \<Longrightarrow> vr_region (vs ! k) = region \<Longrightarrow> vr_first_def (vs ! k) < 0"
  by (induction n) (auto split: if_splits simp: less_Suc_eq)

lemma analyzed_append:
  assumes "analyzed idx vs" "length vs < TU_LIVE_MAX_VREGS"
    and "vr_physical_offset v = UINT32_MAX" "\<not> vr_spilled v" "- 1 \<le> vr_first_def v" "vr_first_def v \<le> idx"
    and "\<And>a. a < length vs \<Longrightarrow> vr_region (vs ! a) = vr_region v \<Longrightarrow> vr_first_def (vs ! a) \<le> vr_first_def v"
  shows "analyzed idx (vs @ [v])"
  using assms unfolding analyzed_def by (auto simp: nth_append less_Suc_eq)

lemma analyzed_find_or_create:
  assumes "analyzed idx vs" "0 \<le> idx"
  shows "analyzed idx (find_or_create_vreg vs region lo hi idx d)"
proof (cases d)
  case True
  have "vr_first_def (vs ! a) \<le> idx" if "a < length vs" for a
    using assms(1) that nth_mem unfolding analyzed_def by blast
  then show ?thesis using True assms
    by (auto simp: find_or_create_vreg_def new_vreg_def intro!: analyzed_append)
next
  case False
  show ?thesis
  proof (cases "last_defined (length vs) region vs")
    case None
    note n = last_defined_none [OF None]
    have "vr_first_def (vs ! a) \<le> - 1" if "a < length vs" "vr_region (vs ! a) = region" for a
      using n [OF that] by simp
    then show ?thesis using False None assms
      by (auto simp: find_or_create_vreg_def new_vreg_def intro!: analyzed_append)
  next
    case (Some k)
    let ?v = "(vs ! k)\<lparr>vr_last_use := (if idx > vr_last_use (vs ! k) then idx else vr_last_use (vs ! k)),
                      vr_access_count := vr_access_count (vs ! k) + 1\<rparr>"
    have k: "k < length vs" using last_defined_some [OF Some] by simp
    then have m: "vs ! k \<in> set vs" by simp
    have same: "vr_region (vs[k := ?v] ! a) = vr_region (vs ! a) \<and> vr_first_def (vs[k := ?v] ! a) = vr_first_def (vs ! a)"
      if "a < length vs" for a using k that by (simp add: nth_list_update)
    have "analyzed idx (vs[k := ?v])"
      unfolding analyzed_def
    proof (intro conjI allI impI ballI)
      show "length (vs[k := ?v]) \<le> TU_LIVE_MAX_VREGS" using assms(1) by (simp add: analyzed_def)
    next
      fix v assume "v \<in> set (vs[k := ?v])"
      then have "v = ?v \<or> v \<in> set vs" using set_update_subset_insert by fast
      then show "- 1 \<le> vr_first_def v" "vr_first_def v \<le> idx" "vr_physical_offset v = UINT32_MAX" "\<not> vr_spilled v"
        using assms(1) m unfolding analyzed_def by auto
    next
      fix a b assume "a < b \<and> b < length (vs[k := ?v]) \<and> vr_region (vs[k := ?v] ! a) = vr_region (vs[k := ?v] ! b)"
      then show "vr_first_def (vs[k := ?v] ! a) \<le> vr_first_def (vs[k := ?v] ! b)"
        using assms(1) same [of a] same [of b] unfolding analyzed_def by simp
    qed
    then show ?thesis using False Some by (simp add: find_or_create_vreg_def)
  qed
qed

lemma analyzed_mono: "analyzed idx vs \<Longrightarrow> idx \<le> idx' \<Longrightarrow> analyzed idx' vs"
  unfolding analyzed_def by force

lemma analyzed_step:
  assumes "analyzed idx vs" "0 \<le> idx" shows "analyzed idx (analyze_step idx i vs)"
proof -
  have "analyzed idx (case extract_vreg_def i of Some (region, lo, hi) \<Rightarrow> find_or_create_vreg vs region lo hi idx True | None \<Rightarrow> vs)"
    using assms by (auto split: option.splits intro: analyzed_find_or_create)
  then show ?thesis unfolding analyze_step_def Let_def
    by (rule foldl_invariant) (auto intro: analyzed_find_or_create assms(2))
qed

lemma analyzed_loop: "analyzed idx vs \<Longrightarrow> 0 \<le> idx \<Longrightarrow> analyzed (idx + int (length is)) (analyze_loop idx is vs)"
proof (induction "is" arbitrary: idx vs)
  case (Cons i "is")
  have "analyzed (idx + 1) (analyze_step idx i vs)"
    using Cons.prems by (intro analyzed_mono [OF analyzed_step]) auto
  then show ?case using Cons.IH [of "idx + 1"] Cons.prems(2) by (simp add: algebra_simps)
qed simp

lemma analyzed_result:
  assumes "tu_live_analyze instrs old = (0, result)"
  shows "analyzed (int (length instrs)) (lr_vregs result)" "lr_graph result = (\<lambda>r. graph_zero)"
    "lr_num_spills result = 0"
proof -
  have ne: "instrs \<noteq> []" using assms by (auto simp: tu_live_analyze_def)
  then have r: "result = liveness_zero\<lparr>lr_vregs := analyze_loop 0 instrs []\<rparr>"
    using assms by (simp add: tu_live_analyze_def)
  have "analyzed 0 []" by (simp add: analyzed_def)
  then show "analyzed (int (length instrs)) (lr_vregs result)"
    using analyzed_loop [of 0 "[]" instrs] by (simp add: r)
  show "lr_graph result = (\<lambda>r. graph_zero)" "lr_num_spills result = 0" by (simp_all add: r liveness_zero_def)
qed

section \<open>The interference graph\<close>

definition region_ids :: "tu_vreg list \<Rightarrow> tu_vreg_region \<Rightarrow> nat list" where
  "region_ids vs r = filter (\<lambda>k. vr_region (vs ! k) = r) [0..<length vs]"

lemma region_ids_props:
  "distinct (region_ids vs r)" "sorted (region_ids vs r)"
  "set (region_ids vs r) = {k. k < length vs \<and> vr_region (vs ! k) = r}"
  by (auto simp: region_ids_def sorted_wrt_filter)

lemma add_to_regions:
  assumes "n \<le> length (lr_vregs result)" "n \<le> TU_LIVE_MAX_VREGS" "lr_graph result = (\<lambda>r. graph_zero)"
  shows "foldl add_to_region result [0..<n] = result\<lparr>lr_graph := (\<lambda>r. graph_zero\<lparr>ig_vregs :=
    filter (\<lambda>k. vr_region (lr_vregs result ! k) = r) [0..<n]\<rparr>)\<rparr>"
  using assms(1,2)
proof (induction n)
  case 0
  show ?case using assms(3) by (simp add: graph_zero_def)
next
  case (Suc n)
  have "length (filter (\<lambda>k. vr_region (lr_vregs result ! k) = r) [0..<n]) < TU_LIVE_MAX_VREGS" for r
    using Suc.prems(2) le_less_trans [OF length_filter_le] by (metis Suc_le_lessD diff_zero length_upt)
  then show ?case using Suc by (auto simp: add_to_region_def Let_def fun_eq_iff)
qed

definition finish_graph :: "tu_vreg list \<Rightarrow> tu_interference_graph \<Rightarrow> tu_interference_graph" where
  "finish_graph vs g = (if ig_vregs g = [] then g
     else g\<lparr>ig_interference := interference_matrix vs (ig_vregs g), ig_colored := False, ig_num_physical_slots := 0\<rparr>)"

lemma build_region_finish:
  "build_region res r = res\<lparr>lr_graph := (lr_graph res)(r := finish_graph (lr_vregs res) (lr_graph res r))\<rparr>"
  by (simp add: build_region_def finish_graph_def Let_def)

lemma build_regions:
  "foldl build_region res [TU_VREG_W, TU_VREG_A, TU_VREG_O] =
   res\<lparr>lr_graph := (\<lambda>r. finish_graph (lr_vregs res) (lr_graph res r))\<rparr>"
proof -
  have "(lr_graph res)(TU_VREG_W := f TU_VREG_W, TU_VREG_A := f TU_VREG_A, TU_VREG_O := f TU_VREG_O) = f" for f
  proof (rule ext)
    fix r show "((lr_graph res)(TU_VREG_W := f TU_VREG_W, TU_VREG_A := f TU_VREG_A, TU_VREG_O := f TU_VREG_O)) r = f r"
      by (cases r) simp_all
  qed
  from this [of "\<lambda>r. finish_graph (lr_vregs res) (lr_graph res r)"] show ?thesis
    by (simp add: build_region_finish)
qed

definition live_graph :: "tu_vreg list \<Rightarrow> tu_vreg_region \<Rightarrow> tu_interference_graph" where
  "live_graph vs r = finish_graph vs (graph_zero\<lparr>ig_vregs := region_ids vs r\<rparr>)"

lemma live_graph_simps [simp]:
  "ig_vregs (live_graph vs r) = region_ids vs r"
  "region_ids vs r \<noteq> [] \<Longrightarrow> ig_interference (live_graph vs r) = interference_matrix vs (region_ids vs r)"
  by (simp_all add: live_graph_def finish_graph_def)

lemma build_interference_graph:
  assumes "length (lr_vregs result) \<le> TU_LIVE_MAX_VREGS" "lr_graph result = (\<lambda>r. graph_zero)"
  shows "tu_live_build_interference result = result\<lparr>lr_graph := live_graph (lr_vregs result)\<rparr>"
  unfolding tu_live_build_interference_def add_to_regions [OF le_refl assms, folded region_ids_def] build_regions
  by (simp add: live_graph_def fun_eq_iff)

text \<open>The entries of the matrix.\<close>

lemma index_unique: "i * n + j = a * n + b \<longleftrightarrow> i = a \<and> j = b" if "j < n" "b < n" for i j a b n :: nat
proof
  assume e: "i * n + j = a * n + b"
  have "(i * n + j) div n = i" "(a * n + b) div n = a" using that by simp_all
  then have "i = a" using e by simp
  then show "i = a \<and> j = b" using e by simp
qed simp

lemma index_less: "i < n \<Longrightarrow> j < n \<Longrightarrow> i * n + j < n * n" for i j n :: nat
proof -
  assume "i < n" "j < n"
  then have "i * n + j < Suc i * n" by simp
  also have "\<dots> \<le> n * n" using \<open>i < n\<close> by (intro mult_le_mono1) simp
  finally show ?thesis .
qed

lemma set_pair_entry:
  assumes "length m = n * n" "i < n" "j < n" "a < n" "b < n"
  shows "set_pair n i j m ! (a * n + b) \<longleftrightarrow> (a, b) = (i, j) \<or> (a, b) = (j, i) \<or> m ! (a * n + b)"
  using assms index_less [of i n j] index_less [of j n i]
  by (auto simp: set_pair_def nth_list_update index_unique)

lemma set_pair_length [simp]: "length (set_pair n i j m) = length m"
  by (simp add: set_pair_def)

lemma row_entry:
  assumes "length m = n * n" "i < n" "set js \<subseteq> {..<n}" "a < n" "b < n"
  shows "foldl (\<lambda>m j. if P j then set_pair n i j m else m) m js ! (a * n + b) \<longleftrightarrow>
    m ! (a * n + b) \<or> (a = i \<and> b \<in> set js \<and> P b) \<or> (b = i \<and> a \<in> set js \<and> P a)"
    "length (foldl (\<lambda>m j. if P j then set_pair n i j m else m) m js) = n * n"
  using assms by (induction js arbitrary: m) (auto simp: set_pair_entry)

lemma matrix_entry:
  fixes P :: "nat \<Rightarrow> nat \<Rightarrow> bool"
  defines "row \<equiv> \<lambda>n m i. foldl (\<lambda>m j. if P i j then set_pair n i j m else m) m [i + 1..<n]"
  assumes "length m = n * n" "set is \<subseteq> {..<n}" "a < n" "b < n"
  shows "foldl (row n) m is ! (a * n + b) \<longleftrightarrow>
    m ! (a * n + b) \<or> (a \<in> set is \<and> a < b \<and> P a b) \<or> (b \<in> set is \<and> b < a \<and> P b a)"
  using assms(2,3)
proof (induction "is" arbitrary: m)
  case (Cons i "is")
  have r: "set [i + 1..<n] \<subseteq> {..<n}" "i < n" using Cons.prems by auto
  have l: "length (row n m i) = n * n" unfolding row_def by (rule row_entry(2) [OF Cons.prems(1) r(2,1) assms(4,5)])
  have "row n m i ! (a * n + b) \<longleftrightarrow> m ! (a * n + b) \<or> (a = i \<and> a < b \<and> P a b) \<or> (b = i \<and> b < a \<and> P b a)"
    unfolding row_def row_entry(1) [OF Cons.prems(1) r(2,1) assms(4,5), of "P i"] using assms(4,5) by auto
  moreover have "set is \<subseteq> {..<n}" using Cons.prems(2) by simp
  note IH = Cons.IH [OF l this]
  ultimately show ?case unfolding foldl_Cons IH list.set(2) by blast
qed simp

lemma live_overlap_sym: "live_overlap v w \<longleftrightarrow> live_overlap w v"
  by (auto simp: live_overlap_def)

lemma interference_entry:
  assumes "a < length ids" "b < length ids"
  shows "interference_matrix vs ids ! (a * length ids + b) \<longleftrightarrow> a \<noteq> b \<and> live_overlap (vs ! (ids ! a)) (vs ! (ids ! b))"
proof -
  have "set [0..<length ids] \<subseteq> {..<length ids}" by auto
  then have "interference_matrix vs ids ! (a * length ids + b) \<longleftrightarrow>
      (a < b \<and> live_overlap (vs ! (ids ! a)) (vs ! (ids ! b))) \<or> (b < a \<and> live_overlap (vs ! (ids ! b)) (vs ! (ids ! a)))"
    unfolding interference_matrix_def Let_def
    using matrix_entry [of "replicate (length ids * length ids) False" "length ids" "[0..<length ids]" a b
        "\<lambda>i j. live_overlap (vs ! (ids ! i)) (vs ! (ids ! j))"] assms index_less [OF assms]
    by simp
  then show ?thesis using live_overlap_sym by (metis linorder_neqE_nat less_irrefl)
qed

section \<open>The sort keeps the order\<close>

lemma sort_shift_sorted:
  assumes "i < length ids" "key = ids ! i" "0 < i \<Longrightarrow> f (ids ! (i - 1)) \<le> f key"
  shows "sort_shift f key i ids = ids"
  using assms by (cases i) (auto simp: list_update_id)

lemma sort_by_def_sorted:
  assumes "\<And>a b. a < b \<Longrightarrow> b < length ids \<Longrightarrow> f (ids ! a) \<le> f (ids ! b)"
  shows "sort_by_def f ids = ids"
proof -
  have "foldl (\<lambda>xs i. sort_shift f (xs ! i) i xs) ids is = ids" if "set is \<subseteq> {1..<length ids}" for "is"
    using that by (induction "is") (use assms in \<open>auto simp: sort_shift_sorted\<close>)
  then show ?thesis by (simp add: sort_by_def_def)
qed

lemma region_ids_ascending:
  assumes "analyzed idx vs" "a < b" "b < length (region_ids vs r)"
  shows "vr_first_def (vs ! (region_ids vs r ! a)) \<le> vr_first_def (vs ! (region_ids vs r ! b))"
proof -
  note p = region_ids_props [of vs r]
  have "region_ids vs r ! a < region_ids vs r ! b"
    using assms(2,3) p(1,2) by (metis less_trans nth_eq_iff_index_eq order_less_le sorted_nth_mono less_imp_le)
  moreover have "region_ids vs r ! a \<in> set (region_ids vs r)" "region_ids vs r ! b \<in> set (region_ids vs r)"
    using assms(2,3) by simp_all
  ultimately show ?thesis using assms(1) unfolding analyzed_def p(3) by auto
qed

section \<open>First fit\<close>

text \<open>With room for one more step above the capacity no offset wraps, so the search ends.\<close>

lemma first_fit_ends:
  assumes "0 < unat step" "unat capacity + unat step < 4294967296" "unat off + unat sz < 4294967296"
  shows "\<exists>r. first_fit conflict sz capacity step off = Some r \<and>
    (\<forall>p. r = Some p \<longrightarrow> \<not> conflict p \<and> unat p + unat sz \<le> unat capacity)"
  using assms(3)
proof (induction "4294967296 - unat off" arbitrary: off rule: less_induct)
  case less
  have e: "unat (off + sz) = unat off + unat sz" using less.prems by (rule u32_add_exact)
  note unf = first_fit.simps [of conflict sz capacity step off]
  show ?case
  proof (cases "off + sz \<le> capacity \<and> conflict off")
    case True
    then have c: "unat off + unat sz \<le> unat capacity" by (simp add: word_le_nat_alt e)
    then have s: "unat (off + step) = unat off + unat step" using assms(2) by (intro u32_add_exact) linarith
    have "unat (off + step) + unat sz < 4294967296" using s c assms(2) by linarith
    then show ?thesis
      using less.hyps [of "off + step"] s assms(1) True less.prems unf by auto
  next
    case False
    then show ?thesis using unf e by (auto simp: word_le_nat_alt)
  qed
qed

section \<open>What coloring leaves unchanged\<close>

definition shape :: "tu_vreg \<Rightarrow> tu_vreg_region \<times> u32 \<times> int \<times> int" where
  "shape v = (vr_region v, vr_size_bytes v, vr_first_def v, vr_last_use v)"

text \<open>Same registers, at the same places: only spill marks differ.\<close>

definition marks_only :: "tu_vreg list \<Rightarrow> tu_vreg list \<Rightarrow> bool" where
  "marks_only vs vs' \<longleftrightarrow> map (\<lambda>v. (shape v, vr_physical_offset v)) vs' = map (\<lambda>v. (shape v, vr_physical_offset v)) vs"

lemma marks_only_refl [simp]: "marks_only vs vs" by (simp add: marks_only_def)

lemma marks_only_trans: "marks_only vs vs' \<Longrightarrow> marks_only vs' vs'' \<Longrightarrow> marks_only vs vs''"
  by (simp add: marks_only_def)

lemma marks_only_nth:
  assumes "marks_only vs vs'"
  shows "length vs' = length vs" "k < length vs \<Longrightarrow> shape (vs' ! k) = shape (vs ! k)"
    "k < length vs \<Longrightarrow> vr_physical_offset (vs' ! k) = vr_physical_offset (vs ! k)"
proof -
  show l: "length vs' = length vs" by (rule map_eq_imp_length_eq [OF assms [unfolded marks_only_def]])
  assume k: "k < length vs"
  have "map (\<lambda>v. (shape v, vr_physical_offset v)) vs' ! k = map (\<lambda>v. (shape v, vr_physical_offset v)) vs ! k"
    using assms by (simp add: marks_only_def)
  then show "shape (vs' ! k) = shape (vs ! k)" "vr_physical_offset (vs' ! k) = vr_physical_offset (vs ! k)"
    using k l by simp_all
qed

lemma marks_only_spill:
  assumes "spill_vreg k (vs, a, b) = (vs', a', b')" shows "marks_only vs vs'"
proof -
  have "vs' = vs[k := (vs ! k)\<lparr>vr_spilled := True\<rparr>]" using assms by (simp add: spill_vreg_def)
  then show ?thesis unfolding marks_only_def
    by (simp only:) (rule map_list_update_id, simp add: shape_def)
qed

text \<open>Spill marks are never taken back.\<close>

definition spill_kept :: "tu_vreg list \<Rightarrow> tu_vreg list \<Rightarrow> bool" where
  "spill_kept vs vs' \<longleftrightarrow> length vs' = length vs \<and> (\<forall>k < length vs. vr_spilled (vs ! k) \<longrightarrow> vr_spilled (vs' ! k))"

lemma spill_kept_refl [simp]: "spill_kept vs vs" by (simp add: spill_kept_def)

lemma spill_kept_trans: "spill_kept vs vs' \<Longrightarrow> spill_kept vs' vs'' \<Longrightarrow> spill_kept vs vs''"
  by (simp add: spill_kept_def)

lemma spill_kept_update:
  assumes "vr_spilled (vs ! k) \<longrightarrow> vr_spilled v" shows "spill_kept vs (vs[k := v])"
  unfolding spill_kept_def
proof (intro conjI allI impI)
  fix j assume "j < length vs" "vr_spilled (vs ! j)"
  then show "vr_spilled (vs[k := v] ! j)" using assms by (cases "j = k") simp_all
qed simp

lemma spill_kept_spill:
  assumes "spill_vreg k (vs, a, b) = (vs', a', b')"
  shows "spill_kept vs vs'" "k < length vs \<Longrightarrow> vr_spilled (vs' ! k)"
  using assms by (auto simp: spill_vreg_def intro: spill_kept_update)

lemma spill_kept_place: "spill_kept vs (place_vreg k off vs)"
  by (simp add: place_vreg_def spill_kept_update)

lemma shape_simps:
  assumes "shape v = shape w"
  shows "vr_region v = vr_region w" "vr_size_bytes v = vr_size_bytes w"
    "vr_first_def v = vr_first_def w" "vr_last_use v = vr_last_use w"
  using assms by (simp_all add: shape_def)

lemma conflict_marks_only:
  assumes "marks_only vs vs'" "set (ig_vregs g) \<subseteq> {..<length vs}" "i < length (ig_vregs g)"
  shows "physical_conflict vs' g i = physical_conflict vs g i"
proof -
  have "conflicts_with vs' g i p j = conflicts_with vs g i p j" if "j < length (ig_vregs g)" for j p
  proof -
    have l: "ig_vregs g ! j < length vs" "ig_vregs g ! i < length vs" using assms(2,3) that nth_mem by blast+
    show ?thesis unfolding conflicts_with_def Let_def
      by (simp only: marks_only_nth(3) [OF assms(1) l(1)] shape_simps(2) [OF marks_only_nth(2) [OF assms(1) l(1)]]
          shape_simps(2) [OF marks_only_nth(2) [OF assms(1) l(2)]])
  qed
  then show ?thesis by (auto simp: physical_conflict_def list_ex_iff fun_eq_iff)
qed

section \<open>One register\<close>

text \<open>
  With spilling enabled a step only marks registers and either leaves its register unplaced and marked
  as spilled or places it inside the capacity where nothing conflicts; a register without a definition
  is put at offset 0, untested.
\<close>

definition placed_by ::
  "tu_interference_graph \<Rightarrow> u32 \<Rightarrow> nat \<Rightarrow> tu_vreg list \<Rightarrow> tu_vreg list \<Rightarrow> bool" where
  "placed_by g capacity i vs vs' \<longleftrightarrow>
    (let k = ig_vregs g ! i in
     \<exists>vs1. marks_only vs vs1 \<and> spill_kept vs vs1 \<and>
       (vs' = vs1 \<and> vr_spilled (vs1 ! k) \<and> 0 \<le> vr_first_def (vs ! k) \<or>
        (\<exists>off. vs' = place_vreg k off vs1 \<and>
          (if vr_first_def (vs ! k) < 0 then off = 0
           else \<not> physical_conflict vs g i off \<and> unat off + unat (vr_size_bytes (vs ! k)) \<le> unat capacity))))"

lemma color_vreg_places:
  assumes "lc_enable_spilling cfg" "unat capacity + 16 < 4294967296"
    and g: "set (ig_vregs g) \<subseteq> {..<length vs}" "i < length (ig_vregs g)"
  shows "\<exists>vs' a' b' c'. color_vreg cfg g capacity i (vs, a, b, c) = Some (vs', a', b', c') \<and>
    placed_by g capacity i vs vs'"
proof -
  let ?k = "ig_vregs g ! i" and ?sz = "vr_size_bytes (vs ! (ig_vregs g ! i))"
  let ?st = "if lc_alloc_strategy cfg = TU_ALLOC_BEST_FIT then 4 else 16 :: u32"
  have fit: "\<exists>r. first_fit (physical_conflict vs g i) ?sz capacity st 0 = Some r \<and>
      (\<forall>p. r = Some p \<longrightarrow> \<not> physical_conflict vs g i p \<and> unat p + unat ?sz \<le> unat capacity)"
    if "st \<in> {1, 4, 16}" for st
    using that assms(2) by (intro first_fit_ends) auto
  obtain r1 where r1: "first_fit (physical_conflict vs g i) ?sz capacity ?st 0 = Some r1"
    "\<And>p. r1 = Some p \<Longrightarrow> \<not> physical_conflict vs g i p \<and> unat p + unat ?sz \<le> unat capacity"
    using fit [of ?st] by (cases "lc_alloc_strategy cfg = TU_ALLOC_BEST_FIT") auto
  obtain r2 where r2: "first_fit (physical_conflict vs g i) ?sz capacity 1 0 = Some r2"
    "\<And>p. r2 = Some p \<Longrightarrow> \<not> physical_conflict vs g i p \<and> unat p + unat ?sz \<le> unat capacity"
    using fit [of 1] by auto
  have put: "placed_by g capacity i vs (place_vreg ?k p vs1)"
    if "marks_only vs vs1 \<and> spill_kept vs vs1"
      "if vr_first_def (vs ! ?k) < 0 then p = 0 else \<not> physical_conflict vs g i p \<and> unat p + unat ?sz \<le> unat capacity"
    for p vs1
    using that unfolding placed_by_def Let_def by blast
  have keep: "placed_by g capacity i vs vs1"
    if "marks_only vs vs1 \<and> spill_kept vs vs1" "vr_spilled (vs1 ! ?k)" "0 \<le> vr_first_def (vs ! ?k)" for vs1
    using that unfolding placed_by_def Let_def by blast
  have refl: "marks_only vs vs \<and> spill_kept vs vs" by simp
  show ?thesis
  proof (cases "vr_first_def (vs ! ?k) < 0")
    case True
    then show ?thesis using put [OF refl, of 0] by (auto simp: color_vreg_def Let_def)
  next
    case False
    define vic where "vic = select_spill_victim vs g (lc_spill_strategy cfg)"
    define evict where "evict \<longleftrightarrow> vic < length (ig_vregs g) \<and> \<not> vr_spilled (vs ! (ig_vregs g ! vic))"
    obtain vs1 a1 b1 where s1: "(if evict then spill_vreg (ig_vregs g ! vic) (vs, a, b) else (vs, a, b)) = (vs1, a1, b1)"
      by (metis surj_pair)
    have m1: "marks_only vs vs1" using s1 by (auto split: if_splits dest: marks_only_spill)
    have k1: "spill_kept vs vs1" using s1 by (auto split: if_splits dest: spill_kept_spill)
    obtain vs2 a2 b2 where s2: "spill_vreg ?k (vs1, a1, b1) = (vs2, a2, b2)" by (metis surj_pair)
    have m2: "marks_only vs vs2" using marks_only_spill [OF s2] m1 marks_only_trans by blast
    have k2: "spill_kept vs vs2" using spill_kept_spill(1) [OF s2] k1 spill_kept_trans by blast
    have "?k < length vs1" using g nth_mem marks_only_nth(1) [OF m1] by auto
    then have sp: "vr_spilled (vs2 ! ?k)" by (rule spill_kept_spill(2) [OF s2])
    note pc = conflict_marks_only [OF m1 g]
    have "color_vreg cfg g capacity i (vs, a, b, c) =
       (case r1 of Some p \<Rightarrow> Some (place_vreg ?k p vs, a, b, c)
        | None \<Rightarrow> case (if lc_alloc_strategy cfg = TU_ALLOC_BEST_FIT then r2 else None) of
            Some p \<Rightarrow> Some (place_vreg ?k p vs, a, b, c)
          | None \<Rightarrow> case (if evict then r1 else None) of
              Some p \<Rightarrow> Some (place_vreg ?k p vs1, a1, b1, c)
            | None \<Rightarrow> Some (vs2, a2, b2, c + 1))"
      unfolding color_vreg_def
      using False assms(1) r1(1) r2(1) s1 s2 pc
      by (simp add: Let_def vic_def [symmetric] evict_def [symmetric] split: option.splits if_splits prod.splits)
    then show ?thesis
      using put [OF refl] put [OF conjI [OF m1 k1]] keep [OF conjI [OF m2 k2] sp] r1(2) r2(2) False
      by (auto split: option.splits if_splits)
  qed
qed

section \<open>One region\<close>

definition apart :: "tu_vreg \<Rightarrow> tu_vreg \<Rightarrow> bool" where
  "apart v w \<longleftrightarrow> vr_physical_offset v = UINT32_MAX \<or> vr_physical_offset w = UINT32_MAX \<or>
     unat (vr_physical_offset v) + unat (vr_size_bytes v) \<le> unat (vr_physical_offset w) \<or>
     unat (vr_physical_offset w) + unat (vr_size_bytes w) \<le> unat (vr_physical_offset v)"

definition inside :: "u32 \<Rightarrow> tu_vreg \<Rightarrow> bool" where
  "inside capacity v \<longleftrightarrow> unat (vr_physical_offset v) + unat (vr_size_bytes v) \<le> unat capacity"

text \<open>Where a register ends: without a definition at offset 0, whatever its size; with one, marked as
  spilled and unplaced, or inside the capacity.\<close>

definition settled :: "u32 \<Rightarrow> tu_vreg \<Rightarrow> bool" where
  "settled capacity v \<longleftrightarrow>
     (if vr_first_def v < 0 then vr_physical_offset v = 0
      else if vr_physical_offset v = UINT32_MAX then vr_spilled v
      else inside capacity v)"

text \<open>The registers \<open>S\<close> of a region are placed without overlap and no other register has moved.\<close>

definition region_state :: "tu_vreg list \<Rightarrow> u32 \<Rightarrow> nat set \<Rightarrow> tu_vreg list \<Rightarrow> bool" where
  "region_state vs0 capacity S vs \<longleftrightarrow> map shape vs = map shape vs0 \<and>
     (\<forall>k < length vs. k \<notin> S \<longrightarrow> vr_physical_offset (vs ! k) = vr_physical_offset (vs0 ! k)) \<and>
     spill_kept vs0 vs \<and> (\<forall>k \<in> S. settled capacity (vs ! k)) \<and>
     (\<forall>k \<in> S. \<forall>l \<in> S. k \<noteq> l \<and> live_overlap (vs0 ! k) (vs0 ! l) \<longrightarrow> apart (vs ! k) (vs ! l))"

lemma same_shapes:
  assumes "map shape vs = map shape vs0"
  shows "length vs = length vs0" "k < length vs0 \<Longrightarrow> shape (vs ! k) = shape (vs0 ! k)"
proof -
  show l: "length vs = length vs0" by (rule map_eq_imp_length_eq [OF assms])
  assume "k < length vs0"
  then show "shape (vs ! k) = shape (vs0 ! k)" using assms l by (metis nth_map)
qed

lemma live_overlap_shape:
  "shape v = shape v' \<Longrightarrow> shape w = shape w' \<Longrightarrow> live_overlap v w = live_overlap v' w'"
  by (simp add: shape_def live_overlap_def)

lemma apart_marks:
  assumes "shape v = shape v'" "vr_physical_offset v = vr_physical_offset v'"
    "shape w = shape w'" "vr_physical_offset w = vr_physical_offset w'"
  shows "apart v w = apart v' w'"
  using assms by (simp add: apart_def shape_def)

lemma settled_marks:
  "shape v' = shape v \<Longrightarrow> vr_physical_offset v' = vr_physical_offset v \<Longrightarrow>
   (vr_spilled v \<longrightarrow> vr_spilled v') \<Longrightarrow> settled c v \<Longrightarrow> settled c v'"
  by (simp add: settled_def inside_def shape_def split: if_splits)

lemma apart_sym: "apart v w = apart w v"
  by (auto simp: apart_def)

lemma region_state_marks:
  assumes "region_state vs0 capacity S vs" "marks_only vs vs'" "S \<subseteq> {..<length vs0}" "spill_kept vs vs'"
  shows "region_state vs0 capacity S vs'"
proof -
  have s0: "map shape vs = map shape vs0" using assms(1) by (simp add: region_state_def)
  note l0 = same_shapes(1) [OF s0] and m = marks_only_nth [OF assms(2)]
  have "map shape vs' = map shape vs" using m by (intro nth_equalityI) simp_all
  moreover have "settled capacity (vs' ! k)" if "k \<in> S" for k
  proof -
    have "k < length vs" "settled capacity (vs ! k)"
      using that assms(1,3) l0 unfolding region_state_def by auto
    then show ?thesis using m(2,3) [of k] assms(4) by (auto intro: settled_marks simp: spill_kept_def)
  qed
  moreover have "spill_kept vs0 vs'"
    using assms(1,4) spill_kept_trans unfolding region_state_def by blast
  moreover have "apart (vs' ! k) (vs' ! l) = apart (vs ! k) (vs ! l)" if "k \<in> S" "l \<in> S" for k l
    using that assms(3) m(2,3) [of k] m(2,3) [of l] l0 by (intro apart_marks) auto
  ultimately show ?thesis
    using assms(1) m(1,3) s0 unfolding region_state_def by simp
qed

text \<open>A graph over unplaced registers whose edges are the overlapping live ranges.\<close>

definition graph_of :: "tu_vreg list \<Rightarrow> tu_interference_graph \<Rightarrow> bool" where
  "graph_of vs0 g \<longleftrightarrow> distinct (ig_vregs g) \<and> set (ig_vregs g) \<subseteq> {..<length vs0} \<and>
     (\<forall>k \<in> set (ig_vregs g). vr_physical_offset (vs0 ! k) = UINT32_MAX) \<and>
     (\<forall>a < length (ig_vregs g). \<forall>b < length (ig_vregs g).
        ig_interference g ! (a * length (ig_vregs g) + b) \<longleftrightarrow>
        a \<noteq> b \<and> live_overlap (vs0 ! (ig_vregs g ! a)) (vs0 ! (ig_vregs g ! b)))"

lemma no_conflict_apart:
  assumes "graph_of vs0 g" "region_state vs0 capacity S vs" "S \<subseteq> set (ig_vregs g)"
    and i: "i < length (ig_vregs g)" "k = ig_vregs g ! i" "k \<notin> S"
    and off: "\<not> physical_conflict vs g i off" "unat off + unat (vr_size_bytes (vs ! k)) \<le> unat capacity"
    and l: "l \<in> S" "live_overlap (vs0 ! k) (vs0 ! l)"
  shows "apart ((vs ! k)\<lparr>vr_physical_offset := off\<rparr>) (vs ! l)"
proof -
  obtain j where j: "j < length (ig_vregs g)" "l = ig_vregs g ! j"
    using l(1) assms(3) by (metis in_set_conv_nth subsetD)
  have "ig_interference g ! (i * length (ig_vregs g) + j)"
    using assms(1) i j l unfolding graph_of_def by auto
  then have free: "vr_physical_offset (vs ! l) = UINT32_MAX \<or>
      \<not> (off < vr_physical_offset (vs ! l) + vr_size_bytes (vs ! l) \<and> vr_physical_offset (vs ! l) < off + vr_size_bytes (vs ! k))"
    using off(1) i j l unfolding physical_conflict_def list_ex_iff conflicts_with_def Let_def by auto
  have s: "shape (vs ! l) = shape (vs0 ! l)"
    using assms(1,2,3) l(1) same_shapes(2) unfolding region_state_def graph_of_def by blast
  have "0 \<le> vr_first_def (vs ! l)" using l(2) s by (simp add: live_overlap_def shape_def)
  then have "vr_physical_offset (vs ! l) = UINT32_MAX \<or>
      unat (vr_physical_offset (vs ! l)) + unat (vr_size_bytes (vs ! l)) \<le> unat capacity"
    using assms(2) l(1) unfolding region_state_def settled_def inside_def by (auto split: if_splits)
  moreover have "unat (off + vr_size_bytes (vs ! k)) = unat off + unat (vr_size_bytes (vs ! k))"
    using off(2) unat_u32_less [of capacity] by (intro u32_add_exact) linarith
  moreover have "unat (p + s) = unat p + unat s" if "unat p + unat s \<le> unat capacity" for p s :: u32
    using that unat_u32_less [of capacity] by (intro u32_add_exact) linarith
  ultimately show ?thesis using free by (auto simp: apart_def word_less_nat_alt)
qed

lemma region_state_place:
  assumes "graph_of vs0 g" "region_state vs0 capacity S vs" "S \<subseteq> set (ig_vregs g)"
    and i: "i < length (ig_vregs g)" "k = ig_vregs g ! i" "k \<notin> S"
    and off: "if vr_first_def (vs ! k) < 0 then off = 0
      else \<not> physical_conflict vs g i off \<and> unat off + unat (vr_size_bytes (vs ! k)) \<le> unat capacity"
    and cap: "unat capacity + 16 < 4294967296"
  shows "region_state vs0 capacity (insert k S) (place_vreg k off vs)"
proof -
  let ?v = "(vs ! k)\<lparr>vr_physical_offset := off\<rparr>" and ?vs = "place_vreg k off vs"
  have s0: "map shape vs = map shape vs0" using assms(2) by (simp add: region_state_def)
  have "k < length vs0" using assms(1) i nth_mem unfolding graph_of_def by blast
  then have kl: "k < length vs" by (simp add: same_shapes(1) [OF s0])
  have at: "?vs ! k = ?v" "\<And>l. l \<noteq> k \<Longrightarrow> ?vs ! l = vs ! l" using kl by (simp_all add: place_vreg_def)
  have sh: "shape (vs ! k) = shape (vs0 ! k)" using same_shapes [OF s0] kl by simp
  have ap: "apart ?v (vs ! l)" if l: "l \<in> S" "live_overlap (vs0 ! k) (vs0 ! l)" for l
  proof (cases "vr_first_def (vs ! k) < 0")
    case True
    then show ?thesis using l(2) sh by (simp add: live_overlap_def shape_def)
  next
    case False
    then show ?thesis using no_conflict_apart [OF assms(1-3) i _ _ l] off by simp
  qed
  have "map shape ?vs = map shape vs0"
    using s0 by (simp add: place_vreg_def map_list_update_id shape_def)
  moreover have "settled capacity (?vs ! a)" if "a \<in> insert k S" for a
  proof (cases "a = k")
    case True
    have "off \<noteq> UINT32_MAX" if "0 \<le> vr_first_def (vs ! k)"
      using off cap that by auto
    then show ?thesis using off True at by (auto simp: settled_def inside_def split: if_splits)
  next
    case False
    then show ?thesis using assms(2) that at unfolding region_state_def by auto
  qed
  moreover have "spill_kept vs0 ?vs"
    using assms(2) spill_kept_trans [OF _ spill_kept_place] unfolding region_state_def by blast
  moreover have "vr_physical_offset (?vs ! a) = vr_physical_offset (vs0 ! a)"
    if "a < length ?vs" "a \<notin> insert k S" for a
    using assms(2) that unfolding region_state_def by (auto simp: at place_vreg_def)
  moreover have "apart (?vs ! a) (?vs ! b)"
    if "a \<in> insert k S" "b \<in> insert k S" "a \<noteq> b" "live_overlap (vs0 ! a) (vs0 ! b)" for a b
  proof -
    have "apart (vs ! a) (vs ! b)" if "a \<in> S" "b \<in> S"
      using that \<open>a \<noteq> b\<close> \<open>live_overlap (vs0 ! a) (vs0 ! b)\<close> assms(2) unfolding region_state_def by blast
    then show ?thesis
      using that i(3) ap [of b] ap [of a] live_overlap_sym [of "vs0 ! a" "vs0 ! b"] apart_sym [of ?v "vs ! a"]
      by (cases "a = k"; cases "b = k") (auto simp: at)
  qed
  ultimately show ?thesis unfolding region_state_def by blast
qed

lemma region_state_skip:
  assumes "region_state vs0 capacity S vs" "vr_physical_offset (vs ! k) = UINT32_MAX"
    "0 \<le> vr_first_def (vs ! k)" "vr_spilled (vs ! k)"
  shows "region_state vs0 capacity (insert k S) vs"
  using assms by (auto simp: region_state_def settled_def apart_def)

lemma color_loop_state:
  assumes "graph_of vs0 g" "lc_enable_spilling cfg" "unat capacity + 16 < 4294967296"
    and "region_state vs0 capacity S vs" "S \<subseteq> set (ig_vregs g)"
    and "distinct is" "set is \<subseteq> {..<length (ig_vregs g)}" "\<And>i. i \<in> set is \<Longrightarrow> ig_vregs g ! i \<notin> S"
  shows "\<exists>vs' a' b' c'. color_loop cfg g capacity is (vs, a, b, c) = Some (vs', a', b', c') \<and>
    region_state vs0 capacity (S \<union> (\<lambda>i. ig_vregs g ! i) ` set is) vs'"
  using assms(4-8)
proof (induction "is" arbitrary: vs S a b c)
  case Nil
  then show ?case by simp
next
  case (Cons i "is")
  let ?k = "ig_vregs g ! i"
  have s0: "map shape vs = map shape vs0" using Cons.prems(1) by (simp add: region_state_def)
  have i: "i < length (ig_vregs g)" using Cons.prems(4) by simp
  have inb: "set (ig_vregs g) \<subseteq> {..<length vs}" "S \<subseteq> {..<length vs0}"
    using assms(1) same_shapes(1) [OF s0] Cons.prems(2) unfolding graph_of_def by auto
  obtain vs1 a1 b1 c1 where c: "color_vreg cfg g capacity i (vs, a, b, c) = Some (vs1, a1, b1, c1)"
    "placed_by g capacity i vs vs1"
    using color_vreg_places [OF assms(2,3) inb(1) i] by metis
  have "region_state vs0 capacity (insert ?k S) vs1"
  proof -
    obtain vs2 where m: "marks_only vs vs2" and sk: "spill_kept vs vs2" and
      p: "vs1 = vs2 \<and> vr_spilled (vs2 ! ?k) \<and> 0 \<le> vr_first_def (vs ! ?k) \<or>
         (\<exists>off. vs1 = place_vreg ?k off vs2 \<and> (if vr_first_def (vs ! ?k) < 0 then off = 0
           else \<not> physical_conflict vs g i off \<and> unat off + unat (vr_size_bytes (vs ! ?k)) \<le> unat capacity))"
      using c(2) unfolding placed_by_def Let_def by blast
    note st = region_state_marks [OF Cons.prems(1) m inb(2) sk]
    have kl: "?k < length vs" using inb(1) i nth_mem by blast
    have sh: "vr_first_def (vs2 ! ?k) = vr_first_def (vs ! ?k)" "vr_size_bytes (vs2 ! ?k) = vr_size_bytes (vs ! ?k)"
      using shape_simps [OF marks_only_nth(2) [OF m kl]] by simp_all
    note pc = conflict_marks_only [OF m inb(1) i]
    have nk: "?k \<notin> S" using Cons.prems(5) by simp
    from p show ?thesis
    proof
      assume "vs1 = vs2 \<and> vr_spilled (vs2 ! ?k) \<and> 0 \<le> vr_first_def (vs ! ?k)"
      moreover have "vr_physical_offset (vs2 ! ?k) = UINT32_MAX"
        using st assms(1) i nk kl marks_only_nth(1) [OF m] unfolding region_state_def graph_of_def by simp
      ultimately show ?thesis using region_state_skip [OF st] sh(1) by simp
    next
      assume "\<exists>off. vs1 = place_vreg ?k off vs2 \<and> (if vr_first_def (vs ! ?k) < 0 then off = 0
           else \<not> physical_conflict vs g i off \<and> unat off + unat (vr_size_bytes (vs ! ?k)) \<le> unat capacity)"
      then show ?thesis using region_state_place [OF assms(1) st Cons.prems(2) i refl nk _ assms(3)] sh pc by auto
    qed
  qed
  moreover have "ig_vregs g ! j \<notin> insert ?k S" if "j \<in> set is" for j
    using that Cons.prems(3,4,5) i assms(1) unfolding graph_of_def by (auto simp: nth_eq_iff_index_eq)
  ultimately obtain vs' a' b' c' where "color_loop cfg g capacity is (vs1, a1, b1, c1) = Some (vs', a', b', c')"
    "region_state vs0 capacity (insert ?k S \<union> (\<lambda>i. ig_vregs g ! i) ` set is) vs'"
    using Cons.IH [where vs = vs1 and S = "insert ?k S" and a = a1 and b = b1 and c = c1] Cons.prems i by auto
  then show ?case using c(1) by auto
qed

section \<open>The three regions\<close>

definition usable_capacity :: "tu_live_config \<Rightarrow> tu_vreg_region \<Rightarrow> u32" where
  "usable_capacity cfg r = region_capacity cfg r - lc_safety_margin cfg"

text \<open>Every register of a region is settled, and any two are apart while they are live together.\<close>

definition region_sound :: "tu_live_config \<Rightarrow> tu_vreg_region \<Rightarrow> tu_vreg list \<Rightarrow> bool" where
  "region_sound cfg r vs \<longleftrightarrow>
     (\<forall>k < length vs. vr_region (vs ! k) = r \<longrightarrow> settled (usable_capacity cfg r) (vs ! k)) \<and>
     (\<forall>k < length vs. \<forall>l < length vs. vr_region (vs ! k) = r \<and> vr_region (vs ! l) = r \<and> k \<noteq> l \<and>
        live_overlap (vs ! k) (vs ! l) \<longrightarrow> apart (vs ! k) (vs ! l))"

definition moves_only :: "tu_vreg_region \<Rightarrow> tu_vreg list \<Rightarrow> tu_vreg list \<Rightarrow> bool" where
  "moves_only r vs vs' \<longleftrightarrow> map shape vs' = map shape vs \<and> spill_kept vs vs' \<and>
     (\<forall>k < length vs. vr_region (vs ! k) \<noteq> r \<longrightarrow> vr_physical_offset (vs' ! k) = vr_physical_offset (vs ! k))"

lemma moves_only_region:
  assumes "moves_only r vs vs'"
  shows "length vs' = length vs" "k < length vs \<Longrightarrow> shape (vs' ! k) = shape (vs ! k)"
    "k < length vs \<Longrightarrow> vr_region (vs ! k) \<noteq> r \<Longrightarrow> vr_physical_offset (vs' ! k) = vr_physical_offset (vs ! k)"
  using assms same_shapes [of vs' vs] by (simp_all add: moves_only_def)

lemma region_sound_moves:
  assumes "region_sound cfg s vs" "moves_only r vs vs'" "r \<noteq> s"
  shows "region_sound cfg s vs'"
proof -
  note m = moves_only_region [OF assms(2)]
  have k: "shape (vs' ! k) = shape (vs ! k) \<and> vr_region (vs' ! k) = vr_region (vs ! k) \<and>
      (vr_region (vs ! k) = s \<longrightarrow> vr_physical_offset (vs' ! k) = vr_physical_offset (vs ! k))"
    if "k < length vs" for k
    using m(2,3) [OF that] assms(3) shape_simps(1) by blast
  show ?thesis unfolding region_sound_def m(1)
  proof (intro conjI allI impI)
    fix k assume a: "k < length vs" "vr_region (vs' ! k) = s"
    then have "settled (usable_capacity cfg s) (vs ! k)"
      using k [OF a(1)] assms(1) unfolding region_sound_def by metis
    moreover have "vr_spilled (vs ! k) \<longrightarrow> vr_spilled (vs' ! k)"
      using assms(2) a(1) by (simp add: moves_only_def spill_kept_def)
    ultimately show "settled (usable_capacity cfg s) (vs' ! k)"
      using k [OF a(1)] a(2) settled_marks by metis
  next
    fix k l assume a: "k < length vs" "l < length vs"
      and o: "vr_region (vs' ! k) = s \<and> vr_region (vs' ! l) = s \<and> k \<noteq> l \<and> live_overlap (vs' ! k) (vs' ! l)"
    have "live_overlap (vs ! k) (vs ! l)"
      using o live_overlap_shape [of "vs' ! k" "vs ! k" "vs' ! l" "vs ! l"] k [OF a(1)] k [OF a(2)] by simp
    then have "apart (vs ! k) (vs ! l)" using assms(1) a o k [OF a(1)] k [OF a(2)] unfolding region_sound_def by metis
    then show "apart (vs' ! k) (vs' ! l)"
      using apart_marks [of "vs' ! k" "vs ! k" "vs' ! l" "vs ! l"] o k [OF a(1)] k [OF a(2)] by metis
  qed
qed

text \<open>The state between two regions: the registers analysed as \<open>A\<close>, those of \<open>R\<close> still unplaced.\<close>

definition pending :: "tu_vreg list \<Rightarrow> tu_vreg_region set \<Rightarrow> tu_liveness_result \<Rightarrow> bool" where
  "pending A R res \<longleftrightarrow> map shape (lr_vregs res) = map shape A \<and>
     (\<forall>r \<in> R. lr_graph res r = live_graph A r) \<and>
     (\<forall>k < length A. vr_region (A ! k) \<in> R \<longrightarrow> vr_physical_offset (lr_vregs res ! k) = UINT32_MAX)"

lemma live_graph_of:
  assumes "pending A R res" "r \<in> R" "region_ids A r \<noteq> []"
  shows "graph_of (lr_vregs res) (live_graph A r)"
proof -
  have s: "map shape (lr_vregs res) = map shape A" using assms(1) by (simp add: pending_def)
  note p = region_ids_props [of A r]
  have i: "region_ids A r ! a < length A \<and> vr_region (A ! (region_ids A r ! a)) = r" if "a < length (region_ids A r)" for a
    using nth_mem [OF that] unfolding p(3) by simp
  have lo: "live_overlap (lr_vregs res ! (region_ids A r ! a)) (lr_vregs res ! (region_ids A r ! b)) =
      live_overlap (A ! (region_ids A r ! a)) (A ! (region_ids A r ! b))"
    if "a < length (region_ids A r)" "b < length (region_ids A r)" for a b
    by (rule live_overlap_shape) (use same_shapes(2) [OF s] i [OF that(1)] i [OF that(2)] in auto)
  show ?thesis unfolding graph_of_def
    using assms p i lo same_shapes(1) [OF s] by (simp add: interference_entry pending_def subset_iff)
qed

text \<open>The sort finds its registers in order, so the matrix built before it stays aligned.\<close>

lemma region_sort_keeps:
  assumes "analyzed idx A" "map shape vs = map shape A"
  shows "sort_by_def (\<lambda>k. vr_first_def (vs ! k)) (region_ids A r) = region_ids A r"
proof (rule sort_by_def_sorted)
  fix a b assume ab: "a < b" "b < length (region_ids A r)"
  have "region_ids A r ! a < length A" "region_ids A r ! b < length A"
    using nth_mem [OF less_trans [OF ab]] nth_mem [OF ab(2)] unfolding region_ids_props(3) by simp_all
  then show "vr_first_def (vs ! (region_ids A r ! a)) \<le> vr_first_def (vs ! (region_ids A r ! b))"
    using region_ids_ascending [OF assms(1) ab] shape_simps(3) [OF same_shapes(2) [OF assms(2)]] by simp
qed

lemma color_region_places:
  assumes "analyzed idx A" "pending A R res" "r \<in> R"
    and cfg: "lc_enable_spilling cfg" "unat (usable_capacity cfg r) + 16 < 4294967296"
  shows "\<exists>res'. color_region cfg res r = Some res' \<and> moves_only r (lr_vregs res) (lr_vregs res') \<and>
    region_sound cfg r (lr_vregs res') \<and> pending A (R - {r}) res'"
proof -
  let ?g = "live_graph A r" and ?vs = "lr_vregs res"
  have s: "map shape ?vs = map shape A" and g: "lr_graph res r = ?g"
    using assms(2,3) by (simp_all add: pending_def)
  note sh = same_shapes [OF s] and ids = region_ids_props(3) [of A r]
  have reg: "vr_region (?vs ! k) = vr_region (A ! k)" if "k < length A" for k
    using sh(2) [OF that] by (rule shape_simps(1))
  show ?thesis
  proof (cases "region_ids A r = []")
    case True
    then have "color_region cfg res r = Some res" by (simp add: color_region_def g)
    moreover have "vr_region (A ! k) \<noteq> r" if "k < length A" for k using True ids that by auto
    ultimately show ?thesis using assms(2) reg sh(1)
      by (auto simp: moves_only_def region_sound_def pending_def)
  next
    case False
    let ?n = "length (region_ids A r)" and ?cap = "usable_capacity cfg r"
    have ge: "?g\<lparr>ig_vregs := region_ids A r\<rparr> = ?g" by (simp add: live_graph_def finish_graph_def False)
    note srt = region_sort_keeps [OF assms(1) s]
    have st: "region_state ?vs ?cap {} ?vs" by (simp add: region_state_def)
    have sub: "set [0..<?n] \<subseteq> {..<length (ig_vregs ?g)}" by auto
    obtain vs' a' b' c' where
      l: "color_loop cfg ?g ?cap [0..<?n] (?vs, lr_num_spills res, lr_spill_bytes res, 0) = Some (vs', a', b', c')"
      and st': "region_state ?vs ?cap ((\<lambda>i. region_ids A r ! i) ` set [0..<?n]) vs'"
      using color_loop_state [OF live_graph_of [OF assms(2,3) False] cfg st _ _ sub,
          of "lr_num_spills res" "lr_spill_bytes res" 0]
      by (simp del: set_upt) blast
    have S: "(\<lambda>i. region_ids A r ! i) ` set [0..<?n] = {k. k < length A \<and> vr_region (A ! k) = r}"
      using ids by (metis list.set_map map_nth)
    note rs = st' [unfolded S region_state_def]
    have sh': "length vs' = length A" "k < length A \<Longrightarrow> shape (vs' ! k) = shape (A ! k)" for k
      using rs s same_shapes [of vs' A] by auto
    have reg': "vr_region (vs' ! k) = vr_region (A ! k)" if "k < length A" for k
      using sh'(2) [OF that] by (rule shape_simps(1))
    have "live_overlap (vs' ! k) (vs' ! l) = live_overlap (?vs ! k) (?vs ! l)" if "k < length A" "l < length A" for k l
      by (rule live_overlap_shape) (simp_all add: sh' sh that)
    then have "region_sound cfg r vs'" using rs reg' sh'(1) unfolding region_sound_def by simp
    moreover have "moves_only r ?vs vs'" using rs reg sh'(1) sh(1) unfolding moves_only_def by simp
    moreover have "color_region cfg res r = Some (res\<lparr>lr_vregs := vs', lr_num_spills := a', lr_spill_bytes := b',
        lr_graph := (lr_graph res)(r := ?g\<lparr>ig_colored := (c' = 0), ig_num_physical_slots := of_nat ?n - c'\<rparr>)\<rparr>)"
      using l False by (simp add: color_region_def g srt ge Let_def usable_capacity_def)
    ultimately show ?thesis
      using assms(2) rs s sh'(1) sh(1) by (auto simp: pending_def)
  qed
qed

section \<open>The whole placement\<close>

lemma pending_start:
  assumes "analyzed idx (lr_vregs res0)" "lr_graph res0 = (\<lambda>r. graph_zero)"
  shows "pending (lr_vregs res0) UNIV (tu_live_build_interference res0)"
proof -
  have l: "length (lr_vregs res0) \<le> TU_LIVE_MAX_VREGS" using assms(1) by (simp add: analyzed_def)
  have "vr_physical_offset (lr_vregs res0 ! k) = UINT32_MAX" if "k < length (lr_vregs res0)" for k
    using assms(1) nth_mem [OF that] unfolding analyzed_def by blast
  then show ?thesis unfolding build_interference_graph [OF l assms(2)] by (simp add: pending_def)
qed

text \<open>
  C18. Take any list of unplaced virtual registers, ordered by definition in each region, as the
  analysis produces it. With spilling enabled and no usable capacity within 16 bytes of \<open>2^32\<close> the
  placement returns the same registers. Every register with a definition is then inside the usable
  capacity of its scratchpad, or unplaced and marked as spilled; any two of one scratchpad that both
  have a definition, that are live at a common instruction and that are placed occupy disjoint bytes.
  A register without a definition (\<open>first_def < 0\<close>, which the analysis makes for data used before any
  instruction of the program writes its scratchpad) is outside both promises: the code puts it at offset 0 with no
  test of the capacity and none of the other registers, and the theorem says just that.
\<close>

theorem allocation_never_overlaps:
  assumes "analyzed idx (lr_vregs res0)" "lr_graph res0 = (\<lambda>r. graph_zero)" "lc_enable_spilling cfg"
    and cap: "\<And>r. unat (usable_capacity cfg r) + 16 < 4294967296"
  shows "\<exists>res. tu_live_color (tu_live_build_interference res0) (Some cfg) = Some res \<and>
    map shape (lr_vregs res) = map shape (lr_vregs res0) \<and>
    (\<forall>r. region_sound cfg r (lr_vregs res))"
proof -
  let ?res = "tu_live_build_interference res0"
  note p = pending_start [OF assms(1,2)] and place = color_region_places [OF assms(1) _ _ assms(3) cap]
  obtain r1 where r1: "color_region cfg ?res TU_VREG_W = Some r1" "region_sound cfg TU_VREG_W (lr_vregs r1)"
    "moves_only TU_VREG_W (lr_vregs ?res) (lr_vregs r1)" "pending (lr_vregs res0) (UNIV - {TU_VREG_W}) r1"
    using place [OF p, of TU_VREG_W] by auto
  obtain r2 where r2: "color_region cfg r1 TU_VREG_A = Some r2" "region_sound cfg TU_VREG_A (lr_vregs r2)"
    "moves_only TU_VREG_A (lr_vregs r1) (lr_vregs r2)" "pending (lr_vregs res0) (UNIV - {TU_VREG_W} - {TU_VREG_A}) r2"
    using place [OF r1(4), of TU_VREG_A] by auto
  obtain r3 where r3: "color_region cfg r2 TU_VREG_O = Some r3" "region_sound cfg TU_VREG_O (lr_vregs r3)"
    "moves_only TU_VREG_O (lr_vregs r2) (lr_vregs r3)"
    using place [OF r2(4), of TU_VREG_O] by auto
  have "region_sound cfg TU_VREG_W (lr_vregs r3)"
    using region_sound_moves [OF region_sound_moves [OF r1(2) r2(3)] r3(3)] by simp
  moreover have "region_sound cfg TU_VREG_A (lr_vregs r3)" using region_sound_moves [OF r2(2) r3(3)] by simp
  ultimately have "region_sound cfg r (lr_vregs r3)" for r using r3(2) by (cases r) simp_all
  moreover have "map shape (lr_vregs r3) = map shape (lr_vregs res0)"
    using p r1(3) r2(3) r3(3) by (simp add: pending_def moves_only_def)
  ultimately show ?thesis using r1(1) r2(1) r3(1) by (auto simp: tu_live_color_def)
qed

section \<open>A store hides the value it stores\<close>

text \<open>
  Every opcode from layer normalisation upward counts as a definition of the output region, the DMA
  stores included, and a use extends the last definition, whatever range it covers.
\<close>

lemma store_defines:
  assumes "is_store_op (op_of i)"
  shows "\<exists>lo hi. extract_vreg_def i = Some (TU_VREG_O, lo, hi)" "extract_vreg_uses i 8 = [dma_range i]"
proof -
  have op: "op_of i = 0x51 \<or> op_of i = 0x54 \<or> op_of i = 0x56" using assms by (simp add: is_store_op_def)
  then show "\<exists>lo hi. extract_vreg_def i = Some (TU_VREG_O, lo, hi)"
    by (auto simp: extract_vreg_def_def is_load_op_def Let_def)
  show "extract_vreg_uses i 8 = [dma_range i]" using assms by (simp add: extract_vreg_uses_def)
qed

text \<open>
  A DMA store from the output scratchpad does not extend the live range of the value it stores:
  the analysis appends a register that the store itself defines and uses, and leaves every earlier
  register as it was, so a result that is only stored is dead right after it is computed.
\<close>

theorem store_hides_its_value:
  assumes "is_store_op (op_of i)" "fst (dma_range i) = TU_VREG_O" "length vs < TU_LIVE_MAX_VREGS" "0 \<le> idx"
  shows "\<exists>v. analyze_step idx i vs = vs @ [v] \<and> vr_region v = TU_VREG_O \<and> vr_first_def v = idx \<and> vr_last_use v = idx"
proof -
  obtain lo hi where d: "extract_vreg_def i = Some (TU_VREG_O, lo, hi)" using store_defines [OF assms(1)] by blast
  obtain lo' hi' where u: "dma_range i = (TU_VREG_O, lo', hi')" using assms(2) by (metis prod.collapse)
  have "last_defined (length (vs @ [v])) TU_VREG_O (vs @ [v]) = Some (length vs)"
    if "vr_region v = TU_VREG_O" "vr_first_def v = idx" for v
    using that assms(4) by simp
  then show ?thesis
    using assms(3) by (auto simp: analyze_step_def d store_defines(2) [OF assms(1)] u find_or_create_vreg_def new_vreg_def)
qed

section \<open>The rewritten program\<close>

lemma patch_read_keeps: "ins_opcode (patch_read idx i v) = ins_opcode i" "ins_flags (patch_read idx i v) = ins_flags i"
  by (simp_all add: patch_read_def set_dim0_def Let_def)

lemma patch_instruction_keeps:
  "ins_opcode (patch_instruction vs idx i) = ins_opcode i" "ins_flags (patch_instruction vs idx i) = ins_flags i"
proof -
  have "ins_opcode (foldl (patch_read idx) i vs) = ins_opcode i" "ins_flags (foldl (patch_read idx) i vs) = ins_flags i" for i
    by (induction vs arbitrary: i) (simp_all add: patch_read_keeps)
  then show "ins_opcode (patch_instruction vs idx i) = ins_opcode i" "ins_flags (patch_instruction vs idx i) = ins_flags i"
    by (simp_all add: patch_instruction_def patch_write_def set_dim0_def Let_def split: option.splits)
qed

lemma fills_bounded: "length out \<le> max_out - 1 \<Longrightarrow> length (foldl (fill_step idx) out vs) \<le> max_out - 1"
  by (rule foldl_invariant) (auto simp: fill_step_def)

lemma spills_bounded: "length out \<le> max_out \<Longrightarrow> length (foldl (spill_step idx) out vs) \<le> max_out"
  by (rule foldl_invariant) (auto simp: spill_step_def)

lemma apply_loop_bounded:
  "length out \<le> max_out \<Longrightarrow> length (fst (apply_loop vs idx instrs out usage peaks)) \<le> max_out"
proof (induction instrs arbitrary: idx out usage peaks)
  case (Cons i instrs)
  show ?case
  proof (cases "length out < max_out")
    case True
    then have "length (foldl (fill_step idx) out vs) \<le> max_out - 1" by (intro fills_bounded) simp
    then have "length (foldl (fill_step idx) out vs @ [patch_instruction vs idx i]) \<le> max_out"
      using True by simp
    then show ?thesis using True Cons.IH [OF spills_bounded] by (simp add: Let_def)
  qed (use Cons.prems in simp)
qed simp

lemma no_spill_steps:
  assumes "\<And>v. v \<in> set vs \<Longrightarrow> \<not> vr_spilled v"
  shows "foldl (fill_step idx) out vs = out" "foldl (spill_step idx) out vs = out"
  using assms by (induction vs) (simp_all add: fill_step_def spill_step_def)

lemma apply_loop_plain:
  assumes "\<And>v. v \<in> set vs \<Longrightarrow> \<not> vr_spilled v" "length out + length instrs \<le> max_out"
  shows "fst (apply_loop vs (int k) instrs out usage peaks) =
    out @ map (\<lambda>j. patch_instruction vs (int (k + j)) (instrs ! j)) [0..<length instrs]"
  using assms(2)
proof (induction instrs arbitrary: k out usage peaks)
  case (Cons i instrs)
  have "map (\<lambda>j. patch_instruction vs (int (k + j)) ((i # instrs) ! j)) [0..<length (i # instrs)] =
      patch_instruction vs (int k) i # map (\<lambda>j. patch_instruction vs (int (Suc k + j)) (instrs ! j)) [0..<length instrs]"
    by (simp only: length_Cons map_upt_Suc nth_Cons_0 nth_Cons_Suc add_0_right add_Suc_shift)
  then show ?case
    using Cons.IH [of "out @ [patch_instruction vs (int k) i]" "Suc k"] Cons.prems
    by (simp add: Let_def no_spill_steps [OF assms(1)] add.commute)
qed simp

text \<open>
  C28. Applying an allocation never writes past the 512 entries of the output; and when no register is
  spilled and the program fits them, the output is the program with operands patched: the same number
  of instructions, in order, with their opcodes and flags.
\<close>

theorem apply_keeps_program:
  shows "length (as_instructions (snd (tu_live_apply result instrs))) \<le> 512 \<and>
    ((\<forall>v \<in> set (lr_vregs result). \<not> vr_spilled v) \<and> length instrs \<le> 512 \<longrightarrow>
     map ins_opcode (as_instructions (snd (tu_live_apply result instrs))) = map ins_opcode instrs \<and>
     map ins_flags (as_instructions (snd (tu_live_apply result instrs))) = map ins_flags instrs)"
proof -
  let ?out = "fst (apply_loop (lr_vregs result) 0 instrs [] (0, 0, 0) (0, 0, 0))"
  have o: "as_instructions (snd (tu_live_apply result instrs)) = ?out"
    by (simp add: tu_live_apply_def split: prod.split)
  have m: "max_out = 512" by (simp add: TU_SCHED_MAX_INSTRS_def)
  have "length ?out \<le> 512" using apply_loop_bounded [of "[]" "lr_vregs result" 0 instrs] m by simp
  moreover have "map f ?out = map f instrs"
    if ns: "\<forall>v \<in> set (lr_vregs result). \<not> vr_spilled v" "length instrs \<le> 512"
      and f: "\<And>vs idx i. f (patch_instruction vs idx i) = f i" for f :: "tu_instruction \<Rightarrow> u8"
  proof -
    have "?out = map (\<lambda>j. patch_instruction (lr_vregs result) (int j) (instrs ! j)) [0..<length instrs]"
      using apply_loop_plain [of "lr_vregs result" "[]" instrs 0] ns m by simp
    then show ?thesis by (intro nth_equalityI) (simp_all add: f)
  qed
  ultimately show ?thesis unfolding o using patch_instruction_keeps by blast
qed

section \<open>Live ranges of an analysed program never meet\<close>

text \<open>Two registers of a region that instructions define: the first is dead before the second is defined.\<close>

definition ranges_apart :: "tu_vreg list \<Rightarrow> bool" where
  "ranges_apart vs \<longleftrightarrow> (\<forall>a b. a < b \<and> b < length vs \<and> vr_region (vs ! a) = vr_region (vs ! b) \<and>
     0 \<le> vr_first_def (vs ! a) \<and> 0 \<le> vr_first_def (vs ! b) \<longrightarrow> vr_last_use (vs ! a) < vr_first_def (vs ! b))"

definition used_before :: "int \<Rightarrow> tu_vreg list \<Rightarrow> bool" where
  "used_before idx vs \<longleftrightarrow> (\<forall>v \<in> set vs. vr_last_use v < idx)"

lemma used_before_mono: "used_before idx vs \<Longrightarrow> idx \<le> idx' \<Longrightarrow> used_before idx' vs"
  by (force simp: used_before_def)

lemma ranges_apart_append:
  assumes "ranges_apart vs" "used_before idx vs" "0 \<le> vr_first_def v \<Longrightarrow> vr_first_def v = idx"
  shows "ranges_apart (vs @ [v])"
  unfolding ranges_apart_def
proof (intro allI impI)
  fix a b
  assume h: "a < b \<and> b < length (vs @ [v]) \<and> vr_region ((vs @ [v]) ! a) = vr_region ((vs @ [v]) ! b) \<and>
    0 \<le> vr_first_def ((vs @ [v]) ! a) \<and> 0 \<le> vr_first_def ((vs @ [v]) ! b)"
  show "vr_last_use ((vs @ [v]) ! a) < vr_first_def ((vs @ [v]) ! b)"
  proof (cases "b = length vs")
    case True
    then have "vs ! a \<in> set vs" using h by simp
    then show ?thesis using True h assms(2,3) by (simp add: nth_append used_before_def)
  next
    case False
    then show ?thesis using h assms(1) unfolding ranges_apart_def by (auto simp: nth_append)
  qed
qed

lemma apart_define:
  assumes "ranges_apart vs" "used_before idx vs"
  shows "ranges_apart (find_or_create_vreg vs region lo hi idx True)"
    "used_before (idx + 1) (find_or_create_vreg vs region lo hi idx True)"
  using assms ranges_apart_append [OF assms] used_before_mono [OF assms(2), of "idx + 1"]
  by (auto simp: find_or_create_vreg_def new_vreg_def) (simp add: used_before_def)

lemma apart_use:
  assumes "ranges_apart vs" "used_before (idx + 1) vs"
  shows "ranges_apart (find_or_create_vreg vs region lo hi idx False) \<and>
    used_before (idx + 1) (find_or_create_vreg vs region lo hi idx False)"
proof (cases "last_defined (length vs) region vs")
  case None
  have "used_before (idx + 1) (vs @ [new_vreg vs region lo hi (- 1) idx])"
    using assms(2) by (simp add: new_vreg_def used_before_def)
  moreover have "ranges_apart (vs @ [new_vreg vs region lo hi (- 1) idx])"
    by (rule ranges_apart_append [OF assms]) (simp add: new_vreg_def)
  ultimately show ?thesis using None assms by (simp add: find_or_create_vreg_def)
next
  case (Some k)
  let ?v = "(vs ! k)\<lparr>vr_last_use := (if idx > vr_last_use (vs ! k) then idx else vr_last_use (vs ! k)),
                    vr_access_count := vr_access_count (vs ! k) + 1\<rparr>"
  note k = last_defined_some [OF Some]
  have later: "vr_first_def (vs ! b) < 0" if "k < b" "b < length vs" "vr_region (vs ! b) = region" for b
  proof -
    have "last_defined n region vs = Some k \<Longrightarrow> k < b \<Longrightarrow> b < n \<Longrightarrow> vr_first_def (vs ! b) < 0" for n
      using that(3) by (induction n) (auto split: if_splits simp: less_Suc_eq dest: last_defined_some)
    then show ?thesis using Some that by blast
  qed
  have at: "vs[k := ?v] ! a = (if a = k then ?v else vs ! a)" if "a < length vs" for a
    using that k by simp
  have "ranges_apart (vs[k := ?v])" unfolding ranges_apart_def
  proof (intro allI impI)
    fix a b
    assume h: "a < b \<and> b < length (vs[k := ?v]) \<and> vr_region (vs[k := ?v] ! a) = vr_region (vs[k := ?v] ! b) \<and>
      0 \<le> vr_first_def (vs[k := ?v] ! a) \<and> 0 \<le> vr_first_def (vs[k := ?v] ! b)"
    then have l: "a < length vs" "b < length vs" "a < b" by auto
    have f: "vr_first_def (vs[k := ?v] ! c) = vr_first_def (vs ! c)" "vr_region (vs[k := ?v] ! c) = vr_region (vs ! c)"
      if "c < length vs" for c using at [OF that] by simp_all
    have "a \<noteq> k"
      using h later [of b] k l f [OF l(1)] f [OF l(2)] by force
    then show "vr_last_use (vs[k := ?v] ! a) < vr_first_def (vs[k := ?v] ! b)"
      using assms(1) h l f [OF l(1)] f [OF l(2)] at [OF l(1)] unfolding ranges_apart_def by simp
  qed
  moreover have "used_before (idx + 1) (vs[k := ?v])" unfolding used_before_def
  proof
    fix v assume "v \<in> set (vs[k := ?v])"
    then have "v = ?v \<or> v \<in> set vs" using set_update_subset_insert by fast
    moreover have "vs ! k \<in> set vs" using k by simp
    ultimately show "vr_last_use v < idx + 1" using assms(2) by (auto simp: used_before_def)
  qed
  ultimately show ?thesis using Some by (simp add: find_or_create_vreg_def)
qed

lemma apart_step:
  assumes "ranges_apart vs" "used_before idx vs"
  shows "ranges_apart (analyze_step idx i vs) \<and> used_before (idx + 1) (analyze_step idx i vs)"
proof -
  let ?vs = "case extract_vreg_def i of Some (region, lo, hi) \<Rightarrow> find_or_create_vreg vs region lo hi idx True | None \<Rightarrow> vs"
  have "ranges_apart ?vs \<and> used_before (idx + 1) ?vs"
    using apart_define [OF assms] used_before_mono [OF assms(2), of "idx + 1"] assms(1) by (auto split: option.splits)
  then show ?thesis unfolding analyze_step_def Let_def
    by (rule foldl_invariant) (auto dest: apart_use)
qed

lemma apart_loop:
  "ranges_apart vs \<Longrightarrow> used_before idx vs \<Longrightarrow> ranges_apart (analyze_loop idx is vs)"
  by (induction "is" arbitrary: idx vs) (simp_all add: apart_step)

lemma analyzed_apart:
  assumes "tu_live_analyze instrs old = (0, res0)" shows "ranges_apart (lr_vregs res0)"
proof -
  have "lr_vregs res0 = analyze_loop 0 instrs []"
    using assms by (auto simp: tu_live_analyze_def split: if_splits)
  then show ?thesis using apart_loop [of "[]" 0 instrs] by (simp add: ranges_apart_def used_before_def)
qed

lemma ranges_apart_no_overlap:
  assumes "ranges_apart vs" "k < length vs" "l < length vs" "k \<noteq> l" "vr_region (vs ! k) = vr_region (vs ! l)"
  shows "\<not> live_overlap (vs ! k) (vs ! l)"
proof -
  have "\<not> live_overlap (vs ! a) (vs ! b)" if "a < b" "b < length vs" "vr_region (vs ! a) = vr_region (vs ! b)" for a b
    using assms(1) that unfolding ranges_apart_def live_overlap_def by force
  then show ?thesis using assms live_overlap_sym by (metis linorder_neqE_nat)
qed

section \<open>Every register goes to offset 0\<close>

abbreviation at_zero :: "tu_vreg list \<Rightarrow> bool" where
  "at_zero vs \<equiv> vr_physical_offset ` set vs \<subseteq> {0, UINT32_MAX}"

lemma at_zero_marks: "marks_only vs vs' \<Longrightarrow> at_zero vs \<Longrightarrow> at_zero vs'"
  unfolding marks_only_def by (drule arg_cong [of _ _ "\<lambda>xs. snd ` set xs"]) (simp add: image_comp comp_def)

lemma at_zero_place: "at_zero vs \<Longrightarrow> at_zero (place_vreg k 0 vs)"
  using set_update_subset_insert [of vs k] unfolding place_vreg_def by fastforce

lemma color_vreg_at_zero:
  assumes "at_zero vs" and free: "\<And>off vs'. marks_only vs vs' \<Longrightarrow> \<not> physical_conflict vs' g i off"
  shows "\<exists>vs' a' b' c'. color_vreg cfg g capacity i (vs, a, b, c) = Some (vs', a', b', c') \<and> at_zero vs' \<and>
    map shape vs' = map shape vs"
proof -
  let ?k = "ig_vregs g ! i"
  have fit: "first_fit (physical_conflict vs' g i) sz cap step 0 = Some (if sz \<le> cap then Some 0 else None)"
    if "marks_only vs vs'" for vs' sz cap step
    using free [OF that] by (subst first_fit.simps) simp
  have shm: "map shape vs' = map shape vs" if "marks_only vs vs'" for vs'
    using marks_only_nth [OF that] by (intro nth_equalityI) simp_all
  have shp: "map shape (place_vreg ?k p vs') = map shape vs'" for p vs'
    by (simp add: place_vreg_def map_list_update_id shape_def)
  have put: "at_zero (place_vreg ?k 0 vs') \<and> map shape (place_vreg ?k 0 vs') = map shape vs" if "marks_only vs vs'" for vs'
    using at_zero_place [OF at_zero_marks [OF that assms(1)]] shp shm [OF that] by simp
  define vic where "vic = select_spill_victim vs g (lc_spill_strategy cfg)"
  define evict where "evict \<longleftrightarrow> vic < length (ig_vregs g) \<and> \<not> vr_spilled (vs ! (ig_vregs g ! vic))"
  obtain vs1 a1 b1 where s1: "(if evict then spill_vreg (ig_vregs g ! vic) (vs, a, b) else (vs, a, b)) = (vs1, a1, b1)"
    by (metis surj_pair)
  have m1: "marks_only vs vs1" using s1 by (auto split: if_splits dest: marks_only_spill)
  obtain vs2 a2 b2 where s2: "spill_vreg ?k (vs1, a1, b1) = (vs2, a2, b2)" by (metis surj_pair)
  have m2: "marks_only vs vs2" using marks_only_spill [OF s2] m1 marks_only_trans by blast
  show ?thesis
  proof (cases "vr_first_def (vs ! ?k) < 0 \<or> vr_size_bytes (vs ! ?k) \<le> capacity \<or> \<not> lc_enable_spilling cfg")
    case True
    then have "color_vreg cfg g capacity i (vs, a, b, c) = Some (place_vreg ?k 0 vs, a, b, c)"
      by (auto simp: color_vreg_def Let_def fit)
    then show ?thesis using put [OF marks_only_refl] by blast
  next
    case False
    then have "color_vreg cfg g capacity i (vs, a, b, c) = Some (vs2, a2, b2, c + 1)"
      unfolding color_vreg_def using s1 s2
      by (simp add: Let_def fit m1 vic_def [symmetric] evict_def [symmetric] split: if_splits)
    then show ?thesis using at_zero_marks [OF m2 assms(1)] shm [OF m2] by blast
  qed
qed

lemma color_loop_at_zero:
  assumes "at_zero vs" "map shape vs = map shape A"
    and "\<And>off vs' i. map shape vs' = map shape A \<Longrightarrow> i \<in> set is \<Longrightarrow> \<not> physical_conflict vs' g i off"
  shows "\<exists>vs' a' b' c'. color_loop cfg g capacity is (vs, a, b, c) = Some (vs', a', b', c') \<and> at_zero vs' \<and>
    map shape vs' = map shape A"
  using assms
proof (induction "is" arbitrary: vs a b c)
  case (Cons i "is")
  have "\<not> physical_conflict vs' g i off" if "marks_only vs vs'" for off vs'
  proof -
    have "map shape vs' = map shape vs" using marks_only_nth [OF that] by (intro nth_equalityI) simp_all
    then show ?thesis using Cons.prems(2,3) by simp
  qed
  then obtain vs1 a1 b1 c1 where c: "color_vreg cfg g capacity i (vs, a, b, c) = Some (vs1, a1, b1, c1)" "at_zero vs1"
    "map shape vs1 = map shape vs"
    using color_vreg_at_zero [OF Cons.prems(1)] by metis
  then have "\<exists>vs' a' b' c'. color_loop cfg g capacity is (vs1, a1, b1, c1) = Some (vs', a', b', c') \<and> at_zero vs' \<and>
      map shape vs' = map shape A"
    using Cons.prems by (intro Cons.IH) simp_all
  then show ?case using c(1) by simp
qed simp

lemma color_region_at_zero:
  assumes "analyzed idx A" "ranges_apart A" "map shape (lr_vregs res) = map shape A" "at_zero (lr_vregs res)"
    and "lr_graph res r = live_graph A r"
  shows "\<exists>res'. color_region cfg res r = Some res' \<and> map shape (lr_vregs res') = map shape A \<and>
    at_zero (lr_vregs res') \<and> (\<forall>s. s \<noteq> r \<longrightarrow> lr_graph res' s = lr_graph res s)"
proof (cases "region_ids A r = []")
  case True
  then show ?thesis using assms by (simp add: color_region_def)
next
  case False
  let ?g = "live_graph A r" and ?ids = "region_ids A r"
  have ge: "?g\<lparr>ig_vregs := ?ids\<rparr> = ?g" by (simp add: live_graph_def finish_graph_def False)
  note srt = region_sort_keeps [OF assms(1,3)]
  have free: "\<not> physical_conflict vs' ?g i off" if "i \<in> set [0..<length ?ids]" for off vs' i
  proof -
    have id: "?ids ! a < length A \<and> vr_region (A ! (?ids ! a)) = r" if "a < length ?ids" for a
      using nth_mem [OF that] unfolding region_ids_props(3) by simp
    have "\<not> ig_interference ?g ! (i * length ?ids + j)" if j: "j < length ?ids" for j
    proof (cases "i = j")
      case True
      then show ?thesis using j by (simp add: False interference_entry)
    next
      case neq: False
      have i: "i < length ?ids" using \<open>i \<in> _\<close> by simp
      have "?ids ! i \<noteq> ?ids ! j" using neq i j region_ids_props(1) nth_eq_iff_index_eq by blast
      then have "\<not> live_overlap (A ! (?ids ! i)) (A ! (?ids ! j))"
        using id [OF i] id [OF j] by (intro ranges_apart_no_overlap [OF assms(2)]) simp_all
      then show ?thesis using i j by (simp add: False interference_entry)
    qed
    then show ?thesis by (auto simp: physical_conflict_def list_ex_iff conflicts_with_def Let_def)
  qed
  obtain vs' a' b' c' where
    l: "color_loop cfg ?g (region_capacity cfg r - lc_safety_margin cfg) [0..<length ?ids]
          (lr_vregs res, lr_num_spills res, lr_spill_bytes res, 0) = Some (vs', a', b', c')"
    "at_zero vs'" "map shape vs' = map shape A"
    using color_loop_at_zero [OF assms(4,3) free, of "[0..<length ?ids]"] by metis
  then show ?thesis using False by (simp add: color_region_def assms(5) srt ge Let_def)
qed

text \<open>
  C29. The allocator puts every register at offset 0. In an analysed program no two live ranges of a
  scratchpad ever meet, because a use always extends the last definition; so the placement finds no
  conflict, returns under every configuration, and each register either gets offset 0 of its
  scratchpad or stays unplaced.
\<close>

theorem analysed_registers_at_zero:
  assumes "tu_live_analyze instrs old = (0, res0)"
  shows "\<exists>res. tu_live_color (tu_live_build_interference res0) cfg = Some res \<and>
    vr_physical_offset ` set (lr_vregs res) \<subseteq> {0, UINT32_MAX}"
proof -
  let ?A = "lr_vregs res0" and ?cfg = "case cfg of Some c \<Rightarrow> c | None \<Rightarrow> tu_live_config_default"
  note a = analyzed_result [OF assms] and ap = analyzed_apart [OF assms]
  have l: "length ?A \<le> TU_LIVE_MAX_VREGS" and z: "at_zero ?A" using a(1) by (auto simp: analyzed_def)
  have g: "tu_live_build_interference res0 = res0\<lparr>lr_graph := live_graph ?A\<rparr>"
    by (rule build_interference_graph [OF l a(2)])
  note step = color_region_at_zero [OF a(1) ap, of _ _ ?cfg]
  obtain r1 where r1: "color_region ?cfg (tu_live_build_interference res0) TU_VREG_W = Some r1"
    "map shape (lr_vregs r1) = map shape ?A" "at_zero (lr_vregs r1)" "\<And>s. s \<noteq> TU_VREG_W \<Longrightarrow> lr_graph r1 s = live_graph ?A s"
    using step [of "tu_live_build_interference res0" TU_VREG_W] z by (auto simp: g)
  obtain r2 where r2: "color_region ?cfg r1 TU_VREG_A = Some r2"
    "map shape (lr_vregs r2) = map shape ?A" "at_zero (lr_vregs r2)" "lr_graph r2 TU_VREG_O = live_graph ?A TU_VREG_O"
    using step [OF r1(2,3), of TU_VREG_A] r1(4) by auto
  show ?thesis
    using step [OF r2(2,3), of TU_VREG_O] r1(1) r2(1,4) by (auto simp: tu_live_color_def Let_def)
qed

section \<open>Witnesses\<close>

definition two_tiles :: "tu_vreg list" where
  "two_tiles = [\<lparr>vr_id = 1, vr_region = TU_VREG_W, vr_size_bytes = 100, vr_first_def = 0, vr_last_use = 3,
      vr_spilled = False, vr_spill_slot = 0, vr_access_count = 1, vr_physical_offset = UINT32_MAX\<rparr>,
    \<lparr>vr_id = 2, vr_region = TU_VREG_W, vr_size_bytes = 50, vr_first_def = 1, vr_last_use = 2,
      vr_spilled = False, vr_spill_slot = 0, vr_access_count = 1, vr_physical_offset = UINT32_MAX\<rparr>]"

text \<open>The same two behind a register that is only used, larger than any scratchpad.\<close>

definition with_preloaded :: "tu_vreg list" where
  "with_preloaded = \<lparr>vr_id = 3, vr_region = TU_VREG_W, vr_size_bytes = 4000000000, vr_first_def = -1, vr_last_use = 3,
      vr_spilled = False, vr_spill_slot = 0, vr_access_count = 1, vr_physical_offset = UINT32_MAX\<rparr> # two_tiles"

theorem allocation_never_overlaps_witness:
  "live_overlap (with_preloaded ! 1) (with_preloaded ! 2) \<and>
   (\<exists>res. tu_live_color (tu_live_build_interference (liveness_zero\<lparr>lr_vregs := with_preloaded\<rparr>))
        (Some tu_live_config_default) = Some res \<and>
      region_sound tu_live_config_default TU_VREG_W (lr_vregs res) \<and>
      vr_physical_offset (lr_vregs res ! 0) = 0 \<and>
      \<not> inside (usable_capacity tu_live_config_default TU_VREG_W) (lr_vregs res ! 0))"
proof
  show "live_overlap (with_preloaded ! 1) (with_preloaded ! 2)"
    by (simp add: live_overlap_def with_preloaded_def two_tiles_def)
  let ?r = "liveness_zero\<lparr>lr_vregs := with_preloaded\<rparr>" and ?c = tu_live_config_default
  have pair: "a < b \<and> b < 3 \<Longrightarrow> (a, b) = (0, 1) \<or> (a, b) = (0, 2) \<or> (a, b) = (1, 2)" for a b :: nat by auto
  have a: "analyzed 3 (lr_vregs ?r)"
    unfolding analyzed_def
  proof (intro conjI allI impI)
    fix a b assume "a < b \<and> b < length (lr_vregs ?r) \<and> vr_region (lr_vregs ?r ! a) = vr_region (lr_vregs ?r ! b)"
    then have "(a, b) = (0, 1) \<or> (a, b) = (0, 2) \<or> (a, b) = (1, 2)"
      using pair by (simp add: with_preloaded_def two_tiles_def)
    then show "vr_first_def (lr_vregs ?r ! a) \<le> vr_first_def (lr_vregs ?r ! b)"
      by (auto simp: with_preloaded_def two_tiles_def)
  qed (simp_all add: with_preloaded_def two_tiles_def TU_LIVE_MAX_VREGS_def)
  have u: "unat (usable_capacity ?c r) + 16 < 4294967296" for r
    by (cases r) (simp_all add: usable_capacity_def region_capacity_def tu_live_config_default_def)
  have g: "lr_graph ?r = (\<lambda>r. graph_zero)" by (simp add: liveness_zero_def)
  have c: "lc_enable_spilling ?c" by (simp add: tu_live_config_default_def)
  obtain res where res: "tu_live_color (tu_live_build_interference ?r) (Some ?c) = Some res"
    "map shape (lr_vregs res) = map shape with_preloaded" "region_sound ?c TU_VREG_W (lr_vregs res)"
    using allocation_never_overlaps [OF a g c u] by auto
  have v: "shape (lr_vregs res ! 0) = (TU_VREG_W, 4000000000, -1, 3)" "0 < length (lr_vregs res)"
    using same_shapes [OF res(2)] by (simp_all add: with_preloaded_def two_tiles_def shape_def)
  then have "vr_physical_offset (lr_vregs res ! 0) = 0"
    using res(3) unfolding region_sound_def settled_def shape_def by (auto split: if_splits)
  moreover have "\<not> inside (usable_capacity ?c TU_VREG_W) (lr_vregs res ! 0)"
    using v by (simp add: inside_def shape_def usable_capacity_def region_capacity_def tu_live_config_default_def)
  ultimately show "\<exists>res. tu_live_color (tu_live_build_interference ?r) (Some ?c) = Some res \<and>
      region_sound ?c TU_VREG_W (lr_vregs res) \<and> vr_physical_offset (lr_vregs res ! 0) = 0 \<and>
      \<not> inside (usable_capacity ?c TU_VREG_W) (lr_vregs res ! 0)"
    using res(1,3) by blast
qed

definition store_o :: "u16 \<Rightarrow> tu_instruction" where
  "store_o off = \<lparr>ins_opcode = 0x51, ins_flags = 2, ins_dim0 = off, ins_dim1 = 64, ins_dim2 = 0, ins_immediates = 0\<rparr>"

definition mma_o :: "u32 \<Rightarrow> tu_instruction" where
  "mma_o off = \<lparr>ins_opcode = 0x10, ins_flags = 0, ins_dim0 = 4, ins_dim1 = 4, ins_dim2 = 4, ins_immediates = push_bit 16 off\<rparr>"

theorem store_hides_its_value_witness:
  "\<exists>v. analyze_step 1 (store_o 0) two_tiles = two_tiles @ [v] \<and> vr_region v = TU_VREG_O \<and> vr_first_def v = 1 \<and> vr_last_use v = 1"
proof (rule store_hides_its_value)
  show "is_store_op (op_of (store_o 0))" "fst (dma_range (store_o 0)) = TU_VREG_O" by code_simp+
qed (simp_all add: two_tiles_def TU_LIVE_MAX_VREGS_def)

text \<open>Two results computed side by side and stored afterwards share offset 0.\<close>

theorem analysed_registers_at_zero_witness:
  "\<exists>res. tu_live_color (tu_live_build_interference
      (snd (tu_live_analyze [mma_o 0, mma_o 1024, store_o 0, store_o 1024] liveness_zero))) None = Some res \<and>
    vr_physical_offset ` set (lr_vregs res) \<subseteq> {0, UINT32_MAX}"
  by (rule analysed_registers_at_zero [of "[mma_o 0, mma_o 1024, store_o 0, store_o 1024]" liveness_zero])
    (simp add: tu_live_analyze_def)

theorem apply_keeps_program_witness:
  "map ins_opcode (as_instructions (snd (tu_live_apply (liveness_zero\<lparr>lr_vregs := two_tiles\<rparr>) [mma_o 0, store_o 0])))
    = [0x10, 0x51]"
  using apply_keeps_program [of "liveness_zero\<lparr>lr_vregs := two_tiles\<rparr>" "[mma_o 0, store_o 0]"]
  by (simp add: two_tiles_def mma_o_def store_o_def)

end
