(* ===== verification/Command_Queue.thy ===== *)
theory Command_Queue
  imports Prelude Isa
begin

text \<open>
  The command queue of \<open>command_queue.h\<close> and \<open>command_queue.c\<close>: command descriptors with
  dependencies and barriers, submission, the scan of \<open>tu_cmdq_tick\<close>, the two waiting loops, and
  the dispatch of a command to the execution units.

  The queue does not look at what the execution units do (it discards their results), so a
  dispatched command is recorded as the call it makes, in order, in the field \<open>engine_log\<close>: the
  effect on the rest of the simulator is that sequence of calls.  A pointer argument that may be
  \<open>NULL\<close> is an option; the queue pointer itself is taken to be valid.  The operand union is a
  datatype, zeroed (\<open>Op_none\<close>) when no descriptor was given.  The loops of \<open>tu_cmdq_wait\<close> and
  \<open>tu_cmdq_sync\<close> need not end: they are partial functions whose value \<open>None\<close> is divergence.
\<close>

section \<open>Data\<close>

datatype tu_cmd_status = TU_CMD_PENDING | TU_CMD_ISSUED | TU_CMD_COMPLETED | TU_CMD_FAULTED

record completion_signal =
  sig_id :: u32
  fired :: bool
  sig_cycle_completed :: u64

record cmd_dma_desc =
  channel :: u8
  is_store :: bool
  dma_sram_offset :: u32
  size_bytes :: u32
  host_ptr :: u64

record cmd_mma_desc =
  mma_M :: u16
  mma_N :: u16
  mma_K :: u16
  w_offset :: u32
  a_offset :: u32
  o_offset :: u32
  has_bias :: bool

text \<open>A scalar operand is the bit pattern of its \<open>float\<close>.\<close>

record cmd_ew_desc =
  ew_sram_offset :: u32
  elem_count :: u32
  num_ops :: u8
  ew_ops :: "u8 list"
  scalars :: "u32 list"
  has_scalar :: "bool list"
  sram_region :: u8

datatype cmd_op = Op_none | Op_dma cmd_dma_desc | Op_mma cmd_mma_desc | Op_ew cmd_ew_desc

record command =
  cmd_id :: u32
  cmd_opcode :: tu_isa_opcode
  cmd_status :: tu_cmd_status
  cmd_operand :: cmd_op
  dep_ids :: "u32 list"
  signal_id :: u32
  cycle_submitted :: u64
  cycle_completed :: u64
  is_barrier :: bool

text \<open>One operation of a fused elementwise chain (\<open>tu_ew_op_t\<close>).\<close>

record ew_op =
  ew_opcode :: u8
  ew_scalar :: u32
  ew_has_scalar :: bool

datatype sram_select = Sram_O | Sram_W | Sram_A

text \<open>The calls \<open>execute_command\<close> makes on the execution units.\<close>

datatype engine_call =
    Dma_store_o u64 u32 u32
  | Dma_load_w u64 u32 u32
  | Dma_load_a u64 u32 u32
  | Dma_load_o u64 u32 u32
  | Mma u16 u16 u16 u32 u32 u32 bool
  | Core_sync
  | Ew_apply_fused sram_select u32 u32 "ew_op list" u8

record cmdq =
  commands :: "command list"
  capacity :: u32
  head :: u32
  tail :: u32
  cnt :: u32
  next_cmd_id :: u32
  next_signal_id :: u32
  total_submitted :: u64
  total_completed :: u64
  total_faulted :: u64
  signals :: "completion_signal list"
  signal_count :: u32
  last_barrier_id :: u32
  current_cycle :: u64
  synchronous :: bool
  engine_log :: "engine_call list"

section \<open>Operands\<close>

text \<open>Reading the union through the member the opcode selects: the bytes are zero when the
  submitter passed no descriptor.\<close>

definition dma_operand :: "cmd_op \<Rightarrow> cmd_dma_desc" where
  "dma_operand opd = (case opd of
     Op_dma d \<Rightarrow> d
   | _ \<Rightarrow> \<lparr>channel = 0, is_store = False, dma_sram_offset = 0, size_bytes = 0, host_ptr = 0\<rparr>)"

definition mma_operand :: "cmd_op \<Rightarrow> cmd_mma_desc" where
  "mma_operand opd = (case opd of
     Op_mma d \<Rightarrow> d
   | _ \<Rightarrow> \<lparr>mma_M = 0, mma_N = 0, mma_K = 0, w_offset = 0, a_offset = 0, o_offset = 0,
          has_bias = False\<rparr>)"

definition ew_operand :: "cmd_op \<Rightarrow> cmd_ew_desc" where
  "ew_operand opd = (case opd of
     Op_ew d \<Rightarrow> d
   | _ \<Rightarrow> \<lparr>ew_sram_offset = 0, elem_count = 0, num_ops = 0, ew_ops = replicate 8 0,
          scalars = replicate 4 0, has_scalar = replicate 4 False, sram_region = 0\<rparr>)"

text \<open>The operand copy of \<open>tu_cmdq_submit\<close>: only these opcodes have an operand, and its C type is
  the one the opcode implies.\<close>

definition copy_operand :: "tu_isa_opcode \<Rightarrow> cmd_op option \<Rightarrow> cmd_op" where
  "copy_operand opcode op_desc = (case op_desc of
     None \<Rightarrow> Op_none
   | Some d \<Rightarrow>
      (case opcode of
         TU_ISA_DMA_LOAD \<Rightarrow> Op_dma (dma_operand d)
       | TU_ISA_DMA_STORE \<Rightarrow> Op_dma (dma_operand d)
       | TU_ISA_MMA \<Rightarrow> Op_mma (mma_operand d)
       | TU_ISA_ELEMENTWISE \<Rightarrow> Op_ew (ew_operand d)
       | _ \<Rightarrow> Op_none))"

section \<open>Dispatch\<close>

abbreviation TU_EW_MAX_OPS :: nat where "TU_EW_MAX_OPS \<equiv> 8"

text \<open>The loop that unpacks the fused operations: a scalar is consumed, and the scalar index
  advanced, only when the flag at the scalar index is set.\<close>

fun build_ew_ops :: "cmd_ew_desc \<Rightarrow> nat \<Rightarrow> nat \<Rightarrow> nat \<Rightarrow> ew_op list" where
  "build_ew_ops d i scalar_idx 0 = []"
| "build_ew_ops d i scalar_idx (Suc k) =
    (if scalar_idx < 4 \<and> has_scalar d ! scalar_idx
     then \<lparr>ew_opcode = ew_ops d ! i, ew_scalar = scalars d ! scalar_idx, ew_has_scalar = True\<rparr>
          # build_ew_ops d (Suc i) (Suc scalar_idx) k
     else \<lparr>ew_opcode = ew_ops d ! i, ew_scalar = 0, ew_has_scalar = False\<rparr>
          # build_ew_ops d (Suc i) scalar_idx k)"

definition ew_chain :: "cmd_ew_desc \<Rightarrow> ew_op list" where
  "ew_chain d = build_ew_ops d 0 0 (min (unat (num_ops d)) TU_EW_MAX_OPS)"

definition ew_region :: "u8 \<Rightarrow> sram_select" where
  "ew_region r = (if r = 1 then Sram_W else if r = 2 then Sram_A else Sram_O)"

definition dma_load_call :: "cmd_dma_desc \<Rightarrow> engine_call" where
  "dma_load_call d =
    (if is_store d then Dma_store_o (host_ptr d) (dma_sram_offset d) (size_bytes d)
     else if channel d = 0 then Dma_load_w (host_ptr d) (dma_sram_offset d) (size_bytes d)
     else if channel d = 1 then Dma_load_a (host_ptr d) (dma_sram_offset d) (size_bytes d)
     else Dma_load_o (host_ptr d) (dma_sram_offset d) (size_bytes d))"

text \<open>The \<open>switch\<close> of \<open>execute_command\<close>: the calls an opcode makes, \<open>None\<close> for the default branch
  that faults the command.\<close>

definition dispatch :: "tu_isa_opcode \<Rightarrow> cmd_op \<Rightarrow> engine_call list option" where
  "dispatch opcode opd =
    (case opcode of
       TU_ISA_NOP \<Rightarrow> Some []
     | TU_ISA_DMA_LOAD \<Rightarrow> Some [dma_load_call (dma_operand opd)]
     | TU_ISA_DMA_STORE \<Rightarrow>
         (let d = dma_operand opd
          in Some [Dma_store_o (host_ptr d) (dma_sram_offset d) (size_bytes d)])
     | TU_ISA_MMA \<Rightarrow>
         (let d = mma_operand opd
          in Some [Mma (mma_M d) (mma_N d) (mma_K d) (w_offset d) (a_offset d) (o_offset d)
                       (has_bias d)])
     | TU_ISA_SYNC \<Rightarrow> Some [Core_sync]
     | TU_ISA_BARRIER \<Rightarrow> Some []
     | TU_ISA_HALT \<Rightarrow> Some []
     | TU_ISA_ELEMENTWISE \<Rightarrow>
         (let d = ew_operand opd
          in Some [Ew_apply_fused (ew_region (sram_region d)) (ew_sram_offset d) (elem_count d)
                       (ew_chain d) (num_ops d)])
     | _ \<Rightarrow> None)"

text \<open>The search of the signal registry: the first of the \<open>signal_count\<close> entries with this id.\<close>

fun fire_signal :: "u32 \<Rightarrow> u64 \<Rightarrow> completion_signal list \<Rightarrow> completion_signal list" where
  "fire_signal sid cyc [] = []"
| "fire_signal sid cyc (s # ss) =
    (if sig_id s = sid then s\<lparr>fired := True, sig_cycle_completed := cyc\<rparr> # ss
     else s # fire_signal sid cyc ss)"

definition fire_completion :: "command \<Rightarrow> cmdq \<Rightarrow> cmdq" where
  "fire_completion cmd cq =
    (if signal_id cmd > 0
     then cq\<lparr>signals := fire_signal (signal_id cmd) (current_cycle cq)
                          (take (unat (signal_count cq)) (signals cq))
                        @ drop (unat (signal_count cq)) (signals cq)\<rparr>
     else cq)"

abbreviation put_cmd :: "nat \<Rightarrow> command \<Rightarrow> cmdq \<Rightarrow> cmdq" where
  "put_cmd i cmd cq \<equiv> cq\<lparr>commands := (commands cq)[i := cmd]\<rparr>"

definition execute_command :: "nat \<Rightarrow> cmdq \<Rightarrow> cmdq" where
  "execute_command i cq0 =
    (let cmd = (commands cq0 ! i)\<lparr>cmd_status := TU_CMD_ISSUED, cycle_submitted := current_cycle cq0\<rparr>;
         cq = put_cmd i cmd cq0
     in case dispatch (cmd_opcode cmd) (cmd_operand cmd) of
          None \<Rightarrow> (put_cmd i (cmd\<lparr>cmd_status := TU_CMD_FAULTED\<rparr>) cq)
                    \<lparr>total_faulted := total_faulted cq + 1\<rparr>
        | Some calls \<Rightarrow>
            let cq = cq\<lparr>engine_log := engine_log cq @ calls\<rparr>;
                cq = (put_cmd i (cmd\<lparr>cmd_status := TU_CMD_COMPLETED,
                                     cycle_completed := current_cycle cq\<rparr>) cq)
                       \<lparr>total_completed := total_completed cq + 1\<rparr>
            in fire_completion cmd cq)"

section \<open>Readiness\<close>

text \<open>The inner scan of \<open>deps_satisfied\<close>: the first slot with this id decides; an id no slot has
  counts as completed.\<close>

fun dep_completed :: "u32 \<Rightarrow> command list \<Rightarrow> bool" where
  "dep_completed dep_id [] = True"
| "dep_completed dep_id (dep # rest) =
    (if cmd_id dep = dep_id then cmd_status dep = TU_CMD_COMPLETED
     else dep_completed dep_id rest)"

definition deps_satisfied :: "cmdq \<Rightarrow> command \<Rightarrow> bool" where
  "deps_satisfied cq cmd = list_all (\<lambda>d. dep_completed d (commands cq)) (dep_ids cmd)"

definition barrier_clear :: "cmdq \<Rightarrow> bool" where
  "barrier_clear cq =
    list_all (\<lambda>cmd. cmd_id cmd = 0 \<or> \<not> (is_barrier cmd \<and> cmd_status cmd \<noteq> TU_CMD_COMPLETED))
      (commands cq)"

section \<open>The queue operations\<close>

definition blank_command :: command where
  "blank_command = \<lparr>cmd_id = 0, cmd_opcode = TU_ISA_NOP, cmd_status = TU_CMD_PENDING,
     cmd_operand = Op_none, dep_ids = [], signal_id = 0, cycle_submitted = 0, cycle_completed = 0,
     is_barrier = False\<rparr>"

definition blank_signal :: completion_signal where
  "blank_signal = \<lparr>sig_id = 0, fired = False, sig_cycle_completed = 0\<rparr>"

definition tu_cmdq_create :: "u32 \<Rightarrow> bool \<Rightarrow> cmdq" where
  "tu_cmdq_create capacity0 sync =
    (let capacity = (if capacity0 < 4 then 4 else capacity0)
     in \<lparr>commands = replicate (unat capacity) blank_command, capacity = capacity, head = 0, tail = 0,
         cnt = 0, next_cmd_id = 1, next_signal_id = 1, total_submitted = 0, total_completed = 0,
         total_faulted = 0, signals = replicate (unat capacity) blank_signal, signal_count = 0,
         last_barrier_id = 0, current_cycle = 0, synchronous = sync, engine_log = []\<rparr>)"

text \<open>\<open>tu_cmdq_reset\<close> keeps the signal numbering and the signal entries.  The log of calls is the
  model's own and starts afresh, so that it speaks of the commands the queue holds.\<close>

definition tu_cmdq_reset :: "cmdq \<Rightarrow> cmdq" where
  "tu_cmdq_reset cq =
    cq\<lparr>commands := replicate (unat (capacity cq)) blank_command, head := 0, tail := 0, cnt := 0,
       next_cmd_id := 1, total_submitted := 0, total_completed := 0, total_faulted := 0,
       current_cycle := 0, last_barrier_id := 0, signal_count := 0,
       engine_log := []\<rparr>"

text \<open>One iteration of the loop of \<open>tu_cmdq_tick\<close>: every \<open>continue\<close> leaves the state as it is.\<close>

definition tick_ready :: "cmdq \<Rightarrow> command \<Rightarrow> bool" where
  "tick_ready cq cmd \<longleftrightarrow>
     cmd_id cmd \<noteq> 0 \<and> cmd_status cmd = TU_CMD_PENDING \<and>
     \<not> (last_barrier_id cq > 0 \<and> cmd_id cmd > last_barrier_id cq \<and> \<not> barrier_clear cq) \<and>
     deps_satisfied cq cmd"

definition release_slot :: "nat \<Rightarrow> cmdq \<Rightarrow> cmdq" where
  "release_slot i cq =
    (put_cmd i ((commands cq ! i)\<lparr>cmd_id := 0\<rparr>) cq)
      \<lparr>cnt := cnt cq - 1, tail := (tail cq + 1) mod capacity cq\<rparr>"

definition tick_slot :: "cmdq \<times> int \<Rightarrow> nat \<Rightarrow> cmdq \<times> int" where
  "tick_slot st i =
    (let (cq, retired) = st
     in if tick_ready cq (commands cq ! i)
        then let cq' = execute_command i cq
             in (if synchronous cq' then release_slot i cq' else cq', retired + 1)
        else (cq, retired))"

definition tu_cmdq_tick :: "cmdq \<Rightarrow> cmdq \<times> int" where
  "tu_cmdq_tick cq =
    foldl tick_slot (cq\<lparr>current_cycle := current_cycle cq + 1\<rparr>, 0) [0..<unat (capacity cq)]"

text \<open>The descriptor \<open>tu_cmdq_submit\<close> builds in the slot at \<open>head\<close>.\<close>

definition new_command :: "cmdq \<Rightarrow> tu_isa_opcode \<Rightarrow> cmd_op option \<Rightarrow> u32 list \<Rightarrow> command" where
  "new_command cq opcode op_desc deps =
    blank_command\<lparr>cmd_id := next_cmd_id cq, cmd_opcode := opcode, cmd_status := TU_CMD_PENDING,
      is_barrier := (opcode = TU_ISA_BARRIER), cmd_operand := copy_operand opcode op_desc,
      dep_ids := deps, signal_id := next_signal_id cq\<rparr>"

definition enqueue_command :: "cmdq \<Rightarrow> command \<Rightarrow> cmdq" where
  "enqueue_command cq cmd =
    cq\<lparr>commands := (commands cq)[unat (head cq) := cmd],
       next_cmd_id := next_cmd_id cq + 1,
       next_signal_id := next_signal_id cq + 1,
       last_barrier_id := (if is_barrier cmd then cmd_id cmd else last_barrier_id cq),
       head := (head cq + 1) mod capacity cq,
       cnt := cnt cq + 1,
       total_submitted := total_submitted cq + 1\<rparr>"

text \<open>The result is the C return code, the id stored through \<open>cmd_id_out\<close> (if it was), and the
  queue.\<close>

definition tu_cmdq_submit ::
  "cmdq \<Rightarrow> tu_isa_opcode \<Rightarrow> cmd_op option \<Rightarrow> u32 list \<Rightarrow> int \<times> u32 option \<times> cmdq" where
  "tu_cmdq_submit cq opcode op_desc deps =
    (if cnt cq \<ge> capacity cq then (-1, None, cq)
     else
       let slot = unat (head cq);
           cmd = new_command cq opcode op_desc deps;
           cq' = enqueue_command cq cmd;
           cq'' = (if synchronous cq' then execute_command slot cq' else fst (tu_cmdq_tick cq'))
       in (sint (cmd_id cmd), Some (cmd_id cmd), cq''))"

definition tu_cmdq_barrier :: "cmdq \<Rightarrow> int \<times> cmdq" where
  "tu_cmdq_barrier cq =
    (case tu_cmdq_submit cq TU_ISA_BARRIER None [] of
       (rc, out, cq') \<Rightarrow>
         if rc < 0 then (rc, cq') else (case out of Some b \<Rightarrow> (sint b, cq') | None \<Rightarrow> (rc, cq')))"

definition find_command :: "u32 \<Rightarrow> cmdq \<Rightarrow> command option" where
  "find_command cid cq = find (\<lambda>c. cmd_id c = cid) (commands cq)"

text \<open>The loop of \<open>tu_cmdq_wait\<close>; \<open>start\<close> is the cycle at which it was entered.\<close>

partial_function (option) wait_loop :: "u32 \<Rightarrow> u64 \<Rightarrow> u64 \<Rightarrow> cmdq \<Rightarrow> (int \<times> cmdq) option" where
  "wait_loop cid timeout start cq =
    (case find_command cid cq of
       None \<Rightarrow> Some (0, cq)
     | Some c \<Rightarrow>
         if cmd_status c = TU_CMD_COMPLETED then Some (0, cq)
         else if cmd_status c = TU_CMD_FAULTED then Some (-3, cq)
         else let cq' = (if synchronous cq then cq else fst (tu_cmdq_tick cq))
              in if timeout > 0 \<and> current_cycle cq' - start \<ge> timeout then Some (-1, cq')
                 else wait_loop cid timeout start cq')"

definition tu_cmdq_wait :: "cmdq \<Rightarrow> u32 \<Rightarrow> u64 \<Rightarrow> (int \<times> cmdq) option" where
  "tu_cmdq_wait cq cid timeout = wait_loop cid timeout (current_cycle cq) cq"

partial_function (option) drain_loop :: "cmdq \<Rightarrow> cmdq option" where
  "drain_loop cq = (if cnt cq > 0 then drain_loop (fst (tu_cmdq_tick cq)) else Some cq)"

definition tu_cmdq_sync :: "cmdq \<Rightarrow> cmdq option" where
  "tu_cmdq_sync cq = (if synchronous cq then Some cq else drain_loop cq)"

definition tu_cmdq_get_depth :: "cmdq \<Rightarrow> u32" where
  "tu_cmdq_get_depth cq = cnt cq"

definition tu_cmdq_get_status :: "cmdq \<Rightarrow> u32 \<Rightarrow> tu_cmd_status" where
  "tu_cmdq_get_status cq cid =
    (case find_command cid cq of Some c \<Rightarrow> cmd_status c | None \<Rightarrow> TU_CMD_COMPLETED)"

definition tu_cmdq_get_counts :: "cmdq \<Rightarrow> u64 \<times> u64 \<times> u64" where
  "tu_cmdq_get_counts cq = (total_submitted cq, total_completed cq, total_faulted cq)"

section \<open>One command\<close>

abbreviation call_of :: "command \<Rightarrow> engine_call list option" where
  "call_of c \<equiv> dispatch (cmd_opcode c) (cmd_operand c)"

definition finish_command :: "u64 \<Rightarrow> command \<Rightarrow> command" where
  "finish_command cyc c =
    (if call_of c = None then c\<lparr>cycle_submitted := cyc, cmd_status := TU_CMD_FAULTED\<rparr>
     else c\<lparr>cycle_submitted := cyc, cmd_status := TU_CMD_COMPLETED, cycle_completed := cyc\<rparr>)"

definition calls_made :: "command \<Rightarrow> engine_call list" where
  "calls_made c = (if cmd_status c = TU_CMD_COMPLETED then the (call_of c) else [])"

abbreviation pending :: "command \<Rightarrow> bool" where
  "pending c \<equiv> cmd_id c \<noteq> 0 \<and> cmd_status c = TU_CMD_PENDING"

lemma finish_command_keeps [simp]:
  "cmd_id (finish_command t c) = cmd_id c" "cmd_opcode (finish_command t c) = cmd_opcode c"
  "cmd_operand (finish_command t c) = cmd_operand c" "dep_ids (finish_command t c) = dep_ids c"
  "is_barrier (finish_command t c) = is_barrier c"
  "cmd_status (finish_command t c) \<noteq> TU_CMD_PENDING"
  "cmd_status (finish_command t c) \<noteq> TU_CMD_ISSUED"
  by (simp_all add: finish_command_def)

lemma finish_command_status:
  "cmd_status (finish_command t c) = (if call_of c = None then TU_CMD_FAULTED else TU_CMD_COMPLETED)"
  by (simp add: finish_command_def)

lemma fire_completion_keeps [simp]:
  "commands (fire_completion c cq) = commands cq" "capacity (fire_completion c cq) = capacity cq"
  "head (fire_completion c cq) = head cq" "tail (fire_completion c cq) = tail cq"
  "cnt (fire_completion c cq) = cnt cq" "next_cmd_id (fire_completion c cq) = next_cmd_id cq"
  "next_signal_id (fire_completion c cq) = next_signal_id cq"
  "total_submitted (fire_completion c cq) = total_submitted cq"
  "total_completed (fire_completion c cq) = total_completed cq"
  "total_faulted (fire_completion c cq) = total_faulted cq"
  "signal_count (fire_completion c cq) = signal_count cq"
  "last_barrier_id (fire_completion c cq) = last_barrier_id cq"
  "current_cycle (fire_completion c cq) = current_cycle cq"
  "synchronous (fire_completion c cq) = synchronous cq"
  "engine_log (fire_completion c cq) = engine_log cq"
  by (simp_all add: fire_completion_def)

lemma execute_command_keeps [simp]:
  "capacity (execute_command i cq) = capacity cq" "head (execute_command i cq) = head cq"
  "tail (execute_command i cq) = tail cq" "cnt (execute_command i cq) = cnt cq"
  "next_cmd_id (execute_command i cq) = next_cmd_id cq"
  "next_signal_id (execute_command i cq) = next_signal_id cq"
  "total_submitted (execute_command i cq) = total_submitted cq"
  "signal_count (execute_command i cq) = signal_count cq"
  "last_barrier_id (execute_command i cq) = last_barrier_id cq"
  "current_cycle (execute_command i cq) = current_cycle cq"
  "synchronous (execute_command i cq) = synchronous cq"
  by (simp_all add: execute_command_def Let_def split: option.split)

lemma execute_command_effect:
  assumes "i < length (commands cq)"
  shows "commands (execute_command i cq)
           = (commands cq)[i := finish_command (current_cycle cq) (commands cq ! i)]"
    and "engine_log (execute_command i cq)
           = engine_log cq @ calls_made (finish_command (current_cycle cq) (commands cq ! i))"
    and "total_completed (execute_command i cq)
           = (if call_of (commands cq ! i) = None then total_completed cq else total_completed cq + 1)"
    and "total_faulted (execute_command i cq)
           = (if call_of (commands cq ! i) = None then total_faulted cq + 1 else total_faulted cq)"
  using assms
  by (auto simp: execute_command_def Let_def finish_command_def calls_made_def split: option.split)

section \<open>The well-formed queue\<close>

text \<open>Slots are filled in order and never reused: slot \<open>i\<close> holds the command with id \<open>i + 1\<close>.\<close>

definition slots_ok :: "cmdq \<Rightarrow> bool" where
  "slots_ok cq \<longleftrightarrow>
     length (commands cq) = unat (capacity cq) \<and> 0 < capacity cq \<and> cnt cq \<le> capacity cq \<and>
     (\<forall>i<unat (cnt cq). cmd_id (commands cq ! i) = of_nat (Suc i)) \<and>
     (\<forall>i. unat (cnt cq) \<le> i \<longrightarrow> i < unat (capacity cq) \<longrightarrow> commands cq ! i = blank_command) \<and>
     head cq = cnt cq mod capacity cq \<and> next_cmd_id cq = cnt cq + 1"

definition command_ok :: "bool \<Rightarrow> command \<Rightarrow> bool" where
  "command_ok sync c \<longleftrightarrow>
     cmd_status c \<noteq> TU_CMD_ISSUED \<and>
     (cmd_status c = TU_CMD_COMPLETED \<longrightarrow> call_of c \<noteq> None) \<and>
     (cmd_status c = TU_CMD_FAULTED \<longrightarrow> call_of c = None) \<and>
     (sync \<longrightarrow> \<not> pending c)"

abbreviation with_status :: "tu_cmd_status \<Rightarrow> cmdq \<Rightarrow> command list" where
  "with_status st cq \<equiv> filter (\<lambda>c. cmd_status c = st) (commands cq)"

definition counters_ok :: "cmdq \<Rightarrow> bool" where
  "counters_ok cq \<longleftrightarrow>
     total_submitted cq = of_nat (unat (cnt cq)) \<and>
     total_completed cq = of_nat (length (with_status TU_CMD_COMPLETED cq)) \<and>
     total_faulted cq = of_nat (length (with_status TU_CMD_FAULTED cq)) \<and>
     signal_count cq = 0"

definition log_ok :: "cmdq \<Rightarrow> bool" where
  "log_ok cq \<longleftrightarrow> mset (engine_log cq) = mset (concat (map calls_made (commands cq)))"

definition cmdq_inv :: "cmdq \<Rightarrow> bool" where
  "cmdq_inv cq \<longleftrightarrow>
     slots_ok cq \<and> list_all (command_ok (synchronous cq)) (commands cq) \<and> counters_ok cq \<and> log_ok cq"

lemma length_filter_update:
  assumes "i < length xs" "\<not> P (xs ! i)"
  shows "length (filter P (xs[i := v])) = length (filter P xs) + (if P v then 1 else 0)"
  using assms by (induction xs arbitrary: i) (auto split: nat.splits)

lemma mset_concat_update:
  assumes "i < length xs" "f (xs ! i) = []"
  shows "mset (concat (map f (xs[i := v]))) = mset (concat (map f xs)) + mset (f v)"
  using assms by (induction xs arbitrary: i) (auto split: nat.splits)

lemma execute_command_inv:
  assumes inv: "slots_ok cq" "counters_ok cq" "log_ok cq"
    and ok: "\<And>j. j < length (commands cq) \<Longrightarrow> j \<noteq> i \<Longrightarrow> command_ok (synchronous cq) (commands cq ! j)"
    and i: "i < length (commands cq)" and pend: "pending (commands cq ! i)"
  shows "cmdq_inv (execute_command i cq)"
proof -
  let ?c = "commands cq ! i" and ?q = "execute_command i cq"
  note eff = execute_command_effect [OF i]
  have cnt: "i < unat (cnt cq)"
    using inv(1) i pend by (auto simp: slots_ok_def blank_command_def not_less [symmetric])
  have "slots_ok ?q"
    using inv(1) i cnt by (auto simp: slots_ok_def eff nth_list_update)
  moreover have "list_all (command_ok (synchronous ?q)) (commands ?q)"
    using ok i by (auto simp: list_all_length eff nth_list_update command_ok_def finish_command_status)
  moreover have "counters_ok ?q"
    using inv(2) i pend by (auto simp: counters_ok_def eff length_filter_update finish_command_status)
  moreover have "log_ok ?q"
    using inv(3) i pend by (simp add: log_ok_def eff mset_concat_update calls_made_def)
  ultimately show ?thesis by (simp add: cmdq_inv_def)
qed

section \<open>Creating and filling the queue\<close>

lemma blank_command_fields [simp]:
  "cmd_id blank_command = 0" "cmd_status blank_command = TU_CMD_PENDING"
  "calls_made blank_command = []" "command_ok s blank_command"
  by (simp_all add: blank_command_def calls_made_def command_ok_def)

lemma concat_blank: "concat (map calls_made (replicate n blank_command)) = []"
  by (induction n) simp_all

lemma tu_cmdq_create_inv: "cmdq_inv (tu_cmdq_create cap sync)"
  by (auto simp: cmdq_inv_def slots_ok_def counters_ok_def log_ok_def tu_cmdq_create_def Let_def
      list_all_length concat_blank word_gt_0)

lemma tu_cmdq_reset_inv: "cmdq_inv cq \<Longrightarrow> cmdq_inv (tu_cmdq_reset cq)"
  by (simp add: cmdq_inv_def slots_ok_def counters_ok_def log_ok_def tu_cmdq_reset_def
      list_all_length concat_blank)

lemma head_is_next_free:
  assumes "slots_ok cq" "cnt cq < capacity cq"
  shows "head cq = cnt cq" "unat (cnt cq + 1) = Suc (unat (cnt cq))"
    "unat (cnt cq) < length (commands cq)" "commands cq ! unat (cnt cq) = blank_command"
    "cnt cq + 1 \<noteq> 0"
proof -
  have lt: "unat (cnt cq) < unat (capacity cq)" using assms(2) by (rule unat_mono)
  show "unat (cnt cq) < length (commands cq)" "commands cq ! unat (cnt cq) = blank_command"
    using assms(1) lt by (auto simp: slots_ok_def)
  have "unat (cnt cq mod capacity cq) = unat (cnt cq)" using lt by (simp add: unat_mod_distrib)
  then have "cnt cq mod capacity cq = cnt cq" by (simp only: unsigned_word_eqI)
  then show "head cq = cnt cq" using assms(1) by (simp add: slots_ok_def)
  have "unat (capacity cq) < 4294967296" using unsigned_less [of "capacity cq"] by simp
  then have "unat (cnt cq) < 4294967295" using lt by linarith
  then show *: "unat (cnt cq + 1) = Suc (unat (cnt cq))"
    by (subst unat_add_small) simp_all
  show "cnt cq + 1 \<noteq> 0"
  proof
    assume "cnt cq + 1 = 0"
    then show False using * by simp
  qed
qed

lemma enqueue_command_ok:
  fixes opcode :: tu_isa_opcode and d :: "cmd_op option" and deps :: "u32 list"
  assumes inv: "cmdq_inv cq" and room: "cnt cq < capacity cq"
  defines "q \<equiv> enqueue_command cq (new_command cq opcode d deps)"
  shows "slots_ok q" "counters_ok q" "log_ok q" "unat (head cq) < length (commands q)"
    "commands q ! unat (head cq) = new_command cq opcode d deps"
    "pending (new_command cq opcode d deps)"
    "\<And>j. j < length (commands q) \<Longrightarrow> j \<noteq> unat (head cq) \<Longrightarrow>
       command_ok (synchronous q) (commands q ! j)"
proof -
  have sl: "slots_ok cq" using inv by (simp add: cmdq_inv_def)
  note hd = head_is_next_free [OF sl room]
  have suc: "of_nat (Suc (unat (cnt cq))) = cnt cq + 1" by simp
  have le: "cnt cq + 1 \<le> capacity cq"
    using room hd(2) unat_mono [OF room] by (simp add: word_le_nat_alt)
  have idn: "next_cmd_id cq = cnt cq + 1" using sl by (simp add: slots_ok_def)
  show pend: "pending (new_command cq opcode d deps)"
    using hd(5) by (simp add: new_command_def idn)
  show "slots_ok q"
    using sl hd le unfolding slots_ok_def q_def
    by (auto simp: enqueue_command_def new_command_def nth_list_update less_Suc_eq idn)
  show "unat (head cq) < length (commands q)"
    "commands q ! unat (head cq) = new_command cq opcode d deps"
    using hd by (simp_all add: q_def enqueue_command_def)
  show "counters_ok q"
    using inv hd
    by (auto simp: q_def cmdq_inv_def counters_ok_def enqueue_command_def length_filter_update
        new_command_def)
  show "log_ok q"
    using inv hd
    by (simp add: q_def cmdq_inv_def log_ok_def enqueue_command_def mset_concat_update
        calls_made_def new_command_def)
  show "command_ok (synchronous q) (commands q ! j)"
    if "j < length (commands q)" "j \<noteq> unat (head cq)" for j
    using inv hd that
    by (auto simp: q_def cmdq_inv_def list_all_length enqueue_command_def)
qed

section \<open>The scan of a tick\<close>

text \<open>A scan visits the slots \<open>0..<n\<close> in turn.  If every visit keeps an invariant and moves the
  state along a preorder, so does the scan, and for each slot the state in which it was visited
  lies between the two ends.\<close>

locale slot_scan =
  fixes visit :: "'s \<Rightarrow> nat \<Rightarrow> 's" and ok :: "'s \<Rightarrow> bool" and width :: "'s \<Rightarrow> nat"
    and le :: "'s \<Rightarrow> 's \<Rightarrow> bool"
  assumes visit_ok: "ok s \<Longrightarrow> i < width s \<Longrightarrow> ok (visit s i)"
    and visit_width: "ok s \<Longrightarrow> i < width s \<Longrightarrow> width (visit s i) = width s"
    and visit_le: "ok s \<Longrightarrow> i < width s \<Longrightarrow> le s (visit s i)"
    and le_refl: "le s s"
    and le_trans: "le s t \<Longrightarrow> le t u \<Longrightarrow> le s u"
begin

definition scan :: "nat \<Rightarrow> nat \<Rightarrow> 's \<Rightarrow> 's" where
  "scan a b s = foldl visit s [a..<b]"

lemma scan_step: "scan a (Suc b) s = (if a \<le> b then visit (scan a b s) b else s)"
  by (simp add: scan_def)

lemma scan_keeps:
  assumes "ok s" "b \<le> width s"
  shows "ok (scan a b s) \<and> width (scan a b s) = width s \<and> le s (scan a b s)"
  using assms(2)
proof (induction b)
  case (Suc b)
  then show ?case
    using assms(1) visit_ok [of "scan a b s" b] visit_width [of "scan a b s" b]
      visit_le [of "scan a b s" b] le_trans [of s "scan a b s" "visit (scan a b s) b"]
    by (auto simp: scan_step le_refl)
qed (simp add: scan_def assms le_refl)

lemma scan_visits:
  assumes "ok s" "i < n" "n \<le> width s"
  obtains t where "ok t" "width t = width s" "le s t" "le (visit t i) (scan 0 n s)"
proof
  let ?t = "scan 0 i s"
  have t: "ok ?t \<and> width ?t = width s \<and> le s ?t" using assms by (intro scan_keeps) auto
  then show "ok ?t" "width ?t = width s" "le s ?t" by auto
  have "[0..<n] = [0..<i] @ i # [Suc i..<n]"
    using assms(2) upt_add_eq_append [of 0 i "n - i"] upt_conv_Cons [of i n] by simp
  then have "scan 0 n s = scan (Suc i) n (visit ?t i)" by (simp add: scan_def)
  moreover have "le (visit ?t i) (scan (Suc i) n (visit ?t i))"
    using t visit_ok [of ?t i] visit_width [of ?t i] assms
    by (intro scan_keeps [THEN conjunct2, THEN conjunct2]) auto
  ultimately show "le (visit ?t i) (scan 0 n s)" by simp
qed

end

text \<open>How one slot may change during a tick: not at all, or from pending to finished, and then the
  queue at the end still shows its dependencies completed and, when the command follows the last
  barrier, no barrier outstanding.\<close>

definition slot_le :: "cmdq \<Rightarrow> command \<Rightarrow> command \<Rightarrow> bool" where
  "slot_le q c c' \<longleftrightarrow>
     c' = c \<or>
     (pending c \<and> c' = finish_command (current_cycle q) c \<and> deps_satisfied q c \<and>
      (0 < last_barrier_id q \<longrightarrow> last_barrier_id q < cmd_id c \<longrightarrow> barrier_clear q))"

definition same_frame :: "cmdq \<Rightarrow> cmdq \<Rightarrow> bool" where
  "same_frame q q' \<longleftrightarrow>
     capacity q' = capacity q \<and> cnt q' = cnt q \<and> head q' = head q \<and> tail q' = tail q \<and>
     next_cmd_id q' = next_cmd_id q \<and> next_signal_id q' = next_signal_id q \<and>
     total_submitted q' = total_submitted q \<and> last_barrier_id q' = last_barrier_id q \<and>
     current_cycle q' = current_cycle q \<and> synchronous q' = synchronous q"

definition pending_count :: "cmdq \<Rightarrow> nat" where
  "pending_count q = length (filter pending (commands q))"

definition tick_le :: "cmdq \<times> int \<Rightarrow> cmdq \<times> int \<Rightarrow> bool" where
  "tick_le s t \<longleftrightarrow>
     same_frame (fst s) (fst t) \<and>
     list_all2 (slot_le (fst t)) (commands (fst s)) (commands (fst t)) \<and>
     snd t + int (pending_count (fst t)) = snd s + int (pending_count (fst s))"

text \<open>A finished command stays as it is, so what was completed or clear remains so.\<close>

definition finishes :: "command \<Rightarrow> command \<Rightarrow> bool" where
  "finishes c c' \<longleftrightarrow> c' = c \<or> (pending c \<and> (\<exists>t. c' = finish_command t c))"

abbreviation queue_finishes :: "cmdq \<Rightarrow> cmdq \<Rightarrow> bool" where
  "queue_finishes p p' \<equiv> list_all2 finishes (commands p) (commands p')"

lemma slot_le_finishes: "slot_le q c c' \<Longrightarrow> finishes c c'"
  by (auto simp: slot_le_def finishes_def)

lemma slots_le_finish: "list_all2 (slot_le q) cs cs' \<Longrightarrow> list_all2 finishes cs cs'"
  by (erule list_all2_mono) (rule slot_le_finishes)

lemma dep_completed_mono:
  assumes "list_all2 finishes cs cs'" "dep_completed d cs"
  shows "dep_completed d cs'"
  using assms by (induction cs cs' rule: list_all2_induct) (auto simp: finishes_def split: if_splits)

lemma deps_satisfied_mono:
  assumes "queue_finishes p p'" "deps_satisfied p c"
  shows "deps_satisfied p' c"
  using assms(2) dep_completed_mono [OF assms(1)]
  by (auto simp: deps_satisfied_def list_all_iff)

lemma barrier_clear_mono:
  assumes "queue_finishes p p'" "barrier_clear p"
  shows "barrier_clear p'"
proof -
  have "list_all (\<lambda>c. cmd_id c = 0 \<or> \<not> (is_barrier c \<and> cmd_status c \<noteq> TU_CMD_COMPLETED)) cs'"
    if "list_all2 finishes cs cs'"
      "list_all (\<lambda>c. cmd_id c = 0 \<or> \<not> (is_barrier c \<and> cmd_status c \<noteq> TU_CMD_COMPLETED)) cs" for cs cs'
    using that by (induction cs cs' rule: list_all2_induct) (auto simp: finishes_def)
  then show ?thesis using assms unfolding barrier_clear_def by blast
qed

lemma slot_le_trans:
  assumes "slot_le t a b" "slot_le u b c"
    and frame: "same_frame t u" and le: "list_all2 (slot_le u) (commands t) (commands u)"
  shows "slot_le u a c"
proof (cases "b = a")
  case False
  then have fin: "pending a" "b = finish_command (current_cycle t) a" "deps_satisfied t a"
    "0 < last_barrier_id t \<longrightarrow> last_barrier_id t < cmd_id a \<longrightarrow> barrier_clear t"
    using assms(1) by (auto simp: slot_le_def)
  then have "c = b" using assms(2) by (auto simp: slot_le_def)
  then show ?thesis
    using fin frame deps_satisfied_mono [OF slots_le_finish [OF le]]
      barrier_clear_mono [OF slots_le_finish [OF le]]
    by (auto simp: slot_le_def same_frame_def)
qed (use assms in simp)

lemma tick_le_trans: "tick_le s t \<Longrightarrow> tick_le t u \<Longrightarrow> tick_le s u"
  unfolding tick_le_def
proof (elim conjE, intro conjI)
  assume f: "same_frame (fst t) (fst u)"
    and st: "list_all2 (slot_le (fst t)) (commands (fst s)) (commands (fst t))"
    and tu: "list_all2 (slot_le (fst u)) (commands (fst t)) (commands (fst u))"
  show "list_all2 (slot_le (fst u)) (commands (fst s)) (commands (fst u))"
    by (rule list_all2_trans [OF _ st tu]) (rule slot_le_trans [OF _ _ f tu])
qed (auto simp: same_frame_def)

lemma tick_le_refl: "tick_le s s"
  by (simp add: tick_le_def same_frame_def slot_le_def list_all2_refl)

lemma tick_ready_async:
  assumes "cmdq_inv q" "i < length (commands q)" "tick_ready q (commands q ! i)"
  shows "\<not> synchronous q"
  using assms by (auto simp: cmdq_inv_def list_all_length command_ok_def tick_ready_def)

lemma tick_slot_cases:
  assumes "cmdq_inv q" "i < length (commands q)"
  shows "tick_slot (q, r) i
     = (if tick_ready q (commands q ! i) then (execute_command i q, r + 1) else (q, r))"
  using tick_ready_async [OF assms] by (simp add: tick_slot_def)

lemma list_all2_update:
  assumes "\<And>x. R x x" "i < length xs" "R (xs ! i) v"
  shows "list_all2 R xs (xs[i := v])"
  using assms by (auto simp: list_all2_conv_all_nth nth_list_update)

lemma execute_command_tick_le:
  assumes i: "i < length (commands q)" and rdy: "tick_ready q (commands q ! i)"
  shows "tick_le (q, r) (execute_command i q, r + 1)"
proof -
  let ?c = "commands q ! i" and ?q = "execute_command i q"
  let ?c' = "finish_command (current_cycle q) ?c"
  note eff = execute_command_effect(1) [OF i]
  have pend: "pending ?c" using rdy by (simp add: tick_ready_def)
  have fin: "queue_finishes q ?q"
    unfolding eff using pend i by (intro list_all2_update) (auto simp: finishes_def)
  have "slot_le ?q ?c ?c'"
    using rdy deps_satisfied_mono [OF fin, of ?c] barrier_clear_mono [OF fin]
    by (auto simp: slot_le_def tick_ready_def)
  then have "list_all2 (slot_le ?q) (commands q) (commands ?q)"
    unfolding eff using i by (intro list_all2_update) (auto simp: slot_le_def)
  moreover have "pending_count q = Suc (pending_count ?q)"
  proof -
    have "(commands ?q)[i := ?c] = commands q" by (simp add: eff)
    moreover have "length (filter pending ((commands ?q)[i := ?c])) = length (filter pending (commands ?q)) + 1"
      using i pend by (subst length_filter_update) (simp_all add: eff)
    ultimately show ?thesis by (simp add: pending_count_def)
  qed
  ultimately show ?thesis by (simp add: tick_le_def same_frame_def)
qed

lemma tick_slot_inv:
  assumes "cmdq_inv (fst s)" "i < length (commands (fst s))"
  shows "cmdq_inv (fst (tick_slot s i))"
proof -
  obtain q r where s: "s = (q, r)" by (cases s)
  have "cmdq_inv (execute_command i q)" if "tick_ready q (commands q ! i)"
    using that assms
    by (intro execute_command_inv) (auto simp: s cmdq_inv_def list_all_length tick_ready_def)
  then show ?thesis using assms by (simp add: s tick_slot_cases)
qed

lemma tick_slot_le:
  assumes "cmdq_inv (fst s)" "i < length (commands (fst s))"
  shows "tick_le s (tick_slot s i)"
  using assms by (cases s) (auto simp: tick_slot_cases execute_command_tick_le tick_le_refl)

lemma tick_le_width: "tick_le s t \<Longrightarrow> length (commands (fst t)) = length (commands (fst s))"
  by (auto simp: tick_le_def dest: list_all2_lengthD)

interpretation slots: slot_scan tick_slot "\<lambda>s. cmdq_inv (fst s)" "\<lambda>s. length (commands (fst s))" tick_le
  by unfold_locales
    (auto intro: tick_slot_inv tick_slot_le tick_le_trans tick_le_refl
      simp: tick_le_width [OF tick_slot_le])

definition next_cycle :: "cmdq \<Rightarrow> cmdq" where
  "next_cycle cq = cq\<lparr>current_cycle := current_cycle cq + 1\<rparr>"

lemma next_cycle_inv: "cmdq_inv cq \<Longrightarrow> cmdq_inv (next_cycle cq)"
  by (simp add: next_cycle_def cmdq_inv_def slots_ok_def counters_ok_def log_ok_def)

lemma cmdq_inv_width: "cmdq_inv cq \<Longrightarrow> length (commands cq) = unat (capacity cq)"
  by (simp add: cmdq_inv_def slots_ok_def)

lemma tu_cmdq_tick_scan:
  assumes "cmdq_inv cq"
  shows "tu_cmdq_tick cq = slots.scan 0 (length (commands (next_cycle cq))) (next_cycle cq, 0)"
  using cmdq_inv_width [OF assms] by (simp add: tu_cmdq_tick_def slots.scan_def next_cycle_def)

lemma tick_keeps:
  assumes "cmdq_inv cq"
  shows "cmdq_inv (fst (tu_cmdq_tick cq))" "tick_le (next_cycle cq, 0) (tu_cmdq_tick cq)"
  using slots.scan_keeps [of "(next_cycle cq, 0)" "length (commands (next_cycle cq))" 0]
    next_cycle_inv [OF assms]
  by (simp_all add: tu_cmdq_tick_scan [OF assms])

lemma tick_visits:
  assumes "cmdq_inv cq" "i < length (commands cq)"
  obtains t where "cmdq_inv (fst t)" "length (commands (fst t)) = length (commands cq)"
    "tick_le (next_cycle cq, 0) t" "tick_le (tick_slot t i) (tu_cmdq_tick cq)"
proof -
  have w: "length (commands (next_cycle cq)) = length (commands cq)" by (simp add: next_cycle_def)
  show thesis
    by (rule slots.scan_visits [of "(next_cycle cq, 0)" i "length (commands (next_cycle cq))"])
      (use next_cycle_inv [OF assms(1)] assms w that in
        \<open>auto simp: tu_cmdq_tick_scan [OF assms(1)]\<close>)
qed

lemma tick_frame:
  assumes "cmdq_inv cq"
  shows "cnt (fst (tu_cmdq_tick cq)) = cnt cq" "capacity (fst (tu_cmdq_tick cq)) = capacity cq"
    "synchronous (fst (tu_cmdq_tick cq)) = synchronous cq"
    "current_cycle (fst (tu_cmdq_tick cq)) = current_cycle cq + 1"
    "last_barrier_id (fst (tu_cmdq_tick cq)) = last_barrier_id cq"
    "total_submitted (fst (tu_cmdq_tick cq)) = total_submitted cq"
    "queue_finishes cq (fst (tu_cmdq_tick cq))"
  using tick_keeps(2) [OF assms]
  by (auto simp: tick_le_def same_frame_def next_cycle_def dest: slots_le_finish)

lemma enqueue_async_inv:
  assumes "cmdq_inv cq" "cnt cq < capacity cq" "\<not> synchronous cq"
  shows "cmdq_inv (enqueue_command cq (new_command cq opcode d deps))"
proof -
  let ?q = "enqueue_command cq (new_command cq opcode d deps)"
  note q = enqueue_command_ok [OF assms(1,2), where opcode = opcode and d = d and deps = deps]
  have "command_ok False (new_command cq opcode d deps)"
    by (simp add: command_ok_def new_command_def)
  moreover have "\<not> synchronous ?q" using assms(3) by (simp add: enqueue_command_def)
  ultimately show ?thesis using q unfolding cmdq_inv_def list_all_length by metis
qed

lemma tu_cmdq_submit_inv:
  assumes "cmdq_inv cq"
  shows "cmdq_inv (snd (snd (tu_cmdq_submit cq opcode d deps)))"
proof (cases "cnt cq < capacity cq")
  case True
  note q = enqueue_command_ok [OF assms True, where opcode = opcode and d = d and deps = deps]
  let ?q = "enqueue_command cq (new_command cq opcode d deps)"
  show ?thesis
  proof (cases "synchronous ?q")
    case True
    then show ?thesis
      using execute_command_inv [OF q(1,2,3) q(7) q(4)] q(5,6) \<open>cnt cq < capacity cq\<close>
      by (simp add: tu_cmdq_submit_def Let_def not_le [symmetric])
  next
    case False
    then have "cmdq_inv ?q"
      using enqueue_async_inv [OF assms \<open>cnt cq < capacity cq\<close>] by (simp add: enqueue_command_def)
    then show ?thesis
      using False \<open>cnt cq < capacity cq\<close> tick_keeps(1)
      by (simp add: tu_cmdq_submit_def Let_def not_le [symmetric])
  qed
qed (use assms in \<open>simp add: tu_cmdq_submit_def not_less\<close>)

end
