(* ===== verification/Queue_Runs.thy ===== *)
theory Queue_Runs
  imports Command_Queue
begin

text \<open>
  What runs of the command queue do: the reachable queues, the effect of a tick on one slot, the
  waiting loops, and the properties of submission, dependencies, barriers and waiting.
\<close>

section \<open>Reachable queues\<close>

text \<open>A queue is reachable when it was created and then operated on by any sequence of
  submissions, ticks and resets (waiting and draining only tick).\<close>

inductive cmdq_reachable :: "cmdq \<Rightarrow> bool" where
  created: "cmdq_reachable (tu_cmdq_create cap sync)"
| submitted: "cmdq_reachable cq \<Longrightarrow> cmdq_reachable (snd (snd (tu_cmdq_submit cq opcode d deps)))"
| ticked: "cmdq_reachable cq \<Longrightarrow> cmdq_reachable (fst (tu_cmdq_tick cq))"
| was_reset: "cmdq_reachable cq \<Longrightarrow> cmdq_reachable (tu_cmdq_reset cq)"

lemma cmdq_reachable_inv: "cmdq_reachable cq \<Longrightarrow> cmdq_inv cq"
  by (induction rule: cmdq_reachable.induct)
    (auto intro: tu_cmdq_create_inv tu_cmdq_submit_inv tick_keeps tu_cmdq_reset_inv)

text \<open>Facts about single slots.\<close>

lemma unat_live_id:
  assumes "k < unat (n :: u32)" shows "unat (of_nat (Suc k) :: u32) = Suc k"
proof -
  have "unat n < 4294967296" using unsigned_less [of n] by simp
  then have "Suc k < 4294967296" using assms by linarith
  then show ?thesis by (subst unat_of_nat) simp
qed

lemma slot_live:
  assumes "cmdq_inv cq" "i < length (commands cq)"
  shows "commands cq ! i = blank_command \<or>
    (i < unat (cnt cq) \<and> cmd_id (commands cq ! i) = of_nat (Suc i) \<and> cmd_id (commands cq ! i) \<noteq> 0)"
proof (cases "i < unat (cnt cq)")
  case True
  have sl: "slots_ok cq" using assms(1) by (simp add: cmdq_inv_def)
  have "unat (of_nat (Suc i) :: u32) = Suc i" by (rule unat_live_id [OF True])
  then have "(of_nat (Suc i) :: u32) \<noteq> 0" by (metis Zero_not_Suc unsigned_0)
  then show ?thesis using True sl by (simp add: slots_ok_def)
next
  case False
  then show ?thesis using assms by (simp add: cmdq_inv_def slots_ok_def)
qed

lemma same_id_same_status:
  assumes "cmdq_inv cq" "c \<in> set (commands cq)" "c' \<in> set (commands cq)" "cmd_id c = cmd_id c'"
  shows "cmd_status c = cmd_status c'"
proof -
  obtain i j where ij: "i < length (commands cq)" "c = commands cq ! i"
    "j < length (commands cq)" "c' = commands cq ! j"
    using assms(2,3) by (metis in_set_conv_nth)
  note live = slot_live [OF assms(1) ij(1)] slot_live [OF assms(1) ij(3)]
  show ?thesis
  proof (cases "commands cq ! i = blank_command \<or> commands cq ! j = blank_command")
    case True
    then show ?thesis using live ij(2,4) assms(4) by (metis blank_command_fields(1))
  next
    case False
    then have i: "i < unat (cnt cq)" "cmd_id c = of_nat (Suc i)"
      and j: "j < unat (cnt cq)" "cmd_id c' = of_nat (Suc j)"
      using live ij(2,4) by simp_all
    have "(of_nat (Suc i) :: u32) = of_nat (Suc j)" using i(2) j(2) assms(4) by metis
    then have "i = j" using unat_live_id [OF i(1)] unat_live_id [OF j(1)] by (metis nat.inject)
    then show ?thesis using ij(2,4) by simp
  qed
qed

definition one_status_per_id :: "command list \<Rightarrow> bool" where
  "one_status_per_id cs \<longleftrightarrow>
    (\<forall>c\<in>set cs. \<forall>c'\<in>set cs. cmd_id c = cmd_id c' \<longrightarrow> cmd_status c = cmd_status c')"

lemma dep_completed_find:
  "dep_completed d cs =
    (case find (\<lambda>c. cmd_id c = d) cs of None \<Rightarrow> True | Some c \<Rightarrow> cmd_status c = TU_CMD_COMPLETED)"
  by (induction cs) auto

lemma dep_completed_all:
  assumes "one_status_per_id cs"
  shows "dep_completed d cs \<longleftrightarrow> (\<forall>c\<in>set cs. cmd_id c = d \<longrightarrow> cmd_status c = TU_CMD_COMPLETED)"
proof (cases "find (\<lambda>c. cmd_id c = d) cs")
  case None
  then have "\<not> (\<exists>c. c \<in> set cs \<and> cmd_id c = d)" by (simp only: find_None_iff not_False_eq_True)
  then show ?thesis unfolding dep_completed_find None by auto
next
  case (Some c)
  then have c: "c \<in> set cs" "cmd_id c = d" by (auto simp: find_Some_iff)
  have "cmd_status p = cmd_status c" if "p \<in> set cs" "cmd_id p = d" for p
  proof -
    have "cmd_id p = cmd_id c" using that(2) c(2) by (rule trans [OF _ sym])
    then show ?thesis
      by (rule assms [unfolded one_status_per_id_def, rule_format, OF that(1) c(1)])
  qed
  then have "(\<forall>p\<in>set cs. cmd_id p = d \<longrightarrow> cmd_status p = TU_CMD_COMPLETED)
      \<longleftrightarrow> cmd_status c = TU_CMD_COMPLETED"
    using c by metis
  then show ?thesis by (simp only: dep_completed_find Some option.case)
qed

lemma cmdq_one_status: "cmdq_inv cq \<Longrightarrow> one_status_per_id (commands cq)"
  unfolding one_status_per_id_def by (intro ballI impI) (rule same_id_same_status)

lemma deps_satisfied_iff:
  assumes "cmdq_inv cq"
  shows "deps_satisfied cq c \<longleftrightarrow>
    (\<forall>p\<in>set (commands cq). cmd_id p \<in> set (dep_ids c) \<longrightarrow> cmd_status p = TU_CMD_COMPLETED)"
  unfolding deps_satisfied_def list_all_iff dep_completed_all [OF cmdq_one_status [OF assms]]
  by blast

lemma barrier_clear_iff:
  "barrier_clear cq \<longleftrightarrow>
    (\<forall>b\<in>set (commands cq). cmd_id b \<noteq> 0 \<longrightarrow> is_barrier b \<longrightarrow> cmd_status b = TU_CMD_COMPLETED)"
  by (auto simp: barrier_clear_def list_all_iff)

lemma find_command_status:
  assumes "cmdq_inv cq" "c \<in> set (commands cq)" "cmd_id c = cid"
  shows "\<exists>c'. find_command cid cq = Some c' \<and> cmd_status c' = cmd_status c"
proof (cases "find_command cid cq")
  case None
  then show ?thesis using assms(2,3) by (auto simp: find_command_def find_None_iff)
next
  case (Some c')
  then have "c' \<in> set (commands cq)" "cmd_id c' = cid"
    by (auto simp: find_command_def find_Some_iff)
  then show ?thesis using Some same_id_same_status [OF assms(1) _ assms(2), of c'] assms(3) by simp
qed

section \<open>What a tick does to a slot\<close>

lemma tick_slot_change:
  assumes "cmdq_inv cq" "i < length (commands cq)" "pending (commands cq ! i)"
    "cmd_status (commands (fst (tu_cmdq_tick cq)) ! i) \<noteq> TU_CMD_PENDING"
  shows "deps_satisfied (fst (tu_cmdq_tick cq)) (commands cq ! i)"
    and "0 < last_barrier_id cq \<Longrightarrow> last_barrier_id cq < cmd_id (commands cq ! i)
           \<Longrightarrow> barrier_clear (fst (tu_cmdq_tick cq))"
proof -
  let ?q = "fst (tu_cmdq_tick cq)"
  have "list_all2 (slot_le ?q) (commands cq) (commands ?q)"
    using tick_keeps(2) [OF assms(1)] by (simp add: tick_le_def next_cycle_def)
  then have "slot_le ?q (commands cq ! i) (commands ?q ! i)"
    using assms(2) by (rule list_all2_nthD)
  then show "deps_satisfied ?q (commands cq ! i)"
    "0 < last_barrier_id cq \<Longrightarrow> last_barrier_id cq < cmd_id (commands cq ! i) \<Longrightarrow> barrier_clear ?q"
    using assms(3,4) tick_frame(5) [OF assms(1)] by (auto simp: slot_le_def)
qed

lemma tick_runs_ready:
  assumes inv: "cmdq_inv cq" and i: "i < length (commands cq)" and pend: "pending (commands cq ! i)"
    and async: "\<not> synchronous cq"
    and deps: "deps_satisfied cq (commands cq ! i)"
    and clear: "0 < last_barrier_id cq \<longrightarrow> last_barrier_id cq < cmd_id (commands cq ! i) \<longrightarrow> barrier_clear cq"
  shows "cmd_status (commands (fst (tu_cmdq_tick cq)) ! i)
    = (if call_of (commands cq ! i) = None then TU_CMD_FAULTED else TU_CMD_COMPLETED)"
proof -
  let ?c = "commands cq ! i" and ?q = "fst (tu_cmdq_tick cq)"
  obtain t where t: "cmdq_inv (fst t)" "length (commands (fst t)) = length (commands cq)"
    "tick_le (next_cycle cq, 0) t" "tick_le (tick_slot t i) (tu_cmdq_tick cq)"
    by (rule tick_visits [OF inv i])
  obtain q r where tq: "t = (q, r)" by (cases t)
  have fin: "queue_finishes cq q" and fr: "same_frame (next_cycle cq) q"
    using t(3) by (auto simp: tq tick_le_def next_cycle_def dest: slots_le_finish)
  have fi: "finishes ?c (commands q ! i)" using fin i by (rule list_all2_nthD)
  define v where "v = fst (tick_slot t i)"
  have iv: "i < length (commands q)" using t(2) i by (simp add: tq)
  have "cmd_status (commands v ! i) = (if call_of ?c = None then TU_CMD_FAULTED else TU_CMD_COMPLETED)
      \<and> cmd_id (commands v ! i) \<noteq> 0"
  proof (cases "commands q ! i = ?c")
    case True
    have "tick_ready q ?c"
      using pend deps_satisfied_mono [OF fin deps] clear barrier_clear_mono [OF fin] fr
      by (auto simp: tick_ready_def same_frame_def next_cycle_def)
    then have "v = execute_command i q"
      using True t(1) iv by (simp add: v_def tq tick_slot_cases)
    then show ?thesis
      using execute_command_effect(1) [OF iv] iv True pend by (simp add: finish_command_status)
  next
    case False
    then obtain tm where c': "commands q ! i = finish_command tm ?c" using fi by (auto simp: finishes_def)
    then have "\<not> tick_ready q (commands q ! i)" by (simp add: tick_ready_def)
    then have "v = q" using t(1) iv by (simp add: v_def tq tick_slot_cases)
    then show ?thesis using c' pend by (simp add: finish_command_status)
  qed
  moreover have "finishes (commands v ! i) (commands ?q ! i)"
  proof -
    have "queue_finishes v ?q" using t(4) by (auto simp: tick_le_def v_def dest: slots_le_finish)
    moreover have "length (commands v) = length (commands q)"
      using tick_le_width [OF tick_slot_le, of t i] t(1) iv by (simp add: v_def tq)
    ultimately show ?thesis using iv by (simp add: list_all2_nthD)
  qed
  ultimately show ?thesis by (auto simp: finishes_def)
qed

section \<open>Waiting and draining\<close>

lemma drain_loop_returns:
  assumes "drain_loop cq = Some cq'"
  shows "cmdq_inv cq \<longrightarrow> cnt cq = 0 \<and> cq' = cq"
proof (rule drain_loop.raw_induct [OF _ assms])
  fix loop :: "cmdq \<Rightarrow> cmdq option" and cq y
  assume IH: "\<And>q y. loop q = Some y \<Longrightarrow> cmdq_inv q \<longrightarrow> cnt q = 0 \<and> y = q"
    and eq: "(if 0 < cnt cq then loop (fst (tu_cmdq_tick cq)) else Some cq) = Some y"
  show "cmdq_inv cq \<longrightarrow> cnt cq = 0 \<and> y = cq"
    using IH [of "fst (tu_cmdq_tick cq)" y] eq tick_keeps(1) [of cq] tick_frame(1) [of cq]
    by (cases "cnt cq > 0") (auto simp: word_gt_0)
qed

lemma tu_cmdq_sync_cases:
  assumes "cmdq_inv cq"
  shows "tu_cmdq_sync cq = (if synchronous cq \<or> cnt cq = 0 then Some cq else None)"
proof -
  have "drain_loop cq = (if cnt cq = 0 then Some cq else None)"
  proof (cases "cnt cq = 0")
    case True
    then show ?thesis by (subst drain_loop.simps) simp
  next
    case False
    then show ?thesis using assms drain_loop_returns [of cq] by (cases "drain_loop cq") auto
  qed
  then show ?thesis by (simp add: tu_cmdq_sync_def)
qed

text \<open>Induction on the iterations of a wait that returns.\<close>

lemma wait_loop_induct:
  assumes ret: "wait_loop cid timeout start cq = Some r"
    and gone: "\<And>q. find_command cid q = None \<Longrightarrow> P q (0, q)"
    and fin: "\<And>q c. find_command cid q = Some c \<Longrightarrow> cmd_status c = TU_CMD_COMPLETED \<Longrightarrow> P q (0, q)"
    and fault: "\<And>q c. find_command cid q = Some c \<Longrightarrow> cmd_status c = TU_CMD_FAULTED \<Longrightarrow> P q (-3, q)"
    and expired: "\<And>q q'. q' = (if synchronous q then q else fst (tu_cmdq_tick q)) \<Longrightarrow> 0 < timeout \<Longrightarrow>
      timeout \<le> current_cycle q' - start \<Longrightarrow> P q (-1, q')"
    and again: "\<And>q c r. find_command cid q = Some c \<Longrightarrow>
      cmd_status c \<notin> {TU_CMD_COMPLETED, TU_CMD_FAULTED} \<Longrightarrow>
      P (if synchronous q then q else fst (tu_cmdq_tick q)) r \<Longrightarrow> P q r"
  shows "P cq r"
proof -
  have "cid = cid \<longrightarrow> timeout = timeout \<longrightarrow> start = start \<longrightarrow> P cq r"
  proof (rule wait_loop.raw_induct [where P = "\<lambda>i t s q r. i = cid \<longrightarrow> t = timeout \<longrightarrow> s = start \<longrightarrow> P q r",
        OF _ ret], intro impI)
    fix loop i t s q y
    assume IH: "\<And>i t s q y. loop i t s q = Some (y :: int \<times> cmdq) \<Longrightarrow>
        i = cid \<longrightarrow> t = timeout \<longrightarrow> s = start \<longrightarrow> P q y"
      and eq: "(case find_command i q of None \<Rightarrow> Some (0, q)
        | Some c \<Rightarrow>
            if cmd_status c = TU_CMD_COMPLETED then Some (0, q)
            else if cmd_status c = TU_CMD_FAULTED then Some (- 3, q)
            else let cq' = if synchronous q then q else fst (tu_cmdq_tick q)
                 in if 0 < t \<and> t \<le> current_cycle cq' - s then Some (- 1, cq')
                    else loop i t s cq') = Some y"
      and args: "i = cid" "t = timeout" "s = start"
    show "P q y"
    proof (cases "find_command cid q")
      case None
      then show ?thesis using eq gone [of q] args by auto
    next
      case (Some c)
      let ?q = "if synchronous q then q else fst (tu_cmdq_tick q)"
      consider "cmd_status c = TU_CMD_COMPLETED" | "cmd_status c = TU_CMD_FAULTED"
        | "cmd_status c \<notin> {TU_CMD_COMPLETED, TU_CMD_FAULTED}" "0 < timeout \<and> timeout \<le> current_cycle ?q - start"
        | "cmd_status c \<notin> {TU_CMD_COMPLETED, TU_CMD_FAULTED}" "\<not> (0 < timeout \<and> timeout \<le> current_cycle ?q - start)"
        by blast
      then show ?thesis
      proof cases
        case 3
        then have "y = (-1, ?q)" using eq args Some unfolding Let_def by simp
        then show ?thesis using expired [of ?q q] 3(2) by blast
      next
        case 4
        then have "loop cid timeout start ?q = Some y"
          using eq args Some unfolding Let_def by (simp only: option.case if_False) simp
        then show ?thesis using IH again [OF Some 4(1)] by blast
      qed (use eq args Some fin fault in auto)
    qed
  qed
  then show ?thesis by simp
qed

lemma sync_hang:
  assumes "wait_loop cid timeout start cq = Some r"
  shows "synchronous cq \<longrightarrow> start = current_cycle cq \<longrightarrow>
    (\<forall>c. find_command cid cq = Some c \<longrightarrow> cmd_status c \<in> {TU_CMD_COMPLETED, TU_CMD_FAULTED})"
  by (rule wait_loop_induct [OF assms]) (auto simp: word_gt_0)

definition wait_outcome :: "u32 \<Rightarrow> u64 \<Rightarrow> u64 \<Rightarrow> int \<times> cmdq \<Rightarrow> bool" where
  "wait_outcome cid timeout start r \<longleftrightarrow>
    (fst r = 0 \<and> tu_cmdq_get_status (snd r) cid = TU_CMD_COMPLETED) \<or>
    (fst r = -3 \<and> tu_cmdq_get_status (snd r) cid = TU_CMD_FAULTED) \<or>
    (fst r = -1 \<and> timeout > 0 \<and> timeout \<le> current_cycle (snd r) - start)"

lemma wait_loop_result:
  assumes "wait_loop cid timeout start cq = Some r"
  shows "wait_outcome cid timeout start r"
  by (rule wait_loop_induct [OF assms]) (simp_all add: wait_outcome_def tu_cmdq_get_status_def)

lemma wait_loop_reachable:
  assumes "wait_loop cid timeout start cq = Some r"
  shows "cmdq_reachable cq \<longrightarrow> cmdq_reachable (snd r)"
  by (rule wait_loop_induct [OF assms]) (auto intro: cmdq_reachable.ticked split: if_splits)

lemma wait_loop_ends:
  assumes "cmdq_inv cq" "\<not> synchronous cq" "unat (current_cycle cq - start) < unat timeout"
    "unat timeout \<le> unat (current_cycle cq - start) + n"
  shows "\<exists>rc cq'. wait_loop cid timeout start cq = Some (rc, cq') \<and> current_cycle cq' - start \<le> timeout"
  using assms
proof (induction n arbitrary: cq)
  case (Suc n)
  let ?q = "fst (tu_cmdq_tick cq)"
  have q: "cmdq_inv ?q" "\<not> synchronous ?q" "current_cycle ?q = current_cycle cq + 1"
    using tick_keeps(1) tick_frame(3,4) Suc.prems(1,2) by auto
  have d: "current_cycle ?q - start = (current_cycle cq - start) + 1" using q(3) by simp
  have "unat timeout < 18446744073709551616" using unsigned_less [of timeout] by simp
  then have "unat (current_cycle cq - start) < 18446744073709551615" using Suc.prems(3) by linarith
  then have u: "unat (current_cycle ?q - start) = Suc (unat (current_cycle cq - start))"
    unfolding d by (subst unat_add_small) simp_all
  have le: "current_cycle cq - start \<le> timeout" using Suc.prems(3) by (simp add: word_le_nat_alt)
  show ?case
  proof (cases "timeout \<le> current_cycle ?q - start")
    case True
    then have "current_cycle ?q - start \<le> timeout"
      using u Suc.prems(3) by (simp add: word_le_nat_alt)
    then show ?thesis
      using True le Suc.prems(2,3)
      by (subst wait_loop.simps) (auto simp: Let_def word_gt_0 split: option.split)
  next
    case False
    then have "unat (current_cycle ?q - start) < unat timeout" by (simp add: word_le_nat_alt)
    then obtain rc cq' where "wait_loop cid timeout start ?q = Some (rc, cq')"
      "current_cycle cq' - start \<le> timeout"
      using Suc.IH [OF q(1,2)] Suc.prems(4) u by auto
    then show ?thesis
      using False le Suc.prems(2)
      by (subst wait_loop.simps) (auto simp: Let_def split: option.split)
  qed
qed simp

section \<open>Properties\<close>

lemma concat_calls_made:
  "concat (map calls_made cs) = concat (map (\<lambda>c. the (call_of c)) (filter (\<lambda>c. cmd_status c = TU_CMD_COMPLETED) cs))"
  by (induction cs) (auto simp: calls_made_def)

text \<open>
  C4. Every command runs once. In a reachable queue the calls made on the execution units are,
  as a multiset, exactly the calls of the commands that are now completed: none is made twice,
  none for a pending or faulted command. The counters are the numbers of slots with each status,
  no command is left half-way issued, and a faulted command is one whose opcode has no case.
\<close>

theorem cmdq_executes_once:
  assumes "cmdq_reachable cq"
  shows "mset (engine_log cq)
           = mset (concat (map (\<lambda>c. the (dispatch (cmd_opcode c) (cmd_operand c)))
                          (filter (\<lambda>c. cmd_status c = TU_CMD_COMPLETED) (commands cq))))
    \<and> tu_cmdq_get_counts cq
        = (of_nat (unat (tu_cmdq_get_depth cq)),
           of_nat (length (filter (\<lambda>c. cmd_status c = TU_CMD_COMPLETED) (commands cq))),
           of_nat (length (filter (\<lambda>c. cmd_status c = TU_CMD_FAULTED) (commands cq))))
    \<and> (\<forall>c\<in>set (commands cq). cmd_status c \<noteq> TU_CMD_ISSUED \<and>
         (cmd_status c = TU_CMD_COMPLETED \<longrightarrow> dispatch (cmd_opcode c) (cmd_operand c) \<noteq> None) \<and>
         (cmd_status c = TU_CMD_FAULTED \<longrightarrow> dispatch (cmd_opcode c) (cmd_operand c) = None))"
  using cmdq_reachable_inv [OF assms]
  by (auto simp: cmdq_inv_def log_ok_def counters_ok_def list_all_iff command_ok_def
      concat_calls_made [symmetric] tu_cmdq_get_counts_def tu_cmdq_get_depth_def)

definition mma_op :: cmd_op where
  "mma_op = Op_mma \<lparr>mma_M = 2, mma_N = 3, mma_K = 4, w_offset = 0, a_offset = 64, o_offset = 128,
     has_bias = False\<rparr>"

definition sample_queue :: "bool \<Rightarrow> cmdq" where
  "sample_queue sync =
    snd (snd (tu_cmdq_submit
      (snd (snd (tu_cmdq_submit (tu_cmdq_create 4 sync) TU_ISA_CONV2D None [])))
      TU_ISA_MMA (Some mma_op) [1]))"

lemma sample_queue_reachable: "cmdq_reachable (sample_queue sync)"
  unfolding sample_queue_def by (intro cmdq_reachable.intros)

theorem cmdq_executes_once_witness:
  "mset (engine_log (sample_queue True)) = {# Mma 2 3 4 0 64 128 False #}"
proof -
  have "concat (map (\<lambda>c. the (dispatch (cmd_opcode c) (cmd_operand c)))
          (filter (\<lambda>c. cmd_status c = TU_CMD_COMPLETED) (commands (sample_queue True))))
        = [Mma 2 3 4 0 64 128 False]"
    by code_simp
  then show ?thesis
    using cmdq_executes_once [OF sample_queue_reachable [of True]] by simp
qed

text \<open>
  C5. A tick respects dependencies and the last barrier. When a tick of a reachable queue
  finishes a command that was pending, every queued command with an id in its dependency list is
  completed after the tick, and when the command was submitted after the latest barrier, every
  barrier in the queue is completed.
\<close>

theorem tick_respects_order:
  assumes "cmdq_reachable cq" "i < length (commands cq)" "cmd_id (commands cq ! i) \<noteq> 0"
    "cmd_status (commands cq ! i) = TU_CMD_PENDING"
    "cmd_status (commands (fst (tu_cmdq_tick cq)) ! i) \<noteq> TU_CMD_PENDING"
  shows "(\<forall>p\<in>set (commands (fst (tu_cmdq_tick cq))). cmd_id p \<in> set (dep_ids (commands cq ! i)) \<longrightarrow>
            cmd_status p = TU_CMD_COMPLETED)
    \<and> (0 < last_barrier_id cq \<longrightarrow> last_barrier_id cq < cmd_id (commands cq ! i) \<longrightarrow>
         (\<forall>b\<in>set (commands (fst (tu_cmdq_tick cq))). cmd_id b \<noteq> 0 \<longrightarrow> is_barrier b \<longrightarrow>
            cmd_status b = TU_CMD_COMPLETED))"
proof -
  have inv: "cmdq_inv cq" using assms(1) by (rule cmdq_reachable_inv)
  show ?thesis
    using tick_slot_change [OF inv assms(2)] assms(3-5)
    unfolding deps_satisfied_iff [OF tick_keeps(1) [OF inv]] barrier_clear_iff by blast
qed

definition late_queue :: cmdq where
  "late_queue =
    (let submit = (\<lambda>deps cq. snd (snd (tu_cmdq_submit cq TU_ISA_NOP None deps)))
     in submit [] (submit [] (submit [0] (submit [0, 2] (tu_cmdq_create 4 False)))))"

lemma late_queue_reachable: "cmdq_reachable late_queue"
  unfolding late_queue_def Let_def by (intro cmdq_reachable.intros)

lemma late_queue_state:
  "map cmd_status (commands late_queue)
     = [TU_CMD_PENDING, TU_CMD_COMPLETED, TU_CMD_COMPLETED, TU_CMD_COMPLETED]"
  "map cmd_id (commands late_queue) = [1, 2, 3, 4]"
  "map dep_ids (commands late_queue) = [[0, 2], [0], [], []]"
  "map is_barrier (commands late_queue) = [False, False, False, False]"
  "map cmd_opcode (commands late_queue) = [TU_ISA_NOP, TU_ISA_NOP, TU_ISA_NOP, TU_ISA_NOP]"
  "\<not> synchronous late_queue"
  "cmd_status (commands (fst (tu_cmdq_tick late_queue)) ! 0) = TU_CMD_COMPLETED"
  by code_simp+

lemma late_queue_slots:
  "length (commands late_queue) = 4" "cmd_id (commands late_queue ! 0) = 1"
  "cmd_status (commands late_queue ! 0) = TU_CMD_PENDING" "dep_ids (commands late_queue ! 0) = [0, 2]"
  "cmd_opcode (commands late_queue ! 0) = TU_ISA_NOP"
proof -
  show l: "length (commands late_queue) = 4"
    using arg_cong [OF late_queue_state(2), of length] by simp
  then have z: "0 < length (commands late_queue)" by simp
  show "cmd_id (commands late_queue ! 0) = 1" "cmd_status (commands late_queue ! 0) = TU_CMD_PENDING"
    "dep_ids (commands late_queue ! 0) = [0, 2]" "cmd_opcode (commands late_queue ! 0) = TU_ISA_NOP"
    using nth_map [OF z, of cmd_id] nth_map [OF z, of cmd_status] nth_map [OF z, of dep_ids]
      nth_map [OF z, of cmd_opcode]
    by (simp_all add: late_queue_state)
qed

theorem tick_respects_order_witness:
  "filter (\<lambda>p. cmd_id p = 2 \<and> cmd_status p \<noteq> TU_CMD_COMPLETED)
     (commands (fst (tu_cmdq_tick late_queue))) = []"
  using tick_respects_order [OF late_queue_reachable, of 0]
  by (auto simp: late_queue_slots late_queue_state(7) filter_empty_conv)

text \<open>
  C6. A command that is ready by the code's own test runs at the next tick. In a reachable deferred-mode
  queue, a pending command whose queued dependencies are all completed, and that either is not
  younger than the latest barrier or sees every barrier completed, is finished by the next tick:
  completed when its opcode has a case, faulted otherwise. That test is weaker than what the header and
  the documentation promise of barriers, and the property covers the commands they would hold
  back: one between an older pending barrier and the latest one, as in the witness, and one behind a
  completed barrier while commands before that barrier are pending.
\<close>

theorem ready_command_runs:
  assumes "cmdq_reachable cq" "\<not> synchronous cq" "i < length (commands cq)"
    "cmd_id (commands cq ! i) \<noteq> 0" "cmd_status (commands cq ! i) = TU_CMD_PENDING"
    "\<forall>p\<in>set (commands cq). cmd_id p \<in> set (dep_ids (commands cq ! i)) \<longrightarrow>
       cmd_status p = TU_CMD_COMPLETED"
    "cmd_id (commands cq ! i) \<le> last_barrier_id cq \<or>
     (\<forall>b\<in>set (commands cq). cmd_id b \<noteq> 0 \<longrightarrow> is_barrier b \<longrightarrow> cmd_status b = TU_CMD_COMPLETED)"
  shows "cmd_status (commands (fst (tu_cmdq_tick cq)) ! i)
    = (if dispatch (cmd_opcode (commands cq ! i)) (cmd_operand (commands cq ! i)) = None
       then TU_CMD_FAULTED else TU_CMD_COMPLETED)"
proof -
  have inv: "cmdq_inv cq" using assms(1) by (rule cmdq_reachable_inv)
  show ?thesis
    by (rule tick_runs_ready [OF inv assms(3) _ assms(2)])
      (use assms(4-7) in \<open>auto simp: deps_satisfied_iff [OF inv] barrier_clear_iff not_less [symmetric]\<close>)
qed

text \<open>Command 3 waits for barrier 4, which completes behind it in the scan, and then overtakes barrier 2,
  which is stuck behind a faulted command.\<close>

definition overtaking_queue :: cmdq where
  "overtaking_queue =
    (let submit = (\<lambda>opcode deps cq. snd (snd (tu_cmdq_submit cq opcode None deps)))
     in submit TU_ISA_BARRIER [] (submit TU_ISA_NOP [4] (submit TU_ISA_BARRIER [1]
          (submit TU_ISA_CONV2D [] (tu_cmdq_create 4 False)))))"

lemma overtaking_queue_reachable: "cmdq_reachable overtaking_queue"
  unfolding overtaking_queue_def Let_def by (intro cmdq_reachable.intros)

lemma overtaking_queue_state:
  "map (\<lambda>c. (cmd_id c, cmd_status c, is_barrier c)) (commands overtaking_queue)
     = [(1, TU_CMD_FAULTED, False), (2, TU_CMD_PENDING, True), (3, TU_CMD_PENDING, False),
        (4, TU_CMD_COMPLETED, True)]"
  "length (commands overtaking_queue) = 4" "\<not> synchronous overtaking_queue" "last_barrier_id overtaking_queue = 4"
  "cmd_id (commands overtaking_queue ! 2) = 3" "cmd_status (commands overtaking_queue ! 2) = TU_CMD_PENDING"
  "cmd_opcode (commands overtaking_queue ! 2) = TU_ISA_NOP"
  "\<forall>p\<in>set (commands overtaking_queue). cmd_id p \<in> set (dep_ids (commands overtaking_queue ! 2)) \<longrightarrow>
     cmd_status p = TU_CMD_COMPLETED"
  by code_simp+

theorem ready_command_runs_witness:
  "map (\<lambda>c. (cmd_id c, cmd_status c, is_barrier c)) (take 3 (commands overtaking_queue))
     = [(1, TU_CMD_FAULTED, False), (2, TU_CMD_PENDING, True), (3, TU_CMD_PENDING, False)] \<and>
   cmd_status (commands (fst (tu_cmdq_tick overtaking_queue)) ! 2) = TU_CMD_COMPLETED"
proof -
  have "cmd_status (commands (fst (tu_cmdq_tick overtaking_queue)) ! 2)
    = (if dispatch (cmd_opcode (commands overtaking_queue ! 2)) (cmd_operand (commands overtaking_queue ! 2)) = None
       then TU_CMD_FAULTED else TU_CMD_COMPLETED)"
    by (rule ready_command_runs [OF overtaking_queue_reachable]) (simp_all add: overtaking_queue_state)
  then show ?thesis
    by (simp add: overtaking_queue_state take_map [symmetric] dispatch_def)
qed

text \<open>
  The capacity of a queue is its lifetime. The depth never goes down: in a reachable queue it
  equals the number of commands accepted since creation or reset, whatever has completed, so a
  submission is rejected (with -1, nothing stored and the queue unchanged) exactly when as many
  commands as the capacity were accepted before; an accepted one is counted and gets the next id.
\<close>

theorem capacity_is_lifetime:
  assumes "cmdq_reachable cq"
  shows "total_submitted cq = of_nat (unat (tu_cmdq_get_depth cq))
    \<and> tu_cmdq_submit cq opcode d deps
       = (if unat (capacity cq) \<le> unat (total_submitted cq) then (-1, None, cq)
          else (sint (next_cmd_id cq), Some (next_cmd_id cq),
                snd (snd (tu_cmdq_submit cq opcode d deps))))
    \<and> (unat (total_submitted cq) < unat (capacity cq) \<longrightarrow>
        unat (total_submitted (snd (snd (tu_cmdq_submit cq opcode d deps))))
          = Suc (unat (total_submitted cq)))
    \<and> total_submitted (fst (tu_cmdq_tick cq)) = total_submitted cq"
proof -
  have inv: "cmdq_inv cq" using assms by (rule cmdq_reachable_inv)
  have "unat (cnt cq) < 4294967296" using unsigned_less [of "cnt cq"] by simp
  then have sub: "unat (total_submitted cq) = unat (cnt cq)"
    using inv by (simp add: cmdq_inv_def counters_ok_def unat_of_nat take_bit_nat_eq_self)
  let ?q = "snd (snd (tu_cmdq_submit cq opcode d deps))"
  have inv': "cmdq_inv ?q" by (rule tu_cmdq_submit_inv [OF inv])
  have "total_submitted ?q = total_submitted cq + 1" if "cnt cq < capacity cq"
  proof -
    note e = enqueue_command_ok [OF inv that, where opcode = opcode and d = d and deps = deps]
    show ?thesis
    proof (cases "synchronous cq")
      case True
      then show ?thesis
        using that by (simp add: tu_cmdq_submit_def Let_def enqueue_command_def not_le [symmetric])
    next
      case False
      then have "cmdq_inv (enqueue_command cq (new_command cq opcode d deps))"
        by (rule enqueue_async_inv [OF inv that])
      from tick_frame(6) [OF this] show ?thesis
        using False that
        by (simp add: tu_cmdq_submit_def Let_def not_le [symmetric]) (simp add: enqueue_command_def)
    qed
  qed
  moreover have "unat (total_submitted cq + 1) = Suc (unat (total_submitted cq))"
    if "unat (total_submitted cq) < unat (capacity cq)"
  proof -
    have "unat (total_submitted cq) < 18446744073709551615"
      using \<open>unat (cnt cq) < 4294967296\<close> sub by linarith
    then show ?thesis by (subst unat_add_small) simp_all
  qed
  ultimately show ?thesis
    using inv sub tick_frame(6) [OF inv]
    by (auto simp: cmdq_inv_def counters_ok_def tu_cmdq_get_depth_def tu_cmdq_submit_def Let_def
        word_le_nat_alt word_less_nat_alt new_command_def)
qed

theorem capacity_is_lifetime_witness:
  "total_submitted late_queue = 4 \<and> tu_cmdq_submit late_queue TU_ISA_NOP None [] = (-1, None, late_queue)"
proof -
  have q: "total_submitted late_queue = 4" "capacity late_queue = 4" by code_simp+
  then have le: "unat (capacity late_queue) \<le> unat (total_submitted late_queue)" by simp
  have "tu_cmdq_submit late_queue TU_ISA_NOP None []
      = (if unat (capacity late_queue) \<le> unat (total_submitted late_queue) then (-1, None, late_queue)
         else (sint (next_cmd_id late_queue), Some (next_cmd_id late_queue),
               snd (snd (tu_cmdq_submit late_queue TU_ISA_NOP None []))))"
    by (rule conjunct1 [OF conjunct2 [OF capacity_is_lifetime [OF late_queue_reachable]]])
  also have "\<dots> = (-1, None, late_queue)" using le by (rule if_P)
  finally show ?thesis using q(1) by simp
qed

text \<open>
  Draining hangs. On a reachable queue \<open>tu_cmdq_sync\<close> either changes nothing or does not
  return: it returns at once in synchronous mode and on a queue to which nothing was submitted,
  and loops for ever on every deferred-mode queue that has accepted a command, even when all
  commands have completed.
\<close>

theorem sync_returns_iff_unused:
  assumes "cmdq_reachable cq"
  shows "tu_cmdq_sync cq
    = (if synchronous cq \<or> tu_cmdq_get_depth cq = 0 then Some cq else None)"
  using tu_cmdq_sync_cases [OF cmdq_reachable_inv [OF assms]] by (simp add: tu_cmdq_get_depth_def)

definition one_nop :: cmdq where
  "one_nop = snd (snd (tu_cmdq_submit (tu_cmdq_create 4 False) TU_ISA_NOP None []))"

lemma one_nop_reachable: "cmdq_reachable one_nop"
  unfolding one_nop_def by (intro cmdq_reachable.intros)

theorem sync_returns_iff_unused_witness:
  "total_completed one_nop = 1 \<and> tu_cmdq_sync one_nop = None"
proof -
  have "total_completed one_nop = 1" "\<not> synchronous one_nop" "tu_cmdq_get_depth one_nop = 1"
    by code_simp+
  then show ?thesis using sync_returns_iff_unused [OF one_nop_reachable] by simp
qed

text \<open>
  A deferred wait with a timeout returns. On a reachable deferred-mode queue, a wait with a
  positive timeout ends after at most that many cycles, in a reachable queue; it returns 0 only
  when the command's status is completed (or its id unknown), -3 only when it is faulted, and -1
  only when the timeout has elapsed.
\<close>

theorem wait_with_timeout_returns:
  assumes "cmdq_reachable cq" "\<not> synchronous cq" "0 < timeout"
  shows "\<exists>rc cq'. tu_cmdq_wait cq cid timeout = Some (rc, cq') \<and> cmdq_reachable cq' \<and>
    current_cycle cq' - current_cycle cq \<le> timeout \<and>
    ((rc = 0 \<and> tu_cmdq_get_status cq' cid = TU_CMD_COMPLETED) \<or>
     (rc = -3 \<and> tu_cmdq_get_status cq' cid = TU_CMD_FAULTED) \<or>
     (rc = -1 \<and> current_cycle cq' - current_cycle cq = timeout))"
proof -
  have inv: "cmdq_inv cq" using assms(1) by (rule cmdq_reachable_inv)
  have "unat (current_cycle cq - current_cycle cq) < unat timeout"
    using assms(3) by (simp add: word_less_nat_alt)
  from wait_loop_ends [OF inv assms(2) this, of "unat timeout" cid]
  obtain rc cq' where r: "tu_cmdq_wait cq cid timeout = Some (rc, cq')"
    "current_cycle cq' - current_cycle cq \<le> timeout"
    by (auto simp: tu_cmdq_wait_def)
  then have "wait_outcome cid timeout (current_cycle cq) (rc, cq')" "cmdq_reachable cq'"
    using wait_loop_result [of cid timeout "current_cycle cq" cq] wait_loop_reachable assms(1)
    by (force simp: tu_cmdq_wait_def)+
  then show ?thesis using r by (auto simp: wait_outcome_def)
qed

theorem wait_with_timeout_returns_witness:
  "\<exists>rc cq'. tu_cmdq_wait late_queue 1 10 = Some (rc, cq') \<and> current_cycle cq' - current_cycle late_queue \<le> 10"
  using wait_with_timeout_returns [OF late_queue_reachable late_queue_state(6), of 10 1] by auto

text \<open>
  A synchronous wait never ticks, so it returns at once or never. It returns 0 or -3 with the
  queue unchanged according to the command's status; waiting for the id 0 while the queue has a
  free slot matches that slot, which is pending, and does not return whatever the timeout.
\<close>

theorem synchronous_wait:
  assumes "cmdq_reachable cq" "synchronous cq"
  shows "tu_cmdq_wait cq cid timeout
    = (if cid = 0 \<and> tu_cmdq_get_depth cq < capacity cq then None
       else if tu_cmdq_get_status cq cid = TU_CMD_FAULTED then Some (-3, cq) else Some (0, cq))"
proof -
  have inv: "cmdq_inv cq" using assms(1) by (rule cmdq_reachable_inv)
  show ?thesis
  proof (cases "cid = 0 \<and> cnt cq < capacity cq")
    case True
    then have "slots_ok cq" "cnt cq < capacity cq" using inv by (auto simp: cmdq_inv_def)
    note free = head_is_next_free [OF this]
    have "blank_command \<in> set (commands cq)" using free(3,4) by (metis nth_mem)
    then obtain c where "find_command 0 cq = Some c" "cmd_status c = TU_CMD_PENDING"
      using find_command_status [OF inv, of blank_command 0] by auto
    then have "wait_loop cid timeout (current_cycle cq) cq = None"
      using True assms(2) sync_hang [of cid timeout "current_cycle cq" cq]
      by (cases "wait_loop cid timeout (current_cycle cq) cq") auto
    then show ?thesis using True by (simp add: tu_cmdq_wait_def tu_cmdq_get_depth_def)
  next
    case False
    have "cmd_status c = TU_CMD_COMPLETED \<or> cmd_status c = TU_CMD_FAULTED"
      if f: "find_command cid cq = Some c" for c
    proof -
      have c: "c \<in> set (commands cq)" "cmd_id c = cid"
        using f by (auto simp: find_command_def find_Some_iff)
      then obtain i where i: "i < length (commands cq)" "c = commands cq ! i"
        by (metis in_set_conv_nth)
      have "cmd_id c \<noteq> 0"
      proof
        assume z: "cmd_id c = 0"
        have "unat (cnt cq) \<le> i"
        proof (rule ccontr)
          assume "\<not> unat (cnt cq) \<le> i"
          then have lt: "i < unat (cnt cq)" by simp
          then have "cmd_id c = of_nat (Suc i)"
            using inv i(2) unfolding cmdq_inv_def slots_ok_def by blast
          then show False using z unat_live_id [OF lt] by simp
        qed
        then show False using False z c(2) i(1) cmdq_inv_width [OF inv]
          by (simp add: word_less_nat_alt)
      qed
      then show ?thesis
        using inv c(1) assms(2) tu_cmd_status.exhaust
        by (auto simp: cmdq_inv_def list_all_iff command_ok_def)
    qed
    then show ?thesis
      using False
      unfolding tu_cmdq_wait_def tu_cmdq_get_depth_def tu_cmdq_get_status_def
      by (subst wait_loop.simps) (auto split: option.split)
  qed
qed

theorem synchronous_wait_witness:
  "tu_cmdq_wait (sample_queue True) 0 1000 = None \<and> tu_cmdq_wait (sample_queue True) 1 0 = Some (-3, sample_queue True)"
proof -
  have "synchronous (sample_queue True)" "tu_cmdq_get_depth (sample_queue True) < capacity (sample_queue True)"
    "tu_cmdq_get_status (sample_queue True) 1 = TU_CMD_FAULTED"
    by code_simp+
  then show ?thesis
    using synchronous_wait [OF sample_queue_reachable] by simp
qed

text \<open>A series of submissions, each ignoring its result.\<close>

definition submit_request :: "cmdq \<Rightarrow> tu_isa_opcode \<times> cmd_op option \<times> u32 list \<Rightarrow> cmdq" where
  "submit_request cq req = (case req of (opcode, d, deps) \<Rightarrow> snd (snd (tu_cmdq_submit cq opcode d deps)))"

definition request_calls :: "tu_isa_opcode \<times> cmd_op option \<times> u32 list \<Rightarrow> engine_call list" where
  "request_calls req = (case req of (opcode, d, deps) \<Rightarrow>
     (case dispatch opcode (copy_operand opcode d) of None \<Rightarrow> [] | Some calls \<Rightarrow> calls))"

lemma submit_sync_step:
  assumes inv: "cmdq_inv cq" and sync: "synchronous cq"
  shows "engine_log (submit_request cq req)
           = engine_log cq @ (if cnt cq < capacity cq then request_calls req else [])
    \<and> synchronous (submit_request cq req) \<and> capacity (submit_request cq req) = capacity cq
    \<and> cnt (submit_request cq req) = (if cnt cq < capacity cq then cnt cq + 1 else cnt cq)
    \<and> cmdq_inv (submit_request cq req)"
proof -
  obtain opcode d deps where req: "req = (opcode, d, deps)" by (cases req)
  have i: "cmdq_inv (submit_request cq req)"
    using tu_cmdq_submit_inv [OF inv] by (simp add: submit_request_def req)
  show ?thesis
  proof (cases "cnt cq < capacity cq")
    case False
    then have "submit_request cq req = cq"
      by (simp add: submit_request_def req tu_cmdq_submit_def not_less)
    then show ?thesis using False sync i by simp
  next
    case True
    let ?c = "new_command cq opcode d deps"
    let ?q = "enqueue_command cq ?c"
    note e = enqueue_command_ok [OF inv True, where opcode = opcode and d = d and deps = deps]
    have q: "submit_request cq req = execute_command (unat (head cq)) ?q"
      using True sync
      by (simp add: submit_request_def req tu_cmdq_submit_def Let_def enqueue_command_def not_le [symmetric])
    have "calls_made (finish_command (current_cycle ?q) ?c) = request_calls req"
      by (auto simp: calls_made_def finish_command_def request_calls_def req new_command_def
          split: option.split)
    then have "engine_log (submit_request cq req) = engine_log ?q @ request_calls req"
      using execute_command_effect(2) [OF e(4)] e(5) q by simp
    then show ?thesis using True sync q i by (simp add: enqueue_command_def)
  qed
qed

text \<open>
  C34. Synchronous submission is in-order execution. Feeding any list of requests to a fresh
  synchronous queue makes exactly the calls of the first \<open>capacity\<close> requests, in submission order;
  dependency lists and barriers play no part, and requests with an unknown opcode contribute
  nothing.
\<close>

theorem synchronous_runs_in_order:
  "engine_log (foldl submit_request (tu_cmdq_create cap True) reqs)
    = concat (map request_calls (take (unat (capacity (tu_cmdq_create cap True))) reqs))"
proof -
  let ?room = "\<lambda>cq. unat (capacity cq) - unat (cnt cq)"
  have gen: "engine_log (foldl submit_request cq reqs)
      = engine_log cq @ concat (map request_calls (take (?room cq) reqs))"
    if "cmdq_inv cq" "synchronous cq" for cq
    using that
  proof (induction reqs arbitrary: cq)
    case (Cons req reqs)
    let ?q = "submit_request cq req"
    note st = submit_sync_step [OF Cons.prems, of req]
    have IH: "engine_log (foldl submit_request ?q reqs)
        = engine_log ?q @ concat (map request_calls (take (?room ?q) reqs))"
      using Cons.IH [of ?q] st by blast
    show ?case
    proof (cases "cnt cq < capacity cq")
      case True
      have "unat (cnt cq + 1) = Suc (unat (cnt cq))"
        using head_is_next_free(2) [OF _ True] Cons.prems(1) by (simp add: cmdq_inv_def)
      then have "?room cq = Suc (?room ?q)" using True st by (simp add: word_less_nat_alt)
      then show ?thesis using IH st True by simp
    next
      case False
      then have "?room cq = 0" "?room ?q = 0" using st by (simp_all add: word_less_nat_alt)
      then show ?thesis using IH st False by simp
    qed
  qed simp
  have "synchronous (tu_cmdq_create cap True)" "cnt (tu_cmdq_create cap True) = 0"
    "engine_log (tu_cmdq_create cap True) = []"
    by (simp_all add: tu_cmdq_create_def Let_def)
  then show ?thesis using gen [OF tu_cmdq_create_inv [of cap True]] by simp
qed

text \<open>
  A later barrier lets commands overtake an earlier one. Only the latest barrier's id is
  compared, so with barrier 2 stuck behind a faulted command, command 3 is held back, but
  submitting barrier 4 (which completes at once) releases command 3 while barrier 2 is still
  pending; commands after barrier 4 are then held back by barrier 2.
\<close>

definition stuck_barrier :: cmdq where
  "stuck_barrier =
    foldl submit_request (tu_cmdq_create 8 False)
      [(TU_ISA_CONV2D, None, []), (TU_ISA_BARRIER, None, [1]), (TU_ISA_MMA, Some mma_op, [])]"

theorem second_barrier_releases:
  "map cmd_status (take 3 (commands stuck_barrier)) = [TU_CMD_FAULTED, TU_CMD_PENDING, TU_CMD_PENDING]
    \<and> map cmd_status (take 5 (commands (submit_request (snd (tu_cmdq_barrier stuck_barrier)) (TU_ISA_NOP, None, []))))
       = [TU_CMD_FAULTED, TU_CMD_PENDING, TU_CMD_COMPLETED, TU_CMD_COMPLETED, TU_CMD_PENDING]
    \<and> engine_log (snd (tu_cmdq_barrier stuck_barrier)) = [Mma 2 3 4 0 64 128 False]"
  by code_simp


definition plain_op :: "cmd_ew_desc \<Rightarrow> nat \<Rightarrow> ew_op" where
  "plain_op d k = \<lparr>ew_opcode = ew_ops d ! k, ew_scalar = 0, ew_has_scalar = False\<rparr>"

definition scalar_op :: "cmd_ew_desc \<Rightarrow> nat \<Rightarrow> ew_op" where
  "scalar_op d k = \<lparr>ew_opcode = ew_ops d ! k, ew_scalar = scalars d ! k, ew_has_scalar = True\<rparr>"

lemma build_ew_ops_stuck:
  "\<not> (s < 4 \<and> has_scalar d ! s) \<Longrightarrow> build_ew_ops d i s n = map (plain_op d) [i..<i + n]"
proof (induction n arbitrary: i)
  case (Suc n)
  then have "build_ew_ops d (Suc i) s n = map (plain_op d) [Suc i..<Suc i + n]" by blast
  then show ?case using Suc.prems by (simp add: plain_op_def upt_rec [of i])
qed simp

lemma build_ew_ops_run:
  "build_ew_ops d i i n
    = map (\<lambda>k. if k < 4 \<and> (\<forall>j\<in>{i..k}. has_scalar d ! j) then scalar_op d k else plain_op d k) [i..<i + n]"
proof (induction n arbitrary: i)
  case (Suc n)
  let ?op = "\<lambda>i k. if k < 4 \<and> (\<forall>j\<in>{i..k}. has_scalar d ! j) then scalar_op d k else plain_op d k"
  have up: "[i..<i + Suc n] = i # [Suc i..<Suc i + n]" by (simp add: upt_rec [of i])
  show ?case
  proof (cases "i < 4 \<and> has_scalar d ! i")
    case True
    have eq: "?op (Suc i) k = ?op i k" if "Suc i \<le> k" for k
    proof -
      have "{i..k} = insert i {Suc i..k}" using that by auto
      then show ?thesis using True by simp
    qed
    have "build_ew_ops d i i (Suc n) = scalar_op d i # map (?op (Suc i)) [Suc i..<Suc i + n]"
      using True Suc.IH [of "Suc i"] by (simp add: scalar_op_def)
    also have "map (?op (Suc i)) [Suc i..<Suc i + n] = map (?op i) [Suc i..<Suc i + n]"
      using eq by (intro map_cong refl) (simp only: atLeastLessThan_iff set_upt)
    finally show ?thesis unfolding up using True by simp
  next
    case False
    have "build_ew_ops d i i (Suc n) = map (plain_op d) [i..<i + Suc n]"
      by (rule build_ew_ops_stuck [OF False])
    also have "\<dots> = map (?op i) [i..<i + Suc n]"
    proof (rule map_cong [OF refl])
      fix k assume "k \<in> set [i..<i + Suc n]"
      then have "i \<in> {i..k}" by auto
      then have "\<not> (k < 4 \<and> (\<forall>j\<in>{i..k}. has_scalar d ! j))"
        using False \<open>i \<in> {i..k}\<close> by (metis atLeastAtMost_iff le_less_trans)
      then show "plain_op d k = ?op i k" by (simp only: if_False)
    qed
    finally show ?thesis .
  qed
qed simp

text \<open>
  Which fused operations get a scalar. The chain handed to the elementwise unit has the
  command's first \<open>num_ops\<close> (at most 8) opcodes in order, and operation \<open>k\<close> carries a scalar exactly
  when \<open>k < 4\<close> and the flags of all operations up to and including \<open>k\<close> are set; the scalar is then
  entry \<open>k\<close>. A flagged operation behind an unflagged one is therefore run without its scalar.
\<close>

theorem ew_chain_scalars:
  "length (ew_chain d) = min (unat (num_ops d)) 8
    \<and> (k < min (unat (num_ops d)) 8 \<longrightarrow>
        ew_chain d ! k
          = (if k < 4 \<and> (\<forall>j\<in>{0..k}. has_scalar d ! j)
             then \<lparr>ew_opcode = ew_ops d ! k, ew_scalar = scalars d ! k, ew_has_scalar = True\<rparr>
             else \<lparr>ew_opcode = ew_ops d ! k, ew_scalar = 0, ew_has_scalar = False\<rparr>))"
  unfolding ew_chain_def build_ew_ops_run by (simp add: scalar_op_def plain_op_def)

theorem ew_chain_scalars_witness:
  "ew_chain \<lparr>ew_sram_offset = 0, elem_count = 4, num_ops = 2, ew_ops = [9, 1, 0, 0, 0, 0, 0, 0],
      scalars = [7, 8, 0, 0], has_scalar = [False, True, False, False], sram_region = 0\<rparr> ! 1
    = \<lparr>ew_opcode = 1, ew_scalar = 0, ew_has_scalar = False\<rparr>"
  using ew_chain_scalars [of "\<lparr>ew_sram_offset = 0, elem_count = 4, num_ops = 2,
      ew_ops = [9, 1, 0, 0, 0, 0, 0, 0], scalars = [7, 8, 0, 0],
      has_scalar = [False, True, False, False], sram_region = 0\<rparr>" 1]
  by (simp add: atLeastAtMost_upt)
end
