(* ===== verification/Address_Gen.thy ===== *)
theory Address_Gen
  imports Prelude
begin

text \<open>
  The hardware address generator of \<open>tu_cmodel/memory/address_generator.[ch]\<close>: im2col output
  shapes, tile grids, the streaming iterator with its eight modes, bulk generation of addresses
  and of contiguous ranges, and the im2col point query. All quantities keep their C width: the
  fields are 32-bit words and the \<open>uint64_t\<close> temporaries are 64-bit words. The \<open>mode\<close> and the
  untyped \<open>config\<close> pointer of \<open>tu_agen_iterator_init\<close> are one datatype, \<open>agen_view\<close>, with a
  constructor per mode that carries the configuration the mode casts the pointer to.
\<close>

section \<open>Data\<close>

datatype tu_agen_mode =
  TU_AGEN_MODE_LINEAR | TU_AGEN_MODE_STRIDED_2D | TU_AGEN_MODE_STRIDED_3D | TU_AGEN_MODE_TILED_2D
| TU_AGEN_MODE_TILED_3D | TU_AGEN_MODE_IM2COL | TU_AGEN_MODE_BLOCK_INTERLEAVED
| TU_AGEN_MODE_TRANSPOSED | AGEN_MODE_OTHER

record tu_agen_range =
  rg_base_addr :: u32
  rg_elem_size :: u32
  rg_total_bytes :: u32
  rg_stride :: u32

record tu_agen_tiling =
  tl_num_tiles :: u32
  tl_tiles_per_dim :: "u32 \<times> u32 \<times> u32"
  tl_tile_dims :: "u32 \<times> u32 \<times> u32"
  tl_total_dims :: "u32 \<times> u32 \<times> u32"
  tl_elem_size :: u32

record tu_agen_im2col =
  im_input_h :: u32
  im_input_w :: u32
  im_input_c :: u32
  im_kernel_h :: u32
  im_kernel_w :: u32
  im_pad_h :: u32
  im_pad_w :: u32
  im_stride_h :: u32
  im_stride_w :: u32
  im_dilation_h :: u32
  im_dilation_w :: u32
  im_output_h :: u32
  im_output_w :: u32
  im_elem_size :: u32

record tu_agen_2d_config =
  c2_rows :: u32
  c2_cols :: u32
  c2_row_stride :: u32

record tu_agen_tiled2d_config =
  t2_total_rows :: u32
  t2_total_cols :: u32
  t2_tile_rows :: u32
  t2_tile_cols :: u32
  t2_num_tile_rows :: u32
  t2_num_tile_cols :: u32

text \<open>
  A mode with its configuration; \<open>None\<close> is the null pointer. The arrays of words are
  \<open>{count, size}\<close>, \<open>{D, R, C, depth stride, row stride, size}\<close>,
  \<open>{D, R, C, tile D, tile R, tile C, size}\<close>, \<open>{count, banks, block width, size}\<close> and
  \<open>{rows, cols, size}\<close>.
\<close>

datatype agen_view =
  Linear "(u32 \<times> u32) option"
| Strided_2D "tu_agen_2d_config option"
| Strided_3D "(u32 \<times> u32 \<times> u32 \<times> u32 \<times> u32 \<times> u32) option"
| Tiled_2D "tu_agen_tiled2d_config option"
| Tiled_3D "(u32 \<times> u32 \<times> u32 \<times> u32 \<times> u32 \<times> u32 \<times> u32) option"
| Im2col "tu_agen_im2col option"
| Block_Interleaved "(u32 \<times> u32 \<times> u32 \<times> u32) option"
| Transposed "(u32 \<times> u32 \<times> u32) option"
| Other_Mode

fun view_mode :: "agen_view \<Rightarrow> tu_agen_mode" where
  "view_mode (Linear _) = TU_AGEN_MODE_LINEAR"
| "view_mode (Strided_2D _) = TU_AGEN_MODE_STRIDED_2D"
| "view_mode (Strided_3D _) = TU_AGEN_MODE_STRIDED_3D"
| "view_mode (Tiled_2D _) = TU_AGEN_MODE_TILED_2D"
| "view_mode (Tiled_3D _) = TU_AGEN_MODE_TILED_3D"
| "view_mode (Im2col _) = TU_AGEN_MODE_IM2COL"
| "view_mode (Block_Interleaved _) = TU_AGEN_MODE_BLOCK_INTERLEAVED"
| "view_mode (Transposed _) = TU_AGEN_MODE_TRANSPOSED"
| "view_mode Other_Mode = AGEN_MODE_OTHER"

record tu_agen_iterator =
  it_mode :: tu_agen_mode
  it_base_addr :: u32
  it_elem_size :: u32
  it_current_idx :: u32
  it_dims :: "u32 \<times> u32 \<times> u32"
  it_strides :: "u32 \<times> u32 \<times> u32"
  it_tile_dims :: "u32 \<times> u32 \<times> u32"
  it_total_dims :: "u32 \<times> u32 \<times> u32"
  it_im2col :: tu_agen_im2col
  it_total_elements :: u32
  it_num_banks :: u32
  it_bank_width :: u32

text \<open>
  The iterator keeps the im2col fields flat; here they are a \<open>tu_agen_im2col\<close> record inside it
  (\<open>kernel_h\<close> to \<open>output_w\<close> of the struct).
\<close>

definition zero_im2col :: tu_agen_im2col where
  "zero_im2col = \<lparr>im_input_h = 0, im_input_w = 0, im_input_c = 0, im_kernel_h = 0, im_kernel_w = 0,
     im_pad_h = 0, im_pad_w = 0, im_stride_h = 0, im_stride_w = 0, im_dilation_h = 0,
     im_dilation_w = 0, im_output_h = 0, im_output_w = 0, im_elem_size = 0\<rparr>"

text \<open>The iterator after \<open>memset\<close> and the three assignments that follow it.\<close>

definition fresh_iterator :: "tu_agen_mode \<Rightarrow> u32 \<Rightarrow> tu_agen_iterator" where
  "fresh_iterator mode base_addr = \<lparr>it_mode = mode, it_base_addr = base_addr, it_elem_size = 0,
     it_current_idx = 0, it_dims = (0, 0, 0), it_strides = (0, 0, 0), it_tile_dims = (0, 0, 0),
     it_total_dims = (0, 0, 0), it_im2col = zero_im2col, it_total_elements = 0,
     it_num_banks = 0, it_bank_width = 0\<rparr>"

section \<open>Shapes\<close>

text \<open>One axis of \<open>im2col_output_dims\<close>, in 64 bits.\<close>

definition im2col_axis :: "u32 \<Rightarrow> u32 \<Rightarrow> u32 \<Rightarrow> u32 \<Rightarrow> u32 \<Rightarrow> u64" where
  "im2col_axis input kern pad stride dilation =
     (let k = ucast (kern - 1) * ucast dilation + 1 :: u64;
          h = ucast input + 2 * ucast pad
      in if input = 0 \<or> h < k then 0 else (h - k) div ucast stride + 1)"

definition im2col_output_dims :: "tu_agen_im2col \<Rightarrow> bool \<times> u32 \<times> u32" where
  "im2col_output_dims cfg =
     (if im_kernel_h cfg = 0 \<or> im_kernel_w cfg = 0 \<or> im_stride_h cfg = 0 \<or> im_stride_w cfg = 0
         \<or> im_dilation_h cfg = 0 \<or> im_dilation_w cfg = 0 then (False, 0, 0)
      else let nh = im2col_axis (im_input_h cfg) (im_kernel_h cfg) (im_pad_h cfg) (im_stride_h cfg)
                      (im_dilation_h cfg);
               nw = im2col_axis (im_input_w cfg) (im_kernel_w cfg) (im_pad_w cfg) (im_stride_w cfg)
                      (im_dilation_w cfg)
           in if nh > 0xFFFFFFFF \<or> nw > 0xFFFFFFFF then (False, 0, 0)
              else (True, ucast nh, ucast nw))"

definition tu_agen_im2col_dims :: "tu_agen_im2col \<Rightarrow> tu_agen_im2col" where
  "tu_agen_im2col_dims im2col =
     (let (_, oh, ow) = im2col_output_dims im2col
      in im2col\<lparr>im_output_h := oh, im_output_w := ow\<rparr>)"

text \<open>Ceiling division as the code writes it, and one axis of the tile grid.\<close>

definition ceil_div_u32 :: "u32 \<Rightarrow> u32 \<Rightarrow> u32" where
  "ceil_div_u32 n t = n div t + (if n mod t \<noteq> 0 then 1 else 0)"

definition tile_axis :: "u32 \<Rightarrow> u32" where
  "tile_axis t = (if t = 0 then 1 else t)"

text \<open>
  One round of the counting loops, whose counter has 32 bits for tiles and 64 for im2col;
  \<open>None\<close> is the early return.
\<close>

definition count_factor :: "'a::len word option \<Rightarrow> u32 \<Rightarrow> 'a word option" where
  "count_factor cnt f = (case cnt of None \<Rightarrow> None
     | Some n \<Rightarrow> if n > ucast (UINT32_MAX div f) then None else Some (n * ucast f))"

definition tu_agen_compute_tiling :: "tu_agen_tiling \<Rightarrow> tu_agen_tiling" where
  "tu_agen_compute_tiling tiling =
     (let (t0, t1, t2) = tl_tile_dims tiling;
          (n0, n1, n2) = tl_total_dims tiling;
          (t0, t1, t2) = (tile_axis t0, tile_axis t1, tile_axis t2);
          (p0, p1, p2) = (ceil_div_u32 n0 t0, ceil_div_u32 n1 t1, ceil_div_u32 n2 t2);
          grid = tiling\<lparr>tl_tile_dims := (t0, t1, t2), tl_tiles_per_dim := (p0, p1, p2),
                        tl_num_tiles := 0\<rparr>
      in if p0 = 0 \<or> p1 = 0 \<or> p2 = 0 then grid
         else (case foldl count_factor (Some 1) [p0, p1, p2] of
                 None \<Rightarrow> grid
               | Some cnt \<Rightarrow> grid\<lparr>tl_num_tiles := cnt\<rparr>))"

section \<open>Geometry checks\<close>

definition tiled_geometry_valid :: "u32 \<Rightarrow> u32 \<Rightarrow> u32 \<Rightarrow> u32 \<Rightarrow> u32 \<Rightarrow> bool" where
  "tiled_geometry_valid base d r c sz =
     (if d = 0 \<or> r = 0 \<or> c = 0 then True
      else let cnt = ucast d * ucast r :: u64
           in if cnt > 0xFFFFFFFF then False
              else let cnt = cnt * ucast c
                   in cnt \<le> 0xFFFFFFFF \<and> ucast base + cnt * ucast sz \<le> 0xFFFFFFFF)"

definition affine_geometry_valid ::
  "u32 \<Rightarrow> u32 \<Rightarrow> u32 \<Rightarrow> u32 \<Rightarrow> u32 \<Rightarrow> u32 \<Rightarrow> u32 \<Rightarrow> bool" where
  "affine_geometry_valid base d r c ds rs sz =
     (if d = 0 \<or> r = 0 \<or> c = 0 then True
      else let cnt = ucast d * ucast r :: u64
           in if cnt > 0xFFFFFFFF \<or> cnt * ucast c > 0xFFFFFFFF \<or> sz = 0 then False
              else let budget = ucast ((UINT32_MAX - base) div sz) :: u64
                   in if ucast c > budget then False
                      else let budget = budget - ucast c;
                               rows = ucast (r - 1) * ucast rs
                           in if rows > budget then False
                              else ucast (d - 1) * ucast ds \<le> budget - rows)"

definition tiled_offset :: "u32 \<Rightarrow> u32 \<Rightarrow> u32 \<Rightarrow> u32 \<Rightarrow> u32 \<Rightarrow> u32 \<Rightarrow> u32 \<Rightarrow> u32" where
  "tiled_offset idx d r c td tr tc =
     (let td = min td d; tr = min tr r; tc = min tc c;
          slab = td * r * c;
          db = (idx div slab) * td;
          de = min td (d - db);
          idx = idx mod slab;
          slab = de * tr * c;
          rb = (idx div slab) * tr;
          re = min tr (r - rb);
          idx = idx mod slab;
          slab = de * re * tc;
          cb = (idx div slab) * tc;
          ce = min tc (c - cb);
          idx = idx mod slab;
          dz = idx div (re * ce);
          ry = (idx div ce) mod re;
          cx = idx mod ce
      in ((db + dz) * r + rb + ry) * c + cb + cx)"

section \<open>Initialization\<close>

text \<open>\<open>s ? s : 4\<close>.\<close>

definition size_or_4 :: "u32 \<Rightarrow> u32" where
  "size_or_4 s = (if s \<noteq> 0 then s else 4)"

text \<open>The expanded entry cnt of an im2col view; \<open>None\<close> when it does not fit or a check fails.\<close>

definition im2col_count :: "u32 \<Rightarrow> tu_agen_im2col \<Rightarrow> u32 \<Rightarrow> u32 \<Rightarrow> u32 \<Rightarrow> u64 option" where
  "im2col_count base_addr cfg oh ow sz =
     (if oh \<noteq> 0 \<and> ow \<noteq> 0 \<and> im_input_c cfg \<noteq> 0 then
        (case foldl count_factor (Some 1)
                [oh, ow, im_kernel_h cfg, im_kernel_w cfg, im_input_c cfg] of
           None \<Rightarrow> None
         | Some cnt \<Rightarrow>
             if tiled_geometry_valid base_addr (im_input_c cfg) (im_input_h cfg) (im_input_w cfg) sz
             then Some cnt else None)
      else Some 0)"

text \<open>The return code and the iterator; the object passed in is overwritten in every branch.\<close>

fun tu_agen_iterator_init :: "agen_view \<Rightarrow> u32 \<Rightarrow> int \<times> tu_agen_iterator" where
  "tu_agen_iterator_init (Linear config) base_addr =
     (let it = fresh_iterator TU_AGEN_MODE_LINEAR base_addr;
          (elem_count, elem_size) = (case config of Some c \<Rightarrow> c | None \<Rightarrow> (0, 1))
      in if \<not> affine_geometry_valid base_addr 1 1 elem_count 0 0 elem_size then (- 1, it)
         else (0, it\<lparr>it_elem_size := elem_size, it_dims := (elem_count, 0, 0),
                     it_total_elements := elem_count\<rparr>))"
| "tu_agen_iterator_init (Strided_2D config) base_addr =
     (let it = fresh_iterator TU_AGEN_MODE_STRIDED_2D base_addr
      in case config of
           None \<Rightarrow> (- 1, it)
         | Some cfg \<Rightarrow>
             if \<not> affine_geometry_valid base_addr 1 (c2_rows cfg) (c2_cols cfg) 0 (c2_row_stride cfg) 4
             then (- 1, it)
             else (0, it\<lparr>it_dims := (c2_rows cfg, c2_cols cfg, 0),
                         it_strides := (c2_row_stride cfg, 0, 0),
                         it_total_elements := c2_rows cfg * c2_cols cfg,
                         it_elem_size := (if c2_rows cfg > 0 \<and> c2_cols cfg > 0 then 4 else 0)\<rparr>))"
| "tu_agen_iterator_init (Strided_3D config) base_addr =
     (let it = fresh_iterator TU_AGEN_MODE_STRIDED_3D base_addr
      in case config of
           None \<Rightarrow> (- 1, it)
         | Some (d, r, c, ds, rs, sz) \<Rightarrow>
             if \<not> affine_geometry_valid base_addr d r c ds rs (size_or_4 sz) then (- 1, it)
             else (0, it\<lparr>it_dims := (d, r, c), it_strides := (ds, rs, 0),
                         it_elem_size := size_or_4 sz, it_total_elements := d * r * c\<rparr>))"
| "tu_agen_iterator_init (Tiled_2D config) base_addr =
     (let it = fresh_iterator TU_AGEN_MODE_TILED_2D base_addr
      in case config of
           None \<Rightarrow> (- 1, it)
         | Some cfg \<Rightarrow>
             if t2_tile_rows cfg = 0 \<or> t2_tile_cols cfg = 0
                \<or> \<not> tiled_geometry_valid base_addr 1 (t2_total_rows cfg) (t2_total_cols cfg) 4
             then (- 1, it)
             else let nr = ceil_div_u32 (t2_total_rows cfg) (t2_tile_rows cfg);
                      nc = ceil_div_u32 (t2_total_cols cfg) (t2_tile_cols cfg)
                  in if (t2_num_tile_rows cfg \<noteq> 0 \<and> t2_num_tile_rows cfg \<noteq> nr)
                        \<or> (t2_num_tile_cols cfg \<noteq> 0 \<and> t2_num_tile_cols cfg \<noteq> nc) then (- 1, it)
                     else (0, it\<lparr>it_total_dims := (t2_total_rows cfg, t2_total_cols cfg, 0),
                                 it_tile_dims := (t2_tile_rows cfg, t2_tile_cols cfg, 0),
                                 it_dims := (nr, nc, 0),
                                 it_total_elements := t2_total_rows cfg * t2_total_cols cfg,
                                 it_elem_size := 4\<rparr>))"
| "tu_agen_iterator_init (Tiled_3D config) base_addr =
     (let it = fresh_iterator TU_AGEN_MODE_TILED_3D base_addr
      in case config of
           None \<Rightarrow> (- 1, it)
         | Some (d, r, c, td, tr, tc, sz) \<Rightarrow>
             if td = 0 \<or> tr = 0 \<or> tc = 0
                \<or> \<not> tiled_geometry_valid base_addr d r c (size_or_4 sz)
             then (- 1, it)
             else (0, it\<lparr>it_total_dims := (d, r, c), it_tile_dims := (td, tr, tc),
                         it_elem_size := size_or_4 sz,
                         it_dims := (ceil_div_u32 d td, ceil_div_u32 r tr, ceil_div_u32 c tc),
                         it_total_elements := d * r * c\<rparr>))"
| "tu_agen_iterator_init (Im2col config) base_addr =
     (let it = fresh_iterator TU_AGEN_MODE_IM2COL base_addr
      in case config of
           None \<Rightarrow> (- 1, it)
         | Some cfg \<Rightarrow>
             (let (ok, oh, ow) = im2col_output_dims cfg; sz = size_or_4 (im_elem_size cfg)
              in if \<not> ok then (- 1, it)
                 else case im2col_count base_addr cfg oh ow sz of
                        None \<Rightarrow> (- 1, it)
                      | Some cnt \<Rightarrow>
                          (0, it\<lparr>it_im2col := cfg\<lparr>im_output_h := oh, im_output_w := ow\<rparr>,
                                 it_elem_size := sz, it_total_elements := ucast cnt\<rparr>)))"
| "tu_agen_iterator_init (Block_Interleaved config) base_addr =
     (let it = fresh_iterator TU_AGEN_MODE_BLOCK_INTERLEAVED base_addr
      in case config of
           None \<Rightarrow> (- 1, it)
         | Some (cnt, banks, width, sz) \<Rightarrow>
             if \<not> affine_geometry_valid base_addr 1 1 cnt 0 0 (size_or_4 sz) then (- 1, it)
             else (0, it\<lparr>it_total_elements := cnt,
                         it_num_banks := (if banks \<noteq> 0 then banks else 1),
                         it_bank_width := (if width \<noteq> 0 then width else 1),
                         it_elem_size := size_or_4 sz\<rparr>))"
| "tu_agen_iterator_init (Transposed config) base_addr =
     (let it = fresh_iterator TU_AGEN_MODE_TRANSPOSED base_addr
      in case config of
           None \<Rightarrow> (- 1, it)
         | Some (rows, cols, sz) \<Rightarrow>
             if \<not> affine_geometry_valid base_addr 1 rows cols 0 cols (size_or_4 sz) then (- 1, it)
             else (0, it\<lparr>it_dims := (cols, rows, 0), it_strides := (1, cols, 0),
                         it_elem_size := size_or_4 sz, it_total_elements := rows * cols\<rparr>))"
| "tu_agen_iterator_init Other_Mode base_addr = (- 1, fresh_iterator AGEN_MODE_OTHER base_addr)"

section \<open>Streaming\<close>

text \<open>The address of entry \<open>idx\<close>: the \<open>switch\<close> of \<open>tu_agen_next\<close>.\<close>

definition im2col_entry :: "tu_agen_iterator \<Rightarrow> u32 \<Rightarrow> u32" where
  "im2col_entry it idx =
     (let cfg = it_im2col it;
          per_ic = im_kernel_h cfg * im_kernel_w cfg;
          per_ow = per_ic * im_input_c cfg;
          per_oh = per_ow * im_output_w cfg;
          oh = idx div per_oh;
          r1 = idx mod per_oh;
          ow = r1 div per_ow;
          r2 = r1 mod per_ow;
          ic = r2 mod im_input_c cfg;
          r3 = r2 div im_input_c cfg;
          kh = r3 div im_kernel_w cfg;
          kw = r3 mod im_kernel_w cfg;
          h_in = ucast oh * ucast (im_stride_h cfg) + ucast kh * ucast (im_dilation_h cfg) :: u64;
          w_in = ucast ow * ucast (im_stride_w cfg) + ucast kw * ucast (im_dilation_w cfg) :: u64
      in if h_in \<ge> ucast (im_pad_h cfg) \<and> w_in \<ge> ucast (im_pad_w cfg)
            \<and> h_in - ucast (im_pad_h cfg) < ucast (im_input_h cfg)
            \<and> w_in - ucast (im_pad_w cfg) < ucast (im_input_w cfg)
         then let h_in = h_in - ucast (im_pad_h cfg); w_in = w_in - ucast (im_pad_w cfg)
              in ucast (ucast (it_base_addr it)
                   + (ucast (ic * im_input_h cfg * im_input_w cfg)
                      + h_in * ucast (im_input_w cfg) + w_in) * ucast (it_elem_size it))
         else 0xFFFFFF00)"

definition agen_address :: "tu_agen_iterator \<Rightarrow> u32 \<Rightarrow> u32" where
  "agen_address it idx =
     (let (d0, d1, d2) = it_dims it; (s0, s1, s2) = it_strides it;
          (n0, n1, n2) = it_total_dims it; (t0, t1, t2) = it_tile_dims it;
          base_addr = it_base_addr it; elem_size = it_elem_size it
      in case it_mode it of
           TU_AGEN_MODE_LINEAR \<Rightarrow> base_addr + idx * elem_size
         | TU_AGEN_MODE_STRIDED_2D \<Rightarrow>
             (let row = idx div d1; col = idx mod d1
              in base_addr + (row * s0 + col) * elem_size)
         | TU_AGEN_MODE_STRIDED_3D \<Rightarrow>
             (let depth = idx div (d1 * d2); rem = idx mod (d1 * d2);
                  row = rem div d2; col = rem mod d2
              in base_addr + (depth * s0 + row * s1 + col) * elem_size)
         | TU_AGEN_MODE_TILED_2D \<Rightarrow> base_addr + tiled_offset idx 1 n0 n1 1 t0 t1 * elem_size
         | TU_AGEN_MODE_TILED_3D \<Rightarrow> base_addr + tiled_offset idx n0 n1 n2 t0 t1 t2 * elem_size
         | TU_AGEN_MODE_IM2COL \<Rightarrow> im2col_entry it idx
         | TU_AGEN_MODE_BLOCK_INTERLEAVED \<Rightarrow>
             (let bank = idx mod it_bank_width it; elem = idx div it_bank_width it
              in base_addr + (elem * it_bank_width it + bank) * elem_size)
         | TU_AGEN_MODE_TRANSPOSED \<Rightarrow>
             (let col = idx div d1; row = idx mod d1
              in base_addr + (row * s1 + col) * elem_size)
         | AGEN_MODE_OTHER \<Rightarrow> UINT32_MAX)"

definition tu_agen_has_next :: "tu_agen_iterator \<Rightarrow> bool" where
  "tu_agen_has_next it \<longleftrightarrow> it_current_idx it < it_total_elements it"

definition tu_agen_reset :: "tu_agen_iterator \<Rightarrow> tu_agen_iterator" where
  "tu_agen_reset it = it\<lparr>it_current_idx := 0\<rparr>"

definition tu_agen_total :: "tu_agen_iterator \<Rightarrow> u32" where
  "tu_agen_total it = it_total_elements it"

definition tu_agen_next :: "tu_agen_iterator \<Rightarrow> u32 \<times> tu_agen_iterator" where
  "tu_agen_next it =
     (if it_current_idx it \<ge> it_total_elements it then (UINT32_MAX, it)
      else (agen_address it (it_current_idx it), it\<lparr>it_current_idx := it_current_idx it + 1\<rparr>))"

section \<open>Bulk generation\<close>

text \<open>The loop of \<open>tu_agen_generate_all\<close>; the buffer written so far is \<open>acc\<close>.\<close>

function generate_loop :: "tu_agen_iterator \<Rightarrow> nat \<Rightarrow> u32 list \<Rightarrow> tu_agen_iterator \<times> u32 list" where
  "generate_loop it buffer_size acc =
     (if tu_agen_has_next it \<and> length acc < buffer_size
      then (let (addr, it') = tu_agen_next it in generate_loop it' buffer_size (acc @ [addr]))
      else (it, acc))"
  by pat_completeness auto
termination
  by (relation "measure (\<lambda>(it, n, acc). n - length acc)") auto

declare generate_loop.simps [simp del]

text \<open>The addresses stored in the buffer (their number is the return value) and the iterator.\<close>

definition tu_agen_generate_all :: "tu_agen_iterator \<Rightarrow> u32 \<Rightarrow> tu_agen_iterator \<times> u32 list" where
  "tu_agen_generate_all it buffer_size = generate_loop (tu_agen_reset it) (unat buffer_size) []"

text \<open>The local state of \<open>tu_agen_generate_ranges\<close> and the store of one finished range.\<close>

record range_state =
  rs_iter :: tu_agen_iterator
  rs_prev_addr :: u32
  rs_range_start :: u32
  rs_range_len :: u32
  rs_range_count :: nat
  rs_ranges :: "tu_agen_range list"

definition store_range :: "u32 \<Rightarrow> u32 \<Rightarrow> range_state \<Rightarrow> range_state" where
  "store_range elem_size max_ranges st =
     st\<lparr>rs_ranges := (if rs_range_count st < unat max_ranges
                      then rs_ranges st @ [\<lparr>rg_base_addr = rs_range_start st,
                             rg_elem_size = elem_size,
                             rg_total_bytes = rs_range_len st * elem_size,
                             rg_stride = elem_size\<rparr>]
                      else rs_ranges st),
        rs_range_count := rs_range_count st + 1\<rparr>"

definition range_step :: "u32 \<Rightarrow> u32 \<Rightarrow> range_state \<Rightarrow> range_state" where
  "range_step elem_size max_ranges st =
     (let (addr, it) = tu_agen_next (rs_iter st);
          st1 = st\<lparr>rs_iter := it\<rparr>;
          st2 = (if addr = rs_prev_addr st + elem_size \<and> addr \<noteq> 0xFFFFFF00
                 then st1\<lparr>rs_range_len := rs_range_len st + 1\<rparr>
                 else (store_range elem_size max_ranges st1)
                        \<lparr>rs_range_start := addr, rs_range_len := 1\<rparr>)
      in st2\<lparr>rs_prev_addr := addr\<rparr>)"

text \<open>The iterator, the ranges stored, and the number of ranges required.\<close>

definition tu_agen_generate_ranges ::
  "tu_agen_iterator \<Rightarrow> u32 \<Rightarrow> tu_agen_iterator \<times> tu_agen_range list \<times> nat" where
  "tu_agen_generate_ranges it max_ranges =
     (if max_ranges = 0 then (it, [], 0)
      else let it = tu_agen_reset it; total = tu_agen_total it
           in if total = 0 then (it, [], 0)
              else let (prev_addr, it) = tu_agen_next it;
                       elem_size = it_elem_size it;
                       st = foldl (\<lambda>st i. range_step elem_size max_ranges st)
                              \<lparr>rs_iter = it, rs_prev_addr = prev_addr, rs_range_start = prev_addr,
                               rs_range_len = 1, rs_range_count = 0, rs_ranges = []\<rparr>
                              [1..<unat total];
                       st = store_range elem_size max_ranges st
                   in (rs_iter st, rs_ranges st, rs_range_count st))"

section \<open>Point queries\<close>

definition tu_agen_addr_2d :: "u32 \<Rightarrow> u32 \<Rightarrow> u32 \<Rightarrow> u32 \<Rightarrow> u32 \<Rightarrow> u32" where
  "tu_agen_addr_2d base row_stride row col elem_size = base + (row * row_stride + col) * elem_size"

definition tu_agen_addr_3d :: "u32 \<Rightarrow> u32 \<Rightarrow> u32 \<Rightarrow> u32 \<Rightarrow> u32 \<Rightarrow> u32 \<Rightarrow> u32 \<Rightarrow> u32" where
  "tu_agen_addr_3d base depth_stride row_stride depth row col elem_size =
     base + (depth * depth_stride + row * row_stride + col) * elem_size"

definition tu_agen_addr_banked :: "u32 \<Rightarrow> u32 \<Rightarrow> u32 \<Rightarrow> u32 \<Rightarrow> u32 \<Rightarrow> u32" where
  "tu_agen_addr_banked base num_banks bank element_idx elem_size =
     base + (element_idx * num_banks + bank) * elem_size"

definition tu_agen_addr_tile_start :: "u32 \<Rightarrow> u32 \<Rightarrow> u32 \<Rightarrow> u32 \<Rightarrow> u32 \<Rightarrow> u32 \<Rightarrow> u32 \<Rightarrow> u32" where
  "tu_agen_addr_tile_start base total_w tile_row tile_col tile_h tile_w elem_size =
     base + (tile_row * tile_h * total_w + tile_col * tile_w) * elem_size"

definition tu_agen_addr_im2col ::
  "tu_agen_im2col \<Rightarrow> u32 \<Rightarrow> u32 \<Rightarrow> u32 \<Rightarrow> u32 \<Rightarrow> u32 \<Rightarrow> u32 \<Rightarrow> u32" where
  "tu_agen_addr_im2col im2col base_addr oh ow kh kw ic =
     (let (ok, out_h, out_w) = im2col_output_dims im2col
      in if \<not> ok \<or> im_elem_size im2col = 0 \<or> oh \<ge> out_h \<or> ow \<ge> out_w
            \<or> kh \<ge> im_kernel_h im2col \<or> kw \<ge> im_kernel_w im2col \<or> ic \<ge> im_input_c im2col
            \<or> \<not> tiled_geometry_valid base_addr (im_input_c im2col) (im_input_h im2col)
                  (im_input_w im2col) (im_elem_size im2col)
         then UINT32_MAX
         else let h_in = ucast oh * ucast (im_stride_h im2col)
                           + ucast kh * ucast (im_dilation_h im2col) :: u64;
                  w_in = ucast ow * ucast (im_stride_w im2col)
                           + ucast kw * ucast (im_dilation_w im2col) :: u64
              in if h_in < ucast (im_pad_h im2col) \<or> w_in < ucast (im_pad_w im2col) then UINT32_MAX
                 else let h_in = h_in - ucast (im_pad_h im2col); w_in = w_in - ucast (im_pad_w im2col)
                      in if h_in \<ge> ucast (im_input_h im2col) \<or> w_in \<ge> ucast (im_input_w im2col)
                         then UINT32_MAX
                         else ucast (ucast base_addr
                           + (ucast ic * ucast (im_input_h im2col) * ucast (im_input_w im2col)
                              + h_in * ucast (im_input_w im2col) + w_in)
                             * ucast (im_elem_size im2col)))"

section \<open>Tile-major order on natural numbers\<close>

text \<open>One axis: the slab of an index, its clipped extent, and the index inside the slab.\<close>

lemma axis_split:
  fixes t n w idx :: nat
  assumes "0 < t" "idx < n * w"
  defines "b \<equiv> idx div (t * w) * t" and "i \<equiv> idx mod (t * w)"
  defines "e \<equiv> min t (n - b)"
  shows "b < n" "0 < e" "i < e * w" "idx = b * w + i"
    and "\<And>z. z < e \<Longrightarrow> (b + z) div t * t = b"
proof -
  have w: "0 < w" using assms(2) by (cases w) auto
  have idx: "idx = b * w + i"
    using div_mult_mod_eq [of idx "t * w"] by (simp add: b_def i_def mult.assoc)
  have "b * w < n * w" using idx assms(2) by linarith
  then show b: "b < n" using w by simp
  then show "0 < e" using assms(1) by (simp add: e_def)
  have "i < t * w" using assms(1) w by (simp add: i_def)
  moreover have "i < (n - b) * w" using idx assms(2) b by (simp add: diff_mult_distrib less_diff_conv)
  ultimately show "i < e * w" by (simp add: e_def min_def)
  show "idx = b * w + i" by (rule idx)
  show "(b + z) div t * t = b" if "z < e" for z
    using that by (simp add: b_def e_def)
qed

text \<open>The nested decoding of \<open>tiled_offset\<close>, without wrap-around.\<close>

definition tile_coords ::
  "nat \<Rightarrow> nat \<Rightarrow> nat \<Rightarrow> nat \<Rightarrow> nat \<Rightarrow> nat \<Rightarrow> nat \<Rightarrow> nat \<times> nat \<times> nat" where
  "tile_coords idx d r c td tr tc =
     (let db = idx div (td * (r * c)) * td; de = min td (d - db); i1 = idx mod (td * (r * c));
          rb = i1 div (tr * (de * c)) * tr; re = min tr (r - rb); i2 = i1 mod (tr * (de * c));
          cb = i2 div (tc * (de * re)) * tc; ce = min tc (c - cb); i3 = i2 mod (tc * (de * re))
      in (db + i3 div (re * ce), rb + (i3 div ce) mod re, cb + i3 mod ce))"

text \<open>The position of an element in tile-major order.\<close>

definition tile_index ::
  "nat \<Rightarrow> nat \<Rightarrow> nat \<Rightarrow> nat \<Rightarrow> nat \<Rightarrow> nat \<Rightarrow> nat \<times> nat \<times> nat \<Rightarrow> nat" where
  "tile_index d r c td tr tc p =
     (let (z, y, x) = p;
          db = z div td * td; de = min td (d - db);
          rb = y div tr * tr; re = min tr (r - rb);
          cb = x div tc * tc; ce = min tc (c - cb)
      in db * (r * c) + (rb * (de * c) + (cb * (de * re)
           + ((z - db) * (re * ce) + ((y - rb) * ce + (x - cb))))))"

lemma tile_coords_spec:
  assumes t: "0 < td" "0 < tr" "0 < tc" and idx: "idx < d * (r * c)"
  obtains z y x where "tile_coords idx d r c td tr tc = (z, y, x)" "z < d" "y < r" "x < c"
    "tile_index d r c td tr tc (z, y, x) = idx"
proof -
  define db where "db = idx div (td * (r * c)) * td"
  define de where "de = min td (d - db)"
  define i1 where "i1 = idx mod (td * (r * c))"
  note s1 = axis_split [OF t(1) idx, folded db_def i1_def, folded de_def]
  have b1: "i1 < r * (de * c)" using s1(3) by (simp add: mult.commute mult.left_commute)
  define rb where "rb = i1 div (tr * (de * c)) * tr"
  define re where "re = min tr (r - rb)"
  define i2 where "i2 = i1 mod (tr * (de * c))"
  note s2 = axis_split [OF t(2) b1, folded rb_def i2_def, folded re_def]
  have b2: "i2 < c * (de * re)" using s2(3) by (simp add: mult.commute mult.left_commute)
  define cb where "cb = i2 div (tc * (de * re)) * tc"
  define ce where "ce = min tc (c - cb)"
  define i3 where "i3 = i2 mod (tc * (de * re))"
  note s3 = axis_split [OF t(3) b2, folded cb_def i3_def, folded ce_def]
  define dz ry cx where "dz = i3 div (re * ce)" and "ry = (i3 div ce) mod re" and "cx = i3 mod ce"
  have "i3 < de * (re * ce)" using s3(3) by (simp add: mult.commute mult.left_commute)
  then have dz: "dz < de" using s2(2) s3(2) by (simp add: dz_def less_mult_imp_div_less)
  have ry: "ry < re" and cx: "cx < ce" using s2(2) s3(2) by (simp_all add: ry_def cx_def)
  have "i3 = (i3 div ce) * ce + cx" by (simp add: cx_def)
  also have "i3 div ce = (i3 div ce) div re * re + ry" by (simp add: ry_def)
  also have "(i3 div ce) div re = dz" by (simp add: dz_def div_mult2_eq mult.commute)
  finally have i3: "i3 = dz * (re * ce) + (ry * ce + cx)" by (simp add: add_mult_distrib mult.assoc)
  have co: "tile_coords idx d r c td tr tc = (db + dz, rb + ry, cb + cx)"
    unfolding tile_coords_def Let_def db_def [symmetric] i1_def [symmetric]
    unfolding de_def [symmetric] rb_def [symmetric] i2_def [symmetric]
    unfolding re_def [symmetric] cb_def [symmetric] i3_def [symmetric]
    unfolding ce_def [symmetric] dz_def [symmetric] ry_def [symmetric] cx_def [symmetric] ..
  have ti: "tile_index d r c td tr tc (db + dz, rb + ry, cb + cx) = idx"
    unfolding tile_index_def Let_def prod.case s1(5) [OF dz] s2(5) [OF ry] s3(5) [OF cx]
      de_def [symmetric] re_def [symmetric] ce_def [symmetric]
    using s1(4) s2(4) s3(4) i3 by simp
  have "db + dz < d" "rb + ry < r" "cb + cx < c"
    using dz ry cx unfolding de_def re_def ce_def min_less_iff_conj by linarith+
  then show ?thesis using that co ti by blast
qed

definition tiled_offset_nat :: "nat \<Rightarrow> nat \<Rightarrow> nat \<Rightarrow> nat \<Rightarrow> nat \<Rightarrow> nat \<Rightarrow> nat \<Rightarrow> nat" where
  "tiled_offset_nat idx d r c td tr tc =
     (let (z, y, x) = tile_coords idx d r c td tr tc in (z * r + y) * c + x)"

lemma row_major_inj:
  fixes x c :: nat
  assumes "a * c + x = a' * c + x'" "x < c" "x' < c"
  shows "a = a' \<and> x = x'"
proof -
  have "(a * c + x) div c = a" "(a' * c + x') div c = a'"
    "(a * c + x) mod c = x" "(a' * c + x') mod c = x'" using assms(2,3) by auto
  then show ?thesis using assms(1) by metis
qed

lemma row_major_bound:
  fixes x c :: nat
  assumes "a < n" "x < c" shows "a * c + x < n * c"
proof -
  have "a * c + x < Suc a * c" using assms(2) by simp
  also have "\<dots> \<le> n * c" using assms(1) by (simp only: mult_le_mono1 Suc_leI)
  finally show ?thesis .
qed

lemma tiled_offset_nat_bij:
  assumes t: "0 < td" "0 < tr" "0 < tc"
  shows "bij_betw (\<lambda>i. tiled_offset_nat i d r c td tr tc) {..<d * (r * c)} {..<d * (r * c)}"
proof -
  have bound: "tiled_offset_nat i d r c td tr tc < d * (r * c)" if i: "i < d * (r * c)" for i
  proof -
    obtain z y x where p: "tile_coords i d r c td tr tc = (z, y, x)" "z < d" "y < r" "x < c"
      using tile_coords_spec [OF t i] by metis
    have "(z * r + y) * c + x < d * r * c"
      using row_major_bound [OF row_major_bound [OF p(2,3)] p(4)] .
    then show ?thesis by (simp add: tiled_offset_nat_def p(1) mult.assoc)
  qed
  have inj: "inj_on (\<lambda>i. tiled_offset_nat i d r c td tr tc) {..<d * (r * c)}"
  proof (rule inj_onI)
    fix i j assume ij: "i \<in> {..<d * (r * c)}" "j \<in> {..<d * (r * c)}"
      and eq: "tiled_offset_nat i d r c td tr tc = tiled_offset_nat j d r c td tr tc"
    obtain z y x where p: "tile_coords i d r c td tr tc = (z, y, x)" "y < r" "x < c"
        "tile_index d r c td tr tc (z, y, x) = i"
      using tile_coords_spec [OF t, of i d r c] ij(1) by (metis lessThan_iff)
    obtain z' y' x' where q: "tile_coords j d r c td tr tc = (z', y', x')" "y' < r" "x' < c"
        "tile_index d r c td tr tc (z', y', x') = j"
      using tile_coords_spec [OF t, of j d r c] ij(2) by (metis lessThan_iff)
    have "(z * r + y) * c + x = (z' * r + y') * c + x'"
      using eq by (simp add: tiled_offset_nat_def p(1) q(1))
    then have "z * r + y = z' * r + y'" "x = x'" using row_major_inj p(3) q(3) by blast+
    moreover from this have "z = z'" "y = y'" using row_major_inj p(2) q(2) by blast+
    ultimately show "i = j" using p(4) q(4) by simp
  qed
  have "(\<lambda>i. tiled_offset_nat i d r c td tr tc) ` {..<d * (r * c)} = {..<d * (r * c)}"
    by (rule card_subset_eq) (use bound in \<open>auto simp: card_image [OF inj]\<close>)
  then show ?thesis using inj by (simp add: bij_betw_def)
qed

section \<open>The decoder in 32 bits\<close>

lemma div_mult_le: "i div (t * w) * t \<le> (i :: nat)"
  by (metis div_le_dividend div_mult2_eq div_times_less_eq_dividend le_trans mult.commute)

text \<open>A product of up to three factors inside a volume below \<open>2^32\<close>.\<close>

lemma prod3_le: "a \<le> d \<Longrightarrow> b \<le> r \<Longrightarrow> e \<le> c \<Longrightarrow> a * b * e \<le> d * (r * c)" for a :: nat
  by (simp add: mult.assoc mult_le_mono)

lemma u32_mult3_exact:
  fixes x y z :: u32
  assumes "unat x * unat y * unat z < 4294967296" "0 < unat z"
  shows "unat (x * y * z) = unat x * unat y * unat z"
proof -
  have "unat x * unat y \<le> unat x * unat y * unat z" using assms(2) by simp
  then have "unat (x * y) = unat x * unat y" using assms(1) by (intro u32_mult_exact) linarith
  then show ?thesis using assms(1) by (simp add: u32_mult_exact)
qed

text \<open>One axis of the decoder: the slab size, the base and the extent of the slab.\<close>

lemma u32_axis:
  fixes i n t w w' slab :: u32
  assumes slab: "unat slab = unat t * (unat w * unat w')"
    and "0 < unat t" "unat i < unat n * (unat w * unat w')"
  shows "unat (i div slab * t) = unat i div (unat t * (unat w * unat w')) * unat t"
    and "unat (min t (n - i div slab * t)) = min (unat t) (unat n - unat (i div slab * t))"
    and "unat (i mod slab) = unat i mod (unat t * (unat w * unat w'))"
proof -
  show b: "unat (i div slab * t) = unat i div (unat t * (unat w * unat w')) * unat t"
    using le_less_trans [OF div_mult_le unat_u32_less]
    by (subst u32_mult_exact) (simp_all only: unat_div_distrib slab)
  have "unat (i div slab * t) < unat n"
    using axis_split(1) [OF assms(2,3)] by (simp add: b)
  then show "unat (min t (n - i div slab * t)) = min (unat t) (unat n - unat (i div slab * t))"
    by (simp add: unat_min unat_sub_le word_le_nat_alt)
  show "unat (i mod slab) = unat i mod (unat t * (unat w * unat w'))"
    by (simp add: unat_mod_distrib slab)
qed

lemma tiled_offset_exact:
  assumes t: "0 < unat td" "0 < unat tr" "0 < unat tc"
    and vol: "unat d * (unat r * unat c) < 4294967296"
    and idx: "unat idx < unat d * (unat r * unat c)"
  shows "unat (tiled_offset idx d r c td tr tc)
    = tiled_offset_nat (unat idx) (unat d) (unat r) (unat c)
        (min (unat td) (unat d)) (min (unat tr) (unat r)) (min (unat tc) (unat c))"
proof -
  have pos: "0 < unat d" "0 < unat r" "0 < unat c" using idx by (auto intro: gr0I)
  define td' tr' tc' where "td' = min td d" and "tr' = min tr r" and "tc' = min tc c"
  have T: "unat td' = min (unat td) (unat d)" "unat tr' = min (unat tr) (unat r)"
      "unat tc' = min (unat tc) (unat c)"
    by (simp_all add: td'_def tr'_def tc'_def unat_min)
  have tpos: "0 < unat td'" "0 < unat tr'" "0 < unat tc'" using t pos by (simp_all add: T)
  have small: "a * b * e < 4294967296" if "a \<le> unat d" "b \<le> unat r" "e \<le> unat c" for a b e
    using prod3_le [OF that] vol by linarith
  define s1 where "s1 = td' * r * c"
  have s1: "unat s1 = unat td' * (unat r * unat c)"
    unfolding s1_def using u32_mult3_exact [of td' r c] small pos by (simp add: T mult.assoc)
  define db de i1 where "db = idx div s1 * td'" and "de = min td' (d - db)" and "i1 = idx mod s1"
  note a1 = u32_axis [OF s1 tpos(1) idx, folded db_def i1_def, folded de_def]
  note x1 = axis_split [OF tpos(1) idx, folded a1]
  have de: "unat de \<le> unat d" "0 < unat de" "unat de \<le> unat td'" using x1(2) a1(2) by simp_all
  have b1: "unat i1 < unat r * (unat de * unat c)" using x1(3) a1(2) by (simp add: ac_simps)
  define s2 where "s2 = de * tr' * c"
  have s2: "unat s2 = unat tr' * (unat de * unat c)"
    unfolding s2_def using u32_mult3_exact [of de tr' c] small [of "unat de" "unat tr'" "unat c"] pos de
    by (simp add: T ac_simps)
  define rb re i2 where "rb = i1 div s2 * tr'" and "re = min tr' (r - rb)" and "i2 = i1 mod s2"
  note a2 = u32_axis [OF s2 tpos(2) b1, folded rb_def i2_def, folded re_def]
  note x2 = axis_split [OF tpos(2) b1, folded a2]
  have re: "unat re \<le> unat r" "0 < unat re" using x2(2) a2(2) by simp_all
  have b2: "unat i2 < unat c * (unat de * unat re)" using x2(3) a2(2) by (simp add: ac_simps)
  define s3 where "s3 = de * re * tc'"
  have s3: "unat s3 = unat tc' * (unat de * unat re)"
    unfolding s3_def using u32_mult3_exact [of de re tc'] small [of "unat de" "unat re" "unat tc'"] tpos de re
    by (simp add: T ac_simps)
  define cb ce i3 where "cb = i2 div s3 * tc'" and "ce = min tc' (c - cb)" and "i3 = i2 mod s3"
  note a3 = u32_axis [OF s3 tpos(3) b2, folded cb_def i3_def, folded ce_def]
  note x3 = axis_split [OF tpos(3) b2, folded a3]
  have ce: "unat ce \<le> unat c" "0 < unat ce" using x3(2) a3(2) by simp_all
  define z y x where "z = unat db + unat i3 div (unat re * unat ce)"
    and "y = unat rb + (unat i3 div unat ce) mod unat re" and "x = unat cb + unat i3 mod unat ce"
  have coords: "tile_coords (unat idx) (unat d) (unat r) (unat c) (unat td') (unat tr') (unat tc') = (z, y, x)"
    unfolding tile_coords_def Let_def z_def y_def x_def by (simp only: a1 a2 a3)
  have zyx: "z < unat d" "y < unat r" "x < unat c"
    using tile_coords_spec [OF tpos idx] coords by (metis prod.inject)+
  have zy: "z * unat r + y < unat d * unat r" by (rule row_major_bound [OF zyx(1,2)])
  then have zyx': "(z * unat r + y) * unat c + x < 4294967296"
    using row_major_bound [OF zy zyx(3)] vol by (simp add: mult.assoc)
  have zy': "z * unat r + y < 4294967296"
  proof -
    have "(z * unat r + y) * 1 \<le> (z * unat r + y) * unat c" by (rule mult_le_mono2) (use pos(3) in linarith)
    also have "\<dots> \<le> (z * unat r + y) * unat c + x" by (rule le_add1)
    also note zyx'
    finally show ?thesis by (simp only: mult_1_right)
  qed
  have rece: "unat (re * ce) = unat re * unat ce"
    using small [of 1 "unat re" "unat ce"] pos re ce by (simp add: u32_mult_exact)
  have uz: "unat (db + i3 div (re * ce)) = z"
    using less_trans [OF zyx(1) unat_u32_less] by (simp add: u32_add_exact unat_div_distrib rece z_def)
  have uzr: "unat ((db + i3 div (re * ce)) * r) = z * unat r"
    by (subst u32_mult_exact) (use zy' in \<open>simp_all add: uz\<close>)
  have uy: "unat ((db + i3 div (re * ce)) * r + rb + (i3 div ce) mod re) = z * unat r + y"
    using zy' by (simp add: u32_add_exact uzr y_def unat_div_distrib unat_mod_distrib)
  have uyc: "unat (((db + i3 div (re * ce)) * r + rb + (i3 div ce) mod re) * c) = (z * unat r + y) * unat c"
    using zyx' by (subst u32_mult_exact) (simp_all add: uy)
  have "unat (((db + i3 div (re * ce)) * r + rb + (i3 div ce) mod re) * c + cb + i3 mod ce)
      = (z * unat r + y) * unat c + x"
    using zyx' by (simp add: u32_add_exact uyc x_def unat_mod_distrib)
  moreover have "tiled_offset idx d r c td tr tc
      = ((db + i3 div (re * ce)) * r + rb + (i3 div ce) mod re) * c + cb + i3 mod ce"
    unfolding tiled_offset_def Let_def td'_def [symmetric] tr'_def [symmetric] tc'_def [symmetric]
      s1_def [symmetric] db_def [symmetric] i1_def [symmetric]
    unfolding de_def [symmetric] s2_def [symmetric] rb_def [symmetric] i2_def [symmetric]
    unfolding re_def [symmetric] s3_def [symmetric] cb_def [symmetric] i3_def [symmetric]
    unfolding ce_def [symmetric] ..
  ultimately show ?thesis by (simp add: tiled_offset_nat_def coords flip: T)
qed

section \<open>What the geometry checks decide\<close>

text \<open>Volume and exclusive end, in unbounded arithmetic.\<close>

lemma tiled_geometry_valid_iff:
  "tiled_geometry_valid base d r c sz \<longleftrightarrow>
     unat d * (unat r * unat c) = 0
   \<or> (unat d * (unat r * unat c) \<le> 4294967295
      \<and> unat base + unat d * (unat r * unat c) * unat sz \<le> 4294967295)"
proof (cases "d = 0 \<or> r = 0 \<or> c = 0")
  case True
  then show ?thesis by (auto simp: tiled_geometry_valid_def)
next
  case False
  then have pos: "0 < unat d" "0 < unat r" "0 < unat c" by (auto simp: unat_gt_0)
  define dr :: u64 where "dr = ucast d * ucast r"
  have dr: "unat dr = unat d * unat r" unfolding dr_def by (rule u64_of_u32_mult)
  show ?thesis
  proof (cases "unat dr \<le> 4294967295")
    case True
    have "unat dr * unat c \<le> 4294967295 * 4294967295" by (rule mult_le_mono [OF True]) simp
    then have drc: "unat (dr * ucast c) = unat d * (unat r * unat c)"
      using dr by (subst u64_mult_exact) (simp_all add: mult.assoc)
    have vol: "unat (ucast base + dr * ucast c * ucast sz)
        = unat base + unat d * (unat r * unat c) * unat sz"
      if "unat d * (unat r * unat c) \<le> 4294967295"
    proof -
      have le: "unat (dr * ucast c) * unat sz \<le> 4294967295 * 4294967295"
        by (rule mult_le_mono) (use that drc in simp_all)
      then have m: "unat (dr * ucast c * ucast sz) = unat (dr * ucast c) * unat sz"
        by (subst u64_mult_exact) simp_all
      have "unat base + unat (dr * ucast c) * unat sz \<le> 4294967295 + 4294967295 * 4294967295"
        by (rule add_mono [OF _ le]) simp
      then show ?thesis unfolding drc [symmetric]
        by (subst u64_add_exact) (simp_all add: m)
    qed
    show ?thesis
      using False True vol pos
      by (auto simp: tiled_geometry_valid_def Let_def dr_def [symmetric] word_le_nat_alt word_less_nat_alt drc)
  next
    case big: False
    have "unat dr * 1 \<le> unat dr * unat c" by (rule mult_le_mono2) (use pos in linarith)
    then have "unat dr \<le> unat d * (unat r * unat c)" by (simp add: dr mult.assoc)
    then show ?thesis
      using False big pos
      by (auto simp: tiled_geometry_valid_def Let_def dr_def [symmetric] word_less_nat_alt)
  qed
qed

lemma affine_geometry_valid_iff:
  "affine_geometry_valid base d r c ds rs sz \<longleftrightarrow>
     unat d * (unat r * unat c) = 0
   \<or> (unat d * (unat r * unat c) \<le> 4294967295 \<and> 0 < unat sz
      \<and> unat base + ((unat d - 1) * unat ds + (unat r - 1) * unat rs + unat c) * unat sz \<le> 4294967295)"
proof (cases "d = 0 \<or> r = 0 \<or> c = 0")
  case True
  then show ?thesis by (auto simp: affine_geometry_valid_def)
next
  case False
  then have pos: "0 < unat d" "0 < unat r" "0 < unat c" by (auto simp: unat_gt_0)
  define dr :: u64 where "dr = ucast d * ucast r"
  have dr: "unat dr = unat d * unat r" unfolding dr_def by (rule u64_of_u32_mult)
  have one: "unat (d - 1) = unat d - 1" "unat (r - 1) = unat r - 1"
    using pos by (simp_all add: unat_sub_le word_le_nat_alt Suc_leI)
  define rows :: u64 where "rows = ucast (r - 1) * ucast rs"
  have rows: "unat rows = (unat r - 1) * unat rs" unfolding rows_def u64_of_u32_mult one ..
  define planes :: u64 where "planes = ucast (d - 1) * ucast ds"
  have planes: "unat planes = (unat d - 1) * unat ds" unfolding planes_def u64_of_u32_mult one ..
  define budget :: u64 where "budget = ucast ((UINT32_MAX - base) div sz)"
  have budget: "unat budget = (4294967295 - unat base) div unat sz"
    by (simp add: budget_def unat_div_distrib unat_sub_le word_le_nat_alt)
  have fits: "(ucast c \<le> budget \<and> rows \<le> budget - ucast c \<and> planes \<le> budget - ucast c - rows)
      \<longleftrightarrow> unat planes + unat rows + unat c \<le> unat budget"
    by (auto simp: word_le_nat_alt unat_sub_le)
  have bud: "n \<le> unat budget \<longleftrightarrow> unat base + n * unat sz \<le> 4294967295" if "0 < unat sz" for n
  proof -
    have "unat base \<le> 4294967295" by simp
    then show ?thesis unfolding budget less_eq_div_iff_mult_less_eq [OF that] by linarith
  qed
  show ?thesis
  proof (cases "unat dr \<le> 4294967295")
    case True
    have "unat dr * unat c \<le> 4294967295 * 4294967295" by (rule mult_le_mono [OF True]) simp
    then have drc: "unat (dr * ucast c) = unat d * (unat r * unat c)"
      using dr by (subst u64_mult_exact) (simp_all add: mult.assoc)
    have "affine_geometry_valid base d r c ds rs sz \<longleftrightarrow>
        unat d * (unat r * unat c) \<le> 4294967295 \<and> 0 < unat sz
        \<and> unat planes + unat rows + unat c \<le> unat budget"
      unfolding fits [symmetric] using False True
      by (simp add: affine_geometry_valid_def Let_def dr_def [symmetric] rows_def [symmetric]
          planes_def [symmetric] budget_def [symmetric] word_less_nat_alt word_le_nat_alt not_less drc
          unat_gt_0)
    then show ?thesis using bud pos by (auto simp: planes rows)
  next
    case big: False
    have "unat dr * 1 \<le> unat dr * unat c" by (rule mult_le_mono2) (use pos in linarith)
    then have "unat dr \<le> unat d * (unat r * unat c)" by (simp add: dr mult.assoc)
    then show ?thesis
      using False big pos
      by (auto simp: affine_geometry_valid_def Let_def dr_def [symmetric] word_less_nat_alt)
  qed
qed

section \<open>Address streams\<close>

text \<open>Pull \<open>n\<close> values out of a stream.\<close>

fun pull :: "('s \<Rightarrow> 'v \<times> 's) \<Rightarrow> nat \<Rightarrow> 's \<Rightarrow> 'v list \<times> 's" where
  "pull nxt 0 s = ([], s)"
| "pull nxt (Suc n) s = (let (v, s') = nxt s; (vs, s'') = pull nxt n s' in (v # vs, s''))"

text \<open>
  The contract of an address stream: a position below a total, a value for every position, and a
  \<open>next\<close> that hands out the value at the position and moves on.
\<close>

locale address_stream =
  fixes has_next :: "'s \<Rightarrow> bool" and nxt :: "'s \<Rightarrow> 'v \<times> 's" and reset :: "'s \<Rightarrow> 's"
    and pos :: "'s \<Rightarrow> nat" and total :: "'s \<Rightarrow> nat" and entry :: "'s \<Rightarrow> nat \<Rightarrow> 'v"
  assumes has_next_iff: "has_next s \<longleftrightarrow> pos s < total s"
    and next_value: "has_next s \<Longrightarrow> fst (nxt s) = entry s (pos s)"
    and next_pos: "has_next s \<Longrightarrow> pos (snd (nxt s)) = Suc (pos s)"
    and next_frame: "total (snd (nxt s)) = total s" "entry (snd (nxt s)) = entry s"
    and reset_pos: "pos (reset s) = 0"
    and reset_frame: "total (reset s) = total s" "entry (reset s) = entry s"
begin

lemma pull_from:
  assumes "pos s + n \<le> total s"
  shows "fst (pull nxt n s) = map (entry s) [pos s..<pos s + n]
    \<and> pos (snd (pull nxt n s)) = pos s + n \<and> total (snd (pull nxt n s)) = total s
    \<and> entry (snd (pull nxt n s)) = entry s"
  using assms
proof (induction n arbitrary: s)
  case (Suc n)
  have h: "has_next s" using Suc.prems by (simp add: has_next_iff)
  obtain v s' where nx: "nxt s = (v, s')" by (cases "nxt s")
  obtain vs s'' where pl: "pull nxt n s' = (vs, s'')" by (cases "pull nxt n s'")
  have s': "v = entry s (pos s)" "pos s' = Suc (pos s)" "total s' = total s" "entry s' = entry s"
    using next_value [OF h] next_pos [OF h] next_frame [of s] by (simp_all add: nx)
  have "pos s' + n \<le> total s'" using Suc.prems by (simp add: s')
  note ih = Suc.IH [OF this]
  have "[pos s..<pos s + Suc n] = pos s # [Suc (pos s)..<Suc (pos s) + n]"
    by (simp add: upt_conv_Cons del: upt_Suc)
  then show ?case using ih by (simp add: nx pl s' del: upt_Suc)
qed simp

lemma pull_all:
  assumes "n \<le> total s"
  shows "fst (pull nxt n (reset s)) = map (entry s) [0..<n]"
    "pos (snd (pull nxt n (reset s))) = n" "total (snd (pull nxt n (reset s))) = total s"
    "entry (snd (pull nxt n (reset s))) = entry s"
  using pull_from [of "reset s" n] assms by (simp_all add: reset_pos reset_frame)

end

text \<open>Entry \<open>k\<close> of an iterator.\<close>

definition agen_entry :: "tu_agen_iterator \<Rightarrow> nat \<Rightarrow> u32" where
  "agen_entry it k = agen_address it (word_of_nat k)"

lemma agen_address_idx [simp]: "agen_address (it\<lparr>it_current_idx := n\<rparr>) = agen_address it"
  by (rule ext, cases "it_mode it") (simp_all add: agen_address_def im2col_entry_def Let_def)

lemma unat_suc_below: "x < y \<Longrightarrow> unat (x + 1) = Suc (unat x)" for x y :: u32
proof -
  assume "x < y"
  then have "unat x + 1 < 4294967296"
    using unat_u32_less [of y] unfolding word_less_nat_alt by linarith
  then show ?thesis by (simp add: u32_add_exact)
qed

interpretation agen: address_stream tu_agen_has_next tu_agen_next tu_agen_reset
  "\<lambda>it. unat (it_current_idx it)" "\<lambda>it. unat (it_total_elements it)" agen_entry
  by unfold_locales
    (auto simp: tu_agen_has_next_def tu_agen_next_def tu_agen_reset_def agen_entry_def fun_eq_iff
      word_less_nat_alt unat_suc_below word_le_nat_alt intro: unat_suc_below)

lemma generate_loop_pull:
  assumes "unat (it_current_idx it) + n = unat (it_total_elements it)"
  shows "snd (generate_loop it b acc) = acc @ fst (pull tu_agen_next (min n (b - length acc)) it)"
  using assms
proof (induction it b acc arbitrary: n rule: generate_loop.induct)
  case (1 it b acc)
  show ?case
  proof (cases "tu_agen_has_next it \<and> length acc < b")
    case True
    then obtain m where n: "n = Suc m"
      using 1(2) by (cases n) (auto simp: tu_agen_has_next_def word_less_nat_alt)
    obtain a it' where nx: "tu_agen_next it = (a, it')" by (cases "tu_agen_next it")
    have m: "min n (b - length acc) = Suc (min m (b - length (acc @ [a])))"
      using True n by (simp add: min_def) arith
    have "unat (it_current_idx it') + m = unat (it_total_elements it')"
      using agen.next_pos [of it] agen.next_frame(1) [of it] 1(2) True nx n by simp
    then have "snd (generate_loop it' b (acc @ [a]))
        = (acc @ [a]) @ fst (pull tu_agen_next (min m (b - length (acc @ [a]))) it')"
      using 1(1) [OF True nx [symmetric] refl] by blast
    then show ?thesis
      unfolding m by (subst generate_loop.simps) (simp add: True nx split: prod.split)
  next
    case False
    then have "min n (b - length acc) = 0"
      using 1(2) by (auto simp: tu_agen_has_next_def word_less_nat_alt)
    then show ?thesis using False by (subst generate_loop.simps) auto
  qed
qed

lemma generate_all_entries:
  "snd (tu_agen_generate_all it b)
     = map (agen_entry it) [0..<min (unat (it_total_elements it)) (unat b)]"
proof -
  have "snd (tu_agen_generate_all it b)
      = fst (pull tu_agen_next (min (unat (it_total_elements it)) (unat b)) (tu_agen_reset it))"
    using generate_loop_pull [of "tu_agen_reset it" "unat (it_total_elements it)" "unat b" "[]"]
    by (simp add: tu_agen_generate_all_def tu_agen_reset_def)
  then show ?thesis using agen.pull_all(1) by simp
qed

section \<open>The views, entry by entry\<close>

lemma unat_word_of_nat_u32: "k < 4294967296 \<Longrightarrow> unat (word_of_nat k :: u32) = k"
  by (simp add: unat_of_nat)

text \<open>An element that ends below \<open>2^32\<close> is addressed without wrap-around.\<close>

lemma element_exact:
  fixes base sz off :: u32
  assumes "n < N" "unat base + N * unat sz \<le> 4294967295" "unat off = n"
  shows "unat (base + off * sz) = unat base + n * unat sz"
    and "unat base + n * unat sz + unat sz \<le> 4294967295"
proof -
  have "Suc n * unat sz \<le> N * unat sz" using assms(1) by (intro mult_le_mono1) simp
  then have b: "unat base + n * unat sz + unat sz \<le> 4294967295" using assms(2) by simp
  then have "unat (off * sz) = n * unat sz" by (subst u32_mult_exact) (simp_all add: assms(3))
  then show "unat (base + off * sz) = unat base + n * unat sz"
    using b by (subst u32_add_exact) simp_all
  show "unat base + n * unat sz + unat sz \<le> 4294967295" by (rule b)
qed

lemma affine_element:
  assumes "affine_geometry_valid base d r c ds rs sz" "z < unat d" "y < unat r" "x < unat c"
    and "unat off = z * unat ds + y * unat rs + x"
  shows "unat (base + off * sz) = unat base + (z * unat ds + y * unat rs + x) * unat sz"
    "unat base + (z * unat ds + y * unat rs + x) * unat sz + unat sz \<le> 4294967295"
proof -
  have "z * unat ds + y * unat rs + x < (unat d - 1) * unat ds + (unat r - 1) * unat rs + unat c"
  proof -
    have "z * unat ds \<le> (unat d - 1) * unat ds" "y * unat rs \<le> (unat r - 1) * unat rs"
      using assms(2,3) by (intro mult_le_mono1; simp)+
    then show ?thesis using assms(4) by linarith
  qed
  moreover have "unat base + ((unat d - 1) * unat ds + (unat r - 1) * unat rs + unat c) * unat sz
      \<le> 4294967295"
    using assms(1-4) unfolding affine_geometry_valid_iff by auto
  ultimately show "unat (base + off * sz) = unat base + (z * unat ds + y * unat rs + x) * unat sz"
    "unat base + (z * unat ds + y * unat rs + x) * unat sz + unat sz \<le> 4294967295"
    using element_exact assms(5) by blast+
qed

text \<open>The row-major position of \<open>(z, y, x)\<close> decodes to it again.\<close>

lemma row_major_decode:
  fixes z y x r c :: nat
  assumes "y < r" "x < c"
  defines "k \<equiv> (z * r + y) * c + x"
  shows "k div (r * c) = z" "k mod (r * c) div c = y" "k mod (r * c) mod c = x" "k div c = z * r + y"
    "k mod c = x"
proof -
  define n m where "n = r * c" and "m = y * c + x"
  have yc: "m < n" unfolding n_def m_def by (rule row_major_bound [OF assms(1,2)])
  have k: "k = z * n + m" by (simp add: k_def n_def m_def add_mult_distrib)
  show "k div (r * c) = z" unfolding n_def [symmetric] using yc by (simp add: k)
  have m: "k mod (r * c) = y * c + x"
    unfolding n_def [symmetric] m_def [symmetric] using yc by (simp add: k)
  show "k mod (r * c) div c = y" "k mod (r * c) mod c = x" using assms(2) by (simp_all add: m)
  show "k div c = z * r + y" "k mod c = x" using assms(2) by (simp_all add: k_def)
qed

lemma row_major_u32:
  fixes z y x d r c :: nat
  assumes "z < d" "y < r" "x < c" "d * (r * c) \<le> 4294967295"
  shows "(z * r + y) * c + x < 4294967296"
  using row_major_bound [OF row_major_bound [OF assms(1,2)] assms(3)] assms(4)
  by (simp add: mult.assoc)

lemma strided_offset_exact:
  fixes a s b t e :: u32
  assumes "unat a * unat s + unat b * unat t + unat e < 4294967296"
  shows "unat (a * s + b * t + e) = unat a * unat s + unat b * unat t + unat e"
  using assms by (simp add: u32_add_exact u32_mult_exact)

lemma strided_2d_offset_exact:
  fixes b t e :: u32
  assumes "unat b * unat t + unat e < 4294967296"
  shows "unat (b * t + e) = unat b * unat t + unat e"
  using assms by (simp add: u32_add_exact u32_mult_exact)

text \<open>Offsets in an accepted affine view fit 32 bits.\<close>

lemma affine_offset_small:
  assumes "affine_geometry_valid base d r c ds rs sz" "z < unat d" "y < unat r" "x < unat c"
  shows "z * unat ds + y * unat rs + x < 4294967296" "0 < unat sz"
proof -
  have v: "0 < unat sz" "unat base + ((unat d - 1) * unat ds + (unat r - 1) * unat rs + unat c) * unat sz
      \<le> 4294967295"
    using assms unfolding affine_geometry_valid_iff by auto
  show "0 < unat sz" by (rule v(1))
  have "z * unat ds \<le> (unat d - 1) * unat ds" "y * unat rs \<le> (unat r - 1) * unat rs"
    using assms(2,3) by (intro mult_le_mono1; simp)+
  then have "z * unat ds + y * unat rs + x < (unat d - 1) * unat ds + (unat r - 1) * unat rs + unat c"
    using assms(4) by linarith
  also have "\<dots> = ((unat d - 1) * unat ds + (unat r - 1) * unat rs + unat c) * 1" by simp
  also have "\<dots> \<le> ((unat d - 1) * unat ds + (unat r - 1) * unat rs + unat c) * unat sz"
    by (rule mult_le_mono2) (use v(1) in linarith)
  also have "\<dots> \<le> 4294967295" by (rule add_leD2 [OF v(2)])
  finally show "z * unat ds + y * unat rs + x < 4294967296" by simp
qed

lemma strided_3d_entry:
  assumes "tu_agen_iterator_init (Strided_3D (Some (d, r, c, ds, rs, sz))) base = (0, it)"
    and "z < unat d" "y < unat r" "x < unat c"
  shows "unat (agen_entry it ((z * unat r + y) * unat c + x))
      = unat base + (z * unat ds + y * unat rs + x) * unat (size_or_4 sz)"
    "unat base + (z * unat ds + y * unat rs + x) * unat (size_or_4 sz) + unat (size_or_4 sz) \<le> 4294967295"
proof -
  have valid: "affine_geometry_valid base d r c ds rs (size_or_4 sz)"
    and it: "it = (fresh_iterator TU_AGEN_MODE_STRIDED_3D base)\<lparr>it_dims := (d, r, c),
      it_strides := (ds, rs, 0), it_elem_size := size_or_4 sz, it_total_elements := d * r * c\<rparr>"
    using assms(1) by (simp_all add: Let_def split: if_splits)
  define k where "k = (z * unat r + y) * unat c + x"
  have vol: "unat d * (unat r * unat c) \<le> 4294967295"
    using valid assms(2-4) by (auto simp: affine_geometry_valid_iff)
  have k: "unat (word_of_nat k :: u32) = k"
    unfolding k_def by (rule unat_word_of_nat_u32 [OF row_major_u32 [OF assms(2-4) vol]])
  have "1 * (unat r * unat c) \<le> unat d * (unat r * unat c)"
    by (rule mult_le_mono1) (use assms(2) in linarith)
  then have "unat r * unat c \<le> 4294967295" using vol unfolding mult_1 by (rule le_trans)
  then have rc: "unat (r * c) = unat r * unat c" by (intro u32_mult_exact) linarith
  define off where "off = word_of_nat k div (r * c) * ds
    + word_of_nat k mod (r * c) div c * rs + word_of_nat k mod (r * c) mod c"
  have "unat off = z * unat ds + y * unat rs + x"
    unfolding off_def using affine_offset_small(1) [OF valid assms(2-4)]
      row_major_decode [OF assms(3,4), of z, folded k_def]
    by (subst strided_offset_exact) (simp_all add: unat_div_distrib unat_mod_distrib k rc)
  moreover have "agen_entry it k = base + off * size_or_4 sz"
    by (simp add: agen_entry_def agen_address_def it fresh_iterator_def Let_def off_def)
  ultimately show "unat (agen_entry it ((z * unat r + y) * unat c + x))
      = unat base + (z * unat ds + y * unat rs + x) * unat (size_or_4 sz)"
    "unat base + (z * unat ds + y * unat rs + x) * unat (size_or_4 sz) + unat (size_or_4 sz) \<le> 4294967295"
    using affine_element [OF valid assms(2-4)] by (simp_all add: k_def)
qed

lemma strided_2d_entry:
  assumes "tu_agen_iterator_init (Strided_2D (Some cfg)) base = (0, it)"
    and "y < unat (c2_rows cfg)" "x < unat (c2_cols cfg)"
  shows "unat (agen_entry it (y * unat (c2_cols cfg) + x))
      = unat base + (y * unat (c2_row_stride cfg) + x) * 4"
    "unat base + (y * unat (c2_row_stride cfg) + x) * 4 + 4 \<le> 4294967295"
proof -
  let ?r = "c2_rows cfg" and ?c = "c2_cols cfg" and ?rs = "c2_row_stride cfg"
  have valid: "affine_geometry_valid base 1 ?r ?c 0 ?rs 4"
    and it: "it = (fresh_iterator TU_AGEN_MODE_STRIDED_2D base)\<lparr>it_dims := (?r, ?c, 0),
      it_strides := (?rs, 0, 0), it_total_elements := ?r * ?c,
      it_elem_size := 4\<rparr>"
    using assms by (auto simp: Let_def word_less_nat_alt split: if_splits)
  have z: "0 < unat (1 :: u32)" by simp
  have vol: "unat (1 :: u32) * (unat ?r * unat ?c) \<le> 4294967295"
    using valid assms(2,3) by (auto simp: affine_geometry_valid_iff)
  define k where "k = (0 * unat ?r + y) * unat ?c + x"
  have k: "unat (word_of_nat k :: u32) = k"
    unfolding k_def by (rule unat_word_of_nat_u32 [OF row_major_u32 [OF z assms(2,3) vol]])
  define off where "off = word_of_nat k div ?c * ?rs + word_of_nat k mod ?c"
  have "unat off = 0 * unat (0 :: u32) + y * unat ?rs + x"
    unfolding off_def using affine_offset_small(1) [OF valid z assms(2,3)]
      row_major_decode [OF assms(2,3), of 0, folded k_def]
    by (subst strided_2d_offset_exact) (simp_all add: unat_div_distrib unat_mod_distrib k)
  moreover have "agen_entry it k = base + off * 4"
    by (simp add: agen_entry_def agen_address_def off_def it fresh_iterator_def Let_def)
  ultimately show "unat (agen_entry it (y * unat ?c + x)) = unat base + (y * unat ?rs + x) * 4"
    "unat base + (y * unat ?rs + x) * 4 + 4 \<le> 4294967295"
    using affine_element [OF valid z assms(2,3)] by (simp_all add: k_def)
qed

lemma transposed_entry:
  assumes "tu_agen_iterator_init (Transposed (Some (rows, cols, sz))) base = (0, it)"
    and "y < unat rows" "x < unat cols"
  shows "unat (agen_entry it (x * unat rows + y))
      = unat base + (y * unat cols + x) * unat (size_or_4 sz)"
    "unat base + (y * unat cols + x) * unat (size_or_4 sz) + unat (size_or_4 sz) \<le> 4294967295"
proof -
  have valid: "affine_geometry_valid base 1 rows cols 0 cols (size_or_4 sz)"
    and it: "it = (fresh_iterator TU_AGEN_MODE_TRANSPOSED base)\<lparr>it_dims := (cols, rows, 0),
      it_strides := (1, cols, 0), it_elem_size := size_or_4 sz, it_total_elements := rows * cols\<rparr>"
    using assms(1) by (simp_all add: Let_def split: if_splits)
  have z: "0 < unat (1 :: u32)" by simp
  have vol: "unat (1 :: u32) * (unat cols * unat rows) \<le> 4294967295"
    using valid assms(2,3) by (auto simp: affine_geometry_valid_iff mult.commute)
  define k where "k = (0 * unat cols + x) * unat rows + y"
  have k: "unat (word_of_nat k :: u32) = k"
    unfolding k_def by (rule unat_word_of_nat_u32 [OF row_major_u32 [OF z assms(3,2) vol]])
  define off where "off = word_of_nat k mod rows * cols + word_of_nat k div rows"
  have "unat off = 0 * unat (0 :: u32) + y * unat cols + x"
    unfolding off_def using affine_offset_small(1) [OF valid z assms(2,3)]
      row_major_decode [OF assms(3,2), of 0, folded k_def]
    by (subst strided_2d_offset_exact) (simp_all add: unat_div_distrib unat_mod_distrib k)
  moreover have "agen_entry it k = base + off * size_or_4 sz"
    by (simp add: agen_entry_def agen_address_def off_def it fresh_iterator_def Let_def)
  ultimately show "unat (agen_entry it (x * unat rows + y))
      = unat base + (y * unat cols + x) * unat (size_or_4 sz)"
    "unat base + (y * unat cols + x) * unat (size_or_4 sz) + unat (size_or_4 sz) \<le> 4294967295"
    using affine_element [OF valid z assms(2,3)] by (simp_all add: k_def)
qed

lemma contiguous_entry:
  assumes "affine_geometry_valid base 1 1 n 0 0 sz" "k < unat n"
  shows "unat (base + word_of_nat k * sz) = unat base + k * unat sz"
    "unat base + k * unat sz + unat sz \<le> 4294967295"
proof -
  have k: "unat (word_of_nat k :: u32) = k"
    using assms(2) unat_u32_less [of n] by (intro unat_word_of_nat_u32) linarith
  show "unat (base + word_of_nat k * sz) = unat base + k * unat sz"
    "unat base + k * unat sz + unat sz \<le> 4294967295"
    using affine_element [OF assms(1), of 0 0 k "word_of_nat k"] assms(2) k by simp_all
qed

lemma linear_entry:
  assumes "tu_agen_iterator_init (Linear (Some (n, sz))) base = (0, it)" "k < unat n"
  shows "unat (agen_entry it k) = unat base + k * unat sz"
    "unat base + k * unat sz + unat sz \<le> 4294967295"
proof -
  have valid: "affine_geometry_valid base 1 1 n 0 0 sz"
    and it: "it = (fresh_iterator TU_AGEN_MODE_LINEAR base)\<lparr>it_elem_size := sz, it_dims := (n, 0, 0),
      it_total_elements := n\<rparr>"
    using assms(1) by (simp_all add: Let_def split: if_splits)
  have "agen_entry it k = base + word_of_nat k * sz"
    by (simp add: agen_entry_def agen_address_def it fresh_iterator_def Let_def)
  then show "unat (agen_entry it k) = unat base + k * unat sz"
    "unat base + k * unat sz + unat sz \<le> 4294967295"
    using contiguous_entry [OF valid assms(2)] by simp_all
qed

text \<open>Splitting the index by the block width and putting it together again changes nothing.\<close>

lemma block_interleaved_entry:
  assumes "tu_agen_iterator_init (Block_Interleaved (Some (n, banks, width, sz))) base = (0, it)"
    "k < unat n"
  shows "unat (agen_entry it k) = unat base + k * unat (size_or_4 sz)"
    "unat base + k * unat (size_or_4 sz) + unat (size_or_4 sz) \<le> 4294967295"
proof -
  define w where "w = (if width \<noteq> 0 then width else 1)"
  have valid: "affine_geometry_valid base 1 1 n 0 0 (size_or_4 sz)"
    and it: "it = (fresh_iterator TU_AGEN_MODE_BLOCK_INTERLEAVED base)\<lparr>it_total_elements := n,
      it_num_banks := (if banks \<noteq> 0 then banks else 1), it_bank_width := w,
      it_elem_size := size_or_4 sz\<rparr>"
    using assms(1) by (simp_all add: Let_def w_def split: if_splits)
  have "(i div w) * w + i mod w = i" for i :: u32 by (rule word_mod_div_equality)
  then have "agen_entry it k = base + word_of_nat k * size_or_4 sz"
    by (simp add: agen_entry_def agen_address_def it fresh_iterator_def Let_def)
  then show "unat (agen_entry it k) = unat base + k * unat (size_or_4 sz)"
    "unat base + k * unat (size_or_4 sz) + unat (size_or_4 sz) \<le> 4294967295"
    using contiguous_entry [OF valid assms(2)] by simp_all
qed

lemma tiled_entry_bij:
  assumes "tiled_geometry_valid base d r c sz" "0 < unat td" "0 < unat tr" "0 < unat tc"
    and entry: "\<And>i. agen_entry it i = base + tiled_offset (word_of_nat i) d r c td tr tc * sz"
  defines "n \<equiv> unat d * (unat r * unat c)"
  shows "\<exists>p. bij_betw p {..<n} {..<n}
      \<and> (\<forall>i<n. unat (agen_entry it i) = unat base + p i * unat sz
           \<and> unat base + p i * unat sz + unat sz \<le> 4294967295)"
proof (cases "n = 0")
  case True
  then show ?thesis by (intro exI [of _ id]) simp
next
  case False
  define p where "p i = tiled_offset_nat i (unat d) (unat r) (unat c)
      (min (unat td) (unat d)) (min (unat tr) (unat r)) (min (unat tc) (unat c))" for i
  have g: "n \<le> 4294967295" "unat base + n * unat sz \<le> 4294967295"
    using assms(1) False by (auto simp: tiled_geometry_valid_iff n_def)
  have pos: "0 < unat d" "0 < unat r" "0 < unat c" using False by (auto simp: n_def)
  have bij: "bij_betw p {..<n} {..<n}"
    unfolding p_def n_def using assms(2-4) pos by (intro tiled_offset_nat_bij) simp_all
  have "unat (agen_entry it i) = unat base + p i * unat sz
      \<and> unat base + p i * unat sz + unat sz \<le> 4294967295" if i: "i < n" for i
  proof -
    have ui: "unat (word_of_nat i :: u32) = i" using i g by (intro unat_word_of_nat_u32) linarith
    have "n < 4294967296" using g(1) by linarith
    then have "unat (tiled_offset (word_of_nat i) d r c td tr tc) = p i"
      using tiled_offset_exact [OF assms(2-4), of d r c "word_of_nat i"] i ui
      by (simp add: p_def n_def)
    moreover have "p i < n" using bij i by (auto simp: bij_betw_def)
    ultimately show ?thesis
      using element_exact [of "p i" n base sz] g(2) by (simp add: entry)
  qed
  then show ?thesis using bij by blast
qed

lemma tiled_3d_entries:
  assumes "tu_agen_iterator_init (Tiled_3D (Some (d, r, c, td, tr, tc, sz))) base = (0, it)"
  defines "n \<equiv> unat d * (unat r * unat c)"
  shows "\<exists>p. bij_betw p {..<n} {..<n}
      \<and> (\<forall>i<n. unat (agen_entry it i) = unat base + p i * unat (size_or_4 sz)
           \<and> unat base + p i * unat (size_or_4 sz) + unat (size_or_4 sz) \<le> 4294967295)"
    "it_base_addr it = base" "it_elem_size it = size_or_4 sz" "unat (it_total_elements it) = n"
proof -
  have valid: "tiled_geometry_valid base d r c (size_or_4 sz)"
    and pos: "0 < unat td" "0 < unat tr" "0 < unat tc"
    and it: "it = (fresh_iterator TU_AGEN_MODE_TILED_3D base)\<lparr>it_total_dims := (d, r, c),
      it_tile_dims := (td, tr, tc), it_elem_size := size_or_4 sz,
      it_dims := (ceil_div_u32 d td, ceil_div_u32 r tr, ceil_div_u32 c tc),
      it_total_elements := d * r * c\<rparr>"
    using assms(1) by (simp_all add: Let_def unat_gt_0 split: if_splits)
  have entry: "agen_entry it i = base + tiled_offset (word_of_nat i) d r c td tr tc * size_or_4 sz" for i
    by (simp add: agen_entry_def agen_address_def it fresh_iterator_def Let_def)
  show "\<exists>p. bij_betw p {..<n} {..<n}
      \<and> (\<forall>i<n. unat (agen_entry it i) = unat base + p i * unat (size_or_4 sz)
           \<and> unat base + p i * unat (size_or_4 sz) + unat (size_or_4 sz) \<le> 4294967295)"
    unfolding n_def by (rule tiled_entry_bij [OF valid pos entry])
  show "it_base_addr it = base" "it_elem_size it = size_or_4 sz"
    by (simp_all add: it fresh_iterator_def)
  show "unat (it_total_elements it) = n"
  proof (cases "n = 0")
    case True
    then have "d * r * c = 0" by (auto simp: n_def unat_eq_0)
    then show ?thesis using True by (simp add: it)
  next
    case False
    then have "n \<le> 4294967295" "0 < unat c"
      using valid by (auto simp: tiled_geometry_valid_iff n_def)
    then show ?thesis
      using u32_mult3_exact [of d r c] by (simp add: it n_def mult.assoc)
  qed
qed

lemma tiled_2d_entries:
  assumes "tu_agen_iterator_init (Tiled_2D (Some cfg)) base = (0, it)"
  defines "n \<equiv> unat (t2_total_rows cfg) * unat (t2_total_cols cfg)"
  shows "\<exists>p. bij_betw p {..<n} {..<n}
      \<and> (\<forall>i<n. unat (agen_entry it i) = unat base + p i * 4
           \<and> unat base + p i * 4 + 4 \<le> 4294967295)"
proof -
  let ?r = "t2_total_rows cfg" and ?c = "t2_total_cols cfg"
  have valid: "tiled_geometry_valid base 1 ?r ?c 4"
    and pos: "0 < unat (t2_tile_rows cfg)" "0 < unat (t2_tile_cols cfg)"
    and it: "it = (fresh_iterator TU_AGEN_MODE_TILED_2D base)\<lparr>it_total_dims := (?r, ?c, 0),
      it_tile_dims := (t2_tile_rows cfg, t2_tile_cols cfg, 0),
      it_dims := (ceil_div_u32 ?r (t2_tile_rows cfg), ceil_div_u32 ?c (t2_tile_cols cfg), 0),
      it_total_elements := ?r * ?c, it_elem_size := 4\<rparr>"
    using assms(1) by (simp_all add: Let_def unat_gt_0 split: if_splits)
  have "agen_entry it i = base + tiled_offset (word_of_nat i) 1 ?r ?c 1 (t2_tile_rows cfg)
      (t2_tile_cols cfg) * 4" for i
    by (simp add: agen_entry_def agen_address_def it fresh_iterator_def Let_def)
  note b = tiled_entry_bij [OF valid _ pos this]
  show ?thesis using b by (simp add: n_def)
qed

section \<open>Im2col shapes and entries\<close>

lemma im2col_axis_exact:
  assumes "0 < unat kern" "0 < unat stride"
  shows "unat (im2col_axis input kern pad stride dil) =
    (if unat input = 0 \<or> unat input + 2 * unat pad < (unat kern - 1) * unat dil + 1 then 0
     else (unat input + 2 * unat pad - ((unat kern - 1) * unat dil + 1)) div unat stride + 1)"
proof -
  define k h :: u64 where "k = ucast (kern - 1) * ucast dil + 1" and "h = ucast input + 2 * ucast pad"
  have k1: "unat (ucast (kern - 1) * ucast dil :: u64) = (unat kern - 1) * unat dil"
    using assms(1) by (subst u64_of_u32_mult) (simp add: unat_sub_le word_le_nat_alt)
  have "(unat kern - 1) * unat dil \<le> 18446744065119617025"
    using u32_prod_less [of "kern - 1" dil] assms(1) by (simp add: unat_sub_le word_le_nat_alt)
  then have k: "unat k = (unat kern - 1) * unat dil + 1"
    unfolding k_def by (subst u64_add_exact) (simp_all add: k1)
  have two: "unat (2 * ucast pad :: u64) = 2 * unat pad"
    by (subst u64_mult_exact) (simp_all add: less_trans [OF unat_u32_less])
  have h: "unat h = unat input + 2 * unat pad"
  proof -
    have "unat input + 2 * unat pad < 18446744073709551616"
      using unat_u32_less [of pad] unat_u32_less [of input] by linarith
    then show ?thesis unfolding h_def by (subst u64_add_exact) (simp_all add: two)
  qed
  have s: "unat ((h - k) div ucast stride) = (unat h - unat k) div unat stride" if "k \<le> h"
    using that by (simp add: unat_div_distrib unat_sub_le)
  have "(unat h - unat k) div unat stride \<le> unat h" by (meson diff_le_self div_le_dividend le_trans)
  also have "\<dots> < 18446744073709551615"
    unfolding h using unat_u32_less [of pad] unat_u32_less [of input] by linarith
  finally have "unat ((h - k) div ucast stride + 1) = (unat h - unat k) div unat stride + 1" if "k \<le> h"
    using s [OF that] by (subst u64_add_exact) simp_all
  then show ?thesis
    by (auto simp: im2col_axis_def Let_def k_def [symmetric] h_def [symmetric] word_less_nat_alt
        word_le_nat_alt h k unat_eq_0)
qed

text \<open>An axis has exactly the output positions at which the whole kernel fits the padded input.\<close>

lemma im2col_axis_positions:
  assumes "0 < unat kern" "0 < unat stride"
  shows "n < unat (im2col_axis input kern pad stride dil) \<longleftrightarrow>
    0 < unat input \<and> n * unat stride + (unat kern - 1) * unat dil < unat input + 2 * unat pad"
proof -
  define k h where "k = (unat kern - 1) * unat dil + 1" and "h = unat input + 2 * unat pad"
  have "n < (h - k) div unat stride + 1 \<longleftrightarrow> n * unat stride + k \<le> h" if "k \<le> h"
    using less_eq_div_iff_mult_less_eq [OF assms(2), of n "h - k"] that by linarith
  then show ?thesis
    unfolding im2col_axis_exact [OF assms] k_def [symmetric] h_def [symmetric]
    by (auto simp: k_def h_def)
qed

lemma im2col_output_dims_positions:
  assumes "im2col_output_dims cfg = (True, oh, ow)"
  shows "n < unat oh \<longleftrightarrow> 0 < unat (im_input_h cfg)
      \<and> n * unat (im_stride_h cfg) + (unat (im_kernel_h cfg) - 1) * unat (im_dilation_h cfg)
          < unat (im_input_h cfg) + 2 * unat (im_pad_h cfg)"
    and "n < unat ow \<longleftrightarrow> 0 < unat (im_input_w cfg)
      \<and> n * unat (im_stride_w cfg) + (unat (im_kernel_w cfg) - 1) * unat (im_dilation_w cfg)
          < unat (im_input_w cfg) + 2 * unat (im_pad_w cfg)"
proof -
  let ?nh = "im2col_axis (im_input_h cfg) (im_kernel_h cfg) (im_pad_h cfg) (im_stride_h cfg) (im_dilation_h cfg)"
  let ?nw = "im2col_axis (im_input_w cfg) (im_kernel_w cfg) (im_pad_w cfg) (im_stride_w cfg) (im_dilation_w cfg)"
  have pos: "0 < unat (im_kernel_h cfg)" "0 < unat (im_kernel_w cfg)"
      "0 < unat (im_stride_h cfg)" "0 < unat (im_stride_w cfg)"
    and small: "\<not> ?nh > 0xFFFFFFFF" "\<not> ?nw > 0xFFFFFFFF" and eq: "oh = ucast ?nh" "ow = ucast ?nw"
    using assms by (simp_all add: im2col_output_dims_def Let_def unat_gt_0 split: if_splits)
  have "unat oh = unat ?nh" "unat ow = unat ?nw"
    unfolding eq using small by (simp_all add: unat_ucast_64_32 word_less_nat_alt)
  then show "n < unat oh \<longleftrightarrow> 0 < unat (im_input_h cfg)
      \<and> n * unat (im_stride_h cfg) + (unat (im_kernel_h cfg) - 1) * unat (im_dilation_h cfg)
          < unat (im_input_h cfg) + 2 * unat (im_pad_h cfg)"
    "n < unat ow \<longleftrightarrow> 0 < unat (im_input_w cfg)
      \<and> n * unat (im_stride_w cfg) + (unat (im_kernel_w cfg) - 1) * unat (im_dilation_w cfg)
          < unat (im_input_w cfg) + 2 * unat (im_pad_w cfg)"
    using im2col_axis_positions [OF pos(1,3)] im2col_axis_positions [OF pos(2,4)] by simp_all
qed

text \<open>A coordinate of the padded input, in 64 bits.\<close>

lemma im2col_coord_exact:
  fixes a s b t :: u32
  assumes "unat a * unat s + (kk - 1) * unat t < unat i + 2 * unat (p :: u32)" "unat b < kk"
  shows "unat (ucast a * ucast s + ucast b * ucast t :: u64) = unat a * unat s + unat b * unat t"
    "unat a * unat s + unat b * unat t < unat (i :: u32) + 2 * unat p"
proof -
  have "unat b * unat t \<le> (kk - 1) * unat t" using assms(2) by (intro mult_le_mono1) simp
  then show le: "unat a * unat s + unat b * unat t < unat i + 2 * unat p" using assms(1) by linarith
  then have "unat a * unat s + unat b * unat t < 18446744073709551616"
    using unat_u32_less [of i] unat_u32_less [of p] by linarith
  then show "unat (ucast a * ucast s + ucast b * ucast t :: u64) = unat a * unat s + unat b * unat t"
    by (subst u64_add_exact) (simp_all add: u64_of_u32_mult)
qed

text \<open>The NCHW address of an unpadded coordinate, in 64 bits and narrowed.\<close>

lemma nchw_address_exact:
  fixes base ic sz :: u32 and hh ww plane :: u64
  assumes "unat plane = ic' * (unat h * unat w)" "ic' < unat c" "unat hh < unat h" "unat ww < unat w"
    and "tiled_geometry_valid base c h w sz"
  shows "unat (ucast (ucast base + (plane + hh * ucast w + ww) * ucast sz :: u64) :: u32)
     = unat base + ((ic' * unat h + unat hh) * unat w + unat ww) * unat sz"
    "unat base + ((ic' * unat h + unat hh) * unat w + unat ww) * unat sz + unat sz \<le> 4294967295"
proof -
  define off where "off = (ic' * unat h + unat hh) * unat w + unat ww"
  have lt: "off < unat c * (unat h * unat w)"
    unfolding off_def using row_major_bound [OF row_major_bound [OF assms(2,3)] assms(4)]
    by (simp add: mult.assoc)
  then have g: "unat c * (unat h * unat w) \<le> 4294967295"
      "unat base + unat c * (unat h * unat w) * unat sz \<le> 4294967295"
    using assms(5) by (auto simp: tiled_geometry_valid_iff)
  have "Suc off * unat sz \<le> unat c * (unat h * unat w) * unat sz"
    using lt by (intro mult_le_mono1) simp
  then have fin: "unat base + off * unat sz + unat sz \<le> 4294967295" using g(2) by simp
  then show "unat base + ((ic' * unat h + unat hh) * unat w + unat ww) * unat sz + unat sz \<le> 4294967295"
    by (simp add: off_def)
  have off: "off = ic' * (unat h * unat w) + unat hh * unat w + unat ww"
    by (simp add: off_def add_mult_distrib)
  have small: "off < 18446744073709551616" using lt g(1) by linarith
  have m: "unat (hh * ucast w) = unat hh * unat w"
    using small off by (subst u64_mult_exact) simp_all
  have o: "unat (plane + hh * ucast w + ww) = off"
    using small off by (simp add: u64_add_exact m assms(1))
  have os: "unat ((plane + hh * ucast w + ww) * ucast sz) = off * unat sz"
    using fin by (subst u64_mult_exact) (simp_all add: o)
  have "unat (ucast base + (plane + hh * ucast w + ww) * ucast sz :: u64) = unat base + off * unat sz"
    using fin by (subst u64_add_exact) (simp_all add: os)
  then show "unat (ucast (ucast base + (plane + hh * ucast w + ww) * ucast sz :: u64) :: u32)
     = unat base + ((ic' * unat h + unat hh) * unat w + unat ww) * unat sz"
    using fin by (subst unat_ucast_64_32) (simp_all add: off_def)
qed

text \<open>
  Where a padded coordinate lands: the NCHW address, or nothing in the padding. The same
  description serves the iterator and the point query.
\<close>

definition im2col_source :: "tu_agen_im2col \<Rightarrow> nat \<Rightarrow> nat \<Rightarrow> nat \<Rightarrow> nat \<Rightarrow> nat \<Rightarrow> nat \<Rightarrow> nat \<Rightarrow> nat option" where
  "im2col_source cfg base sz oh ow kh kw ic =
     (let hp = oh * unat (im_stride_h cfg) + kh * unat (im_dilation_h cfg);
          wp = ow * unat (im_stride_w cfg) + kw * unat (im_dilation_w cfg);
          h = hp - unat (im_pad_h cfg); w = wp - unat (im_pad_w cfg)
      in if unat (im_pad_h cfg) \<le> hp \<and> unat (im_pad_w cfg) \<le> wp
            \<and> h < unat (im_input_h cfg) \<and> w < unat (im_input_w cfg)
         then Some (base + ((ic * unat (im_input_h cfg) + h) * unat (im_input_w cfg) + w) * sz)
         else None)"

lemma addr_im2col_exact:
  assumes dims: "im2col_output_dims cfg = (True, out_h, out_w)"
    and "im_elem_size cfg \<noteq> 0" "oh < out_h" "ow < out_w" "kh < im_kernel_h cfg"
      "kw < im_kernel_w cfg" "ic < im_input_c cfg"
    and valid: "tiled_geometry_valid base (im_input_c cfg) (im_input_h cfg) (im_input_w cfg) (im_elem_size cfg)"
  shows "unat (tu_agen_addr_im2col cfg base oh ow kh kw ic) =
    (case im2col_source cfg (unat base) (unat (im_elem_size cfg)) (unat oh) (unat ow) (unat kh) (unat kw) (unat ic) of
       Some a \<Rightarrow> a | None \<Rightarrow> 4294967295)"
proof -
  define hh ww :: u64 where "hh = ucast oh * ucast (im_stride_h cfg) + ucast kh * ucast (im_dilation_h cfg)"
    and "ww = ucast ow * ucast (im_stride_w cfg) + ucast kw * ucast (im_dilation_w cfg)"
  note ps = im2col_output_dims_positions [OF dims]
  have hb: "unat oh * unat (im_stride_h cfg) + (unat (im_kernel_h cfg) - 1) * unat (im_dilation_h cfg)
      < unat (im_input_h cfg) + 2 * unat (im_pad_h cfg)"
    and wb: "unat ow * unat (im_stride_w cfg) + (unat (im_kernel_w cfg) - 1) * unat (im_dilation_w cfg)
      < unat (im_input_w cfg) + 2 * unat (im_pad_w cfg)"
    using ps assms(3,4) by (auto simp: word_less_nat_alt)
  have uh: "unat hh = unat oh * unat (im_stride_h cfg) + unat kh * unat (im_dilation_h cfg)"
    unfolding hh_def by (rule im2col_coord_exact(1) [OF hb]) (use assms(5) in \<open>simp add: word_less_nat_alt\<close>)
  have uw: "unat ww = unat ow * unat (im_stride_w cfg) + unat kw * unat (im_dilation_w cfg)"
    unfolding ww_def by (rule im2col_coord_exact(1) [OF wb]) (use assms(6) in \<open>simp add: word_less_nat_alt\<close>)
  define inside where "inside \<longleftrightarrow> ucast (im_pad_h cfg) \<le> hh \<and> ucast (im_pad_w cfg) \<le> ww
    \<and> hh - ucast (im_pad_h cfg) < ucast (im_input_h cfg) \<and> ww - ucast (im_pad_w cfg) < ucast (im_input_w cfg)"
  have query: "tu_agen_addr_im2col cfg base oh ow kh kw ic = (if inside then
      ucast (ucast base + (ucast ic * ucast (im_input_h cfg) * ucast (im_input_w cfg)
        + (hh - ucast (im_pad_h cfg)) * ucast (im_input_w cfg) + (ww - ucast (im_pad_w cfg)))
          * ucast (im_elem_size cfg)) else UINT32_MAX)"
    using assms(2-8) by (auto simp: tu_agen_addr_im2col_def dims Let_def hh_def [symmetric]
        ww_def [symmetric] inside_def not_le not_less)
  have sub: "unat (hh - ucast (im_pad_h cfg)) = unat hh - unat (im_pad_h cfg)"
      "unat (ww - ucast (im_pad_w cfg)) = unat ww - unat (im_pad_w cfg)" if inside
    using that by (simp_all add: inside_def unat_sub_le)
  have ins: "inside \<longleftrightarrow> unat (im_pad_h cfg) \<le> unat hh \<and> unat (im_pad_w cfg) \<le> unat ww
      \<and> unat hh - unat (im_pad_h cfg) < unat (im_input_h cfg)
      \<and> unat ww - unat (im_pad_w cfg) < unat (im_input_w cfg)"
    unfolding inside_def by (auto simp: word_le_nat_alt word_less_nat_alt unat_sub_le)
  have ic: "unat ic < unat (im_input_c cfg)" using assms(7) by (simp add: word_less_nat_alt)
  show ?thesis
  proof (cases inside)
    case True
    have hw: "unat (hh - ucast (im_pad_h cfg)) < unat (im_input_h cfg)"
        "unat (ww - ucast (im_pad_w cfg)) < unat (im_input_w cfg)"
      using True ins sub by simp_all
    have "unat ic * (unat (im_input_h cfg) * unat (im_input_w cfg))
        < unat (im_input_c cfg) * (unat (im_input_h cfg) * unat (im_input_w cfg))"
      using ic hw by simp
    also have "\<dots> \<le> 4294967295"
      using valid ic hw by (auto simp: tiled_geometry_valid_iff)
    finally have "unat (ucast ic * ucast (im_input_h cfg) * ucast (im_input_w cfg) :: u64)
        = unat ic * (unat (im_input_h cfg) * unat (im_input_w cfg))"
      by (subst u64_mult_exact) (simp_all add: u64_of_u32_mult mult.assoc)
    note addr = nchw_address_exact(1) [OF this ic hw valid]
    show ?thesis
      using True ins addr by (simp add: query im2col_source_def Let_def uh uw sub)
  next
    case False
    then have "im2col_source cfg (unat base) (unat (im_elem_size cfg)) (unat oh) (unat ow)
        (unat kh) (unat kw) (unat ic) = None"
      using ins by (auto simp: im2col_source_def Let_def uh uw)
    then show ?thesis using False by (simp add: query)
  qed
qed

text \<open>Multiplying up the entry count.\<close>

lemma count_factor_exact:
  assumes "count_factor (Some (n :: u64)) f = Some m" "0 < unat f" "unat n \<le> 4294967295"
  shows "unat m = unat n * unat f \<and> unat m \<le> 4294967295"
proof -
  have le: "unat n \<le> 4294967295 div unat f" and m: "m = n * ucast f"
    using assms(1) by (simp_all add: count_factor_def word_less_nat_alt not_less unat_div_distrib
        split: if_splits)
  have "unat n * unat f \<le> 4294967295"
    using le less_eq_div_iff_mult_less_eq [OF assms(2)] by blast
  then show ?thesis unfolding m by (subst (1 2) u64_mult_exact) simp_all
qed

lemma count_factors_exact:
  assumes "foldl count_factor (Some (n :: u64)) fs = Some m" "0 \<notin> set fs" "unat n \<le> 4294967295"
  shows "unat m = unat n * prod_list (map unat fs) \<and> unat m \<le> 4294967295"
  using assms
proof (induction fs arbitrary: n)
  case (Cons f fs)
  have none: "foldl count_factor None fs = (None :: u64 option)"
    by (induction fs) (simp_all add: count_factor_def)
  obtain n' where n': "count_factor (Some n) f = Some n'"
    using Cons.prems(1) none by (cases "count_factor (Some n) f") simp_all
  have "unat n' = unat n * unat f \<and> unat n' \<le> 4294967295"
    using count_factor_exact [OF n'] Cons.prems(2,3) by (simp add: unat_gt_0)
  then show ?case using Cons.IH [of n'] Cons.prems(1,2) n' by (simp add: mult.assoc)
qed simp

lemma im2col_count_exact:
  assumes "im2col_count base cfg oh ow sz = Some n" "oh \<noteq> 0" "ow \<noteq> 0" "im_input_c cfg \<noteq> 0"
    and k: "im_kernel_h cfg \<noteq> 0" "im_kernel_w cfg \<noteq> 0"
  shows "unat n = unat oh * unat ow * unat (im_kernel_h cfg) * unat (im_kernel_w cfg) * unat (im_input_c cfg)"
    "unat n \<le> 4294967295"
    "tiled_geometry_valid base (im_input_c cfg) (im_input_h cfg) (im_input_w cfg) sz"
proof -
  have c: "foldl count_factor (Some 1) [oh, ow, im_kernel_h cfg, im_kernel_w cfg, im_input_c cfg] = Some n"
    and valid: "tiled_geometry_valid base (im_input_c cfg) (im_input_h cfg) (im_input_w cfg) sz"
    using assms(1-4) unfolding im2col_count_def by (simp_all split: if_splits option.splits)
  show "unat n = unat oh * unat ow * unat (im_kernel_h cfg) * unat (im_kernel_w cfg) * unat (im_input_c cfg)"
    "unat n \<le> 4294967295"
    using count_factors_exact [OF c] assms(2-6) by (simp_all add: mult.assoc)
  show "tiled_geometry_valid base (im_input_c cfg) (im_input_h cfg) (im_input_w cfg) sz" by (rule valid)
qed

text \<open>The five-level index of an im2col entry.\<close>

definition im2col_index :: "nat \<Rightarrow> nat \<Rightarrow> nat \<Rightarrow> nat \<Rightarrow> nat \<Rightarrow> nat \<Rightarrow> nat \<Rightarrow> nat \<Rightarrow> nat \<Rightarrow> nat" where
  "im2col_index OW KH KW C oh ow kh kw ic =
     (oh * OW + ow) * (KH * KW * C) + ((kh * KW + kw) * C + ic)"

lemma im2col_index_decode:
  fixes oh ow kh kw ic :: nat
  assumes "ow < OW" "kh < KH" "kw < KW" "ic < C"
  defines "k \<equiv> im2col_index OW KH KW C oh ow kh kw ic" and "per_ow \<equiv> KH * KW * C"
  shows "k div (per_ow * OW) = oh" "k mod (per_ow * OW) div per_ow = ow"
    "k mod (per_ow * OW) mod per_ow mod C = ic"
    "k mod (per_ow * OW) mod per_ow div C div KW = kh"
    "k mod (per_ow * OW) mod per_ow div C mod KW = kw"
proof -
  define m where "m = (kh * KW + kw) * C + ic"
  have "m < per_ow"
    unfolding m_def per_ow_def using row_major_bound [OF row_major_bound [OF assms(2,3)] assms(4)] .
  note d = row_major_decode [OF assms(1) this, of oh]
  have k: "k = (oh * OW + ow) * per_ow + m" by (simp add: k_def im2col_index_def per_ow_def m_def)
  have mm: "k mod (per_ow * OW) mod per_ow = m" using d(3) by (simp add: k mult.commute)
  show "k div (per_ow * OW) = oh" "k mod (per_ow * OW) div per_ow = ow"
    using d(1,2) by (simp_all add: k mult.commute)
  show "k mod (per_ow * OW) mod per_ow mod C = ic" "k mod (per_ow * OW) mod per_ow div C div KW = kh"
    "k mod (per_ow * OW) mod per_ow div C mod KW = kw"
    unfolding mm m_def using row_major_decode(4,5) [OF assms(3,4), of kh] assms(3,4) by simp_all
qed

lemma im2col_index_bound:
  assumes "oh < OH" "ow < OW" "kh < KH" "kw < KW" "ic < C"
  shows "im2col_index OW KH KW C oh ow kh kw ic < OH * OW * KH * KW * C"
proof -
  have "(kh * KW + kw) * C + ic < KH * KW * C"
    using row_major_bound [OF row_major_bound [OF assms(3,4)] assms(5)] .
  then show ?thesis
    using row_major_bound [OF row_major_bound [OF assms(1,2)]] by (simp add: im2col_index_def mult.assoc)
qed

lemma im2col_init_cases:
  assumes "tu_agen_iterator_init (Im2col (Some cfg)) base = (0, it)"
  obtains oh ow n where "im2col_output_dims cfg = (True, oh, ow)"
    "im2col_count base cfg oh ow (size_or_4 (im_elem_size cfg)) = Some n"
    "it = (fresh_iterator TU_AGEN_MODE_IM2COL base)\<lparr>it_im2col := cfg\<lparr>im_output_h := oh, im_output_w := ow\<rparr>,
       it_elem_size := size_or_4 (im_elem_size cfg), it_total_elements := ucast n\<rparr>"
  using assms by (auto simp: Let_def split: prod.splits if_splits option.splits)

lemma le_of_mult_le: "1 \<le> b \<Longrightarrow> a * b \<le> n \<Longrightarrow> a \<le> n" for a b n :: nat
  by (metis le_trans mult.right_neutral mult_le_mono2)

lemma im2col_entry_exact:
  assumes init: "tu_agen_iterator_init (Im2col (Some cfg)) base = (0, it)"
    and dims: "im2col_output_dims cfg = (True, out_h, out_w)"
    and b: "oh < unat out_h" "ow < unat out_w" "kh < unat (im_kernel_h cfg)"
      "kw < unat (im_kernel_w cfg)" "ic < unat (im_input_c cfg)"
  defines "k \<equiv> im2col_index (unat out_w) (unat (im_kernel_h cfg)) (unat (im_kernel_w cfg))
      (unat (im_input_c cfg)) oh ow kh kw ic"
  shows "unat (agen_entry it k) =
      (case im2col_source cfg (unat base) (unat (size_or_4 (im_elem_size cfg))) oh ow kh kw ic of
         Some a \<Rightarrow> a | None \<Rightarrow> 4294967040)"
    "k < unat (it_total_elements it)"
proof -
  let ?sz = "size_or_4 (im_elem_size cfg)"
  obtain n where n: "im2col_count base cfg out_h out_w ?sz = Some n"
    and it: "it = (fresh_iterator TU_AGEN_MODE_IM2COL base)\<lparr>it_im2col := cfg\<lparr>im_output_h := out_h, im_output_w := out_w\<rparr>,
       it_elem_size := ?sz, it_total_elements := ucast n\<rparr>"
    using im2col_init_cases [OF init] dims by (metis prod.inject)
  have nz: "out_h \<noteq> 0" "out_w \<noteq> 0" "im_kernel_h cfg \<noteq> 0" "im_kernel_w cfg \<noteq> 0" "im_input_c cfg \<noteq> 0"
    using b by (auto simp: unat_gt_0)
  note cnt = im2col_count_exact [OF n nz(1,2,5,3,4)]
  have kn: "k < unat n"
    unfolding cnt(1) k_def by (rule im2col_index_bound [OF b])
  have "unat n < 4294967296" using cnt(2) by linarith
  then show "k < unat (it_total_elements it)" using kn by (simp add: it unat_ucast_64_32)
  have uk: "unat (word_of_nat k :: u32) = k" using kn cnt(2) by (intro unat_word_of_nat_u32) linarith
  let ?KH = "im_kernel_h cfg" and ?KW = "im_kernel_w cfg" and ?C = "im_input_c cfg"
  have pos: "1 \<le> unat out_h" "1 \<le> unat out_w" "1 \<le> unat ?KH" "1 \<le> unat ?KW" "1 \<le> unat ?C"
    using b by linarith+
  define P3 P4 where "P3 = unat ?KH * unat ?KW * unat ?C" and "P4 = P3 * unat out_w"
  have "P4 * unat out_h = unat n" by (simp add: P4_def P3_def cnt(1) ac_simps)
  then have P4: "P4 \<le> 4294967295" using le_of_mult_le [OF pos(1)] cnt(2) by metis
  then have P: "P4 \<le> 4294967295" "P3 \<le> 4294967295"
    using le_of_mult_le [OF pos(2)] by (simp_all add: P4_def)
  have u3: "unat (?KH * ?KW * ?C) = P3"
    unfolding P3_def by (rule u32_mult3_exact) (use P pos in \<open>simp_all add: P3_def\<close>)
  have u4: "unat (?KH * ?KW * ?C * out_w) = P4"
    using P u3 by (subst u32_mult_exact) (simp_all add: P4_def)
  define koh kow kkh kkw kic :: u32 where
    "koh = word_of_nat k div (?KH * ?KW * ?C * out_w)"
    and "kow = word_of_nat k mod (?KH * ?KW * ?C * out_w) div (?KH * ?KW * ?C)"
    and "kkh = word_of_nat k mod (?KH * ?KW * ?C * out_w) mod (?KH * ?KW * ?C) div ?C div ?KW"
    and "kkw = word_of_nat k mod (?KH * ?KW * ?C * out_w) mod (?KH * ?KW * ?C) div ?C mod ?KW"
    and "kic = word_of_nat k mod (?KH * ?KW * ?C * out_w) mod (?KH * ?KW * ?C) mod ?C"
  note dec = im2col_index_decode [OF b(2-5), of oh, folded k_def, folded P3_def, folded P4_def]
  have un: "unat koh = oh" "unat kow = ow" "unat kkh = kh" "unat kkw = kw" "unat kic = ic"
    by (simp_all only: koh_def kow_def kkh_def kkw_def kic_def unat_div_distrib unat_mod_distrib
        u3 u4 uk dec)
  define hh ww :: u64 where "hh = ucast koh * ucast (im_stride_h cfg) + ucast kkh * ucast (im_dilation_h cfg)"
    and "ww = ucast kow * ucast (im_stride_w cfg) + ucast kkw * ucast (im_dilation_w cfg)"
  define inside where "inside \<longleftrightarrow> ucast (im_pad_h cfg) \<le> hh \<and> ucast (im_pad_w cfg) \<le> ww
    \<and> hh - ucast (im_pad_h cfg) < ucast (im_input_h cfg) \<and> ww - ucast (im_pad_w cfg) < ucast (im_input_w cfg)"
  have entry: "agen_entry it k = (if inside then
      ucast (ucast base + (ucast (kic * im_input_h cfg * im_input_w cfg)
        + (hh - ucast (im_pad_h cfg)) * ucast (im_input_w cfg) + (ww - ucast (im_pad_w cfg)))
          * ucast ?sz) else 0xFFFFFF00)"
    by (simp add: agen_entry_def agen_address_def it fresh_iterator_def im2col_entry_def Let_def
        koh_def [symmetric] kow_def [symmetric] kkh_def [symmetric] kkw_def [symmetric]
        kic_def [symmetric] hh_def [symmetric] ww_def [symmetric] inside_def)
  note ps = im2col_output_dims_positions [OF dims]
  have uh: "unat hh = oh * unat (im_stride_h cfg) + kh * unat (im_dilation_h cfg)"
    unfolding hh_def un [symmetric] by (rule im2col_coord_exact(1)) (use ps(1) b un in auto)
  have uw: "unat ww = ow * unat (im_stride_w cfg) + kw * unat (im_dilation_w cfg)"
    unfolding ww_def un [symmetric] by (rule im2col_coord_exact(1)) (use ps(2) b un in auto)
  have sub: "unat (hh - ucast (im_pad_h cfg)) = unat hh - unat (im_pad_h cfg)"
      "unat (ww - ucast (im_pad_w cfg)) = unat ww - unat (im_pad_w cfg)" if inside
    using that by (simp_all add: inside_def unat_sub_le)
  have ins: "inside \<longleftrightarrow> unat (im_pad_h cfg) \<le> unat hh \<and> unat (im_pad_w cfg) \<le> unat ww
      \<and> unat hh - unat (im_pad_h cfg) < unat (im_input_h cfg)
      \<and> unat ww - unat (im_pad_w cfg) < unat (im_input_w cfg)"
    unfolding inside_def by (auto simp: word_le_nat_alt word_less_nat_alt unat_sub_le)
  show "unat (agen_entry it k) =
      (case im2col_source cfg (unat base) (unat ?sz) oh ow kh kw ic of Some a \<Rightarrow> a | None \<Rightarrow> 4294967040)"
  proof (cases inside)
    case True
    have hw: "unat (hh - ucast (im_pad_h cfg)) < unat (im_input_h cfg)"
        "unat (ww - ucast (im_pad_w cfg)) < unat (im_input_w cfg)"
      using True ins sub by simp_all
    have "ic * (unat (im_input_h cfg) * unat (im_input_w cfg))
        \<le> unat ?C * (unat (im_input_h cfg) * unat (im_input_w cfg))"
      using b(5) by (intro mult_le_mono1) simp
    also have "\<dots> \<le> 4294967295"
      using cnt(3) b(5) hw by (auto simp: tiled_geometry_valid_iff)
    finally have "unat (ucast (kic * im_input_h cfg * im_input_w cfg) :: u64)
        = ic * (unat (im_input_h cfg) * unat (im_input_w cfg))"
      using u32_mult3_exact [of kic "im_input_h cfg" "im_input_w cfg"] hw
      by (simp add: un mult.assoc)
    note addr = nchw_address_exact(1) [OF this b(5) hw cnt(3)]
    show ?thesis
      using True ins addr by (simp add: entry im2col_source_def Let_def uh uw sub)
  next
    case False
    then have "im2col_source cfg (unat base) (unat ?sz) oh ow kh kw ic = None"
      using ins by (auto simp: im2col_source_def Let_def uh uw)
    then show ?thesis using False by (simp add: entry)
  qed
qed

section \<open>Ranges\<close>

text \<open>The addresses of a run, and those of a stored range.\<close>

definition run_addresses :: "u32 \<Rightarrow> u32 \<Rightarrow> nat \<Rightarrow> u32 list" where
  "run_addresses start sz n = map (\<lambda>j. start + word_of_nat j * sz) [0..<n]"

definition expand_range :: "tu_agen_range \<Rightarrow> u32 list" where
  "expand_range rg = run_addresses (rg_base_addr rg) (rg_stride rg)
     (unat (rg_total_bytes rg) div unat (rg_elem_size rg))"

lemma run_addresses_Suc: "run_addresses start sz (Suc n) = run_addresses start sz n @ [start + word_of_nat n * sz]"
  by (simp add: run_addresses_def)

lemma run_addresses_1: "run_addresses start sz (Suc 0) = [start]"
  by (simp add: run_addresses_def)

text \<open>After \<open>i\<close> entries, as long as the buffer has been large enough.\<close>

definition range_inv :: "tu_agen_iterator \<Rightarrow> u32 \<Rightarrow> u32 \<Rightarrow> nat \<Rightarrow> range_state \<Rightarrow> bool" where
  "range_inv it sz max_ranges i st \<longleftrightarrow>
     unat (it_current_idx (rs_iter st)) = i
   \<and> unat (it_total_elements (rs_iter st)) = unat (it_total_elements it)
   \<and> agen_entry (rs_iter st) = agen_entry it
   \<and> 0 < unat (rs_range_len st) \<and> unat (rs_range_len st) \<le> i \<and> rs_range_count st < i
   \<and> rs_prev_addr st = rs_range_start st + (rs_range_len st - 1) * sz
   \<and> (rs_range_count st \<le> unat max_ranges \<longrightarrow> length (rs_ranges st) = rs_range_count st
       \<and> concat (map expand_range (rs_ranges st))
           @ run_addresses (rs_range_start st) sz (unat (rs_range_len st)) = map (agen_entry it) [0..<i])"

lemma expand_stored:
  assumes "0 < unat sz" "unat len * unat sz < 4294967296"
  shows "expand_range \<lparr>rg_base_addr = start, rg_elem_size = sz, rg_total_bytes = len * sz, rg_stride = sz\<rparr>
    = run_addresses start sz (unat len)"
  using assms by (simp add: expand_range_def u32_mult_exact)

lemma store_range_inv:
  assumes "range_inv it sz mx i st" "0 < unat sz" "i * unat sz < 4294967296"
    and "rs_range_count (store_range sz mx st) \<le> unat mx"
  shows "length (rs_ranges (store_range sz mx st)) = rs_range_count (store_range sz mx st)"
    "concat (map expand_range (rs_ranges (store_range sz mx st))) = map (agen_entry it) [0..<i]"
proof -
  have "unat (rs_range_len st) * unat sz \<le> i * unat sz"
    using assms(1) by (intro mult_le_mono1) (simp add: range_inv_def)
  then have len: "unat (rs_range_len st) * unat sz < 4294967296" using assms(3) by linarith
  have "rs_range_count st < unat mx" using assms(4) by (simp add: store_range_def)
  then show "length (rs_ranges (store_range sz mx st)) = rs_range_count (store_range sz mx st)"
    "concat (map expand_range (rs_ranges (store_range sz mx st))) = map (agen_entry it) [0..<i]"
    using assms(1) by (simp_all add: store_range_def range_inv_def expand_stored [OF assms(2) len])
qed

lemma range_step_inv:
  assumes inv: "range_inv it sz mx i st" and i: "i < unat (it_total_elements it)"
    and sz: "0 < unat sz" "unat (it_total_elements it) * unat sz < 4294967296"
  shows "range_inv it sz mx (Suc i) (range_step sz mx st)"
proof -
  obtain a it' where nx: "tu_agen_next (rs_iter st) = (a, it')" by (cases "tu_agen_next (rs_iter st)")
  have h: "tu_agen_has_next (rs_iter st)"
    using inv i by (simp add: range_inv_def tu_agen_has_next_def word_less_nat_alt)
  have a: "a = agen_entry it i" and it': "unat (it_current_idx it') = Suc i"
      "unat (it_total_elements it') = unat (it_total_elements it)" "agen_entry it' = agen_entry it"
    using agen.next_value [OF h] agen.next_pos [OF h] agen.next_frame [of "rs_iter st"] inv
    by (simp_all add: nx range_inv_def)
  have isz: "i * unat sz < 4294967296"
    using mult_le_mono1 [of i "unat (it_total_elements it)" "unat sz"] i sz(2) by linarith
  have i32: "Suc i < 4294967296" using i unat_u32_less [of "it_total_elements it"] by linarith
  show ?thesis
  proof (cases "a = rs_prev_addr st + sz \<and> a \<noteq> 0xFFFFFF00")
    case True
    define len where "len = rs_range_len st"
    have step: "range_step sz mx st = st\<lparr>rs_iter := it', rs_range_len := len + 1, rs_prev_addr := a\<rparr>"
      unfolding range_step_def nx using True by (simp only: prod.case Let_def) (auto simp: len_def)
    have ulen: "unat (len + 1) = Suc (unat len)"
      using inv i32 by (subst u32_add_exact) (simp_all add: range_inv_def len_def)
    have "a = rs_range_start st + word_of_nat (unat len) * sz"
      using True inv by (simp add: range_inv_def len_def algebra_simps)
    moreover from this have "a = rs_range_start st + (len + 1 - 1) * sz" by simp
    ultimately show ?thesis
      using inv by (simp add: range_inv_def step it' ulen [unfolded len_def] a run_addresses_Suc len_def
          flip: append_assoc)
  next
    case False
    define st1 where "st1 = st\<lparr>rs_iter := it'\<rparr>"
    have step: "range_step sz mx st = (store_range sz mx st1)\<lparr>rs_range_start := a, rs_range_len := 1, rs_prev_addr := a\<rparr>"
      unfolding range_step_def nx st1_def using False by (simp only: prod.case Let_def) auto
    have same: "rs_ranges (store_range sz mx st1) = rs_ranges (store_range sz mx st)"
      "rs_range_count (store_range sz mx st1) = rs_range_count (store_range sz mx st)"
      "rs_iter (store_range sz mx st1) = it'"
      by (simp_all add: store_range_def st1_def)
    have cnt: "rs_range_count (store_range sz mx st) < Suc i"
      using inv by (simp add: range_inv_def store_range_def)
    show ?thesis
      using store_range_inv [OF inv sz(1) isz] cnt
      by (simp add: range_inv_def step same it' run_addresses_1 a)
  qed
qed

lemma generate_ranges_expand:
  assumes "tu_agen_generate_ranges it mx = (it', rgs, n)" "mx \<noteq> 0"
    and sz: "0 < unat (it_elem_size it)" "unat (it_total_elements it) * unat (it_elem_size it) < 4294967296"
  shows "(n \<le> unat mx \<longrightarrow> concat (map expand_range rgs) = map (agen_entry it) [0..<unat (it_total_elements it)]
      \<and> length rgs = n) \<and> n \<le> unat (it_total_elements it)"
proof (cases "it_total_elements it = 0")
  case True
  then show ?thesis
    using assms(1,2) by (auto simp: tu_agen_generate_ranges_def tu_agen_reset_def tu_agen_total_def Let_def)
next
  case False
  define it0 where "it0 = tu_agen_reset it"
  define e where "e = it_elem_size it"
  define N where "N = unat (it_total_elements it)"
  have N: "0 < N" using False by (simp add: N_def unat_gt_0)
  have it0: "it_current_idx it0 = 0" "it_total_elements it0 = it_total_elements it"
      "agen_entry it0 = agen_entry it"
    using agen.reset_frame [of it] by (simp_all add: it0_def tu_agen_reset_def)
  have h: "tu_agen_has_next it0" using N by (simp add: tu_agen_has_next_def it0 N_def unat_gt_0 word_gt_0)
  obtain a it1 where nx: "tu_agen_next it0 = (a, it1)" by (cases "tu_agen_next it0")
  have a: "a = agen_entry it 0" and it1: "unat (it_current_idx it1) = 1"
      "unat (it_total_elements it1) = unat (it_total_elements it)" "agen_entry it1 = agen_entry it"
    using agen.next_value [OF h] agen.next_pos [OF h] agen.next_frame [of it0] it0 by (simp_all add: nx)
  have e1: "it_elem_size it1 = e"
    using nx by (auto simp: tu_agen_next_def it0_def tu_agen_reset_def e_def split: if_splits)
  define st0 where "st0 = \<lparr>rs_iter = it1, rs_prev_addr = a, rs_range_start = a,
      rs_range_len = 1, rs_range_count = 0, rs_ranges = []\<rparr>"
  have i0: "range_inv it e mx 1 st0" by (simp add: range_inv_def st0_def it1 run_addresses_1 a)
  have inv: "range_inv it e mx (Suc j) (foldl (\<lambda>st i. range_step e mx st) st0 [1..<Suc j])" if "j < N" for j
    using that
  proof (induction j)
    case (Suc j)
    then show ?case
      using range_step_inv [of it e mx "Suc j"] sz by (simp add: e_def N_def)
  qed (use i0 in simp)
  define st where "st = foldl (\<lambda>st i. range_step e mx st) st0 [1..<N]"
  have fin: "range_inv it e mx N st" using inv [of "N - 1"] N by (simp add: st_def)
  have res: "rgs = rs_ranges (store_range e mx st)" "n = rs_range_count (store_range e mx st)"
    using assms(1,2) False
    by (auto simp: tu_agen_generate_ranges_def it0_def [symmetric] tu_agen_total_def it0 nx e1
        st0_def [symmetric] st_def N_def Let_def)
  have "n \<le> N" using fin by (simp add: res store_range_def range_inv_def)
  then show ?thesis
    using store_range_inv [OF fin] sz by (simp add: res e_def N_def)
qed

section \<open>Tile grids\<close>

lemma ceil_div_exact:
  assumes "t \<noteq> 0"
  shows "unat (ceil_div_u32 n t) = (unat n + unat t - 1) div unat t"
proof -
  have t: "0 < unat t" using assms by (simp add: unat_gt_0)
  have c: "(a + b - 1) div b = a div b + (if a mod b \<noteq> 0 then 1 else 0)" if "0 < b" for a b :: nat
  proof (cases "a mod b = 0")
    case True
    then obtain q where "a = b * q" by (metis mod_0_imp_dvd dvdE)
    then show ?thesis using that by (simp add: div_nat_eqI)
  next
    case False
    define q m where "q = a div b" and "m = a mod b"
    have "a = q * b + m" "0 < m" "m < b" using False that by (simp_all add: q_def m_def)
    then have "b * Suc q \<le> a + b - 1" "a + b - 1 < b * Suc (Suc q)"
      by (simp_all add: mult.commute [of q])
    then have "(a + b - 1) div b = Suc q" by (rule div_nat_eqI)
    then show ?thesis using False by (simp add: q_def)
  qed
  have "unat n div unat t + (if unat n mod unat t \<noteq> 0 then 1 else 0) < 4294967296"
  proof (cases "unat t = 1")
    case True
    then show ?thesis by simp
  next
    case False
    then have "unat n div unat t \<le> unat n div 2" using t by (intro div_le_mono2) auto
    also have "\<dots> \<le> 4294967295 div 2" by (rule div_le_mono) simp
    finally show ?thesis by (auto intro: le_less_trans [of _ 2147483648])
  qed
  then have "unat (ceil_div_u32 n t) = unat n div unat t + (if unat n mod unat t \<noteq> 0 then 1 else 0)"
    unfolding ceil_div_u32_def
    by (cases "unat n mod unat t = 0")
      (simp_all add: unat_div_distrib u32_add_exact unat_eq_0 flip: unat_mod_distrib)
  then show ?thesis using c [OF t, of "unat n"] by simp
qed

lemma count_factors_u32:
  assumes "0 \<notin> set fs"
  shows "foldl count_factor (Some (n :: u32)) fs =
    (if unat n * prod_list (map unat fs) < 4294967296 then Some (n * prod_list fs) else None)"
  using assms
proof (induction fs arbitrary: n)
  case (Cons f fs)
  have f: "0 < unat f" and nz: "0 \<notin> set fs" using Cons.prems by (auto simp: unat_gt_0)
  have none: "foldl count_factor None fs = (None :: u32 option)"
    by (induction fs) (simp_all add: count_factor_def)
  have pp: "0 < prod_list (map unat fs)"
    using nz by (induction fs) (simp_all add: unat_gt_0)
  have dec: "unat n \<le> 4294967295 div unat f \<longleftrightarrow> unat n * unat f \<le> 4294967295"
    by (rule less_eq_div_iff_mult_less_eq [OF f])
  show ?case
  proof (cases "unat n * unat f \<le> 4294967295")
    case True
    then have "unat (n * f) = unat n * unat f" by (simp add: u32_mult_exact)
    moreover have "count_factor (Some n) f = Some (n * f)"
      using True dec by (simp add: count_factor_def word_less_nat_alt unat_div_distrib not_less)
    ultimately show ?thesis using Cons.IH [OF nz, of "n * f"] by (simp add: mult.assoc)
  next
    case False
    then have "count_factor (Some n) f = None"
      using dec by (simp add: count_factor_def word_less_nat_alt unat_div_distrib)
    moreover have "\<not> unat n * (unat f * prod_list (map unat fs)) < 4294967296"
    proof -
      have "unat n * unat f * 1 \<le> unat n * unat f * prod_list (map unat fs)"
        by (rule mult_le_mono2) (use pp in linarith)
      then have "\<not> unat n * unat f * prod_list (map unat fs) < 4294967296" using False by linarith
      then show ?thesis by (simp only: mult.assoc not_False_eq_True)
    qed
    ultimately show ?thesis using none by simp
  qed
qed simp

lemma prod3_nat: "prod_list (map unat [a, b, c]) = unat a * (unat b * unat c)" for a b c :: u32
  by simp

lemma compute_tiling_exact:
  assumes "tl_tile_dims t = (t0, t1, t2)" "tl_total_dims t = (n0, n1, n2)"
  defines "g0 \<equiv> ceil_div_u32 n0 (tile_axis t0)" and "g1 \<equiv> ceil_div_u32 n1 (tile_axis t1)"
    and "g2 \<equiv> ceil_div_u32 n2 (tile_axis t2)"
  shows "tl_tiles_per_dim (tu_agen_compute_tiling t) = (g0, g1, g2)"
    "unat (tl_num_tiles (tu_agen_compute_tiling t)) =
       (let n = unat g0 * (unat g1 * unat g2) in if n < 4294967296 then n else 0)"
    "tl_tile_dims (tu_agen_compute_tiling t) = (tile_axis t0, tile_axis t1, tile_axis t2)"
proof -
  define grid where "grid = t\<lparr>tl_tile_dims := (tile_axis t0, tile_axis t1, tile_axis t2),
      tl_tiles_per_dim := (g0, g1, g2), tl_num_tiles := 0\<rparr>"
  have eq: "tu_agen_compute_tiling t = (if g0 = 0 \<or> g1 = 0 \<or> g2 = 0 then grid
      else case foldl count_factor (Some 1) [g0, g1, g2] of None \<Rightarrow> grid
           | Some n \<Rightarrow> grid\<lparr>tl_num_tiles := n\<rparr>)"
    by (simp add: tu_agen_compute_tiling_def assms(1,2) Let_def grid_def g0_def g1_def g2_def
        split: option.split)
  show "tl_tiles_per_dim (tu_agen_compute_tiling t) = (g0, g1, g2)"
    "tl_tile_dims (tu_agen_compute_tiling t) = (tile_axis t0, tile_axis t1, tile_axis t2)"
    unfolding eq by (simp_all add: grid_def split: option.split)
  show "unat (tl_num_tiles (tu_agen_compute_tiling t)) =
       (let n = unat g0 * (unat g1 * unat g2) in if n < 4294967296 then n else 0)"
  proof (cases "g0 = 0 \<or> g1 = 0 \<or> g2 = 0")
    case True
    then show ?thesis unfolding eq by (auto simp: grid_def)
  next
    case False
    then have "0 \<notin> set [g0, g1, g2]" by auto
    note c = count_factors_u32 [OF this, of 1, unfolded prod3_nat]
    have "unat (g0 * (g1 * g2)) = unat g0 * (unat g1 * unat g2)"
      if "unat g0 * (unat g1 * unat g2) < 4294967296"
      using u32_mult3_exact [of g0 g1 g2] that False by (simp add: mult.assoc unat_gt_0)
    then show ?thesis
      unfolding eq if_not_P [OF False] c by (simp add: grid_def Let_def mult.assoc)
  qed
qed

section \<open>Properties\<close>

text \<open>
  C31. Tiled iteration visits every element exactly once. When a three-dimensional tiled view of
  \<open>d * r * c\<close> elements initializes, \<open>tu_agen_generate_all\<close> with a large enough buffer returns
  exactly the addresses \<open>base + i * size\<close> of the dense array, each once (clipped tail tiles
  included), whatever the tile shape; the whole array ends at or before \<open>UINT32_MAX\<close>.
\<close>

theorem tiled_3d_visits_all:
  assumes "tu_agen_iterator_init (Tiled_3D (Some (d, r, c, td, tr, tc, sz))) base = (0, it)"
    and "it_total_elements it \<le> b"
  defines "n \<equiv> unat d * (unat r * unat c)"
  shows "mset (map unat (snd (tu_agen_generate_all it b)))
       = mset (map (\<lambda>i. unat base + i * unat (size_or_4 sz)) [0..<n])
    \<and> (n = 0 \<or> unat base + n * unat (size_or_4 sz) \<le> 4294967295)"
proof -
  note t = tiled_3d_entries [OF assms(1), folded n_def]
  obtain p where p: "bij_betw p {..<n} {..<n}"
    and e: "\<And>i. i < n \<Longrightarrow> unat (agen_entry it i) = unat base + p i * unat (size_or_4 sz)
      \<and> unat base + p i * unat (size_or_4 sz) + unat (size_or_4 sz) \<le> 4294967295"
    using t(1) by blast
  have "min (unat (it_total_elements it)) (unat b) = n"
    using assms(2) t(4) by (simp add: word_le_nat_alt min_absorb1)
  then have "map unat (snd (tu_agen_generate_all it b)) = map (unat \<circ> agen_entry it) [0..<n]"
    by (simp add: generate_all_entries)
  also have "\<dots> = map (\<lambda>i. unat base + i * unat (size_or_4 sz)) (map p [0..<n])"
    using e by simp
  also have "mset \<dots> = image_mset (\<lambda>i. unat base + i * unat (size_or_4 sz)) (mset (map p [0..<n]))"
    by (simp add: multiset.map_comp)
  also have "mset (map p [0..<n]) = mset [0..<n]"
  proof -
    have "distinct (map p [0..<n])" using p by (simp add: distinct_map bij_betw_def lessThan_atLeast0)
    moreover have "set (map p [0..<n]) = set [0..<n]"
      using p by (simp add: bij_betw_def lessThan_atLeast0)
    ultimately show ?thesis by (metis distinct_upt set_eq_iff_mset_eq_distinct)
  qed
  finally have "mset (map unat (snd (tu_agen_generate_all it b)))
       = mset (map (\<lambda>i. unat base + i * unat (size_or_4 sz)) [0..<n])" by simp
  moreover have "unat base + n * unat (size_or_4 sz) \<le> 4294967295" if "n \<noteq> 0"
  proof -
    have "n - 1 \<in> p ` {..<n}" using p that by (auto simp: bij_betw_def)
    then obtain i where "i < n" "p i = n - 1" by auto
    then show ?thesis using e [of i] that by (cases n) simp_all
  qed
  ultimately show ?thesis by blast
qed

theorem tiled_3d_visits_all_witness:
  "\<exists>it. tu_agen_iterator_init (Tiled_3D (Some (2, 3, 5, 2, 2, 2, 1))) 7 = (0, it)
    \<and> mset (map unat (snd (tu_agen_generate_all it 30))) = mset (map (\<lambda>i. 7 + i * 1) [0..<30])"
proof -
  obtain it where it: "tu_agen_iterator_init (Tiled_3D (Some (2, 3, 5, 2, 2, 2, 1))) 7 = (0, it)"
    by (simp add: Let_def tiled_geometry_valid_def size_or_4_def)
  have "it_total_elements it = 30" using it by (auto simp: Let_def tiled_geometry_valid_def size_or_4_def)
  then show ?thesis using tiled_3d_visits_all [OF it, of 30] it by (simp add: size_or_4_def)
qed

lemma row_major_encode:
  fixes k d r c :: nat
  assumes "k < d * (r * c)"
  obtains z y x where "z < d" "y < r" "x < c" "k = (z * r + y) * c + x"
proof -
  have "0 < c" "0 < r" using assms by (auto intro: gr0I)
  moreover have "k div c div r < d"
    using assms by (simp add: less_mult_imp_div_less div_mult2_eq [symmetric] mult.commute)
  moreover have "k = (k div c div r * r + k div c mod r) * c + k mod c" by simp
  ultimately show ?thesis using that [of "k div c div r" "k div c mod r" "k mod c"] by simp
qed

text \<open>
  C33. A three-dimensional strided view is the nested loop. When it initializes, entry
  \<open>(z * r + y) * c + x\<close> of the stream, for each depth \<open>z\<close>, row \<open>y\<close> and column \<open>x\<close>, is
  \<open>base + (z * depth_stride + y * row_stride + x) * size\<close> in unbounded arithmetic: no product or
  sum wraps, and the element ends at or before \<open>UINT32_MAX\<close>.
\<close>

theorem strided_3d_is_nested_loop:
  assumes "tu_agen_iterator_init (Strided_3D (Some (d, r, c, ds, rs, sz))) base = (0, it)"
    and "z < unat d" "y < unat r" "x < unat c"
  shows "unat (agen_entry it ((z * unat r + y) * unat c + x))
       = unat base + (z * unat ds + y * unat rs + x) * unat (size_or_4 sz)
    \<and> unat base + (z * unat ds + y * unat rs + x) * unat (size_or_4 sz) + unat (size_or_4 sz)
       \<le> 4294967295"
  using strided_3d_entry [OF assms] by blast

theorem strided_3d_is_nested_loop_witness:
  "\<exists>it. tu_agen_iterator_init (Strided_3D (Some (2, 3, 4, 100, 10, 2))) 8 = (0, it)
    \<and> unat (agen_entry it ((1 * 3 + 2) * 4 + 3)) = 8 + (1 * 100 + 2 * 10 + 3) * 2"
proof -
  obtain it where it: "tu_agen_iterator_init (Strided_3D (Some (2, 3, 4, 100, 10, 2))) 8 = (0, it)"
    by (simp add: Let_def affine_geometry_valid_iff size_or_4_def)
  then show ?thesis using strided_3d_is_nested_loop [OF it, of 1 2 3] by (simp add: size_or_4_def)
qed

text \<open>Every view but im2col, entry by entry.\<close>

lemma affine_total:
  assumes "affine_geometry_valid base d r c ds rs sz" "0 < unat c"
  shows "unat (d * r * c) = unat d * (unat r * unat c)"
proof (cases "unat d * (unat r * unat c) = 0")
  case True
  then show ?thesis by (auto simp: unat_eq_0)
next
  case False
  then have "unat d * (unat r * unat c) \<le> 4294967295"
    using assms(1) by (auto simp: affine_geometry_valid_iff)
  then show ?thesis using u32_mult3_exact [of d r c] assms(2) by (simp add: mult.assoc)
qed

lemma strided_2d_below:
  assumes init: "tu_agen_iterator_init (Strided_2D config) base = (0, it)"
    and k: "k < unat (it_total_elements it)"
  shows "unat (agen_entry it k) + unat (it_elem_size it) \<le> 4294967295"
proof -
  obtain cfg where v: "config = Some cfg"
    using init by (cases config) (auto simp: Let_def)
  have valid: "affine_geometry_valid base 1 (c2_rows cfg) (c2_cols cfg) 0 (c2_row_stride cfg) 4"
    and tot: "it_total_elements it = 1 * c2_rows cfg * c2_cols cfg"
    and sz: "it_elem_size it = (if c2_rows cfg > 0 \<and> c2_cols cfg > 0 then 4 else 0)"
    using init by (auto simp: v Let_def split: if_splits)
  have c: "0 < unat (c2_cols cfg)" using k by (auto simp: tot unat_gt_0)
  have "k < 1 * (unat (c2_rows cfg) * unat (c2_cols cfg))"
    using k affine_total [OF valid c] by (simp add: tot)
  then obtain z y x where "z < 1" "y < unat (c2_rows cfg)" "x < unat (c2_cols cfg)"
      "k = (z * unat (c2_rows cfg) + y) * unat (c2_cols cfg) + x" by (rule row_major_encode)
  then show ?thesis using strided_2d_entry [OF init [unfolded v], of y x] by (auto simp: sz)
qed

lemma strided_3d_below:
  assumes init: "tu_agen_iterator_init (Strided_3D config) base = (0, it)"
    and k: "k < unat (it_total_elements it)"
  shows "unat (agen_entry it k) + unat (it_elem_size it) \<le> 4294967295"
proof -
  obtain d r c ds rs sz where v: "config = Some (d, r, c, ds, rs, sz)"
    using init by (cases config) (auto simp: Let_def)
  have valid: "affine_geometry_valid base d r c ds rs (size_or_4 sz)"
    and tot: "it_total_elements it = d * r * c" and sz: "it_elem_size it = size_or_4 sz"
    using init by (auto simp: v Let_def split: if_splits)
  have c: "0 < unat c" using k by (auto simp: tot unat_gt_0)
  have "k < unat d * (unat r * unat c)" using k affine_total [OF valid c] by (simp add: tot)
  then obtain z y x where "z < unat d" "y < unat r" "x < unat c" "k = (z * unat r + y) * unat c + x"
    by (rule row_major_encode)
  then show ?thesis using strided_3d_entry [OF init [unfolded v], of z y x] by (simp add: sz)
qed

lemma tiled_2d_below:
  assumes init: "tu_agen_iterator_init (Tiled_2D config) base = (0, it)"
    and k: "k < unat (it_total_elements it)"
  shows "unat (agen_entry it k) + unat (it_elem_size it) \<le> 4294967295"
proof -
  obtain cfg where v: "config = Some cfg" using init by (cases config) (auto simp: Let_def)
  have valid: "tiled_geometry_valid base 1 (t2_total_rows cfg) (t2_total_cols cfg) 4"
    and tot: "it_total_elements it = t2_total_rows cfg * t2_total_cols cfg" and sz: "it_elem_size it = 4"
    using init by (auto simp: v Let_def split: if_splits)
  have "k < unat (t2_total_rows cfg) * unat (t2_total_cols cfg)"
    using k unat_mult_le [of "t2_total_rows cfg" "t2_total_cols cfg"] by (simp add: tot)
  then show ?thesis using tiled_2d_entries [OF init [unfolded v]] by (auto simp: sz)
qed

lemma transposed_below:
  assumes init: "tu_agen_iterator_init (Transposed config) base = (0, it)"
    and k: "k < unat (it_total_elements it)"
  shows "unat (agen_entry it k) + unat (it_elem_size it) \<le> 4294967295"
proof -
  obtain rows cols sz where v: "config = Some (rows, cols, sz)"
    using init by (cases config) (auto simp: Let_def)
  have tot: "it_total_elements it = rows * cols" and sz: "it_elem_size it = size_or_4 sz"
    using init by (auto simp: v Let_def split: if_splits)
  have "k < 1 * (unat cols * unat rows)"
    using k unat_mult_le [of rows cols] by (simp add: tot mult.commute)
  then obtain z x y where "z < 1" "x < unat cols" "y < unat rows" "k = (z * unat cols + x) * unat rows + y"
    by (rule row_major_encode)
  then show ?thesis using transposed_entry [OF init [unfolded v], of y x] by (simp add: sz)
qed

text \<open>
  No view but im2col ever hands out an address whose element reaches \<open>UINT32_MAX\<close>, the
  value that stands for exhaustion. For each of the seven other modes, once initialization
  returns 0, every entry below the total leaves room for a complete element.
\<close>

theorem views_stay_below_sentinel:
  assumes init: "tu_agen_iterator_init v base = (0, it)" and im: "\<forall>cfg. v \<noteq> Im2col cfg"
    and k: "k < unat (it_total_elements it)"
  shows "unat (agen_entry it k) + unat (it_elem_size it) \<le> 4294967295"
proof (cases v)
  case (Linear config)
  then obtain n sz where v: "v = Linear (Some (n, sz))"
    using init k by (cases config) (auto simp: Let_def fresh_iterator_def split: if_splits)
  have "it_elem_size it = sz" "it_total_elements it = n"
    using init by (auto simp: v Let_def split: if_splits)
  then show ?thesis using linear_entry [OF init [unfolded v]] k by simp
next
  case (Strided_2D config)
  show ?thesis by (rule strided_2d_below [OF init [unfolded Strided_2D] k])
next
  case (Strided_3D config)
  show ?thesis by (rule strided_3d_below [OF init [unfolded Strided_3D] k])
next
  case (Tiled_2D config)
  show ?thesis by (rule tiled_2d_below [OF init [unfolded Tiled_2D] k])
next
  case (Tiled_3D config)
  then obtain d r c td tr tc sz where v: "v = Tiled_3D (Some (d, r, c, td, tr, tc, sz))"
    using init by (cases config) (auto simp: Let_def)
  note t = tiled_3d_entries [OF init [unfolded v]]
  have "k < unat d * (unat r * unat c)" using k t(4) by simp
  then show ?thesis using t(1,3) by auto
next
  case (Block_Interleaved config)
  then obtain n banks width sz where v: "v = Block_Interleaved (Some (n, banks, width, sz))"
    using init by (cases config) (auto simp: Let_def)
  have "it_elem_size it = size_or_4 sz" "it_total_elements it = n"
    using init by (auto simp: v Let_def split: if_splits)
  then show ?thesis using block_interleaved_entry [OF init [unfolded v]] k by simp
next
  case (Transposed config)
  show ?thesis by (rule transposed_below [OF init [unfolded Transposed] k])
next
  case Other_Mode
  then show ?thesis using init by simp
qed (use im in blast)

theorem views_stay_below_sentinel_witness:
  "\<exists>it. tu_agen_iterator_init (Transposed (Some (3, 5, 4))) 16 = (0, it)
    \<and> unat (agen_entry it 14) + 4 \<le> 4294967295"
proof -
  obtain it where it: "tu_agen_iterator_init (Transposed (Some (3, 5, 4))) 16 = (0, it)"
    by (simp add: Let_def affine_geometry_valid_iff size_or_4_def)
  have "it_total_elements it = 15" "it_elem_size it = 4"
    using it by (auto simp: Let_def affine_geometry_valid_iff size_or_4_def)
  then show ?thesis using views_stay_below_sentinel [OF it, of 14] it by simp
qed

lemma word_unat_eqI: "unat x = unat y \<Longrightarrow> x = y" for x y :: "'a::len word"
  by (rule unsigned_word_eqI)

text \<open>
  The streaming im2col traversal and the point query agree. When an im2col view with a
  positive element size initializes, the entry at output position \<open>(oh, ow)\<close>, kernel element
  \<open>(kh, kw)\<close> and channel \<open>ic\<close> (in the order oh, ow, kh, kw, ic) is the NCHW source address, and
  so is the answer of \<open>tu_agen_addr_im2col\<close>; where the coordinate falls into the padding the
  stream has \<open>0xFFFFFF00\<close> and the query \<open>UINT32_MAX\<close>.
\<close>

theorem im2col_stream_matches_query:
  assumes "tu_agen_iterator_init (Im2col (Some cfg)) base = (0, it)" "im_elem_size cfg \<noteq> 0"
    and "im2col_output_dims cfg = (True, out_h, out_w)"
    and "oh < out_h" "ow < out_w" "kh < im_kernel_h cfg" "kw < im_kernel_w cfg" "ic < im_input_c cfg"
  defines "entry \<equiv> agen_entry it (im2col_index (unat out_w) (unat (im_kernel_h cfg))
      (unat (im_kernel_w cfg)) (unat (im_input_c cfg)) (unat oh) (unat ow) (unat kh) (unat kw) (unat ic))"
    and "query \<equiv> tu_agen_addr_im2col cfg base oh ow kh kw ic"
  shows "case im2col_source cfg (unat base) (unat (im_elem_size cfg)) (unat oh) (unat ow)
      (unat kh) (unat kw) (unat ic) of
      Some a \<Rightarrow> unat entry = a \<and> unat query = a
    | None \<Rightarrow> entry = 0xFFFFFF00 \<and> query = UINT32_MAX"
proof -
  have sz: "size_or_4 (im_elem_size cfg) = im_elem_size cfg" using assms(2) by (simp add: size_or_4_def)
  have b: "unat oh < unat out_h" "unat ow < unat out_w" "unat kh < unat (im_kernel_h cfg)"
      "unat kw < unat (im_kernel_w cfg)" "unat ic < unat (im_input_c cfg)"
    using assms(4-8) by (simp_all add: word_less_nat_alt)
  note e = im2col_entry_exact(1) [OF assms(1,3) b, folded entry_def, unfolded sz]
  obtain oh' ow' n where init: "im2col_output_dims cfg = (True, oh', ow')"
      "im2col_count base cfg oh' ow' (size_or_4 (im_elem_size cfg)) = Some n"
    using im2col_init_cases [OF assms(1)] by metis
  have "oh' = out_h" "ow' = out_w" using init(1) assms(3) by simp_all
  then have n: "im2col_count base cfg out_h out_w (im_elem_size cfg) = Some n" using init(2) by (simp add: sz)
  have nz: "out_h \<noteq> 0" "out_w \<noteq> 0" "im_kernel_h cfg \<noteq> 0" "im_kernel_w cfg \<noteq> 0" "im_input_c cfg \<noteq> 0"
    using b by (auto simp: unat_gt_0)
  note q = addr_im2col_exact [OF assms(3,2,4-8) im2col_count_exact(3) [OF n nz(1,2,5,3,4)],
      folded query_def]
  have w: "x = 0xFFFFFF00" if "unat x = 4294967040" for x :: u32
    using that by (intro word_unat_eqI) simp
  have w': "x = 0xFFFFFFFF" if "unat x = 4294967295" for x :: u32
    using that by (intro word_unat_eqI) simp
  show ?thesis using e q w w' by (cases "im2col_source cfg (unat base) (unat (im_elem_size cfg))
      (unat oh) (unat ow) (unat kh) (unat kw) (unat ic)") simp_all
qed

definition conv_3x3 :: tu_agen_im2col where
  "conv_3x3 = \<lparr>im_input_h = 4, im_input_w = 4, im_input_c = 2, im_kernel_h = 3, im_kernel_w = 3,
     im_pad_h = 1, im_pad_w = 1, im_stride_h = 1, im_stride_w = 1, im_dilation_h = 1,
     im_dilation_w = 1, im_output_h = 0, im_output_w = 0, im_elem_size = 4\<rparr>"

theorem im2col_stream_matches_query_witness:
  "\<exists>it. tu_agen_iterator_init (Im2col (Some conv_3x3)) 64 = (0, it)
    \<and> unat (agen_entry it (im2col_index 4 3 3 2 1 1 1 1 1)) = 64 + ((1 * 4 + 1) * 4 + 1) * 4
    \<and> agen_entry it (im2col_index 4 3 3 2 0 0 0 0 0) = 0xFFFFFF00"
proof -
  have dims: "im2col_output_dims conv_3x3 = (True, 4, 4)" by code_simp
  have "fst (tu_agen_iterator_init (Im2col (Some conv_3x3)) 64) = 0" by code_simp
  then obtain it where it: "tu_agen_iterator_init (Im2col (Some conv_3x3)) 64 = (0, it)"
    by (metis prod.collapse)
  have "im2col_source conv_3x3 64 4 1 1 1 1 1 = Some (64 + ((1 * 4 + 1) * 4 + 1) * 4)"
    "im2col_source conv_3x3 64 4 0 0 0 0 0 = None"
    by (simp_all add: im2col_source_def conv_3x3_def)
  then show ?thesis
    using im2col_stream_matches_query [OF it _ dims, of 1 1 1 1 1]
      im2col_stream_matches_query [OF it _ dims, of 0 0 0 0 0] it
    by (simp add: conv_3x3_def)
qed

text \<open>
  Ranges lose nothing. For any iterator with a positive element size whose entries fit 32
  bits when laid end to end, if the buffer is as large as the range count that
  \<open>tu_agen_generate_ranges\<close> returns, expanding the stored ranges gives back the complete address
  sequence in order, and there are no more ranges than entries.
\<close>

theorem generate_ranges_roundtrip:
  assumes "tu_agen_generate_ranges it max_ranges = (it', rgs, n)" "n \<le> unat max_ranges" "max_ranges \<noteq> 0"
    and "it_elem_size it \<noteq> 0"
    and "unat (it_total_elements it) * unat (it_elem_size it) \<le> 4294967295"
  shows "concat (map expand_range rgs) = map (agen_entry it) [0..<unat (it_total_elements it)]
    \<and> length rgs = n \<and> n \<le> unat (it_total_elements it)"
  using generate_ranges_expand [OF assms(1,3)] assms(2,4,5) by (simp add: unat_gt_0)

definition strided_example :: tu_agen_iterator where
  "strided_example = snd (tu_agen_iterator_init (Strided_2D (Some
     \<lparr>c2_rows = 2, c2_cols = 3, c2_row_stride = 8\<rparr>)) 16)"

theorem generate_ranges_roundtrip_witness:
  "concat (map expand_range (fst (snd (tu_agen_generate_ranges strided_example 6))))
     = map (agen_entry strided_example) [0..<6]"
proof -
  have e: "it_elem_size strided_example = 4" "it_total_elements strided_example = 6" by code_simp+
  obtain it' rgs n where g: "tu_agen_generate_ranges strided_example 6 = (it', rgs, n)"
    by (rule prod_cases3)
  have "n \<le> 6" using generate_ranges_expand [OF g] by (simp add: e)
  then show ?thesis using generate_ranges_roundtrip [OF g] by (simp add: e g)
qed

text \<open>
  The tile grid is exact. Each axis of the grid is the ceiling of the tensor extent over the
  tile extent (a zero tile counts as 1), and the tile count is the product of the three axes,
  or 0 when the product does not fit 32 bits.
\<close>

theorem compute_tiling_is_exact:
  assumes "tl_tile_dims t = (t0, t1, t2)" "tl_total_dims t = (n0, n1, n2)"
    and "tl_tiles_per_dim (tu_agen_compute_tiling t) = (g0, g1, g2)"
  defines "ceiling n s \<equiv> (unat n + unat (tile_axis s) - 1) div unat (tile_axis s)"
  shows "unat g0 = ceiling n0 t0 \<and> unat g1 = ceiling n1 t1 \<and> unat g2 = ceiling n2 t2
    \<and> unat (tl_num_tiles (tu_agen_compute_tiling t)) =
        (if ceiling n0 t0 * (ceiling n1 t1 * ceiling n2 t2) < 2 ^ 32
         then ceiling n0 t0 * (ceiling n1 t1 * ceiling n2 t2) else 0)"
proof -
  have nz: "tile_axis s \<noteq> 0" for s by (simp add: tile_axis_def)
  have g: "unat g0 = ceiling n0 t0" "unat g1 = ceiling n1 t1" "unat g2 = ceiling n2 t2"
    using compute_tiling_exact(1) [OF assms(1,2)] assms(3) by (auto simp: ceil_div_exact [OF nz] ceiling_def)
  then show ?thesis
    using compute_tiling_exact(1,2) [OF assms(1,2)] assms(3) by (auto simp: Let_def)
qed

theorem compute_tiling_is_exact_witness:
  "unat (tl_num_tiles (tu_agen_compute_tiling \<lparr>tl_num_tiles = 9, tl_tiles_per_dim = (0, 0, 0),
     tl_tile_dims = (0, 4, 4), tl_total_dims = (3, 10, 8), tl_elem_size = 2\<rparr>)) = 3 * (3 * 2)"
  using compute_tiling_is_exact [of "\<lparr>tl_num_tiles = 9, tl_tiles_per_dim = (0, 0, 0),
     tl_tile_dims = (0, 4, 4), tl_total_dims = (3, 10, 8), tl_elem_size = 2\<rparr>" 0 4 4 3 10 8]
  by (cases "tl_tiles_per_dim (tu_agen_compute_tiling \<lparr>tl_num_tiles = 9, tl_tiles_per_dim = (0, 0, 0),
     tl_tile_dims = (0, 4, 4), tl_total_dims = (3, 10, 8), tl_elem_size = 2\<rparr>)")
    (simp add: tile_axis_def)

text \<open>
  The im2col output shape counts kernel placements. When \<open>tu_agen_im2col_dims\<close> is given
  positive kernel, stride and dilation fields and the shape is representable, \<open>n\<close> is below the
  output height exactly when the input is not empty and the dilated kernel placed at vertical
  offset \<open>n * stride_h\<close> stays inside the padded input; likewise for the width.
\<close>

theorem im2col_dims_count_placements:
  assumes "im2col_output_dims cfg = (True, oh, ow)"
  shows "im_output_h (tu_agen_im2col_dims cfg) = oh \<and> im_output_w (tu_agen_im2col_dims cfg) = ow
    \<and> (n < unat oh \<longleftrightarrow> 0 < unat (im_input_h cfg)
      \<and> n * unat (im_stride_h cfg) + (unat (im_kernel_h cfg) - 1) * unat (im_dilation_h cfg)
          < unat (im_input_h cfg) + 2 * unat (im_pad_h cfg))
    \<and> (n < unat ow \<longleftrightarrow> 0 < unat (im_input_w cfg)
      \<and> n * unat (im_stride_w cfg) + (unat (im_kernel_w cfg) - 1) * unat (im_dilation_w cfg)
          < unat (im_input_w cfg) + 2 * unat (im_pad_w cfg))"
  using im2col_output_dims_positions [OF assms, of n]
  by (simp add: tu_agen_im2col_dims_def assms)

theorem im2col_dims_count_placements_witness:
  "im_output_h (tu_agen_im2col_dims conv_3x3) = 4 \<and> (3 :: nat) < unat (4 :: u32)
   \<and> 3 * unat (im_stride_h conv_3x3) + (unat (im_kernel_h conv_3x3) - 1) * unat (im_dilation_h conv_3x3)
       < unat (im_input_h conv_3x3) + 2 * unat (im_pad_h conv_3x3)"
proof -
  have "im2col_output_dims conv_3x3 = (True, 4, 4)" by code_simp
  from im2col_dims_count_placements [OF this, of 3] show ?thesis by simp
qed

end
