(* ===== verification/Sram.thy ===== *)
theory Sram
  imports Prelude
begin

text \<open>
  The banked, bandwidth-metered SRAM of \<open>tu_cmodel/tu_sram.[ch]\<close> with the ping-pong buffering of
  \<open>tu_cmodel/memory/double_buffer.[ch]\<close>. A region's memory is a list of bytes, an access takes
  the region and returns it updated, and an error is the value of \<open>sram_status\<close> that the call
  reports. The allocations of the initialisers succeed; those of double buffering are inputs. The floating-point utilization figures and the
  printing functions are left out.
\<close>

section \<open>Data\<close>

definition TU_SRAM_BANKS :: u32 where "TU_SRAM_BANKS = 32"
definition TU_SRAM_BANK_WIDTH :: u32 where "TU_SRAM_BANK_WIDTH = 4"
definition TU_SRAM_WORDS_PER_CYCLE :: u8 where "TU_SRAM_WORDS_PER_CYCLE = 1"
definition TU_SRAM_ARB_MODE :: u8 where "TU_SRAM_ARB_MODE = 1"
definition TU_SRAM_BW_STALL_PENALTY :: u8 where "TU_SRAM_BW_STALL_PENALTY = 2"
definition TU_SRAM_BW_WINDOW_CYCLES :: u64 where "TU_SRAM_BW_WINDOW_CYCLES = 4"

record tu_sram_bw_bank =
  bw_words_available :: int
  bw_last_refill_cycle :: u64
  bw_reads_served :: u64
  bw_writes_served :: u64
  bw_read_stalls :: u64
  bw_write_stalls :: u64
  bw_total_cycles_used :: u64

datatype meter_mode = TU_SRAM_METER_SIZE_ONLY | TU_SRAM_METER_ADDRESS_SPAN

record tu_sram_bank =
  sb_data :: "u8 list"
  sb_size :: u32
  sb_bank_count :: u32
  sb_bank_width :: u32
  sb_reads :: u64
  sb_writes :: u64
  sb_conflicts :: u64
  sb_stall_cycles :: u64
  sb_bw_banks :: "tu_sram_bw_bank list option"
  sb_bw_refill_window :: u64
  sb_current_cycle :: u64
  sb_words_per_cycle :: u8
  sb_arb_mode :: u8
  sb_stall_penalty :: u8
  sb_bw_modeling :: bool
  sb_word_metering :: meter_mode

record tu_double_buffer =
  db_enabled :: bool
  db_shadow_data :: "u8 list"
  db_buffer_size :: u32
  db_active_idx :: nat
  db_swap_count :: u64
  db_dma_to_shadow_bytes :: u64
  db_dma_to_shadow_cycles :: u64
  db_shadow_dirty :: bool
  db_overlapped_cycles :: u64

record tu_sram_region =
  sr_banks :: tu_sram_bank
  sr_total_size :: u32
  sr_name :: string
  sr_db :: "tu_double_buffer option"

text \<open>What a call reports to the status module.\<close>

datatype sram_status = SRAM_OK | TU_ERR_SRAM_OVERFLOW

section \<open>Lifecycle\<close>

definition zero_bw_bank :: tu_sram_bw_bank where
  "zero_bw_bank = \<lparr>bw_words_available = 0, bw_last_refill_cycle = 0, bw_reads_served = 0,
     bw_writes_served = 0, bw_read_stalls = 0, bw_write_stalls = 0, bw_total_cycles_used = 0\<rparr>"

definition tu_sram_init_runtime ::
  "u32 \<Rightarrow> string \<Rightarrow> u32 \<Rightarrow> u32 \<Rightarrow> u8 \<Rightarrow> u8 \<Rightarrow> u64 \<Rightarrow> tu_sram_region" where
  "tu_sram_init_runtime size_bytes name bank_count bank_width words_per_cycle stall_penalty
      refill_window =
     (let cnt = (if bank_count \<noteq> 0 then bank_count else TU_SRAM_BANKS);
          wpc = (if words_per_cycle \<noteq> 0 then words_per_cycle else TU_SRAM_WORDS_PER_CYCLE)
      in \<lparr>sr_banks =
            \<lparr>sb_data = replicate (unat size_bytes) 0, sb_size = size_bytes, sb_bank_count = cnt,
             sb_bank_width = (if bank_width \<noteq> 0 then bank_width else TU_SRAM_BANK_WIDTH),
             sb_reads = 0, sb_writes = 0, sb_conflicts = 0, sb_stall_cycles = 0,
             sb_bw_banks = Some (replicate (unat cnt)
               (zero_bw_bank\<lparr>bw_words_available := int (unat wpc)\<rparr>)),
             sb_bw_refill_window =
               (if refill_window \<noteq> 0 then refill_window else TU_SRAM_BW_WINDOW_CYCLES),
             sb_current_cycle = 0, sb_words_per_cycle = wpc, sb_arb_mode = TU_SRAM_ARB_MODE,
             sb_stall_penalty =
               (if stall_penalty \<noteq> 0 then stall_penalty else TU_SRAM_BW_STALL_PENALTY),
             sb_bw_modeling = True, sb_word_metering = TU_SRAM_METER_SIZE_ONLY\<rparr>,
          sr_total_size = size_bytes, sr_name = name, sr_db = None\<rparr>)"

definition tu_sram_init_bw ::
  "u32 \<Rightarrow> string \<Rightarrow> u8 \<Rightarrow> u8 \<Rightarrow> u8 \<Rightarrow> u64 \<Rightarrow> tu_sram_region" where
  "tu_sram_init_bw size_bytes name words_per_cycle arb_mode stall_penalty refill_window =
     (let r = tu_sram_init_runtime size_bytes name TU_SRAM_BANKS TU_SRAM_BANK_WIDTH
                words_per_cycle stall_penalty refill_window
      in r\<lparr>sr_banks := (sr_banks r)\<lparr>sb_arb_mode := arb_mode\<rparr>\<rparr>)"

definition tu_sram_init :: "u32 \<Rightarrow> string \<Rightarrow> tu_sram_region" where
  "tu_sram_init size_bytes name =
     tu_sram_init_bw size_bytes name TU_SRAM_WORDS_PER_CYCLE TU_SRAM_ARB_MODE
       TU_SRAM_BW_STALL_PENALTY TU_SRAM_BW_WINDOW_CYCLES"

section \<open>Bandwidth metering\<close>

text \<open>Consume one word of a bank's budget: the stall and the bank array after it.\<close>

definition sram_bw_consume :: "tu_sram_bank \<Rightarrow> nat \<Rightarrow> bool \<Rightarrow> u64 \<times> tu_sram_bank" where
  "sram_bw_consume b bank_idx is_write =
     (case sb_bw_banks b of
        None \<Rightarrow> (0, b)
      | Some banks \<Rightarrow>
          if \<not> sb_bw_modeling b then (0, b)
          else let bw = banks ! bank_idx;
                   bw = bw\<lparr>bw_total_cycles_used := bw_total_cycles_used bw + 1\<rparr>
               in if bw_words_available bw > 0 then
                    (let bw = bw\<lparr>bw_words_available := bw_words_available bw - 1\<rparr>;
                         bw = (if is_write then bw\<lparr>bw_writes_served := bw_writes_served bw + 1\<rparr>
                               else bw\<lparr>bw_reads_served := bw_reads_served bw + 1\<rparr>)
                     in (0, b\<lparr>sb_bw_banks := Some (banks[bank_idx := bw])\<rparr>))
                  else
                    (let bw = (if is_write then bw\<lparr>bw_write_stalls := bw_write_stalls bw + 1\<rparr>
                               else bw\<lparr>bw_read_stalls := bw_read_stalls bw + 1\<rparr>)
                     in (ucast (sb_stall_penalty b),
                         b\<lparr>sb_bw_banks := Some (banks[bank_idx := bw]),
                           sb_stall_cycles := sb_stall_cycles b + ucast (sb_stall_penalty b)\<rparr>)))"

definition refill_bank :: "tu_sram_bank \<Rightarrow> u64 \<Rightarrow> tu_sram_bw_bank \<Rightarrow> tu_sram_bw_bank" where
  "refill_bank b window bw =
     (if sb_current_cycle b - bw_last_refill_cycle bw \<ge> window
      then bw\<lparr>bw_words_available := int (unat (sb_words_per_cycle b)),
             bw_last_refill_cycle := sb_current_cycle b\<rparr>
      else bw)"

definition tu_sram_refill_bw :: "tu_sram_region \<Rightarrow> tu_sram_region" where
  "tu_sram_refill_bw r =
     (let b = sr_banks r
      in case sb_bw_banks b of
           None \<Rightarrow> r
         | Some banks \<Rightarrow>
             if \<not> sb_bw_modeling b then r
             else let window = (if sb_bw_refill_window b > 0 then sb_bw_refill_window b else 1)
                  in r\<lparr>sr_banks := b\<lparr>sb_bw_banks := Some (map (refill_bank b window) banks)\<rparr>\<rparr>)"

definition tu_sram_advance_cycle :: "tu_sram_region \<Rightarrow> u64 \<Rightarrow> tu_sram_region" where
  "tu_sram_advance_cycle r cycles =
     tu_sram_refill_bw (r\<lparr>sr_banks := (sr_banks r)\<lparr>sb_current_cycle :=
       sb_current_cycle (sr_banks r) + cycles\<rparr>\<rparr>)"

definition tu_sram_set_bw_modeling :: "tu_sram_region \<Rightarrow> bool \<Rightarrow> tu_sram_region" where
  "tu_sram_set_bw_modeling r enabled = r\<lparr>sr_banks := (sr_banks r)\<lparr>sb_bw_modeling := enabled\<rparr>\<rparr>"

text \<open>The mode is an \<open>int\<close> in C; any value but 0 and 1 is rejected.\<close>

definition tu_sram_set_word_metering :: "tu_sram_region \<Rightarrow> int \<Rightarrow> int \<times> tu_sram_region" where
  "tu_sram_set_word_metering r mode =
     (if mode = 0 then (0, r\<lparr>sr_banks := (sr_banks r)\<lparr>sb_word_metering := TU_SRAM_METER_SIZE_ONLY\<rparr>\<rparr>)
      else if mode = 1 then
        (0, r\<lparr>sr_banks := (sr_banks r)\<lparr>sb_word_metering := TU_SRAM_METER_ADDRESS_SPAN\<rparr>\<rparr>)
      else (- 1, r))"

text \<open>The number of words of a transfer, and the words it takes from the banks.\<close>

definition meter_words :: "tu_sram_bank \<Rightarrow> u32 \<Rightarrow> u32 \<Rightarrow> u64" where
  "meter_words b addr bytes =
     (let width = ucast (sb_bank_width b) :: u64;
          first = ucast addr div width
      in if bytes \<noteq> 0 \<and> sb_word_metering b = TU_SRAM_METER_ADDRESS_SPAN
         then (ucast addr + ucast bytes - 1) div width - first + 1
         else if bytes \<noteq> 0 then 1 + (ucast bytes - 1) div width else 0)"

definition meter_step :: "u64 \<Rightarrow> bool \<Rightarrow> u64 \<times> tu_sram_bank \<Rightarrow> nat \<Rightarrow> u64 \<times> tu_sram_bank" where
  "meter_step first is_write acc i =
     (let (stall, b) = acc;
          (s, b') = sram_bw_consume b
            (unat ((first + word_of_nat i) mod ucast (sb_bank_count b))) is_write
      in (stall + s, b'))"

text \<open>The stall, the number of words, and the region.\<close>

definition sram_meter :: "tu_sram_region \<Rightarrow> u32 \<Rightarrow> u32 \<Rightarrow> bool \<Rightarrow> u64 \<times> u64 \<times> tu_sram_region" where
  "sram_meter r addr bytes is_write =
     (let words = meter_words (sr_banks r) addr bytes;
          first = ucast addr div ucast (sb_bank_width (sr_banks r));
          (stall, b) = foldl (meter_step first is_write) (0, sr_banks r) [0..<unat words]
      in (stall, words, r\<lparr>sr_banks := b\<rparr>))"

section \<open>Access\<close>

definition sram_bounds_check :: "tu_sram_region \<Rightarrow> u32 \<Rightarrow> u32 \<Rightarrow> bool" where
  "sram_bounds_check r addr len = (\<not> (addr > sr_total_size r \<or> len > sr_total_size r - addr))"

text \<open>The active buffer, read and replaced.\<close>

definition sram_data :: "tu_sram_region \<Rightarrow> u8 list" where
  "sram_data r =
     (case sr_db r of
        Some db \<Rightarrow> (if db_enabled db \<and> db_active_idx db \<noteq> 0 then db_shadow_data db
                    else sb_data (sr_banks r))
      | None \<Rightarrow> sb_data (sr_banks r))"

definition sram_set_data :: "tu_sram_region \<Rightarrow> u8 list \<Rightarrow> tu_sram_region" where
  "sram_set_data r bs =
     (case sr_db r of
        Some db \<Rightarrow> (if db_enabled db \<and> db_active_idx db \<noteq> 0
                    then r\<lparr>sr_db := Some (db\<lparr>db_shadow_data := bs\<rparr>)\<rparr>
                    else r\<lparr>sr_banks := (sr_banks r)\<lparr>sb_data := bs\<rparr>\<rparr>)
      | None \<Rightarrow> r\<lparr>sr_banks := (sr_banks r)\<lparr>sb_data := bs\<rparr>\<rparr>)"

text \<open>\<open>memcpy\<close> out of and into a byte array.\<close>

definition bytes_at :: "u8 list \<Rightarrow> nat \<Rightarrow> nat \<Rightarrow> u8 list" where
  "bytes_at mem a n = take n (drop a mem)"

definition put_bytes :: "u8 list \<Rightarrow> nat \<Rightarrow> u8 list \<Rightarrow> u8 list" where
  "put_bytes mem a bs = take a mem @ bs @ drop (a + length bs) mem"

definition count_reads :: "u64 \<Rightarrow> tu_sram_region \<Rightarrow> tu_sram_region" where
  "count_reads n r = r\<lparr>sr_banks := (sr_banks r)\<lparr>sb_reads := sb_reads (sr_banks r) + n\<rparr>\<rparr>"

definition count_writes :: "u64 \<Rightarrow> tu_sram_region \<Rightarrow> tu_sram_region" where
  "count_writes n r = r\<lparr>sr_banks := (sr_banks r)\<lparr>sb_writes := sb_writes (sr_banks r) + n\<rparr>\<rparr>"

text \<open>
  A read returns the stall, the bytes stored to \<open>out\<close> (\<open>None\<close> when nothing is stored), the reported
  status and the region. The buffer of a write holds as many bytes as the call copies.
\<close>

definition tu_sram_read_bulk ::
  "tu_sram_region \<Rightarrow> u32 \<Rightarrow> u32 \<Rightarrow> u64 \<times> u8 list option \<times> sram_status \<times> tu_sram_region" where
  "tu_sram_read_bulk r addr bytes =
     (if \<not> sram_bounds_check r addr bytes then (0, None, TU_ERR_SRAM_OVERFLOW, r)
      else if bytes = 0 then (0, None, SRAM_OK, r)
      else let (stall, words, r1) = sram_meter r addr bytes False
           in (stall, Some (bytes_at (sram_data r1) (unat addr) (unat bytes)), SRAM_OK,
               count_reads words r1))"

definition tu_sram_write_bulk ::
  "tu_sram_region \<Rightarrow> u32 \<Rightarrow> u8 list \<Rightarrow> u32 \<Rightarrow> u64 \<times> sram_status \<times> tu_sram_region" where
  "tu_sram_write_bulk r addr data bytes =
     (if \<not> sram_bounds_check r addr bytes then (0, TU_ERR_SRAM_OVERFLOW, r)
      else if bytes = 0 then (0, SRAM_OK, r)
      else let (stall, words, r1) = sram_meter r addr bytes True
           in (stall, SRAM_OK,
               count_writes words
                 (sram_set_data r1 (put_bytes (sram_data r1) (unat addr) (take (unat bytes) data)))))"

definition tu_sram_read ::
  "tu_sram_region \<Rightarrow> u32 \<Rightarrow> u64 \<times> u8 list option \<times> sram_status \<times> tu_sram_region" where
  "tu_sram_read r addr =
     (let width = sb_bank_width (sr_banks r)
      in if \<not> sram_bounds_check r addr width then (0, None, TU_ERR_SRAM_OVERFLOW, r)
         else let (stall, words, r1) = sram_meter r addr width False
              in (stall, Some (bytes_at (sram_data r1) (unat addr) (unat width)), SRAM_OK,
                  count_reads words r1))"

definition tu_sram_write ::
  "tu_sram_region \<Rightarrow> u32 \<Rightarrow> u8 list \<Rightarrow> u64 \<times> sram_status \<times> tu_sram_region" where
  "tu_sram_write r addr data =
     (let width = sb_bank_width (sr_banks r)
      in if \<not> sram_bounds_check r addr width then (0, TU_ERR_SRAM_OVERFLOW, r)
         else let (stall, words, r1) = sram_meter r addr width True
              in (stall, SRAM_OK,
                  count_writes words
                    (sram_set_data r1 (put_bytes (sram_data r1) (unat addr) (take (unat width) data)))))"

definition tu_sram_bank_index :: "tu_sram_region \<Rightarrow> u32 \<Rightarrow> u32" where
  "tu_sram_bank_index r addr = (addr div sb_bank_width (sr_banks r)) mod sb_bank_count (sr_banks r)"

definition tu_sram_is_bank_conflict :: "tu_sram_region \<Rightarrow> u32 \<Rightarrow> u32 \<Rightarrow> bool" where
  "tu_sram_is_bank_conflict r addr1 addr2 \<longleftrightarrow> tu_sram_bank_index r addr1 = tu_sram_bank_index r addr2"

text \<open>The counters of one bank: reads, writes, read stalls and write stalls.\<close>

definition tu_sram_get_bank_bw_stats :: "tu_sram_region \<Rightarrow> u32 \<Rightarrow> u64 \<times> u64 \<times> u64 \<times> u64" where
  "tu_sram_get_bank_bw_stats r bank_idx =
     (case sb_bw_banks (sr_banks r) of
        None \<Rightarrow> (0, 0, 0, 0)
      | Some banks \<Rightarrow>
          if bank_idx \<ge> sb_bank_count (sr_banks r) then (0, 0, 0, 0)
          else let bw = banks ! unat bank_idx
               in (bw_reads_served bw, bw_writes_served bw, bw_read_stalls bw, bw_write_stalls bw))"

definition tu_sram_get_cycle :: "tu_sram_region \<Rightarrow> u64" where
  "tu_sram_get_cycle r = sb_current_cycle (sr_banks r)"

section \<open>Double buffering\<close>

text \<open>Whether the two allocations, of the state and of the shadow buffer, succeed is an input.\<close>

definition tu_sram_enable_double_buffer :: "bool \<Rightarrow> bool \<Rightarrow> tu_sram_region \<Rightarrow> int \<times> tu_sram_region" where
  "tu_sram_enable_double_buffer state_ok shadow_ok r =
     (if sr_total_size r = 0 then (- 1, r)
      else if (case sr_db r of Some db \<Rightarrow> db_enabled db | None \<Rightarrow> False) then (0, r)
      else if \<not> state_ok then (- 1, r)
      else if \<not> shadow_ok then (- 1, r)
      else (0, r\<lparr>sr_db := Some
             \<lparr>db_enabled = True, db_shadow_data = replicate (unat (sr_total_size r)) 0,
              db_buffer_size = sr_total_size r, db_active_idx = 0, db_swap_count = 0,
              db_dma_to_shadow_bytes = 0, db_dma_to_shadow_cycles = 0, db_shadow_dirty = False,
              db_overlapped_cycles = 0\<rparr>\<rparr>))"

definition tu_sram_disable_double_buffer :: "tu_sram_region \<Rightarrow> tu_sram_region" where
  "tu_sram_disable_double_buffer r =
     (case sr_db r of
        None \<Rightarrow> r
      | Some db \<Rightarrow>
          (let n = unat (sr_total_size r);
               r1 = (if db_active_idx db = 1
                     then r\<lparr>sr_banks := (sr_banks r)\<lparr>sb_data :=
                            put_bytes (sb_data (sr_banks r)) 0 (take n (db_shadow_data db))\<rparr>\<rparr>
                     else r)
           in r1\<lparr>sr_db := None\<rparr>))"

definition tu_sram_is_double_buffered :: "tu_sram_region \<Rightarrow> bool" where
  "tu_sram_is_double_buffered r = (case sr_db r of Some db \<Rightarrow> db_enabled db | None \<Rightarrow> False)"

definition tu_sram_swap_buffers :: "tu_sram_region \<Rightarrow> u64 \<times> tu_sram_region" where
  "tu_sram_swap_buffers r =
     (case sr_db r of
        None \<Rightarrow> (0, r)
      | Some db \<Rightarrow>
          if \<not> db_enabled db then (0, r)
          else let db' = db\<lparr>db_active_idx := (if db_active_idx db = 0 then 1 else 0),
                            db_swap_count := db_swap_count db + 1, db_shadow_dirty := False\<rparr>
               in (db_swap_count db', r\<lparr>sr_db := Some db'\<rparr>))"

text \<open>The shadow buffer, absent when double buffering is off.\<close>

definition sram_shadow :: "tu_sram_region \<Rightarrow> u8 list option" where
  "sram_shadow r =
     (case sr_db r of
        None \<Rightarrow> None
      | Some db \<Rightarrow> if \<not> db_enabled db then None
                   else Some (if db_active_idx db = 0 then db_shadow_data db
                              else sb_data (sr_banks r)))"

definition tu_sram_notify_shadow_write :: "tu_sram_region \<Rightarrow> u32 \<Rightarrow> u64 \<Rightarrow> tu_sram_region" where
  "tu_sram_notify_shadow_write r bytes cycles =
     (case sr_db r of
        None \<Rightarrow> r
      | Some db \<Rightarrow>
          if \<not> db_enabled db then r
          else r\<lparr>sr_db := Some (db\<lparr>db_dma_to_shadow_bytes := db_dma_to_shadow_bytes db + ucast bytes,
                                   db_dma_to_shadow_cycles := db_dma_to_shadow_cycles db + cycles,
                                   db_shadow_dirty := True\<rparr>)\<rparr>)"

definition tu_sram_is_shadow_dirty :: "tu_sram_region \<Rightarrow> bool" where
  "tu_sram_is_shadow_dirty r =
     (case sr_db r of Some db \<Rightarrow> db_enabled db \<and> db_shadow_dirty db | None \<Rightarrow> False)"

definition tu_sram_record_overlapped_cycles :: "tu_sram_region \<Rightarrow> u64 \<Rightarrow> tu_sram_region" where
  "tu_sram_record_overlapped_cycles r cycles =
     (case sr_db r of
        None \<Rightarrow> r
      | Some db \<Rightarrow> if db_enabled db
          then r\<lparr>sr_db := Some (db\<lparr>db_overlapped_cycles := db_overlapped_cycles db + cycles\<rparr>)\<rparr>
          else r)"

definition tu_sram_get_overlapped_cycles :: "tu_sram_region \<Rightarrow> u64" where
  "tu_sram_get_overlapped_cycles r =
     (case sr_db r of Some db \<Rightarrow> if db_enabled db then db_overlapped_cycles db else 0 | None \<Rightarrow> 0)"

record tu_db_stats =
  st_enabled :: bool
  st_buffer_size :: u32
  st_swap_count :: u64
  st_dma_to_shadow_bytes :: u64
  st_dma_to_shadow_cycles :: u64
  st_overlapped_cycles :: u64
  st_shadow_dirty :: bool

definition tu_sram_get_db_stats :: "tu_sram_region \<Rightarrow> tu_db_stats" where
  "tu_sram_get_db_stats r =
     (case sr_db r of
        None \<Rightarrow> \<lparr>st_enabled = False, st_buffer_size = 0, st_swap_count = 0,
                 st_dma_to_shadow_bytes = 0, st_dma_to_shadow_cycles = 0,
                 st_overlapped_cycles = 0, st_shadow_dirty = False\<rparr>
      | Some db \<Rightarrow> \<lparr>st_enabled = db_enabled db, st_buffer_size = db_buffer_size db,
                    st_swap_count = db_swap_count db,
                    st_dma_to_shadow_bytes = db_dma_to_shadow_bytes db,
                    st_dma_to_shadow_cycles = db_dma_to_shadow_cycles db,
                    st_overlapped_cycles = db_overlapped_cycles db,
                    st_shadow_dirty = db_shadow_dirty db\<rparr>)"

section \<open>Byte stores\<close>

text \<open>
  The contract of a byte-addressed store: admissible spans, the bytes of a span, and a write that
  changes exactly its span.
\<close>

fun store_chunks :: "('s \<Rightarrow> nat \<Rightarrow> u8 list \<Rightarrow> 's) \<Rightarrow> 's \<Rightarrow> nat \<Rightarrow> u8 list list \<Rightarrow> 's" where
  "store_chunks put s a [] = s"
| "store_chunks put s a (bs # bss) = store_chunks put (put s a bs) (a + length bs) bss"

locale byte_store =
  fixes good :: "'s \<Rightarrow> bool" and ok :: "'s \<Rightarrow> nat \<Rightarrow> nat \<Rightarrow> bool"
    and get :: "'s \<Rightarrow> nat \<Rightarrow> nat \<Rightarrow> u8 list" and put :: "'s \<Rightarrow> nat \<Rightarrow> u8 list \<Rightarrow> 's"
  assumes put_good: "good s \<Longrightarrow> ok s a (length bs) \<Longrightarrow> good (put s a bs)"
    and put_ok: "good s \<Longrightarrow> ok s a (length bs) \<Longrightarrow> ok (put s a bs) b n \<longleftrightarrow> ok s b n"
    and get_put: "good s \<Longrightarrow> ok s a (length bs) \<Longrightarrow> get (put s a bs) a (length bs) = bs"
    and get_disjoint: "good s \<Longrightarrow> ok s a (length bs) \<Longrightarrow> ok s b n
      \<Longrightarrow> a + length bs \<le> b \<or> b + n \<le> a \<Longrightarrow> get (put s a bs) b n = get s b n"
    and get_append: "good s \<Longrightarrow> ok s a (m + n) \<Longrightarrow> get s a (m + n) = get s a m @ get s (a + m) n"
    and ok_split: "ok s a (m + n) \<Longrightarrow> ok s a m \<and> ok s (a + m) n"
begin

text \<open>A transfer cut into consecutive pieces stores the same bytes and nothing else.\<close>

lemma store_chunks_frame:
  assumes "good s" "ok s a (length (concat bss))"
  shows "good (store_chunks put s a bss)
    \<and> (\<forall>b n. ok (store_chunks put s a bss) b n \<longleftrightarrow> ok s b n)
    \<and> (\<forall>b n. ok s b n \<longrightarrow> a + length (concat bss) \<le> b \<or> b + n \<le> a
         \<longrightarrow> get (store_chunks put s a bss) b n = get s b n)"
  using assms
proof (induction bss arbitrary: s a)
  case (Cons bs bss)
  have sp: "ok s a (length bs)" "ok s (a + length bs) (length (concat bss))"
    using ok_split [of s a "length bs"] Cons.prems by simp_all
  have s': "good (put s a bs)" "ok (put s a bs) (a + length bs) (length (concat bss))"
    using put_good put_ok Cons.prems(1) sp by auto
  show ?case
    using Cons.IH [OF s'] put_ok [OF Cons.prems(1) sp(1)] get_disjoint [OF Cons.prems(1) sp(1)]
    by simp
qed simp

lemma store_chunks_get:
  assumes "good s" "ok s a (length (concat bss))"
  shows "get (store_chunks put s a bss) a (length (concat bss)) = concat bss"
  using assms
proof (induction bss arbitrary: s a)
  case Nil
  then show ?case using get_put [of s a "[]"] get_disjoint [of s a "[]" a 0] by simp
next
  case (Cons bs bss)
  have sp: "ok s a (length bs)" "ok s (a + length bs) (length (concat bss))"
    using ok_split [of s a "length bs"] Cons.prems by simp_all
  let ?s = "put s a bs"
  have s': "good ?s" "ok ?s (a + length bs) (length (concat bss))" "ok ?s a (length bs)"
      "ok ?s a (length bs + length (concat bss))"
    using put_good put_ok Cons.prems sp by auto
  let ?t = "store_chunks put ?s (a + length bs) bss"
  have "good ?t" "ok ?t a (length bs + length (concat bss))"
    using store_chunks_frame [OF s'(1,2)] s'(4) by auto
  then have "get ?t a (length bs + length (concat bss))
      = get ?t a (length bs) @ get ?t (a + length bs) (length (concat bss))" by (rule get_append)
  also have "get ?t a (length bs) = get ?s a (length bs)"
    using store_chunks_frame [OF s'(1,2)] s'(3) by simp
  also have "get ?t (a + length bs) (length (concat bss)) = concat bss"
    by (rule Cons.IH [OF s'(1,2)])
  finally show ?case using get_put Cons.prems sp by simp
qed

end

section \<open>The region as a byte store\<close>

definition sram_wf :: "tu_sram_region \<Rightarrow> bool" where
  "sram_wf r \<longleftrightarrow> length (sb_data (sr_banks r)) = unat (sr_total_size r)
     \<and> (case sr_db r of None \<Rightarrow> True
        | Some db \<Rightarrow> length (db_shadow_data db) = unat (sr_total_size r) \<and> db_active_idx db \<le> 1)"

lemma bounds_check_exact:
  "sram_bounds_check r addr len \<longleftrightarrow> unat addr + unat len \<le> unat (sr_total_size r)"
proof (cases "addr \<le> sr_total_size r")
  case True
  then show ?thesis
    by (auto simp: sram_bounds_check_def word_less_nat_alt word_le_nat_alt unat_sub_le not_less)
next
  case False
  then show ?thesis by (auto simp: sram_bounds_check_def word_less_nat_alt not_le)
qed

text \<open>Metering touches the bank meters and the stall counter only.\<close>

definition bank_frame :: "tu_sram_bank \<Rightarrow> tu_sram_bank" where
  "bank_frame b = b\<lparr>sb_bw_banks := None, sb_stall_cycles := 0\<rparr>"

lemma bank_frame_sel:
  "sb_data (bank_frame b) = sb_data b" "sb_bank_count (bank_frame b) = sb_bank_count b"
  "sb_bank_width (bank_frame b) = sb_bank_width b" "sb_bw_modeling (bank_frame b) = sb_bw_modeling b"
  "sb_stall_penalty (bank_frame b) = sb_stall_penalty b" "sb_word_metering (bank_frame b) = sb_word_metering b"
  "sb_words_per_cycle (bank_frame b) = sb_words_per_cycle b"
  by (simp_all add: bank_frame_def)

lemma consume_frame: "bank_frame (snd (sram_bw_consume b i w)) = bank_frame b"
  by (simp add: sram_bw_consume_def Let_def bank_frame_def split: option.split)

lemma meter_loop_frame: "bank_frame (snd (foldl (meter_step first w) acc is)) = bank_frame (snd acc)"
proof (induction "is" arbitrary: acc)
  case (Cons i "is")
  have "bank_frame (snd (meter_step first w acc i)) = bank_frame (snd acc)"
    using consume_frame by (simp add: meter_step_def split: prod.split) (metis snd_conv)
  then show ?case using Cons by simp
qed simp

lemma sram_meter_frame:
  assumes "sram_meter r addr bytes w = (stall, words, r')"
  shows "sr_total_size r' = sr_total_size r" "sr_db r' = sr_db r" "sram_data r' = sram_data r"
    "sram_wf r' = sram_wf r" "bank_frame (sr_banks r') = bank_frame (sr_banks r)"
proof -
  obtain b where r': "r' = r\<lparr>sr_banks := b\<rparr>" and b: "bank_frame b = bank_frame (sr_banks r)"
    using assms meter_loop_frame
    by (auto simp: sram_meter_def Let_def split: prod.splits) (metis snd_conv)
  have d: "sb_data b = sb_data (sr_banks r)" using arg_cong [OF b, of sb_data] by (simp add: bank_frame_sel)
  show "sr_total_size r' = sr_total_size r" "sr_db r' = sr_db r" "sram_data r' = sram_data r"
    "sram_wf r' = sram_wf r" "bank_frame (sr_banks r') = bank_frame (sr_banks r)"
    using d b by (simp_all add: r' sram_data_def sram_wf_def split: option.split)
qed

text \<open>Byte arrays.\<close>

lemma bytes_put_same: "a + length bs \<le> length mem \<Longrightarrow> bytes_at (put_bytes mem a bs) a (length bs) = bs"
  by (simp add: bytes_at_def put_bytes_def)

lemma length_put_bytes: "a + length bs \<le> length mem \<Longrightarrow> length (put_bytes mem a bs) = length mem"
  by (simp add: put_bytes_def)

lemma bytes_put_disjoint:
  assumes "a + length bs \<le> length mem" "b + n \<le> length mem" "a + length bs \<le> b \<or> b + n \<le> a"
  shows "bytes_at (put_bytes mem a bs) b n = bytes_at mem b n"
proof (rule nth_equalityI)
  show "length (bytes_at (put_bytes mem a bs) b n) = length (bytes_at mem b n)"
    using assms length_put_bytes by (simp add: bytes_at_def)
  fix i assume "i < length (bytes_at (put_bytes mem a bs) b n)"
  then have i: "i < n" "b + i < length mem" using assms length_put_bytes by (auto simp: bytes_at_def)
  have "put_bytes mem a bs ! (b + i) = mem ! (b + i)"
    using assms i by (auto simp: put_bytes_def nth_append)
  then show "bytes_at (put_bytes mem a bs) b n ! i = bytes_at mem b n ! i"
    using assms i length_put_bytes by (simp add: bytes_at_def)
qed

lemma bytes_append: "bytes_at mem a (m + n) = bytes_at mem a m @ bytes_at mem (a + m) n"
  by (simp add: bytes_at_def take_add add.commute)

text \<open>The effect of an access on the bytes of the region.\<close>

lemma sram_data_set:
  "sram_data (sram_set_data r bs) = bs" "sr_total_size (sram_set_data r bs) = sr_total_size r"
  by (cases "sr_db r", auto simp: sram_data_def sram_set_data_def)+

lemma sram_wf_data: "sram_wf r \<Longrightarrow> length (sram_data r) = unat (sr_total_size r)"
  by (simp add: sram_wf_def sram_data_def split: option.splits)

lemma sram_wf_set: "sram_wf r \<Longrightarrow> length bs = unat (sr_total_size r) \<Longrightarrow> sram_wf (sram_set_data r bs)"
  by (cases "sr_db r") (auto simp: sram_wf_def sram_set_data_def)

lemma count_frame:
  "sram_data (count_reads n r) = sram_data r" "sram_data (count_writes n r) = sram_data r"
  "sr_total_size (count_reads n r) = sr_total_size r" "sr_total_size (count_writes n r) = sr_total_size r"
  "sram_wf (count_reads n r) = sram_wf r" "sram_wf (count_writes n r) = sram_wf r"
  by (simp_all add: count_reads_def count_writes_def sram_data_def sram_wf_def split: option.split)

lemma write_bulk_effect:
  assumes "tu_sram_write_bulk r addr bs len = (stall, st, r')"
  shows "st = SRAM_OK \<longleftrightarrow> unat addr + unat len \<le> unat (sr_total_size r)"
    "st \<noteq> SRAM_OK \<Longrightarrow> r' = r"
    "sr_total_size r' = sr_total_size r"
    "st = SRAM_OK \<Longrightarrow> len \<noteq> 0
      \<Longrightarrow> sram_data r' = put_bytes (sram_data r) (unat addr) (take (unat len) bs)"
    "st = SRAM_OK \<Longrightarrow> len = 0 \<Longrightarrow> r' = r"
    "sram_wf r \<Longrightarrow> length bs = unat len \<Longrightarrow> sram_wf r'"
proof -
  obtain s w r1 where m: "sram_meter r addr len True = (s, w, r1)" by (rule prod_cases3)
  note f = sram_meter_frame [OF m]
  have eq: "(stall, st, r') = (if \<not> sram_bounds_check r addr len then (0, TU_ERR_SRAM_OVERFLOW, r)
      else if len = 0 then (0, SRAM_OK, r)
      else (s, SRAM_OK, count_writes w
                 (sram_set_data r1 (put_bytes (sram_data r1) (unat addr) (take (unat len) bs)))))"
    unfolding assms [symmetric] tu_sram_write_bulk_def m Let_def prod.case by (rule refl)
  show "st = SRAM_OK \<longleftrightarrow> unat addr + unat len \<le> unat (sr_total_size r)"
    "st \<noteq> SRAM_OK \<Longrightarrow> r' = r" "sr_total_size r' = sr_total_size r"
    "st = SRAM_OK \<Longrightarrow> len \<noteq> 0
      \<Longrightarrow> sram_data r' = put_bytes (sram_data r) (unat addr) (take (unat len) bs)"
    "st = SRAM_OK \<Longrightarrow> len = 0 \<Longrightarrow> r' = r"
    using eq f by (auto simp: bounds_check_exact count_frame sram_data_set split: if_splits)
  assume wf: "sram_wf r" "length bs = unat len"
  then show "sram_wf r'"
    using eq f
    by (auto simp: bounds_check_exact count_frame sram_data_set length_put_bytes sram_wf_data
        intro!: sram_wf_set split: if_splits)
qed

lemma read_bulk_effect:
  assumes "tu_sram_read_bulk r addr len = (stall, out, st, r')"
  shows "st = SRAM_OK \<longleftrightarrow> unat addr + unat len \<le> unat (sr_total_size r)"
    "out = (if st = SRAM_OK \<and> len \<noteq> 0
       then Some (bytes_at (sram_data r) (unat addr) (unat len)) else None)"
    "sram_data r' = sram_data r" "sr_total_size r' = sr_total_size r" "sram_wf r' = sram_wf r"
proof -
  obtain s w r1 where m: "sram_meter r addr len False = (s, w, r1)" by (rule prod_cases3)
  note f = sram_meter_frame [OF m]
  have eq: "(stall, out, st, r') = (if \<not> sram_bounds_check r addr len then (0, None, TU_ERR_SRAM_OVERFLOW, r)
      else if len = 0 then (0, None, SRAM_OK, r)
      else (s, Some (bytes_at (sram_data r1) (unat addr) (unat len)), SRAM_OK, count_reads w r1))"
    unfolding assms [symmetric] tu_sram_read_bulk_def m Let_def prod.case by (rule refl)
  then show "st = SRAM_OK \<longleftrightarrow> unat addr + unat len \<le> unat (sr_total_size r)"
    "out = (if st = SRAM_OK \<and> len \<noteq> 0
       then Some (bytes_at (sram_data r) (unat addr) (unat len)) else None)"
    "sram_data r' = sram_data r" "sr_total_size r' = sr_total_size r" "sram_wf r' = sram_wf r"
    using f by (auto simp: bounds_check_exact count_frame split: if_splits)
qed

definition region_put :: "tu_sram_region \<Rightarrow> nat \<Rightarrow> u8 list \<Rightarrow> tu_sram_region" where
  "region_put r a bs = snd (snd (tu_sram_write_bulk r (word_of_nat a) bs (word_of_nat (length bs))))"

definition region_get :: "tu_sram_region \<Rightarrow> nat \<Rightarrow> nat \<Rightarrow> u8 list" where
  "region_get r a n = bytes_at (sram_data r) a n"

definition region_ok :: "tu_sram_region \<Rightarrow> nat \<Rightarrow> nat \<Rightarrow> bool" where
  "region_ok r a n \<longleftrightarrow> a + n \<le> unat (sr_total_size r)"

lemma region_put_effect:
  assumes "sram_wf r" "region_ok r a (length bs)"
  shows "sram_wf (region_put r a bs)" "sr_total_size (region_put r a bs) = sr_total_size r"
    "sram_data (region_put r a bs) = put_bytes (sram_data r) a bs"
proof -
  have small: "a < 4294967296" "length bs < 4294967296"
    using assms(2) unat_u32_less [of "sr_total_size r"] unfolding region_ok_def by linarith+
  obtain stall st r' where w: "tu_sram_write_bulk r (word_of_nat a) bs (word_of_nat (length bs)) = (stall, st, r')"
    by (rule prod_cases3)
  then have r': "region_put r a bs = r'" by (simp add: region_put_def)
  note u = unat_of_nat_u32 [OF small(1)] unat_of_nat_u32 [OF small(2)]
  note e = write_bulk_effect [OF w, unfolded u]
  have ok: "st = SRAM_OK" using e(1) assms(2) by (simp add: region_ok_def)
  show "sram_wf (region_put r a bs)" "sr_total_size (region_put r a bs) = sr_total_size r"
    using e(3,6) assms(1) by (simp_all add: r')
  show "sram_data (region_put r a bs) = put_bytes (sram_data r) a bs"
  proof (cases "bs = []")
    case True
    then show ?thesis unfolding r' using e(5) [OF ok] by (simp add: put_bytes_def)
  next
    case False
    then have "(word_of_nat (length bs) :: u32) \<noteq> 0" using u(2) by (metis length_0_conv unat_0)
    then show ?thesis using e(4) [OF ok] by (simp add: r')
  qed
qed

interpretation region: byte_store sram_wf region_ok region_get region_put
proof unfold_locales
  fix r :: tu_sram_region and a :: nat and bs :: "u8 list"
  assume wf: "sram_wf r" and ok: "region_ok r a (length bs)"
  note e = region_put_effect [OF wf ok]
  have fit: "a + length bs \<le> length (sram_data r)" using ok wf by (simp add: region_ok_def sram_wf_data)
  show "sram_wf (region_put r a bs)" by (rule e(1))
  show "region_ok (region_put r a bs) b n \<longleftrightarrow> region_ok r b n" for b n by (simp add: region_ok_def e)
  show "region_get (region_put r a bs) a (length bs) = bs"
    using fit by (simp add: region_get_def e bytes_put_same)
  show "region_get (region_put r a bs) b n = region_get r b n"
    if "region_ok r b n" "a + length bs \<le> b \<or> b + n \<le> a" for b n
    using bytes_put_disjoint [OF fit _ that(2)] that(1) wf
    by (simp add: region_get_def e region_ok_def sram_wf_data)
next
  fix r a m n show "region_get r a (m + n) = region_get r a m @ region_get r (a + m) n"
    by (simp add: region_get_def bytes_append)
qed (auto simp: region_ok_def)

section \<open>Metering\<close>

text \<open>The totals over the banks of a region, in the 64-bit arithmetic of the counters.\<close>

definition served_words :: "tu_sram_bank \<Rightarrow> u64" where
  "served_words b = (case sb_bw_banks b of None \<Rightarrow> 0
     | Some banks \<Rightarrow> sum_list (map (\<lambda>bw. bw_reads_served bw + bw_writes_served bw) banks))"

definition stalled_words :: "tu_sram_bank \<Rightarrow> u64" where
  "stalled_words b = (case sb_bw_banks b of None \<Rightarrow> 0
     | Some banks \<Rightarrow> sum_list (map (\<lambda>bw. bw_read_stalls bw + bw_write_stalls bw) banks))"

lemma sum_list_map_update:
  fixes f :: "'a \<Rightarrow> 'b :: ab_group_add"
  assumes "i < length xs"
  shows "sum_list (map f (xs[i := v])) = sum_list (map f xs) - f (xs ! i) + f v"
  using assms by (induction xs arbitrary: i) (auto split: nat.split)

definition bw_inv :: "tu_sram_bank \<Rightarrow> bool" where
  "bw_inv b \<longleftrightarrow> 0 < sb_bank_count b \<and> 0 < sb_bank_width b \<and> (\<exists>banks. sb_bw_banks b = Some banks
     \<and> length banks = unat (sb_bank_count b)
     \<and> (\<forall>bw \<in> set banks. 0 \<le> bw_words_available bw \<and> bw_words_available bw \<le> int (unat (sb_words_per_cycle b))))"

definition meters_ok :: "tu_sram_bank \<Rightarrow> bool" where
  "meters_ok b \<longleftrightarrow> sb_bw_modeling b \<and> bw_inv b"

text \<open>One word: it is served without a stall or stalled at the price of the penalty.\<close>

lemma consume_account:
  assumes ok: "meters_ok b" and i: "i < unat (sb_bank_count b)"
    and c: "sram_bw_consume b i w = (s, b')"
  shows "meters_ok b'"
    "served_words b' + stalled_words b' = served_words b + stalled_words b + 1"
    "s = ucast (sb_stall_penalty b) * (stalled_words b' - stalled_words b)"
    "sb_stall_cycles b' = sb_stall_cycles b + s"
proof -
  obtain banks where banks: "sb_bw_banks b = Some banks" "length banks = unat (sb_bank_count b)"
    and av: "\<forall>bw \<in> set banks. 0 \<le> bw_words_available bw \<and> bw_words_available bw \<le> int (unat (sb_words_per_cycle b))"
    and m: "sb_bw_modeling b" "0 < sb_bank_count b"
    and wd: "0 < sb_bank_width b"
    using ok by (auto simp: meters_ok_def bw_inv_def)
  have il: "i < length banks" using i banks by simp
  have avi: "0 \<le> bw_words_available (banks ! i) \<and> bw_words_available (banks ! i) \<le> int (unat (sb_words_per_cycle b))"
    using av il by simp
  have upd: "\<forall>bw \<in> set (banks[i := v]). 0 \<le> bw_words_available bw \<and> bw_words_available bw \<le> int (unat (sb_words_per_cycle b))"
    if "0 \<le> bw_words_available v \<and> bw_words_available v \<le> int (unat (sb_words_per_cycle b))" for v
    using av that set_update_subset_insert [of banks i v] by blast
  note sums = sum_list_map_update [OF il]
  have cases: "(0 < bw_words_available (banks ! i) \<and> w) \<or> (0 < bw_words_available (banks ! i) \<and> \<not> w)
      \<or> (\<not> 0 < bw_words_available (banks ! i) \<and> w) \<or> (\<not> 0 < bw_words_available (banks ! i) \<and> \<not> w)"
    by blast
  have "\<exists>v st. b' = b\<lparr>sb_bw_banks := Some (banks[i := v]), sb_stall_cycles := st\<rparr>
      \<and> 0 \<le> bw_words_available v \<and> bw_words_available v \<le> bw_words_available (banks ! i)"
    using cases
  proof (elim disjE)
    assume "0 < bw_words_available (banks ! i) \<and> w"
    then show ?thesis
      using c banks m avi
      by (intro exI [of _ "(banks ! i)\<lparr>bw_total_cycles_used := bw_total_cycles_used (banks ! i) + 1,
          bw_words_available := bw_words_available (banks ! i) - 1,
          bw_writes_served := bw_writes_served (banks ! i) + 1\<rparr>"] exI [of _ "sb_stall_cycles b"])
        (auto simp: sram_bw_consume_def Let_def)
  next
    assume "0 < bw_words_available (banks ! i) \<and> \<not> w"
    then show ?thesis
      using c banks m avi
      by (intro exI [of _ "(banks ! i)\<lparr>bw_total_cycles_used := bw_total_cycles_used (banks ! i) + 1,
          bw_words_available := bw_words_available (banks ! i) - 1,
          bw_reads_served := bw_reads_served (banks ! i) + 1\<rparr>"] exI [of _ "sb_stall_cycles b"])
        (auto simp: sram_bw_consume_def Let_def)
  next
    assume "\<not> 0 < bw_words_available (banks ! i) \<and> w"
    then show ?thesis
      using c banks m avi
      by (intro exI [of _ "(banks ! i)\<lparr>bw_total_cycles_used := bw_total_cycles_used (banks ! i) + 1,
          bw_write_stalls := bw_write_stalls (banks ! i) + 1\<rparr>"] exI [of _ "sb_stall_cycles b + s"])
        (auto simp: sram_bw_consume_def Let_def)
  next
    assume "\<not> 0 < bw_words_available (banks ! i) \<and> \<not> w"
    then show ?thesis
      using c banks m avi
      by (intro exI [of _ "(banks ! i)\<lparr>bw_total_cycles_used := bw_total_cycles_used (banks ! i) + 1,
          bw_read_stalls := bw_read_stalls (banks ! i) + 1\<rparr>"] exI [of _ "sb_stall_cycles b + s"])
        (auto simp: sram_bw_consume_def Let_def)
  qed
  then obtain v st where b': "b' = b\<lparr>sb_bw_banks := Some (banks[i := v]), sb_stall_cycles := st\<rparr>"
    and v: "0 \<le> bw_words_available v" "bw_words_available v \<le> bw_words_available (banks ! i)" by blast
  show "meters_ok b'" using upd [of v] v avi m banks wd by (simp add: meters_ok_def bw_inv_def b')
  show "served_words b' + stalled_words b' = served_words b + stalled_words b + 1"
    using cases c banks m
    by (elim disjE; auto simp: sram_bw_consume_def Let_def served_words_def stalled_words_def sums)
  show "s = ucast (sb_stall_penalty b) * (stalled_words b' - stalled_words b)"
    using cases c banks m
    by (elim disjE; auto simp: sram_bw_consume_def Let_def stalled_words_def sums)
  show "sb_stall_cycles b' = sb_stall_cycles b + s"
    using cases c banks m by (elim disjE; auto simp: sram_bw_consume_def Let_def)
qed

lemma consume_count:
  assumes "sram_bw_consume b i w = (s, b')"
  shows "sb_bank_count b' = sb_bank_count b" "sb_stall_penalty b' = sb_stall_penalty b"
proof -
  have f: "bank_frame b' = bank_frame b" using consume_frame [of b i w] assms by simp
  show "sb_bank_count b' = sb_bank_count b" "sb_stall_penalty b' = sb_stall_penalty b"
    using arg_cong [OF f, of sb_bank_count] arg_cong [OF f, of sb_stall_penalty] by (simp_all add: bank_frame_sel)
qed

lemma meter_loop_account:
  assumes "meters_ok b" "foldl (meter_step first w) (s, b) is = (s', b')"
  shows "meters_ok b'
    \<and> served_words b' + stalled_words b' = served_words b + stalled_words b + word_of_nat (length is)
    \<and> s' = s + ucast (sb_stall_penalty b) * (stalled_words b' - stalled_words b)
    \<and> sb_stall_cycles b' = sb_stall_cycles b + (s' - s)"
  using assms
proof (induction "is" arbitrary: s b)
  case (Cons i "is")
  define idx where "idx = unat ((first + word_of_nat i) mod ucast (sb_bank_count b))"
  obtain t b1 where c: "sram_bw_consume b idx w = (t, b1)" by (cases "sram_bw_consume b idx w")
  have "idx < unat (sb_bank_count b)"
  proof -
    have "0 < unat (sb_bank_count b)" using Cons.prems(1) by (simp add: meters_ok_def bw_inv_def word_less_nat_alt)
    then show ?thesis by (simp add: idx_def unat_mod_distrib)
  qed
  note a = consume_account [OF Cons.prems(1) this c]
  have step: "meter_step first w (s, b) i = (s + t, b1)" by (simp add: meter_step_def c idx_def [symmetric])
  note ih = Cons.IH [OF a(1), of "s + t"]
  have "foldl (meter_step first w) (s + t, b1) is = (s', b')" using Cons.prems(2) by (simp add: step)
  then show ?case
    using ih a(2,3,4) consume_count [OF c] by (simp add: algebra_simps)
qed simp

lemma meter_account:
  assumes "meters_ok (sr_banks r)" "sram_meter r addr bytes w = (stall, words, r')"
  shows "meters_ok (sr_banks r')
    \<and> served_words (sr_banks r') + stalled_words (sr_banks r')
        = served_words (sr_banks r) + stalled_words (sr_banks r) + words
    \<and> stall = ucast (sb_stall_penalty (sr_banks r))
        * (stalled_words (sr_banks r') - stalled_words (sr_banks r))
    \<and> sb_stall_cycles (sr_banks r') = sb_stall_cycles (sr_banks r) + stall"
  using meter_loop_account [OF assms(1)] assms(2)
  by (fastforce simp: sram_meter_def Let_def split: prod.splits)

lemma consume_off: "\<not> sb_bw_modeling b \<Longrightarrow> sram_bw_consume b i w = (0, b)"
  by (simp add: sram_bw_consume_def split: option.split)

lemma meter_loop_off:
  assumes "\<not> sb_bw_modeling b" shows "foldl (meter_step first w) (s, b) is = (s, b)"
  by (induction "is") (simp_all add: meter_step_def consume_off [OF assms])

lemma meter_bw_inv:
  assumes "bw_inv (sr_banks r)" "sram_meter r addr bytes w = (stall, words, r')"
  shows "bw_inv (sr_banks r')"
proof (cases "sb_bw_modeling (sr_banks r)")
  case True
  then show ?thesis using meter_account [OF _ assms(2)] assms(1) by (simp add: meters_ok_def)
next
  case False
  then have "sr_banks r' = sr_banks r"
    using assms(2) meter_loop_off by (auto simp: sram_meter_def Let_def)
  then show ?thesis using assms(1) by simp
qed

lemma bw_inv_cong:
  assumes "sb_bank_count b' = sb_bank_count b" "sb_bank_width b' = sb_bank_width b"
    "sb_bw_banks b' = sb_bw_banks b" "sb_words_per_cycle b' = sb_words_per_cycle b"
  shows "bw_inv b' = bw_inv b"
  using assms by (simp add: bw_inv_def)

section \<open>Reachable regions\<close>

text \<open>
  A region as the simulator drives it: initialized once, then any sequence of the operations of
  the two modules (destruction aside).
\<close>

inductive sram_reachable :: "tu_sram_region \<Rightarrow> bool" where
  reach_init: "sram_reachable (tu_sram_init_runtime sz name cnt width wpc pen win)"
| reach_read: "sram_reachable r \<Longrightarrow> tu_sram_read_bulk r addr bytes = (stall, out, st, r')
    \<Longrightarrow> sram_reachable r'"
| reach_write: "sram_reachable r \<Longrightarrow> length data = unat bytes
    \<Longrightarrow> tu_sram_write_bulk r addr data bytes = (stall, st, r') \<Longrightarrow> sram_reachable r'"
| reach_read_word: "sram_reachable r \<Longrightarrow> tu_sram_read r addr = (stall, out, st, r')
    \<Longrightarrow> sram_reachable r'"
| reach_write_word: "sram_reachable r \<Longrightarrow> length data = unat (sb_bank_width (sr_banks r))
    \<Longrightarrow> tu_sram_write r addr data = (stall, st, r') \<Longrightarrow> sram_reachable r'"
| reach_advance: "sram_reachable r \<Longrightarrow> sram_reachable (tu_sram_advance_cycle r cycles)"
| reach_modeling: "sram_reachable r \<Longrightarrow> sram_reachable (tu_sram_set_bw_modeling r on)"
| reach_metering: "sram_reachable r \<Longrightarrow> sram_reachable (snd (tu_sram_set_word_metering r mode))"
| reach_enable: "sram_reachable r \<Longrightarrow> sram_reachable (snd (tu_sram_enable_double_buffer state_ok shadow_ok r))"
| reach_disable: "sram_reachable r \<Longrightarrow> sram_reachable (tu_sram_disable_double_buffer r)"
| reach_swap: "sram_reachable r \<Longrightarrow> sram_reachable (snd (tu_sram_swap_buffers r))"
| reach_notify: "sram_reachable r \<Longrightarrow> sram_reachable (tu_sram_notify_shadow_write r bytes cycles)"
| reach_overlap: "sram_reachable r \<Longrightarrow> sram_reachable (tu_sram_record_overlapped_cycles r cycles)"

definition sram_inv :: "tu_sram_region \<Rightarrow> bool" where
  "sram_inv r \<longleftrightarrow> sram_wf r \<and> bw_inv (sr_banks r)"

text \<open>A word access is a bulk access of one bank width.\<close>

lemma read_word_bulk:
  "sb_bank_width (sr_banks r) \<noteq> 0
    \<Longrightarrow> tu_sram_read r addr = tu_sram_read_bulk r addr (sb_bank_width (sr_banks r))"
  by (simp add: tu_sram_read_def tu_sram_read_bulk_def Let_def)

lemma write_word_bulk:
  "sb_bank_width (sr_banks r) \<noteq> 0
    \<Longrightarrow> tu_sram_write r addr data = tu_sram_write_bulk r addr data (sb_bank_width (sr_banks r))"
  by (simp add: tu_sram_write_def tu_sram_write_bulk_def Let_def)

lemma bw_inv_count [simp]:
  "bw_inv (sr_banks (count_reads n r)) = bw_inv (sr_banks r)"
  "bw_inv (sr_banks (count_writes n r)) = bw_inv (sr_banks r)"
  "bw_inv (sr_banks (sram_set_data r bs)) = bw_inv (sr_banks r)"
  by (simp_all add: count_reads_def count_writes_def sram_set_data_def bw_inv_def split: option.split)

lemma sram_inv_read_bulk:
  assumes "sram_inv r" "tu_sram_read_bulk r addr bytes = (stall, out, st, r')"
  shows "sram_inv r'"
proof -
  obtain s w r1 where m: "sram_meter r addr bytes False = (s, w, r1)" by (rule prod_cases3)
  have "bw_inv (sr_banks r1)" using meter_bw_inv [OF _ m] assms(1) by (simp add: sram_inv_def)
  then have "bw_inv (sr_banks r')"
    using assms by (auto simp: tu_sram_read_bulk_def m sram_inv_def Let_def split: if_splits prod.splits)
  then show ?thesis using read_bulk_effect(5) [OF assms(2)] assms(1) by (simp add: sram_inv_def)
qed

lemma sram_inv_write_bulk:
  assumes "sram_inv r" "length data = unat bytes" "tu_sram_write_bulk r addr data bytes = (stall, st, r')"
  shows "sram_inv r'"
proof -
  obtain s w r1 where m: "sram_meter r addr bytes True = (s, w, r1)" by (rule prod_cases3)
  have "bw_inv (sr_banks r1)" using meter_bw_inv [OF _ m] assms(1) by (simp add: sram_inv_def)
  then have "bw_inv (sr_banks r')"
    using assms by (auto simp: tu_sram_write_bulk_def m sram_inv_def Let_def split: if_splits prod.splits)
  then show ?thesis using write_bulk_effect(6) [OF assms(3)] assms(1,2) by (simp add: sram_inv_def)
qed

lemma sram_inv_width: "sram_inv r \<Longrightarrow> sb_bank_width (sr_banks r) \<noteq> 0"
  by (auto simp: sram_inv_def bw_inv_def)

lemma sram_inv_init: "sram_inv (tu_sram_init_runtime sz name cnt width wpc pen win)"
  by (auto simp: sram_inv_def sram_wf_def bw_inv_def tu_sram_init_runtime_def Let_def word_gt_0
      TU_SRAM_BANKS_def TU_SRAM_BANK_WIDTH_def zero_bw_bank_def)

lemma sram_inv_advance: "sram_inv r \<Longrightarrow> sram_inv (tu_sram_advance_cycle r cycles)"
  by (auto simp: sram_inv_def sram_wf_def bw_inv_def tu_sram_advance_cycle_def tu_sram_refill_bw_def
      refill_bank_def Let_def split: option.splits)

lemma sram_inv_modes:
  assumes "sram_inv r"
  shows "sram_inv (tu_sram_set_bw_modeling r on)" "sram_inv (snd (tu_sram_set_word_metering r mode))"
  using assms by (auto simp: sram_inv_def sram_wf_def bw_inv_def tu_sram_set_bw_modeling_def
      tu_sram_set_word_metering_def split: option.splits)

lemma sram_inv_double_buffer:
  assumes "sram_inv r"
  shows "sram_inv (snd (tu_sram_enable_double_buffer state_ok shadow_ok r))" "sram_inv (tu_sram_disable_double_buffer r)"
    "sram_inv (snd (tu_sram_swap_buffers r))" "sram_inv (tu_sram_notify_shadow_write r bytes cycles)"
    "sram_inv (tu_sram_record_overlapped_cycles r cycles)"
  using assms
  by (auto simp: sram_inv_def sram_wf_def bw_inv_def tu_sram_enable_double_buffer_def Let_def
      tu_sram_disable_double_buffer_def tu_sram_swap_buffers_def tu_sram_notify_shadow_write_def
      tu_sram_record_overlapped_cycles_def put_bytes_def split: option.splits)

lemma sram_reachable_inv: "sram_reachable r \<Longrightarrow> sram_inv r"
proof (induction rule: sram_reachable.induct)
  case (reach_read r addr bytes stall out st r')
  then show ?case by (blast intro: sram_inv_read_bulk)
next
  case (reach_write r data bytes addr stall st r')
  then show ?case by (blast intro: sram_inv_write_bulk)
next
  case (reach_read_word r addr stall out st r')
  then show ?case using sram_inv_read_bulk read_word_bulk [OF sram_inv_width] by metis
next
  case (reach_write_word r data addr stall st r')
  then show ?case using sram_inv_write_bulk write_word_bulk [OF sram_inv_width] by metis
qed (simp_all add: sram_inv_init sram_inv_advance sram_inv_modes sram_inv_double_buffer)

section \<open>Counting words\<close>

lemma div_interval:
  fixes a n w :: nat
  assumes "0 < n" "0 < w"
  shows "(\<lambda>x. x div w) ` {a..<a + n} = {a div w..(a + n - 1) div w}"
proof (intro set_eqI iffI)
  fix q assume "q \<in> (\<lambda>x. x div w) ` {a..<a + n}"
  then obtain x where "a \<le> x" "x < a + n" "q = x div w" by auto
  then show "q \<in> {a div w..(a + n - 1) div w}" by (auto intro: div_le_mono)
next
  fix q assume q: "q \<in> {a div w..(a + n - 1) div w}"
  define x where "x = max a (q * w)"
  have "q * w \<le> a + n - 1" using q assms(2) by (simp add: less_eq_div_iff_mult_less_eq)
  then have "x \<in> {a..<a + n}" using assms(1) by (auto simp: x_def)
  moreover have "x div w = q"
  proof (cases "a \<le> q * w")
    case True
    then show ?thesis using assms(2) by (simp add: x_def max_def)
  next
    case False
    then have "q \<le> a div w" using assms(2) by (simp add: less_eq_div_iff_mult_less_eq)
    then show ?thesis using q False by (simp add: x_def max_def)
  qed
  ultimately show "q \<in> (\<lambda>x. x div w) ` {a..<a + n}" by blast
qed

lemma meter_words_exact:
  assumes "bytes \<noteq> 0" "sb_bank_width b \<noteq> 0"
  defines "w \<equiv> unat (sb_bank_width b)"
  shows "unat (meter_words b addr bytes) =
    (case sb_word_metering b of
       TU_SRAM_METER_ADDRESS_SPAN \<Rightarrow> card ((\<lambda>x. x div w) ` {unat addr..<unat addr + unat bytes})
     | TU_SRAM_METER_SIZE_ONLY \<Rightarrow> (unat bytes + w - 1) div w)"
proof -
  have pos: "0 < unat bytes" "0 < w" using assms(1,2) by (simp_all add: unat_gt_0 w_def)
  have small: "unat addr + unat bytes < 18446744073709551616"
    using unat_u32_less [of addr] unat_u32_less [of bytes] by linarith
  have ab: "unat (ucast addr + ucast bytes :: u64) = unat addr + unat bytes"
    using small by (subst u64_add_exact) simp_all
  have ab1: "unat (ucast addr + ucast bytes - 1 :: u64) = unat addr + unat bytes - 1"
    using pos ab by (subst unat_sub_le) (simp_all add: word_le_nat_alt)
  have b1: "unat (ucast bytes - 1 :: u64) = unat bytes - 1"
    using pos by (subst unat_sub_le) (simp_all add: word_le_nat_alt)
  have suc: "unat (x + 1) = unat x + 1" if "unat x < 18446744073709551615" for x :: u64
    using that by (subst u64_add_exact) simp_all
  show ?thesis
  proof (cases "sb_word_metering b")
    case TU_SRAM_METER_SIZE_ONLY
    have "(unat bytes - 1) div w \<le> unat bytes - 1" by simp
    then have "(unat bytes - 1) div w < 18446744073709551615" using unat_u32_less [of bytes] by linarith
    then have "unat (1 + (ucast bytes - 1) div ucast (sb_bank_width b) :: u64) = (unat bytes - 1) div w + 1"
      by (subst add.commute, subst suc) (simp_all add: unat_div_distrib b1 w_def)
    moreover have "(unat bytes - 1) div w + 1 = (unat bytes + w - 1) div w"
    proof -
      have e: "unat bytes + w - 1 = unat bytes - 1 + w" using pos by simp
      show ?thesis unfolding e using pos(2) by (simp only: div_add_self2)
    qed
    ultimately show ?thesis
      using TU_SRAM_METER_SIZE_ONLY assms(1) by (simp add: meter_words_def Let_def)
  next
    case TU_SRAM_METER_ADDRESS_SPAN
    define lo hi where "lo = unat addr div w" and "hi = (unat addr + unat bytes - 1) div w"
    have "hi \<le> unat addr + unat bytes - 1" by (simp add: hi_def)
    then have hi: "hi < 18446744073709551615" using unat_u32_less [of addr] unat_u32_less [of bytes] pos by linarith
    have le: "lo \<le> hi" using pos by (simp add: lo_def hi_def div_le_mono)
    have ulo: "unat (ucast addr div ucast (sb_bank_width b) :: u64) = lo"
      by (simp add: unat_div_distrib lo_def w_def)
    have uhi: "unat ((ucast addr + ucast bytes - 1) div ucast (sb_bank_width b) :: u64) = hi"
      by (simp add: unat_div_distrib ab1 hi_def w_def)
    have sub: "unat ((ucast addr + ucast bytes - 1) div ucast (sb_bank_width b)
        - ucast addr div ucast (sb_bank_width b) :: u64) = hi - lo"
      using le by (subst unat_sub_le) (simp_all only: word_le_nat_alt ulo uhi)
    have "unat ((ucast addr + ucast bytes - 1) div ucast (sb_bank_width b)
        - ucast addr div ucast (sb_bank_width b) + 1 :: u64) = hi - lo + 1"
      using hi by (subst suc) (simp_all only: sub)
    moreover have "card ((\<lambda>x. x div w) ` {unat addr..<unat addr + unat bytes}) = hi - lo + 1"
      using le unfolding div_interval [OF pos] lo_def [symmetric] hi_def [symmetric] by simp
    ultimately show ?thesis
      using TU_SRAM_METER_ADDRESS_SPAN assms(1) by (simp add: meter_words_def Let_def)
  qed
qed

section \<open>Properties\<close>

text \<open>
  C32. A bulk write is checked exactly and stores exactly its bytes. On a well-formed region,
  \<open>tu_sram_write_bulk\<close> reports an overflow if and only if the span ends behind the region, in
  unbounded arithmetic, and then nothing at all changes; otherwise the active buffer holds the
  written bytes at the span and its old bytes everywhere else.
\<close>

theorem write_bulk_exact:
  assumes "sram_wf r" "length data = unat bytes" "tu_sram_write_bulk r addr data bytes = (stall, st, r')"
  shows "(st = TU_ERR_SRAM_OVERFLOW \<longleftrightarrow> unat (sr_total_size r) < unat addr + unat bytes)
    \<and> (st = TU_ERR_SRAM_OVERFLOW \<longrightarrow> r' = r \<and> stall = 0)
    \<and> (st = SRAM_OK \<longrightarrow> length (sram_data r') = length (sram_data r)
        \<and> (\<forall>x < length (sram_data r). sram_data r' ! x =
             (if unat addr \<le> x \<and> x < unat addr + unat bytes then data ! (x - unat addr)
              else sram_data r ! x)))"
proof -
  note e = write_bulk_effect [OF assms(3)]
  have err: "st = TU_ERR_SRAM_OVERFLOW \<longleftrightarrow> st \<noteq> SRAM_OK" by (cases st) simp_all
  have fit: "unat addr + unat bytes \<le> length (sram_data r)" if "st = SRAM_OK"
    using that e(1) sram_wf_data [OF assms(1)] by simp
  have data: "sram_data r' = put_bytes (sram_data r) (unat addr) data" if ok: "st = SRAM_OK"
  proof (cases "bytes = 0")
    case True
    then show ?thesis using e(5) [OF ok] assms(2) by (simp add: put_bytes_def)
  next
    case False
    then show ?thesis using e(4) [OF ok] assms(2) by simp
  qed
  have "stall = 0" if "st = TU_ERR_SRAM_OVERFLOW"
    using assms(3) that by (auto simp: tu_sram_write_bulk_def Let_def split: if_splits prod.splits)
  then show ?thesis
    using e(1,2) err data fit assms(2)
    by (auto simp: put_bytes_def nth_append)
qed

definition small_region :: tu_sram_region where
  "small_region = tu_sram_init_runtime 16 ''W'' 2 4 0 0 0"

lemma small_region_wf: "sram_wf small_region" "sr_total_size small_region = 16"
    "length (sram_data small_region) = 16"
  using sram_inv_init [of 16 "''W''" 2 4 0 0 0] sram_wf_data [of small_region]
  by (simp_all add: small_region_def sram_inv_def tu_sram_init_runtime_def Let_def)

theorem write_bulk_exact_witness:
  "\<exists>stall r'. tu_sram_write_bulk small_region 14 [1, 2] 2 = (stall, SRAM_OK, r') \<and> sram_data r' ! 15 = 2"
proof -
  obtain stall st r' where w: "tu_sram_write_bulk small_region 14 [1, 2] 2 = (stall, st, r')"
    by (rule prod_cases3)
  have "st = SRAM_OK \<and> sram_data r' ! 15 = 2"
    using write_bulk_exact [OF small_region_wf(1) _ w] small_region_wf by (cases st) simp_all
  then show ?thesis using w by blast
qed

text \<open>
  Cutting a transfer changes nothing. Bytes written to a well-formed region by consecutive
  bulk writes that together stay inside it are read back by one bulk read of the whole span, in
  order, and every span disjoint from it reads as before.
\<close>

theorem chunked_write_read_back:
  assumes "sram_wf r" "a + length (concat chunks) \<le> unat (sr_total_size r)"
  shows "region_get (store_chunks region_put r a chunks) a (length (concat chunks)) = concat chunks
    \<and> (\<forall>b n. b + n \<le> unat (sr_total_size r)
         \<longrightarrow> a + length (concat chunks) \<le> b \<or> b + n \<le> a
         \<longrightarrow> region_get (store_chunks region_put r a chunks) b n = region_get r b n)
    \<and> (case tu_sram_read_bulk (store_chunks region_put r a chunks) (word_of_nat a)
          (word_of_nat (length (concat chunks))) of (_, out, st, _) \<Rightarrow>
         st = SRAM_OK \<and> (concat chunks \<noteq> [] \<longrightarrow> out = Some (concat chunks)))"
proof -
  have ok: "region_ok r a (length (concat chunks))" using assms(2) by (simp add: region_ok_def)
  let ?t = "store_chunks region_put r a chunks"
  note frame = region.store_chunks_frame [OF assms(1) ok]
  have get: "region_get ?t a (length (concat chunks)) = concat chunks"
    by (rule region.store_chunks_get [OF assms(1) ok])
  have disj: "\<forall>b n. b + n \<le> unat (sr_total_size r) \<longrightarrow> a + length (concat chunks) \<le> b \<or> b + n \<le> a
      \<longrightarrow> region_get ?t b n = region_get r b n"
    using frame unfolding region_ok_def by blast
  have small: "a < 4294967296" "length (concat chunks) < 4294967296"
    using assms(2) unat_u32_less [of "sr_total_size r"] by linarith+
  note u = unat_of_nat_u32 [OF small(1)] unat_of_nat_u32 [OF small(2)]
  obtain stall out st r' where rd: "tu_sram_read_bulk ?t (word_of_nat a)
      (word_of_nat (length (concat chunks))) = (stall, out, st, r')" by (rule prod_cases4)
  note e = read_bulk_effect(1,2) [OF rd, unfolded u]
  have "region_ok ?t a (length (concat chunks))" using frame ok by blast
  then have st: "st = SRAM_OK" using e(1) by (simp add: region_ok_def)
  have "(word_of_nat (length (concat chunks)) :: u32) \<noteq> 0" if "concat chunks \<noteq> []"
    using that u(2) by (metis length_0_conv unat_0)
  then have "out = Some (concat chunks)" if "concat chunks \<noteq> []"
    using e(2) st get that by (simp add: region_get_def)
  then show ?thesis using get disj st by (simp add: rd)
qed

theorem chunked_write_read_back_witness:
  "region_get (store_chunks region_put small_region 3 [[1, 2], [], [3, 4, 5]]) 3 5 = [1, 2, 3, 4, 5]"
proof -
  have len: "length (concat [[1, 2], [], [3, 4, 5 :: u8]]) = 5" by simp
  have fit: "3 + length (concat [[1, 2], [], [3, 4, 5 :: u8]]) \<le> unat (sr_total_size small_region)"
    unfolding len by (simp add: small_region_wf)
  show ?thesis
    using chunked_write_read_back [OF small_region_wf(1) fit, THEN conjunct1] unfolding len by simp
qed

text \<open>
  C35. Reachable regions are well formed. Whatever sequence of reads, writes, cycle advances, mode
  changes, double-buffer operations and notifications a region goes through after
  initialization, both buffers have the region's size, the active index is 0 or 1, there is one
  meter per bank, and every bank's budget lies between 0 and \<open>words_per_cycle\<close>.
\<close>

theorem sram_reachable_well_formed:
  assumes "sram_reachable r"
  shows "length (sb_data (sr_banks r)) = unat (sr_total_size r)
    \<and> (\<forall>db. sr_db r = Some db \<longrightarrow> length (db_shadow_data db) = unat (sr_total_size r) \<and> db_active_idx db \<le> 1)
    \<and> (\<exists>banks. sb_bw_banks (sr_banks r) = Some banks \<and> length banks = unat (sb_bank_count (sr_banks r))
        \<and> (\<forall>bw \<in> set banks. 0 \<le> bw_words_available bw
             \<and> bw_words_available bw \<le> int (unat (sb_words_per_cycle (sr_banks r)))))"
  using sram_reachable_inv [OF assms] by (auto simp: sram_inv_def sram_wf_def bw_inv_def)

theorem sram_reachable_well_formed_witness:
  "length (sb_data (sr_banks (snd (tu_sram_swap_buffers (snd (tu_sram_enable_double_buffer True True small_region))))))
    = unat (sr_total_size (snd (tu_sram_swap_buffers (snd (tu_sram_enable_double_buffer True True small_region)))))"
proof -
  have "sram_reachable (snd (tu_sram_swap_buffers (snd (tu_sram_enable_double_buffer True True small_region))))"
    unfolding small_region_def by (intro reach_swap reach_enable reach_init)
  from sram_reachable_well_formed [OF this] show ?thesis by blast
qed

text \<open>
  Metering accounts for every word. On a region whose meters are active, a bulk access that
  is admitted serves or stalls exactly as many words as it counts into \<open>reads\<close> or \<open>writes\<close>, the
  returned stall is the penalty times the number of stalled words, and it is what \<open>stall_cycles\<close>
  grows by.
\<close>

theorem metering_accounts_for_words:
  assumes "meters_ok (sr_banks r)" "sram_bounds_check r addr bytes" "bytes \<noteq> 0"
    and "tu_sram_read_bulk r addr bytes = (stall, out, st, r')"
  defines "b \<equiv> sr_banks r" and "b' \<equiv> sr_banks r'"
  shows "served_words b' + stalled_words b' - (served_words b + stalled_words b) = sb_reads b' - sb_reads b
    \<and> sb_reads b' - sb_reads b = meter_words b addr bytes
    \<and> stall = ucast (sb_stall_penalty b) * (stalled_words b' - stalled_words b)
    \<and> sb_stall_cycles b' - sb_stall_cycles b = stall"
proof -
  obtain s w r1 where m: "sram_meter r addr bytes False = (s, w, r1)" by (rule prod_cases3)
  have w: "w = meter_words (sr_banks r) addr bytes"
    using m by (auto simp: sram_meter_def Let_def split: prod.splits)
  have reads: "sb_reads (sr_banks r1) = sb_reads (sr_banks r)"
    using arg_cong [OF sram_meter_frame(5) [OF m], of sb_reads] by (simp add: bank_frame_def)
  have r': "stall = s" "r' = count_reads w r1"
    using assms(2-4) by (simp_all add: tu_sram_read_bulk_def m)
  have "sb_reads b' = sb_reads b + w" "sb_stall_cycles b' = sb_stall_cycles (sr_banks r1)"
    "served_words b' = served_words (sr_banks r1)" "stalled_words b' = stalled_words (sr_banks r1)"
    using reads by (simp_all add: b_def b'_def r' count_reads_def served_words_def stalled_words_def)
  moreover have "served_words (sr_banks r1) + stalled_words (sr_banks r1) = served_words b + stalled_words b + w"
    "stall = ucast (sb_stall_penalty b) * (stalled_words (sr_banks r1) - stalled_words b)"
    "sb_stall_cycles (sr_banks r1) = sb_stall_cycles b + stall"
    using meter_account [OF assms(1) m] r'(1) by (simp_all only: b_def)
  ultimately show ?thesis using w by (simp add: b_def)
qed

theorem metering_accounts_for_words_witness:
  "\<exists>stall out st r'. tu_sram_read_bulk small_region 0 12 = (stall, out, st, r')
    \<and> sb_reads (sr_banks r') - sb_reads (sr_banks small_region) = 3"
proof -
  have ok: "meters_ok (sr_banks small_region)"
    using sram_inv_init [of 16 "''W''" 2 4 0 0 0]
    by (simp add: small_region_def meters_ok_def sram_inv_def tu_sram_init_runtime_def Let_def)
  have chk: "sram_bounds_check small_region 0 12" by (simp add: bounds_check_exact small_region_wf)
  obtain stall out st r' where rd: "tu_sram_read_bulk small_region 0 12 = (stall, out, st, r')"
    by (rule prod_cases4)
  have "meter_words (sr_banks small_region) 0 12 = 3"
    by (simp add: meter_words_def small_region_def tu_sram_init_runtime_def Let_def)
  then show ?thesis using metering_accounts_for_words [OF ok chk _ rd] rd by simp
qed

text \<open>
  The word count of a transfer. In address-span mode it is the number of bank words that the
  byte span touches; in size-only mode it is the size over the bank width, rounded up.
\<close>

lemma meter_words_counts:
  assumes "bytes \<noteq> 0" "sb_bank_width b \<noteq> 0"
  shows "unat (meter_words b addr bytes) =
    (case sb_word_metering b of
       TU_SRAM_METER_ADDRESS_SPAN \<Rightarrow>
         card ((\<lambda>x. x div unat (sb_bank_width b)) ` {unat addr..<unat addr + unat bytes})
     | TU_SRAM_METER_SIZE_ONLY \<Rightarrow>
         (unat bytes + unat (sb_bank_width b) - 1) div unat (sb_bank_width b))"
  using meter_words_exact [OF assms] .

text \<open>
  Double buffering exchanges two memories. After a swap the active buffer is the former
  shadow and the shadow the former active buffer, so a second swap restores both; a write between
  swaps leaves the shadow alone; disabling keeps the active contents.
\<close>

theorem double_buffer_exchanges:
  assumes "sram_wf r" "tu_sram_is_double_buffered r" "length data = unat bytes"
    and "tu_sram_write_bulk r addr data bytes = (stall, st, r')"
  shows "Some (sram_data (snd (tu_sram_swap_buffers r))) = sram_shadow r
    \<and> sram_shadow (snd (tu_sram_swap_buffers r)) = Some (sram_data r)
    \<and> sram_data (snd (tu_sram_swap_buffers (snd (tu_sram_swap_buffers r)))) = sram_data r
    \<and> sram_shadow r' = sram_shadow r
    \<and> sram_data (tu_sram_disable_double_buffer r) = sram_data r"
proof -
  obtain db where db: "sr_db r = Some db" "db_enabled db"
    using assms(2) by (auto simp: tu_sram_is_double_buffered_def split: option.splits)
  have wf: "length (sb_data (sr_banks r)) = unat (sr_total_size r)"
      "length (db_shadow_data db) = unat (sr_total_size r)" "db_active_idx db \<le> 1"
    using assms(1) by (simp_all add: sram_wf_def db)
  obtain s w r1 where m: "sram_meter r addr bytes True = (s, w, r1)" by (rule prod_cases3)
  have shadow: "sram_shadow (count_writes n (sram_set_data r1 bs)) = sram_shadow r" for n bs
  proof -
    have db1: "sr_db r1 = Some db" using sram_meter_frame(2) [OF m] db by simp
    have "sb_data (sr_banks r1) = sb_data (sr_banks r)"
      using arg_cong [OF sram_meter_frame(5) [OF m], of sb_data] by (simp add: bank_frame_sel)
    then show ?thesis
      using db db1 by (auto simp: sram_shadow_def count_writes_def sram_set_data_def)
  qed
  have "sram_shadow r' = sram_shadow r"
    using assms(4) shadow by (auto simp: tu_sram_write_bulk_def m Let_def split: if_splits prod.splits)
  moreover have "sram_data (tu_sram_disable_double_buffer r) = sram_data r"
    using db wf by (auto simp: tu_sram_disable_double_buffer_def sram_data_def put_bytes_def Let_def)
  ultimately show ?thesis
    using db by (auto simp: tu_sram_swap_buffers_def sram_data_def sram_shadow_def Let_def)
qed

theorem double_buffer_exchanges_witness:
  "sram_data (snd (tu_sram_swap_buffers (snd (tu_sram_swap_buffers
      (snd (tu_sram_enable_double_buffer True True small_region))))))
   = sram_data (snd (tu_sram_enable_double_buffer True True small_region))"
proof -
  let ?r = "snd (tu_sram_enable_double_buffer True True small_region)"
  have wf: "sram_wf ?r" "tu_sram_is_double_buffered ?r"
    using sram_inv_double_buffer(1) [OF sram_inv_init, where state_ok = True and shadow_ok = True, of 16 "''W''" 2 4 0 0 0]
    by (simp_all add: small_region_def sram_inv_def tu_sram_is_double_buffered_def
        tu_sram_enable_double_buffer_def tu_sram_init_runtime_def Let_def)
  obtain stall st r' where w: "tu_sram_write_bulk ?r 0 [] 0 = (stall, st, r')" by (rule prod_cases3)
  show ?thesis using double_buffer_exchanges [OF wf _ w] by simp
qed

end
