(* ===== verification/Dma_Desc.thy ===== *)
theory Dma_Desc
  imports Sram
begin

text \<open>
  DMA descriptors (\<open>dma_descriptor.h\<close>, \<open>dma_descriptor.c\<close>): their shapes and constructors, the
  checked SRAM geometry, and the copies that executing a descriptor makes.

  SRAM regions are a list and a region pointer is an index into it (\<open>None\<close> for \<open>NULL\<close>); host memory
  is a function from addresses to bytes and a host pointer its address (0 for \<open>NULL\<close>). A copy that
  would leave the bytes of a region is undefined behaviour in C: it is the value \<open>None\<close> here, so that
  staying inside is a theorem about the checks. The \<open>next\<close> pointer is not a field: a chain is a list
  of descriptors. The three static id counters are an argument of the constructors, and allocation
  succeeds.
\<close>

section \<open>Data\<close>

datatype dma_xfer = TU_DMA_XFER_LINEAR | TU_DMA_XFER_STRIDED_2D | TU_DMA_XFER_STRIDED_3D
  | TU_DMA_XFER_SCATTER | TU_DMA_XFER_GATHER | TU_DMA_XFER_MULTICAST

datatype dma_dir = TU_DMA_DIR_HOST_TO_TU | TU_DMA_DIR_TU_TO_HOST | TU_DMA_DIR_TU_TO_TU

record dma_desc =
  d_id :: u32
  d_type :: dma_xfer
  d_direction :: dma_dir
  d_channel :: u8
  d_src_region :: "nat option"
  d_src_base :: u32
  d_src_row_stride :: u32
  d_src_depth_stride :: u32
  d_src_host :: u64
  d_dst_region :: "nat option"
  d_dst_base :: u32
  d_dst_row_stride :: u32
  d_dst_depth_stride :: u32
  d_dst_host :: u64
  d_external_address :: u64
  d_external_valid :: bool
  d_dim0 :: u32
  d_dim1 :: u32
  d_dim2 :: u32
  d_elem_size :: u32
  d_total_bytes :: u32
  d_signal_id :: u32
  d_priority :: u8
  d_index_list :: "u32 list option"
  d_index_count :: u32
  d_index_elem_size :: u32
  d_mc_regions :: "nat option list option"
  d_mc_offsets :: "u32 list option"
  d_mc_count :: u32
  d_completed :: bool
  d_epoch_submitted :: u64
  d_epoch_eligible :: u64
  d_cycle_submitted :: u64
  d_cycle_eligible :: u64
  d_cycles_issued :: u64
  d_cycles_completed :: u64

text \<open>\<open>calloc\<close>: every field zero.\<close>

definition blank_desc :: dma_desc where
  "blank_desc = \<lparr>d_id = 0, d_type = TU_DMA_XFER_LINEAR, d_direction = TU_DMA_DIR_HOST_TO_TU,
     d_channel = 0, d_src_region = None, d_src_base = 0, d_src_row_stride = 0,
     d_src_depth_stride = 0, d_src_host = 0, d_dst_region = None, d_dst_base = 0,
     d_dst_row_stride = 0, d_dst_depth_stride = 0, d_dst_host = 0, d_external_address = 0,
     d_external_valid = False, d_dim0 = 0, d_dim1 = 0, d_dim2 = 0, d_elem_size = 0,
     d_total_bytes = 0, d_signal_id = 0, d_priority = 0, d_index_list = None, d_index_count = 0,
     d_index_elem_size = 0, d_mc_regions = None, d_mc_offsets = None, d_mc_count = 0,
     d_completed = False, d_epoch_submitted = 0, d_epoch_eligible = 0, d_cycle_submitted = 0,
     d_cycle_eligible = 0, d_cycles_issued = 0, d_cycles_completed = 0\<rparr>"

section \<open>Constructors\<close>

definition tu_dma_desc_create_linear ::
  "u32 \<Rightarrow> u8 \<Rightarrow> dma_dir \<Rightarrow> nat option \<Rightarrow> u32 \<Rightarrow> u64 \<Rightarrow> u32 \<Rightarrow> u32 \<Rightarrow> dma_desc" where
  "tu_dma_desc_create_linear did channel dir sram sram_offset host_ptr elem_size elem_count =
    (let desc = blank_desc\<lparr>d_id := did, d_type := TU_DMA_XFER_LINEAR, d_direction := dir,
           d_channel := channel, d_elem_size := elem_size, d_dim0 := elem_count, d_dim1 := 1,
           d_dim2 := 1, d_total_bytes := elem_size * elem_count\<rparr>
     in case dir of
          TU_DMA_DIR_HOST_TO_TU \<Rightarrow>
            desc\<lparr>d_src_host := host_ptr, d_dst_host := 0, d_dst_region := sram,
                 d_dst_base := sram_offset\<rparr>
        | TU_DMA_DIR_TU_TO_HOST \<Rightarrow>
            desc\<lparr>d_src_host := 0, d_dst_host := host_ptr, d_src_region := sram,
                 d_src_base := sram_offset\<rparr>
        | TU_DMA_DIR_TU_TO_TU \<Rightarrow> desc)"

definition tu_dma_desc_create_strided_2d ::
  "u32 \<Rightarrow> u8 \<Rightarrow> dma_dir \<Rightarrow> nat option \<Rightarrow> u32 \<Rightarrow> u64 \<Rightarrow> u32 \<Rightarrow> u32 \<Rightarrow> u32 \<Rightarrow> u32 \<Rightarrow> u32 \<Rightarrow> dma_desc" where
  "tu_dma_desc_create_strided_2d did channel dir sram sram_base host_ptr sram_row_stride
      host_row_stride elem_size rows cols =
    (let desc = blank_desc\<lparr>d_id := did, d_type := TU_DMA_XFER_STRIDED_2D, d_direction := dir,
           d_channel := channel, d_elem_size := elem_size, d_dim0 := rows, d_dim1 := cols,
           d_dim2 := 1, d_total_bytes := elem_size * rows * cols\<rparr>
     in case dir of
          TU_DMA_DIR_HOST_TO_TU \<Rightarrow>
            desc\<lparr>d_dst_region := sram, d_dst_base := sram_base, d_dst_row_stride := sram_row_stride,
                 d_dst_depth_stride := elem_size, d_src_host := host_ptr,
                 d_src_row_stride := host_row_stride, d_src_depth_stride := elem_size\<rparr>
        | TU_DMA_DIR_TU_TO_HOST \<Rightarrow>
            desc\<lparr>d_src_region := sram, d_src_base := sram_base, d_src_row_stride := sram_row_stride,
                 d_src_depth_stride := elem_size, d_dst_host := host_ptr,
                 d_dst_row_stride := host_row_stride, d_dst_depth_stride := elem_size\<rparr>
        | TU_DMA_DIR_TU_TO_TU \<Rightarrow> desc)"

definition tu_dma_desc_create_strided_3d ::
  "u32 \<Rightarrow> u8 \<Rightarrow> dma_dir \<Rightarrow> nat option \<Rightarrow> u32 \<Rightarrow> u64 \<Rightarrow> u32 \<Rightarrow> u32 \<Rightarrow> u32 \<Rightarrow> u32 \<Rightarrow> u32 \<Rightarrow> u32 \<Rightarrow> u32
    \<Rightarrow> u32 \<Rightarrow> dma_desc" where
  "tu_dma_desc_create_strided_3d did channel dir sram sram_base host_ptr sram_row_stride
      sram_depth_stride host_row_stride host_depth_stride elem_size depth rows cols =
    (let desc = blank_desc\<lparr>d_id := did, d_type := TU_DMA_XFER_STRIDED_3D, d_direction := dir,
           d_channel := channel, d_elem_size := elem_size, d_dim0 := depth, d_dim1 := rows,
           d_dim2 := cols, d_total_bytes := elem_size * depth * rows * cols\<rparr>
     in case dir of
          TU_DMA_DIR_HOST_TO_TU \<Rightarrow>
            desc\<lparr>d_dst_region := sram, d_dst_base := sram_base, d_dst_row_stride := sram_row_stride,
                 d_dst_depth_stride := sram_depth_stride, d_src_host := host_ptr,
                 d_src_row_stride := host_row_stride, d_src_depth_stride := host_depth_stride\<rparr>
        | TU_DMA_DIR_TU_TO_HOST \<Rightarrow>
            desc\<lparr>d_src_region := sram, d_src_base := sram_base, d_src_row_stride := sram_row_stride,
                 d_src_depth_stride := sram_depth_stride, d_dst_host := host_ptr,
                 d_dst_row_stride := host_row_stride, d_dst_depth_stride := host_depth_stride\<rparr>
        | TU_DMA_DIR_TU_TO_TU \<Rightarrow> desc)"

definition tu_dma_desc_create_scatter ::
  "u32 \<Rightarrow> u8 \<Rightarrow> nat option \<Rightarrow> u64 \<Rightarrow> u32 list option \<Rightarrow> u32 \<Rightarrow> u32 \<Rightarrow> dma_desc" where
  "tu_dma_desc_create_scatter did channel dst_region src_host index_list elem_count elem_size =
    blank_desc\<lparr>d_id := did, d_type := TU_DMA_XFER_SCATTER, d_direction := TU_DMA_DIR_HOST_TO_TU,
      d_channel := channel, d_dst_region := dst_region, d_src_host := src_host,
      d_index_list := index_list, d_index_count := elem_count, d_index_elem_size := elem_size,
      d_elem_size := elem_size, d_total_bytes := elem_count * elem_size\<rparr>"

definition tu_dma_desc_create_gather ::
  "u32 \<Rightarrow> u8 \<Rightarrow> nat option \<Rightarrow> u64 \<Rightarrow> u32 list option \<Rightarrow> u32 \<Rightarrow> u32 \<Rightarrow> dma_desc" where
  "tu_dma_desc_create_gather did channel src_region dst_host index_list elem_count elem_size =
    blank_desc\<lparr>d_id := did, d_type := TU_DMA_XFER_GATHER, d_direction := TU_DMA_DIR_TU_TO_HOST,
      d_channel := channel, d_src_region := src_region, d_dst_host := dst_host,
      d_index_list := index_list, d_index_count := elem_count, d_index_elem_size := elem_size,
      d_elem_size := elem_size, d_total_bytes := elem_count * elem_size\<rparr>"

definition tu_dma_desc_create_multicast ::
  "u32 \<Rightarrow> u8 \<Rightarrow> u64 \<Rightarrow> nat option list option \<Rightarrow> u32 list option \<Rightarrow> u32 \<Rightarrow> u32 \<Rightarrow> u32 \<Rightarrow> dma_desc option" where
  "tu_dma_desc_create_multicast did channel src_host dst_regions dst_offsets num_destinations
      elem_size elem_count =
    (case (dst_regions, dst_offsets) of
       (Some regions, Some offsets) \<Rightarrow>
         if num_destinations = 0 \<or> src_host = 0 then None
         else Some (blank_desc\<lparr>d_id := did, d_type := TU_DMA_XFER_MULTICAST,
                d_direction := TU_DMA_DIR_HOST_TO_TU, d_channel := channel, d_src_host := src_host,
                d_elem_size := elem_size, d_dim0 := elem_count, d_dim1 := num_destinations,
                d_dim2 := 1, d_total_bytes := elem_count * elem_size * num_destinations,
                d_mc_count := num_destinations,
                d_mc_regions := Some (take (unat num_destinations) regions),
                d_mc_offsets := Some (take (unat num_destinations) offsets)\<rparr>)
     | _ \<Rightarrow> None)"

text \<open>\<open>tu_dma_desc_chain\<close> walks to the end of the first chain and links the second behind it.\<close>

definition tu_dma_desc_chain :: "dma_desc list \<Rightarrow> dma_desc list \<Rightarrow> dma_desc list" where
  "tu_dma_desc_chain chain_head chain_tail = (if chain_head = [] then chain_tail else chain_head @ chain_tail)"

definition tu_dma_desc_set_external_address :: "dma_desc \<Rightarrow> u64 \<Rightarrow> bool \<times> dma_desc" where
  "tu_dma_desc_set_external_address desc address =
    (if d_direction desc = TU_DMA_DIR_TU_TO_TU then (False, desc)
     else (True, desc\<lparr>d_external_address := address, d_external_valid := True\<rparr>))"

section \<open>Checked geometry\<close>

definition u64_mul_checked :: "u64 \<Rightarrow> u64 \<Rightarrow> u64 option" where
  "u64_mul_checked a b = (if a \<noteq> 0 \<and> b > UINT64_MAX div a then None else Some (a * b))"

definition u64_add_checked :: "u64 \<Rightarrow> u64 \<Rightarrow> u64 option" where
  "u64_add_checked a b = (if b > UINT64_MAX - a then None else Some (a + b))"

definition sram_range_fits :: "tu_sram_region option \<Rightarrow> u64 \<Rightarrow> u64 \<Rightarrow> bool" where
  "sram_range_fits region offset bytes =
    (case region of
       None \<Rightarrow> True
     | Some r \<Rightarrow> offset \<le> ucast (sr_total_size r) \<and> bytes \<le> ucast (sr_total_size r) - offset)"

definition strided_2d_fits :: "tu_sram_region option \<Rightarrow> u64 \<Rightarrow> u64 \<Rightarrow> u64 \<Rightarrow> u64 \<Rightarrow> bool" where
  "strided_2d_fits region base row_stride rows row_bytes =
    (case region of
       None \<Rightarrow> True
     | Some r \<Rightarrow>
        if rows = 0 \<or> row_bytes = 0 then True
        else case u64_mul_checked (rows - 1) row_stride of None \<Rightarrow> False | Some last_row \<Rightarrow>
             case u64_add_checked base last_row of None \<Rightarrow> False | Some last_row \<Rightarrow>
             case u64_add_checked last_row row_bytes of None \<Rightarrow> False | Some last_end \<Rightarrow>
               last_end \<le> ucast (sr_total_size r))"

definition strided_3d_fits ::
  "tu_sram_region option \<Rightarrow> u64 \<Rightarrow> u64 \<Rightarrow> u64 \<Rightarrow> u64 \<Rightarrow> u64 \<Rightarrow> u64 \<Rightarrow> bool" where
  "strided_3d_fits region base row_stride depth_stride depth rows row_bytes =
    (case region of
       None \<Rightarrow> True
     | Some r \<Rightarrow>
        if depth = 0 \<or> rows = 0 \<or> row_bytes = 0 then True
        else case u64_mul_checked (depth - 1) depth_stride of None \<Rightarrow> False | Some depth_off \<Rightarrow>
             case u64_mul_checked (rows - 1) row_stride of None \<Rightarrow> False | Some row_off \<Rightarrow>
             case u64_add_checked base depth_off of None \<Rightarrow> False | Some last_start \<Rightarrow>
             case u64_add_checked last_start row_off of None \<Rightarrow> False | Some last_start \<Rightarrow>
             case u64_add_checked last_start row_bytes of None \<Rightarrow> False | Some last_end \<Rightarrow>
               last_end \<le> ucast (sr_total_size r))"

abbreviation region_at :: "tu_sram_region list \<Rightarrow> nat option \<Rightarrow> tu_sram_region option" where
  "region_at rs \<equiv> map_option ((!) rs)"

definition region_present :: "dma_desc \<Rightarrow> bool" where
  "region_present desc =
    (if d_type desc = TU_DMA_XFER_MULTICAST then d_direction desc = TU_DMA_DIR_HOST_TO_TU
     else case d_direction desc of
            TU_DMA_DIR_HOST_TO_TU \<Rightarrow> d_dst_region desc \<noteq> None
          | TU_DMA_DIR_TU_TO_HOST \<Rightarrow> d_src_region desc \<noteq> None
          | TU_DMA_DIR_TU_TO_TU \<Rightarrow> d_src_region desc \<noteq> None \<and> d_dst_region desc \<noteq> None)"

definition indexed_spans_valid :: "tu_sram_region list \<Rightarrow> nat option \<Rightarrow> dma_desc \<Rightarrow> bool" where
  "indexed_spans_valid rs region desc =
    (if region = None \<and> d_index_count desc \<noteq> 0 then False
     else if d_index_count desc \<noteq> 0 \<and> d_index_list desc = None then False
     else if d_index_elem_size desc \<noteq> d_elem_size desc then False
     else (case d_index_list desc of
             None \<Rightarrow> True
           | Some offs \<Rightarrow>
               list_all (\<lambda>off. sram_range_fits (region_at rs region) (ucast off) (ucast (d_elem_size desc)))
                 (take (unat (d_index_count desc)) offs)))"

definition multicast_spans_valid :: "tu_sram_region list \<Rightarrow> dma_desc \<Rightarrow> bool" where
  "multicast_spans_valid rs desc =
    (if d_mc_count desc \<noteq> 0 \<and> (d_mc_regions desc = None \<or> d_mc_offsets desc = None) then False
     else case u64_mul_checked (ucast (d_dim0 desc)) (ucast (d_elem_size desc)) of
            None \<Rightarrow> False
          | Some row_bytes \<Rightarrow>
              (case (d_mc_regions desc, d_mc_offsets desc) of
                 (Some regions, Some offsets) \<Rightarrow>
                   list_all (\<lambda>(region, off). region \<noteq> None \<and>
                       sram_range_fits (region_at rs region) (ucast off) row_bytes)
                     (take (unat (d_mc_count desc)) (zip regions offsets))
               | _ \<Rightarrow> True))"

definition descriptor_sram_spans_valid :: "tu_sram_region list \<Rightarrow> dma_desc \<Rightarrow> bool" where
  "descriptor_sram_spans_valid rs desc =
    (if \<not> region_present desc then False
     else case d_type desc of
       TU_DMA_XFER_STRIDED_2D \<Rightarrow>
         (case u64_mul_checked (ucast (d_elem_size desc)) (ucast (d_dim1 desc)) of
            None \<Rightarrow> False
          | Some row_bytes \<Rightarrow>
              strided_2d_fits (region_at rs (d_src_region desc)) (ucast (d_src_base desc))
                (ucast (d_src_row_stride desc)) (ucast (d_dim0 desc)) row_bytes \<and>
              strided_2d_fits (region_at rs (d_dst_region desc)) (ucast (d_dst_base desc))
                (ucast (d_dst_row_stride desc)) (ucast (d_dim0 desc)) row_bytes)
     | TU_DMA_XFER_STRIDED_3D \<Rightarrow>
         (case u64_mul_checked (ucast (d_elem_size desc)) (ucast (d_dim2 desc)) of
            None \<Rightarrow> False
          | Some row_bytes \<Rightarrow>
              strided_3d_fits (region_at rs (d_src_region desc)) (ucast (d_src_base desc))
                (ucast (d_src_row_stride desc)) (ucast (d_src_depth_stride desc))
                (ucast (d_dim0 desc)) (ucast (d_dim1 desc)) row_bytes \<and>
              strided_3d_fits (region_at rs (d_dst_region desc)) (ucast (d_dst_base desc))
                (ucast (d_dst_row_stride desc)) (ucast (d_dst_depth_stride desc))
                (ucast (d_dim0 desc)) (ucast (d_dim1 desc)) row_bytes)
     | TU_DMA_XFER_SCATTER \<Rightarrow> indexed_spans_valid rs (d_dst_region desc) desc
     | TU_DMA_XFER_GATHER \<Rightarrow> indexed_spans_valid rs (d_src_region desc) desc
     | TU_DMA_XFER_MULTICAST \<Rightarrow> multicast_spans_valid rs desc
     | TU_DMA_XFER_LINEAR \<Rightarrow>
         sram_range_fits (region_at rs (d_src_region desc)) (ucast (d_src_base desc))
           (ucast (d_total_bytes desc)) \<and>
         sram_range_fits (region_at rs (d_dst_region desc)) (ucast (d_dst_base desc))
           (ucast (d_total_bytes desc)))"

section \<open>Copies\<close>

datatype place = Host u64 | In_sram nat nat

record dma_mem =
  dm_regions :: "tu_sram_region list"
  dm_host :: "u64 \<Rightarrow> u8"

fun place_add :: "place \<Rightarrow> nat \<Rightarrow> place" where
  "place_add (Host a) n = Host (a + of_nat n)"
| "place_add (In_sram k off) n = In_sram k (off + n)"

fun place_ok :: "dma_mem \<Rightarrow> place \<Rightarrow> nat \<Rightarrow> bool" where
  "place_ok m (Host a) n = True"
| "place_ok m (In_sram k off) n =
    (k < length (dm_regions m) \<and> off + n \<le> length (sram_data (dm_regions m ! k)))"

fun read_place :: "dma_mem \<Rightarrow> place \<Rightarrow> nat \<Rightarrow> u8 list" where
  "read_place m (Host a) n = map (\<lambda>i. dm_host m (a + of_nat i)) [0..<n]"
| "read_place m (In_sram k off) n = bytes_at (sram_data (dm_regions m ! k)) off n"

definition host_store :: "(u64 \<Rightarrow> u8) \<Rightarrow> u64 \<Rightarrow> u8 list \<Rightarrow> u64 \<Rightarrow> u8" where
  "host_store h a bs = (\<lambda>x. if unat (x - a) < length bs then bs ! unat (x - a) else h x)"

fun write_place :: "dma_mem \<Rightarrow> place \<Rightarrow> u8 list \<Rightarrow> dma_mem" where
  "write_place m (Host a) bs = m\<lparr>dm_host := host_store (dm_host m) a bs\<rparr>"
| "write_place m (In_sram k off) bs =
    m\<lparr>dm_regions := (dm_regions m)[k := sram_set_data (dm_regions m ! k)
        (put_bytes (sram_data (dm_regions m ! k)) off bs)]\<rparr>"

text \<open>\<open>memcpy(dst, src, n)\<close>.\<close>

definition copy_bytes :: "place \<Rightarrow> place \<Rightarrow> nat \<Rightarrow> dma_mem \<Rightarrow> dma_mem option" where
  "copy_bytes dst src n m =
    (if n = 0 then Some m
     else if place_ok m src n \<and> place_ok m dst n then Some (write_place m dst (read_place m src n))
     else None)"

definition execute_linear :: "dma_desc \<Rightarrow> place \<Rightarrow> place \<Rightarrow> dma_mem \<Rightarrow> dma_mem option" where
  "execute_linear desc src dst m = copy_bytes dst src (unat (d_total_bytes desc)) m"

text \<open>The row loop: one copy, then both pointers advance by their strides.\<close>

fun copy_rows :: "nat \<Rightarrow> nat \<Rightarrow> nat \<Rightarrow> nat \<Rightarrow> place \<Rightarrow> place \<Rightarrow> dma_mem \<Rightarrow> dma_mem option" where
  "copy_rows 0 row_bytes sstride dstride src dst m = Some m"
| "copy_rows (Suc rows) row_bytes sstride dstride src dst m =
    (case copy_bytes dst src row_bytes m of
       None \<Rightarrow> None
     | Some m' \<Rightarrow>
         copy_rows rows row_bytes sstride dstride (place_add src sstride) (place_add dst dstride) m')"

definition execute_strided_2d :: "dma_desc \<Rightarrow> place \<Rightarrow> place \<Rightarrow> dma_mem \<Rightarrow> dma_mem option" where
  "execute_strided_2d desc src dst m =
    copy_rows (unat (d_dim0 desc)) (unat (d_dim1 desc * d_elem_size desc))
      (unat (d_src_row_stride desc)) (unat (d_dst_row_stride desc)) src dst m"

fun copy_slices ::
  "nat \<Rightarrow> nat \<Rightarrow> nat \<Rightarrow> nat \<times> nat \<Rightarrow> nat \<times> nat \<Rightarrow> place \<Rightarrow> place \<Rightarrow> dma_mem \<Rightarrow> dma_mem option" where
  "copy_slices 0 rows row_bytes rstrides dstrides src dst m = Some m"
| "copy_slices (Suc depth) rows row_bytes rstrides dstrides src dst m =
    (case copy_rows rows row_bytes (fst rstrides) (snd rstrides) src dst m of
       None \<Rightarrow> None
     | Some m' \<Rightarrow>
         copy_slices depth rows row_bytes rstrides dstrides
           (place_add src (fst dstrides)) (place_add dst (snd dstrides)) m')"

definition execute_strided_3d :: "dma_desc \<Rightarrow> place \<Rightarrow> place \<Rightarrow> dma_mem \<Rightarrow> dma_mem option" where
  "execute_strided_3d desc src dst m =
    copy_slices (unat (d_dim0 desc)) (unat (d_dim1 desc)) (unat (d_dim2 desc * d_elem_size desc))
      (unat (d_src_row_stride desc), unat (d_dst_row_stride desc))
      (unat (d_src_depth_stride desc), unat (d_dst_depth_stride desc)) src dst m"

text \<open>The indexed loops; \<open>i * elem_size\<close> is a 32-bit product.\<close>

definition indexed_offsets :: "dma_desc \<Rightarrow> (nat \<times> nat) list" where
  "indexed_offsets desc =
    map (\<lambda>i. (unat (of_nat i * d_elem_size desc :: u32), unat (the (d_index_list desc) ! i)))
      [0..<unat (d_index_count desc)]"

fun copy_each :: "(nat \<times> nat) list \<Rightarrow> nat \<Rightarrow> place \<Rightarrow> place \<Rightarrow> dma_mem \<Rightarrow> dma_mem option" where
  "copy_each [] n src dst m = Some m"
| "copy_each ((s, d) # os) n src dst m =
    (case copy_bytes (place_add dst d) (place_add src s) n m of
       None \<Rightarrow> None
     | Some m' \<Rightarrow> copy_each os n src dst m')"

definition execute_scatter :: "dma_desc \<Rightarrow> place \<Rightarrow> place \<Rightarrow> dma_mem \<Rightarrow> dma_mem option" where
  "execute_scatter desc src dst m =
    copy_each (indexed_offsets desc) (unat (d_elem_size desc)) src dst m"

definition execute_gather :: "dma_desc \<Rightarrow> place \<Rightarrow> place \<Rightarrow> dma_mem \<Rightarrow> dma_mem option" where
  "execute_gather desc src dst m =
    copy_each (map prod.swap (indexed_offsets desc)) (unat (d_elem_size desc)) src dst m"

text \<open>A multicast target that does not fit is skipped; its own check is in 32 bits.\<close>

fun copy_targets :: "(nat option \<times> u32) list \<Rightarrow> u32 \<Rightarrow> place \<Rightarrow> dma_mem \<Rightarrow> dma_mem option" where
  "copy_targets [] chunk src m = Some m"
| "copy_targets ((None, off) # ts) chunk src m = copy_targets ts chunk src m"
| "copy_targets ((Some k, off) # ts) chunk src m =
    (if off + chunk > sr_total_size (dm_regions m ! k) then copy_targets ts chunk src m
     else case copy_bytes (In_sram k (unat off)) src (unat chunk) m of
            None \<Rightarrow> None
          | Some m' \<Rightarrow> copy_targets ts chunk src m')"

definition execute_multicast :: "dma_desc \<Rightarrow> dma_mem \<Rightarrow> dma_mem option" where
  "execute_multicast desc m =
    copy_targets (take (unat (d_mc_count desc)) (zip (the (d_mc_regions desc)) (the (d_mc_offsets desc))))
      (d_dim0 desc * d_elem_size desc) (Host (d_src_host desc)) m"

text \<open>The pointers a transfer works on, \<open>None\<close> when one of them is \<open>NULL\<close>, and the SRAM region that
  is metered with the offset used for it: internal transfers are not metered.\<close>

definition host_place :: "u64 \<Rightarrow> place option" where
  "host_place a = (if a = 0 then None else Some (Host a))"

definition dma_pointers :: "dma_desc \<Rightarrow> (place \<times> place) option" where
  "dma_pointers desc =
    (let sram_src = (\<lambda>k. In_sram k (unat (d_src_base desc)));
         sram_dst = (\<lambda>k. In_sram k (unat (d_dst_base desc)));
         src = (case d_direction desc of
                  TU_DMA_DIR_HOST_TO_TU \<Rightarrow> host_place (d_src_host desc)
                | TU_DMA_DIR_TU_TO_HOST \<Rightarrow>
                    (case d_src_region desc of Some k \<Rightarrow> Some (sram_src k)
                     | None \<Rightarrow> host_place (d_src_host desc))
                | TU_DMA_DIR_TU_TO_TU \<Rightarrow> map_option sram_src (d_src_region desc));
         dst = (case d_direction desc of
                  TU_DMA_DIR_HOST_TO_TU \<Rightarrow>
                    (case d_dst_region desc of Some k \<Rightarrow> Some (sram_dst k)
                     | None \<Rightarrow> host_place (d_dst_host desc))
                | TU_DMA_DIR_TU_TO_HOST \<Rightarrow> host_place (d_dst_host desc)
                | TU_DMA_DIR_TU_TO_TU \<Rightarrow> map_option sram_dst (d_dst_region desc))
     in case (src, dst) of (Some s, Some d) \<Rightarrow> Some (s, d) | _ \<Rightarrow> None)"

datatype xfer_result = Xfer_null | Xfer_outside | Xfer_done dma_mem

definition xfer_of :: "dma_mem option \<Rightarrow> xfer_result" where
  "xfer_of r = (case r of None \<Rightarrow> Xfer_outside | Some m \<Rightarrow> Xfer_done m)"

definition dma_transfer :: "dma_desc \<Rightarrow> dma_mem \<Rightarrow> xfer_result" where
  "dma_transfer desc m =
    (if d_type desc = TU_DMA_XFER_MULTICAST then xfer_of (execute_multicast desc m)
     else case dma_pointers desc of
            None \<Rightarrow> Xfer_null
          | Some (src, dst) \<Rightarrow> xfer_of
              (case d_type desc of
                 TU_DMA_XFER_LINEAR \<Rightarrow> execute_linear desc src dst m
               | TU_DMA_XFER_STRIDED_2D \<Rightarrow> execute_strided_2d desc src dst m
               | TU_DMA_XFER_STRIDED_3D \<Rightarrow> execute_strided_3d desc src dst m
               | TU_DMA_XFER_SCATTER \<Rightarrow> execute_scatter desc src dst m
               | TU_DMA_XFER_GATHER \<Rightarrow> execute_gather desc src dst m
               | TU_DMA_XFER_MULTICAST \<Rightarrow> Some m))"

section \<open>Checked arithmetic and spans\<close>

lemma u64_mul_checked_exact: "u64_mul_checked a b = Some c \<Longrightarrow> unat c = unat a * unat b"
proof (cases "a = 0")
  case False
  assume c: "u64_mul_checked a b = Some c"
  then have "b \<le> UINT64_MAX div a" "c = a * b"
    using False by (auto simp: u64_mul_checked_def split: if_splits)
  then have "unat b \<le> 18446744073709551615 div unat a"
    by (simp add: word_le_nat_alt unat_div)
  then have "unat b * unat a \<le> 18446744073709551615"
    using False by (simp add: less_eq_div_iff_mult_less_eq unat_gt_0)
  then show ?thesis using \<open>c = a * b\<close> by (simp add: u64_mult_exact mult.commute)
qed (auto simp: u64_mul_checked_def)

lemma u64_add_checked_exact: "u64_add_checked a b = Some c \<Longrightarrow> unat c = unat a + unat b"
proof -
  assume c: "u64_add_checked a b = Some c"
  then have "b \<le> UINT64_MAX - a" and eq: "c = a + b"
    by (auto simp: u64_add_checked_def split: if_splits)
  moreover have "unat a \<le> 18446744073709551615" using unat_u64_less [of a] by linarith
  moreover from this have "unat (UINT64_MAX - a) = 18446744073709551615 - unat a"
    by (subst unat_sub_le) (simp_all add: word_le_nat_alt)
  ultimately have "unat b \<le> 18446744073709551615 - unat a" by (simp add: word_le_nat_alt)
  then show ?thesis using eq \<open>unat a \<le> 18446744073709551615\<close> by (simp add: u64_add_exact)
qed

lemma sram_range_fits_exact:
  "sram_range_fits (Some r) off n \<longleftrightarrow> unat off + unat n \<le> unat (sr_total_size r)"
proof (cases "off \<le> ucast (sr_total_size r)")
  case True
  then show ?thesis
    using unat_sub_le [OF True] by (auto simp: sram_range_fits_def word_le_nat_alt)
next
  case False
  then show ?thesis by (auto simp: sram_range_fits_def word_le_nat_alt)
qed

lemma strided_2d_fits_bound:
  assumes "strided_2d_fits (Some r) base stride rows n" "rows \<noteq> 0" "n \<noteq> 0"
  shows "unat base + (unat rows - 1) * unat stride + unat n \<le> unat (sr_total_size r)"
proof -
  obtain x y z where "u64_mul_checked (rows - 1) stride = Some x" "u64_add_checked base x = Some y"
    "u64_add_checked y n = Some z" "z \<le> ucast (sr_total_size r)"
    using assms by (auto simp: strided_2d_fits_def split: option.splits)
  moreover have "unat (rows - 1) = unat rows - 1"
    using assms(2) by (subst unat_sub_le) (simp_all add: word_le_nat_alt unat_gt_0 Suc_le_eq)
  ultimately show ?thesis
    using u64_mul_checked_exact [of "rows - 1" stride x] u64_add_checked_exact [of base x y]
      u64_add_checked_exact [of y n z]
    by (simp add: word_le_nat_alt)
qed

lemma strided_3d_fits_bound:
  assumes "strided_3d_fits (Some r) base rstride dstride depth rows n"
    "depth \<noteq> 0" "rows \<noteq> 0" "n \<noteq> 0"
  shows "unat base + (unat depth - 1) * unat dstride + (unat rows - 1) * unat rstride + unat n
    \<le> unat (sr_total_size r)"
proof -
  obtain v w x y z where "u64_mul_checked (depth - 1) dstride = Some v"
    "u64_mul_checked (rows - 1) rstride = Some w" "u64_add_checked base v = Some x"
    "u64_add_checked x w = Some y" "u64_add_checked y n = Some z" "z \<le> ucast (sr_total_size r)"
    using assms by (auto simp: strided_3d_fits_def split: option.splits)
  moreover have "unat (rows - 1) = unat rows - 1" "unat (depth - 1) = unat depth - 1"
    using assms(2,3) by (subst unat_sub_le; simp add: word_le_nat_alt unat_gt_0 Suc_le_eq)+
  ultimately show ?thesis
    using u64_mul_checked_exact [of "rows - 1" rstride w] u64_mul_checked_exact [of "depth - 1" dstride v]
      u64_add_checked_exact [of base v x] u64_add_checked_exact [of x w y] u64_add_checked_exact [of y n z]
    by (simp add: word_le_nat_alt)
qed

section \<open>Copies inside the regions\<close>

definition dma_wf :: "dma_mem \<Rightarrow> bool" where
  "dma_wf m \<longleftrightarrow> list_all sram_wf (dm_regions m)"

definition layout :: "dma_mem \<Rightarrow> u32 list" where
  "layout m = map sr_total_size (dm_regions m)"

fun place_in :: "u32 list \<Rightarrow> place \<Rightarrow> nat \<Rightarrow> bool" where
  "place_in L (Host a) n = True"
| "place_in L (In_sram k off) n = (k < length L \<and> off + n \<le> unat (L ! k))"

lemma place_ok_in: "dma_wf m \<Longrightarrow> place_ok m p n = place_in (layout m) p n"
  by (cases p) (auto simp: layout_def dma_wf_def list_all_length sram_wf_data)

text \<open>An action that always succeeds on memories with region sizes \<open>L\<close> and keeps the sizes.\<close>

definition runs_safely :: "u32 list \<Rightarrow> (dma_mem \<Rightarrow> dma_mem option) \<Rightarrow> bool" where
  "runs_safely L f \<longleftrightarrow> (\<forall>m. dma_wf m \<longrightarrow> layout m = L \<longrightarrow> (\<exists>m'. f m = Some m' \<and> dma_wf m' \<and> layout m' = L))"

lemma runs_skip [simp]: "runs_safely L Some"
  by (simp add: runs_safely_def)

lemma runs_seq:
  "runs_safely L f \<Longrightarrow> runs_safely L g \<Longrightarrow> runs_safely L (\<lambda>m. case f m of None \<Rightarrow> None | Some m' \<Rightarrow> g m')"
  unfolding runs_safely_def by (fastforce split: option.split)

lemma write_place_keeps:
  assumes "dma_wf m" "place_in (layout m) p (length bs)"
  shows "dma_wf (write_place m p bs) \<and> layout (write_place m p bs) = layout m"
proof (cases p)
  case (In_sram k off)
  then have k: "k < length (dm_regions m)" and fit: "off + length bs \<le> length (sram_data (dm_regions m ! k))"
    using assms by (auto simp: layout_def dma_wf_def list_all_length sram_wf_data)
  have wf: "sram_wf (dm_regions m ! k)" using assms(1) k by (simp add: dma_wf_def list_all_length)
  have "sram_wf (sram_set_data (dm_regions m ! k) (put_bytes (sram_data (dm_regions m ! k)) off bs))"
    using wf fit by (intro sram_wf_set) (simp_all add: length_put_bytes sram_wf_data)
  then show ?thesis
    using assms(1) k In_sram
    by (auto simp: dma_wf_def list_all_length nth_list_update layout_def sram_data_set
        intro!: nth_equalityI)
qed (use assms in \<open>simp add: dma_wf_def layout_def\<close>)

lemma length_read_place: "place_ok m p n \<Longrightarrow> length (read_place m p n) = n"
  by (cases p) (auto simp: bytes_at_def)

lemma copy_bytes_runs:
  assumes "n = 0 \<or> (place_in L src n \<and> place_in L dst n)"
  shows "runs_safely L (copy_bytes dst src n)"
  unfolding runs_safely_def
proof (intro allI impI)
  fix m assume m: "dma_wf m" "layout m = L"
  show "\<exists>m'. copy_bytes dst src n m = Some m' \<and> dma_wf m' \<and> layout m' = L"
  proof (cases "n = 0")
    case False
    then have p: "place_ok m src n" "place_ok m dst n"
      using assms m by (auto simp: place_ok_in)
    then have "length (read_place m src n) = n" by (simp add: length_read_place)
    then have "dma_wf (write_place m dst (read_place m src n))
        \<and> layout (write_place m dst (read_place m src n)) = layout m"
      using m p by (intro write_place_keeps) (simp_all add: place_ok_in length_read_place)
    then show ?thesis using p m False by (auto simp: copy_bytes_def)
  qed (use m in \<open>simp add: copy_bytes_def\<close>)
qed

lemma place_add_add: "place_add (place_add p a) b = place_add p (a + b)"
  by (cases p) (simp_all add: add.assoc)

lemma place_add_0 [simp]: "place_add p 0 = p"
  by (cases p) simp_all

lemma copy_rows_runs:
  assumes "\<And>r. r < rows \<Longrightarrow> n = 0 \<or>
      (place_in L (place_add src (r * ss)) n \<and> place_in L (place_add dst (r * ds)) n)"
  shows "runs_safely L (copy_rows rows n ss ds src dst)"
  using assms
proof (induction rows arbitrary: src dst)
  case (Suc rows)
  have "runs_safely L (copy_bytes dst src n)" using Suc.prems [of 0] by (intro copy_bytes_runs) simp
  moreover have "runs_safely L (copy_rows rows n ss ds (place_add src ss) (place_add dst ds))"
    using Suc.prems [of "Suc r" for r] by (intro Suc.IH) (simp add: place_add_add)
  ultimately show ?case
    using runs_seq by (simp add: runs_safely_def)
qed (simp add: runs_safely_def)

lemma copy_slices_runs:
  assumes "\<And>d r. d < depth \<Longrightarrow> r < rows \<Longrightarrow> n = 0 \<or>
      (place_in L (place_add src (d * fst dss + r * fst rss)) n
       \<and> place_in L (place_add dst (d * snd dss + r * snd rss)) n)"
  shows "runs_safely L (copy_slices depth rows n rss dss src dst)"
  using assms
proof (induction depth arbitrary: src dst)
  case (Suc depth)
  have "runs_safely L (copy_rows rows n (fst rss) (snd rss) src dst)"
    using Suc.prems [of 0] by (intro copy_rows_runs) simp
  moreover have "runs_safely L (copy_slices depth rows n rss dss (place_add src (fst dss)) (place_add dst (snd dss)))"
    using Suc.prems [of "Suc d" for d] by (intro Suc.IH) (simp add: place_add_add add.assoc)
  ultimately show ?case using runs_seq by (simp add: runs_safely_def)
qed (simp add: runs_safely_def)

lemma copy_each_runs:
  assumes "\<And>s d. (s, d) \<in> set xs \<Longrightarrow> n = 0 \<or>
      (place_in L (place_add src s) n \<and> place_in L (place_add dst d) n)"
  shows "runs_safely L (copy_each xs n src dst)"
  using assms
proof (induction xs)
  case (Cons x xs)
  obtain s d where x: "x = (s, d)" by (cases x)
  have "runs_safely L (copy_bytes (place_add dst d) (place_add src s) n)"
    using Cons.prems [of s d] by (intro copy_bytes_runs) (auto simp: x)
  moreover have "runs_safely L (copy_each xs n src dst)" using Cons by auto
  ultimately show ?case using runs_seq by (simp add: runs_safely_def x)
qed (simp add: runs_safely_def)

section \<open>Accepted descriptors\<close>

text \<open>What the code takes for granted about a descriptor: its region pointers are valid, and its index
  array has as many entries as its count says.\<close>

definition desc_wf :: "nat \<Rightarrow> dma_desc \<Rightarrow> bool" where
  "desc_wf nregions desc \<longleftrightarrow>
     (\<forall>k. d_src_region desc = Some k \<longrightarrow> k < nregions) \<and>
     (\<forall>k. d_dst_region desc = Some k \<longrightarrow> k < nregions) \<and>
     (\<forall>offs. d_index_list desc = Some offs \<longrightarrow> unat (d_index_count desc) \<le> length offs) \<and>
     (\<forall>regs k. d_mc_regions desc = Some regs \<longrightarrow> Some k \<in> set regs \<longrightarrow> k < nregions)"

text \<open>What the span check of a scatter or gather passes over, as it tests the indices alone: the base
  offset that the transfer adds to every index, and the direction, which decides which side is in SRAM.
  The constructors set no base offset and the direction of the type.\<close>

definition indexed_from_start :: "dma_desc \<Rightarrow> bool" where
  "indexed_from_start desc \<longleftrightarrow>
     (d_type desc = TU_DMA_XFER_SCATTER \<longrightarrow>
        d_direction desc = TU_DMA_DIR_HOST_TO_TU \<and> d_dst_base desc = 0) \<and>
     (d_type desc = TU_DMA_XFER_GATHER \<longrightarrow>
        d_direction desc = TU_DMA_DIR_TU_TO_HOST \<and> d_src_base desc = 0)"

lemma constructed_from_start [simp]:
  "indexed_from_start (tu_dma_desc_create_scatter did ch dregion host ixs n esize)"
  "indexed_from_start (tu_dma_desc_create_gather did ch sregion host ixs n esize)"
  by (simp_all add: indexed_from_start_def tu_dma_desc_create_scatter_def tu_dma_desc_create_gather_def
      blank_desc_def)

lemma row_in_span:
  assumes "base + (rows - 1) * stride + n \<le> sz" "r < rows"
  shows "base + r * stride + n \<le> (sz :: nat)"
proof -
  have "r * stride \<le> (rows - 1) * stride" using assms(2) by (intro mult_le_mono1) simp
  then show ?thesis using assms(1) by linarith
qed

text \<open>The SRAM side of a transfer stays in its region: a place on either side is on the host, or in
  a region whose span was checked.\<close>

definition region_place :: "nat option \<Rightarrow> u32 \<Rightarrow> place \<Rightarrow> bool" where
  "region_place region base p \<longleftrightarrow> (\<exists>a. p = Host a) \<or> (\<exists>k. region = Some k \<and> p = In_sram k (unat base))"

lemma dma_pointers_places:
  assumes "dma_pointers desc = Some (src, dst)"
  shows "region_place (d_src_region desc) (d_src_base desc) src"
    "region_place (d_dst_region desc) (d_dst_base desc) dst"
  using assms
  by (auto simp: dma_pointers_def region_place_def host_place_def Let_def
      split: dma_dir.splits option.splits if_splits)

lemma place_in_2d:
  fixes base stride rows :: u32
  assumes fit: "strided_2d_fits (region_at rs region) (ucast base) (ucast stride) (ucast rows) n"
    and p: "region_place region base p" and reg: "\<forall>k. region = Some k \<longrightarrow> k < length rs"
    and r: "r < unat rows" and b: "b \<le> unat n" "b \<noteq> 0"
  shows "place_in (map sr_total_size rs) (place_add p (r * unat stride)) b"
proof (cases p)
  case (In_sram k off)
  then have k: "region = Some k" "off = unat base" using p by (auto simp: region_place_def)
  have "(ucast rows :: u64) \<noteq> 0" using r by (auto simp: unat_zero_iff)
  moreover have "n \<noteq> 0" using b by auto
  ultimately have "unat base + (unat rows - 1) * unat stride + unat n \<le> unat (sr_total_size (rs ! k))"
    using strided_2d_fits_bound [of "rs ! k" "ucast base" "ucast stride" "ucast rows" n] fit k by simp
  then have "unat base + r * unat stride + unat n \<le> unat (sr_total_size (rs ! k))"
    using r by (rule row_in_span)
  then show ?thesis using In_sram k reg b by simp
qed simp

lemma place_in_3d:
  fixes base rstride dstride depth rows :: u32
  assumes fit: "strided_3d_fits (region_at rs region) (ucast base) (ucast rstride) (ucast dstride)
      (ucast depth) (ucast rows) n"
    and p: "region_place region base p" and reg: "\<forall>k. region = Some k \<longrightarrow> k < length rs"
    and r: "r < unat rows" and d: "d < unat depth" and b: "b \<le> unat n" "b \<noteq> 0"
  shows "place_in (map sr_total_size rs) (place_add p (d * unat dstride + r * unat rstride)) b"
proof (cases p)
  case (In_sram k off)
  then have k: "region = Some k" "off = unat base" using p by (auto simp: region_place_def)
  have "(ucast rows :: u64) \<noteq> 0" "(ucast depth :: u64) \<noteq> 0" using r d by (auto simp: unat_zero_iff)
  moreover have "n \<noteq> 0" using b by auto
  ultimately have "unat base + (unat depth - 1) * unat dstride + (unat rows - 1) * unat rstride + unat n
      \<le> unat (sr_total_size (rs ! k))"
    using strided_3d_fits_bound [of "rs ! k" "ucast base" "ucast rstride" "ucast dstride" "ucast depth"
        "ucast rows" n] fit k by simp
  moreover have "d * unat dstride \<le> (unat depth - 1) * unat dstride"
    "r * unat rstride \<le> (unat rows - 1) * unat rstride"
    using r d by (intro mult_le_mono1; linarith)+
  ultimately have "unat base + (d * unat dstride + r * unat rstride) + b \<le> unat (sr_total_size (rs ! k))"
    using b by linarith
  then show ?thesis using In_sram k reg by simp
qed simp

lemma place_in_linear:
  fixes base n :: u32
  assumes "sram_range_fits (region_at rs region) (ucast base) (ucast n)" "region_place region base p"
    "\<forall>k. region = Some k \<longrightarrow> k < length rs"
  shows "place_in (map sr_total_size rs) p (unat n)"
  using assms by (cases p) (auto simp: region_place_def sram_range_fits_exact)

lemma place_in_indexed:
  assumes "indexed_spans_valid rs region desc" "region_place region 0 p" "region \<noteq> None"
    "\<forall>k. region = Some k \<longrightarrow> k < length rs"
    "\<forall>offs. d_index_list desc = Some offs \<longrightarrow> unat (d_index_count desc) \<le> length offs"
    "i < unat (d_index_count desc)"
  shows "place_in (map sr_total_size rs) (place_add p (unat (the (d_index_list desc) ! i)))
    (unat (d_elem_size desc))"
proof -
  have "d_index_count desc \<noteq> 0" using assms(6) by auto
  then obtain offs where offs: "d_index_list desc = Some offs" "unat (d_index_count desc) \<le> length offs"
    "list_all (\<lambda>off. sram_range_fits (region_at rs region) (ucast off) (ucast (d_elem_size desc)))
       (take (unat (d_index_count desc)) offs)"
    using assms(1,5) by (auto simp: indexed_spans_valid_def split: if_splits)
  then have "sram_range_fits (region_at rs region) (ucast (offs ! i)) (ucast (d_elem_size desc))"
    using assms(6) by (auto simp: list_all_length)
  then show ?thesis
    using assms(2-4) offs(1) by (cases p) (auto simp: region_place_def sram_range_fits_exact)
qed

lemma execute_2d_runs:
  assumes "descriptor_sram_spans_valid rs desc" "desc_wf (length rs) desc"
    "d_type desc = TU_DMA_XFER_STRIDED_2D" "dma_pointers desc = Some (src, dst)"
  shows "runs_safely (map sr_total_size rs) (execute_strided_2d desc src dst)"
proof -
  let ?b = "unat (d_dim1 desc * d_elem_size desc)"
  obtain n where n: "u64_mul_checked (ucast (d_elem_size desc)) (ucast (d_dim1 desc)) = Some n"
    "strided_2d_fits (region_at rs (d_src_region desc)) (ucast (d_src_base desc))
       (ucast (d_src_row_stride desc)) (ucast (d_dim0 desc)) n"
    "strided_2d_fits (region_at rs (d_dst_region desc)) (ucast (d_dst_base desc))
       (ucast (d_dst_row_stride desc)) (ucast (d_dim0 desc)) n"
    using assms(1,3) by (auto simp: descriptor_sram_spans_valid_def split: if_splits option.splits)
  have b: "?b \<le> unat n"
    using u64_mul_checked_exact [OF n(1)] unat_mult_le [of "d_dim1 desc" "d_elem_size desc"]
    by (simp add: mult.commute)
  note pl = dma_pointers_places [OF assms(4)]
  show ?thesis unfolding execute_strided_2d_def
    using place_in_2d [OF n(2) pl(1) _ _ b] place_in_2d [OF n(3) pl(2) _ _ b] assms(2)
    by (intro copy_rows_runs) (auto simp: desc_wf_def)
qed

lemma execute_3d_runs:
  assumes "descriptor_sram_spans_valid rs desc" "desc_wf (length rs) desc"
    "d_type desc = TU_DMA_XFER_STRIDED_3D" "dma_pointers desc = Some (src, dst)"
  shows "runs_safely (map sr_total_size rs) (execute_strided_3d desc src dst)"
proof -
  let ?b = "unat (d_dim2 desc * d_elem_size desc)"
  obtain n where n: "u64_mul_checked (ucast (d_elem_size desc)) (ucast (d_dim2 desc)) = Some n"
    "strided_3d_fits (region_at rs (d_src_region desc)) (ucast (d_src_base desc))
       (ucast (d_src_row_stride desc)) (ucast (d_src_depth_stride desc)) (ucast (d_dim0 desc))
       (ucast (d_dim1 desc)) n"
    "strided_3d_fits (region_at rs (d_dst_region desc)) (ucast (d_dst_base desc))
       (ucast (d_dst_row_stride desc)) (ucast (d_dst_depth_stride desc)) (ucast (d_dim0 desc))
       (ucast (d_dim1 desc)) n"
    using assms(1,3) by (auto simp: descriptor_sram_spans_valid_def split: if_splits option.splits)
  have b: "?b \<le> unat n"
    using u64_mul_checked_exact [OF n(1)] unat_mult_le [of "d_dim2 desc" "d_elem_size desc"]
    by (simp add: mult.commute)
  note pl = dma_pointers_places [OF assms(4)]
  show ?thesis unfolding execute_strided_3d_def
    using place_in_3d [OF n(2) pl(1) _ _ _ b] place_in_3d [OF n(3) pl(2) _ _ _ b] assms(2)
    by (intro copy_slices_runs) (auto simp: desc_wf_def)
qed

lemma execute_indexed_runs:
  assumes "descriptor_sram_spans_valid rs desc" "desc_wf (length rs) desc"
    "dma_pointers desc = Some (src, dst)" "indexed_from_start desc"
  shows "d_type desc = TU_DMA_XFER_SCATTER \<Longrightarrow> runs_safely (map sr_total_size rs) (execute_scatter desc src dst)"
    and "d_type desc = TU_DMA_XFER_GATHER \<Longrightarrow> runs_safely (map sr_total_size rs) (execute_gather desc src dst)"
proof -
  note pl = dma_pointers_places [OF assms(3)]
  {
    assume ty: "d_type desc = TU_DMA_XFER_SCATTER"
    then have d: "indexed_spans_valid rs (d_dst_region desc) desc" "d_dst_region desc \<noteq> None"
      "d_direction desc = TU_DMA_DIR_HOST_TO_TU" "d_dst_base desc = 0"
      using assms(1,4) by (auto simp: descriptor_sram_spans_valid_def region_present_def indexed_from_start_def split: if_splits)
    have "\<exists>a. src = Host a"
      using assms(3) d(3) by (auto simp: dma_pointers_def host_place_def Let_def split: option.splits if_splits)
    then show "runs_safely (map sr_total_size rs) (execute_scatter desc src dst)"
      using place_in_indexed [OF d(1) _ d(2)] pl(2) d(4) assms(2)
      unfolding execute_scatter_def
      by (intro copy_each_runs) (auto simp: indexed_offsets_def desc_wf_def)
  next
    assume ty: "d_type desc = TU_DMA_XFER_GATHER"
    then have d: "indexed_spans_valid rs (d_src_region desc) desc" "d_src_region desc \<noteq> None"
      "d_direction desc = TU_DMA_DIR_TU_TO_HOST" "d_src_base desc = 0"
      using assms(1,4) by (auto simp: descriptor_sram_spans_valid_def region_present_def indexed_from_start_def split: if_splits)
    have "\<exists>a. dst = Host a"
      using assms(3) d(3) by (auto simp: dma_pointers_def host_place_def Let_def split: option.splits if_splits)
    then show "runs_safely (map sr_total_size rs) (execute_gather desc src dst)"
      using place_in_indexed [OF d(1) _ d(2)] pl(1) d(4) assms(2)
      unfolding execute_gather_def
      by (intro copy_each_runs) (auto simp: indexed_offsets_def desc_wf_def)
  }
qed

lemma copy_targets_runs:
  assumes "\<And>k off. (Some k, off) \<in> set ts \<Longrightarrow> k < length L \<and> unat off + unat chunk \<le> unat (L ! k)"
  shows "runs_safely L (copy_targets ts chunk (Host a))"
  using assms
proof (induction ts)
  case (Cons t ts)
  have IH: "runs_safely L (copy_targets ts chunk (Host a))" using Cons by auto
  obtain reg off where t: "t = (reg, off)" by (cases t)
  show ?case
  proof (cases reg)
    case (Some k)
    then have "runs_safely L (copy_bytes (In_sram k (unat off)) (Host a) (unat chunk))"
      using Cons.prems [of k off] by (intro copy_bytes_runs) (simp add: t)
    from runs_seq [OF this IH] IH show ?thesis by (simp add: runs_safely_def t Some)
  qed (use IH in \<open>simp add: runs_safely_def t\<close>)
qed (simp add: runs_safely_def)

lemma execute_multicast_runs:
  assumes "descriptor_sram_spans_valid rs desc" "desc_wf (length rs) desc"
    "d_type desc = TU_DMA_XFER_MULTICAST"
  shows "runs_safely (map sr_total_size rs) (execute_multicast desc)"
proof (cases "d_mc_count desc = 0")
  case False
  obtain n where v: "multicast_spans_valid rs desc"
    and n: "u64_mul_checked (ucast (d_dim0 desc)) (ucast (d_elem_size desc)) = Some n"
    using assms(1,3)
    by (auto simp: descriptor_sram_spans_valid_def multicast_spans_valid_def split: if_splits option.splits)
  then obtain regs offs where t: "d_mc_regions desc = Some regs" "d_mc_offsets desc = Some offs"
    "list_all (\<lambda>(region, off). region \<noteq> None \<and> sram_range_fits (region_at rs region) (ucast off) n)
       (take (unat (d_mc_count desc)) (zip regs offs))"
    using False by (auto simp: multicast_spans_valid_def split: if_splits)
  have b: "unat (d_dim0 desc * d_elem_size desc) \<le> unat n"
    using u64_mul_checked_exact [OF n] unat_mult_le [of "d_dim0 desc" "d_elem_size desc"] by simp
  have "k < length rs \<and> unat off + unat (d_dim0 desc * d_elem_size desc) \<le> unat (sr_total_size (rs ! k))"
    if k: "(Some k, off) \<in> set (take (unat (d_mc_count desc)) (zip regs offs))" for k off
  proof
    have "Some k \<in> set regs" using k by (meson in_set_takeD set_zip_leftD)
    then show "k < length rs" using assms(2) t(1) by (auto simp: desc_wf_def)
    have "sram_range_fits (Some (rs ! k)) (ucast off) n" using t(3) k by (auto simp: list_all_iff)
    then show "unat off + unat (d_dim0 desc * d_elem_size desc) \<le> unat (sr_total_size (rs ! k))"
      using b by (simp add: sram_range_fits_exact)
  qed
  then show ?thesis unfolding execute_multicast_def
    using t(1,2) by (intro copy_targets_runs) auto
qed (simp add: execute_multicast_def runs_safely_def)

lemma dma_transfer_runs:
  assumes "dma_wf m" "desc_wf (length (dm_regions m)) desc"
    "descriptor_sram_spans_valid (dm_regions m) desc" "indexed_from_start desc"
  shows "dma_transfer desc m = Xfer_null \<or>
    (\<exists>m'. dma_transfer desc m = Xfer_done m' \<and> dma_wf m' \<and> layout m' = layout m)"
proof -
  let ?L = "map sr_total_size (dm_regions m)"
  have fin: "\<exists>m'. xfer_of (f m) = Xfer_done m' \<and> dma_wf m' \<and> layout m' = layout m"
    if "runs_safely ?L f" for f
    using that assms(1) by (force simp: runs_safely_def layout_def xfer_of_def)
  show ?thesis
  proof (cases "d_type desc = TU_DMA_XFER_MULTICAST")
    case True
    then show ?thesis
      using fin [OF execute_multicast_runs [OF assms(3,2) True]] by (simp add: dma_transfer_def)
  next
    case False
    show ?thesis
    proof (cases "dma_pointers desc")
      case (Some sd)
      obtain src dst where sd: "dma_pointers desc = Some (src, dst)" using Some by (cases sd) auto
      note pl = dma_pointers_places [OF sd]
      note wf = assms(2) [unfolded desc_wf_def]
      have lin: "runs_safely ?L (execute_linear desc src dst)" if "d_type desc = TU_DMA_XFER_LINEAR"
        using place_in_linear [OF _ pl(1)] place_in_linear [OF _ pl(2)] wf assms(3) that
        unfolding execute_linear_def
        by (intro copy_bytes_runs) (auto simp: descriptor_sram_spans_valid_def split: if_splits)
      show ?thesis
        using False sd fin [OF lin] fin [OF execute_2d_runs [OF assms(3,2) _ sd]]
          fin [OF execute_3d_runs [OF assms(3,2) _ sd]]
          fin [OF execute_indexed_runs(1) [OF assms(3,2) sd assms(4)]]
          fin [OF execute_indexed_runs(2) [OF assms(3,2) sd assms(4)]]
        by (cases "d_type desc") (simp_all add: dma_transfer_def)
    qed (use False in \<open>simp add: dma_transfer_def\<close>)
  qed
qed

section \<open>What a strided load stores\<close>

text \<open>The bytes of region \<open>k\<close>.\<close>

abbreviation bytes_of :: "dma_mem \<Rightarrow> nat \<Rightarrow> u8 list" where
  "bytes_of m k \<equiv> sram_data (dm_regions m ! k)"

definition same_but :: "nat \<Rightarrow> dma_mem \<Rightarrow> dma_mem \<Rightarrow> bool" where
  "same_but k m m' \<longleftrightarrow> dm_host m' = dm_host m \<and> length (dm_regions m') = length (dm_regions m) \<and>
     (\<forall>j. j \<noteq> k \<longrightarrow> dm_regions m' ! j = dm_regions m ! j) \<and>
     length (bytes_of m' k) = length (bytes_of m k)"

lemma copy_into_region:
  assumes "k < length (dm_regions m)" "off + n \<le> length (bytes_of m k)" "n \<noteq> 0"
  shows "\<exists>m'. copy_bytes (In_sram k off) (Host a) n m = Some m' \<and> same_but k m m' \<and>
    bytes_of m' k = put_bytes (bytes_of m k) off (read_place m (Host a) n)"
  using assms by (simp add: copy_bytes_def same_but_def sram_data_set length_put_bytes)

lemma copy_rows_load:
  assumes "k < length (dm_regions m)" "n \<noteq> 0" "n \<le> ds"
    "0 < rows \<longrightarrow> off + (rows - 1) * ds + n \<le> length (bytes_of m k)"
  shows "\<exists>m'. copy_rows rows n ss ds (Host a) (In_sram k off) m = Some m' \<and> same_but k m m' \<and>
    (\<forall>r<rows. bytes_at (bytes_of m' k) (off + r * ds) n = read_place m (Host (a + of_nat (r * ss))) n) \<and>
    (\<forall>p c. p + c \<le> length (bytes_of m k) \<longrightarrow> (\<forall>r<rows. p + c \<le> off + r * ds \<or> off + r * ds + n \<le> p)
        \<longrightarrow> bytes_at (bytes_of m' k) p c = bytes_at (bytes_of m k) p c)"
  using assms
proof (induction rows arbitrary: off a m)
  case (Suc rows)
  let ?bs = "read_place m (Host a) n"
  have fit: "off + rows * ds + n \<le> length (bytes_of m k)" using Suc.prems(4) by simp
  obtain m1 where m1: "copy_bytes (In_sram k off) (Host a) n m = Some m1" "same_but k m m1"
    "bytes_of m1 k = put_bytes (bytes_of m k) off ?bs"
    using copy_into_region [of k m off n a] Suc.prems(1,2) fit by auto
  have len: "length (bytes_of m1 k) = length (bytes_of m k)" "length (dm_regions m1) = length (dm_regions m)"
    "dm_host m1 = dm_host m" using m1(2) by (simp_all add: same_but_def)
  have "0 < rows \<longrightarrow> off + ds + (rows - 1) * ds + n \<le> length (bytes_of m1 k)"
    using fit len by (cases rows) (simp_all add: algebra_simps)
  from Suc.IH [OF _ Suc.prems(2,3) this, of "a + of_nat ss"] obtain m' where
    m': "copy_rows rows n ss ds (Host (a + of_nat ss)) (In_sram k (off + ds)) m1 = Some m'" "same_but k m1 m'"
    and rows: "\<And>r. r < rows \<Longrightarrow> bytes_at (bytes_of m' k) (off + ds + r * ds) n
        = read_place m1 (Host (a + of_nat ss + of_nat (r * ss))) n"
    and keep: "\<And>p c. p + c \<le> length (bytes_of m1 k) \<Longrightarrow>
        \<forall>r<rows. p + c \<le> off + ds + r * ds \<or> off + ds + r * ds + n \<le> p \<Longrightarrow>
        bytes_at (bytes_of m' k) p c = bytes_at (bytes_of m1 k) p c"
    using Suc.prems(1) len by auto
  have first: "bytes_at (bytes_of m' k) off n = ?bs"
  proof -
    have "bytes_at (bytes_of m' k) off n = bytes_at (bytes_of m1 k) off n"
      using keep [of off n] fit len Suc.prems(3) by auto
    also have "\<dots> = ?bs"
      using bytes_put_same [of off ?bs "bytes_of m k"] fit by (simp add: m1(3))
    finally show ?thesis .
  qed
  have row: "bytes_at (bytes_of m' k) (off + r * ds) n = read_place m (Host (a + of_nat (r * ss))) n"
    if r: "r < Suc rows" for r
  proof (cases r)
    case (Suc i)
    then have "bytes_at (bytes_of m' k) (off + ds + i * ds) n
        = read_place m1 (Host (a + of_nat ss + of_nat (i * ss))) n" using rows r by simp
    then show ?thesis using Suc len by (simp add: add.assoc)
  qed (use first in simp)
  have other: "bytes_at (bytes_of m' k) p c = bytes_at (bytes_of m k) p c"
    if pc: "p + c \<le> length (bytes_of m k)" "\<forall>r<Suc rows. p + c \<le> off + r * ds \<or> off + r * ds + n \<le> p" for p c
  proof -
    have "p + c \<le> off + ds + r * ds \<or> off + ds + r * ds + n \<le> p" if "r < rows" for r
      using pc(2) [rule_format, of "Suc r"] that by (simp add: add.assoc)
    then have "bytes_at (bytes_of m' k) p c = bytes_at (bytes_of m1 k) p c"
      using keep [of p c] pc(1) len by simp
    also have "\<dots> = bytes_at (bytes_of m k) p c"
      using pc(2) [rule_format, of 0] pc(1) fit by (auto simp: m1(3) intro!: bytes_put_disjoint)
    finally show ?thesis .
  qed
  have "same_but k m m'" using m1(2) m'(2) by (simp add: same_but_def)
  then show ?case using m1(1) m'(1) row other by auto
qed (simp add: same_but_def)

section \<open>Properties\<close>

text \<open>
  C36. An accepted transfer stays inside the SRAM. When the span check accepts a descriptor whose
  pointers are valid, the copies of its execution never touch a byte outside a region, whatever the
  strides and 32-bit wrap-around, for every type and direction of the linear, strided and multicast
  transfers: the transfer is refused for a null pointer or completes, every region keeping its size.
  A scatter or gather needs more than the check gives: the check tests its indices without the base
  offset that the transfer adds to them, so the theorem asks for the base offset 0 and the direction
  that the constructors set. The witness has an accepted scatter with a base offset of 2 that writes
  outside its region.
\<close>

theorem accepted_transfer_stays_inside:
  assumes "list_all sram_wf (dm_regions m)" "desc_wf (length (dm_regions m)) desc"
    "descriptor_sram_spans_valid (dm_regions m) desc" "indexed_from_start desc"
  shows "(dma_transfer desc m = Xfer_null \<and> dma_pointers desc = None \<or>
      (\<exists>m'. dma_transfer desc m = Xfer_done m' \<and> list_all sram_wf (dm_regions m') \<and>
         map sr_total_size (dm_regions m') = map sr_total_size (dm_regions m)))
    \<and> dma_transfer desc m \<noteq> Xfer_outside"
proof -
  have "dma_transfer desc m = Xfer_null \<Longrightarrow> dma_pointers desc = None"
    by (auto simp: dma_transfer_def xfer_of_def split: if_splits option.splits)
  then show ?thesis
    using dma_transfer_runs [of m desc] assms by (auto simp: dma_wf_def layout_def)
qed

definition dma_sample :: dma_mem where
  "dma_sample = \<lparr>dm_regions = [tu_sram_init 16 ''O'', tu_sram_init 8 ''W''],
     dm_host = (\<lambda>x. ucast x)\<rparr>"

definition tile_load :: dma_desc where
  "tile_load = tu_dma_desc_create_strided_2d 1 0 TU_DMA_DIR_HOST_TO_TU (Some 0) 2 100 6 3 1 3 2"

lemma dma_sample_wf: "list_all sram_wf (dm_regions dma_sample)" "length (dm_regions dma_sample) = 2"
  by (code_simp, simp add: dma_sample_def)

lemma tile_load_accepted:
  "descriptor_sram_spans_valid (dm_regions dma_sample) tile_load"
  "desc_wf (length (dm_regions dma_sample)) tile_load"
  "indexed_from_start tile_load"
  by (code_simp, simp_all add: desc_wf_def indexed_from_start_def tile_load_def
      tu_dma_desc_create_strided_2d_def Let_def blank_desc_def dma_sample_wf(2))

text \<open>One element of 4 bytes for index 4 of the 8-byte region, as constructed and with a base offset.\<close>

definition last_word :: dma_desc where
  "last_word = tu_dma_desc_create_scatter 1 0 (Some 1) 100 (Some [4]) 1 4"

lemma last_word_accepted:
  "descriptor_sram_spans_valid (dm_regions dma_sample) last_word"
  "desc_wf (length (dm_regions dma_sample)) last_word"
  by (code_simp, simp add: desc_wf_def last_word_def tu_dma_desc_create_scatter_def blank_desc_def
      dma_sample_wf(2))

lemma shifted_scatter_escapes:
  "descriptor_sram_spans_valid (dm_regions dma_sample) (last_word\<lparr>d_dst_base := 2\<rparr>)"
  "desc_wf (length (dm_regions dma_sample)) (last_word\<lparr>d_dst_base := 2\<rparr>)"
  "dma_transfer (last_word\<lparr>d_dst_base := 2\<rparr>) dma_sample = Xfer_outside"
  by (code_simp, simp add: desc_wf_def last_word_def tu_dma_desc_create_scatter_def blank_desc_def
      dma_sample_wf(2), code_simp)

theorem accepted_transfer_stays_inside_witness:
  "dma_transfer tile_load dma_sample \<noteq> Xfer_outside \<and> dma_transfer last_word dma_sample \<noteq> Xfer_outside \<and>
   descriptor_sram_spans_valid (dm_regions dma_sample) (last_word\<lparr>d_dst_base := 2\<rparr>) \<and>
   dma_transfer (last_word\<lparr>d_dst_base := 2\<rparr>) dma_sample = Xfer_outside"
  using accepted_transfer_stays_inside [OF dma_sample_wf(1) tile_load_accepted(2,1,3)]
    accepted_transfer_stays_inside [OF dma_sample_wf(1) last_word_accepted(2,1)] shifted_scatter_escapes
  by (simp add: last_word_def)

text \<open>
  A strided load puts every row where it belongs. An accepted two-dimensional load from the
  host with rows that do not overlap in SRAM completes; row \<open>r\<close> of the tile, as it was in host memory
  at \<open>r\<close> host strides, is then at \<open>r\<close> SRAM strides behind the base offset, every byte range that meets
  no row is unchanged, and so are the other regions and the host.
\<close>

theorem strided_load_places_rows:
  assumes "desc = tu_dma_desc_create_strided_2d did ch TU_DMA_DIR_HOST_TO_TU (Some k) base host
      sstride hstride esize rows cols"
    and "list_all sram_wf (dm_regions m)" "k < length (dm_regions m)" "host \<noteq> 0"
    "descriptor_sram_spans_valid (dm_regions m) desc"
    "rows \<noteq> 0" "cols \<noteq> 0" "esize \<noteq> 0" "unat cols * unat esize \<le> unat sstride"
  shows "\<exists>m'. dma_transfer desc m = Xfer_done m' \<and> dm_host m' = dm_host m \<and>
    (\<forall>j. j \<noteq> k \<longrightarrow> dm_regions m' ! j = dm_regions m ! j) \<and>
    (\<forall>r<unat rows. bytes_at (sram_data (dm_regions m' ! k)) (unat base + r * unat sstride)
          (unat cols * unat esize)
        = map (\<lambda>i. dm_host m (host + of_nat (r * unat hstride) + of_nat i)) [0..<unat cols * unat esize]) \<and>
    (\<forall>p c. p + c \<le> unat (sr_total_size (dm_regions m ! k)) \<longrightarrow>
        (\<forall>r<unat rows. p + c \<le> unat base + r * unat sstride \<or>
           unat base + r * unat sstride + unat cols * unat esize \<le> p) \<longrightarrow>
        bytes_at (sram_data (dm_regions m' ! k)) p c = bytes_at (sram_data (dm_regions m ! k)) p c)"
proof -
  let ?n = "unat cols * unat esize" and ?r = "dm_regions m ! k"
  note d = assms(1) [unfolded tu_dma_desc_create_strided_2d_def Let_def blank_desc_def]
  obtain n where n: "u64_mul_checked (ucast esize) (ucast cols) = Some n"
    "strided_2d_fits (Some ?r) (ucast base) (ucast sstride) (ucast rows) n"
    using assms(5) by (auto simp: d descriptor_sram_spans_valid_def split: if_splits option.splits)
  have ne: "unat n = ?n" using u64_mul_checked_exact [OF n(1)] by (simp add: mult.commute)
  have pos: "?n \<noteq> 0" using assms(7,8) by (simp add: unat_eq_0)
  then have nz: "n \<noteq> 0" using ne by (auto simp: unat_eq_0)
  have rz: "(ucast rows :: u64) \<noteq> 0" using assms(6) by (metis unat_ucast_32_64 unat_eq_0)
  have "unat base + (unat rows - 1) * unat sstride + ?n \<le> unat (sr_total_size ?r)"
    using strided_2d_fits_bound [OF n(2) rz nz] ne by simp
  moreover have len: "length (sram_data ?r) = unat (sr_total_size ?r)"
    using assms(2,3) by (simp add: list_all_length sram_wf_data)
  moreover have "?n < 4294967296"
    using calculation(1) unat_u32_less [of "sr_total_size ?r"] by linarith
  then have b: "unat (cols * esize) = ?n" by (rule u32_mult_exact)
  ultimately have "0 < unat rows \<longrightarrow> unat base + (unat rows - 1) * unat sstride + ?n \<le> length (sram_data ?r)"
    by simp
  note load = copy_rows_load [OF assms(3) pos assms(9) this, of "unat hstride" host]
  have "dma_transfer desc m
      = xfer_of (copy_rows (unat rows) ?n (unat hstride) (unat sstride) (Host host) (In_sram k (unat base)) m)"
    using assms(4) b
    by (simp add: d dma_transfer_def dma_pointers_def host_place_def execute_strided_2d_def)
  then show ?thesis using load len by (auto simp: xfer_of_def same_but_def)
qed

theorem strided_load_places_rows_witness:
  "\<exists>m'. dma_transfer tile_load dma_sample = Xfer_done m' \<and>
     bytes_at (sram_data (dm_regions m' ! 0)) 8 2 = [103, 104]"
proof -
  have r: "dm_regions dma_sample ! 0 = tu_sram_init 16 ''O''" by (simp add: dma_sample_def)
  have "\<exists>m'. dma_transfer tile_load dma_sample = Xfer_done m' \<and>
      (\<forall>r<unat (3::u32). bytes_at (sram_data (dm_regions m' ! 0)) (unat (2::u32) + r * unat (6::u32))
          (unat (2::u32) * unat (1::u32))
        = map (\<lambda>i. dm_host dma_sample (100 + of_nat (r * unat (3::u32)) + of_nat i)) [0..<unat (2::u32) * unat (1::u32)])"
    using strided_load_places_rows [OF tile_load_def dma_sample_wf(1) _ _ tile_load_accepted(1)] dma_sample_wf(2)
    by force
  then obtain m' where m': "dma_transfer tile_load dma_sample = Xfer_done m'"
    "\<forall>r<3. bytes_at (sram_data (dm_regions m' ! 0)) (2 + r * 6) 2
        = map (\<lambda>i. dm_host dma_sample (100 + of_nat (r * 3) + of_nat i)) [0..<2]"
    by auto
  have "bytes_at (sram_data (dm_regions m' ! 0)) 8 2 = map (\<lambda>i. dm_host dma_sample (103 + of_nat i)) [0..<2]"
    using m'(2) [rule_format, of 1] by simp
  then show ?thesis using m'(1) by (simp add: dma_sample_def upt_rec)
qed

end
