(* ===== verification/Dma_Config.thy ===== *)
theory Dma_Config
  imports Dma_Desc
begin

text \<open>
  The DMA engine's state and its configuration (\<open>dma_descriptor.h\<close>, \<open>dma_descriptor.c\<close>): the engine
  record, initialisation with all its validations, the family of initialisers with defaulted
  parameters, and the setters.

  A channel's linked list is the list of the descriptors reachable from \<open>head\<close>; \<open>ch_tail\<close> is the
  position in it of the descriptor \<open>tail\<close> points to, \<open>None\<close> when \<open>tail\<close> is \<open>NULL\<close> or points to a
  descriptor that is no longer in the list. Enumeration parameters are the \<open>int\<close>s of the C
  interface. The long parameter list of the initialisers is a record.
\<close>

section \<open>Data\<close>

datatype bus_mode = TU_DMA_BUS_MODE_INDEPENDENT | TU_DMA_BUS_MODE_SHARED_SERIAL

datatype arb_policy = TU_DMA_ARB_ROUND_ROBIN | TU_DMA_ARB_STRICT_PRIORITY
  | TU_DMA_ARB_AGING_PRIORITY | TU_DMA_ARB_DEFICIT_ROUND_ROBIN

datatype aging_scope = TU_DMA_AGING_FROM_SUBMISSION | TU_DMA_AGING_FROM_QUEUE_HEAD

datatype aging_metric = TU_DMA_AGING_BY_MISSED_GRANTS | TU_DMA_AGING_BY_WAIT_CYCLES

datatype drr_cost_mode = TU_DMA_DRR_CHARGE_USEFUL_BYTES | TU_DMA_DRR_CHARGE_OCCUPIED_BYTES
  | TU_DMA_DRR_CHARGE_SERVICE_CYCLES

datatype drr_service_mode = TU_DMA_DRR_SERVICE_INTERLEAVED | TU_DMA_DRR_SERVICE_WORK_CONSERVING

datatype drr_idle_policy = TU_DMA_DRR_IDLE_RESET | TU_DMA_DRR_IDLE_RETAIN_RESIDUAL

datatype drr_cost_granularity = TU_DMA_DRR_COST_EXACT | TU_DMA_DRR_COST_QUANTUM_ROUNDED

datatype drr_round_cost_mode = TU_DMA_DRR_ROUND_COST_FIXED | TU_DMA_DRR_ROUND_COST_PER_CHANNEL
  | TU_DMA_DRR_ROUND_COST_PER_VISITED_CHANNEL

datatype binding_policy = TU_DMA_BIND_EXPLICIT | TU_DMA_BIND_ROUND_ROBIN
  | TU_DMA_BIND_LEAST_OUTSTANDING | TU_DMA_BIND_LEAST_BYTES | TU_DMA_BIND_LEAST_PROJECTED_CYCLES

datatype burst_segmentation = TU_DMA_SEGMENT_AGGREGATE | TU_DMA_SEGMENT_LOGICAL

datatype base_latency_scope = TU_DMA_BASE_PER_DESCRIPTOR | TU_DMA_BASE_PER_LOGICAL_SEGMENT

datatype payload_scope = TU_DMA_PAYLOAD_PACKED_DESCRIPTOR | TU_DMA_PAYLOAD_ALIGN_LOGICAL_SEGMENT
  | TU_DMA_PAYLOAD_ALIGN_BURST_COMMAND

datatype issue_payload_mode = TU_DMA_ISSUE_PAYLOAD_SERIALIZED | TU_DMA_ISSUE_PAYLOAD_OVERLAPPED

datatype boundary_mode = TU_DMA_BOUNDARY_SIZE_ONLY | TU_DMA_BOUNDARY_SRAM_ADDRESS
  | TU_DMA_BOUNDARY_SRAM_4K | TU_DMA_BOUNDARY_EXTERNAL_4K | TU_DMA_BOUNDARY_BOTH_4K
  | TU_DMA_BOUNDARY_EXTERNAL_ADDRESS | TU_DMA_BOUNDARY_BOTH_ADDRESS

definition enum_at :: "'a list \<Rightarrow> int \<Rightarrow> 'a option" where
  "enum_at vals i = (if 0 \<le> i \<and> nat i < length vals then Some (vals ! nat i) else None)"

definition TU_DMA_CHANNELS :: u32 where "TU_DMA_CHANNELS = 3"
definition TU_DMA_ENGINE_MAX_CHANNELS :: u32 where "TU_DMA_ENGINE_MAX_CHANNELS = 8"
definition TU_DMA_BUS_WIDTH_BITS :: u32 where "TU_DMA_BUS_WIDTH_BITS = 256"
definition TU_DMA_MAX_BURST_BYTES :: u32 where "TU_DMA_MAX_BURST_BYTES = 64"
definition TU_DMA_BURST_ISSUE_CYCLES :: u32 where "TU_DMA_BURST_ISSUE_CYCLES = 0"
definition TU_DMA_MAX_OUTSTANDING :: u32 where "TU_DMA_MAX_OUTSTANDING = 4"
definition TU_LATENCY_DRAM_READ :: u32 where "TU_LATENCY_DRAM_READ = 50"
definition TU_LATENCY_DRAM_WRITE :: u32 where "TU_LATENCY_DRAM_WRITE = 50"

record dma_channel =
  ch_id :: u8
  ch_queue :: "dma_desc list"
  ch_tail :: "nat option"
  ch_active :: "dma_desc option"
  ch_depth :: u32
  ch_max_depth :: u32
  ch_submitted :: u64
  ch_completed :: u64
  ch_bytes :: u64
  ch_occupied_bytes :: u64
  ch_cycles :: u64
  ch_credits :: u64

record dma_engine =
  e_channels :: "dma_channel list"
  e_num_channels :: u32
  e_bus_mode :: bus_mode
  e_arb_policy :: arb_policy
  e_aging_scope :: aging_scope
  e_aging_metric :: aging_metric
  e_aging_increment :: u32
  e_aging_max_boost :: u32
  e_aging_cycle_quantum :: u32
  e_drr_quantum_bytes :: u32
  e_drr_quantum_cycles :: u32
  e_drr_cost_mode :: drr_cost_mode
  e_drr_service_mode :: drr_service_mode
  e_drr_idle_policy :: drr_idle_policy
  e_drr_cost_granularity :: drr_cost_granularity
  e_drr_round_issue_cycles :: u32
  e_drr_round_cost_mode :: drr_round_cost_mode
  e_drr_select_issue_cycles :: u32
  e_drr_scan_width :: u32
  e_drr_round_scan_width :: u32
  e_drr_select_scan_width :: u32
  e_drr_weights :: "u8 list"
  e_drr_continue :: bool
  e_drr_continue_channel :: u32
  e_next_shared :: u32
  e_epoch :: u64
  e_binding_policy :: binding_policy
  e_next_binding :: u32
  e_bus_width_bytes :: u32
  e_max_burst_bytes :: u32
  e_read_max_burst :: u32
  e_write_max_burst :: u32
  e_burst_issue :: u32
  e_read_burst_issue :: u32
  e_write_burst_issue :: u32
  e_segmentation :: burst_segmentation
  e_base_scope :: base_latency_scope
  e_payload_scope :: payload_scope
  e_issue_mode :: issue_payload_mode
  e_boundary_mode :: boundary_mode
  e_read_latency :: u32
  e_write_latency :: u32
  e_async :: bool
  e_cycle :: u64
  e_bytes :: u64
  e_occupied_bytes :: u64
  e_transfers :: u64
  e_estimated_cycles :: u64

text \<open>\<open>memset(&g_tu_dma, 0, sizeof g_tu_dma)\<close>.\<close>

definition zero_channel :: dma_channel where
  "zero_channel = \<lparr>ch_id = 0, ch_queue = [], ch_tail = None, ch_active = None, ch_depth = 0,
     ch_max_depth = 0, ch_submitted = 0, ch_completed = 0, ch_bytes = 0, ch_occupied_bytes = 0,
     ch_cycles = 0, ch_credits = 0\<rparr>"

definition zero_engine :: dma_engine where
  "zero_engine = \<lparr>e_channels = replicate (unat TU_DMA_ENGINE_MAX_CHANNELS) zero_channel,
     e_num_channels = 0, e_bus_mode = TU_DMA_BUS_MODE_INDEPENDENT,
     e_arb_policy = TU_DMA_ARB_ROUND_ROBIN, e_aging_scope = TU_DMA_AGING_FROM_SUBMISSION,
     e_aging_metric = TU_DMA_AGING_BY_MISSED_GRANTS, e_aging_increment = 0, e_aging_max_boost = 0,
     e_aging_cycle_quantum = 0, e_drr_quantum_bytes = 0, e_drr_quantum_cycles = 0,
     e_drr_cost_mode = TU_DMA_DRR_CHARGE_USEFUL_BYTES,
     e_drr_service_mode = TU_DMA_DRR_SERVICE_INTERLEAVED, e_drr_idle_policy = TU_DMA_DRR_IDLE_RESET,
     e_drr_cost_granularity = TU_DMA_DRR_COST_EXACT, e_drr_round_issue_cycles = 0,
     e_drr_round_cost_mode = TU_DMA_DRR_ROUND_COST_FIXED, e_drr_select_issue_cycles = 0,
     e_drr_scan_width = 0, e_drr_round_scan_width = 0, e_drr_select_scan_width = 0,
     e_drr_weights = replicate (unat TU_DMA_ENGINE_MAX_CHANNELS) 0, e_drr_continue = False,
     e_drr_continue_channel = 0, e_next_shared = 0, e_epoch = 0,
     e_binding_policy = TU_DMA_BIND_EXPLICIT, e_next_binding = 0, e_bus_width_bytes = 0,
     e_max_burst_bytes = 0, e_read_max_burst = 0, e_write_max_burst = 0, e_burst_issue = 0,
     e_read_burst_issue = 0, e_write_burst_issue = 0, e_segmentation = TU_DMA_SEGMENT_AGGREGATE,
     e_base_scope = TU_DMA_BASE_PER_DESCRIPTOR, e_payload_scope = TU_DMA_PAYLOAD_PACKED_DESCRIPTOR,
     e_issue_mode = TU_DMA_ISSUE_PAYLOAD_SERIALIZED, e_boundary_mode = TU_DMA_BOUNDARY_SIZE_ONLY,
     e_read_latency = 0, e_write_latency = 0, e_async = False, e_cycle = 0, e_bytes = 0,
     e_occupied_bytes = 0, e_transfers = 0, e_estimated_cycles = 0\<rparr>"

section \<open>Initialisation\<close>

record dma_params =
  p_async :: bool
  p_num_channels :: u32
  p_max_queue_depth :: u32
  p_bus_mode :: int
  p_arb_policy :: int
  p_aging_scope :: int
  p_aging_metric :: int
  p_aging_increment :: u32
  p_aging_max_boost :: u32
  p_aging_cycle_quantum :: u32
  p_drr_quantum_bytes :: u32
  p_drr_cost_mode :: int
  p_drr_quantum_cycles :: u32
  p_binding_policy :: int
  p_bus_width_bits :: u32
  p_read_latency :: u32
  p_write_latency :: u32
  p_max_burst :: u32
  p_read_max_burst :: u32
  p_write_max_burst :: u32
  p_burst_issue :: u32
  p_read_burst_issue :: u32
  p_write_burst_issue :: u32
  p_read_issue_configured :: bool
  p_write_issue_configured :: bool
  p_segmentation :: int
  p_base_scope :: int
  p_payload_scope :: int
  p_issue_mode :: int
  p_boundary_mode :: int

text \<open>Parameters that select every default.\<close>

definition plain_params :: dma_params where
  "plain_params = \<lparr>p_async = True, p_num_channels = 0, p_max_queue_depth = 0, p_bus_mode = 0,
     p_arb_policy = 0, p_aging_scope = 0, p_aging_metric = 0, p_aging_increment = 0,
     p_aging_max_boost = 0, p_aging_cycle_quantum = 0, p_drr_quantum_bytes = 0, p_drr_cost_mode = 0,
     p_drr_quantum_cycles = 0, p_binding_policy = 0, p_bus_width_bits = 0, p_read_latency = 0,
     p_write_latency = 0, p_max_burst = 0, p_read_max_burst = 0, p_write_max_burst = 0,
     p_burst_issue = 0, p_read_burst_issue = 0, p_write_burst_issue = 0,
     p_read_issue_configured = False, p_write_issue_configured = False, p_segmentation = 0,
     p_base_scope = 0, p_payload_scope = 0, p_issue_mode = 0, p_boundary_mode = 0\<rparr>"

text \<open>A stage either stops with the engine as the early \<open>return\<close> leaves it (\<open>Inl\<close>) or goes on
  (\<open>Inr\<close>). Some rejections clear the whole engine first, some do not.\<close>

definition pow2_in :: "u32 \<Rightarrow> u32 \<Rightarrow> u32 \<Rightarrow> bool" where
  "pow2_in lo hi x = (\<not> (x < lo \<or> x > hi \<or> x AND (x - 1) \<noteq> 0))"

definition init_arbitration :: "dma_params \<Rightarrow> dma_engine + dma_engine" where
  "init_arbitration p =
    (let g = zero_engine\<lparr>e_async := p_async p, e_drr_scan_width := 1\<rparr>
     in case enum_at [TU_DMA_BUS_MODE_INDEPENDENT, TU_DMA_BUS_MODE_SHARED_SERIAL] (p_bus_mode p) of
          None \<Rightarrow> Inl g
        | Some bm \<Rightarrow>
     let g = g\<lparr>e_bus_mode := bm\<rparr>
     in case enum_at [TU_DMA_ARB_ROUND_ROBIN, TU_DMA_ARB_STRICT_PRIORITY, TU_DMA_ARB_AGING_PRIORITY,
          TU_DMA_ARB_DEFICIT_ROUND_ROBIN] (p_arb_policy p) of
          None \<Rightarrow> Inl g
        | Some ap \<Rightarrow>
     let g = g\<lparr>e_arb_policy := ap\<rparr>
     in case enum_at [TU_DMA_AGING_FROM_SUBMISSION, TU_DMA_AGING_FROM_QUEUE_HEAD] (p_aging_scope p) of
          None \<Rightarrow> Inl zero_engine
        | Some sc \<Rightarrow>
     let g = g\<lparr>e_aging_scope := sc\<rparr>
     in case enum_at [TU_DMA_AGING_BY_MISSED_GRANTS, TU_DMA_AGING_BY_WAIT_CYCLES] (p_aging_metric p) of
          None \<Rightarrow> Inl zero_engine
        | Some me \<Rightarrow> Inr (g\<lparr>e_aging_metric := me\<rparr>))"

definition init_quanta :: "dma_params \<Rightarrow> dma_engine \<Rightarrow> dma_engine + dma_engine" where
  "init_quanta p g =
    (let inc = (if p_aging_increment p = 0 then 1 else p_aging_increment p);
         boost = p_aging_max_boost p;
         cq = (if p_aging_cycle_quantum p = 0 then 1 else p_aging_cycle_quantum p);
         qb = (if p_drr_quantum_bytes p = 0 then 256 else p_drr_quantum_bytes p);
         qc = (if p_drr_quantum_cycles p = 0 then 64 else p_drr_quantum_cycles p)
     in if inc > 255 \<or> boost > 255 \<or> cq > 1048576 \<or> \<not> pow2_in 16 65536 qb then Inl zero_engine
        else case enum_at [TU_DMA_DRR_CHARGE_USEFUL_BYTES, TU_DMA_DRR_CHARGE_OCCUPIED_BYTES,
               TU_DMA_DRR_CHARGE_SERVICE_CYCLES] (p_drr_cost_mode p) of
               None \<Rightarrow> Inl zero_engine
             | Some cm \<Rightarrow>
                 if qc > 1048576 then Inl zero_engine
                 else Inr (g\<lparr>e_aging_increment := inc, e_aging_max_boost := boost,
                        e_aging_cycle_quantum := cq, e_drr_quantum_bytes := qb,
                        e_drr_cost_mode := cm, e_drr_quantum_cycles := qc\<rparr>))"

definition init_modes :: "dma_params \<Rightarrow> dma_engine \<Rightarrow> dma_engine + dma_engine" where
  "init_modes p g =
    (case enum_at [TU_DMA_BIND_EXPLICIT, TU_DMA_BIND_ROUND_ROBIN, TU_DMA_BIND_LEAST_OUTSTANDING,
        TU_DMA_BIND_LEAST_BYTES, TU_DMA_BIND_LEAST_PROJECTED_CYCLES] (p_binding_policy p) of
       None \<Rightarrow> Inl g
     | Some bp \<Rightarrow>
     case (enum_at [TU_DMA_SEGMENT_AGGREGATE, TU_DMA_SEGMENT_LOGICAL] (p_segmentation p),
           enum_at [TU_DMA_BASE_PER_DESCRIPTOR, TU_DMA_BASE_PER_LOGICAL_SEGMENT] (p_base_scope p),
           enum_at [TU_DMA_PAYLOAD_PACKED_DESCRIPTOR, TU_DMA_PAYLOAD_ALIGN_LOGICAL_SEGMENT,
             TU_DMA_PAYLOAD_ALIGN_BURST_COMMAND] (p_payload_scope p),
           enum_at [TU_DMA_ISSUE_PAYLOAD_SERIALIZED, TU_DMA_ISSUE_PAYLOAD_OVERLAPPED] (p_issue_mode p),
           enum_at [TU_DMA_BOUNDARY_SIZE_ONLY, TU_DMA_BOUNDARY_SRAM_ADDRESS, TU_DMA_BOUNDARY_SRAM_4K,
             TU_DMA_BOUNDARY_EXTERNAL_4K, TU_DMA_BOUNDARY_BOTH_4K, TU_DMA_BOUNDARY_EXTERNAL_ADDRESS,
             TU_DMA_BOUNDARY_BOTH_ADDRESS] (p_boundary_mode p)) of
       (Some sg, Some bs, Some ps, Some im, Some bm) \<Rightarrow>
         Inr (g\<lparr>e_binding_policy := bp, e_segmentation := sg, e_base_scope := bs,
                e_payload_scope := ps, e_issue_mode := im, e_boundary_mode := bm\<rparr>)
     | _ \<Rightarrow> Inl zero_engine)"

definition init_bus :: "dma_params \<Rightarrow> dma_engine \<Rightarrow> dma_engine + dma_engine" where
  "init_bus p g =
    (let bits = (if p_bus_width_bits p = 0 then TU_DMA_BUS_WIDTH_BITS else p_bus_width_bits p)
     in if \<not> pow2_in 32 1024 bits then Inl g
        else
     let g = g\<lparr>e_bus_width_bytes := bits div 8\<rparr>;
         mb = (if p_max_burst p = 0 then TU_DMA_MAX_BURST_BYTES else p_max_burst p);
         rb = (if p_read_max_burst p = 0 then mb else p_read_max_burst p);
         wb = (if p_write_max_burst p = 0 then mb else p_write_max_burst p)
     in if \<not> pow2_in 16 65536 mb \<or> \<not> pow2_in 16 65536 rb \<or> \<not> pow2_in 16 65536 wb
           \<or> p_burst_issue p > 1024
           \<or> (p_read_issue_configured p \<and> p_read_burst_issue p > 1024)
           \<or> (p_write_issue_configured p \<and> p_write_burst_issue p > 1024) then Inl zero_engine
        else Inr (g\<lparr>e_max_burst_bytes := mb, e_read_max_burst := rb, e_write_max_burst := wb,
               e_burst_issue := p_burst_issue p,
               e_read_burst_issue := (if p_read_issue_configured p then p_read_burst_issue p
                                      else p_burst_issue p),
               e_write_burst_issue := (if p_write_issue_configured p then p_write_burst_issue p
                                       else p_burst_issue p),
               e_read_latency := p_read_latency p, e_write_latency := p_write_latency p\<rparr>))"

definition init_channels :: "dma_params \<Rightarrow> dma_engine \<Rightarrow> dma_engine" where
  "init_channels p g =
    (let n = (if p_num_channels p > 0 then p_num_channels p else TU_DMA_CHANNELS)
     in if n > TU_DMA_ENGINE_MAX_CHANNELS then g\<lparr>e_num_channels := 0\<rparr>
        else g\<lparr>e_num_channels := n,
               e_channels := map (\<lambda>i. if i < unat n
                   then (e_channels g ! i)\<lparr>ch_id := of_nat i,
                          ch_max_depth := (if p_max_queue_depth p > 0 then p_max_queue_depth p
                                           else TU_DMA_MAX_OUTSTANDING)\<rparr>
                   else e_channels g ! i) [0..<length (e_channels g)],
               e_drr_weights := map (\<lambda>i. if i < unat n then 1 else e_drr_weights g ! i)
                   [0..<length (e_drr_weights g)]\<rparr>)"

definition init_service :: "dma_params \<Rightarrow> dma_engine" where
  "init_service p =
    (case init_arbitration p of Inl g \<Rightarrow> g | Inr g \<Rightarrow>
     case init_quanta p g of Inl g \<Rightarrow> g | Inr g \<Rightarrow>
     case init_modes p g of Inl g \<Rightarrow> g | Inr g \<Rightarrow>
     case init_bus p g of Inl g \<Rightarrow> g | Inr g \<Rightarrow> init_channels p g)"

text \<open>The family of initialisers: each fixes one more parameter to its default and calls the next. A
  field that an initialiser does not take is set by the calls below it. The zeros are the first
  enumerators of the respective types.\<close>

definition tu_dma_init_config_boundary_aging_policy_drr_cost :: "dma_params \<Rightarrow> dma_engine" where
  "tu_dma_init_config_boundary_aging_policy_drr_cost p = init_service (p\<lparr>p_drr_quantum_cycles := 64\<rparr>)"

definition tu_dma_init_config_boundary_aging_policy_drr :: "dma_params \<Rightarrow> dma_engine" where
  "tu_dma_init_config_boundary_aging_policy_drr p = tu_dma_init_config_boundary_aging_policy_drr_cost (p\<lparr>p_drr_cost_mode := 0\<rparr>)"

definition tu_dma_init_config_boundary_aging_policy_cap :: "dma_params \<Rightarrow> dma_engine" where
  "tu_dma_init_config_boundary_aging_policy_cap p = tu_dma_init_config_boundary_aging_policy_drr (p\<lparr>p_drr_quantum_bytes := 256\<rparr>)"

definition tu_dma_init_config_boundary_aging_policy :: "dma_params \<Rightarrow> dma_engine" where
  "tu_dma_init_config_boundary_aging_policy p = tu_dma_init_config_boundary_aging_policy_cap (p\<lparr>p_aging_max_boost := 0\<rparr>)"

definition tu_dma_init_config_boundary_aging_rate :: "dma_params \<Rightarrow> dma_engine" where
  "tu_dma_init_config_boundary_aging_rate p = tu_dma_init_config_boundary_aging_policy (p\<lparr>p_aging_metric := 0, p_aging_cycle_quantum := 1\<rparr>)"

definition tu_dma_init_config_boundary_aging :: "dma_params \<Rightarrow> dma_engine" where
  "tu_dma_init_config_boundary_aging p = tu_dma_init_config_boundary_aging_rate (p\<lparr>p_aging_increment := 1\<rparr>)"

definition tu_dma_init_config_boundary :: "dma_params \<Rightarrow> dma_engine" where
  "tu_dma_init_config_boundary p = tu_dma_init_config_boundary_aging (p\<lparr>p_aging_scope := 0\<rparr>)"

definition tu_dma_init_config_overlap :: "dma_params \<Rightarrow> dma_engine" where
  "tu_dma_init_config_overlap p = tu_dma_init_config_boundary (p\<lparr>p_boundary_mode := 0\<rparr>)"

definition tu_dma_init_config_payload_scope :: "dma_params \<Rightarrow> dma_engine" where
  "tu_dma_init_config_payload_scope p = tu_dma_init_config_overlap (p\<lparr>p_issue_mode := 0\<rparr>)"

definition tu_dma_init_config_base_scope :: "dma_params \<Rightarrow> dma_engine" where
  "tu_dma_init_config_base_scope p = tu_dma_init_config_payload_scope (p\<lparr>p_payload_scope := 0\<rparr>)"

definition tu_dma_init_config_segmentation :: "dma_params \<Rightarrow> dma_engine" where
  "tu_dma_init_config_segmentation p = tu_dma_init_config_base_scope (p\<lparr>p_base_scope := 0\<rparr>)"

definition tu_dma_init_config_directional_issue :: "dma_params \<Rightarrow> dma_engine" where
  "tu_dma_init_config_directional_issue p = tu_dma_init_config_segmentation (p\<lparr>p_segmentation := 0\<rparr>)"

definition tu_dma_init_config_directional_burst :: "dma_params \<Rightarrow> dma_engine" where
  "tu_dma_init_config_directional_burst p = tu_dma_init_config_directional_issue (p\<lparr>p_read_burst_issue := 0, p_write_burst_issue := 0, p_read_issue_configured := False, p_write_issue_configured := False\<rparr>)"

definition tu_dma_init_config_burst :: "dma_params \<Rightarrow> dma_engine" where
  "tu_dma_init_config_burst p = tu_dma_init_config_directional_burst (p\<lparr>p_read_max_burst := 0, p_write_max_burst := 0\<rparr>)"

definition tu_dma_init_config_timing :: "dma_params \<Rightarrow> dma_engine" where
  "tu_dma_init_config_timing p = tu_dma_init_config_burst (p\<lparr>p_max_burst := TU_DMA_MAX_BURST_BYTES, p_burst_issue := TU_DMA_BURST_ISSUE_CYCLES\<rparr>)"

definition tu_dma_init_config_arch :: "dma_params \<Rightarrow> dma_engine" where
  "tu_dma_init_config_arch p = tu_dma_init_config_timing (p\<lparr>p_read_latency := TU_LATENCY_DRAM_READ, p_write_latency := TU_LATENCY_DRAM_WRITE\<rparr>)"

definition tu_dma_init_config_full :: "dma_params \<Rightarrow> dma_engine" where
  "tu_dma_init_config_full p = tu_dma_init_config_arch (p\<lparr>p_bus_width_bits := TU_DMA_BUS_WIDTH_BITS\<rparr>)"

definition tu_dma_init_config_policy :: "dma_params \<Rightarrow> dma_engine" where
  "tu_dma_init_config_policy p = tu_dma_init_config_full (p\<lparr>p_binding_policy := 0\<rparr>)"

definition tu_dma_init_config :: "dma_params \<Rightarrow> dma_engine" where
  "tu_dma_init_config p = tu_dma_init_config_policy (p\<lparr>p_arb_policy := 0\<rparr>)"

definition tu_dma_init_full :: "dma_params \<Rightarrow> dma_engine" where
  "tu_dma_init_full p = tu_dma_init_config (p\<lparr>p_bus_mode := 0\<rparr>)"

definition tu_dma_init :: "dma_params \<Rightarrow> bool \<Rightarrow> dma_engine" where
  "tu_dma_init p async =
    tu_dma_init_full (p\<lparr>p_async := async, p_num_channels := TU_DMA_CHANNELS,
      p_max_queue_depth := TU_DMA_MAX_OUTSTANDING\<rparr>)"

section \<open>Setters\<close>

text \<open>The weight vector is \<open>None\<close> for \<open>NULL\<close>; its length is what the caller says it is.\<close>

definition tu_dma_set_drr_service :: "u32 \<Rightarrow> u8 list option \<Rightarrow> u32 \<Rightarrow> dma_engine \<Rightarrow> bool \<times> dma_engine" where
  "tu_dma_set_drr_service mode weights weight_count g =
    (case weights of
       None \<Rightarrow> (False, g)
     | Some ws \<Rightarrow>
        if mode > 1 \<or> weight_count \<noteq> TU_DMA_ENGINE_MAX_CHANNELS then (False, g)
        else let ws = take (unat weight_count) ws; all_zero = list_all (\<lambda>w. w = 0) ws
             in if \<not> all_zero \<and> list_ex (\<lambda>w. w = 0) ws then (False, g)
                else (True, g\<lparr>e_drr_service_mode := (if mode = 0 then TU_DMA_DRR_SERVICE_INTERLEAVED
                                else TU_DMA_DRR_SERVICE_WORK_CONSERVING),
                              e_drr_weights := (if all_zero then map (\<lambda>_. 1) ws else ws),
                              e_drr_continue := False\<rparr>))"

definition map_channels :: "(dma_channel \<Rightarrow> dma_channel) \<Rightarrow> dma_engine \<Rightarrow> dma_engine" where
  "map_channels f g = g\<lparr>e_channels := map f (take (unat (e_num_channels g)) (e_channels g))
                                     @ drop (unat (e_num_channels g)) (e_channels g)\<rparr>"

definition tu_dma_set_drr_idle_policy :: "u32 \<Rightarrow> dma_engine \<Rightarrow> bool \<times> dma_engine" where
  "tu_dma_set_drr_idle_policy idle g =
    (if idle > 1 then (False, g)
     else let g = g\<lparr>e_drr_idle_policy := (if idle = 0 then TU_DMA_DRR_IDLE_RESET
                                          else TU_DMA_DRR_IDLE_RETAIN_RESIDUAL)\<rparr>
          in (True, if e_drr_idle_policy g = TU_DMA_DRR_IDLE_RESET
                    then map_channels (\<lambda>ch. if ch_queue ch = [] \<and> ch_active ch = None
                                            then ch\<lparr>ch_credits := 0\<rparr> else ch) g
                    else g))"

text \<open>A changed DRR parameter clears every credit and the continued visit.\<close>

definition clear_credits :: "dma_engine \<Rightarrow> dma_engine" where
  "clear_credits g = (map_channels (\<lambda>ch. ch\<lparr>ch_credits := 0\<rparr>) g)\<lparr>e_drr_continue := False\<rparr>"

definition tu_dma_set_drr_cost_granularity :: "u32 \<Rightarrow> dma_engine \<Rightarrow> bool \<times> dma_engine" where
  "tu_dma_set_drr_cost_granularity granularity g =
    (if granularity > 1 then (False, g)
     else let nxt = (if granularity = 0 then TU_DMA_DRR_COST_EXACT else TU_DMA_DRR_COST_QUANTUM_ROUNDED);
              g = (if e_drr_cost_granularity g \<noteq> nxt then clear_credits g else g)
          in (True, g\<lparr>e_drr_cost_granularity := nxt\<rparr>))"

definition tu_dma_set_drr_round_issue_cycles :: "u32 \<Rightarrow> dma_engine \<Rightarrow> bool \<times> dma_engine" where
  "tu_dma_set_drr_round_issue_cycles cycles g =
    (if cycles > 1024 then (False, g)
     else let g = (if e_drr_round_issue_cycles g \<noteq> cycles then clear_credits g else g)
          in (True, g\<lparr>e_drr_round_issue_cycles := cycles\<rparr>))"

definition tu_dma_set_drr_round_cost_mode :: "u32 \<Rightarrow> dma_engine \<Rightarrow> bool \<times> dma_engine" where
  "tu_dma_set_drr_round_cost_mode mode g =
    (case enum_at [TU_DMA_DRR_ROUND_COST_FIXED, TU_DMA_DRR_ROUND_COST_PER_CHANNEL,
        TU_DMA_DRR_ROUND_COST_PER_VISITED_CHANNEL] (uint mode) of
       None \<Rightarrow> (False, g)
     | Some nxt \<Rightarrow>
        let g = (if e_drr_round_cost_mode g \<noteq> nxt then clear_credits g else g)
        in (True, g\<lparr>e_drr_round_cost_mode := nxt\<rparr>))"

definition tu_dma_set_drr_select_issue_cycles :: "u32 \<Rightarrow> dma_engine \<Rightarrow> bool \<times> dma_engine" where
  "tu_dma_set_drr_select_issue_cycles cycles g =
    (if cycles > 1024 then (False, g) else (True, g\<lparr>e_drr_select_issue_cycles := cycles\<rparr>))"

definition tu_dma_set_drr_scan_width :: "u32 \<Rightarrow> dma_engine \<Rightarrow> bool \<times> dma_engine" where
  "tu_dma_set_drr_scan_width width g =
    (if width > TU_DMA_ENGINE_MAX_CHANNELS then (False, g)
     else (True, g\<lparr>e_drr_scan_width := (if width \<noteq> 0 then width else 1)\<rparr>))"

definition tu_dma_set_drr_stage_scan_widths :: "u32 \<Rightarrow> u32 \<Rightarrow> dma_engine \<Rightarrow> bool \<times> dma_engine" where
  "tu_dma_set_drr_stage_scan_widths round_width select_width g =
    (if round_width > TU_DMA_ENGINE_MAX_CHANNELS \<or> select_width > TU_DMA_ENGINE_MAX_CHANNELS
     then (False, g)
     else (True, g\<lparr>e_drr_round_scan_width := round_width, e_drr_select_scan_width := select_width\<rparr>))"

section \<open>Usable engines\<close>

text \<open>What every successful initialisation establishes and the setters keep: the divisors of the
  timing model are positive, the queues are arrays of eight channels, the weights are positive.\<close>

definition engine_ok :: "dma_engine \<Rightarrow> bool" where
  "engine_ok g \<longleftrightarrow>
     length (e_channels g) = 8 \<and>
     0 < e_num_channels g \<and> e_num_channels g \<le> 8 \<and>
     4 \<le> e_bus_width_bytes g \<and> e_bus_width_bytes g \<le> 128 \<and>
     16 \<le> e_read_max_burst g \<and> e_read_max_burst g \<le> 65536 \<and>
     16 \<le> e_write_max_burst g \<and> e_write_max_burst g \<le> 65536 \<and>
     16 \<le> e_drr_quantum_bytes g \<and> e_drr_quantum_bytes g \<le> 65536 \<and>
     1 \<le> e_drr_quantum_cycles g \<and> e_drr_quantum_cycles g \<le> 1048576 \<and>
     1 \<le> e_aging_increment g \<and> e_aging_increment g \<le> 255 \<and> 1 \<le> e_aging_cycle_quantum g \<and>
     e_read_burst_issue g \<le> 1024 \<and> e_write_burst_issue g \<le> 1024"

lemma pow2_in_range: "pow2_in lo hi x \<Longrightarrow> lo \<le> x \<and> x \<le> hi"
  by (auto simp: pow2_in_def)

lemma div8_range:
  assumes "(32 :: u32) \<le> x" "x \<le> 1024" shows "4 \<le> x div 8 \<and> x div 8 \<le> 128"
proof -
  have "unat (x div 8) = unat x div 8" by (simp add: unat_div)
  moreover have "32 \<le> unat x" "unat x \<le> 1024" using assms by (simp_all add: word_le_nat_alt)
  then have "32 div 8 \<le> unat x div 8" "unat x div 8 \<le> 1024 div 8" by (intro div_le_mono; simp)+
  ultimately show ?thesis by (simp add: word_le_nat_alt)
qed

text \<open>The fields a stage leaves alone.\<close>

definition quanta_ok :: "dma_engine \<Rightarrow> bool" where
  "quanta_ok g \<longleftrightarrow> length (e_channels g) = 8 \<and>
     16 \<le> e_drr_quantum_bytes g \<and> e_drr_quantum_bytes g \<le> 65536 \<and>
     1 \<le> e_drr_quantum_cycles g \<and> e_drr_quantum_cycles g \<le> 1048576 \<and>
     1 \<le> e_aging_increment g \<and> e_aging_increment g \<le> 255 \<and> 1 \<le> e_aging_cycle_quantum g"

definition bursts_ok :: "dma_engine \<Rightarrow> bool" where
  "bursts_ok g \<longleftrightarrow>
     4 \<le> e_bus_width_bytes g \<and> e_bus_width_bytes g \<le> 128 \<and>
     16 \<le> e_read_max_burst g \<and> e_read_max_burst g \<le> 65536 \<and>
     16 \<le> e_write_max_burst g \<and> e_write_max_burst g \<le> 65536 \<and>
     e_read_burst_issue g \<le> 1024 \<and> e_write_burst_issue g \<le> 1024"

lemma engine_ok_parts:
  "engine_ok g \<longleftrightarrow> quanta_ok g \<and> bursts_ok g \<and> 0 < e_num_channels g \<and> e_num_channels g \<le> 8"
  by (auto simp: engine_ok_def quanta_ok_def bursts_ok_def)

lemma ge_one_word: "x \<noteq> 0 \<Longrightarrow> 1 \<le> (x :: u32)"
  by (simp add: word_le_nat_alt unat_gt_0 Suc_le_eq)

lemma zero_engine_fields [simp]:
  "e_num_channels zero_engine = 0" "length (e_channels zero_engine) = 8"
  "length (e_drr_weights zero_engine) = 8"
  by (simp_all add: zero_engine_def TU_DMA_ENGINE_MAX_CHANNELS_def)

lemma init_arbitration_ok:
  "init_arbitration p = Inr g \<Longrightarrow> length (e_channels g) = 8"
  "init_arbitration p = Inl g \<Longrightarrow> e_num_channels g = 0"
  by (auto simp: init_arbitration_def Let_def split: option.splits)

lemma init_quanta_ok:
  assumes "length (e_channels g) = 8"
  shows "init_quanta p g = Inr g' \<Longrightarrow> quanta_ok g'"
    and "init_quanta p g = Inl g' \<Longrightarrow> e_num_channels g' = 0"
proof -
  show "quanta_ok g'" if "init_quanta p g = Inr g'"
  proof -
    define qb where "qb = (if p_drr_quantum_bytes p = 0 then 256 else p_drr_quantum_bytes p)"
    have "pow2_in 16 65536 qb"
      using that by (auto simp: init_quanta_def Let_def qb_def split: if_splits)
    then have "16 \<le> qb \<and> qb \<le> 65536" by (rule pow2_in_range)
    moreover have "e_drr_quantum_bytes g' = qb"
      using that by (auto simp: init_quanta_def Let_def qb_def split: if_splits option.splits)
    ultimately show ?thesis
      using that assms
      by (auto simp: init_quanta_def Let_def quanta_ok_def ge_one_word not_less split: if_splits option.splits)
  qed
  show "e_num_channels g' = 0" if "init_quanta p g = Inl g'"
    using that by (auto simp: init_quanta_def Let_def split: if_splits option.splits)
qed

lemma init_modes_ok:
  "init_modes p g = Inr g' \<Longrightarrow> quanta_ok g \<Longrightarrow> quanta_ok g'"
  "init_modes p g = Inl g' \<Longrightarrow> e_num_channels g = 0 \<Longrightarrow> e_num_channels g' = 0"
  by (auto simp: init_modes_def quanta_ok_def split: option.splits)

lemma init_bus_ok:
  "init_bus p g = Inr g' \<Longrightarrow> quanta_ok g \<Longrightarrow> quanta_ok g' \<and> bursts_ok g'"
  "init_bus p g = Inl g' \<Longrightarrow> e_num_channels g = 0 \<Longrightarrow> e_num_channels g' = 0"
proof -
  assume b: "init_bus p g = Inr g'" and q: "quanta_ok g"
  define bits where "bits = (if p_bus_width_bits p = 0 then TU_DMA_BUS_WIDTH_BITS else p_bus_width_bits p)"
  define mb where "mb = (if p_max_burst p = 0 then TU_DMA_MAX_BURST_BYTES else p_max_burst p)"
  define rb where "rb = (if p_read_max_burst p = 0 then mb else p_read_max_burst p)"
  define wb where "wb = (if p_write_max_burst p = 0 then mb else p_write_max_burst p)"
  have ok: "pow2_in 32 1024 bits" "pow2_in 16 65536 rb" "pow2_in 16 65536 wb"
    and f: "e_bus_width_bytes g' = bits div 8" "e_read_max_burst g' = rb" "e_write_max_burst g' = wb"
      "e_read_burst_issue g' \<le> 1024" "e_write_burst_issue g' \<le> 1024" "quanta_ok g' = quanta_ok g"
    using b unfolding init_bus_def Let_def bits_def [symmetric] mb_def [symmetric]
      rb_def [symmetric] wb_def [symmetric]
    by (auto simp: quanta_ok_def split: if_splits)
  then show "quanta_ok g' \<and> bursts_ok g'"
    using q div8_range pow2_in_range [OF ok(1)] pow2_in_range [OF ok(2)] pow2_in_range [OF ok(3)]
    by (simp add: bursts_ok_def)
next
  show "e_num_channels g' = 0" if "init_bus p g = Inl g'" "e_num_channels g = 0"
    using that by (auto simp: init_bus_def Let_def split: if_splits)
qed

lemma init_channels_ok:
  assumes "quanta_ok g" "bursts_ok g" "e_num_channels g = 0"
  shows "e_num_channels (init_channels p g) = 0 \<or> engine_ok (init_channels p g)"
  using assms
  by (auto simp: init_channels_def Let_def engine_ok_parts quanta_ok_def bursts_ok_def
      TU_DMA_CHANNELS_def TU_DMA_ENGINE_MAX_CHANNELS_def not_less word_gt_0)

lemma stages_keep_channels:
  "init_arbitration p = Inr g \<Longrightarrow> e_num_channels g = 0"
  "init_quanta p g = Inr g' \<Longrightarrow> e_num_channels g' = e_num_channels g"
  "init_modes p g = Inr g' \<Longrightarrow> e_num_channels g' = e_num_channels g"
  "init_bus p g = Inr g' \<Longrightarrow> e_num_channels g' = e_num_channels g"
  by (auto simp: init_arbitration_def init_quanta_def init_modes_def init_bus_def Let_def
      split: option.splits if_splits)

lemma init_service_ok: "e_num_channels (init_service p) = 0 \<or> engine_ok (init_service p)"
proof (cases "init_arbitration p")
  case (Inr g1)
  note a = init_arbitration_ok(1) [OF Inr] stages_keep_channels(1) [OF Inr]
  show ?thesis
  proof (cases "init_quanta p g1")
    case q: (Inr g2)
    note b = init_quanta_ok(1) [OF a(1) q] stages_keep_channels(2) [OF q]
    show ?thesis
    proof (cases "init_modes p g2")
      case m: (Inr g3)
      note c = init_modes_ok(1) [OF m b(1)] stages_keep_channels(3) [OF m]
      show ?thesis
      proof (cases "init_bus p g3")
        case u: (Inr g4)
        note d = init_bus_ok(1) [OF u c(1)] stages_keep_channels(4) [OF u]
        have "e_num_channels g4 = 0" using a(2) b(2) c(2) d(2) by simp
        then show ?thesis using init_channels_ok [of g4 p] d(1) Inr q m u by (simp add: init_service_def)
      next
        case u: (Inl g4)
        then show ?thesis using init_bus_ok(2) [OF u] a(2) b(2) c(2) Inr q m by (simp add: init_service_def)
      qed
    next
      case m: (Inl g3)
      then show ?thesis using init_modes_ok(2) [OF m] a(2) b(2) Inr q by (simp add: init_service_def)
    qed
  next
    case q: (Inl g2)
    then show ?thesis using init_quanta_ok(2) [OF a(1) q] Inr by (simp add: init_service_def)
  qed
next
  case (Inl g1)
  then show ?thesis using init_arbitration_ok(2) [OF Inl] by (simp add: init_service_def)
qed

end
