(* ===== verification/Dma_Timing.thy ===== *)
theory Dma_Timing
  imports Dma_Config
begin

text \<open>
  The timing model of \<open>dma_descriptor.c\<close>: logical segments, the split of a segment into bursts at
  SRAM and external boundaries, payload and command-issue cycles, the cost charged by deficit round
  robin, and the delays of its scan. All cycle arithmetic is in 64-bit words.

  Divisors are fields of the engine; \<open>engine_ok\<close> makes them positive (division by zero is undefined
  in C and yields 0 here). The splitting loop removes a chunk of the remaining bytes in each
  iteration; with a zero burst size, which \<open>engine_ok\<close> excludes, the C loop would repeat for ever
  and the model stops.
\<close>

section \<open>Segments\<close>

definition descriptor_burst_bytes :: "dma_engine \<Rightarrow> dma_desc \<Rightarrow> u32" where
  "descriptor_burst_bytes g desc =
    (if d_direction desc = TU_DMA_DIR_TU_TO_HOST then e_write_max_burst g else e_read_max_burst g)"

definition ceil_div_u64 :: "u64 \<Rightarrow> u64 \<Rightarrow> u64" where
  "ceil_div_u64 value divisor = value div divisor + (if value mod divisor \<noteq> 0 then 1 else 0)"

definition descriptor_logical_segment_count :: "dma_desc \<Rightarrow> u64" where
  "descriptor_logical_segment_count desc =
    (if d_total_bytes desc = 0 then 0
     else case d_type desc of
       TU_DMA_XFER_STRIDED_2D \<Rightarrow> ucast (d_dim0 desc)
     | TU_DMA_XFER_STRIDED_3D \<Rightarrow> ucast (d_dim0 desc) * ucast (d_dim1 desc)
     | TU_DMA_XFER_SCATTER \<Rightarrow> ucast (d_index_count desc)
     | TU_DMA_XFER_GATHER \<Rightarrow> ucast (d_index_count desc)
     | _ \<Rightarrow> 1)"

definition descriptor_logical_segment_bytes :: "dma_desc \<Rightarrow> u64" where
  "descriptor_logical_segment_bytes desc =
    (case d_type desc of
       TU_DMA_XFER_STRIDED_2D \<Rightarrow> ucast (d_elem_size desc) * ucast (d_dim1 desc)
     | TU_DMA_XFER_STRIDED_3D \<Rightarrow> ucast (d_elem_size desc) * ucast (d_dim2 desc)
     | TU_DMA_XFER_SCATTER \<Rightarrow> ucast (d_index_elem_size desc)
     | TU_DMA_XFER_GATHER \<Rightarrow> ucast (d_index_elem_size desc)
     | _ \<Rightarrow> ucast (d_total_bytes desc))"

definition descriptor_sram_base :: "dma_desc \<Rightarrow> u64" where
  "descriptor_sram_base desc =
    (if d_direction desc = TU_DMA_DIR_TU_TO_HOST then ucast (d_src_base desc)
     else ucast (d_dst_base desc))"

text \<open>The row and depth strides on the SRAM side and on the external side.\<close>

definition descriptor_sram_strides :: "dma_desc \<Rightarrow> u64 \<times> u64" where
  "descriptor_sram_strides desc =
    (if d_direction desc = TU_DMA_DIR_TU_TO_HOST
     then (ucast (d_src_row_stride desc), ucast (d_src_depth_stride desc))
     else (ucast (d_dst_row_stride desc), ucast (d_dst_depth_stride desc)))"

definition external_strides :: "dma_desc \<Rightarrow> u64 \<times> u64" where
  "external_strides desc =
    (if d_direction desc = TU_DMA_DIR_HOST_TO_TU
     then (ucast (d_src_row_stride desc), ucast (d_src_depth_stride desc))
     else (ucast (d_dst_row_stride desc), ucast (d_dst_depth_stride desc)))"

section \<open>Bursts\<close>

text \<open>The limits of a split: the burst size, the boundaries that are active, and the bus width.\<close>

record burst_rules =
  br_burst :: u64
  br_sram :: "u64 option"
  br_external :: "u64 option"
  br_bus :: u64

definition clip_to_room :: "u64 option \<Rightarrow> u64 \<Rightarrow> u64 \<Rightarrow> u64" where
  "clip_to_room boundary address chunk =
    (case boundary of
       None \<Rightarrow> chunk
     | Some b \<Rightarrow> (let room = b - address mod b in if chunk > room then room else chunk))"

definition chunk_at :: "burst_rules \<Rightarrow> u64 \<Rightarrow> u64 \<Rightarrow> u64 \<Rightarrow> u64" where
  "chunk_at rules sram external bytes =
    clip_to_room (br_external rules) external
      (clip_to_room (br_sram rules) sram (if bytes < br_burst rules then bytes else br_burst rules))"

lemma clip_le: "clip_to_room b a c \<le> c"
  by (auto simp: clip_to_room_def Let_def split: option.split)

lemma chunk_at_le: "chunk_at rules s e n \<le> n"
proof -
  have "chunk_at rules s e n \<le> (if n < br_burst rules then n else br_burst rules)"
    unfolding chunk_at_def by (rule order.trans [OF clip_le clip_le])
  then show ?thesis by (auto split: if_splits)
qed

function add_address_bounded_segment ::
  "burst_rules \<Rightarrow> u64 \<Rightarrow> u64 \<Rightarrow> u64 \<Rightarrow> u64 \<Rightarrow> u64 \<Rightarrow> u64 \<times> u64" where
  "add_address_bounded_segment rules sram external bytes burst_count payload_cycles =
    (if bytes = 0 then (burst_count, payload_cycles)
     else let chunk = chunk_at rules sram external bytes
          in if chunk = 0 then (burst_count, payload_cycles)
             else add_address_bounded_segment rules (sram + chunk) (external + chunk) (bytes - chunk)
                    (burst_count + 1) (payload_cycles + ceil_div_u64 chunk (br_bus rules)))"
  by auto
termination
proof (relation "measure (\<lambda>(rules, s, e, n, b, p). unat n)")
  fix rules s e n and chunk :: u64
  assume "n \<noteq> 0" "chunk = chunk_at rules s e n" "chunk \<noteq> 0"
  then have "unat (n - chunk) = unat n - unat chunk" "unat chunk \<noteq> 0" "unat n \<noteq> 0"
    using chunk_at_le [of rules s e n] by (simp_all add: unat_sub_le unat_eq_0)
  then show "((rules, s + chunk, e + chunk, n - chunk, b + 1, p + ceil_div_u64 chunk (br_bus rules)),
      rules, s, e, n, b, p) \<in> measure (\<lambda>(rules, s, e, n, b, p). unat n)" for b p
    by simp
qed simp

declare add_address_bounded_segment.simps [simp del]

text \<open>The rules in force for a descriptor.\<close>

definition segment_rules :: "dma_engine \<Rightarrow> dma_desc \<Rightarrow> burst_rules" where
  "segment_rules g desc =
    (let burst = ucast (descriptor_burst_bytes g desc);
         mode = e_boundary_mode g
     in \<lparr>br_burst = burst,
         br_sram = (if mode \<in> {TU_DMA_BOUNDARY_SRAM_ADDRESS, TU_DMA_BOUNDARY_SRAM_4K,
                        TU_DMA_BOUNDARY_BOTH_4K, TU_DMA_BOUNDARY_BOTH_ADDRESS}
                    then Some (if mode \<in> {TU_DMA_BOUNDARY_SRAM_ADDRESS, TU_DMA_BOUNDARY_BOTH_ADDRESS}
                               then burst else 4096)
                    else None),
         br_external = (if mode \<in> {TU_DMA_BOUNDARY_EXTERNAL_4K, TU_DMA_BOUNDARY_BOTH_4K,
                            TU_DMA_BOUNDARY_EXTERNAL_ADDRESS, TU_DMA_BOUNDARY_BOTH_ADDRESS}
                        then Some (if mode \<in> {TU_DMA_BOUNDARY_EXTERNAL_ADDRESS, TU_DMA_BOUNDARY_BOTH_ADDRESS}
                                   then burst else 4096)
                        else None),
         br_bus = ucast (e_bus_width_bytes g)\<rparr>)"

text \<open>The segments of a descriptor, as pairs of SRAM and external addresses, and their length.\<close>

definition segment_starts :: "dma_desc \<Rightarrow> (u64 \<times> u64) list" where
  "segment_starts desc =
    (let base = descriptor_sram_base desc; ext = d_external_address desc;
         (rs, ds) = descriptor_sram_strides desc; (ers, eds) = external_strides desc
     in case d_type desc of
          TU_DMA_XFER_STRIDED_2D \<Rightarrow>
            map (\<lambda>r. (base + of_nat r * rs, ext + of_nat r * ers)) [0..<unat (d_dim0 desc)]
        | TU_DMA_XFER_STRIDED_3D \<Rightarrow>
            concat (map (\<lambda>d. map (\<lambda>r. (base + of_nat d * ds + of_nat r * rs,
                                       ext + of_nat d * eds + of_nat r * ers))
                               [0..<unat (d_dim1 desc)]) [0..<unat (d_dim0 desc)])
        | TU_DMA_XFER_SCATTER \<Rightarrow>
            map (\<lambda>i. (ucast (the (d_index_list desc) ! i),
                       ext + of_nat i * descriptor_logical_segment_bytes desc))
              [0..<unat (d_index_count desc)]
        | TU_DMA_XFER_GATHER \<Rightarrow>
            map (\<lambda>i. (ucast (the (d_index_list desc) ! i),
                       ext + of_nat i * descriptor_logical_segment_bytes desc))
              [0..<unat (d_index_count desc)]
        | TU_DMA_XFER_MULTICAST \<Rightarrow>
            map (\<lambda>i. (ucast (the (d_mc_offsets desc) ! i), ext)) [0..<unat (d_mc_count desc)]
        | TU_DMA_XFER_LINEAR \<Rightarrow> [(base, ext)])"

definition segment_length :: "dma_desc \<Rightarrow> u64" where
  "segment_length desc =
    (case d_type desc of
       TU_DMA_XFER_MULTICAST \<Rightarrow> ucast (d_dim0 desc) * ucast (d_elem_size desc)
     | TU_DMA_XFER_LINEAR \<Rightarrow> ucast (d_total_bytes desc)
     | _ \<Rightarrow> descriptor_logical_segment_bytes desc)"

definition descriptor_address_bounded_totals :: "dma_engine \<Rightarrow> dma_desc \<Rightarrow> u64 \<times> u64" where
  "descriptor_address_bounded_totals g desc =
    (if d_total_bytes desc = 0 \<or> descriptor_logical_segment_bytes desc = 0 then (0, 0)
     else foldl (\<lambda>(b, p) (s, e).
              add_address_bounded_segment (segment_rules g desc) s e (segment_length desc) b p)
            (0, 0) (segment_starts desc))"

section \<open>Cycles\<close>

definition descriptor_burst_count :: "dma_engine \<Rightarrow> dma_desc \<Rightarrow> u64" where
  "descriptor_burst_count g desc =
    (let burst = ucast (descriptor_burst_bytes g desc) :: u64
     in if d_total_bytes desc = 0 then 0
        else if e_boundary_mode g \<noteq> TU_DMA_BOUNDARY_SIZE_ONLY
        then fst (descriptor_address_bounded_totals g desc)
        else if e_segmentation g \<noteq> TU_DMA_SEGMENT_LOGICAL
        then ceil_div_u64 (ucast (d_total_bytes desc)) burst
        else let sb = descriptor_logical_segment_bytes desc;
                 sc = descriptor_logical_segment_count desc
             in if sb = 0 \<or> sc = 0 then 0 else sc * ceil_div_u64 sb burst)"

definition burst_aligned_payload_cycles :: "dma_engine \<Rightarrow> u64 \<Rightarrow> u64 \<Rightarrow> u64" where
  "burst_aligned_payload_cycles g bytes burst =
    (let full = bytes div burst; tail = bytes mod burst; bus = ucast (e_bus_width_bytes g);
         cycles = full * ceil_div_u64 burst bus
     in if tail > 0 then cycles + ceil_div_u64 tail bus else cycles)"

definition descriptor_payload_cycles :: "dma_engine \<Rightarrow> dma_desc \<Rightarrow> u64" where
  "descriptor_payload_cycles g desc =
    (let bus = ucast (e_bus_width_bytes g)
     in if d_total_bytes desc = 0 then 0
        else if e_payload_scope g = TU_DMA_PAYLOAD_PACKED_DESCRIPTOR
        then ceil_div_u64 (ucast (d_total_bytes desc)) bus
        else let cnt = descriptor_logical_segment_count desc;
                 bytes = descriptor_logical_segment_bytes desc
             in if cnt = 0 \<or> bytes = 0 then 0
                else if e_payload_scope g = TU_DMA_PAYLOAD_ALIGN_LOGICAL_SEGMENT
                then cnt * ceil_div_u64 bytes bus
                else let burst = ucast (descriptor_burst_bytes g desc)
                     in if e_boundary_mode g \<noteq> TU_DMA_BOUNDARY_SIZE_ONLY
                        then snd (descriptor_address_bounded_totals g desc)
                        else if e_segmentation g = TU_DMA_SEGMENT_LOGICAL
                        then cnt * burst_aligned_payload_cycles g bytes burst
                        else burst_aligned_payload_cycles g (ucast (d_total_bytes desc)) burst)"

definition descriptor_base_cycles :: "dma_engine \<Rightarrow> dma_desc \<Rightarrow> u64" where
  "descriptor_base_cycles g desc =
    (let base = (if d_direction desc = TU_DMA_DIR_TU_TO_HOST then ucast (e_write_latency g)
                 else ucast (e_read_latency g));
         cnt = (if e_base_scope g = TU_DMA_BASE_PER_LOGICAL_SEGMENT
                then descriptor_logical_segment_count desc else 1)
     in base * cnt)"

definition descriptor_burst_issue_cycles :: "dma_engine \<Rightarrow> dma_desc \<Rightarrow> u32" where
  "descriptor_burst_issue_cycles g desc =
    (if d_direction desc = TU_DMA_DIR_TU_TO_HOST then e_write_burst_issue g else e_read_burst_issue g)"

definition combine_payload_issue_cycles :: "dma_engine \<Rightarrow> u64 \<Rightarrow> u64 \<Rightarrow> u32 \<Rightarrow> u64" where
  "combine_payload_issue_cycles g payload bursts issue =
    (let issue_cycles = bursts * ucast issue
     in if e_issue_mode g = TU_DMA_ISSUE_PAYLOAD_OVERLAPPED \<and> bursts > 0 \<and> issue > 0
        then let remaining = issue_cycles - ucast issue
             in ucast issue + (if payload > remaining then payload else remaining)
        else payload + issue_cycles)"

definition descriptor_transfer_cycles :: "dma_engine \<Rightarrow> dma_desc \<Rightarrow> u64" where
  "descriptor_transfer_cycles g desc =
    descriptor_base_cycles g desc +
    combine_payload_issue_cycles g (descriptor_payload_cycles g desc)
      (descriptor_burst_count g desc) (descriptor_burst_issue_cycles g desc)"

definition drr_quantum :: "dma_engine \<Rightarrow> u64" where
  "drr_quantum g = (if e_drr_cost_mode g = TU_DMA_DRR_CHARGE_SERVICE_CYCLES
     then ucast (e_drr_quantum_cycles g) else ucast (e_drr_quantum_bytes g))"

definition descriptor_drr_cost :: "dma_engine \<Rightarrow> dma_desc \<Rightarrow> u64" where
  "descriptor_drr_cost g desc =
    (let cost = (case e_drr_cost_mode g of
                   TU_DMA_DRR_CHARGE_SERVICE_CYCLES \<Rightarrow> descriptor_transfer_cycles g desc
                 | TU_DMA_DRR_CHARGE_OCCUPIED_BYTES \<Rightarrow>
                     descriptor_payload_cycles g desc * ucast (e_bus_width_bytes g)
                 | TU_DMA_DRR_CHARGE_USEFUL_BYTES \<Rightarrow> ucast (d_total_bytes desc))
     in if cost = 0 \<or> e_drr_cost_granularity g = TU_DMA_DRR_COST_EXACT then cost
        else let quantum = drr_quantum g
             in if cost > UINT64_MAX - (quantum - 1) then UINT64_MAX
                else ((cost + quantum - 1) div quantum) * quantum)"

section \<open>Priorities and scan delays\<close>

definition descriptor_effective_priority :: "dma_engine \<Rightarrow> dma_desc \<Rightarrow> u8" where
  "descriptor_effective_priority g desc =
    (let age = (if e_aging_metric g = TU_DMA_AGING_BY_WAIT_CYCLES
                then (e_cycle g - (if e_aging_scope g = TU_DMA_AGING_FROM_QUEUE_HEAD
                                   then d_cycle_eligible desc else d_cycle_submitted desc))
                     div ucast (e_aging_cycle_quantum g)
                else e_epoch g - (if e_aging_scope g = TU_DMA_AGING_FROM_QUEUE_HEAD
                                  then d_epoch_eligible desc else d_epoch_submitted desc));
         room = 255 - ucast (d_priority desc);
         boost = (if age > UINT64_MAX div ucast (e_aging_increment g) then UINT64_MAX
                  else age * ucast (e_aging_increment g));
         boost = (if e_aging_max_boost g \<noteq> 0 \<and> boost > ucast (e_aging_max_boost g)
                  then ucast (e_aging_max_boost g) else boost);
         boost = (if boost > room then room else boost)
     in ucast (ucast (d_priority desc) + boost))"

definition drr_scan_groups :: "dma_engine \<Rightarrow> u32 \<Rightarrow> u32 \<Rightarrow> u64" where
  "drr_scan_groups g probes stage_width =
    (let width = (if stage_width \<noteq> 0 then stage_width
                  else if e_drr_scan_width g \<noteq> 0 then e_drr_scan_width g else 1)
     in ucast (probes div width + (if probes mod width \<noteq> 0 then 1 else 0)))"

definition saturating_advance :: "u64 \<Rightarrow> dma_engine \<Rightarrow> dma_engine" where
  "saturating_advance delay g =
    g\<lparr>e_cycle := (if UINT64_MAX - e_cycle g < delay then UINT64_MAX else e_cycle g + delay)\<rparr>"

definition drr_charge_round_delay :: "u32 \<Rightarrow> dma_engine \<Rightarrow> dma_engine" where
  "drr_charge_round_delay cycles g =
    (let delay = ucast cycles;
         delay = (if e_drr_round_cost_mode g \<noteq> TU_DMA_DRR_ROUND_COST_FIXED
                  then let groups = drr_scan_groups g (e_num_channels g) (e_drr_round_scan_width g)
                       in if groups \<noteq> 0 \<and> delay > UINT64_MAX div groups then UINT64_MAX
                          else delay * groups
                  else delay)
     in saturating_advance delay g)"

definition drr_charge_select_delay :: "u32 \<Rightarrow> u32 \<Rightarrow> dma_engine \<Rightarrow> dma_engine" where
  "drr_charge_select_delay cycles probes g =
    (let multiplier = (case e_drr_round_cost_mode g of
                         TU_DMA_DRR_ROUND_COST_PER_CHANNEL \<Rightarrow>
                           drr_scan_groups g (e_num_channels g) (e_drr_select_scan_width g)
                       | TU_DMA_DRR_ROUND_COST_PER_VISITED_CHANNEL \<Rightarrow>
                           drr_scan_groups g probes (e_drr_select_scan_width g)
                       | TU_DMA_DRR_ROUND_COST_FIXED \<Rightarrow> 1);
         delay = (if ucast cycles > UINT64_MAX div multiplier then UINT64_MAX
                  else ucast cycles * multiplier)
     in saturating_advance delay g)"

section \<open>Legal splits\<close>

text \<open>What a split promises, on natural numbers: every burst is non-empty, no longer than the burst
  size and crosses neither active boundary.\<close>

fun within_block :: "u64 option \<Rightarrow> nat \<Rightarrow> nat \<Rightarrow> bool" where
  "within_block None a n = True"
| "within_block (Some b) a n = (a mod unat b + n \<le> unat b)"

fun legal_split :: "burst_rules \<Rightarrow> nat \<Rightarrow> nat \<Rightarrow> nat list \<Rightarrow> bool" where
  "legal_split rules s e [] = True"
| "legal_split rules s e (c # cs) =
    (0 < c \<and> c \<le> unat (br_burst rules) \<and> within_block (br_sram rules) s c \<and>
     within_block (br_external rules) e c \<and> legal_split rules (s + c) (e + c) cs)"

definition rules_ok :: "burst_rules \<Rightarrow> bool" where
  "rules_ok rules \<longleftrightarrow> br_burst rules \<noteq> 0 \<and> br_sram rules \<noteq> Some 0 \<and> br_external rules \<noteq> Some 0"

lemma within_block_mono: "within_block b a n \<Longrightarrow> m \<le> n \<Longrightarrow> within_block b a m"
  by (cases b) auto

lemma clip_to_room_ok:
  assumes "b \<noteq> Some 0" "c \<noteq> 0"
  shows "within_block b (unat a) (unat (clip_to_room b a c)) \<and> clip_to_room b a c \<noteq> 0"
proof (cases b)
  case (Some w)
  have w: "0 < unat w" using assms(1) Some by (auto simp: unat_gt_0)
  have m: "unat (a mod w) = unat a mod unat w" by (simp add: unat_mod_distrib)
  then have "a mod w \<le> w" using w by (simp add: word_le_nat_alt)
  then have room: "unat (w - a mod w) = unat w - unat a mod unat w" by (simp add: unat_sub_le m)
  have lt: "unat a mod unat w < unat w" using w by simp
  show ?thesis
  proof (cases "c > w - a mod w")
    case True
    then have "clip_to_room b a c = w - a mod w" by (simp add: clip_to_room_def Some)
    moreover have "w - a mod w \<noteq> 0" using room lt by (metis unat_0 zero_less_diff less_irrefl)
    ultimately show ?thesis using room lt Some by simp
  next
    case False
    then have "clip_to_room b a c = c" "unat c \<le> unat w - unat a mod unat w"
      by (simp_all add: clip_to_room_def Some word_less_nat_alt not_less room)
    then show ?thesis using lt Some assms(2) by simp
  qed
qed (use assms in \<open>simp add: clip_to_room_def\<close>)

lemma chunk_at_ok:
  assumes "rules_ok rules" "n \<noteq> 0"
  shows "chunk_at rules s e n \<noteq> 0" "chunk_at rules s e n \<le> br_burst rules"
    "within_block (br_sram rules) (unat s) (unat (chunk_at rules s e n))"
    "within_block (br_external rules) (unat e) (unat (chunk_at rules s e n))"
proof -
  define c0 where "c0 = (if n < br_burst rules then n else br_burst rules)"
  define c1 where "c1 = clip_to_room (br_sram rules) s c0"
  have c0: "c0 \<noteq> 0" "c0 \<le> br_burst rules" using assms by (auto simp: c0_def rules_ok_def)
  have c: "chunk_at rules s e n = clip_to_room (br_external rules) e c1"
    by (simp add: chunk_at_def c1_def c0_def)
  have c1: "within_block (br_sram rules) (unat s) (unat c1)" "c1 \<noteq> 0"
    using clip_to_room_ok [of "br_sram rules" c0 s] assms(1) c0(1) by (auto simp: c1_def rules_ok_def)
  have le: "chunk_at rules s e n \<le> c1" "c1 \<le> c0" unfolding c by (simp_all add: clip_le c1_def)
  show "chunk_at rules s e n \<noteq> 0"
    "within_block (br_external rules) (unat e) (unat (chunk_at rules s e n))"
    using clip_to_room_ok [of "br_external rules" c1 e] assms(1) c1(2) by (auto simp: c rules_ok_def)
  show "chunk_at rules s e n \<le> br_burst rules" using le c0(2) by simp
  show "within_block (br_sram rules) (unat s) (unat (chunk_at rules s e n))"
    using c1(1) le(1) by (rule within_block_mono [OF _ word_le_nat_alt [THEN iffD1]])
qed

lemma segment_split:
  assumes "rules_ok rules" "unat s + unat n < 18446744073709551616" "unat e + unat n < 18446744073709551616"
  shows "\<exists>cs. legal_split rules (unat s) (unat e) cs \<and> sum_list cs = unat n \<and>
    add_address_bounded_segment rules s e n b p
      = (b + of_nat (length cs), p + sum_list (map (\<lambda>c. ceil_div_u64 (of_nat c) (br_bus rules)) cs))"
  using assms
proof (induction rules s e n b p rule: add_address_bounded_segment.induct)
  case (1 rules s e n b p)
  show ?case
  proof (cases "n = 0")
    case True
    then show ?thesis
      by (intro exI [of _ "[]"]) (simp add: add_address_bounded_segment.simps)
  next
    case False
    let ?c = "chunk_at rules s e n"
    note c = chunk_at_ok [OF "1.prems"(1) False, where s = s and e = e]
    have le: "unat ?c \<le> unat n" using chunk_at_le [of rules s e n] by (simp add: word_le_nat_alt)
    have u: "unat (s + ?c) = unat s + unat ?c" "unat (e + ?c) = unat e + unat ?c"
      "unat (n - ?c) = unat n - unat ?c"
      using "1.prems"(2,3) le chunk_at_le [of rules s e n] by (simp_all add: u64_add_exact unat_sub_le)
    have "\<exists>cs. legal_split rules (unat (s + ?c)) (unat (e + ?c)) cs \<and> sum_list cs = unat (n - ?c) \<and>
      add_address_bounded_segment rules (s + ?c) (e + ?c) (n - ?c) (b + 1) (p + ceil_div_u64 ?c (br_bus rules))
        = (b + 1 + of_nat (length cs), p + ceil_div_u64 ?c (br_bus rules)
            + sum_list (map (\<lambda>c. ceil_div_u64 (of_nat c) (br_bus rules)) cs))"
      by (rule "1.IH" [OF False refl c(1) "1.prems"(1)]) (use "1.prems"(2,3) u le in linarith)+
    then obtain cs where cs: "legal_split rules (unat (s + ?c)) (unat (e + ?c)) cs"
      "sum_list cs = unat (n - ?c)"
      "add_address_bounded_segment rules (s + ?c) (e + ?c) (n - ?c) (b + 1) (p + ceil_div_u64 ?c (br_bus rules))
        = (b + 1 + of_nat (length cs), p + ceil_div_u64 ?c (br_bus rules)
            + sum_list (map (\<lambda>c. ceil_div_u64 (of_nat c) (br_bus rules)) cs))"
      by blast
    show ?thesis
    proof (intro exI [of _ "unat ?c # cs"] conjI)
      show "legal_split rules (unat s) (unat e) (unat ?c # cs)"
        using cs(1) c u by (simp add: unat_gt_0 word_le_nat_alt)
      show "sum_list (unat ?c # cs) = unat n" using cs(2) u(3) le by simp
      show "add_address_bounded_segment rules s e n b p
          = (b + of_nat (length (unat ?c # cs)),
             p + sum_list (map (\<lambda>c. ceil_div_u64 (of_nat c) (br_bus rules)) (unat ?c # cs)))"
        using cs(3) False c(1)
        by (subst add_address_bounded_segment.simps) (simp add: Let_def add.assoc)
    qed
  qed
qed

lemma segment_rules_ok: "engine_ok g \<Longrightarrow> rules_ok (segment_rules g desc)"
proof -
  assume ok: "engine_ok g"
  have "16 \<le> unat (e_read_max_burst g)" "16 \<le> unat (e_write_max_burst g)"
    using ok by (simp_all add: engine_ok_def word_le_nat_alt)
  then have "unat (ucast (descriptor_burst_bytes g desc) :: u64) \<noteq> 0"
    by (auto simp: descriptor_burst_bytes_def)
  then have "(ucast (descriptor_burst_bytes g desc) :: u64) \<noteq> 0" by (metis unat_0)
  then show ?thesis by (simp add: rules_ok_def segment_rules_def Let_def)
qed

lemma drr_quantum_pos:
  assumes "engine_ok g" shows "1 \<le> unat (drr_quantum g)"
  using assms
  by (auto simp: engine_ok_def drr_quantum_def word_le_nat_alt)

section \<open>Properties\<close>

text \<open>
  Bursts respect every limit. On a usable engine with an address-bounded mode, a linear
  descriptor whose SRAM and external ranges do not wrap around is split into bursts that follow
  each other, move exactly its bytes, are non-empty, at most one burst size long, and cross
  neither an SRAM nor an external boundary of the mode; the burst count is their number and the
  payload cycles are the sum of their bus cycles.
\<close>

theorem linear_bursts_are_legal:
  assumes "engine_ok g" "d_type desc = TU_DMA_XFER_LINEAR" "d_total_bytes desc \<noteq> 0"
    "e_boundary_mode g \<noteq> TU_DMA_BOUNDARY_SIZE_ONLY"
    "unat (d_external_address desc) + unat (d_total_bytes desc) < 18446744073709551616"
  shows "\<exists>cs. legal_split (segment_rules g desc) (unat (descriptor_sram_base desc))
        (unat (d_external_address desc)) cs
    \<and> sum_list cs = unat (d_total_bytes desc)
    \<and> descriptor_burst_count g desc = of_nat (length cs)
    \<and> snd (descriptor_address_bounded_totals g desc)
        = sum_list (map (\<lambda>c. ceil_div_u64 (of_nat c) (ucast (e_bus_width_bytes g))) cs)"
proof -
  have b: "unat (descriptor_sram_base desc) + unat (ucast (d_total_bytes desc) :: u64) < 18446744073709551616"
  proof -
    have "unat (descriptor_sram_base desc) < 4294967296" by (simp add: descriptor_sram_base_def)
    moreover have "unat (d_total_bytes desc) < 4294967296" by simp
    ultimately show ?thesis by (simp del: unat_u32_less)
  qed
  have nz: "descriptor_logical_segment_bytes desc \<noteq> 0"
    using assms(2,3) by (metis descriptor_logical_segment_bytes_def dma_xfer.simps(31) unat_0 unat_eq_0 unat_ucast_32_64)
  then have t: "descriptor_address_bounded_totals g desc
      = add_address_bounded_segment (segment_rules g desc) (descriptor_sram_base desc)
          (d_external_address desc) (ucast (d_total_bytes desc)) 0 0"
    using assms(2,3)
    by (simp add: descriptor_address_bounded_totals_def segment_starts_def segment_length_def
        split: prod.split)
  have bus: "br_bus (segment_rules g desc) = ucast (e_bus_width_bytes g)"
    by (simp add: segment_rules_def Let_def)
  show ?thesis
    using segment_split [where b = 0 and p = 0 and e = "d_external_address desc",
        OF segment_rules_ok [OF assms(1), of desc] b] assms(3-5)
    by (auto simp: t descriptor_burst_count_def Let_def bus)
qed

definition edge_load :: dma_desc where
  "edge_load = (tu_dma_desc_create_linear 1 0 TU_DMA_DIR_HOST_TO_TU (Some 0) 0 64 1 100)
     \<lparr>d_external_address := 4000, d_external_valid := True\<rparr>"

text \<open>An initialised engine whose bursts must not cross 4 KiB external boundaries.\<close>

definition external_4k_engine :: dma_engine where
  "external_4k_engine =
    init_service (plain_params\<lparr>p_max_burst := 256, p_boundary_mode := 3\<rparr>)"

lemma external_4k_engine_ok:
  "engine_ok external_4k_engine" "e_boundary_mode external_4k_engine = TU_DMA_BOUNDARY_EXTERNAL_4K"
  by code_simp+

theorem linear_bursts_are_legal_witness:
  "\<exists>cs. legal_split (segment_rules external_4k_engine edge_load) 0 4000 cs \<and> sum_list cs = 100
    \<and> descriptor_burst_count external_4k_engine edge_load = of_nat (length cs)"
proof -
  have "d_type edge_load = TU_DMA_XFER_LINEAR" "d_total_bytes edge_load = 100"
    "d_external_address edge_load = 4000" "descriptor_sram_base edge_load = 0"
    by code_simp+
  then show ?thesis
    using linear_bursts_are_legal [OF external_4k_engine_ok(1), of edge_load] external_4k_engine_ok(2)
    by auto
qed

text \<open>The settings that the times of a transfer depend on.\<close>

definition same_timing :: "dma_engine \<Rightarrow> dma_engine \<Rightarrow> bool" where
  "same_timing g g' \<longleftrightarrow> e_bus_width_bytes g' = e_bus_width_bytes g \<and>
    e_read_max_burst g' = e_read_max_burst g \<and> e_write_max_burst g' = e_write_max_burst g \<and>
    e_boundary_mode g' = e_boundary_mode g \<and> e_segmentation g' = e_segmentation g \<and>
    e_payload_scope g' = e_payload_scope g \<and> e_base_scope g' = e_base_scope g \<and>
    e_issue_mode g' = e_issue_mode g \<and> e_read_latency g' = e_read_latency g \<and>
    e_write_latency g' = e_write_latency g \<and> e_read_burst_issue g' = e_read_burst_issue g \<and>
    e_write_burst_issue g' = e_write_burst_issue g"

lemma same_timing_cycles:
  assumes "same_timing g g'"
  shows "descriptor_payload_cycles g' d = descriptor_payload_cycles g d"
    "descriptor_burst_count g' d = descriptor_burst_count g d"
    "combine_payload_issue_cycles g' = combine_payload_issue_cycles g"
    "descriptor_transfer_cycles g' d = descriptor_transfer_cycles g d"
proof -
  note s = assms [unfolded same_timing_def]
  have b: "descriptor_burst_bytes g' d = descriptor_burst_bytes g d"
    using s by (simp add: descriptor_burst_bytes_def)
  then have "segment_rules g' d = segment_rules g d" using s by (simp add: segment_rules_def Let_def)
  then have t: "descriptor_address_bounded_totals g' d = descriptor_address_bounded_totals g d"
    by (simp add: descriptor_address_bounded_totals_def)
  show p: "descriptor_payload_cycles g' d = descriptor_payload_cycles g d"
    using s by (simp add: descriptor_payload_cycles_def b t burst_aligned_payload_cycles_def Let_def)
  show n: "descriptor_burst_count g' d = descriptor_burst_count g d"
    using s by (simp add: descriptor_burst_count_def b t Let_def)
  show c: "combine_payload_issue_cycles g' = combine_payload_issue_cycles g"
    using s by (simp add: fun_eq_iff combine_payload_issue_cycles_def Let_def)
  have "descriptor_base_cycles g' d = descriptor_base_cycles g d"
    "descriptor_burst_issue_cycles g' d = descriptor_burst_issue_cycles g d"
    using s by (simp_all add: descriptor_base_cycles_def descriptor_burst_issue_cycles_def Let_def)
  then show "descriptor_transfer_cycles g' d = descriptor_transfer_cycles g d"
    unfolding descriptor_transfer_cycles_def p n c by simp
qed

lemma granularity_irrelevant:
  "descriptor_transfer_cycles (g\<lparr>e_drr_cost_granularity := x\<rparr>) d = descriptor_transfer_cycles g d"
  "descriptor_payload_cycles (g\<lparr>e_drr_cost_granularity := x\<rparr>) d = descriptor_payload_cycles g d"
  by (rule same_timing_cycles, simp add: same_timing_def)+

lemma round_up_nat:
  assumes "0 < (q :: nat)"
  shows "c \<le> ((c + q - 1) div q) * q" "((c + q - 1) div q) * q < c + q"
proof -
  let ?m = "(c + q - 1) mod q"
  have e: "((c + q - 1) div q) * q + ?m = c + q - 1" by simp
  have m: "?m \<le> q - 1" using assms by (metis Suc_pred' less_Suc_eq_le mod_less_divisor)
  show "c \<le> ((c + q - 1) div q) * q" "((c + q - 1) div q) * q < c + q"
    using e m assms by linarith+
qed

text \<open>
  Rounded arbitration costs. With rounding to the quantum, a usable engine charges for a
  descriptor the least multiple of the quantum that is at least its exact cost, and where that
  multiple would leave 64 bits it charges the largest 64-bit value; the charge is never below the
  exact cost.
\<close>

theorem rounded_cost_is_least_multiple:
  assumes "engine_ok g"
  shows "let exact = unat (descriptor_drr_cost (g\<lparr>e_drr_cost_granularity := TU_DMA_DRR_COST_EXACT\<rparr>) desc);
             rounded = unat (descriptor_drr_cost (g\<lparr>e_drr_cost_granularity := TU_DMA_DRR_COST_QUANTUM_ROUNDED\<rparr>) desc);
             q = unat (drr_quantum g)
         in exact \<le> rounded \<and>
            (if exact + (q - 1) \<le> 18446744073709551615 then q dvd rounded \<and> rounded < exact + q
             else rounded = 18446744073709551615)"
proof -
  define c where "c = descriptor_drr_cost (g\<lparr>e_drr_cost_granularity := TU_DMA_DRR_COST_EXACT\<rparr>) desc"
  let ?q = "drr_quantum g"
  have q: "1 \<le> unat ?q" by (rule drr_quantum_pos [OF assms])
  have r: "descriptor_drr_cost (g\<lparr>e_drr_cost_granularity := TU_DMA_DRR_COST_QUANTUM_ROUNDED\<rparr>) desc
    = (if c = 0 then 0 else if c > UINT64_MAX - (?q - 1) then UINT64_MAX
       else ((c + ?q - 1) div ?q) * ?q)"
    by (simp add: c_def descriptor_drr_cost_def granularity_irrelevant Let_def drr_quantum_def
        split: drr_cost_mode.split)
  have q1: "unat (?q - 1) = unat ?q - 1"
    using q by (subst unat_sub_le) (simp_all add: word_le_nat_alt)
  have "unat (?q - 1) \<le> 18446744073709551615" using unat_u64_less [of "?q - 1"] by linarith
  then have lim: "unat (UINT64_MAX - (?q - 1)) = 18446744073709551615 - (unat ?q - 1)"
    using q1 by (subst unat_sub_le) (simp_all add: word_le_nat_alt)
  have cl: "unat c \<le> 18446744073709551615" using unat_u64_less [of c] by linarith
  have big: "c > UINT64_MAX - (?q - 1) \<longleftrightarrow> \<not> unat c + (unat ?q - 1) \<le> 18446744073709551615"
    using lim \<open>unat (?q - 1) \<le> 18446744073709551615\<close> q1 by (auto simp: word_less_nat_alt)
  show ?thesis
  proof (cases "c = 0 \<or> c > UINT64_MAX - (?q - 1)")
    case True
    have "c = 0 \<Longrightarrow> unat ?q - 1 \<le> 18446744073709551615"
      using unat_u64_less [of ?q] by linarith
    then show ?thesis using True big cl q unfolding r c_def [symmetric] Let_def by auto
  next
    case False
    then have fit: "unat c + (unat ?q - 1) \<le> 18446744073709551615" using big by blast
    have "unat (c + ?q - 1) = unat c + unat ?q - 1"
    proof -
      have "unat (c + (?q - 1)) = unat c + (unat ?q - 1)" using fit q1 by (simp add: u64_add_exact)
      then show ?thesis using q by (simp add: add_diff_eq)
    qed
    then have d: "unat ((c + ?q - 1) div ?q) = (unat c + unat ?q - 1) div unat ?q"
      by (simp add: unat_div)
    note up = round_up_nat [of "unat ?q" "unat c"]
    have mul: "unat (((c + ?q - 1) div ?q) * ?q) = ((unat c + unat ?q - 1) div unat ?q) * unat ?q"
      using d up q fit by (subst u64_mult_exact) simp_all
    show ?thesis using False up q fit mul unfolding r c_def [symmetric] Let_def by simp
  qed
qed

theorem rounded_cost_is_least_multiple_witness:
  "100 \<le> unat (descriptor_drr_cost (external_4k_engine\<lparr>e_drr_cost_granularity := TU_DMA_DRR_COST_QUANTUM_ROUNDED\<rparr>) edge_load)
   \<and> 256 dvd unat (descriptor_drr_cost (external_4k_engine\<lparr>e_drr_cost_granularity := TU_DMA_DRR_COST_QUANTUM_ROUNDED\<rparr>) edge_load)"
proof -
  have "descriptor_drr_cost (external_4k_engine\<lparr>e_drr_cost_granularity := TU_DMA_DRR_COST_EXACT\<rparr>) edge_load = 100"
    "drr_quantum external_4k_engine = 256"
    by code_simp+
  then show ?thesis
    using rounded_cost_is_least_multiple [OF external_4k_engine_ok(1), of edge_load] by (simp add: Let_def)
qed

end
