(* ===== verification/Dma_Engine.thy ===== *)
theory Dma_Engine
  imports Dma_Timing
begin

text \<open>
  The running DMA engine of \<open>dma_descriptor.c\<close>: executing a descriptor with its accounting and SRAM
  bandwidth stalls, submission with channel binding, the tick with its arbiters, flushing, and the
  two transfers of the legacy interface. The state is the engine and the memory. A submitted
  descriptor is not modified by its owner afterwards and is submitted once.

  The \<open>while\<close> loop of deficit round robin is a partial function: \<open>None\<close> would be divergence.
\<close>

type_synonym dma_sys = "dma_engine \<times> dma_mem"

abbreviation upd_channel :: "nat \<Rightarrow> (dma_channel \<Rightarrow> dma_channel) \<Rightarrow> dma_engine \<Rightarrow> dma_engine" where
  "upd_channel i f g \<equiv> g\<lparr>e_channels := (e_channels g)[i := f (e_channels g ! i)]\<rparr>"

section \<open>Executing a descriptor\<close>

definition needs_external :: "dma_engine \<Rightarrow> bool" where
  "needs_external g \<longleftrightarrow> e_boundary_mode g \<in> {TU_DMA_BOUNDARY_EXTERNAL_4K, TU_DMA_BOUNDARY_BOTH_4K,
     TU_DMA_BOUNDARY_EXTERNAL_ADDRESS, TU_DMA_BOUNDARY_BOTH_ADDRESS}"

text \<open>The region whose bandwidth a transfer uses, whether it is read, and the offset metered.\<close>

definition metered_region :: "dma_desc \<Rightarrow> (nat \<times> bool \<times> u32) option" where
  "metered_region desc =
    (if d_type desc = TU_DMA_XFER_MULTICAST then None
     else case d_direction desc of
            TU_DMA_DIR_HOST_TO_TU \<Rightarrow> map_option (\<lambda>k. (k, False, d_dst_base desc)) (d_dst_region desc)
          | TU_DMA_DIR_TU_TO_HOST \<Rightarrow> map_option (\<lambda>k. (k, True, d_src_base desc)) (d_src_region desc)
          | TU_DMA_DIR_TU_TO_TU \<Rightarrow> None)"

definition dma_word_step ::
  "bool \<Rightarrow> u32 \<Rightarrow> u64 \<times> tu_sram_region \<Rightarrow> nat \<Rightarrow> u64 \<times> tu_sram_region" where
  "dma_word_step is_read base acc i =
    (let (stall, r) = acc; b = sr_banks r;
         off = base + of_nat i * sb_bank_width b;
         bank = unat (tu_sram_bank_index r off)
     in case sb_bw_banks b of
          None \<Rightarrow> (stall, r)
        | Some banks \<Rightarrow>
            let bw = banks ! bank;
                ready = (bw_words_available bw > 0);
                bw = (if ready then
                        (let bw = bw\<lparr>bw_words_available := bw_words_available bw - 1\<rparr>
                         in if is_read then bw\<lparr>bw_reads_served := bw_reads_served bw + 1\<rparr>
                            else bw\<lparr>bw_writes_served := bw_writes_served bw + 1\<rparr>)
                      else if is_read then bw\<lparr>bw_read_stalls := bw_read_stalls bw + 1\<rparr>
                      else bw\<lparr>bw_write_stalls := bw_write_stalls bw + 1\<rparr>)
            in (if ready then stall else stall + ucast (sb_stall_penalty b),
                r\<lparr>sr_banks := b\<lparr>sb_bw_banks := Some (banks[bank := bw])\<rparr>\<rparr>))"

definition dma_sram_stalls :: "dma_desc \<Rightarrow> u64 \<Rightarrow> dma_mem \<Rightarrow> u64 \<times> dma_mem" where
  "dma_sram_stalls desc transfer_cycles m =
    (case metered_region desc of
       None \<Rightarrow> (0, m)
     | Some (k, is_read, base) \<Rightarrow>
        let r = dm_regions m ! k; b = sr_banks r
        in if \<not> sb_bw_modeling b then (0, m)
           else let words = (d_total_bytes desc + sb_bank_width b - 1) div sb_bank_width b;
                    (stall, r') = foldl (dma_word_step is_read base)
                                    (0, tu_sram_advance_cycle r transfer_cycles) [0..<unat words]
                in (stall, m\<lparr>dm_regions := (dm_regions m)[k := r']\<rparr>))"

definition account_transfer :: "dma_desc \<Rightarrow> u64 \<Rightarrow> u64 \<Rightarrow> dma_engine \<Rightarrow> dma_engine" where
  "account_transfer desc payload transfer g0 =
    (let occupied = payload * ucast (e_bus_width_bytes g0);
         g = g0\<lparr>e_bytes := e_bytes g0 + ucast (d_total_bytes desc),
               e_occupied_bytes := e_occupied_bytes g0 + occupied,
               e_transfers := e_transfers g0 + 1,
               e_estimated_cycles := e_estimated_cycles g0 + transfer\<rparr>
     in if ucast (d_channel desc) < e_num_channels g
        then upd_channel (unat (d_channel desc))
               (\<lambda>ch. ch\<lparr>ch_bytes := ch_bytes ch + ucast (d_total_bytes desc),
                        ch_occupied_bytes := ch_occupied_bytes ch + occupied,
                        ch_cycles := ch_cycles ch + transfer\<rparr>) g
        else g)"

text \<open>A rejected descriptor changes nothing, itself included. \<open>Xfer_outside\<close> is unreachable for
  well-formed descriptors.\<close>

definition tu_dma_execute_desc :: "dma_desc \<Rightarrow> dma_sys \<Rightarrow> dma_desc \<times> dma_sys" where
  "tu_dma_execute_desc desc s =
    (let (g, m) = s
     in if d_completed desc then (desc, s)
        else if \<not> descriptor_sram_spans_valid (dm_regions m) desc then (desc, s)
        else if needs_external g \<and> \<not> d_external_valid desc then (desc, s)
        else case dma_transfer desc m of
               Xfer_null \<Rightarrow> (desc, s)
             | Xfer_outside \<Rightarrow> (desc, s)
             | Xfer_done m' \<Rightarrow>
                 let payload = descriptor_payload_cycles g desc;
                     transfer = descriptor_transfer_cycles g desc;
                     (stall, m'') = dma_sram_stalls desc transfer m';
                     transfer = transfer + stall
                 in (desc\<lparr>d_completed := True, d_cycles_completed := e_cycle g + transfer\<rparr>,
                     account_transfer desc payload transfer g, m''))"

section \<open>Submission\<close>

definition channel_assigned_bytes :: "dma_channel \<Rightarrow> u64" where
  "channel_assigned_bytes ch =
    (case ch_active ch of None \<Rightarrow> 0 | Some d \<Rightarrow> ucast (d_total_bytes d))
    + sum_list (map (\<lambda>d. ucast (d_total_bytes d)) (ch_queue ch))"

definition descriptor_coarse_cycles :: "dma_engine \<Rightarrow> dma_desc \<Rightarrow> u64" where
  "descriptor_coarse_cycles g desc = descriptor_transfer_cycles g desc"

definition channel_projected_cycles :: "dma_engine \<Rightarrow> dma_channel \<Rightarrow> u64" where
  "channel_projected_cycles g ch =
    (case ch_active ch of
       None \<Rightarrow> 0
     | Some d \<Rightarrow> if d_cycles_completed d > e_cycle g then d_cycles_completed d - e_cycle g else 0)
    + sum_list (map (descriptor_coarse_cycles g) (ch_queue ch))"

definition channel_outstanding :: "dma_channel \<Rightarrow> u32" where
  "channel_outstanding ch = ch_depth ch + (if ch_active ch \<noteq> None then 1 else 0)"

text \<open>The scan for a least loaded channel from the binding cursor: the first strict minimum.\<close>

definition least_channel :: "dma_engine \<Rightarrow> (dma_channel \<Rightarrow> 'k :: linorder) \<Rightarrow> 'k \<Rightarrow> u32 \<Rightarrow> u32" where
  "least_channel g key best0 ch0 =
    snd (foldl (\<lambda>(best, ch) probe.
           let i = (e_next_binding g + of_nat probe) mod e_num_channels g;
               v = key (e_channels g ! unat i)
           in if v < best then (v, i) else (best, ch))
         (best0, ch0) [0..<unat (e_num_channels g)])"

definition bind_channel :: "dma_engine \<Rightarrow> dma_desc \<Rightarrow> u32" where
  "bind_channel g desc =
    (let own = ucast (d_channel desc)
     in case e_binding_policy g of
          TU_DMA_BIND_EXPLICIT \<Rightarrow> own
        | TU_DMA_BIND_ROUND_ROBIN \<Rightarrow> e_next_binding g
        | TU_DMA_BIND_LEAST_OUTSTANDING \<Rightarrow> least_channel g channel_outstanding UINT32_MAX own
        | TU_DMA_BIND_LEAST_BYTES \<Rightarrow> least_channel g channel_assigned_bytes UINT64_MAX own
        | TU_DMA_BIND_LEAST_PROJECTED_CYCLES \<Rightarrow>
            least_channel g (channel_projected_cycles g) UINT64_MAX own)"

text \<open>Linking a chain behind \<open>tail\<close>: what followed \<open>tail\<close> is cut off, and a \<open>tail\<close> that has left the
  list takes the new chain with it.\<close>

definition enqueue_chain :: "dma_desc list \<Rightarrow> dma_channel \<Rightarrow> dma_channel" where
  "enqueue_chain chain ch0 =
    (let ch = (if ch_queue ch0 = [] then ch0\<lparr>ch_queue := chain, ch_tail := Some 0\<rparr>
               else case ch_tail ch0 of
                      Some k \<Rightarrow> ch0\<lparr>ch_queue := take (Suc k) (ch_queue ch0) @ chain, ch_tail := Some (Suc k)\<rparr>
                    | None \<Rightarrow> ch0)
     in ch\<lparr>ch_depth := ch_depth ch + 1, ch_submitted := ch_submitted ch + 1\<rparr>)"

definition stamp_desc :: "dma_engine \<Rightarrow> dma_desc \<Rightarrow> dma_desc" where
  "stamp_desc g d = d\<lparr>d_epoch_submitted := e_epoch g, d_epoch_eligible := e_epoch g,
     d_cycle_submitted := e_cycle g, d_cycle_eligible := e_cycle g\<rparr>"

text \<open>Run the descriptors of a queue one by one, each leaving it when it is done.\<close>

definition drain_one :: "nat \<Rightarrow> dma_sys \<Rightarrow> dma_desc \<Rightarrow> dma_sys" where
  "drain_one i s d =
    (let (_, g, m) = tu_dma_execute_desc d s
     in (upd_channel i (\<lambda>ch. ch\<lparr>ch_queue := tl (ch_queue ch), ch_depth := ch_depth ch - 1,
                                 ch_completed := ch_completed ch + 1\<rparr>) g, m))"

definition drain_queue :: "nat \<Rightarrow> dma_sys \<Rightarrow> dma_sys" where
  "drain_queue i s =
    (let (g, m) = foldl (drain_one i) s (ch_queue (e_channels (fst s) ! i))
     in (upd_channel i (\<lambda>ch. ch\<lparr>ch_tail := None\<rparr>) g, m))"

text \<open>The gates of a submission: \<open>None\<close> is a rejection, \<open>Some\<close> the channel bound.\<close>

definition submit_gate :: "dma_desc list \<Rightarrow> dma_sys \<Rightarrow> u32 option" where
  "submit_gate chain s =
    (let (g, m) = s
     in if \<not> list_all (descriptor_sram_spans_valid (dm_regions m)) chain then None
        else if needs_external g \<and> \<not> list_all d_external_valid chain then None
        else let cid = bind_channel g (hd chain)
     in if cid \<ge> e_num_channels g then None
        else let ch = e_channels g ! unat cid
     in if channel_outstanding ch \<ge> ch_max_depth ch \<and> ch_max_depth ch > 0 then None
        else Some cid)"

text \<open>Committing it: automatic binding, the clocks of every descriptor, the queue.\<close>

definition submit_commit :: "dma_desc list \<Rightarrow> u32 \<Rightarrow> dma_engine \<Rightarrow> dma_engine" where
  "submit_commit chain cid g0 =
    (let auto_bind = (e_binding_policy g0 \<noteq> TU_DMA_BIND_EXPLICIT);
         desc = (if auto_bind then (hd chain)\<lparr>d_channel := ucast cid\<rparr> else hd chain);
         g = (if auto_bind then g0\<lparr>e_next_binding := (cid + 1) mod e_num_channels g0\<rparr> else g0)
     in upd_channel (unat cid) (enqueue_chain (map (stamp_desc g) (desc # tl chain))) g)"

text \<open>The chain is not empty; a rejection returns 0 and leaves the state (the chain is destroyed).\<close>

definition tu_dma_submit_desc :: "dma_desc list \<Rightarrow> dma_sys \<Rightarrow> u32 \<times> dma_sys" where
  "tu_dma_submit_desc chain s =
    (case submit_gate chain s of
       None \<Rightarrow> (0, s)
     | Some cid \<Rightarrow>
        let g = submit_commit chain cid (fst s)
        in (d_id (hd chain), if e_async g then (g, snd s) else drain_queue (unat cid) (g, snd s)))"

section \<open>The tick\<close>

definition pop_tail :: "nat option \<Rightarrow> nat option" where
  "pop_tail t = (case t of Some (Suc k) \<Rightarrow> Some k | _ \<Rightarrow> None)"

definition pop_head :: "dma_channel \<Rightarrow> dma_channel" where
  "pop_head ch = ch\<lparr>ch_active := Some (hd (ch_queue ch)), ch_queue := tl (ch_queue ch),
     ch_tail := pop_tail (ch_tail ch), ch_depth := ch_depth ch - 1\<rparr>"

text \<open>Execute the active descriptor of channel \<open>i\<close>.\<close>

definition execute_active :: "nat \<Rightarrow> dma_sys \<Rightarrow> dma_sys" where
  "execute_active i s =
    (case ch_active (e_channels (fst s) ! i) of
       None \<Rightarrow> s
     | Some d \<Rightarrow>
        let (d', g, m) = tu_dma_execute_desc d s
        in (upd_channel i (\<lambda>ch. ch\<lparr>ch_active := Some d'\<rparr>) g, m))"

definition start_head :: "nat \<Rightarrow> dma_sys \<Rightarrow> dma_sys" where
  "start_head i s = execute_active i (upd_channel i pop_head (fst s), snd s)"

definition retire_due :: "u64 \<Rightarrow> dma_channel \<Rightarrow> bool" where
  "retire_due now ch = (case ch_active ch of None \<Rightarrow> False | Some d \<Rightarrow> d_cycles_completed d \<le> now)"

definition tick_channel :: "dma_sys \<times> int \<Rightarrow> nat \<Rightarrow> dma_sys \<times> int" where
  "tick_channel st i =
    (let ((g, m), completed) = st;
         due = retire_due (e_cycle g) (e_channels g ! i);
         g = (if due then upd_channel i (\<lambda>ch. ch\<lparr>ch_active := None, ch_completed := ch_completed ch + 1\<rparr>) g
              else g);
         completed = (if due then completed + 1 else completed);
         ch = e_channels g ! i
     in if e_bus_mode g = TU_DMA_BUS_MODE_INDEPENDENT \<and> ch_active ch = None \<and> ch_queue ch \<noteq> []
        then (start_head i (g, m), completed) else ((g, m), completed))"

definition shared_index :: "dma_engine \<Rightarrow> nat \<Rightarrow> nat" where
  "shared_index g probe = unat ((e_next_shared g + of_nat probe) mod e_num_channels g)"

text \<open>Deficit round robin: an idle queue, the credit grant of a visit, taking the head of a queue, and
  where the cursor goes after its transfer.\<close>

definition drr_idle :: "nat \<Rightarrow> dma_engine \<Rightarrow> dma_engine" where
  "drr_idle i g0 =
    (let g = (if e_drr_idle_policy g0 = TU_DMA_DRR_IDLE_RESET
              then upd_channel i (\<lambda>ch. ch\<lparr>ch_credits := 0\<rparr>) g0 else g0)
     in if e_drr_continue g \<and> e_drr_continue_channel g = of_nat i then g\<lparr>e_drr_continue := False\<rparr>
        else g)"

definition drr_grant :: "nat \<Rightarrow> dma_engine \<Rightarrow> dma_engine" where
  "drr_grant i g0 =
    (let continuing = (e_drr_continue g0 \<and> e_drr_continue_channel g0 = of_nat i);
         w = e_drr_weights g0 ! i;
         weight = (if w \<noteq> 0 then ucast w else 1) :: u64;
         quantum = drr_quantum g0;
         grant = (if quantum > UINT64_MAX div weight then UINT64_MAX else quantum * weight);
         g = (if continuing then g0
              else upd_channel i (\<lambda>ch. ch\<lparr>ch_credits :=
                     (if UINT64_MAX - ch_credits ch < grant then UINT64_MAX
                      else ch_credits ch + grant)\<rparr>) g0)
     in g\<lparr>e_drr_continue := False\<rparr>)"

definition drr_take :: "nat \<Rightarrow> nat \<Rightarrow> dma_engine \<Rightarrow> dma_engine" where
  "drr_take i probe g =
    (let cost = descriptor_drr_cost g (hd (ch_queue (e_channels g ! i)));
         g = upd_channel i (\<lambda>ch. ch\<lparr>ch_credits := ch_credits ch - cost\<rparr>) g;
         g = drr_charge_select_delay (e_drr_select_issue_cycles g) (of_nat probe + 1) g;
         g = upd_channel i pop_head g
     in if ch_queue (e_channels g ! i) = [] \<and> e_drr_idle_policy g = TU_DMA_DRR_IDLE_RESET
        then upd_channel i (\<lambda>ch. ch\<lparr>ch_credits := 0\<rparr>) g else g)"

definition drr_move :: "nat \<Rightarrow> dma_engine \<Rightarrow> dma_engine" where
  "drr_move i g0 =
    (let ch = e_channels g0 ! i;
         g = (if e_drr_service_mode g0 = TU_DMA_DRR_SERVICE_WORK_CONSERVING \<and> ch_queue ch \<noteq> []
                 \<and> ch_credits ch \<ge> descriptor_drr_cost g0 (hd (ch_queue ch))
              then g0\<lparr>e_next_shared := of_nat i, e_drr_continue := True, e_drr_continue_channel := of_nat i\<rparr>
              else g0\<lparr>e_next_shared := (of_nat i + 1) mod e_num_channels g0\<rparr>)
     in g\<lparr>e_epoch := e_epoch g + 1\<rparr>)"

definition drr_serve :: "nat \<Rightarrow> nat \<Rightarrow> dma_sys \<Rightarrow> dma_sys" where
  "drr_serve i probe s =
    (let (g, m) = execute_active i (drr_take i probe (fst s), snd s) in (drr_move i g, m))"

text \<open>One round over the probes: whether a queue was selected, whether any had work, the state.\<close>

fun drr_scan :: "nat list \<Rightarrow> bool \<Rightarrow> dma_sys \<Rightarrow> bool \<times> bool \<times> dma_sys" where
  "drr_scan [] any s = (False, any, s)"
| "drr_scan (probe # probes) any (g, m) =
    (let i = shared_index g probe
     in if ch_queue (e_channels g ! i) = [] then drr_scan probes any (drr_idle i g, m)
        else let g' = drr_grant i g;
                 ch = e_channels g' ! i
             in if ch_credits ch < descriptor_drr_cost g' (hd (ch_queue ch))
                then drr_scan probes True (g', m)
                else (True, True, drr_serve i probe (g', m)))"

partial_function (option) drr_loop :: "dma_sys \<Rightarrow> dma_sys option" where
  "drr_loop s =
    (let (selected, any, s') = drr_scan [0..<unat (e_num_channels (fst s))] False s
     in if selected \<or> \<not> any then Some s'
        else drr_loop (drr_charge_round_delay (e_drr_round_issue_cycles (fst s')) (fst s'), snd s'))"

text \<open>The other policies: the best priority among the heads, then the first head that has it.\<close>

definition head_priority :: "dma_engine \<Rightarrow> dma_desc \<Rightarrow> u8" where
  "head_priority g d = (if e_arb_policy g = TU_DMA_ARB_AGING_PRIORITY
     then descriptor_effective_priority g d else d_priority d)"

definition uses_priority :: "dma_engine \<Rightarrow> bool" where
  "uses_priority g \<longleftrightarrow> e_arb_policy g = TU_DMA_ARB_STRICT_PRIORITY \<or> e_arb_policy g = TU_DMA_ARB_AGING_PRIORITY"

definition best_priority :: "dma_engine \<Rightarrow> u8" where
  "best_priority g =
    (if uses_priority g
     then foldl (\<lambda>best i. case ch_queue (e_channels g ! i) of
                   [] \<Rightarrow> best
                 | d # _ \<Rightarrow> (if head_priority g d > best then head_priority g d else best))
            0 [0..<unat (e_num_channels g)]
     else 0)"

definition grantable :: "dma_engine \<Rightarrow> u8 \<Rightarrow> nat \<Rightarrow> bool" where
  "grantable g best i =
    (case ch_queue (e_channels g ! i) of
       [] \<Rightarrow> False
     | d # _ \<Rightarrow> \<not> uses_priority g \<or> head_priority g d = best)"

definition mark_eligible :: "dma_engine \<Rightarrow> dma_channel \<Rightarrow> dma_channel" where
  "mark_eligible g ch =
    (case ch_queue ch of
       [] \<Rightarrow> ch
     | d # ds \<Rightarrow> ch\<lparr>ch_queue := d\<lparr>d_epoch_eligible := e_epoch g + 1, d_cycle_eligible := e_cycle g\<rparr> # ds\<rparr>)"

definition grant_bus :: "nat \<Rightarrow> dma_sys \<Rightarrow> dma_sys" where
  "grant_bus i s =
    (let (g, m) = s;
         g = upd_channel i pop_head g;
         g = upd_channel i (mark_eligible g) g;
         (g, m) = execute_active i (g, m)
     in (g\<lparr>e_next_shared := (of_nat i + 1) mod e_num_channels g, e_epoch := e_epoch g + 1\<rparr>, m))"

definition arbitrate :: "dma_sys \<Rightarrow> dma_sys" where
  "arbitrate s =
    (let g = fst s; best = best_priority g
     in case find (\<lambda>probe. grantable g best (shared_index g probe)) [0..<unat (e_num_channels g)] of
          None \<Rightarrow> s
        | Some probe \<Rightarrow> grant_bus (shared_index g probe) s)"

definition bus_busy :: "dma_engine \<Rightarrow> bool" where
  "bus_busy g \<longleftrightarrow> list_ex (\<lambda>ch. ch_active ch \<noteq> None) (take (unat (e_num_channels g)) (e_channels g))"

definition shared_service :: "dma_sys \<Rightarrow> dma_sys option" where
  "shared_service s =
    (if e_bus_mode (fst s) = TU_DMA_BUS_MODE_SHARED_SERIAL \<and> \<not> bus_busy (fst s)
     then (if e_arb_policy (fst s) = TU_DMA_ARB_DEFICIT_ROUND_ROBIN then drr_loop s
           else Some (arbitrate s))
     else Some s)"

definition tu_dma_tick :: "dma_sys \<Rightarrow> (dma_sys \<times> int) option" where
  "tu_dma_tick s =
    (let (g, m) = s; g = g\<lparr>e_cycle := e_cycle g + 1\<rparr>;
         (s', completed) = foldl tick_channel ((g, m), 0) [0..<unat (e_num_channels g)]
     in case shared_service s' of None \<Rightarrow> None | Some s'' \<Rightarrow> Some (s'', completed))"

section \<open>Flushing and the legacy interface\<close>

definition tu_dma_flush_channel :: "nat \<Rightarrow> dma_sys \<Rightarrow> dma_sys" where
  "tu_dma_flush_channel i s =
    (if i \<ge> unat (e_num_channels (fst s)) then s
     else let (g, m) = drain_queue i s
          in case ch_active (e_channels g ! i) of
               None \<Rightarrow> (g, m)
             | Some d \<Rightarrow>
                let (_, g, m) = tu_dma_execute_desc d (g, m)
                in (upd_channel i (\<lambda>ch. ch\<lparr>ch_active := None, ch_completed := ch_completed ch + 1\<rparr>) g, m))"

definition tu_dma_flush_all :: "dma_sys \<Rightarrow> dma_sys" where
  "tu_dma_flush_all s = foldl (\<lambda>s i. tu_dma_flush_channel i s) s [0..<unat (e_num_channels (fst s))]"

definition tu_dma_sync :: "dma_sys \<Rightarrow> dma_sys" where
  "tu_dma_sync s = tu_dma_flush_all s"

text \<open>The descriptor that times a legacy transfer, and the accounting. \<open>None\<close>: with a bus width or a
  burst size of 0, as before any initialisation, the code divides by zero.\<close>

definition legacy_timing :: "dma_dir \<Rightarrow> u32 \<Rightarrow> u32 \<Rightarrow> dma_desc" where
  "legacy_timing dir offset bytes =
    blank_desc\<lparr>d_type := TU_DMA_XFER_LINEAR, d_direction := dir,
      d_dst_base := (if dir = TU_DMA_DIR_TU_TO_HOST then 0 else offset),
      d_src_base := (if dir = TU_DMA_DIR_TU_TO_HOST then offset else 0), d_total_bytes := bytes\<rparr>"

definition legacy_account :: "dma_engine \<Rightarrow> dma_dir \<Rightarrow> u32 \<Rightarrow> u32 \<Rightarrow> dma_engine option" where
  "legacy_account g dir offset bytes =
    (let store = (dir = TU_DMA_DIR_TU_TO_HOST);
         g = g\<lparr>e_bytes := e_bytes g + ucast bytes, e_transfers := e_transfers g + 1,
               e_estimated_cycles := e_estimated_cycles g +
                 ucast (if store then e_write_latency g else e_read_latency g)\<rparr>;
         timing = legacy_timing dir offset bytes
     in if bytes \<noteq> 0 \<and> (e_bus_width_bytes g = 0 \<or> descriptor_burst_bytes g timing = 0) then None
        else Some (g\<lparr>e_estimated_cycles := e_estimated_cycles g +
               combine_payload_issue_cycles g (descriptor_payload_cycles g timing)
                 (descriptor_burst_count g timing)
                 (if store then e_write_burst_issue g else e_read_burst_issue g)\<rparr>))"

lemma legacy_account_load:
  assumes "e_bus_width_bytes g \<noteq> 0" "e_read_max_burst g \<noteq> 0"
  shows "legacy_account g TU_DMA_DIR_HOST_TO_TU offset bytes =
    Some (g\<lparr>e_bytes := e_bytes g + ucast bytes, e_transfers := e_transfers g + 1,
      e_estimated_cycles := e_estimated_cycles g + ucast (e_read_latency g) +
        combine_payload_issue_cycles g
          (descriptor_payload_cycles g (legacy_timing TU_DMA_DIR_HOST_TO_TU offset bytes))
          (descriptor_burst_count g (legacy_timing TU_DMA_DIR_HOST_TO_TU offset bytes)) (e_read_burst_issue g)\<rparr>)"
proof -
  let ?g = "g\<lparr>e_bytes := e_bytes g + ucast bytes, e_transfers := e_transfers g + 1,
    e_estimated_cycles := e_estimated_cycles g + ucast (e_read_latency g)\<rparr>"
  have "same_timing g ?g" by (simp add: same_timing_def)
  note same = same_timing_cycles [OF this]
  have "descriptor_burst_bytes ?g (legacy_timing TU_DMA_DIR_HOST_TO_TU offset bytes) = e_read_max_burst g"
    by (simp add: descriptor_burst_bytes_def legacy_timing_def)
  then show ?thesis using assms by (simp add: legacy_account_def same Let_def)
qed

text \<open>The legacy copies report an overflow and do nothing, or work on the primary buffer; the bounds test adds in 32 bits. \<open>None\<close> is a copy
  beyond the buffer, or undefined accounting.\<close>

datatype legacy_status = LEGACY_OK | TU_ERR_DMA_OVERFLOW

definition tu_dma_load :: "nat \<Rightarrow> u32 \<Rightarrow> u64 \<Rightarrow> u32 \<Rightarrow> dma_sys \<Rightarrow> (legacy_status \<times> dma_sys) option" where
  "tu_dma_load k offset host bytes s =
    (let (g, m) = s; r = dm_regions m ! k; data = sb_data (sr_banks r)
     in if offset + bytes > sr_total_size r then Some (TU_ERR_DMA_OVERFLOW, s)
        else if unat offset + unat bytes > length data then None
        else let bs = read_place m (Host host) (unat bytes);
                 r' = r\<lparr>sr_banks := (sr_banks r)\<lparr>sb_data := put_bytes data (unat offset) bs\<rparr>\<rparr>
             in map_option (\<lambda>g'. (LEGACY_OK, g', m\<lparr>dm_regions := (dm_regions m)[k := r']\<rparr>))
                  (legacy_account g TU_DMA_DIR_HOST_TO_TU offset bytes))"

definition tu_dma_store :: "nat \<Rightarrow> u32 \<Rightarrow> u64 \<Rightarrow> u32 \<Rightarrow> dma_sys \<Rightarrow> (legacy_status \<times> dma_sys) option" where
  "tu_dma_store k offset host bytes s =
    (let (g, m) = s; r = dm_regions m ! k; data = sb_data (sr_banks r)
     in if offset + bytes > sr_total_size r then Some (TU_ERR_DMA_OVERFLOW, s)
        else if unat offset + unat bytes > length data then None
        else map_option (\<lambda>g'. (LEGACY_OK, g',
               m\<lparr>dm_host := host_store (dm_host m) host (bytes_at data (unat offset) (unat bytes))\<rparr>))
               (legacy_account g TU_DMA_DIR_TU_TO_HOST offset bytes))"

end
