(* ===== verification/Dma_Arbiter.thy ===== *)
theory Dma_Arbiter
  imports Dma_Engine
begin

text \<open>
  The books of the DMA engine and its arbiters. A transfer touches counters only; a round of deficit
  round robin that selects nothing uses up credit room, so the loop of the arbiter ends; and every
  arbiter, this one or the priority based ones, meets the same contract: when a queue has work it
  starts the head of one, otherwise it leaves the books alone.
\<close>

section \<open>The books of a channel\<close>

text \<open>What submission and arbitration keep of a channel: the length of its queue, its marks and counts,
  and whether it is active. The book of an engine adds the setup the arbiters rely on. Transfers, credits,
  clocks and settings do not touch it.\<close>

definition chan_book :: "dma_channel \<Rightarrow> nat \<times> nat option \<times> bool \<times> u32 \<times> u32 \<times> u64 \<times> u64" where
  "chan_book ch = (length (ch_queue ch), ch_tail ch, ch_active ch \<noteq> None, ch_depth ch, ch_max_depth ch,
     ch_submitted ch, ch_completed ch)"

definition engine_setup :: "dma_engine \<Rightarrow> u32 \<times> bus_mode \<times> arb_policy \<times> binding_policy \<times> u32 \<times> bool \<times> nat" where
  "engine_setup g = (e_num_channels g, e_bus_mode g, e_arb_policy g, e_binding_policy g, e_next_shared g,
     engine_ok g, length (e_channels g))"

definition same_book :: "dma_engine \<Rightarrow> dma_engine \<Rightarrow> bool" where
  "same_book g g' \<longleftrightarrow> engine_setup g' = engine_setup g \<and>
     map chan_book (e_channels g') = map chan_book (e_channels g)"

lemma engine_ok_updates [simp]:
  "engine_ok (g\<lparr>e_next_shared := n\<rparr>) = engine_ok g" "engine_ok (g\<lparr>e_epoch := ep\<rparr>) = engine_ok g"
  "engine_ok (g\<lparr>e_cycle := cy\<rparr>) = engine_ok g" "engine_ok (g\<lparr>e_next_binding := nb\<rparr>) = engine_ok g"
  "engine_ok (g\<lparr>e_drr_continue := c\<rparr>) = engine_ok g"
  "engine_ok (g\<lparr>e_drr_continue_channel := cc\<rparr>) = engine_ok g"
  "length cs = length (e_channels g) \<Longrightarrow> engine_ok (g\<lparr>e_channels := cs\<rparr>) = engine_ok g"
  by (simp_all add: engine_ok_def)

lemma same_book_refl [simp]: "same_book g g"
  by (simp add: same_book_def)

lemma same_book_trans: "same_book g g' \<Longrightarrow> same_book g' g'' \<Longrightarrow> same_book g g''"
  by (simp add: same_book_def)

lemma same_book_setup:
  assumes "same_book g g'"
  shows "e_num_channels g' = e_num_channels g" "e_next_shared g' = e_next_shared g"
    "e_bus_mode g' = e_bus_mode g" "e_arb_policy g' = e_arb_policy g" "engine_ok g' = engine_ok g"
    "length (e_channels g') = length (e_channels g)" "e_binding_policy g' = e_binding_policy g"
  using assms by (simp_all add: same_book_def engine_setup_def)

lemma same_book_chan:
  assumes "same_book g g'" "i < length (e_channels g)"
  shows "(ch_queue (e_channels g' ! i) = []) = (ch_queue (e_channels g ! i) = [])"
    "(ch_active (e_channels g' ! i) = None) = (ch_active (e_channels g ! i) = None)"
    "chan_book (e_channels g' ! i) = chan_book (e_channels g ! i)"
proof -
  show b: "chan_book (e_channels g' ! i) = chan_book (e_channels g ! i)"
    using assms unfolding same_book_def by (metis nth_map map_eq_imp_length_eq)
  show "(ch_queue (e_channels g' ! i) = []) = (ch_queue (e_channels g ! i) = [])"
    "(ch_active (e_channels g' ! i) = None) = (ch_active (e_channels g ! i) = None)"
    using b by (auto simp: chan_book_def)
qed

lemma same_book_update:
  "chan_book (f (e_channels g ! i)) = chan_book (e_channels g ! i) \<Longrightarrow> same_book g (upd_channel i f g)"
  by (simp add: same_book_def engine_setup_def engine_ok_def map_list_update_id)

lemma account_book: "same_book g (account_transfer desc payload transfer g)"
  by (simp add: account_transfer_def same_book_def engine_setup_def engine_ok_def Let_def
      map_list_update_id chan_book_def)

text \<open>Executing a descriptor only counts.\<close>

lemma execute_book: "tu_dma_execute_desc desc (g, m) = (desc', g', m') \<Longrightarrow> same_book g g'"
  by (auto simp: tu_dma_execute_desc_def Let_def account_book split: if_splits xfer_result.splits prod.splits)

lemma execute_active_book: "same_book g (fst (execute_active i (g, m)))"
proof (cases "ch_active (e_channels g ! i)")
  case (Some d)
  obtain d' g' m' where d: "tu_dma_execute_desc d (g, m) = (d', g', m')" by (metis prod_cases3)
  have b: "same_book g g'" by (rule execute_book [OF d])
  have "same_book g' (upd_channel i (\<lambda>ch. ch\<lparr>ch_active := Some d'\<rparr>) g')"
  proof (cases "i < length (e_channels g')")
    case True
    then have "ch_active (e_channels g' ! i) \<noteq> None"
      using same_book_chan(2) [OF b] same_book_setup(6) [OF b] Some by simp
    then show ?thesis by (intro same_book_update) (simp add: chan_book_def)
  qed (simp add: list_update_beyond)
  then show ?thesis using same_book_trans [OF b] d Some by (simp add: execute_active_def)
qed (simp add: execute_active_def)

section \<open>Deficit round robin\<close>

text \<open>What a round that selects nothing may change: credits, the continuation mark and the clock.\<close>

definition drr_frame :: "dma_engine \<Rightarrow> dma_engine \<Rightarrow> bool" where
  "drr_frame g g' \<longleftrightarrow>
     g'\<lparr>e_channels := [], e_drr_continue := False, e_cycle := 0\<rparr>
       = g\<lparr>e_channels := [], e_drr_continue := False, e_cycle := 0\<rparr> \<and>
     map (ch_credits_update (\<lambda>_. 0)) (e_channels g') = map (ch_credits_update (\<lambda>_. 0)) (e_channels g)"

text \<open>What bounds the number of rounds: the credit a queue may still gain, and one visit that grants
  none because it continues.\<close>

definition drr_fuel :: "nat \<Rightarrow> dma_engine \<Rightarrow> nat" where
  "drr_fuel i g = 2 * (18446744073709551615 - unat (ch_credits (e_channels g ! i)))
     + (if e_drr_continue g then 1 else 0)"

lemma drr_frame_trans: "drr_frame g g' \<Longrightarrow> drr_frame g' g'' \<Longrightarrow> drr_frame g g''"
  by (simp add: drr_frame_def)

lemma drr_frame_channels:
  assumes "drr_frame g g'"
  shows "length (e_channels g') = length (e_channels g)"
    "i < length (e_channels g) \<Longrightarrow>
      (e_channels g' ! i)\<lparr>ch_credits := 0\<rparr> = (e_channels g ! i)\<lparr>ch_credits := 0\<rparr>"
    "i < length (e_channels g) \<Longrightarrow> ch_queue (e_channels g' ! i) = ch_queue (e_channels g ! i)"
proof -
  have m: "map (ch_credits_update (\<lambda>_. 0)) (e_channels g') = map (ch_credits_update (\<lambda>_. 0)) (e_channels g)"
    using assms by (simp add: drr_frame_def)
  show l: "length (e_channels g') = length (e_channels g)" using m by (rule map_eq_imp_length_eq)
  assume i: "i < length (e_channels g)"
  show c: "(e_channels g' ! i)\<lparr>ch_credits := 0\<rparr> = (e_channels g ! i)\<lparr>ch_credits := 0\<rparr>"
    using m l i by (metis nth_map)
  show "ch_queue (e_channels g' ! i) = ch_queue (e_channels g ! i)"
    using arg_cong [OF c, of ch_queue] by simp
qed

lemma chan_book_credits [simp]: "chan_book (ch\<lparr>ch_credits := c\<rparr>) = chan_book ch"
  by (simp add: chan_book_def)

lemma drr_frame_sel:
  assumes "drr_frame g g'"
  shows "e_num_channels g' = e_num_channels g" "e_next_shared g' = e_next_shared g"
    "drr_quantum g' = drr_quantum g" "engine_ok g' = engine_ok g" "e_bus_mode g' = e_bus_mode g"
    "e_arb_policy g' = e_arb_policy g" "e_binding_policy g' = e_binding_policy g"
  using assms drr_frame_channels(1) [OF assms]
  by (cases g; cases g'; simp add: drr_frame_def drr_quantum_def engine_ok_def)+

lemma shared_index_frame: "drr_frame g g' \<Longrightarrow> shared_index g' = shared_index g"
  by (simp add: shared_index_def fun_eq_iff drr_frame_sel)

text \<open>A visit to an idle queue and a grant, for the queue visited and for the others.\<close>

lemma drr_idle_frame: "drr_frame g (drr_idle i g)"
  by (simp add: drr_idle_def drr_frame_def Let_def map_list_update_id)

lemma drr_grant_frame: "drr_frame g (drr_grant i g)"
  by (simp add: drr_grant_def drr_frame_def Let_def map_list_update_id)

lemma drr_idle_fuel: "j \<noteq> i \<Longrightarrow> drr_fuel j (drr_idle i g) \<le> drr_fuel j g"
  by (simp add: drr_idle_def drr_fuel_def Let_def)

lemma drr_grant_other: "j \<noteq> i \<Longrightarrow> drr_fuel j (drr_grant i g) \<le> drr_fuel j g"
  by (simp add: drr_grant_def drr_fuel_def Let_def)

text \<open>A grant that does not fill the counter adds at least one credit.\<close>

lemma grant_positive:
  fixes quantum weight :: u64
  assumes "1 \<le> unat quantum" "1 \<le> unat weight"
  shows "1 \<le> unat (if quantum > UINT64_MAX div weight then UINT64_MAX else quantum * weight)"
proof (cases "quantum > UINT64_MAX div weight")
  case False
  then have "unat quantum \<le> 18446744073709551615 div unat weight"
    by (simp add: word_le_nat_alt unat_div not_less)
  then have "unat quantum * unat weight \<le> 18446744073709551615"
    by (meson div_times_less_eq_dividend dual_order.trans mult_le_mono1)
  then have "unat (quantum * weight) = unat quantum * unat weight" by (intro u64_mult_exact) linarith
  moreover have "1 * 1 \<le> unat quantum * unat weight" using assms by (rule mult_le_mono)
  ultimately show ?thesis by (simp only: if_not_P [OF False])
qed simp

lemma weight_positive: "1 \<le> unat (if w \<noteq> 0 then ucast w else 1 :: u64)" for w :: u8
proof (cases "w = 0")
  case False
  then have "1 \<le> unat w" by (simp add: unat_gt_0 Suc_le_eq)
  then show ?thesis using False by (simp only: if_P unat_ucast_8_64 not_False_eq_True)
qed simp

lemma unat_room_u64: "unat (UINT64_MAX - x) = 18446744073709551615 - unat x"
proof -
  have "unat x \<le> 18446744073709551615" using unat_u64_less [of x] by linarith
  then have "x \<le> UINT64_MAX" by (simp add: word_le_nat_alt)
  then show ?thesis by (simp add: unat_sub_le)
qed

lemma drr_grant_fuel:
  assumes "i < length (e_channels g)" "engine_ok g"
    and "ch_credits (e_channels (drr_grant i g) ! i) < UINT64_MAX"
  shows "drr_fuel i (drr_grant i g) < drr_fuel i g"
proof (cases "e_drr_continue g \<and> e_drr_continue_channel g = of_nat i")
  case True
  then show ?thesis by (simp add: drr_grant_def drr_fuel_def Let_def)
next
  case False
  define grant where "grant = (let w = e_drr_weights g ! i; weight = (if w \<noteq> 0 then ucast w else 1) :: u64
     in if drr_quantum g > UINT64_MAX div weight then UINT64_MAX else drr_quantum g * weight)"
  let ?c = "ch_credits (e_channels g ! i)"
  have new: "ch_credits (e_channels (drr_grant i g) ! i) =
      (if UINT64_MAX - ?c < grant then UINT64_MAX else ?c + grant)"
    and off: "\<not> e_drr_continue (drr_grant i g)"
    using False assms(1) by (simp_all only: drr_grant_def grant_def Let_def if_False) (simp_all add: Let_def)
  have "1 \<le> unat grant"
    unfolding grant_def Let_def
    by (rule grant_positive [OF drr_quantum_pos [OF assms(2)] weight_positive])
  moreover have le: "\<not> UINT64_MAX - ?c < grant" using assms(3) new by (auto split: if_splits)
  then have "unat grant \<le> 18446744073709551615 - unat ?c"
    by (simp add: word_le_nat_alt unat_room_u64 not_less)
  then have "unat ?c + unat grant \<le> 18446744073709551615" using unat_u64_less [of ?c] by linarith
  moreover from this have "unat (?c + grant) = unat ?c + unat grant" by (intro u64_add_exact) linarith
  ultimately show ?thesis using le off by (simp add: drr_fuel_def new)
qed

lemma below_max: "(x :: u64) < y \<Longrightarrow> x < UINT64_MAX"
proof -
  assume "x < y"
  then have "unat x < unat y" by (simp add: word_less_nat_alt)
  then have "unat x < 18446744073709551615" using unat_u64_less [of y] by linarith
  then show ?thesis by (simp add: word_less_nat_alt)
qed

lemma nth_update_keeps: "f v = f (xs ! i) \<Longrightarrow> f (xs[i := v] ! k) = f (xs ! k)"
  by (cases "i < length xs") (auto simp: nth_list_update list_update_beyond)

lemma drr_visit_queue:
  "ch_queue (e_channels (drr_idle i g) ! k) = ch_queue (e_channels g ! k)"
  "ch_queue (e_channels (drr_grant i g) ! k) = ch_queue (e_channels g ! k)"
  by (simp_all add: drr_idle_def drr_grant_def Let_def nth_update_keeps)

lemma charge_round_frame: "drr_frame g (drr_charge_round_delay c g)"
  by (simp add: drr_charge_round_delay_def saturating_advance_def drr_frame_def Let_def)

lemma charge_round_fuel: "drr_fuel i (drr_charge_round_delay c g) = drr_fuel i g"
  by (simp add: drr_charge_round_delay_def saturating_advance_def drr_fuel_def Let_def)

text \<open>A round that selects nothing uses up credit room at every queue with work.\<close>

lemma drr_scan_unselected:
  assumes "drr_scan ps any (g, m) = (False, any', g', m')" "engine_ok g"
    and "\<And>p. p \<in> set ps \<Longrightarrow> shared_index g p < length (e_channels g)"
  shows "m' = m \<and> drr_frame g g' \<and>
    any' = (any \<or> (\<exists>p\<in>set ps. ch_queue (e_channels g ! shared_index g p) \<noteq> [])) \<and>
    (ch_queue (e_channels g ! j) \<noteq> [] \<longrightarrow>
      drr_fuel j g' \<le> drr_fuel j g \<and> (j \<in> shared_index g ` set ps \<longrightarrow> drr_fuel j g' < drr_fuel j g))"
  using assms
proof (induction ps arbitrary: any g)
  case (Cons p ps)
  let ?i = "shared_index g p" and ?q = "ch_queue (e_channels g ! shared_index g p)"
  define g1 where "g1 = (if ?q = [] then drr_idle ?i g else drr_grant ?i g)"
  have i: "?i < length (e_channels g)" using Cons.prems(3) by simp
  have fr: "drr_frame g g1" by (simp add: g1_def drr_idle_frame drr_grant_frame)
  note sel = drr_frame_sel [OF fr] and chs = drr_frame_channels [OF fr] and six = shared_index_frame [OF fr]
  have scan: "drr_scan ps (any \<or> ?q \<noteq> []) (g1, m) = (False, any', g', m')"
    using Cons.prems(1) by (auto simp: g1_def Let_def split: if_splits)
  have low: "?q \<noteq> [] \<Longrightarrow> ch_credits (e_channels g1 ! ?i) < UINT64_MAX"
    using Cons.prems(1) by (auto simp: g1_def Let_def split: if_splits intro: below_max)
  have ih: "m' = m \<and> drr_frame g1 g' \<and>
    any' = ((any \<or> ?q \<noteq> []) \<or> (\<exists>p\<in>set ps. ch_queue (e_channels g1 ! shared_index g1 p) \<noteq> [])) \<and>
    (ch_queue (e_channels g1 ! j) \<noteq> [] \<longrightarrow>
      drr_fuel j g' \<le> drr_fuel j g1 \<and> (j \<in> shared_index g1 ` set ps \<longrightarrow> drr_fuel j g' < drr_fuel j g1))"
    by (rule Cons.IH [OF scan]) (use Cons.prems sel chs six in auto)
  have here: "?q \<noteq> [] \<Longrightarrow> j = ?i \<Longrightarrow> drr_fuel j g1 < drr_fuel j g"
    using drr_grant_fuel [OF i Cons.prems(2)] low by (simp add: g1_def)
  have le: "ch_queue (e_channels g ! j) \<noteq> [] \<Longrightarrow> drr_fuel j g1 \<le> drr_fuel j g"
    using here by (cases "j = ?i") (auto simp: g1_def drr_idle_fuel drr_grant_other)
  have qs: "ch_queue (e_channels g1 ! k) = ch_queue (e_channels g ! k)" for k
    by (simp add: g1_def drr_visit_queue)
  show ?case
    using ih here le drr_frame_trans [OF fr] by (auto simp: qs six)
qed (simp add: drr_frame_def)

text \<open>A round that selects a queue serves it after the grant of its visit.\<close>

lemma drr_scan_selected:
  assumes "drr_scan ps any (g, m) = (True, any', s')"
  shows "\<exists>p\<in>set ps. \<exists>g1. drr_frame g g1 \<and> ch_queue (e_channels g1 ! shared_index g p) \<noteq> [] \<and>
    descriptor_drr_cost g1 (hd (ch_queue (e_channels g1 ! shared_index g p)))
      \<le> ch_credits (e_channels g1 ! shared_index g p) \<and>
    s' = drr_serve (shared_index g p) p (g1, m)"
  using assms
proof (induction ps arbitrary: any g)
  case (Cons p ps)
  let ?i = "shared_index g p" and ?q = "ch_queue (e_channels g ! shared_index g p)"
  define g1 where "g1 = (if ?q = [] then drr_idle ?i g else drr_grant ?i g)"
  have fr: "drr_frame g g1" by (simp add: g1_def drr_idle_frame drr_grant_frame)
  have qs: "ch_queue (e_channels g1 ! k) = ch_queue (e_channels g ! k)" for k
    by (simp add: g1_def drr_visit_queue)
  show ?case
  proof (cases "?q \<noteq> [] \<and> \<not> ch_credits (e_channels g1 ! ?i) < descriptor_drr_cost g1 (hd ?q)")
    case True
    then have "s' = drr_serve ?i p (g1, m)"
      using Cons.prems qs [of ?i] by (auto simp: g1_def Let_def split: if_splits)
    then show ?thesis
      using True fr qs [of ?i] by (intro bexI [of _ p] exI [of _ g1]) (auto simp: not_less)
  next
    case False
    then have "drr_scan ps (any \<or> ?q \<noteq> []) (g1, m) = (True, any', s')"
      using Cons.prems qs [of ?i] by (auto simp: g1_def Let_def split: if_splits)
    from Cons.IH [OF this] show ?thesis
      using shared_index_frame [OF fr] drr_frame_trans [OF fr] by fastforce
  qed
qed simp

lemma shared_index_less:
  assumes "engine_ok g"
  shows "shared_index g p < unat (e_num_channels g)" "shared_index g p < length (e_channels g)"
proof -
  have n: "0 < unat (e_num_channels g)" "unat (e_num_channels g) \<le> 8" "length (e_channels g) = 8"
    using assms by (auto simp: engine_ok_def word_less_nat_alt word_le_nat_alt)
  then show "shared_index g p < unat (e_num_channels g)" by (simp add: shared_index_def unat_mod)
  then show "shared_index g p < length (e_channels g)" using n by linarith
qed

text \<open>What the loop returns: the state of a round without work, or the service of one queue.\<close>

definition served :: "dma_engine \<Rightarrow> dma_mem \<Rightarrow> dma_sys \<Rightarrow> bool" where
  "served g m s' \<longleftrightarrow> (\<exists>p<unat (e_num_channels g). \<exists>g1. drr_frame g g1 \<and>
     ch_queue (e_channels g1 ! shared_index g p) \<noteq> [] \<and>
     descriptor_drr_cost g1 (hd (ch_queue (e_channels g1 ! shared_index g p)))
       \<le> ch_credits (e_channels g1 ! shared_index g p) \<and>
     s' = drr_serve (shared_index g p) p (g1, m))"

lemma served_frame:
  assumes fr: "drr_frame g g'" and "served g' m s'" shows "served g m s'"
proof -
  obtain p g1 where "p < unat (e_num_channels g)" "drr_frame g' g1"
    "ch_queue (e_channels g1 ! shared_index g p) \<noteq> []"
    "descriptor_drr_cost g1 (hd (ch_queue (e_channels g1 ! shared_index g p)))
       \<le> ch_credits (e_channels g1 ! shared_index g p)"
    "s' = drr_serve (shared_index g p) p (g1, m)"
    using assms(2) unfolding served_def shared_index_frame [OF fr] drr_frame_sel(1) [OF fr] by blast
  then show ?thesis unfolding served_def using drr_frame_trans [OF fr] by blast
qed

lemma drr_round_cases:
  assumes "drr_scan [0..<unat (e_num_channels g)] False (g, m) = (selected, any, g', m')"
  shows "selected \<Longrightarrow> drr_loop (g, m) = Some (g', m')"
    and "\<not> any \<Longrightarrow> drr_loop (g, m) = Some (g', m')"
    and "\<not> selected \<Longrightarrow> any \<Longrightarrow> drr_loop (g, m) =
      drr_loop (drr_charge_round_delay (e_drr_round_issue_cycles g') g', m')"
  using assms by (subst drr_loop.simps; simp)+

lemma drr_loop_serves:
  assumes "engine_ok g" "p < unat (e_num_channels g)" "ch_queue (e_channels g ! shared_index g p) \<noteq> []"
  shows "\<exists>s'. drr_loop (g, m) = Some s' \<and> served g m s'"
  using assms
proof (induction "drr_fuel (shared_index g p) g" arbitrary: g rule: less_induct)
  case less
  let ?ps = "[0..<unat (e_num_channels g)]" and ?i = "shared_index g p"
  obtain selected any g' m' where scan: "drr_scan ?ps False (g, m) = (selected, any, g', m')"
    by (metis prod_cases4)
  show ?case
  proof (cases selected)
    case True
    then have "served g m (g', m')"
      using drr_scan_selected [of ?ps False g m any "(g', m')"] scan by (auto simp: served_def)
    then show ?thesis using drr_round_cases(1) [OF scan True] by blast
  next
    case False
    have r: "m' = m \<and> drr_frame g g' \<and>
      any = (False \<or> (\<exists>p\<in>set ?ps. ch_queue (e_channels g ! shared_index g p) \<noteq> [])) \<and>
      (ch_queue (e_channels g ! ?i) \<noteq> [] \<longrightarrow>
        drr_fuel ?i g' \<le> drr_fuel ?i g \<and> (?i \<in> shared_index g ` set ?ps \<longrightarrow> drr_fuel ?i g' < drr_fuel ?i g))"
      by (rule drr_scan_unselected) (use scan False less.prems(1) shared_index_less in auto)
    define g2 where "g2 = drr_charge_round_delay (e_drr_round_issue_cycles g') g'"
    have fr: "drr_frame g g2" using r charge_round_frame drr_frame_trans by (simp add: g2_def) blast
    have any: any using r less.prems(2,3) by auto
    have loop: "drr_loop (g, m) = drr_loop (g2, m)"
      using drr_round_cases(3) [OF scan False any] r by (simp add: g2_def)
    have "\<exists>s'. drr_loop (g2, m) = Some s' \<and> served g2 m s'"
    proof (rule less.hyps)
      show "drr_fuel (shared_index g2 p) g2 < drr_fuel ?i g"
        using r less.prems(2,3) unfolding shared_index_frame [OF fr] by (simp add: g2_def charge_round_fuel)
      show "engine_ok g2" "p < unat (e_num_channels g2)"
        using less.prems by (simp_all add: drr_frame_sel [OF fr])
      show "ch_queue (e_channels g2 ! shared_index g2 p) \<noteq> []"
        using less.prems shared_index_less(2) [OF less.prems(1)]
        by (simp add: shared_index_frame [OF fr] drr_frame_channels [OF fr])
    qed
    then show ?thesis using loop served_frame [OF fr] by auto
  qed
qed

lemma drr_loop_idle:
  assumes "engine_ok g" "\<And>p. p < unat (e_num_channels g) \<Longrightarrow> ch_queue (e_channels g ! shared_index g p) = []"
  shows "\<exists>g'. drr_loop (g, m) = Some (g', m) \<and> drr_frame g g'"
proof -
  let ?ps = "[0..<unat (e_num_channels g)]"
  obtain selected any g' m' where scan: "drr_scan ?ps False (g, m) = (selected, any, g', m')"
    by (metis prod_cases4)
  have sel: "\<not> selected"
  proof
    assume selected
    then obtain p g1 where "p \<in> set ?ps" "drr_frame g g1" "ch_queue (e_channels g1 ! shared_index g p) \<noteq> []"
      using drr_scan_selected [of ?ps False g m any "(g', m')"] scan by auto
    then show False
      using assms(2) [of p] drr_frame_channels(3) [of g g1] shared_index_less(2) [OF assms(1), of p] by simp
  qed
  have r: "m' = m \<and> drr_frame g g' \<and>
      any = (False \<or> (\<exists>p\<in>set ?ps. ch_queue (e_channels g ! shared_index g p) \<noteq> [])) \<and>
      (ch_queue (e_channels g ! 0) \<noteq> [] \<longrightarrow>
        drr_fuel 0 g' \<le> drr_fuel 0 g \<and> (0 \<in> shared_index g ` set ?ps \<longrightarrow> drr_fuel 0 g' < drr_fuel 0 g))"
    by (rule drr_scan_unselected) (use scan sel assms(1) shared_index_less in auto)
  then have "\<not> any" using assms(2) by auto
  from drr_round_cases(2) [OF scan this] r show ?thesis by auto
qed

lemma drr_frame_book:
  assumes "drr_frame g g'" shows "same_book g g'"
proof -
  have "map chan_book (e_channels g') = map chan_book (e_channels g)"
  proof (rule nth_equalityI)
    fix i assume "i < length (map chan_book (e_channels g'))"
    then have i: "i < length (e_channels g)" by (simp add: drr_frame_channels(1) [OF assms])
    have "chan_book (e_channels g' ! i) = chan_book (e_channels g ! i)"
      using drr_frame_channels(2) [OF assms i] chan_book_credits by metis
    then show "map chan_book (e_channels g') ! i = map chan_book (e_channels g) ! i"
      using i by (simp add: drr_frame_channels(1) [OF assms])
  qed (simp add: drr_frame_channels(1) [OF assms])
  then show ?thesis
    by (simp add: same_book_def engine_setup_def drr_frame_sel [OF assms] drr_frame_channels(1) [OF assms])
qed

section \<open>Starting a transfer\<close>

text \<open>The head of queue \<open>i\<close> becomes the active descriptor of channel \<open>i\<close>; the cursor stays a channel.\<close>

definition started :: "nat \<Rightarrow> dma_engine \<Rightarrow> dma_engine \<Rightarrow> bool" where
  "started i g g' \<longleftrightarrow> e_num_channels g' = e_num_channels g \<and> e_bus_mode g' = e_bus_mode g \<and>
     engine_ok g' = engine_ok g \<and> length (e_channels g') = length (e_channels g) \<and>
     (e_next_shared g < e_num_channels g \<longrightarrow> e_next_shared g' < e_num_channels g) \<and>
     map chan_book (e_channels g') = (map chan_book (e_channels g))[i := chan_book (pop_head (e_channels g ! i))]"

lemma started_book:
  assumes "same_book (upd_channel i pop_head g) g'" shows "started i g g'"
proof -
  have "map chan_book (e_channels g') = (map chan_book (e_channels g))[i := chan_book (pop_head (e_channels g ! i))]"
    using assms by (simp add: same_book_def map_update)
  then show ?thesis using assms by (simp add: same_book_def started_def engine_setup_def)
qed

lemma started_cursor:
  assumes "started i g g'" "e_next_shared g < e_num_channels g \<Longrightarrow> n < e_num_channels g"
  shows "started i g (g'\<lparr>e_next_shared := n, e_drr_continue := c, e_drr_continue_channel := cc, e_epoch := e\<rparr>)"
  using assms by (simp add: started_def)

lemma same_book_started: "same_book g g' \<Longrightarrow> started i g' g'' \<Longrightarrow>
    chan_book (pop_head (e_channels g' ! i)) = chan_book (pop_head (e_channels g ! i)) \<Longrightarrow> started i g g''"
  by (auto simp: started_def same_book_def engine_setup_def)

lemma started_start_head: "started i g (fst (start_head i (g, m)))"
  unfolding start_head_def by (intro started_book) (simp add: execute_active_book)

lemma book_mark_eligible: "chan_book (mark_eligible g ch) = chan_book ch"
  by (simp add: mark_eligible_def chan_book_def split: list.split)

lemma cursor_mod: "(x :: u32) < n \<Longrightarrow> y mod n < n"
proof -
  assume "x < n"
  then have "0 < unat n" by (simp add: word_less_nat_alt)
  then have "unat y mod unat n < unat n" by simp
  then show ?thesis by (simp add: word_less_nat_alt unat_mod)
qed

lemma started_execute:
  assumes "same_book (upd_channel i pop_head g) g2" "execute_active i (g2, m) = (g3, m3)"
  shows "started i g g3" "e_num_channels g3 = e_num_channels g"
proof -
  have "same_book g2 g3" using execute_active_book [of g2 i m] by (simp add: assms(2))
  then show "started i g g3" by (intro started_book same_book_trans [OF assms(1)])
  then show "e_num_channels g3 = e_num_channels g" by (simp add: started_def)
qed

lemma started_grant_bus: "started i g (fst (grant_bus i (g, m)))"
proof -
  let ?g1 = "upd_channel i pop_head g"
  let ?g2 = "upd_channel i (mark_eligible ?g1) ?g1"
  obtain g3 m3 where ex: "execute_active i (?g2, m) = (g3, m3)" by (metis prod.exhaust)
  have b: "same_book ?g1 ?g2" by (rule same_book_update) (rule book_mark_eligible)
  have "started i g (g3\<lparr>e_next_shared := (of_nat i + 1) mod e_num_channels g3, e_drr_continue := e_drr_continue g3,
      e_drr_continue_channel := e_drr_continue_channel g3, e_epoch := e_epoch g3 + 1\<rparr>)"
    by (rule started_cursor [OF started_execute(1) [OF b ex]])
       (simp add: started_execute(2) [OF b ex] cursor_mod)
  then show ?thesis using ex by (simp add: grant_bus_def Let_def)
qed

text \<open>The service of deficit round robin, in the state after the grant.\<close>

lemma charge_select_cycle: "\<exists>cy. drr_charge_select_delay c n g = g\<lparr>e_cycle := cy\<rparr>"
  by (auto simp: drr_charge_select_delay_def saturating_advance_def Let_def)

lemma same_book_cycle [simp]: "same_book g (g\<lparr>e_cycle := cy\<rparr>)"
  by (simp add: same_book_def engine_setup_def)

lemma drr_take_book:
  assumes "i < length (e_channels g)" shows "same_book (upd_channel i pop_head g) (drr_take i p g)"
proof -
  define cost where "cost = descriptor_drr_cost g (hd (ch_queue (e_channels g ! i)))"
  define g0 where "g0 = upd_channel i (\<lambda>ch. ch\<lparr>ch_credits := ch_credits ch - cost\<rparr>) g"
  obtain cy where cy: "drr_charge_select_delay (e_drr_select_issue_cycles g0) (of_nat p + 1) g0 = g0\<lparr>e_cycle := cy\<rparr>"
    using charge_select_cycle by blast
  define g1 where "g1 = upd_channel i pop_head (g0\<lparr>e_cycle := cy\<rparr>)"
  have "drr_take i p g = (if ch_queue (e_channels g1 ! i) = [] \<and> e_drr_idle_policy g1 = TU_DMA_DRR_IDLE_RESET
     then upd_channel i (\<lambda>ch. ch\<lparr>ch_credits := 0\<rparr>) g1 else g1)"
    unfolding drr_take_def cost_def [symmetric] g0_def [symmetric] Let_def cy g1_def ..
  moreover have "same_book (upd_channel i pop_head g) g1"
    using assms by (simp add: same_book_def engine_setup_def g1_def g0_def map_update pop_head_def chan_book_def)
  moreover from this have "same_book (upd_channel i pop_head g) (upd_channel i (\<lambda>ch. ch\<lparr>ch_credits := 0\<rparr>) g1)"
    by (rule same_book_trans) (simp add: same_book_update)
  ultimately show ?thesis by (simp split: if_split)
qed

lemma started_drr_move:
  assumes "started i g g'" "i < unat (e_num_channels g)" "unat (e_num_channels g) \<le> 8"
  shows "started i g (drr_move i g')"
proof -
  have n: "e_num_channels g' = e_num_channels g" using assms(1) by (simp add: started_def)
  have "of_nat i < e_num_channels g"
    using assms(2,3) by (simp add: word_less_nat_alt unat_of_nat_u32)
  then have s: "e_next_shared g < e_num_channels g \<Longrightarrow> (if b then of_nat i else (of_nat i + 1) mod e_num_channels g)
      < e_num_channels g" for b
    by (simp add: cursor_mod)
  show ?thesis
    using started_cursor [OF assms(1) s [of True], where e = "e_epoch g' + 1" and c = True and cc = "of_nat i"]
      started_cursor [OF assms(1) s [of False], where e = "e_epoch g' + 1"
        and c = "e_drr_continue g'" and cc = "e_drr_continue_channel g'"]
    by (simp add: drr_move_def Let_def n)
qed

lemma started_drr_serve:
  assumes "engine_ok g" "i < unat (e_num_channels g)"
  shows "started i g (fst (drr_serve i p (g, m)))"
proof -
  have n: "length (e_channels g) = 8" "unat (e_num_channels g) \<le> 8"
    using assms(1) by (simp_all add: engine_ok_def word_le_nat_alt)
  obtain g3 m3 where ex: "execute_active i (drr_take i p g, m) = (g3, m3)" by (metis prod.exhaust)
  have "started i g g3"
    by (rule started_execute(1) [OF drr_take_book ex]) (use assms(2) n in linarith)
  then show ?thesis
    using started_drr_move [OF _ assms(2) n(2)] ex by (simp add: drr_serve_def)
qed

section \<open>The contract of an arbiter\<close>

lemma shared_index_surj:
  assumes "engine_ok g" "e_next_shared g < e_num_channels g" "i < unat (e_num_channels g)"
  shows "\<exists>p<unat (e_num_channels g). shared_index g p = i"
proof -
  let ?n = "unat (e_num_channels g)" and ?c = "unat (e_next_shared g)"
  have n: "?n \<le> 8" "?c < ?n" using assms(1,2) by (simp_all add: engine_ok_def word_le_nat_alt word_less_nat_alt)
  define p where "p = (i + ?n - ?c) mod ?n"
  have p: "p < ?n" using n by (simp add: p_def)
  have "unat (of_nat p :: u32) = p" by (rule unat_of_nat_u32) (use p n in linarith)
  then have "unat (e_next_shared g + of_nat p) = ?c + p" using p n by (simp add: u32_add_exact)
  then have "shared_index g p = (?c + p) mod ?n" by (simp add: shared_index_def unat_mod)
  also have "\<dots> = i"
    using n assms(3) by (simp add: p_def mod_add_right_eq)
  finally show ?thesis using p by blast
qed

definition has_work :: "dma_engine \<Rightarrow> nat \<Rightarrow> bool" where
  "has_work g i \<longleftrightarrow> i < unat (e_num_channels g) \<and> ch_queue (e_channels g ! i) \<noteq> []"

definition cursor_ok :: "dma_engine \<Rightarrow> bool" where
  "cursor_ok g \<longleftrightarrow> engine_ok g \<and> e_next_shared g < e_num_channels g"

locale arbiter =
  fixes pick :: "dma_sys \<Rightarrow> dma_sys option"
  assumes serves: "cursor_ok g \<Longrightarrow> has_work g i \<Longrightarrow>
      \<exists>j s'. pick (g, m) = Some s' \<and> has_work g j \<and> started j g (fst s')"
    and idles: "cursor_ok g \<Longrightarrow> (\<And>i. \<not> has_work g i) \<Longrightarrow> \<exists>s'. pick (g, m) = Some s' \<and> same_book g (fst s')"
begin

lemma picks:
  assumes "cursor_ok g"
  obtains (start) i s' where "pick (g, m) = Some s'" "has_work g i" "started i g (fst s')"
  | (idle) s' where "pick (g, m) = Some s'" "\<And>i. \<not> has_work g i" "same_book g (fst s')"
  using serves [OF assms] idles [OF assms] by metis

lemma returns: "cursor_ok g \<Longrightarrow> pick (g, m) \<noteq> None"
  by (rule picks [of g m]) auto

end

interpretation drr: arbiter drr_loop
proof unfold_locales
  fix g i m
  assume c: "cursor_ok g" and w: "has_work g i"
  then have ok: "engine_ok g" by (simp add: cursor_ok_def)
  obtain p where p: "p < unat (e_num_channels g)" "shared_index g p = i"
    using shared_index_surj [OF ok] c w by (auto simp: cursor_ok_def has_work_def)
  then obtain s' where loop: "drr_loop (g, m) = Some s'" and "served g m s'"
    using drr_loop_serves [OF ok p(1), of m] w by (auto simp: has_work_def p(2))
  then obtain q g1 where fr: "drr_frame g g1"
    and q: "ch_queue (e_channels g1 ! shared_index g q) \<noteq> []"
    and s': "s' = drr_serve (shared_index g q) q (g1, m)"
    by (auto simp: served_def)
  let ?j = "shared_index g q"
  have j: "?j < unat (e_num_channels g)" "?j < length (e_channels g)" by (rule shared_index_less [OF ok])+
  have "started ?j g1 (fst s')"
    unfolding s' by (rule started_drr_serve) (use ok j drr_frame_sel [OF fr] in simp_all)
  moreover have "chan_book (pop_head (e_channels g1 ! ?j)) = chan_book (pop_head (e_channels g ! ?j))"
    using arg_cong [OF drr_frame_channels(2) [OF fr j(2)], of "\<lambda>ch. chan_book (pop_head ch)"]
    by (simp add: pop_head_def chan_book_def)
  ultimately have "started ?j g (fst s')" by (rule same_book_started [OF drr_frame_book [OF fr]])
  moreover have "has_work g ?j" using q j drr_frame_channels(3) [OF fr j(2)] by (simp add: has_work_def)
  ultimately show "\<exists>j s'. drr_loop (g, m) = Some s' \<and> has_work g j \<and> started j g (fst s')"
    using loop by blast
next
  fix g m
  assume "cursor_ok g" and idle: "\<And>i. \<not> has_work g i"
  then have "engine_ok g" by (simp add: cursor_ok_def)
  then obtain g' where "drr_loop (g, m) = Some (g', m)" "drr_frame g g'"
    using drr_loop_idle [of g m] idle shared_index_less(1) [of g] by (auto simp: has_work_def)
  then show "\<exists>s'. drr_loop (g, m) = Some s' \<and> same_book g (fst s')" using drr_frame_book by auto
qed

text \<open>The priority arbiters and plain round robin: when some queue has a head, one head is grantable.\<close>

lemma best_from_heads:
  fixes prio :: "nat \<Rightarrow> u8"
  assumes "foldl (\<lambda>best i. if busy i then (if prio i > best then prio i else best) else best) b is = best"
  shows "(\<forall>i\<in>set is. busy i \<longrightarrow> prio i \<le> best) \<and> b \<le> best \<and>
    (best = b \<or> (\<exists>i\<in>set is. busy i \<and> prio i = best))"
  using assms
proof (induction "is" arbitrary: b)
  case (Cons i "is")
  let ?b = "if busy i then (if prio i > b then prio i else b) else b"
  have "(\<forall>i\<in>set is. busy i \<longrightarrow> prio i \<le> best) \<and> ?b \<le> best \<and>
    (best = ?b \<or> (\<exists>i\<in>set is. busy i \<and> prio i = best))"
    using Cons by simp
  then show ?case by (auto split: if_splits)
qed simp

lemma best_priority_attained:
  assumes "has_work g i" "uses_priority g"
  shows "\<exists>j. has_work g j \<and> head_priority g (hd (ch_queue (e_channels g ! j))) = best_priority g"
proof -
  let ?busy = "\<lambda>i. ch_queue (e_channels g ! i) \<noteq> []"
  let ?prio = "\<lambda>i. head_priority g (hd (ch_queue (e_channels g ! i)))"
  let ?is = "[0..<unat (e_num_channels g)]"
  have "foldl (\<lambda>best i. if ?busy i then (if ?prio i > best then ?prio i else best) else best) 0 ?is
      = best_priority g"
    using assms(2) by (auto simp: best_priority_def intro!: foldl_cong split: list.split)
  note b = best_from_heads [OF this]
  show ?thesis
  proof (cases "best_priority g = 0")
    case True
    have "?prio i \<le> best_priority g" using b assms(1) by (auto simp: has_work_def)
    then show ?thesis using True assms(1) by auto
  next
    case False
    then show ?thesis using b by (auto simp: has_work_def)
  qed
qed

lemma grantable_work:
  "grantable g best i \<longleftrightarrow> ch_queue (e_channels g ! i) \<noteq> [] \<and>
     (uses_priority g \<longrightarrow> head_priority g (hd (ch_queue (e_channels g ! i))) = best)"
  by (auto simp: grantable_def split: list.split)

interpretation prio: arbiter "\<lambda>s. Some (arbitrate s)"
proof unfold_locales
  fix g i m
  assume c: "cursor_ok g" and w: "has_work g i"
  then have ok: "engine_ok g" by (simp add: cursor_ok_def)
  let ?f = "\<lambda>p. grantable g (best_priority g) (shared_index g p)"
  obtain j where j: "has_work g j" "grantable g (best_priority g) j"
    using best_priority_attained [OF w] w by (cases "uses_priority g") (auto simp: grantable_work has_work_def)
  then obtain p where p: "p < unat (e_num_channels g)" "shared_index g p = j"
    using shared_index_surj [OF ok] c by (auto simp: cursor_ok_def has_work_def)
  then have "find ?f [0..<unat (e_num_channels g)] \<noteq> None"
    using j(2) by (auto simp: find_None_iff)
  then obtain q where q: "find ?f [0..<unat (e_num_channels g)] = Some q" by blast
  then have "?f q" by (auto simp: find_Some_iff)
  then have "has_work g (shared_index g q)"
    using shared_index_less [OF ok] by (simp add: has_work_def grantable_work)
  moreover have "arbitrate (g, m) = grant_bus (shared_index g q) (g, m)"
    using q by (simp add: arbitrate_def Let_def)
  ultimately show "\<exists>j s'. Some (arbitrate (g, m)) = Some s' \<and> has_work g j \<and> started j g (fst s')"
    using started_grant_bus by metis
next
  fix g m
  assume "cursor_ok g" and idle: "\<And>i. \<not> has_work g i"
  then have ok: "engine_ok g" by (simp add: cursor_ok_def)
  have "find (\<lambda>p. grantable g (best_priority g) (shared_index g p)) [0..<unat (e_num_channels g)] = None"
    using idle shared_index_less [OF ok] by (auto simp: find_None_iff grantable_work has_work_def)
  then show "\<exists>s'. Some (arbitrate (g, m)) = Some s' \<and> same_book g (fst s')"
    by (simp add: arbitrate_def Let_def)
qed

end
