(* ===== verification/Dma_Runs.thy ===== *)
theory Dma_Runs
  imports Dma_Arbiter
begin

text \<open>
  What the DMA engine guarantees over its whole life: from any initialisation, through any sequence
  of submissions, ticks, flushes, settings and legacy transfers. The tick returns; a shared bus
  carries at most one transfer and does not idle while a queue has work; and, as long as descriptors
  are submitted one by one, the bookkeeping of every channel is exact. Chains break the last point.
\<close>

section \<open>Life of an engine\<close>

inductive dma_setter :: "(dma_engine \<Rightarrow> bool \<times> dma_engine) \<Rightarrow> bool" where
  service: "(\<And>ws. weights = Some ws \<Longrightarrow> unat n \<le> length ws) \<Longrightarrow>
    dma_setter (tu_dma_set_drr_service mode weights n)"
| idle_policy: "dma_setter (tu_dma_set_drr_idle_policy policy)"
| granularity: "dma_setter (tu_dma_set_drr_cost_granularity gran)"
| round_issue: "dma_setter (tu_dma_set_drr_round_issue_cycles cycles)"
| round_cost: "dma_setter (tu_dma_set_drr_round_cost_mode cost)"
| select_issue: "dma_setter (tu_dma_set_drr_select_issue_cycles cycles)"
| scan_width: "dma_setter (tu_dma_set_drr_scan_width width)"
| stage_widths: "dma_setter (tu_dma_set_drr_stage_scan_widths rw sw)"

text \<open>The states an engine can be in when every submitted chain satisfies \<open>P\<close>. Between its operations
  the memory may change at will.\<close>

inductive dma_reach :: "(dma_desc list \<Rightarrow> bool) \<Rightarrow> dma_sys \<Rightarrow> bool" for P where
  init: "dma_reach P (init_service p, m)"
| memory: "dma_reach P (g, m) \<Longrightarrow> dma_reach P (g, m')"
| setting: "dma_reach P (g, m) \<Longrightarrow> dma_setter f \<Longrightarrow> dma_reach P (snd (f g), m)"
| submit: "dma_reach P s \<Longrightarrow> P chain \<Longrightarrow> chain \<noteq> [] \<Longrightarrow> dma_reach P (snd (tu_dma_submit_desc chain s))"
| tick: "dma_reach P s \<Longrightarrow> tu_dma_tick s = Some (s', n) \<Longrightarrow> dma_reach P s'"
| flush: "dma_reach P s \<Longrightarrow> dma_reach P (tu_dma_flush_channel i s)"
| flush_all: "dma_reach P s \<Longrightarrow> dma_reach P (tu_dma_flush_all s)"
| load: "dma_reach P s \<Longrightarrow> tu_dma_load k off host n s = Some (st, s') \<Longrightarrow> dma_reach P s'"
| store: "dma_reach P s \<Longrightarrow> tu_dma_store k off host n s = Some (st, s') \<Longrightarrow> dma_reach P s'"

section \<open>Settings and legacy transfers keep the books\<close>

lemma map_channels_book:
  assumes "\<And>ch. chan_book (f ch) = chan_book ch" shows "same_book g (map_channels f g)"
proof -
  have "map chan_book (map f (take n cs) @ drop n cs) = map chan_book cs" for n cs
    using assms by (metis (no_types, lifting) append_take_drop_id map_append map_map comp_apply map_cong)
  then show ?thesis by (simp add: same_book_def engine_setup_def map_channels_def)
qed

lemma same_book_fields [simp]:
  "same_book g (g'\<lparr>e_drr_service_mode := a\<rparr>) = same_book g g'" "same_book g (g'\<lparr>e_drr_weights := ws\<rparr>) = same_book g g'"
  "same_book g (g'\<lparr>e_drr_continue := c\<rparr>) = same_book g g'" "same_book g (g'\<lparr>e_drr_idle_policy := i\<rparr>) = same_book g g'"
  "same_book g (g'\<lparr>e_drr_cost_granularity := x\<rparr>) = same_book g g'"
  "same_book g (g'\<lparr>e_drr_round_issue_cycles := n\<rparr>) = same_book g g'"
  "same_book g (g'\<lparr>e_drr_round_cost_mode := r\<rparr>) = same_book g g'"
  "same_book g (g'\<lparr>e_drr_select_issue_cycles := n\<rparr>) = same_book g g'"
  "same_book g (g'\<lparr>e_drr_scan_width := n\<rparr>) = same_book g g'"
  "same_book g (g'\<lparr>e_drr_round_scan_width := n\<rparr>) = same_book g g'"
  "same_book g (g'\<lparr>e_drr_select_scan_width := n\<rparr>) = same_book g g'"
  "same_book g (g'\<lparr>e_bytes := b\<rparr>) = same_book g g'" "same_book g (g'\<lparr>e_transfers := b\<rparr>) = same_book g g'"
  "same_book g (g'\<lparr>e_estimated_cycles := b\<rparr>) = same_book g g'" "same_book g (g'\<lparr>e_cycle := b\<rparr>) = same_book g g'"
  by (simp_all add: same_book_def engine_setup_def engine_ok_def)

lemma map_channels_settled:
  assumes "same_book g g'" shows "same_book g (map_channels (\<lambda>ch. if P ch then ch\<lparr>ch_credits := 0\<rparr> else ch) g')"
    "same_book g (clear_credits g')"
  using same_book_trans [OF assms map_channels_book] by (simp_all add: clear_credits_def)

lemma setter_book:
  assumes "dma_setter f" shows "same_book g (snd (f g))"
  using assms
proof cases
  case (service weights n mode)
  then show ?thesis by (simp add: tu_dma_set_drr_service_def Let_def split: option.split)
next
  case (idle_policy policy)
  then show ?thesis by (simp add: tu_dma_set_drr_idle_policy_def Let_def map_channels_settled)
qed (simp_all add: tu_dma_set_drr_cost_granularity_def tu_dma_set_drr_round_issue_cycles_def
    tu_dma_set_drr_round_cost_mode_def tu_dma_set_drr_select_issue_cycles_def tu_dma_set_drr_scan_width_def
    tu_dma_set_drr_stage_scan_widths_def Let_def map_channels_settled split: option.split)

lemma legacy_book:
  "tu_dma_load k off host n (g, m) = Some (st, g', m') \<Longrightarrow> same_book g g'"
  "tu_dma_store k off host n (g, m) = Some (st, g', m') \<Longrightarrow> same_book g g'"
  by (auto simp: tu_dma_load_def tu_dma_store_def legacy_account_def Let_def split: if_splits)

section \<open>Synchronous execution empties a queue\<close>

text \<open>Updates of a channel that act on its book.\<close>

definition on_book :: "(dma_channel \<Rightarrow> dma_channel) \<Rightarrow> bool" where
  "on_book f \<longleftrightarrow> (\<forall>c c'. chan_book c = chan_book c' \<longrightarrow> chan_book (f c) = chan_book (f c'))"

lemma map_book_update:
  "map chan_book (e_channels (upd_channel i f g)) = (map chan_book (e_channels g))[i := chan_book (f (e_channels g ! i))]"
  by (simp add: map_update)

lemma same_book_upd:
  assumes "on_book f" "same_book g g'" shows "same_book (upd_channel i f g) (upd_channel i f g')"
proof (cases "i < length (e_channels g)")
  case True
  then have b: "chan_book (f (e_channels g' ! i)) = chan_book (f (e_channels g ! i))"
    using assms(1) same_book_chan(3) [OF assms(2)] unfolding on_book_def by blast
  have "map chan_book (e_channels (upd_channel i f g')) = map chan_book (e_channels (upd_channel i f g))"
    unfolding map_book_update b using assms(2) by (simp only: same_book_def)
  then show ?thesis
    using same_book_setup [OF assms(2)] unfolding same_book_def by (simp add: engine_setup_def)
next
  case False
  then show ?thesis using assms(2) same_book_setup(6) [OF assms(2)] by (simp add: list_update_beyond)
qed

lemma same_book_upd_upd:
  assumes "on_book f" "same_book (upd_channel i h g) g'"
  shows "same_book (upd_channel i (\<lambda>ch. f (h ch)) g) (upd_channel i f g')"
proof -
  have "upd_channel i f (upd_channel i h g) = upd_channel i (\<lambda>ch. f (h ch)) g"
    by (cases "i < length (e_channels g)") (simp_all add: list_update_beyond)
  then show ?thesis using same_book_upd [OF assms, of i] by simp
qed

definition pass_done :: "nat \<Rightarrow> dma_channel \<Rightarrow> dma_channel" where
  "pass_done n ch = ch\<lparr>ch_queue := drop n (ch_queue ch), ch_depth := ch_depth ch - of_nat n,
     ch_completed := ch_completed ch + of_nat n\<rparr>"

definition drained :: "dma_channel \<Rightarrow> dma_channel" where
  "drained ch = (pass_done (length (ch_queue ch)) ch)\<lparr>ch_tail := None\<rparr>"

definition retired :: "dma_channel \<Rightarrow> dma_channel" where
  "retired ch = (if ch_active ch = None then ch
     else ch\<lparr>ch_active := None, ch_completed := ch_completed ch + 1\<rparr>)"

lemma on_book_drain: "on_book (pass_done n)" "on_book drained" "on_book retired"
  by (auto simp: on_book_def chan_book_def pass_done_def drained_def retired_def)

lemma pass_done_0: "pass_done 0 ch = ch"
  by (simp add: pass_done_def)

lemma pass_done_Suc: "pass_done n (pass_done (Suc 0) ch) = pass_done (Suc n) ch"
  by (simp add: pass_done_def drop_Suc)

lemma drain_one_book: "same_book (upd_channel i (pass_done 1) g) (fst (drain_one i (g, m) d))"
proof -
  obtain d' g' m' where ex: "tu_dma_execute_desc d (g, m) = (d', g', m')" by (metis prod_cases3)
  show ?thesis
    using same_book_upd [OF on_book_drain(1) execute_book [OF ex], of i 1]
    by (simp add: drain_one_def ex pass_done_def drop_Suc)
qed

lemma drain_all_book: "same_book (upd_channel i (pass_done (length ds)) g) (fst (foldl (drain_one i) (g, m) ds))"
proof (induction ds arbitrary: g m)
  case Nil
  show ?case by (simp add: pass_done_0 same_book_update)
next
  case (Cons d ds)
  obtain g1 m1 where one: "drain_one i (g, m) d = (g1, m1)" by (metis prod.exhaust)
  have "same_book (upd_channel i (\<lambda>ch. pass_done (length ds) (pass_done 1 ch)) g) (upd_channel i (pass_done (length ds)) g1)"
    using same_book_upd_upd [where h = "pass_done 1", OF on_book_drain(1) drain_one_book [of g i m d]] by (simp add: one)
  then show ?case using Cons [of g1 m1] by (auto simp: one pass_done_Suc intro: same_book_trans)
qed

lemma drain_queue_book: "same_book (upd_channel i drained g) (fst (drain_queue i (g, m)))"
proof -
  let ?q = "ch_queue (e_channels g ! i)"
  have t: "on_book (\<lambda>ch. ch\<lparr>ch_tail := None\<rparr>)" by (simp add: on_book_def chan_book_def)
  obtain g1 m1 where fold: "foldl (drain_one i) (g, m) ?q = (g1, m1)" by (metis prod.exhaust)
  have "same_book (upd_channel i (\<lambda>ch. (pass_done (length ?q) ch)\<lparr>ch_tail := None\<rparr>) g) (fst (drain_queue i (g, m)))"
    using same_book_upd_upd [where h = "pass_done (length ?q)", OF t drain_all_book [of g i ?q m]]
    by (simp add: drain_queue_def fold)
  then show ?thesis by (simp add: drained_def)
qed

lemma flush_book:
  "same_book (if i < unat (e_num_channels g) then upd_channel i (\<lambda>ch. retired (drained ch)) g else g)
     (fst (tu_dma_flush_channel i (g, m)))"
proof (cases "i < unat (e_num_channels g)")
  case True
  obtain g1 m1 where dq: "drain_queue i (g, m) = (g1, m1)" by (metis prod.exhaust)
  have b: "same_book (upd_channel i drained g) g1" using drain_queue_book [of g i m] by (simp add: dq)
  show ?thesis
  proof (cases "ch_active (e_channels g1 ! i)")
    case None
    then have "upd_channel i retired g1 = g1" by (simp add: retired_def)
    then show ?thesis using same_book_upd_upd [where h = drained, OF on_book_drain(3) b] True None
      by (simp add: tu_dma_flush_channel_def dq)
  next
    case (Some d)
    obtain d' g2 m2 where ex: "tu_dma_execute_desc d (g1, m1) = (d', g2, m2)" by (metis prod_cases3)
    have b2: "same_book (upd_channel i drained g) g2" by (rule same_book_trans [OF b execute_book [OF ex]])
    have "i < length (e_channels g2) \<Longrightarrow> ch_active (e_channels g2 ! i) \<noteq> None"
      using same_book_chan(2) [OF execute_book [OF ex]] same_book_setup(6) [OF execute_book [OF ex]] Some by simp
    then have "upd_channel i retired g2 =
        upd_channel i (\<lambda>ch. ch\<lparr>ch_active := None, ch_completed := ch_completed ch + 1\<rparr>) g2"
      by (cases "i < length (e_channels g2)") (auto simp: retired_def list_update_beyond)
    then show ?thesis using same_book_upd_upd [where h = drained, OF on_book_drain(3) b2] True Some ex
      by (simp add: tu_dma_flush_channel_def dq)
  qed
qed (simp add: tu_dma_flush_channel_def)

section \<open>Submission\<close>

lemma on_book_enqueue: "on_book (enqueue_chain chain)"
  by (auto simp: on_book_def chan_book_def enqueue_chain_def Let_def split: option.split)

lemma book_length: "chan_book c = chan_book c' \<Longrightarrow> length (ch_queue c) = length (ch_queue c')"
  by (simp add: chan_book_def)

lemma enqueue_behind:
  assumes "ch_queue ch = []" "chain \<noteq> []"
  shows "length (ch_queue (enqueue_chain later (enqueue_chain chain ch))) = 1 + length later"
  using assms by (cases chain) (simp_all add: enqueue_chain_def Let_def)

lemma enqueue_length: "length c = length c' \<Longrightarrow> chan_book (enqueue_chain c ch) = chan_book (enqueue_chain c' ch)"
  by (simp add: enqueue_chain_def chan_book_def Let_def split: option.split)

lemma commit_book:
  assumes "chain \<noteq> []"
  shows "same_book (upd_channel (unat c) (enqueue_chain chain) g) (submit_commit chain c g)"
proof -
  define g1 where "g1 = (if e_binding_policy g \<noteq> TU_DMA_BIND_EXPLICIT
    then g\<lparr>e_next_binding := (c + 1) mod e_num_channels g\<rparr> else g)"
  define chain1 where "chain1 = map (stamp_desc g1)
    ((if e_binding_policy g \<noteq> TU_DMA_BIND_EXPLICIT then (hd chain)\<lparr>d_channel := ucast c\<rparr> else hd chain) # tl chain)"
  have len: "length chain1 = length chain" using assms by (simp add: chain1_def)
  have "same_book g g1" by (simp add: g1_def same_book_def engine_setup_def)
  then have "same_book (upd_channel (unat c) (enqueue_chain chain1) g) (submit_commit chain c g)"
    unfolding submit_commit_def Let_def g1_def [symmetric] chain1_def [symmetric]
    by (rule same_book_upd [OF on_book_enqueue])
  then show ?thesis
    using enqueue_length [OF len] by (simp add: same_book_def engine_setup_def map_update)
qed

lemma commit_async: "e_async (submit_commit chain c g) = e_async g"
  by (simp add: submit_commit_def Let_def)

lemma submit_gate_some:
  assumes "submit_gate chain (g, m) = Some c"
  shows "c < e_num_channels g"
    "\<not> (ch_max_depth (e_channels g ! unat c) \<le> channel_outstanding (e_channels g ! unat c)
       \<and> 0 < ch_max_depth (e_channels g ! unat c))"
  using assms by (auto simp: submit_gate_def Let_def not_le split: if_splits)

definition enqueued :: "bool \<Rightarrow> dma_desc list \<Rightarrow> dma_channel \<Rightarrow> dma_channel" where
  "enqueued async chain ch = (if async then enqueue_chain chain ch else drained (enqueue_chain chain ch))"

lemma submit_book:
  assumes "chain \<noteq> []" "submit_gate chain (g, m) = Some c"
  shows "same_book (upd_channel (unat c) (enqueued (e_async g) chain) g) (fst (snd (tu_dma_submit_desc chain (g, m))))"
proof -
  note b = commit_book [OF assms(1), of g c]
  let ?g = "submit_commit chain c g"
  have "same_book (upd_channel (unat c) (\<lambda>ch. drained (enqueue_chain chain ch)) g) (fst (drain_queue (unat c) (?g, m)))"
    by (rule same_book_trans [OF same_book_upd_upd [where h = "enqueue_chain chain", OF on_book_drain(2) b] drain_queue_book])
  then show ?thesis
    using b assms(2) by (simp add: tu_dma_submit_desc_def enqueued_def Let_def commit_async)
qed

section \<open>Invariants\<close>

text \<open>The channels that are transferring, and the shape every engine keeps.\<close>

definition busy_channels :: "dma_engine \<Rightarrow> nat list" where
  "busy_channels g = filter (\<lambda>i. ch_active (e_channels g ! i) \<noteq> None) [0..<unat (e_num_channels g)]"

definition engine_inv :: "dma_engine \<Rightarrow> bool" where
  "engine_inv g \<longleftrightarrow> length (e_channels g) = 8 \<and> (e_num_channels g = 0 \<or> cursor_ok g) \<and>
     (e_bus_mode g = TU_DMA_BUS_MODE_SHARED_SERIAL \<longrightarrow> length (busy_channels g) \<le> 1)"

text \<open>The books of a channel balance: its depth counts its queue, \<open>tail\<close> is the last descriptor, what was
  submitted is completed, queued or active, and the outstanding descriptors respect the limit.\<close>

fun balanced :: "nat \<times> nat option \<times> bool \<times> u32 \<times> u32 \<times> u64 \<times> u64 \<Rightarrow> bool" where
  "balanced (n, t, act, depth, limit, submitted, completed) \<longleftrightarrow>
     depth = of_nat n \<and> (n > 0 \<longrightarrow> t = Some (n - 1)) \<and>
     submitted = completed + of_nat n + (if act then 1 else 0) \<and>
     (limit > 0 \<longrightarrow> n + (if act then 1 else 0) \<le> unat limit)"

definition books_balanced :: "dma_engine \<Rightarrow> bool" where
  "books_balanced g \<longleftrightarrow> list_all balanced (map chan_book (e_channels g))"

lemma engine_inv_num: "engine_inv g \<Longrightarrow> unat (e_num_channels g) \<le> length (e_channels g)"
  by (auto simp: engine_inv_def cursor_ok_def engine_ok_def word_le_nat_alt)

lemma busy_channels_le:
  assumes "e_num_channels g' = e_num_channels g"
    "\<And>i. i < unat (e_num_channels g) \<Longrightarrow> ch_active (e_channels g' ! i) \<noteq> None \<Longrightarrow> ch_active (e_channels g ! i) \<noteq> None"
  shows "length (busy_channels g') \<le> length (busy_channels g)"
proof -
  have le: "length (filter P xs) \<le> length (filter Q xs)" if "\<And>x. x \<in> set xs \<Longrightarrow> P x \<Longrightarrow> Q x" for P Q :: "nat \<Rightarrow> bool" and xs
    using that by (induction xs) (auto simp: le_SucI)
  show ?thesis unfolding busy_channels_def assms(1) by (rule le) (use assms(2) in simp)
qed

text \<open>Operations that update one channel and start nothing.\<close>

locale quiet_update =
  fixes f :: "dma_channel \<Rightarrow> dma_channel"
  assumes quiet: "ch_active ch = None \<Longrightarrow> ch_active (f ch) = None"
begin

lemma keeps_inv:
  assumes "same_book (upd_channel i f g) g'" "engine_inv g"
  shows "engine_inv g'"
proof -
  note s = same_book_setup [OF assms(1), simplified]
  have "length (busy_channels g') \<le> length (busy_channels g)"
  proof (rule busy_channels_le)
    fix k assume "k < unat (e_num_channels g)" "ch_active (e_channels g' ! k) \<noteq> None"
    moreover from this have "k < length (e_channels g)" using engine_inv_num [OF assms(2)] by simp
    ultimately show "ch_active (e_channels g ! k) \<noteq> None"
      using same_book_chan(2) [OF assms(1), of k] quiet [of "e_channels g ! i"]
      by (cases "k = i"; cases "ch_active (e_channels g ! i)") auto
  qed (rule s(1))
  then show ?thesis using assms(2) s by (auto simp: engine_inv_def cursor_ok_def)
qed

end

interpretation idle_op: quiet_update "\<lambda>ch. ch" by unfold_locales
interpretation retire_op: quiet_update retired by unfold_locales (simp add: retired_def)
interpretation flush_op: quiet_update "\<lambda>ch. retired (drained ch)"
  by unfold_locales (simp add: retired_def drained_def pass_done_def)
interpretation enqueue_op: quiet_update "enqueued async chain" for async chain
  by unfold_locales (simp add: enqueued_def drained_def pass_done_def enqueue_chain_def Let_def split: option.split)

lemma same_book_inv: "same_book g g' \<Longrightarrow> engine_inv g \<Longrightarrow> engine_inv g'"
  using idle_op.keeps_inv [of g 0 g'] by simp

lemma list_all_update: "list_all P xs \<Longrightarrow> P v \<Longrightarrow> list_all P (xs[i := v])"
  by (auto simp: list_all_iff dest!: set_update_subset_insert [THEN subsetD])

text \<open>Updates of one channel that keep its books balanced.\<close>

lemma balanced_update:
  assumes "books_balanced g" "same_book (upd_channel i f g) g'"
    and "balanced (chan_book (e_channels g ! i)) \<Longrightarrow> balanced (chan_book (f (e_channels g ! i)))"
  shows "books_balanced g'"
proof (cases "i < length (e_channels g)")
  case True
  have "map chan_book (e_channels g') = (map chan_book (e_channels g))[i := chan_book (f (e_channels g ! i))]"
    using assms(2) by (simp add: same_book_def map_update)
  moreover have "balanced (chan_book (f (e_channels g ! i)))"
    using assms(1,3) True by (simp add: books_balanced_def list_all_length)
  ultimately show ?thesis
    using assms(1) by (simp add: books_balanced_def list_all_update)
next
  case False
  then show ?thesis using assms(1,2) by (simp add: same_book_def books_balanced_def list_update_beyond)
qed

lemma same_book_balanced: "same_book g g' \<Longrightarrow> books_balanced g \<Longrightarrow> books_balanced g'"
  by (simp add: same_book_def books_balanced_def)

lemma balanced_retired: "balanced (chan_book ch) \<Longrightarrow> balanced (chan_book (retired ch))"
  by (auto simp: chan_book_def retired_def)

lemma balanced_drained: "balanced (chan_book ch) \<Longrightarrow> balanced (chan_book (drained ch))"
  by (auto simp: chan_book_def drained_def pass_done_def)

lemma balanced_pop:
  "balanced (chan_book ch) \<Longrightarrow> ch_queue ch \<noteq> [] \<Longrightarrow> ch_active ch = None \<Longrightarrow> balanced (chan_book (pop_head ch))"
  by (cases "ch_queue ch") (auto simp: chan_book_def pop_head_def pop_tail_def split: option.split nat.split)

lemma balanced_enqueue:
  assumes "balanced (chan_book ch)" "length chain = 1"
    and "\<not> (ch_max_depth ch \<le> channel_outstanding ch \<and> 0 < ch_max_depth ch)"
  shows "balanced (chan_book (enqueue_chain chain ch))"
proof -
  let ?n = "length (ch_queue ch)" and ?a = "if ch_active ch \<noteq> None then 1 else 0"
  have b: "ch_depth ch = of_nat ?n" "?n > 0 \<Longrightarrow> ch_tail ch = Some (?n - 1)"
      "ch_submitted ch = ch_completed ch + of_nat ?n + (if ch_active ch \<noteq> None then 1 else 0)"
      "0 < ch_max_depth ch \<Longrightarrow> ?n + ?a \<le> unat (ch_max_depth ch)"
    using assms(1) by (auto simp: chan_book_def)
  have "?n + ?a < unat (ch_max_depth ch)" if m: "0 < ch_max_depth ch"
  proof -
    have "?n + ?a \<le> 4294967295" using b(4) [OF m] unat_u32_le [of "ch_max_depth ch"] by linarith
    then have "unat (channel_outstanding ch) = ?n + ?a"
      using unat_of_nat_u32 [of ?n] unat_of_nat_u32 [of "?n + 1"]
      by (auto simp: channel_outstanding_def b(1) add.commute)
    then show ?thesis using assms(3) m by (simp add: not_le word_less_nat_alt)
  qed
  then show ?thesis
    using b assms(2) by (cases "ch_queue ch") (auto simp: chan_book_def enqueue_chain_def Let_def)
qed

section \<open>The tick\<close>

text \<open>The first half of a channel's turn retires, the second starts a transfer on its own path.\<close>

lemma tick_channel_cases:
  obtains (quiet) g1 where "fst (fst (tick_channel ((g, m), n) i)) = g1"
      "same_book g g1 \<or> same_book (upd_channel i retired g) g1"
  | (start) g1 where "e_bus_mode g = TU_DMA_BUS_MODE_INDEPENDENT"
      "same_book g g1 \<or> same_book (upd_channel i retired g) g1"
      "ch_active (e_channels g1 ! i) = None" "ch_queue (e_channels g1 ! i) \<noteq> []"
      "started i g1 (fst (fst (tick_channel ((g, m), n) i)))"
proof -
  define g1 where "g1 = (if retire_due (e_cycle g) (e_channels g ! i)
    then upd_channel i (\<lambda>ch. ch\<lparr>ch_active := None, ch_completed := ch_completed ch + 1\<rparr>) g else g)"
  have b: "same_book g g1 \<or> same_book (upd_channel i retired g) g1"
    by (auto simp: g1_def retire_due_def retired_def split: option.splits)
  have m1: "e_bus_mode g1 = e_bus_mode g" by (simp add: g1_def)
  have t: "fst (tick_channel ((g, m), n) i) =
      (if e_bus_mode g1 = TU_DMA_BUS_MODE_INDEPENDENT \<and> ch_active (e_channels g1 ! i) = None
          \<and> ch_queue (e_channels g1 ! i) \<noteq> [] then start_head i (g1, m) else (g1, m))"
    by (simp add: tick_channel_def g1_def Let_def)
  show ?thesis
  proof (cases "e_bus_mode g1 = TU_DMA_BUS_MODE_INDEPENDENT \<and> ch_active (e_channels g1 ! i) = None
      \<and> ch_queue (e_channels g1 ! i) \<noteq> []")
    case True
    then show ?thesis using started_start_head [of i g1 m] b m1 by (intro start [of g1]) (simp_all add: t)
  next
    case False
    then show ?thesis using b by (intro quiet [of g1]) (simp_all only: t if_False fst_conv)
  qed
qed

lemma filter_eq_upt: "i < n \<Longrightarrow> filter (\<lambda>k. k = i) [0..<n] = [i]"
proof (induction n)
  case (Suc n)
  have "filter (\<lambda>k. k = n) [0..<n] = []" by (auto simp: filter_empty_conv)
  then show ?case using Suc by (cases "i = n") auto
qed simp

lemma started_chan:
  assumes "started i g g'" "k < length (e_channels g)"
  shows "chan_book (e_channels g' ! k) =
    (if k = i then chan_book (pop_head (e_channels g ! i)) else chan_book (e_channels g ! k))"
proof -
  have l: "length (e_channels g') = length (e_channels g)"
    and m: "map chan_book (e_channels g') = (map chan_book (e_channels g))[i := chan_book (pop_head (e_channels g ! i))]"
    using assms(1) by (simp_all add: started_def)
  have "chan_book (e_channels g' ! k) = map chan_book (e_channels g') ! k" using l assms(2) by simp
  also have "\<dots> = (if k = i then chan_book (pop_head (e_channels g ! i)) else chan_book (e_channels g ! k))"
    unfolding m using assms(2) by (simp add: nth_list_update)
  finally show ?thesis .
qed

lemma started_inv:
  assumes "started i g g'" "engine_inv g" "i < unat (e_num_channels g)"
    and "e_bus_mode g = TU_DMA_BUS_MODE_SHARED_SERIAL \<Longrightarrow> busy_channels g = []"
  shows "engine_inv g'" "e_bus_mode g = TU_DMA_BUS_MODE_SHARED_SERIAL \<Longrightarrow> busy_channels g' = [i]"
proof -
  note s = assms(1) [unfolded started_def]
  have n: "unat (e_num_channels g) \<le> length (e_channels g)" by (rule engine_inv_num [OF assms(2)])
  have busy: "(ch_active (e_channels g' ! k) = None) = (k \<noteq> i \<and> ch_active (e_channels g ! k) = None)"
    if "k < unat (e_num_channels g)" for k
    using started_chan [OF assms(1), of k] that n by (auto simp: chan_book_def pop_head_def split: if_splits)
  show one: "busy_channels g' = [i]" if "e_bus_mode g = TU_DMA_BUS_MODE_SHARED_SERIAL"
  proof -
    have "ch_active (e_channels g ! k) = None" if "k < unat (e_num_channels g)" for k
      using assms(4) [OF \<open>e_bus_mode g = _\<close>] that by (auto simp: busy_channels_def filter_empty_conv)
    then have "busy_channels g' = filter (\<lambda>k. k = i) [0..<unat (e_num_channels g)]"
      unfolding busy_channels_def by (intro filter_cong) (use s busy in \<open>simp_all del: not_None_eq\<close>)
    also have "\<dots> = [i]" using assms(3) by (simp add: filter_eq_upt)
    finally show ?thesis .
  qed
  then show "engine_inv g'"
    using s assms(2) by (auto simp: engine_inv_def cursor_ok_def)
qed

text \<open>The channel phase keeps the invariants; on a shared bus it starts nothing.\<close>

lemma retire_inv: "same_book g g1 \<or> same_book (upd_channel i retired g) g1 \<Longrightarrow> engine_inv g \<Longrightarrow> engine_inv g1"
  using same_book_inv retire_op.keeps_inv by blast

lemma retire_balanced:
  "same_book g g1 \<or> same_book (upd_channel i retired g) g1 \<Longrightarrow> books_balanced g \<Longrightarrow> books_balanced g1"
  using same_book_balanced balanced_update [of g i retired g1] balanced_retired by blast

lemma started_balanced:
  assumes "started i g g'" "books_balanced g" "i < length (e_channels g)"
    "ch_queue (e_channels g ! i) \<noteq> []" "ch_active (e_channels g ! i) = None"
  shows "books_balanced g'"
proof -
  have "balanced (chan_book (e_channels g ! i))"
    using assms(2,3) by (simp add: books_balanced_def list_all_length)
  then have "balanced (chan_book (pop_head (e_channels g ! i)))" by (rule balanced_pop [OF _ assms(4,5)])
  then show ?thesis
    using assms(1,2) by (simp add: started_def books_balanced_def list_all_update)
qed

lemma retire_setup:
  "same_book g g1 \<or> same_book (upd_channel i retired g) g1 \<Longrightarrow>
    e_num_channels g1 = e_num_channels g \<and> e_bus_mode g1 = e_bus_mode g \<and> e_arb_policy g1 = e_arb_policy g"
  using same_book_setup by fastforce

lemma tick_channel_keeps:
  assumes "engine_inv g" "i < unat (e_num_channels g)" "tick_channel ((g, m), n) i = ((g', m'), n')"
  shows "engine_inv g'" "e_num_channels g' = e_num_channels g" "e_bus_mode g' = e_bus_mode g"
    "books_balanced g \<Longrightarrow> books_balanced g'"
proof -
  have "engine_inv g' \<and> e_num_channels g' = e_num_channels g \<and> e_bus_mode g' = e_bus_mode g \<and>
      (books_balanced g \<longrightarrow> books_balanced g')"
  proof (rule tick_channel_cases [of g m n i])
    fix g1 assume "fst (fst (tick_channel ((g, m), n) i)) = g1"
      and r: "same_book g g1 \<or> same_book (upd_channel i retired g) g1"
    then have "g' = g1" by (simp add: assms(3))
    then show ?thesis using retire_inv [OF r assms(1)] retire_setup [OF r] retire_balanced [OF r] by simp
  next
    fix g1
    assume ind: "e_bus_mode g = TU_DMA_BUS_MODE_INDEPENDENT"
      and r: "same_book g g1 \<or> same_book (upd_channel i retired g) g1"
      and ch: "ch_active (e_channels g1 ! i) = None" "ch_queue (e_channels g1 ! i) \<noteq> []"
      and "started i g1 (fst (fst (tick_channel ((g, m), n) i)))"
    then have st: "started i g1 g'" by (simp add: assms(3))
    note q = retire_setup [OF r] and inv = retire_inv [OF r assms(1)]
    have i: "i < length (e_channels g1)" using engine_inv_num [OF inv] q assms(2) by simp
    have "engine_inv g'" by (rule started_inv(1) [OF st inv]) (use q ind assms(2) in auto)
    then show ?thesis
      using q started_balanced [OF st _ i ch(2,1)] retire_balanced [OF r] st
      by (auto simp: started_def)
  qed
  then show "engine_inv g'" "e_num_channels g' = e_num_channels g" "e_bus_mode g' = e_bus_mode g"
    "books_balanced g \<Longrightarrow> books_balanced g'"
    by simp_all
qed

definition phase :: "nat list \<Rightarrow> dma_sys \<Rightarrow> int \<Rightarrow> dma_sys \<times> int" where
  "phase is s n = foldl tick_channel (s, n) is"

lemma phase_keeps:
  assumes "engine_inv g" "\<And>i. i \<in> set is \<Longrightarrow> i < unat (e_num_channels g)" "phase is (g, m) n = ((g', m'), n')"
  shows "engine_inv g' \<and> e_num_channels g' = e_num_channels g \<and> e_bus_mode g' = e_bus_mode g \<and>
    (books_balanced g \<longrightarrow> books_balanced g')"
  using assms
proof (induction "is" arbitrary: g m n)
  case (Cons i "is")
  obtain g1 m1 n1 where one: "tick_channel ((g, m), n) i = ((g1, m1), n1)" by (metis prod_cases3 prod.collapse)
  have i: "i < unat (e_num_channels g)" using Cons.prems(2) by simp
  note k = tick_channel_keeps [OF Cons.prems(1) i one]
  have "engine_inv g' \<and> e_num_channels g' = e_num_channels g1 \<and> e_bus_mode g' = e_bus_mode g1 \<and>
    (books_balanced g1 \<longrightarrow> books_balanced g')"
    by (rule Cons.IH [of g1 m1 n1]) (use k Cons.prems one in \<open>auto simp: phase_def\<close>)
  then show ?case using k by simp
qed (simp add: phase_def)

section \<open>The shared bus\<close>

lemma bus_busy_iff: "engine_inv g \<Longrightarrow> bus_busy g \<longleftrightarrow> busy_channels g \<noteq> []"
  using engine_inv_num [of g]
  by (auto simp: bus_busy_def busy_channels_def list_ex_length filter_empty_conv min_absorb2 Bex_def)

definition service_done :: "dma_engine \<Rightarrow> dma_engine \<Rightarrow> bool" where
  "service_done g g' \<longleftrightarrow>
     (same_book g g' \<and> (e_bus_mode g = TU_DMA_BUS_MODE_SHARED_SERIAL \<and> busy_channels g = [] \<longrightarrow> (\<forall>i. \<not> has_work g i))) \<or>
     (e_bus_mode g = TU_DMA_BUS_MODE_SHARED_SERIAL \<and> busy_channels g = [] \<and> (\<exists>i. has_work g i \<and> started i g g'))"

context arbiter
begin

lemma service:
  assumes "cursor_ok g" "e_bus_mode g = TU_DMA_BUS_MODE_SHARED_SERIAL" "busy_channels g = []"
  shows "\<exists>s'. pick (g, m) = Some s' \<and> service_done g (fst s')"
  by (rule picks [OF assms(1), of m]) (use assms in \<open>auto simp: service_done_def\<close>)

end

lemma service_without_channels:
  assumes "e_num_channels g = 0"
  shows "shared_service (g, m) = Some (g, m)"
proof -
  have "drr_loop (g, m) = Some (g, m)" using assms by (subst drr_loop.simps) simp
  moreover have "arbitrate (g, m) = (g, m)" using assms by (simp add: arbitrate_def Let_def)
  ultimately show ?thesis by (simp add: shared_service_def)
qed

lemma shared_service_result:
  assumes "engine_inv g"
  shows "\<exists>s'. shared_service (g, m) = Some s' \<and> service_done g (fst s')"
proof (cases "e_num_channels g = 0")
  case True
  then show ?thesis by (simp add: service_without_channels service_done_def has_work_def)
next
  case False
  then have c: "cursor_ok g" using assms by (simp add: engine_inv_def)
  show ?thesis
  proof (cases "e_bus_mode g = TU_DMA_BUS_MODE_SHARED_SERIAL \<and> busy_channels g = []")
    case True
    then show ?thesis
      using drr.service [OF c, of m] prio.service [OF c, of m] bus_busy_iff [OF assms]
      by (cases "arbitrate (g, m)") (auto simp: shared_service_def)
  next
    case False
    then show ?thesis using bus_busy_iff [OF assms] by (auto simp: shared_service_def service_done_def)
  qed
qed

lemma service_done_keeps:
  assumes "service_done g g'" "engine_inv g"
  shows "engine_inv g' \<and> e_num_channels g' = e_num_channels g \<and> e_bus_mode g' = e_bus_mode g \<and>
    (books_balanced g \<longrightarrow> books_balanced g') \<and>
    (e_bus_mode g = TU_DMA_BUS_MODE_SHARED_SERIAL \<and> busy_channels g' = [] \<longrightarrow> (\<forall>i. \<not> has_work g' i))"
proof (cases "same_book g g'")
  case True
  note s = same_book_setup [OF True]
  have n: "unat (e_num_channels g) \<le> length (e_channels g)" by (rule engine_inv_num [OF assms(2)])
  have "length (busy_channels g) \<le> length (busy_channels g')"
    by (rule busy_channels_le) (use s same_book_chan(2) [OF True] n in \<open>auto simp del: not_None_eq\<close>)
  moreover have "has_work g' i = has_work g i" for i
    using s same_book_chan(1) [OF True, of i] n by (auto simp: has_work_def)
  moreover have "has_work g i \<Longrightarrow> busy_channels g = [] \<Longrightarrow> e_bus_mode g \<noteq> TU_DMA_BUS_MODE_SHARED_SERIAL
      \<or> (\<exists>j. started j g g')" for i
    using assms(1) by (auto simp: service_done_def)
  moreover have "started j g g' \<Longrightarrow> has_work g j \<Longrightarrow> busy_channels g = [] \<Longrightarrow>
      e_bus_mode g = TU_DMA_BUS_MODE_SHARED_SERIAL \<Longrightarrow> busy_channels g' = [j]" for j
    using started_inv(2) [of j g g'] assms(2) by (simp add: has_work_def)
  ultimately show ?thesis
    using s same_book_inv [OF True assms(2)] same_book_balanced [OF True] assms(1)
    by (auto simp: service_done_def)
next
  case False
  then obtain i where sh: "e_bus_mode g = TU_DMA_BUS_MODE_SHARED_SERIAL" "busy_channels g = []"
    and w: "has_work g i" and st: "started i g g'"
    using assms(1) by (auto simp: service_done_def)
  have i: "i < unat (e_num_channels g)" "ch_queue (e_channels g ! i) \<noteq> []" using w by (simp_all add: has_work_def)
  have "ch_active (e_channels g ! i) = None" using sh(2) i(1) by (auto simp: busy_channels_def filter_empty_conv)
  then have "books_balanced g \<Longrightarrow> books_balanced g'"
    using started_balanced [OF st _ _ i(2)] i(1) engine_inv_num [OF assms(2)] by simp
  moreover have "busy_channels g' = [i]" by (rule started_inv(2) [OF st assms(2) i(1)]) (use sh in simp_all)
  ultimately show ?thesis
    using started_inv(1) [OF st assms(2) i(1)] sh st by (simp add: started_def)
qed

section \<open>Reachable engines\<close>

definition fresh :: "dma_engine \<Rightarrow> bool" where
  "fresh g \<longleftrightarrow> e_channels g = e_channels zero_engine \<and> e_next_shared g = 0"

lemma fresh_zero [simp]: "fresh zero_engine" "e_next_shared zero_engine = 0"
  by (simp_all add: fresh_def zero_engine_def)

lemma arbitration_fresh: "init_arbitration p = Inr g \<or> init_arbitration p = Inl g \<Longrightarrow> fresh g"
  by (auto simp: init_arbitration_def Let_def fresh_def split: option.splits)

lemma quanta_fresh: "fresh g \<Longrightarrow> init_quanta p g = Inr g' \<or> init_quanta p g = Inl g' \<Longrightarrow> fresh g'"
  by (auto simp: init_quanta_def Let_def fresh_def split: option.splits if_splits)

lemma modes_fresh: "fresh g \<Longrightarrow> init_modes p g = Inr g' \<or> init_modes p g = Inl g' \<Longrightarrow> fresh g'"
  by (auto simp: init_modes_def fresh_def split: option.splits)

lemma bus_fresh: "fresh g \<Longrightarrow> init_bus p g = Inr g' \<or> init_bus p g = Inl g' \<Longrightarrow> fresh g'"
  by (auto simp: init_bus_def Let_def fresh_def split: if_splits)

lemma init_service_fresh: "fresh (init_service p) \<or> (\<exists>g. fresh g \<and> init_service p = init_channels p g)"
proof (cases "init_arbitration p")
  case (Inr g1)
  have f1: "fresh g1" by (rule arbitration_fresh [of p]) (use Inr in simp)
  show ?thesis
  proof (cases "init_quanta p g1")
    case q: (Inr g2)
    have f2: "fresh g2" by (rule quanta_fresh [OF f1, of p]) (use q in simp)
    show ?thesis
    proof (cases "init_modes p g2")
      case m: (Inr g3)
      have f3: "fresh g3" by (rule modes_fresh [OF f2, of p]) (use m in simp)
      show ?thesis
      proof (cases "init_bus p g3")
        case u: (Inr g4)
        have "fresh g4" by (rule bus_fresh [OF f3, of p]) (use u in simp)
        then show ?thesis using Inr q m u by (auto simp: init_service_def)
      qed (use Inr q m bus_fresh [OF f3, of p] in \<open>auto simp: init_service_def\<close>)
    qed (use Inr q modes_fresh [OF f2, of p] in \<open>auto simp: init_service_def\<close>)
  qed (use Inr quanta_fresh [OF f1, of p] in \<open>auto simp: init_service_def\<close>)
qed (use arbitration_fresh [of p] in \<open>auto simp: init_service_def\<close>)

lemma zero_channels: "ch \<in> set (e_channels zero_engine) \<Longrightarrow> ch = zero_channel"
  by (simp add: zero_engine_def)

definition idle_channel :: "dma_channel \<Rightarrow> bool" where
  "idle_channel ch \<longleftrightarrow> ch_active ch = None \<and> ch_queue ch = [] \<and> ch_depth ch = 0 \<and> ch_submitted ch = ch_completed ch"

lemma init_service_idle: "list_all idle_channel (e_channels (init_service p))"
proof -
  have zero: "list_all idle_channel (e_channels zero_engine)"
    by (auto simp: list_all_iff idle_channel_def zero_channel_def dest!: zero_channels)
  consider "fresh (init_service p)" | g where "fresh g" "init_service p = init_channels p g"
    using init_service_fresh by blast
  then show ?thesis
  proof cases
    case 1
    then show ?thesis using zero by (simp add: fresh_def)
  next
    case 2
    then have "list_all idle_channel (e_channels g)" using zero by (simp add: fresh_def)
    then show ?thesis
      by (auto simp: 2(2) init_channels_def Let_def list_all_length idle_channel_def)
  qed
qed

lemma init_service_inv: "engine_inv (init_service p)" "books_balanced (init_service p)"
proof -
  let ?g = "init_service p"
  have idle: "\<And>ch. ch \<in> set (e_channels ?g) \<Longrightarrow> idle_channel ch"
    using init_service_idle [of p] by (simp add: list_all_iff)
  have len: "length (e_channels ?g) = 8" and cur: "e_next_shared ?g = 0"
    using init_service_fresh [of p] by (auto simp: fresh_def init_channels_def Let_def)
  have n: "e_num_channels ?g = 0 \<or> engine_ok ?g" by (rule init_service_ok)
  then have le: "unat (e_num_channels ?g) \<le> 8" by (auto simp: engine_ok_def word_le_nat_alt)
  have "busy_channels ?g = []"
    using idle len le by (auto simp: busy_channels_def filter_empty_conv idle_channel_def dest!: bspec nth_mem)
  moreover have "engine_ok ?g \<Longrightarrow> cursor_ok ?g" using cur by (simp add: cursor_ok_def engine_ok_def)
  ultimately show "engine_inv ?g" using n len by (auto simp: engine_inv_def)
  show "books_balanced ?g"
    using idle by (auto simp: books_balanced_def list_all_iff chan_book_def idle_channel_def)
qed

text \<open>Every operation keeps the shape; the books stay balanced while descriptors come one by one.\<close>

lemma engine_tick_keeps:
  assumes "engine_inv g"
  obtains s' n where "tu_dma_tick (g, m) = Some (s', n)" "engine_inv (fst s')"
    "e_bus_mode (fst s') = e_bus_mode g" "books_balanced g \<Longrightarrow> books_balanced (fst s')"
    "e_bus_mode g = TU_DMA_BUS_MODE_SHARED_SERIAL \<Longrightarrow> busy_channels (fst s') = [] \<Longrightarrow> \<not> has_work (fst s') i"
proof -
  let ?g = "g\<lparr>e_cycle := e_cycle g + 1\<rparr>"
  have inv: "engine_inv ?g" by (rule same_book_inv [OF _ assms]) simp
  obtain g1 m1 n1 where ph: "phase [0..<unat (e_num_channels g)] (?g, m) 0 = ((g1, m1), n1)"
    by (metis prod_cases3 prod.collapse)
  have p: "engine_inv g1 \<and> e_num_channels g1 = e_num_channels ?g \<and> e_bus_mode g1 = e_bus_mode ?g \<and>
      (books_balanced ?g \<longrightarrow> books_balanced g1)"
    by (rule phase_keeps [OF inv _ ph]) simp
  obtain s' where sh: "shared_service (g1, m1) = Some s'" and d: "service_done g1 (fst s')"
    using shared_service_result p by blast
  have t: "tu_dma_tick (g, m) = Some (s', n1)"
    using ph sh by (simp add: tu_dma_tick_def phase_def)
  have b: "books_balanced ?g = books_balanced g" by (simp add: books_balanced_def)
  note k = service_done_keeps [OF d conjunct1 [OF p]]
  show ?thesis by (rule that [OF t]) (use k p b in auto)
qed

lemma flush_keeps:
  "engine_inv g \<Longrightarrow> engine_inv (fst (tu_dma_flush_channel i (g, m)))"
  "books_balanced g \<Longrightarrow> books_balanced (fst (tu_dma_flush_channel i (g, m)))"
proof -
  let ?f = "\<lambda>ch. retired (drained ch)"
  consider "same_book g (fst (tu_dma_flush_channel i (g, m)))"
    | "same_book (upd_channel i ?f g) (fst (tu_dma_flush_channel i (g, m)))"
    using flush_book [of i g m] by (cases "i < unat (e_num_channels g)") auto
  then have "(engine_inv g \<longrightarrow> engine_inv (fst (tu_dma_flush_channel i (g, m)))) \<and>
      (books_balanced g \<longrightarrow> books_balanced (fst (tu_dma_flush_channel i (g, m))))"
  proof cases
    case 1
    then show ?thesis using same_book_inv same_book_balanced by blast
  next
    case 2
    then show ?thesis
      using flush_op.keeps_inv balanced_update [of g i ?f] balanced_retired balanced_drained by blast
  qed
  then show "engine_inv g \<Longrightarrow> engine_inv (fst (tu_dma_flush_channel i (g, m)))"
    "books_balanced g \<Longrightarrow> books_balanced (fst (tu_dma_flush_channel i (g, m)))"
    by simp_all
qed

lemma submit_keeps:
  assumes "chain \<noteq> []"
  shows "engine_inv g \<Longrightarrow> engine_inv (fst (snd (tu_dma_submit_desc chain (g, m))))"
    "books_balanced g \<Longrightarrow> length chain = 1 \<Longrightarrow> books_balanced (fst (snd (tu_dma_submit_desc chain (g, m))))"
proof -
  let ?g = "fst (snd (tu_dma_submit_desc chain (g, m)))"
  have "(engine_inv g \<longrightarrow> engine_inv ?g) \<and> (books_balanced g \<and> length chain = 1 \<longrightarrow> books_balanced ?g)"
  proof (cases "submit_gate chain (g, m)")
    case (Some c)
    note b = submit_book [OF assms Some]
    have bal: "balanced (chan_book (enqueued (e_async g) chain (e_channels g ! unat c)))"
      if "balanced (chan_book (e_channels g ! unat c))" "length chain = 1"
      using balanced_enqueue [OF that submit_gate_some(2) [OF Some]] balanced_drained by (simp add: enqueued_def)
    have "books_balanced ?g" if "books_balanced g" "length chain = 1"
      by (rule balanced_update [where f = "enqueued (e_async g) chain" and i = "unat c", OF that(1) b]) (rule bal [OF _ that(2)])
    then show ?thesis using enqueue_op.keeps_inv [OF b] by blast
  qed (simp add: tu_dma_submit_desc_def)
  then show "engine_inv g \<Longrightarrow> engine_inv ?g" "books_balanced g \<Longrightarrow> length chain = 1 \<Longrightarrow> books_balanced ?g"
    by simp_all
qed

lemma dma_reach_keeps:
  assumes "dma_reach P s"
  shows "engine_inv (fst s) \<and> ((\<forall>chain. P chain \<longrightarrow> length chain = 1) \<longrightarrow> books_balanced (fst s))"
  using assms
proof induction
  case (init p m)
  then show ?case by (simp add: init_service_inv)
next
  case (setting g m f)
  then show ?case using same_book_inv [OF setter_book] same_book_balanced [OF setter_book] by auto
next
  case (submit s chain)
  then show ?case using submit_keeps [of chain "fst s" "snd s"] by auto
next
  case (tick s s' n)
  then have "engine_inv (fst s)" by simp
  then show ?case by (rule engine_tick_keeps [of _ "snd s" thesis for thesis]) (use tick in auto)
next
  case (flush s i)
  then show ?case using flush_keeps [of "fst s" i "snd s"] by auto
next
  case (flush_all s)
  have "engine_inv (fst (foldl (\<lambda>s i. tu_dma_flush_channel i s) s is)) \<and>
      ((\<forall>chain. P chain \<longrightarrow> length chain = 1) \<longrightarrow> books_balanced (fst (foldl (\<lambda>s i. tu_dma_flush_channel i s) s is)))" for "is"
    by (rule foldl_invariant) (use flush_all.IH flush_keeps in \<open>auto simp: split_paired_all\<close>)
  then show ?case by (simp add: tu_dma_flush_all_def)
next
  case (load s k off host n st s')
  then have "same_book (fst s) (fst s')" using legacy_book(1) by (metis prod.collapse)
  then show ?case using load.IH same_book_inv same_book_balanced by blast
next
  case (store s k off host n st s')
  then have "same_book (fst s) (fst s')" using legacy_book(2) by (metis prod.collapse)
  then show ?case using store.IH same_book_inv same_book_balanced by blast
qed simp

section \<open>Properties\<close>

text \<open>A serial bus shared by two queues under deficit round robin, with two loads of 40 bytes waiting.\<close>

definition drr_params :: dma_params where
  "drr_params = plain_params\<lparr>p_async := True, p_num_channels := 2, p_max_queue_depth := 4, p_bus_mode := 1,
     p_arb_policy := 3, p_drr_quantum_bytes := 16\<rparr>"

definition small_load :: "u8 \<Rightarrow> dma_desc" where
  "small_load channel = tu_dma_desc_create_linear 1 channel TU_DMA_DIR_HOST_TO_TU (Some 0) 0 4096 1 40"

definition small_memory :: dma_mem where
  "small_memory = \<lparr>dm_regions = [tu_sram_init 64 ''A''], dm_host = (\<lambda>_. 0)\<rparr>"

definition two_loads :: dma_sys where
  "two_loads = snd (tu_dma_submit_desc [small_load 1] (snd (tu_dma_submit_desc [small_load 0]
     (init_service drr_params, small_memory))))"

lemma two_loads_reached: "dma_reach (\<lambda>chain. length chain = 1) two_loads"
  unfolding two_loads_def by (intro dma_reach.submit dma_reach.init) simp_all

lemma two_loads_split: "dma_reach (\<lambda>chain. length chain = 1) (fst two_loads, snd two_loads)"
  using two_loads_reached by simp

lemma two_loads_state:
  "e_bus_mode (fst two_loads) = TU_DMA_BUS_MODE_SHARED_SERIAL" "e_num_channels (fst two_loads) = 2"
  "ch_depth (e_channels (fst two_loads) ! 1) = 1" "ch_max_depth (e_channels (fst two_loads) ! 1) = 4"
  by code_simp+

text \<open>
  C7. The tick always returns. From any initialisation and through any sequence of submissions, ticks,
  flushes, legacy transfers and settings, the search of deficit round robin for an affordable head
  comes to an end: every round that selects nothing adds credit to every queue with work, and a queue
  whose counter is full can afford anything.
\<close>

theorem tick_always_returns:
  assumes "dma_reach P s"
  shows "\<exists>s' n. tu_dma_tick s = Some (s', n)"
proof -
  have "engine_inv (fst s)" using dma_reach_keeps [OF assms] by simp
  then show ?thesis using engine_tick_keeps [of "fst s" "snd s"] by (metis prod.collapse)
qed

theorem tick_always_returns_witness: "\<exists>s' n. tu_dma_tick two_loads = Some (s', n)"
  by (rule tick_always_returns [OF two_loads_reached])

text \<open>
  C8. A serial bus carries one transfer. Whatever was submitted, flushed or configured, in shared
  serial mode at most one channel has an active descriptor, under every arbitration policy.
\<close>

theorem serial_bus_is_exclusive:
  assumes "dma_reach P (g, m)" "e_bus_mode g = TU_DMA_BUS_MODE_SHARED_SERIAL"
  shows "length (busy_channels g) \<le> 1"
  using dma_reach_keeps [OF assms(1)] assms(2) by (simp add: engine_inv_def)

theorem serial_bus_is_exclusive_witness:
  "e_bus_mode (fst two_loads) = TU_DMA_BUS_MODE_SHARED_SERIAL \<and> length (busy_channels (fst two_loads)) \<le> 1"
  using serial_bus_is_exclusive [OF two_loads_split two_loads_state(1)] two_loads_state(1) by simp

text \<open>
  C9. A serial bus does not idle while there is work. After any tick in shared serial mode either
  exactly one channel is transferring, or no channel has a descriptor waiting; so every tick that
  finds the bus free starts one of the waiting transfers, under every arbitration policy.
\<close>

theorem serial_bus_serves_work:
  assumes "dma_reach P (g, m)" "e_bus_mode g = TU_DMA_BUS_MODE_SHARED_SERIAL"
    "tu_dma_tick (g, m) = Some ((g', m'), n)"
  shows "length (busy_channels g') = 1 \<or> (\<forall>i<unat (e_num_channels g'). ch_queue (e_channels g' ! i) = [])"
proof -
  have inv: "engine_inv g" using dma_reach_keeps [OF assms(1)] by simp
  have "dma_reach P (g', m')" by (rule dma_reach.tick [OF assms(1,3)])
  have "engine_inv g' \<and> e_bus_mode g' = e_bus_mode g \<and>
      (busy_channels g' = [] \<longrightarrow> (\<forall>i. \<not> has_work g' i))"
  proof (intro conjI impI allI)
    show "engine_inv g'" "e_bus_mode g' = e_bus_mode g"
      by (rule engine_tick_keeps [OF inv, of m]; use assms(3) in simp)+
    show "\<not> has_work g' i" if "busy_channels g' = []" for i
      by (rule engine_tick_keeps [OF inv, of m i]) (use assms(2,3) that in simp)
  qed
  then show ?thesis using assms(2) by (cases "busy_channels g'") (auto simp: engine_inv_def has_work_def)
qed

theorem serial_bus_serves_work_witness:
  "\<exists>g' m' n. tu_dma_tick two_loads = Some ((g', m'), n) \<and> (length (busy_channels g') = 1 \<or>
     filter (\<lambda>i. ch_queue (e_channels g' ! i) \<noteq> []) [0..<unat (e_num_channels g')] = [])"
proof -
  obtain s' n where t: "tu_dma_tick two_loads = Some (s', n)"
    using engine_tick_keeps [of "fst two_loads" "snd two_loads"] dma_reach_keeps [OF two_loads_reached]
    by (metis prod.collapse)
  obtain g' m' where s': "s' = (g', m')" by (cases s')
  have "tu_dma_tick (fst two_loads, snd two_loads) = Some ((g', m'), n)" using t s' by simp
  from serial_bus_serves_work [OF two_loads_split two_loads_state(1) this] show ?thesis
    using t s' by (auto simp: filter_empty_conv)
qed

text \<open>
  C30. The bookkeeping of a channel is exact as long as descriptors are submitted one by one. Then, in
  every reachable state and for every channel, the depth counter is the number of descriptors queued,
  the tail pointer is the last of them, what was submitted has been completed, is queued or is active,
  and the descriptors outstanding do not exceed the limit of the channel.
\<close>

theorem channel_books_balance:
  assumes "dma_reach (\<lambda>chain. length chain = 1) (g, m)" "i < unat (e_num_channels g)" "ch = e_channels g ! i"
    and "outstanding = length (ch_queue ch) + (if ch_active ch = None then 0 else 1)"
  shows "ch_depth ch = of_nat (length (ch_queue ch))
    \<and> (ch_queue ch \<noteq> [] \<longrightarrow> ch_tail ch = Some (length (ch_queue ch) - 1))
    \<and> ch_submitted ch = ch_completed ch + of_nat outstanding
    \<and> (ch_max_depth ch \<noteq> 0 \<longrightarrow> outstanding \<le> unat (ch_max_depth ch))"
proof -
  have "engine_inv g" "books_balanced g" using dma_reach_keeps [OF assms(1)] by simp_all
  then have "balanced (chan_book ch)"
    using assms(2,3) engine_inv_num [of g] by (simp add: books_balanced_def list_all_length)
  then show ?thesis by (auto simp: chan_book_def assms(4) word_gt_0 split: if_splits)
qed

theorem channel_books_balance_witness:
  "ch_depth (e_channels (fst two_loads) ! 1) = of_nat (length (ch_queue (e_channels (fst two_loads) ! 1))) \<and>
   length (ch_queue (e_channels (fst two_loads) ! 1)) \<le> 4"
proof -
  let ?ch = "e_channels (fst two_loads) ! 1"
  have i: "1 < unat (e_num_channels (fst two_loads))" by (simp add: two_loads_state)
  have "ch_max_depth ?ch = 4" by (rule two_loads_state(4))
  then show ?thesis using channel_books_balance [OF two_loads_split i refl refl] by simp
qed

text \<open>
  Submitting a chain to a synchronous engine wedges its channel. The queue length is raised once
  for the whole chain and lowered once per descriptor, so an accepted chain of \<open>n\<close> descriptors on an
  idle channel leaves \<open>1 - n\<close> modulo 32 bits behind; with a depth limit in force, every later
  submission to that channel is rejected although nothing is outstanding.
\<close>

theorem synchronous_chain_wedges_channel:
  assumes sync: "\<not> e_async g" "e_binding_policy g = TU_DMA_BIND_EXPLICIT"
    and c: "c = unat (d_channel (hd chain))" "c < length (e_channels g)"
    and idle: "ch_queue (e_channels g ! c) = []" "ch_depth (e_channels g ! c) = 0" "ch_active (e_channels g ! c) = None"
    and acc: "submit_gate chain (g, m) \<noteq> None" and n: "2 \<le> length chain" "length chain \<le> 2147483648"
    and limit: "0 < ch_max_depth (e_channels g ! c)" "ch_max_depth (e_channels g ! c) \<le> 2147483648"
    and s': "s' = snd (tu_dma_submit_desc chain (g, m))"
  shows "ch_queue (e_channels (fst s') ! c) = []
    \<and> ch_depth (e_channels (fst s') ! c) = 1 - of_nat (length chain)
    \<and> (d_channel (hd later) = d_channel (hd chain) \<longrightarrow> tu_dma_submit_desc later s' = (0, s'))"
proof -
  obtain g' m' where g': "s' = (g', m')" by (cases s')
  have ne: "chain \<noteq> []" using n by auto
  obtain w where gate: "submit_gate chain (g, m) = Some w" using acc by blast
  then have w: "w = ucast (d_channel (hd chain))"
    using sync by (auto simp: submit_gate_def bind_channel_def Let_def split: if_splits)
  have wc: "unat w = c" by (simp add: w c(1) unat_ucast_8_32)
  have b: "same_book (upd_channel c (enqueued False chain) g) g'"
  proof -
    have "fst (snd (tu_dma_submit_desc chain (g, m))) = g'" using s' g' by (metis fst_conv)
    then show ?thesis using submit_book [OF ne gate] sync(1) wc by simp
  qed
  have book: "chan_book (e_channels g' ! c) = chan_book (drained (enqueue_chain chain (e_channels g ! c)))"
    using same_book_chan(3) [OF b, of c] c(2) by (simp add: enqueued_def)
  then have q: "ch_queue (e_channels g' ! c) = []" and d: "ch_depth (e_channels g' ! c) = 1 - of_nat (length chain)"
    and a: "ch_active (e_channels g' ! c) = None" and mx: "ch_max_depth (e_channels g' ! c) = ch_max_depth (e_channels g ! c)"
    using idle by (auto simp: chan_book_def drained_def pass_done_def enqueue_chain_def Let_def)
  have "of_nat (4294967297 - length chain) + of_nat (length chain) = (1 :: u32)"
    using n(2) by (simp add: of_nat_add [symmetric] del: of_nat_add)
  then have wrap: "1 - of_nat (length chain) = (of_nat (4294967297 - length chain) :: u32)"
    by (metis add_diff_cancel_right')
  have "unat (1 - of_nat (length chain) :: u32) = 4294967297 - length chain"
    unfolding wrap by (rule unat_of_nat_u32) (use n in linarith)
  then have "ch_max_depth (e_channels g' ! c) \<le> channel_outstanding (e_channels g' ! c)"
    using n limit(2) by (simp add: channel_outstanding_def a d mx word_le_nat_alt)
  then have "tu_dma_submit_desc later s' = (0, s')" if "d_channel (hd later) = d_channel (hd chain)"
    using that limit(1) same_book_setup(7) [OF b] sync(2)
    by (auto simp: tu_dma_submit_desc_def submit_gate_def bind_channel_def Let_def g' mx wc w [symmetric])
  then show ?thesis using q d by (simp add: g')
qed

definition sync_engine :: dma_engine where
  "sync_engine = init_service (plain_params\<lparr>p_async := False\<rparr>)"

definition load_chain :: "dma_desc list" where
  "load_chain = [small_load 0, small_load 0]"

theorem synchronous_chain_wedges_channel_witness:
  "tu_dma_submit_desc [small_load 0] (snd (tu_dma_submit_desc load_chain (sync_engine, small_memory)))
    = (0, snd (tu_dma_submit_desc load_chain (sync_engine, small_memory)))
   \<and> submit_gate [small_load 0] (sync_engine, small_memory) \<noteq> None"
proof -
  have "\<not> e_async sync_engine" "e_binding_policy sync_engine = TU_DMA_BIND_EXPLICIT"
    "(0::nat) = unat (d_channel (hd load_chain))" "0 < length (e_channels sync_engine)"
    "ch_queue (e_channels sync_engine ! 0) = []" "ch_depth (e_channels sync_engine ! 0) = 0"
    "ch_active (e_channels sync_engine ! 0) = None" "0 < ch_max_depth (e_channels sync_engine ! 0)"
    "ch_max_depth (e_channels sync_engine ! 0) \<le> 2147483648" "submit_gate load_chain (sync_engine, small_memory) \<noteq> None"
    "submit_gate [small_load 0] (sync_engine, small_memory) \<noteq> None"
    "d_channel (hd [small_load 0]) = d_channel (hd load_chain)"
    by code_simp+
  moreover have "2 \<le> length load_chain" "length load_chain \<le> 2147483648" by (simp_all add: load_chain_def)
  ultimately show ?thesis
    using synchronous_chain_wedges_channel [of sync_engine 0 load_chain small_memory _ "[small_load 0]"] by blast
qed

text \<open>
  Submitting behind a chain cuts the chain off. In asynchronous mode the tail pointer is left on
  the first descriptor of a chain that was accepted on an idle channel, so the next submission to that
  channel is linked behind it and the rest of the chain is lost: the queue holds one descriptor of the
  chain and the new ones.
\<close>

theorem submission_truncates_chain:
  assumes "e_async g" "e_binding_policy g = TU_DMA_BIND_EXPLICIT"
    and c: "c = unat (d_channel (hd chain))" "c < length (e_channels g)" "d_channel (hd later) = d_channel (hd chain)"
    and ne: "chain \<noteq> []" "later \<noteq> []" and idle: "ch_queue (e_channels g ! c) = []"
    and s': "s' = snd (tu_dma_submit_desc chain (g, m))"
    and acc: "submit_gate chain (g, m) \<noteq> None" "submit_gate later s' \<noteq> None"
  shows "length (ch_queue (e_channels (fst (snd (tu_dma_submit_desc later s'))) ! c)) = 1 + length later"
proof -
  obtain g' m' where g': "s' = (g', m')" by (cases s')
  obtain w where gate: "submit_gate chain (g, m) = Some w" using acc(1) by blast
  have w: "w = ucast (d_channel (hd chain))"
    using gate assms(2) by (auto simp: submit_gate_def bind_channel_def Let_def split: if_splits)
  have wc: "unat w = c" by (simp add: w c(1) unat_ucast_8_32)
  have b: "same_book (upd_channel c (enqueued True chain) g) g'"
  proof -
    have "fst (snd (tu_dma_submit_desc chain (g, m))) = g'" using s' g' by (metis fst_conv)
    then show ?thesis using submit_book [OF ne(1) gate] assms(1) wc by simp
  qed
  have "e_async g'"
    using s' gate assms(1) by (simp add: g' tu_dma_submit_desc_def commit_async Let_def)
  obtain w' where gate': "submit_gate later (g', m') = Some w'" using acc(2) g' by blast
  have "e_binding_policy g' = TU_DMA_BIND_EXPLICIT" using same_book_setup(7) [OF b] assms(2) by simp
  then have "w' = w"
    using gate' c(3) by (auto simp: submit_gate_def bind_channel_def Let_def w split: if_splits)
  then have b': "same_book (upd_channel c (enqueued True later) g') (fst (snd (tu_dma_submit_desc later s')))"
    using submit_book [OF ne(2) gate'] wc \<open>e_async g'\<close> by (simp add: g')
  have "length (e_channels g') = length (e_channels g)" using same_book_setup(6) [OF b] by simp
  then have "chan_book (e_channels (fst (snd (tu_dma_submit_desc later s'))) ! c)
      = chan_book (enqueue_chain later (e_channels g' ! c))"
    using same_book_chan(3) [OF b', of c] c(2) by (simp add: enqueued_def)
  also have "\<dots> = chan_book (enqueue_chain later (enqueue_chain chain (e_channels g ! c)))"
  proof -
    have "chan_book (e_channels g' ! c) = chan_book (enqueue_chain chain (e_channels g ! c))"
      using same_book_chan(3) [OF b, of c] c(2) by (simp add: enqueued_def)
    then show ?thesis using on_book_enqueue [of later] unfolding on_book_def by blast
  qed
  finally have "length (ch_queue (e_channels (fst (snd (tu_dma_submit_desc later s'))) ! c))
      = length (ch_queue (enqueue_chain later (enqueue_chain chain (e_channels g ! c))))"
    by (rule book_length)
  then show ?thesis using enqueue_behind [OF idle ne(1)] by simp
qed

definition async_engine :: dma_engine where
  "async_engine = init_service plain_params"

definition three_loads :: "dma_desc list" where
  "three_loads = [small_load 0, small_load 0, small_load 0]"

theorem submission_truncates_chain_witness:
  "length three_loads = 3 \<and> length (ch_queue (e_channels (fst (snd (tu_dma_submit_desc [small_load 0]
     (snd (tu_dma_submit_desc three_loads (async_engine, small_memory)))))) ! 0)) = 2"
proof -
  have "e_async async_engine" "e_binding_policy async_engine = TU_DMA_BIND_EXPLICIT"
    "(0::nat) = unat (d_channel (hd three_loads))" "0 < length (e_channels async_engine)"
    "d_channel (hd [small_load 0]) = d_channel (hd three_loads)" "three_loads \<noteq> []" "[small_load 0] \<noteq> []"
    "ch_queue (e_channels async_engine ! 0) = []" "submit_gate three_loads (async_engine, small_memory) \<noteq> None"
    "submit_gate [small_load 0] (snd (tu_dma_submit_desc three_loads (async_engine, small_memory))) \<noteq> None"
    by code_simp+
  from submission_truncates_chain [OF this(1-8) refl this(9,10)] show ?thesis by (simp add: three_loads_def)
qed

text \<open>
  Initialisation fails closed. Whatever the parameters, either the engine comes out with at least
  one and at most eight channels and with every divisor and quantum of the timing model in its legal
  range, or it has no channel at all; then every submission is refused and a tick starts nothing.
\<close>

theorem initialisation_fails_closed:
  "if e_num_channels (init_service p) = 0
   then tu_dma_submit_desc chain (init_service p, m) = (0, init_service p, m)
     \<and> tu_dma_tick (init_service p, m) = Some (((init_service p)\<lparr>e_cycle := e_cycle (init_service p) + 1\<rparr>, m), 0)
   else engine_ok (init_service p)"
proof (cases "e_num_channels (init_service p) = 0")
  case True
  have "submit_gate chain (init_service p, m) = None"
    using submit_gate_some(1) [of chain "init_service p" m] True by (cases "submit_gate chain (init_service p, m)") auto
  moreover have "shared_service (init_service p\<lparr>e_cycle := e_cycle (init_service p) + 1\<rparr>, m)
      = Some (init_service p\<lparr>e_cycle := e_cycle (init_service p) + 1\<rparr>, m)"
    by (rule service_without_channels) (simp add: True)
  ultimately show ?thesis using True by (simp add: tu_dma_submit_desc_def tu_dma_tick_def)
qed (use init_service_ok in auto)

end
