(* ===== verification/Dram.thy ===== *)
theory Dram
  imports Prelude "HOL-Library.Monad_Syntax"
begin

text \<open>
  The off-chip memory model of \<open>tu_cmodel/memory/dram_model.c\<close>: creation, address mapping, row
  buffers, refresh, bus turnaround, channel and bandwidth contention, and the settings. Counters and
  cycles are 64-bit words. The clock frequencies and bandwidths are doubles in C and only enter
  through four computed integers, which are inputs here: the bytes of one bandwidth window
  (\<open>dm_window_bytes\<close>), and the conversions of times to cycles, given to the settings as the converted
  value (\<open>None\<close> where the conversion is rejected) or as the conversion function.
\<close>

section \<open>Data\<close>

datatype tu_dram_type = TU_DRAM_TYPE_IDEAL | TU_DRAM_TYPE_HBM2 | TU_DRAM_TYPE_HBM2E | TU_DRAM_TYPE_HBM3
  | TU_DRAM_TYPE_DDR4 | TU_DRAM_TYPE_DDR5 | TU_DRAM_TYPE_LPDDR5 | TU_DRAM_TYPE_CUSTOM

datatype tu_dram_row_policy_mode = TU_DRAM_ROW_LEGACY | TU_DRAM_ROW_OPEN_PAGE | TU_DRAM_ROW_CLOSED_PAGE
  | TU_DRAM_ROW_ADAPTIVE_TIMEOUT

datatype tu_dram_address_mapping_mode = TU_DRAM_ADDR_BURST_INTERLEAVED | TU_DRAM_ADDR_ROW_INTERLEAVED
  | TU_DRAM_ADDR_XOR_INTERLEAVED

datatype tu_dram_turnaround_mode = TU_DRAM_TURNAROUND_NONE | TU_DRAM_TURNAROUND_FIXED
  | TU_DRAM_TURNAROUND_IDLE_CREDIT | TU_DRAM_TURNAROUND_BURST_CREDIT
  | TU_DRAM_TURNAROUND_BURST_ROUND_CREDIT | TU_DRAM_TURNAROUND_BURST_SPAN_CREDIT

datatype tu_dram_refresh_mode = TU_DRAM_REFRESH_NONE | TU_DRAM_REFRESH_ALL_BANK | TU_DRAM_REFRESH_PER_BANK

datatype tu_dram_refresh_scheduling = TU_DRAM_REFRESH_SCHEDULING_FIXED | TU_DRAM_REFRESH_SCHEDULING_DEFERRED

record tu_dram_params =
  dp_read_latency_cycles :: u32
  dp_write_latency_cycles :: u32
  dp_bus_width_bytes :: u32
  dp_burst_length :: u32
  dp_channels :: u32
  dp_banks_per_channel :: u32
  dp_row_buffer_size :: u32
  dp_model_row_conflicts :: bool

record tu_dram_stats =
  total_reads :: u64
  total_writes :: u64
  total_read_bytes :: u64
  total_write_bytes :: u64
  total_read_occupied_bytes :: u64
  total_write_occupied_bytes :: u64
  total_read_cycles :: u64
  total_write_cycles :: u64
  total_stall_cycles :: u64
  total_row_conflicts :: u64
  total_row_hits :: u64
  total_row_empty_misses :: u64
  total_row_replacements :: u64
  total_row_timeout_precharges :: u64
  total_turnaround_events :: u64
  total_turnaround_cycles :: u64
  total_refresh_events :: u64
  total_refresh_stall_cycles :: u64

record tu_dram_model =
  dm_type :: tu_dram_type
  dm_params :: tu_dram_params
  dm_stats :: tu_dram_stats
  dm_current_cycle :: u64
  dm_bandwidth_available :: u64
  dm_bw_window_size_cycles :: u64
  dm_bw_window_start :: u64
  dm_window_bytes :: u64
  dm_pending_read_bytes :: u64
  dm_pending_write_bytes :: u64
  dm_channel_available_cycle :: "u64 list"
  dm_channel_last_direction :: "u8 list"
  dm_num_channels :: u32
  dm_row_policy :: tu_dram_row_policy_mode
  dm_address_mapping :: tu_dram_address_mapping_mode
  dm_row_miss_penalty_cycles :: u32
  dm_row_conflict_penalty_cycles :: u32
  dm_row_open_timeout_cycles :: u32
  dm_open_rows :: "u64 list"
  dm_row_last_access_cycle :: "u64 list"
  dm_turnaround_mode :: tu_dram_turnaround_mode
  dm_read_to_write_turnaround_cycles :: u32
  dm_write_to_read_turnaround_cycles :: u32
  dm_read_burst_bytes :: u32
  dm_write_burst_bytes :: u32
  dm_refresh_mode :: tu_dram_refresh_mode
  dm_refresh_scheduling :: tu_dram_refresh_scheduling
  dm_refresh_rate :: u32
  dm_refresh_trefi_cycles :: u64
  dm_refresh_trfc_cycles :: u64
  dm_refresh_trfc_pb_cycles :: u64
  dm_refresh_max_deferral_cycles :: u64
  dm_refresh_trefi_ns :: u64
  dm_refresh_trfc_ns :: u64
  dm_refresh_trfc_pb_ns :: u64
  dm_refresh_max_deferral_ns :: u64
  dm_refresh_next :: "u64 list"
  dm_refresh_until :: "u64 list"

abbreviation banks :: "tu_dram_model \<Rightarrow> u32" where
  "banks m \<equiv> dp_banks_per_channel (dm_params m)"

definition params_of ::
  "u32 \<Rightarrow> u32 \<Rightarrow> u32 \<Rightarrow> u32 \<Rightarrow> u32 \<Rightarrow> u32 \<Rightarrow> tu_dram_params" where
  "params_of latency width burst channels n_banks row_size =
    \<lparr>dp_read_latency_cycles = latency, dp_write_latency_cycles = latency, dp_bus_width_bytes = width,
     dp_burst_length = burst, dp_channels = channels, dp_banks_per_channel = n_banks,
     dp_row_buffer_size = row_size, dp_model_row_conflicts = False\<rparr>"

definition dram_presets :: "tu_dram_type \<Rightarrow> tu_dram_params" where
  "dram_presets t = (case t of
      TU_DRAM_TYPE_IDEAL \<Rightarrow> params_of 0 256 64 1 1 0
    | TU_DRAM_TYPE_HBM2 \<Rightarrow> params_of 50 128 64 8 16 2048
    | TU_DRAM_TYPE_HBM2E \<Rightarrow> params_of 50 128 64 8 16 2048
    | TU_DRAM_TYPE_HBM3 \<Rightarrow> params_of 40 128 64 16 32 4096
    | TU_DRAM_TYPE_DDR4 \<Rightarrow> params_of 75 8 64 1 16 1024
    | TU_DRAM_TYPE_DDR5 \<Rightarrow> params_of 65 8 64 1 32 2048
    | TU_DRAM_TYPE_LPDDR5 \<Rightarrow> params_of 60 8 64 1 16 2048
    | TU_DRAM_TYPE_CUSTOM \<Rightarrow> params_of 50 32 64 4 16 2048)"

definition stats_clear :: tu_dram_stats where
  "stats_clear = \<lparr>total_reads = 0, total_writes = 0, total_read_bytes = 0, total_write_bytes = 0,
     total_read_occupied_bytes = 0, total_write_occupied_bytes = 0, total_read_cycles = 0,
     total_write_cycles = 0, total_stall_cycles = 0, total_row_conflicts = 0, total_row_hits = 0,
     total_row_empty_misses = 0, total_row_replacements = 0, total_row_timeout_precharges = 0,
     total_turnaround_events = 0, total_turnaround_cycles = 0, total_refresh_events = 0,
     total_refresh_stall_cycles = 0\<rparr>"

section \<open>Creation and reset\<close>

definition row_slots :: "tu_dram_model \<Rightarrow> nat" where
  "row_slots m = unat (dm_num_channels m) * unat (banks m)"

definition close_rows :: "tu_dram_model \<Rightarrow> tu_dram_model" where
  "close_rows m = m\<lparr>dm_open_rows := replicate (row_slots m) UINT64_MAX,
     dm_row_last_access_cycle := replicate (row_slots m) UINT64_MAX\<rparr>"

text \<open>\<open>None\<close> when one of the allocations fails.\<close>

definition allocate_runtime_state :: "bool \<Rightarrow> tu_dram_model \<Rightarrow> tu_dram_model option" where
  "allocate_runtime_state memory m =
    (if \<not> memory then None
     else Some ((close_rows m)\<lparr>dm_channel_available_cycle := replicate (unat (dm_num_channels m)) 0,
       dm_channel_last_direction := replicate (unat (dm_num_channels m)) 0,
       dm_refresh_next := replicate (unat (banks m)) UINT64_MAX,
       dm_refresh_until := replicate (unat (banks m)) 0\<rparr>))"

text \<open>The zeroed model with the defaults that both constructors set.\<close>

definition dram_initial :: "tu_dram_type \<Rightarrow> tu_dram_params \<Rightarrow> u64 \<Rightarrow> tu_dram_model" where
  "dram_initial t p window_bytes =
    \<lparr>dm_type = t, dm_params = p, dm_stats = stats_clear, dm_current_cycle = 0, dm_bandwidth_available = 0,
     dm_bw_window_size_cycles = 0, dm_bw_window_start = 0, dm_window_bytes = window_bytes,
     dm_pending_read_bytes = 0, dm_pending_write_bytes = 0,
     dm_channel_available_cycle = [], dm_channel_last_direction = [], dm_num_channels = dp_channels p,
     dm_row_policy = TU_DRAM_ROW_LEGACY, dm_address_mapping = TU_DRAM_ADDR_BURST_INTERLEAVED,
     dm_row_miss_penalty_cycles = 10, dm_row_conflict_penalty_cycles = 10, dm_row_open_timeout_cycles = 0,
     dm_open_rows = [], dm_row_last_access_cycle = [], dm_turnaround_mode = TU_DRAM_TURNAROUND_NONE,
     dm_read_to_write_turnaround_cycles = 0, dm_write_to_read_turnaround_cycles = 0,
     dm_read_burst_bytes = dp_burst_length p, dm_write_burst_bytes = dp_burst_length p,
     dm_refresh_mode = TU_DRAM_REFRESH_NONE, dm_refresh_scheduling = TU_DRAM_REFRESH_SCHEDULING_FIXED,
     dm_refresh_rate = 0, dm_refresh_trefi_cycles = 0, dm_refresh_trfc_cycles = 0,
     dm_refresh_trfc_pb_cycles = 0, dm_refresh_max_deferral_cycles = 0, dm_refresh_trefi_ns = 0,
     dm_refresh_trfc_ns = 0, dm_refresh_trfc_pb_ns = 0, dm_refresh_max_deferral_ns = 0,
     dm_refresh_next = [], dm_refresh_until = []\<rparr>"

definition tu_dram_create :: "tu_dram_type \<Rightarrow> u64 \<Rightarrow> bool \<Rightarrow> tu_dram_model option" where
  "tu_dram_create t window_bytes memory =
    allocate_runtime_state memory (dram_initial t (dram_presets t) window_bytes)"

definition tu_dram_create_custom :: "tu_dram_params \<Rightarrow> u64 \<Rightarrow> bool \<Rightarrow> tu_dram_model option" where
  "tu_dram_create_custom p window_bytes memory =
    (if dp_channels p = 0 \<or> dp_banks_per_channel p = 0 \<or> dp_burst_length p = 0 then None
     else allocate_runtime_state memory (dram_initial TU_DRAM_TYPE_CUSTOM p window_bytes))"

section \<open>Refresh schedule\<close>

definition refresh_effective_interval :: "tu_dram_model \<Rightarrow> u64" where
  "refresh_effective_interval m =
    (let rate = (if dm_refresh_rate m = 0 then 1 else ucast (dm_refresh_rate m))
     in (dm_refresh_trefi_cycles m + rate - 1) div rate)"

definition refresh_init_state :: "tu_dram_model \<Rightarrow> tu_dram_model" where
  "refresh_init_state m =
    (let b = unat (banks m); trefi = refresh_effective_interval m;
         idle = replicate b UINT64_MAX;
         next_at = (case dm_refresh_mode m of
             TU_DRAM_REFRESH_ALL_BANK \<Rightarrow> idle[0 := trefi]
           | TU_DRAM_REFRESH_PER_BANK \<Rightarrow> map (\<lambda>i. of_nat (i + 1) * trefi div of_nat b) [0..<b]
           | TU_DRAM_REFRESH_NONE \<Rightarrow> idle)
     in m\<lparr>dm_refresh_until := replicate b 0, dm_refresh_next := next_at\<rparr>)"

definition tu_dram_reset :: "tu_dram_model \<Rightarrow> tu_dram_model" where
  "tu_dram_reset m =
    refresh_init_state (close_rows (m\<lparr>dm_stats := stats_clear, dm_current_cycle := 0, dm_bandwidth_available := 0,
      dm_pending_read_bytes := 0, dm_pending_write_bytes := 0,
      dm_channel_available_cycle := replicate (unat (dm_num_channels m)) 0,
      dm_channel_last_direction := replicate (unat (dm_num_channels m)) 0\<rparr>))"

text \<open>When a due refresh fires: at its schedule, or, deferred, at an access or at its deadline.\<close>

definition refresh_fires :: "tu_dram_model \<Rightarrow> u64 \<Rightarrow> u64 \<Rightarrow> bool \<Rightarrow> u64 option" where
  "refresh_fires m next_at T on_access =
    (if dm_refresh_scheduling m = TU_DRAM_REFRESH_SCHEDULING_FIXED then Some next_at
     else let deadline = next_at + dm_refresh_max_deferral_cycles m
          in if on_access then Some (if deadline > T then T else deadline)
             else if deadline \<le> T then Some deadline else None)"

text \<open>A refresh precharges its banks, unless rows are not modelled.\<close>

definition precharge :: "nat \<Rightarrow> tu_dram_model \<Rightarrow> tu_dram_model" where
  "precharge b m =
    (if dm_row_policy m = TU_DRAM_ROW_LEGACY then m
     else if dm_refresh_mode m = TU_DRAM_REFRESH_ALL_BANK
     then m\<lparr>dm_open_rows := replicate (row_slots m) UINT64_MAX\<rparr>
     else m\<lparr>dm_open_rows := foldl (\<lambda>rows ch. rows[ch * unat (banks m) + b := UINT64_MAX])
            (dm_open_rows m) [0..<unat (dm_num_channels m)]\<rparr>)"

definition fire_refresh :: "nat \<Rightarrow> u64 \<Rightarrow> u64 \<Rightarrow> u64 \<Rightarrow> tu_dram_model \<Rightarrow> tu_dram_model" where
  "fire_refresh b fire_at dur trefi m =
    precharge b (m\<lparr>dm_refresh_until := (dm_refresh_until m)[b := fire_at + dur],
      dm_refresh_next := (dm_refresh_next m)[b := dm_refresh_next m ! b + trefi],
      dm_stats := (dm_stats m)\<lparr>total_refresh_events := total_refresh_events (dm_stats m) + 1\<rparr>\<rparr>)"

text \<open>The loop over the refreshes of one slot that are due, which need not end in general.\<close>

partial_function (option) refresh_slot ::
  "u64 \<Rightarrow> bool \<Rightarrow> u64 \<Rightarrow> u64 \<Rightarrow> nat \<Rightarrow> tu_dram_model \<Rightarrow> tu_dram_model option" where
  "refresh_slot T on_access dur trefi b m =
    (if dm_refresh_next m ! b \<le> T then
       case refresh_fires m (dm_refresh_next m ! b) T on_access of
         None \<Rightarrow> Some m
       | Some fire_at \<Rightarrow> refresh_slot T on_access dur trefi b (fire_refresh b fire_at dur trefi m)
     else Some m)"

fun refresh_slots ::
  "u64 \<Rightarrow> bool \<Rightarrow> u64 \<Rightarrow> u64 \<Rightarrow> nat list \<Rightarrow> tu_dram_model \<Rightarrow> tu_dram_model option" where
  "refresh_slots T on_access dur trefi [] m = Some m"
| "refresh_slots T on_access dur trefi (b # bs) m =
    Option.bind (refresh_slot T on_access dur trefi b m) (refresh_slots T on_access dur trefi bs)"

definition no_refresh :: "tu_dram_model \<Rightarrow> bool" where
  "no_refresh m \<longleftrightarrow> dm_refresh_mode m = TU_DRAM_REFRESH_NONE \<or> dm_type m = TU_DRAM_TYPE_IDEAL"

definition refresh_catchup :: "u64 \<Rightarrow> bool \<Rightarrow> tu_dram_model \<Rightarrow> tu_dram_model option" where
  "refresh_catchup T on_access m =
    (if no_refresh m then Some m
     else
       let all_banks = (dm_refresh_mode m = TU_DRAM_REFRESH_ALL_BANK);
           dur = (if all_banks then dm_refresh_trfc_cycles m else dm_refresh_trfc_pb_cycles m);
           slots = (if all_banks then 1 else unat (banks m))
       in refresh_slots T on_access dur (refresh_effective_interval m) [0..<slots] m)"

definition refresh_stall_for :: "tu_dram_model \<Rightarrow> u32 \<Rightarrow> u64 \<Rightarrow> u64" where
  "refresh_stall_for m bank T =
    (if no_refresh m then 0
     else let slot = (if dm_refresh_mode m = TU_DRAM_REFRESH_ALL_BANK then 0 else unat bank)
          in if dm_refresh_until m ! slot > T then dm_refresh_until m ! slot - T else 0)"

section \<open>Bandwidth windows\<close>

definition ensure_bandwidth :: "tu_dram_model \<Rightarrow> tu_dram_model" where
  "ensure_bandwidth m0 =
    (let m = (if dm_bw_window_size_cycles m0 = 0
              then m0\<lparr>dm_bw_window_size_cycles := 1000, dm_bw_window_start := dm_current_cycle m0\<rparr> else m0)
     in if dm_current_cycle m - dm_bw_window_start m \<ge> dm_bw_window_size_cycles m
        then m\<lparr>dm_bandwidth_available := dm_window_bytes m, dm_bw_window_start := dm_current_cycle m,
               dm_pending_read_bytes := 0, dm_pending_write_bytes := 0\<rparr>
        else m)"

definition tu_dram_tick :: "tu_dram_model \<Rightarrow> tu_dram_model option" where
  "tu_dram_tick m =
    (let m = ensure_bandwidth (m\<lparr>dm_current_cycle := dm_current_cycle m + 1\<rparr>)
     in refresh_catchup (dm_current_cycle m) False m)"

section \<open>Address mapping\<close>

definition bursts_per_row :: "tu_dram_model \<Rightarrow> u64" where
  "bursts_per_row m =
    (let n = ucast (dp_row_buffer_size (dm_params m) div dp_burst_length (dm_params m)) :: u64
     in if n = 0 then 1 else n)"

definition tu_dram_decode_address :: "tu_dram_model \<Rightarrow> u64 \<Rightarrow> (u32 \<times> u32 \<times> u64) option" where
  "tu_dram_decode_address m addr =
    (if dm_num_channels m = 0 \<or> banks m = 0 \<or> dp_burst_length (dm_params m) = 0 then None
     else
       let channels = ucast (dm_num_channels m) :: u64;
           burst = addr div ucast (dp_burst_length (dm_params m));
           place = (\<lambda>channel group.
             (channel, ucast (group mod ucast (banks m)), group div ucast (banks m)))
       in if dm_address_mapping m = TU_DRAM_ADDR_ROW_INTERLEAVED then
            let row_group = burst div bursts_per_row m
            in Some (place (ucast (row_group mod channels)) (row_group div channels))
          else
            let base_channel = ucast (burst mod channels) :: u32;
                group = burst div channels div bursts_per_row m
            in if dm_address_mapping m = TU_DRAM_ADDR_XOR_INTERLEAVED then
                 if dm_num_channels m AND (dm_num_channels m - 1) \<noteq> 0 then None
                 else Some (place (base_channel XOR ucast (group AND ucast (dm_num_channels m - 1))) group)
               else Some (place base_channel group))"

section \<open>Row buffers\<close>

definition upd_stats :: "(tu_dram_stats \<Rightarrow> tu_dram_stats) \<Rightarrow> tu_dram_model \<Rightarrow> tu_dram_model" where
  "upd_stats f m = m\<lparr>dm_stats := f (dm_stats m)\<rparr>"

definition count_row_hit :: "tu_dram_stats \<Rightarrow> tu_dram_stats" where
  "count_row_hit s = s\<lparr>total_row_hits := total_row_hits s + 1\<rparr>"

definition count_empty_miss :: "tu_dram_stats \<Rightarrow> tu_dram_stats" where
  "count_empty_miss s = s\<lparr>total_row_conflicts := total_row_conflicts s + 1,
     total_row_empty_misses := total_row_empty_misses s + 1\<rparr>"

definition count_replacement :: "tu_dram_stats \<Rightarrow> tu_dram_stats" where
  "count_replacement s = s\<lparr>total_row_conflicts := total_row_conflicts s + 1,
     total_row_replacements := total_row_replacements s + 1\<rparr>"

text \<open>The lazy closing of a row that has been idle for longer than the timeout.\<close>

definition close_idle_row :: "nat \<Rightarrow> tu_dram_model \<Rightarrow> tu_dram_model" where
  "close_idle_row idx m =
    (if dm_row_policy m = TU_DRAM_ROW_ADAPTIVE_TIMEOUT \<and> dm_open_rows m ! idx \<noteq> UINT64_MAX \<and>
        dm_row_last_access_cycle m ! idx \<noteq> UINT64_MAX \<and>
        dm_current_cycle m - dm_row_last_access_cycle m ! idx > ucast (dm_row_open_timeout_cycles m)
     then upd_stats (\<lambda>s. s\<lparr>total_row_timeout_precharges := total_row_timeout_precharges s + 1\<rparr>)
            (m\<lparr>dm_open_rows := (dm_open_rows m)[idx := UINT64_MAX]\<rparr>)
     else m)"

definition explicit_row_penalty :: "u64 \<Rightarrow> tu_dram_model \<Rightarrow> u64 \<times> tu_dram_model" where
  "explicit_row_penalty addr m =
    (if dm_row_policy m = TU_DRAM_ROW_LEGACY then (0, m)
     else case tu_dram_decode_address m addr of
       None \<Rightarrow> (0, m)
     | Some (channel, bank, row) \<Rightarrow>
         if dm_row_policy m = TU_DRAM_ROW_CLOSED_PAGE
         then (ucast (dm_row_miss_penalty_cycles m), upd_stats count_empty_miss m)
         else
           let idx = unat channel * unat (banks m) + unat bank;
               m = close_idle_row idx m;
               touched = (dm_row_last_access_cycle m)[idx := dm_current_cycle m]
           in if dm_open_rows m ! idx = row
              then (0, upd_stats count_row_hit (m\<lparr>dm_row_last_access_cycle := touched\<rparr>))
              else
                let (penalty, count) =
                  (if dm_open_rows m ! idx = UINT64_MAX
                   then (ucast (dm_row_miss_penalty_cycles m), count_empty_miss)
                   else (ucast (dm_row_conflict_penalty_cycles m), count_replacement))
                in (penalty, upd_stats count (m\<lparr>dm_open_rows := (dm_open_rows m)[idx := row],
                                               dm_row_last_access_cycle := touched\<rparr>)))"

section \<open>Turnaround and occupancy\<close>

definition credit_mode :: "tu_dram_turnaround_mode \<Rightarrow> bool" where
  "credit_mode md \<longleftrightarrow> md \<noteq> TU_DRAM_TURNAROUND_NONE \<and> md \<noteq> TU_DRAM_TURNAROUND_FIXED"

text \<open>Directions are 0 before the first access, 1 for reads and 2 for writes.\<close>

definition turnaround_for :: "u32 \<Rightarrow> u8 \<Rightarrow> tu_dram_model \<Rightarrow> u64 \<times> tu_dram_model" where
  "turnaround_for channel new_direction m =
    (if channel \<ge> dm_num_channels m \<or> dm_turnaround_mode m = TU_DRAM_TURNAROUND_NONE then (0, m)
     else
       let c = unat channel;
           old_direction = dm_channel_last_direction m ! c;
           full = (if old_direction = 1 \<and> new_direction = 2 then ucast (dm_read_to_write_turnaround_cycles m)
                   else if old_direction = 2 \<and> new_direction = 1 then ucast (dm_write_to_read_turnaround_cycles m)
                   else 0) :: u64;
           idle = dm_current_cycle m - dm_channel_available_cycle m ! c;
           cycles = (if full \<noteq> 0 \<and> credit_mode (dm_turnaround_mode m) \<and>
                        dm_current_cycle m > dm_channel_available_cycle m ! c
                     then if idle < full then full - idle else 0 else full);
           m = m\<lparr>dm_channel_last_direction := (dm_channel_last_direction m)[c := new_direction]\<rparr>
       in (cycles,
           if old_direction \<noteq> 0 \<and> old_direction \<noteq> new_direction
           then upd_stats (\<lambda>s. s\<lparr>total_turnaround_events := total_turnaround_events s + 1,
                                 total_turnaround_cycles := total_turnaround_cycles s + cycles\<rparr>) m
           else m))"

definition burst_mode :: "tu_dram_turnaround_mode \<Rightarrow> bool" where
  "burst_mode md \<longleftrightarrow> md = TU_DRAM_TURNAROUND_BURST_CREDIT \<or> md = TU_DRAM_TURNAROUND_BURST_ROUND_CREDIT \<or>
     md = TU_DRAM_TURNAROUND_BURST_SPAN_CREDIT"

definition occupied_bytes_for :: "tu_dram_model \<Rightarrow> u64 \<Rightarrow> u32 \<Rightarrow> bool \<Rightarrow> u64" where
  "occupied_bytes_for m addr num_bytes is_read =
    (if dm_turnaround_mode m \<noteq> TU_DRAM_TURNAROUND_BURST_ROUND_CREDIT \<and>
        dm_turnaround_mode m \<noteq> TU_DRAM_TURNAROUND_BURST_SPAN_CREDIT
     then ucast num_bytes
     else
       let burst = ucast (if is_read then dm_read_burst_bytes m else dm_write_burst_bytes m) :: u64;
           span = ucast num_bytes +
             (if dm_turnaround_mode m = TU_DRAM_TURNAROUND_BURST_SPAN_CREDIT then addr AND (burst - 1) else 0)
       in (span + burst - 1) div burst * burst)"

section \<open>Accesses\<close>

text \<open>
  The part of an access after its base latency is known: waiting for the channel and the bandwidth,
  and the occupation of the channel. The result is the stall and the model.
\<close>

definition channel_stall :: "tu_dram_model \<Rightarrow> u32 \<Rightarrow> u64" where
  "channel_stall m channel =
    (if dm_channel_available_cycle m ! unat channel > dm_current_cycle m
     then dm_channel_available_cycle m ! unat channel - dm_current_cycle m else 0)"

definition bandwidth_stall :: "tu_dram_model \<Rightarrow> u64 \<Rightarrow> u64" where
  "bandwidth_stall m occupied_bytes =
    (if dm_pending_read_bytes m + dm_pending_write_bytes m + occupied_bytes > dm_bandwidth_available m
     then dm_bw_window_size_cycles m - (dm_current_cycle m - dm_bw_window_start m) else 0)"

definition burst_cycles :: "tu_dram_model \<Rightarrow> u64 \<Rightarrow> u64" where
  "burst_cycles m occupied_bytes =
    (if burst_mode (dm_turnaround_mode m)
     then let width = (if dp_bus_width_bytes (dm_params m) \<noteq> 0 then ucast (dp_bus_width_bytes (dm_params m)) else 1)
          in (occupied_bytes + width - 1) div width
     else 0)"

definition occupy_channel :: "u32 \<Rightarrow> u64 \<Rightarrow> u64 \<Rightarrow> tu_dram_model \<Rightarrow> tu_dram_model" where
  "occupy_channel channel total_cycles occupied_bytes m =
    m\<lparr>dm_channel_available_cycle := (dm_channel_available_cycle m)[unat channel :=
        dm_current_cycle m + total_cycles + burst_cycles m occupied_bytes],
      dm_bandwidth_available := (if dm_bandwidth_available m > occupied_bytes
        then dm_bandwidth_available m - occupied_bytes else 0)\<rparr>"

definition channel_bank :: "tu_dram_model \<Rightarrow> u64 \<Rightarrow> u32 \<times> u32" where
  "channel_bank m addr =
    (case tu_dram_decode_address m addr of Some (channel, bank, row) \<Rightarrow> (channel, bank) | None \<Rightarrow> (0, 0))"

text \<open>
  The cycles and the stall of an access, and the model after it: the service of its channel and bank
  once refresh has caught up, and the whole call.
\<close>

definition read_service :: "u32 \<Rightarrow> u32 \<Rightarrow> u64 \<Rightarrow> u32 \<Rightarrow> tu_dram_model \<Rightarrow> u64 \<times> u64 \<times> tu_dram_model" where
  "read_service channel bank addr num_bytes m =
    (let refresh_stall = refresh_stall_for m bank (dm_current_cycle m);
         (turnaround, m) = turnaround_for channel 1 m;
         base_latency = ucast (dp_read_latency_cycles (dm_params m)) + refresh_stall + turnaround;
         (total_cycles, m) =
      (if dm_row_policy m \<noteq> TU_DRAM_ROW_LEGACY
       then let (penalty, m) = explicit_row_penalty addr m in (base_latency + penalty, m)
       else if dp_model_row_conflicts (dm_params m)
       then (base_latency + ucast (dm_row_miss_penalty_cycles m),
             upd_stats (\<lambda>s. s\<lparr>total_row_conflicts := total_row_conflicts s + 1\<rparr>) m)
       else (base_latency, m));
         occupied_bytes = occupied_bytes_for m addr num_bytes True;
         stall = channel_stall m channel + bandwidth_stall m occupied_bytes;
         m = occupy_channel channel total_cycles occupied_bytes m
     in (total_cycles, stall, upd_stats (\<lambda>s. s\<lparr>total_reads := total_reads s + 1,
      total_read_bytes := total_read_bytes s + ucast num_bytes,
      total_read_occupied_bytes := total_read_occupied_bytes s + occupied_bytes,
      total_read_cycles := total_read_cycles s + total_cycles,
      total_stall_cycles := total_stall_cycles s + stall,
      total_refresh_stall_cycles := total_refresh_stall_cycles s + refresh_stall\<rparr>)
      (m\<lparr>dm_pending_read_bytes := dm_pending_read_bytes m + occupied_bytes\<rparr>)))"

definition tu_dram_read :: "u64 \<Rightarrow> u32 \<Rightarrow> tu_dram_model \<Rightarrow> (u64 \<times> u64 \<times> tu_dram_model) option" where
  "tu_dram_read addr num_bytes m =
    (if num_bytes = 0 then Some (0, 0, m)
     else if dm_type m = TU_DRAM_TYPE_IDEAL then
       Some (0, 0, upd_stats (\<lambda>s. s\<lparr>total_reads := total_reads s + 1,
         total_read_bytes := total_read_bytes s + ucast num_bytes,
         total_read_occupied_bytes := total_read_occupied_bytes s + ucast num_bytes\<rparr>) m)
     else do {
       let m = ensure_bandwidth m;
       let (channel, bank) = channel_bank m addr;
       m \<leftarrow> refresh_catchup (dm_current_cycle m) True m;
       Some (read_service channel bank addr num_bytes m) })"

definition write_service :: "u32 \<Rightarrow> u32 \<Rightarrow> u64 \<Rightarrow> u32 \<Rightarrow> tu_dram_model \<Rightarrow> u64 \<times> u64 \<times> tu_dram_model" where
  "write_service channel bank addr num_bytes m =
    (let refresh_stall = refresh_stall_for m bank (dm_current_cycle m);
         (turnaround, m) = turnaround_for channel 2 m;
         base_latency = ucast (dp_write_latency_cycles (dm_params m)) + refresh_stall + turnaround;
         (total_cycles, m) =
      (if dm_row_policy m \<noteq> TU_DRAM_ROW_LEGACY
       then let (penalty, m) = explicit_row_penalty addr m in (base_latency + penalty, m)
       else (base_latency, m));
         occupied_bytes = occupied_bytes_for m addr num_bytes False;
         stall = channel_stall m channel + bandwidth_stall m occupied_bytes;
         m = occupy_channel channel total_cycles occupied_bytes m
     in (total_cycles, stall, upd_stats (\<lambda>s. s\<lparr>total_writes := total_writes s + 1,
      total_write_bytes := total_write_bytes s + ucast num_bytes,
      total_write_occupied_bytes := total_write_occupied_bytes s + occupied_bytes,
      total_write_cycles := total_write_cycles s + total_cycles,
      total_stall_cycles := total_stall_cycles s + stall,
      total_refresh_stall_cycles := total_refresh_stall_cycles s + refresh_stall\<rparr>)
      (m\<lparr>dm_pending_write_bytes := dm_pending_write_bytes m + occupied_bytes\<rparr>)))"

definition tu_dram_write :: "u64 \<Rightarrow> u32 \<Rightarrow> tu_dram_model \<Rightarrow> (u64 \<times> u64 \<times> tu_dram_model) option" where
  "tu_dram_write addr num_bytes m =
    (if num_bytes = 0 then Some (0, 0, m)
     else if dm_type m = TU_DRAM_TYPE_IDEAL then
       Some (0, 0, upd_stats (\<lambda>s. s\<lparr>total_writes := total_writes s + 1,
         total_write_bytes := total_write_bytes s + ucast num_bytes,
         total_write_occupied_bytes := total_write_occupied_bytes s + ucast num_bytes\<rparr>) m)
     else do {
       let m = ensure_bandwidth m;
       let (channel, bank) = channel_bank m addr;
       m \<leftarrow> refresh_catchup (dm_current_cycle m) True m;
       Some (write_service channel bank addr num_bytes m) })"

section \<open>Settings\<close>

text \<open>Each setting returns whether it was accepted; a rejected one leaves the model as it was.\<close>

definition tu_dram_set_row_modeling :: "bool \<Rightarrow> tu_dram_model \<Rightarrow> tu_dram_model" where
  "tu_dram_set_row_modeling enabled m = m\<lparr>dm_params := (dm_params m)\<lparr>dp_model_row_conflicts := enabled\<rparr>\<rparr>"

text \<open>The timeout after its conversion to cycles, which may be rejected.\<close>

definition tu_dram_set_row_policy_timeout_domain ::
  "tu_dram_row_policy_mode \<Rightarrow> u32 \<Rightarrow> u32 \<Rightarrow> u32 option \<Rightarrow> tu_dram_model \<Rightarrow> bool \<times> tu_dram_model" where
  "tu_dram_set_row_policy_timeout_domain policy activate conflict timeout m =
    (case timeout of
       None \<Rightarrow> (False, m)
     | Some timeout_cycles \<Rightarrow>
         if policy = TU_DRAM_ROW_ADAPTIVE_TIMEOUT \<and> timeout_cycles = 0 then (False, m)
         else (True, close_rows (m\<lparr>dm_row_policy := policy, dm_row_miss_penalty_cycles := activate,
           dm_row_conflict_penalty_cycles := conflict, dm_row_open_timeout_cycles := timeout_cycles\<rparr>)))"

text \<open>A timeout in core cycles is converted as it is, up to \<open>10^8\<close>.\<close>

definition tu_dram_set_row_policy_timeout ::
  "tu_dram_row_policy_mode \<Rightarrow> u32 \<Rightarrow> u32 \<Rightarrow> u32 \<Rightarrow> tu_dram_model \<Rightarrow> bool \<times> tu_dram_model" where
  "tu_dram_set_row_policy_timeout policy activate conflict timeout_cycles =
    tu_dram_set_row_policy_timeout_domain policy activate conflict
      (if timeout_cycles > 100000000 then None else Some timeout_cycles)"

definition tu_dram_set_row_policy_timing ::
  "tu_dram_row_policy_mode \<Rightarrow> u32 \<Rightarrow> u32 \<Rightarrow> tu_dram_model \<Rightarrow> bool \<times> tu_dram_model" where
  "tu_dram_set_row_policy_timing policy activate conflict = tu_dram_set_row_policy_timeout policy activate conflict 0"

definition tu_dram_set_row_policy :: "tu_dram_row_policy_mode \<Rightarrow> u32 \<Rightarrow> tu_dram_model \<Rightarrow> bool \<times> tu_dram_model" where
  "tu_dram_set_row_policy policy miss_penalty = tu_dram_set_row_policy_timing policy miss_penalty miss_penalty"

definition tu_dram_set_address_mapping :: "tu_dram_address_mapping_mode \<Rightarrow> tu_dram_model \<Rightarrow> bool \<times> tu_dram_model" where
  "tu_dram_set_address_mapping mapping m =
    (if mapping = TU_DRAM_ADDR_XOR_INTERLEAVED \<and>
        (dm_num_channels m = 0 \<or> dm_num_channels m AND (dm_num_channels m - 1) \<noteq> 0) then (False, m)
     else (True, close_rows (m\<lparr>dm_address_mapping := mapping\<rparr>)))"

text \<open>The two turnaround times after their conversion to cycles.\<close>

definition tu_dram_set_turnaround ::
  "tu_dram_turnaround_mode \<Rightarrow> u32 option \<Rightarrow> u32 option \<Rightarrow> tu_dram_model \<Rightarrow> bool \<times> tu_dram_model" where
  "tu_dram_set_turnaround md read_to_write write_to_read m =
    (case (read_to_write, write_to_read) of
       (Some rtw, Some wtr) \<Rightarrow>
         if md = TU_DRAM_TURNAROUND_FIXED \<and> rtw = 0 \<and> wtr = 0 then (False, m)
         else (True, m\<lparr>dm_turnaround_mode := md, dm_read_to_write_turnaround_cycles := rtw,
           dm_write_to_read_turnaround_cycles := wtr,
           dm_channel_last_direction := replicate (unat (dm_num_channels m)) 0\<rparr>)
     | _ \<Rightarrow> (False, m))"

definition bad_granule :: "u32 \<Rightarrow> bool" where
  "bad_granule n \<longleftrightarrow> n = 0 \<or> n > 1048576 \<or> n AND (n - 1) \<noteq> 0"

definition tu_dram_set_burst_granules :: "u32 \<Rightarrow> u32 \<Rightarrow> tu_dram_model \<Rightarrow> bool \<times> tu_dram_model" where
  "tu_dram_set_burst_granules read_bytes write_bytes m =
    (if bad_granule read_bytes \<or> bad_granule write_bytes then (False, m)
     else (True, m\<lparr>dm_read_burst_bytes := read_bytes, dm_write_burst_bytes := write_bytes\<rparr>))"

text \<open>\<open>to_cycles\<close> is the conversion of nanoseconds at the core clock.\<close>

definition tu_dram_set_refresh ::
  "(u64 \<Rightarrow> u64) \<Rightarrow> tu_dram_refresh_mode \<Rightarrow> tu_dram_refresh_scheduling \<Rightarrow> u32 \<Rightarrow> u64 \<Rightarrow> u64 \<Rightarrow> u64 \<Rightarrow> u64 \<Rightarrow>
   tu_dram_model \<Rightarrow> bool \<times> tu_dram_model" where
  "tu_dram_set_refresh to_cycles md scheduling rate trefi_ns trfc_ns trfc_pb_ns max_deferral_ns m =
    (if rate \<noteq> 0 \<and> rate \<noteq> 1 \<and> rate \<noteq> 2 \<and> rate \<noteq> 4 then (False, m)
     else
       let trefi = (if trefi_ns = 0 then 7800 else trefi_ns);
           trfc = (if trfc_ns = 0 then 350 else trfc_ns);
           trfc_pb = (if trfc_pb_ns = 0 then 90 else trfc_pb_ns);
           max_def = (if max_deferral_ns = 0 then trefi else max_deferral_ns)
       in if max_def > trefi then (False, m)
          else if md \<noteq> TU_DRAM_REFRESH_NONE \<and> (trefi = 0 \<or> trfc = 0 \<or> trfc_pb = 0) then (False, m)
          else (True, refresh_init_state (m\<lparr>dm_refresh_mode := md, dm_refresh_scheduling := scheduling,
            dm_refresh_rate := (if rate = 0 then 1 else rate), dm_refresh_trefi_ns := trefi,
            dm_refresh_trfc_ns := trfc, dm_refresh_trfc_pb_ns := trfc_pb, dm_refresh_max_deferral_ns := max_def,
            dm_refresh_trefi_cycles := to_cycles trefi, dm_refresh_trfc_cycles := to_cycles trfc,
            dm_refresh_trfc_pb_cycles := to_cycles trfc_pb,
            dm_refresh_max_deferral_cycles := to_cycles max_def\<rparr>)))"

definition tu_dram_set_latency_domain :: "u32 option \<Rightarrow> u32 option \<Rightarrow> tu_dram_model \<Rightarrow> bool \<times> tu_dram_model" where
  "tu_dram_set_latency_domain read_latency write_latency m =
    (case (read_latency, write_latency) of
       (Some r, Some w) \<Rightarrow> (True, m\<lparr>dm_params := (dm_params m)\<lparr>dp_read_latency_cycles := r, dp_write_latency_cycles := w\<rparr>\<rparr>)
     | _ \<Rightarrow> (False, m))"

text \<open>
  A new core clock: whether the frequency is in range, the five times converted with it, the bytes of
  a window at it, and the conversion of nanoseconds.
\<close>

definition tu_dram_configure_core_clock ::
  "bool \<Rightarrow> u32 option \<Rightarrow> u32 option \<Rightarrow> u32 option \<Rightarrow> u32 option \<Rightarrow> u32 option \<Rightarrow> u64 \<Rightarrow> (u64 \<Rightarrow> u64) \<Rightarrow>
   tu_dram_model \<Rightarrow> bool \<times> tu_dram_model" where
  "tu_dram_configure_core_clock in_range read_latency write_latency timeout rtw wtr window_bytes to_cycles m =
    (if \<not> in_range \<or> None \<in> {read_latency, write_latency, timeout, rtw, wtr} then (False, m)
     else if dm_row_policy m = TU_DRAM_ROW_ADAPTIVE_TIMEOUT \<and> timeout = Some 0 then (False, m)
     else
       let m = m\<lparr>dm_params := (dm_params m)\<lparr>dp_read_latency_cycles := the read_latency,
                   dp_write_latency_cycles := the write_latency\<rparr>,
                 dm_row_open_timeout_cycles := the timeout, dm_read_to_write_turnaround_cycles := the rtw,
                 dm_write_to_read_turnaround_cycles := the wtr, dm_bw_window_size_cycles := 0,
                 dm_bw_window_start := dm_current_cycle m, dm_bandwidth_available := 0,
                 dm_window_bytes := window_bytes, dm_pending_read_bytes := 0, dm_pending_write_bytes := 0\<rparr>
       in (True,
           if dm_refresh_trefi_ns m \<noteq> 0
           then refresh_init_state (m\<lparr>dm_refresh_trefi_cycles := to_cycles (dm_refresh_trefi_ns m),
             dm_refresh_trfc_cycles := to_cycles (dm_refresh_trfc_ns m),
             dm_refresh_trfc_pb_cycles := to_cycles (dm_refresh_trfc_pb_ns m),
             dm_refresh_max_deferral_cycles := to_cycles (dm_refresh_max_deferral_ns m)\<rparr>)
           else m))"

section \<open>Well-formed models\<close>

text \<open>The type of the model: every array has the length that its indices range over.\<close>

definition dram_wf :: "tu_dram_model \<Rightarrow> bool" where
  "dram_wf m \<longleftrightarrow> dm_num_channels m \<noteq> 0 \<and> banks m \<noteq> 0 \<and> dp_burst_length (dm_params m) \<noteq> 0 \<and>
     length (dm_channel_available_cycle m) = unat (dm_num_channels m) \<and>
     length (dm_channel_last_direction m) = unat (dm_num_channels m) \<and>
     length (dm_open_rows m) = row_slots m \<and> length (dm_row_last_access_cycle m) = row_slots m \<and>
     length (dm_refresh_next m) = unat (banks m) \<and> length (dm_refresh_until m) = unat (banks m) \<and>
     dm_read_burst_bytes m \<noteq> 0 \<and> dm_write_burst_bytes m \<noteq> 0 \<and>
     (dm_address_mapping m = TU_DRAM_ADDR_XOR_INTERLEAVED \<longrightarrow> dm_num_channels m AND (dm_num_channels m - 1) = 0)"

text \<open>An update of anything that the lengths do not depend on.\<close>

lemma dram_wf_cong:
  assumes "dram_wf m" "dm_num_channels m' = dm_num_channels m" "banks m' = banks m"
    "dp_burst_length (dm_params m') = dp_burst_length (dm_params m)"
    "length (dm_channel_available_cycle m') = length (dm_channel_available_cycle m)"
    "length (dm_channel_last_direction m') = length (dm_channel_last_direction m)"
    "length (dm_open_rows m') = length (dm_open_rows m)"
    "length (dm_row_last_access_cycle m') = length (dm_row_last_access_cycle m)"
    "length (dm_refresh_next m') = length (dm_refresh_next m)"
    "length (dm_refresh_until m') = length (dm_refresh_until m)"
    "dm_read_burst_bytes m' = dm_read_burst_bytes m" "dm_write_burst_bytes m' = dm_write_burst_bytes m"
    "dm_address_mapping m' = dm_address_mapping m"
  shows "dram_wf m'"
  using assms unfolding dram_wf_def row_slots_def by simp

lemma close_rows_wf: "dram_wf m \<Longrightarrow> dram_wf (close_rows m)"
  by (rule dram_wf_cong) (simp_all add: close_rows_def dram_wf_def)

lemma refresh_init_wf: "dram_wf m \<Longrightarrow> dram_wf (refresh_init_state m)"
  by (rule dram_wf_cong)
    (simp_all add: refresh_init_state_def dram_wf_def Let_def split: tu_dram_refresh_mode.split)

lemma allocate_wf:
  assumes "allocate_runtime_state memory (dram_initial t p w) = Some m"
    and "dp_channels p \<noteq> 0" "dp_banks_per_channel p \<noteq> 0" "dp_burst_length p \<noteq> 0"
  shows "dram_wf m"
  using assms by (auto simp: allocate_runtime_state_def dram_initial_def dram_wf_def close_rows_def row_slots_def
      split: if_splits)

lemma preset_nonzero:
  "dp_channels (dram_presets t) \<noteq> 0" "dp_banks_per_channel (dram_presets t) \<noteq> 0" "dp_burst_length (dram_presets t) \<noteq> 0"
  by (cases t; simp add: dram_presets_def params_of_def)+

section \<open>What a refresh leaves unchanged\<close>

definition refresh_frame :: "tu_dram_model \<Rightarrow> tu_dram_model \<Rightarrow> bool" where
  "refresh_frame m m' \<longleftrightarrow> (\<exists>rows nx un ev.
     m' = m\<lparr>dm_open_rows := rows, dm_refresh_next := nx, dm_refresh_until := un,
       dm_stats := (dm_stats m)\<lparr>total_refresh_events := ev\<rparr>\<rparr> \<and>
     length rows = length (dm_open_rows m) \<and> length nx = length (dm_refresh_next m) \<and>
     length un = length (dm_refresh_until m))"

lemma refresh_frameI:
  assumes "m' = m\<lparr>dm_open_rows := rows, dm_refresh_next := nx, dm_refresh_until := un,
      dm_stats := (dm_stats m)\<lparr>total_refresh_events := ev\<rparr>\<rparr>"
    "length rows = length (dm_open_rows m)" "length nx = length (dm_refresh_next m)"
    "length un = length (dm_refresh_until m)"
  shows "refresh_frame m m'"
  unfolding refresh_frame_def using assms by (intro exI conjI)

lemma refresh_frame_fields:
  assumes "refresh_frame m m'"
  obtains rows nx un ev where
    "m' = m\<lparr>dm_open_rows := rows, dm_refresh_next := nx, dm_refresh_until := un,
      dm_stats := (dm_stats m)\<lparr>total_refresh_events := ev\<rparr>\<rparr>"
    "length rows = length (dm_open_rows m)" "length nx = length (dm_refresh_next m)"
    "length un = length (dm_refresh_until m)"
  using assms unfolding refresh_frame_def by (elim exE conjE) (rule that)

lemma refresh_frame_refl [simp]: "refresh_frame m m"
  by (rule refresh_frameI [where rows = "dm_open_rows m" and nx = "dm_refresh_next m" and
        un = "dm_refresh_until m" and ev = "total_refresh_events (dm_stats m)"]) simp_all

lemma refresh_frame_trans:
  assumes "refresh_frame m m'" "refresh_frame m' m''" shows "refresh_frame m m''"
  using assms(2)
proof (rule refresh_frame_fields)
  fix rows nx un ev
  assume b: "m'' = m'\<lparr>dm_open_rows := rows, dm_refresh_next := nx, dm_refresh_until := un,
      dm_stats := (dm_stats m')\<lparr>total_refresh_events := ev\<rparr>\<rparr>"
    "length rows = length (dm_open_rows m')" "length nx = length (dm_refresh_next m')" "length un = length (dm_refresh_until m')"
  show ?thesis using assms(1)
    by (rule refresh_frame_fields) (rule refresh_frameI [where rows = rows and nx = nx and un = un and ev = ev], simp_all add: b)
qed

lemma refresh_frame_wf: "refresh_frame m m' \<Longrightarrow> dram_wf m \<Longrightarrow> dram_wf m'"
  by (erule refresh_frame_fields) (rule dram_wf_cong, assumption, simp_all)

lemma foldl_update_length: "length (foldl (\<lambda>rows ch. rows[f ch := v]) rows chs) = length rows"
  by (induction chs arbitrary: rows) simp_all

lemma fire_refresh_frame:
  assumes "dram_wf m"
  shows "refresh_frame m (fire_refresh b fire_at dur trefi m)"
    "dm_refresh_next (fire_refresh b fire_at dur trefi m) = (dm_refresh_next m)[b := dm_refresh_next m ! b + trefi]"
    "total_refresh_events (dm_stats (fire_refresh b fire_at dur trefi m)) = total_refresh_events (dm_stats m) + 1"
proof -
  let ?e = "total_refresh_events (dm_stats m) + 1" and ?nx = "(dm_refresh_next m)[b := dm_refresh_next m ! b + trefi]"
  have l: "length (dm_open_rows m) = unat (dm_num_channels m) * unat (banks m)"
    using assms by (simp add: dram_wf_def row_slots_def)
  obtain rows where r: "length rows = length (dm_open_rows m)"
    "fire_refresh b fire_at dur trefi m = m\<lparr>dm_open_rows := rows, dm_refresh_next := ?nx,
       dm_refresh_until := (dm_refresh_until m)[b := fire_at + dur],
       dm_stats := (dm_stats m)\<lparr>total_refresh_events := ?e\<rparr>\<rparr>"
  proof (cases "dm_row_policy m = TU_DRAM_ROW_LEGACY")
    case True
    then show ?thesis using that [of "dm_open_rows m"] by (simp add: fire_refresh_def precharge_def)
  next
    case False
    show ?thesis
    proof (cases "dm_refresh_mode m = TU_DRAM_REFRESH_ALL_BANK")
      case True
      then show ?thesis using False l that [of "replicate (row_slots m) UINT64_MAX"]
        by (simp add: fire_refresh_def precharge_def row_slots_def)
    next
      case all: False
      then show ?thesis using False
          that [of "foldl (\<lambda>rows ch. rows[ch * unat (banks m) + b := UINT64_MAX]) (dm_open_rows m) [0..<unat (dm_num_channels m)]"]
        by (simp add: fire_refresh_def precharge_def foldl_update_length)
    qed
  qed
  show "refresh_frame m (fire_refresh b fire_at dur trefi m)"
    by (rule refresh_frameI [OF r(2,1)]) simp_all
  show "dm_refresh_next (fire_refresh b fire_at dur trefi m) = ?nx"
    "total_refresh_events (dm_stats (fire_refresh b fire_at dur trefi m)) = ?e"
    by (simp_all add: r(2))
qed

section \<open>A refresh slot catches up\<close>

text \<open>
  The loop ends when the interval is positive and cannot carry the schedule past \<open>2^64\<close>; it moves the
  schedule of its slot by whole intervals, one event for each.
\<close>

lemma refresh_slot_ends:
  assumes "dram_wf m" "b < length (dm_refresh_next m)" "0 < unat trefi" "unat T + unat trefi < 18446744073709551616"
  shows "\<exists>m' k. refresh_slot T on_access dur trefi b m = Some m' \<and> refresh_frame m m' \<and>
    unat (dm_refresh_next m' ! b) = unat (dm_refresh_next m ! b) + k * unat trefi \<and>
    (\<forall>c. c \<noteq> b \<longrightarrow> dm_refresh_next m' ! c = dm_refresh_next m ! c) \<and>
    total_refresh_events (dm_stats m') = total_refresh_events (dm_stats m) + of_nat k \<and>
    (0 < k \<longrightarrow> unat (dm_refresh_next m' ! b) \<le> unat T + unat trefi) \<and>
    (refresh_fires m' (dm_refresh_next m' ! b) T on_access = None \<or> T < dm_refresh_next m' ! b)"
  using assms(1,2)
proof (induction "unat T + unat trefi + 1 - unat (dm_refresh_next m ! b)" arbitrary: m rule: less_induct)
  case less
  let ?n = "dm_refresh_next m ! b"
  note unf = refresh_slot.simps [of T on_access dur trefi b m]
  show ?case
  proof (cases "?n \<le> T \<and> (\<exists>f. refresh_fires m ?n T on_access = Some f)")
    case False
    then have "refresh_slot T on_access dur trefi b m = Some m"
      unfolding unf by (auto split: option.splits)
    then show ?thesis using False by (intro exI [of _ m] exI [of _ 0]) (auto simp: not_le)
  next
    case True
    then obtain f where f: "refresh_fires m ?n T on_access = Some f" "?n \<le> T" by blast
    let ?m = "fire_refresh b f dur trefi m"
    note fr = fire_refresh_frame [OF less.prems(1), of b f dur trefi]
    have nx: "dm_refresh_next ?m ! b = ?n + trefi" using fr(2) less.prems(2) by simp
    have le: "unat ?n \<le> unat T" using f(2) by (simp add: word_le_nat_alt)
    then have un: "unat (?n + trefi) = unat ?n + unat trefi" using assms(4) by (intro u64_add_exact) linarith
    have "dram_wf ?m" "b < length (dm_refresh_next ?m)"
      using refresh_frame_wf [OF fr(1) less.prems(1)] fr(2) less.prems(2) by simp_all
    moreover have "unat T + unat trefi + 1 - unat (dm_refresh_next ?m ! b) < unat T + unat trefi + 1 - unat ?n"
      unfolding nx un using le assms(3) by linarith
    ultimately obtain m' k where IH: "refresh_slot T on_access dur trefi b ?m = Some m'" "refresh_frame ?m m'"
      "unat (dm_refresh_next m' ! b) = unat ?n + unat trefi + k * unat trefi"
      "\<And>c. c \<noteq> b \<Longrightarrow> dm_refresh_next m' ! c = dm_refresh_next ?m ! c"
      "total_refresh_events (dm_stats m') = total_refresh_events (dm_stats ?m) + of_nat k"
      "0 < k \<longrightarrow> unat (dm_refresh_next m' ! b) \<le> unat T + unat trefi"
      "refresh_fires m' (dm_refresh_next m' ! b) T on_access = None \<or> T < dm_refresh_next m' ! b"
      using less.hyps [of ?m] unfolding nx un by blast
    have "refresh_slot T on_access dur trefi b m = Some m'" unfolding unf using f IH(1) by simp
    moreover have "unat (dm_refresh_next m' ! b) \<le> unat T + unat trefi"
      using IH(3,6) le by (cases "k = 0") auto
    moreover have "dm_refresh_next m' ! c = dm_refresh_next m ! c" if "c \<noteq> b" for c
      using IH(4) [OF that] fr(2) that by simp
    ultimately show ?thesis
      using IH(3,5,7) fr(3) refresh_frame_trans [OF fr(1) IH(2)]
      by (intro exI [of _ m'] exI [of _ "Suc k"]) (simp add: algebra_simps)
  qed
qed

section \<open>All slots catch up\<close>

definition settled :: "u64 \<Rightarrow> bool \<Rightarrow> tu_dram_model \<Rightarrow> nat \<Rightarrow> bool" where
  "settled T on_access m b \<longleftrightarrow> refresh_fires m (dm_refresh_next m ! b) T on_access = None \<or> T < dm_refresh_next m ! b"

lemma refresh_fires_frame: "refresh_frame m m' \<Longrightarrow> refresh_fires m' = refresh_fires m"
  by (erule refresh_frame_fields) (simp add: refresh_fires_def fun_eq_iff)

lemma refresh_frame_keeps:
  assumes "refresh_frame m m'"
  shows "dm_params m' = dm_params m" "dm_current_cycle m' = dm_current_cycle m" "dm_row_policy m' = dm_row_policy m"
    "dm_num_channels m' = dm_num_channels m" "dm_refresh_mode m' = dm_refresh_mode m" "dm_type m' = dm_type m"
    "length (dm_refresh_next m') = length (dm_refresh_next m)" "dm_bandwidth_available m' = dm_bandwidth_available m"
    "dm_pending_read_bytes m' = dm_pending_read_bytes m" "dm_pending_write_bytes m' = dm_pending_write_bytes m"
    "dm_bw_window_size_cycles m' = dm_bw_window_size_cycles m" "dm_bw_window_start m' = dm_bw_window_start m"
    "dm_turnaround_mode m' = dm_turnaround_mode m" "dm_address_mapping m' = dm_address_mapping m"
    "dm_read_burst_bytes m' = dm_read_burst_bytes m" "dm_write_burst_bytes m' = dm_write_burst_bytes m"
  using assms by (rule refresh_frame_fields; simp)+

lemma refresh_slots_end:
  assumes "dram_wf m" "distinct bs" "set bs \<subseteq> {..<length (dm_refresh_next m)}"
    and "0 < unat trefi" "unat T + unat trefi < 18446744073709551616"
  shows "\<exists>m' k. refresh_slots T on_access dur trefi bs m = Some m' \<and> refresh_frame m m' \<and>
    (\<forall>b \<in> set bs. unat (dm_refresh_next m' ! b) = unat (dm_refresh_next m ! b) + k b * unat trefi \<and>
       settled T on_access m' b \<and> (0 < k b \<longrightarrow> unat (dm_refresh_next m' ! b) \<le> unat T + unat trefi)) \<and>
    (\<forall>c. c \<notin> set bs \<longrightarrow> dm_refresh_next m' ! c = dm_refresh_next m ! c) \<and>
    total_refresh_events (dm_stats m') = total_refresh_events (dm_stats m) + of_nat (\<Sum>b \<in> set bs. k b)"
  using assms(1-3)
proof (induction bs arbitrary: m)
  case Nil
  then show ?case by (intro exI [of _ m]) simp
next
  case (Cons b bs)
  have "b < length (dm_refresh_next m)" using Cons.prems(3) by simp
  then obtain m1 k1 where s: "refresh_slot T on_access dur trefi b m = Some m1" "refresh_frame m m1"
    "unat (dm_refresh_next m1 ! b) = unat (dm_refresh_next m ! b) + k1 * unat trefi"
    "\<And>c. c \<noteq> b \<Longrightarrow> dm_refresh_next m1 ! c = dm_refresh_next m ! c"
    "total_refresh_events (dm_stats m1) = total_refresh_events (dm_stats m) + of_nat k1"
    "0 < k1 \<longrightarrow> unat (dm_refresh_next m1 ! b) \<le> unat T + unat trefi"
    "refresh_fires m1 (dm_refresh_next m1 ! b) T on_access = None \<or> T < dm_refresh_next m1 ! b"
    using refresh_slot_ends [OF Cons.prems(1) _ assms(4,5), of b on_access dur] by blast
  have "dram_wf m1" "set bs \<subseteq> {..<length (dm_refresh_next m1)}"
    using refresh_frame_wf [OF s(2) Cons.prems(1)] Cons.prems(3) refresh_frame_keeps(7) [OF s(2)] by simp_all
  then obtain m' k where r: "refresh_slots T on_access dur trefi bs m1 = Some m'" "refresh_frame m1 m'"
    "\<And>c. c \<in> set bs \<Longrightarrow> unat (dm_refresh_next m' ! c) = unat (dm_refresh_next m1 ! c) + k c * unat trefi \<and>
       settled T on_access m' c \<and> (0 < k c \<longrightarrow> unat (dm_refresh_next m' ! c) \<le> unat T + unat trefi)"
    "\<And>c. c \<notin> set bs \<Longrightarrow> dm_refresh_next m' ! c = dm_refresh_next m1 ! c"
    "total_refresh_events (dm_stats m') = total_refresh_events (dm_stats m1) + of_nat (\<Sum>b \<in> set bs. k b)"
    using Cons.IH [of m1] Cons.prems(2) by auto
  have nb: "b \<notin> set bs" using Cons.prems(2) by simp
  have nx: "dm_refresh_next m' ! b = dm_refresh_next m1 ! b" using r(4) nb by simp
  have "settled T on_access m' b"
    using s(7) unfolding settled_def nx refresh_fires_frame [OF r(2)] .
  then have B: "unat (dm_refresh_next m' ! c) = unat (dm_refresh_next m ! c) + (k(b := k1)) c * unat trefi \<and>
      settled T on_access m' c \<and> (0 < (k(b := k1)) c \<longrightarrow> unat (dm_refresh_next m' ! c) \<le> unat T + unat trefi)"
    if "c \<in> set (b # bs)" for c
    using that r(3) [of c] s(3,4,6) nx nb by (cases "c = b") auto
  have sum: "(\<Sum>c \<in> set (b # bs). (k(b := k1)) c) = k1 + (\<Sum>c \<in> set bs. k c)"
    using nb by (simp add: sum.insert_if) (rule sum.cong, auto)
  have ev: "total_refresh_events (dm_stats m') =
      total_refresh_events (dm_stats m) + of_nat (\<Sum>c \<in> set (b # bs). (k(b := k1)) c)"
    unfolding sum r(5) s(5) by (simp only: of_nat_add add.assoc)
  have out: "dm_refresh_next m' ! c = dm_refresh_next m ! c" if "c \<notin> set (b # bs)" for c
    using that r(4) s(4) by simp
  have "refresh_slots T on_access dur trefi (b # bs) m = Some m'" using s(1) r(1) by simp
  then show ?case using refresh_frame_trans [OF s(2) r(2)] B out ev by blast
qed

definition active_slots :: "tu_dram_model \<Rightarrow> nat" where
  "active_slots m = (if no_refresh m then 0 else if dm_refresh_mode m = TU_DRAM_REFRESH_ALL_BANK then 1 else unat (banks m))"


lemma active_slots_less: "dram_wf m \<Longrightarrow> set [0..<active_slots m] \<subseteq> {..<length (dm_refresh_next m)}"
  by (auto simp: active_slots_def dram_wf_def unat_gt_0 Suc_le_eq split: if_splits)

lemma refresh_catchup_ends:
  assumes "dram_wf m"
    and "no_refresh m \<or> 0 < unat (refresh_effective_interval m) \<and>
      unat T + unat (refresh_effective_interval m) < 18446744073709551616"
  shows "\<exists>m' k. refresh_catchup T on_access m = Some m' \<and> refresh_frame m m' \<and>
    (\<forall>b < active_slots m. unat (dm_refresh_next m' ! b) =
         unat (dm_refresh_next m ! b) + k b * unat (refresh_effective_interval m) \<and> settled T on_access m' b \<and>
       (0 < k b \<longrightarrow> unat (dm_refresh_next m' ! b) \<le> unat T + unat (refresh_effective_interval m))) \<and>
    total_refresh_events (dm_stats m') = total_refresh_events (dm_stats m) + of_nat (\<Sum>b < active_slots m. k b)"
proof (cases "no_refresh m")
  case True
  then show ?thesis by (intro exI [of _ m]) (simp add: refresh_catchup_def active_slots_def)
next
  case False
  let ?dur = "if dm_refresh_mode m = TU_DRAM_REFRESH_ALL_BANK then dm_refresh_trfc_cycles m else dm_refresh_trfc_pb_cycles m"
  have "refresh_catchup T on_access m =
      refresh_slots T on_access ?dur (refresh_effective_interval m) [0..<active_slots m] m"
    using False by (simp add: refresh_catchup_def active_slots_def)
  moreover have i: "0 < unat (refresh_effective_interval m)"
    "unat T + unat (refresh_effective_interval m) < 18446744073709551616" using assms(2) False by simp_all
  moreover have S: "set [0..<active_slots m] = {..<active_slots m}" by auto
  obtain m' k where "refresh_slots T on_access ?dur (refresh_effective_interval m) [0..<active_slots m] m = Some m'"
    "refresh_frame m m'"
    "\<forall>b \<in> set [0..<active_slots m]. unat (dm_refresh_next m' ! b) =
       unat (dm_refresh_next m ! b) + k b * unat (refresh_effective_interval m) \<and> settled T on_access m' b \<and>
       (0 < k b \<longrightarrow> unat (dm_refresh_next m' ! b) \<le> unat T + unat (refresh_effective_interval m))"
    "total_refresh_events (dm_stats m') = total_refresh_events (dm_stats m) + of_nat (\<Sum>b \<in> set [0..<active_slots m]. k b)"
    using refresh_slots_end [OF assms(1) distinct_upt active_slots_less [OF assms(1)] i, of on_access ?dur] by metis
  ultimately show ?thesis unfolding S by (intro exI [of _ m'] exI [of _ k] conjI) (simp_all only: lessThan_iff Ball_def)
qed


section \<open>Powers of two\<close>

lemma power_of_two_nat: "n AND (n - 1) = 0 \<Longrightarrow> 0 < n \<Longrightarrow> \<exists>k. n = 2 ^ k" for n :: nat
proof (induction n rule: less_induct)
  case (less n)
  show ?case
  proof (cases "even n")
    case True
    then obtain j where j: "n = 2 * j" by blast
    have "(n - 1) div 2 = j - 1" using j less.prems(2) by simp
    then have "n AND (n - 1) = 2 * (j AND (j - 1))" using and_rec [of n "n - 1"] True j by simp
    then have "j AND (j - 1) = 0" using less.prems(1) by simp
    then obtain k where "j = 2 ^ k" using less.IH [of j] j less.prems(2) by auto
    then have "n = 2 ^ Suc k" using j by simp
    then show ?thesis by blast
  next
    case False
    then obtain j where "n = 2 * j + 1" by (rule oddE)
    then have "(n - 1) div 2 = n div 2" "even (n - 1)" by simp_all
    then have "n AND (n - 1) = 2 * (n div 2)" using and_rec [of n "n - 1"] by simp
    then have "n = 2 ^ 0" using less.prems False by simp
    then show ?thesis by blast
  qed
qed

lemma power_of_two_word:
  fixes w :: "'a::len word"
  assumes "w AND (w - 1) = 0" "w \<noteq> 0"
  shows "\<exists>k. unat w = 2 ^ k"
proof (rule power_of_two_nat)
  have "unat (w - 1) = unat w - 1" using assms(2) by (metis unat_minus_one)
  then show "unat w AND (unat w - 1) = 0" using assms(1) by (metis unsigned_and_eq unat_0)
  show "0 < unat w" using assms(2) by (simp add: unat_gt_0)
qed

lemma xor_less_power: "a < 2 ^ k \<Longrightarrow> b < 2 ^ k \<Longrightarrow> (a XOR b) < 2 ^ k" for a b :: nat
  by (metis take_bit_nat_eq_self_iff take_bit_xor)

section \<open>The address mapping loses nothing\<close>

text \<open>The number of the burst at a column of a row.\<close>

definition burst_at :: "tu_dram_model \<Rightarrow> u32 \<Rightarrow> u32 \<Rightarrow> u64 \<Rightarrow> nat \<Rightarrow> nat" where
  "burst_at m channel bank row col =
    (let channels = unat (dm_num_channels m); group = unat row * unat (banks m) + unat bank
     in if dm_address_mapping m = TU_DRAM_ADDR_ROW_INTERLEAVED
        then (group * channels + unat channel) * unat (bursts_per_row m) + col
        else (group * unat (bursts_per_row m) + col) * channels +
          (if dm_address_mapping m = TU_DRAM_ADDR_XOR_INTERLEAVED
           then unat channel XOR (group AND (channels - 1)) else unat channel))"

lemma bursts_per_row_pos: "0 < unat (bursts_per_row m)"
  by (simp add: bursts_per_row_def Let_def unat_gt_0)

lemma unat_ucast_mod:
  fixes y :: u64
  assumes "unat y = k mod c" "0 < c" "c < 4294967296"
  shows "unat (ucast y :: u32) = k mod c"
proof -
  have "unat y < c" using assms(1,2) by simp
  then have "unat y < 4294967296" using assms(3) by linarith
  then show ?thesis using assms(1) by (simp add: unat_ucast_64_32)
qed

lemma bank_row:
  fixes b n :: u32 and g r :: u64
  assumes "b = ucast (g mod ucast n)" "r = g div ucast n" "n \<noteq> 0"
  shows "unat b < unat n" "unat r * unat n + unat b = unat g"
proof -
  have n: "0 < unat n" using assms(3) by (simp add: unat_gt_0)
  have b: "unat b = unat g mod unat n"
    unfolding assms(1) by (rule unat_ucast_mod) (simp_all add: unat_mod n)
  show "unat b < unat n" using b n by simp
  show "unat r * unat n + unat b = unat g" unfolding b assms(2) by (simp add: unat_div)
qed

lemma decode_burst:
  assumes "dram_wf m"
  shows "\<exists>channel bank row col. tu_dram_decode_address m addr = Some (channel, bank, row) \<and>
    unat channel < unat (dm_num_channels m) \<and> unat bank < unat (banks m) \<and> col < unat (bursts_per_row m) \<and>
    burst_at m channel bank row col = unat addr div unat (dp_burst_length (dm_params m))"
proof -
  let ?C = "unat (dm_num_channels m)" and ?n = "unat (bursts_per_row m)"
  let ?ch = "ucast (dm_num_channels m) :: u64" and ?B = "ucast (banks m) :: u64"
  define burst where "burst = addr div ucast (dp_burst_length (dm_params m))"
  have wf: "dm_num_channels m \<noteq> 0" "banks m \<noteq> 0" "dp_burst_length (dm_params m) \<noteq> 0"
    using assms by (simp_all add: dram_wf_def)
  have C: "0 < ?C" "?C < 4294967296" using wf(1) by (simp_all add: unat_gt_0)
  have ub: "unat burst = unat addr div unat (dp_burst_length (dm_params m))" by (simp add: burst_def unat_div)
  note n = bursts_per_row_pos [of m]
  show ?thesis
  proof (cases "dm_address_mapping m = TU_DRAM_ADDR_ROW_INTERLEAVED")
    case True
    define g where "g = burst div bursts_per_row m div ?ch"
    define c where "c = (ucast (burst div bursts_per_row m mod ?ch) :: u32)"
    have c: "unat c = unat burst div ?n mod ?C"
      unfolding c_def by (rule unat_ucast_mod [OF _ C]) (simp add: unat_mod unat_div)
    have g: "unat g = unat burst div ?n div ?C" by (simp add: g_def unat_div)
    have d: "tu_dram_decode_address m addr = Some (c, ucast (g mod ?B), g div ?B)"
      using wf True by (simp add: tu_dram_decode_address_def Let_def burst_def g_def c_def)
    note br = bank_row [OF refl refl wf(2), of g]
    have "burst_at m c (ucast (g mod ?B)) (g div ?B) (unat burst mod ?n) = (unat g * ?C + unat c) * ?n + unat burst mod ?n"
      unfolding burst_at_def Let_def br(2) using True by simp
    also have "\<dots> = unat burst" unfolding c g by simp
    finally show ?thesis using d br(1) C(1) c n unfolding ub [symmetric]
      by (intro exI [of _ c] exI [of _ "ucast (g mod ?B)"] exI [of _ "g div ?B"] exI [of _ "unat burst mod ?n"]) simp
  next
    case False
    define g where "g = burst div ?ch div bursts_per_row m"
    define base where "base = (ucast (burst mod ?ch) :: u32)"
    have base: "unat base = unat burst mod ?C"
      unfolding base_def by (rule unat_ucast_mod [OF _ C]) (simp add: unat_mod)
    have g: "unat g = unat burst div ?C div ?n" by (simp add: g_def unat_div)
    note br = bank_row [OF refl refl wf(2), of g]
    define c where "c = (if dm_address_mapping m = TU_DRAM_ADDR_XOR_INTERLEAVED
      then base XOR ucast (g AND ucast (dm_num_channels m - 1)) else base)"
    have xor: "dm_num_channels m AND (dm_num_channels m - 1) = 0" if "dm_address_mapping m = TU_DRAM_ADDR_XOR_INTERLEAVED"
      using assms that by (simp add: dram_wf_def)
    have d: "tu_dram_decode_address m addr = Some (c, ucast (g mod ?B), g div ?B)"
      using wf False xor by (simp add: tu_dram_decode_address_def Let_def burst_def [symmetric] g_def c_def base_def)
    let ?x = "if dm_address_mapping m = TU_DRAM_ADDR_XOR_INTERLEAVED then unat g AND (?C - 1) else 0"
    have c: "unat c = unat base XOR ?x" and cl: "unat c < ?C"
    proof -
      have "unat c = unat base XOR ?x \<and> unat c < ?C"
      proof (cases "dm_address_mapping m = TU_DRAM_ADDR_XOR_INTERLEAVED")
        case True
        obtain k where k: "?C = 2 ^ k" using power_of_two_word [OF xor [OF True] wf(1)] by blast
        have m: "?C - 1 = mask k" by (simp add: k mask_eq_exp_minus_1)
        have u: "unat (dm_num_channels m - 1) = ?C - 1" using wf(1) by (metis unat_minus_one)
        have "unat (g AND ucast (dm_num_channels m - 1)) = unat g AND (?C - 1)"
          by (simp add: unsigned_and_eq u)
        moreover have "unat g AND (?C - 1) < 2 ^ k" unfolding m by (simp add: take_bit_eq_mask [symmetric])
        ultimately have "unat (ucast (g AND ucast (dm_num_channels m - 1)) :: u32) = unat g AND (?C - 1)"
          using C(2) k by (simp add: unat_ucast_64_32)
        then have "unat c = unat base XOR (unat g AND (?C - 1))" using True by (simp add: c_def unsigned_xor_eq)
        moreover have "unat base XOR (unat g AND (?C - 1)) < 2 ^ k"
          using \<open>unat g AND (?C - 1) < 2 ^ k\<close> base C(1) k by (intro xor_less_power) simp_all
        ultimately show ?thesis using True k by simp
      qed (use base C(1) in \<open>simp add: c_def\<close>)
      then show "unat c = unat base XOR ?x" "unat c < ?C" by simp_all
    qed
    have "unat c XOR ?x = unat base" unfolding c by (simp add: xor.assoc)
    then have "burst_at m c (ucast (g mod ?B)) (g div ?B) (unat burst div ?C mod ?n) =
        (unat g * ?n + unat burst div ?C mod ?n) * ?C + unat base"
      unfolding burst_at_def Let_def br(2) using False by (simp split: if_splits)
    also have "\<dots> = unat burst" unfolding base g by simp
    finally show ?thesis using d br(1) cl n unfolding ub [symmetric]
      by (intro exI [of _ c] exI [of _ "ucast (g mod ?B)"] exI [of _ "g div ?B"] exI [of _ "unat burst div ?C mod ?n"]) simp
  qed
qed

text \<open>
  C19. On a well-formed model every address has a place: a channel and a bank that exist, and a row,
  from which, with a column of the row, the burst of the address is recovered. So no index leaves its
  array and no two bursts share a place, in all three mappings.
\<close>

theorem decode_is_exact:
  assumes "dram_wf m"
  shows "\<exists>channel bank row col. tu_dram_decode_address m addr = Some (channel, bank, row) \<and>
    unat channel < unat (dm_num_channels m) \<and> unat bank < unat (banks m) \<and> col < unat (bursts_per_row m) \<and>
    burst_at m channel bank row col = unat addr div unat (dp_burst_length (dm_params m))"
  by (rule decode_burst [OF assms])

section \<open>Every operation keeps the model well-formed\<close>

text \<open>Well-formedness only reads the parameters, the array lengths, the mapping and the granules.\<close>

lemma dram_wf_unaffected [simp]:
  "dram_wf (m\<lparr>dm_stats := s\<rparr>) = dram_wf m"
  "dram_wf (m\<lparr>dm_current_cycle := c\<rparr>) = dram_wf m"
  "dram_wf (m\<lparr>dm_bandwidth_available := c\<rparr>) = dram_wf m"
  "dram_wf (m\<lparr>dm_bw_window_size_cycles := c\<rparr>) = dram_wf m"
  "dram_wf (m\<lparr>dm_bw_window_start := c\<rparr>) = dram_wf m"
  "dram_wf (m\<lparr>dm_window_bytes := c\<rparr>) = dram_wf m"
  "dram_wf (m\<lparr>dm_pending_read_bytes := c\<rparr>) = dram_wf m"
  "dram_wf (m\<lparr>dm_pending_write_bytes := c\<rparr>) = dram_wf m"
  "dram_wf (m\<lparr>dm_row_policy := policy\<rparr>) = dram_wf m"
  "dram_wf (m\<lparr>dm_row_miss_penalty_cycles := p\<rparr>) = dram_wf m"
  "dram_wf (m\<lparr>dm_row_conflict_penalty_cycles := p\<rparr>) = dram_wf m"
  "dram_wf (m\<lparr>dm_row_open_timeout_cycles := p\<rparr>) = dram_wf m"
  "dram_wf (m\<lparr>dm_turnaround_mode := t\<rparr>) = dram_wf m"
  "dram_wf (m\<lparr>dm_read_to_write_turnaround_cycles := p\<rparr>) = dram_wf m"
  "dram_wf (m\<lparr>dm_write_to_read_turnaround_cycles := p\<rparr>) = dram_wf m"
  "dram_wf (m\<lparr>dm_refresh_mode := md\<rparr>) = dram_wf m"
  "dram_wf (m\<lparr>dm_refresh_scheduling := sch\<rparr>) = dram_wf m"
  "dram_wf (m\<lparr>dm_refresh_rate := p\<rparr>) = dram_wf m"
  "dram_wf (m\<lparr>dm_refresh_trefi_cycles := c\<rparr>) = dram_wf m"
  "dram_wf (m\<lparr>dm_refresh_trfc_cycles := c\<rparr>) = dram_wf m"
  "dram_wf (m\<lparr>dm_refresh_trfc_pb_cycles := c\<rparr>) = dram_wf m"
  "dram_wf (m\<lparr>dm_refresh_max_deferral_cycles := c\<rparr>) = dram_wf m"
  "dram_wf (m\<lparr>dm_refresh_trefi_ns := c\<rparr>) = dram_wf m"
  "dram_wf (m\<lparr>dm_refresh_trfc_ns := c\<rparr>) = dram_wf m"
  "dram_wf (m\<lparr>dm_refresh_trfc_pb_ns := c\<rparr>) = dram_wf m"
  "dram_wf (m\<lparr>dm_refresh_max_deferral_ns := c\<rparr>) = dram_wf m"
  unfolding dram_wf_def row_slots_def by simp_all

lemma dram_wf_entries [simp]:
  "dram_wf (m\<lparr>dm_open_rows := (dm_open_rows m)[i := r]\<rparr>) = dram_wf m"
  "dram_wf (m\<lparr>dm_row_last_access_cycle := (dm_row_last_access_cycle m)[i := r]\<rparr>) = dram_wf m"
  "dram_wf (m\<lparr>dm_channel_available_cycle := (dm_channel_available_cycle m)[i := r]\<rparr>) = dram_wf m"
  "dram_wf (m\<lparr>dm_channel_last_direction := (dm_channel_last_direction m)[i := d]\<rparr>) = dram_wf m"
  "dram_wf (m\<lparr>dm_open_rows := (dm_open_rows m)[i := r],
     dm_row_last_access_cycle := (dm_row_last_access_cycle m)[j := c]\<rparr>) = dram_wf m"
  by (simp_all add: dram_wf_def row_slots_def)

lemma ensure_bandwidth_wf [simp]: "dram_wf (ensure_bandwidth m) = dram_wf m"
  by (simp add: ensure_bandwidth_def Let_def)

lemma upd_stats_wf [simp]: "dram_wf (upd_stats f m) = dram_wf m"
  by (simp add: upd_stats_def)

lemma close_idle_row_wf [simp]: "dram_wf (close_idle_row idx m) = dram_wf m"
  by (simp add: close_idle_row_def)

lemma explicit_row_penalty_wf [simp]: "dram_wf (snd (explicit_row_penalty addr m)) = dram_wf m"
  by (simp add: explicit_row_penalty_def Let_def split: option.split prod.split)

lemma turnaround_for_wf [simp]: "dram_wf (snd (turnaround_for channel d m)) = dram_wf m"
  by (simp add: turnaround_for_def Let_def)

lemma occupy_channel_wf [simp]: "dram_wf (occupy_channel c t b m) = dram_wf m"
  by (simp add: occupy_channel_def)

lemma service_wf [simp]:
  "dram_wf (snd (snd (read_service channel bank addr n m))) = dram_wf m"
  "dram_wf (snd (snd (write_service channel bank addr n m))) = dram_wf m"
  using turnaround_for_wf [of channel 1 m] turnaround_for_wf [of channel 2 m]
    explicit_row_penalty_wf [of addr "snd (turnaround_for channel 1 m)"]
    explicit_row_penalty_wf [of addr "snd (turnaround_for channel 2 m)"]
  by (simp_all add: read_service_def write_service_def Let_def split_beta del: turnaround_for_wf explicit_row_penalty_wf)

text \<open>
  A clock at which refresh can catch up: no refresh is modelled, or the interval is positive and the
  next interval does not pass \<open>2^64\<close>.
\<close>

definition refresh_safe :: "tu_dram_model \<Rightarrow> bool" where
  "refresh_safe m \<longleftrightarrow> no_refresh m \<or> 0 < unat (refresh_effective_interval m) \<and>
     unat (dm_current_cycle m) + 1 + unat (refresh_effective_interval m) < 18446744073709551616"

lemma ensure_bandwidth_keeps [simp]:
  "no_refresh (ensure_bandwidth m) = no_refresh m"
  "refresh_effective_interval (ensure_bandwidth m) = refresh_effective_interval m"
  "dm_current_cycle (ensure_bandwidth m) = dm_current_cycle m"
  by (simp_all add: ensure_bandwidth_def no_refresh_def refresh_effective_interval_def Let_def)

lemma refresh_slot_frame:
  assumes "refresh_slot T on_access dur trefi b m = Some m'" "dram_wf m"
  shows "refresh_frame m m'"
proof -
  have "dram_wf m \<longrightarrow> refresh_frame m m'"
    using assms(1)
  proof (induction rule: refresh_slot.raw_induct [rotated, consumes 1])
    case (1 rec T on_access dur trefi b m m')
    show ?case
    proof
      assume wf: "dram_wf m"
      show "refresh_frame m m'"
      proof (cases "dm_refresh_next m ! b \<le> T \<and> (\<exists>f. refresh_fires m (dm_refresh_next m ! b) T on_access = Some f)")
        case True
        then obtain f where f: "refresh_fires m (dm_refresh_next m ! b) T on_access = Some f" by blast
        let ?m = "fire_refresh b f dur trefi m"
        note fr = fire_refresh_frame(1) [OF wf, of b f dur trefi]
        have "rec T on_access dur trefi b ?m = Some m'" using 1(2) True f by simp
        then have "refresh_frame ?m m'" using 1(1) refresh_frame_wf [OF fr wf] by blast
        then show ?thesis using refresh_frame_trans [OF fr] by blast
      next
        case False
        then show ?thesis using 1(2) by (auto split: option.splits if_splits)
      qed
    qed
  qed
  then show ?thesis using assms(2) by blast
qed

lemma refresh_slots_frame:
  "refresh_slots T on_access dur trefi bs m = Some m' \<Longrightarrow> dram_wf m \<Longrightarrow> refresh_frame m m'"
proof (induction bs arbitrary: m)
  case (Cons b bs)
  then obtain m1 where m1: "refresh_slot T on_access dur trefi b m = Some m1" "refresh_slots T on_access dur trefi bs m1 = Some m'"
    by (auto simp: bind_eq_Some_conv)
  have f: "refresh_frame m m1" by (rule refresh_slot_frame [OF m1(1) Cons.prems(2)])
  show ?case using Cons.IH [OF m1(2) refresh_frame_wf [OF f Cons.prems(2)]] refresh_frame_trans [OF f] by blast
qed simp

lemma refresh_catchup_frame:
  assumes "refresh_catchup T on_access m = Some m'" "dram_wf m"
  shows "refresh_frame m m'"
proof (cases "no_refresh m")
  case True
  then show ?thesis using assms(1) by (simp add: refresh_catchup_def)
next
  case False
  then show ?thesis
    using assms(1) refresh_slots_frame [OF _ assms(2)] unfolding refresh_catchup_def Let_def if_not_P [OF False] by blast
qed

lemma refresh_catchup_wf: "refresh_catchup T on_access m = Some m' \<Longrightarrow> dram_wf m \<Longrightarrow> dram_wf m'"
  using refresh_frame_wf [OF refresh_catchup_frame] .

lemma access_keeps_wf:
  "tu_dram_read addr n m = Some (cycles, stall, m') \<Longrightarrow> dram_wf m \<Longrightarrow> dram_wf m'"
  "tu_dram_write addr n m = Some (cycles, stall, m') \<Longrightarrow> dram_wf m \<Longrightarrow> dram_wf m'"
  using service_wf [of "fst (channel_bank (ensure_bandwidth m) addr)" "snd (channel_bank (ensure_bandwidth m) addr)" addr n]
  by (auto simp: tu_dram_read_def tu_dram_write_def Let_def split_beta bind_eq_Some_conv split: if_splits
      dest!: refresh_catchup_wf, (metis snd_conv)+)

lemma tick_keeps_wf: "tu_dram_tick m = Some m' \<Longrightarrow> dram_wf m \<Longrightarrow> dram_wf m'"
  unfolding tu_dram_tick_def Let_def by (erule refresh_catchup_wf) simp

text \<open>Where refresh can catch up, the clock and the accesses return.\<close>

lemma access_catches_up:
  assumes "dram_wf m" "refresh_safe m"
  shows "\<exists>m'. refresh_catchup (dm_current_cycle m) True (ensure_bandwidth m) = Some m'"
proof -
  have "no_refresh (ensure_bandwidth m) \<or> 0 < unat (refresh_effective_interval (ensure_bandwidth m)) \<and>
      unat (dm_current_cycle m) + unat (refresh_effective_interval (ensure_bandwidth m)) < 18446744073709551616"
    using assms(2) by (auto simp: refresh_safe_def)
  then show ?thesis using refresh_catchup_ends [of "ensure_bandwidth m"] assms(1) by (simp only: ensure_bandwidth_wf) meson
qed

lemma tick_returns:
  assumes "dram_wf m" "refresh_safe m"
  shows "\<exists>m'. tu_dram_tick m = Some m'"
proof -
  let ?m = "m\<lparr>dm_current_cycle := dm_current_cycle m + 1\<rparr>"
  have w: "dram_wf (ensure_bandwidth ?m)" using assms(1) by simp
  have i: "no_refresh ?m = no_refresh m" "refresh_effective_interval ?m = refresh_effective_interval m"
    by (simp_all add: no_refresh_def refresh_effective_interval_def)
  have u: "unat (dm_current_cycle m + 1) \<le> unat (dm_current_cycle m) + 1"
    by (simp add: unat_word_ariths)
  have "no_refresh (ensure_bandwidth ?m) \<or> 0 < unat (refresh_effective_interval (ensure_bandwidth ?m)) \<and>
      unat (dm_current_cycle m + 1) + unat (refresh_effective_interval (ensure_bandwidth ?m)) < 18446744073709551616"
    using assms(2) u unfolding refresh_safe_def ensure_bandwidth_keeps i by linarith
  then obtain m' where "refresh_catchup (dm_current_cycle m + 1) False (ensure_bandwidth ?m) = Some m'"
    using refresh_catchup_ends [OF w] by meson
  then show ?thesis by (simp add: tu_dram_tick_def Let_def)
qed

text \<open>
  C20. In a model whose refresh interval is positive and whose clock is more than an interval away
  from \<open>2^64\<close>, or that does not refresh at all, no call hangs in the refresh schedule: the tick, every
  read and every write return.
\<close>

theorem dram_calls_return:
  assumes "dram_wf m" "refresh_safe m"
  shows "tu_dram_tick m \<noteq> None \<and> tu_dram_read addr n m \<noteq> None \<and> tu_dram_write addr n m \<noteq> None"
  using access_catches_up [OF assms] tick_returns [OF assms]
  by (auto simp: tu_dram_read_def tu_dram_write_def Let_def split_beta simp del: not_None_eq)

section \<open>Reachable models\<close>

inductive dram_step :: "tu_dram_model \<Rightarrow> tu_dram_model \<Rightarrow> bool" where
  on_tick: "tu_dram_tick m = Some m' \<Longrightarrow> dram_step m m'"
| on_read: "tu_dram_read addr n m = Some (cycles, stall, m') \<Longrightarrow> dram_step m m'"
| on_write: "tu_dram_write addr n m = Some (cycles, stall, m') \<Longrightarrow> dram_step m m'"
| on_reset: "dram_step m (tu_dram_reset m)"
| on_row_modeling: "dram_step m (tu_dram_set_row_modeling enabled m)"
| on_row_policy: "dram_step m (snd (tu_dram_set_row_policy_timeout_domain policy activate conflict timeout m))"
| on_mapping: "dram_step m (snd (tu_dram_set_address_mapping mapping m))"
| on_turnaround: "dram_step m (snd (tu_dram_set_turnaround md rtw wtr m))"
| on_granules: "dram_step m (snd (tu_dram_set_burst_granules read_bytes write_bytes m))"
| on_latency: "dram_step m (snd (tu_dram_set_latency_domain read_latency write_latency m))"
| on_clock: "dram_step m (snd (tu_dram_configure_core_clock in_range rl wl timeout rtw wtr window_bytes to_cycles m))"
| on_refresh: "dram_step m (snd (tu_dram_set_refresh to_cycles md scheduling rate trefi trfc trfc_pb deferral m))"

inductive dram_reachable :: "tu_dram_model \<Rightarrow> bool" where
  create: "tu_dram_create t window_bytes memory = Some m \<Longrightarrow> dram_reachable m"
| custom: "tu_dram_create_custom p window_bytes memory = Some m \<Longrightarrow> dram_reachable m"
| step: "dram_reachable m \<Longrightarrow> dram_step m m' \<Longrightarrow> dram_reachable m'"

lemma reset_wf: "dram_wf m \<Longrightarrow> dram_wf (tu_dram_reset m)"
  unfolding tu_dram_reset_def
  by (intro refresh_init_wf close_rows_wf) (simp add: dram_wf_def row_slots_def)

lemma settings_wf:
  assumes "dram_wf m"
  shows "dram_wf (tu_dram_set_row_modeling enabled m)"
    "dram_wf (snd (tu_dram_set_row_policy_timeout_domain policy activate conflict timeout m))"
    "dram_wf (snd (tu_dram_set_address_mapping mapping m))"
    "dram_wf (snd (tu_dram_set_turnaround md rtw wtr m))"
    "dram_wf (snd (tu_dram_set_burst_granules read_bytes write_bytes m))"
    "dram_wf (snd (tu_dram_set_latency_domain read_latency write_latency m))"
proof -
  show "dram_wf (snd (tu_dram_set_row_policy_timeout_domain policy activate conflict timeout m))"
    using assms by (simp add: tu_dram_set_row_policy_timeout_domain_def close_rows_wf split: option.split)
  have "dram_wf (m\<lparr>dm_address_mapping := mapping\<rparr>)"
    if "mapping = TU_DRAM_ADDR_XOR_INTERLEAVED \<longrightarrow> dm_num_channels m AND (dm_num_channels m - 1) = 0"
    using assms that by (simp add: dram_wf_def row_slots_def)
  then show "dram_wf (snd (tu_dram_set_address_mapping mapping m))"
    using assms by (simp add: tu_dram_set_address_mapping_def close_rows_wf)
  show "dram_wf (tu_dram_set_row_modeling enabled m)"
    "dram_wf (snd (tu_dram_set_turnaround md rtw wtr m))"
    "dram_wf (snd (tu_dram_set_burst_granules read_bytes write_bytes m))"
    "dram_wf (snd (tu_dram_set_latency_domain read_latency write_latency m))"
    using assms
    by (auto simp: tu_dram_set_row_modeling_def tu_dram_set_turnaround_def tu_dram_set_latency_domain_def
        tu_dram_set_burst_granules_def bad_granule_def dram_wf_def row_slots_def split: option.split)
qed

lemma refresh_setting_wf:
  assumes "dram_wf m"
  shows "dram_wf (snd (tu_dram_set_refresh to_cycles md scheduling rate trefi trfc trfc_pb deferral m))"
  using assms by (simp add: tu_dram_set_refresh_def Let_def refresh_init_wf)

lemma core_clock_wf:
  assumes "dram_wf m"
  shows "dram_wf (snd (tu_dram_configure_core_clock in_range rl wl timeout rtw wtr window_bytes to_cycles m))"
proof -
  have "dram_wf (m\<lparr>dm_params := (dm_params m)\<lparr>dp_read_latency_cycles := a, dp_write_latency_cycles := b\<rparr>\<rparr>)" for a b
    by (rule dram_wf_cong [OF assms]) simp_all
  then show ?thesis using assms by (simp add: tu_dram_configure_core_clock_def Let_def refresh_init_wf)
qed

lemma dram_step_wf: "dram_step m m' \<Longrightarrow> dram_wf m \<Longrightarrow> dram_wf m'"
  by (induction rule: dram_step.induct)
    (auto intro: tick_keeps_wf access_keeps_wf reset_wf settings_wf refresh_setting_wf core_clock_wf)

text \<open>
  C22. Every model that the two constructors, the clock, the accesses, the reset and the settings can
  produce is well-formed: it has channels, banks and bursts, its six arrays have the lengths their
  indices range over, and an XOR mapping only runs on a power of two of channels.
\<close>

theorem dram_reachable_well_formed:
  assumes "dram_reachable m" shows "dram_wf m"
  using assms
proof (induction rule: dram_reachable.induct)
  case (create t window_bytes memory m)
  then show ?case unfolding tu_dram_create_def by (rule allocate_wf) (rule preset_nonzero)+
next
  case (custom p window_bytes memory m)
  then show ?case unfolding tu_dram_create_custom_def by (auto split: if_splits intro: allocate_wf)
next
  case (step m m')
  then show ?case using dram_step_wf by blast
qed

section \<open>Witnesses\<close>

text \<open>A single-channel memory that refreshes all its banks together every 10 cycles.\<close>

definition sample_dram :: tu_dram_model where
  "sample_dram = snd (tu_dram_set_refresh (\<lambda>ns. 10) TU_DRAM_REFRESH_ALL_BANK TU_DRAM_REFRESH_SCHEDULING_FIXED 1 0 0 0 0
     (the (tu_dram_create TU_DRAM_TYPE_DDR4 1000 True)))"

lemma sample_facts:
  "dram_reachable sample_dram" "dram_wf sample_dram" "\<not> no_refresh sample_dram"
  "refresh_effective_interval sample_dram = 10" "dm_current_cycle sample_dram = 0"
  "dm_refresh_scheduling sample_dram = TU_DRAM_REFRESH_SCHEDULING_FIXED"
proof -
  have c: "tu_dram_create TU_DRAM_TYPE_DDR4 1000 True = Some (the (tu_dram_create TU_DRAM_TYPE_DDR4 1000 True))"
    by (simp add: tu_dram_create_def allocate_runtime_state_def)
  show "dram_reachable sample_dram" unfolding sample_dram_def
    by (rule dram_reachable.step [OF dram_reachable.create [OF c] dram_step.on_refresh])
  show "dram_wf sample_dram" by code_simp
  show "\<not> no_refresh sample_dram" by code_simp
  show "refresh_effective_interval sample_dram = 10" by code_simp
  show "dm_current_cycle sample_dram = 0" by code_simp
  show "dm_refresh_scheduling sample_dram = TU_DRAM_REFRESH_SCHEDULING_FIXED" by code_simp
qed


theorem decode_is_exact_witness:
  "\<exists>channel bank row col. tu_dram_decode_address sample_dram 5000 = Some (channel, bank, row) \<and>
    unat channel < unat (dm_num_channels sample_dram) \<and> unat bank < unat (banks sample_dram) \<and>
    col < unat (bursts_per_row sample_dram) \<and>
    burst_at sample_dram channel bank row col = unat (5000 :: u64) div unat (dp_burst_length (dm_params sample_dram))"
  by (rule decode_is_exact [OF sample_facts(2)])

theorem dram_calls_return_witness:
  "tu_dram_tick sample_dram \<noteq> None \<and> tu_dram_read 64 128 sample_dram \<noteq> None \<and> tu_dram_write 64 128 sample_dram \<noteq> None"
  by (rule dram_calls_return [OF sample_facts(2)]) (simp add: refresh_safe_def sample_facts)

theorem dram_reachable_well_formed_witness: "dram_wf sample_dram"
  by (rule dram_reachable_well_formed [OF sample_facts(1)])

section \<open>Row buffers and bandwidth\<close>

lemma upd_stats_fields [simp]:
  "dm_stats (upd_stats f m) = f (dm_stats m)" "dm_params (upd_stats f m) = dm_params m"
  "dm_num_channels (upd_stats f m) = dm_num_channels m" "dm_address_mapping (upd_stats f m) = dm_address_mapping m"
  "dm_row_policy (upd_stats f m) = dm_row_policy m" "dm_current_cycle (upd_stats f m) = dm_current_cycle m"
  "dm_open_rows (upd_stats f m) = dm_open_rows m" "dm_row_last_access_cycle (upd_stats f m) = dm_row_last_access_cycle m"
  by (simp_all add: upd_stats_def)

lemma decode_cong:
  assumes "dm_params m' = dm_params m" "dm_num_channels m' = dm_num_channels m" "dm_address_mapping m' = dm_address_mapping m"
  shows "tu_dram_decode_address m' = tu_dram_decode_address m"
proof -
  have b: "bursts_per_row m' = bursts_per_row m" using assms(1) by (simp add: bursts_per_row_def)
  show ?thesis unfolding tu_dram_decode_address_def assms b by (rule refl)
qed

lemma close_idle_row_keeps [frame_simps]:
  "dm_row_policy (close_idle_row i m) = dm_row_policy m" "dm_current_cycle (close_idle_row i m) = dm_current_cycle m"
  "length (dm_open_rows (close_idle_row i m)) = length (dm_open_rows m)"
  "dm_row_last_access_cycle (close_idle_row i m) = dm_row_last_access_cycle m"
  "dm_params (close_idle_row i m) = dm_params m" "dm_num_channels (close_idle_row i m) = dm_num_channels m"
  "dm_address_mapping (close_idle_row i m) = dm_address_mapping m"
  by (simp_all add: close_idle_row_def)

lemma service_parts_keep [frame_simps]:
  "dm_bandwidth_available (snd (turnaround_for channel d m)) = dm_bandwidth_available m"
  "dm_pending_read_bytes (snd (turnaround_for channel d m)) = dm_pending_read_bytes m"
  "dm_pending_write_bytes (snd (turnaround_for channel d m)) = dm_pending_write_bytes m"
  "dm_current_cycle (snd (turnaround_for channel d m)) = dm_current_cycle m"
  "dm_bw_window_start (snd (turnaround_for channel d m)) = dm_bw_window_start m"
  "dm_bw_window_size_cycles (snd (turnaround_for channel d m)) = dm_bw_window_size_cycles m"
  "dm_bandwidth_available (snd (explicit_row_penalty addr m)) = dm_bandwidth_available m"
  "dm_pending_read_bytes (snd (explicit_row_penalty addr m)) = dm_pending_read_bytes m"
  "dm_pending_write_bytes (snd (explicit_row_penalty addr m)) = dm_pending_write_bytes m"
  "dm_current_cycle (snd (explicit_row_penalty addr m)) = dm_current_cycle m"
  "dm_bw_window_start (snd (explicit_row_penalty addr m)) = dm_bw_window_start m"
  "dm_bw_window_size_cycles (snd (explicit_row_penalty addr m)) = dm_bw_window_size_cycles m"
  by (simp_all add: turnaround_for_def explicit_row_penalty_def close_idle_row_def upd_stats_def Let_def
      split: option.split)

lemma occupied_bytes_keep [frame_simps]:
  "occupied_bytes_for (snd (turnaround_for channel d m)) addr n r = occupied_bytes_for m addr n r"
  "occupied_bytes_for (snd (explicit_row_penalty addr' m)) addr n r = occupied_bytes_for m addr n r"
  "occupied_bytes_for (m\<lparr>dm_stats := s\<rparr>) addr n r = occupied_bytes_for m addr n r"
  by (simp_all add: turnaround_for_def explicit_row_penalty_def close_idle_row_def upd_stats_def Let_def
      occupied_bytes_for_def split: option.split)

lemma slot_index: "c < C \<Longrightarrow> b < B \<Longrightarrow> c * B + b < C * B" for b c B C :: nat
proof -
  assume "c < C" "b < B"
  then have "c * B + b < Suc c * B" by simp
  also have "\<dots> \<le> C * B" using \<open>c < C\<close> by (intro mult_le_mono1) simp
  finally show ?thesis .
qed

lemma row_index:
  assumes "dram_wf m" "tu_dram_decode_address m addr = Some (channel, bank, row)"
  shows "unat channel * unat (banks m) + unat bank < row_slots m"
  using decode_burst [OF assms(1), of addr] assms(2) unfolding row_slots_def by (auto intro: slot_index)

text \<open>
  C23. Where rows stay open, a second access to the row of an access in the same cycle is a hit: it
  costs nothing and is counted as a hit.
\<close>

theorem open_row_hits:
  assumes "dram_wf m" "dm_row_policy m = TU_DRAM_ROW_OPEN_PAGE \<or> dm_row_policy m = TU_DRAM_ROW_ADAPTIVE_TIMEOUT"
    and "tu_dram_decode_address m addr = Some (channel, bank, row)"
    and "tu_dram_decode_address m addr' = Some (channel, bank, row)"
    and "explicit_row_penalty addr m = (penalty, first)"
  shows "\<exists>second. explicit_row_penalty addr' first = (0, second) \<and>
    total_row_hits (dm_stats second) = total_row_hits (dm_stats first) + 1"
proof -
  let ?i = "unat channel * unat (banks m) + unat bank"
  have i: "?i < length (dm_open_rows m)" "?i < length (dm_row_last_access_cycle m)"
    using row_index [OF assms(1,3)] assms(1) by (simp_all add: dram_wf_def)
  have p: "dm_row_policy m \<noteq> TU_DRAM_ROW_LEGACY" "dm_row_policy m \<noteq> TU_DRAM_ROW_CLOSED_PAGE" using assms(2) by auto
  have f: "dm_row_policy first = dm_row_policy m" "dm_params first = dm_params m" "dm_num_channels first = dm_num_channels m"
    "dm_address_mapping first = dm_address_mapping m" "dm_current_cycle first = dm_current_cycle m"
    "dm_open_rows first ! ?i = row" "dm_row_last_access_cycle first ! ?i = dm_current_cycle m"
    using assms(3,5) p i by (simp_all add: explicit_row_penalty_def Let_def frame_simps split: if_splits) (auto simp: frame_simps)
  have "close_idle_row ?i first = first" using f(5,7) by (simp add: close_idle_row_def)
  then show ?thesis
    using assms(4) p f decode_cong [OF f(2,3,4)] by (simp add: explicit_row_penalty_def Let_def count_row_hit_def)
qed

text \<open>
  A read is charged twice in its window: its bytes become pending and also leave the available
  bandwidth, so the next access stalls for the rest of the window as soon as the read and the access
  together pass what the read has left.
\<close>

theorem bandwidth_charged_twice:
  assumes "p = occupied_bytes_for m addr n True" "p < dm_bandwidth_available m"
    and "dm_pending_read_bytes m = 0" "dm_pending_write_bytes m = 0"
    and "read_service channel bank addr n m = (cycles, stall, m')"
  shows "bandwidth_stall m' q = (if dm_bandwidth_available m - p < p + q
    then dm_bw_window_size_cycles m - (dm_current_cycle m - dm_bw_window_start m) else 0)"
proof -
  have m': "m' = snd (snd (read_service channel bank addr n m))" using assms(5) by simp
  have "dm_pending_read_bytes m' = p" "dm_pending_write_bytes m' = 0" "dm_bandwidth_available m' = dm_bandwidth_available m - p"
    "dm_bw_window_size_cycles m' = dm_bw_window_size_cycles m" "dm_current_cycle m' = dm_current_cycle m"
    "dm_bw_window_start m' = dm_bw_window_start m"
    using assms(2-4) unfolding m' assms(1)
    by (simp_all add: read_service_def Let_def split_beta occupy_channel_def upd_stats_def frame_simps)
  then show ?thesis by (simp add: bandwidth_stall_def)
qed

text \<open>The sample memory in its second window with its rows kept open, and an access to it.\<close>

definition open_dram :: tu_dram_model where
  "open_dram = (snd (tu_dram_set_row_policy_timing TU_DRAM_ROW_OPEN_PAGE 12 30 sample_dram))
    \<lparr>dm_bandwidth_available := 1000, dm_bw_window_size_cycles := 1000\<rparr>"

theorem open_row_hits_witness:
  "\<exists>second. explicit_row_penalty 128 (snd (explicit_row_penalty 64 open_dram)) = (0, second) \<and>
    total_row_hits (dm_stats second) = total_row_hits (dm_stats (snd (explicit_row_penalty 64 open_dram))) + 1"
proof (rule open_row_hits [OF _ _ _ _ prod.collapse [symmetric]])
  show "dram_wf open_dram" by code_simp
  show "dm_row_policy open_dram = TU_DRAM_ROW_OPEN_PAGE \<or> dm_row_policy open_dram = TU_DRAM_ROW_ADAPTIVE_TIMEOUT"
    by code_simp
  show "tu_dram_decode_address open_dram 64 = Some (0, 0, 0)" by code_simp
  show "tu_dram_decode_address open_dram 128 = Some (0, 0, 0)" by code_simp
qed

theorem bandwidth_charged_twice_witness:
  "bandwidth_stall (snd (snd (read_service 0 0 64 400 open_dram))) 300 = 1000 \<and>
   bandwidth_stall (snd (snd (read_service 0 0 64 400 open_dram))) 100 = 0"
proof -
  let ?r = "read_service 0 0 64 400 open_dram"
  have e: "?r = (fst ?r, fst (snd ?r), snd (snd ?r))" by simp
  have f: "400 = occupied_bytes_for open_dram 64 400 True" "400 < dm_bandwidth_available open_dram"
    "dm_pending_read_bytes open_dram = 0" "dm_pending_write_bytes open_dram = 0"
    "dm_bandwidth_available open_dram = 1000" "dm_bw_window_size_cycles open_dram = 1000"
    "dm_current_cycle open_dram = 0" "dm_bw_window_start open_dram = 0" by code_simp+
  show ?thesis unfolding bandwidth_charged_twice [OF f(1-4) e] f(5-8) by simp
qed

end
