(* ===== verification/Rounding.thy ===== *)
theory Rounding
  imports Prelude
begin

text \<open>
  Configurable rounding (\<open>rounding.h\<close>, \<open>rounding.c\<close>): the three modes, the xorshift128+ generator
  behind stochastic rounding, and the two routines that round a mantissa.

  The global mode, the generator's two words and the subnormal mode of \<open>tu_precision.c\<close> are one
  record passed through. A uniform double is the top 53 bits of a random word over \<open>2 ^ 53\<close>; both
  sides of its comparison with a fraction are dyadic and exact in binary64, so the comparison is one
  of natural numbers here.
\<close>

section \<open>Global state\<close>

datatype tu_rounding_mode = TU_ROUND_RNE | TU_ROUND_RTZ | TU_ROUND_STOCHASTIC | TU_ROUND_COUNT

datatype tu_subnormal_mode = TU_SUBNORMAL_FULL | TU_SUBNORMAL_FLUSH

record fp_env =
  fe_mode :: tu_rounding_mode
  fe_s0 :: u64
  fe_s1 :: u64
  fe_subnormal :: tu_subnormal_mode

text \<open>The static initialisers.\<close>

definition fp_env0 :: fp_env where
  "fp_env0 = \<lparr>fe_mode = TU_ROUND_RNE, fe_s0 = 0xDEADBEEFCAFEBABE, fe_s1 = 0x0123456789ABCDEF,
     fe_subnormal = TU_SUBNORMAL_FLUSH\<rparr>"

definition tu_set_rounding_mode :: "tu_rounding_mode \<Rightarrow> fp_env \<Rightarrow> fp_env" where
  "tu_set_rounding_mode mode e = e\<lparr>fe_mode := mode\<rparr>"

definition tu_get_rounding_mode :: "fp_env \<Rightarrow> tu_rounding_mode" where
  "tu_get_rounding_mode e = fe_mode e"

section \<open>The generator\<close>

text \<open>One round of splitmix64, used twice to seed the two words.\<close>

definition splitmix :: "u64 \<Rightarrow> u64" where
  "splitmix seed =
    (let z = seed + 0x9E3779B97F4A7C15;
         z = (z XOR drop_bit 30 z) * 0xBF58476D1CE4E5B9;
         z = (z XOR drop_bit 27 z) * 0x94D049BB133111EB
     in z XOR drop_bit 31 z)"

definition tu_stochastic_set_seed :: "u64 \<Rightarrow> fp_env \<Rightarrow> fp_env" where
  "tu_stochastic_set_seed seed e =
    (let a = splitmix seed in e\<lparr>fe_s0 := a, fe_s1 := splitmix a\<rparr>)"

definition prng_next :: "fp_env \<Rightarrow> u64 \<times> fp_env" where
  "prng_next e =
    (let s1 = fe_s0 e;
         s0 = fe_s1 e;
         s1 = s1 XOR push_bit 23 s1;
         n = s1 XOR s0 XOR drop_bit 18 s1 XOR drop_bit 5 s0
     in (n + s0, e\<lparr>fe_s0 := s0, fe_s1 := n\<rparr>))"

text \<open>The uniform double, as the number of its \<open>2 ^ -53\<close> steps.\<close>

definition tu_stochastic_uniform :: "fp_env \<Rightarrow> nat \<times> fp_env" where
  "tu_stochastic_uniform e = (let (r, e) = prng_next e in (unat (drop_bit 11 r), e))"

section \<open>Rounding a mantissa\<close>

text \<open>
  The switch on the mode: whether the kept part is incremented, for the discarded part
  \<open>fractional\<close> of \<open>shift\<close> bits. Random bits are drawn only when there is something to round.
\<close>

definition round_up :: "u32 \<Rightarrow> u32 \<Rightarrow> nat \<Rightarrow> fp_env \<Rightarrow> bool \<times> fp_env" where
  "round_up integer_part fractional shift e =
    (let half = push_bit (shift - 1) 1 in
     case fe_mode e of
       TU_ROUND_RNE \<Rightarrow>
         (fractional > half \<or> fractional = half \<and> integer_part AND 1 \<noteq> 0, e)
     | TU_ROUND_RTZ \<Rightarrow> (False, e)
     | TU_ROUND_STOCHASTIC \<Rightarrow>
         if fractional > 0
         then let (u, e) = tu_stochastic_uniform e in (u * 2 ^ shift < unat fractional * 2 ^ 53, e)
         else (False, e)
     | TU_ROUND_COUNT \<Rightarrow> (False, e))"

text \<open>The result, the carry, and the state. Shifts by 32 and more are undefined in C and not used.\<close>

definition tu_round_apply :: "u32 \<Rightarrow> int \<Rightarrow> fp_env \<Rightarrow> u32 \<times> bool \<times> fp_env" where
  "tu_round_apply mantissa target_bits e =
    (if target_bits \<le> 0 then (0, False, e)
     else
       let shift = nat target_bits;
           integer_part = drop_bit shift mantissa;
           fractional = mantissa AND (push_bit shift 1 - 1);
           (up, e) = round_up integer_part fractional shift e;
           result = (if up then integer_part + 1 else integer_part);
           max_val = push_bit shift 1
       in if result \<ge> max_val then (drop_bit 1 result, True, e) else (result, False, e))"

definition tu_round_fp32_to_mantissa :: "u32 \<Rightarrow> int \<Rightarrow> fp_env \<Rightarrow> u32 \<times> bool \<times> fp_env" where
  "tu_round_fp32_to_mantissa fp32_mantissa target_bits e =
    (let discard_bits = 23 - target_bits in
     if discard_bits \<le> 0 then (fp32_mantissa, False, e)
     else
       let shift = nat discard_bits;
           integer_part = drop_bit shift fp32_mantissa;
           fractional = fp32_mantissa AND (push_bit shift 1 - 1);
           (up, e) = round_up integer_part fractional shift e;
           result = (if up then integer_part + 1 else integer_part);
           max_val = push_bit (nat target_bits) 1
       in if result \<ge> max_val then (drop_bit 1 result, True, e) else (result, False, e))"

section \<open>What rounding computes\<close>

text \<open>\<open>r\<close> is \<open>m\<close> in units of \<open>2 ^ d\<close>, rounded to the nearest integer with ties to even.\<close>

definition nearest_even :: "nat \<Rightarrow> nat \<Rightarrow> nat \<Rightarrow> bool" where
  "nearest_even d m r \<longleftrightarrow>
     2 * \<bar>int r * 2 ^ d - int m\<bar> \<le> 2 ^ d \<and>
     (2 * \<bar>int r * 2 ^ d - int m\<bar> = 2 ^ d \<longrightarrow> even r)"

text \<open>The rounded mantissa: a carry stands for the power of two above the kept bits.\<close>

definition rounded_value :: "nat \<Rightarrow> u32 \<times> bool \<times> fp_env \<Rightarrow> nat" where
  "rounded_value t r = (case r of (m, carry, e) \<Rightarrow> if carry then 2 ^ t else unat m)"

lemma unat_one_shift: "k < LENGTH('a) \<Longrightarrow> unat (2 ^ k :: 'a::len word) = 2 ^ k"
  using unat_push_bit [where w = "1 :: 'a word" and n = k] by simp

lemma unat_and_ones': "unat (w AND 2 ^ n - 1) = unat w mod 2 ^ n" for w :: "'a::len word"
  using unat_and_ones [of w n] by simp

lemma round_up_exact: "d \<le> 32 \<Longrightarrow> 0 < d \<Longrightarrow> round_up i 0 d e = (False, e)"
proof -
  assume d: "d \<le> 32" "0 < d"
  have "unat (2 ^ (d - 1) :: u32) = 2 ^ (d - 1)" by (rule unat_one_shift) (use d in simp)
  then have "(2 ^ (d - 1) :: u32) \<noteq> 0" by (metis unat_0 power_not_zero zero_neq_numeral)
  then show ?thesis by (simp add: round_up_def Let_def split: tu_rounding_mode.split)
qed

lemma round_up_rne:
  assumes "fe_mode e = TU_ROUND_RNE" "0 < d" "d \<le> 32"
  shows "round_up i f d e = (2 * unat f > 2 ^ d \<or> 2 * unat f = 2 ^ d \<and> odd (unat i), e)"
proof -
  have half: "unat (2 ^ (d - 1) :: u32) = 2 ^ (d - 1)" by (rule unat_one_shift) (use assms in simp)
  have d: "(2::nat) ^ d = 2 * 2 ^ (d - 1)" using assms(2) by (cases d) auto
  have "2 ^ (d - 1) < f \<longleftrightarrow> 2 * unat f > 2 ^ d"
    unfolding word_less_nat_alt half d by simp
  moreover have "f = 2 ^ (d - 1) \<longleftrightarrow> 2 * unat f = 2 ^ d"
    unfolding word_unat_eq_iff half d by simp
  moreover have "i AND 1 \<noteq> 0 \<longleftrightarrow> odd (unat i)"
    using unat_and_mask [of 1 1 i] by (simp add: odd_iff_mod_2_eq_one unat_zero_iff del: unat_eq_0)
  ultimately show ?thesis using assms(1) by (simp add: round_up_def Let_def)
qed

lemma round_up_rtz: "fe_mode e = TU_ROUND_RTZ \<Longrightarrow> round_up i f d e = (False, e)"
  by (simp add: round_up_def Let_def)

text \<open>A rounding routine in natural numbers: kept part, decision, carry.\<close>

lemma round_mantissa_cases:
  assumes m: "unat m < 2 ^ 23" and t: "0 < t" "t < 23"
    and up: "round_up (drop_bit (23 - t) m) (m AND (push_bit (23 - t) 1 - 1)) (23 - t) e = (up, e')"
  defines "r \<equiv> tu_round_fp32_to_mantissa m (int t) e"
  shows "rounded_value t r = unat m div 2 ^ (23 - t) + (if up then 1 else 0)"
    and "snd (snd r) = e'"
    and "fst (snd r) \<longleftrightarrow> rounded_value t r = 2 ^ t"
    and "rounded_value t r \<le> 2 ^ t"
proof -
  let ?d = "23 - t" and ?q = "unat m div 2 ^ (23 - t)"
  have q: "?q < 2 ^ t"
  proof -
    have "(2::nat) ^ 23 = 2 ^ t * 2 ^ ?d" using t by (simp flip: power_add)
    then show ?thesis using m by (simp add: less_mult_imp_div_less)
  qed
  have p: "(2::nat) ^ t \<le> 2 ^ 22" by (rule power_increasing) (use t in auto)
  define R where "R = (if up then drop_bit ?d m + 1 else drop_bit ?d m)"
  have R: "unat R = ?q + (if up then 1 else 0)"
    using q p unfolding R_def by (auto simp: unat_drop_bit u32_add_exact)
  have M: "unat (2 ^ t :: u32) = 2 ^ t" by (rule unat_one_shift) (use t in simp)
  have r: "r = (if R \<ge> 2 ^ t then (drop_bit 1 R, True, e') else (R, False, e'))"
    using t up unfolding r_def tu_round_fp32_to_mantissa_def R_def
    by (simp add: Let_def nat_diff_distrib)
  have ge: "R \<ge> 2 ^ t \<longleftrightarrow> unat R \<ge> 2 ^ t" by (simp add: word_le_nat_alt M)
  show "rounded_value t r = ?q + (if up then 1 else 0)"
    using q R unfolding r ge rounded_value_def by auto
  then show "rounded_value t r \<le> 2 ^ t" using q by auto
  show "snd (snd r) = e'" unfolding r by simp
  show "fst (snd r) \<longleftrightarrow> rounded_value t r = 2 ^ t"
    using q R unfolding r ge rounded_value_def by auto
qed

lemma nearest_even_div:
  fixes d m
  defines "q \<equiv> m div 2 ^ d" and "r \<equiv> m mod 2 ^ d"
  shows "nearest_even d m (q + (if 2 * r > 2 ^ d \<or> 2 * r = 2 ^ d \<and> odd q then 1 else 0))"
proof -
  define P where "P = int (2 ^ d)"
  have "m = q * 2 ^ d + r" unfolding q_def r_def by (rule div_mult_mod_eq [symmetric])
  then have m: "int m = int q * P + int r" unfolding P_def by (metis of_nat_add of_nat_mult)
  have r: "int r < P" unfolding r_def P_def of_nat_less_iff by simp
  have *: "2 * r > 2 ^ d \<longleftrightarrow> 2 * int r > P" "2 * r = 2 ^ d \<longleftrightarrow> 2 * int r = P"
    unfolding P_def by linarith+
  have up: "\<bar>int (q + 1) * P - int m\<bar> = P - int r" using r by (simp add: m distrib_right)
  have down: "\<bar>int (q + 0) * P - int m\<bar> = int r" by (simp add: m)
  have P: "(2 :: int) ^ d = P" by (simp add: P_def)
  show ?thesis unfolding nearest_even_def P * using up down
    by (cases "2 * int r > P \<or> 2 * int r = P \<and> odd q") (simp_all only: if_True if_False, auto)
qed

text \<open>Whatever the mode, a multiple of the target's unit is not changed and draws no random bits.\<close>

lemma round_mantissa_exact:
  assumes "unat m < 2 ^ 23" "0 < t" "t < 23" "2 ^ (23 - t) dvd unat m"
  shows "tu_round_fp32_to_mantissa m (int t) e = (drop_bit (23 - t) m, False, e)"
proof -
  let ?d = "23 - t"
  have z: "m AND (push_bit ?d 1 - 1) = 0"
    using unat_and_ones [of m ?d] assms(4) by (metis dvd_imp_mod_0 unat_zero_iff)
  have up: "round_up (drop_bit ?d m) (m AND (push_bit ?d 1 - 1)) ?d e = (False, e)"
    unfolding z by (rule round_up_exact) (use assms(2,3) in auto)
  have "unat m div 2 ^ ?d < 2 ^ t"
  proof -
    have "(2::nat) ^ 23 = 2 ^ t * 2 ^ ?d" using assms(3) by (simp flip: power_add)
    then show ?thesis using assms(1) by (simp add: less_mult_imp_div_less)
  qed
  then have "\<not> drop_bit ?d m \<ge> 2 ^ t"
    using assms(3) by (simp add: word_le_nat_alt unat_drop_bit unat_one_shift)
  then show ?thesis
    using up assms(3) unfolding tu_round_fp32_to_mantissa_def
    by (simp add: Let_def nat_diff_distrib)
qed

text \<open>
  Rounding a binary32 mantissa to \<open>t\<close> bits: in the default mode the result is the nearest multiple
  of the unit with ties to even; toward zero it is the truncation; stochastic rounding takes one of
  the two neighbours. A carry is reported exactly when the result is the next power of two, and only
  stochastic rounding of an inexact mantissa advances the random generator.
\<close>

lemma mantissa_rounding:
  fixes m :: u32 and t :: nat and e :: fp_env
  assumes "unat m < 2 ^ 23" "0 < t" "t < 23"
  defines "r \<equiv> tu_round_fp32_to_mantissa m (int t) e" and "q \<equiv> unat m div 2 ^ (23 - t)"
  shows "(fe_mode e = TU_ROUND_RNE \<longrightarrow> nearest_even (23 - t) (unat m) (rounded_value t r)) \<and>
         (fe_mode e = TU_ROUND_RTZ \<longrightarrow> rounded_value t r = q) \<and>
         (rounded_value t r = q \<or> rounded_value t r = q + 1 \<and> \<not> 2 ^ (23 - t) dvd unat m) \<and>
         (fst (snd r) \<longleftrightarrow> rounded_value t r = 2 ^ t) \<and>
         (fe_mode e = TU_ROUND_STOCHASTIC \<and> \<not> 2 ^ (23 - t) dvd unat m \<or> snd (snd r) = e)"
proof -
  let ?d = "23 - t"
  obtain up e' where up: "round_up (drop_bit ?d m) (m AND (push_bit ?d 1 - 1)) ?d e = (up, e')"
    by (metis surj_pair)
  note c = round_mantissa_cases [OF assms(1-3) up, folded r_def q_def]
  have rne: "up = (2 * (unat m mod 2 ^ ?d) > 2 ^ ?d \<or> 2 * (unat m mod 2 ^ ?d) = 2 ^ ?d \<and> odd q)"
    if "fe_mode e = TU_ROUND_RNE"
    using up that assms(3) by (simp add: round_up_rne unat_and_ones' unat_drop_bit q_def)
  have rtz: "\<not> up" if "fe_mode e = TU_ROUND_RTZ" using up that by (simp add: round_up_rtz)
  have exact: "\<not> up \<and> e' = e" if "2 ^ ?d dvd unat m"
  proof -
    have "m AND (push_bit ?d 1 - 1) = 0"
      using unat_and_ones [of m ?d] that by (metis dvd_imp_mod_0 unat_zero_iff)
    then show ?thesis using up round_up_exact [of ?d] assms(2,3) by simp
  qed
  have env: "e' = e" if "fe_mode e \<noteq> TU_ROUND_STOCHASTIC"
    using up that by (cases "fe_mode e") (simp_all add: round_up_def Let_def)
  show ?thesis
  proof (intro conjI)
    show "fe_mode e = TU_ROUND_RNE \<longrightarrow> nearest_even ?d (unat m) (rounded_value t r)"
      using nearest_even_div [of ?d "unat m"] rne c(1) unfolding q_def by simp
    show "rounded_value t r = q \<or> rounded_value t r = q + 1 \<and> \<not> 2 ^ ?d dvd unat m"
      using c(1) exact by auto
    show "fe_mode e = TU_ROUND_STOCHASTIC \<and> \<not> 2 ^ ?d dvd unat m \<or> snd (snd r) = e"
      using c(2) exact env by auto
  qed (use c rtz in auto)
qed

end
