(* ===== verification/Float_Formats.thy ===== *)
theory Float_Formats
  imports Rounding
begin

text \<open>
  Conversions between binary32 and the narrow formats (\<open>tu_precision.c\<close>, \<open>tf32.c\<close>): FP16, BF16 and
  TF32. A \<open>float\<close> is its bit pattern; the conversions work on the patterns as the C code does.
\<close>

section \<open>binary32 patterns\<close>

definition f32_sign :: "u32 \<Rightarrow> u32" where "f32_sign b = drop_bit 31 b AND 1"
definition f32_exp :: "u32 \<Rightarrow> u32" where "f32_exp b = drop_bit 23 b AND 0xFF"
definition f32_mant :: "u32 \<Rightarrow> u32" where "f32_mant b = b AND 0x7FFFFF"

text \<open>\<open>isnan\<close> and \<open>isinf\<close> of \<open>math.h\<close>.\<close>

definition f32_isnan :: "u32 \<Rightarrow> bool" where
  "f32_isnan b \<longleftrightarrow> f32_exp b = 0xFF \<and> f32_mant b \<noteq> 0"

definition f32_isinf :: "u32 \<Rightarrow> bool" where
  "f32_isinf b \<longleftrightarrow> f32_exp b = 0xFF \<and> f32_mant b = 0"

section \<open>FP16\<close>

definition tu_fp32_to_fp16 :: "u32 \<Rightarrow> fp_env \<Rightarrow> u16 \<times> fp_env" where
  "tu_fp32_to_fp16 bits e =
    (if f32_isnan bits then (0x7E00, e)
     else if f32_isinf bits then (if f32_sign bits = 0 then 0x7C00 else 0xFC00, e)
     else
       let sign = ucast (f32_sign bits) :: u16;
           exp = int (unat (f32_exp bits)) - 127;
           mant = f32_mant bits
       in if exp > 15 then (push_bit 15 sign OR 0x7C00, e)
          else if exp < - 25 then (push_bit 15 sign, e)
          else if exp \<le> - 15 then
            if fe_subnormal e = TU_SUBNORMAL_FLUSH then (push_bit 15 sign, e)
            else
              let shift = nat (- 14 - exp);
                  m = drop_bit shift (mant OR 0x800000);
                  discarded = mant AND (push_bit shift 1 - 1);
                  rounding_val = push_bit shift m OR discarded;
                  (m, carry, e) = tu_round_apply rounding_val 10 e;
                  m = (if carry then 0x200 else m)
              in (push_bit 15 sign OR ucast (m AND 0x3FF), e)
          else
            let (m_rounded, carry, e) = tu_round_fp32_to_mantissa mant 10 e;
                ex = (word_of_int (exp + 15) :: u16);
                (m_rounded, ex) = (if carry then (0, ex + 1) else (m_rounded, ex))
            in if ex > 31 then (push_bit 15 sign OR 0x7C00, e)
               else (push_bit 15 sign OR push_bit 10 ex OR ucast (m_rounded AND 0x3FF), e))"

text \<open>
  The loop that normalises a subnormal mantissa, with fuel. Ten rounds are enough for the ten bits
  of a nonzero mantissa: \<open>fp16_normalise_done\<close> shows that its condition is then false.
\<close>

fun fp16_normalise :: "nat \<Rightarrow> u32 \<Rightarrow> int \<Rightarrow> u32 \<times> int" where
  "fp16_normalise 0 m ex = (m, ex)"
| "fp16_normalise (Suc k) m ex =
    (if m AND 0x400 = 0 then fp16_normalise k (push_bit 1 m) (ex - 1) else (m, ex))"

definition tu_fp16_to_fp32 :: "u16 \<Rightarrow> u32" where
  "tu_fp16_to_fp32 h =
    (let sign = ucast (drop_bit 15 h AND 1) :: u32;
         ex = ucast (drop_bit 10 h AND 0x1F) :: u32;
         mant = ucast (h AND 0x3FF) :: u32
     in if ex = 0 then
          if mant = 0 then push_bit 31 sign
          else let (m, x) = fp16_normalise 10 mant (- 14)
               in push_bit 31 sign OR push_bit 23 (word_of_int (x + 127)) OR push_bit 13 (m AND 0x3FF)
        else if ex = 0x1F then push_bit 31 sign OR push_bit 23 0xFF OR push_bit 13 mant
        else push_bit 31 sign OR push_bit 23 (ex - 15 + 127) OR push_bit 13 mant)"

section \<open>BF16\<close>

definition tu_bf16_to_fp32 :: "u16 \<Rightarrow> u32" where
  "tu_bf16_to_fp32 h = push_bit 16 (ucast h)"

definition tu_fp32_to_bf16 :: "u32 \<Rightarrow> fp_env \<Rightarrow> u16 \<times> fp_env" where
  "tu_fp32_to_bf16 bits e =
    (let exp = int (unat (f32_exp bits)) - 127;
         mant = f32_mant bits
     in if bits AND 0x7F800000 = 0x7F800000 then (ucast (drop_bit 16 bits), e)
        else
          let (r_mant, carry, e) = tu_round_fp32_to_mantissa mant 7 e;
              sign = ucast (f32_sign bits) :: u16;
              x = exp + 127;
              (r_mant, x) = (if carry then (0, x + 1) else (r_mant, x))
          in if x \<ge> 255 then (push_bit 15 sign OR 0x7F80, e)
             else if x \<le> 0 then (push_bit 15 sign, e)
             else (push_bit 15 sign OR push_bit 7 (word_of_int x) OR ucast (r_mant AND 0x7F), e))"

section \<open>TF32\<close>

definition tu_tf32_to_fp32 :: "u32 \<Rightarrow> u32" where
  "tu_tf32_to_fp32 v = v AND 0xFFFFE000"

text \<open>The rounding decision; here random bits are drawn even when nothing is discarded.\<close>

definition tf32_up :: "u32 \<Rightarrow> fp_env \<Rightarrow> bool \<times> fp_env" where
  "tf32_up mantissa e =
    (let tf32_mant = drop_bit 13 mantissa;
         round_bit = drop_bit 12 mantissa AND 1;
         sticky = mantissa AND 0xFFF;
         rne = (round_bit \<noteq> 0 \<and> (sticky > 0 \<or> tf32_mant AND 1 \<noteq> 0))
     in case fe_mode e of
          TU_ROUND_RNE \<Rightarrow> (rne, e)
        | TU_ROUND_RTZ \<Rightarrow> (False, e)
        | TU_ROUND_STOCHASTIC \<Rightarrow>
            let (u, e) = tu_stochastic_uniform e
            in (u * 8192 < unat (push_bit 12 round_bit OR (sticky AND 0xFFF)) * 2 ^ 53, e)
        | TU_ROUND_COUNT \<Rightarrow> (rne, e))"

definition tu_fp32_to_tf32 :: "u32 \<Rightarrow> fp_env \<Rightarrow> u32 \<times> fp_env" where
  "tu_fp32_to_tf32 bits e =
    (let sign = f32_sign bits;
         ex = f32_exp bits
     in if ex = 0xFF then (bits AND 0xFFFFE000, e)
        else if ex = 0 \<and> bits AND 0x7FFFFF = 0 then (bits AND 0x80000000, e)
        else
          let mantissa = bits AND 0x7FFFFF;
              tf32_mant = drop_bit 13 mantissa;
              (up, e) = tf32_up mantissa e;
              tf32_mant = (if up then tf32_mant + 1 else tf32_mant);
              (tf32_mant, ex) = (if tf32_mant \<ge> 0x400 then (0, ex + 1) else (tf32_mant, ex))
          in if ex \<ge> 0xFF then (push_bit 31 sign OR 0x7F800000, e)
             else (push_bit 31 sign OR push_bit 23 ex OR push_bit 13 tf32_mant, e))"

definition tu_tf32_to_fp16 :: "u32 \<Rightarrow> fp_env \<Rightarrow> u16 \<times> fp_env" where
  "tu_tf32_to_fp16 v = tu_fp32_to_fp16 (tu_tf32_to_fp32 v)"

definition tu_fp16_to_tf32 :: "u16 \<Rightarrow> fp_env \<Rightarrow> u32 \<times> fp_env" where
  "tu_fp16_to_tf32 v = tu_fp32_to_tf32 (tu_fp16_to_fp32 v)"

definition tu_tf32_to_bf16 :: "u32 \<Rightarrow> fp_env \<Rightarrow> u16 \<times> fp_env" where
  "tu_tf32_to_bf16 v = tu_fp32_to_bf16 (tu_tf32_to_fp32 v)"

definition tu_bf16_to_tf32 :: "u16 \<Rightarrow> fp_env \<Rightarrow> u32 \<times> fp_env" where
  "tu_bf16_to_tf32 v = tu_fp32_to_tf32 (tu_bf16_to_fp32 v)"

section \<open>Buffers\<close>

text \<open>The batch conversions run through a buffer with the state of the rounding module.\<close>

fun convert_buffer :: "('a \<Rightarrow> fp_env \<Rightarrow> 'b \<times> fp_env) \<Rightarrow> 'a list \<Rightarrow> fp_env \<Rightarrow> 'b list \<times> fp_env" where
  "convert_buffer f [] e = ([], e)"
| "convert_buffer f (x # xs) e =
    (let (y, e) = f x e; (ys, e) = convert_buffer f xs e in (y # ys, e))"

definition tu_fp32_to_fp16_buffer :: "u32 list \<Rightarrow> fp_env \<Rightarrow> u16 list \<times> fp_env" where
  "tu_fp32_to_fp16_buffer = convert_buffer tu_fp32_to_fp16"

definition tu_fp16_to_fp32_buffer :: "u16 list \<Rightarrow> u32 list" where
  "tu_fp16_to_fp32_buffer = map tu_fp16_to_fp32"

definition tu_fp32_to_bf16_buffer :: "u32 list \<Rightarrow> fp_env \<Rightarrow> u16 list \<times> fp_env" where
  "tu_fp32_to_bf16_buffer = convert_buffer tu_fp32_to_bf16"

definition tu_bf16_to_fp32_buffer :: "u16 list \<Rightarrow> u32 list" where
  "tu_bf16_to_fp32_buffer = map tu_bf16_to_fp32"

definition tu_fp32_to_tf32_buffer :: "u32 list \<Rightarrow> fp_env \<Rightarrow> u32 list \<times> fp_env" where
  "tu_fp32_to_tf32_buffer = convert_buffer tu_fp32_to_tf32"

definition tu_tf32_to_fp32_buffer :: "u32 list \<Rightarrow> u32 list" where
  "tu_tf32_to_fp32_buffer = map tu_tf32_to_fp32"

section \<open>Fields\<close>

text \<open>Splitting a number into three digits and back.\<close>

lemma split3: "n = n div (a * b) * (a * b) + n div a mod b * a + n mod a" for n :: nat
proof -
  have "n div (a * b) * b + n div a mod b = n div a" by (simp add: div_mult2_eq)
  then have "n div (a * b) * (a * b) + n div a mod b * a = n div a * a"
    by (metis (no_types, lifting) distrib_right mult.assoc mult.commute)
  then show ?thesis by simp
qed

lemma join3:
  fixes m :: nat
  assumes "m < a" "x < b"
  shows "(s * (a * b) + x * a + m) div (a * b) = s"
    and "(s * (a * b) + x * a + m) div a mod b = x"
    and "(s * (a * b) + x * a + m) mod a = m"
proof -
  have *: "s * (a * b) + x * a + m = (s * b + x) * a + m" by (simp add: algebra_simps)
  have d: "(s * (a * b) + x * a + m) div a = s * b + x" unfolding * using assms(1) by simp
  show "(s * (a * b) + x * a + m) div (a * b) = s" using assms(2) by (simp add: div_mult2_eq d)
  show "(s * (a * b) + x * a + m) div a mod b = x" using assms(2) by (simp add: d)
  show "(s * (a * b) + x * a + m) mod a = m" unfolding * using assms(1) by simp
qed

lemma f32_fields:
  "unat (f32_sign b) = unat b div 2147483648"
  "unat (f32_exp b) = unat b div 8388608 mod 256"
  "unat (f32_mant b) = unat b mod 8388608"
proof -
  have "unat b div 2147483648 < 2" using unat_u32_less [of b] by linarith
  then show "unat (f32_sign b) = unat b div 2147483648"
    unfolding f32_sign_def by (subst unat_and_mask [where n = 1]) (simp_all add: unat_drop_bit mask_eq_exp_minus_1)
  show "unat (f32_exp b) = unat b div 8388608 mod 256"
    unfolding f32_exp_def by (subst unat_and_mask [where n = 8]) (simp_all add: unat_drop_bit mask_eq_exp_minus_1)
  show "unat (f32_mant b) = unat b mod 8388608"
    unfolding f32_mant_def by (subst unat_and_mask [where n = 23]) (simp_all add: mask_eq_exp_minus_1)
qed

lemma f32_field_bounds:
  "unat (f32_sign b) < 2" "unat (f32_exp b) < 256" "unat (f32_mant b) < 8388608"
  using unat_u32_less [of b] unfolding f32_fields by (simp_all add: less_mult_imp_div_less)

lemma f32_split: "unat b = unat (f32_sign b) * 2147483648 + unat (f32_exp b) * 8388608 + unat (f32_mant b)"
  unfolding f32_fields using split3 [of "unat b" 8388608 256] by simp

lemma f32_eqI:
  "f32_sign a = f32_sign b \<Longrightarrow> f32_exp a = f32_exp b \<Longrightarrow> f32_mant a = f32_mant b \<Longrightarrow> a = b"
  using f32_split [of a] f32_split [of b] by (simp add: word_unat_eq_iff)

text \<open>Patterns put together from fields.\<close>

lemma f32_pack_unat:
  assumes "unat s < 2" "unat x < 256" "unat m < 8388608"
  shows "unat (push_bit 31 s OR push_bit 23 x OR m :: u32) =
         unat s * 2147483648 + unat x * 8388608 + unat m"
proof -
  have s: "unat (push_bit 31 s) = unat s * 2147483648" by (subst unat_push_bit) (use assms in auto)
  have x: "unat (push_bit 23 x) = unat x * 8388608" by (subst unat_push_bit) (use assms in auto)
  have xm: "unat (push_bit 23 x OR m) = unat x * 8388608 + unat m"
    by (subst unat_or_disjoint [where n = 23]) (use assms x in auto)
  show ?thesis
    by (subst unat_or_disjoint [where n = 31]) (use assms s xm in auto)
qed

lemma f32_pack:
  assumes "unat s < 2" "unat x < 256" "unat m < 8388608"
  defines "b \<equiv> push_bit 31 s OR push_bit 23 x OR m :: u32"
  shows "f32_sign b = s" "f32_exp b = x" "f32_mant b = m"
proof -
  note b = f32_pack_unat [OF assms(1-3), folded b_def]
  show "f32_sign b = s" unfolding word_unat_eq_iff f32_fields b
    using join3 [OF assms(3,2)] by simp
  show "f32_exp b = x" unfolding word_unat_eq_iff f32_fields b
    using join3 [OF assms(3,2)] by simp
  show "f32_mant b = m" unfolding word_unat_eq_iff f32_fields b
    using join3 [OF assms(3,2)] by simp
qed

definition f16_sign :: "u16 \<Rightarrow> u16" where "f16_sign h = drop_bit 15 h AND 1"
definition f16_exp :: "u16 \<Rightarrow> u16" where "f16_exp h = drop_bit 10 h AND 0x1F"
definition f16_mant :: "u16 \<Rightarrow> u16" where "f16_mant h = h AND 0x3FF"

lemma f16_fields:
  "unat (f16_sign h) = unat h div 32768"
  "unat (f16_exp h) = unat h div 1024 mod 32"
  "unat (f16_mant h) = unat h mod 1024"
proof -
  have "unat h div 32768 < 2" using unat_u16_less [of h] by linarith
  then show "unat (f16_sign h) = unat h div 32768"
    unfolding f16_sign_def by (subst unat_and_mask [where n = 1]) (simp_all add: unat_drop_bit mask_eq_exp_minus_1)
  show "unat (f16_exp h) = unat h div 1024 mod 32"
    unfolding f16_exp_def by (subst unat_and_mask [where n = 5]) (simp_all add: unat_drop_bit mask_eq_exp_minus_1)
  show "unat (f16_mant h) = unat h mod 1024"
    unfolding f16_mant_def by (subst unat_and_mask [where n = 10]) (simp_all add: mask_eq_exp_minus_1)
qed

lemma f16_field_bounds:
  "unat (f16_sign h) < 2" "unat (f16_exp h) < 32" "unat (f16_mant h) < 1024"
  using unat_u16_less [of h] unfolding f16_fields by (simp_all add: less_mult_imp_div_less)

lemma f16_split: "unat h = unat (f16_sign h) * 32768 + unat (f16_exp h) * 1024 + unat (f16_mant h)"
  unfolding f16_fields using split3 [of "unat h" 1024 32] by simp

lemma f16_pack_unat:
  assumes "unat s < 2" "unat x < 32" "unat m < 1024"
  shows "unat (push_bit 15 s OR push_bit 10 x OR m :: u16) =
         unat s * 32768 + unat x * 1024 + unat m"
proof -
  have s: "unat (push_bit 15 s) = unat s * 32768" by (subst unat_push_bit) (use assms in auto)
  have x: "unat (push_bit 10 x) = unat x * 1024" by (subst unat_push_bit) (use assms in auto)
  have xm: "unat (push_bit 10 x OR m) = unat x * 1024 + unat m"
    by (subst unat_or_disjoint [where n = 10]) (use assms x in auto)
  show ?thesis
    by (subst unat_or_disjoint [where n = 15]) (use assms s xm in auto)
qed

lemma f16_pack:
  assumes "unat s < 2" "unat x < 32" "unat m < 1024"
  defines "h \<equiv> push_bit 15 s OR push_bit 10 x OR m :: u16"
  shows "f16_sign h = s" "f16_exp h = x" "f16_mant h = m"
proof -
  note h = f16_pack_unat [OF assms(1-3), folded h_def]
  show "f16_sign h = s" unfolding word_unat_eq_iff f16_fields h
    using join3 [OF assms(3,2)] by simp
  show "f16_exp h = x" unfolding word_unat_eq_iff f16_fields h
    using join3 [OF assms(3,2)] by simp
  show "f16_mant h = m" unfolding word_unat_eq_iff f16_fields h
    using join3 [OF assms(3,2)] by simp
qed

lemma f16_pack_self: "push_bit 15 (f16_sign h) OR push_bit 10 (f16_exp h) OR f16_mant h = h"
  unfolding word_unat_eq_iff by (subst f16_pack_unat) (simp_all add: f16_field_bounds flip: f16_split)

lemma f32_pack_self: "push_bit 31 (f32_sign b) OR push_bit 23 (f32_exp b) OR f32_mant b = b"
  unfolding word_unat_eq_iff by (subst f32_pack_unat) (simp_all add: f32_field_bounds flip: f32_split)

section \<open>Widening a half is exact\<close>

text \<open>Finite patterns as integers: a half in units of \<open>2 ^ -24\<close>, a float in units of \<open>2 ^ -149\<close>.\<close>

definition f16_units :: "u16 \<Rightarrow> int" where
  "f16_units h = (if f16_sign h = 0 then 1 else - 1) *
     (if f16_exp h = 0 then int (unat (f16_mant h))
      else (1024 + int (unat (f16_mant h))) * 2 ^ (unat (f16_exp h) - 1))"

definition f32_units :: "u32 \<Rightarrow> int" where
  "f32_units b = (if f32_sign b = 0 then 1 else - 1) *
     (if f32_exp b = 0 then int (unat (f32_mant b))
      else (8388608 + int (unat (f32_mant b))) * 2 ^ (unat (f32_exp b) - 1))"

lemma and_bit10: "unat m < 2048 \<Longrightarrow> m AND 0x400 = 0 \<longleftrightarrow> unat m < 1024" for m :: u32
proof -
  assume m: "unat m < 2048"
  have "m AND 0x400 = 0 \<longleftrightarrow> \<not> bit m 10" using and_exp_eq_0_iff_not_bit [of m 10] by simp
  also have "\<dots> \<longleftrightarrow> unat (drop_bit 10 m AND 1) \<noteq> 1"
    unfolding bit_word_iff_drop_bit_and word_unat_eq_iff by simp
  also have "unat (drop_bit 10 m AND 1) = unat m div 1024 mod 2"
    by (subst unat_and_mask [where n = 1]) (simp_all add: unat_drop_bit)
  also have "unat m div 1024 mod 2 \<noteq> 1 \<longleftrightarrow> unat m < 1024" using m by (cases "unat m < 1024") (auto simp: div_nat_eqI)
  finally show ?thesis .
qed

lemma fp16_normalise_done:
  "1024 \<le> unat m * 2 ^ k \<Longrightarrow> unat m < 2048 \<Longrightarrow>
   \<exists>j m'. j \<le> k \<and> fp16_normalise k m x = (m', x - int j) \<and> unat m' = unat m * 2 ^ j \<and>
     1024 \<le> unat m' \<and> unat m' < 2048 \<and> m' AND 0x400 \<noteq> 0"
proof (induction k arbitrary: m x)
  case (Suc k)
  show ?case
  proof (cases "unat m < 1024")
    case True
    have s: "unat (push_bit 1 m) = unat m * 2" by (subst unat_push_bit) (use True in auto)
    have ih: "1024 \<le> unat (push_bit 1 m) * 2 ^ k" "unat (push_bit 1 m) < 2048"
      unfolding s using Suc.prems True by simp_all
    obtain j m' where "j \<le> k" "fp16_normalise k (push_bit 1 m) (x - 1) = (m', x - 1 - int j)"
      "unat m' = unat (push_bit 1 m) * 2 ^ j" "1024 \<le> unat m'" "unat m' < 2048" "m' AND 0x400 \<noteq> 0"
      using Suc.IH [OF ih, of "x - 1"] by blast
    then show ?thesis using True Suc.prems s
      by (intro exI [of _ "Suc j"] exI [of _ m']) (auto simp: and_bit10)
  next
    case False
    then show ?thesis using Suc.prems by (intro exI [of _ 0] exI [of _ m]) (auto simp: and_bit10)
  qed
qed (auto simp: and_bit10)

lemma widen_sign: "f16_sign h = 0 \<longleftrightarrow> (ucast (f16_sign h) :: u32) = 0"
  by (simp add: word_unat_eq_iff del: unat_eq_0)

lemma widen_normal:
  assumes "f16_exp h \<noteq> 0" "f16_exp h \<noteq> 31"
  shows "f32_sign (tu_fp16_to_fp32 h) = ucast (f16_sign h)"
    and "unat (f32_exp (tu_fp16_to_fp32 h)) = unat (f16_exp h) + 112"
    and "unat (f32_mant (tu_fp16_to_fp32 h)) = unat (f16_mant h) * 8192"
proof -
  let ?x = "ucast (f16_exp h) :: u32" and ?m = "push_bit 13 (ucast (f16_mant h)) :: u32"
  have x0: "?x \<noteq> 0" "?x \<noteq> 31"
    using assms by (simp_all add: word_unat_eq_iff del: unat_eq_0)
  have x: "unat (?x - 15 + 127) = unat (f16_exp h) + 112"
  proof -
    have "?x - 15 + 127 = ?x + 112" by simp
    moreover have "unat (f16_exp h) + 112 < 4294967296" using f16_field_bounds(2) [of h] by linarith
    ultimately show ?thesis by (simp add: u32_add_exact)
  qed
  have m: "unat ?m = unat (f16_mant h) * 8192" by (subst unat_push_bit) (use f16_field_bounds(3) [of h] in auto)
  have d: "tu_fp16_to_fp32 h = push_bit 31 (ucast (f16_sign h)) OR push_bit 23 (?x - 15 + 127) OR ?m"
    using x0 unfolding tu_fp16_to_fp32_def f16_sign_def [symmetric] f16_exp_def [symmetric] f16_mant_def [symmetric]
    by (simp add: Let_def)
  note p = f32_pack [of "ucast (f16_sign h)" "?x - 15 + 127" ?m, folded d]
  have b: "unat (ucast (f16_sign h) :: u32) < 2" "unat (?x - 15 + 127) < 256" "unat ?m < 8388608"
    unfolding x m using f16_field_bounds [of h] by simp_all
  show "f32_sign (tu_fp16_to_fp32 h) = ucast (f16_sign h)" using p(1) b by simp
  show "unat (f32_exp (tu_fp16_to_fp32 h)) = unat (f16_exp h) + 112" using p(2) [OF b] x by simp
  show "unat (f32_mant (tu_fp16_to_fp32 h)) = unat (f16_mant h) * 8192" using p(3) [OF b] m by simp
qed

lemma widen_subnormal:
  assumes "f16_exp h = 0" "f16_mant h \<noteq> 0"
  obtains j where "j \<le> 10" "f32_sign (tu_fp16_to_fp32 h) = ucast (f16_sign h)"
    "unat (f32_exp (tu_fp16_to_fp32 h)) = 113 - j"
    "unat (f32_mant (tu_fp16_to_fp32 h)) + 8388608 = unat (f16_mant h) * 2 ^ j * 8192"
proof -
  let ?M = "ucast (f16_mant h) :: u32"
  have M: "1 \<le> unat ?M" "unat ?M < 1024"
    using assms(2) f16_field_bounds(3) [of h] by (simp_all add: unat_zero_iff del: unat_eq_0)
  then obtain j m where j: "j \<le> 10" "fp16_normalise 10 ?M (- 14) = (m, - 14 - int j)"
      "unat m = unat ?M * 2 ^ j" "1024 \<le> unat m" "unat m < 2048"
  proof -
    have "1024 \<le> unat ?M * 2 ^ 10" "unat ?M < 2048" using M by simp_all
    from fp16_normalise_done [OF this, of "- 14"] show thesis using that by blast
  qed
  have x: "unat (word_of_int (- 14 - int j + 127) :: u32) = 113 - j"
  proof -
    have "- 14 - int j + 127 = int (113 - j)" using j(1) by simp
    then have "word_of_int (- 14 - int j + 127) = (of_nat (113 - j) :: u32)" by (simp only: of_int_of_nat_eq)
    then show ?thesis by (simp only:) (simp add: unsigned_of_nat take_bit_nat_eq_self)
  qed
  have lo: "unat (m AND 0x3FF) = unat m - 1024"
    by (subst unat_and_mask [where n = 10]) (use j(4,5) in \<open>simp_all add: mask_eq_exp_minus_1 le_mod_geq\<close>)
  have m: "unat (push_bit 13 (m AND 0x3FF)) = (unat m - 1024) * 8192"
    by (subst unat_push_bit) (use lo j(5) in auto)
  have M0: "?M \<noteq> 0" using M(1) by (auto simp: unat_zero_iff simp del: unat_eq_0)
  have x0: "(ucast (f16_exp h) :: u32) = 0" using assms(1) by simp
  have d: "tu_fp16_to_fp32 h = push_bit 31 (ucast (f16_sign h)) OR
      push_bit 23 (word_of_int (- 14 - int j + 127)) OR push_bit 13 (m AND 0x3FF)"
    using M0 x0 j(2) unfolding tu_fp16_to_fp32_def f16_sign_def [symmetric] f16_exp_def [symmetric] f16_mant_def [symmetric]
    by (simp add: Let_def)
  note p = f32_pack [of "ucast (f16_sign h)" "word_of_int (- 14 - int j + 127)" "push_bit 13 (m AND 0x3FF)", folded d]
  have b: "unat (ucast (f16_sign h) :: u32) < 2" "unat (word_of_int (- 14 - int j + 127) :: u32) < 256"
    "unat (push_bit 13 (m AND 0x3FF)) < 8388608"
    unfolding x m using f16_field_bounds [of h] j(5) by simp_all
  show ?thesis
  proof (rule that [OF j(1)])
    show "f32_sign (tu_fp16_to_fp32 h) = ucast (f16_sign h)" using p(1) b by simp
    show "unat (f32_exp (tu_fp16_to_fp32 h)) = 113 - j" using p(2) [OF b] x by simp
    have "unat (f32_mant (tu_fp16_to_fp32 h)) = (unat m - 1024) * 8192" using p(3) [OF b] m by simp
    then show "unat (f32_mant (tu_fp16_to_fp32 h)) + 8388608 = unat (f16_mant h) * 2 ^ j * 8192"
      using j(3,4) by (simp add: diff_mult_distrib)
  qed
qed


lemma widen_zero: "f16_exp h = 0 \<Longrightarrow> f16_mant h = 0 \<Longrightarrow> tu_fp16_to_fp32 h = push_bit 31 (ucast (f16_sign h))"
  unfolding tu_fp16_to_fp32_def f16_sign_def [symmetric] f16_exp_def [symmetric] f16_mant_def [symmetric]
  by (simp add: Let_def)

lemma widen_zero_fields:
  assumes "f16_exp h = 0" "f16_mant h = 0"
  shows "f32_sign (tu_fp16_to_fp32 h) = ucast (f16_sign h)" "f32_exp (tu_fp16_to_fp32 h) = 0"
    "f32_mant (tu_fp16_to_fp32 h) = 0"
  using f32_pack [of "ucast (f16_sign h)" 0 0] f16_field_bounds(1) [of h]
  by (simp_all add: widen_zero assms)

lemma widen_inf_fields:
  assumes "f16_exp h = 31"
  shows "f32_sign (tu_fp16_to_fp32 h) = ucast (f16_sign h)" "f32_exp (tu_fp16_to_fp32 h) = 255"
    "unat (f32_mant (tu_fp16_to_fp32 h)) = unat (f16_mant h) * 8192"
proof -
  let ?m = "push_bit 13 (ucast (f16_mant h)) :: u32"
  have m: "unat ?m = unat (f16_mant h) * 8192"
    by (subst unat_push_bit) (use f16_field_bounds(3) [of h] in auto)
  have d: "tu_fp16_to_fp32 h = push_bit 31 (ucast (f16_sign h)) OR push_bit 23 255 OR ?m"
    using assms unfolding tu_fp16_to_fp32_def f16_sign_def [symmetric] f16_exp_def [symmetric] f16_mant_def [symmetric]
    by (simp add: Let_def)
  have b: "unat (ucast (f16_sign h) :: u32) < 2" "unat (255 :: u32) < 256" "unat ?m < 8388608"
    unfolding m using f16_field_bounds [of h] by simp_all
  note p = f32_pack [OF b, folded d]
  show "f32_sign (tu_fp16_to_fp32 h) = ucast (f16_sign h)" "f32_exp (tu_fp16_to_fp32 h) = 255"
    "unat (f32_mant (tu_fp16_to_fp32 h)) = unat (f16_mant h) * 8192" using p m by simp_all
qed

text \<open>
  Widening a half to a float is exact: every finite half, subnormal or not, becomes the float of
  the same value, in units of \<open>2 ^ -149\<close>, and the result is finite.
\<close>

theorem fp16_widening_exact:
  assumes "f16_exp h \<noteq> 31"
  shows "f32_units (tu_fp16_to_fp32 h) = f16_units h * 2 ^ 125 \<and> f32_exp (tu_fp16_to_fp32 h) \<noteq> 255"
proof -
  let ?b = "tu_fp16_to_fp32 h"
  consider "f16_exp h \<noteq> 0" | "f16_exp h = 0" "f16_mant h = 0" | "f16_exp h = 0" "f16_mant h \<noteq> 0" by blast
  then show ?thesis
  proof cases
    case 1
    note w = widen_normal [OF 1 assms]
    have x: "unat (f16_exp h) \<noteq> 0" using 1 by (simp add: unat_zero_iff)
    have b: "f32_exp ?b \<noteq> 0" "f32_exp ?b \<noteq> 255"
      using w(2) f16_field_bounds(2) [of h] by auto
    have "(8388608 + int (unat (f32_mant ?b))) * 2 ^ (unat (f32_exp ?b) - 1) =
          (1024 + int (unat (f16_mant h))) * 2 ^ (unat (f16_exp h) - 1) * 2 ^ 125"
    proof -
      obtain n where n: "unat (f16_exp h) = Suc n" using x by (cases "unat (f16_exp h)") auto
      show ?thesis unfolding w(2,3) n by (simp add: power_add algebra_simps)
    qed
    then show ?thesis using 1 b widen_sign [of h] unfolding f16_units_def f32_units_def w(1) by simp
  next
    case 2
    then show ?thesis using widen_zero_fields [OF 2] by (simp add: f16_units_def f32_units_def)
  next
    case 3
    obtain j where j: "j \<le> 10" "f32_sign ?b = ucast (f16_sign h)" "unat (f32_exp ?b) = 113 - j"
      "unat (f32_mant ?b) + 8388608 = unat (f16_mant h) * 2 ^ j * 8192"
      by (rule widen_subnormal [OF 3])
    have b: "f32_exp ?b \<noteq> 0" "f32_exp ?b \<noteq> 255" using j(1,3) by auto
    have "(8388608 + int (unat (f32_mant ?b))) * 2 ^ (unat (f32_exp ?b) - 1) =
        int (unat (f16_mant h)) * 2 ^ 125"
    proof -
      have "8388608 + int (unat (f32_mant ?b)) = int (unat (f16_mant h)) * 2 ^ j * 8192"
        using arg_cong [OF j(4), of int] by (simp only: of_nat_add of_nat_mult of_nat_numeral of_nat_power add.commute)
      then have "(8388608 + int (unat (f32_mant ?b))) * 2 ^ (unat (f32_exp ?b) - 1) =
          int (unat (f16_mant h)) * (2 ^ j * 2 ^ 13 * 2 ^ (112 - j))" using j(3) by simp
      also have "2 ^ j * 2 ^ 13 * 2 ^ (112 - j) = (2 :: int) ^ 125" using j(1) by (simp flip: power_add)
      finally show ?thesis .
    qed
    then show ?thesis using 3 b j(2) widen_sign [of h] unfolding f16_units_def f32_units_def by simp
  qed
qed

theorem fp16_widening_exact_witness:
  "f32_units (tu_fp16_to_fp32 0x8001) = f16_units 0x8001 * 2 ^ 125 \<and> f16_units 0x8001 = - 1"
proof -
  have "f16_exp 0x8001 \<noteq> 31 \<and> f16_units 0x8001 = - 1" by code_simp
  then show ?thesis using fp16_widening_exact [of "0x8001"] by blast
qed

section \<open>Narrowing to a half\<close>

text \<open>The 16-bit sign of a float and the code's ways of putting results together.\<close>

definition sign16 :: "u32 \<Rightarrow> u16" where "sign16 b = ucast (f32_sign b)"

lemma unat_sign16: "unat (sign16 b) = unat (f32_sign b)"
  unfolding sign16_def using f32_field_bounds(1) [of b] by (subst unat_ucast_32_16) auto

lemma sign16_widen: "f32_sign b = ucast (f16_sign h) \<Longrightarrow> sign16 b = f16_sign h"
  using f16_field_bounds(1) [of h] by (simp add: word_unat_eq_iff unat_sign16 del: unat_eq_0)

lemma f16_pack3:
  assumes "unat x < 32" "unat m < 1024"
  shows "f16_sign (push_bit 15 (sign16 b) OR push_bit 10 x OR m) = sign16 b"
    "f16_exp (push_bit 15 (sign16 b) OR push_bit 10 x OR m) = x"
    "f16_mant (push_bit 15 (sign16 b) OR push_bit 10 x OR m) = m"
  using f16_pack [of "sign16 b" x m] assms f32_field_bounds(1) [of b] by (simp_all add: unat_sign16)

text \<open>A float whose exponent is that of a normal half: the exponent and the rounded mantissa.\<close>

lemma narrow_normal:
  fixes b :: u32 and e :: fp_env
  assumes x: "113 \<le> unat (f32_exp b)" "unat (f32_exp b) \<le> 142"
  defines "r \<equiv> tu_round_fp32_to_mantissa (f32_mant b) 10 e"
  defines "R \<equiv> rounded_value 10 r" and "h \<equiv> fst (tu_fp32_to_fp16 b e)"
  shows "f16_sign h = sign16 b"
    and "unat (f16_exp h) = unat (f32_exp b) - 112 + (if R = 1024 then 1 else 0)"
    and "unat (f16_mant h) = (if R = 1024 then 0 else R)"
    and "R \<le> 1024" and "snd (tu_fp32_to_fp16 b e) = snd (snd r)"
proof -
  obtain m c e' where r: "r = (m, c, e')" by (metis surj_pair)
  obtain up e2 where up: "round_up (drop_bit (23 - 10) (f32_mant b)) (f32_mant b AND (push_bit (23 - 10) 1 - 1)) (23 - 10) e = (up, e2)"
    by (metis surj_pair)
  have mb: "unat (f32_mant b) < 2 ^ 23" using f32_field_bounds(3) [of b] by simp
  note c = round_mantissa_cases [OF mb _ _ up, simplified, folded r_def R_def]
  show R: "R \<le> 1024" using c(4) by simp
  have carry: "c \<longleftrightarrow> R = 1024" using c(3) by (simp add: r)
  have m: "\<not> c \<Longrightarrow> unat m = R" by (simp add: R_def r rounded_value_def)
  define y where "y = (word_of_int (int (unat (f32_exp b)) - 127 + 15) :: u16)"
  have y: "unat y = unat (f32_exp b) - 112"
  proof -
    have "int (unat (f32_exp b)) - 127 + 15 = int (unat (f32_exp b) - 112)" using x by simp
    then have "y = of_nat (unat (f32_exp b) - 112)" unfolding y_def by (simp only: of_int_of_nat_eq)
    then have "unat y = take_bit LENGTH(16) (unat (f32_exp b) - 112)" by (simp only: unsigned_of_nat of_nat_id)
    then show ?thesis using x by (simp add: take_bit_nat_eq_self)
  qed
  define y' m' where "y' = (if c then y + 1 else y)" and "m' = (if c then 0 else m)"
  have y': "unat y' = unat (f32_exp b) - 112 + (if c then 1 else 0)"
  proof -
    have "unat y + 1 < 2 ^ LENGTH(16)" using y x by simp
    then have "unat (y + 1) = unat y + 1" by (subst unat_add_small) simp_all
    then show ?thesis by (simp add: y'_def y)
  qed
  then have y31: "unat y' \<le> 31" using x by auto
  have m': "unat m' = (if c then 0 else R)" "unat m' < 1024"
    using m carry R by (auto simp: m'_def)
  have lo: "unat (ucast (m' AND 0x3FF) :: u16) = unat m'"
    using m'(2) by (subst unat_ucast_32_16; subst unat_and_mask [where n = 10]) (simp_all add: mask_eq_exp_minus_1)
  have nf: "\<not> f32_isnan b" "\<not> f32_isinf b" using x by (auto simp: f32_isnan_def f32_isinf_def)
  have ex: "\<not> int (unat (f32_exp b)) - 127 > 15" "\<not> int (unat (f32_exp b)) - 127 < - 25"
    "\<not> int (unat (f32_exp b)) - 127 \<le> - 15" using x by linarith+
  have "\<not> y' > 31" using y31 by (simp add: word_less_nat_alt)
  moreover have "tu_fp32_to_fp16 b e =
      (if y' > 31 then (push_bit 15 (sign16 b) OR 0x7C00, e')
       else (push_bit 15 (sign16 b) OR push_bit 10 y' OR ucast (m' AND 0x3FF), e'))"
    unfolding tu_fp32_to_fp16_def
    by (simp only: nf ex if_False Let_def r_def [symmetric] r prod.case sign16_def [symmetric] y_def [symmetric])
       (simp add: y'_def m'_def)
  ultimately have h: "tu_fp32_to_fp16 b e =
      (push_bit 15 (sign16 b) OR push_bit 10 y' OR ucast (m' AND 0x3FF), e')" by simp
  have b: "unat y' < 32" "unat (ucast (m' AND 0x3FF) :: u16) < 1024" using y31 m'(2) lo by auto
  show "f16_sign h = sign16 b" "unat (f16_exp h) = unat (f32_exp b) - 112 + (if R = 1024 then 1 else 0)"
    "unat (f16_mant h) = (if R = 1024 then 0 else R)"
    unfolding h_def h fst_conv f16_pack3 [OF b] using y' m' lo carry by simp_all
  show "snd (tu_fp32_to_fp16 b e) = snd (snd r)" by (simp add: h r)
qed

text \<open>
  A float below the normal halves and not below \<open>2 ^ -25\<close>: the flushed result, and the constant that
  the full path returns, because it hands the rounding routine a mantissa of 24 bits whose kept part
  always overflows the ten target bits.
\<close>

lemma narrow_subnormal_flush:
  assumes "102 \<le> unat (f32_exp b)" "unat (f32_exp b) \<le> 112" "fe_subnormal e = TU_SUBNORMAL_FLUSH"
  shows "tu_fp32_to_fp16 b e = (push_bit 15 (sign16 b), e)"
proof -
  have nf: "\<not> f32_isnan b" "\<not> f32_isinf b" using assms by (auto simp: f32_isnan_def f32_isinf_def)
  have ex: "\<not> int (unat (f32_exp b)) - 127 > 15" "\<not> int (unat (f32_exp b)) - 127 < - 25"
    "int (unat (f32_exp b)) - 127 \<le> - 15" using assms(1,2) by linarith+
  show ?thesis unfolding tu_fp32_to_fp16_def
    by (simp only: nf ex if_False if_True Let_def sign16_def assms(3) simp_thms)
qed

lemma round_apply_overflow:
  assumes "unat v \<ge> 2 ^ 23"
  shows "fst (snd (tu_round_apply v 10 e))"
proof -
  obtain up e' where up: "round_up (drop_bit 10 v) (v AND (push_bit 10 1 - 1)) 10 e = (up, e')" by (metis surj_pair)
  have "unat v div 1024 \<ge> 8192" using assms by simp
  moreover have "unat v div 1024 < 4194304" using unat_u32_less [of v] by linarith
  ultimately have "unat (if up then drop_bit 10 v + 1 else drop_bit 10 v) \<ge> 1024"
    by (auto simp: unat_drop_bit u32_add_exact)
  then have "(if up then drop_bit 10 v + 1 else drop_bit 10 v) \<ge> 1024"
    by (simp add: word_le_nat_alt)
  then show ?thesis using up unfolding tu_round_apply_def
    by (simp add: Let_def)
qed

lemma narrow_subnormal_full:
  assumes "102 \<le> unat (f32_exp b)" "unat (f32_exp b) \<le> 112" "fe_subnormal e = TU_SUBNORMAL_FULL"
  shows "fst (tu_fp32_to_fp16 b e) = push_bit 15 (sign16 b) OR 0x200"
proof -
  have nf: "\<not> f32_isnan b" "\<not> f32_isinf b" using assms by (auto simp: f32_isnan_def f32_isinf_def)
  have ex: "\<not> int (unat (f32_exp b)) - 127 > 15" "\<not> int (unat (f32_exp b)) - 127 < - 25"
    "int (unat (f32_exp b)) - 127 \<le> - 15" using assms(1,2) by linarith+
  define s where "s = nat (- 14 - (int (unat (f32_exp b)) - 127))"
  have s: "s = 113 - unat (f32_exp b)" "1 \<le> s" "s \<le> 11" using assms(1,2) unfolding s_def by linarith+
  let ?m = "drop_bit s (f32_mant b OR 0x800000)"
  have full: "unat (f32_mant b OR 0x800000) = unat (f32_mant b) + 8388608"
    using unat_or_disjoint [where a = "0x800000" and n = 23 and b = "f32_mant b"] f32_field_bounds(3) [of b]
    by (simp add: or.commute)
  define v where "v = push_bit s ?m OR (f32_mant b AND (push_bit s 1 - 1))"
  have "unat v \<ge> 2 ^ 23"
  proof -
    have "unat ?m * 2 ^ s \<le> unat (f32_mant b) + 8388608"
      unfolding unat_drop_bit full by (rule div_times_less_eq_dividend)
    then have lt: "unat ?m * 2 ^ s < 2 ^ LENGTH(32)" using f32_field_bounds(3) [of b] by simp
    have p: "unat (push_bit s ?m) = (unat (f32_mant b) + 8388608) div 2 ^ s * 2 ^ s"
      by (subst unat_push_bit [OF lt]) (simp only: unat_drop_bit full)
    have "unat v = unat (push_bit s ?m) + unat (f32_mant b) mod 2 ^ s"
      unfolding v_def unat_and_ones [symmetric]
      by (rule unat_or_disjoint [where n = s]) (simp_all only: p unat_and_ones mod_mult_self2_is_0, simp)
    moreover have "unat (f32_mant b) mod 2 ^ s = (unat (f32_mant b) + 8388608) mod 2 ^ s"
    proof -
      have "(8388608 :: nat) = 2 ^ (23 - s) * 2 ^ s" using s by (simp flip: power_add)
      then show ?thesis by (simp only: mod_mult_self1)
    qed
    ultimately have "unat v = unat (f32_mant b) + 8388608" by (simp only: p div_mult_mod_eq)
    then show ?thesis by simp
  qed
  then have c: "fst (snd (tu_round_apply v 10 e))" by (rule round_apply_overflow)
  obtain m e' where r: "tu_round_apply v 10 e = (m, True, e')" using c by (metis (full_types) prod.collapse)
  show ?thesis unfolding tu_fp32_to_fp16_def
    by (simp only: nf ex if_False if_True Let_def sign16_def [symmetric] assms(3) tu_subnormal_mode.simps
        s_def [symmetric] v_def [symmetric] r prod.case fst_conv) simp
qed

lemma f16_eqI:
  "f16_sign a = f16_sign b \<Longrightarrow> unat (f16_exp a) = unat (f16_exp b) \<Longrightarrow> unat (f16_mant a) = unat (f16_mant b) \<Longrightarrow> a = b"
  using f16_split [of a] f16_split [of b] by (simp add: word_unat_eq_iff)

lemma narrow_zero:
  assumes "f32_exp b = 0" shows "tu_fp32_to_fp16 b e = (push_bit 15 (sign16 b), e)"
  using assms unfolding tu_fp32_to_fp16_def f32_isnan_def f32_isinf_def sign16_def by (simp add: Let_def)

lemma narrow_inf:
  assumes "f32_exp b = 255" "f32_mant b = 0"
  shows "tu_fp32_to_fp16 b e = (push_bit 15 (sign16 b) OR push_bit 10 31 OR 0, e)"
proof -
  have "sign16 b = 0 \<or> sign16 b = 1"
    using f32_field_bounds(1) [of b] by (auto simp: word_unat_eq_iff unat_sign16 less_2_cases_iff simp del: unat_eq_0)
  moreover have "f32_sign b = 0 \<longleftrightarrow> sign16 b = 0" by (simp add: word_unat_eq_iff unat_sign16 del: unat_eq_0)
  ultimately show ?thesis
    using assms unfolding tu_fp32_to_fp16_def f32_isnan_def f32_isinf_def by auto
qed

text \<open>
  C27. Every half that is not a NaN and not subnormal survives the way to a float and back, in every
  rounding mode and subnormal mode, without drawing random bits.
\<close>

theorem fp16_roundtrip:
  assumes "f16_exp h \<noteq> 31 \<or> f16_mant h = 0" "f16_exp h \<noteq> 0 \<or> f16_mant h = 0"
  shows "tu_fp32_to_fp16 (tu_fp16_to_fp32 h) e = (h, e)"
proof -
  let ?b = "tu_fp16_to_fp32 h"
  consider "f16_exp h \<noteq> 0" "f16_exp h \<noteq> 31" | "f16_exp h = 0" "f16_mant h = 0" | "f16_exp h = 31" "f16_mant h = 0"
    using assms by blast
  then show ?thesis
  proof cases
    case 1
    note w = widen_normal [OF 1]
    have x: "1 \<le> unat (f16_exp h)" "unat (f16_exp h) \<le> 30"
    proof -
      show "1 \<le> unat (f16_exp h)" using 1(1) by (simp add: unat_zero_iff Suc_le_eq del: unat_eq_0)
      have "unat (f16_exp h) \<noteq> 31" using 1(2) by (simp add: word_unat_eq_iff)
      then show "unat (f16_exp h) \<le> 30" using f16_field_bounds(2) [of h] by linarith
    qed
    have r: "tu_round_fp32_to_mantissa (f32_mant ?b) 10 e = (drop_bit 13 (f32_mant ?b), False, e)"
      using round_mantissa_exact [of "f32_mant ?b" 10 e] f32_field_bounds(3) [of ?b] w(3) by simp
    have R: "rounded_value 10 (tu_round_fp32_to_mantissa (f32_mant ?b) 10 e) = unat (f16_mant h)"
      unfolding r rounded_value_def using w(3) by (simp add: unat_drop_bit)
    have lt: "unat (f16_mant h) \<noteq> 1024" using f16_field_bounds(3) [of h] by simp
    have ex: "113 \<le> unat (f32_exp ?b)" "unat (f32_exp ?b) \<le> 142" using w(2) x by auto
    note n = narrow_normal [OF ex, of e, unfolded R]
    have "fst (tu_fp32_to_fp16 ?b e) = h"
    proof (rule f16_eqI)
      show "f16_sign (fst (tu_fp32_to_fp16 ?b e)) = f16_sign h" using n(1) sign16_widen [OF w(1)] by (rule trans)
      show "unat (f16_exp (fst (tu_fp32_to_fp16 ?b e))) = unat (f16_exp h)"
        unfolding n(2) w(2) if_not_P [OF lt] by simp
      show "unat (f16_mant (fst (tu_fp32_to_fp16 ?b e))) = unat (f16_mant h)"
        unfolding n(3) if_not_P [OF lt] by (rule refl)
    qed
    moreover have "snd (tu_fp32_to_fp16 ?b e) = e" unfolding n(5) r by simp
    ultimately show ?thesis by (rule prod_eqI [of _ "(h, e)", unfolded fst_conv snd_conv])
  next
    case 2
    note w = widen_zero_fields [OF 2]
    have "push_bit 15 (f16_sign h) = h"
      using f16_pack_self [of h] 2 by simp
    then show ?thesis using narrow_zero [OF w(2)] sign16_widen [OF w(1)] by simp
  next
    case 3
    note w = widen_inf_fields [OF 3(1)]
    have "f32_mant ?b = 0" using w(3) 3(2) by (simp add: unat_zero_iff)
    then show ?thesis using narrow_inf [OF w(2)] sign16_widen [OF w(1)] f16_pack_self [of h] 3 by simp
  qed
qed

theorem fp16_roundtrip_witness:
  "tu_fp32_to_fp16 (tu_fp16_to_fp32 0xFBFF) fp_env0 = (0xFBFF, fp_env0)"
proof -
  have "f16_exp 0xFBFF \<noteq> 31 \<and> f16_exp 0xFBFF \<noteq> 0" by code_simp
  then show ?thesis by (intro fp16_roundtrip) auto
qed

text \<open>
  A float of magnitude at least \<open>2 ^ -25\<close> and below the smallest normal half is flushed to a
  signed zero by default; with full subnormal support it becomes \<open>2 ^ -15\<close> whatever its value and
  whatever the rounding mode, so that no subnormal half but this one survives a conversion.
\<close>

theorem subnormal_results_collapse:
  assumes "102 \<le> unat (f32_exp b)" "unat (f32_exp b) \<le> 112"
  shows "fst (tu_fp32_to_fp16 b e) = push_bit 15 (sign16 b) OR (if fe_subnormal e = TU_SUBNORMAL_FULL then 0x200 else 0)"
proof (cases "fe_subnormal e")
  case TU_SUBNORMAL_FULL
  then show ?thesis using narrow_subnormal_full [OF assms] by simp
next
  case TU_SUBNORMAL_FLUSH
  then show ?thesis using narrow_subnormal_flush [OF assms] by simp
qed

theorem subnormal_results_collapse_witness:
  "fst (tu_fp32_to_fp16 (tu_fp16_to_fp32 0x0001) (fp_env0\<lparr>fe_subnormal := TU_SUBNORMAL_FULL\<rparr>)) = 0x200 \<and>
   fst (tu_fp32_to_fp16 (tu_fp16_to_fp32 0x03FF) (fp_env0\<lparr>fe_subnormal := TU_SUBNORMAL_FULL\<rparr>)) = 0x200"
proof -
  let ?a = "tu_fp16_to_fp32 0x0001" and ?b = "tu_fp16_to_fp32 0x03FF"
  have "102 \<le> unat (f32_exp ?a) \<and> unat (f32_exp ?a) \<le> 112 \<and> sign16 ?a = 0" by code_simp
  moreover have "102 \<le> unat (f32_exp ?b) \<and> unat (f32_exp ?b) \<le> 112 \<and> sign16 ?b = 0" by code_simp
  ultimately show ?thesis by (simp add: subnormal_results_collapse)
qed

section \<open>Correct rounding\<close>

definition f16_mag :: "u16 \<Rightarrow> int" where
  "f16_mag h = (if f16_exp h = 0 then int (unat (f16_mant h))
     else (1024 + int (unat (f16_mant h))) * 2 ^ (unat (f16_exp h) - 1))"

lemma f16_units_mag: "f16_units h = (if f16_sign h = 0 then f16_mag h else - f16_mag h)"
  by (simp add: f16_units_def f16_mag_def)

lemma f16_mag_nonneg: "0 \<le> f16_mag h"
  by (simp add: f16_mag_def)

text \<open>Against a grid of step \<open>2 ^ k\<close>, every half is a grid point or lies below the binade of \<open>1024\<close> steps.\<close>

lemma f16_mag_grid: "f16_mag g \<le> 1024 * 2 ^ k \<or> (\<exists>K. f16_mag g = K * 2 ^ k)"
proof (cases "f16_exp g = 0")
  case True
  have "int (unat (f16_mant g)) \<le> 1024 * 1" using f16_field_bounds(3) [of g] by linarith
  also have "\<dots> \<le> 1024 * 2 ^ k" by (rule mult_left_mono) simp_all
  finally show ?thesis using True by (simp add: f16_mag_def)
next
  case False
  let ?x = "unat (f16_exp g) - 1"
  show ?thesis
  proof (cases "k \<le> ?x")
    case True
    then have "(2::int) ^ ?x = 2 ^ (?x - k) * 2 ^ k" by (simp flip: power_add)
    then show ?thesis using False by (auto simp: f16_mag_def)
  next
    case F: False
    have "1024 + int (unat (f16_mant g)) \<le> 2048" using f16_field_bounds(3) [of g] by linarith
    then have "f16_mag g \<le> 2048 * 2 ^ ?x"
      unfolding f16_mag_def using False by (simp only: if_False mult_right_mono zero_le_numeral zero_le_power)
    also have "\<dots> = 1024 * 2 ^ Suc ?x" by simp
    also have "\<dots> \<le> 1024 * 2 ^ k" using F by (intro mult_left_mono power_increasing) auto
    finally show ?thesis ..
  qed
qed

text \<open>A nearest grid point beats all grid points, and everything below the binade.\<close>

lemma nearest_grid:
  fixes A R K U :: int
  assumes R: "2 * \<bar>R * 8192 - A\<bar> \<le> 8192" and "0 < U"
  shows "\<bar>R * 8192 * U - A * U\<bar> \<le> \<bar>K * 8192 * U - A * U\<bar>"
proof -
  have "\<bar>R * 8192 - A\<bar> \<le> \<bar>K * 8192 - A\<bar>"
    using R by (cases K R rule: linorder_cases) auto
  then have "\<bar>R * 8192 - A\<bar> * U \<le> \<bar>K * 8192 - A\<bar> * U" using \<open>0 < U\<close> by (simp add: mult_right_mono)
  then show ?thesis using \<open>0 < U\<close> by (simp flip: left_diff_distrib add: abs_mult)
qed

lemma nearest_beats:
  fixes A R M U :: int
  assumes R: "2 * \<bar>R * 8192 - A\<bar> \<le> 8192" and U: "0 < U" and A: "8388608 \<le> A"
    and M: "M \<le> 8388608 * U \<or> (\<exists>K. M = K * 8192 * U)"
  shows "\<bar>R * 8192 * U - A * U\<bar> \<le> \<bar>M - A * U\<bar>"
proof (cases "\<exists>K. M = K * 8192 * U")
  case True
  then show ?thesis using nearest_grid [OF R U] by blast
next
  case False
  have "8388608 * U \<le> A * U" using A U by (simp add: mult_right_mono)
  moreover have "\<bar>R * 8192 * U - A * U\<bar> \<le> \<bar>1024 * 8192 * U - A * U\<bar>" by (rule nearest_grid [OF R U])
  ultimately show ?thesis using M False by simp
qed

text \<open>The mantissa carries into the exponent from 1023 and a half units on.\<close>

lemma nearest_carry:
  assumes "nearest_even 13 m R" "m < 8388608" "R \<le> 1024"
  shows "R = 1024 \<longleftrightarrow> m \<ge> 8384512"
proof
  have ne: "2 * \<bar>int R * 8192 - int m\<bar> \<le> 8192" "2 * \<bar>int R * 8192 - int m\<bar> = 8192 \<longrightarrow> even R"
    using assms(1) by (simp_all add: nearest_even_def)
  show "m \<ge> 8384512" if "R = 1024" using ne(1) that by simp
  assume m: "m \<ge> 8384512"
  then have "8192 * int R \<ge> 8192 * 1023" using ne(1) by simp
  then have "R = 1023 \<or> R = 1024" using assms(3) by linarith
  moreover have "R \<noteq> 1023"
  proof
    assume R: "R = 1023"
    then have "2 * \<bar>int R * 8192 - int m\<bar> = 8192" using ne(1) m by simp
    then show False using ne(2) R by simp
  qed
  ultimately show "R = 1024" by simp
qed

text \<open>The significand and the unit of the binade of a normal float.\<close>

definition f32_significand :: "u32 \<Rightarrow> int" where
  "f32_significand b = 8388608 + int (unat (f32_mant b))"

definition f32_unit :: "u32 \<Rightarrow> int" where
  "f32_unit b = 2 ^ (unat (f32_exp b) - 1)"

lemma f32_significand_bounds: "8388608 \<le> f32_significand b" "f32_significand b \<le> 16777215"
  using f32_field_bounds(3) [of b] unfolding f32_significand_def by linarith+

lemma f32_unit_pos: "0 < f32_unit b"
  by (simp add: f32_unit_def)

lemma f32_units_normal:
  "f32_exp b \<noteq> 0 \<Longrightarrow> f32_units b =
     (if f32_sign b = 0 then f32_significand b * f32_unit b else - (f32_significand b * f32_unit b))"
  by (simp add: f32_units_def f32_significand_def f32_unit_def)

lemma f32_exceeds_halves:
  assumes x: "113 \<le> unat (f32_exp b)" "unat (f32_exp b) \<le> 142"
  shows "65520 * 2 ^ 149 \<le> \<bar>f32_units b\<bar> \<longleftrightarrow>
         unat (f32_exp b) = 142 \<and> 8384512 \<le> unat (f32_mant b)"
proof -
  have "f32_exp b \<noteq> 0" using x by auto
  then have abs: "\<bar>f32_units b\<bar> = f32_significand b * f32_unit b"
    using f32_significand_bounds(1) [of b] f32_unit_pos [of b] by (simp add: f32_units_normal)
  show ?thesis
  proof (cases "unat (f32_exp b) = 142")
    case True
    then have "f32_unit b = 2 ^ 141" by (simp add: f32_unit_def)
    moreover have "f32_significand b \<ge> 16773120 \<longleftrightarrow> 8384512 \<le> unat (f32_mant b)"
      unfolding f32_significand_def by linarith
    ultimately show ?thesis unfolding abs using True by simp
  next
    case False
    then have "f32_unit b \<le> 2 ^ 140" unfolding f32_unit_def using x by (intro power_increasing) auto
    then have "f32_significand b * f32_unit b \<le> 16777215 * 2 ^ 140"
      using f32_significand_bounds [of b] f32_unit_pos [of b] by (intro mult_mono) auto
    then show ?thesis unfolding abs using False by simp
  qed
qed

text \<open>What the conversion returns, in the units of the float.\<close>

lemma unit_grid:
  assumes "113 \<le> unat (f32_exp b)"
  shows "2 ^ (unat (f32_exp b) - 113) * 2 ^ 125 = 8192 * f32_unit b"
proof -
  have "unat (f32_exp b) - 113 + 125 = 13 + (unat (f32_exp b) - 1)" using assms by simp
  then have "(2::int) ^ (unat (f32_exp b) - 113 + 125) = 2 ^ (13 + (unat (f32_exp b) - 1))" by (simp only:)
  then show ?thesis by (simp add: power_add f32_unit_def)
qed

lemma narrow_normal_mag:
  fixes b :: u32 and e :: fp_env
  assumes x: "113 \<le> unat (f32_exp b)" "unat (f32_exp b) \<le> 142"
  defines "R \<equiv> rounded_value 10 (tu_round_fp32_to_mantissa (f32_mant b) 10 e)"
    and "h \<equiv> fst (tu_fp32_to_fp16 b e)"
  shows "f16_mag h * 2 ^ 125 = (1024 + int R) * 8192 * f32_unit b"
    and "f16_sign h = 0 \<longleftrightarrow> f32_sign b = 0"
    and "f16_exp h = 31 \<longleftrightarrow> unat (f32_exp b) = 142 \<and> R = 1024"
    and "R = 1024 \<longrightarrow> f16_mant h = 0"
proof -
  note n = narrow_normal [OF x, of e, folded R_def h_def]
  have "f16_exp h \<noteq> 0" using n(2) x by (auto simp: word_unat_eq_iff simp del: unat_eq_0)
  moreover have "unat (f16_exp h) - 1 = unat (f32_exp b) - 113 + (if R = 1024 then 1 else 0)" using n(2) x by simp
  ultimately have "f16_mag h = (1024 + int R) * 2 ^ (unat (f32_exp b) - 113)"
    using n(3) by (cases "R = 1024") (simp_all add: f16_mag_def)
  then show "f16_mag h * 2 ^ 125 = (1024 + int R) * 8192 * f32_unit b"
    by (simp only: mult.assoc unit_grid [OF x(1)])
  show "f16_sign h = 0 \<longleftrightarrow> f32_sign b = 0"
    unfolding n(1) by (simp add: word_unat_eq_iff unat_sign16 del: unat_eq_0)
  show "f16_exp h = 31 \<longleftrightarrow> unat (f32_exp b) = 142 \<and> R = 1024"
    using n(2) x by (auto simp: word_unat_eq_iff split: if_splits)
  show "R = 1024 \<longrightarrow> f16_mant h = 0" using n(3) by (simp add: word_unat_eq_iff del: unat_eq_0)
qed

lemma f16_mag_grid_units:
  assumes "113 \<le> unat (f32_exp b)"
  shows "f16_mag g * 2 ^ 125 \<le> 8388608 * f32_unit b \<or> (\<exists>K. f16_mag g * 2 ^ 125 = K * 8192 * f32_unit b)"
  using f16_mag_grid [of g "unat (f32_exp b) - 113"]
proof
  assume "f16_mag g \<le> 1024 * 2 ^ (unat (f32_exp b) - 113)"
  then have "f16_mag g * 2 ^ 125 \<le> 1024 * 2 ^ (unat (f32_exp b) - 113) * 2 ^ 125" by (rule mult_right_mono) simp
  then show ?thesis by (simp only: mult.assoc unit_grid [OF assms]) simp
next
  assume "\<exists>K. f16_mag g = K * 2 ^ (unat (f32_exp b) - 113)"
  then show ?thesis by (metis unit_grid [OF assms] mult.assoc)
qed

text \<open>
  C26. In the default rounding mode a float in the range of the normal halves is converted to the
  nearest half: no finite half is closer to its value, unless the magnitude reaches 65520, half a
  unit above the largest half, exactly when the result is an infinity.
\<close>

theorem fp16_rounds_to_nearest:
  fixes b :: u32 and e :: fp_env
  assumes x: "113 \<le> unat (f32_exp b)" "unat (f32_exp b) \<le> 142" and mode: "fe_mode e = TU_ROUND_RNE"
  defines "h \<equiv> fst (tu_fp32_to_fp16 b e)"
  shows "if 65520 * 2 ^ 149 \<le> \<bar>f32_units b\<bar> then f16_exp h = 31 \<and> f16_mant h = 0
         else f16_exp h \<noteq> 31 \<and>
           (f16_exp g = 31 \<or> \<bar>f16_units h * 2 ^ 125 - f32_units b\<bar> \<le> \<bar>f16_units g * 2 ^ 125 - f32_units b\<bar>)"
proof -
  define R where "R = rounded_value 10 (tu_round_fp32_to_mantissa (f32_mant b) 10 e)"
  let ?V = "f32_significand b * f32_unit b"
  note n = narrow_normal_mag [OF x, of e, folded R_def h_def]
  have ne: "nearest_even 13 (unat (f32_mant b)) R"
    using mantissa_rounding [of "f32_mant b" 10 e] f32_field_bounds(3) [of b] mode by (simp add: R_def)
  have carry: "R = 1024 \<longleftrightarrow> 8384512 \<le> unat (f32_mant b)"
    by (rule nearest_carry [OF ne]) (use f32_field_bounds(3) narrow_normal(4) [OF x] in \<open>simp_all add: R_def\<close>)
  have near: "2 * \<bar>(1024 + int R) * 8192 - f32_significand b\<bar> \<le> 8192"
    using ne by (simp add: nearest_even_def f32_significand_def)
  note beats = nearest_beats [OF near f32_unit_pos [of b] f32_significand_bounds(1)]
  have pos: "\<bar>f16_mag h * 2 ^ 125 - ?V\<bar> \<le> \<bar>f16_mag g * 2 ^ 125 - ?V\<bar>"
    unfolding n(1) by (rule beats [OF f16_mag_grid_units [OF x(1)]])
  have neg: "\<bar>f16_mag h * 2 ^ 125 - ?V\<bar> \<le> \<bar>- (f16_mag g * 2 ^ 125) - ?V\<bar>"
    unfolding n(1) by (rule beats) (use f32_unit_pos [of b] f16_mag_nonneg [of g] in auto)
  have "f32_exp b \<noteq> 0" using x by auto
  then have "\<bar>f16_units h * 2 ^ 125 - f32_units b\<bar> \<le> \<bar>f16_units g * 2 ^ 125 - f32_units b\<bar>"
    using pos neg by (cases "f32_sign b = 0"; cases "f16_sign g = 0") (simp_all add: f16_units_mag f32_units_normal n(2))
  then show ?thesis
    unfolding f32_exceeds_halves [OF x] carry [symmetric] using n(3,4) by simp
qed

theorem fp16_rounds_to_nearest_witness:
  "f16_exp (fst (tu_fp32_to_fp16 0x3F801001 fp_env0)) \<noteq> 31 \<and> fst (tu_fp32_to_fp16 0x3F801001 fp_env0) = 0x3C01 \<and>
   \<bar>f16_units 0x3C01 * 2 ^ 125 - f32_units 0x3F801001\<bar> \<le> \<bar>f16_units 0x3C00 * 2 ^ 125 - f32_units 0x3F801001\<bar>"
proof -
  let ?b = "0x3F801001 :: u32"
  have c: "113 \<le> unat (f32_exp ?b)" "unat (f32_exp ?b) \<le> 142" "fst (tu_fp32_to_fp16 ?b fp_env0) = 0x3C01"
      "f16_exp 0x3C00 \<noteq> 31" "fe_mode fp_env0 = TU_ROUND_RNE" "f16_exp 0x3C01 \<noteq> 31"
    by code_simp+
  show ?thesis using fp16_rounds_to_nearest [OF c(1,2,5), of "0x3C00"] c(3,4,6) by (simp split: if_splits)
qed

section \<open>BF16 and TF32\<close>

text \<open>Both formats are prefixes of the binary32 pattern, so that rounding acts on the whole pattern.\<close>

lemma exp_mask: "b AND 0x7F800000 = 0x7F800000 \<longleftrightarrow> f32_exp b = 255"
proof -
  have m: "(0x7F800000 :: u32) = push_bit 23 0xFF" by simp
  have "b AND 0x7F800000 = push_bit 23 (f32_exp b)"
    unfolding m f32_exp_def by (rule bit_word_eqI) (auto simp only: bit_simps le_add_diff_inverse comp_apply)
  then have *: "unat (b AND 0x7F800000) = unat (f32_exp b) * 8388608"
    using f32_field_bounds(2) [of b] by (simp only:) (subst unat_push_bit; simp)
  show ?thesis unfolding word_unat_eq_iff * by simp
qed

lemma low_mask: "b AND 0xFFFFE000 = push_bit 13 (drop_bit 13 b)" for b :: u32
proof -
  have m: "(0xFFFFE000 :: u32) = push_bit 13 (mask 19)" by (simp add: mask_eq_exp_minus_1)
  show ?thesis unfolding m by (rule bit_word_eqI) (auto simp: bit_simps)
qed

lemma bf16_bits:
  "unat (tu_bf16_to_fp32 h) = unat h * 65536"
proof -
  have "unat (ucast h :: u32) * 2 ^ 16 < 2 ^ LENGTH(32)"
    using unat_u16_less [of h] by (simp del: unat_u16_less)
  then show ?thesis unfolding tu_bf16_to_fp32_def by (subst unat_push_bit) simp_all
qed

lemma bf16_pack_unat:
  assumes "unat x < 256" "unat m < 128"
  shows "unat (push_bit 15 (sign16 b) OR push_bit 7 x OR m) = unat (f32_sign b) * 32768 + unat x * 128 + unat m"
proof -
  have s: "unat (push_bit 15 (sign16 b)) = unat (f32_sign b) * 32768"
    by (subst unat_push_bit) (use f32_field_bounds(1) [of b] in \<open>auto simp: unat_sign16\<close>)
  have x: "unat (push_bit 7 x) = unat x * 128" by (subst unat_push_bit) (use assms in auto)
  have xm: "unat (push_bit 7 x OR m) = unat x * 128 + unat m"
    by (subst unat_or_disjoint [where n = 7]) (use assms x in auto)
  show ?thesis by (subst unat_or_disjoint [where n = 15]) (use assms s xm in auto)
qed

text \<open>Rounding the pattern of a finite float to its upper sixteen bits.\<close>

lemma bf16_normal:
  fixes b :: u32 and e :: fp_env
  assumes "1 \<le> unat (f32_exp b)" "unat (f32_exp b) \<le> 254"
  defines "r \<equiv> tu_round_fp32_to_mantissa (f32_mant b) 7 e"
  shows "unat (fst (tu_fp32_to_bf16 b e)) =
      unat (f32_sign b) * 32768 + unat (f32_exp b) * 128 + rounded_value 7 r"
    and "snd (tu_fp32_to_bf16 b e) = snd (snd r)"
proof -
  obtain m c e' where r: "r = (m, c, e')" by (metis surj_pair)
  obtain up e2 where up: "round_up (drop_bit (23 - 7) (f32_mant b)) (f32_mant b AND (push_bit (23 - 7) 1 - 1)) (23 - 7) e = (up, e2)"
    by (metis surj_pair)
  have mb: "unat (f32_mant b) < 2 ^ 23" using f32_field_bounds(3) [of b] by simp
  note cs = round_mantissa_cases [OF mb _ _ up, simplified, folded r_def]
  define R where "R = rounded_value 7 r"
  have R: "R \<le> 128" "c \<longleftrightarrow> R = 128" "\<not> c \<Longrightarrow> unat m = R"
    using cs(3,4) by (auto simp: R_def r rounded_value_def)
  have nb: "\<not> b AND 0x7F800000 = 0x7F800000" using assms(2) by (auto simp: exp_mask)
  define x where "x = int (unat (f32_exp b)) - 127 + 127"
  have x: "x = int (unat (f32_exp b))" by (simp add: x_def)
  have d: "tu_fp32_to_bf16 b e =
     (let (r_mant, y) = (if c then (0, x + 1) else (m, x))
      in if y \<ge> 255 then (push_bit 15 (sign16 b) OR 0x7F80, e')
         else if y \<le> 0 then (push_bit 15 (sign16 b), e')
         else (push_bit 15 (sign16 b) OR push_bit 7 (word_of_int y) OR ucast (r_mant AND 0x7F), e'))"
    unfolding tu_fp32_to_bf16_def
    by (simp only: nb if_False Let_def r_def [symmetric] r prod.case sign16_def [symmetric] x_def [symmetric])
  have w: "unat (word_of_int (int k) :: u16) = k" if "k < 256" for k
    using that by (simp only: of_int_of_nat_eq unsigned_of_nat of_nat_id) (simp add: take_bit_nat_eq_self)
  have lo: "unat (ucast (m AND 0x7F) :: u16) = R" "R < 128" if "\<not> c"
  proof -
    show "R < 128" using R that by linarith
    then show "unat (ucast (m AND 0x7F) :: u16) = R" using R(3) that
      by (subst unat_ucast_32_16; subst unat_and_mask [where n = 7]) (simp_all add: mask_eq_exp_minus_1)
  qed
  show "snd (tu_fp32_to_bf16 b e) = snd (snd r)" unfolding d by (simp add: r Let_def)
  show "unat (fst (tu_fp32_to_bf16 b e)) = unat (f32_sign b) * 32768 + unat (f32_exp b) * 128 + rounded_value 7 r"
    unfolding R_def [symmetric]
  proof (cases "c")
    case False
    have "\<not> x \<ge> 255" "\<not> x \<le> 0" using assms(1,2) unfolding x by linarith+
    then show "unat (fst (tu_fp32_to_bf16 b e)) = unat (f32_sign b) * 32768 + unat (f32_exp b) * 128 + R"
      unfolding d using False lo w [of "unat (f32_exp b)"] assms(2)
      by (simp only: Let_def if_False prod.case fst_conv x) (subst bf16_pack_unat; simp)
  next
    case True
    show "unat (fst (tu_fp32_to_bf16 b e)) = unat (f32_sign b) * 32768 + unat (f32_exp b) * 128 + R"
    proof (cases "unat (f32_exp b) = 254")
      case T: True
      then have "x + 1 \<ge> 255" unfolding x by linarith
      then have "fst (tu_fp32_to_bf16 b e) = push_bit 15 (sign16 b) OR push_bit 7 255 OR 0"
        unfolding d using True by (simp add: Let_def)
      then show ?thesis using T True R by (simp only:) (subst bf16_pack_unat; simp)
    next
      case F: False
      have y: "x + 1 = int (unat (f32_exp b) + 1)" unfolding x by simp
      have "\<not> x + 1 \<ge> 255" "\<not> x + 1 \<le> 0" using assms(1,2) F unfolding x by linarith+
      then have "fst (tu_fp32_to_bf16 b e) = push_bit 15 (sign16 b) OR push_bit 7 (word_of_int (x + 1)) OR 0"
        unfolding d using True by (simp add: Let_def)
      then show ?thesis using F True R assms(2) w [of "unat (f32_exp b) + 1"]
        by (simp only: y) (subst bf16_pack_unat; simp)
    qed
  qed
qed

lemma nearest_even_shift:
  assumes "nearest_even d m r" "even k"
  shows "nearest_even d (k * 2 ^ d + m) (k + r)"
  using assms by (simp add: nearest_even_def algebra_simps)

text \<open>
  In the default mode BF16 rounding of a normal float is rounding of its bit pattern to the nearest
  multiple of \<open>2 ^ 16\<close> with ties to even; a carry runs through mantissa and exponent into infinity.
\<close>

theorem bf16_rounds_pattern:
  assumes "1 \<le> unat (f32_exp b)" "unat (f32_exp b) \<le> 254" "fe_mode e = TU_ROUND_RNE"
  shows "nearest_even 16 (unat b) (unat (fst (tu_fp32_to_bf16 b e))) \<and> snd (tu_fp32_to_bf16 b e) = e"
proof -
  let ?r = "tu_round_fp32_to_mantissa (f32_mant b) 7 e"
  have mb: "unat (f32_mant b) < 2 ^ 23" using f32_field_bounds(3) [of b] by simp
  have ne: "nearest_even 16 (unat (f32_mant b)) (rounded_value 7 ?r)" "snd (snd ?r) = e"
    using mantissa_rounding [OF mb, of 7 e] assms(3) by simp_all
  have "unat b = (unat (f32_sign b) * 32768 + unat (f32_exp b) * 128) * 2 ^ 16 + unat (f32_mant b)"
    using f32_split [of b] by simp
  moreover have "even (unat (f32_sign b) * 32768 + unat (f32_exp b) * 128)" by simp
  ultimately have "nearest_even 16 (unat b)
      (unat (f32_sign b) * 32768 + unat (f32_exp b) * 128 + rounded_value 7 ?r)"
    by (simp only: nearest_even_shift [OF ne(1)])
  then show ?thesis using ne(2) bf16_normal [OF assms(1,2), of e] by simp
qed

theorem bf16_rounds_pattern_witness:
  "nearest_even 16 0x3F808000 (unat (fst (tu_fp32_to_bf16 0x3F808000 fp_env0))) \<and>
   fst (tu_fp32_to_bf16 0x3F808000 fp_env0) = 0x3F80"
proof -
  have c: "1 \<le> unat (f32_exp 0x3F808000)" "unat (f32_exp 0x3F808000) \<le> 254" "fe_mode fp_env0 = TU_ROUND_RNE"
    "fst (tu_fp32_to_bf16 0x3F808000 fp_env0) = 0x3F80"
    by code_simp+
  show ?thesis using bf16_rounds_pattern [OF c(1-3)] c(4) by simp
qed


text \<open>
  A BF16 value converted to a float and back is unchanged, infinities and NaNs included, in every
  rounding mode and without drawing random bits; only subnormals are flushed to a signed zero.
\<close>

theorem bf16_roundtrip:
  "tu_fp32_to_bf16 (tu_bf16_to_fp32 h) e =
   (if unat h div 128 mod 256 = 0 then push_bit 15 (drop_bit 15 h) else h, e)"
proof -
  let ?b = "tu_bf16_to_fp32 h"
  have f: "unat (f32_sign ?b) = unat h div 32768" "unat (f32_exp ?b) = unat h div 128 mod 256"
    "unat (f32_mant ?b) = unat h mod 128 * 65536"
  proof -
    have "unat h * 65536 mod (128 * 65536) = unat h mod 128 * 65536" by (simp only: mult_mod_left)
    then show "unat (f32_mant ?b) = unat h mod 128 * 65536" by (simp add: f32_fields bf16_bits)
  qed (simp_all add: f32_fields bf16_bits)
  have split: "unat h = unat h div 32768 * 32768 + unat h div 128 mod 256 * 128 + unat h mod 128"
    using split3 [of "unat h" 128 256] by simp
  have s16: "sign16 ?b = drop_bit 15 h"
    by (simp add: word_unat_eq_iff unat_sign16 f(1) unat_drop_bit)
  have mb: "unat (f32_mant ?b) < 2 ^ 23" using f32_field_bounds(3) [of ?b] by simp
  have r: "tu_round_fp32_to_mantissa (f32_mant ?b) 7 e = (drop_bit 16 (f32_mant ?b), False, e)"
    using round_mantissa_exact [OF mb, of 7 e] f(3) by simp
  have R: "rounded_value 7 (tu_round_fp32_to_mantissa (f32_mant ?b) 7 e) = unat h mod 128"
    unfolding r rounded_value_def by (simp add: unat_drop_bit f(3))
  consider "unat (f32_exp ?b) = 255" | "unat (f32_exp ?b) = 0" | "1 \<le> unat (f32_exp ?b)" "unat (f32_exp ?b) \<le> 254"
    using f32_field_bounds(2) [of ?b] by linarith
  then show ?thesis
  proof cases
    case 1
    then have "f32_exp ?b = 255" by (simp add: word_unat_eq_iff)
    moreover have "ucast (drop_bit 16 ?b) = h"
      using unat_u16_less [of h] by (simp add: word_unat_eq_iff unat_ucast_32_16 unat_drop_bit bf16_bits)
    ultimately show ?thesis using 1 f(2) by (simp add: tu_fp32_to_bf16_def exp_mask)
  next
    case 2
    then have x: "f32_exp ?b = 0" by (simp add: unat_zero_iff)
    then have "b AND 0x7F800000 \<noteq> 0x7F800000" if "b = ?b" for b using that by (simp add: exp_mask)
    then show ?thesis using 2 f(2) x r s16 by (simp add: tu_fp32_to_bf16_def sign16_def [symmetric])
  next
    case 3
    have "unat (fst (tu_fp32_to_bf16 ?b e)) = unat h"
      unfolding bf16_normal(1) [OF 3] R f(1,2) using split by simp
    moreover have "snd (tu_fp32_to_bf16 ?b e) = e" unfolding bf16_normal(2) [OF 3] r by simp
    ultimately have "tu_fp32_to_bf16 ?b e = (h, e)" by (simp add: prod_eq_iff word_unat_eq_iff)
    then show ?thesis using 3(1) f(2) by simp
  qed
qed

lemma tf32_up_rne:
  assumes "fe_mode e = TU_ROUND_RNE"
  shows "tf32_up m e = (2 * (unat m mod 8192) > 8192 \<or> 2 * (unat m mod 8192) = 8192 \<and> odd (unat m div 8192), e)"
proof -
  have rb: "unat (drop_bit 12 m AND 1) = unat m div 4096 mod 2"
    by (subst unat_and_mask [where n = 1]) (simp_all add: unat_drop_bit)
  have st: "unat (m AND 0xFFF) = unat m mod 4096"
    by (subst unat_and_mask [where n = 12]) (simp_all add: mask_eq_exp_minus_1)
  have lsb: "unat (drop_bit 13 m AND 1) = unat m div 8192 mod 2"
    by (subst unat_and_mask [where n = 1]) (simp_all add: unat_drop_bit)
  have m: "unat m mod 8192 = unat m div 4096 mod 2 * 4096 + unat m mod 4096"
    using mod_mult2_eq [of "unat m" 4096 2] by simp
  have lt: "unat m mod 4096 < 4096" by simp
  have *: "drop_bit 12 m AND 1 \<noteq> 0 \<longleftrightarrow> unat m div 4096 mod 2 = 1"
    "m AND 0xFFF > 0 \<longleftrightarrow> unat m mod 4096 > 0" "drop_bit 13 m AND 1 \<noteq> 0 \<longleftrightarrow> odd (unat m div 8192)"
    unfolding word_less_nat_alt word_unat_eq_iff rb st lsb by (simp_all add: odd_iff_mod_2_eq_one)
  have "unat m div 4096 mod 2 = 0 \<or> unat m div 4096 mod 2 = 1" by presburger
  then have "(unat m div 4096 mod 2 = 1 \<and> (unat m mod 4096 > 0 \<or> odd (unat m div 8192))) =
      (2 * (unat m mod 8192) > 8192 \<or> 2 * (unat m mod 8192) = 8192 \<and> odd (unat m div 8192))"
    unfolding m using lt by auto
  then show ?thesis using assms unfolding tf32_up_def by (simp only: Let_def * tu_rounding_mode.simps)
qed

lemma tf32_finite:
  assumes "unat (f32_exp b) \<le> 254" and up: "tf32_up (f32_mant b) e = (up, e')"
    and z: "f32_mant b = 0 \<Longrightarrow> \<not> up"
  shows "unat (fst (tu_fp32_to_tf32 b e)) = unat (f32_sign b) * 2147483648 + unat (f32_exp b) * 8388608 +
      (unat (f32_mant b) div 8192 + (if up then 1 else 0)) * 8192"
proof -
  let ?m = "drop_bit 13 (f32_mant b)"
  have q: "unat ?m < 1024" using f32_field_bounds(3) [of b] by (simp add: unat_drop_bit less_mult_imp_div_less)
  have x255: "f32_exp b \<noteq> 255" using assms(1) by auto
  show ?thesis
  proof (cases "f32_exp b = 0 \<and> f32_mant b = 0")
    case True
    have "b AND 0x80000000 = push_bit 31 (f32_sign b)"
    proof -
      have m: "(0x80000000 :: u32) = push_bit 31 1" by simp
      show ?thesis unfolding m f32_sign_def
      proof (rule bit_word_eqI)
        fix n assume "n < LENGTH(32)"
        then have "n < 31 \<or> n = 31" by auto
        then show "bit (b AND push_bit 31 1) n \<longleftrightarrow> bit (push_bit 31 (drop_bit 31 b AND 1)) n"
          by (elim disjE) (simp_all only: bit_simps comp_apply, simp_all)
      qed
    qed
    then have "fst (tu_fp32_to_tf32 b e) = push_bit 31 (f32_sign b) OR push_bit 23 0 OR 0"
      using True x255 unfolding tu_fp32_to_tf32_def f32_mant_def by (simp add: Let_def)
    then show ?thesis using True z f32_field_bounds(1) [of b] by (simp only:) (subst f32_pack_unat; simp)
  next
    case False
    define M where "M = (if up then ?m + 1 else ?m)"
    have M: "unat M = unat (f32_mant b) div 8192 + (if up then 1 else 0)"
      using q by (simp add: M_def unat_drop_bit u32_add_exact)
    have ge: "M \<ge> 0x400 \<longleftrightarrow> unat M \<ge> 1024" by (simp add: word_le_nat_alt)
    define y k where "y = (if M \<ge> 0x400 then f32_exp b + 1 else f32_exp b)" and "k = (if M \<ge> 0x400 then 0 else M)"
    have y: "unat y = unat (f32_exp b) + (if unat M \<ge> 1024 then 1 else 0)"
      using assms(1) by (simp add: y_def ge u32_add_exact)
    have k: "unat k = (if unat M \<ge> 1024 then 0 else unat M)" by (simp add: k_def ge)
    have d: "fst (tu_fp32_to_tf32 b e) = (if y \<ge> 0xFF then push_bit 31 (f32_sign b) OR 0x7F800000
        else push_bit 31 (f32_sign b) OR push_bit 23 y OR push_bit 13 k)"
      unfolding tu_fp32_to_tf32_def f32_mant_def [symmetric]
      by (simp only: Let_def x255 False if_False up prod.case M_def [symmetric]) (simp add: y_def k_def)
    have pk: "unat (push_bit 13 k) = unat k * 8192" by (subst unat_push_bit) (use k in auto)
    have M1024: "unat M \<le> 1024" using M q by (auto simp: unat_drop_bit)
    show ?thesis
    proof (cases "y \<ge> 0xFF")
      case True
      then have "unat y = 255" "unat M \<ge> 1024" using y assms(1) by (auto simp: word_le_nat_alt split: if_splits)
      moreover have "fst (tu_fp32_to_tf32 b e) = push_bit 31 (f32_sign b) OR push_bit 23 0xFF OR 0"
        using True d by simp
      ultimately show ?thesis using y M M1024 f32_field_bounds(1) [of b]
        by (simp only:) (subst f32_pack_unat; simp)
    next
      case F: False
      then have "unat y < 256" by (simp add: word_le_nat_alt)
      moreover have "unat (push_bit 13 k) < 8388608" unfolding pk using k by auto
      ultimately show ?thesis
        unfolding d if_not_P [OF F] using f32_field_bounds(1) [of b] y k M M1024
        by (subst f32_pack_unat; (simp only: pk)?) auto
    qed
  qed
qed

text \<open>
  In the default mode TF32 rounding of any finite float, subnormals included, is rounding of its
  bit pattern to the nearest multiple of \<open>2 ^ 13\<close> with ties to even.
\<close>

theorem tf32_rounds_pattern:
  assumes "unat (f32_exp b) \<le> 254" "fe_mode e = TU_ROUND_RNE"
  shows "nearest_even 13 (unat b) (unat (fst (tu_fp32_to_tf32 b e)) div 8192) \<and>
         8192 dvd unat (fst (tu_fp32_to_tf32 b e))"
proof -
  let ?m = "unat (f32_mant b)"
  define up where "up = (2 * (?m mod 8192) > 8192 \<or> 2 * (?m mod 8192) = 8192 \<and> odd (?m div 8192))"
  define k where "k = unat (f32_sign b) * 262144 + unat (f32_exp b) * 1024"
  define R where "R = ?m div 8192 + (if up then 1 else 0)"
  have t: "tf32_up (f32_mant b) e = (up, e)" using tf32_up_rne [OF assms(2)] by (simp add: up_def)
  have u: "unat (fst (tu_fp32_to_tf32 b e)) = (k + R) * 8192"
    using tf32_finite [OF assms(1) t] by (simp add: up_def k_def R_def algebra_simps)
  have "nearest_even 13 ?m R"
    using nearest_even_div [of 13 ?m] by (simp add: up_def R_def)
  then have "nearest_even 13 (k * 2 ^ 13 + ?m) (k + R)"
    by (rule nearest_even_shift) (simp add: k_def)
  moreover have "k * 2 ^ 13 + ?m = unat b" using f32_split [of b] by (simp add: k_def)
  ultimately show ?thesis by (simp add: u)
qed

theorem tf32_rounds_pattern_witness:
  "nearest_even 13 0x7F7FFFFF (unat (fst (tu_fp32_to_tf32 0x7F7FFFFF fp_env0)) div 8192) \<and>
   fst (tu_fp32_to_tf32 0x7F7FFFFF fp_env0) = 0x7F800000"
proof -
  have c: "unat (f32_exp 0x7F7FFFFF) \<le> 254" "fe_mode fp_env0 = TU_ROUND_RNE"
    "fst (tu_fp32_to_tf32 0x7F7FFFFF fp_env0) = 0x7F800000"
    by code_simp+
  show ?thesis using tf32_rounds_pattern [OF c(1,2)] c(3) by simp
qed

text \<open>
  A NaN whose payload lies in the dropped bits loses it and becomes an infinity, in BF16 and TF32.
\<close>

lemma bf16_nan_becomes_infinity:
  assumes "f32_isnan b" "unat (f32_mant b) < 65536"
  shows "unat (fst (tu_fp32_to_bf16 b e)) = unat (f32_sign b) * 32768 + 255 * 128"
proof -
  have x: "f32_exp b = 255" using assms(1) by (simp add: f32_isnan_def)
  have "unat b div 65536 < 65536" using unat_u32_less [of b] by (simp add: less_mult_imp_div_less del: unat_u32_less)
  then have "unat (ucast (drop_bit 16 b) :: u16) = unat b div 65536"
    by (subst unat_ucast_32_16) (simp_all add: unat_drop_bit)
  also have "\<dots> = unat (f32_sign b) * 32768 + 255 * 128"
    using f32_split [of b] x assms(2) by simp
  finally show ?thesis using x by (simp add: tu_fp32_to_bf16_def exp_mask)
qed

lemma tf32_nan_becomes_infinity:
  assumes "f32_isnan b" "unat (f32_mant b) < 8192"
  shows "f32_isinf (fst (tu_fp32_to_tf32 b e))"
proof -
  have x: "f32_exp b = 255" using assms(1) by (simp add: f32_isnan_def)
  have "unat (b AND 0xFFFFE000) = unat b div 8192 * 8192"
  proof -
    have "unat b div 8192 * 2 ^ 13 < 2 ^ LENGTH(32)"
      using unat_u32_less [of b] by (simp del: unat_u32_less)
    then show ?thesis unfolding low_mask by (subst unat_push_bit) (simp_all add: unat_drop_bit)
  qed
  also have "\<dots> = unat (f32_sign b) * 2147483648 + 255 * 8388608"
  proof -
    have "unat b = (unat (f32_sign b) * 262144 + 261120) * 8192 + unat (f32_mant b)"
      using f32_split [of b] x by simp
    then have "unat b div 8192 = unat (f32_sign b) * 262144 + 261120" using assms(2) by simp
    then show ?thesis by simp
  qed
  finally have "unat (b AND 0xFFFFE000) = unat (f32_sign b) * 2147483648 + 255 * 8388608" .
  then have "f32_exp (b AND 0xFFFFE000) = 255" "f32_mant (b AND 0xFFFFE000) = 0"
    using f32_field_bounds(1) [of b] join3 [of 0 8388608 255 256 "unat (f32_sign b)"]
    by (simp_all add: word_unat_eq_iff f32_fields del: unat_eq_0)
  then show ?thesis using x by (simp add: tu_fp32_to_tf32_def f32_isinf_def)
qed

end
