(* ===== verification/Byte_Buffer.thy ===== *)
theory Byte_Buffer
  imports Prelude "HOL-Library.Monad_Syntax"
begin

text \<open>
  Byte and element buffers as the codecs of \<open>memory/weight_compress.c\<close> use them: \<open>memcpy\<close> of
  little-endian fields into and out of arrays. An access outside the array is undefined behaviour in
  C and the value \<open>None\<close> here, so that staying inside the arrays is a theorem.
\<close>

section \<open>Accesses\<close>

definition load :: "nat \<Rightarrow> nat \<Rightarrow> 'a list \<Rightarrow> 'a list option" where
  "load k off buf = (if off + k \<le> length buf then Some (take k (drop off buf)) else None)"

definition store :: "nat \<Rightarrow> 'a list \<Rightarrow> 'a list \<Rightarrow> 'a list option" where
  "store off vs buf =
    (if off + length vs \<le> length buf
     then Some (take off buf @ vs @ drop (off + length vs) buf) else None)"

text \<open>Little-endian fields.\<close>

fun to_le :: "nat \<Rightarrow> 'a::len word \<Rightarrow> u8 list" where
  "to_le 0 w = []"
| "to_le (Suc k) w = ucast w # to_le k (drop_bit 8 w)"

fun of_le :: "u8 list \<Rightarrow> 'a::len word" where
  "of_le [] = 0"
| "of_le (b # bs) = push_bit 8 (of_le bs) OR ucast b"

definition load16 :: "nat \<Rightarrow> u8 list \<Rightarrow> u16 option" where
  "load16 off buf = map_option of_le (load 2 off buf)"

definition load32 :: "nat \<Rightarrow> u8 list \<Rightarrow> u32 option" where
  "load32 off buf = map_option of_le (load 4 off buf)"

definition store16 :: "nat \<Rightarrow> u16 \<Rightarrow> u8 list \<Rightarrow> u8 list option" where
  "store16 off v buf = store off (to_le 2 v) buf"

definition store32 :: "nat \<Rightarrow> u32 \<Rightarrow> u8 list \<Rightarrow> u8 list option" where
  "store32 off v buf = store off (to_le 4 v) buf"

definition load8 :: "nat \<Rightarrow> u8 list \<Rightarrow> u8 option" where
  "load8 off buf = (if off < length buf then Some (buf ! off) else None)"

definition store8 :: "nat \<Rightarrow> u8 \<Rightarrow> u8 list \<Rightarrow> u8 list option" where
  "store8 off v buf = (if off < length buf then Some (buf[off := v]) else None)"

section \<open>What the accesses do\<close>

lemma length_to_le [simp]: "length (to_le k w) = k"
  by (induction k arbitrary: w) auto

lemma unat_ucast_byte: "unat (ucast (w :: 'a::len word) :: u8) = unat w mod 256"
  by (simp add: unsigned_ucast_eq take_bit_eq_mod)

lemma unat_of_le_to_le:
  fixes w :: "'a::len word"
  assumes "8 * k \<le> LENGTH('b::len)" "LENGTH('b) \<ge> 8"
  shows "unat (of_le (to_le k w) :: 'b word) = unat w mod 256 ^ k"
  using assms(1)
proof (induction k arbitrary: w)
  case (Suc k)
  let ?r = "of_le (to_le k (drop_bit 8 w)) :: 'b word"
  have r: "unat ?r = unat w div 256 mod 256 ^ k"
    using Suc by (simp add: unat_drop_bit)
  have "unat ?r * 2 ^ 8 < 256 ^ k * 2 ^ 8" unfolding r by simp
  also have "\<dots> = (2 ^ 8) ^ Suc k" by simp
  also have "\<dots> = 2 ^ (8 * Suc k)" by (simp only: power_mult)
  also have "\<dots> \<le> (2::nat) ^ LENGTH('b)" using Suc.prems by (intro power_increasing) auto
  finally have p: "unat (push_bit 8 ?r) = unat ?r * 2 ^ 8" by (rule unat_push_bit)
  have b: "unat (ucast (ucast w :: u8) :: 'b word) = unat w mod 256"
  proof -
    have "(2::nat) ^ 8 \<le> 2 ^ LENGTH('b)" using assms(2) by (intro power_increasing) simp_all
    then have "unat (ucast w :: u8) < 2 ^ LENGTH('b)"
      using unat_u8_less [of "ucast w"] by (simp del: unat_u8_less)
    then have "unat (ucast (ucast w :: u8) :: 'b word) = unat (ucast w :: u8)"
      by (subst unsigned_ucast_eq) (rule take_bit_nat_eq_self)
    then show ?thesis by (simp add: unat_ucast_byte)
  qed
  have "unat (push_bit 8 ?r OR ucast (ucast w :: u8)) = unat ?r * 2 ^ 8 + unat w mod 256"
    by (subst unat_or_disjoint [where n = 8]) (simp_all add: p b)
  also have "\<dots> = unat w mod 256 ^ Suc k"
    unfolding r using mod_mult2_eq [of "unat w" 256 "256 ^ k"] by simp
  finally show ?case by simp
qed simp

lemma of_le_to_le16 [simp]: "of_le (to_le 2 w) = (w :: u16)"
  using unat_of_le_to_le [where 'b = 16, of 2 w] by (simp add: word_unat_eq_iff)

lemma of_le_to_le32 [simp]: "of_le (to_le 4 w) = (w :: u32)"
  using unat_of_le_to_le [where 'b = 32, of 4 w] by (simp add: word_unat_eq_iff)

lemma load_at: "length u = off \<Longrightarrow> length v = k \<Longrightarrow> load k off (u @ v @ w) = Some v"
  by (simp add: load_def)

lemma load16_at: "length u = off \<Longrightarrow> load16 off (u @ to_le 2 v @ w) = Some v"
  by (simp add: load16_def load_at)

lemma load32_at: "length u = off \<Longrightarrow> load32 off (u @ to_le 4 v @ w) = Some v"
  by (simp add: load32_def load_at)

lemma load_some: "off + k \<le> length buf \<Longrightarrow> load k off buf \<noteq> None"
  by (simp add: load_def)

lemma load16_some: "off + 2 \<le> length buf \<Longrightarrow> \<exists>v. load16 off buf = Some v"
  by (simp add: load16_def load_def)

lemma load32_some: "off + 4 \<le> length buf \<Longrightarrow> \<exists>v. load32 off buf = Some v"
  by (simp add: load32_def load_def)

lemma store_at:
  "length u = off \<Longrightarrow> length v = length vs \<Longrightarrow> store off vs (u @ v @ w) = Some (u @ vs @ w)"
  by (simp add: store_def)

lemma store_some: "off + length vs \<le> length buf \<Longrightarrow>
  store off vs buf = Some (take off buf @ vs @ drop (off + length vs) buf)"
  by (simp add: store_def)

lemma store_length: "store off vs buf = Some buf' \<Longrightarrow> length buf' = length buf"
  by (auto simp: store_def split: if_splits)

end
