(* ===== verification/Weight_Rle.thy ===== *)
theory Weight_Rle
  imports Byte_Buffer Float_Formats
begin

text \<open>
  The run-length weight stream of \<open>memory/weight_compress.c\<close>: near-equality of halves, the encoder and
  the decoder. Pointers are taken to be valid, so that the tests for \<open>NULL\<close> are left out; the bytes
  behind a pointer are a list and an access outside it is \<open>None\<close>. A call returns its return code, the
  destination buffer and the variable its size pointer refers to. \<open>float\<close> arguments are binary32
  patterns.
\<close>

section \<open>Near-equality of halves\<close>

text \<open>Comparisons of a float with zero; they are false for a NaN.\<close>

definition f32_lt_zero :: "u32 \<Rightarrow> bool" where
  "f32_lt_zero b \<longleftrightarrow> \<not> f32_isnan b \<and> f32_units b < 0"

definition f32_le_zero :: "u32 \<Rightarrow> bool" where
  "f32_le_zero b \<longleftrightarrow> \<not> f32_isnan b \<and> f32_units b \<le> 0"

text \<open>
  A nonnegative number of \<open>2 ^ -149\<close> units rounded to the 24 significant bits of a float, ties to
  even: what the subtraction of two floats returns.
\<close>

fun excess_bits :: "nat \<Rightarrow> nat" where
  "excess_bits d = (if d < 16777216 then 0 else Suc (excess_bits (d div 2)))"

declare excess_bits.simps [simp del]

definition f32_round :: "nat \<Rightarrow> nat" where
  "f32_round d =
    (let k = excess_bits d; q = d div 2 ^ k; r = d mod 2 ^ k
     in (q + (if 2 * r > 2 ^ k \<or> 2 * r = 2 ^ k \<and> odd q then 1 else 0)) * 2 ^ k)"

text \<open>\<open>fabsf(a - b) <= limit\<close> for two numbers that are not NaN and not the same infinity.\<close>

definition f32_within :: "u32 \<Rightarrow> u32 \<Rightarrow> u32 \<Rightarrow> bool" where
  "f32_within a b limit \<longleftrightarrow>
    (if f32_isnan limit then False
     else if f32_isinf limit then f32_sign limit = 0
     else if f32_isinf a \<or> f32_isinf b then False
     else int (f32_round (nat \<bar>f32_units a - f32_units b\<bar>)) \<le> f32_units limit)"

definition fp16_near_equal :: "u16 \<Rightarrow> u16 \<Rightarrow> u32 \<Rightarrow> bool" where
  "fp16_near_equal a b epsilon =
    (if a = b then True
     else if f32_le_zero epsilon then False
     else
       let fa = tu_fp16_to_fp32 a; fb = tu_fp16_to_fp32 b
       in if f32_isnan fa \<or> f32_isnan fb then False else f32_within fa fb epsilon)"

section \<open>The encoder\<close>

fun count_runs_loop :: "u32 \<Rightarrow> u16 list \<Rightarrow> u16 \<Rightarrow> u32 \<Rightarrow> u32" where
  "count_runs_loop epsilon [] current runs = runs"
| "count_runs_loop epsilon (x # xs) current runs =
    (if \<not> fp16_near_equal x current epsilon then count_runs_loop epsilon xs x (runs + 1)
     else count_runs_loop epsilon xs current runs)"

definition count_runs :: "u16 list \<Rightarrow> u32 \<Rightarrow> u32" where
  "count_runs src epsilon =
    (case src of [] \<Rightarrow> 0 | x # xs \<Rightarrow> count_runs_loop epsilon xs x 1)"

text \<open>One run, copied to its place behind the header.\<close>

definition put_run :: "u8 list \<Rightarrow> u32 \<Rightarrow> u16 \<Rightarrow> u32 \<Rightarrow> u8 list option" where
  "put_run dst run_count current_val current_run =
    do { let off = 8 + run_count * 6;
         dst \<leftarrow> store16 (unat off) current_val dst;
         store32 (unat off + 2) current_run dst }"

fun rle_loop :: "u32 \<Rightarrow> u16 list \<Rightarrow> u8 list \<Rightarrow> u32 \<Rightarrow> u16 \<Rightarrow> u32 \<Rightarrow> (u8 list \<times> u32 \<times> u16 \<times> u32) option" where
  "rle_loop epsilon [] dst run_count current_val current_run =
    Some (dst, run_count, current_val, current_run)"
| "rle_loop epsilon (x # xs) dst run_count current_val current_run =
    (if fp16_near_equal x current_val epsilon \<and> current_run < UINT32_MAX
     then rle_loop epsilon xs dst run_count current_val (current_run + 1)
     else do { dst \<leftarrow> put_run dst run_count current_val current_run;
               rle_loop epsilon xs dst (run_count + 1) x 1 })"

text \<open>The loops read all \<open>element_count\<close> elements of \<open>src\<close>.\<close>

definition tu_compress_rle ::
  "u16 list \<Rightarrow> u32 \<Rightarrow> u32 \<Rightarrow> u8 list \<Rightarrow> u32 \<Rightarrow> u32 \<Rightarrow> (int \<times> u8 list \<times> u32) option" where
  "tu_compress_rle src element_count epsilon dst dst_capacity size_out =
    (if f32_lt_zero epsilon then Some (- 1, dst, size_out)
     else if element_count = 0 then Some (0, dst, 0)
     else if element_count > (UINT32_MAX - 8) div 6 then Some (- 1, dst, size_out)
     else if length src < unat element_count then None
     else
       let xs = take (unat element_count) src;
           exact_runs = count_runs xs epsilon;
           required = 8 + exact_runs * 6
       in if dst_capacity < required then Some (- 1, dst, size_out)
          else do {
            (dst, run_count, current_val, current_run) \<leftarrow> rle_loop epsilon (tl xs) dst 0 (hd xs) 1;
            dst \<leftarrow> put_run dst run_count current_val current_run;
            let run_count = run_count + 1;
            dst \<leftarrow> store32 0 element_count dst;
            dst \<leftarrow> store32 4 run_count dst;
            Some (0, dst, 8 + run_count * 6) })"

section \<open>The decoder\<close>

text \<open>The loop over the runs that are left, with whether it ran to its end.\<close>

fun rle_decode :: "nat \<Rightarrow> u32 \<Rightarrow> u8 list \<Rightarrow> u32 \<Rightarrow> u32 \<Rightarrow> u16 list \<Rightarrow> (bool \<times> u16 list \<times> u32) option" where
  "rle_decode 0 i src element_count dst_pos dst = Some (True, dst, dst_pos)"
| "rle_decode (Suc k) i src element_count dst_pos dst =
    do { let roff = 8 + i * 6;
         v \<leftarrow> load16 (unat roff) src;
         c \<leftarrow> load32 (unat roff + 2) src;
         if c = 0 \<or> c > element_count - dst_pos then Some (False, dst, dst_pos)
         else do { dst \<leftarrow> store (unat dst_pos) (replicate (unat c) v) dst;
                   rle_decode k (i + 1) src element_count (dst_pos + c) dst } }"

definition tu_decompress_rle ::
  "u8 list \<Rightarrow> u32 \<Rightarrow> u16 list \<Rightarrow> u32 \<Rightarrow> u32 \<Rightarrow> (int \<times> u16 list \<times> u32) option" where
  "tu_decompress_rle src src_size dst dst_capacity count_out =
    (if src_size < 8 then Some (- 1, dst, count_out)
     else do {
       element_count \<leftarrow> load32 0 src;
       run_count \<leftarrow> load32 4 src;
       if element_count = 0 then
         if run_count \<noteq> 0 then Some (- 1, dst, count_out) else Some (0, dst, 0)
       else if run_count = 0 \<or> run_count > element_count \<or> run_count > (UINT32_MAX - 8) div 6
       then Some (- 1, dst, count_out)
       else
         let expected = 8 + run_count * 6
         in if src_size < expected \<or> dst_capacity < element_count then Some (- 1, dst, count_out)
            else do {
              (ok, dst, dst_pos) \<leftarrow> rle_decode (unat run_count) 0 src element_count 0 dst;
              if \<not> ok \<or> dst_pos \<noteq> element_count then Some (- 1, dst, count_out)
              else Some (0, dst, dst_pos) } })"

definition tu_compress_get_original_count :: "u8 list \<Rightarrow> u32 \<Rightarrow> u32 option" where
  "tu_compress_get_original_count data sz = (if sz \<ge> 4 then load32 0 data else Some 0)"

definition tu_compress_validate :: "u8 list \<Rightarrow> u32 \<Rightarrow> bool option" where
  "tu_compress_validate data sz =
    (if sz < 8 then Some False
     else do {
       n \<leftarrow> load32 0 data;
       runs \<leftarrow> load32 4 data;
       Some (if n = 0 then runs = 0 \<and> sz = 8
             else if runs = 0 \<or> runs > n \<or> runs > (UINT32_MAX - 8) div 6 then False
             else sz = 8 + runs * 6) })"

section \<open>Runs\<close>

text \<open>
  The abstract code: the runs of a list from a run of \<open>k\<close> copies of \<open>cur\<close> on, for a relation of
  near-equality, and the list that runs stand for.
\<close>

fun runs_from :: "('a \<Rightarrow> 'a \<Rightarrow> bool) \<Rightarrow> 'a \<Rightarrow> nat \<Rightarrow> 'a list \<Rightarrow> ('a \<times> nat) list" where
  "runs_from near cur k [] = [(cur, k)]"
| "runs_from near cur k (x # xs) =
    (if near x cur then runs_from near cur (Suc k) xs else (cur, k) # runs_from near x 1 xs)"

definition runs :: "('a \<Rightarrow> 'a \<Rightarrow> bool) \<Rightarrow> 'a list \<Rightarrow> ('a \<times> nat) list" where
  "runs near xs = (case xs of [] \<Rightarrow> [] | x # xs \<Rightarrow> runs_from near x 1 xs)"

definition expand :: "('a \<times> nat) list \<Rightarrow> 'a list" where
  "expand rs = concat (map (\<lambda>(v, k). replicate k v) rs)"

lemma expand_simps [simp]: "expand [] = []" "expand ((v, k) # rs) = replicate k v @ expand rs"
  by (simp_all add: expand_def)

lemma runs_from_ne [simp]: "runs_from near cur k xs \<noteq> []"
  by (induction xs arbitrary: cur k) auto

lemma length_runs_from: "length (runs_from near cur k xs) \<le> Suc (length xs)"
  by (induction xs arbitrary: cur k) (auto simp: le_SucI)

lemma runs_from_counts: "0 < k \<Longrightarrow> (v, c) \<in> set (runs_from near cur k xs) \<Longrightarrow> 0 < c \<and> c \<le> k + length xs"
  by (induction xs arbitrary: cur k) (fastforce split: if_splits)+

lemma length_expand_runs: "length (expand (runs_from near cur k xs)) = k + length xs"
  by (induction xs arbitrary: cur k) auto

text \<open>Every element of a run is near its first element.\<close>

lemma expand_runs_from:
  assumes refl: "\<And>x. near x x"
  shows "list_all2 near (replicate k cur @ xs) (expand (runs_from near cur k xs))"
proof (induction xs arbitrary: cur k)
  case Nil
  show ?case by (simp add: list_all2_conv_all_nth refl)
next
  case (Cons x xs)
  show ?case
  proof (cases "near x cur")
    case True
    let ?ys = "expand (runs_from near cur (Suc k) xs)"
    have ih: "list_all2 near (replicate (Suc k) cur @ xs) ?ys" by (rule Cons.IH)
    have hd: "take (Suc k) ?ys = replicate (Suc k) cur"
    proof -
      have "\<exists>c rs. runs_from near cur j xs = (cur, c) # rs \<and> j \<le> c" for j
        by (induction xs arbitrary: j) (auto, metis Suc_leD)
      then obtain c rs where "runs_from near cur (Suc k) xs = (cur, c) # rs" "Suc k \<le> c" by blast
      then show ?thesis by (simp add: min_def)
    qed
    from ih have "list_all2 near xs (drop (Suc k) ?ys)"
      by (metis append_eq_conv_conj length_replicate list_all2_dropI)
    then have "list_all2 near ((replicate k cur @ [x]) @ xs) (replicate (Suc k) cur @ drop (Suc k) ?ys)"
      by (intro list_all2_appendI) (auto simp: list_all2_conv_all_nth nth_append refl True simp flip: replicate_append_same)
    then show ?thesis using True hd by (metis append.assoc append_Cons append_Nil append_take_drop_id runs_from.simps(2))
  next
    case False
    have "list_all2 near (replicate k cur) (replicate k cur)" by (simp add: list_all2_conv_all_nth refl)
    moreover have "list_all2 near (x # xs) (expand (runs_from near x 1 xs))" using Cons.IH [of 1 x] by simp
    ultimately show ?thesis using False by (simp add: list_all2_appendI)
  qed
qed

lemma expand_runs:
  assumes "\<And>x. near x x" shows "list_all2 near xs (expand (runs near xs))"
proof (cases xs)
  case (Cons y ys)
  then show ?thesis using expand_runs_from [of near 1 y ys] assms by (simp add: runs_def)
qed (simp add: runs_def)

lemma expand_runs_exact: "expand (runs (=) xs) = xs"
  using expand_runs [of "(=)" xs] by (simp add: list.rel_eq)

section \<open>The encoder writes the runs\<close>

definition encode_run :: "u16 \<times> nat \<Rightarrow> u8 list" where
  "encode_run r = to_le 2 (fst r) @ to_le 4 (of_nat (snd r) :: u32)"

definition encode_runs :: "(u16 \<times> nat) list \<Rightarrow> u8 list" where
  "encode_runs rs = concat (map encode_run rs)"

lemma length_encode_run [simp]: "length (encode_run r) = 6"
  by (simp add: encode_run_def)

lemma length_encode_runs [simp]: "length (encode_runs rs) = 6 * length rs"
  by (induction rs) (auto simp: encode_runs_def)

lemma encode_runs_simps [simp]: "encode_runs [] = []" "encode_runs (r # rs) = encode_run r @ encode_runs rs"
  by (simp_all add: encode_runs_def)

text \<open>The stream: two counts and the runs.\<close>

definition rle_stream :: "(u16 \<Rightarrow> u16 \<Rightarrow> bool) \<Rightarrow> u16 list \<Rightarrow> u8 list" where
  "rle_stream near xs = to_le 4 (of_nat (length xs) :: u32) @
     to_le 4 (of_nat (length (runs near xs)) :: u32) @ encode_runs (runs near xs)"

definition near_by :: "u32 \<Rightarrow> u16 \<Rightarrow> u16 \<Rightarrow> bool" where
  "near_by epsilon x y = fp16_near_equal x y epsilon"

lemma near_by_refl: "near_by epsilon x x"
  by (simp add: near_by_def fp16_near_equal_def)

lemma near_by_exact: "f32_le_zero epsilon \<Longrightarrow> near_by epsilon = (=)"
  by (intro ext) (simp add: near_by_def fp16_near_equal_def)

text \<open>Word offsets of the runs.\<close>

lemma unat_run_off:
  assumes "unat rc \<le> 715827881" shows "unat (8 + rc * 6 :: u32) = 8 + 6 * unat rc"
proof -
  have "unat (rc * 6) = unat rc * 6" using assms by (subst u32_mult_exact) simp_all
  then show ?thesis using assms by (subst u32_add_exact) simp_all
qed

lemma put_run_at:
  assumes "length H = 8" "length E = 6 * unat rc" "6 \<le> length T" "unat rc \<le> 715827881"
  shows "put_run (H @ E @ T) rc v k = Some (H @ (E @ to_le 2 v @ to_le 4 k) @ drop 6 T)"
proof -
  define A B where "A = take 2 T" and "B = take 4 (drop 2 T)"
  have "drop 2 T = B @ drop 6 T" using append_take_drop_id [of 4 "drop 2 T"] by (simp add: B_def)
  then have T: "T = A @ B @ drop 6 T" using append_take_drop_id [of 2 T] by (metis A_def)
  have l: "length A = 2" "length B = 4" using assms(3) by (simp_all add: A_def B_def)
  have s1: "store16 (8 + 6 * unat rc) v (H @ E @ T) = Some ((H @ E) @ to_le 2 v @ B @ drop 6 T)"
    using store_at [of "H @ E" "8 + 6 * unat rc" A "to_le 2 v" "B @ drop 6 T"] assms l T
    by (simp add: store16_def)
  have s2: "store32 (8 + 6 * unat rc + 2) k ((H @ E) @ to_le 2 v @ B @ drop 6 T) =
      Some ((H @ E @ to_le 2 v) @ to_le 4 k @ drop 6 T)"
    using store_at [of "H @ E @ to_le 2 v" "8 + 6 * unat rc + 2" B "to_le 4 k" "drop 6 T"] assms l
    by (simp add: store32_def)
  show ?thesis unfolding put_run_def Let_def unat_run_off [OF assms(4)] s1 bind.bind_lunit s2 by simp
qed

text \<open>The loop and the last run, from any point of the stream on.\<close>

lemma rle_loop_writes:
  assumes "length H = 8" "length E = 6 * unat rc" "unat run + length xs < 4294967295"
    "6 * length (runs_from (near_by eps) cur (unat run) xs) \<le> length T"
    "unat rc + length (runs_from (near_by eps) cur (unat run) xs) \<le> 715827881"
  shows "do { (dst, rc, cur, run) \<leftarrow> rle_loop eps xs (H @ E @ T) rc cur run;
              dst \<leftarrow> put_run dst rc cur run; Some (dst, rc + 1) } =
    Some (H @ (E @ encode_runs (runs_from (near_by eps) cur (unat run) xs)) @
            drop (6 * length (runs_from (near_by eps) cur (unat run) xs)) T,
          rc + of_nat (length (runs_from (near_by eps) cur (unat run) xs)))"
  using assms
proof (induction xs arbitrary: E rc cur run T)
  case Nil
  then show ?case by (simp add: put_run_at encode_run_def)
next
  case (Cons x xs)
  let ?N = "near_by eps"
  have lt: "run < UINT32_MAX" using Cons.prems(3) by (simp add: word_less_nat_alt)
  show ?case
  proof (cases "?N x cur")
    case True
    have u: "unat (run + 1) = Suc (unat run)" using Cons.prems(3) by (simp add: u32_add_exact)
    have c: "fp16_near_equal x cur eps \<and> run < UINT32_MAX" using True lt by (simp add: near_by_def)
    have r: "runs_from ?N cur (unat run) (x # xs) = runs_from ?N cur (unat (run + 1)) xs"
      unfolding u using True by simp
    show ?thesis unfolding rle_loop.simps(2) if_P [OF c] r
      by (rule Cons.IH) (use Cons.prems r u in simp_all)
  next
    case False
    have c: "\<not> (fp16_near_equal x cur eps \<and> run < UINT32_MAX)" using False by (simp add: near_by_def)
    let ?rs = "runs_from ?N x (unat (1 :: u32)) xs"
    have r: "runs_from ?N cur (unat run) (x # xs) = (cur, unat run) # ?rs" using False by simp
    have ne: "0 < length ?rs" by (simp only: length_greater_0_conv runs_from_ne not_False_eq_True)
    have rc: "unat rc \<le> 715827880" "unat (rc + 1) = Suc (unat rc)"
      using Cons.prems(5) unfolding r by (simp_all add: u32_add_exact)
    have p: "put_run (H @ E @ T) rc cur run = Some (H @ (E @ to_le 2 cur @ to_le 4 run) @ drop 6 T)"
      by (rule put_run_at) (use Cons.prems(1,2,4) r rc in simp_all)
    have e: "encode_run (cur, unat run) = to_le 2 cur @ to_le 4 run" by (simp add: encode_run_def)
    have "do { (dst, rc, cur, run) \<leftarrow> rle_loop eps xs (H @ (E @ to_le 2 cur @ to_le 4 run) @ drop 6 T) (rc + 1) x 1;
              dst \<leftarrow> put_run dst rc cur run; Some (dst, rc + 1) } =
      Some (H @ ((E @ to_le 2 cur @ to_le 4 run) @ encode_runs ?rs) @ drop (6 * length ?rs) (drop 6 T),
          rc + 1 + of_nat (length ?rs))"
      by (rule Cons.IH) (use Cons.prems r rc in simp_all)
    then show ?thesis unfolding rle_loop.simps(2) if_not_P [OF c] p bind.bind_lunit r
      by (simp add: e add.commute add.left_commute)
  qed
qed

lemma count_runs_loop_runs:
  "unat k + length (runs_from (near_by eps) cur j xs) \<le> 4294967296 \<Longrightarrow>
   unat (count_runs_loop eps xs cur k) + 1 = unat k + length (runs_from (near_by eps) cur j xs)"
proof (induction xs arbitrary: cur k j)
  case (Cons x xs)
  show ?case
  proof (cases "near_by eps x cur")
    case True
    then show ?thesis using Cons.IH [of k cur "Suc j"] Cons.prems by (simp add: near_by_def)
  next
    case False
    have ne: "0 < length (runs_from (near_by eps) x 1 xs)" by simp
    have "unat k + Suc (length (runs_from (near_by eps) x 1 xs)) \<le> 4294967296" using Cons.prems False by simp
    then have "unat k + 1 < 4294967296" using ne by linarith
    then have "unat (k + 1) = unat k + 1" by (simp add: u32_add_exact)
    then show ?thesis using Cons.IH [of "k + 1" x 1] Cons.prems False by (simp add: near_by_def)
  qed
qed simp

lemma count_runs_length:
  assumes "length xs < 4294967295"
  shows "unat (count_runs xs eps) = length (runs (near_by eps) xs)"
proof (cases xs)
  case (Cons y ys)
  have "length (runs_from (near_by eps) y 1 ys) \<le> Suc (length ys)" by (rule length_runs_from)
  then show ?thesis using count_runs_loop_runs [of 1 eps y 1 ys] assms Cons
    by (simp add: count_runs_def runs_def)
qed (simp add: count_runs_def runs_def)

lemma length_runs: "length (runs near xs) \<le> length xs"
  using length_runs_from by (cases xs) (simp_all add: runs_def Suc_le_eq)

lemma runs_nonempty: "xs \<noteq> [] \<Longrightarrow> 0 < length (runs near xs)"
  by (cases xs) (simp_all add: runs_def)

lemma length_rle_stream: "length (rle_stream near xs) = 8 + 6 * length (runs near xs)"
  by (simp add: rle_stream_def)

lemma store_header:
  assumes "length H = 8"
  shows "do { dst \<leftarrow> store32 0 a (H @ R); dst \<leftarrow> store32 4 b dst; f dst } = f (to_le 4 a @ to_le 4 b @ R)"
proof -
  define A B where "A = take 4 H" and "B = drop 4 H"
  have H: "H = A @ B" "length A = 4" "length B = 4" using assms by (simp_all add: A_def B_def)
  show ?thesis
    using store_at [of "[]" 0 A "to_le 4 a" "B @ R"] store_at [of "to_le 4 a" 4 B "to_le 4 b" R] H
    by (simp add: store32_def)
qed

text \<open>
  What the encoder returns in every case: it rejects a negative tolerance, more elements than sizes of
  32 bits can count and a destination that is too small; otherwise it writes the stream of the runs.
\<close>

lemma compress_rle_cases:
  fixes n cap eps so :: u32
  assumes src: "unat n \<le> length src" and dst: "unat cap \<le> length dst"
  defines "S \<equiv> rle_stream (near_by eps) (take (unat n) src)"
  shows "tu_compress_rle src n eps dst cap so =
    (if f32_lt_zero eps \<or> unat n > 715827881 then Some (- 1, dst, so)
     else if n = 0 then Some (0, dst, 0)
     else if unat cap < length S then Some (- 1, dst, so)
     else Some (0, S @ drop (length S) dst, of_nat (length S)))"
proof -
  let ?xs = "take (unat n) src" and ?N = "near_by eps"
  have big: "n > (UINT32_MAX - 8) div 6 \<longleftrightarrow> unat n > 715827881"
    by (simp add: word_less_nat_alt)
  show ?thesis
  proof (cases "f32_lt_zero eps \<or> unat n > 715827881 \<or> n = 0")
    case True
    then show ?thesis unfolding tu_compress_rle_def big by auto
  next
    case F: False
    have n0: "0 < unat n" using F by (simp add: unat_gt_0)
    have l: "length ?xs = unat n" using src by simp
    obtain y ys where xs: "?xs = y # ys" using l n0 by (cases ?xs) auto
    have ys: "Suc (length ys) = unat n" using l xs by simp
    have rs: "runs ?N ?xs = runs_from ?N y 1 ys" by (simp add: xs runs_def)
    have rl: "length (runs ?N ?xs) \<le> unat n" using length_runs [of ?N ?xs] l by simp
    have rl': "length (runs ?N ?xs) \<le> 715827881" using rl F by simp
    have cr: "unat (count_runs ?xs eps) = length (runs ?N ?xs)"
      by (rule count_runs_length) (use F l in simp)
    have req: "unat (8 + count_runs ?xs eps * 6) = length S"
      using rl' cr by (simp add: S_def length_rle_stream unat_add_small unat_mult_small)
    have noNone: "\<not> length src < unat n" using src by simp
    show ?thesis
    proof (cases "unat cap < length S")
      case True
      then show ?thesis unfolding tu_compress_rle_def big using F noNone
        by (simp add: Let_def word_less_nat_alt req)
    next
      case fits: False
      have S: "length S = 8 + 6 * length (runs ?N ?xs)" by (simp add: S_def length_rle_stream)
      define H T where "H = take 8 dst" and "T = drop 8 dst"
      have HT: "dst = H @ [] @ T" "length H = 8" "6 * length (runs ?N ?xs) \<le> length T"
        using dst fits S by (simp_all add: H_def T_def)
      have w: "do { (dst, rc, cur, run) \<leftarrow> rle_loop eps ys dst 0 y 1;
              dst \<leftarrow> put_run dst rc cur run; Some (dst, rc + 1) } =
          Some (H @ ([] @ encode_runs (runs ?N ?xs)) @ drop (6 * length (runs ?N ?xs)) T,
                0 + of_nat (length (runs ?N ?xs)))"
        unfolding rs HT(1)
        using rle_loop_writes [of H "[]" 0 1 ys eps y T] HT(2,3) rs rl' ys F by simp
      have rc: "unat (of_nat (length (runs ?N ?xs)) :: u32) = length (runs ?N ?xs)"
        using rl' by (simp add: unsigned_of_nat take_bit_nat_eq_self)
      have sz: "8 + of_nat (length (runs ?N ?xs)) * 6 = (of_nat (length S) :: u32)"
        by (simp add: S)
      have tail: "drop (6 * length (runs ?N ?xs)) T = drop (length S) dst"
        by (simp add: T_def S add.commute)
      have e: "f32_lt_zero eps = False" "(n = 0) = False" "(unat n > 715827881) = False"
        "(cap < 8 + count_runs ?xs eps * 6) = False" "(length src < unat n) = False"
        using F fits req src by (simp_all add: word_less_nat_alt)
      have g: "do { (dst, rc, cur, run) \<leftarrow> rle_loop eps ys dst 0 y 1;
              dst \<leftarrow> put_run dst rc cur run; f dst (rc + 1) } =
          (case do { (dst, rc, cur, run) \<leftarrow> rle_loop eps ys dst 0 y 1;
              dst \<leftarrow> put_run dst rc cur run; Some (dst, rc + 1) } of None \<Rightarrow> None | Some (d, r) \<Rightarrow> f d r)" for f
        by (cases "rle_loop eps ys dst 0 y 1") (auto split: option.split bind_splits)
      show ?thesis
        unfolding tu_compress_rle_def big e if_False Let_def simp_thms
        unfolding xs list.sel
          g [of "\<lambda>d r. do { dst \<leftarrow> store32 0 n d; dst \<leftarrow> store32 4 r dst; Some (0, dst, 8 + r * 6) }"]
          w option.case prod.case
        using fits l by (simp add: store_header [OF HT(2)] tail sz S_def rle_stream_def xs [symmetric])
    qed
  qed
qed

section \<open>The decoder reads the runs\<close>

declare unat_of_nat_u32 [simp]

lemma load_run:
  assumes "length A = off"
  shows "load16 off (A @ encode_run (v, c) @ B) = Some v"
    and "load32 (off + 2) (A @ encode_run (v, c) @ B) = Some (of_nat c)"
  using load16_at [of A off v "to_le 4 (of_nat c :: u32) @ B"]
    load32_at [of "A @ to_le 2 v" "off + 2" "of_nat c" B] assms
  by (simp_all add: encode_run_def)

lemma rle_decode_runs:
  assumes "length A = 8 + 6 * unat i" "unat i + length rs \<le> 715827881"
    "list_all (\<lambda>r. 0 < snd r) rs" "unat pos + length (expand rs) = unat n"
    "length L = unat pos" "length (expand rs) \<le> length D"
  shows "rle_decode (length rs) i (A @ encode_runs rs @ B) n pos (L @ D) =
    Some (True, L @ expand rs @ drop (length (expand rs)) D, n)"
  using assms
proof (induction rs arbitrary: A i pos L D)
  case Nil
  then show ?case by (simp add: word_unat_eq_iff)
next
  case (Cons r rs)
  obtain v c where r: "r = (v, c)" by force
  have c: "0 < c" "unat pos + c + length (expand rs) = unat n" using Cons.prems(3,4) by (simp_all add: r)
  have uc: "unat (of_nat c :: u32) = c" using c(2) unat_u32_less [of n] by (intro unat_of_nat_u32) linarith
  have "unat pos + c < 4294967296" using c(2) unat_u32_less [of n] by linarith
  then have pos: "unat (pos + of_nat c) = unat pos + c" by (simp add: u32_add_exact uc)
  have i: "unat (i + 1) = Suc (unat i)" using Cons.prems(2) by (simp add: u32_add_exact)
  have off: "unat (8 + i * 6) = 8 + 6 * unat i" using Cons.prems(2) by (intro unat_run_off) simp
  have ok: "\<not> ((of_nat c :: u32) = 0 \<or> of_nat c > n - pos)"
  proof -
    have "pos \<le> n" using c(2) by (simp add: word_le_nat_alt)
    then have "unat (n - pos) = unat n - unat pos" by (rule unat_sub_le)
    then have "\<not> of_nat c > n - pos" using c(2) by (simp add: word_less_nat_alt uc)
    moreover have "(of_nat c :: u32) \<noteq> 0" using uc c(1) by (metis less_irrefl unat_0)
    ultimately show ?thesis by blast
  qed
  have st: "store (unat pos) (replicate (unat (of_nat c :: u32)) v) (L @ D) =
      Some ((L @ replicate c v) @ drop c D)"
    using Cons.prems(5,6) by (simp add: store_def uc r)
  have ih: "rle_decode (length rs) (i + 1) ((A @ encode_run r) @ encode_runs rs @ B) n (pos + of_nat c)
      ((L @ replicate c v) @ drop c D) =
    Some (True, (L @ replicate c v) @ expand rs @ drop (length (expand rs)) (drop c D), n)"
    by (rule Cons.IH) (use Cons.prems i pos c(2) in \<open>simp_all add: r\<close>)
  show ?case
    unfolding list.size(4) add_Suc_right add_0_right rle_decode.simps(2) Let_def off
    using load_run [OF Cons.prems(1), of v c "encode_runs rs @ B"] ih ok st
    by (simp add: r add.commute)
qed

lemma decompress_rle_stream:
  assumes xs: "xs \<noteq> []" "length xs \<le> 715827881"
    and room: "length xs \<le> unat cap" "unat cap \<le> length out"
    and sz: "length (rle_stream near xs) \<le> unat sz"
  shows "tu_decompress_rle (rle_stream near xs @ rest) sz out cap cnt =
    Some (0, expand (runs near xs) @ drop (length xs) out, of_nat (length xs))"
proof -
  let ?rs = "runs near xs"
  have len: "length (expand ?rs) = length xs" using xs(1) by (cases xs) (simp_all add: runs_def length_expand_runs)
  have pos: "list_all (\<lambda>r. 0 < snd r) ?rs"
    using xs(1) runs_from_counts [of 1] by (cases xs) (fastforce simp: runs_def list_all_iff)+
  have rl: "0 < length ?rs" "length ?rs \<le> length xs" by (rule runs_nonempty [OF xs(1)], rule length_runs)
  have u: "unat (of_nat (length xs) :: u32) = length xs" "unat (of_nat (length ?rs) :: u32) = length ?rs"
    using xs(2) rl(2) by simp_all
  have l1: "load32 0 (rle_stream near xs @ rest) = Some (of_nat (length xs))"
    using load32_at [of "[]" 0] by (simp add: rle_stream_def)
  have l2: "load32 4 (rle_stream near xs @ rest) = Some (of_nat (length ?rs))"
    using load32_at [of "to_le 4 (of_nat (length xs) :: u32)" 4] by (simp add: rle_stream_def)
  have e: "unat (8 + of_nat (length ?rs) * 6 :: u32) = 8 + 6 * length ?rs"
    using rl(2) xs(2) u(2) by (subst unat_run_off) simp_all
  have g: "(of_nat (length xs) :: u32) \<noteq> 0" "(of_nat (length ?rs) :: u32) \<noteq> 0"
    using u rl xs(1) by (metis length_greater_0_conv less_irrefl unat_0)+
  have c1: "\<not> sz < 8" "\<not> sz < 8 + of_nat (length ?rs) * 6" "\<not> cap < of_nat (length xs)"
    using sz room u e by (simp_all add: word_less_nat_alt length_rle_stream)
  have c2: "\<not> (of_nat (length ?rs) :: u32) > of_nat (length xs)"
    "\<not> (of_nat (length ?rs) :: u32) > (UINT32_MAX - 8) div 6"
    using rl(2) xs(2) u by (simp_all add: word_less_nat_alt)
  have d: "rle_decode (length ?rs) 0 (rle_stream near xs @ rest) (of_nat (length xs)) 0 out =
      Some (True, expand ?rs @ drop (length xs) out, of_nat (length xs))"
    using rle_decode_runs [of "take 8 (rle_stream near xs)" 0 ?rs 0 "of_nat (length xs)" "[]" out rest]
      pos rl(2) xs(2) room u(1) by (simp add: len rle_stream_def)
  show ?thesis unfolding tu_decompress_rle_def l1 l2 bind.bind_lunit
    using g c1 c2 d by (simp add: u(2) Let_def)
qed

text \<open>
  Whatever the run-length encoder accepts, the decoder accepts: it returns the same number of
  elements, each near the original under the tolerance (the elements themselves for a tolerance that is
  not positive), and leaves the rest of the output buffer alone.
\<close>

lemma rle_roundtrip:
  assumes enc: "tu_compress_rle src n eps dst cap so = Some (0, enc, sz)"
    and ptr: "unat n \<le> length src" "unat cap \<le> length dst" and "n \<noteq> 0"
    and room: "unat n \<le> unat ocap" "unat ocap \<le> length out"
  shows "\<exists>ys. tu_decompress_rle enc sz out ocap cnt = Some (0, ys @ drop (unat n) out, n) \<and>
              list_all2 (near_by eps) (take (unat n) src) ys \<and>
              (ys = take (unat n) src \<or> \<not> f32_le_zero eps)"
proof -
  let ?xs = "take (unat n) src" and ?N = "near_by eps"
  have l: "length ?xs = unat n" using ptr by simp
  have b: "unat n \<le> 715827881" and e: "enc = rle_stream ?N ?xs @ drop (length (rle_stream ?N ?xs)) dst"
    "sz = of_nat (length (rle_stream ?N ?xs))"
    using enc \<open>n \<noteq> 0\<close> by (auto simp: compress_rle_cases [OF ptr] split: if_splits)
  have xs: "?xs \<noteq> []" using l \<open>n \<noteq> 0\<close> by (metis length_0_conv unat_eq_0)
  have "length (rle_stream ?N ?xs) < 4294967296"
    using length_runs [of ?N ?xs] l b by (simp add: length_rle_stream)
  then have "unat sz = length (rle_stream ?N ?xs)" by (simp add: e(2))
  then have "tu_decompress_rle enc sz out ocap cnt = Some (0, expand (runs ?N ?xs) @ drop (length ?xs) out, of_nat (length ?xs))"
    unfolding e(1) by (intro decompress_rle_stream) (use xs l b room in simp_all)
  moreover have "list_all2 ?N ?xs (expand (runs ?N ?xs))" by (rule expand_runs) (rule near_by_refl)
  moreover have "expand (runs ?N ?xs) = ?xs \<or> \<not> f32_le_zero eps"
    using expand_runs_exact [of ?xs] near_by_exact [of eps] by metis
  ultimately show ?thesis unfolding l by (intro exI [of _ "expand (runs ?N ?xs)"]) simp
qed

section \<open>Arbitrary input\<close>

text \<open>
  A decoder result that respects the destination: a return code of 0 or -1, nothing behind the
  capacity is changed, and a count is reported exactly with success and fits the capacity.
\<close>

definition decoded_inside :: "u32 \<Rightarrow> u16 list \<Rightarrow> u32 \<Rightarrow> (int \<times> u16 list \<times> u32) option \<Rightarrow> bool" where
  "decoded_inside cap out cnt r =
    (case r of None \<Rightarrow> False
     | Some (rc, out', cnt') \<Rightarrow>
         length out' = length out \<and> drop (unat cap) out' = drop (unat cap) out \<and>
         (rc = 0 \<and> cnt' \<le> cap \<or> rc = - 1 \<and> cnt' = cnt))"

lemma rle_decode_inside:
  assumes "8 + 6 * (unat i + k) \<le> length src" "unat i + k \<le> 715827881" "unat pos \<le> unat n" "unat n \<le> length out"
  shows "\<exists>ok out' pos'. rle_decode k i src n pos out = Some (ok, out', pos') \<and>
    length out' = length out \<and> drop (unat n) out' = drop (unat n) out"
  using assms
proof (induction k arbitrary: i pos out)
  case (Suc k)
  have off: "unat (8 + i * 6) = 8 + 6 * unat i" using Suc.prems(2) by (intro unat_run_off) simp
  have "unat (8 + i * 6) + 2 \<le> length src" "unat (8 + i * 6) + 2 + 4 \<le> length src"
    unfolding off using Suc.prems(1) by simp_all
  then obtain v c where v: "load16 (unat (8 + i * 6)) src = Some v" and c: "load32 (unat (8 + i * 6) + 2) src = Some c"
    by (meson load16_some load32_some)
  show ?case
  proof (cases "c = 0 \<or> c > n - pos")
    case True
    then show ?thesis using v c by (auto simp: Let_def)
  next
    case False
    have "pos \<le> n" using Suc.prems(3) by (simp add: word_le_nat_alt)
    then have "unat c \<le> unat n - unat pos" using False by (simp add: word_less_nat_alt unat_sub_le)
    then have b: "unat pos + unat c \<le> unat n" using Suc.prems(3) by simp
    then have p: "unat (pos + c) = unat pos + unat c" using unat_u32_less [of n]
      by (intro u32_add_exact) linarith
    have i: "unat (i + 1) = Suc (unat i)" using Suc.prems(2) by (simp add: u32_add_exact)
    let ?o = "take (unat pos) out @ replicate (unat c) v @ drop (unat pos + unat c) out"
    have s: "store (unat pos) (replicate (unat c) v) out = Some ?o"
      using b Suc.prems(4) by (simp add: store_def)
    have o: "length ?o = length out" "drop (unat n) ?o = drop (unat n) out" using b Suc.prems(4) by simp_all
    have "\<exists>ok out' pos'. rle_decode k (i + 1) src n (pos + c) ?o = Some (ok, out', pos') \<and>
        length out' = length ?o \<and> drop (unat n) out' = drop (unat n) ?o"
      by (rule Suc.IH) (use Suc.prems b p i o(1) in simp_all)
    then show ?thesis using v c s False o by (simp add: Let_def)
  qed
qed auto

lemma drop_beyond: "drop n xs = drop n ys \<Longrightarrow> n \<le> m \<Longrightarrow> drop m xs = drop m ys"
  by (metis drop_drop le_add_diff_inverse2)

lemma decompress_rle_inside:
  assumes "unat sz \<le> length src" "unat cap \<le> length out"
  shows "decoded_inside cap out cnt (tu_decompress_rle src sz out cap cnt)"
proof (cases "sz < 8")
  case True
  then show ?thesis by (simp add: tu_decompress_rle_def decoded_inside_def)
next
  case False
  then have "8 \<le> unat sz" by (simp add: word_less_nat_alt)
  then have "0 + 4 \<le> length src" "4 + 4 \<le> length src" using assms(1) by simp_all
  then obtain n r where l: "load32 0 src = Some n" "load32 4 src = Some r"
    by (meson load32_some)
  show ?thesis
  proof (cases "n = 0 \<or> r = 0 \<or> r > n \<or> r > (UINT32_MAX - 8) div 6 \<or> sz < 8 + r * 6 \<or> cap < n")
    case True
    then show ?thesis using l False by (auto simp: tu_decompress_rle_def decoded_inside_def Let_def)
  next
    case F: False
    have r: "unat r \<le> 715827881" using F by (simp add: word_less_nat_alt)
    have sz: "8 + 6 * unat r \<le> unat sz" using F unat_run_off [OF r] by (simp add: word_less_nat_alt)
    have n: "unat n \<le> unat cap" using F by (simp add: word_less_nat_alt)
    have "\<exists>ok out' pos'. rle_decode (unat r) 0 src n 0 out = Some (ok, out', pos') \<and>
      length out' = length out \<and> drop (unat n) out' = drop (unat n) out"
      by (rule rle_decode_inside) (use assms sz r n in simp_all)
    then obtain ok out' pos' where d: "rle_decode (unat r) 0 src n 0 out = Some (ok, out', pos')"
      "length out' = length out" "drop (unat n) out' = drop (unat n) out" by blast
    have t: "drop (unat cap) out' = drop (unat cap) out" by (rule drop_beyond [OF d(3) n])
    have "tu_decompress_rle src sz out cap cnt =
        (if \<not> ok \<or> pos' \<noteq> n then Some (- 1, out', cnt) else Some (0, out', pos'))"
      using l False F d(1) by (auto simp: tu_decompress_rle_def Let_def)
    then show ?thesis using d(2) t F by (auto simp: decoded_inside_def)
  qed
qed

section \<open>Validation and the empty stream\<close>

lemma load_stream_header:
  "load32 0 (rle_stream near xs @ rest) = Some (of_nat (length xs))"
  "load32 4 (rle_stream near xs @ rest) = Some (of_nat (length (runs near xs)))"
  using load32_at [of "[]" 0] load32_at [of "to_le 4 (of_nat (length xs) :: u32)" 4]
  by (simp_all add: rle_stream_def)

lemma validate_rle_stream:
  assumes "xs \<noteq> []" "length xs \<le> 715827881"
  shows "tu_compress_validate (rle_stream near xs @ rest) (of_nat (length (rle_stream near xs))) = Some True"
    and "tu_compress_get_original_count (rle_stream near xs @ rest) (of_nat (length (rle_stream near xs))) =
      Some (of_nat (length xs))"
proof -
  let ?r = "length (runs near xs)"
  have rl: "0 < ?r" "?r \<le> length xs" by (rule runs_nonempty [OF assms(1)], rule length_runs)
  have u: "unat (of_nat (length xs) :: u32) = length xs" "unat (of_nat ?r :: u32) = ?r"
    using rl assms(2) by simp_all
  have L: "unat (of_nat (length (rle_stream near xs)) :: u32) = 8 + 6 * ?r"
    unfolding length_rle_stream using rl assms(2) by (intro unat_of_nat_u32) simp
  have "(of_nat (length xs) :: u32) \<noteq> 0" "(of_nat ?r :: u32) \<noteq> 0"
    using u rl assms(1) by (metis length_greater_0_conv less_irrefl unat_0)+
  moreover have "\<not> (of_nat ?r :: u32) > of_nat (length xs)" "\<not> (of_nat ?r :: u32) > (UINT32_MAX - 8) div 6"
    using rl assms(2) u by (simp_all add: word_less_nat_alt)
  moreover have "of_nat (length (rle_stream near xs)) = (8 + of_nat ?r * 6 :: u32)"
    by (simp add: length_rle_stream)
  moreover have "\<not> (of_nat (length (rle_stream near xs)) :: u32) < 8" "(of_nat (length (rle_stream near xs)) :: u32) \<ge> 4"
    using L by (simp_all add: word_less_nat_alt word_le_nat_alt)
  ultimately show "tu_compress_validate (rle_stream near xs @ rest) (of_nat (length (rle_stream near xs))) = Some True"
    "tu_compress_get_original_count (rle_stream near xs @ rest) (of_nat (length (rle_stream near xs))) =
      Some (of_nat (length xs))"
    by (simp_all add: tu_compress_validate_def tu_compress_get_original_count_def load_stream_header)
qed

text \<open>
  An empty weight stream does not round trip: the encoder reports success with zero bytes, and
  the decoder and the validator reject a stream of zero bytes.
\<close>

theorem rle_empty_is_rejected:
  assumes "\<not> f32_lt_zero eps"
  shows "tu_compress_rle src 0 eps dst cap so = Some (0, dst, 0) \<and>
         tu_decompress_rle dst 0 out ocap cnt = Some (- 1, out, cnt) \<and>
         tu_compress_validate dst 0 = Some False"
  using assms by (simp add: tu_compress_rle_def tu_decompress_rle_def tu_compress_validate_def)

theorem rle_empty_is_rejected_witness:
  "tu_compress_rle [] 0 0x3F800000 [1, 2] 2 9 = Some (0, [1, 2], 0) \<and>
   tu_decompress_rle [1, 2] 0 [4] 1 7 = Some (- 1, [4], 7)"
proof -
  have "\<not> f32_lt_zero 0x3F800000" by code_simp
  then show ?thesis using rle_empty_is_rejected [of "0x3F800000" "[]" "[1, 2]" 2 9 "[4]" 1 7] by simp
qed

end
