(* ===== verification/Weight_Bitmap.thy ===== *)
theory Weight_Bitmap
  imports Weight_Rle
begin

text \<open>
  The exact bitmap weight stream of \<open>memory/weight_compress.c\<close>: a bit per element, then the nonzero
  halves. The conventions are those of the run-length stream.
\<close>

section \<open>The encoder\<close>

definition count_nonzero_bits :: "u16 list \<Rightarrow> u32" where
  "count_nonzero_bits src = foldl (\<lambda>c x. if x \<noteq> 0 then c + 1 else c) 0 src"

text \<open>The loop over the elements from index \<open>i\<close> on.\<close>

fun bitmap_loop :: "u16 list \<Rightarrow> u32 \<Rightarrow> u32 \<Rightarrow> u8 list \<Rightarrow> u8 list option" where
  "bitmap_loop [] i value_off dst = Some dst"
| "bitmap_loop (x # xs) i value_off dst =
    (if x = 0 then bitmap_loop xs (i + 1) value_off dst
     else do { b \<leftarrow> load8 (unat (8 + i div 8)) dst;
               dst \<leftarrow> store8 (unat (8 + i div 8)) (b OR ucast (push_bit (unat (i mod 8)) 1 :: u32)) dst;
               dst \<leftarrow> store16 (unat value_off) x dst;
               bitmap_loop xs (i + 1) (value_off + 2) dst })"

definition tu_compress_bitmap ::
  "u16 list \<Rightarrow> u32 \<Rightarrow> u8 list \<Rightarrow> u32 \<Rightarrow> u32 \<Rightarrow> (int \<times> u8 list \<times> u32) option" where
  "tu_compress_bitmap src n dst cap size_out =
    (if n > UINT32_MAX - 7 then Some (- 1, dst, size_out)
     else if length src < unat n then None
     else
       let xs = take (unat n) src;
           bitmap_bytes = (n + 7) div 8;
           nnz = count_nonzero_bits xs;
           required64 = 8 + (ucast bitmap_bytes :: u64) + ucast nnz * 2;
           required = ucast required64
       in if required64 > ucast UINT32_MAX \<or> cap < required then Some (- 1, dst, size_out)
          else do {
            dst \<leftarrow> store32 0 n dst;
            dst \<leftarrow> store32 4 nnz dst;
            dst \<leftarrow> (if bitmap_bytes \<noteq> 0 then store 8 (replicate (unat bitmap_bytes) 0) dst else Some dst);
            dst \<leftarrow> bitmap_loop xs 0 (8 + bitmap_bytes) dst;
            Some (0, dst, required) })"

section \<open>Validation and the decoder\<close>

text \<open>Bit \<open>i\<close> of the map.\<close>

definition bitmap_bit :: "u8 list \<Rightarrow> u32 \<Rightarrow> bool option" where
  "bitmap_bit src i =
    do { b \<leftarrow> load8 (unat (8 + i div 8)) src;
         Some (drop_bit (unat (i mod 8)) b AND 1 \<noteq> 0) }"

fun observed_loop :: "nat \<Rightarrow> u32 \<Rightarrow> u8 list \<Rightarrow> u32 \<Rightarrow> u32 option" where
  "observed_loop 0 i src observed = Some observed"
| "observed_loop (Suc k) i src observed =
    do { b \<leftarrow> bitmap_bit src i;
         observed_loop k (i + 1) src (observed + (if b then 1 else 0)) }"

definition tu_compress_bitmap_validate :: "u8 list \<Rightarrow> u32 \<Rightarrow> bool option" where
  "tu_compress_bitmap_validate src sz =
    (if sz < 8 then Some False
     else do {
       n \<leftarrow> load32 0 src;
       nnz \<leftarrow> load32 4 src;
       if n > UINT32_MAX - 7 \<or> nnz > n then Some False
       else
         let bitmap_bytes = (n + 7) div 8;
             expected = 8 + (ucast bitmap_bytes :: u64) + ucast nnz * 2
         in if expected \<noteq> ucast sz then Some False
            else do {
              observed \<leftarrow> observed_loop (unat n) 0 src 0;
              if n mod 8 \<noteq> 0 then
                let valid_mask = (ucast (push_bit (unat (n mod 8)) 1 - 1 :: u32) :: u8)
                in do { b \<leftarrow> load8 (unat (8 + bitmap_bytes - 1)) src;
                        if b AND NOT valid_mask \<noteq> 0 then Some False else Some (observed = nnz) }
              else Some (observed = nnz) } })"

fun bitmap_decode :: "nat \<Rightarrow> u32 \<Rightarrow> u8 list \<Rightarrow> u32 \<Rightarrow> u16 list \<Rightarrow> u16 list option" where
  "bitmap_decode 0 i src value_off dst = Some dst"
| "bitmap_decode (Suc k) i src value_off dst =
    do { b \<leftarrow> bitmap_bit src i;
         if b then do { v \<leftarrow> load16 (unat value_off) src;
                        dst \<leftarrow> store (unat i) [v] dst;
                        bitmap_decode k (i + 1) src (value_off + 2) dst }
         else do { dst \<leftarrow> store (unat i) [0] dst;
                   bitmap_decode k (i + 1) src value_off dst } }"

definition tu_decompress_bitmap ::
  "u8 list \<Rightarrow> u32 \<Rightarrow> u16 list \<Rightarrow> u32 \<Rightarrow> u32 \<Rightarrow> (int \<times> u16 list \<times> u32) option" where
  "tu_decompress_bitmap src sz dst cap count_out =
    do { valid \<leftarrow> tu_compress_bitmap_validate src sz;
         if \<not> valid then Some (- 1, dst, count_out)
         else do {
           n \<leftarrow> load32 0 src;
           if cap < n then Some (- 1, dst, count_out)
           else do {
             dst \<leftarrow> bitmap_decode (unat n) 0 src (8 + (n + 7) div 8) dst;
             Some (0, dst, n) } } }"

definition tu_compress_bitmap_max_size :: "u32 \<Rightarrow> u32" where
  "tu_compress_bitmap_max_size element_count =
    (let total = 8 + ((ucast element_count :: u64) + 7) div 8 + ucast element_count * 2
     in if total > ucast UINT32_MAX then UINT32_MAX else ucast total)"

section \<open>The abstract code\<close>

text \<open>The bit of a byte map for element \<open>8 * b + j\<close>, and the bytes of the nonzero elements.\<close>

definition bits_of :: "u8 list \<Rightarrow> u16 list \<Rightarrow> bool" where
  "bits_of M xs \<longleftrightarrow> (\<forall>b < length M. \<forall>j < 8. bit (M ! b) j \<longleftrightarrow> 8 * b + j < length xs \<and> xs ! (8 * b + j) \<noteq> 0)"

definition nonzeros :: "u16 list \<Rightarrow> u16 list" where
  "nonzeros xs = filter (\<lambda>x. x \<noteq> 0) xs"

definition vals :: "u16 list \<Rightarrow> u8 list" where
  "vals xs = concat (map (to_le 2) (nonzeros xs))"

lemma vals_simps [simp]: "vals [] = []" "vals (x # xs) = (if x = 0 then [] else to_le 2 x) @ vals xs"
  "vals (xs @ ys) = vals xs @ vals ys"
  by (simp_all add: vals_def nonzeros_def)

lemma nonzeros_simps [simp]: "nonzeros [] = []" "nonzeros (x # xs) = (if x = 0 then nonzeros xs else x # nonzeros xs)"
  "nonzeros (xs @ ys) = nonzeros xs @ nonzeros ys"
  by (simp_all add: nonzeros_def)

lemma length_vals [simp]: "length (vals xs) = 2 * length (nonzeros xs)"
  by (induction xs) auto

lemma length_nonzeros: "length (nonzeros xs) \<le> length xs"
  by (simp add: nonzeros_def)

lemma bits_of_zero: "bits_of M xs \<Longrightarrow> bits_of M (xs @ [0])"
  unfolding bits_of_def by (auto simp: nth_append less_Suc_eq)

lemma bits_of_none: "bits_of (replicate k 0) []"
  by (simp add: bits_of_def)

lemma bit_ucast_one: "j < 8 \<Longrightarrow> k < 8 \<Longrightarrow> bit (ucast (push_bit k 1 :: u32) :: u8) j \<longleftrightarrow> j = k"
  by (auto simp: bit_simps)

lemma bits_of_set:
  assumes "bits_of M xs" "x \<noteq> 0" "length xs div 8 < length M"
  defines "b0 \<equiv> length xs div 8" and "j0 \<equiv> length xs mod 8"
  shows "bits_of (M[b0 := M ! b0 OR ucast (push_bit j0 1 :: u32)]) (xs @ [x])"
  unfolding bits_of_def
proof (intro allI impI)
  fix b j assume b: "b < length (M[b0 := M ! b0 OR ucast (push_bit j0 1 :: u32)])" and j: "j < (8 :: nat)"
  have j0: "j0 < 8" by (simp add: j0_def)
  have eq: "8 * b + j = length xs \<longleftrightarrow> b = b0 \<and> j = j0"
  proof
    assume "8 * b + j = length xs"
    then have "length xs div 8 = (8 * b + j) div 8" "length xs mod 8 = (8 * b + j) mod 8" by simp_all
    then show "b = b0 \<and> j = j0" using j by (simp add: b0_def j0_def)
  qed (simp add: b0_def j0_def)
  have old: "bit (M ! b) j \<longleftrightarrow> 8 * b + j < length xs \<and> xs ! (8 * b + j) \<noteq> 0"
    using assms(1) b j by (simp add: bits_of_def)
  have "bit (M[b0 := M ! b0 OR ucast (push_bit j0 1 :: u32)] ! b) j \<longleftrightarrow> bit (M ! b) j \<or> b = b0 \<and> j = j0"
    using b bit_ucast_one [OF j j0] by (cases "b = b0") (simp_all add: bit_or_iff del: push_bit_of_1)
  then show "bit (M[b0 := M ! b0 OR ucast (push_bit j0 1 :: u32)] ! b) j \<longleftrightarrow>
      8 * b + j < length (xs @ [x]) \<and> (xs @ [x]) ! (8 * b + j) \<noteq> 0"
    using old eq assms(2) by (auto simp: nth_append less_Suc_eq)
qed

text \<open>Offsets.\<close>

lemma unat_bit_off: "unat (8 + i div 8 :: u32) = 8 + unat i div 8"
proof -
  have "unat (i div 8) = unat i div 8" by (simp add: unat_div)
  moreover have "unat i div 8 < 536870912" using unat_u32_less [of i] by (simp add: less_mult_imp_div_less del: unat_u32_less)
  ultimately show ?thesis by (subst u32_add_exact) simp_all
qed

lemma unat_bit_index: "unat (i mod 8 :: u32) = unat i mod 8"
  by (simp add: unat_mod)

section \<open>The encoder writes the map and the values\<close>

lemma bitmap_loop_writes:
  assumes "length H = 8" "bits_of M ps" "length M = (length ps + length xs + 7) div 8"
    "unat i = length ps" "length ps + length xs < 4294967296"
    "unat off = 8 + length M + length (vals ps)" "8 + length M + length (vals ps) + length (vals xs) < 4294967296"
    "length (vals xs) \<le> length T"
  shows "\<exists>M'. bitmap_loop xs i off (H @ M @ vals ps @ T) =
      Some (H @ M' @ vals (ps @ xs) @ drop (length (vals xs)) T) \<and>
    length M' = length M \<and> bits_of M' (ps @ xs)"
  using assms
proof (induction xs arbitrary: M ps i off T)
  case (Cons x xs)
  have i: "unat (i + 1) = length (ps @ [x])" using Cons.prems(4,5) by (simp add: u32_add_exact)
  show ?case
  proof (cases "x = 0")
    case True
    have "\<exists>M'. bitmap_loop xs (i + 1) off (H @ M @ vals (ps @ [x]) @ T) =
        Some (H @ M' @ vals ((ps @ [x]) @ xs) @ drop (length (vals xs)) T) \<and>
      length M' = length M \<and> bits_of M' ((ps @ [x]) @ xs)"
      by (rule Cons.IH) (use Cons.prems i True in \<open>simp_all add: bits_of_zero\<close>)
    then show ?thesis using True by simp
  next
    case False
    define b0 j0 where "b0 = length ps div 8" and "j0 = length ps mod 8"
    let ?v = "M ! b0 OR ucast (push_bit j0 1 :: u32)"
    have lt: "b0 < length M" unfolding b0_def Cons.prems(3) list.size(4)
      using div_le_mono [of "length ps + 8" "length ps + (length xs + Suc 0) + 7" 8] by simp
    have o8: "unat (8 + i div 8) = 8 + b0" "unat (i mod 8) = j0"
      by (simp_all add: unat_bit_off unat_bit_index Cons.prems(4) b0_def j0_def)
    have l: "load8 (8 + b0) (H @ M @ vals ps @ T) = Some (M ! b0)"
      using Cons.prems(1) lt by (simp add: load8_def nth_append)
    have s: "store8 (8 + b0) ?v (H @ M @ vals ps @ T) = Some (H @ M[b0 := ?v] @ vals ps @ T)"
      using Cons.prems(1) lt by (simp add: store8_def list_update_append del: push_bit_of_1)
    have T: "2 \<le> length T" using Cons.prems(8) False by simp
    have w: "store16 (unat off) x (H @ M[b0 := ?v] @ vals ps @ T) =
        Some (H @ M[b0 := ?v] @ vals (ps @ [x]) @ drop 2 T)"
      using store_at [of "H @ M[b0 := ?v] @ vals ps" "unat off" "take 2 T" "to_le 2 x" "drop 2 T"]
        T Cons.prems(1,6) False by (simp add: store16_def del: push_bit_of_1)
    have off: "unat (off + 2) = 8 + length M + length (vals (ps @ [x]))"
      using Cons.prems(6,7) False by (subst u32_add_exact) simp_all
    have "\<exists>M'. bitmap_loop xs (i + 1) (off + 2) (H @ M[b0 := ?v] @ vals (ps @ [x]) @ drop 2 T) =
        Some (H @ M' @ vals ((ps @ [x]) @ xs) @ drop (length (vals xs)) (drop 2 T)) \<and>
      length M' = length (M[b0 := ?v]) \<and> bits_of M' ((ps @ [x]) @ xs)"
    proof (rule Cons.IH)
      show "bits_of (M[b0 := ?v]) (ps @ [x])"
        unfolding b0_def j0_def by (rule bits_of_set [OF Cons.prems(2) False]) (use lt b0_def in simp)
    qed (use Cons.prems i off False in simp_all)
    then show ?thesis using False o8 l s w by (simp add: add.commute del: push_bit_of_1)
  qed
qed simp

lemma count_nonzero_length:
  assumes "length xs < 4294967296"
  shows "unat (count_nonzero_bits xs) = length (nonzeros xs)"
proof -
  have "unat c + length xs < 4294967296 \<Longrightarrow>
      unat (foldl (\<lambda>c x. if x \<noteq> 0 then c + 1 else c) (c :: u32) xs) = unat c + length (nonzeros xs)" for c
  proof (induction xs arbitrary: c)
    case (Cons x xs)
    then have "unat (c + 1) = unat c + 1" by (simp add: u32_add_exact)
    then show ?case using Cons.IH [of "c + 1"] Cons.IH [of c] Cons.prems by simp
  qed simp
  from this [of 0] show ?thesis using assms by (simp add: count_nonzero_bits_def)
qed

text \<open>A stream of the format: two counts, the map, the values.\<close>

definition bitmap_stream :: "u16 list \<Rightarrow> u8 list \<Rightarrow> bool" where
  "bitmap_stream xs S \<longleftrightarrow>
    (\<exists>M. S = to_le 4 (of_nat (length xs) :: u32) @ to_le 4 (of_nat (length (nonzeros xs)) :: u32) @ M @ vals xs \<and>
         length M = (length xs + 7) div 8 \<and> bits_of M xs)"

definition bitmap_size :: "u16 list \<Rightarrow> nat" where
  "bitmap_size xs = 8 + (length xs + 7) div 8 + 2 * length (nonzeros xs)"

lemma length_bitmap_stream: "bitmap_stream xs S \<Longrightarrow> length S = bitmap_size xs"
  by (auto simp: bitmap_stream_def bitmap_size_def)

lemma unat_map_bytes:
  "unat n \<le> 4294967288 \<Longrightarrow> unat ((n + 7) div 8 :: u32) = (unat n + 7) div 8"
  by (simp add: unat_div u32_add_exact)

lemma unat_required:
  fixes n c :: u32
  assumes "unat n \<le> 4294967288"
  shows "unat (8 + (ucast ((n + 7) div 8) :: u64) + ucast c * 2) = 8 + (unat n + 7) div 8 + 2 * unat c"
proof -
  have m: "unat ((n + 7) div 8 :: u32) = (unat n + 7) div 8" by (rule unat_map_bytes [OF assms])
  have ml: "(unat n + 7) div 8 < 4294967296" using assms by simp
  have c: "unat (ucast c * 2 :: u64) = 2 * unat c"
    using unat_u32_less [of c] by (subst u64_mult_exact) (simp_all del: unat_u32_less)
  have a: "unat (8 + (ucast ((n + 7) div 8) :: u64)) = 8 + (unat n + 7) div 8"
    using ml by (subst u64_add_exact) (simp_all only: unat_ucast_32_64 m, simp_all)
  have "unat (8 + (ucast ((n + 7) div 8)) :: u64) + unat (ucast c * 2 :: u64) < 18446744073709551616"
    unfolding a c using ml unat_u32_less [of c] by linarith
  then show ?thesis by (simp only: u64_add_exact a c)
qed

text \<open>The writes of the encoder: header, cleared map, bits and values.\<close>

lemma bitmap_body:
  fixes n c :: u32 and rd :: u32
  assumes l: "length xs = unat n" "unat n \<le> 4294967288" and c: "unat c = length (nonzeros xs)"
    and size: "bitmap_size xs \<le> 4294967295" "bitmap_size xs \<le> length dst"
  shows "\<exists>S. bitmap_stream xs S \<and>
    do { dst \<leftarrow> store32 0 n dst; dst \<leftarrow> store32 4 c dst;
         dst \<leftarrow> (if (n + 7) div 8 \<noteq> 0 then store 8 (replicate (unat ((n + 7) div 8)) 0) dst else Some dst);
         dst \<leftarrow> bitmap_loop xs 0 (8 + (n + 7) div 8) dst;
         Some (0, dst, rd) } = Some (0 :: int, S @ drop (length S) dst, rd)"
proof -
  define k where "k = (length xs + 7) div 8"
  have k: "unat ((n + 7) div 8 :: u32) = k" using l by (simp add: unat_map_bytes k_def)
  have sz: "bitmap_size xs = 8 + k + 2 * length (nonzeros xs)" by (simp add: bitmap_size_def k_def)
  define H A T where "H = take 8 dst" and "A = take k (drop 8 dst)" and "T = drop (8 + k) dst"
  have d: "dst = H @ A @ T"
    by (metis A_def H_def T_def append_take_drop_id drop_drop add.commute)
  have len: "length H = 8" "length A = k" "2 * length (nonzeros xs) \<le> length T"
    using size sz by (simp_all add: H_def A_def T_def)
  have z: "(if (n + 7) div 8 \<noteq> 0
      then store 8 (replicate (unat ((n + 7) div 8)) 0) (to_le 4 n @ to_le 4 c @ A @ T)
      else Some (to_le 4 n @ to_le 4 c @ A @ T)) = Some (to_le 4 n @ to_le 4 c @ replicate k 0 @ T)"
  proof (cases "(n + 7) div 8 = 0")
    case True
    then have "k = 0" using k by simp
    then show ?thesis using True len by simp
  next
    case False
    then show ?thesis
      using store_at [of "to_le 4 n @ to_le 4 c" 8 A "replicate k 0" T] len by (simp add: k)
  qed
  have off: "unat (8 + (n + 7) div 8 :: u32) = 8 + k"
    using size(1) sz by (subst u32_add_exact) (simp_all add: k)
  have "\<exists>M'. bitmap_loop xs 0 (8 + (n + 7) div 8) ((to_le 4 n @ to_le 4 c) @ replicate k 0 @ vals [] @ T) =
      Some ((to_le 4 n @ to_le 4 c) @ M' @ vals ([] @ xs) @ drop (length (vals xs)) T) \<and>
    length M' = length (replicate k (0 :: u8)) \<and> bits_of M' ([] @ xs)"
    by (rule bitmap_loop_writes) (use len size(1) sz off l in \<open>simp_all add: bits_of_none k_def\<close>)
  then obtain M where M: "bitmap_loop xs 0 (8 + (n + 7) div 8) (to_le 4 n @ to_le 4 c @ replicate k 0 @ T) =
      Some (to_le 4 n @ to_le 4 c @ M @ vals xs @ drop (2 * length (nonzeros xs)) T)" "length M = k" "bits_of M xs"
    by auto
  define S where "S = to_le 4 n @ to_le 4 c @ M @ vals xs"
  have nw: "(of_nat (length xs) :: u32) = n" "(of_nat (length (nonzeros xs)) :: u32) = c"
    by (simp add: l) (metis c word_unat_eq_iff unat_of_nat_u32 unat_u32_less)
  have S: "bitmap_stream xs S" unfolding bitmap_stream_def S_def nw using M by (auto simp: k_def)
  have tail: "drop (2 * length (nonzeros xs)) T = drop (length S) dst"
    using length_bitmap_stream [OF S] by (simp add: T_def sz add.commute add.left_commute)
  have "do { dst \<leftarrow> store32 0 n dst; dst \<leftarrow> store32 4 c dst;
      dst \<leftarrow> (if (n + 7) div 8 \<noteq> 0 then store 8 (replicate (unat ((n + 7) div 8)) 0) dst else Some dst);
      dst \<leftarrow> bitmap_loop xs 0 (8 + (n + 7) div 8) dst;
      Some (0, dst, rd) } = Some (0 :: int, S @ drop (length S) dst, rd)"
    unfolding tail [symmetric] unfolding d
    by (simp only: store_header [OF len(1)] z bind.bind_lunit M(1) S_def append_assoc)
  then show ?thesis using S by blast
qed

text \<open>What the encoder returns in every case.\<close>

lemma compress_bitmap_cases:
  fixes n cap so :: u32
  assumes src: "unat n \<le> length src" and dst: "unat cap \<le> length dst"
  defines "xs \<equiv> take (unat n) src"
  shows "(if unat n > 4294967288 \<or> bitmap_size xs > 4294967295 \<or> unat cap < bitmap_size xs
          then tu_compress_bitmap src n dst cap so = Some (- 1, dst, so)
          else \<exists>S. bitmap_stream xs S \<and>
            tu_compress_bitmap src n dst cap so = Some (0, S @ drop (length S) dst, of_nat (length S)))"
proof -
  have big: "n > UINT32_MAX - 7 \<longleftrightarrow> unat n > 4294967288" by (simp add: word_less_nat_alt)
  have l: "length xs = unat n" using src by (simp add: xs_def)
  have ok: "(length src < unat n) = False" using src by simp
  define c where "c = count_nonzero_bits xs"
  define req where "req = 8 + (ucast ((n + 7) div 8) :: u64) + ucast c * 2"
  note unf = tu_compress_bitmap_def big Let_def xs_def [symmetric] c_def [symmetric] req_def [symmetric] ok
  show ?thesis
  proof (cases "unat n > 4294967288")
    case True
    then show ?thesis unfolding unf by simp
  next
    case nb: False
    have c: "unat c = length (nonzeros xs)" unfolding c_def by (rule count_nonzero_length) (use nb l in simp)
    have req: "unat req = bitmap_size xs"
      unfolding req_def bitmap_size_def l using nb c by (subst unat_required) simp_all
    have over: "req > ucast UINT32_MAX \<longleftrightarrow> bitmap_size xs > 4294967295"
      by (simp add: word_less_nat_alt req)
    have small: "cap < ucast req \<longleftrightarrow> unat cap < bitmap_size xs" if "\<not> bitmap_size xs > 4294967295"
      using that req by (simp add: word_less_nat_alt unat_ucast_64_32)
    show ?thesis
    proof (cases "bitmap_size xs > 4294967295 \<or> unat cap < bitmap_size xs")
      case True
      then show ?thesis unfolding unf over using nb small by auto
    next
      case False
      obtain S where S: "bitmap_stream xs S" and body: "do { dst \<leftarrow> store32 0 n dst; dst \<leftarrow> store32 4 c dst;
          dst \<leftarrow> (if (n + 7) div 8 \<noteq> 0 then store 8 (replicate (unat ((n + 7) div 8)) 0) dst else Some dst);
          dst \<leftarrow> bitmap_loop xs 0 (8 + (n + 7) div 8) dst;
          Some (0, dst, ucast req) } = Some (0 :: int, S @ drop (length S) dst, ucast req :: u32)"
        using bitmap_body [OF l, of c dst "ucast req"] nb c False dst by auto
      have "(ucast req :: u32) = of_nat (length S)"
        unfolding length_bitmap_stream [OF S] using req False by (simp add: word_unat_eq_iff unat_ucast_64_32)
      then have "tu_compress_bitmap src n dst cap so = Some (0, S @ drop (length S) dst, of_nat (length S))"
        unfolding unf over body using nb False small by simp
      then show ?thesis using S nb False by auto
    qed
  qed
qed

section \<open>The decoder reads the map\<close>

lemma and_one_bit: "drop_bit k b AND 1 \<noteq> 0 \<longleftrightarrow> bit b k" for b :: "'a::len word"
  unfolding bit_word_iff_drop_bit_and and_one_eq by (simp add: mod2_eq_if)

lemma bitmap_bit_at:
  assumes "length H = 8" "bits_of M xs" "length M = (length xs + 7) div 8" "unat i < length xs"
  shows "bitmap_bit (H @ M @ R) i = Some (xs ! unat i \<noteq> 0)"
proof -
  let ?b = "unat i div 8" and ?j = "unat i mod 8"
  have b: "?b < length M" using assms(3,4) div_le_mono [of "unat i + 8" "length xs + 7" 8] by simp
  have "load8 (8 + ?b) (H @ M @ R) = Some (M ! ?b)" using assms(1) b by (simp add: load8_def nth_append)
  moreover have "bit (M ! ?b) ?j \<longleftrightarrow> xs ! unat i \<noteq> 0"
    using assms(2,4) b by (simp add: bits_of_def)
  ultimately show ?thesis by (simp add: bitmap_bit_def unat_bit_off unat_bit_index and_one_bit)
qed

lemma observed_loop_counts:
  assumes "length H = 8" "bits_of M (ps @ xs)" "length M = (length (ps @ xs) + 7) div 8"
    "unat i = length ps" "length (ps @ xs) < 4294967296" "unat c = length (nonzeros ps)"
  shows "observed_loop (length xs) i (H @ M @ R) c = Some (of_nat (length (nonzeros (ps @ xs))))"
  using assms
proof (induction xs arbitrary: ps i c)
  case Nil
  then show ?case using length_nonzeros [of ps] by (simp add: word_unat_eq_iff)
next
  case (Cons x xs)
  have b: "bitmap_bit (H @ M @ R) i = Some (x \<noteq> 0)"
    using bitmap_bit_at [OF Cons.prems(1-3), of i R] Cons.prems(4) by simp
  have i: "unat (i + 1) = length (ps @ [x])" using Cons.prems(4,5) by (simp add: u32_add_exact)
  have c: "unat (c + (if x \<noteq> 0 then 1 else 0)) = length (nonzeros (ps @ [x]))"
    using Cons.prems(5,6) length_nonzeros [of ps] by (simp add: u32_add_exact)
  have "observed_loop (length xs) (i + 1) (H @ M @ R) (c + (if x \<noteq> 0 then 1 else 0)) =
      Some (of_nat (length (nonzeros ((ps @ [x]) @ xs))))"
    by (rule Cons.IH) (use Cons.prems i c in simp_all)
  then show ?case using b by simp
qed

lemma bitmap_decode_reads:
  assumes "length H = 8" "bits_of M (ps @ xs)" "length M = (length (ps @ xs) + 7) div 8"
    "unat i = length ps" "length (ps @ xs) < 4294967296"
    "unat off = 8 + length M + length (vals ps)" "8 + length M + length (vals (ps @ xs)) < 4294967296"
    "length xs \<le> length D"
  shows "bitmap_decode (length xs) i (H @ M @ vals (ps @ xs) @ R) off (ps @ D) = Some (ps @ xs @ drop (length xs) D)"
  using assms
proof (induction xs arbitrary: ps i off D)
  case (Cons x xs)
  let ?S = "H @ M @ vals (ps @ x # xs) @ R"
  have b: "bitmap_bit ?S i = Some (x \<noteq> 0)"
    using bitmap_bit_at [OF Cons.prems(1-3), of i "vals (ps @ x # xs) @ R"] Cons.prems(4) by simp
  have i: "unat (i + 1) = length (ps @ [x])" using Cons.prems(4,5) by (simp add: u32_add_exact)
  obtain y D' where D: "D = y # D'" using Cons.prems(8) by (cases D) auto
  have st: "store (unat i) [v] (ps @ D) = Some ((ps @ [v]) @ D')" for v
    using store_at [of ps "unat i" "[y]" "[v]" D'] Cons.prems(4) by (simp add: D)
  show ?case
  proof (cases "x = 0")
    case True
    have "bitmap_decode (length xs) (i + 1) (H @ M @ vals ((ps @ [x]) @ xs) @ R) off ((ps @ [x]) @ D') =
        Some ((ps @ [x]) @ xs @ drop (length xs) D')"
      by (rule Cons.IH) (use Cons.prems i D True in simp_all)
    then show ?thesis using b st True D by simp
  next
    case False
    have v: "load16 (unat off) ?S = Some x"
      using load16_at [of "H @ M @ vals ps" "unat off" x "vals xs @ R"] Cons.prems(1,6) False by simp
    have off: "unat (off + 2) = 8 + length M + length (vals (ps @ [x]))"
      using Cons.prems(6,7) False by (subst u32_add_exact) simp_all
    have "bitmap_decode (length xs) (i + 1) (H @ M @ vals ((ps @ [x]) @ xs) @ R) (off + 2) ((ps @ [x]) @ D') =
        Some ((ps @ [x]) @ xs @ drop (length xs) D')"
      by (rule Cons.IH) (use Cons.prems i D off False in simp_all)
    then show ?thesis using b st v False D by simp
  qed
qed simp

text \<open>The bits of the last byte behind the last element are clear.\<close>

lemma padding_clear:
  assumes M: "bits_of M xs" "length M = (length xs + 7) div 8" and r: "length xs mod 8 \<noteq> 0"
  shows "M ! (length M - 1) AND NOT (ucast (push_bit (length xs mod 8) 1 - 1 :: u32) :: u8) = 0"
proof (rule bit_word_eqI)
  fix j assume j: "j < LENGTH(8)"
  let ?r = "length xs mod 8"
  have m: "(push_bit ?r 1 - 1 :: u32) = mask ?r" by (simp add: mask_eq_decr_exp)
  have l: "length M = length xs div 8 + 1" "0 < length M"
  proof -
    have "(length xs + 7) div 8 = length xs div 8 + (?r + 7) div 8"
    proof -
      have "length xs + 7 = (?r + 7) + length xs div 8 * 8" by simp
      then show ?thesis by (simp only: div_mult_self1 zero_neq_numeral not_False_eq_True)
    qed
    moreover have "(?r + 7) div 8 = 1" using r by (intro div_nat_eqI) simp_all
    ultimately show "length M = length xs div 8 + 1" using M(2) by simp
    then show "0 < length M" by simp
  qed
  have "bit (M ! (length M - 1)) j \<Longrightarrow> j < ?r"
  proof -
    assume "bit (M ! (length M - 1)) j"
    then have "8 * (length M - 1) + j < length xs" using M(1) l(2) j by (simp add: bits_of_def)
    then show "j < ?r" unfolding l(1) using div_mult_mod_eq [of "length xs" 8] by linarith
  qed
  then show "bit (M ! (length M - 1) AND NOT (ucast (push_bit ?r 1 - 1 :: u32) :: u8)) j \<longleftrightarrow> bit (0 :: u8) j"
    using j unfolding m by (auto simp: bit_simps)
qed

section \<open>Streams of the format\<close>

text \<open>A stream whose size is given exactly is valid.\<close>

lemma bitmap_stream_parts:
  assumes "bitmap_stream xs S"
  obtains M where "S = (to_le 4 (of_nat (length xs) :: u32) @ to_le 4 (of_nat (length (nonzeros xs)) :: u32)) @ M @ vals xs"
    "length M = (length xs + 7) div 8" "bits_of M xs"
    "length S = 8 + length M + 2 * length (nonzeros xs)"
  using assms by (auto simp: bitmap_stream_def)

lemma bitmap_stream_header:
  assumes "bitmap_stream xs S"
  shows "load32 0 (S @ rest) = Some (of_nat (length xs))"
    and "load32 4 (S @ rest) = Some (of_nat (length (nonzeros xs)))"
  using assms load32_at [of "[]" 0] load32_at [of "to_le 4 (of_nat (length xs) :: u32)" 4]
  by (auto simp: bitmap_stream_def)

lemma bitmap_stream_valid:
  assumes S: "bitmap_stream xs S" and small: "length S < 4294967296" "length xs \<le> 4294967288"
  shows "tu_compress_bitmap_validate (S @ rest) (of_nat (length S)) = Some True"
proof -
  define n c where "n = (of_nat (length xs) :: u32)" and "c = (of_nat (length (nonzeros xs)) :: u32)"
  obtain M where M: "S = (to_le 4 n @ to_le 4 c) @ M @ vals xs"
    "length M = (length xs + 7) div 8" "bits_of M xs" "length S = 8 + length M + 2 * length (nonzeros xs)"
    using bitmap_stream_parts [OF S] unfolding n_def c_def by blast
  have nx: "length (nonzeros xs) \<le> length xs" by (rule length_nonzeros)
  have u: "unat n = length xs" "unat c = length (nonzeros xs)" using small(2) nx by (simp_all add: n_def c_def)
  have k: "unat ((n + 7) div 8 :: u32) = length M" using small(2) u(1) by (simp add: unat_map_bytes M(2))
  have e: "unat (8 + (ucast ((n + 7) div 8) :: u64) + ucast c * 2) = length S"
    using small(2) u by (subst unat_required) (simp_all add: M(2,4))
  have Sw: "unat (of_nat (length S) :: u32) = length S" using small(1) by simp
  have eq: "8 + (ucast ((n + 7) div 8) :: u64) + ucast c * 2 = ucast (of_nat (length S) :: u32)"
    by (simp only: word_unat_eq_iff e unat_ucast_32_64 Sw)
  have ob: "observed_loop (unat n) 0 (S @ rest) 0 = Some c"
    using observed_loop_counts [of "to_le 4 n @ to_le 4 c" M "[]" xs 0 0 "vals xs @ rest"] M u small(2)
    by (simp add: c_def)
  have pad: "load8 (unat (8 + (n + 7) div 8 - 1)) (S @ rest) = Some (M ! (length M - 1))" if "n mod 8 \<noteq> 0"
  proof -
    have l: "0 < length M" using that M(2) u(1)
      by (cases xs) (simp_all add: n_def)
    have a: "unat (8 + (n + 7) div 8 :: u32) = 8 + length M" using k M(4) small(1) by (subst u32_add_exact) simp_all
    then have "(1 :: u32) \<le> 8 + (n + 7) div 8" by (simp add: word_le_nat_alt)
    then have "unat (8 + (n + 7) div 8 - 1) = 8 + length M - 1" using a by (simp only: unat_sub_le unat_1)
    then show ?thesis using l by (simp add: load8_def M(1) nth_append)
  qed
  have clear: "M ! (length M - 1) AND NOT (ucast (push_bit (unat (n mod 8)) 1 - 1 :: u32) :: u8) = 0" if "n mod 8 \<noteq> 0"
  proof -
    have r: "unat (n mod 8) = length xs mod 8" by (simp add: unat_bit_index u(1))
    then have nz: "length xs mod 8 \<noteq> 0" using that by (metis unat_eq_0)
    show ?thesis unfolding r by (rule padding_clear [OF M(3,2) nz])
  qed
  have b: "\<not> (of_nat (length S) :: u32) < 8" "\<not> (n > UINT32_MAX - 7 \<or> c > n)"
    using Sw M(4) u nx small(2) by (simp_all add: word_less_nat_alt)
  note h = bitmap_stream_header [OF S, of rest, folded n_def c_def]
  show ?thesis
    unfolding tu_compress_bitmap_validate_def h bind.bind_lunit if_not_P [OF b(1)] if_not_P [OF b(2)] Let_def eq ob
    using pad clear by simp
qed

text \<open>The decoder returns the elements of a valid stream.\<close>

lemma decompress_bitmap_stream:
  assumes S: "bitmap_stream xs S" and small: "length S < 4294967296" "length xs \<le> 4294967288"
    and room: "length xs \<le> unat cap" "unat cap \<le> length out"
  shows "tu_decompress_bitmap (S @ rest) (of_nat (length S)) out cap cnt =
    Some (0, xs @ drop (length xs) out, of_nat (length xs))"
proof -
  define n where "n = (of_nat (length xs) :: u32)"
  obtain M where M: "S = (to_le 4 n @ to_le 4 (of_nat (length (nonzeros xs)) :: u32)) @ M @ vals xs"
    "length M = (length xs + 7) div 8" "bits_of M xs" "length S = 8 + length M + 2 * length (nonzeros xs)"
    using bitmap_stream_parts [OF S] unfolding n_def by blast
  have u: "unat n = length xs" using small(2) by (simp add: n_def)
  have off: "unat (8 + (n + 7) div 8 :: u32) = 8 + length M"
    using unat_map_bytes [of n] small u M(2,4) by (subst u32_add_exact) simp_all
  have "bitmap_decode (unat n) 0 (S @ rest) (8 + (n + 7) div 8) out = Some (xs @ drop (length xs) out)"
    using bitmap_decode_reads [of "to_le 4 n @ to_le 4 (of_nat (length (nonzeros xs)) :: u32)" M "[]" xs 0
        "8 + (n + 7) div 8" out rest] M off small room u by simp
  moreover have "\<not> cap < n" using room u by (simp add: word_less_nat_alt)
  ultimately show ?thesis
    unfolding tu_decompress_bitmap_def bitmap_stream_valid [OF S small] bitmap_stream_header(1) [OF S] bind.bind_lunit
      n_def [symmetric] by simp
qed

text \<open>
  The bitmap code is exact: what its encoder accepts, its validator and its decoder accept, and the
  decoder returns the elements bit by bit, leaving the rest of the output buffer alone.
\<close>

lemma bitmap_roundtrip:
  assumes enc: "tu_compress_bitmap src n dst cap so = Some (0, enc, sz)"
    and ptr: "unat n \<le> length src" "unat cap \<le> length dst"
    and room: "unat n \<le> unat ocap" "unat ocap \<le> length out"
  shows "tu_compress_bitmap_validate enc sz = Some True \<and>
         tu_decompress_bitmap enc sz out ocap cnt = Some (0, take (unat n) src @ drop (unat n) out, n)"
proof -
  let ?xs = "take (unat n) src"
  have l: "length ?xs = unat n" using ptr(1) by simp
  note cs = compress_bitmap_cases [OF ptr, of so]
  have ok: "\<not> (unat n > 4294967288 \<or> bitmap_size ?xs > 4294967295 \<or> unat cap < bitmap_size ?xs)"
  proof
    assume "unat n > 4294967288 \<or> bitmap_size ?xs > 4294967295 \<or> unat cap < bitmap_size ?xs"
    then show False using cs enc by (simp only: if_P) simp
  qed
  obtain S where S: "bitmap_stream ?xs S" "enc = S @ drop (length S) dst" "sz = of_nat (length S)"
    using cs enc unfolding if_not_P [OF ok] by auto
  have small: "length S < 4294967296" "length ?xs \<le> 4294967288"
    using ok length_bitmap_stream [OF S(1)] l by simp_all
  have "(of_nat (length ?xs) :: u32) = n" unfolding l by simp
  then show ?thesis
    using bitmap_stream_valid [OF S(1) small] decompress_bitmap_stream [OF S(1) small, of ocap out] room l
    by (simp add: S(2,3))
qed

section \<open>Arbitrary input\<close>

lemma unat_map_end:
  assumes "unat n \<le> 4294967288" shows "unat (8 + (n + 7) div 8 :: u32) = 8 + (unat n + 7) div 8"
proof -
  have "(unat n + 7) div 8 \<le> 4294967295 div 8" using assms by (intro div_le_mono) simp
  then show ?thesis using unat_map_bytes [OF assms] by (subst u32_add_exact) simp_all
qed

lemma bitmap_bit_some:
  assumes "8 + unat i div 8 < length src" shows "\<exists>b. bitmap_bit src i = Some b"
  using assms by (simp add: bitmap_bit_def load8_def unat_bit_off)

lemma observed_loop_some:
  assumes "8 + (unat i + k + 7) div 8 \<le> length src" "unat i + k < 4294967296"
  shows "\<exists>m. observed_loop k i src c = Some m"
  using assms
proof (induction k arbitrary: i c)
  case (Suc k)
  have i: "unat (i + 1) = Suc (unat i)" using Suc.prems(2) by (simp add: u32_add_exact)
  have "unat i div 8 < (unat i + Suc k + 7) div 8"
    using div_le_mono [of "unat i + 8" "unat i + Suc k + 7" 8] by simp
  then have "8 + unat i div 8 < length src" using Suc.prems(1) by linarith
  then obtain b where b: "bitmap_bit src i = Some b" using bitmap_bit_some by blast
  have "\<exists>m. observed_loop k (i + 1) src (c + (if b then 1 else 0)) = Some m"
    by (rule Suc.IH) (use Suc.prems i in simp_all)
  then show ?case using b by auto
qed simp

lemma observed_loop_mono:
  "observed_loop k i src c = Some m \<Longrightarrow> unat c + k < 4294967296 \<Longrightarrow> unat c \<le> unat m"
proof (induction k arbitrary: i c)
  case (Suc k)
  obtain b where b: "observed_loop k (i + 1) src (c + (if b then 1 else 0)) = Some m"
    using Suc.prems(1) by (auto split: bind_splits)
  have c: "unat (c + (if b then 1 else 0)) = unat c + (if b then 1 else 0)"
    using Suc.prems(2) by (simp add: u32_add_exact)
  have "unat (c + (if b then 1 else 0)) \<le> unat m"
    by (rule Suc.IH [OF b]) (use c Suc.prems(2) in \<open>simp split: if_splits\<close>)
  then show ?case unfolding c by linarith
qed simp

text \<open>The decoder reads one value for every bit that the validator has counted.\<close>

lemma bitmap_decode_inside:
  assumes "observed_loop k i src c = Some m" "unat c + k < 4294967296" "unat i + k < 4294967296"
    "base + 2 * unat m \<le> length src" "base + 2 * unat m < 4294967296" "unat off = base + 2 * unat c"
    "unat i + k \<le> length out"
  shows "\<exists>out'. bitmap_decode k i src off out = Some out' \<and> length out' = length out \<and>
    drop (unat i + k) out' = drop (unat i + k) out"
  using assms
proof (induction k arbitrary: i c off out)
  case (Suc k)
  obtain b where bit: "bitmap_bit src i = Some b" and b: "observed_loop k (i + 1) src (c + (if b then 1 else 0)) = Some m"
    using Suc.prems(1) by (auto split: bind_splits)
  have c: "unat (c + (if b then 1 else 0)) = unat c + (if b then 1 else 0)"
    using Suc.prems(2) by (simp add: u32_add_exact)
  have i: "unat (i + 1) = Suc (unat i)" using Suc.prems(3) by (simp add: u32_add_exact)
  have "unat (c + (if b then 1 else 0)) + k < 4294967296" using c Suc.prems(2) by (simp split: if_splits)
  then have le: "unat c + (if b then 1 else 0) \<le> unat m" using observed_loop_mono [OF b] c by simp
  have st: "\<exists>w. store (unat i) [v] out = Some w \<and> length w = length out \<and>
      drop (Suc (unat i) + k) w = drop (Suc (unat i) + k) out" for v
  proof -
    have "0 < length out" using Suc.prems(7) by linarith
    then show ?thesis using Suc.prems(7) by (simp add: store_def add.commute)
  qed
  define off' where "off' = (if b then off + 2 else off)"
  have off': "unat off' = base + 2 * unat (c + (if b then 1 else 0))"
    using Suc.prems(5,6) le unfolding off'_def c by (cases b) (simp_all add: u32_add_exact)
  have ih: "\<exists>out'. bitmap_decode k (i + 1) src off' w = Some out' \<and> length out' = length out \<and>
      drop (Suc (unat i) + k) out' = drop (Suc (unat i) + k) out"
    if "length w = length out" "drop (Suc (unat i) + k) w = drop (Suc (unat i) + k) out" for w
    using Suc.IH [OF b, of off' w] Suc.prems c i le off' that by (simp split: if_splits)
  show ?case
  proof (cases b)
    case True
    have "unat off + 2 \<le> length src" using Suc.prems(4,6) le True by simp
    then obtain v where v: "load16 (unat off) src = Some v" using load16_some by blast
    show ?thesis using st [of v] ih True bit v by (auto simp: off'_def)
  next
    case False
    show ?thesis using st [of 0] ih False bit by (auto simp: off'_def)
  qed
qed simp

lemma bitmap_validate_some:
  assumes "unat sz \<le> length src"
  obtains ok where "tu_compress_bitmap_validate src sz = Some ok"
    and "ok \<Longrightarrow> \<exists>n c. load32 0 src = Some n \<and> unat n \<le> 4294967288 \<and> observed_loop (unat n) 0 src 0 = Some c \<and>
      8 + (unat n + 7) div 8 + 2 * unat c = unat sz"
proof -
  show thesis
  proof (cases "sz < 8")
    case True
    then show ?thesis by (intro that [of False]) (simp_all add: tu_compress_bitmap_validate_def)
  next
    case F: False
    then have "0 + 4 \<le> length src" "4 + 4 \<le> length src" using assms by (simp_all add: word_less_nat_alt)
    then obtain n c where h: "load32 0 src = Some n" "load32 4 src = Some c" by (meson load32_some)
    note unf = tu_compress_bitmap_validate_def h bind.bind_lunit if_not_P [OF F] Let_def
    show ?thesis
    proof (cases "n > UINT32_MAX - 7 \<or> c > n")
      case True
      then show ?thesis by (intro that [of False]) (simp_all add: unf)
    next
      case F2: False
      have n: "unat n \<le> 4294967288" using F2 by (simp add: word_less_nat_alt)
      show ?thesis
      proof (cases "8 + (ucast ((n + 7) div 8) :: u64) + ucast c * 2 = ucast sz")
        case False
        then show ?thesis using F2 by (intro that [of False]) (simp_all add: unf)
      next
        case eq: True
        have sz: "8 + (unat n + 7) div 8 + 2 * unat c = unat sz"
          using unat_required [OF n, of c] eq by simp
        obtain m where m: "observed_loop (unat n) 0 src 0 = Some m"
          using observed_loop_some [of 0 "unat n" src 0] sz assms n by auto
        have "\<exists>b. load8 (unat (8 + (n + 7) div 8 - 1)) src = Some b"
        proof -
          have a: "unat (8 + (n + 7) div 8 :: u32) = 8 + (unat n + 7) div 8"
            by (rule unat_map_end [OF n])
          then have "(1 :: u32) \<le> 8 + (n + 7) div 8" by (simp add: word_le_nat_alt)
          then have "unat (8 + (n + 7) div 8 - 1) = 8 + (unat n + 7) div 8 - 1" using a by (simp only: unat_sub_le unat_1)
          then show ?thesis using sz assms by (simp add: load8_def)
        qed
        then obtain b where b: "load8 (unat (8 + (n + 7) div 8 - 1)) src = Some b" by blast
        show ?thesis
        proof (rule that)
          show "tu_compress_bitmap_validate src sz = Some (m = c \<and> \<not> (n mod 8 \<noteq> 0 \<and>
              b AND NOT (ucast (push_bit (unat (n mod 8)) 1 - 1 :: u32) :: u8) \<noteq> 0))"
            unfolding unf using F2 eq m b by auto
          assume "m = c \<and> \<not> (n mod 8 \<noteq> 0 \<and> b AND NOT (ucast (push_bit (unat (n mod 8)) 1 - 1 :: u32) :: u8) \<noteq> 0)"
          then show "\<exists>n c. load32 0 src = Some n \<and> unat n \<le> 4294967288 \<and> observed_loop (unat n) 0 src 0 = Some c \<and>
              8 + (unat n + 7) div 8 + 2 * unat c = unat sz"
            using h n m sz by blast
        qed
      qed
    qed
  qed
qed

lemma decompress_bitmap_inside:
  assumes "unat sz \<le> length src" "unat cap \<le> length out"
  shows "decoded_inside cap out cnt (tu_decompress_bitmap src sz out cap cnt)"
proof -
  obtain ok where ok: "tu_compress_bitmap_validate src sz = Some ok"
    "ok \<Longrightarrow> \<exists>n c. load32 0 src = Some n \<and> unat n \<le> 4294967288 \<and> observed_loop (unat n) 0 src 0 = Some c \<and>
      8 + (unat n + 7) div 8 + 2 * unat c = unat sz"
    using bitmap_validate_some [OF assms(1)] by metis
  show ?thesis
  proof (cases ok)
    case False
    then show ?thesis by (simp add: tu_decompress_bitmap_def ok decoded_inside_def)
  next
    case True
    then obtain n c where n: "load32 0 src = Some n" "unat n \<le> 4294967288" "observed_loop (unat n) 0 src 0 = Some c"
      "8 + (unat n + 7) div 8 + 2 * unat c = unat sz" using ok(2) by blast
    show ?thesis
    proof (cases "cap < n")
      case True
      then show ?thesis using \<open>ok\<close> by (simp add: tu_decompress_bitmap_def ok n decoded_inside_def)
    next
      case False
      then have le: "unat n \<le> unat cap" by (simp add: word_less_nat_alt)
      have off: "unat (8 + (n + 7) div 8 :: u32) = 8 + (unat n + 7) div 8"
        by (rule unat_map_end [OF n(2)])
      have "\<exists>out'. bitmap_decode (unat n) 0 src (8 + (n + 7) div 8) out = Some out' \<and> length out' = length out \<and>
          drop (unat (0 :: u32) + unat n) out' = drop (unat (0 :: u32) + unat n) out"
        by (rule bitmap_decode_inside [OF n(3), where base = "8 + (unat n + 7) div 8"])
           (use n le assms off unat_u32_less [of sz] in \<open>simp_all del: unat_u32_less\<close>)
      then obtain out' where d: "bitmap_decode (unat n) 0 src (8 + (n + 7) div 8) out = Some out'"
        "length out' = length out" "drop (unat n) out' = drop (unat n) out" by auto
      then show ?thesis using \<open>ok\<close> False drop_beyond [OF d(3) le]
        by (simp add: tu_decompress_bitmap_def ok n decoded_inside_def)
    qed
  qed
qed

end
