(* ===== verification/Weight_Adaptive.thy ===== *)
theory Weight_Adaptive
  imports Weight_Bitmap
begin

text \<open>
  The framed adaptive weight streams, the entry points for DMA and the latency estimate of
  \<open>memory/weight_compress.c\<close>. The conventions are those of the run-length stream; a payload behind
  the frame is the buffer without its first sixteen bytes. Codecs are the bytes of the stream, since
  the code casts a byte to the enumeration before it checks it.
\<close>

section \<open>Data\<close>

datatype tu_compress_type = TU_COMPRESS_NONE | TU_COMPRESS_RLE | TU_COMPRESS_ADAPTIVE_RLE
  | TU_COMPRESS_BITMAP | TU_COMPRESS_ADAPTIVE | TU_COMPRESS_COUNT

abbreviation (input) TU_WEIGHT_PAYLOAD_RAW :: u8 where "TU_WEIGHT_PAYLOAD_RAW \<equiv> 0"
abbreviation (input) TU_WEIGHT_PAYLOAD_RLE :: u8 where "TU_WEIGHT_PAYLOAD_RLE \<equiv> 1"
abbreviation (input) TU_WEIGHT_PAYLOAD_BITMAP :: u8 where "TU_WEIGHT_PAYLOAD_BITMAP \<equiv> 2"
abbreviation (input) TU_WEIGHT_FRAME_MAGIC :: u32 where "TU_WEIGHT_FRAME_MAGIC \<equiv> 0x54555743"

record tu_compress_config =
  cc_type :: tu_compress_type
  cc_rle_epsilon :: u32
  cc_enabled :: bool
  cc_decoder_enabled :: bool
  cc_decoder_overlap_dma :: bool
  cc_decoder_elements_per_cycle :: u32
  cc_rle_runs_per_cycle :: u32
  cc_bitmap_elements_per_cycle :: u32

definition tu_compress_config_default :: tu_compress_config where
  "tu_compress_config_default = \<lparr>cc_type = TU_COMPRESS_RLE, cc_rle_epsilon = 0, cc_enabled = True,
     cc_decoder_enabled = False, cc_decoder_overlap_dma = True, cc_decoder_elements_per_cycle = 1,
     cc_rle_runs_per_cycle = 1, cc_bitmap_elements_per_cycle = 1\<rparr>"

section \<open>Raw payloads\<close>

text \<open>\<open>memcpy\<close> between halves and bytes.\<close>

definition bytes_of :: "u16 list \<Rightarrow> u8 list" where
  "bytes_of xs = concat (map (to_le 2) xs)"

fun halves_of :: "u8 list \<Rightarrow> u16 list" where
  "halves_of (a # b # bs) = of_le [a, b] # halves_of bs"
| "halves_of bs = []"

definition raw_encode :: "u16 list \<Rightarrow> u8 list \<Rightarrow> u8 list option" where
  "raw_encode xs dst = (if xs = [] then Some dst else store 0 (bytes_of xs) dst)"

definition raw_decode :: "u8 list \<Rightarrow> u32 \<Rightarrow> u16 list \<Rightarrow> u16 list option" where
  "raw_decode src sz dst =
    (if sz = 0 then Some dst else do { bs \<leftarrow> load (unat sz) 0 src; store 0 (halves_of bs) dst })"

section \<open>Frames\<close>

definition frame_write :: "u8 list \<Rightarrow> u8 \<Rightarrow> u32 \<Rightarrow> u32 \<Rightarrow> u8 list option" where
  "frame_write dst codec elements payload_bytes =
    do { dst \<leftarrow> store32 0 TU_WEIGHT_FRAME_MAGIC dst;
         dst \<leftarrow> store8 4 1 dst;
         dst \<leftarrow> store8 5 codec dst;
         dst \<leftarrow> store16 6 0 dst;
         dst \<leftarrow> store32 8 elements dst;
         store32 12 payload_bytes dst }"

text \<open>Whether the frame is accepted, and the three variables it sets (unchanged for a short buffer).\<close>

definition frame_read :: "u8 list \<Rightarrow> u32 \<Rightarrow> u8 \<times> u32 \<times> u32 \<Rightarrow> (bool \<times> u8 \<times> u32 \<times> u32) option" where
  "frame_read src sz old =
    (if sz < 16 then Some (False, old)
     else do {
       magic \<leftarrow> load32 0 src;
       reserved \<leftarrow> load16 6 src;
       elements \<leftarrow> load32 8 src;
       payload_bytes \<leftarrow> load32 12 src;
       codec \<leftarrow> load8 5 src;
       version \<leftarrow> load8 4 src;
       Some (if magic \<noteq> TU_WEIGHT_FRAME_MAGIC \<or> version \<noteq> 1 \<or> reserved \<noteq> 0 \<or>
               codec \<noteq> TU_WEIGHT_PAYLOAD_RAW \<and> codec \<noteq> TU_WEIGHT_PAYLOAD_RLE \<and> codec \<noteq> TU_WEIGHT_PAYLOAD_BITMAP
             then False else payload_bytes = sz - 16, codec, elements, payload_bytes) })"

text \<open>A call on the payload area of a buffer.\<close>

definition in_payload :: "u8 list \<Rightarrow> (u8 list \<Rightarrow> (int \<times> u8 list \<times> u32) option) \<Rightarrow> (int \<times> u8 list \<times> u32) option" where
  "in_payload dst f =
    do { (rc, body, payload) \<leftarrow> f (drop 16 dst); Some (rc, take 16 dst @ body, payload) }"

section \<open>Adaptive encoders\<close>

definition tu_compress_adaptive_rle ::
  "u16 list \<Rightarrow> u32 \<Rightarrow> u32 \<Rightarrow> u8 list \<Rightarrow> u32 \<Rightarrow> u32 \<Rightarrow> u8 \<Rightarrow> (int \<times> u8 list \<times> u32 \<times> u8) option" where
  "tu_compress_adaptive_rle src n epsilon dst cap size_out codec_out =
    (if f32_lt_zero epsilon \<or> n > (UINT32_MAX - 16) div 2 then Some (- 1, dst, size_out, codec_out)
     else
       let raw_bytes = n * 2 in
       if cap < 16 + raw_bytes then Some (- 1, dst, size_out, codec_out)
       else if length src < unat n then None
       else
         let xs = take (unat n) src;
             runs = count_runs xs epsilon;
             rle_bytes = (if n = 0 then 8 else 8 + (ucast runs :: u64) * 6);
             codec = (if rle_bytes < ucast raw_bytes then TU_WEIGHT_PAYLOAD_RLE else TU_WEIGHT_PAYLOAD_RAW)
         in do {
           (rc, dst, payload) \<leftarrow>
             (if codec = TU_WEIGHT_PAYLOAD_RLE
              then in_payload dst (\<lambda>body. tu_compress_rle src n epsilon body (cap - 16) raw_bytes)
              else in_payload dst (\<lambda>body. do { body \<leftarrow> raw_encode xs body; Some (0, body, raw_bytes) }));
           if rc \<noteq> 0 then Some (- 1, dst, size_out, codec_out)
           else do { dst \<leftarrow> frame_write dst codec n payload;
                     Some (0, dst, 16 + payload, codec) } })"

definition tu_compress_adaptive ::
  "u16 list \<Rightarrow> u32 \<Rightarrow> u32 \<Rightarrow> u8 list \<Rightarrow> u32 \<Rightarrow> u32 \<Rightarrow> u8 \<Rightarrow> (int \<times> u8 list \<times> u32 \<times> u8) option" where
  "tu_compress_adaptive src n epsilon dst cap size_out codec_out =
    (if f32_lt_zero epsilon \<or> n > (UINT32_MAX - 16) div 2 \<or> n > UINT32_MAX - 7
     then Some (- 1, dst, size_out, codec_out)
     else
       let raw_bytes = n * 2 in
       if cap < 16 + raw_bytes then Some (- 1, dst, size_out, codec_out)
       else if length src < unat n then None
       else
         let xs = take (unat n) src;
             runs = count_runs xs epsilon;
             rle_bytes = (if n = 0 then 8 else 8 + (ucast runs :: u64) * 6);
             nnz = count_nonzero_bits xs;
             bitmap_bytes = 8 + (ucast (n + 7) :: u64) div 8 + ucast nnz * 2;
             (codec, selected) = (TU_WEIGHT_PAYLOAD_RAW, ucast raw_bytes);
             (codec, selected) = (if rle_bytes < selected then (TU_WEIGHT_PAYLOAD_RLE, rle_bytes) else (codec, selected));
             (codec, selected) = (if bitmap_bytes < selected then (TU_WEIGHT_PAYLOAD_BITMAP, bitmap_bytes) else (codec, selected))
         in do {
           (rc, dst, payload) \<leftarrow>
             (if codec = TU_WEIGHT_PAYLOAD_RLE
              then in_payload dst (\<lambda>body. tu_compress_rle src n epsilon body (cap - 16) raw_bytes)
              else if codec = TU_WEIGHT_PAYLOAD_BITMAP
              then in_payload dst (\<lambda>body. tu_compress_bitmap src n body (cap - 16) raw_bytes)
              else in_payload dst (\<lambda>body. do { body \<leftarrow> raw_encode xs body; Some (0, body, raw_bytes) }));
           if rc \<noteq> 0 then Some (- 1, dst, size_out, codec_out)
           else do { dst \<leftarrow> frame_write dst codec n payload;
                     Some (0, dst, 16 + payload, codec) } })"

definition tu_compress_adaptive_max_size :: "u32 \<Rightarrow> u32" where
  "tu_compress_adaptive_max_size element_count =
    (let total = 16 + (ucast element_count :: u64) * 2
     in if total > ucast UINT32_MAX then UINT32_MAX else ucast total)"

section \<open>Adaptive decoder\<close>

text \<open>The validator and the decoder behind the frame, by codec.\<close>

definition payload_valid :: "u8 \<Rightarrow> u8 list \<Rightarrow> u32 \<Rightarrow> u32 \<Rightarrow> bool option" where
  "payload_valid codec body payload n =
    (if codec = TU_WEIGHT_PAYLOAD_RAW then Some (n \<le> UINT32_MAX div 2 \<and> payload = n * 2)
     else if codec = TU_WEIGHT_PAYLOAD_RLE then
       do { valid \<leftarrow> tu_compress_validate body payload;
            if \<not> valid then Some False
            else do { m \<leftarrow> tu_compress_get_original_count body payload; Some (m = n) } }
     else
       do { valid \<leftarrow> tu_compress_bitmap_validate body payload;
            if \<not> valid then Some False
            else do { bitmap_n \<leftarrow> load32 0 body; Some (bitmap_n = n) } })"

definition payload_decode ::
  "u8 \<Rightarrow> u8 list \<Rightarrow> u32 \<Rightarrow> u32 \<Rightarrow> u16 list \<Rightarrow> u32 \<Rightarrow> u32 \<Rightarrow> (int \<times> u16 list \<times> u32) option" where
  "payload_decode codec body payload n dst cap count_out =
    (if codec = TU_WEIGHT_PAYLOAD_RAW then
       do { dst \<leftarrow> raw_decode body payload dst; Some (0, dst, n) }
     else if codec = TU_WEIGHT_PAYLOAD_RLE then tu_decompress_rle body payload dst cap count_out
     else tu_decompress_bitmap body payload dst cap count_out)"

definition tu_compress_adaptive_validate :: "u8 list \<Rightarrow> u32 \<Rightarrow> bool option" where
  "tu_compress_adaptive_validate src sz =
    do { (ok, codec, n, payload) \<leftarrow> frame_read src sz (0, 0, 0);
         if \<not> ok then Some False else payload_valid codec (drop 16 src) payload n }"

definition tu_compress_adaptive_get_codec :: "u8 list \<Rightarrow> u32 \<Rightarrow> u8 \<Rightarrow> (int \<times> u8) option" where
  "tu_compress_adaptive_get_codec src sz codec_out =
    do { (ok, codec, n, payload) \<leftarrow> frame_read src sz (codec_out, 0, 0);
         Some (if \<not> ok then - 1 else 0, codec) }"

definition tu_decompress_adaptive ::
  "u8 list \<Rightarrow> u32 \<Rightarrow> u16 list \<Rightarrow> u32 \<Rightarrow> u32 \<Rightarrow> (int \<times> u16 list \<times> u32) option" where
  "tu_decompress_adaptive src sz dst cap count_out =
    do { valid \<leftarrow> tu_compress_adaptive_validate src sz;
         if \<not> valid then Some (- 1, dst, count_out)
         else do {
           (ok, codec, n, payload) \<leftarrow> frame_read src sz (0, 0, 0);
           if \<not> ok \<or> cap < n then Some (- 1, dst, count_out)
           else payload_decode codec (drop 16 src) payload n dst cap count_out } }"

section \<open>Entry points for DMA\<close>

text \<open>The configuration is \<open>None\<close> for \<open>NULL\<close>.\<close>

definition stored_raw :: "tu_compress_config option \<Rightarrow> bool" where
  "stored_raw cfg = (case cfg of None \<Rightarrow> True | Some c \<Rightarrow> \<not> cc_enabled c \<or> cc_type c = TU_COMPRESS_NONE)"

definition tu_compress_for_dma ::
  "u16 list \<Rightarrow> u32 \<Rightarrow> tu_compress_config option \<Rightarrow> u8 list \<Rightarrow> u32 \<Rightarrow> u32 \<Rightarrow> (int \<times> u8 list \<times> u32) option" where
  "tu_compress_for_dma src n cfg dst cap size_out =
    (if stored_raw cfg then
       if n > UINT32_MAX div 2 then Some (- 1, dst, size_out)
       else
         let raw = n * 2
         in if cap < raw then Some (- 1, dst, size_out)
            else if length src < unat n then None
            else do { dst \<leftarrow> raw_encode (take (unat n) src) dst; Some (0, dst, raw) }
     else
       let c = the cfg; drop_codec = map_option (\<lambda>(rc, dst, sz, codec). (rc, dst, sz))
       in case cc_type c of
            TU_COMPRESS_RLE \<Rightarrow> tu_compress_rle src n (cc_rle_epsilon c) dst cap size_out
          | TU_COMPRESS_ADAPTIVE_RLE \<Rightarrow>
              drop_codec (tu_compress_adaptive_rle src n (cc_rle_epsilon c) dst cap size_out 0)
          | TU_COMPRESS_BITMAP \<Rightarrow> tu_compress_bitmap src n dst cap size_out
          | TU_COMPRESS_ADAPTIVE \<Rightarrow>
              drop_codec (tu_compress_adaptive src n (cc_rle_epsilon c) dst cap size_out 0)
          | _ \<Rightarrow> Some (- 1, dst, size_out))"

definition tu_decompress_from_dma ::
  "u8 list \<Rightarrow> u32 \<Rightarrow> tu_compress_config option \<Rightarrow> u16 list \<Rightarrow> u32 \<Rightarrow> u32 \<Rightarrow> (int \<times> u16 list \<times> u32) option" where
  "tu_decompress_from_dma src sz cfg dst cap count_out =
    (if stored_raw cfg then
       if sz mod 2 \<noteq> 0 then Some (- 1, dst, count_out)
       else
         let n = sz div 2
         in if cap < n then Some (- 1, dst, count_out)
            else do { dst \<leftarrow> raw_decode src sz dst; Some (0, dst, n) }
     else case cc_type (the cfg) of
            TU_COMPRESS_RLE \<Rightarrow> tu_decompress_rle src sz dst cap count_out
          | TU_COMPRESS_ADAPTIVE_RLE \<Rightarrow> tu_decompress_adaptive src sz dst cap count_out
          | TU_COMPRESS_BITMAP \<Rightarrow> tu_decompress_bitmap src sz dst cap count_out
          | TU_COMPRESS_ADAPTIVE \<Rightarrow> tu_decompress_adaptive src sz dst cap count_out
          | _ \<Rightarrow> Some (- 1, dst, count_out))"

section \<open>Frames\<close>

definition frame_bytes :: "u8 \<Rightarrow> u32 \<Rightarrow> u32 \<Rightarrow> u8 list" where
  "frame_bytes codec n payload =
    to_le 4 TU_WEIGHT_FRAME_MAGIC @ [1, codec] @ to_le 2 (0 :: u16) @ to_le 4 n @ to_le 4 payload"

lemma length_frame_bytes [simp]: "length (frame_bytes c n p) = 16"
  by (simp add: frame_bytes_def)

lemma list_16:
  assumes "length H = 16"
  obtains A v c B C D where "H = A @ [v, c] @ B @ C @ D" "length A = 4" "length B = 2" "length C = 4" "length D = 4"
proof -
  have "drop 4 H = [H ! 4, H ! 5] @ drop 6 H"
    using assms by (simp add: Cons_nth_drop_Suc [symmetric] eval_nat_numeral)
  then have "H = take 4 H @ [H ! 4, H ! 5] @ take 2 (drop 6 H) @ take 4 (drop 8 H) @ drop 12 H"
    using append_take_drop_id [of 4 H] append_take_drop_id [of 2 "drop 6 H"] append_take_drop_id [of 4 "drop 8 H"]
    by (simp add: eval_nat_numeral)
  then show thesis by (rule that) (use assms in simp_all)
qed

lemma frame_write_at:
  assumes "length H = 16"
  shows "frame_write (H @ R) codec n payload = Some (frame_bytes codec n payload @ R)"
proof -
  obtain A v c B C D where H: "H = A @ [v, c] @ B @ C @ D" "length A = 4" "length B = 2" "length C = 4" "length D = 4"
    by (rule list_16 [OF assms])
  let ?M = "to_le 4 TU_WEIGHT_FRAME_MAGIC" and ?Z = "to_le 2 (0 :: u16)"
  have 1: "store32 0 TU_WEIGHT_FRAME_MAGIC (A @ [v, c] @ B @ C @ D @ R) = Some (?M @ [v, c] @ B @ C @ D @ R)"
    using store_at [of "[]" 0 A ?M] H by (simp add: store32_def)
  have 2: "store8 4 1 (?M @ [v, c] @ B @ C @ D @ R) = Some (?M @ [1, c] @ B @ C @ D @ R)"
    by (simp add: store8_def list_update_append)
  have 3: "store8 5 codec (?M @ [1, c] @ B @ C @ D @ R) = Some (?M @ [1, codec] @ B @ C @ D @ R)"
    by (simp add: store8_def list_update_append)
  have 4: "store16 6 0 (?M @ [1, codec] @ B @ C @ D @ R) = Some (?M @ [1, codec] @ ?Z @ C @ D @ R)"
    using store_at [of "?M @ [1, codec]" 6 B ?Z "C @ D @ R"] H by (simp add: store16_def)
  have 5: "store32 8 n (?M @ [1, codec] @ ?Z @ C @ D @ R) = Some (?M @ [1, codec] @ ?Z @ to_le 4 n @ D @ R)"
    using store_at [of "?M @ [1, codec] @ ?Z" 8 C "to_le 4 n" "D @ R"] H by (simp add: store32_def)
  have 6: "store32 12 payload (?M @ [1, codec] @ ?Z @ to_le 4 n @ D @ R) =
      Some (?M @ [1, codec] @ ?Z @ to_le 4 n @ to_le 4 payload @ R)"
    using store_at [of "?M @ [1, codec] @ ?Z @ to_le 4 n" 12 D "to_le 4 payload" R] H by (simp add: store32_def)
  have HR: "H @ R = A @ [v, c] @ B @ C @ D @ R" using H(1) by simp
  show ?thesis unfolding frame_write_def HR 1 2 3 4 5 6 bind.bind_lunit by (simp add: frame_bytes_def)
qed

lemma frame_read_at:
  assumes "16 \<le> unat sz" "codec = 0 \<or> codec = 1 \<or> codec = 2"
  shows "frame_read (frame_bytes codec n payload @ R) sz old = Some (payload = sz - 16, codec, n, payload)"
proof -
  let ?M = "to_le 4 TU_WEIGHT_FRAME_MAGIC" and ?Z = "to_le 2 (0 :: u16)"
  have F: "frame_bytes codec n payload @ R = ?M @ [1, codec] @ ?Z @ to_le 4 n @ to_le 4 payload @ R"
    by (simp add: frame_bytes_def)
  have "load32 0 (?M @ [1, codec] @ ?Z @ to_le 4 n @ to_le 4 payload @ R) = Some TU_WEIGHT_FRAME_MAGIC"
    using load32_at [of "[]" 0] by simp
  moreover have "load16 6 (?M @ [1, codec] @ ?Z @ to_le 4 n @ to_le 4 payload @ R) = Some 0"
    using load16_at [of "?M @ [1, codec]" 6] by simp
  moreover have "load32 8 (?M @ [1, codec] @ ?Z @ to_le 4 n @ to_le 4 payload @ R) = Some n"
    using load32_at [of "?M @ [1, codec] @ ?Z" 8] by simp
  moreover have "load32 12 (?M @ [1, codec] @ ?Z @ to_le 4 n @ to_le 4 payload @ R) = Some payload"
    using load32_at [of "?M @ [1, codec] @ ?Z @ to_le 4 n" 12] by simp
  moreover have "load8 5 (?M @ [1, codec] @ ?Z @ to_le 4 n @ to_le 4 payload @ R) = Some codec"
    "load8 4 (?M @ [1, codec] @ ?Z @ to_le 4 n @ to_le 4 payload @ R) = Some 1"
    by (simp_all add: load8_def nth_append)
  moreover have "\<not> sz < 16" using assms(1) by (simp add: word_less_nat_alt)
  ultimately show ?thesis unfolding F frame_read_def using assms(2) by auto
qed

lemma frame_read_some:
  assumes "unat sz \<le> length src"
  shows "\<exists>ok codec n payload. frame_read src sz old = Some (ok, codec, n, payload) \<and>
    (ok \<longrightarrow> 16 \<le> unat sz \<and> unat payload = unat sz - 16 \<and> (codec = 0 \<or> codec = 1 \<or> codec = 2))"
proof (cases "sz < 16")
  case True
  then show ?thesis by (cases old) (auto simp: frame_read_def)
next
  case False
  then have l: "16 \<le> unat sz" "16 \<le> length src" using assms by (simp_all add: word_less_nat_alt)
  then have "0 + 4 \<le> length src" "6 + 2 \<le> length src" "8 + 4 \<le> length src" "12 + 4 \<le> length src" by simp_all
  then obtain m r n p where "load32 0 src = Some m" "load16 6 src = Some r" "load32 8 src = Some n" "load32 12 src = Some p"
    by (meson load16_some load32_some)
  moreover obtain c v where "load8 5 src = Some c" "load8 4 src = Some v" using l by (simp add: load8_def)
  moreover have "unat (sz - 16) = unat sz - 16" using l(1) by (subst unat_sub_le) (simp_all add: word_le_nat_alt)
  ultimately show ?thesis using False l(1) by (auto simp: frame_read_def)
qed

section \<open>Raw payloads\<close>

lemma length_bytes_of [simp]: "length (bytes_of xs) = 2 * length xs"
  by (induction xs) (auto simp: bytes_of_def)

lemma to_le_2: "to_le 2 w = [ucast w, ucast (drop_bit 8 w)]"
  by (simp add: numeral_2_eq_2)

lemma halves_of_bytes_of: "halves_of (bytes_of xs) = xs"
proof (induction xs)
  case (Cons x xs)
  have "of_le [ucast x, ucast (drop_bit 8 x)] = x" using of_le_to_le16 [of x] by (simp only: to_le_2)
  then show ?case using Cons by (simp only: bytes_of_def list.map concat.simps to_le_2 append_Cons append_Nil halves_of.simps)
qed (simp add: bytes_of_def)

lemma length_halves_of: "length (halves_of bs) = length bs div 2"
  by (induction bs rule: halves_of.induct) auto

lemma raw_encode_at:
  assumes "2 * length xs \<le> length dst"
  shows "raw_encode xs dst = Some (bytes_of xs @ drop (2 * length xs) dst)"
  using assms by (simp add: raw_encode_def store_def) (simp add: bytes_of_def)

lemma raw_decode_at:
  assumes "unat sz = 2 * length xs" "length xs \<le> length out"
  shows "raw_decode (bytes_of xs @ rest) sz out = Some (xs @ drop (length xs) out)"
proof (cases "sz = 0")
  case True
  then show ?thesis using assms by (simp add: raw_decode_def)
next
  case False
  have "load (unat sz) 0 (bytes_of xs @ rest) = Some (bytes_of xs)"
    using load_at [of "[]" 0 "bytes_of xs" "unat sz" rest] assms by simp
  then show ?thesis using False assms by (simp add: raw_decode_def halves_of_bytes_of store_def)
qed

lemma raw_decode_inside:
  assumes "unat sz \<le> length src" "unat sz div 2 \<le> unat cap" "unat cap \<le> length out"
  shows "\<exists>out'. raw_decode src sz out = Some out' \<and> length out' = length out \<and> drop (unat cap) out' = drop (unat cap) out"
  using assms by (simp add: raw_decode_def load_def store_def length_halves_of)

section \<open>Codecs behind a frame\<close>

text \<open>
  What the frame needs from a codec: a payload that encodes \<open>xs\<close> is accepted under its code and decoded
  to \<open>ys\<close>, whatever bytes follow it in the buffer.
\<close>

locale weight_codec =
  fixes code :: u8 and encoded :: "u16 list \<Rightarrow> u16 list \<Rightarrow> u8 list \<Rightarrow> bool"
  assumes known: "code = 0 \<or> code = 1 \<or> code = 2"
    and small: "encoded xs ys B \<Longrightarrow> length B \<le> 4294967279 \<and> length xs < 4294967296"
    and accepts: "encoded xs ys B \<Longrightarrow>
      payload_valid code (B @ rest) (of_nat (length B)) (of_nat (length xs)) = Some True"
    and decodes: "encoded xs ys B \<Longrightarrow> length xs \<le> unat cap \<Longrightarrow> unat cap \<le> length out \<Longrightarrow>
      payload_decode code (B @ rest) (of_nat (length B)) (of_nat (length xs)) out cap cnt =
        Some (0, ys @ drop (length xs) out, of_nat (length xs))"
begin

lemma framed:
  assumes "encoded xs ys B" "length xs \<le> unat cap" "unat cap \<le> length out"
  defines "F \<equiv> frame_bytes code (of_nat (length xs)) (of_nat (length B))"
  shows "tu_compress_adaptive_validate (F @ B @ rest) (16 + of_nat (length B)) = Some True"
    and "tu_decompress_adaptive (F @ B @ rest) (16 + of_nat (length B)) out cap cnt =
      Some (0, ys @ drop (length xs) out, of_nat (length xs))"
proof -
  have s: "length B \<le> 4294967279" "length xs < 4294967296" using small [OF assms(1)] by blast+
  have sz: "unat (16 + of_nat (length B) :: u32) = 16 + length B" using s by (subst u32_add_exact) simp_all
  have r: "frame_read (F @ B @ rest) (16 + of_nat (length B)) old =
      Some (True, code, of_nat (length xs), of_nat (length B))" for old
    unfolding F_def using frame_read_at [OF _ known, of "16 + of_nat (length B)"] sz by simp
  have d: "length F = 16" by (simp add: F_def)
  show v: "tu_compress_adaptive_validate (F @ B @ rest) (16 + of_nat (length B)) = Some True"
    using accepts [OF assms(1)] by (simp add: tu_compress_adaptive_validate_def r d)
  have "\<not> cap < of_nat (length xs)" using assms(2) s by (simp add: word_less_nat_alt)
  then show "tu_decompress_adaptive (F @ B @ rest) (16 + of_nat (length B)) out cap cnt =
      Some (0, ys @ drop (length xs) out, of_nat (length xs))"
    using decodes [OF assms(1-3)] by (simp add: tu_decompress_adaptive_def v r d)
qed

end

definition raw_encoded :: "u16 list \<Rightarrow> u16 list \<Rightarrow> u8 list \<Rightarrow> bool" where
  "raw_encoded xs ys B \<longleftrightarrow> B = bytes_of xs \<and> ys = xs \<and> length xs \<le> 2147483639"

definition rle_encoded :: "u32 \<Rightarrow> u16 list \<Rightarrow> u16 list \<Rightarrow> u8 list \<Rightarrow> bool" where
  "rle_encoded epsilon xs ys B \<longleftrightarrow> B = rle_stream (near_by epsilon) xs \<and> ys = expand (runs (near_by epsilon) xs) \<and>
     xs \<noteq> [] \<and> length xs \<le> 715827881 \<and> length B \<le> 4294967279"

definition bitmap_encoded :: "u16 list \<Rightarrow> u16 list \<Rightarrow> u8 list \<Rightarrow> bool" where
  "bitmap_encoded xs ys B \<longleftrightarrow> bitmap_stream xs B \<and> ys = xs \<and> length xs \<le> 4294967288 \<and> length B \<le> 4294967279"

interpretation raw: weight_codec 0 raw_encoded
proof unfold_locales
  fix xs ys B rest and out :: "u16 list" and cap cnt :: u32
  assume e: "raw_encoded xs ys B"
  then show "length B \<le> 4294967279 \<and> length xs < 4294967296" by (simp add: raw_encoded_def)
  have u: "unat (of_nat (length xs) :: u32) = length xs" "unat (of_nat (length B) :: u32) = 2 * length xs"
    using e by (simp_all add: raw_encoded_def del: of_nat_mult)
  show "payload_valid 0 (B @ rest) (of_nat (length B)) (of_nat (length xs)) = Some True"
    using e u by (simp add: payload_valid_def raw_encoded_def word_le_nat_alt)
  show "payload_decode 0 (B @ rest) (of_nat (length B)) (of_nat (length xs)) out cap cnt =
      Some (0, ys @ drop (length xs) out, of_nat (length xs))"
    if "length xs \<le> unat cap" "unat cap \<le> length out"
    using e that raw_decode_at [OF u(2), of out rest] by (simp add: payload_decode_def raw_encoded_def)
qed simp

interpretation rle: weight_codec 1 "rle_encoded epsilon" for epsilon
proof unfold_locales
  fix xs ys B rest and out :: "u16 list" and cap cnt :: u32
  assume e: "rle_encoded epsilon xs ys B"
  then have e': "B = rle_stream (near_by epsilon) xs" "ys = expand (runs (near_by epsilon) xs)" "xs \<noteq> []"
    "length xs \<le> 715827881" "length B \<le> 4294967279" unfolding rle_encoded_def by blast+
  then show "length B \<le> 4294967279 \<and> length xs < 4294967296" by simp
  show "payload_valid 1 (B @ rest) (of_nat (length B)) (of_nat (length xs)) = Some True"
    unfolding e'(1) using validate_rle_stream [OF e'(3,4)] by (simp add: payload_valid_def)
  show "payload_decode 1 (B @ rest) (of_nat (length B)) (of_nat (length xs)) out cap cnt =
      Some (0, ys @ drop (length xs) out, of_nat (length xs))"
    if "length xs \<le> unat cap" "unat cap \<le> length out"
  proof -
    have "length (rle_stream (near_by epsilon) xs) \<le> unat (of_nat (length B) :: u32)" using e'(1,5) by simp
    then show ?thesis
      using decompress_rle_stream [OF e'(3,4) that, of "near_by epsilon" "of_nat (length B)" rest]
      by (simp add: payload_decode_def e'(1,2))
  qed
qed simp

interpretation bitmap: weight_codec 2 bitmap_encoded
proof unfold_locales
  fix xs ys B rest and out :: "u16 list" and cap cnt :: u32
  assume e: "bitmap_encoded xs ys B"
  then have e': "bitmap_stream xs B" "ys = xs" "length B < 4294967296" "length xs \<le> 4294967288" "length B \<le> 4294967279"
    by (simp_all add: bitmap_encoded_def)
  then show "length B \<le> 4294967279 \<and> length xs < 4294967296" by simp
  show "payload_valid 2 (B @ rest) (of_nat (length B)) (of_nat (length xs)) = Some True"
    using bitmap_stream_valid [OF e'(1,3,4)] bitmap_stream_header(1) [OF e'(1)] by (simp add: payload_valid_def)
  show "payload_decode 2 (B @ rest) (of_nat (length B)) (of_nat (length xs)) out cap cnt =
      Some (0, ys @ drop (length xs) out, of_nat (length xs))"
    if "length xs \<le> unat cap" "unat cap \<le> length out"
    using decompress_bitmap_stream [OF e'(1,3,4) that] by (simp add: payload_decode_def e'(2))
qed simp

section \<open>Adaptive encoders write a frame and a payload\<close>

text \<open>The payload sizes among which the encoders choose.\<close>

definition rle_size :: "u32 \<Rightarrow> u16 list \<Rightarrow> nat" where
  "rle_size epsilon xs = 8 + 6 * length (runs (near_by epsilon) xs)"

text \<open>A payload of the right kind for a codec.\<close>

definition payload_of :: "u8 \<Rightarrow> u32 \<Rightarrow> u16 list \<Rightarrow> u16 list \<Rightarrow> u8 list \<Rightarrow> bool" where
  "payload_of codec epsilon xs ys B \<longleftrightarrow>
     codec = 0 \<and> raw_encoded xs ys B \<or> codec = 1 \<and> rle_encoded epsilon xs ys B \<or> codec = 2 \<and> bitmap_encoded xs ys B"

lemma payload_of_decodes:
  assumes "payload_of codec epsilon xs ys B" "length xs \<le> unat cap" "unat cap \<le> length out"
  defines "F \<equiv> frame_bytes codec (of_nat (length xs)) (of_nat (length B))"
  shows "tu_compress_adaptive_validate (F @ B @ rest) (16 + of_nat (length B)) = Some True \<and>
    tu_decompress_adaptive (F @ B @ rest) (16 + of_nat (length B)) out cap cnt =
      Some (0, ys @ drop (length xs) out, of_nat (length xs))"
proof -
  consider "codec = 0" "raw_encoded xs ys B" | "codec = 1" "rle_encoded epsilon xs ys B" | "codec = 2" "bitmap_encoded xs ys B"
    using assms(1) unfolding payload_of_def by blast
  then show ?thesis
  proof cases
    case 1
    show ?thesis using raw.framed [OF 1(2) assms(2,3)] by (simp add: F_def 1(1))
  next
    case 2
    show ?thesis using rle.framed [OF 2(2) assms(2,3)] by (simp add: F_def 2(1))
  next
    case 3
    show ?thesis using bitmap.framed [OF 3(2) assms(2,3)] by (simp add: F_def 3(1))
  qed
qed

lemma payload_of_near:
  "payload_of codec epsilon xs ys B \<Longrightarrow> list_all2 (near_by epsilon) xs ys \<and> (ys = xs \<or> codec = 1 \<and> \<not> f32_le_zero epsilon)"
  using expand_runs [of "near_by epsilon" xs] near_by_refl [of epsilon] expand_runs_exact [of xs] near_by_exact [of epsilon]
  by (auto simp: payload_of_def raw_encoded_def rle_encoded_def bitmap_encoded_def list_all2_conv_all_nth)

text \<open>The tail that both encoders share.\<close>

definition finish_frame ::
  "u8 \<Rightarrow> u32 \<Rightarrow> (u8 list \<Rightarrow> int \<times> u8 list \<times> u32 \<times> u8) \<Rightarrow> (int \<times> u8 list \<times> u32) option \<Rightarrow>
    (int \<times> u8 list \<times> u32 \<times> u8) option" where
  "finish_frame codec n fail r =
    do { (rc, dst, payload) \<leftarrow> r;
         if rc \<noteq> 0 then Some (fail dst)
         else do { dst \<leftarrow> frame_write dst codec n payload; Some (0, dst, 16 + payload, codec) } }"

lemma finish_frame_ok:
  assumes "16 \<le> length dst" "f (drop 16 dst) = Some (0, B @ drop (length B) (drop 16 dst), of_nat (length B))"
  shows "finish_frame codec n fail (in_payload dst f) =
    Some (0, frame_bytes codec n (of_nat (length B)) @ B @ drop (16 + length B) dst, 16 + of_nat (length B), codec)"
proof -
  have "length (take 16 dst) = 16" using assms(1) by simp
  then have "frame_write (take 16 dst @ B @ drop (length B + 16) dst) codec n (of_nat (length B)) =
      Some (frame_bytes codec n (of_nat (length B)) @ B @ drop (length B + 16) dst)"
    by (rule frame_write_at)
  then show ?thesis using assms(2)
    by (simp add: finish_frame_def in_payload_def add.commute)
qed

lemma finish_frame_fail:
  "f (drop 16 dst) = Some (- 1, drop 16 dst, s) \<Longrightarrow>
   finish_frame codec n fail (in_payload dst f) = Some (fail dst)"
  by (simp add: finish_frame_def in_payload_def)

section \<open>The three payload writers\<close>

lemma write_raw:
  fixes n :: u32
  assumes "unat n \<le> length src" "unat n \<le> 2147483639" "16 + 2 * unat n \<le> length dst"
  defines "B \<equiv> bytes_of (take (unat n) src)"
  shows "do { body \<leftarrow> raw_encode (take (unat n) src) (drop 16 dst); Some (0, body, n * 2) } =
      Some (0, B @ drop (length B) (drop 16 dst), of_nat (length B))"
    and "raw_encoded (take (unat n) src) (take (unat n) src) B"
proof -
  have l: "length (take (unat n) src) = unat n" using assms(1) by simp
  have "n * 2 = (of_nat (length B) :: u32)" by (simp add: B_def l min_absorb2 assms(1))
  then show "do { body \<leftarrow> raw_encode (take (unat n) src) (drop 16 dst); Some (0, body, n * 2) } =
      Some (0, B @ drop (length B) (drop 16 dst), of_nat (length B))"
    using raw_encode_at [of "take (unat n) src" "drop 16 dst"] assms(3) l by (simp add: B_def)
  show "raw_encoded (take (unat n) src) (take (unat n) src) B"
    using assms(2) l by (simp add: raw_encoded_def B_def)
qed

lemma unat_cap_16: "16 \<le> unat cap \<Longrightarrow> unat (cap - 16 :: u32) = unat cap - 16"
  by (subst unat_sub_le) (simp_all add: word_le_nat_alt)

lemma write_rle:
  assumes src: "unat n \<le> length src" and dst: "unat cap \<le> length dst" and "16 \<le> unat cap"
    and eps: "\<not> f32_lt_zero epsilon" and "n \<noteq> 0" and n: "unat n \<le> 715827881"
    and fits: "16 + rle_size epsilon (take (unat n) src) \<le> unat cap"
  defines "B \<equiv> rle_stream (near_by epsilon) (take (unat n) src)"
  shows "tu_compress_rle src n epsilon (drop 16 dst) (cap - 16) so =
      Some (0, B @ drop (length B) (drop 16 dst), of_nat (length B))"
    and "\<exists>ys. rle_encoded epsilon (take (unat n) src) ys B"
proof -
  have B: "length B = rle_size epsilon (take (unat n) src)" by (simp add: B_def length_rle_stream rle_size_def)
  have c: "unat (cap - 16) \<le> length (drop 16 dst)" "\<not> unat (cap - 16) < length B"
    using assms(2,3) fits by (simp_all add: unat_cap_16 B)
  show "tu_compress_rle src n epsilon (drop 16 dst) (cap - 16) so =
      Some (0, B @ drop (length B) (drop 16 dst), of_nat (length B))"
    using compress_rle_cases [OF src c(1), of epsilon so] eps \<open>n \<noteq> 0\<close> n c(2) by (simp add: B_def)
  have "0 < unat n" using \<open>n \<noteq> 0\<close> by (simp add: unat_gt_0)
  then have "take (unat n) src \<noteq> []" using src by auto
  moreover have "length B \<le> 4294967279" using fits B unat_u32_less [of cap] by linarith
  ultimately show "\<exists>ys. rle_encoded epsilon (take (unat n) src) ys B"
    using n by (auto simp: rle_encoded_def B_def)
qed

lemma write_bitmap:
  assumes src: "unat n \<le> length src" and dst: "unat cap \<le> length dst" and "16 \<le> unat cap"
    and n: "unat n \<le> 4294967288" and fits: "16 + bitmap_size (take (unat n) src) \<le> unat cap"
  shows "\<exists>B. tu_compress_bitmap src n (drop 16 dst) (cap - 16) so =
        Some (0, B @ drop (length B) (drop 16 dst), of_nat (length B)) \<and>
      length B = bitmap_size (take (unat n) src) \<and> bitmap_encoded (take (unat n) src) (take (unat n) src) B"
proof -
  have c: "unat (cap - 16) \<le> length (drop 16 dst)" using assms(2,3) by (simp add: unat_cap_16)
  have s: "bitmap_size (take (unat n) src) \<le> 4294967279" using fits unat_u32_less [of cap] by linarith
  have "\<not> (unat n > 4294967288 \<or> bitmap_size (take (unat n) src) > 4294967295 \<or>
      unat (cap - 16) < bitmap_size (take (unat n) src))"
    using n s fits assms(3) by (simp add: unat_cap_16)
  then obtain B where "bitmap_stream (take (unat n) src) B"
    "tu_compress_bitmap src n (drop 16 dst) (cap - 16) so =
        Some (0, B @ drop (length B) (drop 16 dst), of_nat (length B))"
    using compress_bitmap_cases [OF src c, of so] by auto
  then show ?thesis using s n src length_bitmap_stream [of "take (unat n) src" B]
    by (intro exI [of _ B]) (simp add: bitmap_encoded_def min_absorb2)
qed

text \<open>The sizes as the encoders compute them.\<close>

lemma adaptive_sizes:
  fixes n :: u32
  assumes "length xs = unat n" "unat n \<le> 2147483639"
  shows "unat (n * 2) = 2 * unat n"
    and "unat (16 + n * 2) = 16 + 2 * unat n"
    and "unat (if n = 0 then 8 else 8 + (ucast (count_runs xs epsilon) :: u64) * 6) = rle_size epsilon xs"
    and "unat (8 + (ucast (n + 7) :: u64) div 8 + ucast (count_nonzero_bits xs) * 2) = bitmap_size xs"
proof -
  show r: "unat (n * 2) = 2 * unat n" using assms(2) by (subst u32_mult_exact) simp_all
  show "unat (16 + n * 2) = 16 + 2 * unat n" using assms(2) r by (subst u32_add_exact) simp_all
  have c: "unat (count_runs xs epsilon) = length (runs (near_by epsilon) xs)"
    by (rule count_runs_length) (use assms in simp)
  show "unat (if n = 0 then 8 else 8 + (ucast (count_runs xs epsilon) :: u64) * 6) = rle_size epsilon xs"
  proof (cases "n = 0")
    case True
    then show ?thesis using assms(1) by (simp add: rle_size_def runs_def)
  next
    case False
    have m: "unat ((ucast (count_runs xs epsilon) :: u64) * 6) = 6 * length (runs (near_by epsilon) xs)"
      using length_runs [of "near_by epsilon" xs] assms by (subst u64_mult_exact) (simp_all add: c)
    then show ?thesis using False length_runs [of "near_by epsilon" xs] assms
      by (simp only: if_False) (subst u64_add_exact; simp add: rle_size_def)
  qed
  have z: "unat (count_nonzero_bits xs) = length (nonzeros xs)"
    by (rule count_nonzero_length) (use assms in simp)
  have a: "unat (n + 7) = unat n + 7" using assms(2) by (subst u32_add_exact) simp_all
  have d: "unat ((ucast (n + 7) :: u64) div 8) = (unat n + 7) div 8" by (simp add: unat_div a)
  have e: "unat (8 + (ucast (n + 7) :: u64) div 8) = 8 + (unat n + 7) div 8"
    using assms(2) by (subst u64_add_exact) (simp_all add: d)
  have f: "unat (ucast (count_nonzero_bits xs) * 2 :: u64) = 2 * length (nonzeros xs)"
    using length_nonzeros [of xs] assms by (subst u64_mult_exact) (simp_all add: z)
  have "unat (8 + (ucast (n + 7) :: u64) div 8) + unat (ucast (count_nonzero_bits xs) * 2 :: u64) < 18446744073709551616"
    unfolding e f using length_nonzeros [of xs] assms by simp
  then show "unat (8 + (ucast (n + 7) :: u64) div 8 + ucast (count_nonzero_bits xs) * 2) = bitmap_size xs"
    by (simp only: u64_add_exact e f bitmap_size_def assms(1))
qed

section \<open>What the adaptive encoders return\<close>

lemma codec_payload_result:
  assumes src: "unat n \<le> length src" and dst: "unat cap \<le> length dst" and n: "unat n \<le> 2147483639"
    and room: "16 + 2 * unat n \<le> unat cap" and eps: "\<not> f32_lt_zero epsilon"
  defines "xs \<equiv> take (unat n) src"
  defines "good \<equiv> \<lambda>codec k r. \<exists>ys B. payload_of codec epsilon xs ys B \<and> length B = k \<and>
      r = Some (0 :: int, frame_bytes codec n (of_nat (length B)) @ B @ drop (16 + length B) dst,
                16 + of_nat (length B) :: u32, codec)"
  shows "good 0 (2 * unat n) (finish_frame 0 n fail (in_payload dst (\<lambda>body.
           do { body \<leftarrow> raw_encode xs body; Some (0, body, n * 2) })))"
    and "rle_size epsilon xs < 2 * unat n \<Longrightarrow>
         if unat n > 715827881 then finish_frame 1 n fail (in_payload dst (\<lambda>body. tu_compress_rle src n epsilon body (cap - 16) so)) = Some (fail dst)
         else good 1 (rle_size epsilon xs) (finish_frame 1 n fail (in_payload dst (\<lambda>body. tu_compress_rle src n epsilon body (cap - 16) so)))"
    and "bitmap_size xs < 2 * unat n \<Longrightarrow>
         good 2 (bitmap_size xs) (finish_frame 2 n fail (in_payload dst (\<lambda>body. tu_compress_bitmap src n body (cap - 16) so)))"
proof -
  have d16: "16 \<le> length dst" "16 + 2 * unat n \<le> length dst" "16 \<le> unat cap" using dst room by simp_all
  have l: "length xs = unat n" using src by (simp add: xs_def)
  note raw = write_raw [OF src n d16(2), folded xs_def]
  have "finish_frame 0 n fail (in_payload dst (\<lambda>body. do { body \<leftarrow> raw_encode xs body; Some (0, body, n * 2) })) =
      Some (0, frame_bytes 0 n (of_nat (length (bytes_of xs))) @ bytes_of xs @ drop (16 + length (bytes_of xs)) dst,
        16 + of_nat (length (bytes_of xs)), 0)"
    by (rule finish_frame_ok [where f = "\<lambda>body. do { body \<leftarrow> raw_encode xs body; Some (0, body, n * 2) }",
          OF d16(1) raw(1)])
  then show "good 0 (2 * unat n) (finish_frame 0 n fail (in_payload dst (\<lambda>body.
      do { body \<leftarrow> raw_encode xs body; Some (0, body, n * 2) })))"
    unfolding good_def payload_of_def using raw(2) l by (intro exI [of _ xs] exI [of _ "bytes_of xs"]) simp
  show "if unat n > 715827881 then finish_frame 1 n fail (in_payload dst (\<lambda>body. tu_compress_rle src n epsilon body (cap - 16) so)) = Some (fail dst)
      else good 1 (rle_size epsilon xs) (finish_frame 1 n fail (in_payload dst (\<lambda>body. tu_compress_rle src n epsilon body (cap - 16) so)))"
    if sel: "rle_size epsilon xs < 2 * unat n"
  proof (cases "unat n > 715827881")
    case True
    have "unat (cap - 16) \<le> length (drop 16 dst)" using dst d16 by (simp add: unat_cap_16)
    then have "tu_compress_rle src n epsilon (drop 16 dst) (cap - 16) so = Some (- 1, drop 16 dst, so)"
      using compress_rle_cases [OF src, of "cap - 16" "drop 16 dst" epsilon so] True by simp
    then show ?thesis using True finish_frame_fail by simp
  next
    case False
    have n0: "n \<noteq> 0" using sel by auto
    have fits: "16 + rle_size epsilon (take (unat n) src) \<le> unat cap" using sel room by (simp add: xs_def)
    have n': "unat n \<le> 715827881" using False by simp
    note w = write_rle [OF src dst d16(3) eps n0 n' fits, folded xs_def]
    obtain ys where ys: "rle_encoded epsilon xs ys (rle_stream (near_by epsilon) xs)" using w(2) by blast
    show ?thesis
      using False ys finish_frame_ok [where f = "\<lambda>body. tu_compress_rle src n epsilon body (cap - 16) so", OF d16(1) w(1)]
      unfolding good_def payload_of_def
      by (simp only: if_False) (intro exI [of _ ys] exI [of _ "rle_stream (near_by epsilon) xs"], simp add: length_rle_stream rle_size_def)
  qed
  show "good 2 (bitmap_size xs) (finish_frame 2 n fail (in_payload dst (\<lambda>body. tu_compress_bitmap src n body (cap - 16) so)))"
    if sel: "bitmap_size xs < 2 * unat n"
  proof -
    have fits: "16 + bitmap_size (take (unat n) src) \<le> unat cap" using sel room by (simp add: xs_def)
    have n': "unat n \<le> 4294967288" using n by simp
    obtain B where B: "tu_compress_bitmap src n (drop 16 dst) (cap - 16) so =
        Some (0, B @ drop (length B) (drop 16 dst), of_nat (length B))"
      "length B = bitmap_size xs" "bitmap_encoded xs xs B"
      using write_bitmap [OF src dst d16(3) n' fits, of so, folded xs_def] by blast
    show ?thesis
      using B(2,3) finish_frame_ok [where f = "\<lambda>body. tu_compress_bitmap src n body (cap - 16) so", OF d16(1) B(1)]
      unfolding good_def payload_of_def by (intro exI [of _ xs] exI [of _ B]) simp
  qed
qed

lemma adaptive_result:
  assumes src: "unat n \<le> length src" and dst: "unat cap \<le> length dst" and n: "unat n \<le> 2147483639"
    and room: "16 + 2 * unat n \<le> unat cap" and eps: "\<not> f32_lt_zero epsilon"
  defines "xs \<equiv> take (unat n) src"
  shows "(\<exists>codec ys B. payload_of codec epsilon xs ys B \<and>
      length B = min (2 * unat n) (min (rle_size epsilon xs) (bitmap_size xs)) \<and>
      tu_compress_adaptive src n epsilon dst cap so co =
        Some (0, frame_bytes codec n (of_nat (length B)) @ B @ drop (16 + length B) dst, 16 + of_nat (length B), codec)) \<or>
    unat n > 715827881 \<and> tu_compress_adaptive src n epsilon dst cap so co = Some (- 1, dst, so, co)"
proof -
  have l: "length xs = unat n" using src by (simp add: xs_def)
  note z = adaptive_sizes(1,2) [OF l n] adaptive_sizes(3) [OF l n, of epsilon] adaptive_sizes(4) [OF l n]
  define rle bm where "rle = (if n = 0 then 8 else 8 + (ucast (count_runs xs epsilon) :: u64) * 6)"
    and "bm = 8 + (ucast (n + 7) :: u64) div 8 + ucast (count_nonzero_bits xs) * 2"
  define codec :: u8 where "codec = (if bm < (if rle < ucast (n * 2) then rle else ucast (n * 2)) then 2 else if rle < ucast (n * 2) then 1 else 0)"
  have guards: "(f32_lt_zero epsilon \<or> n > (UINT32_MAX - 16) div 2 \<or> n > UINT32_MAX - 7) = False"
    "(cap < 16 + n * 2) = False" "(length src < unat n) = False"
    using eps n room src z(2) by (simp_all add: word_less_nat_alt)
  have u: "tu_compress_adaptive src n epsilon dst cap so co = finish_frame codec n (\<lambda>dst. (- 1, dst, so, co))
     (if codec = 1 then in_payload dst (\<lambda>body. tu_compress_rle src n epsilon body (cap - 16) (n * 2))
      else if codec = 2 then in_payload dst (\<lambda>body. tu_compress_bitmap src n body (cap - 16) (n * 2))
      else in_payload dst (\<lambda>body. do { body \<leftarrow> raw_encode xs body; Some (0, body, n * 2) }))"
    unfolding tu_compress_adaptive_def Let_def guards if_False xs_def [symmetric] rle_def [symmetric] bm_def [symmetric]
    by (cases "rle < ucast (n * 2)"; cases "bm < (if rle < ucast (n * 2) then rle else ucast (n * 2))")
       (simp_all add: codec_def finish_frame_def)
  have c1: "rle < ucast (n * 2) \<longleftrightarrow> rle_size epsilon xs < 2 * unat n"
    and c2: "bm < (if rle < ucast (n * 2) then rle else ucast (n * 2)) \<longleftrightarrow> bitmap_size xs < min (2 * unat n) (rle_size epsilon xs)"
    using z by (auto simp: rle_def bm_def word_less_nat_alt)
  note p = codec_payload_result [OF src dst n room eps, folded xs_def]
  note p1 = p(1) [where fail = "\<lambda>dst. (- 1, dst, so, co)"]
    and p2 = p(2) [where so = "n * 2" and fail = "\<lambda>dst. (- 1, dst, so, co)"]
    and p3 = p(3) [where so = "n * 2" and fail = "\<lambda>dst. (- 1, dst, so, co)"]
  consider "codec = 2" "bitmap_size xs < min (2 * unat n) (rle_size epsilon xs)"
    | "codec = 1" "\<not> bitmap_size xs < min (2 * unat n) (rle_size epsilon xs)" "rle_size epsilon xs < 2 * unat n"
    | "codec = 0" "\<not> bitmap_size xs < min (2 * unat n) (rle_size epsilon xs)" "\<not> rle_size epsilon xs < 2 * unat n"
  proof -
    have "codec = (if bitmap_size xs < min (2 * unat n) (rle_size epsilon xs) then 2
        else if rle_size epsilon xs < 2 * unat n then 1 else 0)"
      unfolding codec_def c2 unfolding c1 by (rule refl)
    then show thesis using that by (auto split: if_splits)
  qed
  then show ?thesis
  proof cases
    case 1
    then show ?thesis unfolding u using p3 by (intro disjI1) (auto intro!: exI [of _ "2 :: u8"])
  next
    case 2
    then show ?thesis unfolding u using p2 by (cases "unat n > 715827881") (auto intro!: exI [of _ "1 :: u8"])
  next
    case 3
    then show ?thesis unfolding u using p1 by (intro disjI1) (auto intro!: exI [of _ "0 :: u8"])
  qed
qed

lemma adaptive_rle_result:
  assumes src: "unat n \<le> length src" and dst: "unat cap \<le> length dst" and n: "unat n \<le> 2147483639"
    and room: "16 + 2 * unat n \<le> unat cap" and eps: "\<not> f32_lt_zero epsilon"
  defines "xs \<equiv> take (unat n) src"
  shows "(\<exists>codec ys B. payload_of codec epsilon xs ys B \<and>
      length B = min (2 * unat n) (rle_size epsilon xs) \<and>
      tu_compress_adaptive_rle src n epsilon dst cap so co =
        Some (0, frame_bytes codec n (of_nat (length B)) @ B @ drop (16 + length B) dst, 16 + of_nat (length B), codec)) \<or>
    unat n > 715827881 \<and> tu_compress_adaptive_rle src n epsilon dst cap so co = Some (- 1, dst, so, co)"
proof -
  have l: "length xs = unat n" using src by (simp add: xs_def)
  note z = adaptive_sizes(1,2) [OF l n] adaptive_sizes(3) [OF l n, of epsilon]
  define rle where "rle = (if n = 0 then 8 else 8 + (ucast (count_runs xs epsilon) :: u64) * 6)"
  define codec :: u8 where "codec = (if rle < ucast (n * 2) then 1 else 0)"
  have guards: "(f32_lt_zero epsilon \<or> n > (UINT32_MAX - 16) div 2) = False"
    "(cap < 16 + n * 2) = False" "(length src < unat n) = False"
    using eps n room src z(2) by (simp_all add: word_less_nat_alt)
  have u: "tu_compress_adaptive_rle src n epsilon dst cap so co = finish_frame codec n (\<lambda>dst. (- 1, dst, so, co))
     (if codec = 1 then in_payload dst (\<lambda>body. tu_compress_rle src n epsilon body (cap - 16) (n * 2))
      else in_payload dst (\<lambda>body. do { body \<leftarrow> raw_encode xs body; Some (0, body, n * 2) }))"
    unfolding tu_compress_adaptive_rle_def Let_def guards if_False xs_def [symmetric] rle_def [symmetric]
    by (cases "rle < ucast (n * 2)") (simp_all add: codec_def finish_frame_def)
  have c1: "rle < ucast (n * 2) \<longleftrightarrow> rle_size epsilon xs < 2 * unat n"
    using z by (auto simp: rle_def word_less_nat_alt)
  note p = codec_payload_result [OF src dst n room eps, folded xs_def]
  note p1 = p(1) [where fail = "\<lambda>dst. (- 1, dst, so, co)"]
    and p2 = p(2) [where so = "n * 2" and fail = "\<lambda>dst. (- 1, dst, so, co)"]
  show ?thesis
  proof (cases "rle_size epsilon xs < 2 * unat n")
    case True
    then have "codec = 1" by (simp add: codec_def c1)
    then show ?thesis unfolding u using p2 True by (cases "unat n > 715827881") (auto intro!: exI [of _ "1 :: u8"])
  next
    case False
    then have "codec = 0" by (simp add: codec_def c1)
    then show ?thesis unfolding u using p1 False by (intro disjI1) (auto intro!: exI [of _ "0 :: u8"])
  qed
qed

text \<open>An accepted call has passed the tests.\<close>

lemma adaptive_accepts:
  assumes "tu_compress_adaptive src n epsilon dst cap so co = Some (0, enc, sz, codec)"
  shows "\<not> f32_lt_zero epsilon \<and> unat n \<le> 2147483639 \<and> 16 + 2 * unat n \<le> unat cap"
proof -
  have g: "\<not> (f32_lt_zero epsilon \<or> n > (UINT32_MAX - 16) div 2 \<or> n > UINT32_MAX - 7)" "\<not> cap < 16 + n * 2"
    using assms unfolding tu_compress_adaptive_def Let_def by (auto split: if_splits)
  then have n: "unat n \<le> 2147483639" by (simp add: word_less_nat_alt)
  have "unat (16 + n * 2) = 16 + 2 * unat n"
    using adaptive_sizes(2) [of "replicate (unat n) 0" n] n by simp
  then show ?thesis using g n by (simp add: word_less_nat_alt)
qed

lemma adaptive_rle_accepts:
  assumes "tu_compress_adaptive_rle src n epsilon dst cap so co = Some (0, enc, sz, codec)"
  shows "\<not> f32_lt_zero epsilon \<and> unat n \<le> 2147483639 \<and> 16 + 2 * unat n \<le> unat cap"
proof -
  have g: "\<not> (f32_lt_zero epsilon \<or> n > (UINT32_MAX - 16) div 2)" "\<not> cap < 16 + n * 2"
    using assms unfolding tu_compress_adaptive_rle_def Let_def by (auto split: if_splits)
  then have n: "unat n \<le> 2147483639" by (simp add: word_less_nat_alt)
  have "unat (16 + n * 2) = 16 + 2 * unat n"
    using adaptive_sizes(2) [of "replicate (unat n) 0" n] n by simp
  then show ?thesis using g n by (simp add: word_less_nat_alt)
qed

text \<open>
  The adaptive encoder stores the smallest of the raw, run-length and bitmap payloads behind its
  frame of 16 bytes, so that a stream is never longer than the raw data and the frame; the codec it
  reports is one of the three, and the validator accepts the stream.
\<close>

theorem adaptive_is_smallest:
  assumes "unat n \<le> length src" "unat cap \<le> length dst" "unat n \<le> 715827881" "16 + 2 * unat n \<le> unat cap"
    "\<not> f32_lt_zero epsilon"
  shows "\<exists>enc sz codec. tu_compress_adaptive src n epsilon dst cap so co = Some (0, enc, sz, codec) \<and>
    unat sz = 16 + min (2 * unat n) (min (rle_size epsilon (take (unat n) src)) (bitmap_size (take (unat n) src))) \<and>
    codec \<le> 2 \<and> tu_compress_adaptive_validate enc sz = Some True"
proof -
  let ?xs = "take (unat n) src"
  have n: "unat n \<le> 2147483639" using assms(3) by simp
  obtain codec ys B where r: "payload_of codec epsilon ?xs ys B"
    "length B = min (2 * unat n) (min (rle_size epsilon ?xs) (bitmap_size ?xs))"
    "tu_compress_adaptive src n epsilon dst cap so co =
        Some (0, frame_bytes codec n (of_nat (length B)) @ B @ drop (16 + length B) dst, 16 + of_nat (length B), codec)"
    using adaptive_result [OF assms(1,2) n assms(4,5), of so co] assms(3) by auto
  have "length B \<le> 4294967279" using r(2) n by simp
  then have sz: "unat (16 + of_nat (length B) :: u32) = 16 + length B" by (subst u32_add_exact) simp_all
  have l: "length ?xs = unat n" using assms(1) by simp
  have "length ?xs \<le> unat n" "unat n \<le> length (replicate (unat n) (0 :: u16))" using l by simp_all
  then have v: "tu_compress_adaptive_validate (frame_bytes codec n (of_nat (length B)) @ B @ drop (16 + length B) dst)
      (16 + of_nat (length B)) = Some True"
    using payload_of_decodes [OF r(1), of n "replicate (unat n) 0"] l by simp
  have "codec \<le> 2" using r(1) by (auto simp: payload_of_def)
  then show ?thesis using r(2,3) v sz by (intro exI conjI) simp_all
qed

theorem adaptive_is_smallest_witness:
  "\<exists>enc sz codec. tu_compress_adaptive (replicate 12 5) 12 0 (replicate 40 0) 40 0 0 = Some (0, enc, sz, codec) \<and>
    unat sz = 30 \<and> tu_compress_adaptive_validate enc sz = Some True"
proof -
  have e: "\<not> f32_lt_zero 0" "rle_size 0 (take (unat (12 :: u32)) (replicate 12 5)) = 14"
    "bitmap_size (take (unat (12 :: u32)) (replicate 12 5)) = 34" by code_simp+
  show ?thesis using adaptive_is_smallest [of 12 "replicate 12 5" 40 "replicate 40 0" 0 0 0] e by auto
qed

section \<open>The streams that go over DMA\<close>

text \<open>A stream that decodes to \<open>ys\<close> in every buffer with room for its elements.\<close>

definition decodes_to :: "tu_compress_config option \<Rightarrow> u8 list \<Rightarrow> u32 \<Rightarrow> u32 \<Rightarrow> u16 list \<Rightarrow> bool" where
  "decodes_to cfg enc sz n ys \<longleftrightarrow> (\<forall>out cap cnt. unat n \<le> unat cap \<and> unat cap \<le> length out \<longrightarrow>
     tu_decompress_from_dma enc sz cfg out cap cnt = Some (0, ys @ drop (unat n) out, n))"

lemma framed_decodes_to:
  assumes p: "payload_of codec epsilon xs ys B" and l: "length xs = unat n"
    and c: "cfg = Some c" "\<not> stored_raw cfg" "cc_type c = TU_COMPRESS_ADAPTIVE \<or> cc_type c = TU_COMPRESS_ADAPTIVE_RLE"
  shows "decodes_to cfg (frame_bytes codec n (of_nat (length B)) @ B @ rest) (16 + of_nat (length B)) n ys"
  unfolding decodes_to_def
proof (intro allI impI)
  fix out :: "u16 list" and cap cnt :: u32
  assume r: "unat n \<le> unat cap \<and> unat cap \<le> length out"
  have "(of_nat (length xs) :: u32) = n" by (simp add: l)
  moreover have "tu_decompress_adaptive (frame_bytes codec (of_nat (length xs)) (of_nat (length B)) @ B @ rest)
      (16 + of_nat (length B)) out cap cnt = Some (0, ys @ drop (length xs) out, of_nat (length xs))"
    using payload_of_decodes [OF p, of cap out] r l by simp
  ultimately show "tu_decompress_from_dma (frame_bytes codec n (of_nat (length B)) @ B @ rest)
      (16 + of_nat (length B)) cfg out cap cnt = Some (0, ys @ drop (unat n) out, n)"
    using c l unfolding tu_decompress_from_dma_def by auto
qed

lemma raw_decodes_to:
  assumes "stored_raw cfg" "unat n \<le> 2147483647" "length xs = unat n"
  shows "decodes_to cfg (bytes_of xs @ rest) (n * 2) n xs"
  unfolding decodes_to_def
proof (intro allI impI)
  fix out :: "u16 list" and cap cnt :: u32
  assume r: "unat n \<le> unat cap \<and> unat cap \<le> length out"
  have u: "unat (n * 2) = 2 * unat n" using assms(2) by (subst u32_mult_exact) simp_all
  have h: "n * 2 div 2 = n" by (simp add: word_unat_eq_iff unat_div u)
  have m: "n * 2 mod 2 = 0" by (simp add: word_unat_eq_iff unat_mod u del: unat_eq_0)
  have "\<not> cap < n" using r by (simp add: word_less_nat_alt)
  then show "tu_decompress_from_dma (bytes_of xs @ rest) (n * 2) cfg out cap cnt = Some (0, xs @ drop (unat n) out, n)"
    using raw_decode_at [of "n * 2" xs out rest] r u h m assms
    by (simp add: tu_decompress_from_dma_def Let_def)
qed

lemma adaptive_decodes_to:
  assumes enc: "tu_compress_adaptive src n epsilon dst cap so co = Some (0, enc, sz, codec) \<or>
      tu_compress_adaptive_rle src n epsilon dst cap so co = Some (0, enc, sz, codec)"
    and ptr: "unat n \<le> length src" "unat cap \<le> length dst"
    and c: "cfg = Some c" "\<not> stored_raw cfg" "cc_type c = TU_COMPRESS_ADAPTIVE \<or> cc_type c = TU_COMPRESS_ADAPTIVE_RLE"
  shows "\<exists>ys. decodes_to cfg enc sz n ys \<and> list_all2 (near_by epsilon) (take (unat n) src) ys \<and>
    (ys = take (unat n) src \<or> \<not> f32_le_zero epsilon)"
proof -
  let ?xs = "take (unat n) src"
  have l: "length ?xs = unat n" using ptr(1) by simp
  have g: "\<not> f32_lt_zero epsilon" "unat n \<le> 2147483639" "16 + 2 * unat n \<le> unat cap"
    using enc adaptive_accepts adaptive_rle_accepts by blast+
  obtain ys B where p: "payload_of codec epsilon ?xs ys B"
    "enc = frame_bytes codec n (of_nat (length B)) @ B @ drop (16 + length B) dst" "sz = 16 + of_nat (length B)"
    using enc adaptive_result [OF ptr g(2,3,1), of so co] adaptive_rle_result [OF ptr g(2,3,1), of so co] by auto
  show ?thesis using framed_decodes_to [OF p(1) l c] payload_of_near [OF p(1)] unfolding p(2,3) by blast
qed

text \<open>
  C24. Under every configuration, whatever weight stream the DMA encoder writes for a nonempty tensor,
  the DMA decoder under the same configuration reads back: the same number of elements, each within
  the run-length tolerance of the original, and exactly the original elements when the tolerance is
  not positive.
\<close>

theorem dma_stream_roundtrip:
  assumes enc: "tu_compress_for_dma src n cfg dst cap so = Some (0, enc, sz)"
    and ptr: "unat n \<le> length src" "unat cap \<le> length dst" and "n \<noteq> 0"
    and room: "unat n \<le> unat ocap" "unat ocap \<le> length out"
  shows "\<exists>ys. tu_decompress_from_dma enc sz cfg out ocap cnt = Some (0, ys @ drop (unat n) out, n) \<and>
    (ys = take (unat n) src \<or>
     list_all2 (near_by (cc_rle_epsilon (the cfg))) (take (unat n) src) ys \<and> \<not> f32_le_zero (cc_rle_epsilon (the cfg)))"
proof -
  let ?xs = "take (unat n) src"
  have l: "length ?xs = unat n" using ptr(1) by simp
  have fin: "?thesis" if "decodes_to cfg enc sz n ys"
    "ys = ?xs \<or> list_all2 (near_by (cc_rle_epsilon (the cfg))) ?xs ys \<and> \<not> f32_le_zero (cc_rle_epsilon (the cfg))" for ys
    using that room unfolding decodes_to_def by (intro exI [of _ ys]) simp
  show ?thesis
  proof (cases "stored_raw cfg")
    case True
    have t: "\<not> n > UINT32_MAX div 2" "\<not> cap < n * 2" "enc = bytes_of ?xs @ drop (2 * length ?xs) dst" "sz = n * 2"
    proof -
      show a: "\<not> n > UINT32_MAX div 2" "\<not> cap < n * 2"
        using enc True by (auto simp: tu_compress_for_dma_def Let_def split: if_splits)
      have "unat (n * 2) = 2 * unat n" using a(1) by (subst u32_mult_exact) (simp_all add: word_less_nat_alt)
      then have "2 * length ?xs \<le> length dst" using a(2) ptr(2) l by (simp add: word_less_nat_alt)
      then show "enc = bytes_of ?xs @ drop (2 * length ?xs) dst" "sz = n * 2"
        using enc True a ptr(1) raw_encode_at [of ?xs dst] by (auto simp: tu_compress_for_dma_def Let_def)
    qed
    have "decodes_to cfg enc sz n ?xs" unfolding t(3,4)
      by (rule raw_decodes_to [OF True _ l]) (use t(1) in \<open>simp add: word_less_nat_alt\<close>)
    then show ?thesis using fin by blast
  next
    case False
    then obtain c where c: "cfg = Some c" by (cases cfg) (auto simp: stored_raw_def)
    note e = enc [unfolded tu_compress_for_dma_def if_not_P [OF False] Let_def c option.sel]
    show ?thesis
    proof (cases "cc_type c")
      case TU_COMPRESS_RLE
      then have "tu_compress_rle src n (cc_rle_epsilon c) dst cap so = Some (0, enc, sz)" using e False c by simp
      from rle_roundtrip [OF this ptr \<open>n \<noteq> 0\<close> room, of cnt] show ?thesis
        using TU_COMPRESS_RLE False c by (auto simp: tu_decompress_from_dma_def)
    next
      case TU_COMPRESS_BITMAP
      then show ?thesis using e bitmap_roundtrip [OF _ ptr room] False c
        by (auto simp: tu_decompress_from_dma_def)
    next
      case TU_COMPRESS_ADAPTIVE
      then obtain co where "tu_compress_adaptive src n (cc_rle_epsilon c) dst cap so 0 = Some (0, enc, sz, co)"
        using e False c by (auto split: option.splits)
      then show ?thesis using fin adaptive_decodes_to [OF _ ptr c False] TU_COMPRESS_ADAPTIVE c by (metis option.sel)
    next
      case TU_COMPRESS_ADAPTIVE_RLE
      then obtain co where "tu_compress_adaptive_rle src n (cc_rle_epsilon c) dst cap so 0 = Some (0, enc, sz, co)"
        using e False c by (auto split: option.splits)
      then show ?thesis using fin adaptive_decodes_to [OF _ ptr c False] TU_COMPRESS_ADAPTIVE_RLE c by (metis option.sel)
    next
      case TU_COMPRESS_NONE
      then show ?thesis using e False c by (auto simp: stored_raw_def)
    next
      case TU_COMPRESS_COUNT
      then show ?thesis using e False c by (auto simp: stored_raw_def)
    qed
  qed
qed

lemma adaptive_inside:
  assumes "unat sz \<le> length src" "unat cap \<le> length out"
  shows "decoded_inside cap out cnt (tu_decompress_adaptive src sz out cap cnt)"
proof -
  obtain ok codec n p where r: "frame_read src sz (0, 0, 0) = Some (ok, codec, n, p)"
    and f: "ok \<Longrightarrow> 16 \<le> unat sz \<and> unat p = unat sz - 16 \<and> (codec = 0 \<or> codec = 1 \<or> codec = 2)"
    using frame_read_some [OF assms(1), of "(0, 0, 0)"] by blast
  show ?thesis
  proof (cases ok)
    case False
    then show ?thesis using r by (simp add: tu_decompress_adaptive_def tu_compress_adaptive_validate_def decoded_inside_def)
  next
    case True
    let ?B = "drop 16 src"
    have pl: "unat p \<le> length ?B" using f [OF True] assms(1) by simp
    have v: "\<exists>b. payload_valid codec ?B p n = Some b"
    proof -
      have "\<exists>b. tu_compress_validate ?B p = Some b \<and> (b \<longrightarrow> (\<exists>m. tu_compress_get_original_count ?B p = Some m))"
      proof (cases "p < 8")
        case False
        then have "8 \<le> unat p" by (simp add: word_less_nat_alt)
        then have "0 + 4 \<le> length ?B" "4 + 4 \<le> length ?B" using pl by simp_all
        then show ?thesis
          using load32_some [of 0 ?B] load32_some [of 4 ?B] False
          by (auto simp: tu_compress_validate_def tu_compress_get_original_count_def)
      qed (auto simp: tu_compress_validate_def)
      moreover have "\<exists>b. tu_compress_bitmap_validate ?B p = Some b \<and> (b \<longrightarrow> (\<exists>m. load32 0 ?B = Some m))"
        using bitmap_validate_some [OF pl] by metis
      ultimately show ?thesis by (auto simp: payload_valid_def)
    qed
    then obtain b where b: "payload_valid codec ?B p n = Some b" by blast
    show ?thesis
    proof (cases "b \<and> \<not> cap < n")
      case False
      then show ?thesis using r b True
        by (auto simp: tu_decompress_adaptive_def tu_compress_adaptive_validate_def decoded_inside_def)
    next
      case ok: True
      have "decoded_inside cap out cnt (payload_decode codec ?B p n out cap cnt)"
      proof (cases "codec = 0")
        case True
        then have "n \<le> UINT32_MAX div 2" "p = n * 2" using b ok by (simp_all add: payload_valid_def)
        then have "unat p = 2 * unat n" by (simp only:) (subst u32_mult_exact; simp add: word_le_nat_alt)
        then have "unat p div 2 \<le> unat cap" using ok by (simp add: word_less_nat_alt)
        then obtain out' where "raw_decode ?B p out = Some out'" "length out' = length out"
            "drop (unat cap) out' = drop (unat cap) out"
          using raw_decode_inside [OF pl _ assms(2)] by blast
        then show ?thesis using True ok by (simp add: payload_decode_def decoded_inside_def not_less)
      next
        case False
        then show ?thesis using decompress_rle_inside [OF pl assms(2)] decompress_bitmap_inside [OF pl assms(2)]
          by (simp add: payload_decode_def)
      qed
      then show ?thesis using r b True ok
        by (simp add: tu_decompress_adaptive_def tu_compress_adaptive_validate_def)
    qed
  qed
qed

text \<open>
  C25. Whatever bytes arrive, well-formed or not and under every configuration, the DMA decoder reads
  only the given bytes, writes only to the elements within the given capacity, and returns 0 with a
  count that fits the capacity or -1 without touching the count.
\<close>

theorem decoders_stay_inside:
  assumes "unat sz \<le> length src" "unat cap \<le> length out"
  shows "decoded_inside cap out cnt (tu_decompress_from_dma src sz cfg out cap cnt)"
proof (cases "stored_raw cfg")
  case True
  show ?thesis
  proof (cases "sz mod 2 \<noteq> 0 \<or> cap < sz div 2")
    case False
    then have "unat sz div 2 \<le> unat cap" by (simp add: word_less_nat_alt unat_div)
    then obtain out' where "raw_decode src sz out = Some out'" "length out' = length out"
        "drop (unat cap) out' = drop (unat cap) out"
      using raw_decode_inside [OF assms(1) _ assms(2)] by blast
    then show ?thesis using True False by (simp add: tu_decompress_from_dma_def decoded_inside_def Let_def not_less)
  next
    case bad: True
    have "tu_decompress_from_dma src sz cfg out cap cnt = Some (- 1, out, cnt)"
      using bad unfolding tu_decompress_from_dma_def Let_def if_P [OF True]
      by (elim disjE) (simp_all only: if_True if_False not_True_eq_False not_False_eq_True if_cancel split: if_split)
    then show ?thesis by (simp add: decoded_inside_def)
  qed
next
  case False
  then show ?thesis
    using decompress_rle_inside [OF assms, of cnt] adaptive_inside [OF assms, of cnt] decompress_bitmap_inside [OF assms, of cnt]
    unfolding tu_decompress_from_dma_def if_not_P [OF False]
    by (cases "cc_type (the cfg)") (simp_all add: decoded_inside_def)
qed


theorem dma_stream_roundtrip_witness:
  "\<exists>enc. tu_compress_for_dma [5, 5, 7] 3 (Some tu_compress_config_default) (replicate 20 0) 20 0 = Some (0, enc, 20) \<and>
     tu_decompress_from_dma enc 20 (Some tu_compress_config_default) [0, 0, 0, 9] 3 0 = Some (0, [5, 5, 7, 9], 3)"
proof -
  let ?c = "Some tu_compress_config_default"
  obtain enc where e: "tu_compress_for_dma [5, 5, 7] 3 ?c (replicate 20 0) 20 0 = Some (0, enc, 20)"
  proof -
    have "map_option (\<lambda>(rc, enc, sz). (rc, sz)) (tu_compress_for_dma [5, 5, 7] 3 ?c (replicate 20 0) 20 0) = Some (0, 20)"
      by code_simp
    then show ?thesis using that by auto
  qed
  have z: "f32_le_zero (cc_rle_epsilon (the ?c))" by code_simp
  show ?thesis using dma_stream_roundtrip [OF e, of 3 "[0, 0, 0, 9]" 0] e z by auto
qed

theorem decoders_stay_inside_witness:
  "decoded_inside 2 [1, 1, 1] 0 (tu_decompress_from_dma (replicate 30 0xFF) 30 (Some tu_compress_config_default) [1, 1, 1] 2 0)"
  by (rule decoders_stay_inside) simp_all

end
