(* ===== verification/Weight_Cost.thy ===== *)
theory Weight_Cost
  imports Weight_Adaptive
begin

text \<open>
  The latency estimate of a weight stream (\<open>tu_compress_estimate_cycles\<close> of
  \<open>memory/weight_compress.c\<close>): the cycles of its transfer, of its decoder, and of both.
\<close>

record tu_compress_cycle_stats =
  st_codec :: u8
  st_element_count :: u32
  st_metadata_units :: u32
  st_payload_bytes :: u32
  st_dma_cycles :: u64
  st_decode_cycles :: u64
  st_total_cycles :: u64
  st_decoder_bound :: bool

definition wc_ceil_div_u64 :: "u64 \<Rightarrow> u64 \<Rightarrow> u64" where
  "wc_ceil_div_u64 n d = n div d + (if n mod d \<noteq> 0 then 1 else 0)"

text \<open>The fields read from the stream; \<open>None\<close> in the first component is the early \<open>return -1\<close>.\<close>

definition stream_fields ::
  "u8 list \<Rightarrow> u32 \<Rightarrow> tu_compress_config \<Rightarrow> tu_compress_cycle_stats \<Rightarrow>
   (bool \<times> tu_compress_cycle_stats \<times> u32) option" where
  "stream_fields src sz cfg stats =
    (if \<not> cc_enabled cfg \<or> cc_type cfg = TU_COMPRESS_NONE then
       if sz mod 2 \<noteq> 0 then Some (False, stats, sz)
       else Some (True, stats\<lparr>st_codec := TU_WEIGHT_PAYLOAD_RAW, st_element_count := sz div 2\<rparr>, sz)
     else if cc_type cfg = TU_COMPRESS_ADAPTIVE_RLE \<or> cc_type cfg = TU_COMPRESS_ADAPTIVE then
       do { (ok, codec, n, payload) \<leftarrow> frame_read src sz (st_codec stats, st_element_count stats, 0);
            let stats = stats\<lparr>st_codec := codec, st_element_count := n\<rparr>;
            if \<not> ok then Some (False, stats, sz)
            else do { valid \<leftarrow> tu_compress_adaptive_validate src sz;
                      Some (if valid then (True, stats, payload) else (False, stats, sz)) } }
     else if cc_type cfg = TU_COMPRESS_RLE then
       do { valid \<leftarrow> tu_compress_validate src sz;
            if \<not> valid then Some (False, stats, sz)
            else do { n \<leftarrow> load32 0 src; run_count \<leftarrow> load32 4 src;
                      Some (True, stats\<lparr>st_element_count := n, st_codec := TU_WEIGHT_PAYLOAD_RLE,
                                        st_metadata_units := run_count\<rparr>, sz) } }
     else if cc_type cfg = TU_COMPRESS_BITMAP then
       do { valid \<leftarrow> tu_compress_bitmap_validate src sz;
            if \<not> valid then Some (False, stats, sz)
            else do { n \<leftarrow> load32 0 src;
                      Some (True, stats\<lparr>st_element_count := n, st_codec := TU_WEIGHT_PAYLOAD_BITMAP,
                                        st_metadata_units := n\<rparr>, sz) } }
     else Some (False, stats, sz))"

text \<open>The second look at an adaptive stream, whose payload starts behind the frame.\<close>

definition payload_units ::
  "u8 list \<Rightarrow> tu_compress_config \<Rightarrow> tu_compress_cycle_stats \<Rightarrow> u32 \<Rightarrow>
   (bool \<times> tu_compress_cycle_stats) option" where
  "payload_units src cfg stats body_size =
    (if cc_type cfg = TU_COMPRESS_ADAPTIVE_RLE \<or> cc_type cfg = TU_COMPRESS_ADAPTIVE then
       if st_codec stats = TU_WEIGHT_PAYLOAD_RLE then
         do { units \<leftarrow> load32 (16 + 4) src; Some (True, stats\<lparr>st_metadata_units := units\<rparr>) }
       else if st_codec stats = TU_WEIGHT_PAYLOAD_BITMAP then
         Some (True, stats\<lparr>st_metadata_units := st_element_count stats\<rparr>)
       else Some ((ucast body_size :: u64) = ucast (st_element_count stats) * 2, stats)
     else Some (True, stats))"

definition decoder_cycles :: "tu_compress_config \<Rightarrow> tu_compress_cycle_stats \<Rightarrow> u64" where
  "decoder_cycles cfg stats =
    (if cc_decoder_enabled cfg \<and> st_codec stats \<noteq> TU_WEIGHT_PAYLOAD_RAW then
       let out = wc_ceil_div_u64 (ucast (st_element_count stats)) (ucast (cc_decoder_elements_per_cycle cfg));
           metadata = (if st_codec stats = TU_WEIGHT_PAYLOAD_RLE
             then wc_ceil_div_u64 (ucast (st_metadata_units stats)) (ucast (cc_rle_runs_per_cycle cfg))
             else wc_ceil_div_u64 (ucast (st_metadata_units stats)) (ucast (cc_bitmap_elements_per_cycle cfg)))
       in if out > metadata then out else metadata
     else 0)"

definition stats_zero :: tu_compress_cycle_stats where
  "stats_zero = \<lparr>st_codec = 0, st_element_count = 0, st_metadata_units = 0, st_payload_bytes = 0,
     st_dma_cycles = 0, st_decode_cycles = 0, st_total_cycles = 0, st_decoder_bound = False\<rparr>"

definition tu_compress_estimate_cycles ::
  "u8 list \<Rightarrow> u32 \<Rightarrow> tu_compress_config \<Rightarrow> u32 \<Rightarrow> tu_compress_cycle_stats \<Rightarrow>
   (int \<times> tu_compress_cycle_stats) option" where
  "tu_compress_estimate_cycles src sz cfg bus_bits stats =
    (if bus_bits = 0 \<or> bus_bits mod 8 \<noteq> 0 \<or> cc_decoder_elements_per_cycle cfg = 0 \<or>
        cc_rle_runs_per_cycle cfg = 0 \<or> cc_bitmap_elements_per_cycle cfg = 0
     then Some (- 1, stats)
     else
       let stats = stats_zero\<lparr>st_payload_bytes := sz,
                     st_dma_cycles := wc_ceil_div_u64 (ucast sz) (ucast (bus_bits div 8))\<rparr>
       in do {
         (ok, stats, body_size) \<leftarrow> stream_fields src sz cfg stats;
         if \<not> ok then Some (- 1, stats)
         else do {
           (ok, stats) \<leftarrow> payload_units src cfg stats body_size;
           if \<not> ok then Some (- 1, stats)
           else
             let decode = decoder_cycles cfg stats; dma = st_dma_cycles stats
             in Some (0, stats\<lparr>st_decode_cycles := decode, st_decoder_bound := decode > dma,
                  st_total_cycles := (if cc_decoder_overlap_dma cfg
                    then if decode > dma then decode else dma else dma + decode)\<rparr>) } })"

section \<open>What the estimate says\<close>

lemma unat_wc_ceil_div_u64:
  assumes "d \<noteq> 0"
  shows "unat (wc_ceil_div_u64 n d) = (unat n + unat d - 1) div unat d"
proof -
  have d: "0 < unat d" using assms by (simp add: unat_gt_0)
  have m: "n mod d = 0 \<longleftrightarrow> unat n mod unat d = 0" by (simp add: word_unat_eq_iff unat_mod del: unat_eq_0)
  have split: "unat n = unat n div unat d * unat d + unat n mod unat d" by simp
  show ?thesis
  proof (cases "unat n mod unat d = 0")
    case True
    then obtain k where k: "unat n = unat d * k" by (metis mod_0_imp_dvd dvdE)
    have "(unat n + unat d - 1) div unat d = k"
      using d k by (intro div_nat_eqI) (simp_all add: mult.commute)
    then show ?thesis using True d m k by (simp add: wc_ceil_div_u64_def unat_div)
  next
    case False
    have r: "unat n mod unat d < unat d" using d by simp
    have "unat n div unat d * 2 \<le> unat n"
    proof -
      have "unat d \<noteq> 1" using False by auto
      then have "2 \<le> unat d" using d by simp
      then have "unat n div unat d * 2 \<le> unat n div unat d * unat d" by (rule mult_le_mono2)
      then show ?thesis using split by linarith
    qed
    then have "unat n div unat d + 1 < 18446744073709551616"
      using unat_u64_less [of n] by linarith
    then have c: "unat (wc_ceil_div_u64 n d) = unat n div unat d + 1"
      using False m by (simp add: wc_ceil_div_u64_def unat_div u64_add_exact)
    have p: "unat d * (unat n div unat d + 1) = unat n div unat d * unat d + unat d"
      "unat d * Suc (unat n div unat d + 1) = unat n div unat d * unat d + unat d + unat d"
      by simp_all
    have "(unat n + unat d - 1) div unat d = unat n div unat d + 1"
      by (rule div_nat_eqI; unfold p; use split False r in linarith)
    then show ?thesis using c by simp
  qed
qed

lemma stream_fields_keep:
  "stream_fields src sz cfg st = Some (ok, st', p) \<Longrightarrow>
   st_dma_cycles st' = st_dma_cycles st \<and> st_payload_bytes st' = st_payload_bytes st"
  by (auto simp: stream_fields_def Let_def bind_eq_Some_conv split: if_splits)

lemma payload_units_keep:
  "payload_units src cfg st p = Some (ok, st') \<Longrightarrow>
   st_dma_cycles st' = st_dma_cycles st \<and> st_payload_bytes st' = st_payload_bytes st"
  by (auto simp: payload_units_def bind_eq_Some_conv split: if_splits)

lemma estimate_covers_transfer:
  assumes "tu_compress_estimate_cycles src sz cfg bus st0 = Some (0, st)"
  shows "unat (st_dma_cycles st) = (unat sz + unat (bus div 8) - 1) div unat (bus div 8) \<and>
     st_payload_bytes st = sz \<and>
     (cc_decoder_overlap_dma cfg \<longrightarrow> st_total_cycles st = max (st_dma_cycles st) (st_decode_cycles st)) \<and>
     (\<not> cc_decoder_overlap_dma cfg \<longrightarrow> st_total_cycles st = st_dma_cycles st + st_decode_cycles st) \<and>
     (\<not> cc_decoder_enabled cfg \<or> st_codec st = TU_WEIGHT_PAYLOAD_RAW \<longrightarrow> st_decode_cycles st = 0)"
proof -
  have b: "bus \<noteq> 0" "bus mod 8 = 0"
    using assms by (auto simp: tu_compress_estimate_cycles_def split: if_splits)
  have "unat bus mod 8 = 0" using b(2) by (simp add: word_unat_eq_iff unat_mod del: unat_eq_0)
  moreover have "0 < unat bus" using b(1) by (simp add: unat_gt_0)
  ultimately have bw: "(ucast (bus div 8) :: u64) \<noteq> 0"
    by (auto simp: unat_zero_iff [of "ucast _"] unat_div)
  show ?thesis
    using assms unat_wc_ceil_div_u64 [OF bw, of "ucast sz"]
    by (auto simp: tu_compress_estimate_cycles_def Let_def bind_eq_Some_conv decoder_cycles_def max_def not_less
        split: if_splits prod.splits dest!: stream_fields_keep payload_units_keep)
qed

end
