(* ===== verification/Core.thy ===== *)
theory Core
  imports Dma_Engine Command_Queue
begin

text \<open>
  The simulator's global instance and its cores (\<open>tu_config.h\<close>, \<open>tu_cmodel.c\<close>, \<open>tu_core.c\<close>): the runtime
  configuration, initialisation, the transfers of the legacy interface with their accounting, and the
  cores that put their state into the global instance for the length of a call. The regions of the
  global instance are numbered 0, 1 and 2 for weights, activations and output, as its descriptors see
  them. A dataflow plugin is its identifier; matrix products, which are float arithmetic, printing and
  a core's message buffer, which nothing uses, are left out. Allocation succeeds.
\<close>

section \<open>Configuration\<close>

text \<open>The doubles of the record are their bit patterns.\<close>

record tu_runtime_config =
  pe_rows :: u16
  pe_cols :: u16
  pe_pipeline_depth :: u16
  dataflow_mode :: int
  sram_w_size :: u32
  sram_a_size :: u32
  sram_o_size :: u32
  sram_num_banks :: u32
  sram_bank_width :: u32
  sram_words_per_cycle :: u8
  sram_stall_penalty :: u8
  sram_bw_window_cycles :: u64
  sram_word_metering :: int
  dma_read_latency_cycles :: u32
  dma_write_latency_cycles :: u32
  dma_latency_configured :: bool
  dma_bus_width_bits :: u32
  dma_max_burst_bytes :: u32
  dma_read_max_burst_bytes :: u32
  dma_write_max_burst_bytes :: u32
  dma_burst_issue_cycles :: u32
  dma_read_burst_issue_cycles :: u32
  dma_write_burst_issue_cycles :: u32
  dma_read_burst_issue_configured :: bool
  dma_write_burst_issue_configured :: bool
  dma_burst_segmentation :: int
  dma_base_latency_scope :: int
  dma_payload_scope :: int
  dma_issue_payload_mode :: int
  dma_burst_boundary_mode :: int
  dma_num_channels :: u32
  dma_bus_mode :: int
  dma_arb_policy :: int
  dma_drr_quantum_bytes :: u32
  dma_drr_quantum_cycles :: u32
  dma_drr_cost_mode :: int
  dma_drr_service_mode :: int
  dma_drr_idle_policy :: int
  dma_drr_cost_granularity :: int
  dma_drr_round_issue_cycles :: u32
  dma_drr_round_cost_mode :: int
  dma_drr_select_issue_cycles :: u32
  dma_drr_scan_width :: u32
  dma_drr_round_scan_width :: u32
  dma_drr_select_scan_width :: u32
  dma_drr_channel_weights :: "u8 list"
  dma_aging_scope :: int
  dma_aging_metric :: int
  dma_aging_increment :: u32
  dma_aging_max_boost :: u32
  dma_aging_cycle_quantum :: u32
  dma_aging_quantum_domain :: int
  dma_aging_quantum_ns :: u64
  dma_binding_policy :: int
  dma_max_outstanding :: u32
  dma_async_mode :: bool
  counters_enabled :: bool
  detailed_stalls :: bool
  trace_enabled :: bool
  trace_file :: string
  verify_enabled :: bool
  verify_tolerance :: u64
  icc_switching_mode :: int
  icc_contention_mode :: int
  icc_mesh_routing_mode :: int
  icc_link_bytes_per_cycle :: u32
  icc_router_latency_cycles :: u32


definition tu_runtime_config_default :: tu_runtime_config where
  "tu_runtime_config_default =
    \<lparr>pe_rows = 16, pe_cols = 16, pe_pipeline_depth = 2, dataflow_mode = 0, sram_w_size = 131072,
     sram_a_size = 65536, sram_o_size = 65536, sram_num_banks = 32, sram_bank_width = 4,
     sram_words_per_cycle = 1, sram_stall_penalty = 2, sram_bw_window_cycles = 4,
     sram_word_metering = 0, dma_read_latency_cycles = 50, dma_write_latency_cycles = 50,
     dma_latency_configured = True, dma_bus_width_bits = 256, dma_max_burst_bytes = 64,
     dma_read_max_burst_bytes = 64, dma_write_max_burst_bytes = 64, dma_burst_issue_cycles = 0,
     dma_read_burst_issue_cycles = 0, dma_write_burst_issue_cycles = 0,
     dma_read_burst_issue_configured = False, dma_write_burst_issue_configured = False,
     dma_burst_segmentation = 0, dma_base_latency_scope = 0, dma_payload_scope = 0,
     dma_issue_payload_mode = 0, dma_burst_boundary_mode = 0, dma_num_channels = 3, dma_bus_mode = 0,
     dma_arb_policy = 0, dma_drr_quantum_bytes = 256, dma_drr_quantum_cycles = 64,
     dma_drr_cost_mode = 0, dma_drr_service_mode = 0, dma_drr_idle_policy = 0,
     dma_drr_cost_granularity = 0, dma_drr_round_issue_cycles = 0, dma_drr_round_cost_mode = 0,
     dma_drr_select_issue_cycles = 0, dma_drr_scan_width = 1, dma_drr_round_scan_width = 0,
     dma_drr_select_scan_width = 0, dma_drr_channel_weights = replicate 8 1, dma_aging_scope = 0,
     dma_aging_metric = 0, dma_aging_increment = 1, dma_aging_max_boost = 0,
     dma_aging_cycle_quantum = 1, dma_aging_quantum_domain = 0,
     dma_aging_quantum_ns = 0x3FF0000000000000, dma_binding_policy = 0, dma_max_outstanding = 4,
     dma_async_mode = False, counters_enabled = True, detailed_stalls = False, trace_enabled = False,
     trace_file = '''', verify_enabled = False, verify_tolerance = 0x3EE4F8B588E368F1,
     icc_switching_mode = 0, icc_contention_mode = 0, icc_mesh_routing_mode = 0,
     icc_link_bytes_per_cycle = 16, icc_router_latency_cycles = 5\<rparr>"

section \<open>State\<close>

text \<open>The field \<open>ts_dma\<close> is part of the structure; the engine in use is the global \<open>w_dma\<close> of the world.\<close>

record tu_state =
  ts_sram_w :: tu_sram_region
  ts_sram_a :: tu_sram_region
  ts_sram_o :: tu_sram_region
  ts_dma :: dma_engine
  ts_cmdq :: "cmdq option"
  ts_dataflow :: "nat option"
  ts_total_dma_bytes :: u64
  ts_total_mma_calls :: u64
  ts_total_mma_tiles :: u64
  ts_total_mma_flops :: u64
  ts_estimated_cycles :: u64
  ts_rt_cfg :: tu_runtime_config
  ts_initialized :: bool

record tu_core =
  co_core_id :: u32
  co_state :: tu_state
  co_initialized :: bool

text \<open>The globals: \<open>g_tu\<close>, \<open>g_tu_dma\<close>, the identifiers of the plugin registry, and the host's memory.\<close>

record tu_world =
  w_tu :: tu_state
  w_dma :: dma_engine
  w_registry :: "nat list"
  w_host :: "u64 \<Rightarrow> u8"

definition zero_region :: tu_sram_region where
  "zero_region = \<lparr>sr_banks = \<lparr>sb_data = [], sb_size = 0, sb_bank_count = 0, sb_bank_width = 0, sb_reads = 0,
     sb_writes = 0, sb_conflicts = 0, sb_stall_cycles = 0, sb_bw_banks = None, sb_bw_refill_window = 0,
     sb_current_cycle = 0, sb_words_per_cycle = 0, sb_arb_mode = 0, sb_stall_penalty = 0,
     sb_bw_modeling = False, sb_word_metering = TU_SRAM_METER_SIZE_ONLY\<rparr>,
     sr_total_size = 0, sr_name = '''', sr_db = None\<rparr>"

definition zero_config :: tu_runtime_config where
  "zero_config = 
    \<lparr>pe_rows = 0, pe_cols = 0, pe_pipeline_depth = 0, dataflow_mode = 0, sram_w_size = 0,
     sram_a_size = 0, sram_o_size = 0, sram_num_banks = 0, sram_bank_width = 0,
     sram_words_per_cycle = 0, sram_stall_penalty = 0, sram_bw_window_cycles = 0,
     sram_word_metering = 0, dma_read_latency_cycles = 0, dma_write_latency_cycles = 0,
     dma_latency_configured = False, dma_bus_width_bits = 0, dma_max_burst_bytes = 0,
     dma_read_max_burst_bytes = 0, dma_write_max_burst_bytes = 0, dma_burst_issue_cycles = 0,
     dma_read_burst_issue_cycles = 0, dma_write_burst_issue_cycles = 0,
     dma_read_burst_issue_configured = False, dma_write_burst_issue_configured = False,
     dma_burst_segmentation = 0, dma_base_latency_scope = 0, dma_payload_scope = 0,
     dma_issue_payload_mode = 0, dma_burst_boundary_mode = 0, dma_num_channels = 0,
     dma_bus_mode = 0, dma_arb_policy = 0, dma_drr_quantum_bytes = 0, dma_drr_quantum_cycles = 0,
     dma_drr_cost_mode = 0, dma_drr_service_mode = 0, dma_drr_idle_policy = 0,
     dma_drr_cost_granularity = 0, dma_drr_round_issue_cycles = 0, dma_drr_round_cost_mode = 0,
     dma_drr_select_issue_cycles = 0, dma_drr_scan_width = 0, dma_drr_round_scan_width = 0,
     dma_drr_select_scan_width = 0, dma_drr_channel_weights = replicate 8 0, dma_aging_scope = 0,
     dma_aging_metric = 0, dma_aging_increment = 0, dma_aging_max_boost = 0,
     dma_aging_cycle_quantum = 0, dma_aging_quantum_domain = 0, dma_aging_quantum_ns = 0,
     dma_binding_policy = 0, dma_max_outstanding = 0, dma_async_mode = False,
     counters_enabled = False, detailed_stalls = False, trace_enabled = False, trace_file = '''',
     verify_enabled = False, verify_tolerance = 0, icc_switching_mode = 0, icc_contention_mode = 0,
     icc_mesh_routing_mode = 0, icc_link_bytes_per_cycle = 0, icc_router_latency_cycles = 0\<rparr>"

definition zero_state :: tu_state where
  "zero_state = \<lparr>ts_sram_w = zero_region, ts_sram_a = zero_region, ts_sram_o = zero_region,
     ts_dma = zero_engine, ts_cmdq = None, ts_dataflow = None, ts_total_dma_bytes = 0,
     ts_total_mma_calls = 0, ts_total_mma_tiles = 0, ts_total_mma_flops = 0, ts_estimated_cycles = 0,
     ts_rt_cfg = zero_config, ts_initialized = False\<rparr>"

section \<open>The plugin registry\<close>

definition TU_DATAFLOW_MAX_PLUGINS :: nat where "TU_DATAFLOW_MAX_PLUGINS = 8"

definition tu_dataflow_register :: "nat \<Rightarrow> nat list \<Rightarrow> nat list" where
  "tu_dataflow_register i reg =
    (if length reg \<ge> TU_DATAFLOW_MAX_PLUGINS \<or> i \<in> set reg then reg else reg @ [i])"

definition tu_dataflow_lookup :: "int \<Rightarrow> nat list \<Rightarrow> nat option" where
  "tu_dataflow_lookup i reg = (if i \<ge> 0 \<and> nat i \<in> set reg then Some (nat i) else None)"

definition tu_set_dataflow :: "int \<Rightarrow> tu_world \<Rightarrow> int \<times> tu_world" where
  "tu_set_dataflow i w =
    (case tu_dataflow_lookup i (w_registry w) of
       None \<Rightarrow> (- 1, w)
     | Some plugin \<Rightarrow> (0, w\<lparr>w_tu := (w_tu w)\<lparr>ts_dataflow := Some plugin\<rparr>\<rparr>))"

section \<open>Initialisation\<close>

text \<open>The global regions as the DMA engine sees them.\<close>

definition tu_regions :: "tu_state \<Rightarrow> tu_sram_region list" where
  "tu_regions s = [ts_sram_w s, ts_sram_a s, ts_sram_o s]"

definition world_dma :: "tu_world \<Rightarrow> dma_sys" where
  "world_dma w = (w_dma w, \<lparr>dm_regions = tu_regions (w_tu w), dm_host = w_host w\<rparr>)"

definition with_dma :: "dma_sys \<Rightarrow> tu_world \<Rightarrow> tu_world" where
  "with_dma s w = w\<lparr>w_dma := fst s, w_host := dm_host (snd s),
     w_tu := (w_tu w)\<lparr>ts_sram_w := dm_regions (snd s) ! 0, ts_sram_a := dm_regions (snd s) ! 1,
       ts_sram_o := dm_regions (snd s) ! 2\<rparr>\<rparr>"

definition tu_shutdown :: "tu_world \<Rightarrow> tu_world" where
  "tu_shutdown w = (with_dma (tu_dma_flush_all (world_dma w)) w)\<lparr>w_dma := zero_engine, w_tu := zero_state\<rparr>"

definition dma_params_of :: "tu_runtime_config \<Rightarrow> dma_params" where
  "dma_params_of cfg =
    \<lparr>p_async = dma_async_mode cfg, p_num_channels = dma_num_channels cfg,
     p_max_queue_depth = dma_max_outstanding cfg, p_bus_mode = dma_bus_mode cfg,
     p_arb_policy = dma_arb_policy cfg, p_aging_scope = dma_aging_scope cfg,
     p_aging_metric = dma_aging_metric cfg, p_aging_increment = dma_aging_increment cfg,
     p_aging_max_boost = dma_aging_max_boost cfg, p_aging_cycle_quantum = dma_aging_cycle_quantum cfg,
     p_drr_quantum_bytes = dma_drr_quantum_bytes cfg, p_drr_cost_mode = dma_drr_cost_mode cfg,
     p_drr_quantum_cycles = dma_drr_quantum_cycles cfg, p_binding_policy = dma_binding_policy cfg,
     p_bus_width_bits = dma_bus_width_bits cfg,
     p_read_latency = (if dma_latency_configured cfg then dma_read_latency_cycles cfg else TU_LATENCY_DRAM_READ),
     p_write_latency = (if dma_latency_configured cfg then dma_write_latency_cycles cfg else TU_LATENCY_DRAM_WRITE),
     p_max_burst = dma_max_burst_bytes cfg, p_read_max_burst = dma_read_max_burst_bytes cfg,
     p_write_max_burst = dma_write_max_burst_bytes cfg, p_burst_issue = dma_burst_issue_cycles cfg,
     p_read_burst_issue = dma_read_burst_issue_cycles cfg,
     p_write_burst_issue = dma_write_burst_issue_cycles cfg,
     p_read_issue_configured = dma_read_burst_issue_configured cfg,
     p_write_issue_configured = dma_write_burst_issue_configured cfg,
     p_segmentation = dma_burst_segmentation cfg, p_base_scope = dma_base_latency_scope cfg,
     p_payload_scope = dma_payload_scope cfg, p_issue_mode = dma_issue_payload_mode cfg,
     p_boundary_mode = dma_burst_boundary_mode cfg\<rparr>"

text \<open>The initialiser and the setters, whose results are ignored.\<close>

definition dma_of_config :: "tu_runtime_config \<Rightarrow> dma_engine" where
  "dma_of_config cfg =
    (let g = init_service (dma_params_of cfg);
         g = snd (tu_dma_set_drr_service (word_of_int (dma_drr_service_mode cfg))
               (Some (dma_drr_channel_weights cfg)) TU_DMA_ENGINE_MAX_CHANNELS g);
         g = snd (tu_dma_set_drr_idle_policy (word_of_int (dma_drr_idle_policy cfg)) g);
         g = snd (tu_dma_set_drr_cost_granularity (word_of_int (dma_drr_cost_granularity cfg)) g);
         g = snd (tu_dma_set_drr_round_issue_cycles (dma_drr_round_issue_cycles cfg) g);
         g = snd (tu_dma_set_drr_round_cost_mode (word_of_int (dma_drr_round_cost_mode cfg)) g);
         g = snd (tu_dma_set_drr_select_issue_cycles (dma_drr_select_issue_cycles cfg) g);
         g = snd (tu_dma_set_drr_scan_width (dma_drr_scan_width cfg) g)
     in snd (tu_dma_set_drr_stage_scan_widths (dma_drr_round_scan_width cfg) (dma_drr_select_scan_width cfg) g))"

definition config_region :: "tu_runtime_config \<Rightarrow> u32 \<Rightarrow> string \<Rightarrow> tu_sram_region" where
  "config_region cfg bytes name =
    snd (tu_sram_set_word_metering
      (tu_sram_init_runtime bytes name (sram_num_banks cfg) TU_SRAM_BANK_WIDTH (sram_words_per_cycle cfg)
         (sram_stall_penalty cfg) (sram_bw_window_cycles cfg))
      (sram_word_metering cfg))"

definition bad_metering :: "tu_runtime_config \<Rightarrow> bool" where
  "bad_metering cfg \<longleftrightarrow> sram_word_metering cfg < 0 \<or> sram_word_metering cfg > 1"

definition TU_ISA_QUEUE_DEPTH :: u32 where "TU_ISA_QUEUE_DEPTH = 16"
definition TU_CYCLE_MODEL :: nat where "TU_CYCLE_MODEL = 0"

definition tu_init_with_config :: "tu_runtime_config \<Rightarrow> tu_world \<Rightarrow> tu_world" where
  "tu_init_with_config cfg w =
    (if bad_metering cfg then w
     else
       let w = tu_shutdown w;
           w = w\<lparr>w_tu := (w_tu w)\<lparr>ts_rt_cfg := cfg,
                   ts_sram_w := config_region cfg (sram_w_size cfg) ''W-buf'',
                   ts_sram_a := config_region cfg (sram_a_size cfg) ''A-buf'',
                   ts_sram_o := config_region cfg (sram_o_size cfg) ''O-buf'',
                   ts_cmdq := Some (tu_cmdq_create TU_ISA_QUEUE_DEPTH (TU_CYCLE_MODEL = 0))\<rparr>,
                 w_dma := dma_of_config cfg,
                 w_registry := fold tu_dataflow_register [0, 1, 2] (w_registry w)\<rparr>;
           w = snd (tu_set_dataflow (dataflow_mode cfg) w)
       in w\<lparr>w_tu := (w_tu w)\<lparr>ts_initialized := True\<rparr>\<rparr>)"

definition tu_init :: "tu_world \<Rightarrow> tu_world" where
  "tu_init = tu_init_with_config tu_runtime_config_default"

section \<open>Transfers of the legacy interface\<close>

text \<open>\<open>check_sram_bounds\<close> only reports; the transfer checks again. \<open>None\<close> is a copy outside the buffer.\<close>

definition account_dma :: "u32 \<Rightarrow> tu_world \<Rightarrow> tu_world" where
  "account_dma bytes w =
    (let s = w_tu w
     in w\<lparr>w_tu := s\<lparr>ts_total_dma_bytes := ts_total_dma_bytes s + ucast bytes,
          ts_estimated_cycles := ts_estimated_cycles s + e_estimated_cycles (ts_dma s),
          ts_dma := (ts_dma s)\<lparr>e_estimated_cycles := 0\<rparr>\<rparr>\<rparr>)"

definition tu_dma_load_w :: "u64 \<Rightarrow> u32 \<Rightarrow> u32 \<Rightarrow> tu_world \<Rightarrow> tu_world option" where
  "tu_dma_load_w host tu_offset bytes w =
    map_option (\<lambda>(status, s). account_dma bytes (with_dma s w))
      (tu_dma_load 0 tu_offset host bytes (world_dma w))"

definition tu_dma_load_a :: "u64 \<Rightarrow> u32 \<Rightarrow> u32 \<Rightarrow> tu_world \<Rightarrow> tu_world option" where
  "tu_dma_load_a host tu_offset bytes w =
    map_option (\<lambda>(status, s). account_dma bytes (with_dma s w))
      (tu_dma_load 1 tu_offset host bytes (world_dma w))"

definition tu_dma_store_o :: "u64 \<Rightarrow> u32 \<Rightarrow> u32 \<Rightarrow> tu_world \<Rightarrow> tu_world option" where
  "tu_dma_store_o host tu_offset bytes w =
    map_option (\<lambda>(status, s). account_dma bytes (with_dma s w))
      (tu_dma_store 2 tu_offset host bytes (world_dma w))"

text \<open>The output buffer is loaded around the DMA engine, which only lends its width and its burst costs;
  \<open>None\<close> is a division by zero, before any initialisation.\<close>

definition tu_dma_load_o :: "u64 \<Rightarrow> u32 \<Rightarrow> u32 \<Rightarrow> tu_world \<Rightarrow> tu_world option" where
  "tu_dma_load_o host tu_offset bytes w =
    (let g = w_dma w; s = w_tu w;
         data = read_place (snd (world_dma w)) (Host host) (unat bytes);
         (stall, status, r) = tu_sram_write_bulk (ts_sram_o s) tu_offset data bytes
     in if e_bus_width_bytes g = 0 \<or> e_read_max_burst g = 0 then None
        else Some (w\<lparr>w_tu := s\<lparr>ts_sram_o := r,
          ts_total_dma_bytes := ts_total_dma_bytes s + ucast bytes,
          ts_estimated_cycles := ts_estimated_cycles s +
            ucast ((bytes + e_bus_width_bytes g - 1) div e_bus_width_bytes g) +
            (ucast bytes + ucast (e_read_max_burst g) - 1) div ucast (e_read_max_burst g) *
              ucast (e_read_burst_issue g)\<rparr>\<rparr>))"

definition tu_sync :: "tu_world \<Rightarrow> tu_world" where
  "tu_sync w =
    (let w = with_dma (tu_dma_sync (world_dma w)) w; s = w_tu w
     in w\<lparr>w_tu := s\<lparr>ts_estimated_cycles := ts_estimated_cycles s + 2 * ucast (pe_cols (ts_rt_cfg s))\<rparr>\<rparr>)"

definition tu_cmdq_sync_all :: "tu_world \<Rightarrow> tu_world option" where
  "tu_cmdq_sync_all w =
    (case ts_cmdq (w_tu w) of
       None \<Rightarrow> Some w
     | Some q \<Rightarrow> map_option (\<lambda>q'. w\<lparr>w_tu := (w_tu w)\<lparr>ts_cmdq := Some q'\<rparr>\<rparr>) (tu_cmdq_sync q))"

section \<open>Cores\<close>

definition tu_core_create_with_id :: "u32 \<Rightarrow> tu_runtime_config \<Rightarrow> tu_world \<Rightarrow> tu_core option \<times> tu_world" where
  "tu_core_create_with_id core_id cfg w =
    (if bad_metering cfg then (None, w)
     else let w = tu_init_with_config cfg w
          in (Some \<lparr>co_core_id = core_id, co_state = w_tu w, co_initialized = True\<rparr>, w\<lparr>w_tu := zero_state\<rparr>))"

definition tu_core_create :: "tu_runtime_config \<Rightarrow> tu_world \<Rightarrow> tu_core option \<times> tu_world" where
  "tu_core_create = tu_core_create_with_id 0"

definition tu_core_init :: "tu_core \<Rightarrow> tu_world \<Rightarrow> tu_core \<times> tu_world" where
  "tu_core_init core w =
    (let w = tu_init w
     in (core\<lparr>co_state := w_tu w, co_initialized := True\<rparr>, w\<lparr>w_tu := zero_state\<rparr>))"

text \<open>The core's state is swapped into the global instance, and back with what the call made of it.\<close>

definition core_swap_in :: "tu_core \<Rightarrow> tu_world \<Rightarrow> tu_state \<times> tu_world" where
  "core_swap_in core w = (w_tu w, w\<lparr>w_tu := co_state core\<rparr>)"

definition core_swap_out :: "tu_core \<Rightarrow> tu_state \<Rightarrow> tu_world \<Rightarrow> tu_core \<times> tu_world" where
  "core_swap_out core saved w = (core\<lparr>co_state := w_tu w\<rparr>, w\<lparr>w_tu := saved\<rparr>)"

definition on_core :: "(tu_world \<Rightarrow> tu_world option) \<Rightarrow> tu_core \<Rightarrow> tu_world \<Rightarrow> (tu_core \<times> tu_world) option" where
  "on_core f core w =
    (if \<not> co_initialized core then Some (core, w)
     else let (saved, w) = core_swap_in core w
          in map_option (core_swap_out core saved) (f w))"

definition tu_core_sync :: "tu_core \<Rightarrow> tu_world \<Rightarrow> (tu_core \<times> tu_world) option" where
  "tu_core_sync = on_core tu_cmdq_sync_all"

definition tu_core_dma_load_w :: "u64 \<Rightarrow> u32 \<Rightarrow> u32 \<Rightarrow> tu_core \<Rightarrow> tu_world \<Rightarrow> (tu_core \<times> tu_world) option" where
  "tu_core_dma_load_w host tu_offset bytes = on_core (tu_dma_load_w host tu_offset bytes)"

definition tu_core_dma_load_a :: "u64 \<Rightarrow> u32 \<Rightarrow> u32 \<Rightarrow> tu_core \<Rightarrow> tu_world \<Rightarrow> (tu_core \<times> tu_world) option" where
  "tu_core_dma_load_a host tu_offset bytes = on_core (tu_dma_load_a host tu_offset bytes)"

definition tu_core_dma_store_o :: "u64 \<Rightarrow> u32 \<Rightarrow> u32 \<Rightarrow> tu_core \<Rightarrow> tu_world \<Rightarrow> (tu_core \<times> tu_world) option" where
  "tu_core_dma_store_o host tu_offset bytes = on_core (tu_dma_store_o host tu_offset bytes)"

definition tu_core_set_dataflow :: "int \<Rightarrow> tu_core \<Rightarrow> tu_world \<Rightarrow> int \<times> tu_core" where
  "tu_core_set_dataflow i core w =
    (if \<not> co_initialized core then (- 1, core)
     else case tu_dataflow_lookup i (w_registry w) of
            None \<Rightarrow> (- 1, core)
          | Some plugin \<Rightarrow> (0, core\<lparr>co_state := (co_state core)\<lparr>ts_dataflow := Some plugin\<rparr>\<rparr>))"

definition TU_DATAFLOW_COUNT :: nat where "TU_DATAFLOW_COUNT = 4"

definition tu_core_get_dataflow :: "tu_core \<Rightarrow> nat" where
  "tu_core_get_dataflow core =
    (if \<not> co_initialized core then TU_DATAFLOW_COUNT
     else case ts_dataflow (co_state core) of None \<Rightarrow> TU_DATAFLOW_COUNT | Some i \<Rightarrow> i)"

section \<open>Initialised cores\<close>

lemma config_region_inv: "sram_inv (config_region cfg bytes name)"
  unfolding config_region_def by (intro sram_inv_modes sram_inv_init)

lemma config_region_size [simp]: "sr_total_size (config_region cfg bytes name) = bytes"
  by (simp add: config_region_def tu_sram_set_word_metering_def tu_sram_init_runtime_def Let_def)

lemma set_dataflow_frame [frame_simps]:
  "w_dma (snd (tu_set_dataflow i w)) = w_dma w" "w_host (snd (tu_set_dataflow i w)) = w_host w"
  "ts_sram_w (w_tu (snd (tu_set_dataflow i w))) = ts_sram_w (w_tu w)"
  "ts_sram_a (w_tu (snd (tu_set_dataflow i w))) = ts_sram_a (w_tu w)"
  "ts_sram_o (w_tu (snd (tu_set_dataflow i w))) = ts_sram_o (w_tu w)"
  "ts_cmdq (w_tu (snd (tu_set_dataflow i w))) = ts_cmdq (w_tu w)"
  "ts_dma (w_tu (snd (tu_set_dataflow i w))) = ts_dma (w_tu w)"
  "ts_estimated_cycles (w_tu (snd (tu_set_dataflow i w))) = ts_estimated_cycles (w_tu w)"
  by (simp_all add: tu_set_dataflow_def split: option.split)

lemma created_core:
  assumes "tu_core_create_with_id i cfg w = (created, w')" "sram_word_metering cfg \<in> {0, 1}"
  shows "\<exists>core. created = Some core \<and> co_initialized core \<and> co_core_id core = i \<and> w_tu w' = zero_state \<and> w_dma w' = dma_of_config cfg \<and>
    map sr_total_size (tu_regions (co_state core)) = [sram_w_size cfg, sram_a_size cfg, sram_o_size cfg] \<and>
    list_all sram_inv (tu_regions (co_state core)) \<and>
    ts_cmdq (co_state core) = Some (tu_cmdq_create TU_ISA_QUEUE_DEPTH True)"
proof -
  have "\<not> bad_metering cfg" using assms(2) by (auto simp: bad_metering_def)
  then have e: "tu_core_create_with_id i cfg w =
      (Some \<lparr>co_core_id = i, co_state = w_tu (tu_init_with_config cfg w), co_initialized = True\<rparr>,
       (tu_init_with_config cfg w)\<lparr>w_tu := zero_state\<rparr>)"
    by (simp add: tu_core_create_with_id_def Let_def)
  have "w_dma (tu_init_with_config cfg w) = dma_of_config cfg"
    "ts_sram_w (w_tu (tu_init_with_config cfg w)) = config_region cfg (sram_w_size cfg) ''W-buf''"
    "ts_sram_a (w_tu (tu_init_with_config cfg w)) = config_region cfg (sram_a_size cfg) ''A-buf''"
    "ts_sram_o (w_tu (tu_init_with_config cfg w)) = config_region cfg (sram_o_size cfg) ''O-buf''"
    "ts_cmdq (w_tu (tu_init_with_config cfg w)) = Some (tu_cmdq_create TU_ISA_QUEUE_DEPTH True)"
    using \<open>\<not> bad_metering cfg\<close>
    by (simp_all add: tu_init_with_config_def Let_def frame_simps TU_CYCLE_MODEL_def)
  then show ?thesis using assms(1) unfolding e by (auto simp: tu_regions_def config_region_inv)
qed

text \<open>
  C39. A core is created unless the configured metering mode is invalid. It has the given
  identifier and owns three regions of the
  configured sizes that satisfy the region invariant and an empty queue that executes commands when
  they are submitted; the global engine is configured and the global instance cleared.
\<close>

theorem created_core_is_ready:
  assumes "tu_core_create_with_id i cfg w = (created, w')" "sram_word_metering cfg \<in> {0, 1}"
  shows "\<exists>core. created = Some core \<and> co_initialized core \<and> co_core_id core = i \<and> w_tu w' = zero_state \<and> w_dma w' = dma_of_config cfg \<and>
    map sr_total_size (tu_regions (co_state core)) = [sram_w_size cfg, sram_a_size cfg, sram_o_size cfg] \<and>
    list_all sram_inv (tu_regions (co_state core)) \<and>
    ts_cmdq (co_state core) = Some (tu_cmdq_create TU_ISA_QUEUE_DEPTH True)"
  by (rule created_core [OF assms])

section \<open>The legacy transfers\<close>

lemma on_core_saved: "on_core f core w = Some (core', w') \<Longrightarrow> w_tu w' = w_tu w"
  by (auto simp: on_core_def core_swap_in_def core_swap_out_def split: if_splits)

text \<open>
  C17. On a core with a well-formed weight buffer, and with a global engine whose bus width and read bursts
  are configured, a load that fits puts the bytes of the host into the weight buffer and leaves
  the other two buffers and the global instance as they were. The global engine counts the bytes, one
  transfer and the cycles: its read latency and the payload and issue cycles of the transfer. The
  core's statistics get the bytes, but not these cycles: they get what the core's own copy of the
  engine holds, a copy that the transfer does not use and that is cleared.
\<close>

theorem core_load_lands:
  assumes "co_initialized core" "s = co_state core" "sram_inv (ts_sram_w s)"
    and "unat off + unat n \<le> unat (sr_total_size (ts_sram_w s))"
    and "g = w_dma w" "e_bus_width_bytes g \<noteq> 0" "e_read_max_burst g \<noteq> 0"
    and "timing = legacy_timing TU_DMA_DIR_HOST_TO_TU off n"
  shows "\<exists>core' w'. tu_core_dma_load_w host off n core w = Some (core', w') \<and> w_tu w' = w_tu w \<and>
    sb_data (sr_banks (ts_sram_w (co_state core'))) = put_bytes (sb_data (sr_banks (ts_sram_w s))) (unat off)
      (map (\<lambda>i. w_host w (host + of_nat i)) [0..<unat n]) \<and>
    ts_sram_a (co_state core') = ts_sram_a s \<and> ts_sram_o (co_state core') = ts_sram_o s \<and>
    e_bytes (w_dma w') = e_bytes g + ucast n \<and> e_transfers (w_dma w') = e_transfers g + 1 \<and>
    e_estimated_cycles (w_dma w') = e_estimated_cycles g + ucast (e_read_latency g) +
      combine_payload_issue_cycles g (descriptor_payload_cycles g timing) (descriptor_burst_count g timing)
        (e_read_burst_issue g) \<and>
    ts_total_dma_bytes (co_state core') = ts_total_dma_bytes s + ucast n \<and>
    ts_estimated_cycles (co_state core') = ts_estimated_cycles s + e_estimated_cycles (ts_dma s) \<and>
    e_estimated_cycles (ts_dma (co_state core')) = 0"
proof -
  have "unat (sr_total_size (ts_sram_w s)) < 4294967296"
    using unsigned_less [of "sr_total_size (ts_sram_w s)"] by simp
  then have "unat off + unat n < 4294967296" using assms(4) by linarith
  then have "\<not> off + n > sr_total_size (ts_sram_w s)"
    using assms(4) by (simp add: word_less_nat_alt u32_add_exact not_less)
  moreover have "\<not> unat off + unat n > length (sb_data (sr_banks (ts_sram_w s)))"
    using assms(3,4) by (simp add: sram_inv_def sram_wf_def)
  moreover note legacy_account_load [OF assms(6,7), of off n, folded assms(8)]
  ultimately show ?thesis
    using assms(1) unfolding assms(2,5)
    by (simp add: tu_core_dma_load_w_def on_core_def core_swap_in_def core_swap_out_def tu_dma_load_w_def
        tu_dma_load_def world_dma_def with_dma_def account_dma_def tu_regions_def Let_def)
qed

text \<open>The world before any call, and the core that the default configuration makes in it.\<close>

definition fresh_world :: tu_world where
  "fresh_world = \<lparr>w_tu = zero_state, w_dma = zero_engine, w_registry = [], w_host = (\<lambda>a. ucast a)\<rparr>"

definition small_config :: tu_runtime_config where
  "small_config = tu_runtime_config_default\<lparr>sram_w_size := 16, sram_a_size := 8, sram_o_size := 8\<rparr>"

definition small_core :: tu_core where
  "small_core = the (fst (tu_core_create small_config fresh_world))"

theorem created_core_is_ready_witness:
  "list_all sram_inv (tu_regions (co_state small_core)) \<and>
   map sr_total_size (tu_regions (co_state small_core)) = [16, 8, 8] \<and>
   e_num_channels (dma_of_config small_config) = 3 \<and> e_bus_width_bytes (dma_of_config small_config) = 32"
proof -
  have e: "e_num_channels (dma_of_config small_config) = 3" "e_bus_width_bytes (dma_of_config small_config) = 32"
    by code_simp+
  have z: "sram_w_size small_config = 16" "sram_a_size small_config = 8" "sram_o_size small_config = 8"
    by (simp_all add: small_config_def)
  let ?c = "tu_core_create_with_id 0 small_config fresh_world"
  have "sram_word_metering small_config \<in> {0, 1}" by (simp add: small_config_def tu_runtime_config_default_def)
  note ready = created_core_is_ready [OF prod.collapse [of ?c, symmetric] this, unfolded z]
  obtain core where c: "fst ?c = Some core" "map sr_total_size (tu_regions (co_state core)) = [16, 8, 8]"
    "list_all sram_inv (tu_regions (co_state core))" by (rule exE [OF ready]) (elim conjE, rule that)
  have "small_core = core" using c(1) by (simp add: small_core_def tu_core_create_def)
  then show ?thesis using e c(2,3) by blast
qed

text \<open>The world after its creation, whose engine has a bus of 32 bytes and a latency of 50 cycles.\<close>

definition ready_world :: tu_world where
  "ready_world = snd (tu_core_create small_config fresh_world)"

lemma small_config_engine:
  "e_bus_width_bytes (dma_of_config small_config) = 32" "e_read_max_burst (dma_of_config small_config) = 64"
  "e_read_latency (dma_of_config small_config) = 50" "e_estimated_cycles (dma_of_config small_config) = 0"
  "e_read_burst_issue (dma_of_config small_config) = 0" "e_payload_scope (dma_of_config small_config) = TU_DMA_PAYLOAD_PACKED_DESCRIPTOR"
  "e_issue_mode (dma_of_config small_config) = TU_DMA_ISSUE_PAYLOAD_SERIALIZED"
  by code_simp+

lemma ready_world_fields: "w_dma ready_world = dma_of_config small_config" "w_host ready_world = ucast"
proof -
  have g: "\<not> bad_metering small_config" by (simp add: bad_metering_def small_config_def tu_runtime_config_default_def)
  show "w_dma ready_world = dma_of_config small_config"
    using g by (simp add: ready_world_def tu_core_create_def tu_core_create_with_id_def tu_init_with_config_def frame_simps Let_def)
  have z: "e_num_channels (w_dma fresh_world) = 0" by (simp add: fresh_world_def zero_engine_def)
  have "w_host (tu_shutdown fresh_world) = w_host fresh_world"
    using z by (simp add: tu_shutdown_def with_dma_def world_dma_def tu_dma_flush_all_def)
  then show "w_host ready_world = ucast"
    using g by (simp add: ready_world_def tu_core_create_def tu_core_create_with_id_def tu_init_with_config_def
        frame_simps fresh_world_def Let_def)
qed

theorem core_load_lands_witness:
  "\<exists>core' w'. tu_core_dma_load_w 7 4 3 small_core ready_world = Some (core', w') \<and>
    sb_data (sr_banks (ts_sram_w (co_state core'))) = put_bytes (replicate 16 0) 4 [7, 8, 9] \<and>
    e_estimated_cycles (w_dma w') = 51 \<and> ts_estimated_cycles (co_state core') = 0"
proof -
  have f: "co_initialized small_core" "sr_total_size (ts_sram_w (co_state small_core)) = 16"
    "sb_data (sr_banks (ts_sram_w (co_state small_core))) = replicate 16 0"
    "e_estimated_cycles (ts_dma (co_state small_core)) = 0" "ts_estimated_cycles (co_state small_core) = 0"
    by code_simp+
  have i: "sram_inv (ts_sram_w (co_state small_core))"
    by (simp add: small_core_def tu_core_create_def tu_core_create_with_id_def small_config_def bad_metering_def
        tu_runtime_config_default_def tu_init_with_config_def frame_simps config_region_inv Let_def)
  have u: "[0..<unat (3 :: u32)] = [0, 1, 2]" "unat (4 :: u32) = 4" "unat (4 :: u32) + unat (3 :: u32) \<le> unat (16 :: u32)"
    by code_simp+
  have m: "map (\<lambda>i. w_host ready_world (7 + of_nat i)) [0..<unat (3 :: u32)] = [7, 8, 9]"
    unfolding u ready_world_fields by simp
  let ?g = "dma_of_config small_config" and ?t = "legacy_timing TU_DMA_DIR_HOST_TO_TU 4 3"
  have "descriptor_payload_cycles ?g ?t = 1"
    by (simp add: descriptor_payload_cycles_def legacy_timing_def small_config_engine ceil_div_u64_def Let_def)
  then have c: "(0 :: u64) + ucast (50 :: u32) +
      combine_payload_issue_cycles ?g (descriptor_payload_cycles ?g ?t) (descriptor_burst_count ?g ?t) 0 = 51"
    by (simp add: combine_payload_issue_cycles_def small_config_engine Let_def)
  have b: "e_bus_width_bytes ?g \<noteq> 0" "e_read_max_burst ?g \<noteq> 0" by (simp_all add: small_config_engine)
  obtain core' w' where r: "tu_core_dma_load_w 7 4 3 small_core ready_world = Some (core', w')"
    "sb_data (sr_banks (ts_sram_w (co_state core'))) = put_bytes (replicate 16 0) 4 [7, 8, 9]"
    "e_estimated_cycles (w_dma w') = 0 + ucast (50 :: u32) +
       combine_payload_issue_cycles ?g (descriptor_payload_cycles ?g ?t) (descriptor_burst_count ?g ?t) 0"
    "ts_estimated_cycles (co_state core') = 0 + 0"
    using core_load_lands [OF f(1) refl i u(3) [folded f(2)] ready_world_fields(1) [symmetric] b refl, where host = 7,
        unfolded f(3,4,5) m u(2) small_config_engine(3-5)] by blast
  then show ?thesis unfolding c by auto
qed

end
