(* ===== verification/Context.thy ===== *)
theory Context
  imports Core "HOL-Library.Monad_Syntax"
begin

text \<open>
  The context manager of \<open>infra/tu_context.c\<close>: contexts that share one core, saving and restoring its
  state, and the scheduling of contexts. The core behind the manager's pointer is a field of the
  manager; what a running context does to it is an update of that field. A copy outside a buffer is
  undefined behaviour and the value \<open>None\<close>, as is a drain of the command queue that does not return;
  allocation succeeds. A context's configuration override, which nothing reads, is left out.
\<close>

section \<open>Data\<close>

datatype tu_ctx_sched_policy = TU_CTX_SCHED_ROUND_ROBIN | TU_CTX_SCHED_PRIORITY

datatype tu_ctx_save_scope = TU_CTX_SAVE_FULL_SRAM | TU_CTX_SAVE_LIVE_SRAM | TU_CTX_SAVE_CONTROL_ONLY

datatype tu_ctx_state = TU_CTX_IDLE | TU_CTX_ACTIVE | TU_CTX_READY | TU_CTX_BLOCKED | TU_CTX_COMPLETED

record tu_context_desc =
  cx_ctx_id :: u32
  cx_state :: tu_ctx_state
  cx_priority :: u8
  cx_hw_state :: tu_state
  cx_total_cycles :: u64
  cx_total_commands :: u64
  cx_switch_count :: u64
  cx_last_switch_cycle :: u64
  cx_saved_sram_bytes :: u64
  cx_saved_w_bytes :: u32
  cx_saved_a_bytes :: u32
  cx_saved_o_bytes :: u32
  cx_has_config_override :: bool
  cx_user_data :: u64

record tu_ctx_manager =
  cm_core :: tu_core
  cm_max_contexts :: u32
  cm_contexts :: "tu_context_desc list"
  cm_active_count :: u32
  cm_active_ctx_id :: u32
  cm_sched_policy :: tu_ctx_sched_policy
  cm_time_slice_cycles :: u64
  cm_time_slice_cmds :: u32
  cm_slice_cycles_used :: u64
  cm_slice_cmds_used :: u32
  cm_total_switches :: u64
  cm_total_cycles_stolen :: u64
  cm_switch_fixed_cycles :: u64
  cm_state_bytes_per_cycle :: u32
  cm_save_scope :: tu_ctx_save_scope
  cm_live_w_bytes :: u32
  cm_live_a_bytes :: u32
  cm_live_o_bytes :: u32
  cm_pending_save_bytes :: u64

record tu_ctx_manager_config =
  cc_max_contexts :: u32
  cc_sched_policy :: tu_ctx_sched_policy
  cc_time_slice_cycles :: u64
  cc_time_slice_cmds :: u32
  cc_switch_overhead :: u64
  cc_save_dram_state :: bool
  cc_save_scope :: tu_ctx_save_scope
  cc_live_w_bytes :: u32
  cc_live_a_bytes :: u32
  cc_live_o_bytes :: u32
  cc_state_bytes_per_cycle :: u32

definition blank_context :: tu_context_desc where
  "blank_context = \<lparr>cx_ctx_id = 0, cx_state = TU_CTX_IDLE, cx_priority = 0, cx_hw_state = zero_state,
     cx_total_cycles = 0, cx_total_commands = 0, cx_switch_count = 0, cx_last_switch_cycle = 0,
     cx_saved_sram_bytes = 0, cx_saved_w_bytes = 0, cx_saved_a_bytes = 0, cx_saved_o_bytes = 0,
     cx_has_config_override = False, cx_user_data = 0\<rparr>"

section \<open>Saving and restoring a region\<close>

text \<open>What both directions copy of a bank besides its bytes.\<close>

definition copy_bank_metadata :: "tu_sram_bank \<Rightarrow> tu_sram_bank \<Rightarrow> tu_sram_bank" where
  "copy_bank_metadata src dst = dst\<lparr>sb_size := sb_size src, sb_bank_count := sb_bank_count src,
     sb_bank_width := sb_bank_width src, sb_reads := sb_reads src, sb_writes := sb_writes src,
     sb_conflicts := sb_conflicts src, sb_stall_cycles := sb_stall_cycles src,
     sb_bw_modeling := sb_bw_modeling src, sb_words_per_cycle := sb_words_per_cycle src,
     sb_arb_mode := sb_arb_mode src, sb_stall_penalty := sb_stall_penalty src,
     sb_bw_refill_window := sb_bw_refill_window src, sb_current_cycle := sb_current_cycle src\<rparr>"

text \<open>A bank that was never initialised has a null data pointer: the initialiser sets a bank count that is not 0.\<close>

definition no_data :: "tu_sram_bank \<Rightarrow> bool" where
  "no_data b \<longleftrightarrow> sb_data b = [] \<and> sb_bank_count b = 0"

definition ctx_copy_sram_data :: "tu_sram_region \<Rightarrow> u32 \<Rightarrow> tu_sram_region \<Rightarrow> (int \<times> tu_sram_region) option" where
  "ctx_copy_sram_data src n dst =
    (if no_data (sr_banks src) then Some (- 1, dst)
     else if unat n > length (sb_data (sr_banks src)) then None
     else Some (0, dst\<lparr>sr_banks := (copy_bank_metadata (sr_banks src) (sr_banks dst))
       \<lparr>sb_data := take (unat n) (sb_data (sr_banks src)), sb_bw_banks := None\<rparr>\<rparr>))"

definition ctx_free_sram_data :: "tu_sram_region \<Rightarrow> tu_sram_region" where
  "ctx_free_sram_data r = r\<lparr>sr_banks := (sr_banks r)\<lparr>sb_data := [], sb_bw_banks := None\<rparr>\<rparr>"

text \<open>The name and the size of a saved region, and no double buffer.\<close>

definition label_region :: "tu_sram_region \<Rightarrow> tu_sram_region \<Rightarrow> tu_sram_region" where
  "label_region src r = r\<lparr>sr_name := sr_name src, sr_db := None, sr_total_size := sr_total_size src\<rparr>"

definition restore_region :: "tu_sram_region \<Rightarrow> u32 \<Rightarrow> tu_sram_region \<Rightarrow> tu_sram_region option" where
  "restore_region saved n r =
    (if unat n > length (sb_data (sr_banks saved)) \<or> unat n > length (sb_data (sr_banks r)) then None
     else Some (r\<lparr>sr_banks := (copy_bank_metadata (sr_banks saved) (sr_banks r))
         \<lparr>sb_data := take (unat n) (sb_data (sr_banks saved)) @ drop (unat n) (sb_data (sr_banks r))\<rparr>,
       sr_total_size := sr_total_size saved, sr_name := sr_name saved, sr_db := None\<rparr>))"

section \<open>Saving and restoring the state\<close>

definition ctx_scope_bytes :: "tu_ctx_save_scope \<Rightarrow> u32 \<Rightarrow> u32 \<Rightarrow> u32" where
  "ctx_scope_bytes scope live whole =
    (case scope of TU_CTX_SAVE_FULL_SRAM \<Rightarrow> whole | TU_CTX_SAVE_LIVE_SRAM \<Rightarrow> live
     | TU_CTX_SAVE_CONTROL_ONLY \<Rightarrow> 0)"

text \<open>A region that cannot be copied makes the whole save fail, and what was copied before is freed.\<close>

definition ctx_save_full_state :: "tu_ctx_manager \<Rightarrow> tu_state \<Rightarrow> tu_context_desc \<Rightarrow> (int \<times> tu_context_desc) option" where
  "ctx_save_full_state mgr s ctx =
    (let hw = cx_hw_state ctx;
         wb = ctx_scope_bytes (cm_save_scope mgr) (cm_live_w_bytes mgr) (sb_size (sr_banks (ts_sram_w s)));
         ab = ctx_scope_bytes (cm_save_scope mgr) (cm_live_a_bytes mgr) (sb_size (sr_banks (ts_sram_a s)));
         ob = ctx_scope_bytes (cm_save_scope mgr) (cm_live_o_bytes mgr) (sb_size (sr_banks (ts_sram_o s)));
         dw = ctx_free_sram_data (ts_sram_w hw); da = ctx_free_sram_data (ts_sram_a hw);
         dout = ctx_free_sram_data (ts_sram_o hw);
         ctx = ctx\<lparr>cx_saved_w_bytes := wb, cx_saved_a_bytes := ab, cx_saved_o_bytes := ob,
           cx_saved_sram_bytes := ucast wb + ucast ab + ucast ob\<rparr>;
         fail = (\<lambda>w a out. Some (- 1, ctx\<lparr>cx_hw_state := hw\<lparr>ts_sram_w := w, ts_sram_a := a, ts_sram_o := out\<rparr>\<rparr>))
     in do {
       (rw, w) \<leftarrow> ctx_copy_sram_data (ts_sram_w s) wb dw;
       if rw \<noteq> 0 then fail w da dout else do {
         (ra, a) \<leftarrow> ctx_copy_sram_data (ts_sram_a s) ab da;
         if ra \<noteq> 0 then fail (ctx_free_sram_data w) a dout else do {
           (ro, out) \<leftarrow> ctx_copy_sram_data (ts_sram_o s) ob dout;
           if ro \<noteq> 0 then fail (ctx_free_sram_data w) (ctx_free_sram_data a) out else
           Some (0, ctx\<lparr>cx_hw_state := hw\<lparr>ts_sram_w := label_region (ts_sram_w s) w,
             ts_sram_a := label_region (ts_sram_a s) a, ts_sram_o := label_region (ts_sram_o s) out,
             ts_dma := ts_dma s, ts_cmdq := ts_cmdq s, ts_dataflow := ts_dataflow s,
             ts_total_dma_bytes := ts_total_dma_bytes s, ts_total_mma_calls := ts_total_mma_calls s,
             ts_total_mma_tiles := ts_total_mma_tiles s, ts_total_mma_flops := ts_total_mma_flops s,
             ts_estimated_cycles := ts_estimated_cycles s, ts_rt_cfg := ts_rt_cfg s,
             ts_initialized := ts_initialized s\<rparr>\<rparr>) } } })"

text \<open>The command queue of the core stays: the context was drained before it was saved.\<close>

definition ctx_restore_full_state :: "tu_context_desc \<Rightarrow> tu_state \<Rightarrow> tu_state option" where
  "ctx_restore_full_state ctx s =
    (let hw = cx_hw_state ctx
     in do {
       w \<leftarrow> restore_region (ts_sram_w hw) (cx_saved_w_bytes ctx) (ts_sram_w s);
       a \<leftarrow> restore_region (ts_sram_a hw) (cx_saved_a_bytes ctx) (ts_sram_a s);
       out \<leftarrow> restore_region (ts_sram_o hw) (cx_saved_o_bytes ctx) (ts_sram_o s);
       Some (s\<lparr>ts_sram_w := w, ts_sram_a := a, ts_sram_o := out, ts_dma := ts_dma hw,
         ts_dataflow := ts_dataflow hw, ts_total_dma_bytes := ts_total_dma_bytes hw,
         ts_total_mma_calls := ts_total_mma_calls hw, ts_total_mma_tiles := ts_total_mma_tiles hw,
         ts_total_mma_flops := ts_total_mma_flops hw, ts_estimated_cycles := ts_estimated_cycles hw,
         ts_rt_cfg := ts_rt_cfg hw, ts_initialized := ts_initialized hw\<rparr>) })"

section \<open>Managers and contexts\<close>

definition tu_ctx_manager_config_validate :: "tu_core \<Rightarrow> tu_ctx_manager_config \<Rightarrow> int" where
  "tu_ctx_manager_config_validate core cfg =
    (let s = co_state core
     in if cc_max_contexts cfg = 0 then - 1
        else if cc_save_scope cfg = TU_CTX_SAVE_LIVE_SRAM \<and>
          (cc_live_w_bytes cfg > sb_size (sr_banks (ts_sram_w s)) \<or>
           cc_live_a_bytes cfg > sb_size (sr_banks (ts_sram_a s)) \<or>
           cc_live_o_bytes cfg > sb_size (sr_banks (ts_sram_o s))) then - 1
        else 0)"

definition tu_ctx_manager_create :: "tu_core \<Rightarrow> tu_ctx_manager_config \<Rightarrow> tu_ctx_manager option" where
  "tu_ctx_manager_create core cfg =
    (if tu_ctx_manager_config_validate core cfg \<noteq> 0 then None
     else Some \<lparr>cm_core = core, cm_max_contexts = cc_max_contexts cfg,
       cm_contexts = map (\<lambda>i. blank_context\<lparr>cx_ctx_id := of_nat i, cx_state := TU_CTX_IDLE, cx_priority := 128\<rparr>)
         [0..<unat (cc_max_contexts cfg)],
       cm_active_count = 0, cm_active_ctx_id = 0, cm_sched_policy = cc_sched_policy cfg,
       cm_time_slice_cycles = cc_time_slice_cycles cfg, cm_time_slice_cmds = cc_time_slice_cmds cfg,
       cm_slice_cycles_used = 0, cm_slice_cmds_used = 0, cm_total_switches = 0, cm_total_cycles_stolen = 0,
       cm_switch_fixed_cycles = cc_switch_overhead cfg, cm_state_bytes_per_cycle = cc_state_bytes_per_cycle cfg,
       cm_save_scope = cc_save_scope cfg, cm_live_w_bytes = cc_live_w_bytes cfg,
       cm_live_a_bytes = cc_live_a_bytes cfg, cm_live_o_bytes = cc_live_o_bytes cfg, cm_pending_save_bytes = 0\<rparr>)"

abbreviation state_at :: "tu_ctx_manager \<Rightarrow> nat \<Rightarrow> tu_ctx_state" where
  "state_at mgr i \<equiv> cx_state (cm_contexts mgr ! i)"

definition set_context :: "nat \<Rightarrow> tu_context_desc \<Rightarrow> tu_ctx_manager \<Rightarrow> tu_ctx_manager" where
  "set_context i ctx mgr = mgr\<lparr>cm_contexts := (cm_contexts mgr)[i := ctx]\<rparr>"

definition set_state :: "nat \<Rightarrow> tu_ctx_state \<Rightarrow> tu_ctx_manager \<Rightarrow> tu_ctx_manager" where
  "set_state i st mgr = set_context i ((cm_contexts mgr ! i)\<lparr>cx_state := st\<rparr>) mgr"

definition tu_ctx_alloc :: "tu_ctx_manager \<Rightarrow> (int \<times> tu_ctx_manager) option" where
  "tu_ctx_alloc mgr =
    (case List.find (\<lambda>i. state_at mgr i = TU_CTX_IDLE) [0..<unat (cm_max_contexts mgr)] of
       None \<Rightarrow> Some (- 1, mgr)
     | Some i \<Rightarrow> do {
         (ret, ctx) \<leftarrow> ctx_save_full_state mgr (co_state (cm_core mgr))
           (blank_context\<lparr>cx_ctx_id := of_nat i, cx_state := TU_CTX_READY, cx_priority := 128\<rparr>);
         if ret \<noteq> 0 then Some (- 1, set_context i (ctx\<lparr>cx_state := TU_CTX_IDLE\<rparr>) mgr)
         else do {
         let mgr' = (if cm_active_count mgr = 0
                     then (set_context i (ctx\<lparr>cx_state := TU_CTX_ACTIVE\<rparr>) mgr)\<lparr>cm_active_ctx_id := of_nat i\<rparr>
                     else set_context i ctx mgr);
         Some (sint (of_nat i :: u32), mgr'\<lparr>cm_active_count := cm_active_count mgr + 1\<rparr>) } })"

definition tu_ctx_get :: "tu_ctx_manager \<Rightarrow> u32 \<Rightarrow> tu_context_desc option" where
  "tu_ctx_get mgr ctx_id =
    (if ctx_id \<ge> cm_max_contexts mgr \<or> state_at mgr (unat ctx_id) = TU_CTX_IDLE then None
     else Some (cm_contexts mgr ! unat ctx_id))"

section \<open>Switching\<close>

text \<open>Draining the queue of a core.\<close>

definition core_drain :: "tu_core \<Rightarrow> tu_core option" where
  "core_drain core =
    (if \<not> co_initialized core then Some core
     else case ts_cmdq (co_state core) of
            None \<Rightarrow> Some core
          | Some q \<Rightarrow> map_option (\<lambda>q'. core\<lparr>co_state := (co_state core)\<lparr>ts_cmdq := Some q'\<rparr>\<rparr>) (tu_cmdq_sync q))"

definition tu_ctx_save :: "tu_ctx_manager \<Rightarrow> (int \<times> tu_ctx_manager) option" where
  "tu_ctx_save mgr =
    (let i = unat (cm_active_ctx_id mgr)
     in if cm_active_ctx_id mgr \<ge> cm_max_contexts mgr \<or> state_at mgr i \<noteq> TU_CTX_ACTIVE then Some (- 1, mgr)
        else do {
          core \<leftarrow> core_drain (cm_core mgr);
          let mgr = mgr\<lparr>cm_core := core\<rparr>;
          (ret, ctx) \<leftarrow> ctx_save_full_state mgr (co_state core) (cm_contexts mgr ! i);
          if ret \<noteq> 0 then Some (ret, set_context i ctx mgr)
          else Some (0, (set_context i (ctx\<lparr>cx_state := TU_CTX_READY,
              cx_total_cycles := cx_total_cycles ctx +
                (ts_estimated_cycles (co_state core) - cx_last_switch_cycle ctx)\<rparr>) mgr)
            \<lparr>cm_pending_save_bytes := cx_saved_sram_bytes ctx\<rparr>) })"

definition switch_cycles :: "tu_ctx_manager \<Rightarrow> tu_context_desc \<Rightarrow> u64" where
  "switch_cycles mgr ctx =
    (let transfer_bytes = cm_pending_save_bytes mgr + cx_saved_sram_bytes ctx;
         rate = ucast (cm_state_bytes_per_cycle mgr)
     in cm_switch_fixed_cycles mgr +
        (if cm_state_bytes_per_cycle mgr > 0 then (transfer_bytes + rate - 1) div rate else 0))"

definition tu_ctx_restore :: "u32 \<Rightarrow> tu_ctx_manager \<Rightarrow> (int \<times> tu_ctx_manager) option" where
  "tu_ctx_restore ctx_id mgr =
    (let i = unat ctx_id; ctx = cm_contexts mgr ! i
     in if ctx_id \<ge> cm_max_contexts mgr \<or> cx_state ctx \<noteq> TU_CTX_READY then Some (- 1, mgr)
        else do {
          s \<leftarrow> ctx_restore_full_state ctx (co_state (cm_core mgr));
          Some (0, (set_context i (ctx\<lparr>cx_state := TU_CTX_ACTIVE, cx_switch_count := cx_switch_count ctx + 1,
              cx_last_switch_cycle := ts_estimated_cycles s\<rparr>) mgr)
            \<lparr>cm_core := (cm_core mgr)\<lparr>co_state := s\<rparr>, cm_active_ctx_id := ctx_id,
             cm_total_switches := cm_total_switches mgr + 1,
             cm_total_cycles_stolen := cm_total_cycles_stolen mgr + switch_cycles mgr ctx,
             cm_pending_save_bytes := 0, cm_slice_cycles_used := 0, cm_slice_cmds_used := 0\<rparr>) })"

definition tu_ctx_switch :: "u32 \<Rightarrow> tu_ctx_manager \<Rightarrow> (int \<times> tu_ctx_manager) option" where
  "tu_ctx_switch ctx_id mgr =
    (if cm_active_ctx_id mgr < cm_max_contexts mgr \<and> state_at mgr (unat (cm_active_ctx_id mgr)) = TU_CTX_ACTIVE
     then do {
       (ret, mgr) \<leftarrow> tu_ctx_save mgr;
       if ret \<noteq> 0 then Some (ret, mgr) else tu_ctx_restore ctx_id mgr }
     else tu_ctx_restore ctx_id mgr)"

definition tu_ctx_free :: "u32 \<Rightarrow> tu_ctx_manager \<Rightarrow> tu_ctx_manager option" where
  "tu_ctx_free ctx_id mgr =
    (if ctx_id \<ge> cm_max_contexts mgr then Some mgr
     else do {
       let i = unat ctx_id;
       mgr \<leftarrow> (if state_at mgr i = TU_CTX_ACTIVE then map_option snd (tu_ctx_save mgr) else Some mgr);
       if state_at mgr i = TU_CTX_ACTIVE then Some mgr
       else Some ((set_context i (blank_context\<lparr>cx_ctx_id := ctx_id, cx_state := TU_CTX_IDLE\<rparr>) mgr)
         \<lparr>cm_active_count := (if cm_active_count mgr > 0 then cm_active_count mgr - 1 else 0)\<rparr>) })"

section \<open>Scheduling\<close>

definition round_robin_next :: "tu_ctx_manager \<Rightarrow> int" where
  "round_robin_next mgr =
    (let n = cm_max_contexts mgr; start = (cm_active_ctx_id mgr + 1) mod n;
         id_at = (\<lambda>i. (start + of_nat i) mod n)
     in case List.find (\<lambda>i. state_at mgr (unat (id_at i)) = TU_CTX_READY) [0..<unat n] of
          Some i \<Rightarrow> sint (id_at i) | None \<Rightarrow> - 1)"

definition priority_step :: "tu_ctx_manager \<Rightarrow> int \<times> u8 \<Rightarrow> nat \<Rightarrow> int \<times> u8" where
  "priority_step mgr best i =
    (if state_at mgr i = TU_CTX_READY \<and> cx_priority (cm_contexts mgr ! i) > snd best
     then (sint (of_nat i :: u32), cx_priority (cm_contexts mgr ! i)) else best)"

definition priority_next :: "tu_ctx_manager \<Rightarrow> int" where
  "priority_next mgr = fst (foldl (priority_step mgr) (- 1, 0) [0..<unat (cm_max_contexts mgr)])"

definition tu_ctx_schedule_next :: "tu_ctx_manager \<Rightarrow> int" where
  "tu_ctx_schedule_next mgr =
    (case cm_sched_policy mgr of
       TU_CTX_SCHED_ROUND_ROBIN \<Rightarrow> round_robin_next mgr
     | TU_CTX_SCHED_PRIORITY \<Rightarrow> priority_next mgr)"

definition tu_ctx_request_switch :: "tu_ctx_manager \<Rightarrow> (int \<times> tu_ctx_manager) option" where
  "tu_ctx_request_switch mgr =
    (let next_id = tu_ctx_schedule_next mgr
     in if next_id < 0 then Some (- 1, mgr) else tu_ctx_switch (word_of_int next_id) mgr)"

definition tu_ctx_slice_expired :: "tu_ctx_manager \<Rightarrow> bool" where
  "tu_ctx_slice_expired mgr \<longleftrightarrow>
    cm_time_slice_cycles mgr > 0 \<and> cm_slice_cycles_used mgr \<ge> cm_time_slice_cycles mgr \<or>
    cm_time_slice_cmds mgr > 0 \<and> cm_slice_cmds_used mgr \<ge> cm_time_slice_cmds mgr"

definition tu_ctx_block_current :: "tu_ctx_manager \<Rightarrow> (int \<times> tu_ctx_manager) option" where
  "tu_ctx_block_current mgr = do {
     (ret, mgr) \<leftarrow> tu_ctx_save mgr;
     if ret \<noteq> 0 then Some (ret, mgr)
     else Some (0, if cm_active_ctx_id mgr < cm_max_contexts mgr
                   then set_state (unat (cm_active_ctx_id mgr)) TU_CTX_BLOCKED mgr else mgr) }"

definition tu_ctx_unblock :: "u32 \<Rightarrow> tu_ctx_manager \<Rightarrow> int \<times> tu_ctx_manager" where
  "tu_ctx_unblock ctx_id mgr =
    (if ctx_id \<ge> cm_max_contexts mgr then (- 1, mgr)
     else (0, if state_at mgr (unat ctx_id) = TU_CTX_BLOCKED then set_state (unat ctx_id) TU_CTX_READY mgr else mgr))"

definition tu_ctx_notify_command :: "tu_ctx_manager \<Rightarrow> tu_ctx_manager" where
  "tu_ctx_notify_command mgr = mgr\<lparr>cm_slice_cmds_used := cm_slice_cmds_used mgr + 1\<rparr>"

definition tu_ctx_notify_cycles :: "u64 \<Rightarrow> tu_ctx_manager \<Rightarrow> tu_ctx_manager" where
  "tu_ctx_notify_cycles cycles mgr = mgr\<lparr>cm_slice_cycles_used := cm_slice_cycles_used mgr + cycles\<rparr>"

definition tu_ctx_get_switch_count :: "tu_ctx_manager \<Rightarrow> u64" where
  "tu_ctx_get_switch_count mgr = cm_total_switches mgr"

definition tu_ctx_get_switch_overhead :: "tu_ctx_manager \<Rightarrow> u64" where
  "tu_ctx_get_switch_overhead mgr = cm_total_cycles_stolen mgr"

section \<open>Saving and restoring\<close>

text \<open>What a context keeps across a switch: not the queue, the double buffers, the bandwidth budgets and
  the word metering modes.\<close>

definition visible_region :: "tu_sram_region \<Rightarrow> tu_sram_region" where
  "visible_region r = r\<lparr>sr_db := None, sr_banks := (sr_banks r)
     \<lparr>sb_bw_banks := None, sb_word_metering := TU_SRAM_METER_SIZE_ONLY\<rparr>\<rparr>"

definition metering_modes :: "tu_state \<Rightarrow> meter_mode list" where
  "metering_modes s = map (\<lambda>r. sb_word_metering (sr_banks r)) (tu_regions s)"

definition visible :: "tu_state \<Rightarrow> tu_state" where
  "visible s = s\<lparr>ts_sram_w := visible_region (ts_sram_w s), ts_sram_a := visible_region (ts_sram_a s),
     ts_sram_o := visible_region (ts_sram_o s), ts_cmdq := None\<rparr>"

abbreviation region_bytes :: "tu_sram_region \<Rightarrow> nat" where
  "region_bytes r \<equiv> length (sb_data (sr_banks r))"

abbreviation region_size :: "tu_sram_region \<Rightarrow> u32" where
  "region_size r \<equiv> sb_size (sr_banks r)"

text \<open>A region whose data pointer is not null, for data of the stated size.\<close>

definition present :: "tu_sram_region \<Rightarrow> bool" where
  "present r \<longleftrightarrow> region_size r \<noteq> 0 \<or> sb_bank_count (sr_banks r) \<noteq> 0"

lemma no_data_present: "region_bytes r = unat (region_size r) \<Longrightarrow> no_data (sr_banks r) \<longleftrightarrow> \<not> present r"
  unfolding no_data_def present_def by (metis length_0_conv unat_eq_0)

text \<open>The region that a successful save leaves in the context.\<close>

definition saved_region :: "tu_sram_region \<Rightarrow> u32 \<Rightarrow> tu_sram_region \<Rightarrow> tu_sram_region" where
  "saved_region src n dst = dst\<lparr>sr_banks := (copy_bank_metadata (sr_banks src) (sr_banks dst))
     \<lparr>sb_data := take (unat n) (sb_data (sr_banks src)), sb_bw_banks := None\<rparr>,
     sr_name := sr_name src, sr_db := None, sr_total_size := sr_total_size src\<rparr>"

lemma copy_freed:
  "ctx_copy_sram_data src n (ctx_free_sram_data dst) =
    (if no_data (sr_banks src) then Some (- 1, ctx_free_sram_data dst)
     else if unat n > region_bytes src then None
     else Some (0, (saved_region src n dst)\<lparr>sr_name := sr_name dst, sr_db := sr_db dst, sr_total_size := sr_total_size dst\<rparr>))"
  by (simp add: ctx_copy_sram_data_def ctx_free_sram_data_def saved_region_def copy_bank_metadata_def)

lemma label_saved:
  "label_region src ((saved_region src n dst)\<lparr>sr_name := a, sr_db := b, sr_total_size := c\<rparr>) = saved_region src n dst"
  by (simp add: label_region_def saved_region_def)

lemma saved_region_sel [simp]:
  "region_size (saved_region src n dst) = region_size src" "sb_bank_count (sr_banks (saved_region src n dst)) = sb_bank_count (sr_banks src)"
  "unat n \<le> region_bytes src \<Longrightarrow> region_bytes (saved_region src n dst) = unat n"
  by (simp_all add: saved_region_def copy_bank_metadata_def)

lemma restore_region_some:
  assumes "unat n \<le> region_bytes saved" "unat n \<le> region_bytes r"
  obtains p where "restore_region saved n r = Some p" "region_size p = region_size saved" "region_bytes p = region_bytes r"
    "sb_bank_count (sr_banks p) = sb_bank_count (sr_banks saved)"
  using assms by (simp add: restore_region_def copy_bank_metadata_def)

lemma save_restore_region:
  assumes "unat n = region_bytes src" "region_bytes phys = region_bytes src"
    and "restore_region (saved_region src n dst) n phys = Some r"
  shows "visible_region r = visible_region src \<and> sb_word_metering (sr_banks r) = sb_word_metering (sr_banks phys)"
proof -
  have "r = phys\<lparr>sr_banks := (copy_bank_metadata (sr_banks src) (sr_banks phys))
      \<lparr>sb_data := sb_data (sr_banks src)\<rparr>,
    sr_total_size := sr_total_size src, sr_name := sr_name src, sr_db := None\<rparr>"
    using assms by (simp add: restore_region_def copy_bank_metadata_def saved_region_def)
  then show ?thesis
    by (cases phys; cases src; cases "sr_banks phys"; cases "sr_banks src")
      (simp add: visible_region_def copy_bank_metadata_def)
qed

section \<open>The invariant of a manager\<close>

text \<open>A machine: buffers of their stated sizes and a queue that executes at submission.\<close>

definition machine_ok :: "tu_core \<Rightarrow> bool" where
  "machine_ok core \<longleftrightarrow> list_all (\<lambda>r. region_bytes r = unat (region_size r)) (tu_regions (co_state core)) \<and>
     (\<forall>q. ts_cmdq (co_state core) = Some q \<longrightarrow> synchronous q)"

definition has_buffers :: "tu_core \<Rightarrow> bool" where
  "has_buffers core \<longleftrightarrow> list_all present (tu_regions (co_state core))"

definition sizes :: "tu_state \<Rightarrow> u32 list" where
  "sizes s = map region_size (tu_regions s)"

text \<open>What a running context may do to the core: anything, on the same machine.\<close>

definition same_machine :: "tu_core \<Rightarrow> tu_core \<Rightarrow> bool" where
  "same_machine core core' \<longleftrightarrow> machine_ok core' \<and> sizes (co_state core') = sizes (co_state core) \<and>
     (has_buffers core \<longrightarrow> has_buffers core')"

definition saved_bytes :: "tu_context_desc \<Rightarrow> u32 list" where
  "saved_bytes ctx = [cx_saved_w_bytes ctx, cx_saved_a_bytes ctx, cx_saved_o_bytes ctx]"

definition saved_ok :: "u32 list \<Rightarrow> tu_context_desc \<Rightarrow> bool" where
  "saved_ok ns ctx \<longleftrightarrow> sizes (cx_hw_state ctx) = ns \<and> list_all present (tu_regions (cx_hw_state ctx)) \<and>
     map region_bytes (tu_regions (cx_hw_state ctx)) = map unat (saved_bytes ctx) \<and> list_all2 (\<le>) (saved_bytes ctx) ns"

definition live_ok :: "tu_ctx_manager \<Rightarrow> bool" where
  "live_ok mgr \<longleftrightarrow> cm_save_scope mgr \<noteq> TU_CTX_SAVE_LIVE_SRAM \<or>
     list_all2 (\<le>) [cm_live_w_bytes mgr, cm_live_a_bytes mgr, cm_live_o_bytes mgr] (sizes (co_state (cm_core mgr)))"

abbreviation allocated :: "tu_ctx_manager \<Rightarrow> nat set" where
  "allocated mgr \<equiv> {i. i < length (cm_contexts mgr) \<and> state_at mgr i \<noteq> TU_CTX_IDLE}"

definition ctx_inv :: "tu_ctx_manager \<Rightarrow> bool" where
  "ctx_inv mgr \<longleftrightarrow> length (cm_contexts mgr) = unat (cm_max_contexts mgr) \<and> cm_max_contexts mgr \<noteq> 0 \<and>
     machine_ok (cm_core mgr) \<and> live_ok mgr \<and> (allocated mgr \<noteq> {} \<longrightarrow> has_buffers (cm_core mgr)) \<and>
     (\<forall>i \<in> allocated mgr. saved_ok (sizes (co_state (cm_core mgr))) (cm_contexts mgr ! i)) \<and>
     (\<forall>i < length (cm_contexts mgr). state_at mgr i = TU_CTX_ACTIVE \<longrightarrow> i = unat (cm_active_ctx_id mgr)) \<and>
     unat (cm_active_count mgr) = card (allocated mgr)"

lemma core_drain_id: "machine_ok core \<Longrightarrow> core_drain core = Some core"
  by (auto simp: core_drain_def machine_ok_def tu_cmdq_sync_def split: option.split)

text \<open>Draining a core in the world is draining its queue.\<close>

lemma tu_core_sync_drain: "tu_core_sync core w = map_option (\<lambda>c. (c, w)) (core_drain core)"
  by (auto simp: tu_core_sync_def on_core_def core_swap_in_def core_swap_out_def core_drain_def
      tu_cmdq_sync_all_def option.map_comp o_def split: option.split)

lemma scope_bytes_le:
  assumes "live_ok mgr" "sizes (co_state (cm_core mgr)) = sizes s"
  shows "ctx_scope_bytes (cm_save_scope mgr) (cm_live_w_bytes mgr) (region_size (ts_sram_w s)) \<le> region_size (ts_sram_w s)"
    "ctx_scope_bytes (cm_save_scope mgr) (cm_live_a_bytes mgr) (region_size (ts_sram_a s)) \<le> region_size (ts_sram_a s)"
    "ctx_scope_bytes (cm_save_scope mgr) (cm_live_o_bytes mgr) (region_size (ts_sram_o s)) \<le> region_size (ts_sram_o s)"
  using assms by (auto simp: live_ok_def sizes_def tu_regions_def ctx_scope_bytes_def split: tu_ctx_save_scope.split)

lemma scope_bytes_fit:
  assumes "machine_ok core" "live_ok mgr" "cm_core mgr = core"
  shows "unat (ctx_scope_bytes (cm_save_scope mgr) (cm_live_w_bytes mgr) (region_size (ts_sram_w (co_state core))))
      \<le> region_bytes (ts_sram_w (co_state core))"
    "unat (ctx_scope_bytes (cm_save_scope mgr) (cm_live_a_bytes mgr) (region_size (ts_sram_a (co_state core))))
      \<le> region_bytes (ts_sram_a (co_state core))"
    "unat (ctx_scope_bytes (cm_save_scope mgr) (cm_live_o_bytes mgr) (region_size (ts_sram_o (co_state core))))
      \<le> region_bytes (ts_sram_o (co_state core))"
  using scope_bytes_le [OF assms(2), of "co_state core"] assms(1,3)
  by (simp_all add: machine_ok_def tu_regions_def word_le_nat_alt)

lemma null_regions:
  assumes "machine_ok core"
  shows "no_data (sr_banks (ts_sram_w (co_state core))) \<longleftrightarrow> \<not> present (ts_sram_w (co_state core))"
    "no_data (sr_banks (ts_sram_a (co_state core))) \<longleftrightarrow> \<not> present (ts_sram_a (co_state core))"
    "no_data (sr_banks (ts_sram_o (co_state core))) \<longleftrightarrow> \<not> present (ts_sram_o (co_state core))"
  using assms by (auto simp: machine_ok_def tu_regions_def intro!: no_data_present)

text \<open>The save of a core with all its buffers succeeds, and fails when one is missing.\<close>

lemma save_succeeds:
  assumes "machine_ok core" "live_ok mgr" "cm_core mgr = core" "has_buffers core" "s = co_state core"
    and "wb = ctx_scope_bytes (cm_save_scope mgr) (cm_live_w_bytes mgr) (region_size (ts_sram_w s))"
    and "ab = ctx_scope_bytes (cm_save_scope mgr) (cm_live_a_bytes mgr) (region_size (ts_sram_a s))"
    and "ob = ctx_scope_bytes (cm_save_scope mgr) (cm_live_o_bytes mgr) (region_size (ts_sram_o s))"
  shows "ctx_save_full_state mgr s ctx = Some (0, ctx\<lparr>cx_saved_w_bytes := wb, cx_saved_a_bytes := ab, cx_saved_o_bytes := ob,
       cx_saved_sram_bytes := ucast wb + ucast ab + ucast ob,
       cx_hw_state := (cx_hw_state ctx)\<lparr>ts_sram_w := saved_region (ts_sram_w s) wb (ts_sram_w (cx_hw_state ctx)),
         ts_sram_a := saved_region (ts_sram_a s) ab (ts_sram_a (cx_hw_state ctx)),
         ts_sram_o := saved_region (ts_sram_o s) ob (ts_sram_o (cx_hw_state ctx)),
         ts_dma := ts_dma s, ts_cmdq := ts_cmdq s, ts_dataflow := ts_dataflow s,
         ts_total_dma_bytes := ts_total_dma_bytes s, ts_total_mma_calls := ts_total_mma_calls s,
         ts_total_mma_tiles := ts_total_mma_tiles s, ts_total_mma_flops := ts_total_mma_flops s,
         ts_estimated_cycles := ts_estimated_cycles s, ts_rt_cfg := ts_rt_cfg s,
         ts_initialized := ts_initialized s\<rparr>\<rparr>)"
proof -
  have p: "present (ts_sram_w s)" "present (ts_sram_a s)" "present (ts_sram_o s)"
    using assms(4,5) by (simp_all add: has_buffers_def tu_regions_def)
  note b = scope_bytes_fit [OF assms(1-3), folded assms(5), folded assms(6-8)]
    and d = null_regions [OF assms(1), folded assms(5)]
  show ?thesis
    unfolding ctx_save_full_state_def Let_def copy_freed assms(6-8) [symmetric]
    using b d p by (simp add: label_saved not_less)
qed

lemma save_full_state:
  assumes "machine_ok core" "live_ok mgr" "cm_core mgr = core" "has_buffers core"
  obtains ctx' where "ctx_save_full_state mgr (co_state core) ctx = Some (0, ctx')"
    "saved_ok (sizes (co_state core)) ctx'" "cx_state ctx' = cx_state ctx" "cx_ctx_id ctx' = cx_ctx_id ctx"
proof -
  let ?s = "co_state core" and ?hw = "cx_hw_state ctx"
  let ?wb = "ctx_scope_bytes (cm_save_scope mgr) (cm_live_w_bytes mgr) (region_size (ts_sram_w ?s))"
  let ?ab = "ctx_scope_bytes (cm_save_scope mgr) (cm_live_a_bytes mgr) (region_size (ts_sram_a ?s))"
  let ?ob = "ctx_scope_bytes (cm_save_scope mgr) (cm_live_o_bytes mgr) (region_size (ts_sram_o ?s))"
  have le: "?wb \<le> region_size (ts_sram_w ?s)" "?ab \<le> region_size (ts_sram_a ?s)" "?ob \<le> region_size (ts_sram_o ?s)"
    using scope_bytes_le [OF assms(2), of ?s] assms(3) by simp_all
  note b = scope_bytes_fit [OF assms(1-3)]
  have p: "present (ts_sram_w ?s)" "present (ts_sram_a ?s)" "present (ts_sram_o ?s)"
    using assms(4) by (simp_all add: has_buffers_def tu_regions_def)
  have "\<exists>ctx'. ctx_save_full_state mgr ?s ctx = Some (0, ctx') \<and> saved_ok (sizes ?s) ctx' \<and>
      cx_state ctx' = cx_state ctx \<and> cx_ctx_id ctx' = cx_ctx_id ctx"
    unfolding save_succeeds [OF assms refl refl refl refl]
    using le b p by (simp add: saved_ok_def sizes_def tu_regions_def saved_bytes_def present_def)
  then show ?thesis using that by blast
qed

lemma save_fails:
  assumes "machine_ok core" "live_ok mgr" "cm_core mgr = core" "\<not> has_buffers core"
  obtains ctx' where "ctx_save_full_state mgr (co_state core) ctx = Some (- 1, ctx')"
proof -
  have "\<not> (present (ts_sram_w (co_state core)) \<and> present (ts_sram_a (co_state core)) \<and> present (ts_sram_o (co_state core)))"
    using assms(4) by (simp add: has_buffers_def tu_regions_def)
  then have "\<exists>ctx'. ctx_save_full_state mgr (co_state core) ctx = Some (- 1, ctx')"
    unfolding ctx_save_full_state_def Let_def copy_freed
    using scope_bytes_fit [OF assms(1-3)] null_regions [OF assms(1)] by (auto simp: not_less)
  then show ?thesis using that by blast
qed

lemma restore_full_state:
  assumes "saved_ok (sizes s) ctx" "list_all (\<lambda>r. region_bytes r = unat (region_size r)) (tu_regions s)"
  obtains s' where "ctx_restore_full_state ctx s = Some s'" "sizes s' = sizes s" "ts_cmdq s' = ts_cmdq s"
    "list_all (\<lambda>r. region_bytes r = unat (region_size r)) (tu_regions s')" "list_all present (tu_regions s')"
proof -
  let ?hw = "cx_hw_state ctx"
  have h: "region_size (ts_sram_w ?hw) = region_size (ts_sram_w s)" "region_size (ts_sram_a ?hw) = region_size (ts_sram_a s)"
    "region_size (ts_sram_o ?hw) = region_size (ts_sram_o s)"
    "region_bytes (ts_sram_w ?hw) = unat (cx_saved_w_bytes ctx)" "region_bytes (ts_sram_a ?hw) = unat (cx_saved_a_bytes ctx)"
    "region_bytes (ts_sram_o ?hw) = unat (cx_saved_o_bytes ctx)"
    "unat (cx_saved_w_bytes ctx) \<le> region_bytes (ts_sram_w s)" "unat (cx_saved_a_bytes ctx) \<le> region_bytes (ts_sram_a s)"
    "unat (cx_saved_o_bytes ctx) \<le> region_bytes (ts_sram_o s)"
    using assms by (simp_all add: saved_ok_def sizes_def tu_regions_def saved_bytes_def word_le_nat_alt)
  obtain w where w: "restore_region (ts_sram_w ?hw) (cx_saved_w_bytes ctx) (ts_sram_w s) = Some w"
    "region_size w = region_size (ts_sram_w ?hw)" "region_bytes w = region_bytes (ts_sram_w s)"
    "sb_bank_count (sr_banks w) = sb_bank_count (sr_banks (ts_sram_w ?hw))"
    by (rule restore_region_some [OF eq_refl [OF h(4) [symmetric]] h(7)])
  obtain a where a: "restore_region (ts_sram_a ?hw) (cx_saved_a_bytes ctx) (ts_sram_a s) = Some a"
    "region_size a = region_size (ts_sram_a ?hw)" "region_bytes a = region_bytes (ts_sram_a s)"
    "sb_bank_count (sr_banks a) = sb_bank_count (sr_banks (ts_sram_a ?hw))"
    by (rule restore_region_some [OF eq_refl [OF h(5) [symmetric]] h(8)])
  obtain out where out: "restore_region (ts_sram_o ?hw) (cx_saved_o_bytes ctx) (ts_sram_o s) = Some out"
    "region_size out = region_size (ts_sram_o ?hw)" "region_bytes out = region_bytes (ts_sram_o s)"
    "sb_bank_count (sr_banks out) = sb_bank_count (sr_banks (ts_sram_o ?hw))"
    by (rule restore_region_some [OF eq_refl [OF h(6) [symmetric]] h(9)])
  have p: "present w" "present a" "present out"
    using assms(1) w(2,4) a(2,4) out(2,4) by (simp_all add: saved_ok_def tu_regions_def present_def)
  have "\<exists>s'. ctx_restore_full_state ctx s = Some s' \<and> sizes s' = sizes s \<and> ts_cmdq s' = ts_cmdq s \<and>
      list_all (\<lambda>r. region_bytes r = unat (region_size r)) (tu_regions s') \<and> list_all present (tu_regions s')"
    using assms(2) p by (simp add: ctx_restore_full_state_def Let_def sizes_def tu_regions_def w a out h(1-3))
  then show ?thesis using that by blast
qed

section \<open>Every operation keeps the invariant\<close>

lemma ctx_inv_unaffected [simp]:
  "ctx_inv (mgr\<lparr>cm_pending_save_bytes := b\<rparr>) = ctx_inv mgr"
  "ctx_inv (mgr\<lparr>cm_slice_cycles_used := c\<rparr>) = ctx_inv mgr"
  "ctx_inv (mgr\<lparr>cm_slice_cmds_used := n\<rparr>) = ctx_inv mgr"
  "ctx_inv (mgr\<lparr>cm_total_switches := c\<rparr>) = ctx_inv mgr"
  "ctx_inv (mgr\<lparr>cm_total_cycles_stolen := c\<rparr>) = ctx_inv mgr"
  by (simp_all add: ctx_inv_def live_ok_def)

lemma same_machine_inv:
  assumes "ctx_inv mgr" "same_machine (cm_core mgr) core"
  shows "ctx_inv (mgr\<lparr>cm_core := core\<rparr>)"
  using assms by (simp add: ctx_inv_def same_machine_def live_ok_def)

lemma set_context_sel [simp]:
  "cm_core (set_context i ctx mgr) = cm_core mgr" "cm_max_contexts (set_context i ctx mgr) = cm_max_contexts mgr"
  "cm_active_ctx_id (set_context i ctx mgr) = cm_active_ctx_id mgr"
  "cm_active_count (set_context i ctx mgr) = cm_active_count mgr"
  "cm_save_scope (set_context i ctx mgr) = cm_save_scope mgr"
  "live_ok (set_context i ctx mgr) = live_ok mgr"
  "cm_contexts (set_context i ctx mgr) = (cm_contexts mgr)[i := ctx]"
  by (simp_all add: set_context_def live_ok_def)

lemma set_context_at [simp]:
  "i < length (cm_contexts mgr) \<Longrightarrow> cm_contexts (set_context i ctx mgr) ! i = ctx"
  "i \<noteq> j \<Longrightarrow> cm_contexts (set_context i ctx mgr) ! j = cm_contexts mgr ! j"
  by simp_all

lemma allocated_set:
  "i < length (cm_contexts mgr) \<Longrightarrow> allocated (set_context i ctx mgr) =
    (if cx_state ctx = TU_CTX_IDLE then allocated mgr - {i} else insert i (allocated mgr))"
  by (auto simp: nth_list_update split: if_splits)

text \<open>A context that stays allocated and does not become active.\<close>

lemma set_context_inv:
  assumes "ctx_inv mgr" "i \<in> allocated mgr" "saved_ok (sizes (co_state (cm_core mgr))) ctx"
    and "cx_state ctx \<noteq> TU_CTX_IDLE" "cx_state ctx \<noteq> TU_CTX_ACTIVE"
  shows "ctx_inv (set_context i ctx mgr)"
proof -
  have i: "i < length (cm_contexts mgr)" using assms(2) by simp
  have a: "allocated (set_context i ctx mgr) = allocated mgr"
    unfolding allocated_set [OF i] using assms(2,4) by auto
  have "saved_ok (sizes (co_state (cm_core mgr))) (cm_contexts (set_context i ctx mgr) ! j)" if "j \<in> allocated mgr" for j
    using that assms(1,3) i by (cases "j = i") (auto simp: ctx_inv_def)
  moreover have "j = unat (cm_active_ctx_id mgr)"
    if "j < length (cm_contexts mgr)" "state_at (set_context i ctx mgr) j = TU_CTX_ACTIVE" for j
    using that assms(1,5) i by (cases "j = i") (auto simp: ctx_inv_def)
  ultimately show ?thesis
    using assms(1) unfolding ctx_inv_def a set_context_sel(1-6) by (simp only: set_context_sel(7) length_list_update) simp
qed

text \<open>A context that becomes the active one when no other is.\<close>

lemma activate_inv:
  assumes "ctx_inv mgr" "i \<in> allocated mgr" "saved_ok (sizes (co_state (cm_core mgr))) ctx" "cx_state ctx = TU_CTX_ACTIVE"
    and "\<And>j. j < length (cm_contexts mgr) \<Longrightarrow> j \<noteq> i \<Longrightarrow> state_at mgr j \<noteq> TU_CTX_ACTIVE" "unat a = i"
  shows "ctx_inv ((set_context i ctx mgr)\<lparr>cm_active_ctx_id := a\<rparr>)"
proof -
  have i: "i < length (cm_contexts mgr)" using assms(2) by simp
  have a: "allocated (set_context i ctx mgr) = allocated mgr"
    unfolding allocated_set [OF i] using assms(2,4) by auto
  have "saved_ok (sizes (co_state (cm_core mgr))) (cm_contexts (set_context i ctx mgr) ! j)" if "j \<in> allocated mgr" for j
    using that assms(1,3) i by (cases "j = i") (auto simp: ctx_inv_def)
  moreover have "j = i" if "j < length (cm_contexts mgr)" "state_at (set_context i ctx mgr) j = TU_CTX_ACTIVE" for j
    using that assms(5) by (cases "j = i") auto
  moreover have "live_ok (mgr\<lparr>cm_contexts := cs, cm_active_ctx_id := a\<rparr>) = live_ok mgr" for cs by (simp add: live_ok_def)
  ultimately show ?thesis
    using assms(1,6) a i by (simp add: ctx_inv_def set_context_def)
qed

lemma ctx_save_some:
  assumes "ctx_inv mgr" "i = unat (cm_active_ctx_id mgr)" "i < length (cm_contexts mgr)" "state_at mgr i = TU_CTX_ACTIVE"
  obtains ctx where "tu_ctx_save mgr = Some (0, (set_context i ctx mgr)\<lparr>cm_pending_save_bytes := cx_saved_sram_bytes ctx\<rparr>)"
    "ctx_inv (set_context i ctx mgr)" "cx_state ctx = TU_CTX_READY"
    "ctx_save_full_state mgr (co_state (cm_core mgr)) (cm_contexts mgr ! i) =
       Some (0, ctx\<lparr>cx_state := TU_CTX_ACTIVE, cx_total_cycles := cx_total_cycles (cm_contexts mgr ! i)\<rparr>)"
proof -
  let ?s = "co_state (cm_core mgr)" and ?c = "cm_contexts mgr ! i"
  have m: "machine_ok (cm_core mgr)" "live_ok mgr" "cm_active_ctx_id mgr < cm_max_contexts mgr"
    using assms(1-3) by (simp_all add: ctx_inv_def word_less_nat_alt)
  have h: "has_buffers (cm_core mgr)" using assms(1,3,4) by (auto simp: ctx_inv_def)
  obtain c where c: "ctx_save_full_state mgr ?s ?c = Some (0, c)" "saved_ok (sizes ?s) c" "cx_state c = cx_state ?c"
    by (rule save_full_state [OF m(1,2) refl h])
  have t: "cx_total_cycles c = cx_total_cycles ?c"
    using c(1) unfolding save_succeeds [OF m(1,2) refl h refl refl refl refl] by auto
  let ?ctx = "c\<lparr>cx_state := TU_CTX_READY, cx_total_cycles := cx_total_cycles c +
                (ts_estimated_cycles ?s - cx_last_switch_cycle c)\<rparr>"
  have "tu_ctx_save mgr = Some (0, (set_context i ?ctx mgr)\<lparr>cm_pending_save_bytes := cx_saved_sram_bytes ?ctx\<rparr>)"
    using m(3) assms(2,4) c(1) by (simp add: tu_ctx_save_def core_drain_id [OF m(1)] not_le Let_def)
  moreover have "ctx_inv (set_context i ?ctx mgr)"
    using c(2) assms(3,4) by (intro set_context_inv [OF assms(1)]) (auto simp: saved_ok_def saved_bytes_def)
  moreover have "c = ?ctx\<lparr>cx_state := TU_CTX_ACTIVE, cx_total_cycles := cx_total_cycles ?c\<rparr>"
    using c(3) assms(4) t by (cases c) simp
  ultimately show ?thesis using c(1) by (intro that [of ?ctx]) simp_all
qed

lemma ctx_save_inactive: "state_at mgr (unat (cm_active_ctx_id mgr)) \<noteq> TU_CTX_ACTIVE \<Longrightarrow> tu_ctx_save mgr = Some (- 1, mgr)"
  by (simp add: tu_ctx_save_def)

lemma ctx_restore_some:
  assumes "ctx_inv mgr" "i = unat c" "i < length (cm_contexts mgr)" "state_at mgr i = TU_CTX_READY"
    and "\<And>j. j < length (cm_contexts mgr) \<Longrightarrow> state_at mgr j \<noteq> TU_CTX_ACTIVE"
  obtains mgr' where "tu_ctx_restore c mgr = Some (0, mgr')" "ctx_inv mgr'"
    "ctx_restore_full_state (cm_contexts mgr ! i) (co_state (cm_core mgr)) = Some (co_state (cm_core mgr'))"
    "same_machine (cm_core mgr) (cm_core mgr')" "cm_active_ctx_id mgr' = c"
    "cm_save_scope mgr' = cm_save_scope mgr" "length (cm_contexts mgr') = length (cm_contexts mgr)"
    "state_at mgr' i = TU_CTX_ACTIVE" "\<forall>j. j \<noteq> i \<longrightarrow> cm_contexts mgr' ! j = cm_contexts mgr ! j"
proof -
  let ?ctx = "cm_contexts mgr ! i" and ?s = "co_state (cm_core mgr)"
  have m: "machine_ok (cm_core mgr)" "c < cm_max_contexts mgr" "saved_ok (sizes ?s) ?ctx"
    using assms(1-4) by (auto simp: ctx_inv_def word_less_nat_alt)
  obtain s' where s: "ctx_restore_full_state ?ctx ?s = Some s'" "sizes s' = sizes ?s" "ts_cmdq s' = ts_cmdq ?s"
    "list_all (\<lambda>r. region_bytes r = unat (region_size r)) (tu_regions s')" "list_all present (tu_regions s')"
    using restore_full_state [OF m(3)] m(1) unfolding machine_ok_def by blast
  let ?core = "(cm_core mgr)\<lparr>co_state := s'\<rparr>"
  let ?new = "?ctx\<lparr>cx_state := TU_CTX_ACTIVE, cx_switch_count := cx_switch_count ?ctx + 1,
    cx_last_switch_cycle := ts_estimated_cycles s'\<rparr>"
  let ?m = "(set_context i ?new (mgr\<lparr>cm_core := ?core\<rparr>))\<lparr>cm_active_ctx_id := c\<rparr>"
  let ?mgr = "?m\<lparr>cm_total_switches := cm_total_switches mgr + 1,
     cm_total_cycles_stolen := cm_total_cycles_stolen mgr + switch_cycles mgr ?ctx,
     cm_pending_save_bytes := 0, cm_slice_cycles_used := 0, cm_slice_cmds_used := 0\<rparr>"
  have same: "same_machine (cm_core mgr) ?core" using s(2-5) m(1) by (simp add: same_machine_def machine_ok_def has_buffers_def)
  have "tu_ctx_restore c mgr = Some (0, ?mgr)"
    using m(2) assms(2,4) s(1) by (simp add: tu_ctx_restore_def Let_def set_context_def not_le)
  moreover have "ctx_inv ?m"
  proof (rule activate_inv [OF same_machine_inv [OF assms(1) same]])
    show "i \<in> allocated (mgr\<lparr>cm_core := ?core\<rparr>)" using assms(3,4) by simp
    show "saved_ok (sizes (co_state (cm_core (mgr\<lparr>cm_core := ?core\<rparr>)))) ?new"
      using m(3) s(2) by (simp add: saved_ok_def saved_bytes_def)
  qed (use assms(2,5) in simp_all)
  ultimately show ?thesis
    using s(1) same assms(3) by (intro that [of ?mgr]) (simp_all add: set_context_def)
qed

lemma ctx_switch_some:
  assumes "ctx_inv mgr" "a = unat (cm_active_ctx_id mgr)" "a < length (cm_contexts mgr)" "state_at mgr a = TU_CTX_ACTIVE"
    and "i = unat c" "i < length (cm_contexts mgr)" "state_at mgr i = TU_CTX_READY"
  obtains ctx mgr' where "tu_ctx_switch c mgr = Some (0, mgr')" "ctx_inv mgr'" "same_machine (cm_core mgr) (cm_core mgr')"
    "cm_active_ctx_id mgr' = c" "state_at mgr' i = TU_CTX_ACTIVE" "length (cm_contexts mgr') = length (cm_contexts mgr)"
    "cm_save_scope mgr' = cm_save_scope mgr"
    "ctx_restore_full_state (cm_contexts mgr ! i) (co_state (cm_core mgr)) = Some (co_state (cm_core mgr'))"
    "cm_contexts mgr' ! a = ctx" "cx_state ctx = TU_CTX_READY"
    "ctx_save_full_state mgr (co_state (cm_core mgr)) (cm_contexts mgr ! a) =
       Some (0, ctx\<lparr>cx_state := TU_CTX_ACTIVE, cx_total_cycles := cx_total_cycles (cm_contexts mgr ! a)\<rparr>)"
proof -
  obtain ctx where s: "tu_ctx_save mgr = Some (0, (set_context a ctx mgr)\<lparr>cm_pending_save_bytes := cx_saved_sram_bytes ctx\<rparr>)"
    "ctx_inv (set_context a ctx mgr)" "cx_state ctx = TU_CTX_READY"
    "ctx_save_full_state mgr (co_state (cm_core mgr)) (cm_contexts mgr ! a) =
       Some (0, ctx\<lparr>cx_state := TU_CTX_ACTIVE, cx_total_cycles := cx_total_cycles (cm_contexts mgr ! a)\<rparr>)"
    by (rule ctx_save_some [OF assms(1-4)])
  let ?m = "(set_context a ctx mgr)\<lparr>cm_pending_save_bytes := cx_saved_sram_bytes ctx\<rparr>"
  have ne: "i \<noteq> a" using assms(4,7) by auto
  have na: "state_at ?m j \<noteq> TU_CTX_ACTIVE" if "j < length (cm_contexts ?m)" for j
  proof (cases "j = a")
    case False
    then show ?thesis using assms(1,2) that by (auto simp: ctx_inv_def)
  qed (simp add: s(3) assms(3))
  have i: "i < length (cm_contexts ?m)" "state_at ?m i = TU_CTX_READY" using assms(6,7) ne by simp_all
  have inv: "ctx_inv ?m" using s(2) by simp
  obtain mgr' where r: "tu_ctx_restore c ?m = Some (0, mgr')" "ctx_inv mgr'"
    "ctx_restore_full_state (cm_contexts ?m ! i) (co_state (cm_core ?m)) = Some (co_state (cm_core mgr'))"
    "same_machine (cm_core ?m) (cm_core mgr')" "cm_active_ctx_id mgr' = c"
    "cm_save_scope mgr' = cm_save_scope ?m" "length (cm_contexts mgr') = length (cm_contexts ?m)"
    "state_at mgr' i = TU_CTX_ACTIVE" "\<forall>j. j \<noteq> i \<longrightarrow> cm_contexts mgr' ! j = cm_contexts ?m ! j"
    by (rule ctx_restore_some [OF inv assms(5) i na])
  have "cm_active_ctx_id mgr < cm_max_contexts mgr"
    using assms(1-3) by (simp add: ctx_inv_def word_less_nat_alt)
  then have sw: "tu_ctx_switch c mgr = Some (0, mgr')"
    using assms(2,4) s(1) r(1) by (simp add: tu_ctx_switch_def)
  have ctx: "cm_contexts mgr' ! a = ctx" using r(9) ne assms(3) by simp
  have re: "ctx_restore_full_state (cm_contexts mgr ! i) (co_state (cm_core mgr)) = Some (co_state (cm_core mgr'))"
    using r(3) ne by simp
  have same: "same_machine (cm_core mgr) (cm_core mgr')" using r(4) by simp
  have rest: "length (cm_contexts mgr') = length (cm_contexts mgr)" "cm_save_scope mgr' = cm_save_scope mgr"
    using r(6,7) by simp_all
  show ?thesis by (rule that [OF sw r(2) same r(5) r(8) rest re ctx s(3,4)])
qed

lemma ctx_restore_keeps:
  assumes "ctx_inv mgr" "\<And>j. j < length (cm_contexts mgr) \<Longrightarrow> state_at mgr j \<noteq> TU_CTX_ACTIVE"
    and "tu_ctx_restore c mgr = Some (r, mgr')"
  shows "ctx_inv mgr'"
proof (cases "unat c < length (cm_contexts mgr) \<and> state_at mgr (unat c) = TU_CTX_READY")
  case True
  then have l: "unat c < length (cm_contexts mgr)" "state_at mgr (unat c) = TU_CTX_READY" by simp_all
  obtain m where "tu_ctx_restore c mgr = Some (0, m)" "ctx_inv m"
    by (rule ctx_restore_some [OF assms(1) refl l assms(2)])
  then show ?thesis using assms(3) by simp
next
  case False
  then have "tu_ctx_restore c mgr = Some (- 1, mgr)"
    using assms(1) by (auto simp: tu_ctx_restore_def Let_def ctx_inv_def word_le_nat_alt)
  then show ?thesis using assms(1,3) by simp
qed

lemma ctx_switch_keeps:
  assumes "ctx_inv mgr" "tu_ctx_switch c mgr = Some (r, mgr')"
  shows "ctx_inv mgr'"
proof -
  define a where "a = unat (cm_active_ctx_id mgr)"
  show ?thesis
  proof (cases "a < length (cm_contexts mgr) \<and> state_at mgr a = TU_CTX_ACTIVE")
    case True
    then have l: "a < length (cm_contexts mgr)" "state_at mgr a = TU_CTX_ACTIVE" by simp_all
    obtain ctx where s: "tu_ctx_save mgr = Some (0, (set_context a ctx mgr)\<lparr>cm_pending_save_bytes := cx_saved_sram_bytes ctx\<rparr>)"
      "ctx_inv (set_context a ctx mgr)" "cx_state ctx = TU_CTX_READY"
      by (rule ctx_save_some [OF assms(1) a_def l])
    let ?m = "(set_context a ctx mgr)\<lparr>cm_pending_save_bytes := cx_saved_sram_bytes ctx\<rparr>"
    have na: "state_at ?m j \<noteq> TU_CTX_ACTIVE" if "j < length (cm_contexts ?m)" for j
    proof (cases "j = a")
      case False
      then show ?thesis using assms(1) a_def that by (auto simp: ctx_inv_def)
    qed (simp add: s(3) l(1))
    have inv: "ctx_inv ?m" using s(2) by simp
    have "cm_active_ctx_id mgr < cm_max_contexts mgr"
      using assms(1) l(1) by (simp add: a_def ctx_inv_def word_less_nat_alt)
    then have "tu_ctx_restore c ?m = Some (r, mgr')"
      using l(2) s(1) assms(2) by (simp add: tu_ctx_switch_def a_def)
    then show ?thesis using na by (intro ctx_restore_keeps [OF inv])
  next
    case False
    then have na: "state_at mgr j \<noteq> TU_CTX_ACTIVE" if "j < length (cm_contexts mgr)" for j
      using assms(1) that unfolding a_def by (auto simp: ctx_inv_def)
    have "tu_ctx_restore c mgr = Some (r, mgr')"
      using False assms unfolding a_def by (auto simp: tu_ctx_switch_def ctx_inv_def word_less_nat_alt)
    then show ?thesis using na by (intro ctx_restore_keeps [OF assms(1)])
  qed
qed

lemma ctx_save_keeps:
  assumes "ctx_inv mgr" "tu_ctx_save mgr = Some (r, mgr')"
  shows "ctx_inv mgr' \<and> (r = 0 \<longrightarrow> state_at mgr' (unat (cm_active_ctx_id mgr')) = TU_CTX_READY \<and>
    unat (cm_active_ctx_id mgr') < length (cm_contexts mgr')) \<and> (r \<noteq> 0 \<longrightarrow> mgr' = mgr)"
proof (cases "unat (cm_active_ctx_id mgr) < length (cm_contexts mgr) \<and> state_at mgr (unat (cm_active_ctx_id mgr)) = TU_CTX_ACTIVE")
  case True
  then obtain ctx where "tu_ctx_save mgr = Some (0, (set_context (unat (cm_active_ctx_id mgr)) ctx mgr)
      \<lparr>cm_pending_save_bytes := cx_saved_sram_bytes ctx\<rparr>)"
    "ctx_inv (set_context (unat (cm_active_ctx_id mgr)) ctx mgr)" "cx_state ctx = TU_CTX_READY"
    using ctx_save_some [OF assms(1) refl] by blast
  then show ?thesis using assms(2) True by auto
next
  case False
  then have "tu_ctx_save mgr = Some (- 1, mgr)"
    using assms(1) by (auto simp: tu_ctx_save_def Let_def ctx_inv_def word_le_nat_alt)
  then show ?thesis using assms by simp
qed

lemma set_state_inv:
  assumes "ctx_inv mgr" "i \<in> allocated mgr" "st \<noteq> TU_CTX_IDLE" "st \<noteq> TU_CTX_ACTIVE"
  shows "ctx_inv (set_state i st mgr)"
proof -
  have "saved_ok (sizes (co_state (cm_core mgr))) (cm_contexts mgr ! i)" using assms(1,2) by (simp add: ctx_inv_def)
  then show ?thesis unfolding set_state_def
    by (intro set_context_inv [OF assms(1,2)]) (use assms(3,4) in \<open>simp_all add: saved_ok_def saved_bytes_def\<close>)
qed

lemma ctx_block_keeps: "ctx_inv mgr \<Longrightarrow> tu_ctx_block_current mgr = Some (r, mgr') \<Longrightarrow> ctx_inv mgr'"
  using ctx_save_keeps [of mgr]
  by (fastforce simp: tu_ctx_block_current_def bind_eq_Some_conv intro: set_state_inv split: if_splits prod.splits)

lemma ctx_unblock_keeps: "ctx_inv mgr \<Longrightarrow> ctx_inv (snd (tu_ctx_unblock c mgr))"
  by (auto simp: tu_ctx_unblock_def word_le_nat_alt not_le intro!: set_state_inv) (simp add: ctx_inv_def)

section \<open>Allocation and release\<close>

lemma count_bound: "ctx_inv mgr \<Longrightarrow> card (allocated mgr) \<le> unat (cm_max_contexts mgr)"
  using card_mono [of "{..<unat (cm_max_contexts mgr)}" "allocated mgr"] by (auto simp: ctx_inv_def)

text \<open>An allocation takes a slot, or changes at most an idle slot, which stays idle.\<close>

lemma ctx_alloc_some:
  assumes "ctx_inv mgr" "tu_ctx_alloc mgr = Some (r, mgr')"
  obtains (taken) i ctx where "i < length (cm_contexts mgr)" "state_at mgr i = TU_CTX_IDLE" "r = sint (of_nat i :: u32)"
    "cx_state ctx = (if cm_active_count mgr = 0 then TU_CTX_ACTIVE else TU_CTX_READY)"
    "mgr' = (set_context i ctx mgr)\<lparr>cm_active_count := cm_active_count mgr + 1,
       cm_active_ctx_id := (if cm_active_count mgr = 0 then of_nat i else cm_active_ctx_id mgr)\<rparr>"
    "saved_ok (sizes (co_state (cm_core mgr))) ctx" "has_buffers (cm_core mgr)"
  | (refused) i ctx where "r = - 1" "i < length (cm_contexts mgr)" "state_at mgr i = TU_CTX_IDLE"
    "cx_state ctx = TU_CTX_IDLE" "mgr' = set_context i ctx mgr"
  | (full) "r = - 1" "mgr' = mgr"
proof (cases "List.find (\<lambda>i. state_at mgr i = TU_CTX_IDLE) [0..<unat (cm_max_contexts mgr)]")
  case None
  then show ?thesis using assms(2) by (intro full) (simp_all add: tu_ctx_alloc_def)
next
  case (Some i)
  have l: "length (cm_contexts mgr) = unat (cm_max_contexts mgr)" "machine_ok (cm_core mgr)" "live_ok mgr"
    using assms(1) by (simp_all add: ctx_inv_def)
  have f: "i < length (cm_contexts mgr)" "state_at mgr i = TU_CTX_IDLE"
    using Some l(1) by (auto simp: find_Some_iff)
  let ?b = "blank_context\<lparr>cx_ctx_id := of_nat i, cx_state := TU_CTX_READY, cx_priority := 128\<rparr>"
  show ?thesis
  proof (cases "has_buffers (cm_core mgr)")
    case True
    obtain ctx where c: "ctx_save_full_state mgr (co_state (cm_core mgr)) ?b = Some (0, ctx)"
      "saved_ok (sizes (co_state (cm_core mgr))) ctx" "cx_state ctx = cx_state ?b"
      by (rule save_full_state [OF l(2,3) refl True])
    let ?ctx = "if cm_active_count mgr = 0 then ctx\<lparr>cx_state := TU_CTX_ACTIVE\<rparr> else ctx"
    show ?thesis
    proof (rule taken [OF f, of ?ctx])
      show "mgr' = (set_context i ?ctx mgr)\<lparr>cm_active_count := cm_active_count mgr + 1,
         cm_active_ctx_id := (if cm_active_count mgr = 0 then of_nat i else cm_active_ctx_id mgr)\<rparr>"
        using assms(2) Some c(1) by (auto simp: tu_ctx_alloc_def Let_def set_context_def)
    qed (use assms(2) Some c True in \<open>auto simp: tu_ctx_alloc_def Let_def saved_ok_def saved_bytes_def\<close>)
  next
    case False
    obtain ctx where "ctx_save_full_state mgr (co_state (cm_core mgr)) ?b = Some (- 1, ctx)"
      by (rule save_fails [OF l(2,3) refl False])
    then show ?thesis using assms(2) Some f
      by (intro refused [of i "ctx\<lparr>cx_state := TU_CTX_IDLE\<rparr>"]) (simp_all add: tu_ctx_alloc_def)
  qed
qed

lemma idle_slot_inv:
  assumes "ctx_inv mgr" "i < length (cm_contexts mgr)" "state_at mgr i = TU_CTX_IDLE" "cx_state ctx = TU_CTX_IDLE"
  shows "ctx_inv (set_context i ctx mgr)"
proof -
  have al: "allocated (set_context i ctx mgr) = allocated mgr"
    unfolding allocated_set [OF assms(2)] using assms(3,4) by auto
  have "saved_ok (sizes (co_state (cm_core mgr))) (cm_contexts (set_context i ctx mgr) ! j)" if "j \<in> allocated mgr" for j
    using that assms(1,3) by (cases "j = i") (auto simp: ctx_inv_def)
  moreover have "j = unat (cm_active_ctx_id mgr)"
    if "j < length (cm_contexts mgr)" "state_at (set_context i ctx mgr) j = TU_CTX_ACTIVE" for j
    using that assms by (cases "j = i") (auto simp: ctx_inv_def)
  ultimately show ?thesis
    using assms(1) unfolding ctx_inv_def al set_context_sel(1-6) by (simp only: set_context_sel(7) length_list_update) simp
qed

lemma ctx_alloc_keeps:
  assumes "ctx_inv mgr" "tu_ctx_alloc mgr = Some (r, mgr')"
  shows "ctx_inv mgr'"
  using assms
proof (cases rule: ctx_alloc_some)
  case (taken i ctx)
  note a = taken(1,2,4,5,6)
  have l: "length (cm_contexts mgr) = unat (cm_max_contexts mgr)" using assms(1) by (simp add: ctx_inv_def)
  have i32: "unat (of_nat i :: u32) = i"
    using a(1) l unat_u32_less [of "cm_max_contexts mgr"] by (intro unat_of_nat_u32) linarith
  have al: "allocated mgr' = insert i (allocated mgr)" using a(1,3) by (auto simp: a(4) nth_list_update split: if_splits)
  have nin: "i \<notin> allocated mgr" using a(2) by simp
  have fin: "finite (allocated mgr)" by simp
  have card: "card (allocated mgr') = card (allocated mgr) + 1" unfolding al using nin by simp
  have "allocated mgr' \<subseteq> {..<unat (cm_max_contexts mgr)}" using a(1) l unfolding al by auto
  then have "card (allocated mgr') \<le> unat (cm_max_contexts mgr)" using card_mono [of "{..<unat (cm_max_contexts mgr)}"] by fastforce
  then have "card (allocated mgr) + 1 < 4294967296" using card unat_u32_less [of "cm_max_contexts mgr"] by linarith
  then have cnt: "unat (cm_active_count mgr') = card (allocated mgr')"
    using assms(1) card unfolding ctx_inv_def a(4) by (simp add: u32_add_exact)
  have saved: "saved_ok (sizes (co_state (cm_core mgr'))) (cm_contexts mgr' ! j)" if "j \<in> allocated mgr'" for j
    using that assms(1) a(1,5) unfolding al by (cases "j = i") (auto simp: ctx_inv_def a(4))
  have act: "j = unat (cm_active_ctx_id mgr')" if "j < length (cm_contexts mgr')" "state_at mgr' j = TU_CTX_ACTIVE" for j
  proof (cases "cm_active_count mgr = 0")
    case True
    then have "allocated mgr = {}" using assms(1) by (simp add: ctx_inv_def)
    then have "state_at mgr k = TU_CTX_IDLE" if "k < length (cm_contexts mgr)" for k using that by blast
    then have "j = i" using that by (cases "j = i") (auto simp: a(4))
    then show ?thesis using True i32 by (simp add: a(4))
  next
    case False
    then show ?thesis using that assms(1) a(3) by (cases "j = i") (auto simp: a(1,4) ctx_inv_def)
  qed
  have "live_ok mgr'" using assms(1) by (simp add: a(4) ctx_inv_def live_ok_def set_context_def)
  moreover have "has_buffers (cm_core mgr')" using taken(7) by (simp add: a(4))
  ultimately show ?thesis using assms(1) cnt saved act unfolding ctx_inv_def by (simp add: a(4))
next
  case (refused i ctx)
  then show ?thesis using idle_slot_inv [OF assms(1)] by simp
qed (use assms in simp)

lemma release_inv:
  assumes "ctx_inv mgr" "i \<in> allocated mgr" "state_at mgr i \<noteq> TU_CTX_ACTIVE" "cx_state ctx = TU_CTX_IDLE"
  shows "ctx_inv ((set_context i ctx mgr)\<lparr>cm_active_count := (if cm_active_count mgr > 0 then cm_active_count mgr - 1 else 0)\<rparr>)"
proof -
  let ?m = "(set_context i ctx mgr)\<lparr>cm_active_count := (if cm_active_count mgr > 0 then cm_active_count mgr - 1 else 0)\<rparr>"
  have i: "i < length (cm_contexts mgr)" using assms(2) by simp
  have al: "allocated ?m = allocated mgr - {i}" using i assms(4) by (auto simp: nth_list_update split: if_splits)
  have c: "unat (cm_active_count mgr) = card (allocated mgr)" using assms(1) by (simp add: ctx_inv_def)
  have pos: "0 < card (allocated mgr)" using assms(2) by (auto simp: card_gt_0_iff)
  have "cm_active_count mgr \<noteq> 0" using c pos by (metis less_irrefl unat_0)
  then have "unat (cm_active_count ?m) = card (allocated ?m)"
    unfolding al using assms(2) c by (simp add: word_gt_0 unat_minus_one card_Diff_singleton)
  moreover have "saved_ok (sizes (co_state (cm_core ?m))) (cm_contexts ?m ! j)" if "j \<in> allocated ?m" for j
    using that assms(1) unfolding al by (auto simp: ctx_inv_def)
  moreover have "j = unat (cm_active_ctx_id mgr)" if "j < length (cm_contexts mgr)" "state_at ?m j = TU_CTX_ACTIVE" for j
    using that assms(1,4) i by (cases "j = i") (auto simp: ctx_inv_def)
  moreover have "live_ok ?m" using assms(1) by (simp add: ctx_inv_def live_ok_def set_context_def)
  moreover have "has_buffers (cm_core ?m)" using assms(1,2) by (auto simp: ctx_inv_def)
  ultimately show ?thesis using assms(1) unfolding ctx_inv_def by simp
qed

lemma ctx_free_keeps:
  assumes "ctx_inv mgr" "tu_ctx_get mgr c \<noteq> None" "tu_ctx_free c mgr = Some mgr'"
  shows "ctx_inv mgr'"
proof -
  define i where "i = unat c"
  have c: "c < cm_max_contexts mgr" "state_at mgr i \<noteq> TU_CTX_IDLE"
    using assms(2) by (auto simp: tu_ctx_get_def i_def not_le split: if_splits)
  have nc: "\<not> cm_max_contexts mgr \<le> c" using c(1) by (simp add: not_le)
  have l: "i < length (cm_contexts mgr)" using c(1) assms(1) by (simp add: ctx_inv_def i_def word_less_nat_alt)
  let ?blank = "blank_context\<lparr>cx_ctx_id := c, cx_state := TU_CTX_IDLE\<rparr>"
  have b: "cx_state ?blank = TU_CTX_IDLE" by simp
  show ?thesis
  proof (cases "state_at mgr i = TU_CTX_ACTIVE")
    case True
    have a: "i = unat (cm_active_ctx_id mgr)" using assms(1) l True by (simp add: ctx_inv_def)
    obtain ctx where s: "tu_ctx_save mgr = Some (0, (set_context i ctx mgr)\<lparr>cm_pending_save_bytes := cx_saved_sram_bytes ctx\<rparr>)"
      "ctx_inv (set_context i ctx mgr)" "cx_state ctx = TU_CTX_READY"
      by (rule ctx_save_some [OF assms(1) a l True])
    let ?m = "(set_context i ctx mgr)\<lparr>cm_pending_save_bytes := cx_saved_sram_bytes ctx\<rparr>"
    have m: "ctx_inv ?m" "i \<in> allocated ?m" "state_at ?m i \<noteq> TU_CTX_ACTIVE" using s(2,3) l by simp_all
    show ?thesis using release_inv [OF m b] assms(3) nc True s(1,3) l
      by (simp add: tu_ctx_free_def Let_def i_def [symmetric])
  next
    case False
    have m: "i \<in> allocated mgr" using c(2) l by simp
    show ?thesis using release_inv [OF assms(1) m False b] assms(3) nc False
      by (simp add: tu_ctx_free_def Let_def i_def [symmetric])
  qed
qed

lemma ctx_create_inv:
  assumes "machine_ok core" "tu_ctx_manager_create core cfg = Some mgr"
  shows "ctx_inv mgr"
proof -
  have m: "cm_contexts mgr = map (\<lambda>i. blank_context\<lparr>cx_ctx_id := of_nat i, cx_state := TU_CTX_IDLE, cx_priority := 128\<rparr>)
      [0..<unat (cc_max_contexts cfg)]" "cm_max_contexts mgr = cc_max_contexts cfg" "cm_active_count mgr = 0" "cm_core mgr = core"
    "tu_ctx_manager_config_validate core cfg = 0"
    using assms(2) by (auto simp: tu_ctx_manager_create_def split: if_splits)
  have idle: "state_at mgr i = TU_CTX_IDLE" if "i < length (cm_contexts mgr)" for i
    using that by (simp add: m(1))
  then have none: "allocated mgr = {}" by auto
  have "live_ok mgr" "cc_max_contexts cfg \<noteq> 0"
    using assms(2) m(5) by (auto simp: tu_ctx_manager_create_def tu_ctx_manager_config_validate_def live_ok_def
      sizes_def tu_regions_def Let_def not_less split: if_splits)
  then show ?thesis using m(1-4) assms(1) idle unfolding ctx_inv_def none by simp
qed

section \<open>Reachable managers\<close>

text \<open>What a caller does to set the priority of a context: \<open>tu_ctx_get (mgr, c)->priority = p\<close>.\<close>

definition set_priority :: "u32 \<Rightarrow> u8 \<Rightarrow> tu_ctx_manager \<Rightarrow> tu_ctx_manager" where
  "set_priority c p mgr = set_context (unat c) ((cm_contexts mgr ! unat c)\<lparr>cx_priority := p\<rparr>) mgr"

lemma set_priority_keeps:
  assumes "ctx_inv mgr"
  shows "ctx_inv (set_priority c p mgr)"
proof -
  have st: "cx_state (cm_contexts (set_priority c p mgr) ! j) = state_at mgr j"
    and ok: "saved_ok ns (cm_contexts (set_priority c p mgr) ! j) = saved_ok ns (cm_contexts mgr ! j)" for j ns
    by (cases "j = unat c \<and> j < length (cm_contexts mgr)";
        auto simp: set_priority_def nth_list_update saved_ok_def saved_bytes_def list_update_beyond)+
  have f: "cm_core (set_priority c p mgr) = cm_core mgr" "cm_max_contexts (set_priority c p mgr) = cm_max_contexts mgr"
    "cm_active_ctx_id (set_priority c p mgr) = cm_active_ctx_id mgr" "live_ok (set_priority c p mgr) = live_ok mgr"
    "cm_active_count (set_priority c p mgr) = cm_active_count mgr"
    "length (cm_contexts (set_priority c p mgr)) = length (cm_contexts mgr)"
    by (simp_all add: set_priority_def)
  show ?thesis using assms unfolding ctx_inv_def st ok f .
qed

text \<open>
  One call on a manager, the active context running on its core, or a caller setting the priority of a
  context. A caller frees an identifier only while it names a context, and restores directly only
  while no context is active.
\<close>

inductive ctx_step :: "tu_ctx_manager \<Rightarrow> tu_ctx_manager \<Rightarrow> bool" where
  alloc: "tu_ctx_alloc mgr = Some (r, mgr') \<Longrightarrow> ctx_step mgr mgr'"
| free: "tu_ctx_get mgr c \<noteq> None \<Longrightarrow> tu_ctx_free c mgr = Some mgr' \<Longrightarrow> ctx_step mgr mgr'"
| save: "tu_ctx_save mgr = Some (r, mgr') \<Longrightarrow> ctx_step mgr mgr'"
| restore: "list_all (\<lambda>ctx. cx_state ctx \<noteq> TU_CTX_ACTIVE) (cm_contexts mgr) \<Longrightarrow>
    tu_ctx_restore c mgr = Some (r, mgr') \<Longrightarrow> ctx_step mgr mgr'"
| switch: "tu_ctx_switch c mgr = Some (r, mgr') \<Longrightarrow> ctx_step mgr mgr'"
| request: "tu_ctx_request_switch mgr = Some (r, mgr') \<Longrightarrow> ctx_step mgr mgr'"
| block: "tu_ctx_block_current mgr = Some (r, mgr') \<Longrightarrow> ctx_step mgr mgr'"
| priority: "tu_ctx_get mgr c \<noteq> None \<Longrightarrow> ctx_step mgr (set_priority c p mgr)"
| unblock: "ctx_step mgr (snd (tu_ctx_unblock c mgr))"
| command: "ctx_step mgr (tu_ctx_notify_command mgr)"
| cycles: "ctx_step mgr (tu_ctx_notify_cycles n mgr)"
| run: "same_machine (cm_core mgr) core \<Longrightarrow> ctx_step mgr (mgr\<lparr>cm_core := core\<rparr>)"

inductive ctx_reachable :: "tu_ctx_manager \<Rightarrow> bool" where
  create: "machine_ok core \<Longrightarrow> tu_ctx_manager_create core cfg = Some mgr \<Longrightarrow> ctx_reachable mgr"
| step: "ctx_reachable mgr \<Longrightarrow> ctx_step mgr mgr' \<Longrightarrow> ctx_reachable mgr'"

lemma ctx_step_keeps: "ctx_step mgr mgr' \<Longrightarrow> ctx_inv mgr \<Longrightarrow> ctx_inv mgr'"
proof (induction rule: ctx_step.induct)
  case (restore mgr c r mgr')
  then show ?case by (intro ctx_restore_keeps [OF restore.prems _ restore.hyps(2)]) (simp add: list_all_length)
next
  case (request mgr r mgr')
  then show ?case by (auto simp: tu_ctx_request_switch_def Let_def intro: ctx_switch_keeps split: if_splits)
qed (auto intro: ctx_alloc_keeps ctx_free_keeps set_priority_keeps ctx_switch_keeps ctx_block_keeps ctx_unblock_keeps same_machine_inv
    dest: ctx_save_keeps simp: tu_ctx_notify_command_def tu_ctx_notify_cycles_def)

lemma reachable_inv: "ctx_reachable mgr \<Longrightarrow> ctx_inv mgr"
  by (induction rule: ctx_reachable.induct) (auto intro: ctx_create_inv ctx_step_keeps)

text \<open>The active identifier always names a slot.\<close>

definition slots_kept :: "tu_ctx_manager \<Rightarrow> tu_ctx_manager \<Rightarrow> bool" where
  "slots_kept mgr mgr' \<longleftrightarrow> cm_max_contexts mgr' = cm_max_contexts mgr \<and>
     (cm_active_ctx_id mgr < cm_max_contexts mgr \<longrightarrow> cm_active_ctx_id mgr' < cm_max_contexts mgr)"

lemma slots_kept_trans: "slots_kept mgr mgr' \<Longrightarrow> slots_kept mgr' mgr'' \<Longrightarrow> slots_kept mgr mgr''"
  by (simp add: slots_kept_def)

lemma slots_kept_context [simp]: "slots_kept mgr (set_context i ctx mgr)" "slots_kept mgr mgr"
  "cm_max_contexts (set_context i ctx mgr) = cm_max_contexts mgr"
  by (simp_all add: slots_kept_def set_context_def)

lemma slots_kept_alloc:
  assumes "tu_ctx_alloc mgr = Some (r, mgr')" shows "slots_kept mgr mgr'"
proof -
  have "of_nat i < cm_max_contexts mgr"
    if "List.find (\<lambda>i. state_at mgr i = TU_CTX_IDLE) [0..<unat (cm_max_contexts mgr)] = Some i" for i
  proof -
    have "i < unat (cm_max_contexts mgr)" using that by (auto simp: find_Some_iff)
    moreover from this have "unat (of_nat i :: u32) = i"
      using unat_u32_less [of "cm_max_contexts mgr"] by (intro unat_of_nat_u32) linarith
    ultimately show ?thesis by (simp add: word_less_nat_alt)
  qed
  then show ?thesis
    using assms by (auto simp: tu_ctx_alloc_def Let_def slots_kept_def set_context_def bind_eq_Some_conv
        split: option.splits if_splits)
qed

lemma slots_kept_save: "tu_ctx_save mgr = Some (r, mgr') \<Longrightarrow> slots_kept mgr mgr'"
  by (auto simp: tu_ctx_save_def Let_def slots_kept_def set_context_def bind_eq_Some_conv split: if_splits)

lemma slots_kept_restore: "tu_ctx_restore c mgr = Some (r, mgr') \<Longrightarrow> slots_kept mgr mgr'"
  by (auto simp: tu_ctx_restore_def Let_def slots_kept_def set_context_def bind_eq_Some_conv not_le split: if_splits)

lemma slots_kept_switch: "tu_ctx_switch c mgr = Some (r, mgr') \<Longrightarrow> slots_kept mgr mgr'"
  by (auto simp: tu_ctx_switch_def bind_eq_Some_conv split: if_splits
      dest: slots_kept_save slots_kept_restore intro: slots_kept_trans)

lemma slots_kept_free: "tu_ctx_free c mgr = Some mgr' \<Longrightarrow> slots_kept mgr mgr'"
  by (auto simp: tu_ctx_free_def Let_def bind_eq_Some_conv slots_kept_def set_context_def
      split: if_splits dest!: slots_kept_save)

lemma slots_kept_block: "tu_ctx_block_current mgr = Some (r, mgr') \<Longrightarrow> slots_kept mgr mgr'"
  by (auto simp: tu_ctx_block_current_def bind_eq_Some_conv slots_kept_def set_state_def set_context_def
      split: if_splits dest!: slots_kept_save)

lemma slots_kept_step: "ctx_step mgr mgr' \<Longrightarrow> slots_kept mgr mgr'"
proof (induction rule: ctx_step.induct)
  case (request mgr r mgr')
  then show ?case by (auto simp: tu_ctx_request_switch_def Let_def intro: slots_kept_switch split: if_splits)
qed (auto intro: slots_kept_alloc slots_kept_free slots_kept_save slots_kept_restore slots_kept_switch slots_kept_block
    simp: set_priority_def tu_ctx_unblock_def set_state_def tu_ctx_notify_command_def tu_ctx_notify_cycles_def
      slots_kept_def [of _ "_\<lparr>cm_core := _\<rparr>"] slots_kept_def [of _ "_\<lparr>cm_slice_cmds_used := _\<rparr>"]
      slots_kept_def [of _ "_\<lparr>cm_slice_cycles_used := _\<rparr>"])

lemma active_in_range: "ctx_reachable mgr \<Longrightarrow> unat (cm_active_ctx_id mgr) < unat (cm_max_contexts mgr)"
proof (induction rule: ctx_reachable.induct)
  case (create core cfg mgr)
  then have "cm_max_contexts mgr \<noteq> 0" "cm_active_ctx_id mgr = 0"
    by (auto simp: tu_ctx_manager_create_def tu_ctx_manager_config_validate_def split: if_splits)
  then show ?case by (simp add: unat_gt_0)
next
  case (step mgr mgr')
  then show ?case using slots_kept_step [of mgr mgr'] by (simp add: slots_kept_def word_less_nat_alt)
qed

lemma one_active: "ctx_inv mgr \<Longrightarrow> card {i. i < length (cm_contexts mgr) \<and> state_at mgr i = TU_CTX_ACTIVE} \<le> 1"
proof -
  assume "ctx_inv mgr"
  then have "{i. i < length (cm_contexts mgr) \<and> state_at mgr i = TU_CTX_ACTIVE} \<subseteq> {unat (cm_active_ctx_id mgr)}"
    by (auto simp: ctx_inv_def)
  from card_mono [OF _ this] show ?thesis by simp
qed

text \<open>
  C11. However a manager is used, at most one context is active, the counter of allocated contexts is their
  number, and it does not pass the configured maximum. A caller that frees only contexts it holds and
  restores only while none is active, and programs that leave the machine its buffers, keep it so.
\<close>

theorem contexts_accounted_for:
  assumes "ctx_reachable mgr"
  shows "card {i. i < length (cm_contexts mgr) \<and> state_at mgr i = TU_CTX_ACTIVE} \<le> 1 \<and>
    unat (cm_active_count mgr) = card (allocated mgr) \<and> unat (cm_active_count mgr) \<le> unat (cm_max_contexts mgr)"
  using reachable_inv [OF assms] one_active [of mgr] count_bound [of mgr] by (auto simp: ctx_inv_def)

section \<open>Isolation\<close>

lemma restore_ignores [simp]:
  "ctx_restore_full_state (ctx\<lparr>cx_state := st\<rparr>) s = ctx_restore_full_state ctx s"
  "ctx_restore_full_state (ctx\<lparr>cx_total_cycles := n\<rparr>) s = ctx_restore_full_state ctx s"
  by (simp_all add: ctx_restore_full_state_def)

lemma save_restore_state:
  assumes save: "machine_ok core" "live_ok mgr" "cm_core mgr = core" "has_buffers core" "s = co_state core"
    and "ctx_save_full_state mgr s ctx = Some (0, saved)" "cm_save_scope mgr = TU_CTX_SAVE_FULL_SRAM"
    and "list_all (\<lambda>r. region_bytes r = unat (region_size r)) (tu_regions phys)" "sizes phys = sizes s"
    and "ctx_restore_full_state saved phys = Some s'"
  shows "visible s' = visible s \<and> metering_modes s' = metering_modes phys"
proof -
  let ?hw = "cx_hw_state ctx"
  have ok: "list_all (\<lambda>r. region_bytes r = unat (region_size r)) (tu_regions s)"
    using save(1,5) by (simp add: machine_ok_def)
  note sv = save_succeeds [OF save, unfolded assms(7) ctx_scope_bytes_def tu_ctx_save_scope.case, OF refl refl refl]
  have saved: "cx_hw_state saved = ?hw\<lparr>ts_sram_w := saved_region (ts_sram_w s) (region_size (ts_sram_w s)) (ts_sram_w ?hw),
      ts_sram_a := saved_region (ts_sram_a s) (region_size (ts_sram_a s)) (ts_sram_a ?hw),
      ts_sram_o := saved_region (ts_sram_o s) (region_size (ts_sram_o s)) (ts_sram_o ?hw), ts_dma := ts_dma s,
      ts_cmdq := ts_cmdq s, ts_dataflow := ts_dataflow s, ts_total_dma_bytes := ts_total_dma_bytes s,
      ts_total_mma_calls := ts_total_mma_calls s, ts_total_mma_tiles := ts_total_mma_tiles s,
      ts_total_mma_flops := ts_total_mma_flops s, ts_estimated_cycles := ts_estimated_cycles s,
      ts_rt_cfg := ts_rt_cfg s, ts_initialized := ts_initialized s\<rparr>"
    "cx_saved_w_bytes saved = region_size (ts_sram_w s)" "cx_saved_a_bytes saved = region_size (ts_sram_a s)"
    "cx_saved_o_bytes saved = region_size (ts_sram_o s)"
    using assms(6) unfolding sv by auto
  obtain w' a' out' where rs:
    "restore_region (saved_region (ts_sram_w s) (region_size (ts_sram_w s)) (ts_sram_w ?hw)) (region_size (ts_sram_w s)) (ts_sram_w phys) = Some w'"
    "restore_region (saved_region (ts_sram_a s) (region_size (ts_sram_a s)) (ts_sram_a ?hw)) (region_size (ts_sram_a s)) (ts_sram_a phys) = Some a'"
    "restore_region (saved_region (ts_sram_o s) (region_size (ts_sram_o s)) (ts_sram_o ?hw)) (region_size (ts_sram_o s)) (ts_sram_o phys) = Some out'"
    using assms(10) saved by (auto simp: ctx_restore_full_state_def Let_def bind_eq_Some_conv)
  have n: "unat (region_size (ts_sram_w s)) = region_bytes (ts_sram_w s)" "region_bytes (ts_sram_w phys) = region_bytes (ts_sram_w s)"
    "unat (region_size (ts_sram_a s)) = region_bytes (ts_sram_a s)" "region_bytes (ts_sram_a phys) = region_bytes (ts_sram_a s)"
    "unat (region_size (ts_sram_o s)) = region_bytes (ts_sram_o s)" "region_bytes (ts_sram_o phys) = region_bytes (ts_sram_o s)"
    using ok assms(8,9) by (simp_all add: tu_regions_def sizes_def)
  note v = save_restore_region [OF n(1,2) rs(1)] save_restore_region [OF n(3,4) rs(2)] save_restore_region [OF n(5,6) rs(3)]
  have "s' = phys\<lparr>ts_sram_w := w', ts_sram_a := a', ts_sram_o := out', ts_dma := ts_dma s,
         ts_dataflow := ts_dataflow s, ts_total_dma_bytes := ts_total_dma_bytes s,
         ts_total_mma_calls := ts_total_mma_calls s, ts_total_mma_tiles := ts_total_mma_tiles s,
         ts_total_mma_flops := ts_total_mma_flops s, ts_estimated_cycles := ts_estimated_cycles s,
         ts_rt_cfg := ts_rt_cfg s, ts_initialized := ts_initialized s\<rparr>"
    using assms(10) rs by (simp add: ctx_restore_full_state_def Let_def saved)
  then show ?thesis using v by (cases s; cases phys) (simp add: visible_def metering_modes_def tu_regions_def)
qed

lemma switch_there_and_back:
  assumes "ctx_inv mgr" "cm_save_scope mgr = TU_CTX_SAVE_FULL_SRAM"
    and "unat a < length (cm_contexts mgr)" "state_at mgr (unat a) = TU_CTX_ACTIVE"
    and "unat b < length (cm_contexts mgr)" "state_at mgr (unat b) = TU_CTX_READY"
    and "\<And>c. machine_ok c \<Longrightarrow> same_machine c (program c)"
  obtains mgr1 mgr2 where "tu_ctx_switch b mgr = Some (0, mgr1)"
    "tu_ctx_switch a (mgr1\<lparr>cm_core := program (cm_core mgr1)\<rparr>) = Some (0, mgr2)"
    "visible (co_state (cm_core mgr2)) = visible (co_state (cm_core mgr)) \<and>
     metering_modes (co_state (cm_core mgr2)) = metering_modes (co_state (program (cm_core mgr1)))"
proof -
  have act: "unat a = unat (cm_active_ctx_id mgr)" using assms(1,3,4) by (simp add: ctx_inv_def)
  obtain ctx mgr1 where s: "tu_ctx_switch b mgr = Some (0, mgr1)" "ctx_inv mgr1" "same_machine (cm_core mgr) (cm_core mgr1)"
    "cm_active_ctx_id mgr1 = b" "state_at mgr1 (unat b) = TU_CTX_ACTIVE" "length (cm_contexts mgr1) = length (cm_contexts mgr)"
    "cm_save_scope mgr1 = cm_save_scope mgr"
    "ctx_restore_full_state (cm_contexts mgr ! unat b) (co_state (cm_core mgr)) = Some (co_state (cm_core mgr1))"
    "cm_contexts mgr1 ! unat a = ctx" "cx_state ctx = TU_CTX_READY"
    "ctx_save_full_state mgr (co_state (cm_core mgr)) (cm_contexts mgr ! unat a) =
       Some (0, ctx\<lparr>cx_state := TU_CTX_ACTIVE, cx_total_cycles := cx_total_cycles (cm_contexts mgr ! unat a)\<rparr>)"
    by (rule ctx_switch_some [OF assms(1) act assms(3,4) refl assms(5,6)])
  let ?p = "program (cm_core mgr1)" and ?m = "mgr1\<lparr>cm_core := program (cm_core mgr1)\<rparr>"
  have ok1: "machine_ok (cm_core mgr1)" using s(3) by (simp add: same_machine_def)
  have p: "same_machine (cm_core mgr1) ?p" by (rule assms(7) [OF ok1])
  have inv: "ctx_inv ?m" by (rule same_machine_inv [OF s(2) p])
  have m: "unat b = unat (cm_active_ctx_id ?m)" "unat b < length (cm_contexts ?m)" "state_at ?m (unat b) = TU_CTX_ACTIVE"
    "unat a < length (cm_contexts ?m)" "state_at ?m (unat a) = TU_CTX_READY"
    using s(4,5,6,9,10) assms(3,5) by simp_all
  obtain ctx2 mgr2 where t: "tu_ctx_switch a ?m = Some (0, mgr2)"
    "ctx_restore_full_state (cm_contexts ?m ! unat a) (co_state (cm_core ?m)) = Some (co_state (cm_core mgr2))"
    by (rule ctx_switch_some [OF inv m(1-3) refl m(4,5)])
  have r: "ctx_restore_full_state (ctx\<lparr>cx_state := TU_CTX_ACTIVE, cx_total_cycles := cx_total_cycles (cm_contexts mgr ! unat a)\<rparr>)
      (co_state ?p) = Some (co_state (cm_core mgr2))"
    using t(2) s(9) by simp
  have ok: "machine_ok (cm_core mgr)" "live_ok mgr" "has_buffers (cm_core mgr)" "sizes (co_state ?p) = sizes (co_state (cm_core mgr))"
    "list_all (\<lambda>r. region_bytes r = unat (region_size r)) (tu_regions (co_state ?p))"
    using assms(1,3,4) p s(3) by (auto simp: ctx_inv_def same_machine_def machine_ok_def)
  have "visible (co_state (cm_core mgr2)) = visible (co_state (cm_core mgr)) \<and>
      metering_modes (co_state (cm_core mgr2)) = metering_modes (co_state ?p)"
    by (rule save_restore_state [OF ok(1,2) refl ok(3) refl s(11) assms(2) ok(5,4) r])
  then show ?thesis by (rule that [OF s(1) t(1)])
qed

text \<open>Switching to a ready context succeeds, whether or not a context is active.\<close>

lemma ctx_switch_ready:
  assumes "ctx_inv mgr" "i = unat c" "i < length (cm_contexts mgr)" "state_at mgr i = TU_CTX_READY"
  obtains mgr' where "tu_ctx_switch c mgr = Some (0, mgr')" "cm_active_ctx_id mgr' = c" "state_at mgr' i = TU_CTX_ACTIVE"
proof (cases "unat (cm_active_ctx_id mgr) < length (cm_contexts mgr) \<and> state_at mgr (unat (cm_active_ctx_id mgr)) = TU_CTX_ACTIVE")
  case True
  then have l: "unat (cm_active_ctx_id mgr) < length (cm_contexts mgr)" "state_at mgr (unat (cm_active_ctx_id mgr)) = TU_CTX_ACTIVE"
    by simp_all
  obtain ctx mgr' where "tu_ctx_switch c mgr = Some (0, mgr')" "cm_active_ctx_id mgr' = c" "state_at mgr' i = TU_CTX_ACTIVE"
    by (rule ctx_switch_some [OF assms(1) refl l assms(2-4)])
  then show ?thesis by (rule that)
next
  case False
  then have na: "state_at mgr j \<noteq> TU_CTX_ACTIVE" if "j < length (cm_contexts mgr)" for j
    using assms(1) that by (auto simp: ctx_inv_def)
  obtain mgr' where r: "tu_ctx_restore c mgr = Some (0, mgr')" "cm_active_ctx_id mgr' = c" "state_at mgr' i = TU_CTX_ACTIVE"
    by (rule ctx_restore_some [OF assms(1-4) na])
  have "length (cm_contexts mgr) = unat (cm_max_contexts mgr)" using assms(1) by (simp add: ctx_inv_def)
  then have "\<not> (cm_active_ctx_id mgr < cm_max_contexts mgr \<and> state_at mgr (unat (cm_active_ctx_id mgr)) = TU_CTX_ACTIVE)"
    using False by (simp add: word_less_nat_alt)
  then have "tu_ctx_switch c mgr = Some (0, mgr')" unfolding tu_ctx_switch_def using r(1) by (simp only: if_False)
  then show ?thesis using r(2,3) by (rule that)
qed

section \<open>Choosing the next context\<close>

lemma find_map: "List.find P (map f xs) = map_option f (List.find (P \<circ> f) xs)"
  by (induction xs) auto

lemma sint_small:
  fixes x :: u32
  assumes "unat x < 2147483648"
  shows "sint x = int (unat x)"
proof -
  have "int (unat x) < int 2147483648" using assms by (simp only: of_nat_less_iff)
  also have "int 2147483648 = 2 ^ 31" by simp
  finally have "signed_take_bit 31 (int (unat x)) = int (unat x)"
    by (intro signed_take_bit_int_eq_self) (rule order.trans [OF _ of_nat_0_le_iff], simp)
  then show ?thesis by (simp add: sint_uint)
qed

text \<open>The order in which round robin looks at the contexts.\<close>

definition ring_from :: "nat \<Rightarrow> nat \<Rightarrow> nat list" where
  "ring_from a n = rotate (Suc a) [0..<n]"

definition first_ready :: "tu_ctx_manager \<Rightarrow> nat list \<Rightarrow> int" where
  "first_ready mgr ids = (case List.find (\<lambda>i. state_at mgr i = TU_CTX_READY) ids of Some i \<Rightarrow> int i | None \<Rightarrow> - 1)"

lemma ring_id:
  fixes a n :: u32
  assumes "unat a < unat n" "unat n \<le> 2147483648" "i < unat n"
  shows "unat (((a + 1) mod n + of_nat i) mod n) = (Suc (unat a) + i) mod unat n"
proof -
  have i: "unat (of_nat i :: u32) = i" using assms by (intro unat_of_nat_u32) simp
  have a1: "unat (a + 1) = Suc (unat a)" using assms by (subst u32_add_exact) simp_all
  have s: "unat ((a + 1) mod n) = Suc (unat a) mod unat n" by (simp add: unat_mod a1)
  have "Suc (unat a) mod unat n < unat n" using assms by (intro mod_less_divisor) linarith
  then have "Suc (unat a) mod unat n + i < 4294967296" using assms(2,3) by linarith
  then have "unat ((a + 1) mod n + of_nat i) = Suc (unat a) mod unat n + i"
    by (subst u32_add_exact) (simp_all add: s i)
  then show ?thesis by (simp add: unat_mod mod_add_left_eq)
qed

lemma round_robin_ring:
  assumes "unat (cm_active_ctx_id mgr) < unat (cm_max_contexts mgr)" "unat (cm_max_contexts mgr) \<le> 2147483648"
  shows "round_robin_next mgr = first_ready mgr (ring_from (unat (cm_active_ctx_id mgr)) (unat (cm_max_contexts mgr)))"
proof -
  let ?n = "cm_max_contexts mgr" and ?a = "cm_active_ctx_id mgr"
  let ?id = "\<lambda>i. ((?a + 1) mod ?n + of_nat i) mod ?n"
  have u: "unat (?id i) = (Suc (unat ?a) + i) mod unat ?n" if "i < unat ?n" for i by (rule ring_id [OF assms that])
  have r: "ring_from (unat ?a) (unat ?n) = map (unat \<circ> ?id) [0..<unat ?n]"
    by (rule nth_equalityI) (simp_all add: ring_from_def nth_rotate u del: rotate_Suc)
  have s: "sint (?id i) = int (unat (?id i))" if "i < unat ?n" for i
  proof (rule sint_small)
    have "unat (?id i) < unat ?n" using that by (simp add: u)
    then show "unat (?id i) < 2147483648" using assms(2) by linarith
  qed
  show ?thesis
  proof (cases "List.find (\<lambda>i. state_at mgr (unat (?id i)) = TU_CTX_READY) [0..<unat ?n]")
    case None
    then show ?thesis by (simp add: round_robin_next_def first_ready_def Let_def r find_map o_def)
  next
    case (Some i)
    then have "i < unat ?n" by (auto simp: find_Some_iff)
    then show ?thesis using Some s [of i] by (simp add: round_robin_next_def first_ready_def Let_def r find_map o_def)
  qed
qed

text \<open>What priority scheduling has after looking at the first contexts.\<close>

definition best_so_far :: "tu_ctx_manager \<Rightarrow> nat \<Rightarrow> int \<times> u8 \<Rightarrow> bool" where
  "best_so_far mgr k best \<longleftrightarrow>
    (\<forall>j < k. state_at mgr j = TU_CTX_READY \<longrightarrow> cx_priority (cm_contexts mgr ! j) \<le> snd best) \<and>
    (best = (- 1, 0) \<or> (\<exists>i < k. best = (int i, cx_priority (cm_contexts mgr ! i)) \<and> state_at mgr i = TU_CTX_READY \<and>
       (\<forall>j < i. state_at mgr j = TU_CTX_READY \<longrightarrow> cx_priority (cm_contexts mgr ! j) < cx_priority (cm_contexts mgr ! i))))"

lemma priority_best:
  "k \<le> 2147483648 \<Longrightarrow> best_so_far mgr k (foldl (priority_step mgr) (- 1, 0) [0..<k])"
proof (induction k)
  case (Suc k)
  let ?b = "foldl (priority_step mgr) (- 1, 0) [0..<k]"
  have b: "best_so_far mgr k ?b" using Suc by simp
  have k: "unat (of_nat k :: u32) = k" using Suc.prems by (intro unat_of_nat_u32) simp
  have s: "sint (of_nat k :: u32) = int k" using Suc.prems by (subst sint_small) (simp_all add: k)
  have "best_so_far mgr (Suc k) (priority_step mgr ?b k)"
  proof (cases "state_at mgr k = TU_CTX_READY \<and> cx_priority (cm_contexts mgr ! k) > snd ?b")
    case True
    then have p: "priority_step mgr ?b k = (int k, cx_priority (cm_contexts mgr ! k))" by (simp add: priority_step_def s)
    have "cx_priority (cm_contexts mgr ! j) \<le> cx_priority (cm_contexts mgr ! k)"
      if "j < Suc k" "state_at mgr j = TU_CTX_READY" for j
    proof (cases "j = k")
      case False
      then have "cx_priority (cm_contexts mgr ! j) \<le> snd ?b" using that b by (simp add: best_so_far_def)
      then show ?thesis using True by (meson less_imp_le order.trans)
    qed simp
    moreover have "cx_priority (cm_contexts mgr ! j) < cx_priority (cm_contexts mgr ! k)"
      if "j < k" "state_at mgr j = TU_CTX_READY" for j
    proof -
      have "cx_priority (cm_contexts mgr ! j) \<le> snd ?b" using that b by (simp add: best_so_far_def)
      then show ?thesis using True by (meson le_less_trans)
    qed
    ultimately show ?thesis using True by (auto simp: best_so_far_def p)
  next
    case False
    then have p: "priority_step mgr ?b k = ?b" unfolding priority_step_def by (simp only: if_False)
    have "cx_priority (cm_contexts mgr ! j) \<le> snd ?b" if "j < Suc k" "state_at mgr j = TU_CTX_READY" for j
      using that b False by (cases "j = k") (auto simp: best_so_far_def not_less)
    then show ?thesis using b unfolding p by (auto simp: best_so_far_def less_Suc_eq)
  qed
  then show ?case by simp
qed (simp add: best_so_far_def)

text \<open>A policy names a ready context, or none.\<close>

locale ready_picker =
  fixes pick :: "tu_ctx_manager \<Rightarrow> int" and small :: "tu_ctx_manager \<Rightarrow> bool"
  assumes small_bound: "small mgr \<Longrightarrow> unat (cm_max_contexts mgr) \<le> 2147483648"
    and picks: "small mgr \<Longrightarrow> pick mgr \<noteq> - 1 \<Longrightarrow>
      \<exists>i < unat (cm_max_contexts mgr). pick mgr = int i \<and> state_at mgr i = TU_CTX_READY"
begin

lemma pick_switches:
  assumes "ctx_inv mgr" "small mgr" "0 \<le> pick mgr"
  obtains mgr' where "tu_ctx_switch (word_of_int (pick mgr)) mgr = Some (0, mgr')"
    "pick mgr = int (unat (cm_active_ctx_id mgr'))" "state_at mgr' (unat (cm_active_ctx_id mgr')) = TU_CTX_ACTIVE"
    "state_at mgr (unat (cm_active_ctx_id mgr')) = TU_CTX_READY"
proof -
  obtain i where i: "i < unat (cm_max_contexts mgr)" "pick mgr = int i" "state_at mgr i = TU_CTX_READY"
    using picks [OF assms(2)] assms(3) by auto
  have u: "unat (word_of_int (pick mgr) :: u32) = i"
    using i(1) unat_u32_less [of "cm_max_contexts mgr"] unfolding i(2) of_int_of_nat_eq by (intro unat_of_nat_u32) linarith
  have l: "unat (word_of_int (pick mgr) :: u32) < length (cm_contexts mgr)"
    "state_at mgr (unat (word_of_int (pick mgr) :: u32)) = TU_CTX_READY"
    using i(1,3) assms(1) by (simp_all add: u ctx_inv_def)
  obtain mgr' where m: "tu_ctx_switch (word_of_int (pick mgr)) mgr = Some (0, mgr')"
    "cm_active_ctx_id mgr' = word_of_int (pick mgr)" "state_at mgr' (unat (word_of_int (pick mgr) :: u32)) = TU_CTX_ACTIVE"
    by (rule ctx_switch_ready [OF assms(1) refl l])
  show ?thesis by (rule that [OF m(1)]) (use m(3) i(2,3) u in \<open>simp_all only: m(2)\<close>)
qed

end

interpretation rr: ready_picker round_robin_next
  "\<lambda>mgr. unat (cm_active_ctx_id mgr) < unat (cm_max_contexts mgr) \<and> unat (cm_max_contexts mgr) \<le> 2147483648"
proof
  fix mgr :: tu_ctx_manager
  assume s: "unat (cm_active_ctx_id mgr) < unat (cm_max_contexts mgr) \<and> unat (cm_max_contexts mgr) \<le> 2147483648"
    and p: "round_robin_next mgr \<noteq> - 1"
  let ?ring = "ring_from (unat (cm_active_ctx_id mgr)) (unat (cm_max_contexts mgr))"
  obtain i where i: "List.find (\<lambda>i. state_at mgr i = TU_CTX_READY) ?ring = Some i" "round_robin_next mgr = int i"
    using p round_robin_ring [of mgr] s by (auto simp: first_ready_def split: option.splits)
  then have "i \<in> set ?ring" "state_at mgr i = TU_CTX_READY" by (auto simp: find_Some_iff)
  then show "\<exists>i < unat (cm_max_contexts mgr). round_robin_next mgr = int i \<and> state_at mgr i = TU_CTX_READY"
    using i(2) by (auto simp: ring_from_def)
qed simp

interpretation pr: ready_picker priority_next "\<lambda>mgr. unat (cm_max_contexts mgr) \<le> 2147483648"
proof
  fix mgr :: tu_ctx_manager
  assume "unat (cm_max_contexts mgr) \<le> 2147483648" and p: "priority_next mgr \<noteq> - 1"
  from priority_best [OF this(1), of mgr] p
  show "\<exists>i < unat (cm_max_contexts mgr). priority_next mgr = int i \<and> state_at mgr i = TU_CTX_READY"
    unfolding best_so_far_def priority_next_def by (elim conjE disjE) auto
qed

section \<open>What callers see\<close>

lemma first_ready_finds:
  assumes "j \<in> set ids" "state_at mgr j = TU_CTX_READY"
  shows "0 \<le> first_ready mgr ids"
proof -
  have "List.find (\<lambda>i. state_at mgr i = TU_CTX_READY) ids \<noteq> None" using assms by (auto simp: find_None_iff)
  then show ?thesis by (auto simp: first_ready_def)
qed

text \<open>
  C10. Where the whole buffers are saved, a switch away from the active context and back gives it the core
  as it left it, whatever the other context's program did to the buffers, counters and
  configuration in between: everything but the queue, the double buffers and the bandwidth budgets,
  which are not saved, and the word metering modes of the regions, which leak: each is as the other
  program left it.
\<close>

theorem context_switch_isolated:
  assumes "ctx_reachable mgr" "cm_save_scope mgr = TU_CTX_SAVE_FULL_SRAM"
    and "unat a < length (cm_contexts mgr)" "state_at mgr (unat a) = TU_CTX_ACTIVE"
    and "unat b < length (cm_contexts mgr)" "state_at mgr (unat b) = TU_CTX_READY"
    and "\<And>c. machine_ok c \<Longrightarrow> same_machine c (program c)"
  shows "\<exists>mgr1 mgr2. tu_ctx_switch b mgr = Some (0, mgr1) \<and>
    tu_ctx_switch a (mgr1\<lparr>cm_core := program (cm_core mgr1)\<rparr>) = Some (0, mgr2) \<and>
    visible (co_state (cm_core mgr2)) = visible (co_state (cm_core mgr)) \<and>
    metering_modes (co_state (cm_core mgr2)) = metering_modes (co_state (program (cm_core mgr1)))"
proof -
  obtain mgr1 mgr2 where "tu_ctx_switch b mgr = Some (0, mgr1)"
    "tu_ctx_switch a (mgr1\<lparr>cm_core := program (cm_core mgr1)\<rparr>) = Some (0, mgr2)"
    "visible (co_state (cm_core mgr2)) = visible (co_state (cm_core mgr)) \<and>
     metering_modes (co_state (cm_core mgr2)) = metering_modes (co_state (program (cm_core mgr1)))"
    by (rule switch_there_and_back [OF reachable_inv [OF assms(1)] assms(2-7)])
  then show ?thesis by blast
qed

text \<open>
  C16. The modular search of round robin is a search of the ring of contexts that starts behind the active
  one: the first ready context there is chosen, and none only when no context is ready.
\<close>

theorem round_robin_searches_the_ring:
  assumes "cm_sched_policy mgr = TU_CTX_SCHED_ROUND_ROBIN"
    and "unat (cm_active_ctx_id mgr) < unat (cm_max_contexts mgr)" "unat (cm_max_contexts mgr) \<le> 2147483648"
  shows "tu_ctx_schedule_next mgr = first_ready mgr (ring_from (unat (cm_active_ctx_id mgr)) (unat (cm_max_contexts mgr)))"
  using round_robin_ring [OF assms(2,3)] assms(1) by (simp add: tu_ctx_schedule_next_def)

lemma first_ready_none:
  "(\<And>i. i \<in> set ids \<Longrightarrow> i < n) \<Longrightarrow> first_ready mgr ids < 0 \<Longrightarrow> j \<in> set ids \<Longrightarrow> state_at mgr j \<noteq> TU_CTX_READY"
  using first_ready_finds [of j ids mgr] by force

lemma priority_choice:
  assumes "unat (cm_max_contexts mgr) \<le> 2147483648"
  shows "0 \<le> priority_next mgr \<Longrightarrow> priority_next mgr = int i \<Longrightarrow> j < unat (cm_max_contexts mgr) \<Longrightarrow>
      state_at mgr j = TU_CTX_READY \<Longrightarrow>
      cx_priority (cm_contexts mgr ! j) < cx_priority (cm_contexts mgr ! i) \<or>
      cx_priority (cm_contexts mgr ! j) = cx_priority (cm_contexts mgr ! i) \<and> i \<le> j"
    and "priority_next mgr < 0 \<Longrightarrow> j < unat (cm_max_contexts mgr) \<Longrightarrow> state_at mgr j = TU_CTX_READY \<Longrightarrow>
      cx_priority (cm_contexts mgr ! j) = 0"
proof -
  let ?best = "foldl (priority_step mgr) (- 1, 0) [0..<unat (cm_max_contexts mgr)]"
  have b: "best_so_far mgr (unat (cm_max_contexts mgr)) ?best" by (rule priority_best [OF assms])
  have n: "priority_next mgr = fst ?best" by (simp add: priority_next_def)
  show "cx_priority (cm_contexts mgr ! j) < cx_priority (cm_contexts mgr ! i) \<or>
      cx_priority (cm_contexts mgr ! j) = cx_priority (cm_contexts mgr ! i) \<and> i \<le> j"
    if h: "0 \<le> priority_next mgr" "priority_next mgr = int i" "j < unat (cm_max_contexts mgr)" "state_at mgr j = TU_CTX_READY"
  proof -
    have ne: "?best \<noteq> (- 1, 0)" using h(1) n by auto
    have best: "snd ?best = cx_priority (cm_contexts mgr ! i)"
      "\<forall>k < i. state_at mgr k = TU_CTX_READY \<longrightarrow> cx_priority (cm_contexts mgr ! k) < cx_priority (cm_contexts mgr ! i)"
      using b ne h(2) n unfolding best_so_far_def by auto
    have le: "cx_priority (cm_contexts mgr ! j) \<le> cx_priority (cm_contexts mgr ! i)"
      using b h(3,4) best(1) unfolding best_so_far_def by metis
    show ?thesis
    proof (cases "j < i")
      case True
      then show ?thesis using best(2) h(4) by simp
    next
      case False
      then show ?thesis using le by (simp add: not_less order_le_less disj_commute)
    qed
  qed
  show "cx_priority (cm_contexts mgr ! j) = 0"
    if h: "priority_next mgr < 0" "j < unat (cm_max_contexts mgr)" "state_at mgr j = TU_CTX_READY"
  proof -
    have "snd ?best = 0" using b h(1) n unfolding best_so_far_def by auto
    then have "cx_priority (cm_contexts mgr ! j) \<le> 0" using b h(2,3) unfolding best_so_far_def by metis
    then show ?thesis by simp
  qed
qed

text \<open>
  C15. Scheduling of at most \<open>2^31\<close> contexts, with any priorities. A context that either policy names is ready,
  and the requested switch makes exactly that context the active one; under priorities it is the first
  ready context of the highest priority. No context is named only when none is ready, or, under
  priorities, when every ready context has priority 0: such a context is never scheduled.
\<close>

theorem scheduled_context_runs:
  assumes "ctx_reachable mgr" "unat (cm_max_contexts mgr) \<le> 2147483648"
  shows "(0 \<le> tu_ctx_schedule_next mgr \<longrightarrow> (\<exists>mgr' i. tu_ctx_request_switch mgr = Some (0, mgr') \<and>
      i = unat (cm_active_ctx_id mgr') \<and> tu_ctx_schedule_next mgr = int i \<and>
      state_at mgr i = TU_CTX_READY \<and> state_at mgr' i = TU_CTX_ACTIVE \<and>
      (cm_sched_policy mgr = TU_CTX_SCHED_PRIORITY \<longrightarrow>
        (\<forall>j < unat (cm_max_contexts mgr). state_at mgr j = TU_CTX_READY \<longrightarrow>
          cx_priority (cm_contexts mgr ! j) < cx_priority (cm_contexts mgr ! i) \<or>
          cx_priority (cm_contexts mgr ! j) = cx_priority (cm_contexts mgr ! i) \<and> i \<le> j)))) \<and>
    (tu_ctx_schedule_next mgr < 0 \<longrightarrow> (\<forall>j < unat (cm_max_contexts mgr). state_at mgr j = TU_CTX_READY \<longrightarrow>
      cm_sched_policy mgr = TU_CTX_SCHED_PRIORITY \<and> cx_priority (cm_contexts mgr ! j) = 0))"
proof -
  note inv = reachable_inv [OF assms(1)] and act = active_in_range [OF assms(1)]
  have req: "0 \<le> tu_ctx_schedule_next mgr \<Longrightarrow>
      tu_ctx_request_switch mgr = tu_ctx_switch (word_of_int (tu_ctx_schedule_next mgr)) mgr"
    by (simp add: tu_ctx_request_switch_def Let_def)
  show ?thesis
  proof (cases "cm_sched_policy mgr")
    case TU_CTX_SCHED_ROUND_ROBIN
    then have n: "tu_ctx_schedule_next mgr = round_robin_next mgr" by (simp add: tu_ctx_schedule_next_def)
    let ?ring = "ring_from (unat (cm_active_ctx_id mgr)) (unat (cm_max_contexts mgr))"
    have none: "state_at mgr j \<noteq> TU_CTX_READY" if "round_robin_next mgr < 0" "j < unat (cm_max_contexts mgr)" for j
      by (rule first_ready_none [where ids = ?ring and n = "unat (cm_max_contexts mgr)"])
        (use that round_robin_ring [OF act assms(2)] in \<open>auto simp: ring_from_def\<close>)
    have "\<exists>mgr'. tu_ctx_request_switch mgr = Some (0, mgr') \<and> round_robin_next mgr = int (unat (cm_active_ctx_id mgr')) \<and>
        state_at mgr (unat (cm_active_ctx_id mgr')) = TU_CTX_READY \<and> state_at mgr' (unat (cm_active_ctx_id mgr')) = TU_CTX_ACTIVE"
      if "0 \<le> round_robin_next mgr"
      unfolding req [unfolded n, OF that]
      by (rule rr.pick_switches [OF inv conjI [OF act assms(2)] that]) (intro exI conjI, assumption+)
    then show ?thesis unfolding n using none TU_CTX_SCHED_ROUND_ROBIN by fastforce
  next
    case TU_CTX_SCHED_PRIORITY
    then have n: "tu_ctx_schedule_next mgr = priority_next mgr" by (simp add: tu_ctx_schedule_next_def)
    note choice = priority_choice [OF assms(2)]
    have "\<exists>mgr'. tu_ctx_request_switch mgr = Some (0, mgr') \<and> priority_next mgr = int (unat (cm_active_ctx_id mgr')) \<and>
        state_at mgr (unat (cm_active_ctx_id mgr')) = TU_CTX_READY \<and> state_at mgr' (unat (cm_active_ctx_id mgr')) = TU_CTX_ACTIVE"
      if "0 \<le> priority_next mgr"
      unfolding req [unfolded n, OF that]
      by (rule pr.pick_switches [OF inv assms(2) that]) (intro exI conjI, assumption+)
    then show ?thesis unfolding n using choice TU_CTX_SCHED_PRIORITY by (intro conjI impI allI) blast+
  qed
qed

text \<open>
  C38. Freeing an identifier that names no context while one context is active lowers the counter to zero,
  so that the next allocation takes itself for the first and makes a second context active.
\<close>

theorem freeing_an_idle_context:
  assumes "ctx_reachable mgr" "cm_active_count mgr = 1" "unat a < length (cm_contexts mgr)"
    and "state_at mgr (unat a) = TU_CTX_ACTIVE" "c < cm_max_contexts mgr" "state_at mgr (unat c) = TU_CTX_IDLE"
  shows "\<exists>mgr1 r mgr2. tu_ctx_free c mgr = Some mgr1 \<and> tu_ctx_alloc mgr1 = Some (r, mgr2) \<and>
    cm_active_ctx_id mgr2 \<noteq> a \<and> state_at mgr2 (unat a) = TU_CTX_ACTIVE \<and>
    state_at mgr2 (unat (cm_active_ctx_id mgr2)) = TU_CTX_ACTIVE"
proof -
  let ?mgr1 = "(set_context (unat c) (blank_context\<lparr>cx_ctx_id := c, cx_state := TU_CTX_IDLE\<rparr>) mgr)\<lparr>cm_active_count := 0\<rparr>"
  have inv: "length (cm_contexts mgr) = unat (cm_max_contexts mgr)" "machine_ok (cm_core mgr)" "live_ok mgr"
    using reachable_inv [OF assms(1)] by (simp_all add: ctx_inv_def)
  have ne: "unat a \<noteq> unat c" using assms(4,6) by auto
  have nc: "\<not> cm_max_contexts mgr \<le> c" "unat c < length (cm_contexts mgr)"
    using assms(5) inv(1) by (simp_all add: not_le word_less_nat_alt)
  have f: "tu_ctx_free c mgr = Some ?mgr1" using nc(1) assms(2,6) by (simp add: tu_ctx_free_def Let_def)
  have idle: "state_at ?mgr1 (unat c) = TU_CTX_IDLE" using nc(2) by simp
  obtain i where i: "List.find (\<lambda>i. state_at ?mgr1 i = TU_CTX_IDLE) [0..<unat (cm_max_contexts ?mgr1)] = Some i"
  proof (cases "List.find (\<lambda>i. state_at ?mgr1 i = TU_CTX_IDLE) [0..<unat (cm_max_contexts ?mgr1)]")
    case None
    then have "\<not> (\<exists>x. x \<in> set [0..<unat (cm_max_contexts ?mgr1)] \<and> state_at ?mgr1 x = TU_CTX_IDLE)"
      by (simp only: find_None_iff) simp
    moreover have "unat c \<in> set [0..<unat (cm_max_contexts ?mgr1)]" using nc(2) inv(1) by simp
    ultimately show ?thesis using idle by blast
  qed (rule that)
  have a: "state_at ?mgr1 (unat a) = TU_CTX_ACTIVE" using assms(4) ne by simp
  have l: "i < length (cm_contexts mgr)" "state_at ?mgr1 i = TU_CTX_IDLE" using i inv(1) by (auto simp: find_Some_iff)
  have ia: "i \<noteq> unat a" using l(2) a by auto
  have iu: "unat (of_nat i :: u32) = i"
    using l(1) inv(1) unat_u32_less [of "cm_max_contexts mgr"] by (intro unat_of_nat_u32) linarith
  have m1: "machine_ok (cm_core ?mgr1)" "live_ok ?mgr1" using inv(2,3) by (simp_all add: live_ok_def set_context_def)
  have h1: "has_buffers (cm_core ?mgr1)" using reachable_inv [OF assms(1)] assms(3,4) by (auto simp: ctx_inv_def)
  obtain ctx where s: "ctx_save_full_state ?mgr1 (co_state (cm_core ?mgr1))
      (blank_context\<lparr>cx_ctx_id := of_nat i, cx_state := TU_CTX_READY, cx_priority := 128\<rparr>) = Some (0, ctx)"
    by (rule save_full_state [OF m1 refl h1])
  let ?mgr2 = "(set_context i (ctx\<lparr>cx_state := TU_CTX_ACTIVE\<rparr>) ?mgr1)\<lparr>cm_active_ctx_id := of_nat i, cm_active_count := 1\<rparr>"
  have al: "tu_ctx_alloc ?mgr1 = Some (sint (of_nat i :: u32), ?mgr2)"
    unfolding tu_ctx_alloc_def i option.case s bind.simps Let_def by simp
  have "cm_active_ctx_id ?mgr2 \<noteq> a" using ia iu by auto
  moreover have "state_at ?mgr2 (unat a) = TU_CTX_ACTIVE" using a ia by simp
  moreover have "state_at ?mgr2 (unat (cm_active_ctx_id ?mgr2)) = TU_CTX_ACTIVE" using l(1) by (simp add: iu)
  ultimately show ?thesis using f al by blast
qed

section \<open>Two contexts on a small core\<close>

definition two_slots :: tu_ctx_manager_config where
  "two_slots = \<lparr>cc_max_contexts = 2, cc_sched_policy = TU_CTX_SCHED_ROUND_ROBIN, cc_time_slice_cycles = 0,
     cc_time_slice_cmds = 0, cc_switch_overhead = 10, cc_save_dram_state = False,
     cc_save_scope = TU_CTX_SAVE_FULL_SRAM, cc_live_w_bytes = 0, cc_live_a_bytes = 0, cc_live_o_bytes = 0,
     cc_state_bytes_per_cycle = 16\<rparr>"

definition empty_manager :: tu_ctx_manager where
  "empty_manager = the (tu_ctx_manager_create small_core two_slots)"

definition one_context :: tu_ctx_manager where
  "one_context = snd (the (tu_ctx_alloc empty_manager))"

definition two_contexts :: tu_ctx_manager where
  "two_contexts = snd (the (tu_ctx_alloc one_context))"

lemma all_some: "(\<forall>q. x = Some q \<longrightarrow> P q) = (case x of None \<Rightarrow> True | Some q \<Rightarrow> P q)"
  by (cases x) auto

lemma small_machine: "machine_ok small_core"
  unfolding machine_ok_def all_some by code_simp

lemma small_buffers: "has_buffers small_core"
  unfolding has_buffers_def present_def by code_simp

definition idle_context :: "u32 \<Rightarrow> tu_context_desc" where
  "idle_context i = blank_context\<lparr>cx_ctx_id := i, cx_state := TU_CTX_IDLE, cx_priority := 128\<rparr>"

lemma fresh_manager: "tu_ctx_manager_create small_core two_slots = Some empty_manager"
  by (simp add: empty_manager_def tu_ctx_manager_create_def tu_ctx_manager_config_validate_def two_slots_def Let_def)

lemma fresh_fields:
  "cm_core empty_manager = small_core" "cm_max_contexts empty_manager = 2" "cm_active_count empty_manager = 0"
  "cm_contexts empty_manager = [idle_context 0, idle_context 1]" "cm_save_scope empty_manager = TU_CTX_SAVE_FULL_SRAM"
  "cm_sched_policy empty_manager = TU_CTX_SCHED_ROUND_ROBIN" "cm_active_ctx_id empty_manager = 0"
proof -
  have u: "[0..<2] = [0 :: nat, 1]" by (simp add: upt_rec)
  have m: "empty_manager = the (tu_ctx_manager_create small_core two_slots)" by (simp add: empty_manager_def)
  show "cm_core empty_manager = small_core" "cm_max_contexts empty_manager = 2" "cm_active_count empty_manager = 0"
    "cm_save_scope empty_manager = TU_CTX_SAVE_FULL_SRAM" "cm_sched_policy empty_manager = TU_CTX_SCHED_ROUND_ROBIN"
    "cm_active_ctx_id empty_manager = 0"
    by (simp_all add: m tu_ctx_manager_create_def tu_ctx_manager_config_validate_def two_slots_def Let_def)
  show "cm_contexts empty_manager = [idle_context 0, idle_context 1]"
    by (simp add: m tu_ctx_manager_create_def tu_ctx_manager_config_validate_def two_slots_def u idle_context_def Let_def)
qed

lemma saved_snapshot:
  assumes "cm_core mgr = small_core" "cm_save_scope mgr = TU_CTX_SAVE_FULL_SRAM"
  obtains c where "ctx_save_full_state mgr (co_state (cm_core mgr)) ctx = Some (0, c)" "cx_state c = cx_state ctx"
proof -
  have "live_ok mgr" by (simp add: live_ok_def assms(2))
  from save_full_state [OF small_machine this assms(1) small_buffers] obtain c where
    "ctx_save_full_state mgr (co_state small_core) ctx = Some (0, c)" "cx_state c = cx_state ctx" by metis
  then show ?thesis using that assms(1) by simp
qed

lemma first_allocation:
  obtains c where "cx_state c = TU_CTX_ACTIVE" "tu_ctx_alloc empty_manager = Some (0, empty_manager
    \<lparr>cm_contexts := [c, idle_context 1], cm_active_ctx_id := 0, cm_active_count := 1\<rparr>)"
proof -
  let ?b = "blank_context\<lparr>cx_ctx_id := 0, cx_state := TU_CTX_READY, cx_priority := 128\<rparr>"
  obtain c where c: "ctx_save_full_state empty_manager (co_state (cm_core empty_manager)) ?b = Some (0, c)" "cx_state c = cx_state ?b"
    by (rule saved_snapshot [OF fresh_fields(1,5)])
  have f: "List.find (\<lambda>i. state_at empty_manager i = TU_CTX_IDLE) [0..<unat (cm_max_contexts empty_manager)] = Some 0"
    by (simp add: fresh_fields idle_context_def upt_rec)
  have "tu_ctx_alloc empty_manager = Some (0, empty_manager
      \<lparr>cm_contexts := [c\<lparr>cx_state := TU_CTX_ACTIVE\<rparr>, idle_context 1], cm_active_ctx_id := 0, cm_active_count := 1\<rparr>)"
    by (simp only: tu_ctx_alloc_def f option.case of_nat_0 c(1)) (simp add: c(1) [unfolded fresh_fields(1)] set_context_def fresh_fields Let_def)
  then show ?thesis by (intro that [of "c\<lparr>cx_state := TU_CTX_ACTIVE\<rparr>"]) simp_all
qed

lemma one_context_fields:
  "tu_ctx_alloc empty_manager = Some (0, one_context)" "cm_core one_context = small_core" "cm_max_contexts one_context = 2"
  "cm_active_count one_context = 1" "cm_active_ctx_id one_context = 0" "length (cm_contexts one_context) = 2"
  "state_at one_context 0 = TU_CTX_ACTIVE" "state_at one_context (Suc 0) = TU_CTX_IDLE"
  "cm_save_scope one_context = TU_CTX_SAVE_FULL_SRAM" "cm_sched_policy one_context = TU_CTX_SCHED_ROUND_ROBIN"
  by (rule first_allocation; simp add: one_context_def fresh_fields idle_context_def)+

lemma second_allocation:
  obtains c where "cx_state c = TU_CTX_READY" "tu_ctx_alloc one_context = Some (1, one_context
    \<lparr>cm_contexts := (cm_contexts one_context)[1 := c], cm_active_count := 2\<rparr>)"
proof -
  let ?b = "blank_context\<lparr>cx_ctx_id := 1, cx_state := TU_CTX_READY, cx_priority := 128\<rparr>"
  obtain c where c: "ctx_save_full_state one_context (co_state (cm_core one_context)) ?b = Some (0, c)" "cx_state c = cx_state ?b"
    by (rule saved_snapshot [OF one_context_fields(2,9)])
  have f: "List.find (\<lambda>i. state_at one_context i = TU_CTX_IDLE) [0..<unat (cm_max_contexts one_context)] = Some 1"
    by (simp add: one_context_fields upt_rec)
  have "tu_ctx_alloc one_context = Some (1, one_context
      \<lparr>cm_contexts := (cm_contexts one_context)[1 := c], cm_active_count := 2\<rparr>)"
    by (simp only: tu_ctx_alloc_def f option.case of_nat_1 c(1)) (simp add: set_context_def one_context_fields Let_def)
  then show ?thesis using c(2) by (intro that [of c]) simp_all
qed

lemma sample_fields:
  "cm_save_scope two_contexts = TU_CTX_SAVE_FULL_SRAM" "length (cm_contexts two_contexts) = 2"
  "state_at two_contexts 0 = TU_CTX_ACTIVE" "state_at two_contexts (Suc 0) = TU_CTX_READY"
  "cm_sched_policy two_contexts = TU_CTX_SCHED_ROUND_ROBIN" "cm_active_ctx_id two_contexts = 0"
  "cm_max_contexts two_contexts = 2" "cm_active_count two_contexts = 2"
  "tu_ctx_alloc one_context = Some (1, two_contexts)"
  by (rule second_allocation; simp add: two_contexts_def one_context_fields)+

lemma samples_reachable: "ctx_reachable one_context" "ctx_reachable two_contexts"
proof -
  have "ctx_reachable empty_manager" by (rule ctx_reachable.create [OF small_machine fresh_manager])
  then show "ctx_reachable one_context" by (rule ctx_reachable.step) (rule ctx_step.alloc [OF one_context_fields(1)])
  then show "ctx_reachable two_contexts" by (rule ctx_reachable.step) (rule ctx_step.alloc [OF sample_fields(9)])
qed

lemma sample_ring: "ring_from 0 2 = [1, 0]"
  by code_simp

lemma sample_next: "tu_ctx_schedule_next two_contexts = 1"
proof -
  have "round_robin_next two_contexts = first_ready two_contexts (ring_from 0 2)"
    using round_robin_ring [of two_contexts] by (simp add: sample_fields)
  then show ?thesis by (simp add: tu_ctx_schedule_next_def sample_fields sample_ring first_ready_def)
qed

text \<open>A program that overwrites the weight buffer.\<close>

definition scribble :: "tu_core \<Rightarrow> tu_core" where
  "scribble core = core\<lparr>co_state := (co_state core)\<lparr>ts_sram_w := (ts_sram_w (co_state core))\<lparr>sr_banks :=
     (sr_banks (ts_sram_w (co_state core)))\<lparr>sb_data := map (\<lambda>_. 255) (sb_data (sr_banks (ts_sram_w (co_state core))))\<rparr>\<rparr>\<rparr>\<rparr>"

lemma scribble_same_machine: "machine_ok c \<Longrightarrow> same_machine c (scribble c)"
  by (simp add: machine_ok_def same_machine_def scribble_def sizes_def tu_regions_def has_buffers_def present_def)

theorem contexts_accounted_for_witness:
  "card {i. i < length (cm_contexts two_contexts) \<and> state_at two_contexts i = TU_CTX_ACTIVE} \<le> 1 \<and>
   2 = card (allocated two_contexts)"
  using contexts_accounted_for [OF samples_reachable(2)] by (simp add: sample_fields)

theorem context_switch_isolated_witness:
  "\<exists>mgr1 mgr2. tu_ctx_switch 1 two_contexts = Some (0, mgr1) \<and>
    tu_ctx_switch 0 (mgr1\<lparr>cm_core := scribble (cm_core mgr1)\<rparr>) = Some (0, mgr2) \<and>
    visible (co_state (cm_core mgr2)) = visible (co_state (cm_core two_contexts)) \<and>
    metering_modes (co_state (cm_core mgr2)) = metering_modes (co_state (scribble (cm_core mgr1)))"
  by (rule context_switch_isolated [OF samples_reachable(2)]) (simp_all add: sample_fields scribble_same_machine)

theorem round_robin_searches_the_ring_witness:
  "tu_ctx_schedule_next two_contexts = first_ready two_contexts (ring_from 0 2) \<and> ring_from 0 2 = [1, 0]"
  using round_robin_searches_the_ring [where mgr = two_contexts] by (simp add: sample_fields sample_ring)

theorem scheduled_context_runs_witness:
  "\<exists>mgr'. tu_ctx_request_switch two_contexts = Some (0, mgr') \<and> 1 = unat (cm_active_ctx_id mgr') \<and>
    state_at mgr' (unat (cm_active_ctx_id mgr')) = TU_CTX_ACTIVE"
proof -
  have "unat (cm_max_contexts two_contexts) \<le> 2147483648" by (simp add: sample_fields)
  from scheduled_context_runs [OF samples_reachable(2) this] obtain mgr' where
    "tu_ctx_request_switch two_contexts = Some (0, mgr')" "1 = int (unat (cm_active_ctx_id mgr'))"
    "state_at mgr' (unat (cm_active_ctx_id mgr')) = TU_CTX_ACTIVE"
    unfolding sample_next by fastforce
  then show ?thesis by (intro exI [of _ mgr'] conjI) (assumption | linarith)+
qed

theorem freeing_an_idle_context_witness:
  "\<exists>mgr1 r mgr2. tu_ctx_free 1 one_context = Some mgr1 \<and> tu_ctx_alloc mgr1 = Some (r, mgr2) \<and>
    cm_active_ctx_id mgr2 \<noteq> 0 \<and> state_at mgr2 0 = TU_CTX_ACTIVE \<and>
    state_at mgr2 (unat (cm_active_ctx_id mgr2)) = TU_CTX_ACTIVE"
  using freeing_an_idle_context [where mgr = one_context and a = 0 and c = 1, OF samples_reachable(1)]
  by (simp add: one_context_fields)

end
