(* ===== verification/Cluster.thy ===== *)
theory Cluster
  imports Core "HOL-Library.Monad_Syntax"
begin

text \<open>
  The cluster of \<open>tu_cluster.c\<close>: cores on a ring or a mesh, the distance and the deterministic routes
  between them, the traffic estimate, transfers between output buffers, broadcast and barrier.
  \<open>None\<close> is a division by zero or a walk that does not end. Allocation succeeds; the bytes a fresh
  buffer holds are an argument of the transfers. The all-reduce adds floats and the SPMD execution runs
  the assembler; both are left out.
\<close>

section \<open>Data\<close>

datatype tu_topology = TU_TOPOLOGY_NONE | TU_TOPOLOGY_RING | TU_TOPOLOGY_MESH

definition TU_ICC_SWITCH_LEGACY_HOP_ONLY :: int where "TU_ICC_SWITCH_LEGACY_HOP_ONLY = 0"
definition TU_ICC_SWITCH_CUT_THROUGH :: int where "TU_ICC_SWITCH_CUT_THROUGH = 1"
definition TU_ICC_SWITCH_STORE_FORWARD :: int where "TU_ICC_SWITCH_STORE_FORWARD = 2"
definition TU_ICC_SWITCHING_MODE :: int where "TU_ICC_SWITCHING_MODE = 0"
definition TU_ICC_LINK_BYTES_PER_CYCLE :: u32 where "TU_ICC_LINK_BYTES_PER_CYCLE = 16"
definition TU_ICC_ROUTER_LATENCY_CYCLES :: u32 where "TU_ICC_ROUTER_LATENCY_CYCLES = 5"
definition TU_ICC_CONTENTION_IDEAL_PARALLEL :: int where "TU_ICC_CONTENTION_IDEAL_PARALLEL = 0"
definition TU_ICC_CONTENTION_SHARED_LINK :: int where "TU_ICC_CONTENTION_SHARED_LINK = 1"
definition TU_ICC_CONTENTION_MODE :: int where "TU_ICC_CONTENTION_MODE = 0"
definition TU_ICC_MESH_ROUTE_XY :: int where "TU_ICC_MESH_ROUTE_XY = 0"
definition TU_ICC_MESH_ROUTE_YX :: int where "TU_ICC_MESH_ROUTE_YX = 1"
definition TU_ICC_MESH_ROUTING_MODE :: int where "TU_ICC_MESH_ROUTING_MODE = 0"

lemmas icc_defs = TU_ICC_SWITCH_LEGACY_HOP_ONLY_def TU_ICC_SWITCH_CUT_THROUGH_def TU_ICC_SWITCH_STORE_FORWARD_def
  TU_ICC_CONTENTION_IDEAL_PARALLEL_def TU_ICC_CONTENTION_SHARED_LINK_def TU_ICC_MESH_ROUTE_XY_def TU_ICC_MESH_ROUTE_YX_def

record tu_icc_message =
  im_src_core_id :: u32
  im_dst_core_id :: u32
  im_src_offset :: u32
  im_dst_offset :: u32
  im_size_bytes :: u32
  im_tag :: u32
  im_blocking :: bool
  im_latency_cycles :: u64

record tu_icc_traffic_stats =
  it_isolated_cycles :: u64
  it_estimated_cycles :: u64
  it_bottleneck_link_cycles :: u64
  it_bottleneck_src :: u32
  it_bottleneck_dst :: u32

text \<open>The bandwidth, a double that stays 0, as its bit pattern.\<close>

record tu_cluster_stats =
  cs_total_icc_messages :: u64
  cs_total_icc_bytes :: u64
  cs_total_icc_cycles :: u64
  cs_total_barriers :: u64
  cs_icc_bandwidth_gbps :: u64

record tu_cluster =
  cl_num_cores :: u32
  cl_cluster_id :: u32
  cl_topology :: tu_topology
  cl_mesh_rows :: u32
  cl_mesh_cols :: u32
  cl_cores :: "tu_core list"
  cl_hop_latency :: u32
  cl_switching_mode :: int
  cl_contention_mode :: int
  cl_mesh_routing_mode :: int
  cl_link_bytes_per_cycle :: u32
  cl_stats :: tu_cluster_stats
  cl_initialized :: bool
  cl_barrier_counter :: u32

section \<open>Creation\<close>

text \<open>The cores in the order of their identifiers; a core that is not created ends the creation, and
  the first one is the only one that can fail, so that there is nothing to destroy.\<close>

fun create_cores :: "tu_runtime_config \<Rightarrow> nat list \<Rightarrow> tu_world \<Rightarrow> tu_core list option \<times> tu_world" where
  "create_cores cfg [] w = (Some [], w)"
| "create_cores cfg (i # is) w =
    (case tu_core_create_with_id (of_nat i) cfg w of
       (None, w1) \<Rightarrow> (None, w1)
     | (Some core, w1) \<Rightarrow> (let (cores, w2) = create_cores cfg is w1 in (map_option ((#) core) cores, w2)))"

definition tu_cluster_create ::
  "u32 \<Rightarrow> tu_topology \<Rightarrow> u32 \<Rightarrow> tu_runtime_config option \<Rightarrow> tu_world \<Rightarrow> tu_cluster option \<times> tu_world" where
  "tu_cluster_create num_cores topology mesh_rows base_config w =
    (if num_cores = 0 \<or> num_cores > 256 then (None, w)
     else if topology = TU_TOPOLOGY_MESH \<and> mesh_rows = 0 then (None, w)
     else
       let (cores, w1) = create_cores (case base_config of Some c \<Rightarrow> c | None \<Rightarrow> tu_runtime_config_default)
             [0..<unat num_cores] w
       in (map_option (\<lambda>cores.
             \<lparr>cl_num_cores = num_cores, cl_cluster_id = 0, cl_topology = topology,
              cl_mesh_rows = (if topology = TU_TOPOLOGY_MESH then mesh_rows else 0),
              cl_mesh_cols = (if topology = TU_TOPOLOGY_MESH then (num_cores + mesh_rows - 1) div mesh_rows else 0),
              cl_cores = cores,
              cl_hop_latency = (case base_config of Some c \<Rightarrow> icc_router_latency_cycles c
                                | None \<Rightarrow> TU_ICC_ROUTER_LATENCY_CYCLES),
              cl_switching_mode = (case base_config of Some c \<Rightarrow> icc_switching_mode c | None \<Rightarrow> TU_ICC_SWITCHING_MODE),
              cl_contention_mode = (case base_config of Some c \<Rightarrow> icc_contention_mode c | None \<Rightarrow> TU_ICC_CONTENTION_MODE),
              cl_mesh_routing_mode = (case base_config of Some c \<Rightarrow> icc_mesh_routing_mode c
                                      | None \<Rightarrow> TU_ICC_MESH_ROUTING_MODE),
              cl_link_bytes_per_cycle = (case base_config of Some c \<Rightarrow> icc_link_bytes_per_cycle c
                                         | None \<Rightarrow> TU_ICC_LINK_BYTES_PER_CYCLE),
              cl_stats = \<lparr>cs_total_icc_messages = 0, cs_total_icc_bytes = 0, cs_total_icc_cycles = 0,
                cs_total_barriers = 0, cs_icc_bandwidth_gbps = 0\<rparr>,
              cl_initialized = True, cl_barrier_counter = 0\<rparr>) cores, w1))"

definition tu_cluster_get_core :: "tu_cluster \<Rightarrow> u32 \<Rightarrow> tu_core option" where
  "tu_cluster_get_core cl core_id =
    (if core_id \<ge> cl_num_cores cl then None else Some (cl_cores cl ! unat core_id))"

section \<open>Distances\<close>

definition tu_abs_diff :: "u32 \<Rightarrow> u32 \<Rightarrow> u32" where
  "tu_abs_diff a b = (if a > b then a - b else b - a)"

definition tu_cluster_hop_distance :: "tu_cluster \<Rightarrow> u32 \<Rightarrow> u32 \<Rightarrow> u32 option" where
  "tu_cluster_hop_distance cl src dst =
    (let n = cl_num_cores cl; cols = cl_mesh_cols cl
     in if src \<ge> n \<or> dst \<ge> n then Some UINT32_MAX
        else if src = dst then Some 0
        else case cl_topology cl of
          TU_TOPOLOGY_NONE \<Rightarrow> Some UINT32_MAX
        | TU_TOPOLOGY_RING \<Rightarrow>
            (let forward = (dst + n - src) mod n; backward = (src + n - dst) mod n
             in Some (if forward < backward then forward else backward))
        | TU_TOPOLOGY_MESH \<Rightarrow>
            (if cols = 0 then None
             else if src div cols \<ge> cl_mesh_rows cl \<or> dst div cols \<ge> cl_mesh_rows cl then Some UINT32_MAX
             else Some (tu_abs_diff (src div cols) (dst div cols) + tu_abs_diff (src mod cols) (dst mod cols))))"

definition tu_cluster_estimate_transfer_cycles :: "tu_cluster \<Rightarrow> u32 \<Rightarrow> u32 \<Rightarrow> u32 \<Rightarrow> u64 option" where
  "tu_cluster_estimate_transfer_cycles cl src dst bytes = do {
     hops \<leftarrow> tu_cluster_hop_distance cl src dst;
     let link = (ucast (cl_link_bytes_per_cycle cl) :: u64);
     let route_cycles = ucast hops * ucast (cl_hop_latency cl);
     let serialization = (ucast bytes + link - 1) div link;
     Some (if hops = UINT32_MAX then UINT64_MAX
           else if hops = 0 \<or> bytes = 0 then 0
           else if cl_switching_mode cl = TU_ICC_SWITCH_LEGACY_HOP_ONLY then route_cycles
           else if cl_link_bytes_per_cycle cl = 0 then UINT64_MAX
           else if cl_switching_mode cl = TU_ICC_SWITCH_CUT_THROUGH then route_cycles + serialization
           else if cl_switching_mode cl = TU_ICC_SWITCH_STORE_FORWARD
             then ucast hops * (ucast (cl_hop_latency cl) + serialization)
           else UINT64_MAX) }"

section \<open>Routes\<close>

definition add_link_service :: "u32 \<Rightarrow> u32 \<Rightarrow> u32 \<Rightarrow> u64 \<Rightarrow> u64 list \<Rightarrow> u64 list" where
  "add_link_service n src dst service links =
    (let i = unat src * unat n + unat dst in links[i := links ! i + service])"

text \<open>The three loops of the router: until \<open>stop\<close> holds, step to the next core, or fail when there is none.\<close>

partial_function (option) route_walk ::
  "(u32 \<Rightarrow> bool) \<Rightarrow> (u32 \<Rightarrow> u32 option) \<Rightarrow> u32 \<Rightarrow> u64 \<Rightarrow> u32 \<Rightarrow> u64 list \<Rightarrow> (int \<times> u32 \<times> u64 list) option" where
  "route_walk stop nxt n service cur links =
    (if stop cur then Some (0, cur, links)
     else case nxt cur of
            None \<Rightarrow> Some (- 1, cur, links)
          | Some next \<Rightarrow> route_walk stop nxt n service next (add_link_service n cur next service links))"

definition ring_next :: "bool \<Rightarrow> u32 \<Rightarrow> u32 \<Rightarrow> u32 option" where
  "ring_next clockwise n cur = Some (if clockwise then (cur + 1) mod n else (cur + n - 1) mod n)"

definition x_next :: "u32 \<Rightarrow> u32 \<Rightarrow> u32 \<Rightarrow> u32 \<Rightarrow> u32 option" where
  "x_next n cols dst_col cur =
    (let next = (if cur mod cols < dst_col then cur + 1 else cur - 1)
     in if next \<ge> n \<or> next div cols \<noteq> cur div cols then None else Some next)"

definition y_next :: "u32 \<Rightarrow> u32 \<Rightarrow> u32 \<Rightarrow> u32 \<Rightarrow> u32 option" where
  "y_next n cols dst_row cur =
    (let next = (if cur div cols < dst_row then cur + cols else cur - cols)
     in if next \<ge> n then None else Some next)"

text \<open>One dimension of a mesh route; a failed one leaves what it has charged.\<close>

definition mesh_dimension ::
  "tu_cluster \<Rightarrow> u32 \<Rightarrow> u64 \<Rightarrow> bool \<Rightarrow> u32 \<Rightarrow> u64 list \<Rightarrow> (int \<times> u32 \<times> u64 list) option" where
  "mesh_dimension cl dst service route_x cur links =
    (let n = cl_num_cores cl; cols = cl_mesh_cols cl
     in if route_x then route_walk (\<lambda>cur. cur mod cols = dst mod cols) (x_next n cols (dst mod cols)) n service cur links
        else route_walk (\<lambda>cur. cur div cols = dst div cols) (y_next n cols (dst div cols)) n service cur links)"

definition add_route_service :: "tu_cluster \<Rightarrow> u32 \<Rightarrow> u32 \<Rightarrow> u64 \<Rightarrow> u64 list \<Rightarrow> (int \<times> u64 list) option" where
  "add_route_service cl src dst service links =
    (let n = cl_num_cores cl
     in case cl_topology cl of
          TU_TOPOLOGY_RING \<Rightarrow>
            if n = 0 then None
            else map_option (\<lambda>(r, cur, links). (r, links))
              (route_walk (\<lambda>cur. cur = dst) (ring_next ((dst + n - src) mod n \<le> (src + n - dst) mod n) n) n service src links)
        | TU_TOPOLOGY_MESH \<Rightarrow>
            if cl_mesh_cols cl = 0 then None
            else
              let x_first = (cl_mesh_routing_mode cl = TU_ICC_MESH_ROUTE_XY)
              in if \<not> x_first \<and> cl_mesh_routing_mode cl \<noteq> TU_ICC_MESH_ROUTE_YX then Some (- 1, links)
                 else do {
                   (r, cur, links) \<leftarrow> mesh_dimension cl dst service x_first src links;
                   if r \<noteq> 0 then Some (- 1, links)
                   else do {
                     (r, cur, links) \<leftarrow> mesh_dimension cl dst service (\<not> x_first) cur links;
                     Some (if r \<noteq> 0 then - 1 else 0, links) } }
        | TU_TOPOLOGY_NONE \<Rightarrow> Some (if src = dst then 0 else - 1, links))"

section \<open>Traffic\<close>

text \<open>The messages of an estimate: the statistics, the longest route and the load of every link so far.
  A message to its own core with a link width of 0 divides by it in the switching modes that serialise.\<close>

fun traffic_messages ::
  "tu_cluster \<Rightarrow> tu_icc_message list \<Rightarrow> tu_icc_traffic_stats \<times> u64 \<times> u64 list \<Rightarrow>
    (int \<times> tu_icc_traffic_stats \<times> u64 \<times> u64 list) option" where
  "traffic_messages cl [] (stats, max_route_cycles, links) = Some (0, stats, max_route_cycles, links)"
| "traffic_messages cl (m # ms) (stats, max_route_cycles, links) = do {
     isolated \<leftarrow> tu_cluster_estimate_transfer_cycles cl (im_src_core_id m) (im_dst_core_id m) (im_size_bytes m);
     if isolated = UINT64_MAX then Some (- 1, stats, max_route_cycles, links)
     else do {
       let stats = (if isolated > it_isolated_cycles stats then stats\<lparr>it_isolated_cycles := isolated\<rparr> else stats);
       hops \<leftarrow> tu_cluster_hop_distance cl (im_src_core_id m) (im_dst_core_id m);
       let route = (ucast hops :: u64) * ucast (cl_hop_latency cl);
       let max_route_cycles = max route max_route_cycles;
       let link = (ucast (cl_link_bytes_per_cycle cl) :: u64);
       let serial = (cl_switching_mode cl \<noteq> TU_ICC_SWITCH_LEGACY_HOP_ONLY \<and> im_size_bytes m \<noteq> 0);
       if serial \<and> link = 0 then None
       else do {
         (r, links) \<leftarrow> add_route_service cl (im_src_core_id m) (im_dst_core_id m)
           (if serial then (ucast (im_size_bytes m) + link - 1) div link else 0) links;
         if r \<noteq> 0 then Some (- 1, stats, max_route_cycles, links)
         else traffic_messages cl ms (stats, max_route_cycles, links) } } }"

definition bottleneck_step :: "u32 \<Rightarrow> u64 list \<Rightarrow> nat \<times> nat \<Rightarrow> tu_icc_traffic_stats \<Rightarrow> tu_icc_traffic_stats" where
  "bottleneck_step n links sd stats =
    (let load = links ! (fst sd * unat n + snd sd)
     in if load > it_bottleneck_link_cycles stats
        then stats\<lparr>it_bottleneck_link_cycles := load, it_bottleneck_src := of_nat (fst sd),
          it_bottleneck_dst := of_nat (snd sd)\<rparr>
        else stats)"

definition tu_cluster_estimate_traffic_cycles ::
  "tu_cluster \<Rightarrow> tu_icc_message list \<Rightarrow> (int \<times> tu_icc_traffic_stats) option" where
  "tu_cluster_estimate_traffic_cycles cl messages =
    (let n = cl_num_cores cl;
         stats = \<lparr>it_isolated_cycles = 0, it_estimated_cycles = 0, it_bottleneck_link_cycles = 0,
           it_bottleneck_src = UINT32_MAX, it_bottleneck_dst = UINT32_MAX\<rparr>
     in if messages = [] then Some (0, stats)
        else do {
          (r, stats, max_route_cycles, links) \<leftarrow>
            traffic_messages cl messages (stats, 0, replicate (unat n * unat n) 0);
          if r \<noteq> 0 then Some (- 1, stats)
          else do {
            let stats = fold (bottleneck_step n links) (List.product [0..<unat n] [0..<unat n]) stats;
            let stats = stats\<lparr>it_estimated_cycles := it_isolated_cycles stats\<rparr>;
            Some (if cl_contention_mode cl = TU_ICC_CONTENTION_SHARED_LINK
                  then (0, stats\<lparr>it_estimated_cycles :=
                    max (it_bottleneck_link_cycles stats + max_route_cycles) (it_estimated_cycles stats)\<rparr>)
                  else if cl_contention_mode cl \<noteq> TU_ICC_CONTENTION_IDEAL_PARALLEL then (- 1, stats)
                  else (0, stats)) } })"

section \<open>Neighbours\<close>

text \<open>The four entries and their number; the mesh fills them from the front.\<close>

definition mesh_neighbors :: "tu_cluster \<Rightarrow> u32 \<Rightarrow> u32 list" where
  "mesh_neighbors cl core_id =
    (let cols = cl_mesh_cols cl; row = core_id div cols; col = core_id mod cols
     in (if row > 0 then [core_id - cols] else [])
      @ (if row + 1 < cl_mesh_rows cl \<and> core_id + cols < cl_num_cores cl then [core_id + cols] else [])
      @ (if col > 0 then [core_id - 1] else [])
      @ (if col + 1 < cols \<and> core_id + 1 < cl_num_cores cl \<and> (core_id + 1) div cols = row then [core_id + 1] else []))"

definition tu_cluster_neighbors :: "tu_cluster \<Rightarrow> u32 \<Rightarrow> (u32 list \<times> u32) option" where
  "tu_cluster_neighbors cl core_id =
    (let none = replicate 4 UINT32_MAX; n = cl_num_cores cl
     in if core_id \<ge> n then Some (none, 0)
        else case cl_topology cl of
          TU_TOPOLOGY_NONE \<Rightarrow> Some (none, 0)
        | TU_TOPOLOGY_RING \<Rightarrow>
            (let prev = (core_id + n - 1) mod n; next = (core_id + 1) mod n;
                 prev = (if prev = core_id then UINT32_MAX else prev);
                 next = (if next = core_id then UINT32_MAX else next)
             in Some (none[0 := prev, 1 := next],
                  (if prev \<noteq> UINT32_MAX then 1 else 0) + (if next \<noteq> UINT32_MAX then 1 else 0)))
        | TU_TOPOLOGY_MESH \<Rightarrow>
            (if cl_mesh_cols cl = 0 then None
             else let ids = mesh_neighbors cl core_id
                  in Some (ids @ drop (length ids) none, of_nat (length ids))))"

section \<open>Transfers\<close>

definition set_core :: "u32 \<Rightarrow> tu_core \<Rightarrow> tu_cluster \<Rightarrow> tu_cluster" where
  "set_core i core cl = cl\<lparr>cl_cores := (cl_cores cl)[unat i := core]\<rparr>"

definition with_sram_o :: "tu_sram_region \<Rightarrow> tu_core \<Rightarrow> tu_core" where
  "with_sram_o r core = core\<lparr>co_state := (co_state core)\<lparr>ts_sram_o := r\<rparr>\<rparr>"

definition add_core_cycles :: "u64 \<Rightarrow> tu_core \<Rightarrow> tu_core" where
  "add_core_cycles cycles core =
    core\<lparr>co_state := (co_state core)\<lparr>ts_estimated_cycles := ts_estimated_cycles (co_state core) + cycles\<rparr>\<rparr>"

text \<open>The copy through a fresh buffer, which keeps its bytes when the read is refused.\<close>

definition tu_cluster_send :: "u8 list \<Rightarrow> tu_cluster \<Rightarrow> tu_icc_message \<Rightarrow> (int \<times> tu_cluster) option" where
  "tu_cluster_send fresh cl msg =
    (let src = im_src_core_id msg; dst = im_dst_core_id msg; bytes = im_size_bytes msg;
         src_core = cl_cores cl ! unat src; dst_core = cl_cores cl ! unat dst
     in if src \<ge> cl_num_cores cl \<or> dst \<ge> cl_num_cores cl then Some (- 1, cl)
        else if bytes = 0 then Some (0, cl)
        else if \<not> co_initialized src_core \<or> \<not> co_initialized dst_core then Some (- 1, cl)
        else if im_src_offset msg + bytes > sr_total_size (ts_sram_o (co_state src_core)) then Some (- 1, cl)
        else if im_dst_offset msg + bytes > sr_total_size (ts_sram_o (co_state dst_core)) then Some (- 1, cl)
        else do {
          latency \<leftarrow> tu_cluster_estimate_transfer_cycles cl src dst bytes;
          if latency = UINT64_MAX then Some (- 1, cl)
          else do {
            let (_, out, _, r) = tu_sram_read_bulk (ts_sram_o (co_state src_core)) (im_src_offset msg) bytes;
            let tmp = (case out of None \<Rightarrow> fresh | Some bs \<Rightarrow> bs);
            let cl = set_core src (with_sram_o r src_core) cl;
            let dst_core = cl_cores cl ! unat dst;
            let (_, _, r) = tu_sram_write_bulk (ts_sram_o (co_state dst_core)) (im_dst_offset msg) tmp bytes;
            let cl = set_core dst (add_core_cycles latency (with_sram_o r dst_core)) cl;
            let stats = cl_stats cl;
            Some (0, cl\<lparr>cl_stats := stats\<lparr>cs_total_icc_messages := cs_total_icc_messages stats + 1,
              cs_total_icc_bytes := cs_total_icc_bytes stats + ucast bytes,
              cs_total_icc_cycles := cs_total_icc_cycles stats + latency\<rparr>\<rparr>) } })"

fun broadcast_to :: "(nat \<Rightarrow> u8 list) \<Rightarrow> tu_icc_message \<Rightarrow> nat list \<Rightarrow> tu_cluster \<Rightarrow> (int \<times> tu_cluster) option" where
  "broadcast_to fresh msg [] cl = Some (0, cl)"
| "broadcast_to fresh msg (dst # ds) cl =
    (if of_nat dst = im_src_core_id msg then broadcast_to fresh msg ds cl
     else do {
       (rc, cl) \<leftarrow> tu_cluster_send (fresh dst) cl (msg\<lparr>im_dst_core_id := of_nat dst\<rparr>);
       if rc \<noteq> 0 then Some (rc, cl) else broadcast_to fresh msg ds cl })"

definition tu_cluster_broadcast ::
  "(nat \<Rightarrow> u8 list) \<Rightarrow> tu_cluster \<Rightarrow> u32 \<Rightarrow> u32 \<Rightarrow> u32 \<Rightarrow> u32 \<Rightarrow> (int \<times> tu_cluster) option" where
  "tu_cluster_broadcast fresh cl src_core_id src_offset dst_offset bytes =
    (if src_core_id \<ge> cl_num_cores cl then Some (- 1, cl)
     else if bytes = 0 then Some (0, cl)
     else broadcast_to fresh
       \<lparr>im_src_core_id = src_core_id, im_dst_core_id = 0, im_src_offset = src_offset, im_dst_offset = dst_offset,
        im_size_bytes = bytes, im_tag = 0, im_blocking = True, im_latency_cycles = 0\<rparr>
       [0..<unat (cl_num_cores cl)] cl)"

definition tu_cluster_barrier :: "tu_cluster \<Rightarrow> int \<times> tu_cluster" where
  "tu_cluster_barrier cl =
    (let barrier_cycles = ucast (cl_hop_latency cl * 2); stats = cl_stats cl
     in (0, cl\<lparr>cl_stats := stats\<lparr>cs_total_barriers := cs_total_barriers stats + 1\<rparr>,
          cl_cores := map (add_core_cycles barrier_cycles) (cl_cores cl)\<rparr>))"

section \<open>Distances in numbers\<close>

definition ndist :: "nat \<Rightarrow> nat \<Rightarrow> nat" where
  "ndist a b = (a - b) + (b - a)"

lemma ndist_simps [simp]: "ndist a a = 0" "ndist a b = ndist b a \<longleftrightarrow> True" "ndist a b = 0 \<longleftrightarrow> a = b"
  by (auto simp: ndist_def)

lemma ndist_one: "ndist a b = 1 \<longleftrightarrow> a = Suc b \<or> b = Suc a"
  by (auto simp: ndist_def)

text \<open>Cells one apart in a grid of \<open>c\<close> columns.\<close>

lemma grid_adjacent:
  fixes i j c :: nat
  assumes "0 < c"
  shows "ndist (i div c) (j div c) + ndist (i mod c) (j mod c) = 1 \<longleftrightarrow>
    j = i + c \<or> i = j + c \<or> (j = Suc i \<or> i = Suc j) \<and> i div c = j div c"
proof
  assume "ndist (i div c) (j div c) + ndist (i mod c) (j mod c) = 1"
  then consider "ndist (i div c) (j div c) = 1" "i mod c = j mod c" | "i div c = j div c" "ndist (i mod c) (j mod c) = 1"
    unfolding One_nat_def add_is_1 ndist_simps(3) by blast
  then show "j = i + c \<or> i = j + c \<or> (j = Suc i \<or> i = Suc j) \<and> i div c = j div c"
  proof cases
    case 1
    then have "i div c = Suc (j div c) \<or> j div c = Suc (i div c)" by (simp only: ndist_one)
    then have "i div c * c = j div c * c + c \<or> j div c * c = i div c * c + c" by (elim disjE) simp_all
    then show ?thesis using div_mod_decomp [of i c] div_mod_decomp [of j c] 1(2) by linarith
  next
    case 2
    then have "i mod c = Suc (j mod c) \<or> j mod c = Suc (i mod c)" by (simp only: ndist_one)
    moreover have "i div c * c = j div c * c" using 2(1) by (simp only:)
    ultimately have "j = Suc i \<or> i = Suc j" using div_mod_decomp [of i c] div_mod_decomp [of j c] by linarith
    then show ?thesis using 2(1) by blast
  qed
next
  assume "j = i + c \<or> i = j + c \<or> (j = Suc i \<or> i = Suc j) \<and> i div c = j div c"
  then show "ndist (i div c) (j div c) + ndist (i mod c) (j mod c) = 1"
  proof (elim disjE conjE)
    assume e: "j = Suc i" "i div c = j div c"
    then have "i div c * c = j div c * c" by (simp only:)
    then have "j mod c = Suc (i mod c)" using div_mod_decomp [of i c] div_mod_decomp [of j c] e(1) by linarith
    then show ?thesis using e(2) by (simp add: ndist_def)
  next
    assume e: "i = Suc j" "i div c = j div c"
    then have "i div c * c = j div c * c" by (simp only:)
    then have "i mod c = Suc (j mod c)" using div_mod_decomp [of i c] div_mod_decomp [of j c] e(1) by linarith
    then show ?thesis using e(2) by (simp add: ndist_def)
  qed (use assms in \<open>simp_all add: ndist_def div_add_self2\<close>)
qed

definition ring_ahead :: "nat \<Rightarrow> nat \<Rightarrow> nat \<Rightarrow> nat" where
  "ring_ahead n i j = (j + n - i) mod n"

lemma ring_ahead_cases:
  assumes "i < n" "j < n"
  shows "ring_ahead n i j = (if i \<le> j then j - i else j + n - i)"
  using assms by (auto simp: ring_ahead_def mod_if)

section \<open>Clusters as they are created\<close>

definition cluster_ok :: "tu_cluster \<Rightarrow> bool" where
  "cluster_ok cl \<longleftrightarrow> cl_num_cores cl \<noteq> 0 \<and> unat (cl_num_cores cl) \<le> 256 \<and> length (cl_cores cl) = unat (cl_num_cores cl) \<and>
     (cl_topology cl = TU_TOPOLOGY_MESH \<longrightarrow> cl_mesh_cols cl \<noteq> 0 \<and> unat (cl_mesh_cols cl) \<le> unat (cl_num_cores cl) \<and>
        unat (cl_num_cores cl) \<le> unat (cl_mesh_rows cl) * unat (cl_mesh_cols cl))"

definition hops :: "tu_cluster \<Rightarrow> nat \<Rightarrow> nat \<Rightarrow> nat" where
  "hops cl i j =
    (let n = unat (cl_num_cores cl); c = unat (cl_mesh_cols cl)
     in if cl_topology cl = TU_TOPOLOGY_RING then min (ring_ahead n i j) (ring_ahead n j i)
        else ndist (i div c) (j div c) + ndist (i mod c) (j mod c))"

lemma unat_u32_sub: "unat y \<le> unat x \<Longrightarrow> unat (x - y) = unat x - unat y" for x y :: u32
  by (simp add: unat_sub word_le_nat_alt)

lemma unat_abs_diff: "unat (tu_abs_diff a b) = ndist (unat a) (unat b)"
  by (auto simp: tu_abs_diff_def ndist_def unat_u32_sub word_less_nat_alt)

lemma unat_ring_ahead:
  assumes "unat n \<le> 256" "unat i < unat n" "unat j < unat n"
  shows "unat ((j + n - i) mod n :: u32) = ring_ahead (unat n) (unat i) (unat j)"
proof -
  have a: "unat (j + n) = unat j + unat n" using assms by (intro u32_add_exact) linarith
  have "unat (j + n - i) = unat j + unat n - unat i" using assms by (subst unat_u32_sub) (simp_all add: a)
  then show ?thesis by (simp add: unat_mod ring_ahead_def)
qed

lemma hops_small:
  assumes "cluster_ok cl" "i < unat (cl_num_cores cl)" "j < unat (cl_num_cores cl)"
  shows "hops cl i j < 512"
proof -
  have n: "unat (cl_num_cores cl) \<le> 256" using assms(1) by (simp add: cluster_ok_def)
  have "ring_ahead (unat (cl_num_cores cl)) i j < 256" unfolding ring_ahead_cases [OF assms(2,3)] using n assms(2,3) by auto
  moreover have "ndist (i div c) (j div c) + ndist (i mod c) (j mod c) < 512" for c
  proof -
    have "i div c \<le> i" "j div c \<le> j" "i mod c \<le> i" "j mod c \<le> j" by (simp_all add: div_le_dividend)
    then show ?thesis using n assms(2,3) unfolding ndist_def by linarith
  qed
  ultimately show ?thesis by (auto simp: hops_def Let_def)
qed

lemma row_inside:
  assumes "cluster_ok cl" "cl_topology cl = TU_TOPOLOGY_MESH" "unat i < unat (cl_num_cores cl)"
  shows "i div cl_mesh_cols cl < cl_mesh_rows cl"
proof -
  have "unat i < unat (cl_mesh_rows cl) * unat (cl_mesh_cols cl)" using assms by (simp add: cluster_ok_def)
  then show ?thesis by (simp add: word_less_nat_alt unat_div less_mult_imp_div_less)
qed

lemma hop_distance_hops:
  assumes "cluster_ok cl" "cl_topology cl \<noteq> TU_TOPOLOGY_NONE"
    and "unat src < unat (cl_num_cores cl)" "unat dst < unat (cl_num_cores cl)"
  shows "tu_cluster_hop_distance cl src dst = Some (of_nat (hops cl (unat src) (unat dst)))"
proof -
  let ?n = "cl_num_cores cl" and ?c = "cl_mesh_cols cl"
  have n: "unat ?n \<le> 256" using assms(1) by (simp add: cluster_ok_def)
  have lt: "\<not> src \<ge> ?n" "\<not> dst \<ge> ?n" using assms(3,4) by (simp_all add: word_le_nat_alt)
  show ?thesis
  proof (cases "src = dst")
    case True
    then show ?thesis using lt assms(4)
      by (simp add: tu_cluster_hop_distance_def Let_def hops_def ring_ahead_def ndist_def)
  next
    case False
    show ?thesis
    proof (cases "cl_topology cl")
      case TU_TOPOLOGY_RING
      have f: "unat ((dst + ?n - src) mod ?n) = ring_ahead (unat ?n) (unat src) (unat dst)"
        "unat ((src + ?n - dst) mod ?n) = ring_ahead (unat ?n) (unat dst) (unat src)"
        by (rule unat_ring_ahead [OF n assms(3,4)] unat_ring_ahead [OF n assms(4,3)])+
      have m: "(if x < y then x else y) = of_nat (min (unat x) (unat y))" for x y :: u32
      proof (cases "x < y")
        case False
        then have "min (unat x) (unat y) = unat y" by (simp add: word_less_nat_alt)
        then show ?thesis using False by simp
      qed (simp add: word_less_nat_alt)
      then show ?thesis using lt False TU_TOPOLOGY_RING
        by (simp only: tu_cluster_hop_distance_def Let_def hops_def f m if_False tu_topology.case if_True simp_thms)
    next
      case TU_TOPOLOGY_MESH
      have c: "?c \<noteq> 0" using assms(1) TU_TOPOLOGY_MESH by (simp add: cluster_ok_def)
      have r: "\<not> cl_mesh_rows cl \<le> src div ?c" "\<not> cl_mesh_rows cl \<le> dst div ?c"
        using row_inside [OF assms(1) TU_TOPOLOGY_MESH] assms(3,4) by (simp_all add: not_le)
      have e: "tu_abs_diff a b = of_nat (ndist (unat a) (unat b))" for a b
        by (simp flip: unat_abs_diff)
      show ?thesis using lt False TU_TOPOLOGY_MESH c r
        by (simp add: tu_cluster_hop_distance_def Let_def hops_def e unat_div unat_mod)
    qed (use assms(2) in simp)
  qed
qed

text \<open>Adjacency in the cluster, in numbers.\<close>

lemma one_hop:
  assumes "cluster_ok cl" "cl_topology cl \<noteq> TU_TOPOLOGY_NONE" "unat i < unat (cl_num_cores cl)"
  shows "tu_cluster_hop_distance cl i j = Some 1 \<longleftrightarrow> unat j < unat (cl_num_cores cl) \<and> hops cl (unat i) (unat j) = 1"
proof (cases "unat j < unat (cl_num_cores cl)")
  case True
  have "unat (of_nat (hops cl (unat i) (unat j)) :: u32) = hops cl (unat i) (unat j)"
    using hops_small [OF assms(1,3) True] by (intro unat_of_nat_u32) linarith
  moreover have "(of_nat m :: u32) = 1 \<longleftrightarrow> unat (of_nat m :: u32) = 1" for m by (simp add: word_unat_eq_iff)
  ultimately show ?thesis using hop_distance_hops [OF assms True] True by simp
next
  case False
  then have "j \<ge> cl_num_cores cl" by (simp add: word_le_nat_alt)
  then show ?thesis using False by (simp add: tu_cluster_hop_distance_def Let_def)
qed

section \<open>Neighbours are the cores at distance one\<close>

lemma u32_suc: "unat x < 4294967295 \<Longrightarrow> unat (x + 1) = Suc (unat x)" for x :: u32
  by (simp add: u32_add_exact)

lemma ring_ahead_one:
  assumes "i < n" "c < n"
  shows "ring_ahead n i c = 1 \<longleftrightarrow> 2 \<le> n \<and> c = Suc i mod n"
proof -
  have s: "Suc i mod n = (if Suc i = n then 0 else Suc i)" using assms(1) by auto
  show ?thesis unfolding s ring_ahead_cases [OF assms] using assms by auto
qed

lemma ring_ahead_zero: "i < n \<Longrightarrow> c < n \<Longrightarrow> ring_ahead n i c = 0 \<longleftrightarrow> i = c"
  by (auto simp: ring_ahead_cases)

lemma ring_min_one:
  assumes "i < n" "c < n"
  shows "min (ring_ahead n i c) (ring_ahead n c i) = 1 \<longleftrightarrow> 2 \<le> n \<and> (c = Suc i mod n \<or> i = Suc c mod n)"
proof (cases "i = c")
  case True
  have "i \<noteq> Suc i mod n" if "2 \<le> n" using that assms(1) by (cases "Suc i = n") auto
  moreover have "ring_ahead n i i = 0" using ring_ahead_zero assms(1) by blast
  ultimately show ?thesis using True by auto
next
  case False
  then have "0 < ring_ahead n i c" "0 < ring_ahead n c i" using ring_ahead_zero assms by (simp_all add: neq0_conv [symmetric])
  then have "min (ring_ahead n i c) (ring_ahead n c i) = 1 \<longleftrightarrow> ring_ahead n i c = 1 \<or> ring_ahead n c i = 1" by linarith
  then show ?thesis using ring_ahead_one assms by auto
qed

lemma suc_mod_prev:
  assumes "i < n" "c < n"
  shows "i = Suc c mod n \<longleftrightarrow> c = (i + n - 1) mod n"
proof -
  have "Suc c mod n = (if Suc c = n then 0 else Suc c)" using assms by auto
  moreover have "(i + n - 1) mod n = (if i = 0 then n - 1 else i - 1)" using assms by (auto simp: mod_if)
  ultimately show ?thesis using assms by auto
qed

lemma ring_steps:
  assumes "unat n \<le> 256" "unat i < unat n"
  shows "unat ((i + 1) mod n :: u32) = Suc (unat i) mod unat n" "unat ((i + n - 1) mod n :: u32) = (unat i + unat n - 1) mod unat n"
proof -
  have "unat (i + 1) = Suc (unat i)" using assms by (intro u32_suc) linarith
  then show "unat ((i + 1) mod n) = Suc (unat i) mod unat n" by (simp add: unat_mod)
  have a: "unat (i + n) = unat i + unat n" using assms by (intro u32_add_exact) linarith
  have "unat (i + n - 1) = unat i + unat n - 1" using assms by (subst unat_u32_sub) (simp_all add: a)
  then show "unat ((i + n - 1) mod n) = (unat i + unat n - 1) mod unat n" by (simp add: unat_mod)
qed

lemma u32_less_max: "unat x < 4294967295 \<Longrightarrow> x \<noteq> UINT32_MAX"
  by (auto)

lemma ring_neighbors:
  assumes "cluster_ok cl" "cl_topology cl = TU_TOPOLOGY_RING" "unat i < unat (cl_num_cores cl)"
  obtains ids k where "tu_cluster_neighbors cl i = Some (ids, k)" "length ids = 4"
    "set (take (unat k) ids) = {c. tu_cluster_hop_distance cl i c = Some 1}"
proof -
  let ?n = "cl_num_cores cl"
  let ?prev = "(i + ?n - 1) mod ?n" and ?next = "(i + 1) mod ?n"
  have n: "unat ?n \<le> 256" using assms(1) by (simp add: cluster_ok_def)
  note u = ring_steps [OF n assms(3)]
  have lt: "unat ?prev < unat ?n" "unat ?next < unat ?n" using assms(3) by (simp_all add: u)
  have nm: "?prev \<noteq> UINT32_MAX" "?next \<noteq> UINT32_MAX" using lt n by (intro u32_less_max; linarith)+
  have i: "\<not> i \<ge> ?n" using assms(3) by (simp add: word_le_nat_alt)
  have adj: "tu_cluster_hop_distance cl i c = Some 1 \<longleftrightarrow> unat c < unat ?n \<and> 2 \<le> unat ?n \<and> (c = ?next \<or> c = ?prev)" for c
  proof (cases "unat c < unat ?n")
    case True
    have "c = ?next \<longleftrightarrow> unat c = Suc (unat i) mod unat ?n" "c = ?prev \<longleftrightarrow> unat c = (unat i + unat ?n - 1) mod unat ?n"
      by (simp_all only: word_unat_eq_iff u)
    then show ?thesis using one_hop [OF assms(1) _ assms(3)] assms(2) True
        ring_min_one [OF assms(3) True] suc_mod_prev [OF assms(3) True] by (simp add: hops_def Let_def)
  qed (use one_hop [OF assms(1) _ assms(3)] assms(2) in simp)
  show ?thesis
  proof (cases "2 \<le> unat ?n")
    case True
    have ne: "?next \<noteq> i" "?prev \<noteq> i"
      using True assms(3) by (auto simp: word_unat_eq_iff u mod_Suc mod_if split: if_splits)
    let ?ids = "[?prev, ?next, UINT32_MAX, UINT32_MAX]"
    have e: "tu_cluster_neighbors cl i = Some (?ids, 2)"
      using i assms(2) ne nm by (simp add: tu_cluster_neighbors_def Let_def numeral_eq_Suc)
    have "unat (2 :: u32) = Suc (Suc 0)" by simp
    then have t: "take (unat (2 :: u32)) ?ids = [?prev, ?next]" by (simp only: take_Suc_Cons take_0)
    have "set [?prev, ?next] = {c. tu_cluster_hop_distance cl i c = Some 1}" unfolding adj using lt True by auto
    then have "set (take (unat (2 :: u32)) ?ids) = {c. tu_cluster_hop_distance cl i c = Some 1}" unfolding t .
    then show ?thesis by (intro that [OF e]) simp_all
  next
    case False
    then have "unat ?n = 1" using assms(3) by linarith
    then have ne: "?next = i" "?prev = i" using assms(3) by (simp_all add: word_unat_eq_iff u)
    have e: "tu_cluster_neighbors cl i = Some (replicate 4 UINT32_MAX, 0)"
      using i assms(2) ne by (simp add: tu_cluster_neighbors_def Let_def numeral_eq_Suc)
    show ?thesis by (rule that [OF e]) (use False adj in auto)
  qed
qed

lemma mesh_neighbors_set:
  assumes "cluster_ok cl" "cl_topology cl = TU_TOPOLOGY_MESH" "unat i < unat (cl_num_cores cl)"
  shows "c \<in> set (mesh_neighbors cl i) \<longleftrightarrow> unat c < unat (cl_num_cores cl) \<and> hops cl (unat i) (unat c) = 1"
proof -
  let ?n = "unat (cl_num_cores cl)" and ?k = "unat (cl_mesh_cols cl)"
  have ok: "?n \<le> 256" "0 < ?k" "?k \<le> ?n" "?n \<le> unat (cl_mesh_rows cl) * ?k"
    using assms(1,2) by (simp_all add: cluster_ok_def unat_gt_0)
  define x where "x = unat i"
  have x: "x < ?n" using assms(3) by (simp add: x_def)
  have a: "unat (i + cl_mesh_cols cl) = x + ?k" "unat (i + 1) = Suc x" "unat (i div cl_mesh_cols cl + 1) = Suc (x div ?k)"
    "unat (i mod cl_mesh_cols cl + 1) = Suc (x mod ?k)"
  proof -
    have d: "x div ?k \<le> x" "x mod ?k \<le> x" by (simp_all add: div_le_dividend)
    then have dlt: "x div ?k < 4294967295" "x mod ?k < 4294967295" using ok x by linarith+
    show "unat (i + cl_mesh_cols cl) = x + ?k" unfolding x_def using ok x [unfolded x_def] by (intro u32_add_exact) linarith
    show "unat (i + 1) = Suc x" unfolding x_def using ok x [unfolded x_def] by (intro u32_suc) linarith
    show "unat (i div cl_mesh_cols cl + 1) = Suc (x div ?k)"
      using dlt(1) by (subst u32_suc) (simp_all add: unat_div flip: x_def)
    show "unat (i mod cl_mesh_cols cl + 1) = Suc (x mod ?k)"
      using dlt(2) by (subst u32_suc) (simp_all add: unat_mod flip: x_def)
  qed
  have north: "c \<in> set (if i div cl_mesh_cols cl > 0 then [i - cl_mesh_cols cl] else []) \<longleftrightarrow> x = unat c + ?k"
  proof (cases "?k \<le> x")
    case True
    then have "i div cl_mesh_cols cl > 0" "unat (i - cl_mesh_cols cl) = x - ?k"
      using ok(2) by (simp_all add: word_less_nat_alt unat_div x_def div_greater_zero_iff unat_u32_sub)
    then show ?thesis using True by (auto simp: word_unat_eq_iff)
  next
    case False
    then have "\<not> i div cl_mesh_cols cl > 0" by (simp add: word_less_nat_alt unat_div x_def [symmetric])
    then show ?thesis using False by simp
  qed
  have south: "c \<in> set (if i div cl_mesh_cols cl + 1 < cl_mesh_rows cl \<and> i + cl_mesh_cols cl < cl_num_cores cl
      then [i + cl_mesh_cols cl] else []) \<longleftrightarrow> unat c < ?n \<and> unat c = x + ?k"
  proof (cases "x + ?k < ?n")
    case True
    have "Suc (x div ?k) = (x + ?k) div ?k" using ok(2) by (simp add: div_add_self2)
    also have "\<dots> < unat (cl_mesh_rows cl)" using True ok(4) by (intro less_mult_imp_div_less) linarith
    finally show ?thesis using True by (auto simp: word_less_nat_alt a word_unat_eq_iff)
  next
    case False
    then show ?thesis by (auto simp: word_less_nat_alt a)
  qed
  have west: "c \<in> set (if i mod cl_mesh_cols cl > 0 then [i - 1] else []) \<longleftrightarrow> x = Suc (unat c) \<and> x div ?k = unat c div ?k"
  proof (cases "x mod ?k > 0")
    case True
    then have p: "0 < x" by (metis mod_0 neq0_conv)
    have "i mod cl_mesh_cols cl > 0" "unat (i - 1) = x - 1"
      using True p by (simp_all add: word_less_nat_alt unat_mod x_def unat_u32_sub)
    moreover have "x div ?k = (x - 1) div ?k" using True p by (metis Suc_pred' div_Suc less_not_refl2 mod_0_imp_dvd dvd_imp_mod_0)
    ultimately show ?thesis using p by (auto simp: word_unat_eq_iff)
  next
    case False
    have "\<not> (x = Suc (unat c) \<and> x div ?k = unat c div ?k)"
    proof
      assume e: "x = Suc (unat c) \<and> x div ?k = unat c div ?k"
      then have "x div ?k * ?k = unat c div ?k * ?k" by (intro arg_cong [where f = "\<lambda>q. q * ?k"]) (rule conjunct2)
      then show False using False e div_mod_decomp [of x ?k] div_mod_decomp [of "unat c" ?k] by linarith
    qed
    then show ?thesis using False by (simp add: word_less_nat_alt unat_mod x_def)
  qed
  have east: "c \<in> set (if i mod cl_mesh_cols cl + 1 < cl_mesh_cols cl \<and> i + 1 < cl_num_cores cl \<and>
      (i + 1) div cl_mesh_cols cl = i div cl_mesh_cols cl then [i + 1] else []) \<longleftrightarrow>
      unat c < ?n \<and> unat c = Suc x \<and> x div ?k = unat c div ?k"
  proof (cases "Suc x < ?n \<and> Suc x div ?k = x div ?k")
    case True
    then have "Suc x div ?k * ?k = x div ?k * ?k" by (intro arg_cong [where f = "\<lambda>q. q * ?k"]) (rule conjunct2)
    then have "Suc (x mod ?k) = Suc x mod ?k" using div_mod_decomp [of x ?k] div_mod_decomp [of "Suc x" ?k] by linarith
    then have "Suc (x mod ?k) < ?k" using ok(2) by simp
    then show ?thesis using True by (auto simp: word_less_nat_alt a word_unat_eq_iff unat_div x_def [symmetric])
  next
    case False
    then show ?thesis by (auto simp: word_less_nat_alt a word_unat_eq_iff unat_div x_def [symmetric])
  qed
  have h: "hops cl x (unat c) = 1 \<longleftrightarrow> unat c = x + ?k \<or> x = unat c + ?k \<or> (unat c = Suc x \<or> x = Suc (unat c)) \<and> x div ?k = unat c div ?k"
    using grid_adjacent [OF ok(2), of x "unat c"] assms(2) by (simp add: hops_def Let_def)
  show ?thesis unfolding mesh_neighbors_def Let_def set_append Un_iff north south west east x_def [symmetric] h
    using x by auto
qed

lemma mesh_neighbors_short: "length (mesh_neighbors cl i) \<le> 4"
  by (simp add: mesh_neighbors_def Let_def)

lemma mesh_neighbors_ids:
  assumes "cluster_ok cl" "cl_topology cl = TU_TOPOLOGY_MESH" "unat i < unat (cl_num_cores cl)"
  obtains ids k where "tu_cluster_neighbors cl i = Some (ids, k)" "length ids = 4"
    "set (take (unat k) ids) = {c. tu_cluster_hop_distance cl i c = Some 1}"
proof -
  let ?ids = "mesh_neighbors cl i"
  have i: "\<not> i \<ge> cl_num_cores cl" "cl_mesh_cols cl \<noteq> 0" using assms by (simp_all add: word_le_nat_alt cluster_ok_def)
  have e: "tu_cluster_neighbors cl i = Some (?ids @ drop (length ?ids) (replicate 4 UINT32_MAX), of_nat (length ?ids))"
    using i assms(2) by (simp add: tu_cluster_neighbors_def Let_def)
  have k: "unat (of_nat (length ?ids) :: u32) = length ?ids"
    using mesh_neighbors_short [of cl i] by (intro unat_of_nat_u32) linarith
  have "set ?ids = {c. tu_cluster_hop_distance cl i c = Some 1}"
    using mesh_neighbors_set [OF assms] one_hop [OF assms(1) _ assms(3)] assms(2) by auto
  then show ?thesis using mesh_neighbors_short [of cl i] by (intro that [OF e]) (simp_all add: k)
qed

text \<open>
  C13. The neighbours listed for a core are exactly the cores at distance one from it, on the ring, on the
  mesh with an incomplete last row, and without a topology.
\<close>

theorem neighbors_are_one_hop:
  assumes "cluster_ok cl" "unat i < unat (cl_num_cores cl)"
  shows "\<exists>ids k. tu_cluster_neighbors cl i = Some (ids, k) \<and> length ids = 4 \<and>
    set (take (unat k) ids) = {c. tu_cluster_hop_distance cl i c = Some 1}"
proof (cases "cl_topology cl")
  case TU_TOPOLOGY_NONE
  have i: "\<not> i \<ge> cl_num_cores cl" using assms(2) by (simp add: word_le_nat_alt)
  have "tu_cluster_hop_distance cl i c \<noteq> Some 1" for c
    using i TU_TOPOLOGY_NONE by (simp add: tu_cluster_hop_distance_def Let_def)
  moreover have "tu_cluster_neighbors cl i = Some (replicate 4 UINT32_MAX, 0)"
    using i TU_TOPOLOGY_NONE by (simp add: tu_cluster_neighbors_def Let_def)
  ultimately show ?thesis by simp
next
  case TU_TOPOLOGY_RING
  show ?thesis by (rule ring_neighbors [OF assms(1) TU_TOPOLOGY_RING assms(2)]) blast
next
  case TU_TOPOLOGY_MESH
  show ?thesis by (rule mesh_neighbors_ids [OF assms(1) TU_TOPOLOGY_MESH assms(2)]) blast
qed

section \<open>Walks\<close>

text \<open>The load of a path: the link into each of its cores.\<close>

fun charge_path :: "u32 \<Rightarrow> u64 \<Rightarrow> u32 \<Rightarrow> u32 list \<Rightarrow> u64 list \<Rightarrow> u64 list" where
  "charge_path n service cur [] links = links"
| "charge_path n service cur (p # ps) links = charge_path n service p ps (add_link_service n cur p service links)"

lemma charge_path_append:
  "charge_path n service cur (ps @ qs) links = charge_path n service (last (cur # ps)) qs (charge_path n service cur ps links)"
  by (induction ps arbitrary: cur links) auto

text \<open>
  A loop of the router: on the cores it may visit, the distance to the goal goes down by one in each
  step, a step goes to an adjacent core, and something of the core (its row, its column) is kept.
\<close>

locale router =
  fixes stop :: "u32 \<Rightarrow> bool" and nxt :: "u32 \<Rightarrow> u32 option" and good :: "u32 \<Rightarrow> bool"
    and distance :: "u32 \<Rightarrow> nat" and adjacent :: "u32 \<Rightarrow> u32 \<Rightarrow> bool" and kept :: "u32 \<Rightarrow> nat"
  assumes stops: "good c \<Longrightarrow> stop c \<longleftrightarrow> distance c = 0"
    and steps: "good c \<Longrightarrow> distance c \<noteq> 0 \<Longrightarrow>
      \<exists>c'. nxt c = Some c' \<and> good c' \<and> distance c = Suc (distance c') \<and> adjacent c c' \<and> kept c' = kept c"
begin

lemma walk_arrives:
  assumes "good c"
  obtains ps where "route_walk stop nxt n service c links = Some (0, last (c # ps), charge_path n service c ps links)"
    "length ps = distance c" "successively adjacent (c # ps)" "good (last (c # ps))" "stop (last (c # ps))"
    "kept (last (c # ps)) = kept c"
  using assms
proof (induction "distance c" arbitrary: c links thesis)
  case 0
  then have s: "stop c" by (simp add: stops)
  show ?case by (rule 0(2) [of "[]"]) (use 0 s in \<open>simp_all add: route_walk.simps\<close>)
next
  case (Suc d)
  then obtain c' where c': "nxt c = Some c'" "good c'" "distance c = Suc (distance c')" "adjacent c c'" "kept c' = kept c"
    using steps [of c] by auto
  obtain ps where ps: "route_walk stop nxt n service c' (add_link_service n c c' service links) =
      Some (0, last (c' # ps), charge_path n service c' ps (add_link_service n c c' service links))"
    "length ps = distance c'" "successively adjacent (c' # ps)" "good (last (c' # ps))" "stop (last (c' # ps))"
    "kept (last (c' # ps)) = kept c'"
    by (rule Suc.hyps(1) [OF _ _ c'(2)]) (use Suc.hyps(2) c'(3) in \<open>simp_all\<close>)
  have "\<not> stop c" using Suc.hyps(2) Suc.prems(2) by (simp add: stops)
  then have "route_walk stop nxt n service c links =
      Some (0, last (c # c' # ps), charge_path n service c (c' # ps) links)"
    using ps(1) c'(1) by (subst route_walk.simps) simp
  then show ?case by (rule Suc.prems(1)) (use ps(2-6) c'(3-5) in simp_all)
qed

end

section \<open>The three loops of the router\<close>

lemma ring_ahead_step:
  assumes "i < n" "d < n" "ring_ahead n i d \<noteq> 0"
  shows "ring_ahead n i d = Suc (ring_ahead n (Suc i mod n) d)"
proof -
  have s: "Suc i mod n = (if Suc i = n then 0 else Suc i)" using assms(1) by auto
  then have "Suc i mod n < n" using assms(1) by auto
  then show ?thesis using assms unfolding s by (auto simp: ring_ahead_cases split: if_splits)
qed

lemma ring_ahead_back:
  assumes "i < n" "d < n" "ring_ahead n d i \<noteq> 0"
  shows "ring_ahead n d i = Suc (ring_ahead n d ((i + n - 1) mod n))"
proof -
  have s: "(i + n - 1) mod n = (if i = 0 then n - 1 else i - 1)" using assms(1) by (auto simp: mod_if)
  then have "(i + n - 1) mod n < n" using assms(1) by auto
  then show ?thesis using assms unfolding s by (auto simp: ring_ahead_cases split: if_splits)
qed

definition ring_good :: "tu_cluster \<Rightarrow> u32 \<Rightarrow> u32 \<Rightarrow> bool" where
  "ring_good cl dst c \<longleftrightarrow> cluster_ok cl \<and> cl_topology cl = TU_TOPOLOGY_RING \<and>
     unat dst < unat (cl_num_cores cl) \<and> unat c < unat (cl_num_cores cl)"

definition ring_distance :: "bool \<Rightarrow> tu_cluster \<Rightarrow> u32 \<Rightarrow> u32 \<Rightarrow> nat" where
  "ring_distance clockwise cl dst c =
    (if clockwise then ring_ahead (unat (cl_num_cores cl)) (unat c) (unat dst)
     else ring_ahead (unat (cl_num_cores cl)) (unat dst) (unat c))"

interpretation ring: router "\<lambda>c. c = dst" "ring_next clockwise (cl_num_cores cl)" "ring_good cl dst"
  "ring_distance clockwise cl dst" "\<lambda>a b. tu_cluster_hop_distance cl a b = Some 1" "\<lambda>_. 0" for clockwise cl dst
proof
  fix c
  assume g: "ring_good cl dst c"
  let ?n = "cl_num_cores cl"
  have c: "unat ?n \<le> 256" "unat c < unat ?n" "unat dst < unat ?n" using g by (simp_all add: ring_good_def cluster_ok_def)
  show stop: "c = dst \<longleftrightarrow> ring_distance clockwise cl dst c = 0"
    using ring_ahead_zero [OF c(2,3)] ring_ahead_zero [OF c(3,2)] by (auto simp: ring_distance_def word_unat_eq_iff)
  assume d: "ring_distance clockwise cl dst c \<noteq> 0"
  then have "c \<noteq> dst" using stop by simp
  then have "unat c \<noteq> unat dst" unfolding word_unat_eq_iff .
  then have n2: "2 \<le> unat ?n" using c by linarith
  note u = ring_steps [OF c(1,2)]
  define c' where "c' = (if clockwise then (c + 1) mod ?n else (c + ?n - 1) mod ?n)"
  have uc: "unat c' = (if clockwise then Suc (unat c) mod unat ?n else (unat c + unat ?n - 1) mod unat ?n)"
    by (simp only: c'_def u if_distrib [of unat])
  have lt: "unat c' < unat ?n" using c(2) by (auto simp: uc)
  have "ring_distance clockwise cl dst c = Suc (ring_distance clockwise cl dst c')"
    using ring_ahead_step [OF c(2,3)] ring_ahead_back [OF c(2,3)] d by (cases clockwise) (simp_all add: ring_distance_def uc)
  moreover have "unat c' = Suc (unat c) mod unat ?n \<or> unat c = Suc (unat c') mod unat ?n"
    using suc_mod_prev [OF c(2) lt] by (cases clockwise) (simp_all add: uc)
  then have "tu_cluster_hop_distance cl c c' = Some 1"
    using one_hop [of cl c c'] ring_min_one [OF c(2) lt] g lt n2 c(2) by (simp add: ring_good_def hops_def Let_def)
  moreover have "ring_good cl dst c'" using g lt by (simp add: ring_good_def)
  moreover have "ring_next clockwise ?n c = Some c'" by (simp add: ring_next_def c'_def)
  ultimately show "\<exists>c'. ring_next clockwise ?n c = Some c' \<and> ring_good cl dst c' \<and>
      ring_distance clockwise cl dst c = Suc (ring_distance clockwise cl dst c') \<and>
      tu_cluster_hop_distance cl c c' = Some 1 \<and> (0 :: nat) = 0" by blast
qed

text \<open>A mesh whose rows are all complete.\<close>

definition mesh_good :: "tu_cluster \<Rightarrow> u32 \<Rightarrow> u32 \<Rightarrow> bool" where
  "mesh_good cl dst c \<longleftrightarrow> cluster_ok cl \<and> cl_topology cl = TU_TOPOLOGY_MESH \<and>
     unat (cl_num_cores cl) = unat (cl_mesh_rows cl) * unat (cl_mesh_cols cl) \<and>
     unat dst < unat (cl_num_cores cl) \<and> unat c < unat (cl_num_cores cl)"

lemma mesh_facts:
  assumes "mesh_good cl dst c"
  shows "unat (cl_num_cores cl) \<le> 256" "0 < unat (cl_mesh_cols cl)" "unat (cl_mesh_cols cl) \<le> unat (cl_num_cores cl)"
    "unat c < unat (cl_num_cores cl)" "unat dst < unat (cl_num_cores cl)"
proof -
  have "cluster_ok cl" "cl_topology cl = TU_TOPOLOGY_MESH" using assms by (simp_all add: mesh_good_def)
  then show "unat (cl_num_cores cl) \<le> 256" "0 < unat (cl_mesh_cols cl)" "unat (cl_mesh_cols cl) \<le> unat (cl_num_cores cl)"
    by (simp_all only: cluster_ok_def unat_gt_0 simp_thms)
qed (use assms in \<open>simp_all add: mesh_good_def\<close>)

lemma mesh_adjacent:
  assumes "mesh_good cl dst c" "unat c' < unat (cl_num_cores cl)"
    and "unat c' = unat c + unat (cl_mesh_cols cl) \<or> unat c = unat c' + unat (cl_mesh_cols cl) \<or>
      (unat c' = Suc (unat c) \<or> unat c = Suc (unat c')) \<and> unat c div unat (cl_mesh_cols cl) = unat c' div unat (cl_mesh_cols cl)"
  shows "tu_cluster_hop_distance cl c c' = Some 1" "mesh_good cl dst c'"
  using one_hop [of cl c c'] grid_adjacent [OF mesh_facts(2) [OF assms(1)], of "unat c" "unat c'"] assms mesh_facts(4) [OF assms(1)]
  by (simp_all add: mesh_good_def hops_def Let_def)

text \<open>A column to the right and to the left within a row of \<open>k\<close>, in numbers.\<close>

lemma quotient_remainder: "m = r + q * k \<Longrightarrow> r < k \<Longrightarrow> m div k = q \<and> m mod k = r" for m k :: nat
  by auto

lemma column_right:
  fixes c d k r :: nat
  assumes "c mod k < d" "d < k" "c < r * k"
  shows "Suc c div k = c div k" "Suc c mod k = Suc (c mod k)" "Suc c < r * k"
proof -
  have e: "Suc c = Suc (c mod k) + c div k * k" using div_mod_decomp [of c k] by simp
  have l: "Suc (c mod k) < k" using assms by simp
  show "Suc c div k = c div k" "Suc c mod k = Suc (c mod k)" using quotient_remainder [OF e l] by blast+
  have "c div k < r" using assms by (intro less_mult_imp_div_less)
  then have "Suc (c div k) * k \<le> r * k" by (intro mult_le_mono1) simp
  then show "Suc c < r * k" using e l unfolding mult_Suc by linarith
qed

lemma column_left:
  fixes c d k :: nat
  assumes "d < c mod k"
  shows "(c - 1) div k = c div k" "Suc ((c - 1) mod k) = c mod k" "Suc (c - 1) = c"
proof -
  have e: "c - 1 = (c mod k - 1) + c div k * k" using div_mod_decomp [of c k] assms by linarith
  show "(c - 1) div k = c div k" "Suc ((c - 1) mod k) = c mod k"
  proof -
    have "(c - 1) div k = c div k \<and> (c - 1) mod k = c mod k - 1"
    proof (cases "k = 0")
      case False
      then have "c mod k - 1 < k" by (meson less_imp_diff_less mod_less_divisor neq0_conv)
      then show ?thesis by (rule quotient_remainder [OF e])
    qed simp
    then show "(c - 1) div k = c div k" "Suc ((c - 1) mod k) = c mod k" using assms by linarith+
  qed
  show "Suc (c - 1) = c" using assms by (cases c) auto
qed

interpretation x: router "\<lambda>c. c mod cl_mesh_cols cl = dst mod cl_mesh_cols cl"
  "x_next (cl_num_cores cl) (cl_mesh_cols cl) (dst mod cl_mesh_cols cl)" "mesh_good cl dst"
  "\<lambda>c. ndist (unat c mod unat (cl_mesh_cols cl)) (unat dst mod unat (cl_mesh_cols cl))"
  "\<lambda>a b. tu_cluster_hop_distance cl a b = Some 1" "\<lambda>c. unat c div unat (cl_mesh_cols cl)" for cl dst
proof
  fix c
  assume g: "mesh_good cl dst c"
  let ?n = "cl_num_cores cl" and ?cols = "cl_mesh_cols cl"
  let ?k = "unat ?cols" and ?c = "unat c"
  let ?d = "unat dst mod ?k"
  note f = mesh_facts [OF g]
  have full: "unat ?n = unat (cl_mesh_rows cl) * ?k" using g by (simp add: mesh_good_def)
  show stop: "c mod ?cols = dst mod ?cols \<longleftrightarrow> ndist (?c mod ?k) ?d = 0"
    by (simp add: word_unat_eq_iff unat_mod)
  assume ne: "ndist (?c mod ?k) ?d \<noteq> 0"
  define c' where "c' = (if c mod ?cols < dst mod ?cols then c + 1 else c - 1)"
  have r: "unat c' < unat ?n \<and> ?c div ?k = unat c' div ?k \<and> ndist (?c mod ?k) ?d = Suc (ndist (unat c' mod ?k) ?d) \<and>
      (unat c' = Suc ?c \<or> ?c = Suc (unat c'))"
  proof (cases "?c mod ?k < ?d")
    case True
    have d: "?d < ?k" using f(2) by simp
    note s = column_right [OF True d f(4) [unfolded full]]
    have "unat c' = Suc ?c" using True f(1,4) by (simp add: c'_def word_less_nat_alt unat_mod) (intro u32_suc, linarith)
    then show ?thesis using s True full by (simp add: ndist_def)
  next
    case False
    then have l: "?d < ?c mod ?k" using ne by (simp add: ndist_def)
    note s = column_left [OF l]
    have "unat c' = ?c - 1" using False s(3) by (simp add: c'_def word_less_nat_alt unat_mod unat_u32_sub)
    then show ?thesis using s l f(4) by (auto simp: ndist_def)
  qed
  have adj: "tu_cluster_hop_distance cl c c' = Some 1" "mesh_good cl dst c'"
    using mesh_adjacent [OF g] r by auto
  have "c' div ?cols = c div ?cols" "\<not> c' \<ge> ?n" using r by (simp_all add: word_unat_eq_iff unat_div word_le_nat_alt)
  then have "x_next ?n ?cols (dst mod ?cols) c = Some c'" by (simp add: x_next_def Let_def c'_def [symmetric])
  then show "\<exists>c'. x_next ?n ?cols (dst mod ?cols) c = Some c' \<and> mesh_good cl dst c' \<and>
      ndist (?c mod ?k) ?d = Suc (ndist (unat c' mod ?k) ?d) \<and> tu_cluster_hop_distance cl c c' = Some 1 \<and>
      unat c' div ?k = ?c div ?k" using r adj by auto
qed

interpretation y: router "\<lambda>c. c div cl_mesh_cols cl = dst div cl_mesh_cols cl"
  "y_next (cl_num_cores cl) (cl_mesh_cols cl) (dst div cl_mesh_cols cl)" "mesh_good cl dst"
  "\<lambda>c. ndist (unat c div unat (cl_mesh_cols cl)) (unat dst div unat (cl_mesh_cols cl))"
  "\<lambda>a b. tu_cluster_hop_distance cl a b = Some 1" "\<lambda>c. unat c mod unat (cl_mesh_cols cl)" for cl dst
proof
  fix c
  assume g: "mesh_good cl dst c"
  let ?n = "cl_num_cores cl" and ?cols = "cl_mesh_cols cl"
  let ?k = "unat ?cols" and ?c = "unat c"
  let ?d = "unat dst div ?k"
  note f = mesh_facts [OF g]
  have full: "unat ?n = unat (cl_mesh_rows cl) * ?k" using g by (simp add: mesh_good_def)
  show stop: "c div ?cols = dst div ?cols \<longleftrightarrow> ndist (?c div ?k) ?d = 0"
    by (simp add: word_unat_eq_iff unat_div)
  assume ne: "ndist (?c div ?k) ?d \<noteq> 0"
  define c' where "c' = (if c div ?cols < dst div ?cols then c + ?cols else c - ?cols)"
  have r: "unat c' < unat ?n \<and> ?c mod ?k = unat c' mod ?k \<and> ndist (?c div ?k) ?d = Suc (ndist (unat c' div ?k) ?d) \<and>
      (unat c' = ?c + ?k \<or> ?c = unat c' + ?k)"
  proof (cases "?c div ?k < ?d")
    case True
    have "?d < unat (cl_mesh_rows cl)" using f(5) full by (intro less_mult_imp_div_less) simp
    then have "Suc (?c div ?k) * ?k + ?k \<le> unat (cl_mesh_rows cl) * ?k"
      using mult_le_mono1 [of "Suc (Suc (?c div ?k))" "unat (cl_mesh_rows cl)" ?k] True by simp
    moreover have "?c mod ?k < ?k" using f(2) by simp
    ultimately have "?c + ?k < unat ?n" using div_mod_decomp [of ?c ?k] full unfolding mult_Suc by linarith
    moreover have "unat c' = ?c + ?k" using True f(1,3,4) by (simp add: c'_def word_less_nat_alt unat_div) (intro u32_add_exact, linarith)
    ultimately show ?thesis using True f(2) by (simp add: ndist_def div_add_self2)
  next
    case False
    then have l: "?d < ?c div ?k" using ne by (simp add: ndist_def)
    then have k: "?k \<le> ?c" by (metis div_less not_le not_less0)
    have "unat c' = ?c - ?k" using False k by (simp add: c'_def word_less_nat_alt unat_div unat_u32_sub)
    then have e: "?c = unat c' + ?k" using k by simp
    have "?c div ?k = Suc (unat c' div ?k)" "?c mod ?k = unat c' mod ?k" unfolding e using f(2) by (simp_all add: div_add_self2)
    then show ?thesis using l f(4) e by (auto simp: ndist_def)
  qed
  have adj: "tu_cluster_hop_distance cl c c' = Some 1" "mesh_good cl dst c'"
    using mesh_adjacent [OF g] r by auto
  have "\<not> c' \<ge> ?n" using r by (simp add: word_le_nat_alt)
  then have "y_next ?n ?cols (dst div ?cols) c = Some c'" by (simp add: y_next_def Let_def c'_def [symmetric])
  then show "\<exists>c'. y_next ?n ?cols (dst div ?cols) c = Some c' \<and> mesh_good cl dst c' \<and>
      ndist (?c div ?k) ?d = Suc (ndist (unat c' div ?k) ?d) \<and> tu_cluster_hop_distance cl c c' = Some 1 \<and>
      unat c' mod ?k = ?c mod ?k" using r adj by auto
qed


section \<open>Routes\<close>

lemma successively_glue:
  assumes "successively P (a # ps)" "successively P (last (a # ps) # qs)"
  shows "successively P (a # ps @ qs)"
proof (cases qs)
  case (Cons q qs')
  then have "successively P ((a # ps) @ q # qs')" unfolding successively_append_iff using assms by simp
  then show ?thesis using Cons by simp
qed (use assms in simp)

lemma hops_word:
  assumes "cluster_ok cl" "cl_topology cl \<noteq> TU_TOPOLOGY_NONE"
    and "unat src < unat (cl_num_cores cl)" "unat dst < unat (cl_num_cores cl)" "m = hops cl (unat src) (unat dst)"
  shows "tu_cluster_hop_distance cl src dst = Some (of_nat m)"
  using hop_distance_hops [OF assms(1-4)] assms(5) by simp

lemma ring_route:
  assumes "cluster_ok cl" "cl_topology cl = TU_TOPOLOGY_RING"
    and "unat src < unat (cl_num_cores cl)" "unat dst < unat (cl_num_cores cl)"
  obtains ps where "add_route_service cl src dst service links = Some (0, charge_path (cl_num_cores cl) service src ps links)"
    "last (src # ps) = dst" "successively (\<lambda>a b. tu_cluster_hop_distance cl a b = Some 1) (src # ps)"
    "tu_cluster_hop_distance cl src dst = Some (of_nat (length ps))"
proof -
  let ?n = "cl_num_cores cl"
  have n: "unat ?n \<le> 256" "?n \<noteq> 0" using assms(1) by (simp_all add: cluster_ok_def)
  have g: "ring_good cl dst src" using assms by (simp add: ring_good_def)
  define cw where "cw \<longleftrightarrow> (dst + ?n - src) mod ?n \<le> (src + ?n - dst) mod ?n"
  have cwn: "cw \<longleftrightarrow> ring_ahead (unat ?n) (unat src) (unat dst) \<le> ring_ahead (unat ?n) (unat dst) (unat src)"
    by (simp only: cw_def word_le_nat_alt unat_ring_ahead [OF n(1) assms(3,4)] unat_ring_ahead [OF n(1) assms(4,3)])
  obtain ps where w: "route_walk (\<lambda>c. c = dst) (ring_next cw ?n) ?n service src links =
      Some (0, last (src # ps), charge_path ?n service src ps links)" "length ps = ring_distance cw cl dst src"
    "successively (\<lambda>a b. tu_cluster_hop_distance cl a b = Some 1) (src # ps)" "ring_good cl dst (last (src # ps))"
    "last (src # ps) = dst"
    by (rule ring.walk_arrives [OF g, where clockwise = cw])
  have a: "add_route_service cl src dst service links = Some (0, charge_path ?n service src ps links)"
    using assms(2) n(2) w(1) by (simp add: add_route_service_def Let_def cw_def [symmetric])
  have "length ps = hops cl (unat src) (unat dst)"
    using w(2) assms(2) cwn by (auto simp: ring_distance_def hops_def Let_def min_def)
  then have "tu_cluster_hop_distance cl src dst = Some (of_nat (length ps))"
    using assms by (intro hops_word) simp_all
  then show ?thesis by (rule that [OF a w(5,3)])
qed

text \<open>The coordinate of a core that one dimension of a route changes.\<close>

definition coordinate :: "tu_cluster \<Rightarrow> bool \<Rightarrow> u32 \<Rightarrow> nat" where
  "coordinate cl route_x c = (if route_x then unat c mod unat (cl_mesh_cols cl) else unat c div unat (cl_mesh_cols cl))"

lemma dimension_walk:
  assumes "mesh_good cl dst c"
  obtains ps where "mesh_dimension cl dst service route_x c links =
      Some (0, last (c # ps), charge_path (cl_num_cores cl) service c ps links)"
    "length ps = ndist (coordinate cl route_x c) (coordinate cl route_x dst)"
    "successively (\<lambda>a b. tu_cluster_hop_distance cl a b = Some 1) (c # ps)" "mesh_good cl dst (last (c # ps))"
    "coordinate cl route_x (last (c # ps)) = coordinate cl route_x dst"
    "coordinate cl (\<not> route_x) (last (c # ps)) = coordinate cl (\<not> route_x) c"
proof (cases route_x)
  case True
  obtain ps where w: "route_walk (\<lambda>c. c mod cl_mesh_cols cl = dst mod cl_mesh_cols cl)
      (x_next (cl_num_cores cl) (cl_mesh_cols cl) (dst mod cl_mesh_cols cl)) (cl_num_cores cl) service c links =
      Some (0, last (c # ps), charge_path (cl_num_cores cl) service c ps links)"
    "length ps = ndist (unat c mod unat (cl_mesh_cols cl)) (unat dst mod unat (cl_mesh_cols cl))"
    "successively (\<lambda>a b. tu_cluster_hop_distance cl a b = Some 1) (c # ps)" "mesh_good cl dst (last (c # ps))"
    "last (c # ps) mod cl_mesh_cols cl = dst mod cl_mesh_cols cl"
    "unat (last (c # ps)) div unat (cl_mesh_cols cl) = unat c div unat (cl_mesh_cols cl)"
    by (rule x.walk_arrives [OF assms])
  have "unat (last (c # ps)) mod unat (cl_mesh_cols cl) = unat dst mod unat (cl_mesh_cols cl)"
    using w(5) by (simp only: word_unat_eq_iff unat_mod)
  then show ?thesis using w(1-4,6) True
    by (intro that [of ps]) (simp_all only: mesh_dimension_def coordinate_def Let_def if_True if_False simp_thms)
next
  case False
  obtain ps where w: "route_walk (\<lambda>c. c div cl_mesh_cols cl = dst div cl_mesh_cols cl)
      (y_next (cl_num_cores cl) (cl_mesh_cols cl) (dst div cl_mesh_cols cl)) (cl_num_cores cl) service c links =
      Some (0, last (c # ps), charge_path (cl_num_cores cl) service c ps links)"
    "length ps = ndist (unat c div unat (cl_mesh_cols cl)) (unat dst div unat (cl_mesh_cols cl))"
    "successively (\<lambda>a b. tu_cluster_hop_distance cl a b = Some 1) (c # ps)" "mesh_good cl dst (last (c # ps))"
    "last (c # ps) div cl_mesh_cols cl = dst div cl_mesh_cols cl"
    "unat (last (c # ps)) mod unat (cl_mesh_cols cl) = unat c mod unat (cl_mesh_cols cl)"
    by (rule y.walk_arrives [OF assms])
  have "unat (last (c # ps)) div unat (cl_mesh_cols cl) = unat dst div unat (cl_mesh_cols cl)"
    using w(5) by (simp only: word_unat_eq_iff unat_div)
  then show ?thesis using w(1-4,6) False
    by (intro that [of ps]) (simp_all only: mesh_dimension_def coordinate_def Let_def if_True if_False simp_thms)
qed

lemma coordinates_determine:
  assumes "coordinate cl x a = coordinate cl x b" "coordinate cl (\<not> x) a = coordinate cl (\<not> x) b"
  shows "a = b"
proof -
  have "unat a div unat (cl_mesh_cols cl) = unat b div unat (cl_mesh_cols cl)"
    "unat a mod unat (cl_mesh_cols cl) = unat b mod unat (cl_mesh_cols cl)"
    using assms by (cases x; simp add: coordinate_def)+
  then have "unat a = unat b" by (metis div_mod_decomp)
  then show ?thesis unfolding word_unat_eq_iff .
qed

lemma mesh_route:
  assumes "mesh_good cl dst src" "cl_mesh_routing_mode cl \<in> {TU_ICC_MESH_ROUTE_XY, TU_ICC_MESH_ROUTE_YX}"
  obtains ps where "add_route_service cl src dst service links = Some (0, charge_path (cl_num_cores cl) service src ps links)"
    "last (src # ps) = dst" "successively (\<lambda>a b. tu_cluster_hop_distance cl a b = Some 1) (src # ps)"
    "tu_cluster_hop_distance cl src dst = Some (of_nat (length ps))"
proof -
  let ?n = "cl_num_cores cl" and ?adj = "\<lambda>a b. tu_cluster_hop_distance cl a b = Some 1"
  have m: "cluster_ok cl" "cl_topology cl = TU_TOPOLOGY_MESH" "cl_mesh_cols cl \<noteq> 0"
    using assms(1) by (auto simp: mesh_good_def cluster_ok_def)
  define x where "x \<longleftrightarrow> cl_mesh_routing_mode cl = TU_ICC_MESH_ROUTE_XY"
  obtain ps where p: "mesh_dimension cl dst service x src links = Some (0, last (src # ps), charge_path ?n service src ps links)"
    "length ps = ndist (coordinate cl x src) (coordinate cl x dst)" "successively ?adj (src # ps)"
    "mesh_good cl dst (last (src # ps))" "coordinate cl x (last (src # ps)) = coordinate cl x dst"
    "coordinate cl (\<not> x) (last (src # ps)) = coordinate cl (\<not> x) src"
    by (rule dimension_walk [OF assms(1)])
  obtain qs where q: "mesh_dimension cl dst service (\<not> x) (last (src # ps)) (charge_path ?n service src ps links) =
      Some (0, last (last (src # ps) # qs), charge_path ?n service (last (src # ps)) qs (charge_path ?n service src ps links))"
    "length qs = ndist (coordinate cl (\<not> x) (last (src # ps))) (coordinate cl (\<not> x) dst)"
    "successively ?adj (last (src # ps) # qs)"
    "coordinate cl (\<not> x) (last (last (src # ps) # qs)) = coordinate cl (\<not> x) dst"
    "coordinate cl (\<not> \<not> x) (last (last (src # ps) # qs)) = coordinate cl (\<not> \<not> x) (last (src # ps))"
    by (rule dimension_walk [OF p(4)])
  have a: "add_route_service cl src dst service links = Some (0, charge_path ?n service src (ps @ qs) links)"
    using m(2,3) assms(2) p(1) q(1) by (auto simp: add_route_service_def Let_def charge_path_append x_def [symmetric])
  have "last (last (src # ps) # qs) = dst" by (rule coordinates_determine [of cl x]) (use q(4,5) p(5) in simp_all)
  then have l: "last (src # ps @ qs) = dst" by (cases qs) simp_all
  have "length (ps @ qs) = hops cl (unat src) (unat dst)"
    using p(2,6) q(2) m(2) by (cases x) (simp_all add: coordinate_def hops_def Let_def)
  then have h: "tu_cluster_hop_distance cl src dst = Some (of_nat (length (ps @ qs)))"
    using m mesh_facts(4,5) [OF assms(1)] by (intro hops_word) simp_all
  show ?thesis by (rule that [OF a l successively_glue [OF p(3) q(3)] h])
qed

text \<open>
  C12. On a ring, and on a mesh of complete rows with either order of the dimensions, the router returns, and
  charges the links of a path from the source to the destination whose steps go between neighbours and
  whose length is the distance.
\<close>

theorem route_is_shortest:
  assumes "cluster_ok cl" "unat src < unat (cl_num_cores cl)" "unat dst < unat (cl_num_cores cl)"
    and "cl_topology cl = TU_TOPOLOGY_RING \<or> cl_topology cl = TU_TOPOLOGY_MESH \<and>
      cl_mesh_routing_mode cl \<in> {TU_ICC_MESH_ROUTE_XY, TU_ICC_MESH_ROUTE_YX} \<and>
      unat (cl_num_cores cl) = unat (cl_mesh_rows cl) * unat (cl_mesh_cols cl)"
  shows "\<exists>ps. add_route_service cl src dst service links = Some (0, charge_path (cl_num_cores cl) service src ps links) \<and>
    last (src # ps) = dst \<and> successively (\<lambda>a b. tu_cluster_hop_distance cl a b = Some 1) (src # ps) \<and>
    tu_cluster_hop_distance cl src dst = Some (of_nat (length ps))"
  using assms(4)
proof (elim disjE conjE)
  assume r: "cl_topology cl = TU_TOPOLOGY_RING"
  show ?thesis by (rule ring_route [OF assms(1) r assms(2,3)]) blast
next
  assume m: "cl_topology cl = TU_TOPOLOGY_MESH" "cl_mesh_routing_mode cl \<in> {TU_ICC_MESH_ROUTE_XY, TU_ICC_MESH_ROUTE_YX}"
    "unat (cl_num_cores cl) = unat (cl_mesh_rows cl) * unat (cl_mesh_cols cl)"
  have g: "mesh_good cl dst src" using assms(1-3) m(1,3) by (simp add: mesh_good_def)
  show ?thesis by (rule mesh_route [OF g m(2)]) blast
qed

section \<open>Created clusters\<close>

definition fresh_core :: "tu_core \<Rightarrow> bool" where
  "fresh_core core \<longleftrightarrow> co_initialized core \<and> list_all sram_inv (tu_regions (co_state core))"

lemma create_cores_some:
  assumes "sram_word_metering cfg \<in> {0, 1}"
  obtains cores w' where "create_cores cfg is w = (Some cores, w')" "map co_core_id cores = map of_nat is" "list_all fresh_core cores"
proof (induction "is" arbitrary: w thesis)
  case (Cons i "is")
  obtain created w1 where c: "tu_core_create_with_id (of_nat i) cfg w = (created, w1)" by fastforce
  obtain core where core: "created = Some core" "co_core_id core = of_nat i" "fresh_core core"
    using created_core [OF c assms] by (auto simp: fresh_core_def)
  obtain cores w' where cs: "create_cores cfg is w1 = (Some cores, w')" "map co_core_id cores = map of_nat is" "list_all fresh_core cores"
    by (rule Cons.IH)
  show ?case by (rule Cons.prems [of "core # cores" w']) (use c core cs in simp_all)
qed simp

lemma mesh_cols_fit:
  fixes n rows :: u32
  assumes "n \<noteq> 0" "unat n \<le> 256" "rows \<noteq> 0" "unat rows \<le> 4294967039"
  shows "(n + rows - 1) div rows \<noteq> 0" "unat ((n + rows - 1) div rows) \<le> unat n"
    "unat n \<le> unat rows * unat ((n + rows - 1) div rows)"
proof -
  have p: "0 < unat n" "0 < unat rows" using assms(1,3) by (simp_all add: unat_gt_0)
  have "unat (n + rows) = unat n + unat rows" using assms(2,4) by (intro u32_add_exact) linarith
  then have "unat (n + rows - 1) = unat n + unat rows - 1" using p by (subst unat_u32_sub) simp_all
  then have u: "unat ((n + rows - 1) div rows) = (unat n + unat rows - 1) div unat rows" by (simp add: unat_div)
  let ?q = "(unat n + unat rows - 1) div unat rows"
  have "unat n + unat rows - 1 < unat rows * Suc ?q"
    using p(2) by (metis dividend_less_times_div mult_Suc_right)
  then show c: "unat n \<le> unat rows * unat ((n + rows - 1) div rows)" unfolding u mult_Suc_right by linarith
  then show "(n + rows - 1) div rows \<noteq> 0" using p(1) by (metis mult_0_right not_le unat_0)
  have "unat n + unat rows - 1 < Suc (unat n) * unat rows" using p by (cases "unat rows") simp_all
  then show "unat ((n + rows - 1) div rows) \<le> unat n" unfolding u using less_mult_imp_div_less less_Suc_eq_le by blast
qed

text \<open>
  C40. Creation with a legal number of cores and a sensible number of rows gives a well-formed cluster of
  initialised cores, numbered from 0, whose regions satisfy the region invariant.
\<close>

theorem created_cluster_ready:
  assumes "num_cores \<noteq> 0" "unat num_cores \<le> 256" "sram_word_metering cfg \<in> {0, 1}"
    and "rows \<noteq> 0" "unat rows \<le> 4294967039"
  shows "\<exists>cl w'. tu_cluster_create num_cores topology rows (Some cfg) w = (Some cl, w') \<and> cluster_ok cl \<and>
    cl_topology cl = topology \<and> map co_core_id (cl_cores cl) = map of_nat [0..<unat num_cores] \<and> list_all fresh_core (cl_cores cl)"
proof -
  obtain cores w' where c: "create_cores cfg [0..<unat num_cores] w = (Some cores, w')"
    "map co_core_id cores = map of_nat [0..<unat num_cores]" "list_all fresh_core cores"
    by (rule create_cores_some [OF assms(3)])
  have l: "length cores = unat num_cores" using arg_cong [OF c(2), where f = length] by simp
  have n: "\<not> 256 < num_cores" using assms(2) by (simp add: word_less_nat_alt)
  note m = mesh_cols_fit [OF assms(1,2,4,5)]
  show ?thesis using assms(1,2,4) n c l m by (simp add: tu_cluster_create_def cluster_ok_def)
qed

section \<open>Transfers\<close>

definition o_data :: "tu_core \<Rightarrow> u8 list" where
  "o_data core = sram_data (ts_sram_o (co_state core))"

definition o_size :: "tu_core \<Rightarrow> nat" where
  "o_size core = unat (sr_total_size (ts_sram_o (co_state core)))"

definition core_cycles :: "tu_core \<Rightarrow> u64" where
  "core_cycles core = ts_estimated_cycles (co_state core)"

lemma send_effect:
  assumes "length (cl_cores cl) = unat (cl_num_cores cl)"
    and "unat (im_src_core_id msg) < unat (cl_num_cores cl)" "unat (im_dst_core_id msg) < unat (cl_num_cores cl)"
    and "im_size_bytes msg \<noteq> 0" "src = cl_cores cl ! unat (im_src_core_id msg)" "dst = cl_cores cl ! unat (im_dst_core_id msg)"
    and "co_initialized src" "co_initialized dst"
    and "unat (im_src_offset msg + im_size_bytes msg) \<le> o_size src"
    and "unat (im_dst_offset msg) + unat (im_size_bytes msg) \<le> o_size dst"
    and "tu_cluster_estimate_transfer_cycles cl (im_src_core_id msg) (im_dst_core_id msg) (im_size_bytes msg) = Some lat"
    and "lat \<noteq> UINT64_MAX"
    and "bs = (if unat (im_src_offset msg) + unat (im_size_bytes msg) \<le> o_size src
          then bytes_at (o_data src) (unat (im_src_offset msg)) (unat (im_size_bytes msg))
          else take (unat (im_size_bytes msg)) fresh)"
  shows "\<exists>cl'. tu_cluster_send fresh cl msg = Some (0, cl') \<and>
    map o_data (cl_cores cl') = (map o_data (cl_cores cl))
      [unat (im_dst_core_id msg) := put_bytes (o_data dst) (unat (im_dst_offset msg)) bs] \<and>
    map core_cycles (cl_cores cl') = (map core_cycles (cl_cores cl))[unat (im_dst_core_id msg) := core_cycles dst + lat] \<and>
    cl_stats cl' = (cl_stats cl)\<lparr>cs_total_icc_messages := cs_total_icc_messages (cl_stats cl) + 1,
      cs_total_icc_bytes := cs_total_icc_bytes (cl_stats cl) + ucast (im_size_bytes msg),
      cs_total_icc_cycles := cs_total_icc_cycles (cl_stats cl) + lat\<rparr>"
proof -
  let ?s = "unat (im_src_core_id msg)" and ?d = "unat (im_dst_core_id msg)" and ?n = "im_size_bytes msg"
  have lt: "?s < length (cl_cores cl)" "?d < length (cl_cores cl)"
    "\<not> im_src_core_id msg \<ge> cl_num_cores cl" "\<not> im_dst_core_id msg \<ge> cl_num_cores cl"
    using assms(1-3) by (simp_all add: word_le_nat_alt)
  obtain st out e r where rd: "tu_sram_read_bulk (ts_sram_o (co_state src)) (im_src_offset msg) ?n = (st, out, e, r)"
    by (rule prod_cases4)
  note re = read_bulk_effect [OF rd]
  define src' where "src' = with_sram_o r src"
  define cl1 where "cl1 = set_core (im_src_core_id msg) src' cl"
  define dst' where "dst' = cl_cores cl1 ! ?d"
  have s': "o_data src' = o_data src" "core_cycles src' = core_cycles src" "o_size src' = o_size src"
    using re(3,4) by (simp_all add: src'_def with_sram_o_def o_data_def core_cycles_def o_size_def)
  have cores1: "cl_cores cl1 = (cl_cores cl)[?s := src']" by (simp add: cl1_def set_core_def)
  have d': "o_data dst' = o_data dst" "core_cycles dst' = core_cycles dst" "o_size dst' = o_size dst"
    using s' lt assms(5,6) by (cases "?s = ?d"; simp add: dst'_def cores1)+
  define tmp where "tmp = (case out of None \<Rightarrow> fresh | Some b \<Rightarrow> b)"
  have tmp: "take (unat ?n) tmp = bs"
    using re(1,2) assms(4,13) by (simp add: tmp_def o_size_def o_data_def bytes_at_def)
  obtain st' e' r' where wr: "tu_sram_write_bulk (ts_sram_o (co_state dst')) (im_dst_offset msg) tmp ?n = (st', e', r')"
    by (rule prod_cases3)
  note we = write_bulk_effect [OF wr]
  have data: "sram_data r' = put_bytes (o_data dst) (unat (im_dst_offset msg)) bs"
    using we(1,4) assms(4,10) d'(1,3) by (simp add: o_size_def o_data_def tmp)
  define dst2 where "dst2 = add_core_cycles lat (with_sram_o r' dst')"
  have d2: "o_data dst2 = put_bytes (o_data dst) (unat (im_dst_offset msg)) bs" "core_cycles dst2 = core_cycles dst + lat"
    using data d'(2) by (simp_all add: dst2_def add_core_cycles_def with_sram_o_def o_data_def core_cycles_def)
  have c1: "\<not> im_src_offset msg + ?n > sr_total_size (ts_sram_o (co_state src))"
    using assms(9) by (simp add: o_size_def word_less_nat_alt)
  have "unat (im_dst_offset msg + ?n) = unat (im_dst_offset msg) + unat ?n"
    using assms(10) unat_u32_less [of "sr_total_size (ts_sram_o (co_state dst))"] unfolding o_size_def
    by (intro u32_add_exact) linarith
  then have c2: "\<not> im_dst_offset msg + ?n > sr_total_size (ts_sram_o (co_state dst))"
    using assms(10) by (simp add: o_size_def word_less_nat_alt)
  let ?cl = "(set_core (im_dst_core_id msg) dst2 cl1)\<lparr>cl_stats := (cl_stats cl1)\<lparr>cs_total_icc_messages := cs_total_icc_messages (cl_stats cl1) + 1,
      cs_total_icc_bytes := cs_total_icc_bytes (cl_stats cl1) + ucast ?n,
      cs_total_icc_cycles := cs_total_icc_cycles (cl_stats cl1) + lat\<rparr>\<rparr>"
  have send: "tu_cluster_send fresh cl msg = Some (0, ?cl)"
    unfolding tu_cluster_send_def Let_def assms(5,6) [symmetric] assms(11) rd bind.simps prod.case
      tmp_def [symmetric] src'_def [symmetric] cl1_def [symmetric] dst'_def [symmetric] wr dst2_def [symmetric]
    using lt(3,4) assms(4,7,8,12) c1 c2 by (simp add: set_core_def)
  have cores: "cl_cores ?cl = (cl_cores cl)[?s := src', ?d := dst2]" by (simp add: set_core_def cores1)
  have same: "(map f (cl_cores cl))[?s := f src'] = map f (cl_cores cl)" if "f src' = f src" for f :: "tu_core \<Rightarrow> 'a"
    using that lt(1) assms(5) by (simp add: list_update_same_conv)
  have "map o_data (cl_cores ?cl) = (map o_data (cl_cores cl))[?d := put_bytes (o_data dst) (unat (im_dst_offset msg)) bs]"
    unfolding cores map_update d2(1) same [of o_data, OF s'(1)] ..
  moreover have "map core_cycles (cl_cores ?cl) = (map core_cycles (cl_cores cl))[?d := core_cycles dst + lat]"
    unfolding cores map_update d2(2) same [of core_cycles, OF s'(2)] ..
  moreover have "cl_stats ?cl = (cl_stats cl)\<lparr>cs_total_icc_messages := cs_total_icc_messages (cl_stats cl) + 1,
      cs_total_icc_bytes := cs_total_icc_bytes (cl_stats cl) + ucast ?n, cs_total_icc_cycles := cs_total_icc_cycles (cl_stats cl) + lat\<rparr>"
    by (simp add: cl1_def set_core_def)
  ultimately show ?thesis using send by blast
qed

text \<open>
  C14. A transfer that fits both output buffers puts the bytes of the source core at the offset of the
  destination, changes the output of no other core, charges the latency to the destination only, and
  counts one message, its bytes and its cycles.
\<close>

theorem send_copies:
  assumes "cluster_ok cl"
    and "unat (im_src_core_id msg) < unat (cl_num_cores cl)" "unat (im_dst_core_id msg) < unat (cl_num_cores cl)"
    and "im_size_bytes msg \<noteq> 0" "src = cl_cores cl ! unat (im_src_core_id msg)" "dst = cl_cores cl ! unat (im_dst_core_id msg)"
    and "co_initialized src" "co_initialized dst"
    and "unat (im_src_offset msg) + unat (im_size_bytes msg) \<le> o_size src"
    and "unat (im_dst_offset msg) + unat (im_size_bytes msg) \<le> o_size dst"
    and "tu_cluster_estimate_transfer_cycles cl (im_src_core_id msg) (im_dst_core_id msg) (im_size_bytes msg) = Some lat"
    and "lat \<noteq> UINT64_MAX"
  shows "\<exists>cl'. tu_cluster_send fresh cl msg = Some (0, cl') \<and>
    map o_data (cl_cores cl') = (map o_data (cl_cores cl))[unat (im_dst_core_id msg) :=
      put_bytes (o_data dst) (unat (im_dst_offset msg))
        (bytes_at (o_data src) (unat (im_src_offset msg)) (unat (im_size_bytes msg)))] \<and>
    map core_cycles (cl_cores cl') = (map core_cycles (cl_cores cl))[unat (im_dst_core_id msg) := core_cycles dst + lat] \<and>
    cl_stats cl' = (cl_stats cl)\<lparr>cs_total_icc_messages := cs_total_icc_messages (cl_stats cl) + 1,
      cs_total_icc_bytes := cs_total_icc_bytes (cl_stats cl) + ucast (im_size_bytes msg),
      cs_total_icc_cycles := cs_total_icc_cycles (cl_stats cl) + lat\<rparr>"
proof -
  have "unat (im_src_offset msg + im_size_bytes msg) = unat (im_src_offset msg) + unat (im_size_bytes msg)"
    using assms(9) unat_u32_less [of "sr_total_size (ts_sram_o (co_state src))"] unfolding o_size_def
    by (intro u32_add_exact) linarith
  then have fits: "unat (im_src_offset msg + im_size_bytes msg) \<le> o_size src" using assms(9) by simp
  have len: "length (cl_cores cl) = unat (cl_num_cores cl)" using assms(1) by (simp add: cluster_ok_def)
  show ?thesis
    by (rule send_effect [OF len assms(2-8) fits assms(10-12)]) (simp add: assms(9))
qed

text \<open>
  C37. The bounds test adds offset and length in 32 bits. When the sum of the source wraps, the read is refused
  but its result is not looked at: the transfer reports success and writes what the fresh buffer held.
\<close>

theorem wrapping_send_leaks_memory:
  assumes "cluster_ok cl"
    and "unat (im_src_core_id msg) < unat (cl_num_cores cl)" "unat (im_dst_core_id msg) < unat (cl_num_cores cl)"
    and "im_size_bytes msg \<noteq> 0" "src = cl_cores cl ! unat (im_src_core_id msg)" "dst = cl_cores cl ! unat (im_dst_core_id msg)"
    and "co_initialized src" "co_initialized dst"
    and "unat (im_src_offset msg + im_size_bytes msg) \<le> o_size src"
    and "o_size src < unat (im_src_offset msg) + unat (im_size_bytes msg)"
    and "unat (im_dst_offset msg) + unat (im_size_bytes msg) \<le> o_size dst"
    and "tu_cluster_estimate_transfer_cycles cl (im_src_core_id msg) (im_dst_core_id msg) (im_size_bytes msg) = Some lat"
    and "lat \<noteq> UINT64_MAX"
  shows "\<exists>cl'. tu_cluster_send fresh cl msg = Some (0, cl') \<and>
    map o_data (cl_cores cl') = (map o_data (cl_cores cl))[unat (im_dst_core_id msg) :=
      put_bytes (o_data dst) (unat (im_dst_offset msg)) (take (unat (im_size_bytes msg)) fresh)]"
proof -
  have len: "length (cl_cores cl) = unat (cl_num_cores cl)" using assms(1) by (simp add: cluster_ok_def)
  have "take (unat (im_size_bytes msg)) fresh = (if unat (im_src_offset msg) + unat (im_size_bytes msg) \<le> o_size src
      then bytes_at (o_data src) (unat (im_src_offset msg)) (unat (im_size_bytes msg))
      else take (unat (im_size_bytes msg)) fresh)" using assms(10) by simp
  from send_effect [OF len assms(2-9,11-13) this] show ?thesis by blast
qed

section \<open>A ring of three and a mesh of two rows\<close>

definition small_cluster :: "tu_topology \<Rightarrow> u32 \<Rightarrow> tu_cluster" where
  "small_cluster topology n = \<lparr>cl_num_cores = n, cl_cluster_id = 0, cl_topology = topology, cl_mesh_rows = 2, cl_mesh_cols = 2,
     cl_cores = replicate (unat n) small_core, cl_hop_latency = 5, cl_switching_mode = 0, cl_contention_mode = 0,
     cl_mesh_routing_mode = 0, cl_link_bytes_per_cycle = 16,
     cl_stats = \<lparr>cs_total_icc_messages = 0, cs_total_icc_bytes = 0, cs_total_icc_cycles = 0, cs_total_barriers = 0,
       cs_icc_bandwidth_gbps = 0\<rparr>, cl_initialized = True, cl_barrier_counter = 0\<rparr>"

definition small_ring :: tu_cluster where "small_ring = small_cluster TU_TOPOLOGY_RING 3"
definition small_mesh :: tu_cluster where "small_mesh = small_cluster TU_TOPOLOGY_MESH 4"

lemma small_ok: "cluster_ok small_ring" "cluster_ok small_mesh"
  by (simp_all add: cluster_ok_def small_ring_def small_mesh_def small_cluster_def)

lemma small_core_output:
  "co_initialized small_core" "o_size small_core = 8" "o_data small_core = replicate 8 0" "core_cycles small_core = 0"
  by code_simp+

lemma ring_fields:
  "cl_num_cores small_ring = 3" "cl_topology small_ring = TU_TOPOLOGY_RING" "cl_cores small_ring = replicate 3 small_core"
  "cl_stats small_ring = \<lparr>cs_total_icc_messages = 0, cs_total_icc_bytes = 0, cs_total_icc_cycles = 0, cs_total_barriers = 0,
     cs_icc_bandwidth_gbps = 0\<rparr>"
  by (simp_all add: small_ring_def small_cluster_def)

lemma ring_transfer: "tu_cluster_estimate_transfer_cycles small_ring 0 2 4 = Some 5"
  by (simp add: tu_cluster_estimate_transfer_cycles_def tu_cluster_hop_distance_def small_ring_def small_cluster_def
      TU_ICC_SWITCH_LEGACY_HOP_ONLY_def Let_def)

lemma mesh_fields:
  "cl_num_cores small_mesh = 4" "cl_mesh_rows small_mesh = 2" "cl_mesh_cols small_mesh = 2"
  "cl_topology small_mesh = TU_TOPOLOGY_MESH" "cl_mesh_routing_mode small_mesh = 0"
  by (simp_all add: small_mesh_def small_cluster_def)

theorem created_cluster_ready_witness:
  "\<exists>cl w'. tu_cluster_create 3 TU_TOPOLOGY_RING 1 (Some small_config) fresh_world = (Some cl, w') \<and> cluster_ok cl \<and>
    map co_core_id (cl_cores cl) = map of_nat [0..<3] \<and> list_all fresh_core (cl_cores cl)"
proof -
  have m: "sram_word_metering small_config \<in> {0, 1}" by (simp add: small_config_def tu_runtime_config_default_def)
  have l: "(3 :: u32) \<noteq> 0" "unat (3 :: u32) \<le> 256" "(1 :: u32) \<noteq> 0" "unat (1 :: u32) \<le> 4294967039" "unat (3 :: u32) = 3" by simp_all
  note c = created_cluster_ready [where num_cores = 3 and cfg = small_config and rows = 1 and topology = TU_TOPOLOGY_RING
      and w = fresh_world, OF l(1,2) m l(3,4), unfolded l(5)]
  show ?thesis using c by blast
qed

theorem neighbors_are_one_hop_witness:
  "\<exists>ids k. tu_cluster_neighbors small_ring 0 = Some (ids, k) \<and> set (take (unat k) ids) = {c. tu_cluster_hop_distance small_ring 0 c = Some 1}"
proof -
  have "unat (0 :: u32) < unat (cl_num_cores small_ring)" by (simp add: ring_fields)
  from neighbors_are_one_hop [OF small_ok(1) this] show ?thesis by blast
qed

theorem route_is_shortest_witness:
  "\<exists>ps. add_route_service small_mesh 0 3 7 (replicate 16 0) = Some (0, charge_path 4 7 0 ps (replicate 16 0)) \<and>
    last (0 # ps) = 3 \<and> tu_cluster_hop_distance small_mesh 0 3 = Some (of_nat (length ps))"
proof -
  have h: "unat (0 :: u32) < unat (cl_num_cores small_mesh)" "unat (3 :: u32) < unat (cl_num_cores small_mesh)"
    "cl_topology small_mesh = TU_TOPOLOGY_RING \<or> cl_topology small_mesh = TU_TOPOLOGY_MESH \<and>
      cl_mesh_routing_mode small_mesh \<in> {TU_ICC_MESH_ROUTE_XY, TU_ICC_MESH_ROUTE_YX} \<and>
      unat (cl_num_cores small_mesh) = unat (cl_mesh_rows small_mesh) * unat (cl_mesh_cols small_mesh)"
    by (simp_all add: mesh_fields TU_ICC_MESH_ROUTE_XY_def)
  from route_is_shortest [OF small_ok(2) h, where service = 7 and links = "replicate 16 0", unfolded mesh_fields(1)]
  show ?thesis by blast
qed

definition small_message :: "u32 \<Rightarrow> tu_icc_message" where
  "small_message off = \<lparr>im_src_core_id = 0, im_dst_core_id = 2, im_src_offset = off, im_dst_offset = 1, im_size_bytes = 4,
     im_tag = 0, im_blocking = True, im_latency_cycles = 0\<rparr>"

lemma small_message_fields:
  "im_src_core_id (small_message off) = 0" "im_dst_core_id (small_message off) = 2" "im_src_offset (small_message off) = off"
  "im_dst_offset (small_message off) = 1" "im_size_bytes (small_message off) = 4"
  by (simp_all add: small_message_def)

lemma ring_cores:
  "small_core = cl_cores small_ring ! unat (im_src_core_id (small_message off))"
  "small_core = cl_cores small_ring ! unat (im_dst_core_id (small_message off))"
  "unat (im_src_core_id (small_message off)) < unat (cl_num_cores small_ring)"
  "unat (im_dst_core_id (small_message off)) < unat (cl_num_cores small_ring)" "im_size_bytes (small_message off) \<noteq> 0"
  "unat (im_dst_offset (small_message off)) + unat (im_size_bytes (small_message off)) \<le> o_size small_core"
  "tu_cluster_estimate_transfer_cycles small_ring (im_src_core_id (small_message off)) (im_dst_core_id (small_message off))
    (im_size_bytes (small_message off)) = Some 5" "(5 :: u64) \<noteq> UINT64_MAX"
  by (simp_all add: ring_fields small_message_fields small_core_output ring_transfer)

theorem send_copies_witness:
  "\<exists>cl'. tu_cluster_send [] small_ring (small_message 2) = Some (0, cl') \<and>
    map core_cycles (cl_cores cl') = (map core_cycles (cl_cores small_ring))[2 := 5]"
proof -
  have h: "unat (im_src_offset (small_message 2)) + unat (im_size_bytes (small_message 2)) \<le> o_size small_core"
    "unat (im_dst_core_id (small_message 2)) = 2" "core_cycles small_core + 5 = 5"
    by (simp_all add: small_message_fields small_core_output)
  from send_copies [OF small_ok(1) ring_cores(3,4,5,1,2) small_core_output(1) small_core_output(1) h(1) ring_cores(6-8),
      where fresh = "[]", unfolded h(2,3)]
  show ?thesis by blast
qed

theorem wrapping_send_leaks_memory_witness:
  "\<exists>cl'. tu_cluster_send [0xDE, 0xAD, 0xBE, 0xEF] small_ring (small_message 0xFFFFFFFE) = Some (0, cl') \<and>
    map o_data (cl_cores cl') = [replicate 8 0, replicate 8 0, [0, 0xDE, 0xAD, 0xBE, 0xEF, 0, 0, 0]]"
proof -
  let ?m = "small_message 0xFFFFFFFE"
  have h: "unat (im_src_offset ?m + im_size_bytes ?m) \<le> o_size small_core"
    "o_size small_core < unat (im_src_offset ?m) + unat (im_size_bytes ?m)"
    "unat (im_dst_core_id ?m) = 2" "unat (im_dst_offset ?m) = 1" "unat (im_size_bytes ?m) = 4"
    by (simp_all add: small_message_fields small_core_output)
  have d: "(map o_data (cl_cores small_ring))[2 := put_bytes (o_data small_core) 1 (take 4 [0xDE, 0xAD, 0xBE, 0xEF])] =
      [replicate 8 0, replicate 8 0, [0, 0xDE, 0xAD, 0xBE, 0xEF, 0, 0, 0]]"
    by (simp add: ring_fields small_core_output put_bytes_def numeral_eq_Suc)
  from wrapping_send_leaks_memory [OF small_ok(1) ring_cores(3,4,5,1,2) small_core_output(1) small_core_output(1) h(1,2) ring_cores(6-8),
      where fresh = "[0xDE, 0xAD, 0xBE, 0xEF]", unfolded h(3-5) d]
  show ?thesis by blast
qed

end
