(* ===== verification/Spec2Isabelle.thy ===== *)
theory Spec2Isabelle
  imports Prelude Isa Scheduler Liveness Command_Queue Queue_Runs Address_Gen Sram Dma_Desc Dma_Config
    Dma_Timing Dma_Engine Dma_Arbiter Dma_Runs Dram Rounding Float_Formats Byte_Buffer Weight_Rle
    Weight_Bitmap Weight_Adaptive Weight_Cost Core Context Cluster
begin

text \<open>
  A verification library for tusim, the C model of a tensor unit (\<open>src/tu_cmodel\<close>).

  The simulator. A program is a list of instructions (\<open>isa/tu_isa.h\<close>). The static scheduler
  (\<open>isa/tu_scheduler.c\<close>) reorders it and the allocator (\<open>isa/tu_liveness.c\<close>) places its operands in
  the scratchpads. At run time commands go through the command queue (\<open>command_queue.c\<close>). Operands
  live in SRAM regions (\<open>tu_sram.c\<close>), which may be double buffered (\<open>memory/double_buffer.c\<close>); address
  streams over tensors come from the address generator (\<open>memory/address_generator.c\<close>). Transfers
  between host memory and SRAM are descriptors that the DMA engine (\<open>dma_descriptor.c\<close>) checks, times,
  arbitrates and executes; off-chip timing is the DRAM model (\<open>memory/dram_model.c\<close>). Weights may travel
  compressed (\<open>memory/weight_compress.c\<close>), as half floats made by the conversions (\<open>tu_precision.c\<close>,
  \<open>tf32.c\<close>) under the rounding modes of \<open>rounding.c\<close>. A global instance owns the regions, the engine
  and the queue (\<open>tu_cmodel.c\<close>); a core (\<open>tu_core.c\<close>) puts its own state there for the length of a call.
  Contexts share a core (\<open>infra/tu_context.c\<close>), and clusters join cores by a ring or a mesh
  (\<open>tu_cluster.c\<close>).

  Conventions. A C integer is a word of its width and wraps as in C; a structure is a record with the
  fields of the source, an enumeration a datatype. A global or a structure behind a pointer is a
  record that an operation takes and returns. Arrays are lists; a \<open>NULL\<close> that callers may pass is
  \<open>None\<close>, where it matters, and tests of pointers that are never \<open>NULL\<close> in a run are left out. An
  access outside an array is undefined behaviour in C and the value \<open>None\<close> here (\<open>Dma_Desc\<close>,
  \<open>Byte_Buffer\<close>), so that staying inside is a theorem. A loop that need not end is a
  \<open>partial_function (option)\<close> or has its end proved; no property holds only because a call does not
  return. Fuel is used once: the normalisation of a half subnormal shifts at most ten times, since a
  half has ten mantissa bits. Whether memory is allocated is a boolean input
  of the DRAM constructors and of double buffering; elsewhere allocation succeeds, as each theory says.
  The host is little-endian.

  The theories, with their main lemmas.

  \<^item> \<open>Prelude\<close>: machine types, lists, searches, unsigned words read as natural numbers.
  \<^item> \<open>Isa\<close>: opcodes with their name and category tables, instruction words, decoded flags.
  \<^item> \<open>Scheduler\<close>: access sets, hazards, the dependence graph with its 16-entry edge arrays, mobility
    passes and list scheduling. A run is a permutation of the program, keeps hazards in order, and
    computes the same on every machine whose independent instructions commute (locales \<open>dag_producer\<close>
    and \<open>commuting_steps\<close>).
  \<^item> \<open>Liveness\<close>: definitions and uses, live ranges, interference graphs, first-fit placement with
    spill victims, and the rewriting of the program. Defined registers that are live together
    do not overlap and those that do not fit are marked as spilled; a register that is only used goes
    to offset 0, untested. Two theorems show where the analysis loses liveness.
  \<^item> \<open>Command_Queue\<close>, \<open>Queue_Runs\<close>: slots, submission, ticks, waiting, draining and barriers (locale
    \<open>slot_scan\<close>); then the runs: a command executes once, after its dependencies, and which calls return.
  \<^item> \<open>Address_Gen\<close>: the iterator over all traversal modes, ranges, tiling and im2col (locale
    \<open>address_stream\<close>); the streams are the nested loops they replace.
  \<^item> \<open>Sram\<close>: regions with bounds checks, bandwidth metering and double buffers as one state (locale
    \<open>byte_store\<close>): exact writes, read back, well-formedness of reachable regions.
  \<^item> \<open>Dma_Desc\<close>: descriptor constructors, checked geometry and the copies of every transfer type; an
    accepted transfer stays inside its regions, if a scatter or gather has no base offset, which its
    check ignores.
  \<^item> \<open>Dma_Config\<close>, \<open>Dma_Timing\<close>: the initialisers with every rejection; bursts, cycles and costs.
  \<^item> \<open>Dma_Engine\<close>, \<open>Dma_Arbiter\<close>, \<open>Dma_Runs\<close>: execution, submission, flushing and the tick with its
    four arbiters; the contract of an arbiter (locale \<open>arbiter\<close>, interpreted on deficit round robin and
    on the priority arbiters); reachable engines, where the tick returns, a shared bus is exclusive and
    works when there is work, and the books of a channel balance (locale \<open>quiet_update\<close>).
  \<^item> \<open>Dram\<close>: address mapping, row buffers, refresh, turnaround and bandwidth. The mapping is a
    bijection onto its places, a catch-up fires exactly the refreshes that are due, calls return and
    reachable models are well-formed.
  \<^item> \<open>Rounding\<close>, \<open>Float_Formats\<close>: rounding modes and the generator behind stochastic rounding; FP16,
    BF16 and TF32 on bit patterns: nearest even for normal results, exact round trip of halves.
  \<^item> \<open>Byte_Buffer\<close>, \<open>Weight_Rle\<close>, \<open>Weight_Bitmap\<close>, \<open>Weight_Adaptive\<close>, \<open>Weight_Cost\<close>: the weight streams
    (locale \<open>weight_codec\<close>, interpreted on the raw, run-length and bitmap payloads). Decoding returns
    what was encoded, no decoder reads or writes outside its arrays, the adaptive frame is the
    smallest, and the cycle estimate covers the transfer.
  \<^item> \<open>Core\<close>: the runtime configuration, initialisation, the transfers of the global instance with their
    accounting, and cores over an explicit world of globals. Created cores are well-formed; a load
    lands where it should, on the core only.
  \<^item> \<open>Context\<close>: contexts with save, restore, switch and scheduling. In every reachable manager at most
    one context is active and the books balance; with whole buffers saved a context finds its core as
    it left it, but for what is not saved. Both policies are pickers of ready contexts (locale
    \<open>ready_picker\<close>): round robin is a search of the ring, and priority order, for any priorities the
    program sets, takes the first ready context of the highest priority above 0.
  \<^item> \<open>Cluster\<close>: creation, distances, routes, traffic, neighbours and transfers. The three loops of the
    router share one contract (locale \<open>router\<close>): a route is a shortest path between neighbours. The
    neighbours are the cores at distance one, a transfer copies exactly.

  Not modelled. Floating point arithmetic of the host: the compute engines, the core's matrix kernels,
  FP8, quantisation scales, power and bandwidth reports; where a double decides an integer (DRAM clocks)
  the integer is an input. Text and files: the assembler, configuration and JSON files, logging, the
  debugger, printing functions. Glue: the foreign bindings. Layers that no other file of the simulator
  includes: the pipeline controller, the memory hierarchy and the event trace. Outside the chosen core:
  structured sparsity and the conversion of address ranges into DMA descriptors.
\<close>

end
